(* ===== verification/TF_Prelude.thy ===== *)
theory TF_Prelude
  imports Main "HOL-Library.Word"
begin

text \<open>
  Shared vocabulary of the development: bytes and byte strings, status values,
  the byte-wise three-way comparison of \<^verbatim>\<open>lib/core/stringpiece.h\<close>, the
  strict "first difference" order on byte strings that composes under
  concatenation, and the two codec interfaces (\<open>codec\<close>, \<open>ordered_codec\<close>)
  that every wire format of \<^verbatim>\<open>lib/core/coding.cc\<close>,
  \<^verbatim>\<open>lib/strings/ordered_code.cc\<close> and \<^verbatim>\<open>lib/io/format.cc\<close> is an
  interpretation of.
\<close>

unbundle bit_operations_syntax

section \<open>Types and collections\<close>

type_synonym byte = "8 word"
type_synonym bytes = "8 word list"
type_synonym uint16 = "16 word"
type_synonym uint32 = "32 word"
type_synonym uint64 = "64 word"

named_theorems codec_simps \<open>round-trip equations of the wire formats\<close>
named_theorems mask_simps \<open>bit masks of the source as take_bit\<close>

text \<open>
  \<^verbatim>\<open>tensorflow::Status\<close> (\<^verbatim>\<open>lib/core/status.h\<close>): a null state is success;
  otherwise an error code and a message. Only the codes the modelled code
  raises are listed.
\<close>

datatype error_code =
    CANCELLED | INVALID_ARGUMENT | NOT_FOUND | ALREADY_EXISTS | FAILED_PRECONDITION
  | ABORTED | OUT_OF_RANGE | UNIMPLEMENTED | INTERNAL | DATA_LOSS | DUPLICATE_CODE

datatype status = OK | Error error_code string

fun status_ok :: "status \<Rightarrow> bool" where
  "status_ok OK = True"
| "status_ok (Error c m) = False"

section \<open>Bit-level lemmas\<close>

lemma and_127 [mask_simps]: "(x :: 'a::len word) AND 127 = take_bit 7 x"
proof -
  have "(127 :: 'a word) = mask 7" by (simp add: mask_eq_exp_minus_1)
  then show ?thesis by (simp only: take_bit_eq_mask)
qed

lemma and_255 [mask_simps]: "(x :: 'a::len word) AND 255 = take_bit 8 x"
proof -
  have "(255 :: 'a word) = mask 8" by (simp add: mask_eq_exp_minus_1)
  then show ?thesis by (simp only: take_bit_eq_mask)
qed

lemma bit_128_int [simp]: "bit (128 :: int) n \<longleftrightarrow> n = 7"
proof -
  have "(128 :: int) = 2 ^ 7" by simp
  then have "bit (128 :: int) n = bit ((2 :: int) ^ 7) n" by (rule arg_cong)
  then show ?thesis unfolding bit_exp_iff by auto
qed

lemma and_128_eq_0_iff: "((x :: 'a::len word) AND 128 = 0) = (\<not> bit x 7)"
proof
  assume "x AND 128 = 0"
  then have "\<not> bit (x AND 128) 7" by simp
  then show "\<not> bit x 7" by (auto simp: bit_and_iff dest: bit_imp_le_length)
next
  assume "\<not> bit x 7"
  then show "x AND 128 = 0"
    by (intro bit_word_eqI) (auto simp: bit_and_iff)
qed

lemma or_push_bit_eq_plus:
  fixes r x :: "'a::len word"
  assumes "take_bit s r = r"
  shows "r OR push_bit s x = r + push_bit s x"
proof -
  have "r AND push_bit s x = 0"
  proof (rule bit_word_eqI)
    fix n assume "n < LENGTH('a)"
    have "\<not> bit r n" if "s \<le> n"
      using assms that by (metis bit_take_bit_iff leD)
    then show "bit (r AND push_bit s x) n = bit (0 :: 'a word) n"
      by (auto simp: bit_and_iff bit_push_bit_iff)
  qed
  then show ?thesis by (simp add: disjunctive_add_eq_or)
qed

lemma take_bit_eq_self_unat:
  "(take_bit s (r :: 'a::len word) = r) = (unat r < 2 ^ s)"
proof -
  have "(take_bit s r = r) = (unat (take_bit s r) = unat r)"
    by (rule word_unat_eq_iff)
  also have "\<dots> = (unat r mod 2 ^ s = unat r)"
    by (simp only: unsigned_take_bit_eq take_bit_nat_def)
  also have "\<dots> = (unat r < 2 ^ s)"
    by (metis mod_less mod_less_divisor zero_less_numeral zero_less_power)
  finally show ?thesis .
qed

lemma unat_or_push_bit:
  fixes r x :: "'a::len word"
  assumes "unat r < 2 ^ s" and "unat r + unat x * 2 ^ s < 2 ^ LENGTH('a)"
  shows "unat (r OR push_bit s x) = unat r + unat x * 2 ^ s"
proof -
  have "unat (push_bit s x) = unat x * 2 ^ s"
    using assms(2)
    by (simp only: unsigned_push_bit_eq push_bit_nat_def take_bit_nat_def) simp
  moreover have "r OR push_bit s x = r + push_bit s x"
    using assms(1) by (intro or_push_bit_eq_plus) (simp add: take_bit_eq_self_unat)
  ultimately show ?thesis
    using assms(2) by (simp add: unat_word_ariths)
qed

lemma word_of_nat_unat: "word_of_nat (unat w) = w"
  by simp

section \<open>StringPiece comparison\<close>

text \<open>
  \<^verbatim>\<open>memcmp\<close> over the first \<open>n\<close> bytes, as the C library documents it: the sign
  of the first difference of the bytes read as unsigned.
\<close>

fun memcmp :: "nat \<Rightarrow> bytes \<Rightarrow> bytes \<Rightarrow> int" where
  "memcmp (Suc n) (a # as) (b # bs) =
     (if a < b then -1 else if b < a then 1 else memcmp n as bs)"
| "memcmp n as bs = 0"

definition compare :: "bytes \<Rightarrow> bytes \<Rightarrow> int" where
  "compare a b =
     (let min_len = (if length a < length b then length a else length b);
          r = memcmp min_len a b
      in if r = 0
         then (if length a < length b then -1 else if length b < length a then 1 else r)
         else r)"

definition starts_with :: "bytes \<Rightarrow> bytes \<Rightarrow> bool" where
  "starts_with s x \<longleftrightarrow> length x \<le> length s \<and> memcmp (length x) s x = 0"

lemma memcmp_self [simp]: "memcmp n a a = 0"
proof (induction a arbitrary: n)
  case Nil
  then show ?case by (cases n) auto
next
  case (Cons x a)
  then show ?case by (cases n) auto
qed

lemma compare_simps [simp]:
  "compare [] [] = 0"
  "compare [] (b # bs) = -1"
  "compare (a # as) [] = 1"
  "compare (a # as) (b # bs) = (if a < b then -1 else if b < a then 1 else compare as bs)"
  by (simp_all add: compare_def Let_def)

lemma compare_range: "compare a b \<in> {-1, 0, 1}"
  by (induction a b rule: list_induct2') auto

lemma compare_eq_0_iff [simp]: "compare a b = 0 \<longleftrightarrow> a = b"
  by (induction a b rule: list_induct2') auto

lemma compare_self [simp]: "compare a a = 0"
  by simp

lemma compare_antisym: "compare b a = - compare a b"
  by (induction a b rule: list_induct2') auto

lemma compare_less_trans: "compare a b < 0 \<Longrightarrow> compare b c < 0 \<Longrightarrow> compare a c < 0"
proof (induction a arbitrary: b c)
  case Nil
  then show ?case by (cases b; cases c) auto
next
  case (Cons x a)
  then show ?case by (cases b; cases c) (auto split: if_splits)
qed

lemma compare_le_less_trans: "compare a b \<le> 0 \<Longrightarrow> compare b c < 0 \<Longrightarrow> compare a c < 0"
  using compare_less_trans [of a b c] by (cases "compare a b = 0") auto

lemma compare_append_prefix [simp]: "compare (p @ a) (p @ b) = compare a b"
  by (induction p) auto

lemma starts_with_iff: "starts_with s x \<longleftrightarrow> (\<exists>t. s = x @ t)"
proof -
  have "memcmp (length x) s x = 0 \<longleftrightarrow> take (length x) s = x" if "length x \<le> length s"
    using that by (induction s x rule: list_induct2') auto
  then show ?thesis
    unfolding starts_with_def by (metis append_eq_conv_conj append_take_drop_id le_add1 length_append)
qed

section \<open>The first-difference order\<close>

text \<open>
  \<open>first_diff_lt a b\<close>: the strings differ at some common position, and \<open>a\<close> has the
  smaller byte at the first such position. Unlike plain lexicographic order it is
  preserved when arbitrary bytes are appended to either side, which is what makes
  concatenated order-preserving encodings order-preserving.
\<close>

fun first_diff_lt :: "bytes \<Rightarrow> bytes \<Rightarrow> bool" where
  "first_diff_lt (a # as) (b # bs) = (a < b \<or> a = b \<and> first_diff_lt as bs)"
| "first_diff_lt as bs = False"

lemma first_diff_lt_append: "first_diff_lt a b \<Longrightarrow> first_diff_lt (a @ r) (b @ s)"
  by (induction a b rule: first_diff_lt.induct) auto

lemma first_diff_lt_prefix [simp]: "first_diff_lt (p @ a) (p @ b) = first_diff_lt a b"
  by (induction p) auto

lemma first_diff_lt_compare: "first_diff_lt a b \<Longrightarrow> compare a b < 0"
  by (induction a b rule: first_diff_lt.induct) auto

lemma first_diff_lt_irrefl [simp]: "\<not> first_diff_lt a a"
  by (induction a) auto

lemma first_diff_lt_equal_length:
  "length a = length b \<Longrightarrow> first_diff_lt a b \<longleftrightarrow> compare a b < 0"
  by (induction a b rule: list_induct2) auto

section \<open>Codec interfaces\<close>

text \<open>
  A wire format: \<open>enc\<close> appends the encoding of a value, \<open>dec\<close> consumes one from the
  front of the input and returns the rest, \<open>valid\<close> are the encodable values. The law is
  that decoding an encoding followed by anything returns the value and exactly what
  followed. Injectivity, prefix-freeness and decoding of sequences follow once, here.
\<close>

fun dec_many :: "(bytes \<Rightarrow> ('a \<times> bytes) option) \<Rightarrow> nat \<Rightarrow> bytes \<Rightarrow> ('a list \<times> bytes) option" where
  "dec_many dec 0 bs = Some ([], bs)"
| "dec_many dec (Suc n) bs =
     (case dec bs of
        None \<Rightarrow> None
      | Some (x, rest) \<Rightarrow>
          (case dec_many dec n rest of
             None \<Rightarrow> None
           | Some (xs, rest') \<Rightarrow> Some (x # xs, rest')))"

locale codec =
  fixes enc :: "'a \<Rightarrow> bytes"
    and dec :: "bytes \<Rightarrow> ('a \<times> bytes) option"
    and valid :: "'a \<Rightarrow> bool"
  assumes dec_enc: "valid x \<Longrightarrow> dec (enc x @ rest) = Some (x, rest)"
begin

lemma dec_enc_nil: "valid x \<Longrightarrow> dec (enc x) = Some (x, [])"
  using dec_enc [of x "[]"] by simp

lemma prefix_free:
  assumes "valid x" and "valid y" and "enc x @ r = enc y @ s"
  shows "x = y \<and> r = s"
proof -
  have "dec (enc y @ s) = Some (x, r)"
    using dec_enc [OF assms(1), of r] unfolding assms(3) .
  moreover have "dec (enc y @ s) = Some (y, s)"
    by (rule dec_enc [OF assms(2)])
  ultimately show ?thesis by auto
qed

lemma enc_inj: "valid x \<Longrightarrow> valid y \<Longrightarrow> enc x = enc y \<Longrightarrow> x = y"
  using prefix_free [of x y "[]" "[]"] by blast

lemma dec_many_enc:
  "list_all valid xs \<Longrightarrow> dec_many dec (length xs) (concat (map enc xs) @ rest) = Some (xs, rest)"
  by (induction xs) (auto simp: dec_enc)

end

text \<open>
  An order-preserving format: smaller values have encodings that are smaller at the first
  differing byte, so that the order survives whatever is appended.
\<close>

locale ordered_codec = codec +
  fixes less :: "'a \<Rightarrow> 'a \<Rightarrow> bool"
  assumes enc_mono:
    "valid x \<Longrightarrow> valid y \<Longrightarrow> less x y \<Longrightarrow> first_diff_lt (enc x) (enc y)"
    and less_total: "valid x \<Longrightarrow> valid y \<Longrightarrow> x = y \<or> less x y \<or> less y x"
begin

lemma compare_mono:
  "valid x \<Longrightarrow> valid y \<Longrightarrow> less x y \<Longrightarrow> compare (enc x @ r) (enc y @ s) < 0"
  by (blast intro: enc_mono first_diff_lt_append first_diff_lt_compare)

lemma compare_iff:
  assumes "valid x" and "valid y"
  shows "compare (enc x) (enc y) < 0 \<longleftrightarrow> less x y"
proof
  assume lt: "compare (enc x) (enc y) < 0"
  have "\<not> less y x" using compare_mono [OF assms(2,1), of "[]" "[]"] lt compare_antisym [of "enc x" "enc y"]
    by auto
  moreover have "x \<noteq> y" using lt by auto
  ultimately show "less x y" using less_total [OF assms] by blast
next
  assume "less x y"
  then show "compare (enc x) (enc y) < 0" using compare_mono [OF assms, of "[]" "[]"] by simp
qed

text \<open>The comparison of two keys is decided by the field, then by what follows.\<close>

lemma compare_append:
  assumes "valid x" and "valid y"
  shows "compare (enc x @ r) (enc y @ s) =
    (if x = y then compare r s else if less x y then -1 else 1)"
proof -
  have "compare (enc x @ r) (enc y @ s) = -1" if "less x y"
    using compare_mono [OF assms that, of r s] compare_range [of "enc x @ r" "enc y @ s"] by auto
  moreover have "compare (enc x @ r) (enc y @ s) = 1" if "less y x"
    using compare_mono [OF assms(2,1) that, of s r] compare_range [of "enc y @ s" "enc x @ r"]
      compare_antisym [of "enc x @ r" "enc y @ s"] by auto
  ultimately show ?thesis using less_total [OF assms] by auto
qed

text \<open>A sequence of fields orders by the first field in which two keys differ.\<close>

lemma compare_many:
  assumes "list_all valid (p @ x # xs)" and "list_all valid (p @ y # ys)" and "less x y"
  shows "compare (concat (map enc (p @ x # xs))) (concat (map enc (p @ y # ys))) < 0"
  using assms by (simp add: compare_mono)

end

text \<open>Two order-preserving formats one after the other order pairs lexicographically.\<close>

locale ordered_pair =
  a: ordered_codec enc1 dec1 valid1 less1 + b: ordered_codec enc2 dec2 valid2 less2
  for enc1 :: "'a \<Rightarrow> bytes" and dec1 and valid1 and less1
    and enc2 :: "'b \<Rightarrow> bytes" and dec2 and valid2 and less2
begin

lemma pair_dec:
  "valid1 x \<Longrightarrow> valid2 y \<Longrightarrow>
     (case dec1 (enc1 x @ enc2 y @ rest) of None \<Rightarrow> None
      | Some (x', r) \<Rightarrow> (case dec2 r of None \<Rightarrow> None | Some (y', r') \<Rightarrow> Some ((x', y'), r')))
     = Some ((x, y), rest)"
  by (simp add: a.dec_enc b.dec_enc)

lemma pair_mono:
  assumes "valid1 x" "valid1 x'" "valid2 y" "valid2 y'"
    and "less1 x x' \<or> x = x' \<and> less2 y y'"
  shows "first_diff_lt (enc1 x @ enc2 y) (enc1 x' @ enc2 y')"
  using assms by (auto intro: a.enc_mono b.enc_mono first_diff_lt_append)

lemma pair_compare:
  assumes "valid1 x" "valid1 x'" "valid2 y" "valid2 y'"
  shows "compare (enc1 x @ enc2 y @ r) (enc1 x' @ enc2 y' @ s) =
    (if x = x' \<and> y = y' then compare r s
     else if less1 x x' \<or> x = x' \<and> less2 y y' then -1 else 1)"
proof (cases "x = x'")
  case True
  have "\<not> less1 x x" using a.compare_mono [OF assms(1,1), of "[]" "[]"] by auto
  then show ?thesis using True assms by (simp add: a.compare_append b.compare_append)
qed (use assms in \<open>simp add: a.compare_append\<close>)

end

end
