(* ===== verification/TF_Coding.thy ===== *)
theory TF_Coding
  imports TF_Prelude
begin

text \<open>
  \<^verbatim>\<open>lib/core/coding.cc\<close>, \<^verbatim>\<open>lib/core/coding.h\<close> and
  \<^verbatim>\<open>lib/core/raw_coding.h\<close>: fixed-width little-endian integers and base-128
  varints. A writer into a character buffer is the list of bytes it writes; a reader
  over \<^verbatim>\<open>[p, limit)\<close> takes the bytes of that range and returns the value with the
  bytes from the returned pointer on, \<open>None\<close> for a null pointer or \<^verbatim>\<open>false\<close>.
  \<^verbatim>\<open>port::kLittleEndian\<close> is the first argument of the fixed-width routines:
  both its branches are modelled, and proved to agree.
\<close>

section \<open>Fixed-width integers\<close>

text \<open>
  The memory image of an integer, which is what \<^verbatim>\<open>memcpy\<close> from or to it moves:
  least significant byte first on a little-endian machine.
\<close>

definition le_bytes :: "nat \<Rightarrow> 'a::len word \<Rightarrow> bytes" where
  "le_bytes n w = map (\<lambda>i. ucast (drop_bit (8 * i) w)) [0..<n]"

definition mem_bytes :: "bool \<Rightarrow> nat \<Rightarrow> 'a::len word \<Rightarrow> bytes" where
  "mem_bytes kLittleEndian n w = (if kLittleEndian then le_bytes n w else rev (le_bytes n w))"

fun le_word :: "bytes \<Rightarrow> 'a::len word" where
  "le_word [] = 0"
| "le_word (b # bs) = ucast b OR push_bit 8 (le_word bs)"

definition mem_word :: "bool \<Rightarrow> bytes \<Rightarrow> 'a::len word" where
  "mem_word kLittleEndian bs = (if kLittleEndian then le_word bs else le_word (rev bs))"

definition EncodeFixed16 :: "bool \<Rightarrow> uint16 \<Rightarrow> bytes" where
  "EncodeFixed16 kLittleEndian value =
     (if kLittleEndian then mem_bytes kLittleEndian 2 value
      else [ucast (value AND 0xff), ucast (drop_bit 8 value AND 0xff)])"

definition EncodeFixed32 :: "bool \<Rightarrow> uint32 \<Rightarrow> bytes" where
  "EncodeFixed32 kLittleEndian value =
     (if kLittleEndian then mem_bytes kLittleEndian 4 value
      else [ucast (value AND 0xff), ucast (drop_bit 8 value AND 0xff),
            ucast (drop_bit 16 value AND 0xff), ucast (drop_bit 24 value AND 0xff)])"

definition EncodeFixed64 :: "bool \<Rightarrow> uint64 \<Rightarrow> bytes" where
  "EncodeFixed64 kLittleEndian value =
     (if kLittleEndian then mem_bytes kLittleEndian 8 value
      else [ucast (value AND 0xff), ucast (drop_bit 8 value AND 0xff),
            ucast (drop_bit 16 value AND 0xff), ucast (drop_bit 24 value AND 0xff),
            ucast (drop_bit 32 value AND 0xff), ucast (drop_bit 40 value AND 0xff),
            ucast (drop_bit 48 value AND 0xff), ucast (drop_bit 56 value AND 0xff)])"

definition PutFixed16 :: "bool \<Rightarrow> bytes \<Rightarrow> uint16 \<Rightarrow> bytes" where
  "PutFixed16 kLittleEndian dst value = dst @ EncodeFixed16 kLittleEndian value"

definition PutFixed32 :: "bool \<Rightarrow> bytes \<Rightarrow> uint32 \<Rightarrow> bytes" where
  "PutFixed32 kLittleEndian dst value = dst @ EncodeFixed32 kLittleEndian value"

definition PutFixed64 :: "bool \<Rightarrow> bytes \<Rightarrow> uint64 \<Rightarrow> bytes" where
  "PutFixed64 kLittleEndian dst value = dst @ EncodeFixed64 kLittleEndian value"

text \<open>
  The readers do no bounds checking: with fewer bytes than they read the C++ is
  undefined, here \<open>None\<close>.
\<close>

definition DecodeFixed16 :: "bool \<Rightarrow> bytes \<Rightarrow> uint16 option" where
  "DecodeFixed16 kLittleEndian ptr =
     (if length ptr < 2 then None
      else if kLittleEndian then Some (mem_word kLittleEndian (take 2 ptr))
      else Some (ucast (ptr ! 0) OR push_bit 8 (ucast (ptr ! 1))))"

definition DecodeFixed32 :: "bool \<Rightarrow> bytes \<Rightarrow> uint32 option" where
  "DecodeFixed32 kLittleEndian ptr =
     (if length ptr < 4 then None
      else if kLittleEndian then Some (mem_word kLittleEndian (take 4 ptr))
      else Some (ucast (ptr ! 0) OR push_bit 8 (ucast (ptr ! 1)) OR
                 push_bit 16 (ucast (ptr ! 2)) OR push_bit 24 (ucast (ptr ! 3))))"

definition DecodeFixed64 :: "bool \<Rightarrow> bytes \<Rightarrow> uint64 option" where
  "DecodeFixed64 kLittleEndian ptr =
     (if length ptr < 8 then None
      else if kLittleEndian then Some (mem_word kLittleEndian (take 8 ptr))
      else (case (DecodeFixed32 kLittleEndian ptr, DecodeFixed32 kLittleEndian (drop 4 ptr)) of
              (Some lo, Some hi) \<Rightarrow> Some (push_bit 32 (ucast hi) OR ucast lo)
            | _ \<Rightarrow> None))"

section \<open>Varints\<close>

definition EncodeVarint32 :: "uint32 \<Rightarrow> bytes" where
  "EncodeVarint32 v =
     (let B = 128 in
      if v < push_bit 7 1 then [ucast v]
      else if v < push_bit 14 1 then [ucast (v OR B), ucast (drop_bit 7 v)]
      else if v < push_bit 21 1 then
        [ucast (v OR B), ucast (drop_bit 7 v OR B), ucast (drop_bit 14 v)]
      else if v < push_bit 28 1 then
        [ucast (v OR B), ucast (drop_bit 7 v OR B), ucast (drop_bit 14 v OR B),
         ucast (drop_bit 21 v)]
      else
        [ucast (v OR B), ucast (drop_bit 7 v OR B), ucast (drop_bit 14 v OR B),
         ucast (drop_bit 21 v OR B), ucast (drop_bit 28 v)])"

definition PutVarint32 :: "bytes \<Rightarrow> uint32 \<Rightarrow> bytes" where
  "PutVarint32 dst v = dst @ EncodeVarint32 v"

lemma unat_drop_bit_7_less: "\<not> (v :: 'a::len word) < 128 \<Longrightarrow> 7 < LENGTH('a) \<Longrightarrow> unat (drop_bit 7 v) < unat v"
proof -
  assume a: "\<not> v < 128" and l: "7 < LENGTH('a)"
  have "(2::nat) ^ 8 \<le> 2 ^ LENGTH('a)" using l by (intro power_increasing) auto
  then have "unat (128 :: 'a word) = 128" by (simp add: take_bit_nat_eq_self_iff)
  with a have "128 \<le> unat v" by (simp add: word_less_nat_alt)
  then show ?thesis by (simp add: unat_drop_bit_eq drop_bit_nat_def)
qed

function EncodeVarint64 :: "uint64 \<Rightarrow> bytes" where
  "EncodeVarint64 v =
     (let B = 128 in
      if v \<ge> B then ucast ((v AND (B - 1)) OR B) # EncodeVarint64 (drop_bit 7 v)
      else [ucast v])"
  by pat_completeness auto
termination
  by (relation "measure unat") (auto simp: unat_drop_bit_7_less not_less)

definition PutVarint64 :: "bytes \<Rightarrow> uint64 \<Rightarrow> bytes" where
  "PutVarint64 dst v = dst @ EncodeVarint64 v"

text \<open>\<open>VarintLength_loop v len\<close> is the loop with its two variables.\<close>

function VarintLength_loop :: "uint64 \<Rightarrow> nat \<Rightarrow> nat" where
  "VarintLength_loop v len =
     (if v \<ge> 128 then VarintLength_loop (drop_bit 7 v) (len + 1) else len)"
  by pat_completeness auto
termination
  by (relation "measure (\<lambda>(v, len). unat v)") (auto simp: unat_drop_bit_7_less not_less)

definition VarintLength :: "uint64 \<Rightarrow> nat" where
  "VarintLength v = VarintLength_loop v 1"

declare EncodeVarint64.simps [simp del] VarintLength_loop.simps [simp del]

text \<open>
  The decoding loop, common to both widths: \<open>max_shift\<close> is the last shift the loop
  guard admits (28 and 63).
\<close>

fun varint_loop :: "nat \<Rightarrow> nat \<Rightarrow> 'a::len word \<Rightarrow> bytes \<Rightarrow> ('a word \<times> bytes) option" where
  "varint_loop max_shift shift result [] = None"
| "varint_loop max_shift shift result (b # p) =
     (if shift \<le> max_shift then
        let byte = ucast b
        in if byte AND 128 \<noteq> 0
           then varint_loop max_shift (shift + 7) (result OR push_bit shift (byte AND 127)) p
           else Some (result OR push_bit shift byte, p)
      else None)"

definition GetVarint32PtrFallback :: "bytes \<Rightarrow> (uint32 \<times> bytes) option" where
  "GetVarint32PtrFallback p = varint_loop 28 0 0 p"

definition GetVarint32Ptr :: "bytes \<Rightarrow> (uint32 \<times> bytes) option" where
  "GetVarint32Ptr p =
     (case p of
        b # p' \<Rightarrow>
          (let result = ucast b
           in if result AND 128 = 0 then Some (result, p') else GetVarint32PtrFallback p)
      | [] \<Rightarrow> GetVarint32PtrFallback p)"

definition GetVarint32 :: "bytes \<Rightarrow> (uint32 \<times> bytes) option" where
  "GetVarint32 input =
     (case GetVarint32Ptr input of None \<Rightarrow> None | Some (value, q) \<Rightarrow> Some (value, q))"

definition GetVarint64Ptr :: "bytes \<Rightarrow> (uint64 \<times> bytes) option" where
  "GetVarint64Ptr p = varint_loop 63 0 0 p"

definition GetVarint64 :: "bytes \<Rightarrow> (uint64 \<times> bytes) option" where
  "GetVarint64 input =
     (case GetVarint64Ptr input of None \<Rightarrow> None | Some (value, q) \<Rightarrow> Some (value, q))"

section \<open>Fixed-width round trips\<close>

lemma length_le_bytes [simp]: "length (le_bytes n w) = n"
  by (simp add: le_bytes_def)

lemma le_bytes_Suc: "le_bytes (Suc n) w = ucast w # le_bytes n (drop_bit 8 w)"
proof -
  have "le_bytes (Suc n) w = ucast w # map (\<lambda>i. ucast (drop_bit (8 * Suc i) w)) [0..<n]"
    unfolding le_bytes_def by (subst upt_conv_Cons) (simp_all del: upt_Suc add: map_Suc_upt [symmetric])
  then show ?thesis by (simp add: le_bytes_def add.commute)
qed

lemma le_word_le_bytes: "le_word (le_bytes n (w :: 'a::len word)) = take_bit (8 * n) w"
proof (induction n arbitrary: w)
  case 0
  then show ?case by (simp add: le_bytes_def)
next
  case (Suc n)
  have "ucast (ucast w :: byte) OR push_bit 8 (take_bit (8 * n) (drop_bit 8 w)) = take_bit (8 + 8 * n) w"
    by (rule bit_word_eqI) (auto simp: bit_simps)
  then show ?case by (simp add: le_bytes_Suc Suc.IH)
qed

lemma mem_word_mem_bytes:
  "mem_word le (mem_bytes le n (w :: 'a::len word)) = take_bit (8 * n) w"
  by (simp add: mem_word_def mem_bytes_def le_word_le_bytes)

lemma ucast_take_bit_8 [simp]: "(ucast (take_bit 8 (x :: 'a::len word)) :: byte) = ucast x"
  by (rule bit_word_eqI) (auto simp: bit_simps)

lemma le_bytes_0 [simp]: "le_bytes 0 w = []"
  by (simp add: le_bytes_def)

lemma le_bytes_numeral [simp]:
  "le_bytes (numeral k) w = ucast w # le_bytes (pred_numeral k) (drop_bit 8 w)"
  by (simp add: numeral_eq_Suc le_bytes_Suc)

lemma le_bytes_1 [simp]: "le_bytes (Suc 0) w = [ucast w]"
  by (simp add: le_bytes_Suc)

lemma EncodeFixed16_eq: "EncodeFixed16 le v = le_bytes 2 v"
  by (simp add: EncodeFixed16_def mem_bytes_def mask_simps)

lemma EncodeFixed32_eq: "EncodeFixed32 le v = le_bytes 4 v"
  by (simp add: EncodeFixed32_def mem_bytes_def mask_simps)

lemma EncodeFixed64_eq: "EncodeFixed64 le v = le_bytes 8 v"
  by (simp add: EncodeFixed64_def mem_bytes_def mask_simps)

lemma length_EncodeFixed [simp]:
  "length (EncodeFixed16 le v16) = 2" "length (EncodeFixed32 le v32) = 4" "length (EncodeFixed64 le v64) = 8"
  by (simp_all add: EncodeFixed16_eq EncodeFixed32_eq EncodeFixed64_eq)

lemma DecodeFixed16_eq:
  "DecodeFixed16 le ptr = (if length ptr < 2 then None else Some (le_word (take 2 ptr)))"
proof (cases "length ptr < 2")
  case False
  then obtain a b r where "ptr = a # b # r"
    by (metis One_nat_def Suc_1 length_Cons less_Suc0 list.exhaust list.size(3) not_less_eq zero_less_Suc)
  then show ?thesis by (simp add: DecodeFixed16_def mem_word_def)
qed (simp add: DecodeFixed16_def)

lemma take_4_Cons: "4 \<le> length ptr \<Longrightarrow> take 4 ptr = [ptr ! 0, ptr ! 1, ptr ! 2, ptr ! 3]"
  by (intro nth_equalityI) (auto simp: numeral_eq_Suc less_Suc_eq)

lemma DecodeFixed32_eq:
  "DecodeFixed32 le ptr = (if length ptr < 4 then None else Some (le_word (take 4 ptr)))"
  by (auto simp: DecodeFixed32_def mem_word_def take_4_Cons push_bit_or or.assoc)

lemma le_word_append:
  "le_word (xs @ ys) = (le_word xs OR push_bit (8 * length xs) (le_word ys) :: 'a::len word)"
  by (induction xs) (simp_all add: push_bit_or or.assoc add.commute)

lemma bit_le_word:
  "bit (le_word bs :: 'a::len word) n \<longleftrightarrow>
     n < LENGTH('a) \<and> n div 8 < length bs \<and> bit (bs ! (n div 8)) (n mod 8)"
proof (induction bs arbitrary: n)
  case Nil
  then show ?case by simp
next
  case (Cons b bs)
  show ?case
  proof (cases "n < 8")
    case True
    then show ?thesis by (auto simp: bit_simps dest: bit_imp_le_length)
  next
    case False
    then obtain m where "n = m + 8" by (metis add.commute le_Suc_ex not_less)
    moreover have "(m + 8) div 8 = Suc (m div 8)" "(m + 8) mod 8 = m mod 8" by simp_all
    ultimately show ?thesis by (auto simp: bit_simps Cons.IH dest: bit_imp_le_length)
  qed
qed

lemma ucast_le_word:
  "8 * length bs \<le> LENGTH('b) \<Longrightarrow> 8 * length bs \<le> LENGTH('a) \<Longrightarrow>
    (ucast (le_word bs :: 'b::len word) :: 'a::len word) = le_word bs"
  by (rule bit_word_eqI) (auto simp: bit_simps bit_le_word)

lemma DecodeFixed64_eq:
  "DecodeFixed64 le ptr = (if length ptr < 8 then None else Some (le_word (take 8 ptr)))"
proof (cases "length ptr < 8")
  case False
  have "take 8 ptr = take 4 ptr @ take 4 (drop 4 ptr)"
    by (simp add: take_add [symmetric])
  then have "(le_word (take 8 ptr) :: uint64) = le_word (take 4 ptr) OR push_bit 32 (le_word (take 4 (drop 4 ptr)))"
    using False by (simp add: le_word_append)
  moreover have "\<not> length ptr - 4 < 4" using False by arith
  ultimately show ?thesis using False
    by (simp add: DecodeFixed64_def DecodeFixed32_eq mem_word_def ucast_le_word or.commute)
qed (simp add: DecodeFixed64_def)
lemma le_word_le_bytes_id:
  "LENGTH('a) \<le> 8 * n \<Longrightarrow> le_word (le_bytes n (w :: 'a::len word)) = w"
  by (simp add: le_word_le_bytes take_bit_word_eq_self)

lemma fixed_round_trips [codec_simps]:
  "DecodeFixed16 le (EncodeFixed16 le' v16 @ rest) = Some v16"
  "DecodeFixed32 le (EncodeFixed32 le' v32 @ rest) = Some v32"
  "DecodeFixed64 le (EncodeFixed64 le' v64 @ rest) = Some v64"
  by (simp_all add: DecodeFixed16_eq DecodeFixed32_eq DecodeFixed64_eq EncodeFixed16_eq
        EncodeFixed32_eq EncodeFixed64_eq le_word_le_bytes_id del: le_bytes_numeral)


section \<open>Varint round trips\<close>

text \<open>The base-128 expansion both encoders compute, over unbounded naturals.\<close>

fun leb128 :: "nat \<Rightarrow> bytes" where
  "leb128 n = (if n < 128 then [word_of_nat n] else word_of_nat (n mod 128 + 128) # leb128 (n div 128))"

declare leb128.simps [simp del]

lemma leb128_small [simp]: "n < 128 \<Longrightarrow> leb128 n = [word_of_nat n]"
  by (simp add: leb128.simps)

lemma leb128_big: "128 \<le> n \<Longrightarrow> leb128 n = word_of_nat (n mod 128 + 128) # leb128 (n div 128)"
  by (simp add: leb128.simps)

lemma leb128_length_pos [simp]: "0 < length (leb128 n)" "leb128 n \<noteq> []"
  by (cases "n < 128"; simp add: leb128.simps)+

lemma unat_128 [simp]: "7 < LENGTH('a) \<Longrightarrow> unat (128 :: 'a::len word) = 128"
proof -
  assume "7 < LENGTH('a)"
  then have "(2::nat) ^ 8 \<le> 2 ^ LENGTH('a)" by (intro power_increasing) auto
  then show ?thesis by (simp add: take_bit_nat_eq_self_iff)
qed

lemma not_bit_7_iff: "\<not> bit (b :: byte) 7 \<longleftrightarrow> unat b < 128"
proof -
  have "(\<not> bit b 7) = (take_bit 7 b = b)"
  proof
    assume "\<not> bit b 7"
    then have "\<not> bit b n" if "n < 8" "7 \<le> n" for n
      using that by (cases "n = 7") auto
    then show "take_bit 7 b = b"
      by (intro bit_word_eqI) (auto simp: bit_take_bit_iff not_less [symmetric])
  next
    assume "take_bit 7 b = b"
    then show "\<not> bit b 7" by (metis bit_take_bit_iff less_irrefl)
  qed
  then show ?thesis using take_bit_eq_self_unat [of 7 b] by simp
qed

lemma bit_ucast_byte_7: "7 < LENGTH('a) \<Longrightarrow> bit (ucast (b :: byte) :: 'a::len word) 7 = bit b 7"
  by (simp add: bit_simps)

lemma ucast_byte_or_128:
  "7 < LENGTH('a) \<Longrightarrow> (ucast ((v :: 'a::len word) OR 128) :: byte) = word_of_nat (unat v mod 128 + 128)"
proof -
  assume l: "7 < LENGTH('a)"
  have "(ucast (v OR 128) :: byte) = ucast (take_bit 7 v) OR push_bit 7 1"
    using l by (intro bit_word_eqI) (auto simp: bit_simps)
  moreover have "unat (ucast (take_bit 7 v) :: byte) = unat v mod 128"
  proof -
    have "unat v mod 256 mod 128 = unat v mod 128"
      by (rule mod_mod_cancel) simp
    then show ?thesis
      by (simp add: unsigned_ucast_eq unsigned_take_bit_eq take_bit_nat_def)
  qed
  moreover have "unat (ucast (take_bit 7 v) OR push_bit 7 (1 :: byte)) =
      unat (ucast (take_bit 7 v) :: byte) + unat (1 :: byte) * 2 ^ 7"
  proof (rule unat_or_push_bit)
    show "unat (ucast (take_bit 7 v) :: byte) < 2 ^ 7"
      using calculation(2) by simp
    have "unat v mod 128 < 128" by simp
    then show "unat (ucast (take_bit 7 v) :: byte) + unat (1 :: byte) * 2 ^ 7 < 2 ^ LENGTH(8)"
      unfolding calculation(2) by simp
  qed
  ultimately have "unat (ucast (v OR 128) :: byte) = unat v mod 128 + 128" by simp
  then have "word_of_nat (unat (ucast (v OR 128) :: byte)) = (word_of_nat (unat v mod 128 + 128) :: byte)"
    by (rule arg_cong)
  then show ?thesis by (simp only: word_of_nat_unat)
qed

lemma unat_drop_bit_7: "unat (drop_bit 7 (v :: 'a::len word)) = unat v div 128"
  by (simp add: unat_drop_bit_eq drop_bit_nat_def)

lemma EncodeVarint64_leb128: "EncodeVarint64 v = leb128 (unat v)"
proof (induction v rule: EncodeVarint64.induct)
  case (1 v)
  show ?case
  proof (cases "v \<ge> 128")
    case True
    then have "128 \<le> unat v" by (simp add: word_le_nat_alt)
    moreover have "(v AND (128 - 1)) OR 128 = take_bit 7 v OR 128" by (simp add: mask_simps)
    moreover have "unat (take_bit 7 v) mod 128 = unat v mod 128"
      by (simp add: unsigned_take_bit_eq take_bit_nat_def)
    ultimately show ?thesis using True "1" [OF refl]
      by (subst EncodeVarint64.simps)
        (simp add: Let_def leb128_big ucast_byte_or_128 unat_drop_bit_7)
  next
    case False
    then have "unat v < 128" by (simp add: word_less_nat_alt not_le)
    then show ?thesis using False
      by (subst EncodeVarint64.simps) (simp add: unsigned_ucast_eq word_unat_eq_iff take_bit_nat_def unat_of_nat)
  qed
qed

lemma EncodeVarint32_leb128: "EncodeVarint32 v = leb128 (unat v)"
proof -
  have d: "unat (drop_bit 7 v) = unat v div 128" "unat (drop_bit 14 v) = unat v div 16384"
    "unat (drop_bit 21 v) = unat v div 2097152" "unat (drop_bit 28 v) = unat v div 268435456"
    by (simp_all add: unat_drop_bit_eq drop_bit_nat_def)
  have lt: "v < push_bit k 1 \<longleftrightarrow> unat v < 2 ^ k" if "k < 32" for k
  proof -
    have "(2::nat) ^ k < 2 ^ 32" using that by (intro power_strict_increasing) auto
    then have "unat (push_bit k (1 :: uint32)) = 2 ^ k"
      by (simp only: unsigned_push_bit_eq push_bit_nat_def take_bit_nat_def) simp
    then show ?thesis by (simp add: word_less_nat_alt)
  qed
  have last: "word_of_nat (unat v div 128) = (ucast (drop_bit 7 v) :: byte)"
    "word_of_nat (unat v div 16384) = (ucast (drop_bit 14 v) :: byte)"
    "word_of_nat (unat v div 2097152) = (ucast (drop_bit 21 v) :: byte)"
    "word_of_nat (unat v div 268435456) = (ucast (drop_bit 28 v) :: byte)"
    unfolding d [symmetric] of_nat_unat by simp_all
  have e7: "unat v div 128 div 128 = unat v div 16384"
    "unat v div 16384 div 128 = unat v div 2097152"
    "unat v div 2097152 div 128 = unat v div 268435456"
    by (simp_all add: div_mult2_eq [symmetric])
  have lts: "v < 128 \<longleftrightarrow> unat v < 128" "v < 16384 \<longleftrightarrow> unat v < 16384"
    "v < 2097152 \<longleftrightarrow> unat v < 2097152" "v < 268435456 \<longleftrightarrow> unat v < 268435456"
    using lt [of 7] lt [of 14] lt [of 21] lt [of 28] by simp_all
  have def: "EncodeVarint32 v =
     (if unat v < 128 then [ucast v]
      else if unat v < 16384 then [ucast (v OR 128), ucast (drop_bit 7 v)]
      else if unat v < 2097152 then
        [ucast (v OR 128), ucast (drop_bit 7 v OR 128), ucast (drop_bit 14 v)]
      else if unat v < 268435456 then
        [ucast (v OR 128), ucast (drop_bit 7 v OR 128), ucast (drop_bit 14 v OR 128),
         ucast (drop_bit 21 v)]
      else
        [ucast (v OR 128), ucast (drop_bit 7 v OR 128), ucast (drop_bit 14 v OR 128),
         ucast (drop_bit 21 v OR 128), ucast (drop_bit 28 v)])"
    unfolding EncodeVarint32_def Let_def lts [symmetric] by simp
  have "unat v < 2 ^ LENGTH(32)" by (rule unsigned_less)
  then have top: "unat v div 268435456 < 128" by (simp add: less_mult_imp_div_less)
  note unfold = def last ucast_byte_or_128 d
  consider "unat v < 128" | "128 \<le> unat v" "unat v < 16384"
    | "16384 \<le> unat v" "unat v < 2097152" | "2097152 \<le> unat v" "unat v < 268435456"
    | "268435456 \<le> unat v" by linarith
  then show ?thesis
  proof cases
    case 1
    then show ?thesis by (simp add: unfold)
  next
    case 2
    then have "leb128 (unat v) = [word_of_nat (unat v mod 128 + 128), word_of_nat (unat v div 128)]"
      by (simp add: leb128_big)
    with 2 show ?thesis by (simp add: unfold)
  next
    case 3
    then have "leb128 (unat v) = [word_of_nat (unat v mod 128 + 128),
        word_of_nat (unat v div 128 mod 128 + 128), word_of_nat (unat v div 16384)]"
      using leb128_big [of "unat v"] leb128_big [of "unat v div 128"] by (simp add: e7)
    with 3 show ?thesis by (simp add: unfold)
  next
    case 4
    then have "leb128 (unat v) = [word_of_nat (unat v mod 128 + 128),
        word_of_nat (unat v div 128 mod 128 + 128), word_of_nat (unat v div 16384 mod 128 + 128),
        word_of_nat (unat v div 2097152)]"
      using leb128_big [of "unat v"] leb128_big [of "unat v div 128"]
        leb128_big [of "unat v div 16384"] by (simp add: e7)
    with 4 show ?thesis by (simp add: unfold)
  next
    case 5
    then have "leb128 (unat v) = [word_of_nat (unat v mod 128 + 128),
        word_of_nat (unat v div 128 mod 128 + 128), word_of_nat (unat v div 16384 mod 128 + 128),
        word_of_nat (unat v div 2097152 mod 128 + 128), word_of_nat (unat v div 268435456)]"
      using leb128_big [of "unat v"] leb128_big [of "unat v div 128"]
        leb128_big [of "unat v div 16384"] leb128_big [of "unat v div 2097152"] top by (simp add: e7)
    with 5 show ?thesis by (simp add: unfold)
  qed
qed

lemma varint_loop_leb128:
  assumes "7 < LENGTH('a)" and "unat (r :: 'a::len word) < 2 ^ shift"
    and "unat r + n * 2 ^ shift < 2 ^ LENGTH('a)"
    and "shift + 7 * (length (leb128 n) - 1) \<le> max_shift"
  shows "varint_loop max_shift shift r (leb128 n @ rest) = Some (word_of_nat (unat r + n * 2 ^ shift), rest)"
  using assms
proof (induction n arbitrary: shift r rule: leb128.induct)
  case (1 n)
  let ?w = "\<lambda>x :: byte. ucast x :: 'a word"
  have uw: "unat (?w x) = unat x" for x
  proof -
    have "(2::nat) ^ 8 \<le> 2 ^ LENGTH('a)" using "1.prems"(1) by (intro power_increasing) auto
    moreover have "unat x < 2 ^ 8" using unsigned_less [of x] by simp
    ultimately show ?thesis by (simp add: unsigned_ucast_eq take_bit_nat_eq_self_iff)
  qed
  show ?case
  proof (cases "n < 128")
    case True
    let ?b = "word_of_nat n :: byte"
    have ub: "unat ?b = n" using True by (simp add: unat_of_nat take_bit_nat_def)
    then have "?w ?b AND 128 = 0"
      using True "1.prems"(1) by (simp add: and_128_eq_0_iff bit_ucast_byte_7 not_bit_7_iff)
    moreover have "unat (r OR push_bit shift (?w ?b)) = unat r + n * 2 ^ shift"
      using "1.prems" by (subst unat_or_push_bit) (simp_all add: uw ub)
    then have "r OR push_bit shift (?w ?b) = word_of_nat (unat r + n * 2 ^ shift)"
      by (metis word_of_nat_unat)
    ultimately show ?thesis using True "1.prems"(4) by (simp add: Let_def)
  next
    case False
    then have ge: "128 \<le> n" by simp
    define b :: byte where "b = word_of_nat (n mod 128 + 128)"
    have "n mod 128 < 128" by simp
    then have ub: "unat b = n mod 128 + 128"
      unfolding b_def by (subst unat_of_nat) (simp add: take_bit_nat_def)
    have "bit b 7" using not_bit_7_iff [of b] ub by simp
    then have hi: "?w b AND 128 \<noteq> 0"
      using "1.prems"(1) by (simp add: and_128_eq_0_iff bit_ucast_byte_7)
    have lo: "unat (?w b AND 127) = n mod 128"
      by (simp add: mask_simps unsigned_take_bit_eq take_bit_nat_def uw ub)
    have split: "n mod 128 * 2 ^ shift + n div 128 * 2 ^ (shift + 7) = n * 2 ^ shift"
    proof -
      have "n mod 128 + n div 128 * 128 = n" by simp
      then have "(n mod 128 + n div 128 * 128) * 2 ^ shift = n * 2 ^ shift" by (rule arg_cong)
      then show ?thesis by (simp only: power_add add_mult_distrib) simp
    qed
    let ?r = "r OR push_bit shift (?w b AND 127)"
    have ur: "unat ?r = unat r + n mod 128 * 2 ^ shift"
      using "1.prems" split by (subst unat_or_push_bit) (simp_all add: lo)
    have "n mod 128 * 2 ^ shift \<le> 127 * 2 ^ shift" by (intro mult_right_mono) auto
    then have "unat r + n mod 128 * 2 ^ shift < 2 ^ shift * 128"
      using "1.prems"(2) by linarith
    then have "unat ?r < 2 ^ (shift + 7)"
      unfolding ur power_add by simp
    moreover have "unat ?r + n div 128 * 2 ^ (shift + 7) = unat r + n * 2 ^ shift"
      using ur split by simp
    moreover have len: "length (leb128 n) = Suc (length (leb128 (n div 128)))"
      using ge by (simp add: leb128_big)
    moreover have "shift + 7 + 7 * (length (leb128 (n div 128)) - 1) \<le> max_shift"
    proof -
      obtain k where "length (leb128 (n div 128)) = Suc k"
        by (metis gr0_conv_Suc leb128_length_pos(1))
      then show ?thesis using "1.prems"(4) len by simp
    qed
    ultimately have "varint_loop max_shift (shift + 7) ?r (leb128 (n div 128) @ rest) =
        Some (word_of_nat (unat r + n * 2 ^ shift), rest)"
      using "1.IH" [OF False, of ?r "shift + 7"] "1.prems" by simp
    moreover have "leb128 n = b # leb128 (n div 128)"
      unfolding b_def by (rule leb128_big [OF ge])
    ultimately show ?thesis using hi "1.prems"(4) by (simp add: Let_def)
  qed
qed

lemma leb128_length_bound: "n < 2 ^ (7 * k) \<Longrightarrow> 0 < k \<Longrightarrow> length (leb128 n) \<le> k"
proof (induction n arbitrary: k rule: leb128.induct)
  case (1 n)
  show ?case
  proof (cases "n < 128")
    case True
    then show ?thesis using "1.prems" by simp
  next
    case False
    then obtain j where k: "k = Suc j" "0 < j"
      using "1.prems" by (cases k; cases "k = 1") auto
    then have "n div 128 < 2 ^ (7 * j)"
      using "1.prems"(1) by (simp add: power_add less_mult_imp_div_less mult.commute)
    then show ?thesis using "1.IH" [OF False, of j] k False by (simp add: leb128_big)
  qed
qed

lemma leb128_length_32: "length (leb128 (unat (v :: uint32))) \<le> 5"
proof -
  have "unat v < 2 ^ LENGTH(32)" by (rule unsigned_less)
  then show ?thesis by (intro leb128_length_bound) auto
qed

lemma leb128_length_64: "length (leb128 (unat (v :: uint64))) \<le> 10"
proof -
  have "unat v < 2 ^ LENGTH(64)" by (rule unsigned_less)
  then show ?thesis by (intro leb128_length_bound) auto
qed

lemma GetVarint32Ptr_fallback: "GetVarint32Ptr p = GetVarint32PtrFallback p"
  by (cases p) (auto simp: GetVarint32Ptr_def GetVarint32PtrFallback_def Let_def)

lemma GetVarint32_eq: "GetVarint32 p = varint_loop 28 0 0 p"
  by (simp add: GetVarint32_def GetVarint32Ptr_fallback GetVarint32PtrFallback_def split: option.splits)

lemma GetVarint64_eq: "GetVarint64 p = varint_loop 63 0 0 p"
  by (simp add: GetVarint64_def GetVarint64Ptr_def split: option.splits)

lemma GetVarint32_Encode: "GetVarint32 (EncodeVarint32 v @ rest) = Some (v, rest)"
proof -
  have "unat v < 2 ^ LENGTH(32)" by (rule unsigned_less)
  then show ?thesis
    using varint_loop_leb128 [of "0 :: uint32" 0 "unat v" 28 rest] leb128_length_32 [of v]
    by (simp add: GetVarint32_eq EncodeVarint32_leb128)
qed

lemma GetVarint64_Encode: "GetVarint64 (EncodeVarint64 v @ rest) = Some (v, rest)"
proof -
  have "unat v < 2 ^ LENGTH(64)" by (rule unsigned_less)
  then show ?thesis
    using varint_loop_leb128 [of "0 :: uint64" 0 "unat v" 63 rest] leb128_length_64 [of v]
    by (simp add: GetVarint64_eq EncodeVarint64_leb128)
qed

interpretation varint32: codec EncodeVarint32 GetVarint32 "\<lambda>_. True"
  by unfold_locales (rule GetVarint32_Encode)

interpretation varint64: codec EncodeVarint64 GetVarint64 "\<lambda>_. True"
  by unfold_locales (rule GetVarint64_Encode)

interpretation fixed32: codec "EncodeFixed32 le" "\<lambda>bs. map_option (\<lambda>v. (v, drop 4 bs)) (DecodeFixed32 le bs)" "\<lambda>_. True"
  for le
  by unfold_locales (simp add: codec_simps)

interpretation fixed64: codec "EncodeFixed64 le" "\<lambda>bs. map_option (\<lambda>v. (v, drop 8 bs)) (DecodeFixed64 le bs)" "\<lambda>_. True"
  for le
  by unfold_locales (simp add: codec_simps)

lemma VarintLength_loop_leb128: "VarintLength_loop v len = len + length (leb128 (unat v)) - 1"
proof (induction v len rule: VarintLength_loop.induct)
  case (1 v len)
  show ?case
  proof (cases "v \<ge> 128")
    case True
    then have "128 \<le> unat v" by (simp add: word_le_nat_alt)
    then show ?thesis using True "1"
      by (subst VarintLength_loop.simps) (simp add: leb128_big unat_drop_bit_7)
  next
    case False
    then have "unat v < 128" by (simp add: word_less_nat_alt not_le)
    then show ?thesis using False by (subst VarintLength_loop.simps) simp
  qed
qed

lemma VarintLength_eq: "VarintLength v = length (EncodeVarint64 v)"
  by (simp add: VarintLength_def VarintLength_loop_leb128 EncodeVarint64_leb128)

text \<open>
  Whatever the input, a successful read consumes between one byte and the width's
  maximum, and returns a suffix of the input.
\<close>

lemma varint_loop_consumes:
  "varint_loop max_shift shift r p = Some (v, q) \<Longrightarrow>
     \<exists>used. p = used @ q \<and> used \<noteq> [] \<and> shift + 7 * length used \<le> max_shift + 7"
proof (induction max_shift shift r p rule: varint_loop.induct)
  case (2 max_shift shift result b p)
  show ?case
  proof (cases "shift \<le> max_shift \<and> (ucast b :: 'a word) AND 128 \<noteq> 0")
    case True
    then obtain used where "p = used @ q" "shift + 7 + 7 * length used \<le> max_shift + 7"
      using 2 by (auto simp: Let_def)
    then show ?thesis by (intro exI [of _ "b # used"]) auto
  next
    case False
    then show ?thesis using "2.prems"
      by (intro exI [of _ "[b]"]) (auto simp: Let_def split: if_splits)
  qed
qed simp

section \<open>Properties\<close>

lemma foldl_PutVarint32: "foldl PutVarint32 dst vs = dst @ concat (map EncodeVarint32 vs)"
  by (induction vs arbitrary: dst) (auto simp: PutVarint32_def)

lemma foldl_PutVarint64: "foldl PutVarint64 dst vs = dst @ concat (map EncodeVarint64 vs)"
  by (induction vs arbitrary: dst) (auto simp: PutVarint64_def)

text \<open>
  Varint streams round-trip: appending any list of 32-bit (64-bit) values with
  PutVarint32 (PutVarint64) to an empty string and reading back that many values with
  GetVarint32 (GetVarint64), whatever bytes follow, returns exactly the values and leaves
  exactly those following bytes.
\<close>

theorem varint_stream_roundtrip:
  "dec_many GetVarint32 (length vs) (foldl PutVarint32 [] vs @ rest) = Some (vs, rest) \<and>
   dec_many GetVarint64 (length ws) (foldl PutVarint64 [] ws @ rest) = Some (ws, rest)"
  using varint32.dec_many_enc [of vs rest] varint64.dec_many_enc [of ws rest]
  by (simp add: foldl_PutVarint32 foldl_PutVarint64 list_all_iff)

text \<open>
  The unrolled 32-bit encoder is the 64-bit loop on the widened value, the length
  function predicts both, and no encoding is longer than 5 (10) bytes.
\<close>

theorem varint_encoders_agree:
  "EncodeVarint32 v = EncodeVarint64 (ucast v) \<and>
   length (EncodeVarint32 v) = VarintLength (ucast v) \<and>
   length (EncodeVarint64 w) = VarintLength w \<and>
   VarintLength (ucast v) \<le> 5 \<and> VarintLength w \<le> 10"
proof -
  have u: "unat (ucast v :: uint64) = unat v"
  proof -
    have "unat v < 2 ^ LENGTH(32)" by (rule unsigned_less)
    then show ?thesis by (simp add: unsigned_ucast_eq take_bit_nat_eq_self_iff)
  qed
  then have "EncodeVarint32 v = EncodeVarint64 (ucast v)"
    by (simp only: EncodeVarint32_leb128 EncodeVarint64_leb128)
  then show ?thesis
    using leb128_length_32 [of v] leb128_length_64 [of w]
    by (auto simp: VarintLength_eq u EncodeVarint64_leb128)
qed

text \<open>
  Fixed-width integers do not depend on the host's byte order: a value written on a
  host of either endianness is read back on a host of either endianness, from the same
  bytes, least significant first.
\<close>

theorem fixed_endian_independent:
  "EncodeFixed16 True v16 = EncodeFixed16 False v16 \<and>
   EncodeFixed32 True v32 = EncodeFixed32 False v32 \<and>
   EncodeFixed64 True v64 = EncodeFixed64 False v64 \<and>
   DecodeFixed16 le (EncodeFixed16 le' v16 @ rest) = Some v16 \<and>
   DecodeFixed32 le (EncodeFixed32 le' v32 @ rest) = Some v32 \<and>
   DecodeFixed64 le (EncodeFixed64 le' v64 @ rest) = Some v64"
  by (simp add: EncodeFixed16_eq EncodeFixed32_eq EncodeFixed64_eq
      fixed_round_trips [unfolded EncodeFixed16_eq EncodeFixed32_eq EncodeFixed64_eq, simplified])

end
