(* ===== verification/TF_Bits.thy ===== *)
theory TF_Bits
  imports TF_Prelude
begin

text \<open>
  \<^verbatim>\<open>lib/core/bits.h\<close>: integer logarithms and powers of two. Both compilation
  branches are modelled: the one on \<^verbatim>\<open>__builtin_clz\<close> (documented by the compiler as
  the number of leading zero bits) and the portable scan, here with an \<open>int\<close> result as
  in the source.
\<close>

fun bit_length :: "nat \<Rightarrow> nat" where
  "bit_length n = (if n = 0 then 0 else Suc (bit_length (n div 2)))"

declare bit_length.simps [simp del]

definition builtin_clz :: "'a::len word \<Rightarrow> nat" where
  "builtin_clz n = LENGTH('a) - bit_length (unat n)"

definition Log2Floor_gnu :: "uint32 \<Rightarrow> int" where
  "Log2Floor_gnu n = (if n = 0 then -1 else int (31 XOR builtin_clz n))"

definition Log2Floor64_gnu :: "uint64 \<Rightarrow> int" where
  "Log2Floor64_gnu n = (if n = 0 then -1 else int (63 XOR builtin_clz n))"

text \<open>The portable scan: the loop over \<open>i = 4, 3, 2, 1, 0\<close>.\<close>

fun log2_steps :: "nat list \<Rightarrow> uint32 \<Rightarrow> nat \<Rightarrow> nat" where
  "log2_steps [] value log = log"
| "log2_steps (i # is) value log =
     (let shift = 2 ^ i; x = drop_bit shift value
      in if x \<noteq> 0 then log2_steps is x (log + shift) else log2_steps is value log)"

definition Log2Floor :: "uint32 \<Rightarrow> int" where
  "Log2Floor n = (if n = 0 then -1 else int (log2_steps [4, 3, 2, 1, 0] n 0))"

definition Log2Floor64 :: "uint64 \<Rightarrow> int" where
  "Log2Floor64 n =
     (let topbits = ucast (drop_bit 32 n) :: uint32
      in if topbits = 0 then Log2Floor (ucast n) else 32 + Log2Floor topbits)"

definition Log2Ceiling :: "uint32 \<Rightarrow> int" where
  "Log2Ceiling n =
     (let floor = Log2Floor n
      in if n = (n AND NOT (n - 1)) then floor else floor + 1)"

definition Log2Ceiling64 :: "uint64 \<Rightarrow> int" where
  "Log2Ceiling64 n =
     (let floor = Log2Floor64 n
      in if n = (n AND NOT (n - 1)) then floor else floor + 1)"

text \<open>
  A shift by a negative count or by the width or more is undefined in C++: \<open>None\<close>.
  \<open>1 << exponent\<close> is an \<open>int\<close> shift converted to \<open>uint32\<close>, \<open>1LL << exponent\<close>
  a 64-bit one.
\<close>

definition NextPowerOfTwo :: "uint32 \<Rightarrow> uint32 option" where
  "NextPowerOfTwo value =
     (let exponent = Log2Ceiling value
      in if 0 \<le> exponent \<and> exponent < 32 then Some (push_bit (nat exponent) 1) else None)"

text \<open>The argument of \<open>Log2Ceiling\<close> is implicitly converted to \<open>uint32\<close>.\<close>

definition NextPowerOfTwo64 :: "uint64 \<Rightarrow> uint64 option" where
  "NextPowerOfTwo64 value =
     (let exponent = Log2Ceiling (ucast value)
      in if 0 \<le> exponent \<and> exponent < 64 then Some (push_bit (nat exponent) 1) else None)"

section \<open>Logarithms\<close>

lemma bit_length_bounds: "0 < n \<Longrightarrow> 2 ^ (bit_length n - 1) \<le> n \<and> n < 2 ^ bit_length n \<and> 0 < bit_length n"
proof (induction n rule: bit_length.induct)
  case (1 n)
  show ?case
  proof (cases "n div 2 = 0")
    case True
    then have "n = 1" using "1.prems" by linarith
    moreover have "bit_length 1 = 1" by (simp add: bit_length.simps)
    ultimately show ?thesis by simp
  next
    case False
    let ?k = "bit_length (n div 2)"
    have ih: "2 ^ (?k - 1) \<le> n div 2" "n div 2 < 2 ^ ?k" "0 < ?k"
      using "1.IH" "1.prems" False by auto
    have k: "bit_length n = Suc ?k" using "1.prems" by (subst bit_length.simps) simp
    obtain j where j: "?k = Suc j" using ih(3) gr0_conv_Suc by auto
    have "2 ^ Suc j \<le> n" using ih(1) j by simp
    moreover have "n < 2 ^ Suc ?k" using ih(2) by simp
    ultimately show ?thesis using k j by simp
  qed
qed

text \<open>The exponent is determined by its bounds.\<close>

lemma log2_unique:
  fixes n a b :: nat
  assumes "2 ^ a \<le> n" "n < 2 ^ Suc a" "2 ^ b \<le> n" "n < 2 ^ Suc b"
  shows "a = b"
proof (rule ccontr)
  assume "a \<noteq> b"
  then consider "Suc a \<le> b" | "Suc b \<le> a" by linarith
  then show False
  proof cases
    case 1
    then have "(2::nat) ^ Suc a \<le> 2 ^ b" by (intro power_increasing) auto
    with assms show False by linarith
  next
    case 2
    then have "(2::nat) ^ Suc b \<le> 2 ^ a" by (intro power_increasing) auto
    with assms show False by linarith
  qed
qed

lemma log2_steps_bounds:
  assumes "0 < unat v" and "unat v < 2 ^ 2 ^ k"
  shows "\<exists>l. log2_steps (rev [0..<k]) v log = log + l \<and> 2 ^ l \<le> unat v \<and> unat v < 2 ^ Suc l"
  using assms
proof (induction k arbitrary: v log)
  case 0
  then have "unat v = 1" by simp
  then show ?case by (intro exI [of _ 0]) simp
next
  case (Suc k)
  let ?x = "drop_bit (2 ^ k) v"
  have ux: "unat ?x = unat v div 2 ^ 2 ^ k"
    by (simp add: unat_drop_bit_eq drop_bit_nat_def)
  have x0: "?x = 0 \<longleftrightarrow> unat v < 2 ^ 2 ^ k"
  proof -
    have "?x = 0 \<longleftrightarrow> unat ?x = 0" by (simp add: unat_eq_0)
    then show ?thesis by (simp add: ux div_eq_0_iff)
  qed
  show ?case
  proof (cases "?x = 0")
    case True
    then show ?thesis using Suc.IH [of v log] Suc.prems x0 by (simp add: Let_def)
  next
    case False
    then have pos: "0 < unat ?x" by (simp add: unat_gt_0)
    have "unat v < 2 ^ 2 ^ k * 2 ^ 2 ^ k"
      using Suc.prems(2) by (simp add: power_add [symmetric] mult_2 [symmetric])
    then have "unat ?x < 2 ^ 2 ^ k" by (simp add: ux less_mult_imp_div_less)
    then obtain l where l: "log2_steps (rev [0..<k]) ?x (log + 2 ^ k) = log + 2 ^ k + l"
      "2 ^ l \<le> unat ?x" "unat ?x < 2 ^ Suc l"
      using Suc.IH [OF pos, of "log + 2 ^ k"] by blast
    have "2 ^ (2 ^ k + l) \<le> unat v"
    proof -
      have "2 ^ l * 2 ^ 2 ^ k \<le> unat ?x * 2 ^ 2 ^ k" using l(2) by (rule mult_right_mono) simp
      also have "\<dots> \<le> unat v" by (simp add: ux)
      finally show ?thesis by (simp add: power_add mult.commute)
    qed
    moreover have "unat v < 2 ^ Suc (2 ^ k + l)"
    proof -
      have "unat v div 2 ^ 2 ^ k < 2 ^ Suc l" using l(3) by (simp only: ux)
      then have "unat v < 2 ^ Suc l * 2 ^ 2 ^ k"
        by (simp add: div_less_iff_less_mult)
      then show ?thesis by (simp add: power_add mult.commute mult.left_commute)
    qed
    ultimately show ?thesis using False l(1)
      by (intro exI [of _ "2 ^ k + l"]) (simp add: Let_def add.assoc)
  qed
qed

lemma Log2Floor_bounds:
  assumes "n \<noteq> 0"
  shows "\<exists>k. Log2Floor n = int k \<and> 2 ^ k \<le> unat n \<and> unat n < 2 ^ Suc k"
proof -
  have "unat n < 2 ^ LENGTH(32)" by (rule unsigned_less)
  moreover have "[4, 3, 2, 1, 0 :: nat] = rev [0..<5]" by (simp add: upt_rec numeral_eq_Suc)
  ultimately show ?thesis
    using log2_steps_bounds [of n 5 0] assms by (auto simp: Log2Floor_def unat_gt_0)
qed

lemma Log2Floor64_bounds:
  assumes "n \<noteq> 0"
  shows "\<exists>k. Log2Floor64 n = int k \<and> 2 ^ k \<le> unat n \<and> unat n < 2 ^ Suc k"
proof -
  let ?top = "ucast (drop_bit 32 n) :: uint32"
  have lt64: "unat n < 2 ^ LENGTH(64)" by (rule unsigned_less)
  have ut: "unat ?top = unat n div 2 ^ 32"
  proof -
    have "unat n div 2 ^ 32 < 2 ^ 32" using lt64 by (simp add: less_mult_imp_div_less)
    then show ?thesis by (simp add: unsigned_ucast_eq unat_drop_bit_eq drop_bit_nat_def take_bit_nat_eq_self_iff)
  qed
  show ?thesis
  proof (cases "?top = 0")
    case True
    then have "unat n div 2 ^ 32 = 0" using ut by (metis unat_0)
    then have lt: "unat n < 2 ^ 32" by (simp add: div_eq_0_iff)
    have un: "unat (ucast n :: uint32) = unat n"
      using lt by (simp add: unsigned_ucast_eq take_bit_nat_eq_self_iff)
    then have "(ucast n :: uint32) \<noteq> 0" using assms by (metis unat_0 unat_eq_0)
    then show ?thesis using Log2Floor_bounds [of "ucast n"] True un by (simp add: Log2Floor64_def)
  next
    case False
    then obtain k where k: "Log2Floor ?top = int k" "2 ^ k \<le> unat ?top" "unat ?top < 2 ^ Suc k"
      using Log2Floor_bounds by blast
    have "2 ^ k * 2 ^ 32 \<le> unat n div 2 ^ 32 * 2 ^ 32"
      using k(2) ut by (simp add: mult_right_mono)
    then have lo: "2 ^ (32 + k) \<le> unat n"
      unfolding power_add by (metis div_times_less_eq_dividend le_trans mult.commute)
    have "unat n < 2 ^ Suc k * 2 ^ 32"
      using k(3) ut by (simp add: div_less_iff_less_mult)
    then have hi: "unat n < 2 ^ Suc (32 + k)"
      by (simp add: power_add mult.commute mult.left_commute)
    have "Log2Floor64 n = int (32 + k)" using False k(1) by (simp add: Log2Floor64_def Let_def)
    then show ?thesis using lo hi by blast
  qed
qed

lemma mask_xor_eq_minus: "c < 2 ^ k \<Longrightarrow> mask k XOR c = mask k - (c :: nat)"
proof -
  assume "c < 2 ^ k"
  then have c: "take_bit k c = c" by (simp add: take_bit_nat_eq_self_iff)
  have hi: "\<not> bit c n" if "k \<le> n" for n
    using c that by (metis bit_take_bit_iff not_less)
  have "(mask k XOR c) AND c = 0"
    by (rule bit_eqI) (use hi not_less in \<open>auto simp: bit_simps\<close>)
  then have "(mask k XOR c) + c = (mask k XOR c) OR c"
    by (rule disjunctive_add_eq_or)
  also have "\<dots> = mask k"
    by (rule bit_eqI) (use hi not_less in \<open>auto simp: bit_simps\<close>)
  finally show ?thesis by linarith
qed

lemma xor_31: "c < 32 \<Longrightarrow> 31 XOR c = 31 - (c :: nat)"
  using mask_xor_eq_minus [of c 5] by (simp add: mask_eq_exp_minus_1)

lemma xor_63: "c < 64 \<Longrightarrow> 63 XOR c = 63 - (c :: nat)"
  using mask_xor_eq_minus [of c 6] by (simp add: mask_eq_exp_minus_1)

lemma bit_length_le: "n < 2 ^ k \<Longrightarrow> bit_length n \<le> k"
proof (cases "n = 0")
  case False
  assume "n < 2 ^ k"
  then have "(2::nat) ^ (bit_length n - 1) < 2 ^ k" using bit_length_bounds [of n] False by linarith
  then have "bit_length n - 1 < k" by simp
  then show ?thesis by linarith
qed (simp add: bit_length.simps)

lemma Log2Floor_gnu_bounds:
  assumes "n \<noteq> 0"
  shows "\<exists>k. Log2Floor_gnu n = int k \<and> 2 ^ k \<le> unat n \<and> unat n < 2 ^ Suc k"
proof -
  let ?b = "bit_length (unat n)"
  have "unat n < 2 ^ LENGTH(32)" by (rule unsigned_less)
  then have "?b \<le> 32" by (intro bit_length_le) simp
  moreover have b: "2 ^ (?b - 1) \<le> unat n" "unat n < 2 ^ ?b" "0 < ?b"
    using bit_length_bounds [of "unat n"] assms by (auto simp: unat_gt_0)
  ultimately have "Log2Floor_gnu n = int (?b - 1)"
    using assms by (simp add: Log2Floor_gnu_def builtin_clz_def xor_31)
  then show ?thesis using b by (metis Suc_pred')
qed

lemma Log2Floor64_gnu_bounds:
  assumes "n \<noteq> 0"
  shows "\<exists>k. Log2Floor64_gnu n = int k \<and> 2 ^ k \<le> unat n \<and> unat n < 2 ^ Suc k"
proof -
  let ?b = "bit_length (unat n)"
  have "unat n < 2 ^ LENGTH(64)" by (rule unsigned_less)
  then have "?b \<le> 64" by (intro bit_length_le) simp
  moreover have b: "2 ^ (?b - 1) \<le> unat n" "unat n < 2 ^ ?b" "0 < ?b"
    using bit_length_bounds [of "unat n"] assms by (auto simp: unat_gt_0)
  ultimately have "Log2Floor64_gnu n = int (?b - 1)"
    using assms by (simp add: Log2Floor64_gnu_def builtin_clz_def xor_63)
  then show ?thesis using b by (metis Suc_pred')
qed

lemma Log2Floor_gnu_eq: "Log2Floor_gnu n = Log2Floor n"
proof (cases "n = 0")
  case False
  then show ?thesis
    using Log2Floor_gnu_bounds [OF False] Log2Floor_bounds [OF False] log2_unique by metis
qed (simp add: Log2Floor_gnu_def Log2Floor_def)

lemma Log2Floor64_gnu_eq: "Log2Floor64_gnu n = Log2Floor64 n"
proof (cases "n = 0")
  case False
  then show ?thesis
    using Log2Floor64_gnu_bounds [OF False] Log2Floor64_bounds [OF False] log2_unique by metis
qed (simp add: Log2Floor64_gnu_def Log2Floor64_def Log2Floor_def)

section \<open>Ceilings and powers of two\<close>

lemma bit_top:
  fixes w :: "'a::len word"
  assumes "2 ^ k \<le> unat w" and "unat w < 2 ^ Suc k"
  shows "bit w k"
proof -
  have "unat w div 2 ^ k = 1" using assms by (simp add: div_nat_eqI)
  then have "bit (unat w) k" by (simp add: bit_nat_def)
  then show ?thesis by (simp add: bit_unsigned_iff)
qed

lemma and_not_pred_iff:
  fixes n :: "'a::len word"
  assumes "2 ^ k \<le> unat n" and "unat n < 2 ^ Suc k"
  shows "n = (n AND NOT (n - 1)) \<longleftrightarrow> unat n = 2 ^ k"
proof
  assume eq: "n = (n AND NOT (n - 1))"
  show "unat n = 2 ^ k"
  proof (rule ccontr)
    assume "unat n \<noteq> 2 ^ k"
    then have gt: "2 ^ k < unat n" using assms(1) by simp
    then have "unat (n - 1) = unat n - 1"
      by (metis gr_implies_not0 unat_eq_0 unat_minus_one)
    then have "bit (n - 1) k" using gt assms(2) by (intro bit_top) auto
    moreover have "bit n k" using assms by (rule bit_top)
    ultimately show False using eq by (metis bit_and_iff bit_not_iff)
  qed
next
  assume un: "unat n = 2 ^ k"
  then have "word_of_nat (unat n) = (word_of_nat (2 ^ k) :: 'a word)" by (rule arg_cong)
  then have n: "n = 2 ^ k" by simp
  have "n - 1 = mask k" by (simp add: n mask_eq_exp_minus_1)
  moreover have "2 ^ k AND NOT (mask k) = (2 ^ k :: 'a word)"
    by (rule bit_word_eqI) (auto simp: bit_simps)
  ultimately show "n = (n AND NOT (n - 1))" by (simp add: n)
qed

lemma Log2Ceiling_bounds:
  assumes "n \<noteq> 0"
  shows "\<exists>k. Log2Ceiling n = int k \<and> unat n \<le> 2 ^ k \<and> 2 ^ k < 2 * unat n"
proof -
  obtain k where k: "Log2Floor n = int k" "2 ^ k \<le> unat n" "unat n < 2 ^ Suc k"
    using Log2Floor_bounds [OF assms] by blast
  show ?thesis
  proof (cases "unat n = 2 ^ k")
    case True
    then have "Log2Ceiling n = int k"
      using and_not_pred_iff [OF k(2,3)] k(1) by (simp add: Log2Ceiling_def Let_def)
    then show ?thesis using True by (intro exI [of _ k]) simp
  next
    case False
    then have "Log2Ceiling n = int (Suc k)"
      using and_not_pred_iff [OF k(2,3)] k(1) by (simp add: Log2Ceiling_def Let_def)
    then show ?thesis using False k(2,3) by (intro exI [of _ "Suc k"]) simp
  qed
qed

lemma Log2Ceiling64_bounds:
  assumes "n \<noteq> 0"
  shows "\<exists>k. Log2Ceiling64 n = int k \<and> unat n \<le> 2 ^ k \<and> 2 ^ k < 2 * unat n"
proof -
  obtain k where k: "Log2Floor64 n = int k" "2 ^ k \<le> unat n" "unat n < 2 ^ Suc k"
    using Log2Floor64_bounds [OF assms] by blast
  show ?thesis
  proof (cases "unat n = 2 ^ k")
    case True
    then have "Log2Ceiling64 n = int k"
      using and_not_pred_iff [OF k(2,3)] k(1) by (simp add: Log2Ceiling64_def Let_def)
    then show ?thesis using True by (intro exI [of _ k]) simp
  next
    case False
    then have "Log2Ceiling64 n = int (Suc k)"
      using and_not_pred_iff [OF k(2,3)] k(1) by (simp add: Log2Ceiling64_def Let_def)
    then show ?thesis using False k(2,3) by (intro exI [of _ "Suc k"]) simp
  qed
qed

section \<open>Properties\<close>

text \<open>
  Both compilation branches of the logarithms compute the same function, the floor of
  the binary logarithm (minus one at zero), and the ceilings are the least exponent whose
  power of two reaches the argument.
\<close>

theorem log2_correct:
  "Log2Floor_gnu n = Log2Floor n \<and> Log2Floor64_gnu m = Log2Floor64 m \<and>
   (if n = 0 then Log2Floor n = -1
    else \<exists>k. Log2Floor n = int k \<and> 2 ^ k \<le> unat n \<and> unat n < 2 ^ (k + 1)) \<and>
   (if m = 0 then Log2Floor64 m = -1
    else \<exists>k. Log2Floor64 m = int k \<and> 2 ^ k \<le> unat m \<and> unat m < 2 ^ (k + 1)) \<and>
   (if m = 0 then Log2Ceiling64 m = -1
    else \<exists>k. Log2Ceiling64 m = int k \<and> unat m \<le> 2 ^ k \<and> 2 ^ k < 2 * unat m)"
proof -
  have z: "Log2Floor 0 = -1" "Log2Floor64 0 = -1" "Log2Ceiling64 0 = -1"
    by (simp_all add: Log2Floor_def Log2Floor64_def Log2Ceiling64_def)
  show ?thesis
    using z Log2Floor_bounds [of n] Log2Floor64_bounds [of m] Log2Ceiling64_bounds [of m]
    by (simp add: Log2Floor_gnu_eq Log2Floor64_gnu_eq)
qed

text \<open>
  NextPowerOfTwo returns the least power of two that is at least its argument, for
  every argument from 1 to 2^31; beyond that (and at 0) its shift is undefined.
\<close>

theorem NextPowerOfTwo_correct:
  "(case NextPowerOfTwo v of
      Some p \<Rightarrow> (\<exists>k. unat p = 2 ^ k) \<and> unat v \<le> unat p \<and> unat p < 2 * unat v
    | None \<Rightarrow> v = 0 \<or> 2 ^ 31 < unat v) \<and>
   (NextPowerOfTwo v \<noteq> None \<longleftrightarrow> v \<noteq> 0 \<and> unat v \<le> 2 ^ 31)"
proof (cases "v = 0")
  case True
  then show ?thesis by (simp add: NextPowerOfTwo_def Log2Ceiling_def Log2Floor_def)
next
  case False
  then obtain k where k: "Log2Ceiling v = int k" "unat v \<le> 2 ^ k" "2 ^ k < 2 * unat v"
    using Log2Ceiling_bounds by blast
  have le: "k < 32 \<longleftrightarrow> unat v \<le> 2 ^ 31"
  proof
    assume "k < 32"
    then have "(2::nat) ^ k \<le> 2 ^ 31" by (intro power_increasing) auto
    then show "unat v \<le> 2 ^ 31" using k(2) by linarith
  next
    assume "unat v \<le> 2 ^ 31"
    then have "(2::nat) ^ k < 2 ^ 32" using k(3) by simp
    then show "k < 32" by (simp only: power_strict_increasing_iff)
  qed
  have "unat (push_bit k (1 :: uint32)) = 2 ^ k" if "k < 32"
  proof -
    have "(2::nat) ^ k < 2 ^ 32" using that by (intro power_strict_increasing) auto
    then show ?thesis by (simp only: unsigned_push_bit_eq push_bit_nat_def take_bit_nat_def) simp
  qed
  then show ?thesis using False k le by (auto simp: NextPowerOfTwo_def Let_def not_less)
qed

text \<open>
  NextPowerOfTwo64 is not the 64-bit version of NextPowerOfTwo: its argument is
  truncated to 32 bits before the logarithm, so it depends on the low word only, and at
  2^32 + 1 it returns 1, which is smaller than its argument.
\<close>

theorem NextPowerOfTwo64_truncates:
  "NextPowerOfTwo64 v = NextPowerOfTwo64 (take_bit 32 v) \<and>
   NextPowerOfTwo64 0x100000001 = Some 1"
proof -
  have "(ucast (take_bit 32 v) :: uint32) = ucast v"
    by (rule bit_word_eqI) (auto simp: bit_simps)
  moreover have "NextPowerOfTwo64 0x100000001 = Some 1"
    by (simp add: NextPowerOfTwo64_def Log2Ceiling_def Log2Floor_def Let_def)
  ultimately show ?thesis by (simp add: NextPowerOfTwo64_def)
qed

end
