(* ===== verification/TF_OrderedCode.thy ===== *)
theory TF_OrderedCode
  imports TF_Coding TF_Bits
begin

text \<open>
  \<^verbatim>\<open>lib/strings/ordered_code.cc\<close>: byte encodings of strings, unsigned and signed
  numbers whose byte order is the order of the values, so that concatenations of them can
  be used as sorted table keys. Writers append to \<^verbatim>\<open>*dest\<close> and return it; readers
  take \<^verbatim>\<open>*src\<close> and the result pointer's target (\<open>None\<close> for a null pointer) and
  return the advanced source with the updated target, or \<open>None\<close> for \<^verbatim>\<open>false\<close>.
  \<^verbatim>\<open>DCHECK\<close>s are compiled out, as in the release build of the app.
\<close>

section \<open>Strings\<close>

definition kEscape1 :: byte where "kEscape1 = 0"
definition kNullCharacter :: byte where "kNullCharacter = 0xff"
definition kSeparator :: byte where "kSeparator = 1"
definition kEscape2 :: byte where "kEscape2 = 0xff"
definition kFFCharacter :: byte where "kFFCharacter = 0"

definition kEscape1_Separator :: bytes where
  "kEscape1_Separator = [kEscape1, kSeparator]"

lemmas ordered_code_chars =
  kEscape1_def kNullCharacter_def kSeparator_def kEscape2_def kFFCharacter_def

definition AppendBytes :: "bytes \<Rightarrow> bytes \<Rightarrow> bytes" where
  "AppendBytes dest src = dest @ src"

definition IsSpecialByte :: "byte \<Rightarrow> bool" where
  "IsSpecialByte c \<longleftrightarrow> c + 1 < 2"

text \<open>The bytes skipped, and the range from the returned pointer to the limit.\<close>

fun SkipToNextSpecialByte :: "bytes \<Rightarrow> bytes \<times> bytes" where
  "SkipToNextSpecialByte [] = ([], [])"
| "SkipToNextSpecialByte (c # p) =
     (if IsSpecialByte c then ([], c # p)
      else let (skipped, q) = SkipToNextSpecialByte p in (c # skipped, q))"

lemma SkipToNextSpecialByte_split:
  "SkipToNextSpecialByte s = (skipped, q) \<Longrightarrow>
     s = skipped @ q \<and> (\<forall>c \<in> set skipped. \<not> IsSpecialByte c) \<and> (q \<noteq> [] \<longrightarrow> IsSpecialByte (hd q))"
  by (induction s arbitrary: skipped q) (auto split: if_splits prod.splits)

lemma SkipToNextSpecialByte_length:
  "SkipToNextSpecialByte s = (skipped, c # p) \<Longrightarrow> length p < length s"
  by (drule SkipToNextSpecialByte_split) auto

text \<open>
  At the head of the loop \<^verbatim>\<open>copy_start\<close> and \<^verbatim>\<open>p\<close> coincide; the bytes skipped
  are the pending copy.
\<close>

function EncodeStringFragment :: "bytes \<Rightarrow> bytes \<Rightarrow> bytes" where
  "EncodeStringFragment dest p =
     (case SkipToNextSpecialByte p of
        (copy, []) \<Rightarrow> AppendBytes dest copy
      | (copy, c # p') \<Rightarrow>
          if c = kEscape1
          then EncodeStringFragment (AppendBytes dest copy @ [kEscape1] @ [kNullCharacter]) p'
          else EncodeStringFragment (AppendBytes dest copy @ [kEscape2] @ [kFFCharacter]) p')"
  by pat_completeness auto
termination
  by (relation "measure (\<lambda>(dest, p). length p)") (auto dest: sym SkipToNextSpecialByte_length)

definition WriteString :: "bytes \<Rightarrow> bytes \<Rightarrow> bytes" where
  "WriteString dest s = AppendBytes (EncodeStringFragment dest s) kEscape1_Separator"

text \<open>
  The scan stops one byte before the end of the input (\<^verbatim>\<open>limit = string_limit - 1\<close>),
  so that the byte after a special one can always be read.
\<close>

function ReadStringInternal :: "bytes \<Rightarrow> bytes option \<Rightarrow> (bytes \<times> bytes option) option" where
  "ReadStringInternal start result =
     (case SkipToNextSpecialByte (butlast start) of
        (copy, []) \<Rightarrow> None
      | (copy, c # _) \<Rightarrow>
          (let result = map_option (\<lambda>r. AppendBytes r copy) result in
           case drop (Suc (length copy)) start of
             [] \<Rightarrow> None
           | next # start' \<Rightarrow>
               if c = kEscape1 then
                 if next = kSeparator then Some (start', result)
                 else if next = kNullCharacter
                 then ReadStringInternal start' (map_option (\<lambda>r. r @ [0]) result)
                 else None
               else
                 if next = kFFCharacter
                 then ReadStringInternal start' (map_option (\<lambda>r. r @ [0xff]) result)
                 else None))"
  by pat_completeness auto
termination
  by (relation "measure (\<lambda>(start, result). length start)")
    (auto dest!: arg_cong [where f = length])

definition ReadString :: "bytes \<Rightarrow> bytes option \<Rightarrow> (bytes \<times> bytes option) option" where
  "ReadString src result = ReadStringInternal src result"

text \<open>
  \<^verbatim>\<open>TEST_Corrupt\<close>: turns the \<open>k\<close>-th separator into an invalid escape.
\<close>

fun TEST_Corrupt_loop :: "nat \<Rightarrow> nat \<Rightarrow> bytes \<Rightarrow> bytes" where
  "TEST_Corrupt_loop seen_seps k (a # b # str) =
     (if a = kEscape1 \<and> b = kSeparator then
        if Suc seen_seps = k then a # (kSeparator + 1) # str
        else a # TEST_Corrupt_loop (Suc seen_seps) k (b # str)
      else a # TEST_Corrupt_loop seen_seps k (b # str))"
| "TEST_Corrupt_loop seen_seps k str = str"

definition TEST_Corrupt :: "bytes \<Rightarrow> nat \<Rightarrow> bytes" where
  "TEST_Corrupt str k = TEST_Corrupt_loop 0 k str"

section \<open>Unsigned numbers\<close>

lemma unat_drop_bit_8_less: "0 < (v :: 'a::len word) \<Longrightarrow> unat (drop_bit 8 v) < unat v"
  by (simp add: unat_drop_bit_eq drop_bit_nat_def word_less_nat_alt)

text \<open>The loop fills \<^verbatim>\<open>buf\<close> from its end; \<open>buf\<close> is what is filled so far.\<close>

function num_bytes :: "uint64 \<Rightarrow> bytes \<Rightarrow> bytes" where
  "num_bytes val buf =
     (if val > 0 then num_bytes (drop_bit 8 val) (ucast (val AND 0xff) # buf) else buf)"
  by pat_completeness auto
termination
  by (relation "measure (\<lambda>(val, buf). unat val)") (auto simp: unat_drop_bit_8_less)

definition WriteNumIncreasing :: "bytes \<Rightarrow> uint64 \<Rightarrow> bytes" where
  "WriteNumIncreasing dest val =
     (let buf = num_bytes val []; len = length buf
      in AppendBytes dest (word_of_nat len # buf))"

definition ReadNumIncreasing :: "bytes \<Rightarrow> uint64 option \<Rightarrow> (bytes \<times> uint64 option) option" where
  "ReadNumIncreasing src result =
     (if src = [] then None
      else let len = unat (src ! 0) in
        if len + 1 > length src \<or> len > 8 then None
        else let result =
               (case result of
                  None \<Rightarrow> None
                | Some _ \<Rightarrow> Some (foldl (\<lambda>tmp i. push_bit 8 tmp OR ucast (src ! (1 + i))) 0 [0..<len]))
             in Some (drop (len + 1) src, result))"

declare EncodeStringFragment.simps [simp del] ReadStringInternal.simps [simp del]
  num_bytes.simps [simp del]

section \<open>Signed numbers\<close>

definition kMaxSigned64Length :: nat where "kMaxSigned64Length = 10"

definition kLengthToHeaderBits :: "(byte \<times> byte) list" where
  "kLengthToHeaderBits =
     [(0, 0), (0x80, 0), (0xc0, 0), (0xe0, 0), (0xf0, 0), (0xf8, 0), (0xfc, 0), (0xfe, 0),
      (0xff, 0), (0xff, 0x80), (0xff, 0xc0)]"

definition kLengthToMask :: "uint64 list" where
  "kLengthToMask =
     [0, 0x80, 0xc000, 0xe00000, 0xf0000000, 0xf800000000, 0xfc0000000000,
      0xfe000000000000, 0xff00000000000000, 0x8000000000000000, 0]"

definition kBitsToLength :: "nat list" where
  "kBitsToLength =
     [1, 1, 1, 1, 1, 1, 1, 2, 2, 2, 2, 2, 2, 2, 3, 3, 3, 3, 3, 3, 3, 4,
      4, 4, 4, 4, 4, 4, 5, 5, 5, 5, 5, 5, 5, 6, 6, 6, 6, 6, 6, 6, 7, 7,
      7, 7, 7, 7, 7, 8, 8, 8, 8, 8, 8, 8, 9, 9, 9, 9, 9, 9, 9, 10]"

text \<open>
  The file has its own copies of the logarithm: the \<^verbatim>\<open>__GNUC__\<close> one, which the
  app's compilers select, and the portable one (its scan is the one of
  \<^verbatim>\<open>lib/core/bits.h\<close>).
\<close>

definition oc_Log2Floor64 :: "uint64 \<Rightarrow> int" where
  "oc_Log2Floor64 n = (if n = 0 then -1 else int (63 XOR builtin_clz n))"

definition Log2Floor32_Portable :: "uint32 \<Rightarrow> int" where
  "Log2Floor32_Portable n = (if n = 0 then -1 else int (log2_steps [4, 3, 2, 1, 0] n 0))"

definition oc_Log2Floor64_Portable :: "uint64 \<Rightarrow> int" where
  "oc_Log2Floor64_Portable n =
     (let topbits = ucast (drop_bit 32 n) :: uint32
      in if topbits = 0 then Log2Floor32_Portable (ucast n)
         else 32 + Log2Floor32_Portable topbits)"

text \<open>Calculates the encoding length in bytes of the signed number \<open>n\<close>.\<close>

definition SignedEncodingLength :: "uint64 \<Rightarrow> nat" where
  "SignedEncodingLength n =
     kBitsToLength ! nat (oc_Log2Floor64 (if n <s 0 then NOT n else n) + 1)"

definition StoreBigEndian64 :: "uint64 \<Rightarrow> bytes" where
  "StoreBigEndian64 v = map (\<lambda>i. ucast (drop_bit (56 - 8 * i) v AND 0xff)) [0..<8]"

definition LoadBigEndian64 :: "bytes \<Rightarrow> uint64" where
  "LoadBigEndian64 src =
     foldl (\<lambda>result i. result OR push_bit (56 - 8 * i) (ucast (src ! i))) 0 [0..<8]"

definition WriteSignedNumIncreasing :: "bytes \<Rightarrow> uint64 \<Rightarrow> bytes" where
  "WriteSignedNumIncreasing dest val =
     (let x = (if val <s 0 then NOT val else val) in
      if x < 64 then dest @ [fst (kLengthToHeaderBits ! 1) XOR ucast val]
      else
        let sign_byte = (if val <s 0 then 0xff else 0);
            buf = [sign_byte, sign_byte] @ StoreBigEndian64 val;
            len = SignedEncodingLength x;
            begin = drop (length buf - len) buf;
            begin = begin[0 := begin ! 0 XOR fst (kLengthToHeaderBits ! len)];
            begin = begin[1 := begin ! 1 XOR snd (kLengthToHeaderBits ! len)]
        in dest @ take len begin)"

text \<open>The header of \<^verbatim>\<open>ReadSignedNumIncreasing\<close>: its length and raw value.\<close>

definition signed_header :: "uint64 \<Rightarrow> bytes \<Rightarrow> (nat \<times> uint64) option" where
  "signed_header xor_mask src =
     (let first_byte = (src ! 0) XOR ucast (xor_mask AND 0xff) in
      if first_byte \<noteq> 0xff then
        let len = nat (7 - oc_Log2Floor64 (ucast (first_byte XOR 0xff))) in
        if length src < len then None
        else Some (len, foldl (\<lambda>x i. push_bit 8 x OR ucast (src ! i)) xor_mask [0..<len])
      else if length src < 8 then None
      else
        let second_byte = (src ! 1) XOR ucast (xor_mask AND 0xff) in
        if second_byte < 0x80 then Some (8, LoadBigEndian64 src)
        else if second_byte < 0xc0 then
          (if length src < 9 then None else Some (9, LoadBigEndian64 (drop 1 src)))
        else
          let third_byte = (src ! 2) XOR ucast (xor_mask AND 0xff) in
          if second_byte = 0xc0 \<and> third_byte < 0x80 then
            (if length src < 10 then None else Some (10, LoadBigEndian64 (drop 2 src)))
          else None)"

definition ReadSignedNumIncreasing :: "bytes \<Rightarrow> uint64 option \<Rightarrow> (bytes \<times> uint64 option) option" where
  "ReadSignedNumIncreasing src result =
     (if src = [] then None
      else
        let xor_mask = (if (src ! 0) AND 0x80 = 0 then NOT 0 else 0) in
        case signed_header xor_mask src of
          None \<Rightarrow> None
        | Some (len, x) \<Rightarrow>
            let x = x XOR kLengthToMask ! len
            in Some (drop len src, map_option (\<lambda>_. x) result))"

section \<open>Strings round-trip and keep their order\<close>

definition esc :: "byte \<Rightarrow> bytes" where
  "esc c = (if c = 0 then [0, 0xff] else if c = 0xff then [0xff, 0] else [c])"

lemma esc_simps [simp]: "esc 0 = [0, 0xff]" "esc 0xff = [0xff, 0]"
  "\<not> IsSpecialByte c \<Longrightarrow> esc c = [c]"
  by (auto simp: esc_def IsSpecialByte_def)

lemma IsSpecialByte_iff: "IsSpecialByte c \<longleftrightarrow> c = 0 \<or> c = 0xff"
proof
  assume "IsSpecialByte c"
  then have "unat (c + 1) < 2" by (simp add: IsSpecialByte_def word_less_nat_alt)
  then have "unat (c + 1) = unat (0 :: byte) \<or> unat (c + 1) = unat (1 :: byte)" by auto
  then have "c + 1 = 0 \<or> c + 1 = 1" by (simp only: word_unat_eq_iff)
  then show "c = 0 \<or> c = 0xff"
  proof
    assume "c + 1 = 0"
    then have "c = - 1" by (simp add: eq_neg_iff_add_eq_0)
    then show ?thesis by simp
  next
    assume "c + 1 = 1"
    then show ?thesis by simp
  qed
qed (auto simp: IsSpecialByte_def)

lemma esc_plain: "\<forall>c \<in> set xs. \<not> IsSpecialByte c \<Longrightarrow> concat (map esc xs) = xs"
  by (induction xs) (auto simp: IsSpecialByte_iff esc_def)

lemma EncodeStringFragment_eq: "EncodeStringFragment dest s = dest @ concat (map esc s)"
proof (induction dest s rule: EncodeStringFragment.induct)
  case (1 dest p)
  obtain copy q where sk: "SkipToNextSpecialByte p = (copy, q)" by fastforce
  note sp = SkipToNextSpecialByte_split [OF sk]
  show ?case
  proof (cases q)
    case Nil
    then show ?thesis using sk sp
      by (subst EncodeStringFragment.simps) (simp add: AppendBytes_def esc_plain)
  next
    case (Cons c p')
    then have "c = 0 \<or> c = 0xff" using sp by (simp add: IsSpecialByte_iff)
    then show ?thesis using sk sp Cons "1" [OF sk [symmetric] Cons]
      by (subst EncodeStringFragment.simps)
        (auto simp: AppendBytes_def esc_plain ordered_code_chars)
  qed
qed

lemma WriteString_eq: "WriteString dest s = dest @ concat (map esc s) @ [0, 1]"
  by (simp add: WriteString_def EncodeStringFragment_eq AppendBytes_def
      kEscape1_Separator_def ordered_code_chars)

lemma Skip_append_special:
  "\<forall>c \<in> set xs. \<not> IsSpecialByte c \<Longrightarrow> IsSpecialByte d \<Longrightarrow>
    SkipToNextSpecialByte (xs @ d # r) = (xs, d # r)"
  by (induction xs) auto

lemma split_at_special:
  "(\<forall>c \<in> set s. \<not> IsSpecialByte c) \<or>
   (\<exists>xs d r. s = xs @ d # r \<and> IsSpecialByte d \<and> (\<forall>c \<in> set xs. \<not> IsSpecialByte c))"
proof (induction s)
  case (Cons a s)
  then show ?case
  proof (cases "IsSpecialByte a")
    case True
    then show ?thesis by (intro disjI2 exI [of _ "[]"] exI [of _ a] exI [of _ s]) auto
  next
    case False
    then show ?thesis using Cons
      by (metis append_Cons set_ConsD)
  qed
qed auto

text \<open>One step of the reader, on an unescaped run followed by a two-byte code.\<close>

lemma ReadStringInternal_step:
  assumes "\<forall>c \<in> set xs. \<not> IsSpecialByte c" and "IsSpecialByte d"
  shows "ReadStringInternal (xs @ d # e # r) (Some res) =
     (if d = 0 then
        if e = 1 then Some (r, Some (res @ xs))
        else if e = 0xff then ReadStringInternal r (Some (res @ xs @ [0])) else None
      else if e = 0 then ReadStringInternal r (Some (res @ xs @ [0xff])) else None)"
proof -
  have "butlast (xs @ d # e # r) = xs @ d # butlast (e # r)"
    by (simp add: butlast_append)
  then have "SkipToNextSpecialByte (butlast (xs @ d # e # r)) = (xs, d # butlast (e # r))"
    using assms by (simp add: Skip_append_special)
  then show ?thesis
    by (subst ReadStringInternal.simps) (simp add: AppendBytes_def ordered_code_chars)
qed

lemma ReadString_roundtrip:
  "ReadStringInternal (concat (map esc s) @ 0 # 1 # rest) (Some res) = Some (rest, Some (res @ s))"
proof (induction "length s" arbitrary: s res rule: less_induct)
  case less
  from split_at_special [of s] show ?case
  proof
    assume "\<forall>c \<in> set s. \<not> IsSpecialByte c"
    then show ?thesis
      by (simp add: esc_plain ReadStringInternal_step IsSpecialByte_iff)
  next
    assume "\<exists>xs d r. s = xs @ d # r \<and> IsSpecialByte d \<and> (\<forall>c \<in> set xs. \<not> IsSpecialByte c)"
    then obtain xs d r where s: "s = xs @ d # r" "IsSpecialByte d" "\<forall>c \<in> set xs. \<not> IsSpecialByte c"
      by blast
    have ih: "ReadStringInternal (concat (map esc r) @ 0 # 1 # rest) (Some res') = Some (rest, Some (res' @ r))" for res'
      using less [of r] s(1) by simp
    have "d = 0 \<or> d = 0xff" using s(2) by (simp add: IsSpecialByte_iff)
    then show ?thesis
      using s ih ReadStringInternal_step [OF s(3), of d] by (auto simp: esc_plain)
  qed
qed

definition enc_string :: "bytes \<Rightarrow> bytes" where
  "enc_string s = WriteString [] s"

definition dec_string :: "bytes \<Rightarrow> (bytes \<times> bytes) option" where
  "dec_string src = (case ReadString src (Some []) of
     Some (src', Some r) \<Rightarrow> Some (r, src') | _ \<Rightarrow> None)"

lemma byte_less_255: "(b :: byte) \<noteq> 255 \<Longrightarrow> b < 255"
proof -
  assume "b \<noteq> 255"
  moreover have "b \<le> 255"
  proof -
    have "unat b < 2 ^ LENGTH(8)" by (rule unsigned_less)
    then show ?thesis by (simp add: word_le_nat_alt)
  qed
  ultimately show ?thesis by simp
qed

lemma esc_mono: "compare x y < 0 \<Longrightarrow>
   first_diff_lt (concat (map esc x) @ [0, 1]) (concat (map esc y) @ [0, 1])"
proof (induction x y rule: list_induct2')
  case (3 b bs)
  then show ?case by (auto simp: word_gt_0 esc_def)
next
  case (4 a as b bs)
  show ?case
  proof (cases "a = b")
    case True
    then show ?thesis using 4 by simp
  next
    case False
    then have "a < b" using "4.prems" by (auto split: if_splits)
    then have "b \<noteq> 0" "a \<noteq> 255" using byte_less_255 [of b]
      by (auto simp: not_less [symmetric] dest: order.strict_trans2)
    then show ?thesis using \<open>a < b\<close> by (auto simp: word_gt_0 byte_less_255 esc_def)
  qed
qed auto

interpretation string_code: ordered_codec enc_string dec_string "\<lambda>_. True" "\<lambda>x y. compare x y < 0"
proof unfold_locales
  fix x rest
  show "dec_string (enc_string x @ rest) = Some (x, rest)"
    using ReadString_roundtrip [of x rest "[]"]
    by (simp add: dec_string_def enc_string_def ReadString_def WriteString_eq)
next
  fix x y :: bytes
  assume "compare x y < 0"
  then show "first_diff_lt (enc_string x) (enc_string y)"
    using esc_mono by (simp add: enc_string_def WriteString_eq)
next
  fix x y :: bytes
  have "compare x y = - 1 \<or> compare x y = 0 \<or> compare x y = 1"
    using compare_range [of x y] by auto
  then show "x = y \<or> compare x y < 0 \<or> compare y x < 0"
    using compare_antisym [of x y] by auto
qed

section \<open>Big-endian byte strings\<close>

fun be_val :: "bytes \<Rightarrow> nat" where
  "be_val [] = 0"
| "be_val (b # bs) = unat b * 256 ^ length bs + be_val bs"

lemma be_val_bound: "be_val bs < 256 ^ length bs"
proof (induction bs)
  case (Cons b bs)
  have "unat b < 2 ^ LENGTH(8)" by (rule unsigned_less)
  then have "unat b * 256 ^ length bs \<le> 255 * 256 ^ length bs" by (intro mult_right_mono) auto
  with Cons have "unat b * 256 ^ length bs + be_val bs < 256 * 256 ^ length bs" by linarith
  then show ?case by simp
qed simp

lemma be_val_append: "be_val (xs @ ys) = be_val xs * 256 ^ length ys + be_val ys"
  by (induction xs) (simp_all add: power_add algebra_simps)

lemma first_diff_lt_be_val:
  "length xs = length ys \<Longrightarrow> first_diff_lt xs ys \<longleftrightarrow> be_val xs < be_val ys"
proof (induction xs ys rule: list_induct2)
  case (Cons a as b bs)
  let ?p = "256 ^ length bs :: nat"
  have la: "be_val as < ?p" and lb: "be_val bs < ?p"
    using be_val_bound [of as] be_val_bound [of bs] Cons.hyps by simp_all
  have step: "unat a * ?p + be_val as < unat b * ?p + be_val bs" if "unat a < unat b" for a b :: byte
  proof -
    have "(unat a + 1) * ?p \<le> unat b * ?p" using that by (intro mult_right_mono) auto
    then show ?thesis using la by simp
  qed
  have rev: "\<not> unat a * ?p + be_val as < unat b * ?p + be_val bs" if "unat b < unat a" for a b :: byte
  proof -
    have "(unat b + 1) * ?p \<le> unat a * ?p" using that by (intro mult_right_mono) auto
    then show ?thesis using lb by simp
  qed
  consider "unat a < unat b" | "a = b" | "unat b < unat a"
    by (metis linorder_neqE_nat word_unat_eq_iff)
  then show ?case
  proof cases
    case 1
    then show ?thesis using step [OF 1] Cons.hyps by (simp add: word_less_nat_alt)
  next
    case 2
    then show ?thesis using Cons by simp
  next
    case 3
    then have "\<not> a < b" "a \<noteq> b" by (auto simp: word_less_nat_alt)
    then show ?thesis using rev [OF 3] Cons.hyps by simp
  qed
qed simp

lemma be_val_inj: "length xs = length ys \<Longrightarrow> be_val xs = be_val ys \<Longrightarrow> xs = ys"
proof (rule ccontr)
  assume l: "length xs = length ys" and v: "be_val xs = be_val ys" and "xs \<noteq> ys"
  then have "compare xs ys < 0 \<or> compare ys xs < 0"
    using compare_antisym [of xs ys] compare_eq_0_iff [of xs ys] by linarith
  then show False
    using first_diff_lt_equal_length [OF l] first_diff_lt_equal_length [OF l [symmetric]]
      first_diff_lt_be_val [OF l] first_diff_lt_be_val [OF l [symmetric]] v by simp
qed

text \<open>Reading bytes into a word, most significant first, as both number readers do.\<close>

lemma unat_push_or_byte:
  assumes "unat (r :: 'a::len word) * 256 + 256 \<le> 2 ^ LENGTH('a)" and "7 < LENGTH('a)"
  shows "unat (push_bit 8 r OR ucast (b :: byte)) = unat r * 256 + unat b"
proof -
  have b: "unat b < 2 ^ LENGTH(8)" by (rule unsigned_less)
  have ub: "unat (ucast b :: 'a word) = unat b"
  proof -
    have "(2::nat) ^ 8 \<le> 2 ^ LENGTH('a)" using assms(2) by (intro power_increasing) auto
    then show ?thesis using b by (simp add: unsigned_ucast_eq take_bit_nat_eq_self_iff)
  qed
  have "push_bit 8 r OR ucast b = (ucast b :: 'a word) OR push_bit 8 r" by (rule or.commute)
  moreover have "unat ((ucast b :: 'a word) OR push_bit 8 r) = unat b + unat r * 2 ^ 8"
    using assms(1) b by (subst unat_or_push_bit) (simp_all add: ub)
  ultimately show ?thesis by simp
qed

lemma foldl_be_word:
  assumes "(unat (r :: 'a::len word) + 1) * 256 ^ length bs \<le> 2 ^ LENGTH('a)" and "7 < LENGTH('a)"
  shows "unat (foldl (\<lambda>x b. push_bit 8 x OR ucast (b :: byte)) r bs) = unat r * 256 ^ length bs + be_val bs"
  using assms
proof (induction bs arbitrary: r)
  case (Cons b bs)
  let ?p = "256 ^ length bs :: nat"
  have p: "1 \<le> ?p" by simp
  have "(unat r + 1) * 256 * 1 \<le> (unat r + 1) * 256 * ?p" using p by (intro mult_left_mono) auto
  then have u: "unat (push_bit 8 r OR ucast b) = unat r * 256 + unat b"
    using Cons.prems by (intro unat_push_or_byte) (auto simp: algebra_simps)
  have "unat b < 2 ^ LENGTH(8)" by (rule unsigned_less)
  then have "(unat r * 256 + unat b + 1) * ?p \<le> (unat r * 256 + 256) * ?p"
    by (intro mult_right_mono) auto
  then have "(unat (push_bit 8 r OR ucast b) + 1) * ?p \<le> 2 ^ LENGTH('a)"
  proof -
    have "(unat r * 256 + 256) * ?p = (unat r + 1) * 256 ^ length (b # bs)"
      by (simp add: algebra_simps)
    then show ?thesis unfolding u
      using \<open>(unat r * 256 + unat b + 1) * ?p \<le> (unat r * 256 + 256) * ?p\<close> Cons.prems(1)
      by linarith
  qed
  from Cons.IH [OF this Cons.prems(2)] show ?case
    by (simp add: u algebra_simps)
qed simp

lemma foldl_nth_upt:
  "n + k \<le> length src \<Longrightarrow> foldl (\<lambda>x i. f x (src ! (k + i))) r [0..<n] = foldl f r (take n (drop k src))"
proof (induction n)
  case (Suc n)
  then have "take (Suc n) (drop k src) = take n (drop k src) @ [src ! (k + n)]"
    by (simp add: take_Suc_conv_app_nth)
  then show ?case using Suc by simp
qed simp

section \<open>Unsigned numbers round-trip and keep their order\<close>

fun be_min :: "nat \<Rightarrow> bytes" where
  "be_min n = (if n = 0 then [] else be_min (n div 256) @ [word_of_nat (n mod 256)])"

declare be_min.simps [simp del]

lemma be_min_0 [simp]: "be_min 0 = []"
  by (simp add: be_min.simps)

lemma be_val_be_min [simp]: "be_val (be_min n) = n"
proof (induction n rule: be_min.induct)
  case (1 n)
  have "unat (word_of_nat (n mod 256) :: byte) = n mod 256"
    by (subst unat_of_nat) (simp add: take_bit_nat_def)
  then show ?case using 1 by (subst be_min.simps) (auto simp: be_val_append)
qed

lemma be_min_bounds: "0 < n \<Longrightarrow> be_min n \<noteq> [] \<and> 256 ^ (length (be_min n) - 1) \<le> n"
proof (induction n rule: be_min.induct)
  case (1 n)
  have len: "length (be_min n) = Suc (length (be_min (n div 256)))"
    using "1.prems" by (subst be_min.simps) simp
  show ?case
  proof (cases "n div 256 = 0")
    case True
    then show ?thesis using len "1.prems" by (auto simp: be_min.simps)
  next
    case False
    then have "be_min (n div 256) \<noteq> []" "256 ^ (length (be_min (n div 256)) - 1) \<le> n div 256"
      using "1.IH" "1.prems" by auto
    moreover obtain k where k: "length (be_min (n div 256)) = Suc k"
      using calculation(1) by (cases "be_min (n div 256)") auto
    ultimately have "256 ^ k * 256 \<le> n div 256 * 256" by (intro mult_right_mono) auto
    then show ?thesis using len k by auto
  qed
qed

lemma be_min_length_mono: "n \<le> m \<Longrightarrow> length (be_min n) \<le> length (be_min m)"
proof (cases "n = 0")
  case False
  assume "n \<le> m"
  then have "256 ^ (length (be_min n) - 1) < (256 :: nat) ^ length (be_min m)"
  proof -
    have "256 ^ (length (be_min n) - 1) \<le> n" using be_min_bounds False by simp
    moreover have "m < 256 ^ length (be_min m)" using be_val_bound [of "be_min m"] by simp
    ultimately show ?thesis using \<open>n \<le> m\<close> by linarith
  qed
  then have "length (be_min n) - 1 < length (be_min m)" by (simp only: power_strict_increasing_iff)
  then show ?thesis by linarith
qed simp

lemma be_min_length_64: "length (be_min (unat (v :: uint64))) \<le> 8"
proof (cases "v = 0")
  case False
  then have "256 ^ (length (be_min (unat v)) - 1) \<le> unat v" using be_min_bounds by (simp add: unat_gt_0)
  also have "unat v < 2 ^ LENGTH(64)" by (rule unsigned_less)
  also have "(2::nat) ^ LENGTH(64) = 256 ^ 8" by simp
  finally have "length (be_min (unat v)) - 1 < 8" by (simp only: power_strict_increasing_iff)
  then show ?thesis by simp
qed simp

lemma num_bytes_eq: "num_bytes v buf = be_min (unat v) @ buf"
proof (induction v buf rule: num_bytes.induct)
  case (1 v buf)
  show ?case
  proof (cases "v > 0")
    case True
    have "ucast (v AND 0xff) = (word_of_nat (unat v mod 256) :: byte)"
    proof -
      have "unat (ucast (v AND 0xff) :: byte) = unat v mod 256"
        by (simp add: mask_simps unsigned_ucast_eq take_bit_nat_def)
      then have "word_of_nat (unat (ucast (v AND 0xff) :: byte)) = (word_of_nat (unat v mod 256) :: byte)"
        by (rule arg_cong)
      then show ?thesis by (simp only: word_of_nat_unat)
    qed
    moreover have "unat (drop_bit 8 v) = unat v div 256" by (simp add: unat_drop_bit_eq drop_bit_nat_def)
    ultimately show ?thesis using True "1" be_min.simps [of "unat v"]
      by (subst num_bytes.simps) (simp add: unat_gt_0 word_gt_0)
  next
    case False
    then show ?thesis by (subst num_bytes.simps) (simp add: word_gt_0)
  qed
qed

lemma WriteNumIncreasing_eq:
  "WriteNumIncreasing dest v = dest @ word_of_nat (length (be_min (unat v))) # be_min (unat v)"
  by (simp add: WriteNumIncreasing_def num_bytes_eq AppendBytes_def Let_def)

lemma ReadNumIncreasing_roundtrip:
  "ReadNumIncreasing (WriteNumIncreasing [] v @ rest) (Some r) = Some (rest, Some v)"
proof -
  let ?b = "be_min (unat v)"
  define len where "len = length ?b"
  have l8: "len \<le> 8" using be_min_length_64 by (simp add: len_def)
  then have ul: "unat (word_of_nat len :: byte) = len"
    by (subst unat_of_nat) (simp add: take_bit_nat_eq_self_iff)
  have "foldl (\<lambda>tmp i. push_bit 8 tmp OR ucast ((word_of_nat len # ?b @ rest) ! (1 + i))) (0 :: uint64) [0..<len]
      = foldl (\<lambda>tmp b. push_bit 8 tmp OR ucast b) 0 ?b"
    by (subst foldl_nth_upt) (simp_all add: len_def)
  also have "\<dots> = v"
  proof -
    have "(256::nat) ^ len \<le> 256 ^ 8" using l8 by (intro power_increasing) auto
    then have "unat (foldl (\<lambda>tmp b. push_bit 8 tmp OR ucast b) (0 :: uint64) ?b) = be_val ?b"
      by (subst foldl_be_word) (simp_all add: len_def)
    then show ?thesis by (simp add: word_unat_eq_iff)
  qed
  finally show ?thesis
    using l8 by (simp add: WriteNumIncreasing_eq ReadNumIncreasing_def Let_def ul len_def [symmetric])
qed

definition enc_num :: "uint64 \<Rightarrow> bytes" where
  "enc_num v = WriteNumIncreasing [] v"

definition dec_num :: "bytes \<Rightarrow> (uint64 \<times> bytes) option" where
  "dec_num src = (case ReadNumIncreasing src (Some 0) of
     Some (src', Some r) \<Rightarrow> Some (r, src') | _ \<Rightarrow> None)"

lemma num_mono: "x < y \<Longrightarrow> first_diff_lt (enc_num x) (enc_num y)"
proof -
  assume "x < y"
  then have lt: "unat x < unat y" by (simp add: word_less_nat_alt)
  let ?a = "be_min (unat x)" and ?b = "be_min (unat y)"
  have le: "length ?a \<le> length ?b" using lt by (intro be_min_length_mono) simp
  have u: "unat (word_of_nat (length (be_min (unat (v :: uint64)))) :: byte) = length (be_min (unat v))" for v
    using be_min_length_64 [of v] by (subst unat_of_nat) (simp add: take_bit_nat_eq_self_iff)
  show ?thesis
  proof (cases "length ?a = length ?b")
    case True
    then show ?thesis using first_diff_lt_be_val [OF True] lt by (simp add: enc_num_def WriteNumIncreasing_eq)
  next
    case False
    then show ?thesis using le by (simp add: enc_num_def WriteNumIncreasing_eq word_less_nat_alt u)
  qed
qed

interpretation num_code: ordered_codec enc_num dec_num "\<lambda>_. True" "(<)"
proof unfold_locales
  show "dec_num (enc_num x @ rest) = Some (x, rest)" for x rest
    using ReadNumIncreasing_roundtrip [of x rest 0] by (simp add: dec_num_def enc_num_def)
qed (use num_mono in auto)

section \<open>Signed numbers: negative values are complements\<close>

lemma signed_neg_iff: "(val :: 'a::len word) <s 0 \<longleftrightarrow> bit val (LENGTH('a) - 1)"
  by (simp add: word_sless_alt bit_last_iff)

lemma ucast_not_byte:
  "(ucast (drop_bit k (NOT (v :: uint64)) AND 0xff) :: byte) = NOT (ucast (drop_bit k v AND 0xff))" if "k \<le> 56"
  by (rule bit_word_eqI) (use that in \<open>auto simp: mask_simps bit_simps\<close>)

lemma StoreBigEndian64_not: "StoreBigEndian64 (NOT v) = map NOT (StoreBigEndian64 v)"
  by (simp add: StoreBigEndian64_def ucast_not_byte)

lemma length_StoreBigEndian64 [simp]: "length (StoreBigEndian64 v) = 8"
  by (simp add: StoreBigEndian64_def)

lemma xor_not_left: "NOT a XOR b = NOT (a XOR (b :: 'a::len word))"
  by (rule bit_word_eqI) (auto simp: bit_simps)

definition sign_abs :: "uint64 \<Rightarrow> uint64" where
  "sign_abs val = (if val <s 0 then NOT val else val)"

lemma sign_abs_not [simp]: "sign_abs (NOT val) = sign_abs val"
  by (auto simp: sign_abs_def signed_neg_iff bit_not_iff)

lemma sign_abs_nonneg: "\<not> bit (sign_abs val) 63"
  by (auto simp: sign_abs_def signed_neg_iff bit_not_iff)

lemma not_bit_63_iff: "\<not> bit (v :: uint64) 63 \<longleftrightarrow> unat v < 2 ^ 63"
proof -
  have "(\<not> bit v 63) = (take_bit 63 v = v)"
  proof
    assume n: "\<not> bit v 63"
    show "take_bit 63 v = v"
    proof (rule bit_word_eqI)
      fix k assume "k < LENGTH(64)"
      then show "bit (take_bit 63 v) k = bit v k" using n by (cases "k = 63") (auto simp: bit_take_bit_iff)
    qed
  next
    assume "take_bit 63 v = v"
    then show "\<not> bit v 63" by (metis bit_take_bit_iff less_irrefl)
  qed
  then show ?thesis using take_bit_eq_self_unat [of 63 v] by simp
qed

lemma length_kLength [simp]: "length kLengthToHeaderBits = 11"
  by (simp add: kLengthToHeaderBits_def)

text \<open>The tail of the sign-extended buffer with its header bits.\<close>

definition put_header :: "nat \<Rightarrow> bytes \<Rightarrow> bytes" where
  "put_header len buf =
     (let begin = drop (length buf - len) buf;
          begin = begin[0 := begin ! 0 XOR fst (kLengthToHeaderBits ! len)];
          begin = begin[1 := begin ! 1 XOR snd (kLengthToHeaderBits ! len)]
      in take len begin)"

definition sign_buf :: "uint64 \<Rightarrow> bytes" where
  "sign_buf val =
     (let sign_byte = (if val <s 0 then 0xff else 0)
      in [sign_byte, sign_byte] @ StoreBigEndian64 val)"

lemma WriteSigned_unfold:
  "WriteSignedNumIncreasing dest val =
     dest @ (if sign_abs val < 64 then [0x80 XOR ucast val]
             else put_header (SignedEncodingLength (sign_abs val)) (sign_buf val))"
  by (simp add: WriteSignedNumIncreasing_def Let_def sign_abs_def put_header_def sign_buf_def
      kLengthToHeaderBits_def)

lemma map_not_update:
  "(map NOT xs)[i := map NOT xs ! i XOR h] = map NOT (xs[i := xs ! i XOR (h :: byte)])"
proof (cases "i < length xs")
  case True
  then show ?thesis by (simp add: map_update xor_not_left)
qed (simp add: list_update_beyond)

lemma put_header_not: "put_header len (map NOT buf) = map NOT (put_header len buf)"
  by (simp only: put_header_def Let_def length_map drop_map take_map map_not_update)

lemma sign_buf_not: "sign_buf (NOT val) = map NOT (sign_buf val)"
  by (auto simp: sign_buf_def Let_def StoreBigEndian64_not signed_neg_iff bit_not_iff)

lemma WriteSigned_not:
  "WriteSignedNumIncreasing [] (NOT val) = map NOT (WriteSignedNumIncreasing [] val)"
proof -
  have "0x80 XOR ucast (NOT val) = NOT (0x80 XOR ucast val :: byte)"
    by (rule bit_word_eqI) (auto simp: bit_simps)
  then show ?thesis by (simp add: WriteSigned_unfold sign_buf_not put_header_not)
qed

section \<open>Signed numbers: length and value of the encoding\<close>

definition slen :: "nat \<Rightarrow> nat" where
  "slen n = bit_length n div 7 + 1"

lemma kBitsToLength_nth: "b < 64 \<Longrightarrow> kBitsToLength ! b = b div 7 + 1"
proof -
  have "list_all (\<lambda>b. kBitsToLength ! b = b div 7 + 1) [0..<64]" by code_simp
  moreover assume "b < 64"
  ultimately show ?thesis by (simp add: list_all_iff)
qed

lemma oc_Log2Floor64_bit_length: "oc_Log2Floor64 n = int (bit_length (unat n)) - 1"
proof (cases "n = 0")
  case False
  have "unat n < 2 ^ LENGTH(64)" by (rule unsigned_less)
  then have "bit_length (unat n) \<le> 64" by (intro bit_length_le) simp
  moreover have "0 < bit_length (unat n)"
    using bit_length_bounds [of "unat n"] False by (simp add: unat_gt_0)
  ultimately show ?thesis using False by (simp add: oc_Log2Floor64_def builtin_clz_def xor_63)
qed (simp add: oc_Log2Floor64_def bit_length.simps)

lemma SignedEncodingLength_eq:
  assumes "\<not> bit x 63"
  shows "SignedEncodingLength x = slen (unat x)"
proof -
  have "unat x < 2 ^ 63" using assms by (simp add: not_bit_63_iff)
  then have "bit_length (unat x) \<le> 63" by (rule bit_length_le)
  moreover have "\<not> x <s 0" using assms by (simp add: signed_neg_iff)
  ultimately show ?thesis
    by (simp add: SignedEncodingLength_def oc_Log2Floor64_bit_length kBitsToLength_nth slen_def)
qed

lemma slen_bounds:
  assumes "n < 2 ^ 63"
  shows "1 \<le> slen n" "slen n \<le> 10" "n < 2 ^ (7 * slen n - 1)"
    "slen n \<noteq> 1 \<Longrightarrow> 2 ^ (7 * slen n - 8) \<le> n"
proof -
  have b: "bit_length n \<le> 63" using assms by (rule bit_length_le)
  show "1 \<le> slen n" "slen n \<le> 10" using b by (simp_all add: slen_def)
  have mod: "bit_length n mod 7 < 7" by simp
  then have "bit_length n \<le> 7 * slen n - 1"
    using div_mult_mod_eq [of "bit_length n" 7] by (simp add: slen_def)
  then have "(2::nat) ^ bit_length n \<le> 2 ^ (7 * slen n - 1)" by (intro power_increasing) auto
  moreover have "n < 2 ^ bit_length n"
    using bit_length_bounds [of n] by (cases "n = 0") auto
  ultimately show "n < 2 ^ (7 * slen n - 1)" by linarith
  assume "slen n \<noteq> 1"
  then have "7 \<le> bit_length n" by (simp add: slen_def)
  moreover have "7 * slen n - 8 \<le> bit_length n - 1"
    using div_mult_mod_eq [of "bit_length n" 7] by (simp add: slen_def)
  then have "(2::nat) ^ (7 * slen n - 8) \<le> 2 ^ (bit_length n - 1)" by (intro power_increasing) auto
  moreover have "2 ^ (bit_length n - 1) \<le> n"
    using bit_length_bounds [of n] calculation(1) by (cases "n = 0") (auto simp: bit_length.simps)
  ultimately show "2 ^ (7 * slen n - 8) \<le> n" by linarith
qed

lemma slen_mono: "n \<le> m \<Longrightarrow> m < 2 ^ 63 \<Longrightarrow> slen n \<le> slen m"
proof -
  assume "n \<le> m" "m < 2 ^ 63"
  moreover have "m < 2 ^ bit_length m"
    using bit_length_bounds [of m] by (cases "m = 0") auto
  ultimately have "bit_length n \<le> bit_length m" by (intro bit_length_le) linarith
  then show ?thesis by (simp add: slen_def div_le_mono)
qed

text \<open>The encoding of a non-negative value, as an unsigned number: its header is \<open>L\<close> ones.\<close>

definition sval :: "nat \<Rightarrow> nat" where
  "sval n = n + (2 ^ slen n - 1) * 2 ^ (7 * slen n)"

lemma be_val_StoreBigEndian64: "be_val (StoreBigEndian64 v) = unat v"
proof -
  have "be_val (map (\<lambda>i. ucast (drop_bit (56 - 8 * i) v AND 0xff)) [0..<k]) = unat v div 2 ^ (64 - 8 * k)"
    if "k \<le> 8" for k
    using that
  proof (induction k)
    case 0
    have "unat v < 2 ^ LENGTH(64)" by (rule unsigned_less)
    then show ?case by simp
  next
    case (Suc k)
    have u: "unat (ucast (drop_bit (56 - 8 * k) v AND 0xff) :: byte) = unat v div 2 ^ (56 - 8 * k) mod 256"
      by (simp add: mask_simps unsigned_ucast_eq unat_drop_bit_eq drop_bit_nat_def take_bit_nat_def)
    have "64 - 8 * k = (56 - 8 * k) + 8" using Suc.prems by simp
    then have "unat v div 2 ^ (64 - 8 * k) = unat v div 2 ^ (56 - 8 * k) div 256"
      by (simp only: power_add div_mult2_eq) simp
    moreover have "64 - 8 * Suc k = 56 - 8 * k" by simp
    ultimately show ?case using Suc u by (simp add: be_val_append)
  qed
  from this [of 8] show ?thesis by (simp add: StoreBigEndian64_def)
qed

lemma xor_push_bit:
  fixes b h :: "'a::len word"
  assumes "unat b < 2 ^ k" and "unat b + unat h * 2 ^ k < 2 ^ LENGTH('a)"
  shows "unat (b XOR push_bit k h) = unat b + unat h * 2 ^ k"
proof -
  have t: "take_bit k b = b" using assms(1) by (simp add: take_bit_eq_self_unat)
  have "b XOR push_bit k h = b OR push_bit k h"
  proof (rule bit_word_eqI)
    fix n assume "n < LENGTH('a)"
    have "\<not> bit b n" if "k \<le> n" using t that by (metis bit_take_bit_iff not_less)
    then show "bit (b XOR push_bit k h) n = bit (b OR push_bit k h) n"
      by (auto simp: bit_simps)
  qed
  then show ?thesis using unat_or_push_bit [OF assms] by simp
qed

text \<open>Adding the header to the two leading bytes, one case per length.\<close>

lemma header_bytes:
  assumes "2 \<le> L" "L \<le> 10" and w: "unat b0 * 256 + unat b1 < 2 ^ (15 - L)"
  shows "unat (b0 XOR fst (kLengthToHeaderBits ! L)) * 256 + unat (b1 XOR snd (kLengthToHeaderBits ! L))
    = unat b0 * 256 + unat b1 + (2 ^ L - 1) * 2 ^ (16 - L)"
proof -
  consider "L = 2" | "L = 3" | "L = 4" | "L = 5" | "L = 6" | "L = 7" | "L = 8" | "L = 9" | "L = 10"
    using assms(1,2) by linarith
  then show ?thesis
  proof cases
    case 1 then show ?thesis using w xor_push_bit [of b0 6 3] by (simp add: kLengthToHeaderBits_def)
  next
    case 2 then show ?thesis using w xor_push_bit [of b0 5 7] by (simp add: kLengthToHeaderBits_def)
  next
    case 3 then show ?thesis using w xor_push_bit [of b0 4 15] by (simp add: kLengthToHeaderBits_def)
  next
    case 4 then show ?thesis using w xor_push_bit [of b0 3 31] by (simp add: kLengthToHeaderBits_def)
  next
    case 5 then show ?thesis using w xor_push_bit [of b0 2 63] by (simp add: kLengthToHeaderBits_def)
  next
    case 6 then show ?thesis using w xor_push_bit [of b0 1 127] by (simp add: kLengthToHeaderBits_def)
  next
    case 7 then show ?thesis using w xor_push_bit [of b0 0 255] by (simp add: kLengthToHeaderBits_def)
  next
    case 8 then show ?thesis using w xor_push_bit [of b0 0 255] xor_push_bit [of b1 7 1]
      by (simp add: kLengthToHeaderBits_def)
  next
    case 9 then show ?thesis using w xor_push_bit [of b0 0 255] xor_push_bit [of b1 6 3]
      by (simp add: kLengthToHeaderBits_def)
  qed
qed

lemma be_val_drop_small:
  assumes "be_val buf < 256 ^ k" and "k \<le> length buf"
  shows "be_val (drop (length buf - k) buf) = be_val buf"
proof -
  have eq: "be_val buf = be_val (take (length buf - k) buf) * 256 ^ k + be_val (drop (length buf - k) buf)"
    using be_val_append [of "take (length buf - k) buf" "drop (length buf - k) buf"] assms(2) by simp
  have "be_val (take (length buf - k) buf) = 0"
  proof (rule ccontr)
    assume "be_val (take (length buf - k) buf) \<noteq> 0"
    then have "1 * 256 ^ k \<le> be_val (take (length buf - k) buf) * (256 ^ k :: nat)"
      by (intro mult_right_mono) auto
    then show False using eq assms(1) by linarith
  qed
  then show ?thesis using eq by simp
qed

lemma put_header_val:
  assumes L: "2 \<le> L" "L \<le> 10" and len: "length buf = 10" and n: "be_val buf < 2 ^ (7 * L - 1)"
  shows "length (put_header L buf) = L \<and> be_val (put_header L buf) = be_val buf + (2 ^ L - 1) * 2 ^ (7 * L)"
proof -
  define begin' where "begin' = drop (10 - L) buf"
  have lb: "length begin' = L" using L len by (simp add: begin'_def)
  have "(2::nat) ^ (7 * L - 1) \<le> 2 ^ (8 * L)" by (intro power_increasing) auto
  then have "be_val buf < 256 ^ L" using n by (simp add: power_mult)
  then have v: "be_val begin' = be_val buf"
    using be_val_drop_small [of buf L] L len by (simp add: begin'_def)
  obtain b0 b1 r where b: "begin' = b0 # b1 # r" and lr: "length r = L - 2"
    using lb L by (cases begin'; cases "tl begin'") auto
  let ?w = "unat b0 * 256 + unat b1"
  let ?p = "256 ^ (L - 2) :: nat"
  have split: "be_val buf = ?w * ?p + be_val r"
  proof -
    have "256 ^ Suc (L - 2) = 256 * ?p" by simp
    then show ?thesis using v [symmetric] by (simp add: b lr algebra_simps)
  qed
  have "?w < 2 ^ (15 - L)"
  proof (rule ccontr)
    assume "\<not> ?w < 2 ^ (15 - L)"
    then have "2 ^ (15 - L) * ?p \<le> ?w * ?p" by (intro mult_right_mono) auto
    moreover have "2 ^ (15 - L) * ?p = 2 ^ (7 * L - 1)"
    proof -
      have "?p = 2 ^ (8 * (L - 2))" by (simp add: power_mult)
      moreover have "(15 - L) + 8 * (L - 2) = 7 * L - 1" using L by simp
      ultimately show ?thesis by (simp only: power_add [symmetric])
    qed
    ultimately show False using split n by linarith
  qed
  from header_bytes [OF L this]
  have h: "unat (b0 XOR fst (kLengthToHeaderBits ! L)) * 256 + unat (b1 XOR snd (kLengthToHeaderBits ! L))
    = ?w + (2 ^ L - 1) * 2 ^ (16 - L)" .
  have put: "put_header L buf = (b0 XOR fst (kLengthToHeaderBits ! L)) # (b1 XOR snd (kLengthToHeaderBits ! L)) # r"
    using L lr by (simp add: put_header_def Let_def len begin'_def [symmetric] b)
  have "be_val (put_header L buf) = (?w + (2 ^ L - 1) * 2 ^ (16 - L)) * ?p + be_val r"
  proof -
    have "256 ^ Suc (L - 2) = 256 * ?p" by simp
    then show ?thesis unfolding put h [symmetric] by (simp add: lr algebra_simps)
  qed
  also have "\<dots> = be_val buf + (2 ^ L - 1) * (2 ^ (16 - L) * ?p)"
    unfolding split by (simp only: add_mult_distrib mult.assoc)
  also have "2 ^ (16 - L) * ?p = 2 ^ (7 * L)"
  proof -
    have "?p = 2 ^ (8 * (L - 2))" by (simp add: power_mult)
    moreover have "(16 - L) + 8 * (L - 2) = 7 * L" using L by simp
    ultimately show ?thesis by (simp only: power_add [symmetric])
  qed
  finally show ?thesis using put lr L by simp
qed

lemma WriteSigned_nonneg:
  assumes "\<not> val <s 0"
  shows "length (WriteSignedNumIncreasing [] val) = slen (unat val) \<and>
    be_val (WriteSignedNumIncreasing [] val) = sval (unat val)"
proof -
  let ?n = "unat val"
  have nb: "\<not> bit val 63" using assms by (simp add: signed_neg_iff)
  then have n63: "?n < 2 ^ 63" by (simp add: not_bit_63_iff)
  note b = slen_bounds [OF n63]
  have abs: "sign_abs val = val" using assms by (simp add: sign_abs_def)
  show ?thesis
  proof (cases "val < 64")
    case True
    then have lt: "?n < 64" by (simp add: word_less_nat_alt)
    have "slen ?n = 1"
    proof (rule ccontr)
      assume "slen ?n \<noteq> 1"
      then have "2 ^ (7 * slen ?n - 8) \<le> ?n" by (rule b(4))
      moreover have "(2::nat) ^ 6 \<le> 2 ^ (7 * slen ?n - 8)"
        using \<open>slen ?n \<noteq> 1\<close> b(1) by (intro power_increasing) auto
      ultimately show False using lt by simp
    qed
    moreover have "unat (0x80 XOR ucast val :: byte) = 128 + ?n"
    proof -
      have "unat (ucast val :: byte) = ?n" using lt by (simp add: unsigned_ucast_eq take_bit_nat_eq_self_iff)
      then show ?thesis using xor_push_bit [of "ucast val :: byte" 7 1] lt
        by (simp add: xor.commute)
    qed
    ultimately show ?thesis using True by (simp add: WriteSigned_unfold abs sval_def)
  next
    case False
    then have ge: "64 \<le> ?n" by (simp add: word_less_nat_alt)
    have "slen ?n \<noteq> 1" using b(3) ge by auto
    then have L: "2 \<le> slen ?n" using b(1) by linarith
    have buf: "length (sign_buf val) = 10" "be_val (sign_buf val) = ?n"
      using assms by (simp_all add: sign_buf_def Let_def be_val_StoreBigEndian64)
    show ?thesis
      using put_header_val [OF L b(2) buf(1)] b(3) buf(2) False
      by (simp add: WriteSigned_unfold abs SignedEncodingLength_eq [OF nb] sval_def)
  qed
qed

section \<open>Signed numbers keep their order\<close>

lemma be_val_take: "k \<le> length bs \<Longrightarrow> be_val (take k bs) = be_val bs div 256 ^ (length bs - k)"
proof -
  assume "k \<le> length bs"
  have "be_val bs = be_val (take k bs) * 256 ^ (length bs - k) + be_val (drop k bs)"
    using be_val_append [of "take k bs" "drop k bs"] by simp
  moreover have "be_val (drop k bs) < 256 ^ (length bs - k)"
    using be_val_bound [of "drop k bs"] by simp
  ultimately show ?thesis by simp
qed

lemma sval_gap:
  assumes "n < 2 ^ 63" and "m < 2 ^ 63" and lt: "slen n < slen m"
  shows "(sval n + 1) * 256 ^ (slen m - slen n) \<le> sval m"
proof -
  let ?L = "slen n" and ?M = "slen m"
  define d where "d = ?M - ?L"
  have M: "?M = ?L + d" and d: "1 \<le> d" using lt by (simp_all add: d_def)
  have L: "1 \<le> ?L" by (rule slen_bounds [OF assms(1)])
  have p8: "(2::nat) ^ (8 * k) = 2 ^ k * 2 ^ (7 * k)" for k
    by (simp add: power_add [symmetric])
  have n: "sval n + 1 + 2 ^ (7 * ?L - 1) \<le> 2 ^ (8 * ?L)"
  proof -
    have "n + 1 + 2 ^ (7 * ?L - 1) \<le> 2 * 2 ^ (7 * ?L - 1)" using slen_bounds(3) [OF assms(1)] by simp
    also have "\<dots> = 2 ^ (7 * ?L)" using L by (simp add: power_Suc [symmetric])
    moreover have "(2::nat) ^ (7 * ?L) \<le> 2 ^ ?L * 2 ^ (7 * ?L)" by simp
    ultimately show ?thesis unfolding sval_def p8 diff_mult_distrib by linarith
  qed
  have "(sval n + 1) * 256 ^ d + 2 ^ (7 * ?M) \<le> (sval n + 1) * 256 ^ d + 2 ^ (7 * ?L - 1) * 256 ^ d"
  proof -
    have "(2::nat) ^ (7 * ?M) \<le> 2 ^ (7 * ?L - 1 + 8 * d)" using M d L by (intro power_increasing) auto
    then show ?thesis by (simp add: power_add power_mult)
  qed
  also have "\<dots> = (sval n + 1 + 2 ^ (7 * ?L - 1)) * 256 ^ d" by (simp add: algebra_simps)
  also have "\<dots> \<le> 2 ^ (8 * ?L) * 256 ^ d" using n by (intro mult_right_mono) auto
  also have "\<dots> = 2 ^ (8 * ?M)" proof -
    have "(256::nat) ^ d = 2 ^ (8 * d)" by (simp add: power_mult)
    then show ?thesis by (simp only: M power_add [symmetric] distrib_left)
  qed
  also have "\<dots> \<le> sval m + 2 ^ (7 * ?M)" unfolding sval_def p8 by (simp add: diff_mult_distrib)
  finally show ?thesis by (simp add: d_def)
qed

lemma WriteSigned_nonneg_mono:
  assumes "\<not> v <s 0" "\<not> w <s 0" and lt: "unat v < unat w"
  shows "first_diff_lt (WriteSignedNumIncreasing [] v) (WriteSignedNumIncreasing [] w)"
proof -
  let ?a = "WriteSignedNumIncreasing [] v" and ?b = "WriteSignedNumIncreasing [] w"
  have n: "unat v < 2 ^ 63" "unat w < 2 ^ 63"
    using assms(1,2) by (simp_all add: signed_neg_iff not_bit_63_iff)
  have a: "length ?a = slen (unat v)" "be_val ?a = sval (unat v)"
    and b: "length ?b = slen (unat w)" "be_val ?b = sval (unat w)"
    using WriteSigned_nonneg assms by simp_all
  show ?thesis
  proof (cases "slen (unat v) = slen (unat w)")
    case True
    then show ?thesis using lt a b by (subst first_diff_lt_be_val) (simp_all add: sval_def)
  next
    case False
    then have l: "slen (unat v) < slen (unat w)" using slen_mono [of "unat v" "unat w"] lt n by simp
    have "sval (unat v) < sval (unat w) div 256 ^ (slen (unat w) - slen (unat v))"
      using sval_gap [OF n l] by (simp add: less_eq_div_iff_mult_less_eq Suc_le_eq [symmetric])
    then have "first_diff_lt ?a (take (length ?a) ?b)"
      using a b l by (subst first_diff_lt_be_val) (simp_all add: be_val_take)
    from first_diff_lt_append [OF this, of "[]" "drop (length ?a) ?b"] show ?thesis by simp
  qed
qed

lemma uint_not: "uint (NOT (a :: 'a::len word)) = 2 ^ LENGTH('a) - 1 - uint a"
  by (simp add: unsigned_not_eq take_bit_not_eq_mask_diff mask_eq_exp_minus_1
      take_bit_int_eq_self_iff)

lemma not_word_less_iff: "NOT (a :: 'a::len word) < NOT b \<longleftrightarrow> b < a"
  by (simp add: word_less_def uint_not)

lemma first_diff_lt_not: "first_diff_lt (map NOT a) (map NOT b) = first_diff_lt b a"
  by (induction a b rule: list_induct2') (auto simp: not_word_less_iff)

lemma WriteSigned_hd_nonneg:
  assumes "\<not> v <s 0"
  obtains x xs where "WriteSignedNumIncreasing [] v = x # xs" "128 \<le> unat x"
proof -
  let ?a = "WriteSignedNumIncreasing [] v" and ?L = "slen (unat v)"
  have n: "unat v < 2 ^ 63" using assms by (simp add: signed_neg_iff not_bit_63_iff)
  have a: "length ?a = ?L" "be_val ?a = sval (unat v)" using WriteSigned_nonneg assms by simp_all
  have L: "1 \<le> ?L" using slen_bounds [OF n] by simp
  then obtain x xs where x: "?a = x # xs" using a by (cases ?a) auto
  then have xs: "length xs = ?L - 1" using a by simp
  have "128 * 256 ^ (?L - 1) \<le> sval (unat v)"
  proof -
    have "(2::nat) ^ (?L - 1) \<le> 2 ^ ?L - 1" using L by (cases ?L) auto
    then have "(2::nat) ^ (?L - 1) * 2 ^ (7 * ?L) \<le> (2 ^ ?L - 1) * 2 ^ (7 * ?L)" by (intro mult_right_mono) auto
    moreover have "(128::nat) * 256 ^ (?L - 1) = 2 ^ (?L - 1) * 2 ^ (7 * ?L)"
    proof -
      have "(128::nat) * 256 ^ (?L - 1) = 2 ^ 7 * 2 ^ (8 * (?L - 1))" by (simp add: power_mult)
      also have "\<dots> = 2 ^ (7 + 8 * (?L - 1))" by (simp only: power_add)
      also have "7 + 8 * (?L - 1) = (?L - 1) + 7 * ?L" using L by simp
      finally show ?thesis by (simp only: power_add)
    qed
    ultimately show ?thesis unfolding sval_def by linarith
  qed
  moreover have "sval (unat v) < (unat x + 1) * 256 ^ (?L - 1)"
    using a(2) be_val_bound [of xs] by (simp add: x xs)
  ultimately have "128 * 256 ^ (?L - 1) < (unat x + 1) * 256 ^ (?L - 1)" by (rule le_less_trans)
  then have "128 < unat x + 1" by simp
  then show ?thesis using that x by simp
qed

lemma sint_not: "sint (NOT (w :: 'a::len word)) = - sint w - 1"
proof -
  have "- (2 ^ LENGTH('a)) \<le> NOT (sint w) \<and> NOT (sint w) < 2 ^ LENGTH('a)"
    unfolding not_int_def
    using sint_ge [of w] sint_lt [of w] power_increasing [of "LENGTH('a) - 1" "LENGTH('a)" "2 :: int"]
    by (intro conjI; linarith)
  then have "signed_take_bit LENGTH('a) (NOT (sint w)) = NOT (sint w)"
    by (simp add: signed_take_bit_int_eq_self_iff)
  then show ?thesis by (simp add: signed_not_eq not_int_def)
qed

lemma sless_not_not: "NOT (v :: 'a::len word) <s NOT w \<longleftrightarrow> w <s v"
  by (simp add: word_sless_alt sint_not)

lemma sint_nonneg:
  assumes "\<not> (v :: uint64) <s 0"
  shows "sint v = int (unat v)"
proof -
  have b: "\<not> bit v 63" using assms by (simp add: signed_neg_iff)
  have "sint v = signed_take_bit 63 (uint v)" by (simp add: sint_uint)
  also have "\<dots> = take_bit 63 (uint v)"
    using b by (intro signed_take_bit_eq_if_positive) (simp add: bit_uint_iff)
  also have "\<dots> = int (take_bit 63 (unat v))" by (simp only: uint_nat take_bit_of_nat)
  also have "take_bit 63 (unat v) = unat v"
    using b by (simp only: not_bit_63_iff take_bit_nat_eq_self_iff)
  finally show ?thesis .
qed

lemma WriteSigned_mono:
  assumes lt: "v <s w"
  shows "first_diff_lt (WriteSignedNumIncreasing [] v) (WriteSignedNumIncreasing [] w)"
proof -
  have pos: "first_diff_lt (WriteSignedNumIncreasing [] v) (WriteSignedNumIncreasing [] w)"
    if "\<not> v <s 0" "\<not> w <s 0" "v <s w" for v w
    proof (rule WriteSigned_nonneg_mono)
    show "unat v < unat w"
      using that(3) unfolding word_sless_alt sint_nonneg [OF that(1)] sint_nonneg [OF that(2)]
      by (simp only: of_nat_less_iff)
  qed (use that in auto)
  have nn: "\<not> NOT x <s 0" if "x <s 0" for x :: uint64
    using that by (simp add: signed_neg_iff bit_not_iff)
  consider "v <s 0" "w <s 0" | "v <s 0" "\<not> w <s 0" | "\<not> v <s 0" "\<not> w <s 0"
    using lt by (auto simp: word_sless_alt)
  then show ?thesis
  proof cases
    case 1
    have "first_diff_lt (WriteSignedNumIncreasing [] (NOT w)) (WriteSignedNumIncreasing [] (NOT v))"
      using 1 lt by (intro pos nn) (simp_all add: sless_not_not)
    then show ?thesis by (simp only: WriteSigned_not first_diff_lt_not)
  next
    case 2
    obtain x xs where x: "WriteSignedNumIncreasing [] (NOT v) = x # xs" "128 \<le> unat x"
      using WriteSigned_hd_nonneg [OF nn] 2 by blast
    have "map NOT (map NOT (WriteSignedNumIncreasing [] v)) = map NOT (x # xs)"
      using x by (simp add: WriteSigned_not)
    then have v: "WriteSignedNumIncreasing [] v = NOT x # map NOT xs"
      by (simp add: comp_def)
    obtain y ys where y: "WriteSignedNumIncreasing [] w = y # ys" "128 \<le> unat y"
      using WriteSigned_hd_nonneg 2 by blast
    have "128 \<le> uint x" "128 \<le> uint y" using x(2) y(2) unfolding uint_nat by linarith+
    then have "NOT x < y" using uint_not [of x] by (simp add: word_less_def)
    then show ?thesis by (simp add: v y)
  next
    case 3
    then show ?thesis using pos lt by simp
  qed
qed

section \<open>Signed numbers round-trip\<close>

lemma ucast_not_bytes: "(ucast (NOT b :: byte) :: uint64) AND 0xff = NOT (ucast b) AND 0xff"
  by (rule bit_word_eqI) (auto simp: mask_simps bit_simps)

lemma foldl_push_not:
  "foldl (\<lambda>x b. push_bit 8 x OR ucast (NOT b :: byte)) (NOT r) bs
     = (NOT (foldl (\<lambda>x b. push_bit 8 x OR ucast b) r bs) :: uint64)"
proof (induction bs arbitrary: r)
  case (Cons b bs)
  have "push_bit 8 (NOT r) OR ucast (NOT b) = NOT (push_bit 8 r OR ucast b :: uint64)"
    by (rule bit_word_eqI) (auto simp: bit_simps dest: bit_imp_le_length)
  then show ?case by (simp only: foldl_Cons Cons.IH)
qed simp

lemma LoadBigEndian64_foldl:
  assumes "8 \<le> length src"
  shows "LoadBigEndian64 src = foldl (\<lambda>x b. push_bit 8 x OR ucast b) 0 (take 8 src)"
proof -
  obtain a b c d e f g h r where "src = [a,b,c,d,e,f,g,h] @ r"
    using assms by (auto simp: Suc_le_length_iff numeral_eq_Suc)
  moreover have "[0..<8] = [0,1,2,3,4,5,6,7]" by (simp add: upt_rec)
  moreover have "ucast a = (push_bit 8 0 OR ucast a :: uint64)" by simp
  ultimately show ?thesis
    by (simp add: LoadBigEndian64_def push_bit_or or.assoc del: push_bit_of_0)
qed

lemma LoadBigEndian64_val:
  assumes "8 \<le> length src"
  shows "unat (LoadBigEndian64 src) = be_val (take 8 src)"
  using assms by (simp add: LoadBigEndian64_foldl foldl_be_word)

lemma LoadBigEndian64_not:
  assumes "8 \<le> length src"
  shows "LoadBigEndian64 (map NOT src) = NOT (LoadBigEndian64 src)"
proof -
  obtain a b c d e f g h r where s: "src = [a,b,c,d,e,f,g,h] @ r"
    using assms by (auto simp: Suc_le_length_iff numeral_eq_Suc)
  have "StoreBigEndian64 (LoadBigEndian64 src) = take 8 src"
    using assms by (intro be_val_inj) (simp_all add: be_val_StoreBigEndian64 LoadBigEndian64_val)
  then have "be_val (StoreBigEndian64 (LoadBigEndian64 (map NOT src))) = be_val (StoreBigEndian64 (NOT (LoadBigEndian64 src)))"
    unfolding StoreBigEndian64_not using assms by (simp add: be_val_StoreBigEndian64 LoadBigEndian64_val take_map)
  then show ?thesis by (simp add: be_val_StoreBigEndian64 word_unat_eq_iff)
qed

lemma header_byte_not: "(NOT b :: byte) XOR ucast ((NOT 0 :: uint64) AND 0xff) = b"
  by (rule bit_word_eqI) (auto simp: bit_simps mask_simps)

lemma signed_header_not:
  assumes "src \<noteq> []"
  shows "signed_header (NOT 0) (map NOT src) = map_option (\<lambda>(l, x). (l, NOT x)) (signed_header 0 src)"
proof -
  have n: "(map NOT src ! i) XOR ucast ((NOT 0 :: uint64) AND 0xff) = src ! i" if "i < length src" for i
    using that by (simp only: nth_map header_byte_not)
  have fold: "foldl (\<lambda>x i. push_bit 8 x OR ucast (map NOT src ! i)) (NOT 0 :: uint64) [0..<len]
      = NOT (foldl (\<lambda>x i. push_bit 8 x OR ucast (src ! i)) 0 [0..<len])" if "len \<le> length src" for len
  proof -
    have h: "foldl (\<lambda>x i. push_bit 8 x OR ucast (s ! i)) r [0..<len] =
        foldl (\<lambda>x b. push_bit 8 x OR ucast (b :: byte)) (r :: uint64) (take len s)"
      if "len \<le> length s" for s r
      using foldl_nth_upt [of len 0 s "\<lambda>x b. push_bit 8 x OR ucast b" r] that by simp
    show ?thesis using that foldl_push_not [of 0 "take len src"]
      by (simp only: h length_map take_map foldl_map)
  qed
  have load: "LoadBigEndian64 (drop k (map NOT src)) = NOT (LoadBigEndian64 (drop k src))"
    if "k + 8 \<le> length src" for k
    using LoadBigEndian64_not [of "drop k src"] that by (simp add: drop_map)
  have z: "b XOR ucast ((0 :: uint64) AND 0xff) = (b :: byte)" for b by simp
  define X where "X = (NOT 0 :: uint64)"
  note n' = n [folded X_def] and fold' = fold [folded X_def]
  have n0: "(map NOT src ! 0) XOR ucast (X AND 0xff) = src ! 0"
    using assms by (intro n') simp
  show ?thesis unfolding X_def [symmetric]
  proof (cases "8 \<le> length src")
    case False
    then show "signed_header X (map NOT src) = map_option (\<lambda>(l, x). (l, NOT x)) (signed_header 0 src)"
      by (simp add: signed_header_def Let_def n0 fold' not_less del: nth_map)
  next
    case True
    then have n1: "(map NOT src ! 1) XOR ucast (X AND 0xff) = src ! 1"
      and n2: "(map NOT src ! 2) XOR ucast (X AND 0xff) = src ! 2"
      by (intro n'; simp)+
    consider "src ! 0 \<noteq> 0xff" | "src ! 0 = 0xff" "src ! 1 < 0x80"
      | "src ! 0 = 0xff" "\<not> src ! 1 < 0x80" "src ! 1 < 0xc0"
      | "src ! 0 = 0xff" "\<not> src ! 1 < 0x80" "\<not> src ! 1 < 0xc0" by blast
    then show "signed_header X (map NOT src) = map_option (\<lambda>(l, x). (l, NOT x)) (signed_header 0 src)"
    proof cases
      case 1
      then show ?thesis by (simp add: signed_header_def Let_def n0 fold' not_less del: nth_map)
    next
      case 2
      then show ?thesis using load [of 0] True
        by (simp only: signed_header_def Let_def n0 n1 z length_map if_True if_False simp_thms option.map) simp
    next
      case 3
      then show ?thesis using load [of 1] True
        by (simp only: signed_header_def Let_def n0 n1 z length_map if_True if_False simp_thms option.map) simp
    next
      case 4
      then show ?thesis using load [of 2] True
        by (simp only: signed_header_def Let_def n0 n1 n2 z length_map if_True if_False simp_thms option.map) simp
    qed
  qed
qed

lemma power_256: "(256::nat) ^ k = 2 ^ (8 * k)"
  by (simp add: power_mult)

lemma xor_xor_cancel: "(v XOR m) XOR m = (v :: 'a::len word)"
  by (rule bit_word_eqI) (auto simp: bit_simps)

lemma mask_cancel:
  assumes "unat v < 2 ^ k" and "unat x = unat v + unat h * 2 ^ k" and "m = push_bit k (h :: uint64)"
  shows "x XOR m = v"
proof -
  have "unat x < 2 ^ LENGTH(64)" by (rule unsigned_less)
  then have "unat (v XOR push_bit k h) = unat x"
    using assms(2) by (subst xor_push_bit [OF assms(1)]) simp_all
  then have "x = v XOR m" unfolding assms(3) by (intro word_unat_eq_iff [THEN iffD2]) simp
  then show ?thesis by (simp add: xor_xor_cancel)
qed

lemma kLengthToMask_nth:
  assumes "1 \<le> L" "L \<le> 8"
  shows "kLengthToMask ! L = push_bit (7 * L) (word_of_nat (2 ^ L - 1))"
proof -
  consider "L = 1" | "L = 2" | "L = 3" | "L = 4" | "L = 5" | "L = 6" | "L = 7" | "L = 8"
    using assms by linarith
  then show ?thesis by cases (simp_all add: kLengthToMask_def)
qed

lemma first_byte_bounds:
  assumes "n < 2 ^ 63" and L: "slen n = L" "L \<le> 7" and bs: "length bs = L" "be_val bs = sval n"
  shows "2 ^ (7 - L) \<le> 255 - unat (bs ! 0)" "255 - unat (bs ! 0) < 2 ^ (8 - L)"
proof -
  note b = slen_bounds [OF assms(1), unfolded L(1)]
  obtain x xs where x: "bs = x # xs" using bs(1) b(1) by (cases bs) auto
  let ?p = "256 ^ (L - 1) :: nat"
  have xs: "length xs = L - 1" using bs(1) x by simp
  have val: "unat x * ?p + be_val xs = n + (2 ^ L - 1) * 2 ^ (7 * L)"
    using bs(2) by (simp add: x xs sval_def L(1))
  have r: "be_val xs < ?p" using be_val_bound [of xs] by (simp add: xs)
  have p: "?p = 2 ^ (8 * (L - 1))" by (rule power_256)
  have e: "2 ^ (8 - L) * ?p = 2 ^ (7 * L)" "2 ^ (7 - L) * ?p = 2 ^ (7 * L - 1)" "256 * ?p = 2 ^ L * 2 ^ (7 * L)"
  proof -
    have "8 - L + 8 * (L - 1) = 7 * L" "7 - L + 8 * (L - 1) = 7 * L - 1" "8 + 8 * (L - 1) = L + 7 * L"
      using L b(1) by simp_all
    then show "2 ^ (8 - L) * ?p = 2 ^ (7 * L)" "2 ^ (7 - L) * ?p = 2 ^ (7 * L - 1)"
      by (simp_all only: p power_add [symmetric])
    have "256 * ?p = 2 ^ 8 * 2 ^ (8 * (L - 1))" by (simp only: p) simp
    then show "256 * ?p = 2 ^ L * 2 ^ (7 * L)"
      using \<open>8 + 8 * (L - 1) = L + 7 * L\<close> by (simp only: power_add [symmetric])
  qed
  have le: "(2::nat) ^ (7 * L) \<le> 2 ^ L * 2 ^ (7 * L)" by simp
  have "256 * ?p \<le> n + (2 ^ L - 1) * 2 ^ (7 * L) + 2 ^ (8 - L) * ?p"
    unfolding e diff_mult_distrib using le by linarith
  then have "256 * ?p < (unat x + 1 + 2 ^ (8 - L)) * ?p" using val r by (simp add: algebra_simps)
  then have lo: "256 < unat x + 1 + 2 ^ (8 - L)" by (simp only: mult_less_cancel2)
  have "n + (2 ^ L - 1) * 2 ^ (7 * L) + 2 ^ (7 - L) * ?p < 256 * ?p"
  proof -
    have "(2::nat) ^ (7 * L) = 2 * 2 ^ (7 * L - 1)" using b(1) by (simp add: power_Suc [symmetric])
    then show ?thesis unfolding e diff_mult_distrib using le b(3) by linarith
  qed
  then have "(unat x + 2 ^ (7 - L)) * ?p < 256 * ?p" using val by (simp add: algebra_simps)
  then have hi: "unat x + 2 ^ (7 - L) < 256" by (simp only: mult_less_cancel2)
  show "2 ^ (7 - L) \<le> 255 - unat (bs ! 0)" "255 - unat (bs ! 0) < 2 ^ (8 - L)"
    using lo hi by (simp_all add: x)
qed

lemma first_byte_len:
  fixes f :: byte
  assumes "2 ^ (7 - L) \<le> 255 - unat f" "255 - unat f < 2 ^ (8 - L)" "L \<le> 7"
  shows "f \<noteq> 0xff \<and> nat (7 - oc_Log2Floor64 (ucast (f XOR 0xff))) = L"
proof -
  have f: "unat f < 256" using unsigned_less [of f] by simp
  have "unat (f XOR 0xff) = 255 - unat f"
  proof -
    have "unat (f XOR 0xff) = unat f XOR 255" by (simp add: unsigned_xor_eq)
    also have "\<dots> = 255 XOR unat f" by (rule xor.commute)
    also have "\<dots> = 255 - unat f" using mask_xor_eq_minus [of "unat f" 8] f by (simp add: mask_eq_exp_minus_1)
    finally show ?thesis .
  qed
  then have u: "unat (ucast (f XOR 0xff) :: uint64) = 255 - unat f"
    by (simp add: unsigned_ucast_eq take_bit_nat_eq_self_iff)
  have pos: "0 < 255 - unat f"
    using assms(1) by (metis gr0I le_zero_eq power_not_zero zero_neq_numeral)
  have "7 - L = bit_length (255 - unat f) - 1"
  proof (rule log2_unique)
    show "2 ^ (bit_length (255 - unat f) - 1) \<le> 255 - unat f"
      "255 - unat f < 2 ^ Suc (bit_length (255 - unat f) - 1)"
      using bit_length_bounds [OF pos] by simp_all
    show "255 - unat f < 2 ^ Suc (7 - L)" proof -
      have "Suc (7 - L) = 8 - L" using assms(3) by simp
      then show ?thesis using assms(2) by (simp only:)
    qed
  qed (fact assms(1))
  moreover have "0 < bit_length (255 - unat f)" using bit_length_bounds [OF pos] by simp
  moreover have "f \<noteq> 0xff" using pos by auto
  ultimately show ?thesis using assms(3) by (simp add: oc_Log2Floor64_bit_length u)
qed

text \<open>The header and the payload of the encoding of a non-negative number.\<close>

lemma signed_header_nonneg:
  assumes nn: "\<not> val <s 0"
  defines "bs \<equiv> WriteSignedNumIncreasing [] val"
  shows "\<exists>x. signed_header 0 (bs @ rest) = Some (length bs, x) \<and> x XOR kLengthToMask ! length bs = val"
proof -
  define n where "n = unat val"
  define L where "L = slen n"
  have n63: "n < 2 ^ 63" using nn by (simp add: n_def signed_neg_iff not_bit_63_iff)
  note b = slen_bounds [OF n63, folded L_def]
  have len: "length bs = L" and val: "be_val bs = sval n"
    using WriteSigned_nonneg [OF nn] by (simp_all add: bs_def n_def L_def)
  have load: "unat (LoadBigEndian64 (drop k (bs @ rest))) = be_val (drop k bs)" if "k + 8 = L" for k
    using that len by (subst LoadBigEndian64_val) simp_all
  have mask: "x XOR kLengthToMask ! L = val" if "L \<le> 8" "unat x = sval n" for x
  proof (rule mask_cancel)
    have "(2::nat) ^ (7 * L - 1) \<le> 2 ^ (7 * L)" by (intro power_increasing) auto
    then show "unat val < 2 ^ (7 * L)" using b(3) unfolding n_def by linarith
    have "(2::nat) ^ L \<le> 2 ^ 8" using that by (intro power_increasing) auto
    then have "unat (word_of_nat (2 ^ L - 1) :: uint64) = 2 ^ L - 1"
      by (subst unat_of_nat) (simp add: take_bit_nat_eq_self_iff)
    then show "unat x = unat val + unat (word_of_nat (2 ^ L - 1) :: uint64) * 2 ^ (7 * L)"
      using that(2) by (simp add: sval_def n_def L_def)
    show "kLengthToMask ! L = push_bit (7 * L) (word_of_nat (2 ^ L - 1))"
      using that b(1) by (intro kLengthToMask_nth)
  qed
  consider "L \<le> 7" | "L = 8" | "L = 9" | "L = 10" using b(2) by linarith
  then show ?thesis
  proof cases
    case 1
    have hd: "(bs @ rest) ! 0 = bs ! 0" using len b(1) by (cases bs) auto
    have f: "bs ! 0 \<noteq> 0xff \<and> nat (7 - oc_Log2Floor64 (ucast ((bs ! 0) XOR 0xff))) = L"
      using first_byte_bounds [OF n63 L_def [symmetric] 1 len val] 1 by (intro first_byte_len)
    define x where "x = foldl (\<lambda>x i. push_bit 8 x OR ucast ((bs @ rest) ! i)) (0 :: uint64) [0..<L]"
    have "x = foldl (\<lambda>x b. push_bit 8 x OR ucast b) 0 bs"
      using foldl_nth_upt [of L 0 "bs @ rest" "\<lambda>x b. push_bit 8 x OR ucast b" "0 :: uint64"] len
      by (simp add: x_def)
    moreover have "(256::nat) ^ L \<le> 256 ^ 8" using 1 by (intro power_increasing) auto
    ultimately have "unat x = sval n" using len val by (simp add: foldl_be_word)
    then have "x XOR kLengthToMask ! L = val" using mask 1 by simp
    moreover have "signed_header 0 (bs @ rest) = Some (L, x)"
      using f 1 len unfolding signed_header_def Let_def hd x_def by simp
    ultimately show ?thesis using len by simp
  next
    case 2
    then obtain c d cs where bs: "bs = c # d # cs" and cs: "length cs = 6"
      using len by (cases bs; cases "tl bs") auto
    have v: "unat c * 256 ^ 7 + unat d * 256 ^ 6 + be_val cs = n + 255 * 256 ^ 7"
      using val 2 by (simp add: bs cs sval_def L_def)
    have "be_val cs < 256 ^ 6" "n < 2 ^ 55" using be_val_bound [of cs] b(3) 2 cs by simp_all
    moreover have "unat c < 256" "unat d < 256" using unsigned_less [of c] unsigned_less [of d] by simp_all
    ultimately have cd: "unat c = 255" and "unat c = 255 \<Longrightarrow> unat d < 128" using v by simp_all
    then have "c = 0xff" "d < 0x80" by (simp_all add: word_unat_eq_iff word_less_nat_alt)
    then have "signed_header 0 (bs @ rest) = Some (8, LoadBigEndian64 (bs @ rest))"
      by (simp add: signed_header_def Let_def bs cs)
    moreover have "LoadBigEndian64 (bs @ rest) XOR kLengthToMask ! L = val"
      using mask load [of 0] 2 val by simp
    ultimately show ?thesis using len 2 by simp
  next
    case 3
    then obtain c d cs where bs: "bs = c # d # cs" and cs: "length cs = 7"
      using len by (cases bs; cases "tl bs") auto
    have v: "unat c * 256 ^ 8 + unat d * 256 ^ 7 + be_val cs = n + 511 * 2 ^ 63"
      using val 3 by (simp add: bs cs sval_def L_def)
    have "be_val cs < 256 ^ 7" "n < 2 ^ 62" using be_val_bound [of cs] b(3) 3 cs by simp_all
    moreover have "unat c < 256" "unat d < 256" using unsigned_less [of c] unsigned_less [of d] by simp_all
    ultimately have cd: "unat c = 255" and "unat c = 255 \<Longrightarrow> 128 \<le> unat d"
      and "unat c = 255 \<Longrightarrow> unat d < 192" using v by simp_all
    then have "c = 0xff" "\<not> d < 0x80" "d < 0xc0" by (simp_all add: word_unat_eq_iff word_less_nat_alt)
    then have "signed_header 0 (bs @ rest) = Some (9, LoadBigEndian64 (drop 1 (bs @ rest)))"
      by (simp add: signed_header_def Let_def bs cs)
    moreover have "LoadBigEndian64 (drop 1 (bs @ rest)) XOR kLengthToMask ! 9 = val"
    proof (rule mask_cancel)
      show "unat val < 2 ^ 63" using n63 by (simp add: n_def)
      show "unat (LoadBigEndian64 (drop 1 (bs @ rest))) = unat val + unat (1 :: uint64) * 2 ^ 63"
        using load [of 1] 3 v cd(1) by (simp add: bs cs n_def)
    qed (simp add: kLengthToMask_def)
    ultimately show ?thesis using len 3 by simp
  next
    case 4
    then obtain c d e cs where bs: "bs = c # d # e # cs" and cs: "length cs = 7"
      using len by (cases bs; cases "tl bs"; cases "tl (tl bs)") auto
    have v: "unat c * 256 ^ 9 + unat d * 256 ^ 8 + unat e * 256 ^ 7 + be_val cs = n + 1023 * 2 ^ 70"
      using val 4 by (simp add: bs cs sval_def L_def)
    have "be_val cs < 256 ^ 7" using be_val_bound [of cs] cs by simp
    moreover have "unat c < 256" "unat d < 256" "unat e < 256"
      using unsigned_less [of c] unsigned_less [of d] unsigned_less [of e] by simp_all
    ultimately have cd: "unat c = 255" "unat c = 255 \<Longrightarrow> unat d = 192"
      "unat c = 255 \<Longrightarrow> unat d = 192 \<Longrightarrow> unat e < 128" using v n63 by simp_all
    then have "c = 0xff" "d = 0xc0" "e < 0x80" by (simp_all add: word_unat_eq_iff word_less_nat_alt)
    then have "signed_header 0 (bs @ rest) = Some (10, LoadBigEndian64 (drop 2 (bs @ rest)))"
      by (simp add: signed_header_def Let_def bs cs)
    moreover have "LoadBigEndian64 (drop 2 (bs @ rest)) = val"
    proof -
      have "unat (LoadBigEndian64 (drop 2 (bs @ rest))) = unat val"
        using load [of 2] 4 v cd by (simp add: bs cs n_def)
      then show ?thesis by (simp add: word_unat_eq_iff)
    qed
    ultimately show ?thesis using len 4 by (simp add: kLengthToMask_def)
  qed
qed

lemma ReadSigned_roundtrip:
  "ReadSignedNumIncreasing (WriteSignedNumIncreasing [] val @ rest) (Some r) = Some (rest, Some val)"
proof -
  have bit7: "x AND 0x80 = 0 \<longleftrightarrow> unat x < 128" for x :: byte
    by (simp add: and_128_eq_0_iff not_bit_7_iff)
  show ?thesis
  proof (cases "val <s 0")
    case False
    then obtain x xs where x: "WriteSignedNumIncreasing [] val = x # xs" "128 \<le> unat x"
      using WriteSigned_hd_nonneg by blast
    then show ?thesis using signed_header_nonneg [OF False, of rest]
      by (auto simp: ReadSignedNumIncreasing_def bit7)
  next
    case True
    then have nn: "\<not> NOT val <s 0" by (simp add: signed_neg_iff bit_not_iff)
    then obtain x xs where x: "WriteSignedNumIncreasing [] (NOT val) = x # xs" "128 \<le> unat x"
      using WriteSigned_hd_nonneg by blast
    define bs where "bs = WriteSignedNumIncreasing [] (NOT val)"
    have w: "WriteSignedNumIncreasing [] val = map NOT bs"
      using WriteSigned_not [of "NOT val"] by (simp add: bs_def)
    obtain y where y: "signed_header 0 (bs @ map NOT rest) = Some (length bs, y)"
      "y XOR kLengthToMask ! length bs = NOT val"
      using signed_header_nonneg [OF nn, of "map NOT rest"] by (auto simp: bs_def)
    have "bs @ map NOT rest \<noteq> []" using x by (simp add: bs_def)
    from signed_header_not [OF this] have h: "signed_header (NOT 0) (map NOT bs @ rest) = Some (length bs, NOT y)"
      using y(1) by (simp add: comp_def)
    have "unat (NOT x) < 128"
    proof -
      have "128 \<le> uint x" using x(2) unfolding uint_nat by linarith
      then have "uint (NOT x) < 128" by (simp add: uint_not)
      then show ?thesis unfolding uint_nat by linarith
    qed
    then have hd: "(map NOT bs @ rest) ! 0 AND 0x80 = 0" using x(1) by (simp add: bs_def bit7)
    have "NOT y XOR kLengthToMask ! length bs = val" using y(2) by (simp add: xor_not_left)
    then show ?thesis
      unfolding w ReadSignedNumIncreasing_def Let_def hd if_True using h x(1)
      by (simp add: bs_def)
  qed
qed

definition enc_signed :: "uint64 \<Rightarrow> bytes" where
  "enc_signed v = WriteSignedNumIncreasing [] v"

definition dec_signed :: "bytes \<Rightarrow> (uint64 \<times> bytes) option" where
  "dec_signed src = (case ReadSignedNumIncreasing src (Some 0) of
     Some (src', Some r) \<Rightarrow> Some (r, src') | _ \<Rightarrow> None)"

interpretation signed_code: ordered_codec enc_signed dec_signed "\<lambda>_. True" "(<s)"
proof unfold_locales
  show "dec_signed (enc_signed x @ rest) = Some (x, rest)" for x rest
    by (simp add: dec_signed_def enc_signed_def ReadSigned_roundtrip)
  show "first_diff_lt (enc_signed x) (enc_signed y)" if "x <s y" for x y
    using WriteSigned_mono [OF that] by (simp add: enc_signed_def)
qed auto

lemma length_WriteSigned: "length (WriteSignedNumIncreasing [] a) = SignedEncodingLength a"
proof -
  have l: "SignedEncodingLength (NOT x) = SignedEncodingLength x" for x
    by (auto simp: SignedEncodingLength_def signed_neg_iff bit_not_iff)
  have n: "length (WriteSignedNumIncreasing [] x) = SignedEncodingLength x" if "\<not> x <s 0" for x
    using WriteSigned_nonneg [OF that] that by (simp add: SignedEncodingLength_eq signed_neg_iff)
  show ?thesis
  proof (cases "a <s 0")
    case True
    then have "\<not> NOT a <s 0" by (simp add: signed_neg_iff bit_not_iff)
    from n [OF this] show ?thesis by (simp add: WriteSigned_not l)
  qed (rule n)
qed

section \<open>Key properties\<close>

text \<open>
  C27. String keys: comparing two encoded strings, each followed by further key bytes, gives
  the comparison of the strings, and of the following bytes when the strings are equal; and
  ReadString returns the string appended to its target and exactly the following bytes.
\<close>

theorem ordered_string_key:
  "compare (WriteString [] a @ r) (WriteString [] b @ s) = (if a = b then compare r s else compare a b) \<and>
   ReadString (WriteString [] a @ r) (Some res) = Some (r, Some (res @ a))"
proof -
  have "compare a b = (if a = b then 0 else if compare a b < 0 then -1 else 1)"
    using compare_range [of a b] by auto
  moreover have "ReadString (WriteString [] a @ r) (Some res) = Some (r, Some (res @ a))"
    using ReadString_roundtrip [of a r res] by (simp add: ReadString_def WriteString_eq)
  ultimately show ?thesis
    using string_code.compare_append [of a r b s] by (auto simp: enc_string_def)
qed

text \<open>
  Unsigned keys: comparing two encoded 64-bit numbers, each followed by further key
  bytes, gives the order of the numbers, and of the following bytes when they are equal;
  and ReadNumIncreasing inverts WriteNumIncreasing.
\<close>

theorem ordered_num_key:
  "compare (WriteNumIncreasing [] a @ r) (WriteNumIncreasing [] b @ s) =
     (if a = b then compare r s else if a < b then -1 else 1) \<and>
   ReadNumIncreasing (WriteNumIncreasing [] a @ r) (Some x) = Some (r, Some a)"
  using num_code.compare_append [of a r b s] ReadNumIncreasing_roundtrip [of a r x]
  by (simp add: enc_num_def)

text \<open>
  Signed keys: comparing two encoded signed numbers, each followed by further key
  bytes, gives their signed order, and that of the following bytes when they are equal;
  ReadSignedNumIncreasing inverts WriteSignedNumIncreasing; and the encoding is as long as
  SignedEncodingLength says.
\<close>

theorem ordered_signed_key:
  "compare (WriteSignedNumIncreasing [] a @ r) (WriteSignedNumIncreasing [] b @ s) =
     (if a = b then compare r s else if a <s b then -1 else 1) \<and>
   ReadSignedNumIncreasing (WriteSignedNumIncreasing [] a @ r) (Some x) = Some (r, Some a) \<and>
   length (WriteSignedNumIncreasing [] a) = SignedEncodingLength a"
  using signed_code.compare_append [of a r b s] ReadSigned_roundtrip [of a r x] length_WriteSigned [of a]
  by (simp add: enc_signed_def)

text \<open>
  The file's portable logarithms compute what its GCC ones do.
\<close>

theorem ordered_code_log2_portable:
  "oc_Log2Floor64_Portable n = oc_Log2Floor64 n"
proof -
  have p: "Log2Floor32_Portable m = Log2Floor m" for m
    by (simp add: Log2Floor32_Portable_def Log2Floor_def)
  have "oc_Log2Floor64_Portable n = Log2Floor64 n"
    by (simp add: oc_Log2Floor64_Portable_def Log2Floor64_def Let_def p)
  moreover have "oc_Log2Floor64 n = Log2Floor64_gnu n"
    by (simp add: oc_Log2Floor64_def Log2Floor64_gnu_def)
  ultimately show ?thesis by (simp add: Log2Floor64_gnu_eq)
qed

end
