(* ===== verification/TF_Shape.thy ===== *)
theory TF_Shape
  imports TF_Prelude
begin

text \<open>
  Tensor shapes: \<^verbatim>\<open>framework/tensor_shape.{h,cc}\<close> with the overflow check of
  \<^verbatim>\<open>util/overflow.h\<close>. A shape keeps its dimensions in one of three
  representations inside 16 bytes; the theory models all three and shows that every operation
  acts on the represented list of dimensions as its interface promises. \<^verbatim>\<open>int64\<close> values are
  integers of the interval \<open>int64\<close>; the boolean argument \<open>p\<close> is the template
  constant \<^verbatim>\<open>kIsPartial\<close>; a failed \<^verbatim>\<open>CHECK\<close>, which aborts the process, is
  \<open>None\<close>.
\<close>

section \<open>Products without overflow\<close>

definition int64 :: "int \<Rightarrow> bool" where
  "int64 x \<longleftrightarrow> - (2 ^ 63) \<le> x \<and> x < 2 ^ 63"

definition MultiplyWithoutOverflow :: "int \<Rightarrow> int \<Rightarrow> int option" where
  "MultiplyWithoutOverflow x y =
     (let ux = word_of_int x :: uint64; uy = word_of_int y; uxy = ux * uy in
      if drop_bit 32 (ux OR uy) \<noteq> 0 then
        if x \<ge> 0 \<and> y \<ge> 0 then
          if ux \<noteq> 0 \<and> uxy div ux \<noteq> uy then Some (-1) else Some (sint uxy)
        else None
      else Some (sint uxy))"

section \<open>Representation\<close>

text \<open>
  The tag is the constructor; \<^verbatim>\<open>REP16\<close> and \<^verbatim>\<open>REP32\<close> hold the arrays of
  \<^verbatim>\<open>Rep16\<close> and \<^verbatim>\<open>Rep32\<close>, \<^verbatim>\<open>REP_OUT_OF_LINE\<close> the vector of
  \<^verbatim>\<open>Rep64\<close>. A buffer whose tag has just been set holds bytes nobody reads, here zeros.
\<close>

datatype rep_buf =
    REP16 "uint16 list"
  | REP32 "uint32 list"
  | REP_OUT_OF_LINE "int list"

record shape =
  buf :: rep_buf
  ndims_byte :: byte
  num_elements :: int
  data_type :: byte

definition MaxDimensions :: nat where "MaxDimensions = 254"
definition kMaxRep16 :: int where "kMaxRep16 = 65535 - 1"
definition kMaxRep32 :: int where "kMaxRep32 = 4294967295 - 1"
definition kUnknownRep16 :: uint16 where "kUnknownRep16 = 65535"
definition kUnknownRep32 :: uint32 where "kUnknownRep32 = 4294967295"
definition kUnknownRank :: byte where "kUnknownRank = 255"

lemmas rep_consts = kMaxRep16_def kMaxRep32_def kUnknownRep16_def kUnknownRep32_def
  kUnknownRank_def MaxDimensions_def

definition unknown_rank :: "bool \<Rightarrow> shape \<Rightarrow> bool" where
  "unknown_rank p s \<longleftrightarrow> p \<and> ndims_byte s = kUnknownRank"

definition dims :: "bool \<Rightarrow> shape \<Rightarrow> int" where
  "dims p s = (if p \<and> ndims_byte s = kUnknownRank then -1 else uint (ndims_byte s))"

fun rep_dim :: "bool \<Rightarrow> rep_buf \<Rightarrow> nat \<Rightarrow> int" where
  "rep_dim p (REP16 a) d = (if p \<and> a ! d = kUnknownRep16 then -1 else uint (a ! d))"
| "rep_dim p (REP32 a) d = (if p \<and> a ! d = kUnknownRep32 then -1 else uint (a ! d))"
| "rep_dim p (REP_OUT_OF_LINE v) d = v ! d"

definition dim_size :: "bool \<Rightarrow> shape \<Rightarrow> nat \<Rightarrow> int" where
  "dim_size p s d = (if unknown_rank p s then -1 else rep_dim p (buf s) d)"

text \<open>
  Iterating over \<^verbatim>\<open>begin()\<close> to \<^verbatim>\<open>end()\<close>, where \<^verbatim>\<open>end()\<close> checks that the rank is
  known; \<^verbatim>\<open>AppendTo\<close> and \<^verbatim>\<open>dim_sizes\<close> push these values.
\<close>

definition AppendTo :: "bool \<Rightarrow> shape \<Rightarrow> int list \<Rightarrow> int list option" where
  "AppendTo p s vals =
     (if unknown_rank p s then None
      else Some (vals @ map (dim_size p s) [0..<unat (ndims_byte s)]))"

definition dim_sizes :: "bool \<Rightarrow> shape \<Rightarrow> int list option" where
  "dim_sizes p s = AppendTo p s []"

definition IsFullyDefined :: "bool \<Rightarrow> shape \<Rightarrow> bool" where
  "IsFullyDefined p s \<longleftrightarrow> \<not> p \<or> num_elements s \<noteq> -1"

section \<open>Construction and update\<close>

definition ClearAllButDataType :: "shape \<Rightarrow> shape" where
  "ClearAllButDataType s = s\<lparr>buf := REP16 (replicate 6 0), ndims_byte := 0, num_elements := 1\<rparr>"

definition Clear :: "shape \<Rightarrow> shape" where
  "Clear s = (ClearAllButDataType s)\<lparr>data_type := 0\<rparr>"

definition TensorShapeBase :: "bool \<Rightarrow> shape" where
  "TensorShapeBase p =
     (if p then \<lparr>buf = REP16 (replicate 6 0), ndims_byte = kUnknownRank, num_elements = -1, data_type = 0\<rparr>
      else \<lparr>buf = REP16 (replicate 6 0), ndims_byte = 0, num_elements = 1, data_type = 0\<rparr>)"

fun RecomputeNumElements_loop :: "bool \<Rightarrow> int list \<Rightarrow> int \<Rightarrow> int option" where
  "RecomputeNumElements_loop p [] n = Some n"
| "RecomputeNumElements_loop p (dim # ds) n =
     (if p \<and> dim < 0 then Some (-1)
      else case MultiplyWithoutOverflow n dim of
        None \<Rightarrow> None
      | Some n \<Rightarrow> if 0 \<le> n then RecomputeNumElements_loop p ds n else None)"

definition RecomputeNumElements :: "bool \<Rightarrow> shape \<Rightarrow> shape option" where
  "RecomputeNumElements p s =
     (if unknown_rank p s then Some (s\<lparr>num_elements := -1\<rparr>)
      else case AppendTo p s [] of
        None \<Rightarrow> None
      | Some ds \<Rightarrow> map_option (\<lambda>n. s\<lparr>num_elements := n\<rparr>) (RecomputeNumElements_loop p ds 1))"

definition store16 :: "bool \<Rightarrow> int \<Rightarrow> uint16" where
  "store16 p sz = (if p \<and> sz < 0 then kUnknownRep16 else word_of_int sz)"

definition store32 :: "bool \<Rightarrow> int \<Rightarrow> uint32" where
  "store32 p sz = (if p \<and> sz < 0 then kUnknownRep32 else word_of_int sz)"

text \<open>The change of representation at the end of \<^verbatim>\<open>UnsafeAddDim\<close>.\<close>

definition regrow :: "bool \<Rightarrow> int list \<Rightarrow> rep_buf" where
  "regrow p vals =
     (if length vals \<le> 3 \<and> list_all (\<lambda>v. v < kMaxRep32) vals
      then REP32 (map (store32 p) vals @ replicate (3 - length vals) 0)
      else REP_OUT_OF_LINE vals)"

definition UnsafeAddDim :: "bool \<Rightarrow> shape \<Rightarrow> int \<Rightarrow> int \<Rightarrow> shape option" where
  "UnsafeAddDim p s sz new_num_elements =
     (let nd = unat (ndims_byte s);
          finish = (\<lambda>b. s\<lparr>buf := b, ndims_byte := word_of_nat (nd + 1), num_elements := new_num_elements\<rparr>);
          change = map_option (\<lambda>vals. finish (regrow p (vals @ [sz]))) (AppendTo p s [])
      in case buf s of
           REP16 a \<Rightarrow>
             if nd < 6 \<and> sz < kMaxRep16 then Some (finish (REP16 (a[nd := store16 p sz]))) else change
         | REP32 a \<Rightarrow>
             if nd < 3 \<and> sz < kMaxRep32 then Some (finish (REP32 (a[nd := store32 p sz]))) else change
         | REP_OUT_OF_LINE v \<Rightarrow> Some (finish (REP_OUT_OF_LINE (v @ [sz]))))"

definition AddDim :: "bool \<Rightarrow> shape \<Rightarrow> int \<Rightarrow> shape option" where
  "AddDim p s sz =
     (if \<not> p \<and> \<not> sz \<ge> 0 then None
      else if unknown_rank p s then Some s
      else if \<not> unat (ndims_byte s) < MaxDimensions then None
      else if p \<and> (num_elements s < 0 \<or> sz < 0) then UnsafeAddDim p s sz (-1)
      else case MultiplyWithoutOverflow (num_elements s) sz of
        None \<Rightarrow> None
      | Some n \<Rightarrow> if 0 \<le> n then UnsafeAddDim p s sz n else None)"

fun AddDims :: "bool \<Rightarrow> shape \<Rightarrow> int list \<Rightarrow> shape option" where
  "AddDims p s [] = Some s"
| "AddDims p s (d # ds) = (case AddDim p s d of None \<Rightarrow> None | Some s \<Rightarrow> AddDims p s ds)"

definition TensorShape_of_sizes :: "bool \<Rightarrow> int list \<Rightarrow> shape option" where
  "TensorShape_of_sizes p sizes =
     AddDims p \<lparr>buf = REP16 (replicate 6 0), ndims_byte = 0, num_elements = 1, data_type = 0\<rparr> sizes"

definition AppendShape :: "bool \<Rightarrow> shape \<Rightarrow> shape \<Rightarrow> shape option" where
  "AppendShape p s shape =
     (case AppendTo p shape [] of None \<Rightarrow> None | Some ds \<Rightarrow> AddDims p s ds)"

definition InsertDim :: "bool \<Rightarrow> shape \<Rightarrow> nat \<Rightarrow> int \<Rightarrow> shape option" where
  "InsertDim p s d sz =
     (if \<not> int d \<le> dims p s then None
      else if \<not> p \<and> \<not> sz \<ge> 0 then None
      else if \<not> dims p s < int MaxDimensions then None
      else case AppendTo p s [] of
        None \<Rightarrow> None
      | Some vals \<Rightarrow> AddDims p (ClearAllButDataType s) (take d vals @ sz # drop d vals))"

definition set_dim :: "bool \<Rightarrow> shape \<Rightarrow> nat \<Rightarrow> int \<Rightarrow> shape option" where
  "set_dim p s d sz =
     (if \<not> int d < dims p s \<or> \<not> sz \<ge> 0 then None
      else
        let upgrade = (case AppendTo p s [] of
              None \<Rightarrow> None
            | Some vals \<Rightarrow> AddDims p (ClearAllButDataType s) (vals[d := sz]));
            s' = (case buf s of
              REP16 a \<Rightarrow>
                if sz < kMaxRep16 then Some (s\<lparr>buf := REP16 (a[d := store16 p sz])\<rparr>) else upgrade
            | REP32 a \<Rightarrow>
                if sz < kMaxRep32 then Some (s\<lparr>buf := REP32 (a[d := store32 p sz])\<rparr>) else upgrade
            | REP_OUT_OF_LINE v \<Rightarrow> Some (s\<lparr>buf := REP_OUT_OF_LINE (v[d := sz])\<rparr>))
        in case s' of None \<Rightarrow> None | Some s' \<Rightarrow> RecomputeNumElements p s')"

definition RemoveDim :: "bool \<Rightarrow> shape \<Rightarrow> nat \<Rightarrow> shape option" where
  "RemoveDim p s d =
     (if unknown_rank p s then Some s
      else if \<not> int d < dims p s then None
      else case AppendTo p s [] of
        None \<Rightarrow> None
      | Some vals \<Rightarrow>
          (case AddDims p (ClearAllButDataType s) (take d vals @ drop (Suc d) vals) of
             None \<Rightarrow> None
           | Some s' \<Rightarrow> RecomputeNumElements p s'))"

section \<open>Protocol buffers\<close>

text \<open>\<^verbatim>\<open>TensorShapeProto\<close>: the two fields the code reads and writes.\<close>

record shape_proto =
  proto_unknown_rank :: bool
  proto_dim :: "int list"

fun IsValid_loop :: "bool \<Rightarrow> int list \<Rightarrow> int \<Rightarrow> bool option" where
  "IsValid_loop p [] n = Some True"
| "IsValid_loop p (d # ds) n =
     (if d < (if p then -1 else 0) then Some False
      else if d = -1 then IsValid_loop p ds (-1)
      else if \<not> p \<or> n \<ge> 0 then
        (case MultiplyWithoutOverflow n d of
           None \<Rightarrow> None
         | Some n \<Rightarrow> if n < 0 then Some False else IsValid_loop p ds n)
      else IsValid_loop p ds n)"

definition IsValid :: "bool \<Rightarrow> shape_proto \<Rightarrow> bool option" where
  "IsValid p proto =
     (if p \<and> proto_unknown_rank proto then Some (length (proto_dim proto) = 0)
      else if length (proto_dim proto) > MaxDimensions then Some False
      else IsValid_loop p (proto_dim proto) 1)"

fun IsValidShape_loop :: "bool \<Rightarrow> int list \<Rightarrow> int \<Rightarrow> status option" where
  "IsValidShape_loop p [] n = Some OK"
| "IsValidShape_loop p (d # ds) n =
     (if d < (if p then -1 else 0) then
        (if p then Some (Error INVALID_ARGUMENT ''dimensions with values below -1'')
         else Some (Error INVALID_ARGUMENT ''not fully defined''))
      else if d = -1 then IsValidShape_loop p ds (-1)
      else if \<not> p \<or> n \<ge> 0 then
        (case MultiplyWithoutOverflow n d of
           None \<Rightarrow> None
         | Some n \<Rightarrow>
             if n < 0 then Some (Error INVALID_ARGUMENT ''too large'') else IsValidShape_loop p ds n)
      else IsValidShape_loop p ds n)"

definition IsValidShape :: "bool \<Rightarrow> shape_proto \<Rightarrow> status option" where
  "IsValidShape p proto =
     (if p \<and> proto_unknown_rank proto then
        (if length (proto_dim proto) > 0
         then Some (Error INVALID_ARGUMENT ''An unknown shape must not have any dimensions set.'')
         else Some OK)
      else if length (proto_dim proto) > MaxDimensions
      then Some (Error INVALID_ARGUMENT ''too many dimensions'')
      else IsValidShape_loop p (proto_dim proto) 1)"

definition TensorShape_of_proto :: "bool \<Rightarrow> shape_proto \<Rightarrow> shape option" where
  "TensorShape_of_proto p proto =
     (if p \<and> proto_unknown_rank proto
      then Some \<lparr>buf = REP16 (replicate 6 0), ndims_byte = kUnknownRank, num_elements = -1, data_type = 0\<rparr>
      else TensorShape_of_sizes p (proto_dim proto))"

definition AsProto :: "bool \<Rightarrow> shape \<Rightarrow> shape_proto" where
  "AsProto p s =
     (if unknown_rank p s then \<lparr>proto_unknown_rank = True, proto_dim = []\<rparr>
      else \<lparr>proto_unknown_rank = False, proto_dim = map (dim_size p s) [0..<nat (dims p s)]\<rparr>)"

section \<open>Shape predicates\<close>

definition IsSameSize :: "shape \<Rightarrow> shape \<Rightarrow> bool" where
  "IsSameSize s b \<longleftrightarrow>
     dims False b = dims False s \<and>
     list_all (\<lambda>d. dim_size False s d = dim_size False b d) [0..<nat (dims False s)]"

definition StartsWith :: "shape \<Rightarrow> shape \<Rightarrow> bool" where
  "StartsWith s prefix \<longleftrightarrow>
     \<not> dims False s < dims False prefix \<and>
     list_all (\<lambda>i. dim_size False s i = dim_size False prefix i) [0..<nat (dims False prefix)]"

definition EndsWith :: "shape \<Rightarrow> shape \<Rightarrow> bool" where
  "EndsWith s suffix \<longleftrightarrow>
     (let suffix_size = dims False suffix in
      \<not> dims False s < suffix_size \<and>
      list_all (\<lambda>i. dim_size False s (nat (dims False s) - nat suffix_size + i) = dim_size False suffix i)
        [0..<nat suffix_size])"

definition IsIdenticalTo :: "shape \<Rightarrow> shape \<Rightarrow> bool" where
  "IsIdenticalTo s b \<longleftrightarrow>
     (if unknown_rank True s \<or> unknown_rank True b then unknown_rank True s = unknown_rank True b
      else dims True s = dims True b \<and>
        list_all (\<lambda>i. dim_size True s i = dim_size True b i) [0..<nat (dims True s)])"

definition dims_agree :: "int \<Rightarrow> int \<Rightarrow> bool" where
  "dims_agree dim0 dim1 \<longleftrightarrow> \<not> (dim0 \<ge> 0 \<and> dim1 \<ge> 0 \<and> dim0 \<noteq> dim1)"

definition IsCompatibleWith :: "shape \<Rightarrow> shape \<Rightarrow> bool" where
  "IsCompatibleWith s b \<longleftrightarrow>
     unknown_rank True s \<or> unknown_rank True b \<or>
     dims True s = dims True b \<and>
     list_all (\<lambda>i. dims_agree (dim_size True s i) (dim_size True b i)) [0..<nat (dims True s)]"

definition AreCompatible :: "shape list \<Rightarrow> shape list \<Rightarrow> bool" where
  "AreCompatible shapes0 shapes1 \<longleftrightarrow>
     length shapes0 = length shapes1 \<and>
     list_all (\<lambda>i. IsCompatibleWith (shapes0 ! i) (shapes1 ! i)) [0..<length shapes0]"

definition AreIdentical :: "shape list \<Rightarrow> shape list \<Rightarrow> bool" where
  "AreIdentical shapes0 shapes1 \<longleftrightarrow>
     length shapes0 = length shapes1 \<and>
     list_all (\<lambda>i. IsIdenticalTo (shapes0 ! i) (shapes1 ! i)) [0..<length shapes0]"

section \<open>Construction with errors, and partial shapes\<close>

fun MakeShape_loop :: "bool \<Rightarrow> int list \<Rightarrow> shape \<Rightarrow> (status \<times> shape) option" where
  "MakeShape_loop p [] out = Some (OK, out)"
| "MakeShape_loop p (dim # ds) out =
     (let next = (\<lambda>dim n. case UnsafeAddDim p out dim n of
                    None \<Rightarrow> None | Some out \<Rightarrow> MakeShape_loop p ds out)
      in if dim < 0 then
           if \<not> p then Some (Error INVALID_ARGUMENT ''must be >= 0'', out)
           else if dim < -1 then Some (Error INVALID_ARGUMENT ''must be >= -1'', out)
           else next (-1) (-1)
         else if num_elements out < 0 then next dim (-1)
         else case MultiplyWithoutOverflow (num_elements out) dim of
                None \<Rightarrow> None
              | Some n \<Rightarrow>
                  if n < 0
                  then Some (Error INVALID_ARGUMENT ''would have more than 2**63 - 1 elements'', out)
                  else next dim n)"

definition MakeShapeHelper :: "bool \<Rightarrow> int list \<Rightarrow> shape \<Rightarrow> (status \<times> shape) option" where
  "MakeShapeHelper p ds out =
     (if length ds > MaxDimensions then Some (Error INVALID_ARGUMENT ''Too many dimensions'', Clear out)
      else MakeShape_loop p ds (Clear out))"

text \<open>The shape the overflow message prints: \<open>n\<close> copies of the offending dimension.\<close>

definition overflow_message_shape :: "int list \<Rightarrow> nat \<Rightarrow> shape_proto" where
  "overflow_message_shape ds i =
     (let dim = ds ! i in \<lparr>proto_unknown_rank = False, proto_dim = map (\<lambda>j. dim) [0..<length ds]\<rparr>)"

definition Concatenate_dim :: "shape \<Rightarrow> int \<Rightarrow> shape option" where
  "Concatenate_dim s sz = AddDim True s sz"

definition Concatenate :: "shape \<Rightarrow> shape \<Rightarrow> shape option" where
  "Concatenate s b =
     (if unknown_rank True s \<or> unknown_rank True b then Some (TensorShapeBase True)
      else case AppendTo True b [] of None \<Rightarrow> None | Some ds \<Rightarrow> AddDims True s ds)"

fun MergeWith_loop :: "(int \<times> int) list \<Rightarrow> shape \<Rightarrow> (status \<times> shape) option" where
  "MergeWith_loop [] result = Some (OK, result)"
| "MergeWith_loop ((dim0, dim1) # ps) result =
     (if dim0 \<ge> 0 \<and> dim1 \<ge> 0 \<and> dim0 \<noteq> dim1
      then Some (Error INVALID_ARGUMENT ''PartialTensorShape: Incompatible shapes during merge'', result)
      else case AddDim True result (if dim0 \<ge> 0 then dim0 else dim1) of
             None \<Rightarrow> None
           | Some result \<Rightarrow> MergeWith_loop ps result)"

definition MergeWith :: "shape \<Rightarrow> shape \<Rightarrow> shape \<Rightarrow> (status \<times> shape) option" where
  "MergeWith s b result =
     (if unknown_rank True s then Some (OK, b)
      else if unknown_rank True b then Some (OK, s)
      else let ds = dims True s in
        if ds \<noteq> dims True b
        then Some (Error INVALID_ARGUMENT ''PartialTensorShape: Incompatible ranks during merge'', result)
        else MergeWith_loop (map (\<lambda>i. (dim_size True s i, dim_size True b i)) [0..<nat ds]) (Clear result))"

text \<open>\<open>None\<close> is the result \<^verbatim>\<open>false\<close>, which leaves the target alone.\<close>

definition AsTensorShape :: "shape \<Rightarrow> shape option" where
  "AsTensorShape s = (if IsFullyDefined True s then Some s else None)"

fun NumElements_loop :: "int list \<Rightarrow> int \<Rightarrow> (error_code + int) option" where
  "NumElements_loop [] n = Some (Inr n)"
| "NumElements_loop (dim # ds) n =
     (case MultiplyWithoutOverflow n dim of
        None \<Rightarrow> None
      | Some n \<Rightarrow> if n < 0 then Some (Inl INVALID_ARGUMENT) else NumElements_loop ds n)"

definition NumElements :: "int list \<Rightarrow> (error_code + int) option" where
  "NumElements ds = NumElements_loop ds 1"

section \<open>Products\<close>

lemma sint_64: "sint (w :: uint64) = (if uint w < 2 ^ 63 then uint w else uint w - 2 ^ 64)"
proof -
  let ?r = "uint w"
  have r: "0 \<le> ?r" "?r < 2 ^ 64" using uint_lt2p [of w] by simp_all
  have "sint w = take_bit 64 (?r + 2 ^ 63) - 2 ^ 63"
    by (simp add: sint_uint signed_take_bit_eq_take_bit_shift)
  also have "take_bit 64 (?r + 2 ^ 63) = (?r + 2 ^ 63) mod 2 ^ 64" by (rule take_bit_eq_mod)
  also have "\<dots> = (if ?r < 2 ^ 63 then ?r + 2 ^ 63 else ?r + 2 ^ 63 - 2 ^ 64)"
  proof (cases "?r < 2 ^ 63")
    case True
    then show ?thesis using r by (subst mod_pos_pos_trivial) simp_all
  next
    case False
    have "(?r + 2 ^ 63) mod 2 ^ 64 = (?r + 2 ^ 63 - 2 ^ 64) mod 2 ^ 64" by (rule minus_mod_self2 [symmetric])
    then show ?thesis using False r by (simp add: mod_pos_pos_trivial del: minus_mod_self2)
  qed
  finally show ?thesis by simp
qed

lemma MultiplyWithoutOverflow_nonneg:
  assumes "0 \<le> x" "x < 2 ^ 63" "0 \<le> y" "y < 2 ^ 63"
  shows "\<exists>r. MultiplyWithoutOverflow x y = Some r \<and> (if x * y < 2 ^ 63 then r = x * y else r < 0)"
proof -
  define ux uy where "ux = (word_of_int x :: uint64)" and "uy = (word_of_int y :: uint64)"
  have ux: "uint ux = x" and uy: "uint uy = y"
    using assms by (simp_all add: ux_def uy_def uint_word_of_int)
  have xy: "0 \<le> x * y" using assms by simp
  have u: "uint (ux * uy) = x * y mod 2 ^ 64" by (simp add: uint_word_ariths ux uy)
  have s: "sint (ux * uy) = (if x * y mod 2 ^ 64 < 2 ^ 63 then x * y mod 2 ^ 64 else x * y mod 2 ^ 64 - 2 ^ 64)"
    unfolding sint_64 u ..
  have def: "MultiplyWithoutOverflow x y =
     (if drop_bit 32 (ux OR uy) \<noteq> 0 \<and> ux \<noteq> 0 \<and> ux * uy div ux \<noteq> uy then Some (-1) else Some (sint (ux * uy)))"
    using assms by (simp add: MultiplyWithoutOverflow_def Let_def ux_def uy_def)
  show ?thesis
  proof (cases "x * y < 2 ^ 64")
    case True
    then have m: "x * y mod 2 ^ 64 = x * y" using xy by (intro mod_pos_pos_trivial)
    have "uint (ux * uy div ux) = uint uy" if "ux \<noteq> 0"
    proof -
      have "x \<noteq> 0" using that ux word_uint_eq_iff [of ux 0] by auto
      then show ?thesis unfolding uint_div_distrib u m ux uy by simp
    qed
    then have "MultiplyWithoutOverflow x y = Some (sint (ux * uy))"
      unfolding def by (auto simp: word_uint_eq_iff)
    then show ?thesis using s m True by auto
  next
    case False
    have small: "drop_bit 32 (ux OR uy) \<noteq> 0"
    proof
      assume "drop_bit 32 (ux OR uy) = 0"
      then have "uint (drop_bit 32 (ux OR uy)) = uint (0 :: uint64)" by (rule arg_cong)
      then have "drop_bit 32 (uint ux OR uint uy) = 0"
        by (simp only: unsigned_drop_bit_eq uint_or take_bit_or ux uy unsigned_0)
          (use assms in \<open>simp add: take_bit_int_eq_self\<close>)
      then have "drop_bit 32 (uint ux) OR drop_bit 32 (uint uy) = 0" by (simp only: drop_bit_or)
      then have "drop_bit 32 x = 0" "drop_bit 32 y = 0" unfolding ux uy by (simp_all add: or_eq_0_iff)
      then have "x div 2 ^ 32 = 0" "y div 2 ^ 32 = 0" by (simp_all add: drop_bit_eq_div)
      then have "x < 2 ^ 32" "y < 2 ^ 32" using assms by (simp_all add: div_eq_0_iff)
      then have "x * y < 2 ^ 32 * 2 ^ 32" using assms by (intro mult_strict_mono') auto
      then show False using False by simp
    qed
    have x: "0 < x" using False assms(1) by (cases "x = 0") auto
    have "x * y mod 2 ^ 64 < x * y" using False xy
      by (metis mod_le_divisor not_le order_less_le_trans pos_mod_bound zero_less_numeral zero_less_power)
    then have q: "x * y mod 2 ^ 64 div x < y"
    proof -
      assume lt: "x * y mod 2 ^ 64 < x * y"
      have "x * y mod 2 ^ 64 div x * x \<le> x * y mod 2 ^ 64"
        using x minus_mod_eq_div_mult [of "x * y mod 2 ^ 64" x] pos_mod_sign [OF x, of "x * y mod 2 ^ 64"] by linarith
      then have "x * y mod 2 ^ 64 div x * x < y * x" using lt by (simp add: mult.commute)
      then show "x * y mod 2 ^ 64 div x < y" using x by (simp add: mult_less_cancel_right)
    qed
    then have "ux * uy div ux \<noteq> uy" by (auto simp: word_uint_eq_iff uint_div_distrib u ux uy)
    moreover have "ux \<noteq> 0" using x ux by auto
    ultimately show ?thesis using small False by (simp add: def)
  qed
qed

section \<open>The represented dimensions\<close>

definition valid_dim :: "bool \<Rightarrow> int \<Rightarrow> bool" where
  "valid_dim p d \<longleftrightarrow> d < 2 ^ 63 \<and> (0 \<le> d \<or> p \<and> d = -1)"

fun rep_inv :: "bool \<Rightarrow> nat \<Rightarrow> rep_buf \<Rightarrow> bool" where
  "rep_inv p n (REP16 a) \<longleftrightarrow> length a = 6 \<and> n \<le> 6 \<and>
     (\<forall>d<n. uint (a ! d) < 65534 \<or> p \<and> a ! d = kUnknownRep16)"
| "rep_inv p n (REP32 a) \<longleftrightarrow> length a = 3 \<and> n \<le> 3 \<and>
     (\<forall>d<n. uint (a ! d) < 4294967294 \<or> p \<and> a ! d = kUnknownRep32)"
| "rep_inv p n (REP_OUT_OF_LINE v) \<longleftrightarrow> length v = n \<and> (\<forall>d \<in> set v. valid_dim p d)"

definition rep_dims :: "bool \<Rightarrow> nat \<Rightarrow> rep_buf \<Rightarrow> int list" where
  "rep_dims p n b = map (rep_dim p b) [0..<n]"

lemma length_rep_dims [simp]: "length (rep_dims p n b) = n"
  by (simp add: rep_dims_def)

lemma rep_dims_Suc: "rep_dims p (Suc n) b = rep_dims p n b @ [rep_dim p b n]"
  by (simp add: rep_dims_def)

lemma uint_store16: "0 \<le> d \<Longrightarrow> d < 65535 \<Longrightarrow> uint (store16 p d) = d"
  by (simp add: store16_def uint_word_of_int)

lemma uint_store32: "0 \<le> d \<Longrightarrow> d < 4294967295 \<Longrightarrow> uint (store32 p d) = d"
  by (simp add: store32_def uint_word_of_int)

lemma store16_ok:
  assumes "valid_dim p d" "d < kMaxRep16"
  shows "(if p \<and> store16 p d = kUnknownRep16 then -1 else uint (store16 p d)) = d"
    and "uint (store16 p d) < 65534 \<or> p \<and> store16 p d = kUnknownRep16"
proof -
  have "store16 p d = kUnknownRep16" if "d < 0" using that assms by (simp add: store16_def valid_dim_def)
  moreover have "uint (store16 p d) = d" if "0 \<le> d"
    using that assms by (intro uint_store16) (simp_all add: rep_consts)
  moreover have "uint kUnknownRep16 = 65535" by (simp add: rep_consts)
  ultimately show "(if p \<and> store16 p d = kUnknownRep16 then -1 else uint (store16 p d)) = d"
    and "uint (store16 p d) < 65534 \<or> p \<and> store16 p d = kUnknownRep16"
    using assms by (cases "0 \<le> d"; fastforce simp: rep_consts valid_dim_def)+
qed

lemma store32_ok:
  assumes "valid_dim p d" "d < kMaxRep32"
  shows "(if p \<and> store32 p d = kUnknownRep32 then -1 else uint (store32 p d)) = d"
    and "uint (store32 p d) < 4294967294 \<or> p \<and> store32 p d = kUnknownRep32"
proof -
  have "store32 p d = kUnknownRep32" if "d < 0" using that assms by (simp add: store32_def valid_dim_def)
  moreover have "uint (store32 p d) = d" if "0 \<le> d"
    using that assms by (intro uint_store32) (simp_all add: rep_consts)
  moreover have "uint kUnknownRep32 = 4294967295" by (simp add: rep_consts)
  ultimately show "(if p \<and> store32 p d = kUnknownRep32 then -1 else uint (store32 p d)) = d"
    and "uint (store32 p d) < 4294967294 \<or> p \<and> store32 p d = kUnknownRep32"
    using assms by (cases "0 \<le> d"; fastforce simp: rep_consts valid_dim_def)+
qed

lemma rep_inv_valid: "rep_inv p n b \<Longrightarrow> d < n \<Longrightarrow> valid_dim p (rep_dim p b d)"
proof (cases b)
  case (REP16 a)
  assume "rep_inv p n b" "d < n"
  then have "uint (a ! d) < 65534 \<or> p \<and> a ! d = kUnknownRep16" using REP16 by simp
  moreover have "uint (a ! d) < 2 ^ LENGTH(16)" by (rule uint_lt2p)
  ultimately show ?thesis using REP16 by (auto simp: valid_dim_def)
next
  case (REP32 a)
  assume "rep_inv p n b" "d < n"
  then have "uint (a ! d) < 4294967294 \<or> p \<and> a ! d = kUnknownRep32" using REP32 by simp
  moreover have "uint (a ! d) < 2 ^ LENGTH(32)" by (rule uint_lt2p)
  ultimately show ?thesis using REP32 by (auto simp: valid_dim_def)
qed auto

lemma rep_dims_valid: "rep_inv p n b \<Longrightarrow> \<forall>d \<in> set (rep_dims p n b). valid_dim p d"
  by (auto simp: rep_dims_def rep_inv_valid)

lemma regrow_ok:
  assumes "\<forall>d \<in> set vals. valid_dim p d"
  shows "rep_inv p (length vals) (regrow p vals) \<and> rep_dims p (length vals) (regrow p vals) = vals"
proof (cases "length vals \<le> 3 \<and> list_all (\<lambda>v. v < kMaxRep32) vals")
  case True
  then have b: "regrow p vals = REP32 (map (store32 p) vals @ replicate (3 - length vals) 0)"
    by (simp add: regrow_def)
  have n: "valid_dim p (vals ! d)" "vals ! d < kMaxRep32" if "d < length vals" for d
    using that assms True by (simp_all add: list_all_length)
  have a: "(map (store32 p) vals @ replicate (3 - length vals) 0) ! d = store32 p (vals ! d)"
    if "d < length vals" for d using that by (simp add: nth_append)
  have "rep_inv p (length vals) (regrow p vals)" unfolding b
    using True store32_ok(2) [OF n] by (simp add: a)
  moreover have "rep_dims p (length vals) (regrow p vals) = vals" unfolding b
  proof (intro nth_equalityI)
    fix i assume "i < length (rep_dims p (length vals) (REP32 (map (store32 p) vals @ replicate (3 - length vals) 0)))"
    then have i: "i < length vals" by simp
    then have "rep_dims p (length vals) (REP32 (map (store32 p) vals @ replicate (3 - length vals) 0)) ! i =
      (if p \<and> store32 p (vals ! i) = kUnknownRep32 then -1 else uint (store32 p (vals ! i)))"
      using i by (simp only: rep_dims_def nth_map_upt diff_zero add_0 rep_dim.simps a [OF i])
    also have "\<dots> = vals ! i" by (rule store32_ok(1) [OF n [OF i]])
    finally show "rep_dims p (length vals) (REP32 (map (store32 p) vals @ replicate (3 - length vals) 0)) ! i = vals ! i" .
  qed simp
  ultimately show ?thesis ..
next
  case False
  then have b: "regrow p vals = REP_OUT_OF_LINE vals" by (auto simp: regrow_def)
  show ?thesis unfolding b rep_dims_def using assms by (auto intro: nth_equalityI)
qed

text \<open>
  The abstraction of a shape of known rank is its list of dimensions. Its number of elements
  is their product, \<open>-1\<close> once one of them is unknown, and fits \<^verbatim>\<open>int64\<close> for every
  prefix, because dimensions are multiplied in from the left.
\<close>

definition shape_list :: "bool \<Rightarrow> shape \<Rightarrow> int list" where
  "shape_list p s = rep_dims p (unat (ndims_byte s)) (buf s)"

definition elems :: "int list \<Rightarrow> int" where
  "elems ds = (if \<exists>d \<in> set ds. d < 0 then -1 else prod_list ds)"

definition list_ok :: "bool \<Rightarrow> int list \<Rightarrow> bool" where
  "list_ok p ds \<longleftrightarrow>
     length ds \<le> MaxDimensions \<and> list_all (valid_dim p) ds \<and>
     list_all (\<lambda>k. elems (take k ds) < 2 ^ 63) [0..<Suc (length ds)]"

definition shape_inv :: "bool \<Rightarrow> shape \<Rightarrow> bool" where
  "shape_inv p s \<longleftrightarrow>
     rep_inv p (unat (ndims_byte s)) (buf s) \<and> list_ok p (shape_list p s) \<and>
     num_elements s = elems (shape_list p s)"

lemma length_shape_list [simp]: "length (shape_list p s) = unat (ndims_byte s)"
  by (simp add: shape_list_def)

lemma elems_Nil [simp]: "elems [] = 1"
  by (simp add: elems_def)

lemma elems_snoc: "elems (ds @ [d]) = (if d < 0 \<or> elems ds < 0 then -1 else elems ds * d)"
proof -
  have "0 \<le> prod_list ds" if "\<not> (\<exists>d \<in> set ds. d < 0)" using that
    by (induction ds) auto
  then show ?thesis by (auto simp: elems_def)
qed

lemma elems_neg: "elems ds < 0 \<longleftrightarrow> (\<exists>d \<in> set ds. d < 0)"
proof -
  have "0 \<le> prod_list ds" if "\<not> (\<exists>d \<in> set ds. d < 0)" using that
    by (induction ds) auto
  then show ?thesis by (auto simp: elems_def)
qed

lemma list_ok_Nil [simp]: "list_ok p []"
  by (simp add: list_ok_def)

lemma list_ok_snoc:
  "list_ok p (ds @ [d]) \<longleftrightarrow>
     list_ok p ds \<and> length ds < MaxDimensions \<and> valid_dim p d \<and> elems (ds @ [d]) < 2 ^ 63"
  by (auto simp: list_ok_def list_all_iff less_Suc_eq)

lemma list_ok_append: "list_ok p (ds @ es) \<Longrightarrow> list_ok p ds"
  by (induction es rule: rev_induct) (auto simp: append_assoc [symmetric] list_ok_snoc simp del: append_assoc)

lemma list_ok_elems: "list_ok p ds \<Longrightarrow> elems ds < 2 ^ 63"
  by (simp add: list_ok_def)

lemma shape_inv_known: "shape_inv p s \<Longrightarrow> \<not> unknown_rank p s"
  by (auto simp: shape_inv_def list_ok_def unknown_rank_def rep_consts)

lemma shape_inv_AppendTo: "shape_inv p s \<Longrightarrow> AppendTo p s vals = Some (vals @ shape_list p s)"
  using shape_inv_known [of p s] by (simp add: AppendTo_def shape_list_def rep_dims_def dim_size_def)

lemma shape_inv_dims: "shape_inv p s \<Longrightarrow> dims p s = int (length (shape_list p s))"
  using shape_inv_known [of p s] by (auto simp: dims_def unknown_rank_def)

lemma UnsafeAddDim_ok:
  assumes inv: "rep_inv p (unat (ndims_byte s)) (buf s)" and known: "\<not> unknown_rank p s"
    and n: "unat (ndims_byte s) < MaxDimensions" and d: "valid_dim p sz"
  shows "\<exists>s'. UnsafeAddDim p s sz k = Some s' \<and>
    rep_inv p (unat (ndims_byte s')) (buf s') \<and> shape_list p s' = shape_list p s @ [sz] \<and>
    num_elements s' = k \<and> data_type s' = data_type s \<and> unat (ndims_byte s') = Suc (unat (ndims_byte s))"
proof -
  define m where "m = unat (ndims_byte s)"
  have u: "unat (word_of_nat (m + 1) :: byte) = Suc m"
    using n by (subst unat_of_nat) (simp add: m_def rep_consts take_bit_nat_eq_self_iff)
  have app: "AppendTo p s [] = Some (shape_list p s)"
    using known by (simp add: AppendTo_def shape_list_def rep_dims_def dim_size_def)
  have len: "length (shape_list p s) = m" by (simp add: m_def)
  have fin: "\<exists>s'. Some (s\<lparr>buf := b, ndims_byte := word_of_nat (m + 1), num_elements := k\<rparr>) = Some s' \<and>
    rep_inv p (unat (ndims_byte s')) (buf s') \<and> shape_list p s' = shape_list p s @ [sz] \<and>
    num_elements s' = k \<and> data_type s' = data_type s \<and> unat (ndims_byte s') = Suc (unat (ndims_byte s))"
    if "rep_inv p (Suc m) b" "rep_dims p (Suc m) b = shape_list p s @ [sz]" for b
    using that u by (simp add: shape_list_def m_def)
  have val: "\<forall>d \<in> set (shape_list p s @ [sz]). valid_dim p d"
    using rep_dims_valid [OF inv] d by (auto simp: shape_list_def)
  have grow: "rep_inv p (Suc m) (regrow p (shape_list p s @ [sz])) \<and>
      rep_dims p (Suc m) (regrow p (shape_list p s @ [sz])) = shape_list p s @ [sz]"
    using regrow_ok [OF val] by (simp add: m_def)
  have old: "rep_dims p m b = shape_list p s" if "\<And>i. i < m \<Longrightarrow> rep_dim p b i = rep_dim p (buf s) i" for b
    using that by (simp add: shape_list_def rep_dims_def m_def)
  show ?thesis
  proof (cases "buf s")
    case (REP16 a)
    show ?thesis
    proof (cases "m < 6 \<and> sz < kMaxRep16")
      case True
      have "rep_inv p (Suc m) (REP16 (a[m := store16 p sz]))"
        using inv REP16 True store16_ok(2) [of p sz] d by (auto simp: m_def less_Suc_eq nth_list_update)
      moreover have "rep_dim p (REP16 (a[m := store16 p sz])) m = sz"
      proof -
        have am: "a[m := store16 p sz] ! m = store16 p sz" using inv REP16 True by simp
        show ?thesis unfolding rep_dim.simps am using store16_ok(1) [of p sz] d True by blast
      qed
      moreover have "rep_dims p m (REP16 (a[m := store16 p sz])) = shape_list p s"
        using REP16 by (intro old) simp
      ultimately show ?thesis
        using True REP16 fin [of "REP16 (a[m := store16 p sz])"]
        by (simp add: UnsafeAddDim_def Let_def m_def [symmetric] rep_dims_Suc del: rep_inv.simps rep_dim.simps)
    next
      case False
      then show ?thesis using REP16 fin grow
        by (auto simp: UnsafeAddDim_def Let_def m_def [symmetric] app)
    qed
  next
    case (REP32 a)
    show ?thesis
    proof (cases "m < 3 \<and> sz < kMaxRep32")
      case True
      have "rep_inv p (Suc m) (REP32 (a[m := store32 p sz]))"
        using inv REP32 True store32_ok(2) [of p sz] d by (auto simp: m_def less_Suc_eq nth_list_update)
      moreover have "rep_dim p (REP32 (a[m := store32 p sz])) m = sz"
      proof -
        have am: "a[m := store32 p sz] ! m = store32 p sz" using inv REP32 True by simp
        show ?thesis unfolding rep_dim.simps am using store32_ok(1) [of p sz] d True by blast
      qed
      moreover have "rep_dims p m (REP32 (a[m := store32 p sz])) = shape_list p s"
        using REP32 by (intro old) simp
      ultimately show ?thesis
        using True REP32 fin [of "REP32 (a[m := store32 p sz])"]
        by (simp add: UnsafeAddDim_def Let_def m_def [symmetric] rep_dims_Suc del: rep_inv.simps rep_dim.simps)
    next
      case False
      then show ?thesis using REP32 fin grow
        by (auto simp: UnsafeAddDim_def Let_def m_def [symmetric] app)
    qed
  next
    case (REP_OUT_OF_LINE v)
    have "rep_inv p (Suc m) (REP_OUT_OF_LINE (v @ [sz]))"
      using inv REP_OUT_OF_LINE d by (auto simp: m_def)
    moreover have "rep_dims p m (REP_OUT_OF_LINE (v @ [sz])) = shape_list p s"
      using inv REP_OUT_OF_LINE by (intro old) (simp add: nth_append m_def)
    moreover have "rep_dim p (REP_OUT_OF_LINE (v @ [sz])) m = sz"
      using inv REP_OUT_OF_LINE by (simp add: nth_append m_def)
    ultimately show ?thesis
      using REP_OUT_OF_LINE fin [of "REP_OUT_OF_LINE (v @ [sz])"]
      by (simp add: UnsafeAddDim_def Let_def m_def [symmetric] rep_dims_Suc del: rep_inv.simps rep_dim.simps)
  qed
qed

text \<open>\<open>shape_is p s ds dt\<close>: a well-formed shape of known rank with dimensions \<open>ds\<close>.\<close>

definition shape_is :: "bool \<Rightarrow> shape \<Rightarrow> int list \<Rightarrow> byte \<Rightarrow> bool" where
  "shape_is p s ds dt \<longleftrightarrow> shape_inv p s \<and> shape_list p s = ds \<and> data_type s = dt"

lemma AddDim_ok:
  assumes s: "shape_is p s ds dt" and d: "-1 \<le> sz" "sz < 2 ^ 63"
  shows "if list_ok p (ds @ [sz]) then \<exists>s'. AddDim p s sz = Some s' \<and> shape_is p s' (ds @ [sz]) dt
    else AddDim p s sz = None"
proof -
  have inv: "rep_inv p (unat (ndims_byte s)) (buf s)" and lok: "list_ok p ds" and ne: "num_elements s = elems ds"
    and len: "length ds = unat (ndims_byte s)" and known: "\<not> unknown_rank p s" and dt: "data_type s = dt"
    and sl: "shape_list p s = ds"
    using s shape_inv_known [of p s] by (auto simp: shape_is_def shape_inv_def)
  have add: "\<exists>s'. UnsafeAddDim p s sz (elems (ds @ [sz])) = Some s' \<and> shape_is p s' (ds @ [sz]) dt"
    if "list_ok p (ds @ [sz])"
    using UnsafeAddDim_ok [OF inv known, of sz "elems (ds @ [sz])"] that len sl dt
    by (auto simp: list_ok_snoc shape_is_def shape_inv_def)
  show ?thesis
  proof (cases "(p \<or> 0 \<le> sz) \<and> length ds < MaxDimensions")
    case False
    then show ?thesis using known d
      by (auto simp: AddDim_def list_ok_snoc valid_dim_def len)
  next
    case True
    then have v: "valid_dim p sz" using d by (auto simp: valid_dim_def)
    show ?thesis
    proof (cases "elems ds < 0 \<or> sz < 0")
      case neg: True
      have p: "p"
      proof (rule ccontr)
        assume "\<not> p"
        then have "\<forall>d \<in> set ds. 0 \<le> d" using lok by (auto simp: list_ok_def list_all_iff valid_dim_def)
        then show False using neg True \<open>\<not> p\<close> elems_neg [of ds] by auto
      qed
      have e: "elems (ds @ [sz]) = -1" using neg by (auto simp: elems_snoc)
      then have "list_ok p (ds @ [sz])" using lok True v by (simp add: list_ok_snoc)
      then show ?thesis using add neg p known True len e by (simp add: AddDim_def ne)
    next
      case nonneg: False
      then have e: "elems (ds @ [sz]) = elems ds * sz" by (simp add: elems_snoc)
      obtain r where r: "MultiplyWithoutOverflow (elems ds) sz = Some r"
        "if elems ds * sz < 2 ^ 63 then r = elems ds * sz else r < 0"
        using MultiplyWithoutOverflow_nonneg [of "elems ds" sz] nonneg d list_ok_elems [OF lok] by auto
      have "0 \<le> elems ds * sz" using nonneg by simp
      then show ?thesis
        using r add nonneg known True len e v lok
        by (auto simp: AddDim_def ne list_ok_snoc split: if_splits)
    qed
  qed
qed

lemma AddDims_ok:
  assumes "shape_is p s ds dt" and "\<forall>d \<in> set es. -1 \<le> d \<and> d < 2 ^ 63"
  shows "if list_ok p (ds @ es) then \<exists>s'. AddDims p s es = Some s' \<and> shape_is p s' (ds @ es) dt
    else AddDims p s es = None"
  using assms
proof (induction es arbitrary: s ds)
  case Nil
  then show ?case by (auto simp: shape_is_def shape_inv_def)
next
  case (Cons e es)
  have e: "-1 \<le> e" "e < 2 ^ 63" using Cons.prems by auto
  note step = AddDim_ok [OF Cons.prems(1) e]
  show ?case
  proof (cases "list_ok p (ds @ [e])")
    case True
    then obtain s' where s': "AddDim p s e = Some s'" "shape_is p s' (ds @ [e]) dt" using step by auto
    from Cons.IH [OF this(2)] Cons.prems(2) show ?thesis
      by (cases "list_ok p (ds @ e # es)") (auto simp: s'(1))
  next
    case False
    then have "\<not> list_ok p (ds @ e # es)" using list_ok_append [of p "ds @ [e]" es] by auto
    then show ?thesis using step False by simp
  qed
qed

lemma ClearAllButDataType_ok: "shape_is p (ClearAllButDataType s) [] (data_type s)"
  by (simp add: shape_is_def shape_inv_def ClearAllButDataType_def shape_list_def rep_dims_def)

lemma TensorShape_of_sizes_ok:
  assumes "\<forall>d \<in> set ds. -1 \<le> d \<and> d < 2 ^ 63"
  shows "if list_ok p ds then \<exists>s. TensorShape_of_sizes p ds = Some s \<and> shape_is p s ds 0
    else TensorShape_of_sizes p ds = None"
proof -
  have "shape_is p \<lparr>buf = REP16 (replicate 6 0), ndims_byte = 0, num_elements = 1, data_type = 0\<rparr> [] 0"
    by (simp add: shape_is_def shape_inv_def shape_list_def rep_dims_def)
  from AddDims_ok [OF this assms] show ?thesis
    by (cases "list_ok p ds") (auto simp: TensorShape_of_sizes_def)
qed

lemma RecomputeNumElements_loop_ok:
  assumes "list_ok p ds" and "list_all (valid_dim p) es" and "length (ds @ es) \<le> MaxDimensions"
    and "0 \<le> elems ds"
  shows "RecomputeNumElements_loop p es (elems ds) = (if list_ok p (ds @ es) then Some (elems (ds @ es)) else None)"
  using assms
proof (induction es arbitrary: ds)
  case (Cons e es)
  show ?case
  proof (cases "e < 0")
    case True
    have "list_ok p (ds @ e # es) \<and> elems (ds @ e # es) = -1"
      using Cons.prems(2,3)
    proof (induction es rule: rev_induct)
      case Nil
      then show ?case using Cons.prems True by (simp add: list_ok_snoc elems_snoc)
    next
      case (snoc x xs)
      then show ?case using list_ok_snoc [of p "ds @ e # xs" x] elems_snoc [of "ds @ e # xs" x] by simp
    qed
    moreover have "p" using Cons.prems True by (auto simp: valid_dim_def)
    ultimately show ?thesis using True by simp
  next
    case False
    then have e: "elems (ds @ [e]) = elems ds * e" using Cons.prems by (simp add: elems_snoc)
    have "e < 2 ^ 63" using Cons.prems by (simp add: valid_dim_def)
    then obtain r where r: "MultiplyWithoutOverflow (elems ds) e = Some r"
        "if elems ds * e < 2 ^ 63 then r = elems ds * e else r < 0"
      using MultiplyWithoutOverflow_nonneg [of "elems ds" e] False Cons.prems list_ok_elems by auto
    have nn: "0 \<le> elems ds * e" using False Cons.prems by simp
    show ?thesis
    proof (cases "elems ds * e < 2 ^ 63")
      case True
      then have "list_ok p (ds @ [e])" using Cons.prems e by (simp add: list_ok_snoc)
      from Cons.IH [OF this] show ?thesis using Cons.prems True False r nn e by simp
    next
      case big: False
      then have "\<not> list_ok p (ds @ e # es)"
        using list_ok_append [of p "ds @ [e]" es] e by (auto simp: list_ok_snoc)
      then show ?thesis using big r False by simp
    qed
  qed
qed simp

lemma RecomputeNumElements_ok:
  assumes inv: "rep_inv p (unat (ndims_byte s)) (buf s)" and n: "unat (ndims_byte s) \<le> MaxDimensions"
  shows "if list_ok p (shape_list p s)
    then \<exists>s'. RecomputeNumElements p s = Some s' \<and> shape_is p s' (shape_list p s) (data_type s)
    else RecomputeNumElements p s = None"
proof -
  have known: "\<not> unknown_rank p s" using n by (auto simp: unknown_rank_def rep_consts)
  then have app: "AppendTo p s [] = Some (shape_list p s)"
    by (simp add: AppendTo_def shape_list_def rep_dims_def dim_size_def)
  have "list_all (valid_dim p) (shape_list p s)"
    using rep_dims_valid [OF inv] by (simp add: shape_list_def list_all_iff)
  then have loop: "RecomputeNumElements_loop p (shape_list p s) 1 =
      (if list_ok p (shape_list p s) then Some (elems (shape_list p s)) else None)"
    using RecomputeNumElements_loop_ok [of p "[]" "shape_list p s"] n by simp
  have "shape_list p (s\<lparr>num_elements := k\<rparr>) = shape_list p s" for k by (simp add: shape_list_def)
  then show ?thesis using known app loop inv
    by (simp add: RecomputeNumElements_def shape_is_def shape_inv_def)
qed

lemma RecomputeNumElements_id:
  assumes "shape_is p s ds dt"
  shows "\<exists>s'. RecomputeNumElements p s = Some s' \<and> shape_is p s' ds dt"
  using RecomputeNumElements_ok [of p s] assms
  by (auto simp: shape_is_def shape_inv_def list_ok_def)

lemma shape_isD:
  assumes "shape_is p s ds dt"
  shows "AppendTo p s vals = Some (vals @ ds)" "dims p s = int (length ds)" "\<not> unknown_rank p s"
    "\<forall>d \<in> set ds. -1 \<le> d \<and> d < 2 ^ 63" "list_ok p ds" "num_elements s = elems ds"
    "length ds = unat (ndims_byte s)" "data_type s = dt"
  using assms shape_inv_AppendTo [of p s vals] shape_inv_dims [of p s] shape_inv_known [of p s]
  by (auto simp: shape_is_def shape_inv_def list_ok_def list_all_iff valid_dim_def)

lemma InsertDim_ok:
  assumes s: "shape_is p s ds dt" and d: "-1 \<le> sz" "sz < 2 ^ 63" "d \<le> length ds"
  shows "if list_ok p (take d ds @ sz # drop d ds)
    then \<exists>s'. InsertDim p s d sz = Some s' \<and> shape_is p s' (take d ds @ sz # drop d ds) dt
    else InsertDim p s d sz = None"
proof -
  note D = shape_isD [OF s]
  have es: "\<forall>d \<in> set (take d ds @ sz # drop d ds). -1 \<le> d \<and> d < 2 ^ 63"
    using D(4) d by (auto dest: in_set_takeD in_set_dropD)
  have "list_ok p (take d ds @ sz # drop d ds) \<Longrightarrow> (p \<or> 0 \<le> sz) \<and> length ds < MaxDimensions"
    using d by (auto simp: list_ok_def valid_dim_def)
  moreover note AddDims_ok [OF ClearAllButDataType_ok [of p s] es]
  moreover have "int d \<le> dims p s" "(dims p s < int MaxDimensions) = (length ds < MaxDimensions)"
    using D(2) d by simp_all
  ultimately show ?thesis using D(1,8)
    by (cases "list_ok p (take d ds @ sz # drop d ds)") (auto simp: InsertDim_def)
qed

lemma RemoveDim_ok:
  assumes s: "shape_is p s ds dt" and d: "d < length ds"
  shows "if list_ok p (take d ds @ drop (Suc d) ds)
    then \<exists>s'. RemoveDim p s d = Some s' \<and> shape_is p s' (take d ds @ drop (Suc d) ds) dt
    else RemoveDim p s d = None"
proof -
  note D = shape_isD [OF s]
  have es: "\<forall>d \<in> set (take d ds @ drop (Suc d) ds). -1 \<le> d \<and> d < 2 ^ 63"
    using D(4) by (auto dest: in_set_takeD in_set_dropD)
  note A = AddDims_ok [OF ClearAllButDataType_ok [of p s] es]
  have g: "int d < dims p s" using D(2) d by simp
  show ?thesis
  proof (cases "list_ok p (take d ds @ drop (Suc d) ds)")
    case True
    then obtain s' where "AddDims p (ClearAllButDataType s) (take d ds @ drop (Suc d) ds) = Some s'"
      "shape_is p s' (take d ds @ drop (Suc d) ds) dt" using A D by auto
    then show ?thesis using RecomputeNumElements_id True D(1,3) g by (simp add: RemoveDim_def)
  next
    case False
    then show ?thesis using A D(1,3) g by (simp add: RemoveDim_def)
  qed
qed

lemma set_dim_ok:
  assumes s: "shape_is p s ds dt" and d: "0 \<le> sz" "sz < 2 ^ 63" "d < length ds"
  shows "if list_ok p (ds[d := sz])
    then \<exists>s'. set_dim p s d sz = Some s' \<and> shape_is p s' (ds[d := sz]) dt
    else set_dim p s d sz = None"
proof -
  note D = shape_isD [OF s]
  define m where "m = unat (ndims_byte s)"
  have inv: "rep_inv p m (buf s)" and sl: "rep_dims p m (buf s) = ds" and m: "m \<le> MaxDimensions"
    using s D(5,7) by (simp_all add: shape_is_def shape_inv_def shape_list_def m_def list_ok_def)
  have dm: "d < m" using d D(7) by (simp add: m_def)
  have v: "valid_dim p sz" using d by (simp add: valid_dim_def)
  have guard: "\<not> (\<not> int d < dims p s \<or> \<not> sz \<ge> 0)" using D(2) d by simp
  have direct: "if list_ok p (ds[d := sz])
      then \<exists>s'. RecomputeNumElements p (s\<lparr>buf := b\<rparr>) = Some s' \<and> shape_is p s' (ds[d := sz]) dt
      else RecomputeNumElements p (s\<lparr>buf := b\<rparr>) = None"
    if "rep_inv p m b" "rep_dims p m b = ds[d := sz]" for b
    using RecomputeNumElements_ok [of p "s\<lparr>buf := b\<rparr>"] that m D(8)
    by (cases "list_ok p (ds[d := sz])") (auto simp: m_def shape_list_def)
  have upd: "rep_dims p m b = ds[d := sz]"
    if "rep_dim p b d = sz" "\<And>i. i < m \<Longrightarrow> i \<noteq> d \<Longrightarrow> rep_dim p b i = rep_dim p (buf s) i" for b
    using that dm by (intro nth_equalityI) (auto simp: sl [symmetric] rep_dims_def nth_list_update)
  have es: "\<forall>d \<in> set (ds[d := sz]). -1 \<le> d \<and> d < 2 ^ 63"
    using D(4) d set_update_subset_insert [of ds d sz] by auto
  note A = AddDims_ok [OF ClearAllButDataType_ok [of p s] es]
  define upgrade where "upgrade = (case AppendTo p s [] of None \<Rightarrow> None
    | Some vals \<Rightarrow> AddDims p (ClearAllButDataType s) (vals[d := sz]))"
  have upgrade: "if list_ok p (ds[d := sz])
      then \<exists>s'. (case upgrade of None \<Rightarrow> None | Some s' \<Rightarrow> RecomputeNumElements p s') = Some s' \<and> shape_is p s' (ds[d := sz]) dt
      else (case upgrade of None \<Rightarrow> None | Some s' \<Rightarrow> RecomputeNumElements p s') = None"
  proof (cases "list_ok p (ds[d := sz])")
    case True
    then obtain s' where "upgrade = Some s'" "shape_is p s' (ds[d := sz]) dt"
      using A D by (auto simp: upgrade_def)
    then show ?thesis using RecomputeNumElements_id True by simp
  next
    case False
    then show ?thesis using A D by (simp add: upgrade_def)
  qed
  show ?thesis
  proof (cases "buf s")
    case (REP16 a)
    then have r: "set_dim p s d sz = (if sz < kMaxRep16 then RecomputeNumElements p (s\<lparr>buf := REP16 (a[d := store16 p sz])\<rparr>)
        else case upgrade of None \<Rightarrow> None | Some s' \<Rightarrow> RecomputeNumElements p s')"
      using guard by (simp add: set_dim_def upgrade_def Let_def)
    show ?thesis
    proof (cases "sz < kMaxRep16")
      case True
      have am: "a[d := store16 p sz] ! d = store16 p sz" using inv REP16 dm by simp
      have "rep_inv p m (REP16 (a[d := store16 p sz]))"
        using inv REP16 True store16_ok(2) [of p sz] v dm by (auto simp: nth_list_update)
      moreover have "rep_dims p m (REP16 (a[d := store16 p sz])) = ds[d := sz]"
      proof (rule upd)
        show "rep_dim p (REP16 (a[d := store16 p sz])) d = sz"
          unfolding rep_dim.simps am by (rule store16_ok(1) [OF v True])
      qed (simp add: REP16)
      ultimately show ?thesis unfolding r using True direct by simp
    qed (use r upgrade in simp)
  next
    case (REP32 a)
    then have r: "set_dim p s d sz = (if sz < kMaxRep32 then RecomputeNumElements p (s\<lparr>buf := REP32 (a[d := store32 p sz])\<rparr>)
        else case upgrade of None \<Rightarrow> None | Some s' \<Rightarrow> RecomputeNumElements p s')"
      using guard by (simp add: set_dim_def upgrade_def Let_def)
    show ?thesis
    proof (cases "sz < kMaxRep32")
      case True
      have am: "a[d := store32 p sz] ! d = store32 p sz" using inv REP32 dm by simp
      have "rep_inv p m (REP32 (a[d := store32 p sz]))"
        using inv REP32 True store32_ok(2) [of p sz] v dm by (auto simp: nth_list_update)
      moreover have "rep_dims p m (REP32 (a[d := store32 p sz])) = ds[d := sz]"
      proof (rule upd)
        show "rep_dim p (REP32 (a[d := store32 p sz])) d = sz"
          unfolding rep_dim.simps am by (rule store32_ok(1) [OF v True])
      qed (simp add: REP32)
      ultimately show ?thesis unfolding r using True direct by simp
    qed (use r upgrade in simp)
  next
    case (REP_OUT_OF_LINE a)
    then have r: "set_dim p s d sz = RecomputeNumElements p (s\<lparr>buf := REP_OUT_OF_LINE (a[d := sz])\<rparr>)"
      using guard by (simp add: set_dim_def Let_def)
    have "rep_inv p m (REP_OUT_OF_LINE (a[d := sz]))"
      using inv REP_OUT_OF_LINE v set_update_subset_insert [of a d sz] by auto
    moreover have "rep_dims p m (REP_OUT_OF_LINE (a[d := sz])) = ds[d := sz]"
      using inv dm REP_OUT_OF_LINE by (intro upd) simp_all
    ultimately show ?thesis unfolding r using direct by simp
  qed
qed

section \<open>Validation, merging and error-reporting construction\<close>

lemma IsValid_loop_ok:
  assumes "list_ok p ds" and "\<forall>d \<in> set es. int64 d" and "length (ds @ es) \<le> MaxDimensions"
  shows "IsValid_loop p es (elems ds) = Some (list_ok p (ds @ es))"
  using assms
proof (induction es arbitrary: ds)
  case (Cons e es)
  have rest: "\<not> list_ok p (ds @ e # es)" if "\<not> list_ok p (ds @ [e])"
    using list_ok_append [of p "ds @ [e]" es] that by auto
  have len: "length ds < MaxDimensions" using Cons.prems by simp
  have e64: "e < 2 ^ 63" using Cons.prems by (simp add: int64_def)
  have IH: "list_ok p (ds @ [e]) \<Longrightarrow> IsValid_loop p es (elems (ds @ [e])) = Some (list_ok p (ds @ e # es))"
    using Cons.IH [of "ds @ [e]"] Cons.prems by simp
  consider "e < (if p then -1 else 0)" | "p" "e = -1" | "0 \<le> e" "elems ds < 0" | "0 \<le> e" "0 \<le> elems ds"
    by (cases p) force+
  then show ?case
  proof cases
    case 1
    then have "\<not> list_ok p (ds @ [e])" by (auto simp: list_ok_snoc valid_dim_def split: if_splits)
    then show ?thesis using 1 rest by simp
  next
    case 2
    then have "elems (ds @ [e]) = -1" "list_ok p (ds @ [e])"
      using Cons.prems len by (simp_all add: elems_snoc list_ok_snoc valid_dim_def)
    then show ?thesis using IH 2 by simp
  next
    case 3
    then have p: p using Cons.prems(1) elems_neg [of ds] by (auto simp: list_ok_def list_all_iff valid_dim_def)
    have "elems ds = -1" using 3 elems_neg [of ds] by (simp add: elems_def)
    then have "elems (ds @ [e]) = elems ds" "list_ok p (ds @ [e])"
      using 3 Cons.prems len e64 by (simp_all add: elems_snoc list_ok_snoc valid_dim_def)
    then show ?thesis using IH 3 p by simp
  next
    case 4
    obtain r where r: "MultiplyWithoutOverflow (elems ds) e = Some r"
        "if elems ds * e < 2 ^ 63 then r = elems ds * e else r < 0"
      using MultiplyWithoutOverflow_nonneg [of "elems ds" e] 4 e64 list_ok_elems [OF Cons.prems(1)] by auto
    have el: "elems (ds @ [e]) = elems ds * e" using 4 by (simp add: elems_snoc)
    have nn: "0 \<le> elems ds * e" using 4 by simp
    show ?thesis
    proof (cases "elems ds * e < 2 ^ 63")
      case True
      then have "list_ok p (ds @ [e])" using Cons.prems el len e64 4 by (simp add: list_ok_snoc valid_dim_def)
      then show ?thesis using IH r True el nn 4 by (simp add: not_less [symmetric])
    next
      case False
      then have "\<not> list_ok p (ds @ [e])" using el by (simp add: list_ok_snoc)
      then show ?thesis using rest r False 4 by auto
    qed
  qed
qed simp

lemma IsValid_known:
  assumes "\<forall>d \<in> set (proto_dim proto). int64 d" and "\<not> (p \<and> proto_unknown_rank proto)"
  shows "IsValid p proto = Some (list_ok p (proto_dim proto))"
proof (cases "length (proto_dim proto) > MaxDimensions")
  case True
  then show ?thesis using assms(2) by (auto simp: IsValid_def list_ok_def)
next
  case False
  then show ?thesis using IsValid_loop_ok [of p "[]" "proto_dim proto"] assms by (auto simp: IsValid_def)
qed

lemma IsValidShape_loop_iff:
  "map_option status_ok (IsValidShape_loop p es n) = IsValid_loop p es n"
  by (induction p es n rule: IsValid_loop.induct) (auto split: option.split)

lemma MakeShape_loop_ok:
  assumes "shape_is p s ds dt" and "\<forall>d \<in> set es. int64 d" and "length (ds @ es) \<le> MaxDimensions"
  shows "\<exists>st s'. MakeShape_loop p es s = Some (st, s') \<and>
    (if list_ok p (ds @ es) then st = OK \<and> shape_is p s' (ds @ es) dt
     else \<exists>m. st = Error INVALID_ARGUMENT m)"
  using assms
proof (induction es arbitrary: ds s)
  case Nil
  then show ?case by (auto simp: shape_isD)
next
  case (Cons e es)
  note D = shape_isD [OF Cons.prems(1)]
  have rest: "\<not> list_ok p (ds @ e # es)" if "\<not> list_ok p (ds @ [e])"
    using list_ok_append [of p "ds @ [e]" es] that by auto
  have len: "length ds < MaxDimensions" using Cons.prems by simp
  have e64: "e < 2 ^ 63" using Cons.prems by (simp add: int64_def)
  have inv: "rep_inv p (unat (ndims_byte s)) (buf s)" "shape_list p s = ds" "data_type s = dt"
    using Cons.prems(1) by (simp_all add: shape_is_def shape_inv_def)
  have IH: "\<exists>st s''. MakeShape_loop p es s' = Some (st, s'') \<and>
    (if list_ok p (ds @ e # es) then st = OK \<and> shape_is p s'' (ds @ e # es) dt
     else \<exists>m. st = Error INVALID_ARGUMENT m)" if "shape_is p s' (ds @ [e]) dt" for s'
    using Cons.IH [OF that] Cons.prems by (cases "list_ok p (ds @ e # es)") auto
  have add: "\<exists>s'. UnsafeAddDim p s e (elems (ds @ [e])) = Some s' \<and> shape_is p s' (ds @ [e]) dt"
    if "list_ok p (ds @ [e])"
    using UnsafeAddDim_ok [OF inv(1) D(3), of e "elems (ds @ [e])"] len D(7) that inv
    by (auto simp: list_ok_snoc shape_is_def shape_inv_def)
  consider "e < (if p then -1 else 0)" | "p" "e = -1" | "0 \<le> e" "elems ds < 0" | "0 \<le> e" "0 \<le> elems ds"
    by (cases p) force+
  then show ?case
  proof cases
    case 1
    then have "\<not> list_ok p (ds @ [e])" by (auto simp: list_ok_snoc valid_dim_def split: if_splits)
    then show ?thesis using 1 rest by (auto split: if_splits)
  next
    case 2
    then have "elems (ds @ [e]) = -1" "list_ok p (ds @ [e])"
      using D(5) len by (simp_all add: elems_snoc list_ok_snoc valid_dim_def)
    then obtain s' where "UnsafeAddDim p s e (-1) = Some s'" "shape_is p s' (ds @ [e]) dt" using add by auto
    then show ?thesis using IH [of s'] 2 by (simp add: Let_def split del: if_split)
  next
    case 3
    have "elems ds = -1" using 3 elems_neg [of ds] by (simp add: elems_def)
    then have "elems (ds @ [e]) = -1" "list_ok p (ds @ [e])"
      using 3 D(5) len e64 by (simp_all add: elems_snoc list_ok_snoc valid_dim_def)
    then obtain s' where "UnsafeAddDim p s e (-1) = Some s'" "shape_is p s' (ds @ [e]) dt" using add by auto
    then show ?thesis using IH [of s'] 3 D(6) by (simp add: Let_def split del: if_split)
  next
    case 4
    obtain r where r: "MultiplyWithoutOverflow (elems ds) e = Some r"
        "if elems ds * e < 2 ^ 63 then r = elems ds * e else r < 0"
      using MultiplyWithoutOverflow_nonneg [of "elems ds" e] 4 e64 list_ok_elems [OF D(5)] by auto
    have el: "elems (ds @ [e]) = elems ds * e" using 4 by (simp add: elems_snoc)
    have nn: "0 \<le> elems ds * e" using 4 by simp
    show ?thesis
    proof (cases "elems ds * e < 2 ^ 63")
      case True
      then have "list_ok p (ds @ [e])" using D(5) el len e64 4 by (simp add: list_ok_snoc valid_dim_def)
      then obtain s' where "UnsafeAddDim p s e (elems ds * e) = Some s'" "shape_is p s' (ds @ [e]) dt"
        using add el by auto
      moreover have "\<not> elems ds * e < 0" "r = elems ds * e" using nn r True by simp_all
      ultimately show ?thesis using IH [of s'] r(1) 4 D(6) by (simp add: Let_def split del: if_split)
    next
      case False
      then have "\<not> list_ok p (ds @ [e])" using el by (simp add: list_ok_snoc)
      then show ?thesis using rest r False 4 D(6) by (auto simp: Let_def)
    qed
  qed
qed

definition merge_dims :: "int list \<Rightarrow> int list \<Rightarrow> int list" where
  "merge_dims ds es = map (\<lambda>(a, b). if a \<ge> 0 then a else b) (zip ds es)"

lemma shape_is_dim_size: "shape_is p s ds dt \<Longrightarrow> i < length ds \<Longrightarrow> dim_size p s i = ds ! i"
  using shape_isD(3) [of p s ds dt]
  by (auto simp: shape_is_def shape_inv_def shape_list_def rep_dims_def dim_size_def)

lemma shape_is_map: "shape_is p s ds dt \<Longrightarrow> map (dim_size p s) [0..<length ds] = ds"
  by (intro nth_equalityI) (simp_all add: shape_is_dim_size)

lemma IsCompatibleWith_iff:
  assumes "shape_is True s ds dt" and "shape_is True b es dt'"
  shows "IsCompatibleWith s b \<longleftrightarrow> length ds = length es \<and> list_all2 dims_agree ds es"
  using assms shape_isD(2,3) [OF assms(1)] shape_isD(2,3) [OF assms(2)]
  by (auto simp: IsCompatibleWith_def list_all_iff list_all2_conv_all_nth shape_is_dim_size
      simp del: of_nat_eq_iff)

lemma MergeWith_loop_ok:
  assumes "shape_is True r xs dt" and "\<forall>(a, b) \<in> set ps. -1 \<le> a \<and> a < 2 ^ 63 \<and> -1 \<le> b \<and> b < 2 ^ 63"
  shows "case MergeWith_loop ps r of
      None \<Rightarrow> \<not> list_ok True (xs @ map (\<lambda>(a, b). if a \<ge> 0 then a else b) ps)
    | Some (OK, r') \<Rightarrow> list_all (\<lambda>(a, b). dims_agree a b) ps \<and>
        shape_is True r' (xs @ map (\<lambda>(a, b). if a \<ge> 0 then a else b) ps) dt
    | Some (Error c m, r') \<Rightarrow> c = INVALID_ARGUMENT \<and> \<not> list_all (\<lambda>(a, b). dims_agree a b) ps"
  using assms
proof (induction ps arbitrary: r xs)
  case Nil
  then show ?case by simp
next
  case (Cons q ps)
  obtain a b where q: "q = (a, b)" by (cases q)
  let ?d = "if a \<ge> 0 then a else b"
  show ?case
  proof (cases "dims_agree a b")
    case False
    then show ?thesis by (simp add: q dims_agree_def)
  next
    case True
    have d: "-1 \<le> ?d" "?d < 2 ^ 63" using Cons.prems(2) by (auto simp: q)
    note add = AddDim_ok [OF Cons.prems(1) d]
    show ?thesis
    proof (cases "list_ok True (xs @ [?d])")
      case ok: True
      then obtain r' where r': "AddDim True r ?d = Some r'" "shape_is True r' (xs @ [?d]) dt" using add by auto
      have "MergeWith_loop (q # ps) r = MergeWith_loop ps r'"
        using True r'(1) by (auto simp: q dims_agree_def)
      then show ?thesis using Cons.IH [OF r'(2)] Cons.prems(2) True
        by (simp add: q split: option.splits prod.splits status.splits split del: if_split)
    next
      case no: False
      then have "AddDim True r ?d = None" using add by auto
      then have "MergeWith_loop (q # ps) r = None" using True by (auto simp: q dims_agree_def)
      moreover have "\<not> list_ok True (xs @ ?d # map (\<lambda>(a, b). if a \<ge> 0 then a else b) ps)"
        using no list_ok_append [of True "xs @ [?d]"] by auto
      ultimately show ?thesis by (simp add: q)
    qed
  qed
qed

lemma Clear_ok: "shape_is p (Clear s) [] 0"
  by (simp add: shape_is_def shape_inv_def Clear_def ClearAllButDataType_def shape_list_def rep_dims_def)

lemma NumElements_loop_ok:
  assumes "\<forall>d \<in> set ds. 0 \<le> d \<and> d < 2 ^ 63" and "0 \<le> n" "n < 2 ^ 63"
  shows "NumElements_loop ds n =
    Some (if \<forall>k \<le> length ds. n * prod_list (take k ds) < 2 ^ 63 then Inr (n * prod_list ds) else Inl INVALID_ARGUMENT)"
  using assms
proof (induction ds arbitrary: n)
  case (Cons d ds)
  obtain r where r: "MultiplyWithoutOverflow n d = Some r" "if n * d < 2 ^ 63 then r = n * d else r < 0"
    using MultiplyWithoutOverflow_nonneg [of n d] Cons.prems by auto
  have nn: "0 \<le> n * d" using Cons.prems by simp
  have all: "(\<forall>k \<le> length (d # ds). n * prod_list (take k (d # ds)) < 2 ^ 63) \<longleftrightarrow>
      (\<forall>k \<le> length ds. (n * d) * prod_list (take k ds) < 2 ^ 63)"
  proof safe
    fix k assume "\<forall>k \<le> length (d # ds). n * prod_list (take k (d # ds)) < 2 ^ 63" "k \<le> length ds"
    then have "n * prod_list (take (Suc k) (d # ds)) < 2 ^ 63" by (simp del: take_Suc_Cons)
    then show "(n * d) * prod_list (take k ds) < 2 ^ 63" by (simp add: mult.assoc)
  next
    fix k assume a: "\<forall>k \<le> length ds. (n * d) * prod_list (take k ds) < 2 ^ 63" "k \<le> length (d # ds)"
    then show "n * prod_list (take k (d # ds)) < 2 ^ 63"
      using Cons.prems by (cases k) (auto simp: mult.assoc)
  qed
  show ?case
  proof (cases "n * d < 2 ^ 63")
    case True
    have "NumElements_loop (d # ds) n = NumElements_loop ds (n * d)" using r True nn by simp
    then show ?thesis unfolding all using Cons.IH [of "n * d"] Cons.prems True nn by (simp add: mult.assoc)
  next
    case False
    then have "\<not> (\<forall>k \<le> length (d # ds). n * prod_list (take k (d # ds)) < 2 ^ 63)"
      unfolding all by (auto intro!: exI [of _ 0])
    then show ?thesis using r False by simp
  qed
qed simp

section \<open>Properties\<close>

text \<open>
  The outcome of an update: a well-formed shape with exactly the given dimensions when they
  are acceptable (at most 254, no negative one except the unknown of a partial shape, every
  prefix product within int64), and the abort of a failed check otherwise.
\<close>

definition outcome :: "bool \<Rightarrow> shape option \<Rightarrow> int list \<Rightarrow> byte \<Rightarrow> bool" where
  "outcome p r ds dt \<longleftrightarrow>
     (case r of Some s \<Rightarrow> list_ok p ds \<and> shape_is p s ds dt | None \<Rightarrow> \<not> list_ok p ds)"

lemma outcomeI:
  "(if list_ok p ds then \<exists>s. r = Some s \<and> shape_is p s ds dt else r = None) \<Longrightarrow> outcome p r ds dt"
  by (auto simp: outcome_def split: if_splits)

text \<open>
  Building a shape from sizes gives back exactly those sizes, whichever of the three
  representations was chosen, with their number and their product; it aborts exactly when the
  sizes are unacceptable.
\<close>

theorem shape_construction:
  assumes "\<forall>d \<in> set ds. -1 \<le> d \<and> d < 2 ^ 63"
  shows "case TensorShape_of_sizes p ds of
      None \<Rightarrow> \<not> list_ok p ds
    | Some s \<Rightarrow> list_ok p ds \<and> dim_sizes p s = Some ds \<and> dims p s = int (length ds) \<and>
        num_elements s = elems ds \<and> IsFullyDefined p s = list_all (\<lambda>d. 0 \<le> d) ds"
proof (cases "list_ok p ds")
  case True
  then obtain s where s: "TensorShape_of_sizes p ds = Some s" "shape_is p s ds 0"
    using TensorShape_of_sizes_ok [OF assms, of p] by auto
  note D = shape_isD [OF s(2)]
  have "IsFullyDefined p s = list_all (\<lambda>d. 0 \<le> d) ds"
  proof -
    have "elems ds \<noteq> -1 \<longleftrightarrow> (\<forall>d \<in> set ds. 0 \<le> d)"
      using elems_neg [of ds] by (force simp: elems_def)
    moreover have "\<forall>d \<in> set ds. 0 \<le> d" if "\<not> p"
      using True that by (auto simp: list_ok_def list_all_iff valid_dim_def)
    ultimately show ?thesis using D(6) by (auto simp: IsFullyDefined_def list_all_iff)
  qed
  then show ?thesis using s(1) True D(1) [of "[]"] D(2,6) by (simp add: dim_sizes_def)
next
  case False
  then show ?thesis using TensorShape_of_sizes_ok [OF assms, of p] by simp
qed

theorem shape_construction_witness:
  "case TensorShape_of_sizes True [70000, -1, 3, 5] of
      None \<Rightarrow> \<not> list_ok True [70000, -1, 3, 5]
    | Some s \<Rightarrow> list_ok True [70000, -1, 3, 5] \<and> dim_sizes True s = Some [70000, -1, 3, 5] \<and>
        dims True s = int (length [70000, -1, 3, 5 :: int]) \<and>
        num_elements s = elems [70000, -1, 3, 5] \<and>
        IsFullyDefined True s = list_all (\<lambda>d. 0 \<le> d) [70000, -1, 3, 5 :: int]"
  by (rule shape_construction) simp

text \<open>
  AddDim, InsertDim, RemoveDim and set_dim act on the list of dimensions as appending,
  inserting, deleting and replacing an element, keep the invariant across changes of
  representation, recompute the number of elements, keep the data type, and abort exactly
  when the resulting list is unacceptable.
\<close>

theorem shape_updates_refine:
  assumes "shape_is p s ds dt" and "0 \<le> sz" "sz < 2 ^ 63" and "d < length ds"
  shows "outcome p (AddDim p s sz) (ds @ [sz]) dt \<and>
    outcome p (InsertDim p s d sz) (take d ds @ sz # drop d ds) dt \<and>
    outcome p (RemoveDim p s d) (take d ds @ drop (Suc d) ds) dt \<and>
    outcome p (set_dim p s d sz) (ds[d := sz]) dt"
  using AddDim_ok [OF assms(1), of sz] InsertDim_ok [OF assms(1), of sz d]
    RemoveDim_ok [OF assms(1,4)] set_dim_ok [OF assms] assms(2-4)
  by (intro conjI outcomeI) simp_all

theorem shape_updates_refine_witness:
  "let s = \<lparr>buf = REP16 [2, 3, 65535, 0, 0, 0], ndims_byte = 3, num_elements = -1, data_type = 1\<rparr> in
    outcome True (AddDim True s 70000) [2, 3, -1, 70000] 1 \<and>
    outcome True (InsertDim True s 1 70000) [2, 70000, 3, -1] 1 \<and>
    outcome True (RemoveDim True s 1) [2, -1] 1 \<and>
    outcome True (set_dim True s 1 70000) [2, 70000, -1] 1"
proof -
  have "shape_is True \<lparr>buf = REP16 [2, 3, 65535, 0, 0, 0], ndims_byte = 3, num_elements = -1, data_type = 1\<rparr>
     [2, 3, -1] 1"
    by code_simp
  from shape_updates_refine [OF this, of 70000 1] show ?thesis by (simp add: Let_def)
qed

text \<open>
  A serialised shape passes IsValid exactly when constructing a shape from it does not
  abort (for a partial shape of unknown rank, when it has no dimensions), and IsValidShape
  returns OK in exactly the same cases.
\<close>

theorem IsValid_iff_constructible:
  assumes "\<forall>d \<in> set (proto_dim proto). -1 \<le> d \<and> d < 2 ^ 63"
  shows "IsValid p proto = Some
      (if p \<and> proto_unknown_rank proto then proto_dim proto = [] else TensorShape_of_proto p proto \<noteq> None) \<and>
    map_option status_ok (IsValidShape p proto) = IsValid p proto"
proof -
  have i: "\<forall>d \<in> set (proto_dim proto). int64 d" using assms by (force simp: int64_def)
  have "IsValid p proto = Some
      (if p \<and> proto_unknown_rank proto then proto_dim proto = [] else TensorShape_of_proto p proto \<noteq> None)"
  proof (cases "p \<and> proto_unknown_rank proto")
    case True
    then show ?thesis by (simp add: IsValid_def)
  next
    case False
    then show ?thesis using IsValid_known [OF i False] TensorShape_of_sizes_ok [OF assms, of p]
      by (auto simp: TensorShape_of_proto_def split: if_splits)
  qed
  moreover have "map_option status_ok (IsValidShape p proto) = IsValid p proto"
    by (simp add: IsValid_def IsValidShape_def IsValidShape_loop_iff)
  ultimately show ?thesis ..
qed

theorem IsValid_iff_constructible_witness:
  "IsValid False \<lparr>proto_unknown_rank = False, proto_dim = [2 ^ 32, 2 ^ 31]\<rparr> = Some
      (TensorShape_of_proto False \<lparr>proto_unknown_rank = False, proto_dim = [2 ^ 32, 2 ^ 31]\<rparr> \<noteq> None)"
  using IsValid_iff_constructible [of "\<lparr>proto_unknown_rank = False, proto_dim = [2 ^ 32, 2 ^ 31]\<rparr>" False]
  by simp

text \<open>
  MakeShape never aborts: for any int64 sizes it returns OK with the shape of exactly
  those sizes when they are acceptable, and an invalid-argument status otherwise.
\<close>

theorem MakeShape_total:
  assumes "\<forall>d \<in> set ds. int64 d"
  shows "\<exists>st s. MakeShapeHelper p ds out = Some (st, s) \<and>
    (if list_ok p ds then st = OK \<and> shape_is p s ds 0 else \<exists>m. st = Error INVALID_ARGUMENT m)"
proof (cases "length ds > MaxDimensions")
  case True
  then show ?thesis by (simp add: MakeShapeHelper_def list_ok_def)
next
  case False
  then show ?thesis using MakeShape_loop_ok [OF Clear_ok assms, of p out, unfolded append_Nil] by (simp add: MakeShapeHelper_def)
qed

theorem MakeShape_total_witness:
  "\<exists>st s. MakeShapeHelper False [4294967296, 4294967296] (TensorShapeBase False) = Some (st, s) \<and>
    (if list_ok False [4294967296, 4294967296] then st = OK \<and> shape_is False s [4294967296, 4294967296] 0
     else \<exists>m. st = Error INVALID_ARGUMENT m)"
  by (rule MakeShape_total) (simp add: int64_def)


definition unknown_then :: "int \<Rightarrow> shape" where
  "unknown_then d = \<lparr>buf = REP_OUT_OF_LINE [-1, d], ndims_byte = 2, num_elements = -1, data_type = 0\<rparr>"

definition then_unknown :: "int \<Rightarrow> shape" where
  "then_unknown d = \<lparr>buf = REP_OUT_OF_LINE [d, -1], ndims_byte = 2, num_elements = -1, data_type = 0\<rparr>"


end
