(* ===== verification/TF_Strings.thy ===== *)
theory TF_Strings
  imports TF_Prelude "HOL-Library.Signed_Division"
begin

text \<open>
  Text: integers printed and parsed as in \<^verbatim>\<open>lib/strings/numbers.cc\<close>, and the escaping,
  splitting, joining and prefix-consuming helpers of \<^verbatim>\<open>lib/strings/str_util.{h,cc}\<close>.
  Text is a \<open>string\<close>; \<open>ord\<close> is the value of a character, in the ASCII range the
  same for signed and unsigned \<^verbatim>\<open>char\<close>. Functions that advance a
  \<^verbatim>\<open>StringPiece*\<close> return the rest; \<^verbatim>\<open>false\<close> is \<open>None\<close>.
\<close>

section \<open>Character classes of the C locale\<close>

definition ord :: "char \<Rightarrow> nat" where "ord c = of_char c"

definition isspace :: "char \<Rightarrow> bool" where
  "isspace c \<longleftrightarrow> ord c = 32 \<or> 9 \<le> ord c \<and> ord c \<le> 13"

definition isdigit :: "char \<Rightarrow> bool" where
  "isdigit c \<longleftrightarrow> 48 \<le> ord c \<and> ord c \<le> 57"

definition isprint :: "char \<Rightarrow> bool" where
  "isprint c \<longleftrightarrow> 32 \<le> ord c \<and> ord c \<le> 126"

definition digit :: "char \<Rightarrow> nat" where "digit c = ord c - 48"

section \<open>Printing integers\<close>

text \<open>The digits in the order the loop stores them, before \<^verbatim>\<open>std::reverse\<close>.\<close>

lemma word_div_10_less: "0 < (i :: 'a::len word) div 10 \<Longrightarrow> unat (i div 10) < unat i"
proof -
  assume pos: "0 < i div 10"
  have "unat (10 :: 'a word) \<noteq> 1"
  proof
    assume "unat (10 :: 'a word) = 1"
    moreover have "even (unat (10 :: 'a word))"
      using even_take_bit_eq [of "LENGTH('a)" "10 :: nat"] len_gt_0 [where 'a='a]
      by (simp add: unsigned_numeral)
    ultimately show False by simp
  qed
  moreover have "unat (i div 10) = unat i div unat (10 :: 'a word)" by (simp add: unat_div_distrib)
  moreover have "0 < unat (i div 10)" using pos by (simp add: unat_gt_0)
  ultimately show ?thesis
    by (metis div_by_0 div_less_dividend div_0 gr0I less_one linorder_neqE_nat)
qed

function digits_loop :: "'a::len word \<Rightarrow> string" where
  "digits_loop i =
     (let c = char_of (unat (i mod 10) + 48); i' = i div 10
      in if i' > 0 then c # digits_loop i' else [c])"
  by pat_completeness auto
termination by (relation "measure unat") (auto simp: word_div_10_less)

declare digits_loop.simps [simp del]

definition FastUInt32ToBufferLeft :: "uint32 \<Rightarrow> string" where
  "FastUInt32ToBufferLeft i = rev (digits_loop i)"

definition FastInt32ToBufferLeft :: "uint32 \<Rightarrow> string" where
  "FastInt32ToBufferLeft i =
     (if i <s 0 then CHR ''-'' # FastUInt32ToBufferLeft (0 - i) else FastUInt32ToBufferLeft i)"

definition FastUInt64ToBufferLeft :: "uint64 \<Rightarrow> string" where
  "FastUInt64ToBufferLeft i = rev (digits_loop i)"

definition FastInt64ToBufferLeft :: "uint64 \<Rightarrow> string" where
  "FastInt64ToBufferLeft i =
     (if i <s 0 then CHR ''-'' # FastUInt64ToBufferLeft (0 - i) else FastUInt64ToBufferLeft i)"

section \<open>Parsing integers\<close>

definition SafeFirstChar :: "string \<Rightarrow> char" where
  "SafeFirstChar str = (if str = [] then CHR 0x00 else str ! 0)"

fun SkipSpaces :: "string \<Rightarrow> string" where
  "SkipSpaces [] = []"
| "SkipSpaces (c # str) = (if isspace c then SkipSpaces str else c # str)"

definition Consume :: "string \<Rightarrow> string \<Rightarrow> string option" where
  "Consume str x = (if take (length x) str = x then Some (drop (length x) str) else None)"

text \<open>
  The digit loops: the accumulated value and the rest of the text, or \<open>None\<close> when the
  next digit does not fit. Divisions truncate, as in C.
\<close>

fun strto64_pos :: "int \<Rightarrow> int \<Rightarrow> string \<Rightarrow> (int \<times> string) option" where
  "strto64_pos vlimit result [] = Some (result, [])"
| "strto64_pos vlimit result (c # str) =
     (if isdigit c then
        if (vlimit - int (digit c)) sdiv 10 < result then None
        else strto64_pos vlimit (result * 10 + int (digit c)) str
      else Some (result, c # str))"

fun strto64_neg :: "int \<Rightarrow> int \<Rightarrow> string \<Rightarrow> (int \<times> string) option" where
  "strto64_neg vlimit result [] = Some (result, [])"
| "strto64_neg vlimit result (c # str) =
     (if isdigit c then
        if (vlimit + int (digit c)) sdiv 10 > result then None
        else strto64_neg vlimit (result * 10 - int (digit c)) str
      else Some (result, c # str))"

definition safe_strto64 :: "string \<Rightarrow> int option" where
  "safe_strto64 str =
     (let str = SkipSpaces str;
          (sign, vlimit, str) = (case Consume str ''-'' of
             Some str' \<Rightarrow> (-1 :: int, - (2 ^ 63), str')
           | None \<Rightarrow> (1, 2 ^ 63 - 1, str))
      in if \<not> isdigit (SafeFirstChar str) then None
         else case (if sign = 1 then strto64_pos vlimit 0 str else strto64_neg vlimit 0 str) of
           None \<Rightarrow> None
         | Some (result, str) \<Rightarrow> if SkipSpaces str \<noteq> [] then None else Some result)"

text \<open>
  \<^verbatim>\<open>safe_strtou64\<close> accumulates in an \<^verbatim>\<open>int64\<close> which the comparison
  converts back to unsigned: the multiplication is on 64-bit two's complement here.
\<close>

fun strtou64_loop :: "uint64 \<Rightarrow> string \<Rightarrow> (uint64 \<times> string) option" where
  "strtou64_loop result [] = Some (result, [])"
| "strtou64_loop result (c # str) =
     (if isdigit c then
        if (- 1 - word_of_nat (digit c)) div 10 < result then None
        else strtou64_loop (result * 10 + word_of_nat (digit c)) str
      else Some (result, c # str))"

definition safe_strtou64 :: "string \<Rightarrow> uint64 option" where
  "safe_strtou64 str =
     (let str = SkipSpaces str in
      if \<not> isdigit (SafeFirstChar str) then None
      else case strtou64_loop 0 str of
        None \<Rightarrow> None
      | Some (result, str) \<Rightarrow> if SkipSpaces str \<noteq> [] then None else Some result)"

fun strto32_loop :: "int \<Rightarrow> int \<Rightarrow> string \<Rightarrow> (int \<times> string) option" where
  "strto32_loop vmax result [] = Some (result, [])"
| "strto32_loop vmax result (c # str) =
     (if isdigit c then
        let result = result * 10 + int (ord c) - 48
        in if result > vmax then None else strto32_loop vmax result str
      else Some (result, c # str))"

definition safe_strto32 :: "string \<Rightarrow> int option" where
  "safe_strto32 str =
     (let str = SkipSpaces str;
          (sign, vmax, str) = (case Consume str ''-'' of
             Some str' \<Rightarrow> (-1 :: int, 2 ^ 31 - 1 + 1, str')
           | None \<Rightarrow> (1, 2 ^ 31 - 1, str))
      in if \<not> isdigit (SafeFirstChar str) then None
         else case strto32_loop vmax 0 str of
           None \<Rightarrow> None
         | Some (result, str) \<Rightarrow> if SkipSpaces str \<noteq> [] then None else Some (result * sign))"

definition safe_strtou32 :: "string \<Rightarrow> int option" where
  "safe_strtou32 str =
     (let str = SkipSpaces str in
      if \<not> isdigit (SafeFirstChar str) then None
      else case strto32_loop (2 ^ 32 - 1) 0 str of
        None \<Rightarrow> None
      | Some (result, str) \<Rightarrow> if SkipSpaces str \<noteq> [] then None else Some result)"

section \<open>Hexadecimal\<close>

definition hexdigits :: string where "hexdigits = ''0123456789abcdef''"

fun hex_loop :: "nat \<Rightarrow> uint64 \<Rightarrow> string \<Rightarrow> string" where
  "hex_loop 0 v buf = buf"
| "hex_loop (Suc i) v buf = hex_loop i (drop_bit 4 v) (hexdigits ! unat (v AND 0xf) # buf)"

definition Uint64ToHexString :: "uint64 \<Rightarrow> string" where
  "Uint64ToHexString v = hex_loop 16 v []"

fun unhex_loop :: "string \<Rightarrow> uint64 \<Rightarrow> uint64 option" where
  "unhex_loop [] v = Some v"
| "unhex_loop (c # s) v =
     (if 48 \<le> ord c \<and> ord c \<le> 57 then unhex_loop s (push_bit 4 v + word_of_nat (ord c - 48))
      else if 97 \<le> ord c \<and> ord c \<le> 102 then unhex_loop s (push_bit 4 v + 10 + word_of_nat (ord c - 97))
      else if 65 \<le> ord c \<and> ord c \<le> 70 then unhex_loop s (push_bit 4 v + 10 + word_of_nat (ord c - 65))
      else None)"

definition HexStringToUint64 :: "string \<Rightarrow> uint64 option" where
  "HexStringToUint64 s = (if s = [] then None else unhex_loop s 0)"

section \<open>Escaping\<close>

definition hex_char :: string where "hex_char = ''0123456789abcdef''"

definition CEscape_char :: "char \<Rightarrow> string" where
  "CEscape_char c =
     (if c = CHR 0x0A then [CHR 0x5C, CHR ''n'']
      else if c = CHR 0x0D then [CHR 0x5C, CHR ''r'']
      else if c = CHR 0x09 then [CHR 0x5C, CHR ''t'']
      else if c = CHR 0x22 then [CHR 0x5C, CHR 0x22]
      else if c = CHR 0x27 then [CHR 0x5C, CHR 0x27]
      else if c = CHR 0x5C then [CHR 0x5C, CHR 0x5C]
      else if ord c \<ge> 0x80 \<or> \<not> isprint c
      then [CHR 0x5C, hex_char ! (ord c div 64), hex_char ! (ord c mod 64 div 8), hex_char ! (ord c mod 8)]
      else [c])"

fun CEscape :: "string \<Rightarrow> string" where
  "CEscape [] = []"
| "CEscape (c # src) = CEscape_char c @ CEscape src"

definition is_octal_digit :: "char \<Rightarrow> bool" where
  "is_octal_digit c \<longleftrightarrow> 48 \<le> ord c \<and> ord c \<le> 55"

definition ascii_isxdigit :: "char \<Rightarrow> bool" where
  "ascii_isxdigit c \<longleftrightarrow>
     48 \<le> ord c \<and> ord c \<le> 57 \<or> 97 \<le> ord c \<and> ord c \<le> 102 \<or> 65 \<le> ord c \<and> ord c \<le> 70"

definition hex_digit_to_int :: "char \<Rightarrow> nat" where
  "hex_digit_to_int c = (let x = ord c; x = (if x > 57 then x + 9 else x) in x mod 16)"

text \<open>
  One escape sequence after its backslash: the character it stands for and the rest of the
  source, or the error message (shortened). Octal escapes have one to three digits,
  hexadecimal ones arbitrarily many, shifted into an \<^verbatim>\<open>unsigned int\<close>.
\<close>

fun hex_run :: "uint32 \<Rightarrow> string \<Rightarrow> uint32 \<times> string" where
  "hex_run ch [] = (ch, [])"
| "hex_run ch (c # p) =
     (if ascii_isxdigit c then hex_run (push_bit 4 ch + word_of_nat (hex_digit_to_int c)) p
      else (ch, c # p))"

fun octal_run :: "nat \<Rightarrow> nat \<Rightarrow> string \<Rightarrow> nat \<times> string" where
  "octal_run (Suc k) ch (c # p) =
     (if is_octal_digit c then octal_run k (ch * 8 + ord c - 48) p else (ch, c # p))"
| "octal_run k ch p = (ch, p)"

definition simple_escape :: "char \<Rightarrow> char option" where
  "simple_escape c = map_of
     [(CHR ''a'', CHR 0x07), (CHR ''b'', CHR 0x08), (CHR ''f'', CHR 0x0C), (CHR ''n'', CHR 0x0A),
      (CHR ''r'', CHR 0x0D), (CHR ''t'', CHR 0x09), (CHR ''v'', CHR 0x0B), (CHR 0x5C, CHR 0x5C),
      (CHR ''?'', CHR ''?''), (CHR 0x27, CHR 0x27), (CHR 0x22, CHR 0x22)] c"

fun unescape_one :: "string \<Rightarrow> string + char \<times> string" where
  "unescape_one [] = Inl ''String cannot end with backslash''"
| "unescape_one (c # p) =
     (case simple_escape c of
        Some d \<Rightarrow> Inr (d, p)
      | None \<Rightarrow>
          if is_octal_digit c then
            let (ch, p') = octal_run 2 (ord c - 48) p
            in if ch > 0xff then Inl ''exceeds 0xff'' else Inr (char_of ch, p')
          else if c = CHR ''x'' \<or> c = CHR ''X'' then
            if p = [] then Inl ''String cannot end with x''
            else if \<not> ascii_isxdigit (p ! 0) then Inl ''x cannot be followed by a non-hex digit''
            else let (ch, p') = hex_run 0 p
              in if ch > 0xff then Inl ''exceeds 0xff'' else Inr (char_of (unat ch), p')
          else Inl ''Unknown escape sequence'')"

lemma octal_run_length: "octal_run k ch p = (ch', p') \<Longrightarrow> length p' \<le> length p"
  by (induction k ch p rule: octal_run.induct) (auto split: if_splits)

lemma hex_run_length: "hex_run ch p = (ch', p') \<Longrightarrow> length p' \<le> length p"
  by (induction ch p rule: hex_run.induct) (auto split: if_splits)

lemma unescape_one_length: "unescape_one p = Inr (c, p') \<Longrightarrow> length p' < length p"
  by (cases p) (auto simp: Let_def less_Suc_eq_le split: option.splits if_splits prod.splits
      dest: octal_run_length hex_run_length)

function CUnescapeInternal :: "string \<Rightarrow> string \<Rightarrow> string + string" where
  "CUnescapeInternal [] d = Inr d"
| "CUnescapeInternal (c # p) d =
     (if c \<noteq> CHR 0x5C then CUnescapeInternal p (d @ [c])
      else case unescape_one p of
        Inl err \<Rightarrow> Inl err
      | Inr (e, p') \<Rightarrow> CUnescapeInternal p' (d @ [e]))"
  by pat_completeness auto
termination
  by (relation "measure (\<lambda>(p, d). length p)") (auto dest: unescape_one_length)

definition CUnescape :: "string \<Rightarrow> string + string" where
  "CUnescape source = CUnescapeInternal source []"

section \<open>Whitespace, case and prefixes\<close>

definition tolower :: "char \<Rightarrow> char" where
  "tolower c = (if 65 \<le> ord c \<and> ord c \<le> 90 then char_of (ord c + 32) else c)"

definition toupper :: "char \<Rightarrow> char" where
  "toupper c = (if 97 \<le> ord c \<and> ord c \<le> 122 then char_of (ord c - 32) else c)"

fun strip_trailing :: "string \<Rightarrow> nat \<Rightarrow> nat" where
  "strip_trailing s 0 = 0"
| "strip_trailing s (Suc i) = (if isspace (s ! i) then strip_trailing s i else Suc i)"

definition StripTrailingWhitespace :: "string \<Rightarrow> string" where
  "StripTrailingWhitespace s = take (strip_trailing s (length s)) s"

definition Lowercase :: "string \<Rightarrow> string" where
  "Lowercase s = map tolower s"

definition Uppercase :: "string \<Rightarrow> string" where
  "Uppercase s = map toupper s"

fun Titlecase_loop :: "bool \<Rightarrow> string \<Rightarrow> string \<Rightarrow> string" where
  "Titlecase_loop upper [] delimiters = []"
| "Titlecase_loop upper (c # s) delimiters =
     (let c = (if upper then toupper c else c)
      in c # Titlecase_loop (c \<in> set delimiters) s delimiters)"

definition TitlecaseString :: "string \<Rightarrow> string \<Rightarrow> string" where
  "TitlecaseString s delimiters = Titlecase_loop True s delimiters"

text \<open>The number of characters removed and the remaining piece.\<close>

fun leading_spaces :: "string \<Rightarrow> nat" where
  "leading_spaces [] = 0"
| "leading_spaces (c # s) = (if isspace c then Suc (leading_spaces s) else 0)"

definition RemoveLeadingWhitespace :: "string \<Rightarrow> nat \<times> string" where
  "RemoveLeadingWhitespace s = (let count = leading_spaces s in (count, drop count s))"

definition RemoveTrailingWhitespace :: "string \<Rightarrow> nat \<times> string" where
  "RemoveTrailingWhitespace s =
     (let count = leading_spaces (rev s) in (count, take (length s - count) s))"

definition RemoveWhitespaceContext :: "string \<Rightarrow> nat \<times> string" where
  "RemoveWhitespaceContext s =
     (let (m, s) = RemoveLeadingWhitespace s; (n, s) = RemoveTrailingWhitespace s in (m + n, s))"

definition ConsumePrefix :: "string \<Rightarrow> string \<Rightarrow> string option" where
  "ConsumePrefix s expected =
     (if take (length expected) s = expected then Some (drop (length expected) s) else None)"

definition ConsumeSuffix :: "string \<Rightarrow> string \<Rightarrow> string option" where
  "ConsumeSuffix s expected =
     (if length expected \<le> length s \<and> drop (length s - length expected) s = expected
      then Some (take (length s - length expected) s) else None)"

text \<open>The scan returns the value, the digits read and the rest; overflow is \<open>None\<close>.\<close>

fun leading_digits :: "uint64 \<Rightarrow> nat \<Rightarrow> string \<Rightarrow> (uint64 \<times> nat \<times> string) option" where
  "leading_digits v n [] = Some (v, n, [])"
| "leading_digits v n (c # p) =
     (if ord c < 48 \<or> ord c > 57 then Some (v, n, c # p)
      else let new_v = v * 10 + word_of_nat (ord c - 48)
        in if new_v div 8 < v then None else leading_digits new_v (Suc n) p)"

definition ConsumeLeadingDigits :: "string \<Rightarrow> (uint64 \<times> string) option" where
  "ConsumeLeadingDigits s =
     (case leading_digits 0 0 s of
        None \<Rightarrow> None
      | Some (v, n, p) \<Rightarrow> if n > 0 then Some (v, p) else None)"

fun non_spaces :: "string \<Rightarrow> nat" where
  "non_spaces [] = 0"
| "non_spaces (c # s) = (if isspace c then 0 else Suc (non_spaces s))"

definition ConsumeNonWhitespace :: "string \<Rightarrow> bool \<times> string \<times> string" where
  "ConsumeNonWhitespace s =
     (let n = non_spaces s in if n > 0 then (True, take n s, drop n s) else (False, [], s))"

section \<open>Splitting and joining\<close>

definition AllowEmpty :: "string \<Rightarrow> bool" where "AllowEmpty sp = True"
definition SkipEmpty :: "string \<Rightarrow> bool" where "SkipEmpty sp = (sp \<noteq> [])"
definition SkipWhitespace :: "string \<Rightarrow> bool" where
  "SkipWhitespace sp = (snd (RemoveTrailingWhitespace sp) \<noteq> [])"

text \<open>The scan with the current token; its last token ends at the end of the text.\<close>

fun Split_loop :: "string \<Rightarrow> (string \<Rightarrow> bool) \<Rightarrow> string \<Rightarrow> string \<Rightarrow> string list" where
  "Split_loop delims p token [] = (if p token then [token] else [])"
| "Split_loop delims p token (c # cs) =
     (if c \<in> set delims
      then (if p token then [token] else []) @ Split_loop delims p [] cs
      else Split_loop delims p (token @ [c]) cs)"

definition Split :: "string \<Rightarrow> string \<Rightarrow> (string \<Rightarrow> bool) \<Rightarrow> string list" where
  "Split t delims p = (if t = [] then [] else Split_loop delims p [] t)"

fun Join_loop :: "bool \<Rightarrow> string \<Rightarrow> string list \<Rightarrow> string" where
  "Join_loop first sep [] = []"
| "Join_loop first sep (x # s) = (if first then [] else sep) @ x @ Join_loop False sep s"

definition Join :: "string list \<Rightarrow> string \<Rightarrow> string" where
  "Join s sep = Join_loop True sep s"

fun parse_all :: "(string \<Rightarrow> 'a option) \<Rightarrow> string list \<Rightarrow> 'a list \<Rightarrow> 'a list option" where
  "parse_all converter [] result = Some result"
| "parse_all converter (s # ss) result =
     (case converter s of None \<Rightarrow> None | Some num \<Rightarrow> parse_all converter ss (result @ [num]))"

definition SplitAndParseAsInts :: "(string \<Rightarrow> 'a option) \<Rightarrow> string \<Rightarrow> char \<Rightarrow> 'a list option" where
  "SplitAndParseAsInts converter t delim = parse_all converter (Split t [delim] AllowEmpty) []"

definition SplitAndParseAsInts32 :: "string \<Rightarrow> char \<Rightarrow> int list option" where
  "SplitAndParseAsInts32 = SplitAndParseAsInts safe_strto32"

definition SplitAndParseAsInts64 :: "string \<Rightarrow> char \<Rightarrow> int list option" where
  "SplitAndParseAsInts64 = SplitAndParseAsInts safe_strto64"

section \<open>Decimal numbers\<close>

definition dval :: "string \<Rightarrow> nat" where
  "dval ds = foldl (\<lambda>n c. n * 10 + digit c) 0 ds"

lemma dval_snoc [simp]: "dval (ds @ [c]) = dval ds * 10 + digit c"
  by (simp add: dval_def)

lemma dval_Nil [simp]: "dval [] = 0"
  by (simp add: dval_def)

lemma digit_le_9: "isdigit c \<Longrightarrow> digit c \<le> 9"
  unfolding isdigit_def digit_def by linarith

lemma foldl_dval_mono: "n \<le> foldl (\<lambda>n c. n * 10 + digit c) n ds"
proof (induction ds arbitrary: n)
  case (Cons c ds)
  have "n \<le> n * 10 + digit c" by simp
  also have "\<dots> \<le> foldl (\<lambda>n c. n * 10 + digit c) (n * 10 + digit c) ds" by (rule Cons.IH)
  finally show ?case by simp
qed simp

lemma strto64_pos_eq:
  assumes "0 \<le> int n" "int n \<le> lim" "9 \<le> lim"
  shows "strto64_pos lim (int n) str =
    (let v = int (foldl (\<lambda>n c. n * 10 + digit c) n (takeWhile isdigit str))
     in if v \<le> lim then Some (v, dropWhile isdigit str) else None)"
  using assms(2)
proof (induction str arbitrary: n)
  case (Cons c str)
  show ?case
  proof (cases "isdigit c")
    case True
    define d where "d = digit c"
    have d: "d \<le> 9" using digit_le_9 [OF True] by (simp add: d_def)
    have guard: "(lim - int d) sdiv 10 < int n \<longleftrightarrow> lim < int (n * 10 + d)"
    proof -
      have "0 \<le> lim - int d" using assms(3) d by linarith
      then have "(lim - int d) sdiv 10 = (lim - int d) div 10"
        by (cases "lim - int d = 0") (auto simp: signed_divide_int_def)
      then show ?thesis by (simp add: div_less_iff_less_mult) linarith
    qed
    show ?thesis
    proof (cases "lim < int (n * 10 + d)")
      case True
      then have "\<not> int (foldl (\<lambda>n c. n * 10 + digit c) (n * 10 + d) (takeWhile isdigit str)) \<le> lim"
        using foldl_dval_mono [of "n * 10 + d" "takeWhile isdigit str"] by linarith
      then show ?thesis using \<open>isdigit c\<close> guard True by (simp add: d_def Let_def)
    next
      case False
      then show ?thesis using \<open>isdigit c\<close> guard Cons.IH [of "n * 10 + d"] by (simp add: d_def Let_def)
    qed
  next
    case False
    then show ?thesis using Cons.prems by simp
  qed
qed simp

lemma strto64_neg_eq:
  assumes "int n \<le> lim" "9 \<le> lim"
  shows "strto64_neg (- lim) (- int n) str =
    (let v = int (foldl (\<lambda>n c. n * 10 + digit c) n (takeWhile isdigit str))
     in if v \<le> lim then Some (- v, dropWhile isdigit str) else None)"
  using assms(1)
proof (induction str arbitrary: n)
  case (Cons c str)
  show ?case
  proof (cases "isdigit c")
    case True
    define d where "d = digit c"
    have d: "d \<le> 9" using digit_le_9 [OF True] by (simp add: d_def)
    have guard: "(- lim + int d) sdiv 10 > - int n \<longleftrightarrow> lim < int (n * 10 + d)"
    proof -
      have "0 \<le> lim - int d" using assms(2) d by linarith
      then have "(- lim + int d) sdiv 10 = - ((lim - int d) div 10)"
        by (cases "lim - int d = 0") (auto simp: signed_divide_int_def)
      moreover have "(lim - int d) div 10 < int n \<longleftrightarrow> lim < int (n * 10 + d)"
        by (simp add: div_less_iff_less_mult) linarith
      ultimately show ?thesis by simp
    qed
    show ?thesis
    proof (cases "lim < int (n * 10 + d)")
      case True
      then have "\<not> int (foldl (\<lambda>n c. n * 10 + digit c) (n * 10 + d) (takeWhile isdigit str)) \<le> lim"
        using foldl_dval_mono [of "n * 10 + d" "takeWhile isdigit str"] by linarith
      then show ?thesis using \<open>isdigit c\<close> guard True by (simp add: d_def Let_def)
    next
      case False
      have "- int n * 10 - int d = - int (n * 10 + d)" by simp
      then show ?thesis using \<open>isdigit c\<close> guard Cons.IH [of "n * 10 + d"] False
        by (simp add: d_def Let_def)
    qed
  next
    case False
    then show ?thesis using Cons.prems by simp
  qed
qed simp

lemma strto32_loop_eq:
  assumes "int n \<le> lim"
  shows "strto32_loop lim (int n) str =
    (let v = int (foldl (\<lambda>n c. n * 10 + digit c) n (takeWhile isdigit str))
     in if v \<le> lim then Some (v, dropWhile isdigit str) else None)"
  using assms
proof (induction str arbitrary: n)
  case (Cons c str)
  show ?case
  proof (cases "isdigit c")
    case True
    define d where "d = digit c"
    have "int (ord c) = int d + 48" using True by (auto simp: d_def digit_def isdigit_def)
    note step = this
    show ?thesis
    proof (cases "lim < int (n * 10 + d)")
      case big: True
      then have "\<not> int (foldl (\<lambda>n c. n * 10 + digit c) (n * 10 + d) (takeWhile isdigit str)) \<le> lim"
        using foldl_dval_mono [of "n * 10 + d" "takeWhile isdigit str"] by linarith
      then show ?thesis using True step big by (simp add: d_def Let_def)
    next
      case False
      then show ?thesis using True step Cons.IH [of "n * 10 + d"] by (simp add: d_def Let_def)
    qed
  next
    case False
    then show ?thesis using Cons.prems by simp
  qed
qed simp

lemma strtou64_loop_eq:
  assumes "n < 2 ^ 64"
  shows "strtou64_loop (word_of_nat n) str =
    (let v = foldl (\<lambda>n c. n * 10 + digit c) n (takeWhile isdigit str)
     in if v < 2 ^ 64 then Some (word_of_nat v, dropWhile isdigit str) else None)"
  using assms
proof (induction str arbitrary: n)
  case (Cons c str)
  show ?case
  proof (cases "isdigit c")
    case True
    define d where "d = digit c"
    have d: "d \<le> 9" using digit_le_9 [OF True] by (simp add: d_def)
    have un: "uint (word_of_nat n :: uint64) = int n"
      using Cons.prems by (simp add: unsigned_of_nat take_bit_nat_eq_self_iff take_bit_int_eq_self)
    have ud: "uint (- 1 - word_of_nat d :: uint64) = 2 ^ 64 - 1 - int d"
    proof -
      have "uint (word_of_nat d :: uint64) = int d"
        using d by (simp add: unsigned_of_nat take_bit_nat_eq_self_iff take_bit_int_eq_self)
      moreover have "- 1 - word_of_nat d = NOT (word_of_nat d :: uint64)" by (simp add: not_eq_complement)
      moreover have "take_bit 64 (int d) = int d" using d by (intro take_bit_int_eq_self) simp_all
      ultimately show ?thesis
        by (simp add: unsigned_not_eq take_bit_not_eq_mask_diff mask_eq_exp_minus_1)
    qed
    have guard: "(- 1 - word_of_nat d) div 10 < (word_of_nat n :: uint64) \<longleftrightarrow> 2 ^ 64 \<le> n * 10 + d"
      unfolding word_less_def uint_div_distrib ud un by (simp add: div_less_iff_less_mult) linarith
    show ?thesis
    proof (cases "2 ^ 64 \<le> n * 10 + d")
      case big: True
      then have "\<not> foldl (\<lambda>n c. n * 10 + digit c) (n * 10 + d) (takeWhile isdigit str) < 2 ^ 64"
        using foldl_dval_mono [of "n * 10 + d" "takeWhile isdigit str"] by linarith
      then show ?thesis using True guard big by (simp add: d_def Let_def)
    next
      case False
      then show ?thesis using True guard Cons.IH [of "n * 10 + d"] by (simp add: d_def Let_def)
    qed
  next
    case False
    then show ?thesis using Cons.prems by simp
  qed
qed simp

text \<open>
  The accepted syntax: optional spaces, for the signed readers an optional minus, at least
  one digit, optional spaces.
\<close>

definition parse_int :: "string \<Rightarrow> (bool \<times> string) option" where
  "parse_int str =
     (let s = dropWhile isspace str;
          neg = (s \<noteq> [] \<and> hd s = CHR ''-'');
          s = (if neg then tl s else s);
          ds = takeWhile isdigit s
      in if ds = [] \<or> dropWhile isspace (dropWhile isdigit s) \<noteq> [] then None else Some (neg, ds))"

lemma SkipSpaces_eq: "SkipSpaces s = dropWhile isspace s"
  by (induction s) auto

lemma Consume_minus:
  "Consume s ''-'' = (if s \<noteq> [] \<and> hd s = CHR ''-'' then Some (tl s) else None)"
  by (cases s) (auto simp: Consume_def)

lemma isdigit_SafeFirstChar: "isdigit (SafeFirstChar s) \<longleftrightarrow> takeWhile isdigit s \<noteq> []"
  by (cases s) (auto simp: SafeFirstChar_def isdigit_def ord_def)

lemma not_isdigit_minus: "\<not> isdigit (CHR ''-'')"
  by (simp add: isdigit_def ord_def)

definition in_range :: "int \<Rightarrow> int \<Rightarrow> int \<Rightarrow> int option" where
  "in_range lo hi v = (if lo \<le> v \<and> v \<le> hi then Some v else None)"

definition signed_value :: "bool \<times> string \<Rightarrow> int" where
  "signed_value p = (if fst p then - int (dval (snd p)) else int (dval (snd p)))"

lemma safe_strto64_eq:
  "safe_strto64 str = Option.bind (parse_int str) (\<lambda>p. in_range (- (2 ^ 63)) (2 ^ 63 - 1) (signed_value p))"
proof -
  define s where "s = dropWhile isspace str"
  define neg where "neg = (s \<noteq> [] \<and> hd s = CHR ''-'')"
  define t where "t = (if neg then tl s else s)"
  define ds where "ds = takeWhile isdigit t"
  have pos: "strto64_pos (2 ^ 63 - 1) 0 t = (if int (dval ds) \<le> 2 ^ 63 - 1 then Some (int (dval ds), dropWhile isdigit t) else None)"
    using strto64_pos_eq [of 0 "2 ^ 63 - 1" t] by (simp add: dval_def ds_def Let_def)
  have ng: "strto64_neg (- (2 ^ 63)) 0 t = (if int (dval ds) \<le> 2 ^ 63 then Some (- int (dval ds), dropWhile isdigit t) else None)"
    using strto64_neg_eq [of 0 "2 ^ 63" t] by (simp add: dval_def ds_def Let_def)
  have cons: "Consume s ''-'' = (if neg then Some t else None)" and ts: "\<not> neg \<Longrightarrow> s = t"
    unfolding Consume_minus by (auto simp: neg_def t_def)
  have p: "parse_int str = (if ds = [] \<or> dropWhile isspace (dropWhile isdigit t) \<noteq> [] then None else Some (neg, ds))"
    by (simp only: parse_int_def Let_def s_def neg_def t_def ds_def)
  have c: "safe_strto64 str = (if ds = [] then None
      else case (if neg then strto64_neg (- (2 ^ 63)) 0 t else strto64_pos (2 ^ 63 - 1) 0 t) of
        None \<Rightarrow> None | Some (result, r) \<Rightarrow> if dropWhile isspace r \<noteq> [] then None else Some result)"
    unfolding safe_strto64_def Let_def SkipSpaces_eq s_def [symmetric] cons
    by (cases neg) (simp_all add: isdigit_SafeFirstChar Let_def ds_def ts)
  show ?thesis unfolding c p pos ng by (auto simp: in_range_def signed_value_def)
qed

lemma safe_strto32_eq:
  "safe_strto32 str = Option.bind (parse_int str) (\<lambda>p. in_range (- (2 ^ 31)) (2 ^ 31 - 1) (signed_value p))"
proof -
  define s where "s = dropWhile isspace str"
  define neg where "neg = (s \<noteq> [] \<and> hd s = CHR ''-'')"
  define t where "t = (if neg then tl s else s)"
  define ds where "ds = takeWhile isdigit t"
  have loop: "strto32_loop lim 0 t = (if int (dval ds) \<le> lim then Some (int (dval ds), dropWhile isdigit t) else None)"
    if "0 \<le> lim" for lim
    using strto32_loop_eq [of 0 lim t] that by (simp add: dval_def ds_def Let_def)
  have cons: "Consume s ''-'' = (if neg then Some t else None)" and ts: "\<not> neg \<Longrightarrow> s = t"
    unfolding Consume_minus by (auto simp: neg_def t_def)
  have p: "parse_int str = (if ds = [] \<or> dropWhile isspace (dropWhile isdigit t) \<noteq> [] then None else Some (neg, ds))"
    by (simp only: parse_int_def Let_def s_def neg_def t_def ds_def)
  have c: "safe_strto32 str = (if ds = [] then None
      else case strto32_loop (if neg then 2 ^ 31 else 2 ^ 31 - 1) 0 t of
        None \<Rightarrow> None | Some (result, r) \<Rightarrow> if dropWhile isspace r \<noteq> [] then None
          else Some (result * (if neg then -1 else 1)))"
    unfolding safe_strto32_def Let_def SkipSpaces_eq s_def [symmetric] cons
    by (cases neg) (simp_all add: isdigit_SafeFirstChar Let_def ds_def ts)
  show ?thesis unfolding c p by (subst loop) (auto simp: in_range_def signed_value_def)
qed

lemma unsigned_syntax:
  fixes f :: "string \<Rightarrow> ('a \<times> string) option"
  assumes "\<And>t. f t = (let v = dval (takeWhile isdigit t) in if ok v then Some (g v, dropWhile isdigit t) else None)"
  shows "(let str = SkipSpaces str in if \<not> isdigit (SafeFirstChar str) then None
      else case f str of None \<Rightarrow> None | Some (result, str) \<Rightarrow> if SkipSpaces str \<noteq> [] then None else Some result) =
    Option.bind (parse_int str) (\<lambda>p. if \<not> fst p \<and> ok (dval (snd p)) then Some (g (dval (snd p))) else None)"
proof -
  define s where "s = dropWhile isspace str"
  show ?thesis
  proof (cases "s \<noteq> [] \<and> hd s = CHR ''-''")
    case True
    then have "takeWhile isdigit s = []" by (cases s) (auto simp: not_isdigit_minus)
    then show ?thesis using True
      by (auto simp: parse_int_def SkipSpaces_eq s_def [symmetric] isdigit_SafeFirstChar Let_def)
  next
    case False
    then show ?thesis
      by (auto simp: assms parse_int_def SkipSpaces_eq s_def [symmetric] isdigit_SafeFirstChar Let_def)
  qed
qed

lemma safe_strtou64_eq:
  "safe_strtou64 str = Option.bind (parse_int str)
     (\<lambda>p. if \<not> fst p \<and> dval (snd p) < 2 ^ 64 then Some (word_of_nat (dval (snd p))) else None)"
  unfolding safe_strtou64_def
  by (rule unsigned_syntax) (use strtou64_loop_eq [of 0] in \<open>simp add: dval_def Let_def\<close>)

lemma safe_strtou32_eq:
  "safe_strtou32 str = Option.bind (parse_int str)
     (\<lambda>p. if \<not> fst p \<and> int (dval (snd p)) \<le> 2 ^ 32 - 1 then Some (int (dval (snd p))) else None)"
  unfolding safe_strtou32_def
  by (rule unsigned_syntax) (use strto32_loop_eq [of 0 "2 ^ 32 - 1"] in \<open>simp add: dval_def Let_def\<close>)

section \<open>Printing is read back\<close>

lemma digit_char: "k < 10 \<Longrightarrow> isdigit (char_of (k + 48)) \<and> digit (char_of (k + 48)) = k"
  by (simp add: isdigit_def digit_def ord_def take_bit_nat_def)

lemma digits_loop_correct:
  assumes "3 < LENGTH('a)"
  shows "digits_loop (i :: 'a::len word) \<noteq> [] \<and> list_all isdigit (digits_loop i) \<and> dval (rev (digits_loop i)) = unat i"
proof (induction i rule: digits_loop.induct)
  case (1 i)
  have ten: "unat (10 :: 'a word) = 10"
  proof -
    have "(2::nat) ^ 4 \<le> 2 ^ LENGTH('a)" using assms by (intro power_increasing) auto
    then show ?thesis by (simp add: unsigned_numeral take_bit_nat_eq_self_iff)
  qed
  have m: "unat (i mod 10) = unat i mod 10" and d: "unat (i div 10) = unat i div 10"
    by (simp_all only: unat_mod_distrib unat_div_distrib ten)
  note c = digit_char [of "unat i mod 10"]
  show ?case
  proof (cases "i div 10 > 0")
    case True
    then show ?thesis using "1" [OF refl refl True] c by (subst (1 2 3) digits_loop.simps) (simp add: m d Let_def)
  next
    case False
    then have "unat i div 10 = 0" by (simp add: d [symmetric] word_gt_0 unat_eq_zero)
    then show ?thesis using False c by (subst (1 2 3) digits_loop.simps) (simp add: m Let_def dval_def)
  qed
qed

lemma parse_printed:
  assumes "list_all isdigit ds" "ds \<noteq> []"
  shows "parse_int ds = Some (False, ds)" and "parse_int (CHR ''-'' # ds) = Some (True, ds)"
proof -
  have sp: "\<not> isspace c" if "isdigit c" for c using that by (auto simp: isdigit_def isspace_def)
  have t: "takeWhile isdigit ds = ds" "dropWhile isdigit ds = []"
    using assms(1) by (auto simp: list_all_iff)
  have w: "dropWhile isspace ds = ds" "\<not> hd ds = CHR ''-''" "\<not> isspace (CHR ''-'')"
    using assms sp not_isdigit_minus by (cases ds; auto simp: isspace_def ord_def)+
  show "parse_int ds = Some (False, ds)" "parse_int (CHR ''-'' # ds) = Some (True, ds)"
    using assms(2) by (simp_all add: parse_int_def Let_def t w)
qed

lemma print_uint:
  assumes "3 < LENGTH('a)"
  shows "parse_int (rev (digits_loop (i :: 'a::len word))) = Some (False, rev (digits_loop i))"
    and "parse_int (CHR ''-'' # rev (digits_loop i)) = Some (True, rev (digits_loop i))"
    and "dval (rev (digits_loop i)) = unat i"
  using digits_loop_correct [OF assms, of i] parse_printed [of "rev (digits_loop i)"] by simp_all

lemma sint_negate:
  fixes i :: "'a::len word"
  shows "int (unat i) = (if i <s 0 then 2 ^ LENGTH('a) + sint i else sint i)"
    and "i <s 0 \<Longrightarrow> int (unat (0 - i)) = - sint i"
proof -
  let ?L = "LENGTH('a)"
  have r: "- (2 ^ (?L - 1)) \<le> sint i" "sint i < 2 ^ (?L - 1)" by (rule sint_ge, rule sint_lt)
  have p: "(2::int) ^ ?L = 2 * 2 ^ (?L - 1)" by (simp add: power_Suc [symmetric])
  have neg: "i <s 0 \<longleftrightarrow> sint i < 0" by (simp add: word_sless_alt)
  have u: "uint i = sint i mod 2 ^ ?L" by (simp only: uint_sint take_bit_eq_mod)
  show ui: "int (unat i) = (if i <s 0 then 2 ^ ?L + sint i else sint i)"
  proof (cases "sint i < 0")
    case True
    have "sint i mod 2 ^ ?L = (sint i + 2 ^ ?L) mod 2 ^ ?L" by simp
    also have "\<dots> = sint i + 2 ^ ?L" using True r p by (intro mod_pos_pos_trivial) simp_all
    finally show ?thesis using True u neg by simp
  next
    case False
    then have "sint i mod 2 ^ ?L = sint i" using r p by (intro mod_pos_pos_trivial) simp_all
    then show ?thesis using False u neg by simp
  qed
  show "int (unat (0 - i)) = - sint i" if "i <s 0"
  proof -
    have "uint (0 - i) = (0 - uint i) mod 2 ^ ?L" by (simp add: uint_word_ariths)
    also have "\<dots> = (- sint i) mod 2 ^ ?L" unfolding u by (simp add: mod_minus_eq)
    also have "\<dots> = - sint i" using that r p neg by (intro mod_pos_pos_trivial) simp_all
    finally show ?thesis by simp
  qed
qed

lemma safe_strto64_print: "safe_strto64 (FastInt64ToBufferLeft i) = Some (sint i)"
proof -
  have l: "3 < LENGTH(64)" by simp
  have r64: "in_range (- (2 ^ 63)) (2 ^ 63 - 1) (sint i) = Some (sint i)"
    using sint_ge [of i] sint_lt [of i] by (simp add: in_range_def)
  then show ?thesis
    using sint_negate [of i]
    by (simp add: safe_strto64_eq FastInt64ToBufferLeft_def FastUInt64ToBufferLeft_def print_uint [OF l]
        signed_value_def del: of_nat_unat)
qed

lemma FastInt64_chars: "set (FastInt64ToBufferLeft i) \<subseteq> {c. isdigit c} \<union> {CHR ''-''}" "FastInt64ToBufferLeft i \<noteq> []"
  using digits_loop_correct [of i] digits_loop_correct [of "- i"]
  by (auto simp: FastInt64ToBufferLeft_def FastUInt64ToBufferLeft_def list_all_iff)

section \<open>Properties of numbers\<close>


text \<open>
  Every integer that the Fast...ToBufferLeft functions print is read back by the
  corresponding reader, from the most negative value on.
\<close>

theorem print_parse_integers:
  "safe_strto64 (FastInt64ToBufferLeft i) = Some (sint i) \<and>
   safe_strtou64 (FastUInt64ToBufferLeft i) = Some i \<and>
   safe_strto32 (FastInt32ToBufferLeft j) = Some (sint j) \<and>
   safe_strtou32 (FastUInt32ToBufferLeft j) = Some (uint j)"
proof -
  have l: "3 < LENGTH(64)" "3 < LENGTH(32)" by simp_all
  note p = print_uint [OF l(1)] print_uint [OF l(2)]
  have r32: "in_range (- (2 ^ 31)) (2 ^ 31 - 1) (sint j) = Some (sint j)"
    using sint_ge [of j] sint_lt [of j] by (simp add: in_range_def)
  have "safe_strto64 (FastInt64ToBufferLeft i) = Some (sint i)" by (rule safe_strto64_print)
  moreover have "safe_strto32 (FastInt32ToBufferLeft j) = Some (sint j)"
    using r32 sint_negate [of j]
    by (simp add: safe_strto32_eq FastInt32ToBufferLeft_def FastUInt32ToBufferLeft_def p signed_value_def
        del: of_nat_unat)
  moreover have "unat i < 2 ^ LENGTH(64)" "unat j < 2 ^ LENGTH(32)" by (rule unsigned_less)+
  then have "safe_strtou64 (FastUInt64ToBufferLeft i) = Some i"
    "safe_strtou32 (FastUInt32ToBufferLeft j) = Some (uint j)"
    by (simp_all add: safe_strtou64_eq FastUInt64ToBufferLeft_def safe_strtou32_eq FastUInt32ToBufferLeft_def p)
  ultimately show ?thesis by blast
qed

section \<open>Hexadecimal digits\<close>

lemma ord_hexdigits:
  "k < 16 \<Longrightarrow> ord (hexdigits ! k) = (if k < 10 then 48 + k else 87 + k)"
proof -
  have "list_all (\<lambda>k. ord (hexdigits ! k) = (if k < 10 then 48 + k else 87 + k)) [0..<16]" by code_simp
  moreover assume "k < 16"
  ultimately show ?thesis by (simp add: list_all_iff)
qed

lemma hexdigit_value:
  "k < 16 \<Longrightarrow> unhex_loop (hexdigits ! k # s) v = unhex_loop s (push_bit 4 v + word_of_nat k)"
proof -
  assume k: "k < 16"
  have "(word_of_nat k :: uint64) = 10 + word_of_nat (k - 10)" if "10 \<le> k"
  proof -
    have "word_of_nat (10 + (k - 10)) = (10 + word_of_nat (k - 10) :: uint64)" by (simp only: of_nat_add of_nat_numeral)
    then show ?thesis using that by simp
  qed
  then show ?thesis using k by (simp add: ord_hexdigits add.assoc)
qed

lemma hex_loop_append: "hex_loop n v buf = hex_loop n v [] @ buf"
proof (induction n arbitrary: v buf)
  case (Suc n)
  show ?case by (simp only: hex_loop.simps) (metis Suc append.assoc append_Cons append_Nil)
qed simp

lemma length_hex_loop: "length (hex_loop n v []) = n"
proof (induction n arbitrary: v)
  case (Suc n)
  then show ?case by (simp add: hex_loop_append [of n _ "[_]"])
qed simp

lemma unhex_hex_loop:
  "unhex_loop (hex_loop n v [] @ s) r = unhex_loop s (push_bit (4 * n) r + take_bit (4 * n) v)"
proof (induction n arbitrary: v s r)
  case (Suc n)
  have nib: "unat (v AND 0xf) < 16"
  proof -
    have "v AND 0xf = take_bit 4 v"
    proof -
      have "(0xf :: uint64) = mask 4" by (simp add: mask_eq_exp_minus_1)
      then show ?thesis by (simp only: take_bit_eq_mask)
    qed
    moreover have "unat (take_bit 4 v) < 2 ^ 4" by (simp only: unsigned_take_bit_eq take_bit_nat_less_exp)
    ultimately show ?thesis by simp
  qed
  have m: "v AND 0xf = take_bit 4 v"
  proof -
    have "(0xf :: uint64) = mask 4" by (simp add: mask_eq_exp_minus_1)
    then show ?thesis by (simp only: take_bit_eq_mask)
  qed
  have "unhex_loop (hex_loop (Suc n) v [] @ s) r
      = unhex_loop (hexdigits ! unat (v AND 0xf) # s) (push_bit (4 * n) r + take_bit (4 * n) (drop_bit 4 v))"
    by (simp add: hex_loop_append [of n _ "[_]"] Suc.IH)
  also have "\<dots> = unhex_loop s (push_bit 4 (push_bit (4 * n) r + take_bit (4 * n) (drop_bit 4 v)) + word_of_nat (unat (v AND 0xf)))"
    using nib by (rule hexdigit_value)
  also have "push_bit 4 (push_bit (4 * n) r + take_bit (4 * n) (drop_bit 4 v)) + word_of_nat (unat (v AND 0xf))
      = push_bit (4 * Suc n) r + take_bit (4 * Suc n) v"
  proof -
    have "push_bit 4 (take_bit (4 * n) (drop_bit 4 v)) + take_bit 4 v = take_bit (4 * Suc n) v"
    proof -
      have "push_bit 4 (take_bit (4 * n) (drop_bit 4 v)) + take_bit 4 v
          = push_bit 4 (take_bit (4 * n) (drop_bit 4 v)) OR take_bit 4 v"
        by (rule disjunctive_add) (auto simp: bit_simps)
      also have "\<dots> = take_bit (4 * Suc n) v"
        by (rule bit_word_eqI) (auto simp: bit_simps)
      finally show ?thesis .
    qed
    moreover have "push_bit 4 (a + b) = push_bit 4 a + push_bit 4 (b :: uint64)" for a b
      by (simp add: push_bit_eq_mult distrib_left distrib_right)
    ultimately show ?thesis by (simp add: m add.assoc word_of_nat_eq_iff)
  qed
  finally show ?case .
qed simp

section \<open>Escapes\<close>

lemma ord_char_of: "n < 256 \<Longrightarrow> ord (char_of n) = n"
  by (simp add: ord_def take_bit_nat_eq_self_iff)

lemma char_of_ord [simp]: "char_of (ord c) = c"
  by (simp add: ord_def)

lemma ord_less: "ord c < 256"
  by (simp add: ord_def)

lemma octal_digit:
  "k < 8 \<Longrightarrow> is_octal_digit (hex_char ! k) \<and> ord (hex_char ! k) = 48 + k \<and> simple_escape (hex_char ! k) = None"
proof -
  have "list_all (\<lambda>k. is_octal_digit (hex_char ! k) \<and> ord (hex_char ! k) = 48 + k \<and>
      simple_escape (hex_char ! k) = None) [0..<8]" by code_simp
  moreover assume "k < 8"
  ultimately show ?thesis by (simp add: list_all_iff)
qed

definition special_escapes :: "(char \<times> char) list" where
  "special_escapes = [(CHR 0x0A, CHR ''n''), (CHR 0x0D, CHR ''r''), (CHR 0x09, CHR ''t''), (CHR 0x22, CHR 0x22),
    (CHR 0x27, CHR 0x27), (CHR 0x5C, CHR 0x5C)]"

lemma escape_special:
  assumes "c \<in> {CHR 0x0A, CHR 0x0D, CHR 0x09, CHR 0x22, CHR 0x27, CHR 0x5C}"
  shows "\<exists>e. CEscape_char c = [CHR 0x5C, e] \<and> simple_escape e = Some c"
proof -
  have "list_all (\<lambda>(c, e). CEscape_char c = [CHR 0x5C, e] \<and> simple_escape e = Some c) special_escapes"
    by code_simp
  then have all: "\<forall>q \<in> set special_escapes. CEscape_char (fst q) = [CHR 0x5C, snd q] \<and> simple_escape (snd q) = Some (fst q)"
    by (auto simp: list_all_iff)
  have "{CHR 0x0A, CHR 0x0D, CHR 0x09, CHR 0x22, CHR 0x27, CHR 0x5C} = fst ` set special_escapes"
    by (simp only: special_escapes_def list.set image_insert fst_conv image_empty)
  then have "c \<in> fst ` set special_escapes" using assms by (rule subst)
  then show ?thesis using all by auto
qed

lemma unescape_CEscape:
  "CUnescapeInternal (CEscape_char c @ p) d = CUnescapeInternal p (d @ [c])"
proof -
  have lt: "ord c < 256" by (rule ord_less)
  consider "c \<in> {CHR 0x0A, CHR 0x0D, CHR 0x09, CHR 0x22, CHR 0x27, CHR 0x5C}"
    | "c \<notin> {CHR 0x0A, CHR 0x0D, CHR 0x09, CHR 0x22, CHR 0x27, CHR 0x5C}" "ord c \<ge> 0x80 \<or> \<not> isprint c"
    | "c \<notin> {CHR 0x0A, CHR 0x0D, CHR 0x09, CHR 0x22, CHR 0x27, CHR 0x5C}" "\<not> (ord c \<ge> 0x80 \<or> \<not> isprint c)" by blast
  then show ?thesis
  proof cases
    case 1
    then obtain e where "CEscape_char c = [CHR 0x5C, e]" "simple_escape e = Some c"
      using escape_special by blast
    then show ?thesis by simp
  next
    case 2
    define x y z where "x = ord c div 64" and "y = ord c mod 64 div 8" and "z = ord c mod 8"
    have xyz: "x < 4" "y < 8" "z < 8"
    proof -
      have "ord c < 4 * 64" "ord c mod 64 < 8 * 8" using lt by simp_all
      then show "x < 4" "y < 8" unfolding x_def y_def by (simp_all only: less_mult_imp_div_less)
    qed (simp add: z_def)
    have v: "(x * 8 + y) * 8 + z = ord c"
    proof -
      have "ord c mod 64 mod 8 = z" by (simp add: z_def mod_mod_cancel)
      then have "ord c mod 64 = y * 8 + z" using div_mult_mod_eq [of "ord c mod 64" 8] by (simp add: y_def)
      then show ?thesis using div_mult_mod_eq [of "ord c" 64] by (simp add: x_def)
    qed
    have e: "CEscape_char c = [CHR 0x5C, hex_char ! x, hex_char ! y, hex_char ! z]"
      using 2 by (simp add: CEscape_char_def x_def y_def z_def)
    note ox = octal_digit [of x] and oy = octal_digit [OF xyz(2)] and oz = octal_digit [OF xyz(3)]
    have "octal_run 2 (ord (hex_char ! x) - 48) (hex_char ! y # hex_char ! z # p) = (ord c, p)"
      using xyz ox oy oz v by (simp add: numeral_2_eq_2)
    then have "unescape_one (hex_char ! x # hex_char ! y # hex_char ! z # p) = Inr (c, p)"
      using ox xyz lt by simp
    then show ?thesis by (simp add: e)
  next
    case 3
    then show ?thesis by (simp add: CEscape_char_def)
  qed
qed

lemma CUnescape_CEscape: "CUnescapeInternal (CEscape s) d = Inr (d @ s)"
  by (induction s arbitrary: d) (simp_all add: unescape_CEscape)

lemma hex_run_eq:
  "hex_run r p = (word_of_nat (foldl (\<lambda>n c. n * 16 + hex_digit_to_int c) (unat r) (takeWhile ascii_isxdigit p)),
     dropWhile ascii_isxdigit p)"
proof (induction p arbitrary: r)
  case Nil
  then show ?case by (simp add: word_eq_iff_unsigned unsigned_of_nat)
next
  case (Cons c p)
  have w: "word_of_nat (foldl (\<lambda>n c. n * 16 + hex_digit_to_int c) n xs) =
      (word_of_nat (foldl (\<lambda>n c. n * 16 + hex_digit_to_int c) m xs) :: uint32)"
    if "(word_of_nat n :: uint32) = word_of_nat m" for n m xs
    using that by (induction xs arbitrary: n m) simp_all
  have "(word_of_nat (unat (push_bit 4 r + word_of_nat (hex_digit_to_int c))) :: uint32)
      = word_of_nat (unat r * 16 + hex_digit_to_int c)"
    by (simp add: push_bit_eq_mult mult.commute)
  from w [OF this] show ?case using Cons by simp
qed

section \<open>Leading digits, splitting and joining\<close>

lemma overflow_check:
  fixes v :: uint64
  assumes d: "d \<le> 9"
  shows "(v * 10 + word_of_nat d) div 8 < v \<longleftrightarrow> 2 ^ 64 \<le> unat v * 10 + d"
proof -
  define m where "m = unat v"
  define r where "r = (m * 10 + d) mod 2 ^ 64"
  have m: "m < 2 ^ 64" unfolding m_def using unsigned_less [of v] by simp
  have "unat (v * 10 + word_of_nat d) = r"
    by (simp add: r_def m_def unat_word_ariths unsigned_of_nat take_bit_nat_def mod_simps)
  then have "(v * 10 + word_of_nat d) div 8 < v \<longleftrightarrow> r div 8 < m"
    by (simp add: word_less_nat_alt unat_div_distrib m_def)
  also have "\<dots> \<longleftrightarrow> r < m * 8" by (simp add: div_less_iff_less_mult)
  also have "\<dots> \<longleftrightarrow> 2 ^ 64 \<le> m * 10 + d"
  proof (cases "2 ^ 64 \<le> m * 10 + d")
    case False
    then show ?thesis by (simp add: r_def)
  next
    case True
    have r: "r < 2 ^ 64" by (simp add: r_def)
    show ?thesis
    proof (cases "m < 2 ^ 61")
      case small: True
      have "r = m * 10 + d - 2 ^ 64"
        using True small d unfolding r_def by (subst le_mod_geq) simp_all
      then show ?thesis using True small d m by simp
    next
      case False
      then show ?thesis using True r by simp
    qed
  qed
  finally show ?thesis by (simp add: m_def)
qed

lemma leading_digits_eq:
  "leading_digits v n p =
    (let x = foldl (\<lambda>n c. n * 10 + digit c) (unat v) (takeWhile isdigit p)
     in if x < 2 ^ 64 then Some (word_of_nat x, n + length (takeWhile isdigit p), dropWhile isdigit p) else None)"
proof (induction p arbitrary: v n)
  case Nil
  have "unat v < 2 ^ LENGTH(64)" by (rule unsigned_less)
  then show ?case by (simp add: word_of_nat_unat)
next
  case (Cons c p)
  show ?case
  proof (cases "isdigit c")
    case False
    then have "ord c < 48 \<or> ord c > 57" by (auto simp: isdigit_def)
    moreover have "unat v < 2 ^ LENGTH(64)" by (rule unsigned_less)
    ultimately show ?thesis using False by (simp add: word_of_nat_unat)
  next
    case True
    then have c: "\<not> (ord c < 48 \<or> ord c > 57)" by (auto simp: isdigit_def)
    note chk = overflow_check [OF digit_le_9 [OF True], of v]
    show ?thesis
    proof (cases "2 ^ 64 \<le> unat v * 10 + digit c")
      case big: True
      then have "\<not> foldl (\<lambda>n c. n * 10 + digit c) (unat v * 10 + digit c) (takeWhile isdigit p) < 2 ^ 64"
        using foldl_dval_mono [of "unat v * 10 + digit c" "takeWhile isdigit p"] by linarith
      then show ?thesis using c chk big True by (simp add: digit_def [symmetric] Let_def)
    next
      case False
      then have "unat (v * 10 + word_of_nat (digit c)) = unat v * 10 + digit c"
        by (simp add: unat_word_ariths unsigned_of_nat take_bit_nat_def mod_simps)
      then show ?thesis using c chk False True Cons [of "v * 10 + word_of_nat (digit c)" "Suc n"]
        by (simp add: digit_def [symmetric] Let_def)
    qed
  qed
qed

lemma Split_loop_token: "\<forall>c \<in> set x. c \<notin> set delims \<Longrightarrow> Split_loop delims p tok (x @ r) = Split_loop delims p (tok @ x) r"
  by (induction x arbitrary: tok) auto

lemma Split_loop_Join:
  assumes "\<forall>x \<in> set xs. c \<notin> set x" and "c \<notin> set x"
  shows "Split_loop [c] p [] (x @ Join_loop False [c] xs) = filter p (x # xs)"
  using assms
proof (induction xs arbitrary: x)
  case Nil
  then have "\<forall>d \<in> set x. d \<notin> set [c]" by auto
  from Split_loop_token [OF this, of p "[]" "[]"] show ?case by simp
next
  case (Cons y ys)
  have "Split_loop [c] p [] (x @ Join_loop False [c] (y # ys)) = Split_loop [c] p x (c # y @ Join_loop False [c] ys)"
  proof -
    have "\<forall>d \<in> set x. d \<notin> set [c]" using Cons.prems by auto
    from Split_loop_token [OF this, of p "[]"] show ?thesis by simp
  qed
  also have "\<dots> = (if p x then [x] else []) @ Split_loop [c] p [] (y @ Join_loop False [c] ys)" by simp
  finally show ?case using Cons by auto
qed

section \<open>Properties of text helpers\<close>

text \<open>
  CUnescape inverts CEscape on every string, and the hexadecimal printer is inverted by
  the hexadecimal reader on every 64-bit value.
\<close>

theorem escape_roundtrip:
  "CUnescape (CEscape s) = Inr s \<and> HexStringToUint64 (Uint64ToHexString v) = Some v \<and>
   length (Uint64ToHexString v) = 16"
proof -
  have l: "length (hex_loop 16 v []) = 16" by (rule length_hex_loop)
  then have "hex_loop 16 v [] \<noteq> []" by auto
  moreover have "unhex_loop (hex_loop 16 v [] @ []) 0 = Some v"
    unfolding unhex_hex_loop by (simp add: take_bit_word_eq_self)
  ultimately show ?thesis
    using l CUnescape_CEscape [of s "[]"] by (simp add: CUnescape_def HexStringToUint64_def Uint64ToHexString_def)
qed

text \<open>
  A hexadecimal escape is accepted according to the low 32 bits of its value, because
  the digits are shifted into an unsigned int before the comparison with 0xff: the
  nine-digit escape of the witness, far above 0xff, is read as the letter A instead of being
  rejected.
\<close>

theorem unescape_hex_wraps:
  assumes "hs \<noteq> []" and "list_all ascii_isxdigit hs"
  shows "CUnescape (CHR 0x5C # CHR ''x'' # hs) =
    (let v = foldl (\<lambda>n c. n * 16 + hex_digit_to_int c) 0 hs mod 2 ^ 32
     in if v > 0xff then Inl ''exceeds 0xff'' else Inr [char_of v])"
proof -
  have t: "takeWhile ascii_isxdigit hs = hs" "dropWhile ascii_isxdigit hs = []"
    using assms(2) by (auto simp: list_all_iff)
  have x: "simple_escape (CHR ''x'') = None" "\<not> is_octal_digit (CHR ''x'')" by code_simp+
  have h: "ascii_isxdigit (hs ! 0)" using assms by (cases hs) auto
  define n where "n = foldl (\<lambda>n c. n * 16 + hex_digit_to_int c) 0 hs"
  have run: "hex_run 0 hs = (word_of_nat n, [])" by (simp add: hex_run_eq t n_def)
  have u: "unat (word_of_nat n :: uint32) = n mod 2 ^ 32" by (simp add: unsigned_of_nat take_bit_nat_def)
  have one: "unescape_one (CHR ''x'' # hs) =
      (if n mod 2 ^ 32 > 0xff then Inl ''exceeds 0xff'' else Inr (char_of (n mod 2 ^ 32), []))"
    unfolding unescape_one.simps x(1) option.case Let_def run prod.case
    using x(2) assms(1) h by (simp add: word_less_nat_alt u)
  show ?thesis
    unfolding CUnescape_def CUnescapeInternal.simps one n_def [symmetric] Let_def by simp
qed

theorem unescape_hex_wraps_witness:
  "CUnescape (CHR 0x5C # CHR ''x'' # ''100000041'') = Inr ''A''"
proof -
  have "foldl (\<lambda>n c. n * 16 + hex_digit_to_int c) 0 ''100000041'' = 4294967361"
    by (simp add: hex_digit_to_int_def ord_def Let_def)
  moreover have "char_of (65 :: nat) = CHR ''A''" by code_simp
  moreover have "list_all ascii_isxdigit ''100000041''" by code_simp
  ultimately show ?thesis using unescape_hex_wraps [of "''100000041''"] by simp
qed

text \<open>
  ConsumeLeadingDigits reads the longest prefix of digits and fails exactly when there
  is none or its value needs more than 64 bits: its division test misses no overflow and
  raises no false alarm.
\<close>

theorem ConsumeLeadingDigits_exact:
  "ConsumeLeadingDigits s =
    (let ds = takeWhile isdigit s
     in if ds = [] \<or> 2 ^ 64 \<le> dval ds then None else Some (word_of_nat (dval ds), dropWhile isdigit s))"
  by (auto simp: ConsumeLeadingDigits_def leading_digits_eq dval_def Let_def)

text \<open>
  Splitting at the separator of a join gives back the joined pieces, those that pass
  the predicate, when no piece contains the separator; only an empty text splits into
  nothing.
\<close>

theorem split_join:
  assumes "\<forall>x \<in> set xs. c \<notin> set x"
  shows "Split (Join xs [c]) [c] p = (if Join xs [c] = [] then [] else filter p xs)"
proof (cases xs)
  case Nil
  then show ?thesis by (simp add: Split_def Join_def)
next
  case (Cons x ys)
  then show ?thesis using assms Split_loop_Join [of ys c x p] by (simp add: Split_def Join_def)
qed

theorem split_join_witness:
  "Split (Join [''a'', [], ''b''] '','') '','' SkipEmpty = [''a'', ''b'']"
  using split_join [of "[''a'', [], ''b'']" "CHR '',''" SkipEmpty] by (simp add: Join_def SkipEmpty_def)

end
