(* ===== verification/TF_TensorSlice.thy ===== *)
theory TF_TensorSlice
  imports TF_OrderedCode TF_Shape TF_Strings
begin

text \<open>
  Slices of tensors (\<^verbatim>\<open>framework/tensor_slice.{h,cc}\<close>) and the sorted-table keys of
  checkpoints built from them (\<^verbatim>\<open>util/saved_tensor_slice_util.cc\<close>). A slice is one
  (start, length) pair of \<^verbatim>\<open>int64\<close> per dimension; the length \<open>-1\<close> with start
  \<open>0\<close> means the whole dimension. Sums wrap as in two's complement (\<open>wrap64\<close>).
\<close>

section \<open>Slices\<close>

definition wrap64 :: "int \<Rightarrow> int" where
  "wrap64 x = sint (word_of_int x :: uint64)"

record tensor_slice =
  starts :: "int list"
  lengths :: "int list"

definition kFullExtent :: int where "kFullExtent = -1"

definition ts_dims :: "tensor_slice \<Rightarrow> nat" where "ts_dims ts = length (starts ts)"
definition ts_start :: "tensor_slice \<Rightarrow> nat \<Rightarrow> int" where "ts_start ts d = starts ts ! d"
definition ts_length :: "tensor_slice \<Rightarrow> nat \<Rightarrow> int" where "ts_length ts d = lengths ts ! d"

definition ts_end :: "tensor_slice \<Rightarrow> nat \<Rightarrow> int" where
  "ts_end ts d = wrap64 (ts_start ts d + ts_length ts d)"

definition set_start :: "nat \<Rightarrow> int \<Rightarrow> tensor_slice \<Rightarrow> tensor_slice" where
  "set_start d x ts = ts\<lparr>starts := (starts ts)[d := x]\<rparr>"

definition set_length :: "nat \<Rightarrow> int \<Rightarrow> tensor_slice \<Rightarrow> tensor_slice" where
  "set_length d x ts = ts\<lparr>lengths := (lengths ts)[d := x]\<rparr>"

definition IsFullAt :: "tensor_slice \<Rightarrow> nat \<Rightarrow> bool" where
  "IsFullAt ts d \<longleftrightarrow> lengths ts ! d = kFullExtent \<and> starts ts ! d = 0"

definition ts_Clear :: "tensor_slice \<Rightarrow> tensor_slice" where
  "ts_Clear ts = \<lparr>starts = [], lengths = []\<rparr>"

definition IsFull :: "tensor_slice \<Rightarrow> bool" where
  "IsFull ts \<longleftrightarrow> list_all (IsFullAt ts) [0..<ts_dims ts]"

definition SetFullSlice :: "nat \<Rightarrow> tensor_slice" where
  "SetFullSlice dim = \<lparr>starts = replicate dim 0, lengths = replicate dim kFullExtent\<rparr>"

definition ts_of_extents :: "(int \<times> int) list \<Rightarrow> tensor_slice" where
  "ts_of_extents extents = \<lparr>starts = map fst extents, lengths = map snd extents\<rparr>"

definition ts_Extend :: "nat \<Rightarrow> tensor_slice \<Rightarrow> tensor_slice" where
  "ts_Extend dim ts =
     \<lparr>starts = take dim (starts ts) @ replicate (dim - ts_dims ts) 0,
      lengths = take dim (lengths ts) @ replicate (dim - ts_dims ts) kFullExtent\<rparr>"

text \<open>
  \<^verbatim>\<open>TensorSliceProto::Extent\<close>: the start and the optional length.
\<close>

definition GetExtentLength :: "int \<times> int option \<Rightarrow> int" where
  "GetExtentLength extent = (case snd extent of None \<Rightarrow> -1 | Some l \<Rightarrow> l)"

definition ts_of_proto :: "(int \<times> int option) list \<Rightarrow> tensor_slice" where
  "ts_of_proto proto = \<lparr>starts = map fst proto, lengths = map GetExtentLength proto\<rparr>"

definition ts_AsProto :: "tensor_slice \<Rightarrow> (int \<times> int option) list" where
  "ts_AsProto ts =
     map (\<lambda>d. if IsFullAt ts d then (0, None) else (starts ts ! d, Some (lengths ts ! d))) [0..<ts_dims ts]"

section \<open>Text format\<close>

fun ts_Parse_loop :: "string list \<Rightarrow> tensor_slice \<Rightarrow> status \<times> tensor_slice" where
  "ts_Parse_loop [] slc = (OK, slc)"
| "ts_Parse_loop (x # items) slc =
     (let push = (\<lambda>s l. \<lparr>starts = starts slc @ [s], lengths = lengths slc @ [l]\<rparr>);
          bad = Error INVALID_ARGUMENT ''Expected a pair of numbers or '-' ''
      in if x = ''-'' then ts_Parse_loop items (push 0 kFullExtent)
         else case Split x '','' SkipEmpty of
           [a, b] \<Rightarrow>
             (case (safe_strto64 a, safe_strto64 b) of
                (Some s, Some l) \<Rightarrow>
                  if s < 0 \<or> l \<le> 0
                  then (Error INVALID_ARGUMENT ''Expected non-negative start and positive length'', slc)
                  else ts_Parse_loop items (push s l)
              | _ \<Rightarrow> (bad, slc))
         | _ \<Rightarrow> (bad, slc))"

definition ts_Parse :: "string \<Rightarrow> tensor_slice \<Rightarrow> status \<times> tensor_slice" where
  "ts_Parse str slc = ts_Parse_loop (Split str '':'' SkipEmpty) slc"

definition ts_extent_string :: "tensor_slice \<Rightarrow> nat \<Rightarrow> string" where
  "ts_extent_string ts d =
     (if IsFullAt ts d then ''-''
      else FastInt64ToBufferLeft (word_of_int (starts ts ! d)) @ '','' @
        FastInt64ToBufferLeft (word_of_int (lengths ts ! d)))"

fun ts_DebugString_loop :: "bool \<Rightarrow> string list \<Rightarrow> string" where
  "ts_DebugString_loop first [] = []"
| "ts_DebugString_loop first (x # xs) = (if \<not> first then '':'' else []) @ x @ ts_DebugString_loop False xs"

definition ts_DebugString :: "tensor_slice \<Rightarrow> string" where
  "ts_DebugString ts = ts_DebugString_loop True (map (ts_extent_string ts) [0..<ts_dims ts])"

section \<open>Intersection, covering, relative slices\<close>

text \<open>The result pointer is an option; the loop returns early at an empty dimension.\<close>

fun Intersect_loop ::
  "tensor_slice \<Rightarrow> tensor_slice \<Rightarrow> nat list \<Rightarrow> tensor_slice option \<Rightarrow> bool \<times> tensor_slice option" where
  "Intersect_loop ts other [] result = (True, result)"
| "Intersect_loop ts other (d # ds) result =
     (let put = (\<lambda>s l. map_option (\<lambda>r. set_length d l (set_start d s r)) result)
      in if IsFullAt ts d
         then Intersect_loop ts other ds (put (ts_start other d) (ts_length other d))
         else if IsFullAt other d
         then Intersect_loop ts other ds (put (ts_start ts d) (ts_length ts d))
         else
           let s = max (ts_start ts d) (ts_start other d);
               l = wrap64 (min (ts_end ts d) (ts_end other d) - s)
           in if l > 0 then Intersect_loop ts other ds (put s l)
              else (False, map_option ts_Clear result))"

definition Intersect :: "tensor_slice \<Rightarrow> tensor_slice \<Rightarrow> tensor_slice option \<Rightarrow> bool \<times> tensor_slice option" where
  "Intersect ts other result =
     (if ts_dims ts \<noteq> ts_dims other then (False, result)
      else Intersect_loop ts other [0..<ts_dims ts] (map_option (\<lambda>_. SetFullSlice (ts_dims ts)) result))"

definition Overlaps :: "tensor_slice \<Rightarrow> tensor_slice \<Rightarrow> bool" where
  "Overlaps ts other = fst (Intersect ts other None)"

definition ts_equal :: "tensor_slice \<Rightarrow> tensor_slice \<Rightarrow> bool" where
  "ts_equal ts other \<longleftrightarrow> ts_dims ts = ts_dims other \<and> starts ts = starts other \<and> lengths ts = lengths other"

definition ComputeRelative :: "tensor_slice \<Rightarrow> tensor_slice \<Rightarrow> tensor_slice" where
  "ComputeRelative ts sub =
     foldl (\<lambda>relative d.
         if IsFullAt ts d
         then set_length d (ts_length sub d) (set_start d (ts_start sub d) relative)
         else set_length d (ts_length sub d) (set_start d (wrap64 (ts_start sub d - ts_start ts d)) relative))
       (SetFullSlice (ts_dims ts)) [0..<ts_dims ts]"

definition cover_dim :: "tensor_slice \<Rightarrow> tensor_slice \<Rightarrow> nat \<Rightarrow> tensor_slice" where
  "cover_dim other ts d =
     (if \<not> IsFullAt ts d then
        if IsFullAt other d then set_length d kFullExtent (set_start d 0 ts)
        else
          let new_end = max (ts_end ts d) (ts_end other d);
              ts = set_start d (min (ts_start ts d) (ts_start other d)) ts
          in set_length d (wrap64 (new_end - ts_start ts d)) ts
      else ts)"

definition UpdateToCover :: "tensor_slice \<Rightarrow> tensor_slice \<Rightarrow> tensor_slice" where
  "UpdateToCover ts other = foldl (cover_dim other) ts [0..<ts_dims ts]"

section \<open>Slicing shapes\<close>

fun SliceTensorShape_loop ::
  "tensor_slice \<Rightarrow> shape \<Rightarrow> nat list \<Rightarrow> shape \<Rightarrow> (status \<times> shape) option" where
  "SliceTensorShape_loop ts sh [] result = Some (OK, result)"
| "SliceTensorShape_loop ts sh (d # ds) result =
     (let next = (\<lambda>sz. case AddDim False result sz of
              None \<Rightarrow> None | Some result \<Rightarrow> SliceTensorShape_loop ts sh ds result)
      in if IsFullAt ts d then next (dim_size False sh d)
         else if ts_end ts d \<le> dim_size False sh d then next (ts_length ts d)
         else Some (Error INTERNAL ''Extent out of bounds'', Clear result))"

definition SliceTensorShape :: "tensor_slice \<Rightarrow> shape \<Rightarrow> shape \<Rightarrow> (status \<times> shape) option" where
  "SliceTensorShape ts sh result =
     (if dims False sh \<noteq> int (ts_dims ts) then Some (Error INTERNAL ''Mismatching ranks'', Clear result)
      else SliceTensorShape_loop ts sh [0..<ts_dims ts] (Clear result))"

text \<open>The indices and sizes handed to Eigen, padded to \<open>ndims\<close>; \<open>None\<close> is a failed check.\<close>

definition FillIndicesAndSizes :: "nat \<Rightarrow> tensor_slice \<Rightarrow> shape \<Rightarrow> (int list \<times> int list) option" where
  "FillIndicesAndSizes ndims ts sh =
     (if dims False sh \<noteq> int (ts_dims ts) \<or> \<not> ts_dims ts \<le> ndims then None
      else Some
        (map (\<lambda>d. if d < ts_dims ts then (if IsFullAt ts d then 0 else starts ts ! d) else 0) [0..<ndims],
         map (\<lambda>d. if d < ts_dims ts then (if IsFullAt ts d then dim_size False sh d else lengths ts ! d) else 1)
           [0..<ndims]))"

section \<open>Checkpoint keys\<close>

definition EncodeTensorNameSlice :: "bytes \<Rightarrow> tensor_slice \<Rightarrow> bytes" where
  "EncodeTensorNameSlice name slc =
     (let buffer = WriteNumIncreasing [] 0;
          buffer = WriteString buffer name;
          buffer = WriteNumIncreasing buffer (word_of_nat (ts_dims slc))
      in foldl (\<lambda>buffer d.
             WriteSignedNumIncreasing
               (WriteSignedNumIncreasing buffer (word_of_int (ts_start slc d)))
               (word_of_int (ts_length slc d)))
           buffer [0..<ts_dims slc])"

fun Decode_extents :: "nat list \<Rightarrow> bytes \<Rightarrow> tensor_slice \<Rightarrow> error_code + tensor_slice" where
  "Decode_extents [] src slc = Inr slc"
| "Decode_extents (d # ds) src slc =
     (case ReadSignedNumIncreasing src (Some 0) of
        Some (src, Some start) \<Rightarrow>
          (case ReadSignedNumIncreasing src (Some 0) of
             Some (src, Some len) \<Rightarrow>
               Decode_extents ds src
                 (if sint len \<ge> 0 then set_length d (sint len) (set_start d (sint start) slc) else slc)
           | _ \<Rightarrow> Inl INTERNAL)
      | _ \<Rightarrow> Inl INTERNAL)"

definition DecodeTensorNameSlice :: "bytes \<Rightarrow> bytes \<Rightarrow> error_code + (bytes \<times> tensor_slice)" where
  "DecodeTensorNameSlice code name =
     (case ReadNumIncreasing code (Some 0) of
        Some (src, Some x) \<Rightarrow>
          if x \<noteq> 0 then Inl INTERNAL
          else (case ReadString src (Some name) of
            Some (src, Some name) \<Rightarrow>
              (case ReadNumIncreasing src (Some x) of
                 Some (src, Some x) \<Rightarrow>
                   if x = 0 then Inl INTERNAL
                   else if x \<ge> 2147483647 then Inl INTERNAL
                   else (case Decode_extents [0..<unat x] src (SetFullSlice (unat x)) of
                     Inl e \<Rightarrow> Inl e
                   | Inr slc \<Rightarrow> Inr (name, slc))
               | _ \<Rightarrow> Inl INTERNAL)
          | _ \<Rightarrow> Inl INTERNAL)
      | _ \<Rightarrow> Inl INTERNAL)"

fun parse_dims :: "string list \<Rightarrow> shape \<Rightarrow> (status \<times> shape) option" where
  "parse_dims [] sh = Some (OK, sh)"
| "parse_dims (s # splits) sh =
     (case safe_strto64 s of
        None \<Rightarrow> Some (Error INVALID_ARGUMENT ''Non numerical dimension in shape_and_slice'', sh)
      | Some dim \<Rightarrow> (case AddDim False sh dim of None \<Rightarrow> None | Some sh \<Rightarrow> parse_dims splits sh))"

definition ParseShapeAndSlice ::
  "string \<Rightarrow> shape \<Rightarrow> tensor_slice \<Rightarrow> shape \<Rightarrow> (status \<times> shape \<times> tensor_slice \<times> shape) option" where
  "ParseShapeAndSlice shape_and_slice sh slc shape_slice =
     (if shape_and_slice = [] then None
      else let splits = Split shape_and_slice '' '' AllowEmpty in
        if length splits < 2
        then Some (Error INVALID_ARGUMENT ''Need least two elements'', sh, slc, shape_slice)
        else case ts_Parse (last splits) (ts_Clear slc) of
          (Error c m, slc) \<Rightarrow> Some (Error c m, sh, slc, shape_slice)
        | (OK, slc) \<Rightarrow>
            (case parse_dims (butlast splits) (Clear sh) of
               None \<Rightarrow> None
             | Some (Error c m, sh) \<Rightarrow> Some (Error c m, sh, slc, shape_slice)
             | Some (OK, sh) \<Rightarrow>
                 map_option (\<lambda>(st, r). (st, sh, slc, r)) (SliceTensorShape slc sh shape_slice)))"

section \<open>Extents as sets of indices\<close>

lemma wrap64_id: "- (2 ^ 63) \<le> x \<Longrightarrow> x < 2 ^ 63 \<Longrightarrow> wrap64 x = x"
  unfolding wrap64_def int_word_sint by (simp add: mod_pos_pos_trivial)

definition extent_ok :: "int \<times> int \<Rightarrow> bool" where
  "extent_ok e \<longleftrightarrow> e = (0, kFullExtent) \<or> 0 \<le> fst e \<and> 0 < snd e \<and> fst e + snd e < 2 ^ 63"

definition extent_set :: "int \<times> int \<Rightarrow> int set" where
  "extent_set e = (if e = (0, kFullExtent) then {0..} else {fst e..<fst e + snd e})"

definition ts_extent :: "tensor_slice \<Rightarrow> nat \<Rightarrow> int \<times> int" where
  "ts_extent ts d = (starts ts ! d, lengths ts ! d)"

definition ts_ok :: "tensor_slice \<Rightarrow> bool" where
  "ts_ok ts \<longleftrightarrow> length (lengths ts) = ts_dims ts \<and> list_all (\<lambda>d. extent_ok (ts_extent ts d)) [0..<ts_dims ts]"

lemma IsFullAt_extent: "IsFullAt ts d \<longleftrightarrow> ts_extent ts d = (0, kFullExtent)"
  by (auto simp: IsFullAt_def ts_extent_def)

lemma ts_okD: "ts_ok ts \<Longrightarrow> d < ts_dims ts \<Longrightarrow> extent_ok (ts_extent ts d)"
  by (simp add: ts_ok_def list_all_iff)

lemma ts_end_ok: "ts_ok ts \<Longrightarrow> d < ts_dims ts \<Longrightarrow> \<not> IsFullAt ts d \<Longrightarrow>
    ts_end ts d = ts_start ts d + ts_length ts d"
  using ts_okD [of ts d]
  by (auto simp: ts_end_def IsFullAt_extent extent_ok_def ts_extent_def ts_start_def ts_length_def wrap64_id)

lemma ts_eqI:
  assumes "ts_ok a" "ts_ok b" "ts_dims a = ts_dims b" "\<And>d. d < ts_dims a \<Longrightarrow> ts_extent a d = ts_extent b d"
  shows "a = b"
proof -
  have "starts a = starts b" "lengths a = lengths b"
    using assms by (auto simp: ts_ok_def ts_dims_def ts_extent_def intro!: nth_equalityI)
  then show ?thesis by simp
qed

section \<open>Intersection\<close>

text \<open>What one iteration of Intersect decides for its dimension.\<close>

definition int_dim :: "tensor_slice \<Rightarrow> tensor_slice \<Rightarrow> nat \<Rightarrow> (int \<times> int) option" where
  "int_dim a b d =
     (if IsFullAt a d then Some (ts_extent b d)
      else if IsFullAt b d then Some (ts_extent a d)
      else let s = max (ts_start a d) (ts_start b d); l = wrap64 (min (ts_end a d) (ts_end b d) - s)
        in if l > 0 then Some (s, l) else None)"

lemma Intersect_loop_eq:
  assumes "distinct ds" "set ds \<subseteq> {..<n}" "length (starts r) = n" "length (lengths r) = n"
  shows "if \<forall>d \<in> set ds. int_dim a b d \<noteq> None
    then \<exists>r'. Intersect_loop a b ds (Some r) = (True, Some r') \<and> length (starts r') = n \<and> length (lengths r') = n \<and>
      (\<forall>d<n. ts_extent r' d = (if d \<in> set ds then the (int_dim a b d) else ts_extent r d))
    else Intersect_loop a b ds (Some r) = (False, Some \<lparr>starts = [], lengths = []\<rparr>)"
  using assms
proof (induction ds arbitrary: r)
  case (Cons d ds)
  show ?case
  proof (cases "int_dim a b d")
    case None
    then show ?thesis by (auto simp: int_dim_def Let_def ts_Clear_def split: if_splits)
  next
    case (Some e)
    define r1 where "r1 = set_length d (snd e) (set_start d (fst e) r)"
    have step: "Intersect_loop a b (d # ds) (Some r) = Intersect_loop a b ds (Some r1)"
      using Some by (auto simp: int_dim_def r1_def Let_def ts_extent_def ts_start_def ts_length_def split: if_splits)
    have l: "length (starts r1) = n" "length (lengths r1) = n"
      using Cons.prems by (simp_all add: r1_def set_start_def set_length_def)
    have x: "ts_extent r1 k = (if k = d then e else ts_extent r k)" if "k < n" for k
      using Cons.prems that by (auto simp: r1_def set_start_def set_length_def ts_extent_def)
    from Cons.IH [OF _ _ l] Cons.prems have
      "if \<forall>d \<in> set ds. int_dim a b d \<noteq> None
       then \<exists>r'. Intersect_loop a b ds (Some r1) = (True, Some r') \<and> length (starts r') = n \<and> length (lengths r') = n \<and>
         (\<forall>d<n. ts_extent r' d = (if d \<in> set ds then the (int_dim a b d) else ts_extent r1 d))
       else Intersect_loop a b ds (Some r1) = (False, Some \<lparr>starts = [], lengths = []\<rparr>)"
      by simp
    then show ?thesis
      unfolding step using Some x Cons.prems(1)
      by (cases "\<forall>d \<in> set ds. int_dim a b d \<noteq> None") auto
  qed
qed simp

lemma int_dim_set:
  assumes "ts_ok a" "ts_ok b" "d < ts_dims a" "d < ts_dims b"
  shows "case int_dim a b d of
      None \<Rightarrow> extent_set (ts_extent a d) \<inter> extent_set (ts_extent b d) = {}
    | Some e \<Rightarrow> extent_ok e \<and> extent_set e = extent_set (ts_extent a d) \<inter> extent_set (ts_extent b d) \<and> extent_set e \<noteq> {}"
proof -
  obtain s1 l1 where a: "ts_extent a d = (s1, l1)" by fastforce
  obtain s2 l2 where b: "ts_extent b d = (s2, l2)" by fastforce
  have oa: "extent_ok (s1, l1)" and ob: "extent_ok (s2, l2)"
    using ts_okD [OF assms(1,3)] ts_okD [OF assms(2,4)] a b by simp_all
  have sub: "extent_set (s, l) \<subseteq> {0..}" "extent_set (s, l) \<noteq> {}" if "extent_ok (s, l)" for s l
    using that by (auto simp: extent_ok_def extent_set_def kFullExtent_def)
  show ?thesis
  proof (cases "IsFullAt a d \<or> IsFullAt b d")
    case True
    then show ?thesis using sub [OF oa] sub [OF ob] oa ob a b
      by (auto simp: int_dim_def IsFullAt_extent extent_set_def [of "(0, kFullExtent)"])
  next
    case False
    then have na: "(s1, l1) \<noteq> (0, kFullExtent)" and nb: "(s2, l2) \<noteq> (0, kFullExtent)"
      using a b by (auto simp: IsFullAt_extent)
    then have r: "0 \<le> s1" "0 < l1" "s1 + l1 < 2 ^ 63" "0 \<le> s2" "0 < l2" "s2 + l2 < 2 ^ 63"
      using oa ob by (auto simp: extent_ok_def)
    have e: "ts_end a d = s1 + l1" "ts_end b d = s2 + l2" "ts_start a d = s1" "ts_start b d = s2"
      using ts_end_ok assms False a b by (auto simp: ts_extent_def ts_start_def ts_length_def)
    have w: "wrap64 (min (s1 + l1) (s2 + l2) - max s1 s2) = min (s1 + l1) (s2 + l2) - max s1 s2"
      using r by (intro wrap64_id) (simp_all add: min_def max_def)
    have sets: "extent_set (s1, l1) \<inter> extent_set (s2, l2) = {max s1 s2..<min (s1 + l1) (s2 + l2)}"
      using na nb by (auto simp: extent_set_def)
    show ?thesis unfolding int_dim_def Let_def e w a b sets
      using False r by (auto simp: extent_ok_def extent_set_def kFullExtent_def)
  qed
qed

text \<open>
  Intersect computes the intersection of the index sets: it returns true exactly when
  the slices share an index in every dimension, and then the result is a valid slice whose
  extent in each dimension is the intersection of the two extents; otherwise the result is
  cleared. Overlaps agrees with it.
\<close>

theorem Intersect_is_intersection:
  assumes "ts_ok a" "ts_ok b" "ts_dims a = ts_dims b"
  shows "case Intersect a b (Some r0) of
      (True, Some r) \<Rightarrow> ts_ok r \<and> ts_dims r = ts_dims a \<and>
        list_all (\<lambda>d. extent_set (ts_extent r d) = extent_set (ts_extent a d) \<inter> extent_set (ts_extent b d) \<and>
          extent_set (ts_extent r d) \<noteq> {}) [0..<ts_dims a]
    | (False, Some r) \<Rightarrow> ts_dims r = 0 \<and>
        list_ex (\<lambda>d. extent_set (ts_extent a d) \<inter> extent_set (ts_extent b d) = {}) [0..<ts_dims a]
    | (_, None) \<Rightarrow> False"
proof -
  define n where "n = ts_dims a"
  have I: "Intersect a b (Some r0) = Intersect_loop a b [0..<n] (Some (SetFullSlice n))"
    using assms(3) by (simp add: Intersect_def n_def)
  have D: "case int_dim a b d of
      None \<Rightarrow> extent_set (ts_extent a d) \<inter> extent_set (ts_extent b d) = {}
    | Some e \<Rightarrow> extent_ok e \<and> extent_set e = extent_set (ts_extent a d) \<inter> extent_set (ts_extent b d) \<and> extent_set e \<noteq> {}"
    if "d < n" for d using that assms by (intro int_dim_set) (simp_all add: n_def)
  have sub: "distinct [0..<n]" "set [0..<n] \<subseteq> {..<n}" by auto
  have len: "length (starts (SetFullSlice n)) = n" "length (lengths (SetFullSlice n)) = n"
    by (simp_all add: SetFullSlice_def)
  note L = Intersect_loop_eq [OF sub len, of a b]
  show ?thesis
  proof (cases "\<forall>d \<in> set [0..<n]. int_dim a b d \<noteq> None")
    case True
    then obtain r where r: "Intersect_loop a b [0..<n] (Some (SetFullSlice n)) = (True, Some r)"
      "length (starts r) = n" "length (lengths r) = n" "\<forall>d<n. ts_extent r d = the (int_dim a b d)"
      using L by auto
    have "extent_ok (ts_extent r d) \<and> extent_set (ts_extent r d) = extent_set (ts_extent a d) \<inter> extent_set (ts_extent b d) \<and>
        extent_set (ts_extent r d) \<noteq> {}" if "d < n" for d
    proof -
      have "d \<in> set [0..<n]" using that by simp
      then obtain e where "int_dim a b d = Some e" using True by blast
      then show ?thesis using D [OF that] that r(4) by auto
    qed
    note P = this
    have "list_all (\<lambda>d. extent_set (ts_extent r d) = extent_set (ts_extent a d) \<inter> extent_set (ts_extent b d) \<and>
          extent_set (ts_extent r d) \<noteq> {}) [0..<n]"
    proof (unfold list_all_iff, intro ballI)
      fix d assume "d \<in> set [0..<n]"
      then have "d < n" by simp
      from P [OF this] show "extent_set (ts_extent r d) = extent_set (ts_extent a d) \<inter> extent_set (ts_extent b d) \<and>
          extent_set (ts_extent r d) \<noteq> {}" by blast
    qed
    moreover have "ts_ok r" using P r(2,3) by (simp add: ts_ok_def ts_dims_def list_all_iff)
    ultimately show ?thesis using I r(1,2)
      by (simp add: ts_dims_def n_def)
  next
    case False
    then obtain d where "d \<in> set [0..<n]" and dn: "int_dim a b d = None" by blast
    then have d: "d < n" "int_dim a b d = None" by simp_all
    have "Intersect_loop a b [0..<n] (Some (SetFullSlice n)) = (False, Some \<lparr>starts = [], lengths = []\<rparr>)"
      using L False by auto
    then show ?thesis using I D [OF d(1)] d by (auto simp: list_ex_iff n_def ts_dims_def)
  qed
qed

theorem Intersect_is_intersection_witness:
  "Intersect \<lparr>starts = [0, 2], lengths = [-1, 5]\<rparr> \<lparr>starts = [3, 4], lengths = [2, 9]\<rparr> (Some \<lparr>starts = [], lengths = []\<rparr>)
     = (True, Some \<lparr>starts = [3, 4], lengths = [2, 3]\<rparr>) \<and>
   extent_set (3, 2) = extent_set (0, -1) \<inter> extent_set (3, 2)"
proof -
  have i: "Intersect \<lparr>starts = [0, 2], lengths = [-1, 5]\<rparr> \<lparr>starts = [3, 4], lengths = [2, 9]\<rparr> (Some \<lparr>starts = [], lengths = []\<rparr>)
     = (True, Some \<lparr>starts = [3, 4], lengths = [2, 3]\<rparr>)" by code_simp
  have ok: "ts_ok \<lparr>starts = [0, 2], lengths = [-1, 5]\<rparr>" "ts_ok \<lparr>starts = [3, 4], lengths = [2, 9]\<rparr>"
    "ts_dims \<lparr>starts = [0, 2], lengths = [-1, 5]\<rparr> = ts_dims \<lparr>starts = [3, 4], lengths = [2, 9]\<rparr>" by code_simp+
  from Intersect_is_intersection [OF ok, of "\<lparr>starts = [], lengths = []\<rparr>"] show ?thesis
    unfolding i by (simp add: ts_dims_def ts_extent_def upt_rec)
qed

section \<open>Covering\<close>

definition cover_extent :: "tensor_slice \<Rightarrow> tensor_slice \<Rightarrow> nat \<Rightarrow> int \<times> int" where
  "cover_extent other ts d = ts_extent (cover_dim other ts d) d"

lemma cover_dim_shape:
  "length (starts (cover_dim other ts d)) = length (starts ts)"
  "length (lengths (cover_dim other ts d)) = length (lengths ts)"
  by (simp_all add: cover_dim_def Let_def set_start_def set_length_def)

lemma cover_dim_other: "k \<noteq> d \<Longrightarrow> ts_extent (cover_dim other ts d) k = ts_extent ts k"
  by (simp add: cover_dim_def Let_def set_start_def set_length_def ts_extent_def)

lemma cover_extent_local:
  assumes "ts_extent ts d = ts_extent ts' d" "d < ts_dims ts" "d < ts_dims ts'"
    "length (lengths ts) = ts_dims ts" "length (lengths ts') = ts_dims ts'"
  shows "cover_extent other ts d = cover_extent other ts' d"
  using assms
  by (simp add: cover_extent_def cover_dim_def Let_def set_start_def set_length_def ts_extent_def IsFullAt_def
      ts_end_def ts_start_def ts_length_def ts_dims_def)

lemma UpdateToCover_loop:
  assumes "length (lengths ts) = ts_dims ts" and "k \<le> ts_dims ts"
  shows "length (starts (foldl (cover_dim other) ts [0..<k])) = ts_dims ts \<and>
    length (lengths (foldl (cover_dim other) ts [0..<k])) = ts_dims ts \<and>
    (\<forall>d < ts_dims ts. ts_extent (foldl (cover_dim other) ts [0..<k]) d =
      (if d < k then cover_extent other ts d else ts_extent ts d))"
  using assms(2)
proof (induction k)
  case 0
  then show ?case using assms(1) by (simp add: ts_dims_def)
next
  case (Suc k)
  define r where "r = foldl (cover_dim other) ts [0..<k]"
  have ih: "length (starts r) = ts_dims ts" "length (lengths r) = ts_dims ts"
    "\<forall>d < ts_dims ts. ts_extent r d = (if d < k then cover_extent other ts d else ts_extent ts d)"
    using Suc by (simp_all add: r_def)
  have step: "foldl (cover_dim other) ts [0..<Suc k] = cover_dim other r k" by (simp add: r_def)
  have "ts_extent (cover_dim other r k) k = cover_extent other ts k"
    using ih Suc.prems assms(1) cover_extent_local [of r k ts other]
    by (simp add: cover_extent_def [of other r] ts_dims_def)
  then show ?case unfolding step
    using ih by (auto simp: cover_dim_shape cover_dim_other less_Suc_eq)
qed

lemma cover_extent_hull:
  assumes "ts_ok ts" "ts_ok other" "d < ts_dims ts" "d < ts_dims other"
  shows "extent_ok (cover_extent other ts d) \<and>
    (if IsFullAt ts d \<or> IsFullAt other d then cover_extent other ts d = (0, kFullExtent)
     else extent_set (cover_extent other ts d) =
       {min (ts_start ts d) (ts_start other d)..<max (ts_end ts d) (ts_end other d)})"
proof -
  have len: "length (lengths ts) = ts_dims ts" using assms(1) by (simp add: ts_ok_def)
  have oa: "extent_ok (ts_extent ts d)" and ob: "extent_ok (ts_extent other d)"
    using ts_okD assms by auto
  show ?thesis
  proof (cases "IsFullAt ts d \<or> IsFullAt other d")
    case True
    then show ?thesis using assms(3) len
      by (auto simp: cover_extent_def cover_dim_def IsFullAt_extent set_start_def set_length_def ts_extent_def
          ts_dims_def extent_ok_def)
  next
    case False
    then have r: "0 \<le> ts_start ts d" "0 < ts_length ts d" "ts_start ts d + ts_length ts d < 2 ^ 63"
      "0 \<le> ts_start other d" "0 < ts_length other d" "ts_start other d + ts_length other d < 2 ^ 63"
      using oa ob by (auto simp: extent_ok_def IsFullAt_extent ts_extent_def ts_start_def ts_length_def)
    have e: "ts_end ts d = ts_start ts d + ts_length ts d" "ts_end other d = ts_start other d + ts_length other d"
      using ts_end_ok assms False by auto
    define s where "s = min (ts_start ts d) (ts_start other d)"
    define t where "t = max (ts_end ts d) (ts_end other d)"
    have st: "0 \<le> s" "s < t" "t < 2 ^ 63" using r e by (simp_all add: s_def t_def min_def max_def)
    have "cover_extent other ts d = (s, wrap64 (t - s))"
      using False assms(3) len
      by (simp add: cover_extent_def cover_dim_def Let_def ts_extent_def set_start_def set_length_def
          ts_dims_def s_def t_def ts_start_def)
    also have "wrap64 (t - s) = t - s" using st by (intro wrap64_id) simp_all
    finally have c: "cover_extent other ts d = (s, t - s)" .
    then have "extent_set (cover_extent other ts d) = {s..<t}" "extent_ok (cover_extent other ts d)"
      using st by (auto simp: extent_set_def extent_ok_def kFullExtent_def)
    then show ?thesis using False by (simp add: s_def t_def)
  qed
qed

text \<open>
  UpdateToCover yields a valid slice of the same rank that contains every index of both
  slices, and no more than needed: a dimension full in either becomes full, any other becomes
  the interval from the smaller start to the larger end.
\<close>

theorem UpdateToCover_hull:
  assumes "ts_ok ts" "ts_ok other" "ts_dims ts = ts_dims other"
  shows "ts_ok (UpdateToCover ts other) \<and> ts_dims (UpdateToCover ts other) = ts_dims ts \<and>
    list_all (\<lambda>d.
      extent_set (ts_extent ts d) \<union> extent_set (ts_extent other d) \<subseteq> extent_set (ts_extent (UpdateToCover ts other) d) \<and>
      (if IsFullAt ts d \<or> IsFullAt other d then IsFullAt (UpdateToCover ts other) d
       else extent_set (ts_extent (UpdateToCover ts other) d) =
         {min (ts_start ts d) (ts_start other d)..<max (ts_end ts d) (ts_end other d)})) [0..<ts_dims ts]"
proof -
  define r where "r = UpdateToCover ts other"
  have len: "length (lengths ts) = ts_dims ts" using assms(1) by (simp add: ts_ok_def)
  have r: "length (starts r) = ts_dims ts" "length (lengths r) = ts_dims ts"
    "\<forall>d < ts_dims ts. ts_extent r d = cover_extent other ts d"
    using UpdateToCover_loop [OF len order_refl, of other] by (simp_all add: r_def UpdateToCover_def)
  have P: "extent_ok (ts_extent r d) \<and>
      extent_set (ts_extent ts d) \<union> extent_set (ts_extent other d) \<subseteq> extent_set (ts_extent r d) \<and>
      (if IsFullAt ts d \<or> IsFullAt other d then IsFullAt r d
       else extent_set (ts_extent r d) = {min (ts_start ts d) (ts_start other d)..<max (ts_end ts d) (ts_end other d)})"
    if d: "d < ts_dims ts" for d
  proof -
    have h: "extent_ok (ts_extent r d)" "if IsFullAt ts d \<or> IsFullAt other d then ts_extent r d = (0, kFullExtent)
      else extent_set (ts_extent r d) = {min (ts_start ts d) (ts_start other d)..<max (ts_end ts d) (ts_end other d)}"
    proof -
      have eq: "ts_extent r d = cover_extent other ts d" using r(3) d by simp
      have "d < ts_dims other" using d assms(3) by simp
      from cover_extent_hull [OF assms(1,2) d this]
      show "extent_ok (ts_extent r d)" "if IsFullAt ts d \<or> IsFullAt other d then ts_extent r d = (0, kFullExtent)
        else extent_set (ts_extent r d) = {min (ts_start ts d) (ts_start other d)..<max (ts_end ts d) (ts_end other d)}"
        unfolding eq by blast+
    qed
    have pos: "extent_set e \<subseteq> {0..}" if "extent_ok e" for e
      using that by (auto simp: extent_ok_def extent_set_def)
    have "extent_set (ts_extent ts d) \<union> extent_set (ts_extent other d) \<subseteq> extent_set (ts_extent r d)"
    proof (cases "IsFullAt ts d \<or> IsFullAt other d")
      case True
      then have "extent_set (ts_extent r d) = {0..}" using h by (simp add: extent_set_def)
      moreover have "extent_ok (ts_extent ts d)" "extent_ok (ts_extent other d)"
        using ts_okD assms d by simp_all
      ultimately show ?thesis using pos by blast
    next
      case False
      have x: "extent_set (ts_extent x d) = {ts_start x d..<ts_end x d}" if "ts_ok x" "d < ts_dims x" "\<not> IsFullAt x d" for x
      proof -
        have "ts_end x d = ts_start x d + ts_length x d" using that by (rule ts_end_ok)
        then show ?thesis using that(3)
          by (auto simp: extent_set_def IsFullAt_extent ts_extent_def ts_start_def ts_length_def)
      qed
      have "extent_set (ts_extent r d) = {min (ts_start ts d) (ts_start other d)..<max (ts_end ts d) (ts_end other d)}"
        using False h by simp
      then show ?thesis using False x [OF assms(1) d] x [OF assms(2)] assms(3) d by auto
    qed
    then show ?thesis using h by (simp add: IsFullAt_extent split: if_splits)
  qed
  have "list_all (\<lambda>d.
      extent_set (ts_extent ts d) \<union> extent_set (ts_extent other d) \<subseteq> extent_set (ts_extent r d) \<and>
      (if IsFullAt ts d \<or> IsFullAt other d then IsFullAt r d
       else extent_set (ts_extent r d) =
         {min (ts_start ts d) (ts_start other d)..<max (ts_end ts d) (ts_end other d)})) [0..<ts_dims ts]"
    unfolding list_all_iff using P by (metis (no_types, lifting) atLeastLessThan_iff set_upt)
  moreover have "ts_ok r" using P r by (simp add: ts_ok_def ts_dims_def list_all_iff)
  ultimately show ?thesis unfolding r_def [symmetric] using r(1) by (simp add: ts_dims_def [of r])
qed

theorem UpdateToCover_hull_witness:
  "UpdateToCover \<lparr>starts = [2, 0, 3], lengths = [2, -1, 4]\<rparr> \<lparr>starts = [0, 1, 2], lengths = [-1, 3, 2]\<rparr>
     = \<lparr>starts = [0, 0, 2], lengths = [-1, -1, 5]\<rparr> \<and>
   extent_set (3, 4) \<union> extent_set (2, 2) \<subseteq> extent_set (2, 5)"
proof -
  have u: "UpdateToCover \<lparr>starts = [2, 0, 3], lengths = [2, -1, 4]\<rparr> \<lparr>starts = [0, 1, 2], lengths = [-1, 3, 2]\<rparr>
     = \<lparr>starts = [0, 0, 2], lengths = [-1, -1, 5]\<rparr>" by code_simp
  have ok: "ts_ok \<lparr>starts = [2, 0, 3], lengths = [2, -1, 4]\<rparr>" "ts_ok \<lparr>starts = [0, 1, 2], lengths = [-1, 3, 2]\<rparr>"
    "ts_dims \<lparr>starts = [2, 0, 3], lengths = [2, -1, 4]\<rparr> = ts_dims \<lparr>starts = [0, 1, 2], lengths = [-1, 3, 2]\<rparr>" by code_simp+
  have i: "[0..<ts_dims \<lparr>starts = [2, 0, 3], lengths = [2, -1, 4]\<rparr>] = [0, 1, 2]"
    by (simp add: ts_dims_def upt_rec)
  from UpdateToCover_hull [OF ok] show ?thesis
    unfolding u i by (simp add: ts_extent_def)
qed

section \<open>Slicing shapes\<close>

definition slice_dims :: "tensor_slice \<Rightarrow> int list \<Rightarrow> int list" where
  "slice_dims ts ds = map (\<lambda>d. if IsFullAt ts d then ds ! d else lengths ts ! d) [0..<length ds]"

definition slice_fits :: "tensor_slice \<Rightarrow> int list \<Rightarrow> bool" where
  "slice_fits ts ds \<longleftrightarrow> list_all (\<lambda>d. IsFullAt ts d \<or> ts_start ts d + ts_length ts d \<le> ds ! d) [0..<length ds]"

lemma prod_list_mono:
  fixes xs ys :: "int list"
  assumes "list_all2 (\<lambda>x y. 0 \<le> x \<and> x \<le> y) xs ys"
  shows "0 \<le> prod_list xs \<and> prod_list xs \<le> prod_list ys"
  using assms by (induction rule: list_all2_induct) (auto intro: mult_mono)

lemma list_ok_take: "list_ok p ds \<Longrightarrow> list_ok p (take k ds)"
  using list_ok_append [of p "take k ds" "drop k ds"] by simp

lemma list_ok_nonneg: "list_ok False ds \<Longrightarrow> \<forall>d \<in> set ds. 0 \<le> d \<and> d < 2 ^ 63"
  by (auto simp: list_ok_def list_all_iff valid_dim_def)

lemma elems_prod: "\<forall>d \<in> set ds. 0 \<le> d \<Longrightarrow> elems ds = prod_list ds"
  by (force simp: elems_def)

lemma list_ok_mono:
  assumes "list_all2 (\<lambda>x y. 0 \<le> x \<and> x \<le> y) es ds" and "list_ok False ds"
  shows "list_ok False es"
proof -
  have nd: "\<forall>d \<in> set ds. 0 \<le> d \<and> d < 2 ^ 63" using assms(2) by (rule list_ok_nonneg)
  have len: "length es = length ds" using assms(1) by (rule list_all2_lengthD)
  have ne: "\<forall>d \<in> set es. 0 \<le> d \<and> d < 2 ^ 63"
  proof
    fix d assume "d \<in> set es"
    then obtain i where i: "i < length es" "d = es ! i" by (auto simp: in_set_conv_nth)
    then have "0 \<le> d \<and> d \<le> ds ! i" using assms(1) by (simp add: list_all2_conv_all_nth)
    moreover have "ds ! i \<in> set ds" using i len by simp
    ultimately show "0 \<le> d \<and> d < 2 ^ 63" using nd by auto
  qed
  have "elems (take k es) < 2 ^ 63" if "k \<le> length es" for k
  proof -
    have "elems (take k ds) < 2 ^ 63" using list_ok_elems [OF list_ok_take [OF assms(2)]] .
    moreover have "elems (take k ds) = prod_list (take k ds)" "elems (take k es) = prod_list (take k es)"
      using nd ne by (auto intro!: elems_prod dest: in_set_takeD)
    moreover have "prod_list (take k es) \<le> prod_list (take k ds)"
      using prod_list_mono [of "take k es" "take k ds"] assms(1) by (simp add: list_all2_takeI)
    ultimately show ?thesis by simp
  qed
  note pre = this
  have "elems es < 2 ^ 63" using pre [of "length es"] by simp
  then show ?thesis using assms(2) ne len pre
    by (simp add: list_ok_def list_all_iff valid_dim_def less_Suc_eq_le)
qed

lemma slice_dims_bounds:
  assumes "ts_ok ts" "ts_dims ts = length ds" "slice_fits ts ds" "\<forall>d \<in> set ds. 0 \<le> d"
  shows "list_all2 (\<lambda>x y. 0 \<le> x \<and> x \<le> y) (slice_dims ts ds) ds"
  unfolding list_all2_conv_all_nth
proof (intro conjI allI impI)
  fix i assume "i < length (slice_dims ts ds)"
  then have i: "i < length ds" by (simp add: slice_dims_def)
  have "0 \<le> ds ! i" using assms(4) i by simp
  moreover have "extent_ok (ts_extent ts i)" using ts_okD [OF assms(1)] i assms(2) by simp
  moreover have "IsFullAt ts i \<or> ts_start ts i + ts_length ts i \<le> ds ! i"
    using assms(3) i by (simp add: slice_fits_def list_all_iff)
  ultimately show "0 \<le> slice_dims ts ds ! i" "slice_dims ts ds ! i \<le> ds ! i"
    using i by (auto simp: slice_dims_def extent_ok_def IsFullAt_extent ts_extent_def ts_start_def ts_length_def)
qed (simp add: slice_dims_def)

lemma SliceTensorShape_loop_ok:
  assumes "ts_ok ts" "shape_is False sh ds dt" "ts_dims ts = length ds" "slice_fits ts ds"
    and "k \<le> length ds" "shape_is False r (take k (slice_dims ts ds)) 0"
  shows "\<exists>r'. SliceTensorShape_loop ts sh [k..<length ds] r = Some (OK, r') \<and> shape_is False r' (slice_dims ts ds) 0"
  using assms(5,6)
proof (induction "length ds - k" arbitrary: k r)
  case 0
  then show ?case by (simp add: slice_dims_def)
next
  case (Suc n)
  then have k: "k < length ds" by simp
  define sd where "sd = slice_dims ts ds"
  have len: "length sd = length ds" by (simp add: sd_def slice_dims_def)
  note D = shape_isD [OF assms(2)]
  have b: "list_all2 (\<lambda>x y. 0 \<le> x \<and> x \<le> y) sd ds"
    unfolding sd_def using assms(1,3,4) list_ok_nonneg [OF D(5)] by (intro slice_dims_bounds) auto
  have ok: "list_ok False sd" by (rule list_ok_mono [OF b D(5)])
  have sz: "0 \<le> sd ! k" "sd ! k < 2 ^ 63" using list_ok_nonneg [OF ok] k len by auto
  have tk: "take (Suc k) sd = take k sd @ [sd ! k]" using k len by (simp add: take_Suc_conv_app_nth)
  have "list_ok False (take k sd @ [sd ! k])"
    using list_ok_take [OF ok, of "Suc k"] unfolding tk .
  then obtain r1 where r1: "AddDim False r (sd ! k) = Some r1" "shape_is False r1 (take (Suc k) sd) 0"
    using AddDim_ok [of False r "take k sd" 0 "sd ! k"] Suc.prems sz tk by (auto simp: sd_def)
  have step: "SliceTensorShape_loop ts sh [k..<length ds] r = SliceTensorShape_loop ts sh [Suc k..<length ds] r1"
  proof -
    have fit: "IsFullAt ts k \<or> ts_start ts k + ts_length ts k \<le> ds ! k"
      using assms(4) k by (simp add: slice_fits_def list_all_iff)
    have ds: "dim_size False sh k = ds ! k" using shape_is_dim_size [OF assms(2) k] .
    have u: "[k..<length ds] = k # [Suc k..<length ds]" using k by (rule upt_conv_Cons)
    show ?thesis
    proof (cases "IsFullAt ts k")
      case True
      then have "sd ! k = ds ! k" using k by (simp add: sd_def slice_dims_def)
      then show ?thesis using True r1(1) ds by (simp add: u)
    next
      case False
      then have "sd ! k = ts_length ts k" using k by (simp add: sd_def slice_dims_def ts_length_def)
      moreover have "ts_end ts k = ts_start ts k + ts_length ts k"
        using assms(1,3) k False by (intro ts_end_ok) simp_all
      ultimately show ?thesis using False r1(1) ds fit by (simp add: u)
    qed
  qed
  show ?case unfolding step using Suc.hyps(2) k r1(2) by (intro Suc.hyps(1)) (simp_all add: sd_def)
qed

lemma SliceTensorShape_loop_bad:
  assumes "ts_ok ts" "shape_is False sh ds dt" "ts_dims ts = length ds"
    and "k \<le> length ds" "shape_is False r (take k (slice_dims ts ds)) 0"
    and "\<exists>d. k \<le> d \<and> d < length ds \<and> \<not> (IsFullAt ts d \<or> ts_start ts d + ts_length ts d \<le> ds ! d)"
    and "\<forall>d<k. IsFullAt ts d \<or> ts_start ts d + ts_length ts d \<le> ds ! d"
  shows "\<exists>m r'. SliceTensorShape_loop ts sh [k..<length ds] r = Some (Error INTERNAL m, r')"
  using assms(4-)
proof (induction "length ds - k" arbitrary: k r)
  case 0
  then show ?case by auto
next
  case (Suc n)
  then have k: "k < length ds" by simp
  have u: "[k..<length ds] = k # [Suc k..<length ds]" using k by (rule upt_conv_Cons)
  note D = shape_isD [OF assms(2)]
  have ds: "dim_size False sh k = ds ! k" using shape_is_dim_size [OF assms(2) k] .
  have e: "ts_end ts k = ts_start ts k + ts_length ts k" if "\<not> IsFullAt ts k"
    using assms(1,3) k that by (intro ts_end_ok) simp_all
  show ?case
  proof (cases "IsFullAt ts k \<or> ts_start ts k + ts_length ts k \<le> ds ! k")
    case False
    then show ?thesis using ds e by (simp add: u)
  next
    case True
    define sz where "sz = (if IsFullAt ts k then ds ! k else ts_length ts k)"
    have pre: "\<forall>d<Suc k. IsFullAt ts d \<or> ts_start ts d + ts_length ts d \<le> ds ! d"
      using Suc.prems(4) True by (auto simp: less_Suc_eq)
    define sd where "sd = slice_dims ts ds"
    have len: "length sd = length ds" by (simp add: sd_def slice_dims_def)
    have sk: "sd ! k = sz" using k by (simp add: sd_def slice_dims_def sz_def ts_length_def)
    have tk: "take (Suc k) sd = take k sd @ [sz]" using k len sk by (simp add: take_Suc_conv_app_nth)
    have b: "list_all2 (\<lambda>x y. 0 \<le> x \<and> x \<le> y) (take (Suc k) sd) (take (Suc k) ds)"
      unfolding list_all2_conv_all_nth
    proof (intro conjI allI impI)
      fix i assume "i < length (take (Suc k) sd)"
      then have i: "i < Suc k" "i < length ds" using len by simp_all
      have "0 \<le> ds ! i" using list_ok_nonneg [OF D(5)] i by simp
      moreover have "extent_ok (ts_extent ts i)" using ts_okD [OF assms(1)] i assms(3) by simp
      ultimately show "0 \<le> take (Suc k) sd ! i" "take (Suc k) sd ! i \<le> take (Suc k) ds ! i"
        using pre i by (auto simp: sd_def slice_dims_def extent_ok_def IsFullAt_extent ts_extent_def
            ts_start_def ts_length_def)
    qed (simp add: len)
    have "list_ok False (take (Suc k) ds)"
      by (rule list_ok_take [OF D(5)])
    then have ok: "list_ok False (take k sd @ [sz])" using list_ok_mono [OF b] tk by simp
    then have sz: "0 \<le> sz" "sz < 2 ^ 63" using list_ok_nonneg by auto
    obtain r1 where r1: "AddDim False r sz = Some r1" "shape_is False r1 (take (Suc k) sd) 0"
      using AddDim_ok [of False r "take k sd" 0 sz] Suc.prems(2) sz tk ok by (auto simp: sd_def)
    have step: "SliceTensorShape_loop ts sh [k..<length ds] r = SliceTensorShape_loop ts sh [Suc k..<length ds] r1"
      using True r1(1) ds e by (simp add: u sz_def split: if_splits)
    show ?thesis unfolding step
    proof (rule Suc.hyps(1))
      show "\<exists>d\<ge>Suc k. d < length ds \<and> \<not> (IsFullAt ts d \<or> ts_start ts d + ts_length ts d \<le> ds ! d)"
        using Suc.prems(3) True by (metis Suc_leI le_neq_implies_less)
    qed (use Suc.hyps(2) k r1(2) pre in \<open>simp_all add: sd_def\<close>)
  qed
qed

lemma SliceTensorShape_ok:
  assumes "ts_ok ts" "shape_is False sh ds dt" "ts_dims ts = length ds"
  shows "if slice_fits ts ds
    then \<exists>r'. SliceTensorShape ts sh r = Some (OK, r') \<and> shape_is False r' (slice_dims ts ds) 0
    else \<exists>m r'. SliceTensorShape ts sh r = Some (Error INTERNAL m, r')"
proof -
  have s: "SliceTensorShape ts sh r = SliceTensorShape_loop ts sh [0..<length ds] (Clear r)"
    using assms shape_isD(2) [OF assms(2)] by (simp add: SliceTensorShape_def del: of_nat_eq_iff)
  show ?thesis
  proof (cases "slice_fits ts ds")
    case True
    then show ?thesis unfolding s
      using SliceTensorShape_loop_ok [OF assms True, of 0 "Clear r"] Clear_ok by simp
  next
    case False
    then have "\<exists>d\<ge>0. d < length ds \<and> \<not> (IsFullAt ts d \<or> ts_start ts d + ts_length ts d \<le> ds ! d)"
      by (auto simp: slice_fits_def list_all_iff)
    then show ?thesis unfolding s
      using SliceTensorShape_loop_bad [OF assms, of 0 "Clear r"] Clear_ok False by simp
  qed
qed

text \<open>
  SliceTensorShape never aborts: it returns OK with the shape whose sizes are the slice's
  lengths (the whole size where the slice is full) exactly when every extent ends within its
  dimension, and an internal error otherwise, also for mismatching ranks.
\<close>

theorem SliceTensorShape_total:
  assumes "ts_ok ts" "shape_is False sh ds dt"
  shows "case SliceTensorShape ts sh r of
      None \<Rightarrow> False
    | Some (OK, r') \<Rightarrow> ts_dims ts = length ds \<and> slice_fits ts ds \<and> shape_is False r' (slice_dims ts ds) 0
    | Some (Error c m, r') \<Rightarrow> c = INTERNAL \<and> \<not> (ts_dims ts = length ds \<and> slice_fits ts ds)"
proof (cases "ts_dims ts = length ds")
  case False
  then have "dims False sh \<noteq> int (ts_dims ts)" using shape_isD(2) [OF assms(2)] by simp
  then show ?thesis using False by (simp add: SliceTensorShape_def)
next
  case True
  show ?thesis
  proof (cases "slice_fits ts ds")
    case fits: True
    then obtain r' where "SliceTensorShape ts sh r = Some (OK, r')" "shape_is False r' (slice_dims ts ds) 0"
      using SliceTensorShape_ok [OF assms True, of r] by auto
    then show ?thesis using True fits by simp
  next
    case bad: False
    then obtain m r' where "SliceTensorShape ts sh r = Some (Error INTERNAL m, r')"
      using SliceTensorShape_ok [OF assms True, of r] by auto
    then show ?thesis using bad by simp
  qed
qed

definition shape_3_4_5 :: shape where
  "shape_3_4_5 = \<lparr>buf = REP16 [3, 4, 5, 0, 0, 0], ndims_byte = 3, num_elements = 60, data_type = 0\<rparr>"

lemma shape_3_4_5_is: "shape_is False shape_3_4_5 [3, 4, 5] 0"
  by code_simp

theorem SliceTensorShape_total_witness:
  "map_option fst (SliceTensorShape \<lparr>starts = [1, 0, 0], lengths = [2, -1, 2]\<rparr> shape_3_4_5 shape_3_4_5) = Some OK \<and>
   slice_fits \<lparr>starts = [1, 0, 0], lengths = [2, -1, 2]\<rparr> [3, 4, 5] \<and>
   slice_dims \<lparr>starts = [1, 0, 0], lengths = [2, -1, 2]\<rparr> [3, 4, 5] = [2, 4, 2]"
proof -
  have ok: "ts_ok \<lparr>starts = [1, 0, 0], lengths = [2, -1, 2]\<rparr>" by code_simp
  have "map_option fst (SliceTensorShape \<lparr>starts = [1, 0, 0], lengths = [2, -1, 2]\<rparr> shape_3_4_5 shape_3_4_5) = Some OK"
    by code_simp
  moreover have "slice_dims \<lparr>starts = [1, 0, 0], lengths = [2, -1, 2]\<rparr> [3, 4, 5] = [2, 4, 2]" by code_simp
  ultimately show ?thesis using SliceTensorShape_total [OF ok shape_3_4_5_is, of shape_3_4_5]
    by (auto split: option.splits prod.splits status.splits)
qed

section \<open>Relative slices\<close>

lemma ComputeRelative_loop:
  assumes "length (lengths sub) = ts_dims sub" "ts_dims sub = ts_dims ts" and "k \<le> ts_dims ts"
  defines "step \<equiv> \<lambda>relative d. if IsFullAt ts d
         then set_length d (ts_length sub d) (set_start d (ts_start sub d) relative)
         else set_length d (ts_length sub d) (set_start d (wrap64 (ts_start sub d - ts_start ts d)) relative)"
  defines "r \<equiv> foldl step (SetFullSlice (ts_dims ts)) [0..<k]"
  shows "length (starts r) = ts_dims ts \<and> length (lengths r) = ts_dims ts \<and>
    (\<forall>d<k. ts_extent r d = (if IsFullAt ts d then ts_extent sub d
       else (wrap64 (ts_start sub d - ts_start ts d), ts_length sub d)))"
  using assms(3) unfolding r_def
proof (induction k)
  case 0
  then show ?case by (simp add: SetFullSlice_def)
next
  case (Suc k)
  then show ?case
    by (auto simp: step_def set_start_def set_length_def ts_extent_def ts_start_def ts_length_def less_Suc_eq)
qed

definition contains_slice :: "tensor_slice \<Rightarrow> tensor_slice \<Rightarrow> bool" where
  "contains_slice ts sub \<longleftrightarrow> ts_dims sub = ts_dims ts \<and>
     list_all (\<lambda>d. IsFullAt ts d \<or> \<not> IsFullAt sub d \<and> ts_start ts d \<le> ts_start sub d \<and>
       ts_start sub d + ts_length sub d \<le> ts_start ts d + ts_length ts d) [0..<ts_dims ts]"

lemma ComputeRelative_ok:
  assumes "ts_ok ts" "ts_ok sub" "contains_slice ts sub" "ts_dims ts = length ds" "slice_fits ts ds" "slice_fits sub ds"
  shows "ts_ok (ComputeRelative ts sub)" "ts_dims (ComputeRelative ts sub) = length ds"
    "slice_fits (ComputeRelative ts sub) (slice_dims ts ds)"
    "slice_dims (ComputeRelative ts sub) (slice_dims ts ds) = slice_dims sub ds"
proof -
  define r where "r = ComputeRelative ts sub"
  have n: "ts_dims sub = length ds" using assms(3,4) by (simp add: contains_slice_def)
  have r: "length (starts r) = length ds" "length (lengths r) = length ds"
    "\<forall>d < length ds. ts_extent r d = (if IsFullAt ts d then ts_extent sub d
       else (wrap64 (ts_start sub d - ts_start ts d), ts_length sub d))"
    using ComputeRelative_loop [of sub ts "ts_dims ts"] assms(2,4) n
    by (simp_all add: r_def ComputeRelative_def ts_ok_def)
  have E: "extent_ok (ts_extent r d) \<and>
      (IsFullAt r d \<or> ts_start r d + ts_length r d \<le> slice_dims ts ds ! d) \<and>
      (if IsFullAt r d then slice_dims ts ds ! d else lengths r ! d) = (if IsFullAt sub d then ds ! d else lengths sub ! d)"
    if d: "d < length ds" for d
  proof -
    have os: "extent_ok (ts_extent sub d)" and ot: "extent_ok (ts_extent ts d)"
      using ts_okD assms(1,2,4) n d by auto
    have fs: "IsFullAt sub d \<or> ts_start sub d + ts_length sub d \<le> ds ! d"
      using assms(6) d by (simp add: slice_fits_def list_all_iff)
    show ?thesis
    proof (cases "IsFullAt ts d")
      case True
      then have e: "ts_extent r d = ts_extent sub d" using r(3) d by simp
      then have f: "starts r ! d = starts sub ! d" "lengths r ! d = lengths sub ! d" by (simp_all add: ts_extent_def)
      then show ?thesis using True os fs d e
        by (auto simp: slice_dims_def ts_start_def ts_length_def IsFullAt_def)
    next
      case False
      then have c: "\<not> IsFullAt sub d" "ts_start ts d \<le> ts_start sub d"
        "ts_start sub d + ts_length sub d \<le> ts_start ts d + ts_length ts d"
        using assms(3,4) d by (auto simp: contains_slice_def list_all_iff)
      then have s: "0 \<le> ts_start sub d" "0 < ts_length sub d" "ts_start sub d + ts_length sub d < 2 ^ 63"
        using os by (auto simp: extent_ok_def IsFullAt_extent ts_extent_def ts_start_def ts_length_def)
      have t: "0 \<le> ts_start ts d" using False ot
        by (auto simp: extent_ok_def IsFullAt_extent ts_extent_def ts_start_def ts_length_def)
      have "wrap64 (ts_start sub d - ts_start ts d) = ts_start sub d - ts_start ts d"
        using c s t by (intro wrap64_id) linarith+
      then have e: "ts_extent r d = (ts_start sub d - ts_start ts d, ts_length sub d)" using r(3) d False by simp
      then have f: "starts r ! d = ts_start sub d - ts_start ts d" "lengths r ! d = ts_length sub d"
        by (simp_all add: ts_extent_def)
      have nf: "\<not> IsFullAt r d" using f s by (auto simp: IsFullAt_def kFullExtent_def)
      have sd: "slice_dims ts ds ! d = ts_length ts d" using False d by (simp add: slice_dims_def ts_length_def)
      show ?thesis using nf c s t e f sd
        by (auto simp: extent_ok_def ts_start_def ts_length_def)
    qed
  qed
  have l: "length (slice_dims ts ds) = length ds" by (simp add: slice_dims_def)
  show "ts_dims (ComputeRelative ts sub) = length ds" using r(1) by (simp add: ts_dims_def r_def)
  show "ts_ok (ComputeRelative ts sub)" using r E by (simp add: ts_ok_def ts_dims_def r_def list_all_iff)
  show "slice_fits (ComputeRelative ts sub) (slice_dims ts ds)"
    using E unfolding slice_fits_def l r_def [symmetric] by (simp add: list_all_iff)
  show "slice_dims (ComputeRelative ts sub) (slice_dims ts ds) = slice_dims sub ds"
    using E unfolding slice_dims_def [of _ "slice_dims ts ds"] l r_def [symmetric]
    by (simp add: slice_dims_def [of sub])
qed

text \<open>
  The documented equation of ComputeRelative: for a slice sub contained in ts and any
  shape both apply to, slicing the shape by ts and then by the relative slice succeeds and
  gives a shape of the same sizes as slicing it by sub directly.
\<close>

theorem ComputeRelative_composes:
  assumes "ts_ok ts" "ts_ok sub" "contains_slice ts sub" "shape_is False sh ds dt" "ts_dims ts = length ds"
    and "slice_fits ts ds" "slice_fits sub ds"
  shows "\<exists>s1 s2 s3. SliceTensorShape ts sh r1 = Some (OK, s1) \<and>
    SliceTensorShape (ComputeRelative ts sub) s1 r2 = Some (OK, s2) \<and>
    SliceTensorShape sub sh r3 = Some (OK, s3) \<and> dim_sizes False s2 = dim_sizes False s3"
proof -
  have n: "ts_dims sub = length ds" using assms(3,5) by (simp add: contains_slice_def)
  obtain s1 where s1: "SliceTensorShape ts sh r1 = Some (OK, s1)" "shape_is False s1 (slice_dims ts ds) 0"
    using SliceTensorShape_ok [OF assms(1,4,5), of r1] assms(6) by auto
  obtain s3 where s3: "SliceTensorShape sub sh r3 = Some (OK, s3)" "shape_is False s3 (slice_dims sub ds) 0"
    using SliceTensorShape_ok [OF assms(2,4) n, of r3] assms(7) by auto
  note C = ComputeRelative_ok [OF assms(1-3,5-7)]
  have "ts_dims (ComputeRelative ts sub) = length (slice_dims ts ds)" using C(2) by (simp add: slice_dims_def)
  then obtain s2 where s2: "SliceTensorShape (ComputeRelative ts sub) s1 r2 = Some (OK, s2)"
      "shape_is False s2 (slice_dims sub ds) 0"
    using SliceTensorShape_ok [OF C(1) s1(2), of r2] C(3,4) by auto
  have "dim_sizes False s2 = dim_sizes False s3"
    using shape_isD(1) [OF s2(2)] shape_isD(1) [OF s3(2)] by (simp add: dim_sizes_def)
  then show ?thesis using s1 s2 s3 by blast
qed

theorem ComputeRelative_composes_witness:
  "\<exists>s1 s2 s3. SliceTensorShape \<lparr>starts = [0, 0, 1], lengths = [2, -1, 3]\<rparr> shape_3_4_5 shape_3_4_5 = Some (OK, s1) \<and>
    SliceTensorShape (ComputeRelative \<lparr>starts = [0, 0, 1], lengths = [2, -1, 3]\<rparr>
      \<lparr>starts = [1, 2, 1], lengths = [1, 2, 2]\<rparr>) s1 shape_3_4_5 = Some (OK, s2) \<and>
    SliceTensorShape \<lparr>starts = [1, 2, 1], lengths = [1, 2, 2]\<rparr> shape_3_4_5 shape_3_4_5 = Some (OK, s3) \<and>
    dim_sizes False s2 = dim_sizes False s3"
  by (rule ComputeRelative_composes [OF _ _ _ shape_3_4_5_is]) code_simp+

section \<open>The text format\<close>

lemma ts_DebugString_Join: "ts_DebugString ts = Join (map (ts_extent_string ts) [0..<ts_dims ts]) '':''"
proof -
  have "ts_DebugString_loop b xs = Join_loop b '':'' xs" for b xs
    by (induction b xs rule: ts_DebugString_loop.induct) simp_all
  then show ?thesis by (simp add: ts_DebugString_def Join_def)
qed

lemma int_string_chars:
  "c \<in> set (FastInt64ToBufferLeft i) \<Longrightarrow> isdigit c \<or> c = CHR ''-''"
  using FastInt64_chars(1) [of i] by auto

lemma not_digit: "\<not> isdigit (CHR '':'')" "\<not> isdigit (CHR '','')"
  by (simp_all add: isdigit_def ord_def)

lemma Split_pair:
  assumes "CHR '','' \<notin> set x" "CHR '','' \<notin> set y" "x \<noteq> []" "y \<noteq> []"
  shows "Split (x @ '','' @ y) '','' SkipEmpty = [x, y]"
  using Split_loop_Join [of "[y]" "CHR '',''" x SkipEmpty] assms by (simp add: Split_def SkipEmpty_def)

lemma sint_word_of_int_id: "- (2 ^ 63) \<le> x \<Longrightarrow> x < 2 ^ 63 \<Longrightarrow> sint (word_of_int x :: uint64) = x"
  using wrap64_id [of x] by (simp add: wrap64_def)

lemma ts_Parse_loop_extents:
  assumes "ts_ok ts" "k \<le> ts_dims ts"
  shows "ts_Parse_loop (map (ts_extent_string ts) [k..<ts_dims ts]) s =
    (OK, \<lparr>starts = starts s @ drop k (starts ts), lengths = lengths s @ drop k (lengths ts)\<rparr>)"
  using assms(2)
proof (induction "ts_dims ts - k" arbitrary: k s)
  case 0
  then show ?case using assms(1) by (simp add: ts_ok_def ts_dims_def)
next
  case (Suc n)
  then have k: "k < ts_dims ts" by simp
  have len: "length (lengths ts) = ts_dims ts" "length (starts ts) = ts_dims ts"
    using assms(1) by (simp_all add: ts_ok_def ts_dims_def)
  have dr: "drop k (starts ts) = starts ts ! k # drop (Suc k) (starts ts)"
    "drop k (lengths ts) = lengths ts ! k # drop (Suc k) (lengths ts)"
    using k len by (simp_all add: Cons_nth_drop_Suc)
  have u: "[k..<ts_dims ts] = k # [Suc k..<ts_dims ts]" using k by (rule upt_conv_Cons)
  have IH: "ts_Parse_loop (map (ts_extent_string ts) [Suc k..<ts_dims ts]) s' =
    (OK, \<lparr>starts = starts s' @ drop (Suc k) (starts ts), lengths = lengths s' @ drop (Suc k) (lengths ts)\<rparr>)" for s'
    using Suc.hyps(2) k by (intro Suc.hyps(1)) simp_all
  show ?case
  proof (cases "IsFullAt ts k")
    case True
    then have "ts_extent_string ts k = ''-''" "starts ts ! k = 0" "lengths ts ! k = kFullExtent"
      by (simp_all add: ts_extent_string_def IsFullAt_def)
    then show ?thesis using IH by (simp add: u dr Let_def)
  next
    case False
    define a b where "a = starts ts ! k" and "b = lengths ts ! k"
    have r: "0 \<le> a" "0 < b" "a + b < 2 ^ 63"
      using ts_okD [OF assms(1) k] False by (auto simp: extent_ok_def IsFullAt_extent ts_extent_def a_def b_def)
    define x y where "x = FastInt64ToBufferLeft (word_of_int a)" and "y = FastInt64ToBufferLeft (word_of_int b)"
    have s: "ts_extent_string ts k = x @ '','' @ y"
      using False by (simp add: ts_extent_string_def x_def y_def a_def b_def)
    have sp: "Split (x @ '','' @ y) '','' SkipEmpty = [x, y]"
      unfolding x_def y_def
      by (rule Split_pair) (use int_string_chars not_digit FastInt64_chars(2) in fastforce)+
    have p: "safe_strto64 x = Some a" "safe_strto64 y = Some b"
      unfolding x_def y_def safe_strto64_print using r by (simp_all add: sint_word_of_int_id)
    have "x @ '','' @ y \<noteq> ''-''" using sp by (auto simp: Split_def SkipEmpty_def)
    then have "ts_Parse_loop (ts_extent_string ts k # map (ts_extent_string ts) [Suc k..<ts_dims ts]) s =
      ts_Parse_loop (map (ts_extent_string ts) [Suc k..<ts_dims ts]) \<lparr>starts = starts s @ [a], lengths = lengths s @ [b]\<rparr>"
      unfolding s using sp p r by (simp add: Let_def)
    then show ?thesis using IH by (simp add: u dr a_def b_def)
  qed
qed

text \<open>
  The text form of a valid slice parses back to it: Parse applied to DebugString and an
  empty slice returns OK and exactly the slice, full dimensions and rank zero included.
\<close>

theorem slice_text_roundtrip:
  assumes "ts_ok ts"
  shows "ts_Parse (ts_DebugString ts) \<lparr>starts = [], lengths = []\<rparr> = (OK, ts)"
proof -
  define xs where "xs = map (ts_extent_string ts) [0..<ts_dims ts]"
  have ne: "x \<noteq> [] \<and> CHR '':'' \<notin> set x" if x: "x \<in> set xs" for x
  proof -
    obtain d where "x = ts_extent_string ts d" using x by (auto simp: xs_def)
    moreover have "ts_extent_string ts d \<noteq> [] \<and> CHR '':'' \<notin> set (ts_extent_string ts d)"
      using int_string_chars [of "CHR '':''"] not_digit(1) by (auto simp: ts_extent_string_def Let_def)
    ultimately show ?thesis by simp
  qed
  have "Split (Join xs '':'') '':'' SkipEmpty = xs"
  proof (cases xs)
    case Nil
    then show ?thesis by (simp add: Join_def Split_def)
  next
    case (Cons x ys)
    have "filter SkipEmpty xs = xs" using ne by (auto simp: SkipEmpty_def intro: filter_True)
    then show ?thesis using Cons ne Split_loop_Join [of ys "CHR '':''" x SkipEmpty]
      by (simp add: Split_def Join_def)
  qed
  then show ?thesis
    using ts_Parse_loop_extents [OF assms, of 0 "\<lparr>starts = [], lengths = []\<rparr>"]
    by (simp add: ts_Parse_def ts_DebugString_Join xs_def)
qed

theorem slice_text_roundtrip_witness:
  "ts_Parse (ts_DebugString \<lparr>starts = [0, 14, 0], lengths = [10, 1, -1]\<rparr>) \<lparr>starts = [], lengths = []\<rparr>
     = (OK, \<lparr>starts = [0, 14, 0], lengths = [10, 1, -1]\<rparr>)"
  by (rule slice_text_roundtrip) code_simp

section \<open>Checkpoint keys\<close>

fun extents_code :: "tensor_slice \<Rightarrow> nat list \<Rightarrow> bytes" where
  "extents_code ts [] = []"
| "extents_code ts (d # ds) =
     enc_signed (word_of_int (ts_start ts d)) @ enc_signed (word_of_int (ts_length ts d)) @ extents_code ts ds"

lemma WriteSigned_append: "WriteSignedNumIncreasing dest v = dest @ enc_signed v"
  by (simp add: enc_signed_def WriteSigned_unfold)

lemma EncodeTensorNameSlice_eq:
  "EncodeTensorNameSlice name ts =
     enc_num 0 @ enc_string name @ enc_num (word_of_nat (ts_dims ts)) @ extents_code ts [0..<ts_dims ts]"
proof -
  have "foldl (\<lambda>buffer d. WriteSignedNumIncreasing (WriteSignedNumIncreasing buffer (word_of_int (ts_start ts d)))
        (word_of_int (ts_length ts d))) b ds = b @ extents_code ts ds" for b ds
    by (induction ds arbitrary: b) (simp_all add: WriteSigned_append)
  then show ?thesis
    by (simp add: EncodeTensorNameSlice_def Let_def enc_num_def enc_string_def WriteNumIncreasing_eq WriteString_eq)
qed

text \<open>What the decoder needs of an extent: the length is non-negative, or it is a full one.\<close>

definition key_ok :: "tensor_slice \<Rightarrow> bool" where
  "key_ok ts \<longleftrightarrow> length (lengths ts) = ts_dims ts \<and> 0 < ts_dims ts \<and> ts_dims ts < 2147483647 \<and>
     list_all (\<lambda>d. int64 (ts_start ts d) \<and> int64 (ts_length ts d) \<and> (IsFullAt ts d \<or> 0 \<le> ts_length ts d)) [0..<ts_dims ts]"

lemma ReadSigned_enc: "ReadSignedNumIncreasing (enc_signed v @ r) (Some x) = Some (r, Some v)"
  by (simp add: enc_signed_def ReadSigned_roundtrip)

lemma Decode_extents_ok:
  assumes "key_ok ts" "k \<le> ts_dims ts" "length (starts s) = ts_dims ts" "length (lengths s) = ts_dims ts"
    and "\<forall>d < ts_dims ts. ts_extent s d = (if d < k then ts_extent ts d else (0, kFullExtent))"
  shows "Decode_extents [k..<ts_dims ts] (extents_code ts [k..<ts_dims ts] @ r) s = Inr ts"
  using assms(2-)
proof (induction "ts_dims ts - k" arbitrary: k s)
  case 0
  then have "starts s = starts ts" "lengths s = lengths ts"
    using assms(1) by (auto simp: key_ok_def ts_dims_def ts_extent_def intro!: nth_equalityI)
  then show ?case using 0 by simp
next
  case (Suc n)
  then have k: "k < ts_dims ts" by simp
  have u: "[k..<ts_dims ts] = k # [Suc k..<ts_dims ts]" using k by (rule upt_conv_Cons)
  have i: "int64 (ts_start ts k)" "int64 (ts_length ts k)" "IsFullAt ts k \<or> 0 \<le> ts_length ts k"
    using assms(1) k by (simp_all add: key_ok_def list_all_iff)
  have w: "sint (word_of_int (ts_start ts k) :: uint64) = ts_start ts k"
    "sint (word_of_int (ts_length ts k) :: uint64) = ts_length ts k"
    using i by (simp_all add: int64_def sint_word_of_int_id)
  define s' where "s' = (if ts_length ts k \<ge> 0 then set_length k (ts_length ts k) (set_start k (ts_start ts k) s) else s)"
  have "Decode_extents [k..<ts_dims ts] (extents_code ts [k..<ts_dims ts] @ r) s =
      Decode_extents [Suc k..<ts_dims ts] (extents_code ts [Suc k..<ts_dims ts] @ r) s'"
    by (simp add: u ReadSigned_enc w s'_def)
  also have "\<dots> = Inr ts"
  proof (rule Suc.hyps(1))
    show "\<forall>d < ts_dims ts. ts_extent s' d = (if d < Suc k then ts_extent ts d else (0, kFullExtent))"
    proof (intro allI impI)
      fix d assume d: "d < ts_dims ts"
      show "ts_extent s' d = (if d < Suc k then ts_extent ts d else (0, kFullExtent))"
      proof (cases "d = k")
        case True
        show ?thesis
        proof (cases "0 \<le> ts_length ts k")
          case nonneg: True
          then show ?thesis using True d Suc.prems(2,3)
            by (simp add: s'_def set_length_def set_start_def ts_extent_def ts_start_def ts_length_def)
        next
          case False
          then have "ts_extent ts k = (0, kFullExtent)" using i(3) by (simp add: IsFullAt_extent)
          then show ?thesis using False True Suc.prems(4) d by (simp add: s'_def)
        qed
      next
        case False
        have "ts_extent s' d = ts_extent s d"
          using False by (simp add: s'_def set_length_def set_start_def ts_extent_def)
        then show ?thesis using False Suc.prems(4) d by (simp add: less_Suc_eq)
      qed
    qed
  qed (use Suc.hyps(2) k Suc.prems in \<open>simp_all add: s'_def set_length_def set_start_def\<close>)
  finally show ?case .
qed

text \<open>
  C26. Checkpoint keys decode: from the key of a name and a slice of positive rank whose
  extents are full or of non-negative length, DecodeTensorNameSlice recovers the name
  (appended to its target) and exactly the slice, ignoring whatever follows the key.
\<close>

theorem tensor_key_roundtrip:
  assumes "key_ok ts"
  shows "DecodeTensorNameSlice (EncodeTensorNameSlice name ts @ r) acc = Inr (acc @ name, ts)"
proof -
  have n: "ts_dims ts < 2147483647" "0 < ts_dims ts" using assms by (simp_all add: key_ok_def)
  have u: "unat (word_of_nat (ts_dims ts) :: uint64) = ts_dims ts"
    using n by (simp add: unsigned_of_nat take_bit_nat_eq_self_iff)
  have x: "(word_of_nat (ts_dims ts) :: uint64) \<noteq> 0" "\<not> (word_of_nat (ts_dims ts) :: uint64) \<ge> 2147483647"
    using n u by (auto simp: word_le_nat_alt word_unat_eq_iff)
  have N: "ReadNumIncreasing (enc_num v @ s) (Some y) = Some (s, Some v)" for v s y
    by (simp add: enc_num_def ReadNumIncreasing_roundtrip)
  have S: "ReadString (enc_string name @ s) (Some acc) = Some (s, Some (acc @ name))" for s
    using ReadString_roundtrip [of name s acc] by (simp add: ReadString_def enc_string_def WriteString_eq)
  have "Decode_extents [0..<ts_dims ts] (extents_code ts [0..<ts_dims ts] @ r) (SetFullSlice (ts_dims ts)) = Inr ts"
    by (rule Decode_extents_ok [OF assms]) (simp_all add: SetFullSlice_def ts_extent_def)
  then show ?thesis
    by (simp add: DecodeTensorNameSlice_def EncodeTensorNameSlice_eq N S x u)
qed

theorem tensor_key_roundtrip_witness:
  "DecodeTensorNameSlice (EncodeTensorNameSlice [0x77, 0, 0xff] \<lparr>starts = [0, 300], lengths = [-1, 7]\<rparr> @ [1, 2]) []
     = Inr ([0x77, 0, 0xff], \<lparr>starts = [0, 300], lengths = [-1, 7]\<rparr>)"
proof -
  have "key_ok \<lparr>starts = [0, 300], lengths = [-1, 7]\<rparr>"
    by (simp add: key_ok_def ts_dims_def list_all_iff upt_rec int64_def ts_start_def ts_length_def IsFullAt_def kFullExtent_def)
  from tensor_key_roundtrip [OF this, of "[0x77, 0, 0xff]" "[1, 2]" "[]"] show ?thesis by simp
qed

section \<open>The order of the keys\<close>

interpretation extent_code: ordered_pair enc_signed dec_signed "\<lambda>_. True" "(<s)" enc_signed dec_signed "\<lambda>_. True" "(<s)"
  by unfold_locales

interpretation name_rank: ordered_pair enc_string dec_string "\<lambda>_. True" "\<lambda>x y. compare x y < 0" enc_num dec_num "\<lambda>_. True" "(<)"
  by unfold_locales

fun extents_compare :: "(int \<times> int) list \<Rightarrow> (int \<times> int) list \<Rightarrow> int" where
  "extents_compare (x # xs) (y # ys) =
     (if x = y then extents_compare xs ys
      else if fst x < fst y \<or> fst x = fst y \<and> snd x < snd y then -1 else 1)"
| "extents_compare xs ys = 0"

lemma extents_code_compare:
  assumes "\<forall>d \<in> set ds. int64 (ts_start t1 d) \<and> int64 (ts_length t1 d) \<and> int64 (ts_start t2 d) \<and> int64 (ts_length t2 d)"
  shows "compare (extents_code t1 ds) (extents_code t2 ds) = extents_compare (map (ts_extent t1) ds) (map (ts_extent t2) ds)"
  using assms
proof (induction ds)
  case (Cons d ds)
  have w: "sint (word_of_int x :: uint64) = x" if "int64 x" for x
    using that by (intro sint_word_of_int_id) (simp_all only: int64_def)
  have inj: "(word_of_int x :: uint64) = word_of_int y \<longleftrightarrow> x = y" if "int64 x" "int64 y" for x y
    using w [OF that(1)] w [OF that(2)] by metis
  have less: "(word_of_int x :: uint64) <s word_of_int y \<longleftrightarrow> x < y" if "int64 x" "int64 y" for x y
    unfolding word_sless_alt w [OF that(1)] w [OF that(2)] ..
  have IH: "compare (extents_code t1 ds) (extents_code t2 ds) = extents_compare (map (ts_extent t1) ds) (map (ts_extent t2) ds)"
    by (rule Cons.IH) (use Cons.prems in simp)
  have i: "int64 (ts_start t1 d)" "int64 (ts_length t1 d)" "int64 (ts_start t2 d)" "int64 (ts_length t2 d)"
    using Cons.prems by simp_all
  show ?case
    by (simp only: extents_code.simps list.map extents_compare.simps extent_code.pair_compare
        inj [OF i(1,3)] inj [OF i(2,4)] less [OF i(1,3)] less [OF i(2,4)] IH)
       (simp add: ts_extent_def ts_start_def ts_length_def)
qed simp

text \<open>
  Checkpoint keys sort by tensor name first, then by rank, then by the extents in
  dimension order, each by its start and then its length as signed numbers: the byte order of
  two keys is exactly that order of the (name, slice) pairs.
\<close>

theorem tensor_key_order:
  assumes "key_ok t1" and "key_ok t2"
  shows "compare (EncodeTensorNameSlice n1 t1) (EncodeTensorNameSlice n2 t2) =
    (if n1 \<noteq> n2 then if compare n1 n2 < 0 then -1 else 1
     else if ts_dims t1 \<noteq> ts_dims t2 then if ts_dims t1 < ts_dims t2 then -1 else 1
     else extents_compare (map (ts_extent t1) [0..<ts_dims t1]) (map (ts_extent t2) [0..<ts_dims t2]))"
proof -
  have n: "ts_dims t1 < 2 ^ 64" "ts_dims t2 < 2 ^ 64" using assms by (simp_all add: key_ok_def)
  then have inj: "(word_of_nat (ts_dims t1) :: uint64) = word_of_nat (ts_dims t2) \<longleftrightarrow> ts_dims t1 = ts_dims t2"
    and less: "(word_of_nat (ts_dims t1) :: uint64) < word_of_nat (ts_dims t2) \<longleftrightarrow> ts_dims t1 < ts_dims t2"
    by (simp_all add: word_less_nat_alt word_unat_eq_iff unsigned_of_nat take_bit_nat_eq_self)
  have "compare (extents_code t1 [0..<ts_dims t1]) (extents_code t2 [0..<ts_dims t1]) =
      extents_compare (map (ts_extent t1) [0..<ts_dims t1]) (map (ts_extent t2) [0..<ts_dims t1])"
    if "ts_dims t1 = ts_dims t2"
    by (rule extents_code_compare) (use assms that in \<open>simp add: key_ok_def list_all_iff\<close>)
  then show ?thesis
    by (auto simp: EncodeTensorNameSlice_eq name_rank.pair_compare inj less)
qed

theorem tensor_key_order_witness:
  "compare (EncodeTensorNameSlice [0x77] \<lparr>starts = [0, 300], lengths = [-1, 7]\<rparr>)
     (EncodeTensorNameSlice [0x77] \<lparr>starts = [0, 300], lengths = [-1, 9]\<rparr>) = -1"
proof -
  have k: "key_ok \<lparr>starts = [0, 300], lengths = [-1, 7]\<rparr>" "key_ok \<lparr>starts = [0, 300], lengths = [-1, 9]\<rparr>"
    by (simp_all add: key_ok_def ts_dims_def list_all_iff upt_rec int64_def ts_start_def ts_length_def IsFullAt_def kFullExtent_def)
  show ?thesis unfolding tensor_key_order [OF k]
    by (simp add: ts_dims_def upt_rec ts_extent_def)
qed

end
