(* ===== verification/TF_BFC.thy ===== *)
theory TF_BFC
  imports TF_Bits "HOL-Library.Monad_Syntax"
begin

text \<open>
  The best-fit-with-coalescing allocator of \<^verbatim>\<open>common_runtime/bfc_allocator.{h,cc}\<close>:
  chunks in a vector, addressed by handles and linked to their neighbours in memory, recycled
  through a free list threaded through \<open>next\<close>; regions that map addresses to handles; 21 bins
  of free chunks ordered by size and address; best-fit search with splitting, coalescing on
  deallocation, region growth with one backpedal.

  An operation is a state transformer in the option type: None is a failed CHECK, an access
  outside an array, or a loop that does not return. \<^verbatim>\<open>size_t\<close> values and addresses are
  natural numbers, with \<open>mod 2 ^ 64\<close> written where the code's arithmetic can wrap; handle and bin
  -1 is None. The int64 statistics and identifiers are integers (they count bytes of
  memory and allocations). The sub-allocator is a parameter: \<open>Alloc k bytes\<close> is the outcome
  of its k-th call. DCHECKs are debug-only and absent; logging is not modelled.
\<close>

section \<open>Chunks, regions, state\<close>

record chunk =
  csize :: nat
  requested_size :: nat
  allocation_id :: int
  cptr :: nat
  cprev :: "nat option"
  cnext :: "nat option"
  bin_num :: "nat option"

definition empty_chunk :: chunk where
  "empty_chunk = \<lparr>csize = 0, requested_size = 0, allocation_id = -1, cptr = 0,
     cprev = None, cnext = None, bin_num = None\<rparr>"

definition in_use :: "chunk \<Rightarrow> bool" where "in_use c \<longleftrightarrow> allocation_id c \<noteq> -1"

record region =
  rptr :: nat
  memory_size :: nat
  handles :: "nat option list"

record bfc =
  memory_limit :: nat
  curr_region :: nat
  total_region :: nat
  started_backpedal :: bool
  regions :: "region list"
  chunks :: "chunk list"
  free_list :: "nat option"
  bins :: "nat list list"
  next_id :: int
  visitors :: "nat list"
  visited :: "(nat \<times> nat \<times> nat) list"
  num_allocs :: int
  bytes_in_use :: int
  max_bytes_in_use :: int
  max_alloc_size :: int
  bytes_limit :: int
  sub_calls :: nat

definition check :: "bool \<Rightarrow> unit option" where "check b = (if b then Some () else None)"

section \<open>Sizes and bins\<close>

definition kMinAllocationBits :: nat where "kMinAllocationBits = 8"
definition kMinAllocationSize :: nat where "kMinAllocationSize = 2 ^ kMinAllocationBits"
definition kNumBins :: nat where "kNumBins = 21"

definition RoundedBytes :: "nat \<Rightarrow> nat" where
  "RoundedBytes bytes =
     kMinAllocationSize * (((bytes + kMinAllocationSize - 1) mod 2 ^ 64) div kMinAllocationSize)"

definition Log2FloorNonZero :: "nat \<Rightarrow> nat" where
  "Log2FloorNonZero n = 63 XOR builtin_clz (word_of_nat n :: uint64)"

text \<open>The branch for other compilers counts the shifts until the argument is zero.\<close>

fun Log2FloorNonZero_loop :: "nat \<Rightarrow> nat \<Rightarrow> nat" where
  "Log2FloorNonZero_loop r n = (if n > 0 then Log2FloorNonZero_loop (r + 1) (n div 2) else r)"

declare Log2FloorNonZero_loop.simps [simp del]

definition Log2FloorNonZero_portable :: "nat \<Rightarrow> nat" where
  "Log2FloorNonZero_portable n = Log2FloorNonZero_loop 0 n"

definition BinNumToSize :: "nat \<Rightarrow> nat" where "BinNumToSize index = 256 * 2 ^ index"

definition BinNumForSize_by :: "(nat \<Rightarrow> nat) \<Rightarrow> nat \<Rightarrow> nat" where
  "BinNumForSize_by log2 bytes = min (kNumBins - 1) (log2 (max bytes 256 div 2 ^ kMinAllocationBits))"

definition BinNumForSize :: "nat \<Rightarrow> nat" where
  "BinNumForSize bytes = BinNumForSize_by Log2FloorNonZero bytes"

section \<open>Regions\<close>

definition end_ptr :: "region \<Rightarrow> nat" where "end_ptr r = rptr r + memory_size r"

definition AllocationRegion :: "nat \<Rightarrow> nat \<Rightarrow> region" where
  "AllocationRegion p n = \<lparr>rptr = p, memory_size = n,
     handles = replicate ((n + kMinAllocationSize - 1) div kMinAllocationSize) None\<rparr>"

definition upper_bound :: "region list \<Rightarrow> nat \<Rightarrow> nat" where
  "upper_bound rs p = length (takeWhile (\<lambda>r. \<not> p < end_ptr r) rs)"

definition AddAllocationRegion :: "nat \<Rightarrow> nat \<Rightarrow> region list \<Rightarrow> region list" where
  "AddAllocationRegion p n rs =
     (let e = upper_bound rs p in take e rs @ AllocationRegion p n # drop e rs)"

definition RegionFor :: "region list \<Rightarrow> nat \<Rightarrow> nat option" where
  "RegionFor rs p = (let e = upper_bound rs p in if e < length rs then Some e else None)"

text \<open>The index is cast to a 32-bit int and used without a bounds check.\<close>

definition IndexFor :: "region \<Rightarrow> nat \<Rightarrow> nat option" where
  "IndexFor r p =
     (if rptr r \<le> p then let k = (p - rptr r) div 2 ^ kMinAllocationBits in
        if k < 2 ^ 31 \<and> k < length (handles r) then Some k else None
      else None)"

definition get_handle :: "region list \<Rightarrow> nat \<Rightarrow> nat option option" where
  "get_handle rs p = do { i \<leftarrow> RegionFor rs p; k \<leftarrow> IndexFor (rs ! i) p; Some (handles (rs ! i) ! k) }"

definition set_handle :: "nat \<Rightarrow> nat option \<Rightarrow> region list \<Rightarrow> region list option" where
  "set_handle p h rs = do {
     i \<leftarrow> RegionFor rs p; k \<leftarrow> IndexFor (rs ! i) p;
     Some (rs[i := (rs ! i)\<lparr>handles := (handles (rs ! i))[k := h]\<rparr>]) }"

definition erase_handle :: "nat \<Rightarrow> region list \<Rightarrow> region list option" where
  "erase_handle p rs = set_handle p None rs"

section \<open>Chunk handles\<close>

definition ChunkFromHandle :: "nat \<Rightarrow> bfc \<Rightarrow> chunk option" where
  "ChunkFromHandle h st = (if h < length (chunks st) then Some (chunks st ! h) else None)"

definition put_chunk :: "nat \<Rightarrow> chunk \<Rightarrow> bfc \<Rightarrow> bfc" where
  "put_chunk h c st = st\<lparr>chunks := (chunks st)[h := c]\<rparr>"

definition AllocateChunk :: "bfc \<Rightarrow> (nat \<times> bfc) option" where
  "AllocateChunk st =
     (case free_list st of
        Some h \<Rightarrow> do { c \<leftarrow> ChunkFromHandle h st; Some (h, st\<lparr>free_list := cnext c\<rparr>) }
      | None \<Rightarrow> let h = length (chunks st) in Some (h, st\<lparr>chunks := chunks st @ [empty_chunk]\<rparr>))"

definition DeallocateChunk :: "nat \<Rightarrow> bfc \<Rightarrow> bfc option" where
  "DeallocateChunk h st = do {
     c \<leftarrow> ChunkFromHandle h st;
     Some ((put_chunk h (c\<lparr>cnext := free_list st\<rparr>) st)\<lparr>free_list := Some h\<rparr>) }"

definition DeleteChunk :: "nat \<Rightarrow> bfc \<Rightarrow> bfc option" where
  "DeleteChunk h st = do {
     c \<leftarrow> ChunkFromHandle h st;
     rs \<leftarrow> erase_handle (cptr c) (regions st);
     DeallocateChunk h (st\<lparr>regions := rs\<rparr>) }"

section \<open>Bins: sets ordered by size, then address\<close>

definition ChunkComparator :: "chunk list \<Rightarrow> nat \<Rightarrow> nat \<Rightarrow> bool" where
  "ChunkComparator cs ha hb =
     (let a = cs ! ha; b = cs ! hb in
      if csize a \<noteq> csize b then csize a < csize b else cptr a < cptr b)"

fun bin_insert :: "chunk list \<Rightarrow> nat \<Rightarrow> nat list \<Rightarrow> nat list" where
  "bin_insert cs h [] = [h]"
| "bin_insert cs h (x # xs) =
     (if ChunkComparator cs h x then h # x # xs
      else if ChunkComparator cs x h then x # bin_insert cs h xs else x # xs)"

definition bin_erase :: "chunk list \<Rightarrow> nat \<Rightarrow> nat list \<Rightarrow> nat list" where
  "bin_erase cs h xs = filter (\<lambda>x. ChunkComparator cs x h \<or> ChunkComparator cs h x) xs"

definition InsertFreeChunkIntoBin :: "nat \<Rightarrow> bfc \<Rightarrow> bfc option" where
  "InsertFreeChunkIntoBin h st = do {
     c \<leftarrow> ChunkFromHandle h st;
     check (\<not> in_use c \<and> bin_num c = None);
     let b = BinNumForSize (csize c);
     let st = put_chunk h (c\<lparr>bin_num := Some b\<rparr>) st;
     Some (st\<lparr>bins := (bins st)[b := bin_insert (chunks st) h (bins st ! b)]\<rparr>) }"

text \<open>The iterator is the bin and the handle it points to.\<close>

definition RemoveFreeChunkIterFromBin :: "nat \<Rightarrow> nat \<Rightarrow> bfc \<Rightarrow> bfc option" where
  "RemoveFreeChunkIterFromBin b h st = do {
     c \<leftarrow> ChunkFromHandle h st;
     check (\<not> in_use c \<and> bin_num c \<noteq> None);
     let st = st\<lparr>bins := (bins st)[b := remove1 h (bins st ! b)]\<rparr>;
     Some (put_chunk h (c\<lparr>bin_num := None\<rparr>) st) }"

definition RemoveFreeChunkFromBin :: "nat \<Rightarrow> bfc \<Rightarrow> bfc option" where
  "RemoveFreeChunkFromBin h st = do {
     c \<leftarrow> ChunkFromHandle h st;
     check (\<not> in_use c);
     b \<leftarrow> bin_num c;
     let xs = bin_erase (chunks st) h (bins st ! b);
     check (length xs < length (bins st ! b));
     Some (put_chunk h (c\<lparr>bin_num := None\<rparr>) (st\<lparr>bins := (bins st)[b := xs]\<rparr>)) }"

section \<open>Splitting and merging\<close>

definition SplitChunk :: "nat \<Rightarrow> nat \<Rightarrow> bfc \<Rightarrow> bfc option" where
  "SplitChunk h num_bytes st = do {
     (h_new, st) \<leftarrow> AllocateChunk st;
     c \<leftarrow> ChunkFromHandle h st;
     check (\<not> in_use c \<and> bin_num c = None);
     new \<leftarrow> ChunkFromHandle h_new st;
     rs \<leftarrow> set_handle (cptr c + num_bytes) (Some h_new) (regions st);
     let st = st\<lparr>regions := rs\<rparr>;
     let h_neighbor = cnext c;
     let st = put_chunk h_new (new\<lparr>cptr := cptr c + num_bytes, csize := csize c - num_bytes,
       allocation_id := -1, cprev := Some h, cnext := h_neighbor\<rparr>) st;
     let st = put_chunk h (c\<lparr>csize := num_bytes, cnext := Some h_new\<rparr>) st;
     st \<leftarrow> (case h_neighbor of None \<Rightarrow> Some st
       | Some n \<Rightarrow> do { c_neighbor \<leftarrow> ChunkFromHandle n st;
           Some (put_chunk n (c_neighbor\<lparr>cprev := Some h_new\<rparr>) st) });
     InsertFreeChunkIntoBin h_new st }"

definition Merge :: "nat \<Rightarrow> nat \<Rightarrow> bfc \<Rightarrow> bfc option" where
  "Merge h1 h2 st = do {
     c1 \<leftarrow> ChunkFromHandle h1 st;
     c2 \<leftarrow> ChunkFromHandle h2 st;
     check (\<not> in_use c1 \<and> \<not> in_use c2);
     let h3 = cnext c2;
     let st = put_chunk h1 (c1\<lparr>cnext := h3\<rparr>) st;
     check (cprev c2 = Some h1);
     st \<leftarrow> (case h3 of None \<Rightarrow> Some st
       | Some h \<Rightarrow> do { c3 \<leftarrow> ChunkFromHandle h st; Some (put_chunk h (c3\<lparr>cprev := Some h1\<rparr>) st) });
     c1 \<leftarrow> ChunkFromHandle h1 st;
     let st = put_chunk h1 (c1\<lparr>csize := csize c1 + csize c2\<rparr>) st;
     DeleteChunk h2 st }"

definition coalesce_next :: "nat \<Rightarrow> bfc \<Rightarrow> bfc option" where
  "coalesce_next h st = do {
     c \<leftarrow> ChunkFromHandle h st;
     (case cnext c of None \<Rightarrow> Some st
      | Some n \<Rightarrow> do {
          cn \<leftarrow> ChunkFromHandle n st;
          if \<not> in_use cn then do { st \<leftarrow> RemoveFreeChunkFromBin n st; Merge h n st } else Some st }) }"

definition coalesce_prev :: "nat \<Rightarrow> bfc \<Rightarrow> (nat \<times> bfc) option" where
  "coalesce_prev h st = do {
     c \<leftarrow> ChunkFromHandle h st;
     (case cprev c of None \<Rightarrow> Some (h, st)
      | Some p \<Rightarrow> do {
          cp \<leftarrow> ChunkFromHandle p st;
          if \<not> in_use cp then do { st \<leftarrow> RemoveFreeChunkFromBin p st; st \<leftarrow> Merge p h st; Some (p, st) }
          else Some (h, st) }) }"

definition FreeAndMaybeCoalesce :: "nat \<Rightarrow> bfc \<Rightarrow> bfc option" where
  "FreeAndMaybeCoalesce h st = do {
     c \<leftarrow> ChunkFromHandle h st;
     check (in_use c \<and> bin_num c = None);
     let st = put_chunk h (c\<lparr>allocation_id := -1\<rparr>) st;
     let st = st\<lparr>bytes_in_use := bytes_in_use st - int (csize c)\<rparr>;
     st \<leftarrow> coalesce_next h st;
     (chunk_to_reassign, st) \<leftarrow> coalesce_prev h st;
     InsertFreeChunkIntoBin chunk_to_reassign st }"

section \<open>Best-fit search\<close>

definition take_chunk :: "nat \<Rightarrow> nat \<Rightarrow> nat \<Rightarrow> nat \<Rightarrow> bfc \<Rightarrow> (nat \<times> bfc) option" where
  "take_chunk b h rounded_bytes num_bytes st = do {
     st \<leftarrow> RemoveFreeChunkIterFromBin b h st;
     chunk \<leftarrow> ChunkFromHandle h st;
     st \<leftarrow> (if csize chunk \<ge> rounded_bytes * 2 mod 2 ^ 64 then SplitChunk h rounded_bytes st else Some st);
     chunk \<leftarrow> ChunkFromHandle h st;
     let chunk = chunk\<lparr>requested_size := num_bytes, allocation_id := next_id st\<rparr>;
     let st = put_chunk h chunk st;
     let in_use = bytes_in_use st + int (csize chunk);
     Some (cptr chunk, st\<lparr>next_id := next_id st + 1, num_allocs := num_allocs st + 1,
       bytes_in_use := in_use, max_bytes_in_use := max (max_bytes_in_use st) in_use,
       max_alloc_size := max (max_alloc_size st) (int (csize chunk))\<rparr>) }"

fun FindChunkPtr_loop :: "nat list \<Rightarrow> nat \<Rightarrow> nat \<Rightarrow> bfc \<Rightarrow> (nat option \<times> bfc) option" where
  "FindChunkPtr_loop [] rounded_bytes num_bytes st = Some (None, st)"
| "FindChunkPtr_loop (b # bs) rounded_bytes num_bytes st =
     (case find (\<lambda>h. csize (chunks st ! h) \<ge> rounded_bytes) (bins st ! b) of
        Some h \<Rightarrow> do { (p, st) \<leftarrow> take_chunk b h rounded_bytes num_bytes st; Some (Some p, st) }
      | None \<Rightarrow> FindChunkPtr_loop bs rounded_bytes num_bytes st)"

definition FindChunkPtr :: "nat \<Rightarrow> nat \<Rightarrow> nat \<Rightarrow> bfc \<Rightarrow> (nat option \<times> bfc) option" where
  "FindChunkPtr bin rounded_bytes num_bytes st =
     FindChunkPtr_loop [bin..<kNumBins] rounded_bytes num_bytes st"

section \<open>Growing\<close>

text \<open>
  \<open>bytes * kBackpedalFactor\<close> is computed in single precision: the size is rounded to 24
  significant bits, multiplied by 0.9f = 15099494 / 2^24, rounded again, and truncated.
\<close>

definition round24 :: "nat \<Rightarrow> nat" where
  "round24 n = (let e = bit_length n - 24; q = n div 2 ^ e; r = n mod 2 ^ e in
     if 2 * r > 2 ^ e \<or> 2 * r = 2 ^ e \<and> odd q then (q + 1) * 2 ^ e else q * 2 ^ e)"

definition backpedal_bytes :: "nat \<Rightarrow> nat" where
  "backpedal_bytes n = round24 (round24 n * 15099494) div 2 ^ 24"

partial_function (option) grow_region :: "nat \<Rightarrow> nat \<Rightarrow> bool \<Rightarrow> (nat \<times> bool) option" where [code]:
  "grow_region rounded_bytes cur increased =
     (if rounded_bytes > cur then grow_region rounded_bytes (cur * 2 mod 2 ^ 64) True
      else Some (cur, increased))"

partial_function (option) backpedal ::
  "(nat \<Rightarrow> nat \<Rightarrow> nat option) \<Rightarrow> nat \<Rightarrow> nat \<Rightarrow> nat option \<Rightarrow> nat \<Rightarrow> (nat option \<times> nat \<times> nat) option" where [code]:
  "backpedal Alloc rounded_bytes calls mem bytes =
     (if mem = None \<and> bytes > rounded_bytes
      then backpedal Alloc rounded_bytes (calls + 1) (Alloc calls bytes) (RoundedBytes (backpedal_bytes bytes))
      else Some (mem, bytes, calls))"

text \<open>A new region starts as one free chunk.\<close>

definition add_region :: "nat \<Rightarrow> nat \<Rightarrow> bfc \<Rightarrow> bfc option" where
  "add_region mem_addr bytes st = do {
     let st = st\<lparr>total_region := total_region st + bytes,
                 regions := AddAllocationRegion mem_addr bytes (regions st)\<rparr>;
     (h, st) \<leftarrow> AllocateChunk st;
     c \<leftarrow> ChunkFromHandle h st;
     let st = put_chunk h (c\<lparr>cptr := mem_addr, csize := bytes, allocation_id := -1,
       cprev := None, cnext := None\<rparr>) st;
     rs \<leftarrow> set_handle mem_addr (Some h) (regions st);
     InsertFreeChunkIntoBin h (st\<lparr>regions := rs\<rparr>) }"

definition Extend :: "(nat \<Rightarrow> nat \<Rightarrow> nat option) \<Rightarrow> nat \<Rightarrow> bfc \<Rightarrow> (bool \<times> bfc) option" where
  "Extend Alloc rounded_bytes st =
     (let available = (memory_limit st - total_region st) div kMinAllocationSize * kMinAllocationSize in
      if rounded_bytes > available then Some (False, st)
      else do {
        (cur, increased) \<leftarrow> grow_region rounded_bytes (curr_region st) False;
        let st = st\<lparr>curr_region := cur\<rparr>;
        let bytes = min cur available;
        let mem = Alloc (sub_calls st) bytes;
        let st = st\<lparr>sub_calls := sub_calls st + 1\<rparr>;
        (mem, bytes, st) \<leftarrow> (if mem = None \<and> \<not> started_backpedal st
          then do {
            (mem, bytes, calls) \<leftarrow> backpedal Alloc rounded_bytes (sub_calls st) mem (RoundedBytes (backpedal_bytes bytes));
            Some (mem, bytes, st\<lparr>started_backpedal := True, sub_calls := calls\<rparr>) }
          else Some (mem, bytes, st));
        (case mem of None \<Rightarrow> Some (False, st)
         | Some mem_addr \<Rightarrow> do {
             let st = (if \<not> increased then st\<lparr>curr_region := curr_region st * 2 mod 2 ^ 64\<rparr> else st);
             st \<leftarrow> add_region mem_addr bytes st;
             Some (True, st\<lparr>visited := visited st @ map (\<lambda>v. (v, mem_addr, bytes)) (visitors st)\<rparr>) }) })"

section \<open>The public operations\<close>

definition AllocateRawInternal ::
  "(nat \<Rightarrow> nat \<Rightarrow> nat option) \<Rightarrow> nat \<Rightarrow> bfc \<Rightarrow> (nat option \<times> bfc) option" where
  "AllocateRawInternal Alloc num_bytes st =
     (if num_bytes = 0 then Some (None, st)
      else let rounded_bytes = RoundedBytes num_bytes; bin = BinNumForSize rounded_bytes in do {
        (ptr, st) \<leftarrow> FindChunkPtr bin rounded_bytes num_bytes st;
        if ptr \<noteq> None then Some (ptr, st)
        else do {
          (extended, st) \<leftarrow> Extend Alloc rounded_bytes st;
          if extended then FindChunkPtr bin rounded_bytes num_bytes st else Some (None, st) } })"

definition DeallocateRawInternal :: "nat option \<Rightarrow> bfc \<Rightarrow> bfc option" where
  "DeallocateRawInternal ptr st =
     (case ptr of None \<Rightarrow> Some st
      | Some p \<Rightarrow> do { x \<leftarrow> get_handle (regions st) p; h \<leftarrow> x; FreeAndMaybeCoalesce h st })"

definition lookup_chunk :: "nat \<Rightarrow> bfc \<Rightarrow> chunk option" where
  "lookup_chunk p st = do { x \<leftarrow> get_handle (regions st) p; h \<leftarrow> x; ChunkFromHandle h st }"

definition RequestedSize :: "nat \<Rightarrow> bfc \<Rightarrow> nat option" where
  "RequestedSize p st = map_option requested_size (lookup_chunk p st)"

definition AllocatedSize :: "nat \<Rightarrow> bfc \<Rightarrow> nat option" where
  "AllocatedSize p st = map_option csize (lookup_chunk p st)"

definition AllocationId :: "nat \<Rightarrow> bfc \<Rightarrow> int option" where
  "AllocationId p st = map_option allocation_id (lookup_chunk p st)"

definition AddAllocVisitor :: "nat \<Rightarrow> bfc \<Rightarrow> bfc" where
  "AddAllocVisitor v st = st\<lparr>visitors := visitors st @ [v],
     visited := visited st @ map (\<lambda>r. (v, rptr r, memory_size r)) (regions st)\<rparr>"

definition bin_check :: "(nat \<Rightarrow> nat) \<Rightarrow> nat \<Rightarrow> bool" where
  "bin_check log2 b \<longleftrightarrow>
     BinNumForSize_by log2 (BinNumToSize b) = b \<and>
     BinNumForSize_by log2 (BinNumToSize b + 255) = b \<and>
     BinNumForSize_by log2 (BinNumToSize b * 2 - 1) = b \<and>
     (b + 1 < kNumBins \<longrightarrow> BinNumForSize_by log2 (BinNumToSize b * 2) \<noteq> b)"

definition BFCAllocator_by :: "(nat \<Rightarrow> nat) \<Rightarrow> nat \<Rightarrow> bool \<Rightarrow> bfc option" where
  "BFCAllocator_by log2 total_memory allow_growth = do {
     check (list_all (bin_check log2) [0..<kNumBins]);
     Some \<lparr>memory_limit = total_memory,
       curr_region = RoundedBytes (if allow_growth then min total_memory 1048576 else total_memory),
       total_region = 0, started_backpedal = False, regions = [], chunks = [], free_list = None,
       bins = replicate kNumBins [], next_id = 1, visitors = [], visited = [],
       num_allocs = 0, bytes_in_use = 0, max_bytes_in_use = 0, max_alloc_size = 0,
       bytes_limit = int total_memory, sub_calls = 0\<rparr> }"

definition BFCAllocator :: "nat \<Rightarrow> bool \<Rightarrow> bfc option" where
  "BFCAllocator total_memory allow_growth = BFCAllocator_by Log2FloorNonZero total_memory allow_growth"

definition BFC_destroy :: "bfc \<Rightarrow> (nat \<times> nat) list" where
  "BFC_destroy st = map (\<lambda>r. (rptr r, memory_size r)) (regions st)"

section \<open>Sizes: rounding and bins\<close>

lemma kMin [simp]: "kMinAllocationSize = 256" "kMinAllocationBits = 8"
  by (simp_all add: kMinAllocationSize_def kMinAllocationBits_def)

lemma RoundedBytes_eq:
  assumes "n \<le> 2 ^ 64 - 256"
  shows "n \<le> RoundedBytes n" "RoundedBytes n < n + 256" "256 dvd RoundedBytes n"
    "0 < n \<Longrightarrow> 0 < RoundedBytes n" "RoundedBytes n \<le> 2 ^ 64 - 256"
proof -
  define q where "q = (n + 255) div 256"
  have e: "RoundedBytes n = 256 * q"
    using assms by (simp add: RoundedBytes_def q_def)
  have q: "n \<le> 256 * q" "256 * q < n + 256" unfolding q_def by linarith+
  show "n \<le> RoundedBytes n" "RoundedBytes n < n + 256" "256 dvd RoundedBytes n"
    "0 < n \<Longrightarrow> 0 < RoundedBytes n" using q by (simp_all add: e)
  have "q \<le> 72057594037927935" using q assms by simp
  then show "RoundedBytes n \<le> 2 ^ 64 - 256" by (simp add: e)
qed

lemma RoundedBytes_id: "256 dvd n \<Longrightarrow> n \<le> 2 ^ 64 - 256 \<Longrightarrow> RoundedBytes n = n"
  using RoundedBytes_eq [of n] by (elim dvdE) (auto elim!: dvdE)

lemma RoundedBytes_dvd: "256 dvd RoundedBytes n"
  by (simp add: RoundedBytes_def)

lemma RoundedBytes_mono: "m \<le> n \<Longrightarrow> n \<le> 2 ^ 64 - 256 \<Longrightarrow> RoundedBytes m \<le> RoundedBytes n"
  by (simp add: RoundedBytes_def div_le_mono)

lemma Log2FloorNonZero_bounds:
  assumes "0 < n" "n < 2 ^ 64"
  shows "2 ^ Log2FloorNonZero n \<le> n \<and> n < 2 ^ Suc (Log2FloorNonZero n)"
proof -
  have u: "unat (word_of_nat n :: uint64) = n" using assms by (simp add: unsigned_of_nat take_bit_nat_eq_self)
  then have "(word_of_nat n :: uint64) \<noteq> 0" using assms by (metis unsigned_0 less_irrefl)
  then show ?thesis
    using Log2Floor64_gnu_bounds [of "word_of_nat n"] unfolding u
    by (auto simp: Log2Floor64_gnu_def Log2FloorNonZero_def)
qed

lemma Log2FloorNonZero_eqI: "2 ^ k \<le> n \<Longrightarrow> n < 2 ^ Suc k \<Longrightarrow> n < 2 ^ 64 \<Longrightarrow> Log2FloorNonZero n = k"
proof -
  assume a: "2 ^ k \<le> n" "n < 2 ^ Suc k" "n < 2 ^ 64"
  have "0 < (2::nat) ^ k" by simp
  then have "0 < n" using a(1) by linarith
  then have b: "2 ^ Log2FloorNonZero n \<le> n" "n < 2 ^ Suc (Log2FloorNonZero n)"
    using Log2FloorNonZero_bounds [OF _ a(3)] by auto
  have "(2::nat) ^ k < 2 ^ Suc (Log2FloorNonZero n)" "(2::nat) ^ Log2FloorNonZero n < 2 ^ Suc k"
    using a b by linarith+
  then show ?thesis by (metis less_Suc_eq_le nat_less_le not_less power_strict_increasing_iff one_less_numeral_iff semiring_norm(76) le_antisym)
qed

text \<open>The bin of a size: the chunks of bin b have sizes from its bin size up to the next.\<close>

lemma BinNumForSize_bound: "BinNumForSize n < 21"
  by (simp add: BinNumForSize_def BinNumForSize_by_def kNumBins_def)

lemma BinNumForSize_mono:
  assumes "m \<le> n" "n < 2 ^ 64"
  shows "BinNumForSize m \<le> BinNumForSize n"
proof -
  let ?v = "\<lambda>n. max n 256 div 2 ^ 8 :: nat"
  have v: "0 < ?v n" "?v m \<le> ?v n" "0 < ?v m" "?v n < 2 ^ 64"
    using assms by (auto simp: div_le_mono max_def div_greater_zero_iff)
  have "2 ^ Log2FloorNonZero (?v m) \<le> ?v m" using Log2FloorNonZero_bounds [of "?v m"] v by linarith
  moreover have "?v n < 2 ^ Suc (Log2FloorNonZero (?v n))" using Log2FloorNonZero_bounds [of "?v n"] v by linarith
  ultimately have "(2::nat) ^ Log2FloorNonZero (?v m) < 2 ^ Suc (Log2FloorNonZero (?v n))" using v(2) by linarith
  then have "Log2FloorNonZero (?v m) \<le> Log2FloorNonZero (?v n)" by (simp add: power_strict_increasing_iff del: power_Suc)
  then show ?thesis unfolding BinNumForSize_def BinNumForSize_by_def kMin by (intro min.mono) simp_all
qed

section \<open>Regions as a map from addresses to handles\<close>

definition geom :: "region list \<Rightarrow> (nat \<times> nat) list" where
  "geom rs = map (\<lambda>r. (rptr r, memory_size r)) rs"

text \<open>Regions are non-empty, within the range of the 32-bit handle index, in address order, and disjoint.\<close>

definition geom_ok :: "(nat \<times> nat) list \<Rightarrow> bool" where
  "geom_ok g \<longleftrightarrow> list_all (\<lambda>(p, m). 0 < p \<and> 0 < m \<and> 256 dvd m \<and> m \<le> 2 ^ 39) g \<and>
     sorted_wrt (\<lambda>(p, m) (q, n). p + m \<le> q) g"

definition rs_ok :: "region list \<Rightarrow> bool" where
  "rs_ok rs \<longleftrightarrow> geom_ok (geom rs) \<and> list_all (\<lambda>r. length (handles r) = memory_size r div 256) rs"

text \<open>The addresses that have a handle entry.\<close>

definition slot :: "(nat \<times> nat) list \<Rightarrow> nat \<Rightarrow> bool" where
  "slot g a \<longleftrightarrow> (\<exists>(p, m) \<in> set g. p \<le> a \<and> a < p + m \<and> 256 dvd (a - p))"

definition hmap :: "region list \<Rightarrow> nat \<Rightarrow> nat option" where
  "hmap rs a = (if slot (geom rs) a then case get_handle rs a of Some x \<Rightarrow> x | None \<Rightarrow> None else None)"

lemma upper_bound_eq:
  assumes "rs_ok rs" "i < length rs" "rptr (rs ! i) \<le> a" "a < end_ptr (rs ! i)"
  shows "upper_bound rs a = i"
proof -
  have s: "end_ptr (rs ! j) \<le> rptr (rs ! i)" if "j < i" for j
    using assms that by (auto simp: rs_ok_def geom_ok_def geom_def sorted_wrt_iff_nth_less end_ptr_def)
  have "takeWhile (\<lambda>r. \<not> a < end_ptr r) rs = take i rs"
  proof (rule takeWhile_eq_take_P_nth)
    show "\<not> a < end_ptr (rs ! j)" if "j < i" "j < length rs" for j
      using s [OF that(1)] assms(3) by simp
  qed (use assms in simp)
  then show ?thesis using assms(2) by (simp add: upper_bound_def)
qed

text \<open>The region and the index an address resolves to.\<close>

lemma resolve:
  assumes "rs_ok rs" "i < length rs" "rptr (rs ! i) \<le> a" "a < end_ptr (rs ! i)"
  shows "RegionFor rs a = Some i" "IndexFor (rs ! i) a = Some ((a - rptr (rs ! i)) div 256)"
    "(a - rptr (rs ! i)) div 256 < length (handles (rs ! i))"
proof -
  show "RegionFor rs a = Some i" using upper_bound_eq [OF assms] assms(2) by (simp add: RegionFor_def)
  have r: "length (handles (rs ! i)) = memory_size (rs ! i) div 256" "256 dvd memory_size (rs ! i)"
    "memory_size (rs ! i) \<le> 2 ^ 39"
    using assms(1,2) by (auto simp: rs_ok_def geom_ok_def geom_def list_all_length)
  have "a - rptr (rs ! i) < memory_size (rs ! i)" using assms by (simp add: end_ptr_def)
  then show k: "(a - rptr (rs ! i)) div 256 < length (handles (rs ! i))"
    unfolding r(1) using r(2) by (auto simp: less_mult_imp_div_less elim!: dvdE)
  moreover have "length (handles (rs ! i)) \<le> 2 ^ 31" unfolding r(1) using r(3) by (simp add: div_le_mono [of _ "2 ^ 39" 256, simplified])
  ultimately show "IndexFor (rs ! i) a = Some ((a - rptr (rs ! i)) div 256)"
    using assms(3) by (simp add: IndexFor_def Let_def)
qed

lemma slotE:
  assumes "slot (geom rs) a"
  obtains i where "i < length rs" "rptr (rs ! i) \<le> a" "a < end_ptr (rs ! i)" "256 dvd (a - rptr (rs ! i))"
  using assms by (auto simp: slot_def geom_def in_set_conv_nth end_ptr_def)

lemma get_handle_hmap:
  assumes "rs_ok rs" "slot (geom rs) a"
  shows "get_handle rs a = Some (hmap rs a)"
proof -
  obtain i where "i < length rs" "rptr (rs ! i) \<le> a" "a < end_ptr (rs ! i)" using assms(2) by (rule slotE)
  with assms(1) have "\<exists>x. get_handle rs a = Some x" by (simp add: get_handle_def resolve)
  then show ?thesis using assms(2) by (auto simp: hmap_def)
qed

text \<open>Setting a handle updates the map at one address and keeps the geometry.\<close>

lemma set_handle_hmap:
  assumes rs: "rs_ok rs" and a: "slot (geom rs) a"
  shows "\<exists>rs'. set_handle a x rs = Some rs' \<and> rs_ok rs' \<and> geom rs' = geom rs \<and> hmap rs' = (hmap rs)(a := x)"
proof -
  obtain i where i: "i < length rs" "rptr (rs ! i) \<le> a" "a < end_ptr (rs ! i)" "256 dvd (a - rptr (rs ! i))"
    using a by (rule slotE)
  define k where "k = (a - rptr (rs ! i)) div 256"
  define r where "r = (rs ! i)\<lparr>handles := (handles (rs ! i))[k := x]\<rparr>"
  define rs' where "rs' = rs[i := r]"
  have k: "k < length (handles (rs ! i))" unfolding k_def by (rule resolve(3) [OF rs i(1-3)])
  have set: "set_handle a x rs = Some rs'"
    by (simp add: set_handle_def resolve [OF rs i(1-3)] rs'_def r_def k_def)
  have g: "geom rs' = geom rs"
    by (rule nth_equalityI) (use i(1) in \<open>auto simp: geom_def rs'_def r_def nth_list_update\<close>)
  have ok: "rs_ok rs'"
  proof -
    have "list_all (\<lambda>r. length (handles r) = memory_size r div 256) rs'"
      using rs i(1) by (auto simp: rs_ok_def list_all_length rs'_def r_def nth_list_update)
    then show ?thesis using rs by (simp add: rs_ok_def g)
  qed
  have "hmap rs' b = ((hmap rs)(a := x)) b" for b
  proof (cases "slot (geom rs) b")
    case True
    then obtain j where j: "j < length rs" "rptr (rs ! j) \<le> b" "b < end_ptr (rs ! j)" "256 dvd (b - rptr (rs ! j))"
      by (rule slotE)
    have j': "j < length rs'" "rptr (rs' ! j) = rptr (rs ! j)" "end_ptr (rs' ! j) = end_ptr (rs ! j)"
      using j(1) i(1) by (auto simp: rs'_def r_def nth_list_update end_ptr_def)
    have h': "hmap rs' b = handles (rs' ! j) ! ((b - rptr (rs ! j)) div 256)"
      using True j j' by (simp add: hmap_def g get_handle_def resolve [OF ok])
    have h: "hmap rs b = handles (rs ! j) ! ((b - rptr (rs ! j)) div 256)"
      using True j by (simp add: hmap_def get_handle_def resolve [OF rs])
    have same: "a = b" if "i = j" "k = (b - rptr (rs ! j)) div 256"
    proof -
      have "a - rptr (rs ! i) = b - rptr (rs ! i)" using that i(4) j(4) by (auto simp: k_def elim!: dvdE)
      then show ?thesis using i(2) j(2) that(1) by (metis le_add_diff_inverse)
    qed
    have "i = j" if "a = b"
      using upper_bound_eq [OF rs i(1-3)] upper_bound_eq [OF rs j(1-3)] that by simp
    then show ?thesis using h h' same k i(1) by (auto simp: rs'_def r_def nth_list_update k_def)
  next
    case False
    then show ?thesis using a by (auto simp: hmap_def g)
  qed
  then show ?thesis using set ok g by blast
qed

lemma hmap_region:
  assumes "rs_ok rs" "r \<in> set rs" "rptr r \<le> b" "b < end_ptr r" "256 dvd (b - rptr r)"
  shows "hmap rs b = handles r ! ((b - rptr r) div 256)"
proof -
  obtain i where i: "i < length rs" "rs ! i = r" using assms(2) by (auto simp: in_set_conv_nth)
  have "slot (geom rs) b" using assms(2-) by (auto simp: slot_def geom_def end_ptr_def)
  then show ?thesis using resolve [OF assms(1) i(1), unfolded i(2), OF assms(3,4)] i by (simp add: hmap_def get_handle_def)
qed

lemma AddAllocationRegion:
  assumes rs: "rs_ok rs" and p: "0 < p" "0 < n" "256 dvd n" "n \<le> 2 ^ 39"
    and free: "\<forall>(q, m) \<in> set (geom rs). p + n \<le> q \<or> q + m \<le> p"
  shows "rs_ok (AddAllocationRegion p n rs)"
    "set (geom (AddAllocationRegion p n rs)) = insert (p, n) (set (geom rs))"
    "hmap (AddAllocationRegion p n rs) = hmap rs"
proof -
  define e where "e = upper_bound rs p"
  define R where "R = AllocationRegion p n"
  define rs' where "rs' = AddAllocationRegion p n rs"
  have rs': "rs' = take e rs @ R # drop e rs"
    by (simp add: rs'_def AddAllocationRegion_def e_def R_def Let_def)
  have R: "rptr R = p" "memory_size R = n" "handles R = replicate (n div 256) None"
    using p(3) by (auto simp: R_def AllocationRegion_def elim!: dvdE)
  have sorted: "sorted_wrt (\<lambda>r s. end_ptr r \<le> rptr s) rs"
    using rs by (simp add: rs_ok_def geom_ok_def geom_def sorted_wrt_map end_ptr_def)
  have lo: "end_ptr r \<le> p" if "r \<in> set (take e rs)" for r
    using that set_takeWhileD [of r "\<lambda>r. \<not> p < end_ptr r" rs]
    by (simp add: e_def upper_bound_def takeWhile_eq_take [symmetric])
  have hi: "p + n \<le> rptr r" if "r \<in> set (drop e rs)" for r
  proof -
    have d: "drop e rs = dropWhile (\<lambda>r. \<not> p < end_ptr r) rs"
      by (simp add: e_def upper_bound_def dropWhile_eq_drop)
    have "drop e rs \<noteq> []" using that by (metis empty_iff list.set(1))
    then obtain s ss where s: "drop e rs = s # ss" by (metis neq_Nil_conv)
    then have "p < end_ptr s" using hd_dropWhile [of "\<lambda>r. \<not> p < end_ptr r" rs] by (metis d list.distinct(1) list.sel(1))
    moreover have "s \<in> set rs" by (metis s in_set_dropD list.set_intros(1))
    ultimately have ps: "p + n \<le> rptr s" using free by (force simp: geom_def end_ptr_def)
    have "sorted_wrt (\<lambda>r s. end_ptr r \<le> rptr s) (s # ss)" using sorted s by (metis sorted_wrt_drop)
    then have "r = s \<or> end_ptr s \<le> rptr r" using that s by auto
    then show ?thesis using ps \<open>p < end_ptr s\<close> p by (auto simp: end_ptr_def)
  qed
  have "sorted_wrt (\<lambda>r s. end_ptr r \<le> rptr s) rs'"
  proof -
    have td: "sorted_wrt (\<lambda>r s. end_ptr r \<le> rptr s) (take e rs @ drop e rs)" using sorted by simp
    then show ?thesis unfolding rs' sorted_wrt_append
      using lo hi by (auto simp: R end_ptr_def)
  qed
  moreover have set': "set rs' = insert R (set rs)"
    unfolding rs' by (metis Un_insert_right append_take_drop_id list.simps(15) set_append)
  ultimately show ok: "rs_ok rs'"
    using rs p by (auto simp: rs_ok_def geom_ok_def geom_def sorted_wrt_map end_ptr_def list_all_iff R)
  show g: "set (geom rs') = insert (p, n) (set (geom rs))"
    by (auto simp: geom_def set' R)
  have "hmap rs' b = hmap rs b" for b
  proof (cases "slot (geom rs) b")
    case True
    then obtain r where r: "r \<in> set rs" "rptr r \<le> b" "b < end_ptr r" "256 dvd (b - rptr r)"
      by (metis slotE nth_mem)
    then show ?thesis using hmap_region [OF rs r] hmap_region [OF ok, of r b] by (simp add: set')
  next
    case False
    show ?thesis
    proof (cases "slot (geom rs') b")
      case True
      then have b: "p \<le> b" "b < p + n" "256 dvd (b - p)" using False g by (auto simp: slot_def)
      then have "hmap rs' b = handles R ! ((b - p) div 256)"
        using hmap_region [OF ok, of R b] by (simp add: set' R end_ptr_def)
      moreover have "(b - p) div 256 < n div 256" using b p(3) by (auto elim!: dvdE)
      ultimately show ?thesis using False by (simp add: R hmap_def)
    qed (use False in \<open>simp add: hmap_def\<close>)
  qed
  then show "hmap rs' = hmap rs" by blast
qed

section \<open>The invariant\<close>

text \<open>
  The clauses speak of the chunk vector as a function \<open>C\<close> from handles and of the set \<open>L\<close> of
  live handles (those not on the free list). First the doubly-linked list: chunks lie in one
  region each, reach its ends exactly when they have no neighbour, touch their neighbours, and
  never overlap.
\<close>

definition home :: "(nat \<times> nat) list \<Rightarrow> chunk \<Rightarrow> bool" where
  "home g c \<longleftrightarrow> (\<exists>(p, m) \<in> set g. p \<le> cptr c \<and> cptr c + csize c \<le> p + m \<and> 256 dvd (cptr c - p) \<and>
     (cprev c = None \<longleftrightarrow> cptr c = p) \<and> (cnext c = None \<longleftrightarrow> cptr c + csize c = p + m))"

definition apart :: "chunk \<Rightarrow> chunk \<Rightarrow> bool" where
  "apart c d \<longleftrightarrow> cptr c + csize c \<le> cptr d \<or> cptr d + csize d \<le> cptr c"

definition links_ok :: "(nat \<times> nat) list \<Rightarrow> (nat \<Rightarrow> chunk) \<Rightarrow> nat set \<Rightarrow> bool" where
  "links_ok g C L \<longleftrightarrow>
     (\<forall>h \<in> L. 0 < csize (C h) \<and> 256 dvd csize (C h) \<and> home g (C h) \<and>
        (\<forall>n. cnext (C h) = Some n \<longrightarrow> n \<in> L \<and> cprev (C n) = Some h \<and> cptr (C n) = cptr (C h) + csize (C h)) \<and>
        (\<forall>p. cprev (C h) = Some p \<longrightarrow> p \<in> L \<and> cnext (C p) = Some h)) \<and>
     (\<forall>h \<in> L. \<forall>k \<in> L. h \<noteq> k \<longrightarrow> apart (C h) (C k))"

text \<open>The bins hold exactly the free chunks, except the loose ones of \<open>X\<close>, in order.\<close>

definition chunk_lt :: "(nat \<Rightarrow> chunk) \<Rightarrow> nat \<Rightarrow> nat \<Rightarrow> bool" where
  "chunk_lt C a b \<longleftrightarrow> csize (C a) < csize (C b) \<or> csize (C a) = csize (C b) \<and> cptr (C a) < cptr (C b)"

definition bins_ok :: "(nat \<Rightarrow> chunk) \<Rightarrow> nat set \<Rightarrow> nat set \<Rightarrow> nat list list \<Rightarrow> bool" where
  "bins_ok C L X bs \<longleftrightarrow> length bs = kNumBins \<and>
     (\<forall>b < kNumBins. sorted_wrt (chunk_lt C) (bs ! b) \<and> set (bs ! b) = {h \<in> L. bin_num (C h) = Some b}) \<and>
     (\<forall>h \<in> L. bin_num (C h) = (if in_use (C h) \<or> h \<in> X then None else Some (BinNumForSize (csize (C h))))) \<and>
     X \<subseteq> L \<and> (\<forall>h \<in> X. \<not> in_use (C h))"

text \<open>Two neighbours are never both free, except around the chunks of \<open>Y\<close>.\<close>

definition coalesced :: "(nat \<Rightarrow> chunk) \<Rightarrow> nat set \<Rightarrow> nat set \<Rightarrow> bool" where
  "coalesced C L Y \<longleftrightarrow> (\<forall>h \<in> L. \<forall>n. cnext (C h) = Some n \<longrightarrow> \<not> in_use (C h) \<longrightarrow> \<not> in_use (C n) \<longrightarrow> h \<in> Y \<or> n \<in> Y)"

definition ids_ok :: "(nat \<Rightarrow> chunk) \<Rightarrow> nat set \<Rightarrow> int \<Rightarrow> bool" where
  "ids_ok C L i \<longleftrightarrow> 0 < i \<and>
     (\<forall>h \<in> L. in_use (C h) \<longrightarrow> 0 < allocation_id (C h) \<and> allocation_id (C h) < i \<and> requested_size (C h) \<le> csize (C h)) \<and>
     (\<forall>h \<in> L. \<forall>k \<in> L. in_use (C h) \<longrightarrow> in_use (C k) \<longrightarrow> allocation_id (C h) = allocation_id (C k) \<longrightarrow> h = k)"

text \<open>The region table sends exactly the address of each live chunk to its handle.\<close>

definition table_ok :: "(nat \<Rightarrow> nat option) \<Rightarrow> (nat \<Rightarrow> chunk) \<Rightarrow> nat set \<Rightarrow> bool" where
  "table_ok m C L \<longleftrightarrow> (\<forall>h \<in> L. m (cptr (C h)) = Some h) \<and> (\<forall>a h. m a = Some h \<longrightarrow> h \<in> L \<and> cptr (C h) = a)"

fun free_chain :: "(nat \<Rightarrow> chunk) \<Rightarrow> nat option \<Rightarrow> nat list \<Rightarrow> bool" where
  "free_chain C None [] = True"
| "free_chain C (Some h) (x # xs) = (x = h \<and> free_chain C (cnext (C h)) xs)"
| "free_chain C x xs = False"

definition free_ok :: "bfc \<Rightarrow> nat list \<Rightarrow> bool" where
  "free_ok st fs \<longleftrightarrow> free_chain (\<lambda>h. chunks st ! h) (free_list st) fs \<and> distinct fs \<and>
     (\<forall>h \<in> set fs. h < length (chunks st) \<and> \<not> in_use (chunks st ! h) \<and> bin_num (chunks st ! h) = None)"

definition live :: "bfc \<Rightarrow> nat list \<Rightarrow> nat set" where
  "live st fs = {..<length (chunks st)} - set fs"

definition used_bytes :: "(nat \<Rightarrow> chunk) \<Rightarrow> nat set \<Rightarrow> nat" where
  "used_bytes C L = (\<Sum>h \<in> L. if in_use (C h) then csize (C h) else 0)"

definition inv_at :: "nat list \<Rightarrow> nat set \<Rightarrow> nat set \<Rightarrow> bfc \<Rightarrow> bool" where
  "inv_at fs X Y st \<longleftrightarrow> (let C = (\<lambda>h. chunks st ! h); L = live st fs; rs = regions st in
     rs_ok rs \<and> free_ok st fs \<and> links_ok (geom rs) C L \<and> table_ok (hmap rs) C L \<and>
     bins_ok C L X (bins st) \<and> coalesced C L Y \<and> ids_ok C L (next_id st) \<and>
     bytes_in_use st = int (used_bytes C L) \<and>
     (\<Sum>h \<in> L. csize (C h)) = total_region st \<and> total_region st = sum_list (map memory_size rs) \<and>
     total_region st \<le> memory_limit st \<and> memory_limit st \<le> 2 ^ 39)"

definition bfc_inv :: "bfc \<Rightarrow> bool" where "bfc_inv st \<longleftrightarrow> (\<exists>fs. inv_at fs {} {} st)"

section \<open>Linked chunks under splitting and merging\<close>

lemma linksD:
  assumes "links_ok g C L" "h \<in> L"
  shows "0 < csize (C h)" "256 dvd csize (C h)" "home g (C h)"
    "cnext (C h) = Some n \<Longrightarrow> n \<in> L \<and> cprev (C n) = Some h \<and> cptr (C n) = cptr (C h) + csize (C h)"
    "cprev (C h) = Some p \<Longrightarrow> p \<in> L \<and> cnext (C p) = Some h"
    "k \<in> L \<Longrightarrow> h \<noteq> k \<Longrightarrow> apart (C h) (C k)"
  using assms unfolding links_ok_def by blast+

lemma links_okI:
  assumes "\<And>i. i \<in> L \<Longrightarrow> 0 < csize (C i) \<and> 256 dvd csize (C i) \<and> home g (C i)"
    and "\<And>i k. i \<in> L \<Longrightarrow> cnext (C i) = Some k \<Longrightarrow> k \<in> L \<and> cprev (C k) = Some i \<and> cptr (C k) = cptr (C i) + csize (C i)"
    and "\<And>i k. i \<in> L \<Longrightarrow> cprev (C i) = Some k \<Longrightarrow> k \<in> L \<and> cnext (C k) = Some i"
    and "\<And>i j. i \<in> L \<Longrightarrow> j \<in> L \<Longrightarrow> i \<noteq> j \<Longrightarrow> apart (C i) (C j)"
  shows "links_ok g C L"
  unfolding links_ok_def
proof (intro conjI ballI allI impI)
qed (use assms in blast)+

lemma links_cong:
  assumes "links_ok g C L"
    and "\<And>h. h \<in> L \<Longrightarrow> csize (C' h) = csize (C h) \<and> cptr (C' h) = cptr (C h) \<and> cprev (C' h) = cprev (C h) \<and> cnext (C' h) = cnext (C h)"
  shows "links_ok g C' L"
proof -
  note L = linksD [OF assms(1)] and E = assms(2)
  have "home g (C' h)" if "h \<in> L" for h using L(3) [OF that] E [OF that] by (simp add: home_def)
  moreover have "apart (C' h) (C' k)" if "h \<in> L" "k \<in> L" "h \<noteq> k" for h k
    using L(6) [OF that] E that by (simp add: apart_def)
  moreover have "n \<in> L \<and> cprev (C' n) = Some h \<and> cptr (C' n) = cptr (C' h) + csize (C' h)"
    if "h \<in> L" "cnext (C' h) = Some n" for h n
    using L(4) [OF that(1), of n] E [of h] E [of n] that by simp
  moreover have "p \<in> L \<and> cnext (C' p) = Some h" if "h \<in> L" "cprev (C' h) = Some p" for h p
    using L(5) [OF that(1), of p] E [of h] E [of p] that by simp
  moreover have "0 < csize (C' h) \<and> 256 dvd csize (C' h)" if "h \<in> L" for h
    using L(1,2) [OF that] E [OF that] by simp
  ultimately show ?thesis unfolding links_ok_def by blast
qed

text \<open>A chunk with a successor ends before its region does, and so does its predecessor.\<close>

lemma next_neq: "links_ok g C L \<Longrightarrow> h \<in> L \<Longrightarrow> cnext (C h) = Some n \<Longrightarrow> n \<noteq> h"
  using linksD(1) [of g C L h] linksD(4) [of g C L h n] by auto

lemma split_links:
  assumes ok: "links_ok g C L" and h: "h \<in> L" "h' \<notin> L"
    and n: "0 < n" "n < csize (C h)" "256 dvd n"
    and C: "csize (C' h) = n" "cptr (C' h) = cptr (C h)" "cprev (C' h) = cprev (C h)" "cnext (C' h) = Some h'"
      "csize (C' h') = csize (C h) - n" "cptr (C' h') = cptr (C h) + n" "cprev (C' h') = Some h" "cnext (C' h') = cnext (C h)"
    and rest: "\<And>i. i \<in> L \<Longrightarrow> i \<noteq> h \<Longrightarrow> csize (C' i) = csize (C i) \<and> cptr (C' i) = cptr (C i) \<and> cnext (C' i) = cnext (C i) \<and>
      cprev (C' i) = (if cnext (C h) = Some i then Some h' else cprev (C i))"
  shows "links_ok g C' (insert h' L)"
proof -
  note L = linksD [OF ok]
  obtain p m where home: "(p, m) \<in> set g" "p \<le> cptr (C h)" "cptr (C h) + csize (C h) \<le> p + m"
    "256 dvd (cptr (C h) - p)" "cprev (C h) = None \<longleftrightarrow> cptr (C h) = p"
    "cnext (C h) = None \<longleftrightarrow> cptr (C h) + csize (C h) = p + m"
    using L(3) [OF h(1)] by (auto simp: home_def)
  have "256 dvd (cptr (C h) - p + n)" using home(4) n(3) by (rule dvd_add)
  then have d: "256 dvd (cptr (C h) + n - p)" using home(2) by simp
  have hm: "home g (C' h)" "home g (C' h')"
    unfolding home_def using home n C d by (auto intro!: bexI [of _ "(p, m)"])
  have homes: "home g (C' i)" if "i \<in> L" "i \<noteq> h" for i
  proof -
    have "cprev (C i) \<noteq> None" if "cnext (C h) = Some i" using L(4) [OF h(1) that] by simp
    then show ?thesis using L(3) [OF that(1)] rest [OF that] by (auto simp: home_def split: if_splits)
  qed
  have ap: "apart (C' i) (C' j)" if ij: "i \<in> insert h' L" "j \<in> insert h' L" "i \<noteq> j" for i j
  proof -
    have 1: "apart (C h) (C k)" if "k \<in> L" "k \<noteq> h" for k using L(6) [OF h(1) that(1)] that(2) by simp
    consider "i \<in> L" "j \<in> L" "i \<noteq> h" "j \<noteq> h" | "i \<in> L - {h}" "j \<in> {h, h'}" | "j \<in> L - {h}" "i \<in> {h, h'}"
      | "i \<in> {h, h'}" "j \<in> {h, h'}"
      using ij by blast
    then show ?thesis
    proof cases
      case 1 then show ?thesis using L(6) [of i j] rest [of i] rest [of j] ij(3) by (simp add: apart_def)
    next
      case 2 then show ?thesis using 1 [of i] rest [of i] C n by (auto simp: apart_def)
    next
      case 3 then show ?thesis using 1 [of j] rest [of j] C n by (auto simp: apart_def)
    next
      case 4 then show ?thesis using ij(3) C n by (auto simp: apart_def)
    qed
  qed
  have nx: "k \<in> insert h' L \<and> cprev (C' k) = Some i \<and> cptr (C' k) = cptr (C' i) + csize (C' i)"
    if ik: "i \<in> insert h' L" "cnext (C' i) = Some k" for i k
  proof -
    consider "i = h" | "i = h'" | "i \<in> L" "i \<noteq> h" using ik by blast
    then show ?thesis
    proof cases
      case 1 then show ?thesis using ik C by simp
    next
      case 2
      then have k: "cnext (C h) = Some k" using ik C by simp
      then show ?thesis using L(4) [OF h(1) k] rest [of k] next_neq [OF ok h(1) k] 2 C n by auto
    next
      case 3
      then have "cnext (C i) = Some k" using ik(2) rest by simp
      note k = L(4) [OF 3(1) this]
      have "cnext (C h) \<noteq> Some k" using L(4) [OF h(1), of k] k 3 by auto
      then show ?thesis using k rest [OF 3] rest [of k] C by (cases "k = h") auto
    qed
  qed
  have pv: "k \<in> insert h' L \<and> cnext (C' k) = Some i" if ik: "i \<in> insert h' L" "cprev (C' i) = Some k" for i k
  proof -
    consider "i = h" | "i = h'" | "i \<in> L" "i \<noteq> h" "cnext (C h) = Some i" | "i \<in> L" "i \<noteq> h" "cnext (C h) \<noteq> Some i"
      using ik by blast
    then show ?thesis
    proof cases
      case 1
      then have "cprev (C h) = Some k" using ik C by simp
      note k = L(5) [OF h(1) this]
      then have "k \<noteq> h" using next_neq [OF ok h(1)] by auto
      then show ?thesis using k 1 rest [of k] by simp
    next
      case 2 then show ?thesis using ik C h by auto
    next
      case 3 then show ?thesis using ik rest [OF 3(1,2)] C by auto
    next
      case 4
      then have "cprev (C i) = Some k" using ik rest [OF 4(1,2)] by simp
      note k = L(5) [OF 4(1) this]
      then have "k \<noteq> h" using 4 by auto
      then show ?thesis using k rest [of k] by simp
    qed
  qed
  have sz: "0 < csize (C' i) \<and> 256 dvd csize (C' i) \<and> home g (C' i)" if i: "i \<in> insert h' L" for i
  proof -
    have d: "256 dvd (csize (C h) - n)" using L(2) [OF h(1)] n by (simp add: dvd_diff_nat)
    consider "i = h" | "i = h'" | "i \<in> L" "i \<noteq> h" using i by blast
    then show ?thesis
    proof cases
      case 1 then show ?thesis using hm(1) C(1) n by simp
    next
      case 2 then show ?thesis using hm(2) C(5) n d by simp
    next
      case 3
      have "csize (C' i) = csize (C i)" using rest [OF 3] by blast
      then show ?thesis using homes [OF 3] L(1,2) [OF 3(1)] by (simp only:)
    qed
  qed
  show ?thesis by (rule links_okI [OF sz nx pv ap])
qed

lemma geom_unique:
  assumes "geom_ok g" "(p, m) \<in> set g" "(q, n) \<in> set g" "p \<le> a" "a < p + m" "q \<le> a" "a < q + n"
  shows "p = q \<and> m = n"
proof -
  obtain i j where i: "i < length g" "g ! i = (p, m)" and j: "j < length g" "g ! j = (q, n)"
    using assms(2,3) by (auto simp: in_set_conv_nth)
  have s: "fst (g ! i) + snd (g ! i) \<le> fst (g ! j)" if "i < j" "j < length g" for i j
    using assms(1) that by (fastforce simp: geom_ok_def sorted_wrt_iff_nth_less split_def)
  have "\<not> i < j" "\<not> j < i"
    using s [of i j] s [of j i] assms(4-) i j by auto
  then show ?thesis using i j by (metis linorder_neqE_nat Pair_inject)
qed

lemma merge_links:
  assumes ok: "links_ok g C L" and g: "geom_ok g" and h: "h1 \<in> L" "cnext (C h1) = Some h2"
    and C: "csize (C' h1) = csize (C h1) + csize (C h2)" "cptr (C' h1) = cptr (C h1)"
      "cprev (C' h1) = cprev (C h1)" "cnext (C' h1) = cnext (C h2)"
    and rest: "\<And>i. i \<in> L \<Longrightarrow> i \<noteq> h1 \<Longrightarrow> i \<noteq> h2 \<Longrightarrow> csize (C' i) = csize (C i) \<and> cptr (C' i) = cptr (C i) \<and>
      cnext (C' i) = cnext (C i) \<and> cprev (C' i) = (if cnext (C h2) = Some i then Some h1 else cprev (C i))"
  shows "links_ok g C' (L - {h2})"
proof -
  note L = linksD [OF ok]
  have h2: "h2 \<in> L" "cprev (C h2) = Some h1" "cptr (C h2) = cptr (C h1) + csize (C h1)"
    using L(4) [OF h] by simp_all
  have ne: "h1 \<noteq> h2" using next_neq [OF ok h] by simp
  have pos: "0 < csize (C h1)" "0 < csize (C h2)" using L(1) h h2 by auto
  have n2: "k \<in> L \<and> k \<noteq> h1 \<and> k \<noteq> h2 \<and> cprev (C k) = Some h2 \<and> cptr (C k) = cptr (C h2) + csize (C h2)"
    if "cnext (C h2) = Some k" for k
    using L(4) [OF h2(1) that] h2 pos by auto
  obtain p m where home: "(p, m) \<in> set g" "p \<le> cptr (C h1)" "cptr (C h1) + csize (C h1) < p + m"
    "256 dvd (cptr (C h1) - p)" "cprev (C h1) = None \<longleftrightarrow> cptr (C h1) = p"
    using L(3) [OF h(1)] h(2) by (fastforce simp: home_def)
  obtain q n where home2: "(q, n) \<in> set g" "q \<le> cptr (C h2)" "cptr (C h2) + csize (C h2) \<le> q + n"
    "cnext (C h2) = None \<longleftrightarrow> cptr (C h2) + csize (C h2) = q + n"
    using L(3) [OF h2(1)] by (auto simp: home_def)
  have q: "q = p" "n = m"
    using geom_unique [OF g home(1) home2(1), of "cptr (C h2)"] home home2 h2(3) pos by auto
  have hm1: "home g (C' h1)"
    unfolding home_def using home home2 q h2(3) C by (auto intro!: bexI [of _ "(p, m)"])
  have homes: "home g (C' i)" if "i \<in> L" "i \<noteq> h1" "i \<noteq> h2" for i
  proof -
    have "cprev (C i) \<noteq> None" if "cnext (C h2) = Some i" using n2 [OF that] by simp
    then show ?thesis using L(3) [OF that(1)] rest [OF that] by (auto simp: home_def split: if_splits)
  qed
  have sz: "0 < csize (C' i) \<and> 256 dvd csize (C' i) \<and> home g (C' i)" if i: "i \<in> L - {h2}" for i
  proof (cases "i = h1")
    case True
    then show ?thesis using hm1 C L(2) [OF h(1)] L(2) [OF h2(1)] pos by simp
  next
    case False
    then show ?thesis using homes [of i] rest [of i] L(1,2) [of i] i by simp
  qed
  have ap: "apart (C' i) (C' j)" if ij: "i \<in> L - {h2}" "j \<in> L - {h2}" "i \<noteq> j" for i j
  proof -
    have 1: "apart (C' h1) (C' k)" if k: "k \<in> L" "k \<noteq> h1" "k \<noteq> h2" for k
      using L(6) [OF h(1) k(1)] L(6) [OF h2(1) k(1)] L(1) [OF k(1)] k rest [OF k] C h2(3) pos by (auto simp: apart_def)
    have 2: "apart (C' i) (C' j)" if "i \<noteq> h1" "j \<noteq> h1"
      using L(6) [of i j] rest [of i] rest [of j] ij that by (simp add: apart_def)
    have "apart c d = apart d c" for c d by (auto simp: apart_def)
    then show ?thesis using 1 [of i] 1 [of j] 2 ij by (cases "i = h1"; cases "j = h1") auto
  qed
  have nx: "k \<in> L - {h2} \<and> cprev (C' k) = Some i \<and> cptr (C' k) = cptr (C' i) + csize (C' i)"
    if ik: "i \<in> L - {h2}" "cnext (C' i) = Some k" for i k
  proof (cases "i = h1")
    case True
    then have "cnext (C h2) = Some k" using ik C by simp
    then show ?thesis using n2 [of k] rest [of k] True C h2(3) by simp
  next
    case False
    then have n: "cnext (C i) = Some k" using ik rest [of i] by simp
    have i: "i \<in> L" using ik by simp
    note k = L(4) [OF i n]
    have "k \<noteq> h2" using k h2(2) False by auto
    moreover have "cnext (C h2) \<noteq> Some k" using n2 [of k] k ik by auto
    ultimately show ?thesis using k rest [of k] rest [of i] C ik False by (cases "k = h1") auto
  qed
  have pv: "k \<in> L - {h2} \<and> cnext (C' k) = Some i" if ik: "i \<in> L - {h2}" "cprev (C' i) = Some k" for i k
  proof -
    have i: "i \<in> L" "i \<noteq> h2" using ik by auto
    consider "i \<noteq> h1" "cnext (C h2) = Some i" | "i = h1 \<or> cnext (C h2) \<noteq> Some i" by blast
    then show ?thesis
    proof cases
      case 1 then show ?thesis using rest [OF i(1) 1(1) i(2)] ik C ne h by simp
    next
      case 2
      then have "cprev (C i) = Some k" using rest [of i] ik i C by (cases "i = h1") auto
      note k = L(5) [OF i(1) this]
      have "k \<noteq> h2" using k 2 n2 [of i] by auto
      moreover have "k \<noteq> h1" using k h i by auto
      ultimately show ?thesis using k rest [of k] by simp
    qed
  qed
  show ?thesis by (rule links_okI [OF sz nx pv ap])
qed

section \<open>The bins as ordered sets\<close>

lemma ChunkComparator_lt: "ChunkComparator cs a b = chunk_lt (\<lambda>h. cs ! h) a b"
  by (auto simp: ChunkComparator_def chunk_lt_def Let_def)

lemma chunk_lt_irrefl: "\<not> chunk_lt C a a"
  and chunk_lt_asym: "chunk_lt C a b \<Longrightarrow> \<not> chunk_lt C b a"
  and chunk_lt_trans: "chunk_lt C a b \<Longrightarrow> chunk_lt C b c \<Longrightarrow> chunk_lt C a c"
  by (auto simp: chunk_lt_def)

lemma chunk_lt_total:
  assumes "links_ok g C L" "h \<in> L" "k \<in> L" "h \<noteq> k"
  shows "chunk_lt C h k \<or> chunk_lt C k h"
proof -
  have "cptr (C h) \<noteq> cptr (C k)"
    using linksD(6) [OF assms] linksD(1) [OF assms(1,2)] linksD(1) [OF assms(1,3)] by (auto simp: apart_def)
  then show ?thesis by (auto simp: chunk_lt_def)
qed

lemma chunk_lt_cong:
  "csize (C' a) = csize (C a) \<Longrightarrow> cptr (C' a) = cptr (C a) \<Longrightarrow> csize (C' b) = csize (C b) \<Longrightarrow> cptr (C' b) = cptr (C b) \<Longrightarrow>
   chunk_lt C' a b = chunk_lt C a b"
  by (simp add: chunk_lt_def)

lemma sorted_lt_distinct: "sorted_wrt (chunk_lt C) xs \<Longrightarrow> distinct xs"
  by (induction xs) (auto simp: chunk_lt_irrefl)

lemma set_bin_insert:
  "\<forall>x \<in> set xs. chunk_lt (\<lambda>h. cs ! h) h x \<or> chunk_lt (\<lambda>h. cs ! h) x h \<Longrightarrow>
   set (bin_insert cs h xs) = insert h (set xs)"
  by (induction xs) (auto simp: ChunkComparator_lt)

lemma sorted_bin_insert:
  assumes "sorted_wrt (chunk_lt (\<lambda>h. cs ! h)) xs"
    and "\<forall>x \<in> set xs. chunk_lt (\<lambda>h. cs ! h) h x \<or> chunk_lt (\<lambda>h. cs ! h) x h"
  shows "sorted_wrt (chunk_lt (\<lambda>h. cs ! h)) (bin_insert cs h xs)"
  using assms
proof (induction xs)
  case (Cons x xs)
  then have "set (bin_insert cs h xs) = insert h (set xs)" by (intro set_bin_insert) simp
  then show ?case using Cons by (auto simp: ChunkComparator_lt dest: chunk_lt_trans)
qed simp

lemma bin_erase_eq:
  assumes "\<forall>x \<in> set xs. x \<noteq> h \<longrightarrow> chunk_lt (\<lambda>h. cs ! h) h x \<or> chunk_lt (\<lambda>h. cs ! h) x h"
  shows "bin_erase cs h xs = filter (\<lambda>x. x \<noteq> h) xs"
  unfolding bin_erase_def using assms by (intro filter_cong) (auto simp: ChunkComparator_lt chunk_lt_irrefl)

lemma binsD:
  assumes "bins_ok C L X bs"
  shows "length bs = 21" "b < 21 \<Longrightarrow> sorted_wrt (chunk_lt C) (bs ! b)"
    "b < 21 \<Longrightarrow> set (bs ! b) = {h \<in> L. bin_num (C h) = Some b}"
    "h \<in> L \<Longrightarrow> bin_num (C h) = (if in_use (C h) \<or> h \<in> X then None else Some (BinNumForSize (csize (C h))))"
    "X \<subseteq> L" "h \<in> X \<Longrightarrow> \<not> in_use (C h)"
  using assms unfolding bins_ok_def kNumBins_def by blast+

lemma bins_okI:
  assumes "length bs = 21" "\<And>b. b < 21 \<Longrightarrow> sorted_wrt (chunk_lt C) (bs ! b)"
    and "\<And>b. b < 21 \<Longrightarrow> set (bs ! b) = {h \<in> L. bin_num (C h) = Some b}"
    and "\<And>h. h \<in> L \<Longrightarrow> bin_num (C h) = (if in_use (C h) \<or> h \<in> X then None else Some (BinNumForSize (csize (C h))))"
    and "X \<subseteq> L" "\<And>h. h \<in> X \<Longrightarrow> \<not> in_use (C h)"
  shows "bins_ok C L X bs"
  using assms unfolding bins_ok_def kNumBins_def by blast

text \<open>Changes that leave the binned chunks alone.\<close>

lemma bins_upd:
  assumes ok: "bins_ok C L X bs"
    and new: "\<And>i. i \<in> L' \<Longrightarrow> bin_num (C' i) \<noteq> None \<Longrightarrow> i \<in> L \<and> bin_num (C i) = bin_num (C' i)"
    and old: "\<And>i. i \<in> L \<Longrightarrow> bin_num (C i) \<noteq> None \<Longrightarrow> i \<in> L' \<and> bin_num (C' i) = bin_num (C i) \<and>
      csize (C' i) = csize (C i) \<and> cptr (C' i) = cptr (C i) \<and> \<not> in_use (C' i) \<and> i \<notin> X'"
    and none: "\<And>i. i \<in> L' \<Longrightarrow> bin_num (C' i) = None \<Longrightarrow> in_use (C' i) \<or> i \<in> X'"
    and X: "X' \<subseteq> L'" "\<And>i. i \<in> X' \<Longrightarrow> \<not> in_use (C' i)"
  shows "bins_ok C' L' X' bs"
proof (rule bins_okI)
  note B = binsD [OF ok]
  show "length bs = 21" by (rule B(1))
  show "X' \<subseteq> L'" "\<And>h. h \<in> X' \<Longrightarrow> \<not> in_use (C' h)" by (rule X)+
  fix b :: nat assume b: "b < 21"
  show "set (bs ! b) = {h \<in> L'. bin_num (C' h) = Some b}"
    unfolding B(3) [OF b] using new old by fastforce
  have "csize (C' i) = csize (C i) \<and> cptr (C' i) = cptr (C i)" if "i \<in> set (bs ! b)" for i
    using that old [of i] B(3) [OF b] by simp
  then show "sorted_wrt (chunk_lt C') (bs ! b)"
    by (intro sorted_wrt_mono_rel [OF _ B(2) [OF b]]) (simp add: chunk_lt_def)
next
  fix h assume h: "h \<in> L'"
  note B = binsD [OF ok]
  show "bin_num (C' h) = (if in_use (C' h) \<or> h \<in> X' then None else Some (BinNumForSize (csize (C' h))))"
  proof (cases "bin_num (C' h)")
    case None
    then show ?thesis using none [OF h] by simp
  next
    case (Some b)
    then have i: "h \<in> L" "bin_num (C h) = Some b" using new [OF h] by auto
    then have "b = BinNumForSize (csize (C h))" using B(4) [OF i(1)] by (simp split: if_splits)
    then show ?thesis using old [OF i(1)] i Some by simp
  qed
qed

lemma bins_insert:
  assumes ok: "bins_ok C L X bs" and links: "links_ok g C L" and h: "h \<in> X"
    and b: "b = BinNumForSize (csize (C h))"
    and C': "\<And>i. i \<in> L \<Longrightarrow> csize (cs ! i) = csize (C i) \<and> cptr (cs ! i) = cptr (C i) \<and> in_use (cs ! i) = in_use (C i) \<and>
      bin_num (cs ! i) = (if i = h then Some b else bin_num (C i))"
  shows "bins_ok (\<lambda>h. cs ! h) L (X - {h}) (bs[b := bin_insert cs h (bs ! b)])"
proof -
  note B = binsD [OF ok]
  have hL: "h \<in> L" and free: "\<not> in_use (C h)" "bin_num (C h) = None" using B(4) [of h] B(5) B(6) [of h] h by auto
  have b21: "b < 21" unfolding b by (rule BinNumForSize_bound)
  have mem: "i \<in> L \<and> i \<noteq> h" if "i \<in> set (bs ! k)" "k < 21" for i k
    using that B(3) free by auto
  have lt: "chunk_lt (\<lambda>h. cs ! h) i j = chunk_lt C i j" if "i \<in> L" "j \<in> L" for i j
    using C' that by (intro chunk_lt_cong) auto
  have sorted: "sorted_wrt (chunk_lt (\<lambda>h. cs ! h)) (bs ! k)" if "k < 21" for k
    using B(2) [OF that] by (rule sorted_wrt_mono_rel [rotated]) (use mem [OF _ that] lt in blast)
  have cmp: "\<forall>x \<in> set (bs ! b). chunk_lt (\<lambda>h. cs ! h) h x \<or> chunk_lt (\<lambda>h. cs ! h) x h"
    using chunk_lt_total [OF links hL] mem [OF _ b21] lt hL by metis
  show ?thesis
  proof (rule bins_okI)
    show "sorted_wrt (chunk_lt (\<lambda>h. cs ! h)) (bs[b := bin_insert cs h (bs ! b)] ! k)" if "k < 21" for k
      using sorted that sorted_bin_insert [OF sorted [OF b21] cmp] B(1) by (cases "k = b") simp_all
    show "set (bs[b := bin_insert cs h (bs ! b)] ! k) = {i \<in> L. bin_num (cs ! i) = Some k}" if k: "k < 21" for k
    proof (cases "k = b")
      case True
      then show ?thesis using set_bin_insert [OF cmp] B(1,3) b21 C' hL free by auto
    next
      case False
      then show ?thesis using B(3) [OF k] C' free by (auto split: if_splits)
    qed
    show "bin_num (cs ! i) = (if in_use (cs ! i) \<or> i \<in> X - {h} then None else Some (BinNumForSize (csize (cs ! i))))"
      if "i \<in> L" for i
      using C' [OF that] B(4) [OF that] free b by auto
    show "length (bs[b := bin_insert cs h (bs ! b)]) = 21" using B(1) by simp
    show "X - {h} \<subseteq> L" using B(5) by blast
    show "\<not> in_use (cs ! i)" if "i \<in> X - {h}" for i using B(5,6) C' that by blast
  qed
qed

lemma bins_remove:
  assumes ok: "bins_ok C L X bs" and h: "h \<in> L" "bin_num (C h) = Some b"
    and xs: "set xs = set (bs ! b) - {h}" "sorted_wrt (chunk_lt C) xs"
    and C': "\<And>i. i \<in> L \<Longrightarrow> csize (C' i) = csize (C i) \<and> cptr (C' i) = cptr (C i) \<and> in_use (C' i) = in_use (C i) \<and>
      bin_num (C' i) = (if i = h then None else bin_num (C i))"
  shows "bins_ok C' L (insert h X) (bs[b := xs])"
proof -
  note B = binsD [OF ok]
  have b: "b < 21" "\<not> in_use (C h)" "h \<notin> X" using B(4) [OF h(1)] h(2) by (auto simp: BinNumForSize_bound split: if_splits)
  have lt: "chunk_lt C' i j = chunk_lt C i j" if "i \<in> L" "j \<in> L" for i j
    using C' that by (intro chunk_lt_cong) auto
  have mem: "i \<in> L" if "i \<in> set (bs[b := xs] ! k)" "k < 21" for i k
    using that B(1,3) xs b by (cases "k = b") auto
  show ?thesis
  proof (rule bins_okI)
    fix k :: nat assume k: "k < 21"
    have "sorted_wrt (chunk_lt C) (bs[b := xs] ! k)" using B(1,2) k xs by (cases "k = b") auto
    then show "sorted_wrt (chunk_lt C') (bs[b := xs] ! k)"
      by (rule sorted_wrt_mono_rel [rotated]) (use mem [OF _ k] lt in blast)
    show "set (bs[b := xs] ! k) = {i \<in> L. bin_num (C' i) = Some k}"
    proof -
      have "set (bs[b := xs] ! k) = set (bs ! k) - {h}"
        using B(1) B(3) [OF k] k xs(1) h by (cases "k = b") auto
      also have "\<dots> = {i \<in> L. bin_num (C' i) = Some k}"
        unfolding B(3) [OF k] using C' by (auto split: if_splits)
      finally show ?thesis .
    qed
  next
    show "bin_num (C' i) = (if in_use (C' i) \<or> i \<in> insert h X then None else Some (BinNumForSize (csize (C' i))))"
      if "i \<in> L" for i
      using C' [OF that] B(4) [OF that] by (auto split: if_splits)
    show "length (bs[b := xs]) = 21" using B(1) by simp
    show "insert h X \<subseteq> L" using B(5) h by blast
    show "\<not> in_use (C' i)" if "i \<in> insert h X" for i using B(5,6) C' b h that by blast
  qed
qed

end
