(* ===== verification/TF_BFC_Ops.thy ===== *)
theory TF_BFC_Ops
  imports TF_BFC
begin

text \<open>
  The operations of the allocator preserve its invariant: bins, splitting, merging, freeing with
  coalescing, best-fit search, growth, and the public operations as updates of the map of the
  blocks in use.
\<close>

section \<open>The invariant, clause by clause\<close>

abbreviation chunk_at :: "bfc \<Rightarrow> nat \<Rightarrow> chunk" where "chunk_at st \<equiv> \<lambda>h. chunks st ! h"

lemma invD:
  assumes "inv_at fs X Y st"
  shows "rs_ok (regions st)" "free_ok st fs" "links_ok (geom (regions st)) (chunk_at st) (live st fs)"
    "table_ok (hmap (regions st)) (chunk_at st) (live st fs)"
    "bins_ok (chunk_at st) (live st fs) X (bins st)" "coalesced (chunk_at st) (live st fs) Y"
    "ids_ok (chunk_at st) (live st fs) (next_id st)"
    "bytes_in_use st = int (used_bytes (chunk_at st) (live st fs))"
    "(\<Sum>h \<in> live st fs. csize (chunk_at st h)) = total_region st"
    "total_region st = sum_list (map memory_size (regions st))"
    "total_region st \<le> memory_limit st" "memory_limit st \<le> 2 ^ 39"
  using assms unfolding inv_at_def Let_def by blast+

lemma liveD: "h \<in> live st fs \<Longrightarrow> h < length (chunks st)" "h \<in> live st fs \<Longrightarrow> h \<notin> set fs"
  by (simp_all add: live_def)

lemma finite_live [simp]: "finite (live st fs)"
  by (simp add: live_def)

lemma ChunkFromHandle_live: "h \<in> live st fs \<Longrightarrow> ChunkFromHandle h st = Some (chunks st ! h)"
  by (simp add: ChunkFromHandle_def liveD)

lemma check_simps [simp]: "check True = Some ()" "check False = None"
  by (simp_all add: check_def)

text \<open>The free list does not see the live chunks.\<close>

lemma free_chain_cong:
  "(\<And>h. h \<in> set fs \<Longrightarrow> cnext (C' h) = cnext (C h)) \<Longrightarrow> free_chain C' x fs = free_chain C x fs"
  by (induction C x fs rule: free_chain.induct) auto

lemma free_ok_cong:
  assumes "free_ok st fs" "free_list st' = free_list st" "length (chunks st) \<le> length (chunks st')"
    and "\<And>h. h \<in> set fs \<Longrightarrow> chunks st' ! h = chunks st ! h"
  shows "free_ok st' fs"
  using assms free_chain_cong [of fs "chunk_at st'" "chunk_at st" "free_list st"] by (auto simp: free_ok_def)

lemma geom_sizes: "map memory_size rs = map snd (geom rs)"
  by (simp add: geom_def)

lemma slot_live:
  assumes "links_ok g C L" "h \<in> L" "n < csize (C h)" "256 dvd n"
  shows "slot g (cptr (C h) + n)"
proof -
  obtain p m where h: "(p, m) \<in> set g" "p \<le> cptr (C h)" "cptr (C h) + csize (C h) \<le> p + m" "256 dvd (cptr (C h) - p)"
    using linksD(3) [OF assms(1,2)] by (auto simp: home_def)
  have "256 dvd (cptr (C h) - p + n)" using h(4) assms(4) by (rule dvd_add)
  then have "256 dvd (cptr (C h) + n - p)" using h(2) by simp
  then show ?thesis using h assms(3) by (auto simp: slot_def intro!: bexI [of _ "(p, m)"])
qed

text \<open>An operation keeps the blocks in use when they stay live, in use, and unchanged.\<close>

definition same_used :: "bfc \<Rightarrow> nat list \<Rightarrow> bfc \<Rightarrow> nat list \<Rightarrow> bool" where
  "same_used st fs st' fs' \<longleftrightarrow>
     (\<forall>h. h \<in> live st' fs' \<and> in_use (chunks st' ! h) \<longleftrightarrow> h \<in> live st fs \<and> in_use (chunks st ! h)) \<and>
     (\<forall>h \<in> live st fs. in_use (chunks st ! h) \<longrightarrow>
        cptr (chunks st' ! h) = cptr (chunks st ! h) \<and> csize (chunks st' ! h) = csize (chunks st ! h) \<and>
        requested_size (chunks st' ! h) = requested_size (chunks st ! h) \<and>
        allocation_id (chunks st' ! h) = allocation_id (chunks st ! h))"

lemma same_used_refl: "same_used st fs st fs"
  by (simp add: same_used_def)

lemma same_used_trans: "same_used s fs t gs \<Longrightarrow> same_used t gs u hs \<Longrightarrow> same_used s fs u hs"
  unfolding same_used_def by metis

lemma used_bytes_same: "same_used st fs st' fs' \<Longrightarrow> used_bytes (chunk_at st') (live st' fs') = used_bytes (chunk_at st) (live st fs)"
proof -
  assume s: "same_used st fs st' fs'"
  have "used_bytes (chunk_at t) (live t gs) = (\<Sum>h \<in> {h \<in> live t gs. in_use (chunks t ! h)}. csize (chunks t ! h))" for t gs
    unfolding used_bytes_def by (simp add: sum.inter_filter)
  moreover have "{h \<in> live st' fs'. in_use (chunks st' ! h)} = {h \<in> live st fs. in_use (chunks st ! h)}"
    using s by (auto simp: same_used_def)
  ultimately show ?thesis using s by (simp add: same_used_def)
qed

lemma ids_same:
  assumes "ids_ok (chunk_at st) (live st fs) i" "same_used st fs st' fs'"
  shows "ids_ok (chunk_at st') (live st' fs') i"
  using assms unfolding ids_ok_def same_used_def by (metis (no_types, lifting))

section \<open>Bin operations\<close>

lemma InsertFreeChunkIntoBin_inv:
  assumes inv: "inv_at fs X Y st" and h: "h \<in> X"
  shows "\<exists>st'. InsertFreeChunkIntoBin h st = Some st' \<and> inv_at fs (X - {h}) Y st' \<and> live st' fs = live st fs \<and>
    same_used st fs st' fs \<and> st' = st\<lparr>chunks := chunks st', bins := bins st'\<rparr> \<and>
    (\<forall>i. chunks st' ! i = (if i = h then (chunks st ! h)\<lparr>bin_num := Some (BinNumForSize (csize (chunks st ! h)))\<rparr> else chunks st ! i))"
proof -
  note I = invD [OF inv]
  define c where "c = chunks st ! h"
  define b where "b = BinNumForSize (csize c)"
  define cs' where "cs' = (chunks st)[h := c\<lparr>bin_num := Some b\<rparr>]"
  define st' where "st' = st\<lparr>chunks := cs', bins := (bins st)[b := bin_insert cs' h (bins st ! b)]\<rparr>"
  have hL: "h \<in> live st fs" using binsD(5) [OF I(5)] h by blast
  then have len: "h < length (chunks st)" by (rule liveD)
  have free: "\<not> in_use c" "bin_num c = None"
    using binsD(6) [OF I(5) h] binsD(4) [OF I(5) hL] h by (simp_all add: c_def)
  have eq: "InsertFreeChunkIntoBin h st = Some st'"
    using ChunkFromHandle_live [OF hL] free
    by (simp add: InsertFreeChunkIntoBin_def st'_def cs'_def b_def c_def put_chunk_def Let_def)
  have nth: "chunks st' ! i = (if i = h then c\<lparr>bin_num := Some b\<rparr> else chunks st ! i)" for i
    using len by (simp add: st'_def cs'_def)
  have live: "live st' fs = live st fs" by (simp add: live_def st'_def cs'_def)
  have used: "same_used st fs st' fs"
    unfolding same_used_def live using free by (auto simp: nth in_use_def c_def)
  have "bins_ok (chunk_at st') (live st fs) (X - {h}) (bins st')"
    unfolding st'_def by simp (rule bins_insert [OF I(5,3) h], use nth in \<open>auto simp: b_def c_def st'_def in_use_def\<close>)
  moreover have "links_ok (geom (regions st)) (chunk_at st') (live st fs)"
    by (rule links_cong [OF I(3)]) (simp add: nth c_def)
  moreover have "table_ok (hmap (regions st)) (chunk_at st') (live st fs)"
    using I(4) by (auto simp: table_ok_def nth c_def)
  moreover have "coalesced (chunk_at st') (live st fs) Y"
    using I(6) by (auto simp: coalesced_def nth c_def in_use_def)
  moreover have "free_ok st' fs"
  proof (rule free_ok_cong [OF I(2)])
    show "chunks st' ! i = chunks st ! i" if "i \<in> set fs" for i using nth [of i] liveD(2) [OF hL] that by auto
  qed (simp_all add: st'_def cs'_def)
  moreover have "(\<Sum>i \<in> live st fs. csize (chunks st' ! i)) = (\<Sum>i \<in> live st fs. csize (chunks st ! i))"
    by (rule sum.cong) (simp_all add: nth c_def)
  moreover have "regions st' = regions st" "next_id st' = next_id st" "bytes_in_use st' = bytes_in_use st"
    "total_region st' = total_region st" "memory_limit st' = memory_limit st" by (simp_all add: st'_def)
  ultimately have "inv_at fs (X - {h}) Y st'"
    unfolding inv_at_def Let_def live using I ids_same [OF I(7) used] used_bytes_same [OF used]
    by (simp only: live)
  then show ?thesis using eq live used nth by (auto simp: b_def c_def st'_def)
qed

lemma unbin_inv:
  assumes inv: "inv_at fs X Y st" and h: "h \<in> live st fs" "bin_num (chunks st ! h) = Some b"
    and xs: "set xs = set (bins st ! b) - {h}" "sorted_wrt (chunk_lt (chunk_at st)) xs"
    and st': "st' = st\<lparr>chunks := (chunks st)[h := (chunks st ! h)\<lparr>bin_num := None\<rparr>], bins := (bins st)[b := xs]\<rparr>"
  shows "inv_at fs (insert h X) Y st'" "live st' fs = live st fs" "same_used st fs st' fs"
    "chunks st' ! i = (if i = h then (chunks st ! h)\<lparr>bin_num := None\<rparr> else chunks st ! i)"
    "\<not> in_use (chunks st ! h)"
proof -
  note I = invD [OF inv]
  show nth: "chunks st' ! i = (if i = h then (chunks st ! h)\<lparr>bin_num := None\<rparr> else chunks st ! i)" for i
    using liveD(1) [OF h(1)] by (simp add: st')
  show live: "live st' fs = live st fs" by (simp add: live_def st')
  show free: "\<not> in_use (chunks st ! h)" using binsD(4) [OF I(5) h(1)] h(2) by (simp split: if_splits)
  show used: "same_used st fs st' fs"
    unfolding same_used_def live using free by (auto simp: nth in_use_def)
  have "bins_ok (chunk_at st') (live st fs) (insert h X) (bins st')"
    unfolding st' by simp (rule bins_remove [OF I(5) h xs], use nth in \<open>auto simp: st' in_use_def\<close>)
  moreover have "links_ok (geom (regions st)) (chunk_at st') (live st fs)"
    by (rule links_cong [OF I(3)]) (simp add: nth)
  moreover have "table_ok (hmap (regions st)) (chunk_at st') (live st fs)"
    using I(4) by (auto simp: table_ok_def nth)
  moreover have "coalesced (chunk_at st') (live st fs) Y"
    using I(6) by (auto simp: coalesced_def nth in_use_def)
  moreover have "free_ok st' fs"
  proof (rule free_ok_cong [OF I(2)])
    show "chunks st' ! i = chunks st ! i" if "i \<in> set fs" for i using nth [of i] liveD(2) [OF h(1)] that by auto
  qed (simp_all add: st')
  moreover have "(\<Sum>i \<in> live st fs. csize (chunks st' ! i)) = (\<Sum>i \<in> live st fs. csize (chunks st ! i))"
    by (rule sum.cong) (simp_all add: nth)
  moreover have "regions st' = regions st" "next_id st' = next_id st" "bytes_in_use st' = bytes_in_use st"
    "total_region st' = total_region st" "memory_limit st' = memory_limit st" by (simp_all add: st')
  ultimately show "inv_at fs (insert h X) Y st'"
    unfolding inv_at_def Let_def live using I ids_same [OF I(7) used] used_bytes_same [OF used]
    by (simp only: live)
qed

lemma RemoveFreeChunkFromBin_inv:
  assumes inv: "inv_at fs X Y st" and h: "h \<in> live st fs" "h \<notin> X" "\<not> in_use (chunks st ! h)"
  shows "\<exists>st'. RemoveFreeChunkFromBin h st = Some st' \<and> inv_at fs (insert h X) Y st' \<and> live st' fs = live st fs \<and>
    same_used st fs st' fs \<and> st' = st\<lparr>chunks := chunks st', bins := bins st'\<rparr> \<and>
    (\<forall>i. chunks st' ! i = (if i = h then (chunks st ! h)\<lparr>bin_num := None\<rparr> else chunks st ! i))"
proof -
  note I = invD [OF inv]
  define b where "b = BinNumForSize (csize (chunks st ! h))"
  have b: "bin_num (chunks st ! h) = Some b" "b < 21"
    using binsD(4) [OF I(5) h(1)] h by (simp_all add: b_def BinNumForSize_bound)
  define xs where "xs = bin_erase (chunks st) h (bins st ! b)"
  have mem: "h \<in> set (bins st ! b)" "\<And>x. x \<in> set (bins st ! b) \<Longrightarrow> x \<in> live st fs"
    using binsD(3) [OF I(5) b(2)] h b by auto
  have xs: "xs = filter (\<lambda>x. x \<noteq> h) (bins st ! b)"
    unfolding xs_def by (rule bin_erase_eq) (use chunk_lt_total [OF I(3) h(1)] mem(2) in blast)
  have len: "length xs < length (bins st ! b)" unfolding xs by (rule length_filter_less [OF mem(1)]) simp
  have sorted: "sorted_wrt (chunk_lt (chunk_at st)) xs"
    unfolding xs by (rule sorted_wrt_filter) (rule binsD(2) [OF I(5) b(2)])
  have set: "set xs = set (bins st ! b) - {h}" by (auto simp: xs)
  define st' where "st' = st\<lparr>chunks := (chunks st)[h := (chunks st ! h)\<lparr>bin_num := None\<rparr>], bins := (bins st)[b := xs]\<rparr>"
  have "RemoveFreeChunkFromBin h st = Some st'"
    using ChunkFromHandle_live [OF h(1)] h(3) b(1) len
    by (simp add: RemoveFreeChunkFromBin_def Let_def xs_def [symmetric] st'_def put_chunk_def)
  then show ?thesis
    using unbin_inv [OF inv h(1) b(1) set sorted st'_def] by (auto simp: st'_def)
qed

lemma RemoveFreeChunkIterFromBin_inv:
  assumes inv: "inv_at fs X Y st" and h: "h \<in> set (bins st ! b)" "b < 21"
  shows "\<exists>st'. RemoveFreeChunkIterFromBin b h st = Some st' \<and> inv_at fs (insert h X) Y st' \<and> live st' fs = live st fs \<and>
    same_used st fs st' fs \<and> st' = st\<lparr>chunks := chunks st', bins := bins st'\<rparr> \<and>
    (\<forall>i. chunks st' ! i = (if i = h then (chunks st ! h)\<lparr>bin_num := None\<rparr> else chunks st ! i)) \<and>
    h \<in> live st fs \<and> h \<notin> X \<and> \<not> in_use (chunks st ! h)"
proof -
  note I = invD [OF inv]
  have hL: "h \<in> live st fs" and b: "bin_num (chunks st ! h) = Some b" using binsD(3) [OF I(5) h(2)] h by auto
  have free: "\<not> in_use (chunks st ! h)" "h \<notin> X" using binsD(4) [OF I(5) hL] b by (auto split: if_splits)
  define xs where "xs = remove1 h (bins st ! b)"
  have s: "sorted_wrt (chunk_lt (chunk_at st)) (bins st ! b)" by (rule binsD(2) [OF I(5) h(2)])
  have set: "set xs = set (bins st ! b) - {h}" unfolding xs_def by (rule set_remove1_eq [OF sorted_lt_distinct [OF s]])
  have "xs = filter (\<lambda>x. x \<noteq> h) (bins st ! b)"
    unfolding xs_def using distinct_remove1_removeAll [OF sorted_lt_distinct [OF s]] by (simp add: removeAll_filter_not_eq eq_commute)
  then have sorted: "sorted_wrt (chunk_lt (chunk_at st)) xs" using sorted_wrt_filter [OF s] by simp
  define st' where "st' = st\<lparr>chunks := (chunks st)[h := (chunks st ! h)\<lparr>bin_num := None\<rparr>], bins := (bins st)[b := xs]\<rparr>"
  have "RemoveFreeChunkIterFromBin b h st = Some st'"
    using ChunkFromHandle_live [OF hL] free b
    by (simp add: RemoveFreeChunkIterFromBin_def Let_def xs_def [symmetric] st'_def put_chunk_def)
  then show ?thesis
    using unbin_inv [OF inv hL b set sorted st'_def] hL free by (auto simp: st'_def)
qed

section \<open>Recycling handles\<close>

text \<open>The fields that splitting and coalescing leave alone.\<close>

definition same_rest :: "bfc \<Rightarrow> bfc \<Rightarrow> bool" where
  "same_rest st st' \<longleftrightarrow> memory_limit st' = memory_limit st \<and> curr_region st' = curr_region st \<and>
     total_region st' = total_region st \<and> started_backpedal st' = started_backpedal st \<and> next_id st' = next_id st \<and>
     visitors st' = visitors st \<and> visited st' = visited st \<and> num_allocs st' = num_allocs st \<and>
     bytes_in_use st' = bytes_in_use st \<and> max_bytes_in_use st' = max_bytes_in_use st \<and>
     max_alloc_size st' = max_alloc_size st \<and> bytes_limit st' = bytes_limit st \<and> sub_calls st' = sub_calls st \<and>
     geom (regions st') = geom (regions st)"

lemma same_rest_upd:
  "st' = st\<lparr>chunks := a, bins := b\<rparr> \<Longrightarrow> same_rest st st'"
  "st' = st\<lparr>chunks := a, free_list := f\<rparr> \<Longrightarrow> same_rest st st'"
  by (simp_all add: same_rest_def)

lemma same_rest_trans: "same_rest s t \<Longrightarrow> same_rest t u \<Longrightarrow> same_rest s u"
  by (simp add: same_rest_def)

lemma AllocateChunk_ok:
  assumes "free_ok st fs"
  shows "\<exists>h st' fs'. AllocateChunk st = Some (h, st') \<and> h \<notin> live st fs \<and> live st' fs' = insert h (live st fs) \<and>
    free_ok st' fs' \<and> st' = st\<lparr>chunks := chunks st', free_list := free_list st'\<rparr> \<and>
    (\<forall>i \<in> live st fs. chunks st' ! i = chunks st ! i) \<and> \<not> in_use (chunks st' ! h) \<and> bin_num (chunks st' ! h) = None"
proof (cases "free_list st")
  case None
  then have fs: "fs = []" using assms by (cases fs) (auto simp: free_ok_def)
  define st' where "st' = st\<lparr>chunks := chunks st @ [empty_chunk]\<rparr>"
  have "free_ok st' fs" using None by (simp add: free_ok_def fs st'_def)
  then show ?thesis using None
    by (intro exI [of _ "length (chunks st)"] exI [of _ st'] exI [of _ fs])
       (auto simp: AllocateChunk_def st'_def live_def fs empty_chunk_def in_use_def nth_append)
next
  case (Some h)
  then obtain gs where fs: "fs = h # gs" using assms by (cases fs) (auto simp: free_ok_def)
  define st' where "st' = st\<lparr>free_list := cnext (chunks st ! h)\<rparr>"
  have h: "h < length (chunks st)" "h \<notin> set gs" using assms by (auto simp: free_ok_def fs)
  have "free_ok st' gs" using assms Some by (auto simp: free_ok_def fs st'_def)
  then show ?thesis using Some h assms
    by (intro exI [of _ h] exI [of _ st'] exI [of _ gs])
       (auto simp: AllocateChunk_def ChunkFromHandle_def st'_def live_def fs free_ok_def)
qed

lemma DeallocateChunk_ok:
  assumes "free_ok st fs" "h \<in> live st fs" "\<not> in_use (chunks st ! h)" "bin_num (chunks st ! h) = None"
  shows "\<exists>st'. DeallocateChunk h st = Some st' \<and> free_ok st' (h # fs) \<and> live st' (h # fs) = live st fs - {h} \<and>
    st' = st\<lparr>chunks := chunks st', free_list := free_list st'\<rparr> \<and> (\<forall>i \<in> live st fs - {h}. chunks st' ! i = chunks st ! i)"
proof -
  define st' where "st' = (put_chunk h ((chunks st ! h)\<lparr>cnext := free_list st\<rparr>) st)\<lparr>free_list := Some h\<rparr>"
  have h: "h < length (chunks st)" "h \<notin> set fs" using liveD [OF assms(2)] by simp_all
  have nth: "chunks st' ! i = (if i = h then (chunks st ! h)\<lparr>cnext := free_list st\<rparr> else chunks st ! i)" for i
    using h by (simp add: st'_def put_chunk_def)
  have "free_chain (chunk_at st') (free_list st) fs"
  proof (subst free_chain_cong)
    show "cnext (chunks st' ! i) = cnext (chunks st ! i)" if "i \<in> set fs" for i using that h(2) nth [of i] by auto
  qed (use assms(1) in \<open>simp add: free_ok_def\<close>)
  then have "free_ok st' (h # fs)"
    using assms h by (auto simp: free_ok_def nth in_use_def) (simp_all add: st'_def put_chunk_def nth)
  moreover have "DeallocateChunk h st = Some st'"
    using ChunkFromHandle_live [OF assms(2)] by (simp add: DeallocateChunk_def st'_def)
  ultimately show ?thesis
    by (intro exI [of _ st']) (use nth h in \<open>auto simp: live_def st'_def put_chunk_def\<close>)
qed

section \<open>Splitting\<close>

lemma SplitChunk_inv:
  assumes inv: "inv_at fs X Y st" and h: "h \<in> X" "h \<notin> Y" and n: "0 < n" "n < csize (chunks st ! h)" "256 dvd n"
  shows "\<exists>fs' st'. SplitChunk h n st = Some st' \<and> inv_at fs' X (insert h Y) st' \<and> same_used st fs st' fs' \<and>
    h \<in> live st' fs' \<and> csize (chunks st' ! h) = n \<and> cptr (chunks st' ! h) = cptr (chunks st ! h) \<and>
    same_rest st st'"
proof -
  note I = invD [OF inv]
  let ?C = "chunk_at st" and ?L = "live st fs"
  define c where "c = chunks st ! h"
  have hL: "h \<in> ?L" using binsD(5) [OF I(5)] h by blast
  have free: "\<not> in_use c" "bin_num c = None"
    using binsD(6) [OF I(5) h(1)] binsD(4) [OF I(5) hL] h by (simp_all add: c_def)
  obtain h' st1 fs' where A: "AllocateChunk st = Some (h', st1)" and h': "h' \<notin> ?L"
    and L1: "live st1 fs' = insert h' ?L" and F1: "free_ok st1 fs'"
    and st1: "st1 = st\<lparr>chunks := chunks st1, free_list := free_list st1\<rparr>"
    and C1: "\<And>i. i \<in> ?L \<Longrightarrow> chunks st1 ! i = chunks st ! i"
    and new: "\<not> in_use (chunks st1 ! h')" "bin_num (chunks st1 ! h') = None"
    using AllocateChunk_ok [OF I(2)] by metis
  have len: "h' < length (chunks st1)" "\<And>i. i \<in> ?L \<Longrightarrow> i < length (chunks st1)"
    using liveD(1) [of _ st1 fs'] L1 by auto
  have hh: "h \<noteq> h'" using hL h' by blast
  define a where "a = cptr c + n"
  have slot: "slot (geom (regions st)) a" unfolding a_def c_def by (rule slot_live [OF I(3) hL n(2,3)])
  obtain rs where rs: "set_handle a (Some h') (regions st) = Some rs" "rs_ok rs" "geom rs = geom (regions st)"
    "hmap rs = (hmap (regions st))(a := Some h')"
    using set_handle_hmap [OF I(1) slot] by blast
  define d where "d = (chunks st1 ! h')\<lparr>cptr := a, csize := csize c - n, allocation_id := -1, cprev := Some h, cnext := cnext c\<rparr>"
  define cs where "cs = (chunks st1)[h' := d, h := c\<lparr>csize := n, cnext := Some h'\<rparr>]"
  define cs2 where "cs2 = (case cnext c of None \<Rightarrow> cs | Some k \<Rightarrow> cs[k := (cs ! k)\<lparr>cprev := Some h'\<rparr>])"
  define st2 where "st2 = st1\<lparr>regions := rs, chunks := cs2\<rparr>"
  have nb: "k \<in> ?L \<and> k \<noteq> h \<and> k \<noteq> h'" if "cnext c = Some k" for k
    using linksD(4) [OF I(3) hL] next_neq [OF I(3) hL] that h' by (auto simp: c_def)
  have rs1: "regions st1 = regions st" by (subst st1) simp
  have c1: "chunks st1 ! h = c" using C1 [OF hL] by (simp add: c_def)
  have sd: "SplitChunk h n st = InsertFreeChunkIntoBin h' st2"
  proof (cases "cnext c")
    case None
    then show ?thesis using free rs(1) len hL hh rs1
      by (simp add: SplitChunk_def A ChunkFromHandle_def put_chunk_def Let_def c1 a_def [symmetric] d_def
          cs_def st2_def cs2_def)
  next
    case (Some k)
    then show ?thesis using free rs(1) len hL hh rs1 nb [OF Some]
      by (simp add: SplitChunk_def A ChunkFromHandle_def put_chunk_def Let_def c1 a_def [symmetric] d_def
          cs_def st2_def cs2_def)
  qed
  have nth: "chunks st2 ! h = c\<lparr>csize := n, cnext := Some h'\<rparr>" "chunks st2 ! h' = d"
    "\<And>i. i \<in> ?L \<Longrightarrow> i \<noteq> h \<Longrightarrow> chunks st2 ! i = (if cnext c = Some i then (chunks st ! i)\<lparr>cprev := Some h'\<rparr> else chunks st ! i)"
    using nb hh h' len hL C1 by (auto simp: st2_def cs2_def cs_def nth_list_update split: option.splits)
  let ?C2 = "chunk_at st2" and ?L2 = "insert h' ?L"
  have L2: "live st2 fs' = ?L2"
    unfolding L1 [symmetric] by (simp add: live_def st2_def cs2_def cs_def split: option.splits)
  have d: "cptr d = a" "csize d = csize c - n" "cprev d = Some h" "cnext d = cnext c" "\<not> in_use d" "bin_num d = None"
    using new by (simp_all add: d_def in_use_def)
  have links: "links_ok (geom (regions st)) ?C2 ?L2"
  proof (rule split_links [OF I(3) hL h' n])
    show "csize (chunks st2 ! i) = csize (chunks st ! i) \<and> cptr (chunks st2 ! i) = cptr (chunks st ! i) \<and>
      cnext (chunks st2 ! i) = cnext (chunks st ! i) \<and>
      cprev (chunks st2 ! i) = (if cnext (chunks st ! h) = Some i then Some h' else cprev (chunks st ! i))"
      if "i \<in> ?L" "i \<noteq> h" for i using nth(3) [OF that] by (simp add: c_def)
  qed (simp_all add: nth d a_def, simp_all add: c_def)
  have same: "cptr (chunks st2 ! i) = cptr (chunks st ! i)" "in_use (chunks st2 ! i) = in_use (chunks st ! i)"
    "bin_num (chunks st2 ! i) = bin_num (chunks st ! i)" "allocation_id (chunks st2 ! i) = allocation_id (chunks st ! i)"
    "requested_size (chunks st2 ! i) = requested_size (chunks st ! i)"
    "i \<noteq> h \<Longrightarrow> csize (chunks st2 ! i) = csize (chunks st ! i) \<and> cnext (chunks st2 ! i) = cnext (chunks st ! i)" if "i \<in> ?L" for i
    using nth(1) nth(3) [OF that] by (cases "i = h"; simp add: c_def in_use_def)+
  have table: "table_ok (hmap rs) ?C2 ?L2"
  proof -
    have ne: "cptr (chunks st ! i) \<noteq> a" if "i \<in> ?L" for i
    proof -
      have "i \<noteq> h'" using that h' by blast
      then show ?thesis
        using linksD(6) [OF links, of i h'] linksD(1) [OF links, of i] linksD(1) [OF links, of h'] that same(1) [OF that]
        by (auto simp: apart_def nth d)
    qed
    then show ?thesis using I(4) same(1) h' unfolding table_ok_def rs(4) by (auto simp: nth d)
  qed
  have bins: "bins_ok ?C2 ?L2 (insert h' X) (bins st2)"
  proof -
    have b: "bins st2 = bins st" by (simp add: st2_def) (subst st1, simp)
    have hb: "bin_num (chunks st ! h) = None" using free by (simp add: c_def)
    note B = binsD [OF I(5)]
    show ?thesis unfolding b
    proof (rule bins_upd [OF I(5)])
      show "i \<in> ?L \<and> bin_num (chunks st ! i) = bin_num (chunks st2 ! i)"
        if "i \<in> ?L2" "bin_num (chunks st2 ! i) \<noteq> None" for i using that d nth(2) same(3) by auto
      show "i \<in> ?L2 \<and> bin_num (chunks st2 ! i) = bin_num (chunks st ! i) \<and> csize (chunks st2 ! i) = csize (chunks st ! i) \<and>
        cptr (chunks st2 ! i) = cptr (chunks st ! i) \<and> \<not> in_use (chunks st2 ! i) \<and> i \<notin> insert h' X"
        if i: "i \<in> ?L" "bin_num (chunks st ! i) \<noteq> None" for i
      proof -
        have "i \<noteq> h" "i \<noteq> h'" using i hb h' by auto
        then show ?thesis using same [OF i(1)] B(4) [OF i(1)] i by (auto split: if_splits)
      qed
      show "in_use (chunks st2 ! i) \<or> i \<in> insert h' X" if "i \<in> ?L2" "bin_num (chunks st2 ! i) = None" for i
        using that same(2,3) B(4) [of i] by (auto split: if_splits)
      show "insert h' X \<subseteq> ?L2" using B(5) by blast
      show "\<not> in_use (chunks st2 ! i)" if "i \<in> insert h' X" for i
        using that B(5,6) same(2) d(5) nth(2) by auto
    qed
  qed
  have co: "coalesced ?C2 ?L2 (insert h Y)"
    unfolding coalesced_def
  proof (intro ballI allI impI)
    fix i k assume i: "i \<in> ?L2" "cnext (chunks st2 ! i) = Some k" "\<not> in_use (chunks st2 ! i)" "\<not> in_use (chunks st2 ! k)"
    consider "i = h" | "i = h'" | "i \<in> ?L" "i \<noteq> h" "i \<noteq> h'" using i by blast
    then show "i \<in> insert h Y \<or> k \<in> insert h Y"
    proof cases
      case 2
      then have "cnext c = Some k" using i d nth(2) by simp
      then show ?thesis using i(4) nb [of k] same(2) [of k] I(6) hL h(2) free by (auto simp: coalesced_def c_def)
    next
      case 3
      then have n: "cnext (chunks st ! i) = Some k" using i same(6) by simp
      then have "k \<in> ?L" using linksD(4) [OF I(3) 3(1)] by blast
      then show ?thesis using i 3 n same(2) I(6) by (auto simp: coalesced_def)
    qed simp
  qed
  have used: "same_used st fs st2 fs'"
    unfolding same_used_def L2
  proof (intro conjI allI ballI impI)
    show "(i \<in> ?L2 \<and> in_use (chunks st2 ! i)) = (i \<in> ?L \<and> in_use (chunks st ! i))" for i
      using same(2) [of i] d(5) nth(2) h' by auto
    fix i assume i: "i \<in> ?L" "in_use (chunks st ! i)"
    then have "i \<noteq> h" using free by (auto simp: c_def)
    then show "cptr (chunks st2 ! i) = cptr (chunks st ! i)" "csize (chunks st2 ! i) = csize (chunks st ! i)"
      "requested_size (chunks st2 ! i) = requested_size (chunks st ! i)" "allocation_id (chunks st2 ! i) = allocation_id (chunks st ! i)"
      using same [OF i(1)] by simp_all
  qed
  have sum: "(\<Sum>i \<in> ?L2. csize (chunks st2 ! i)) = (\<Sum>i \<in> ?L. csize (chunks st ! i))"
  proof -
    have "(\<Sum>i \<in> ?L - {h}. csize (chunks st2 ! i)) = (\<Sum>i \<in> ?L - {h}. csize (chunks st ! i))"
      by (rule sum.cong) (use same(6) in auto)
    then show ?thesis using h' n nth d by (simp add: sum.remove [OF _ hL] c_def)
  qed
  have f2: "free_ok st2 fs'"
  proof (rule free_ok_cong [OF F1])
    show "chunks st2 ! i = chunks st1 ! i" if "i \<in> set fs'" for i
    proof -
      have "i \<notin> ?L2" using that L1 liveD(2) [of i st1 fs'] by blast
      then have "i \<noteq> h'" "i \<noteq> h" "cnext c \<noteq> Some i" using nb hL by auto
      then show ?thesis by (auto simp: st2_def cs2_def cs_def split: option.splits)
    qed
  qed (simp_all add: st2_def cs2_def cs_def split: option.splits)
  have e: "next_id st2 = next_id st" "bytes_in_use st2 = bytes_in_use st" "total_region st2 = total_region st"
    "memory_limit st2 = memory_limit st" "regions st2 = rs"
    unfolding st2_def by (simp, subst st1, simp)+ simp
  have inv2: "inv_at fs' (insert h' X) (insert h Y) st2"
    unfolding inv_at_def Let_def L2 e
    using f2 links table bins co sum rs(2,3) I ids_same [OF I(7) used] used_bytes_same [OF used] unfolding L2
    by (simp add: geom_sizes)
  have h'X: "insert h' X - {h'} = X" using h' binsD(5) [OF I(5)] by blast
  obtain st' where st': "InsertFreeChunkIntoBin h' st2 = Some st'" "inv_at fs' X (insert h Y) st'"
      "live st' fs' = ?L2" "same_used st2 fs' st' fs'" "st' = st2\<lparr>chunks := chunks st', bins := bins st'\<rparr>"
      "chunks st' ! h = chunks st2 ! h"
    using InsertFreeChunkIntoBin_inv [OF inv2, of h'] hh unfolding h'X L2 by auto
  have "same_used st fs st' fs'" using used st'(4) by (rule same_used_trans)
  moreover have "same_rest st st'"
  proof -
    have "same_rest st1 st2" using rs1 rs(3) by (simp add: same_rest_def st2_def)
    then show ?thesis using same_rest_upd(2) [OF st1] same_rest_upd(1) [OF st'(5)] by (blast intro: same_rest_trans)
  qed
  ultimately show ?thesis using st' sd nth(1) hL
    by (intro exI [of _ fs'] exI [of _ st']) (auto simp: c_def)
qed

section \<open>Merging\<close>

lemma Merge_inv:
  assumes inv: "inv_at fs X Y st" and X: "h1 \<in> X" "h2 \<in> X" and h: "cnext (chunks st ! h1) = Some h2"
  shows "\<exists>st'. Merge h1 h2 st = Some st' \<and> inv_at (h2 # fs) (X - {h2}) (insert h1 (Y - {h2})) st' \<and>
    same_used st fs st' (h2 # fs) \<and> same_rest st st' \<and> live st' (h2 # fs) = live st fs - {h2} \<and> h1 \<noteq> h2 \<and>
    cprev (chunks st' ! h1) = cprev (chunks st ! h1) \<and> cnext (chunks st' ! h1) = cnext (chunks st ! h2) \<and>
    (\<forall>i \<in> live st fs - {h2}. in_use (chunks st' ! i) = in_use (chunks st ! i) \<and>
       (i \<noteq> h1 \<longrightarrow> cnext (chunks st' ! i) = cnext (chunks st ! i)))"
proof -
  note I = invD [OF inv]
  let ?C = "chunk_at st" and ?L = "live st fs"
  define c1 c2 where "c1 = chunks st ! h1" and "c2 = chunks st ! h2"
  have L: "h1 \<in> ?L" "h2 \<in> ?L" using binsD(5) [OF I(5)] X by blast+
  have free: "\<not> in_use c1" "\<not> in_use c2" "bin_num c1 = None" "bin_num c2 = None"
    using binsD(6) [OF I(5)] binsD(4) [OF I(5)] L X by (simp_all add: c1_def c2_def)
  have n: "cnext c1 = Some h2" "cprev c2 = Some h1" using h linksD(4) [OF I(3) L(1) h] by (simp_all add: c1_def c2_def)
  have ne: "h1 \<noteq> h2" using next_neq [OF I(3) L(1) h] by simp
  have pos: "0 < csize c1" "0 < csize c2" using linksD(1) [OF I(3)] L by (simp_all add: c1_def c2_def)
  have a: "cptr c2 = cptr c1 + csize c1" using linksD(4) [OF I(3) L(1) h] by (simp add: c1_def c2_def)
  have nb: "k \<in> ?L \<and> k \<noteq> h1 \<and> k \<noteq> h2" if "cnext c2 = Some k" for k
    using linksD(4) [OF I(3) L(2), of k] next_neq [OF I(3) L(2), of k] that a pos by (auto simp: c1_def c2_def)
  have len: "\<And>i. i \<in> ?L \<Longrightarrow> i < length (chunks st)" by (rule liveD(1))
  define cs where "cs = (chunks st)[h1 := c1\<lparr>cnext := cnext c2\<rparr>]"
  define cs2 where "cs2 = (case cnext c2 of None \<Rightarrow> cs | Some k \<Rightarrow> cs[k := (cs ! k)\<lparr>cprev := Some h1\<rparr>])"
  define cs3 where "cs3 = cs2[h1 := c1\<lparr>cnext := cnext c2, csize := csize c1 + csize c2\<rparr>]"
  have "slot (geom (regions st)) (cptr c2)"
    using slot_live [OF I(3) L(2), of 0] pos by (simp add: c2_def)
  then obtain rs where rs: "set_handle (cptr c2) None (regions st) = Some rs" "rs_ok rs" "geom rs = geom (regions st)"
    "hmap rs = (hmap (regions st))(cptr c2 := None)"
    using set_handle_hmap [OF I(1)] by blast
  define st3 where "st3 = st\<lparr>chunks := cs3, regions := rs\<rparr>"
  have lcs: "length cs3 = length (chunks st)" by (simp add: cs3_def cs2_def cs_def split: option.splits)
  have nth: "chunks st3 ! h1 = c1\<lparr>cnext := cnext c2, csize := csize c1 + csize c2\<rparr>" "chunks st3 ! h2 = c2"
    "\<And>i. i \<noteq> h1 \<Longrightarrow> i \<noteq> h2 \<Longrightarrow> chunks st3 ! i = (if cnext c2 = Some i then (chunks st ! i)\<lparr>cprev := Some h1\<rparr> else chunks st ! i)"
    using nb ne len L by (auto simp: st3_def cs3_def cs2_def cs_def c2_def nth_list_update split: option.splits)
  have m: "Merge h1 h2 st = DeallocateChunk h2 st3"
  proof (cases "cnext c2")
    case None
    then show ?thesis using free n ne len L rs(1)
      by (simp add: Merge_def DeleteChunk_def erase_handle_def ChunkFromHandle_def put_chunk_def Let_def c1_def [symmetric]
          c2_def [symmetric] st3_def cs3_def cs2_def cs_def)
  next
    case (Some k)
    have sw: "(chunks st)[h1 := x, k := y, h1 := z] = (chunks st)[k := y, h1 := z]" for x y z
      using nb [OF Some] by (metis list_update_overwrite list_update_swap)
    show ?thesis using Some free n ne len L rs(1) nb [OF Some]
      by (simp add: Merge_def DeleteChunk_def erase_handle_def ChunkFromHandle_def put_chunk_def Let_def c1_def [symmetric]
          c2_def [symmetric] st3_def cs3_def cs2_def cs_def sw)
  qed
  have live3: "live st3 fs = ?L" by (simp add: live_def st3_def lcs)
  have f3: "free_ok st3 fs"
  proof (rule free_ok_cong [OF I(2)])
    show "chunks st3 ! i = chunks st ! i" if "i \<in> set fs" for i
    proof -
      have "i \<notin> ?L" using that by (simp add: live_def)
      then have "i \<noteq> h1" "i \<noteq> h2" "cnext c2 \<noteq> Some i" using nb L by auto
      then show ?thesis using nth(3) by simp
    qed
  qed (simp_all add: st3_def lcs)
  obtain st' where st': "DeallocateChunk h2 st3 = Some st'" "free_ok st' (h2 # fs)" "live st' (h2 # fs) = ?L - {h2}"
    "st' = st3\<lparr>chunks := chunks st', free_list := free_list st'\<rparr>" "\<And>i. i \<in> ?L - {h2} \<Longrightarrow> chunks st' ! i = chunks st3 ! i"
    using DeallocateChunk_ok [OF f3, of h2] L free nth unfolding live3 by auto
  let ?C' = "chunk_at st'" and ?L' = "?L - {h2}"
  have nth': "chunks st' ! h1 = c1\<lparr>cnext := cnext c2, csize := csize c1 + csize c2\<rparr>"
    "\<And>i. i \<in> ?L' \<Longrightarrow> i \<noteq> h1 \<Longrightarrow> chunks st' ! i = (if cnext c2 = Some i then (chunks st ! i)\<lparr>cprev := Some h1\<rparr> else chunks st ! i)"
    using st'(5) nth ne L by auto
  have same: "cptr (chunks st' ! i) = cptr (chunks st ! i)" "in_use (chunks st' ! i) = in_use (chunks st ! i)"
    "bin_num (chunks st' ! i) = bin_num (chunks st ! i)" "allocation_id (chunks st' ! i) = allocation_id (chunks st ! i)"
    "requested_size (chunks st' ! i) = requested_size (chunks st ! i)"
    "i \<noteq> h1 \<Longrightarrow> csize (chunks st' ! i) = csize (chunks st ! i) \<and> cnext (chunks st' ! i) = cnext (chunks st ! i)" if "i \<in> ?L'" for i
    using nth'(1) nth'(2) [OF that] by (cases "i = h1"; simp add: c1_def in_use_def)+
  have links: "links_ok (geom (regions st)) ?C' ?L'"
  proof (rule merge_links [OF I(3) _ L(1) h])
    show "geom_ok (geom (regions st))" using I(1) by (simp add: rs_ok_def)
    show "csize (chunks st' ! i) = csize (chunks st ! i) \<and> cptr (chunks st' ! i) = cptr (chunks st ! i) \<and>
      cnext (chunks st' ! i) = cnext (chunks st ! i) \<and>
      cprev (chunks st' ! i) = (if cnext (chunks st ! h2) = Some i then Some h1 else cprev (chunks st ! i))"
      if "i \<in> ?L" "i \<noteq> h1" "i \<noteq> h2" for i using nth'(2) [of i] that by (simp add: c2_def)
  qed (simp_all add: nth', simp_all add: c1_def c2_def)
  have table: "table_ok (hmap rs) ?C' ?L'"
  proof -
    have t: "i \<in> ?L \<Longrightarrow> hmap (regions st) (cptr (chunks st ! i)) = Some i"
      "hmap (regions st) x = Some i \<Longrightarrow> i \<in> ?L \<and> cptr (chunks st ! i) = x" for i x
      using I(4) by (simp_all add: table_ok_def)
    have ne2: "cptr (chunks st ! i) \<noteq> cptr c2" if "i \<in> ?L'" for i
      using t(1) [of i] t(1) [OF L(2)] that by (auto simp: c2_def)
    have c: "cptr (chunks st ! h2) = cptr c2" by (simp add: c2_def)
    show ?thesis unfolding table_ok_def rs(4)
    proof (intro conjI ballI allI impI)
      show "((hmap (regions st))(cptr c2 := None)) (cptr (chunks st' ! i)) = Some i" if "i \<in> ?L'" for i
        using t(1) [of i] ne2 [OF that] same(1) [OF that] that by simp
      fix x i assume x: "((hmap (regions st))(cptr c2 := None)) x = Some i"
      then have "x \<noteq> cptr c2" "hmap (regions st) x = Some i" by (simp_all split: if_splits)
      then show "i \<in> ?L'" using t(2) c by auto
      then show "cptr (chunks st' ! i) = x" using t(2) [OF \<open>hmap (regions st) x = Some i\<close>] same(1) by simp
    qed
  qed
  have bins: "bins_ok ?C' ?L' (X - {h2}) (bins st')"
  proof -
    have b: "bins st' = bins st" by (subst st'(4)) (simp add: st3_def)
    have hb: "bin_num (chunks st ! h1) = None" "bin_num (chunks st ! h2) = None" using free by (simp_all add: c1_def c2_def)
    note B = binsD [OF I(5)]
    show ?thesis unfolding b
    proof (rule bins_upd [OF I(5)])
      show "i \<in> ?L \<and> bin_num (chunks st ! i) = bin_num (chunks st' ! i)"
        if "i \<in> ?L'" "bin_num (chunks st' ! i) \<noteq> None" for i using that same(3) by auto
      show "i \<in> ?L' \<and> bin_num (chunks st' ! i) = bin_num (chunks st ! i) \<and> csize (chunks st' ! i) = csize (chunks st ! i) \<and>
        cptr (chunks st' ! i) = cptr (chunks st ! i) \<and> \<not> in_use (chunks st' ! i) \<and> i \<notin> X - {h2}"
        if i: "i \<in> ?L" "bin_num (chunks st ! i) \<noteq> None" for i
      proof -
        have "i \<noteq> h1" "i \<noteq> h2" using i hb by auto
        then show ?thesis using same [of i] B(4) [OF i(1)] i by (auto split: if_splits)
      qed
      show "in_use (chunks st' ! i) \<or> i \<in> X - {h2}" if "i \<in> ?L'" "bin_num (chunks st' ! i) = None" for i
        using that same(2,3) B(4) [of i] by (auto split: if_splits)
      show "X - {h2} \<subseteq> ?L'" using B(5) by blast
      show "\<not> in_use (chunks st' ! i)" if "i \<in> X - {h2}" for i
        using that B(5,6) same(2) by auto
    qed
  qed
  have co: "coalesced ?C' ?L' (insert h1 (Y - {h2}))"
    unfolding coalesced_def
  proof (intro ballI allI impI)
    fix i k assume i: "i \<in> ?L'" "cnext (chunks st' ! i) = Some k" "\<not> in_use (chunks st' ! i)" "\<not> in_use (chunks st' ! k)"
    have k: "k \<in> ?L'" using linksD(4) [OF links i(1,2)] by blast
    show "i \<in> insert h1 (Y - {h2}) \<or> k \<in> insert h1 (Y - {h2})"
    proof (cases "i = h1 \<or> k = h1")
      case False
      then have "cnext (chunks st ! i) = Some k" using i same(6) [of i] by simp
      then have "i \<in> Y \<or> k \<in> Y" using I(6) i k same(2) by (auto simp: coalesced_def)
      then show ?thesis using i(1) k by blast
    qed blast
  qed
  have used: "same_used st fs st' (h2 # fs)"
    unfolding same_used_def st'(3)
  proof (intro conjI allI ballI impI)
    show "(i \<in> ?L' \<and> in_use (chunks st' ! i)) = (i \<in> ?L \<and> in_use (chunks st ! i))" for i
      using same(2) [of i] free by (auto simp: c2_def)
    fix i assume i: "i \<in> ?L" "in_use (chunks st ! i)"
    then have "i \<noteq> h1" "i \<noteq> h2" using free by (auto simp: c1_def c2_def)
    then show "cptr (chunks st' ! i) = cptr (chunks st ! i)" "csize (chunks st' ! i) = csize (chunks st ! i)"
      "requested_size (chunks st' ! i) = requested_size (chunks st ! i)" "allocation_id (chunks st' ! i) = allocation_id (chunks st ! i)"
      using same [of i] i by simp_all
  qed
  have sum: "(\<Sum>i \<in> ?L'. csize (chunks st' ! i)) = (\<Sum>i \<in> ?L. csize (chunks st ! i))"
  proof -
    have h1': "h1 \<in> ?L'" using L ne by simp
    have "(\<Sum>i \<in> ?L' - {h1}. csize (chunks st' ! i)) = (\<Sum>i \<in> ?L' - {h1}. csize (chunks st ! i))"
      by (rule sum.cong) (use same(6) in auto)
    then show ?thesis using nth'(1) by (simp add: sum.remove [OF _ L(2)] sum.remove [OF _ h1'] c1_def c2_def)
  qed
  have rest: "same_rest st st'"
  proof -
    have "same_rest st st3" by (simp add: same_rest_def st3_def rs(3))
    then show ?thesis using same_rest_upd(2) [OF st'(4)] by (blast intro: same_rest_trans)
  qed
  have rs': "regions st' = rs" by (subst st'(4)) (simp add: st3_def)
  have e: "next_id st' = next_id st" "bytes_in_use st' = bytes_in_use st" "total_region st' = total_region st"
    "memory_limit st' = memory_limit st" using rest by (simp_all add: same_rest_def)
  have "inv_at (h2 # fs) (X - {h2}) (insert h1 (Y - {h2})) st'"
    unfolding inv_at_def Let_def st'(3) e rs'
    using st'(2) links table bins co sum rs(2,3) I ids_same [OF I(7) used] used_bytes_same [OF used] unfolding st'(3)
    by (simp add: geom_sizes)
  then show ?thesis using m st'(1,3) used rest ne nth'(1) same(2,6)
    by (intro exI [of _ st']) (simp add: c1_def c2_def)
qed

section \<open>Coalescing\<close>

lemma inv_coalesced: "inv_at fs X Y st \<Longrightarrow> coalesced (chunk_at st) (live st fs) Y' \<Longrightarrow> inv_at fs X Y' st"
  unfolding inv_at_def Let_def by blast

lemma coalesced_finish:
  assumes "coalesced C L {h}" "links_ok g C L" "h \<in> L"
    and "\<And>n. cnext (C h) = Some n \<Longrightarrow> in_use (C n)" "\<And>p. cprev (C h) = Some p \<Longrightarrow> in_use (C p)"
  shows "coalesced C L {}"
  unfolding coalesced_def
proof (intro ballI allI impI)
  fix i k assume i: "i \<in> L" "cnext (C i) = Some k" "\<not> in_use (C i)" "\<not> in_use (C k)"
  then have "i = h \<or> k = h" using assms(1) by (auto simp: coalesced_def)
  moreover have "cprev (C k) = Some i" using linksD(4) [OF assms(2) i(1,2)] by blast
  ultimately show "i \<in> {} \<or> k \<in> {}" using assms(4,5) i by auto
qed

lemma coalesce_next_inv:
  assumes inv: "inv_at fs {h} {h} st"
  shows "\<exists>st' fs'. coalesce_next h st = Some st' \<and> inv_at fs' {h} {h} st' \<and> same_used st fs st' fs' \<and> same_rest st st' \<and>
    h \<in> live st' fs' \<and> (\<forall>n. cnext (chunks st' ! h) = Some n \<longrightarrow> in_use (chunks st' ! n))"
proof -
  note I = invD [OF inv]
  have h: "h \<in> live st fs" and hf: "\<not> in_use (chunks st ! h)" using binsD(5,6) [OF I(5)] by auto
  show ?thesis
  proof (cases "\<exists>n. cnext (chunks st ! h) = Some n \<and> \<not> in_use (chunks st ! n)")
    case False
    then have "coalesce_next h st = Some st"
      using ChunkFromHandle_live [OF h] linksD(4) [OF I(3) h]
      by (auto simp: coalesce_next_def ChunkFromHandle_live split: option.splits)
    then show ?thesis using False inv h
      by (intro exI [of _ st] exI [of _ fs]) (auto simp: same_used_refl same_rest_def)
  next
    case True
    then obtain n where n: "cnext (chunks st ! h) = Some n" "\<not> in_use (chunks st ! n)" by blast
    have nL: "n \<in> live st fs" using linksD(4) [OF I(3) h n(1)] by blast
    have ne: "n \<noteq> h" by (rule next_neq [OF I(3) h n(1)])
    obtain s where s: "RemoveFreeChunkFromBin n st = Some s" "inv_at fs (insert n {h}) {h} s" "live s fs = live st fs"
      "same_used st fs s fs" "s = st\<lparr>chunks := chunks s, bins := bins s\<rparr>"
      "\<And>i. chunks s ! i = (if i = n then (chunks st ! n)\<lparr>bin_num := None\<rparr> else chunks st ! i)"
      using RemoveFreeChunkFromBin_inv [OF inv nL _ n(2)] ne by auto
    have cn: "cnext (chunks s ! h) = Some n" using s(6) [of h] ne n by simp
    obtain t where t: "Merge h n s = Some t" "inv_at (n # fs) {h} {h} t" "same_used s fs t (n # fs)" "same_rest s t"
      "live t (n # fs) = live s fs - {n}" "cnext (chunks t ! h) = cnext (chunks s ! n)"
      "\<And>i. i \<in> live s fs - {n} \<Longrightarrow> in_use (chunks t ! i) = in_use (chunks s ! i)"
      using Merge_inv [OF s(2) _ _ cn] ne by (auto simp: insert_Diff_if)
    have "in_use (chunks t ! k)" if k: "cnext (chunks t ! h) = Some k" for k
    proof -
      have nk: "cnext (chunks st ! n) = Some k" using k t(6) s(6) [of n] by simp
      have kL: "k \<in> live st fs" "k \<noteq> n" using linksD(4) [OF I(3) nL nk] next_neq [OF I(3) nL nk] by auto
      have "k \<noteq> h" using linksD(1) [OF I(3) nL] linksD(1) [OF I(3) h] linksD(4) [OF I(3) nL nk] linksD(4) [OF I(3) h n(1)] by auto
      then have "in_use (chunks st ! k)" using I(6) nL nk n(2) ne by (auto simp: coalesced_def)
      then show ?thesis using t(7) [of k] kL s(3) s(6) [of k] by simp
    qed
    moreover have "coalesce_next h st = Some t"
      using ChunkFromHandle_live [OF h] ChunkFromHandle_live [OF nL] n s(1) t(1) by (simp add: coalesce_next_def)
    moreover have "same_rest st t" using same_rest_upd(1) [OF s(5)] t(4) by (rule same_rest_trans)
    ultimately show ?thesis using same_used_trans [OF s(4) t(3)] t(2,5) s(3) h ne by blast
  qed
qed

lemma coalesce_prev_inv:
  assumes inv: "inv_at fs {h} {h} st" and nx: "\<And>n. cnext (chunks st ! h) = Some n \<Longrightarrow> in_use (chunks st ! n)"
  shows "\<exists>st' fs' r. coalesce_prev h st = Some (r, st') \<and> inv_at fs' {r} {} st' \<and> same_used st fs st' fs' \<and> same_rest st st'"
proof -
  note I = invD [OF inv]
  have h: "h \<in> live st fs" and hf: "\<not> in_use (chunks st ! h)" using binsD(5,6) [OF I(5)] by auto
  show ?thesis
  proof (cases "\<exists>p. cprev (chunks st ! h) = Some p \<and> \<not> in_use (chunks st ! p)")
    case False
    then have "coalesce_prev h st = Some (h, st)"
      using ChunkFromHandle_live [OF h] linksD(5) [OF I(3) h]
      by (auto simp: coalesce_prev_def ChunkFromHandle_live split: option.splits)
    moreover have "coalesced (chunk_at st) (live st fs) {}"
      by (rule coalesced_finish [OF I(6,3) h nx]) (use False in auto)
    ultimately show ?thesis using inv_coalesced [OF inv]
      by (intro exI [of _ st] exI [of _ fs] exI [of _ h]) (auto simp: same_used_refl same_rest_def)
  next
    case True
    then obtain p where p: "cprev (chunks st ! h) = Some p" "\<not> in_use (chunks st ! p)" by blast
    have pL: "p \<in> live st fs" and pn: "cnext (chunks st ! p) = Some h" using linksD(5) [OF I(3) h p(1)] by blast+
    have ne: "p \<noteq> h" using next_neq [OF I(3) pL pn] by simp
    obtain s where s: "RemoveFreeChunkFromBin p st = Some s" "inv_at fs (insert p {h}) {h} s" "live s fs = live st fs"
      "same_used st fs s fs" "s = st\<lparr>chunks := chunks s, bins := bins s\<rparr>"
      "\<And>i. chunks s ! i = (if i = p then (chunks st ! p)\<lparr>bin_num := None\<rparr> else chunks st ! i)"
      using RemoveFreeChunkFromBin_inv [OF inv pL _ p(2)] ne by auto
    have cn: "cnext (chunks s ! p) = Some h" using s(6) [of p] pn by simp
    obtain t where t: "Merge p h s = Some t" "inv_at (h # fs) {p} {p} t" "same_used s fs t (h # fs)" "same_rest s t"
      "live t (h # fs) = live s fs - {h}" "cnext (chunks t ! p) = cnext (chunks s ! h)" "cprev (chunks t ! p) = cprev (chunks s ! p)"
      "\<And>i. i \<in> live s fs - {h} \<Longrightarrow> in_use (chunks t ! i) = in_use (chunks s ! i)"
      using Merge_inv [OF s(2) _ _ cn] ne by (auto simp: insert_Diff_if)
    note J = invD [OF t(2)]
    have use: "in_use (chunks t ! k) = in_use (chunks st ! k)" if "k \<in> live st fs" "k \<noteq> h" for k
      using t(8) [of k] that s(3) s(6) [of k] by (auto simp: in_use_def)
    have "in_use (chunks t ! k)" if "cnext (chunks t ! p) = Some k" for k
    proof -
      have hk: "cnext (chunks st ! h) = Some k" using that t(6) s(6) [of h] ne by simp
      show ?thesis using use [of k] nx [OF hk] linksD(4) [OF I(3) h hk] next_neq [OF I(3) h hk] by simp
    qed
    moreover have "in_use (chunks t ! q)" if "cprev (chunks t ! p) = Some q" for q
    proof -
      have pq: "cprev (chunks st ! p) = Some q" using that t(7) s(6) [of p] by simp
      note q = linksD(5) [OF I(3) pL pq]
      have "q \<noteq> h" using nx pn p(2) q by auto
      then have "in_use (chunks st ! q)" using I(6) q p(2) ne by (auto simp: coalesced_def)
      then show ?thesis using use [of q] q \<open>q \<noteq> h\<close> by simp
    qed
    moreover have "p \<in> live t (h # fs)" using t(5) s(3) pL ne by simp
    ultimately have "coalesced (chunk_at t) (live t (h # fs)) {}" by (intro coalesced_finish [OF J(6,3)])
    then have "inv_at (h # fs) {p} {} t" by (rule inv_coalesced [OF t(2)])
    moreover have "coalesce_prev h st = Some (p, t)"
      using ChunkFromHandle_live [OF h] ChunkFromHandle_live [OF pL] p s(1) t(1) by (simp add: coalesce_prev_def)
    moreover have "same_rest st t" using same_rest_upd(1) [OF s(5)] t(4) by (rule same_rest_trans)
    ultimately show ?thesis using same_used_trans [OF s(4) t(3)] by blast
  qed
qed

section \<open>The map of the blocks in use\<close>

text \<open>What a client sees: address of each block in use, with its size, requested size and id.\<close>

definition blocks :: "bfc \<Rightarrow> nat \<Rightarrow> (nat \<times> nat \<times> int) option" where
  "blocks st p = (case hmap (regions st) p of None \<Rightarrow> None
     | Some h \<Rightarrow> let c = chunks st ! h in
         if in_use c then Some (csize c, requested_size c, allocation_id c) else None)"

lemma map_eqI:
  assumes "\<And>p v. f p = Some v \<longleftrightarrow> g p = Some v"
  shows "f = g"
proof
  fix p
  show "f p = g p" using assms [of p] by (cases "f p") (metis not_None_eq)+
qed

lemma blocks_iff:
  assumes "table_ok (hmap (regions st)) (chunk_at st) L"
  shows "blocks st p = Some v \<longleftrightarrow> (\<exists>h \<in> L. in_use (chunks st ! h) \<and> cptr (chunks st ! h) = p \<and>
    v = (csize (chunks st ! h), requested_size (chunks st ! h), allocation_id (chunks st ! h)))"
proof -
  have t: "hmap (regions st) p = Some h \<longleftrightarrow> h \<in> L \<and> cptr (chunks st ! h) = p" for h
    using assms by (auto simp: table_ok_def)
  show ?thesis
  proof (cases "hmap (regions st) p")
    case None
    then show ?thesis using t by (auto simp: blocks_def)
  next
    case (Some h)
    have "(\<exists>k \<in> L. in_use (chunks st ! k) \<and> cptr (chunks st ! k) = p \<and>
        v = (csize (chunks st ! k), requested_size (chunks st ! k), allocation_id (chunks st ! k))) \<longleftrightarrow>
      in_use (chunks st ! h) \<and> v = (csize (chunks st ! h), requested_size (chunks st ! h), allocation_id (chunks st ! h))"
      using t Some by (metis option.inject)
    then show ?thesis using Some by (auto simp: blocks_def Let_def)
  qed
qed

lemma blocks_same:
  assumes "inv_at fs X Y st" "inv_at fs' X' Y' st'" "same_used st fs st' fs'"
  shows "blocks st' = blocks st"
proof -
  have "blocks st' p = Some v \<longleftrightarrow> blocks st p = Some v" for p v
    unfolding blocks_iff [OF invD(4) [OF assms(1)]] blocks_iff [OF invD(4) [OF assms(2)]]
    using assms(3) unfolding same_used_def by (metis (no_types, lifting))
  then show ?thesis by (rule map_eqI)
qed

section \<open>Freeing\<close>

lemma mark_free_inv:
  assumes inv: "inv_at fs {} {} st" and h: "h \<in> live st fs" "in_use (chunks st ! h)"
    and st': "st' = st\<lparr>chunks := (chunks st)[h := (chunks st ! h)\<lparr>allocation_id := -1\<rparr>], bytes_in_use := bytes_in_use st - int (csize (chunks st ! h))\<rparr>"
  shows "inv_at fs {h} {h} st'" "blocks st' = (blocks st)(cptr (chunks st ! h) := None)"
proof -
  note I = invD [OF inv]
  let ?L = "live st fs"
  have nth: "chunks st' ! i = (if i = h then (chunks st ! h)\<lparr>allocation_id := -1\<rparr> else chunks st ! i)" for i
    using liveD(1) [OF h(1)] by (simp add: st')
  have live: "live st' fs = ?L" by (simp add: live_def st')
  have use: "in_use (chunks st' ! i) \<longleftrightarrow> i \<noteq> h \<and> in_use (chunks st ! i)" for i by (simp add: nth in_use_def)
  have eqs: "csize (chunks st' ! i) = csize (chunks st ! i)" "cptr (chunks st' ! i) = cptr (chunks st ! i)"
    "cnext (chunks st' ! i) = cnext (chunks st ! i)" "cprev (chunks st' ! i) = cprev (chunks st ! i)"
    "bin_num (chunks st' ! i) = bin_num (chunks st ! i)" "requested_size (chunks st' ! i) = requested_size (chunks st ! i)" for i
    by (simp_all add: nth)
  have b: "bin_num (chunks st ! h) = None" using binsD(4) [OF I(5) h(1)] h(2) by simp
  have "bins_ok (chunk_at st') ?L {h} (bins st)"
  proof (rule bins_upd [OF I(5)])
    show "i \<in> ?L \<and> bin_num (chunks st ! i) = bin_num (chunks st' ! i)" if "i \<in> ?L" for i using that by (simp add: eqs)
    show "i \<in> ?L \<and> bin_num (chunks st' ! i) = bin_num (chunks st ! i) \<and> csize (chunks st' ! i) = csize (chunks st ! i) \<and>
      cptr (chunks st' ! i) = cptr (chunks st ! i) \<and> \<not> in_use (chunks st' ! i) \<and> i \<notin> {h}"
      if "i \<in> ?L" "bin_num (chunks st ! i) \<noteq> None" for i
      using that b binsD(4) [OF I(5) that(1)] by (auto simp: eqs use split: if_splits)
    show "in_use (chunks st' ! i) \<or> i \<in> {h}" if "i \<in> ?L" "bin_num (chunks st' ! i) = None" for i
      using that binsD(4) [OF I(5) that(1)] by (auto simp: eqs use split: if_splits)
  qed (use h use in auto)
  moreover have "links_ok (geom (regions st)) (chunk_at st') ?L" by (rule links_cong [OF I(3)]) (simp add: eqs)
  moreover have table: "table_ok (hmap (regions st)) (chunk_at st') ?L" using I(4) by (simp add: table_ok_def eqs)
  moreover have "coalesced (chunk_at st') ?L {h}"
    using I(6) by (auto simp: coalesced_def eqs use)
  moreover have "ids_ok (chunk_at st') ?L (next_id st)"
    using I(7) by (simp add: ids_ok_def use eqs) (simp add: nth)
  moreover have "free_ok st' fs"
  proof (rule free_ok_cong [OF I(2)])
    show "chunks st' ! i = chunks st ! i" if "i \<in> set fs" for i using nth [of i] liveD(2) [OF h(1)] that by auto
  qed (simp_all add: st')
  moreover have "used_bytes (chunk_at st) ?L = csize (chunks st ! h) + used_bytes (chunk_at st') ?L"
  proof -
    have "(\<Sum>i \<in> ?L - {h}. if in_use (chunks st' ! i) then csize (chunks st' ! i) else 0) =
        (\<Sum>i \<in> ?L - {h}. if in_use (chunks st ! i) then csize (chunks st ! i) else 0)"
      by (rule sum.cong) (auto simp: use eqs)
    then show ?thesis using h use [of h] by (simp add: used_bytes_def sum.remove [OF _ h(1)])
  qed
  moreover have "regions st' = regions st" "next_id st' = next_id st" "bins st' = bins st"
    "bytes_in_use st' = bytes_in_use st - int (csize (chunks st ! h))"
    "total_region st' = total_region st" "memory_limit st' = memory_limit st" by (simp_all add: st')
  ultimately show "inv_at fs {h} {h} st'"
    unfolding inv_at_def Let_def live using I by (simp add: eqs)
  have "blocks st' p = Some v \<longleftrightarrow> ((blocks st)(cptr (chunks st ! h) := None)) p = Some v" for p v
  proof -
    have r: "regions st' = regions st" by (simp add: st')
    have u: "i = h" if "i \<in> ?L" "cptr (chunks st ! i) = cptr (chunks st ! h)" for i
      using I(4) that h(1) unfolding table_ok_def by (metis option.inject)
    have "blocks st' p = Some v \<longleftrightarrow> (\<exists>i \<in> ?L. i \<noteq> h \<and> in_use (chunks st ! i) \<and> cptr (chunks st ! i) = p \<and>
      v = (csize (chunks st ! i), requested_size (chunks st ! i), allocation_id (chunks st' ! i)))"
      using blocks_iff [of st' ?L p v] table by (simp add: r use eqs conj_assoc)
    also have "\<dots> \<longleftrightarrow> (\<exists>i \<in> ?L. i \<noteq> h \<and> in_use (chunks st ! i) \<and> cptr (chunks st ! i) = p \<and>
      v = (csize (chunks st ! i), requested_size (chunks st ! i), allocation_id (chunks st ! i)))"
      using nth by (metis (no_types, lifting))
    also have "\<dots> \<longleftrightarrow> p \<noteq> cptr (chunks st ! h) \<and> blocks st p = Some v"
      unfolding blocks_iff [OF I(4)] using u by (metis (no_types, lifting))
    finally show ?thesis by simp
  qed
  then show "blocks st' = (blocks st)(cptr (chunks st ! h) := None)" by (rule map_eqI)
qed

lemma FreeAndMaybeCoalesce_inv:
  assumes inv: "inv_at fs {} {} st" and h: "h \<in> live st fs" "in_use (chunks st ! h)"
  shows "\<exists>st' fs'. FreeAndMaybeCoalesce h st = Some st' \<and> inv_at fs' {} {} st' \<and>
    blocks st' = (blocks st)(cptr (chunks st ! h) := None) \<and>
    same_rest (st\<lparr>bytes_in_use := bytes_in_use st - int (csize (chunks st ! h))\<rparr>) st'"
proof -
  note I = invD [OF inv]
  define st0 where "st0 = st\<lparr>chunks := (chunks st)[h := (chunks st ! h)\<lparr>allocation_id := -1\<rparr>], bytes_in_use := bytes_in_use st - int (csize (chunks st ! h))\<rparr>"
  note st0 = mark_free_inv [OF inv h st0_def]
  have b: "bin_num (chunks st ! h) = None" using binsD(4) [OF I(5) h(1)] h(2) by simp
  obtain s fs1 where s: "coalesce_next h st0 = Some s" "inv_at fs1 {h} {h} s" "same_used st0 fs s fs1" "same_rest st0 s"
    "\<And>n. cnext (chunks s ! h) = Some n \<Longrightarrow> in_use (chunks s ! n)"
    using coalesce_next_inv [OF st0(1)] by blast
  obtain t fs2 r where t: "coalesce_prev h s = Some (r, t)" "inv_at fs2 {r} {} t" "same_used s fs1 t fs2" "same_rest s t"
    using coalesce_prev_inv [OF s(2,5)] by blast
  obtain u where u: "InsertFreeChunkIntoBin r t = Some u" "inv_at fs2 {} {} u" "same_used t fs2 u fs2"
    "u = t\<lparr>chunks := chunks u, bins := bins u\<rparr>"
    using InsertFreeChunkIntoBin_inv [OF t(2), of r] by auto
  have "FreeAndMaybeCoalesce h st = Some u"
    using ChunkFromHandle_live [OF h(1)] h b s(1) t(1) u(1)
    by (simp add: FreeAndMaybeCoalesce_def Let_def put_chunk_def st0_def)
  moreover have "blocks u = (blocks st)(cptr (chunks st ! h) := None)"
    using blocks_same [OF st0(1) u(2)] same_used_trans [OF same_used_trans [OF s(3) t(3)] u(3)] st0(2) by simp
  moreover have "same_rest (st\<lparr>bytes_in_use := bytes_in_use st - int (csize (chunks st ! h))\<rparr>) st0"
    by (simp add: same_rest_def st0_def)
  then have "same_rest (st\<lparr>bytes_in_use := bytes_in_use st - int (csize (chunks st ! h))\<rparr>) u"
    using s(4) t(4) same_rest_upd(1) [OF u(4)] by (blast intro: same_rest_trans)
  ultimately show ?thesis using u(2) by blast
qed

section \<open>Best-fit search\<close>

lemma mark_used_inv:
  assumes inv: "inv_at fs {h} {h} st" and n: "n \<le> csize (chunks st ! h)"
    and st': "chunks st' = (chunks st)[h := (chunks st ! h)\<lparr>requested_size := n, allocation_id := next_id st\<rparr>]"
      "next_id st' = next_id st + 1" "bytes_in_use st' = bytes_in_use st + int (csize (chunks st ! h))"
      "regions st' = regions st" "bins st' = bins st" "free_list st' = free_list st" "total_region st' = total_region st"
      "memory_limit st' = memory_limit st"
  shows "inv_at fs {} {} st'" "blocks st (cptr (chunks st ! h)) = None"
    "blocks st' = (blocks st)(cptr (chunks st ! h) \<mapsto> (csize (chunks st ! h), n, next_id st))"
proof -
  note I = invD [OF inv]
  let ?L = "live st fs" and ?p = "cptr (chunks st ! h)"
  have h: "h \<in> ?L" and hf: "\<not> in_use (chunks st ! h)" using binsD(5,6) [OF I(5)] by auto
  have nth: "chunks st' ! i = (if i = h then (chunks st ! h)\<lparr>requested_size := n, allocation_id := next_id st\<rparr> else chunks st ! i)" for i
    using liveD(1) [OF h] by (simp add: st')
  have live: "live st' fs = ?L" by (simp add: live_def st')
  have idpos: "0 < next_id st" using I(7) by (simp add: ids_ok_def)
  have use: "in_use (chunks st' ! i) \<longleftrightarrow> i = h \<or> in_use (chunks st ! i)" for i using idpos by (simp add: nth in_use_def)
  have eqs: "csize (chunks st' ! i) = csize (chunks st ! i)" "cptr (chunks st' ! i) = cptr (chunks st ! i)"
    "cnext (chunks st' ! i) = cnext (chunks st ! i)" "cprev (chunks st' ! i) = cprev (chunks st ! i)"
    "bin_num (chunks st' ! i) = bin_num (chunks st ! i)" for i
    by (simp_all add: nth)
  have b: "bin_num (chunks st ! h) = None" using binsD(4) [OF I(5) h] by simp
  have "bins_ok (chunk_at st') ?L {} (bins st)"
  proof (rule bins_upd [OF I(5)])
    show "i \<in> ?L \<and> bin_num (chunks st ! i) = bin_num (chunks st' ! i)" if "i \<in> ?L" for i using that by (simp add: eqs)
    show "i \<in> ?L \<and> bin_num (chunks st' ! i) = bin_num (chunks st ! i) \<and> csize (chunks st' ! i) = csize (chunks st ! i) \<and>
      cptr (chunks st' ! i) = cptr (chunks st ! i) \<and> \<not> in_use (chunks st' ! i) \<and> i \<notin> {}"
      if "i \<in> ?L" "bin_num (chunks st ! i) \<noteq> None" for i
      using that b binsD(4) [OF I(5) that(1)] by (auto simp: eqs use split: if_splits)
    show "in_use (chunks st' ! i) \<or> i \<in> {}" if "i \<in> ?L" "bin_num (chunks st' ! i) = None" for i
      using that binsD(4) [OF I(5) that(1)] by (auto simp: eqs use split: if_splits)
  qed auto
  moreover have "links_ok (geom (regions st)) (chunk_at st') ?L" by (rule links_cong [OF I(3)]) (simp add: eqs)
  moreover have table: "table_ok (hmap (regions st)) (chunk_at st') ?L" using I(4) by (simp add: table_ok_def eqs)
  moreover have "coalesced (chunk_at st') ?L {}"
    using I(6) by (auto simp: coalesced_def eqs use)
  moreover have "ids_ok (chunk_at st') ?L (next_id st + 1)"
  proof -
    have lt: "allocation_id (chunks st ! i) < next_id st" "0 < allocation_id (chunks st ! i)"
      "requested_size (chunks st ! i) \<le> csize (chunks st ! i)" if "i \<in> ?L" "in_use (chunks st ! i)" for i
      using I(7) that by (auto simp: ids_ok_def)
    have inj: "i = k" if "i \<in> ?L" "k \<in> ?L" "in_use (chunks st ! i)" "in_use (chunks st ! k)"
      "allocation_id (chunks st ! i) = allocation_id (chunks st ! k)" for i k
      using I(7) that by (auto simp: ids_ok_def)
    have "0 < allocation_id (chunks st' ! i) \<and> allocation_id (chunks st' ! i) < next_id st + 1 \<and>
        requested_size (chunks st' ! i) \<le> csize (chunks st' ! i)" if "i \<in> ?L" "in_use (chunks st' ! i)" for i
      using lt [of i] that idpos n by (auto simp: use nth)
    moreover have "i = k" if "i \<in> ?L" "k \<in> ?L" "in_use (chunks st' ! i)" "in_use (chunks st' ! k)"
      "allocation_id (chunks st' ! i) = allocation_id (chunks st' ! k)" for i k
      using inj [of i k] lt(1) [of i] lt(1) [of k] that by (auto simp: use nth split: if_splits)
    ultimately show ?thesis using idpos by (auto simp: ids_ok_def)
  qed
  moreover have "free_ok st' fs"
  proof (rule free_ok_cong [OF I(2)])
    show "chunks st' ! i = chunks st ! i" if "i \<in> set fs" for i using nth [of i] liveD(2) [OF h] that by auto
  qed (simp_all add: st')
  moreover have "used_bytes (chunk_at st') ?L = csize (chunks st ! h) + used_bytes (chunk_at st) ?L"
  proof -
    have "(\<Sum>i \<in> ?L - {h}. if in_use (chunks st' ! i) then csize (chunks st' ! i) else 0) =
        (\<Sum>i \<in> ?L - {h}. if in_use (chunks st ! i) then csize (chunks st ! i) else 0)"
      by (rule sum.cong) (auto simp: use eqs)
    then show ?thesis using hf use [of h] by (simp add: used_bytes_def sum.remove [OF _ h] eqs)
  qed
  ultimately show "inv_at fs {} {} st'"
    unfolding inv_at_def Let_def live using I by (simp add: eqs st'(2-))
  have u: "i = h" if "i \<in> ?L" "cptr (chunks st ! i) = ?p" for i
    using I(4) that h unfolding table_ok_def by (metis option.inject)
  have none: "blocks st ?p \<noteq> Some v" for v unfolding blocks_iff [OF I(4)] using u hf by blast
  then show "blocks st ?p = None" by blast
  have f: "requested_size (chunks st' ! i) = (if i = h then n else requested_size (chunks st ! i))"
    "allocation_id (chunks st' ! i) = (if i = h then next_id st else allocation_id (chunks st ! i))" for i
    by (simp_all add: nth)
  have "blocks st' p = Some v \<longleftrightarrow> ((blocks st)(?p \<mapsto> (csize (chunks st ! h), n, next_id st))) p = Some v" for p v
  proof -
    define F F' where "F = (\<lambda>i. (csize (chunks st ! i), requested_size (chunks st ! i), allocation_id (chunks st ! i)))"
      and "F' = (\<lambda>i. (csize (chunks st ! i), requested_size (chunks st' ! i), allocation_id (chunks st' ! i)))"
    have F: "F' h = (csize (chunks st ! h), n, next_id st)" "\<And>i. i \<noteq> h \<Longrightarrow> F' i = F i"
      by (simp_all add: F_def F'_def f)
    have "blocks st' p = Some v \<longleftrightarrow> (\<exists>i \<in> ?L. (i = h \<or> in_use (chunks st ! i)) \<and> cptr (chunks st ! i) = p \<and> v = F' i)"
    proof -
      have "table_ok (hmap (regions st')) (chunk_at st') ?L" using table by (simp only: st'(4))
      from blocks_iff [OF this] show ?thesis unfolding F'_def use eqs .
    qed
    also have "\<dots> \<longleftrightarrow> p = ?p \<and> v = F' h \<or> (\<exists>i \<in> ?L. in_use (chunks st ! i) \<and> cptr (chunks st ! i) = p \<and> v = F i)"
      using F(2) h hf by metis
    also have "\<dots> \<longleftrightarrow> p = ?p \<and> v = F' h \<or> blocks st p = Some v"
      unfolding blocks_iff [OF I(4)] F_def ..
    also have "\<dots> \<longleftrightarrow> p = ?p \<and> v = (csize (chunks st ! h), n, next_id st) \<or> blocks st p = Some v" unfolding F(1) ..
    finally show ?thesis using none by auto
  qed
  then show "blocks st' = (blocks st)(?p \<mapsto> (csize (chunks st ! h), n, next_id st))" by (rule map_eqI)
qed

text \<open>What a served request changes besides the blocks.\<close>

definition served :: "nat \<Rightarrow> bfc \<Rightarrow> bfc \<Rightarrow> bool" where
  "served sz st st' \<longleftrightarrow> next_id st' = next_id st + 1 \<and> num_allocs st' = num_allocs st + 1 \<and>
     bytes_in_use st' = bytes_in_use st + int sz \<and>
     max_bytes_in_use st' = max (max_bytes_in_use st) (bytes_in_use st + int sz) \<and>
     max_alloc_size st' = max (max_alloc_size st) (int sz) \<and> geom (regions st') = geom (regions st) \<and>
     memory_limit st' = memory_limit st \<and> total_region st' = total_region st \<and> sub_calls st' = sub_calls st \<and>
     curr_region st' = curr_region st \<and> started_backpedal st' = started_backpedal st"

lemma take_chunk_inv:
  assumes inv: "inv_at fs {} {} st" and h: "h \<in> set (bins st ! b)" "b < 21"
    and r: "0 < r" "256 dvd r" "r < 2 ^ 63" "r \<le> csize (chunks st ! h)" "n \<le> r"
  shows "\<exists>st' fs' sz. take_chunk b h r n st = Some (cptr (chunks st ! h), st') \<and> inv_at fs' {} {} st' \<and>
    blocks st (cptr (chunks st ! h)) = None \<and> r \<le> sz \<and> sz < 2 * r \<and> sz \<le> csize (chunks st ! h) \<and>
    blocks st' = (blocks st)(cptr (chunks st ! h) \<mapsto> (sz, n, next_id st)) \<and> served sz st st'"
proof -
  obtain s where s: "RemoveFreeChunkIterFromBin b h st = Some s" "inv_at fs {h} {} s" "live s fs = live st fs"
    "same_used st fs s fs" "s = st\<lparr>chunks := chunks s, bins := bins s\<rparr>"
    "\<And>i. chunks s ! i = (if i = h then (chunks st ! h)\<lparr>bin_num := None\<rparr> else chunks st ! i)" "h \<in> live st fs"
    using RemoveFreeChunkIterFromBin_inv [OF inv h] by auto
  have sh: "csize (chunks s ! h) = csize (chunks st ! h)" "cptr (chunks s ! h) = cptr (chunks st ! h)" using s(6) by simp_all
  have wrap: "r * 2 mod 18446744073709551616 = r * 2" using r(3) by simp
  obtain t fs' where t: "(if csize (chunks s ! h) \<ge> r * 2 then SplitChunk h r s else Some s) = Some t" "inv_at fs' {h} {h} t"
    "same_used s fs t fs'" "h \<in> live t fs'" "cptr (chunks t ! h) = cptr (chunks s ! h)" "same_rest s t"
    "csize (chunks t ! h) = (if csize (chunks s ! h) \<ge> r * 2 then r else csize (chunks s ! h))"
  proof (cases "csize (chunks s ! h) \<ge> r * 2")
    case True
    have "r < csize (chunks s ! h)" using True r(1) by simp
    from SplitChunk_inv [OF s(2) _ _ r(1) this r(2)] show thesis using that True by auto
  next
    case False
    have "coalesced (chunk_at s) (live s fs) {h}" using invD(6) [OF s(2)] by (auto simp: coalesced_def)
    then have "inv_at fs {h} {h} s" by (rule inv_coalesced [OF s(2)])
    then show thesis using that [of s fs] False s(3,7) by (simp add: same_used_refl same_rest_def)
  qed
  define sz where "sz = csize (chunks t ! h)"
  have sz: "r \<le> sz" "sz < 2 * r" "sz \<le> csize (chunks st ! h)" using t(7) sh r by (simp_all add: sz_def)
  define c where "c = (chunks t ! h)\<lparr>requested_size := n, allocation_id := next_id t\<rparr>"
  define u where "u = (put_chunk h c t)\<lparr>next_id := next_id t + 1, num_allocs := num_allocs t + 1,
    bytes_in_use := bytes_in_use t + int sz, max_bytes_in_use := max (max_bytes_in_use t) (bytes_in_use t + int sz),
    max_alloc_size := max (max_alloc_size t) (int sz)\<rparr>"
  have eq: "take_chunk b h r n st = Some (cptr (chunks st ! h), u)"
    using s(1) t(1) ChunkFromHandle_live [OF t(4)] ChunkFromHandle_live [of h s fs] s(3,7) t(5) sh
    by (simp add: take_chunk_def wrap Let_def c_def u_def sz_def put_chunk_def)
  have m: "inv_at fs' {} {} u" "blocks t (cptr (chunks t ! h)) = None"
    "blocks u = (blocks t)(cptr (chunks t ! h) \<mapsto> (csize (chunks t ! h), n, next_id t))"
    by (rule mark_used_inv [OF t(2), of n u]; use sz r(5) in \<open>simp add: u_def put_chunk_def c_def sz_def\<close>)+
  have "blocks t = blocks st" by (rule blocks_same [OF inv t(2) same_used_trans [OF s(4) t(3)]])
  moreover have rest: "same_rest st t" using same_rest_upd(1) [OF s(5)] t(6) by (rule same_rest_trans)
  moreover have "served sz st u" using rest by (simp add: served_def u_def put_chunk_def same_rest_def)
  ultimately show ?thesis using eq m sz t(5) sh
    by (intro exI [of _ u] exI [of _ fs'] exI [of _ sz]) (auto simp: same_rest_def sz_def)
qed

definition fits :: "bfc \<Rightarrow> nat list \<Rightarrow> nat \<Rightarrow> nat \<Rightarrow> bool" where
  "fits st fs r h \<longleftrightarrow> h \<in> live st fs \<and> \<not> in_use (chunks st ! h) \<and> r \<le> csize (chunks st ! h)"

text \<open>The best fit: the smallest free chunk that is large enough, at the lowest address.\<close>

definition best :: "bfc \<Rightarrow> nat list \<Rightarrow> nat \<Rightarrow> nat \<Rightarrow> bool" where
  "best st fs r h \<longleftrightarrow> fits st fs r h \<and> (\<forall>k. fits st fs r k \<longrightarrow> k = h \<or> chunk_lt (chunk_at st) h k)"

lemma csize_bound:
  assumes "inv_at fs X Y st" "h \<in> live st fs"
  shows "csize (chunks st ! h) \<le> 2 ^ 39"
proof -
  note I = invD [OF assms(1)]
  have "csize (chunks st ! h) \<le> (\<Sum>h \<in> live st fs. csize (chunks st ! h))"
    by (rule member_le_sum [OF assms(2)]) simp_all
  then show ?thesis using I(9,11,12) by linarith
qed

lemma FindChunkPtr_loop_inv:
  assumes inv: "inv_at fs {} {} st" and b: "b \<le> 21"
    and fit: "\<And>h. fits st fs r h \<Longrightarrow> b \<le> BinNumForSize (csize (chunks st ! h))"
    and r: "0 < r" "256 dvd r" "r < 2 ^ 63" "n \<le> r"
  shows "if \<forall>h. \<not> fits st fs r h then FindChunkPtr_loop [b..<21] r n st = Some (None, st)
    else \<exists>h st' fs' sz. best st fs r h \<and> FindChunkPtr_loop [b..<21] r n st = Some (Some (cptr (chunks st ! h)), st') \<and>
      inv_at fs' {} {} st' \<and> blocks st (cptr (chunks st ! h)) = None \<and> r \<le> sz \<and> sz < 2 * r \<and> sz \<le> csize (chunks st ! h) \<and>
      blocks st' = (blocks st)(cptr (chunks st ! h) \<mapsto> (sz, n, next_id st)) \<and> served sz st st'"
  using b fit
proof (induction "21 - b" arbitrary: b)
  case 0
  then have b: "b = 21" by simp
  have n: "\<not> fits st fs r h" for h using 0(3) [of h] BinNumForSize_bound [of "csize (chunks st ! h)"] b by linarith
  show ?case by (simp add: b n)
next
  case (Suc m)
  note I = invD [OF inv]
  have b: "b < 21" using Suc.hyps(2) by simp
  have u: "[b..<21] = b # [Suc b..<21]" using b by (rule upt_conv_Cons)
  have bin: "h \<in> set (bins st ! k) \<longleftrightarrow> h \<in> live st fs \<and> \<not> in_use (chunks st ! h) \<and> k = BinNumForSize (csize (chunks st ! h))"
    if "k < 21" for h k
  proof -
    have "h \<in> set (bins st ! k) \<longleftrightarrow> h \<in> live st fs \<and> bin_num (chunks st ! h) = Some k" using binsD(3) [OF I(5) that] by simp
    moreover have "bin_num (chunks st ! h) = Some k \<longleftrightarrow> \<not> in_use (chunks st ! h) \<and> k = BinNumForSize (csize (chunks st ! h))"
      if "h \<in> live st fs" using binsD(4) [OF I(5) that] by (cases "in_use (chunks st ! h)") auto
    ultimately show ?thesis by blast
  qed
  show ?case
  proof (cases "find (\<lambda>h. csize (chunks st ! h) \<ge> r) (bins st ! b)")
    case None
    then have none: "\<not> r \<le> csize (chunks st ! h)" if "h \<in> set (bins st ! b)" for h
      using that by (simp add: find_None_iff)
    have "Suc b \<le> BinNumForSize (csize (chunks st ! h))" if "fits st fs r h" for h
    proof -
      have "BinNumForSize (csize (chunks st ! h)) \<noteq> b" using none [of h] iffD2 [OF bin [OF b], of h] that by (auto simp: fits_def)
      then show ?thesis using Suc.prems(2) [OF that] by simp
    qed
    then have IH: "if \<forall>h. \<not> fits st fs r h then FindChunkPtr_loop [Suc b..<21] r n st = Some (None, st)
      else \<exists>h st' fs' sz. best st fs r h \<and> FindChunkPtr_loop [Suc b..<21] r n st = Some (Some (cptr (chunks st ! h)), st') \<and>
        inv_at fs' {} {} st' \<and> blocks st (cptr (chunks st ! h)) = None \<and> r \<le> sz \<and> sz < 2 * r \<and> sz \<le> csize (chunks st ! h) \<and>
        blocks st' = (blocks st)(cptr (chunks st ! h) \<mapsto> (sz, n, next_id st)) \<and> served sz st st'"
      using Suc.hyps(2) b by (intro Suc.hyps(1)) simp_all
    have "FindChunkPtr_loop [b..<21] r n st = FindChunkPtr_loop [Suc b..<21] r n st"
      by (simp add: u None)
    with IH show ?thesis by (simp only:)
  next
    case (Some h)
    then obtain i where i: "i < length (bins st ! b)" "h = bins st ! b ! i" "r \<le> csize (chunks st ! h)"
      "\<And>j. j < i \<Longrightarrow> \<not> r \<le> csize (chunks st ! (bins st ! b ! j))"
      by (auto simp: find_Some_iff)
    have hb: "h \<in> set (bins st ! b)" using i by simp
    have h: "h \<in> live st fs" "\<not> in_use (chunks st ! h)" "b = BinNumForSize (csize (chunks st ! h))"
      using iffD1 [OF bin [OF b] hb] by blast+
    have "best st fs r h"
      unfolding best_def
    proof (intro conjI allI impI)
      show "fits st fs r h" using h(1,2) i(3) by (simp add: fits_def)
      fix k assume k: "fits st fs r k"
      show "k = h \<or> chunk_lt (chunk_at st) h k"
      proof (cases "BinNumForSize (csize (chunks st ! k)) = b")
        case True
        then have "k \<in> set (bins st ! b)" using iffD2 [OF bin [OF b], of k] k by (simp add: fits_def)
        then obtain j where j: "j < length (bins st ! b)" "k = bins st ! b ! j" by (auto simp: in_set_conv_nth)
        then have "\<not> j < i" using i(4) [of j] k by (auto simp: fits_def)
        then consider "j = i" | "i < j" by linarith
        then show ?thesis
        proof cases
          case 1 then show ?thesis using i(2) j(2) by simp
        next
          case 2 then show ?thesis
            using sorted_wrt_nth_less [OF binsD(2) [OF I(5) b] 2 j(1)] i(2) j(2) by blast
        qed
      next
        case False
        then have "b < BinNumForSize (csize (chunks st ! k))" using Suc.prems(2) [OF k] by simp
        moreover have "csize (chunks st ! h) < 2 ^ 64" using csize_bound [OF inv h(1)] by simp
        ultimately have "\<not> csize (chunks st ! k) \<le> csize (chunks st ! h)"
          using BinNumForSize_mono [of "csize (chunks st ! k)" "csize (chunks st ! h)"] h(3) by linarith
        then show ?thesis by (simp add: chunk_lt_def)
      qed
    qed
    moreover obtain st' fs' sz where t: "take_chunk b h r n st = Some (cptr (chunks st ! h), st')" "inv_at fs' {} {} st'"
      "blocks st (cptr (chunks st ! h)) = None" "r \<le> sz" "sz < 2 * r" "sz \<le> csize (chunks st ! h)"
      "blocks st' = (blocks st)(cptr (chunks st ! h) \<mapsto> (sz, n, next_id st))" "served sz st st'"
      using take_chunk_inv [OF inv hb b r(1-3) i(3) r(4)] by blast
    moreover have "FindChunkPtr_loop [b..<21] r n st = Some (Some (cptr (chunks st ! h)), st')"
      by (simp add: u Some t(1))
    moreover have "\<not> (\<forall>h. \<not> fits st fs r h)" using h(1,2) i(3) by (auto simp: fits_def)
    ultimately show ?thesis unfolding if_not_P [OF \<open>\<not> (\<forall>h. \<not> fits st fs r h)\<close>] by blast
  qed
qed

lemma FindChunkPtr_inv:
  assumes inv: "inv_at fs {} {} st" and r: "0 < r" "256 dvd r" "r < 2 ^ 63" "n \<le> r"
  shows "if \<forall>h. \<not> fits st fs r h then FindChunkPtr (BinNumForSize r) r n st = Some (None, st)
    else \<exists>h st' fs' sz. best st fs r h \<and> FindChunkPtr (BinNumForSize r) r n st = Some (Some (cptr (chunks st ! h)), st') \<and>
      inv_at fs' {} {} st' \<and> blocks st (cptr (chunks st ! h)) = None \<and> r \<le> sz \<and> sz < 2 * r \<and> sz \<le> csize (chunks st ! h) \<and>
      blocks st' = (blocks st)(cptr (chunks st ! h) \<mapsto> (sz, n, next_id st)) \<and> served sz st st'"
  unfolding FindChunkPtr_def kNumBins_def
proof (rule FindChunkPtr_loop_inv [OF inv _ _ r])
  show "BinNumForSize r \<le> 21" using BinNumForSize_bound [of r] by simp
  show "BinNumForSize r \<le> BinNumForSize (csize (chunks st ! h))" if "fits st fs r h" for h
    using csize_bound [OF inv, of h] that by (intro BinNumForSize_mono) (auto simp: fits_def)
qed

section \<open>Adding a region\<close>

lemma sum_AddAllocationRegion:
  "sum_list (map memory_size (AddAllocationRegion p n rs)) = n + sum_list (map memory_size rs)"
proof -
  let ?e = "upper_bound rs p"
  have "sum_list (map memory_size rs) = sum_list (map memory_size (take ?e rs @ drop ?e rs))" by simp
  also have "\<dots> = sum_list (map memory_size (take ?e rs)) + sum_list (map memory_size (drop ?e rs))"
    by (simp only: map_append sum_list_append)
  finally show ?thesis by (simp add: AddAllocationRegion_def Let_def AllocationRegion_def)
qed

definition region_added :: "nat \<Rightarrow> nat \<Rightarrow> bfc \<Rightarrow> bfc \<Rightarrow> bool" where
  "region_added p n st st' \<longleftrightarrow> memory_limit st' = memory_limit st \<and> curr_region st' = curr_region st \<and>
     total_region st' = total_region st + n \<and> started_backpedal st' = started_backpedal st \<and> next_id st' = next_id st \<and>
     num_allocs st' = num_allocs st \<and> bytes_in_use st' = bytes_in_use st \<and> max_bytes_in_use st' = max_bytes_in_use st \<and>
     max_alloc_size st' = max_alloc_size st \<and> sub_calls st' = sub_calls st \<and>
     set (geom (regions st')) = insert (p, n) (set (geom (regions st)))"

lemma add_region_inv:
  assumes inv: "inv_at fs {} {} st" and p: "0 < p" "0 < n" "256 dvd n" "total_region st + n \<le> memory_limit st"
    and free: "\<forall>(q, m) \<in> set (geom (regions st)). p + n \<le> q \<or> q + m \<le> p"
  shows "\<exists>st' fs'. add_region p n st = Some st' \<and> inv_at fs' {} {} st' \<and> blocks st' = blocks st \<and> region_added p n st st' \<and>
    (\<exists>h. fits st' fs' n h)"
proof -
  note I = invD [OF inv]
  let ?L = "live st fs"
  define rs0 where "rs0 = AddAllocationRegion p n (regions st)"
  have n39: "n \<le> 2 ^ 39" using p(4) I(12) by linarith
  note A = AddAllocationRegion [OF I(1) p(1-3) n39 free, folded rs0_def]
  define st0 where "st0 = st\<lparr>total_region := total_region st + n, regions := rs0\<rparr>"
  have f0: "free_ok st0 fs" by (rule free_ok_cong [OF I(2)]) (simp_all add: st0_def)
  have L0: "live st0 fs = ?L" by (simp add: live_def st0_def)
  obtain h st1 fs' where h: "AllocateChunk st0 = Some (h, st1)" "h \<notin> ?L" "live st1 fs' = insert h ?L" "free_ok st1 fs'"
    "st1 = st0\<lparr>chunks := chunks st1, free_list := free_list st1\<rparr>"
    "\<And>i. i \<in> ?L \<Longrightarrow> chunks st1 ! i = chunks st ! i" "\<not> in_use (chunks st1 ! h)" "bin_num (chunks st1 ! h) = None"
    using AllocateChunk_ok [OF f0] unfolding L0 by (auto simp: st0_def)
  have slot: "slot (geom rs0) p" using A(2) p by (auto simp: slot_def)
  obtain rs where rs: "set_handle p (Some h) rs0 = Some rs" "rs_ok rs" "geom rs = geom rs0" "hmap rs = (hmap (regions st))(p := Some h)"
    using set_handle_hmap [OF A(1) slot, of "Some h"] A(3) by auto
  have r1: "regions st1 = rs0" by (subst h(5)) (simp add: st0_def)
  define c where "c = (chunks st1 ! h)\<lparr>cptr := p, csize := n, allocation_id := -1, cprev := None, cnext := None\<rparr>"
  define st2 where "st2 = (put_chunk h c st1)\<lparr>regions := rs\<rparr>"
  have len: "h < length (chunks st1)" using liveD(1) [of h st1 fs'] h(3) by simp
  have eq: "add_region p n st = InsertFreeChunkIntoBin h st2"
    using h(1) len rs(1) r1 by (simp add: add_region_def rs0_def [symmetric] st0_def [symmetric] ChunkFromHandle_def Let_def
        c_def [symmetric] st2_def put_chunk_def)
  have nth: "chunks st2 ! h = c" "\<And>i. i \<noteq> h \<Longrightarrow> chunks st2 ! i = chunks st1 ! i" using len by (simp_all add: st2_def put_chunk_def)
  have old: "chunks st2 ! i = chunks st ! i" if "i \<in> ?L" for i using nth(2) [of i] h(2,6) that by metis
  have c: "cptr c = p" "csize c = n" "cprev c = None" "cnext c = None" "\<not> in_use c" "bin_num c = None"
    using h(8) by (simp_all add: c_def in_use_def)
  have L2: "live st2 fs' = insert h ?L" using h(3) by (simp add: live_def st2_def put_chunk_def)
  have gs: "set (geom rs) = insert (p, n) (set (geom (regions st)))" using rs(3) A(2) by simp
  have ap: "apart c (chunks st ! i)" if "i \<in> ?L" for i
    using linksD(3) [OF I(3) that] free c by (force simp: home_def apart_def)
  have links: "links_ok (geom rs) (chunk_at st2) (insert h ?L)"
  proof (rule links_okI)
    show "0 < csize (chunks st2 ! i) \<and> 256 dvd csize (chunks st2 ! i) \<and> home (geom rs) (chunks st2 ! i)" if "i \<in> insert h ?L" for i
    proof (cases "i = h")
      case True
      then show ?thesis using c p gs nth by (auto simp: home_def)
    next
      case False
      then have i: "i \<in> ?L" using that by simp
      show ?thesis using linksD(1-3) [OF I(3) i] gs unfolding old [OF i] by (auto simp: home_def)
    qed
    show "k \<in> insert h ?L \<and> cprev (chunks st2 ! k) = Some i \<and> cptr (chunks st2 ! k) = cptr (chunks st2 ! i) + csize (chunks st2 ! i)"
      if "i \<in> insert h ?L" "cnext (chunks st2 ! i) = Some k" for i k
    proof -
      have i: "i \<in> ?L" using that c nth by auto
      then have "cnext (chunks st ! i) = Some k" using that(2) old by simp
      from linksD(4) [OF I(3) i this] show ?thesis using old [OF i] old [of k] by simp
    qed
    show "k \<in> insert h ?L \<and> cnext (chunks st2 ! k) = Some i"
      if "i \<in> insert h ?L" "cprev (chunks st2 ! i) = Some k" for i k
    proof -
      have i: "i \<in> ?L" using that c nth by auto
      then have "cprev (chunks st ! i) = Some k" using that(2) old by simp
      from linksD(5) [OF I(3) i this] show ?thesis using old [OF i] old [of k] by simp
    qed
    show "apart (chunks st2 ! i) (chunks st2 ! j)" if ij: "i \<in> insert h ?L" "j \<in> insert h ?L" "i \<noteq> j" for i j
    proof -
      have s: "apart a b = apart b a" for a b by (auto simp: apart_def)
      consider "i = h" "j \<in> ?L" | "j = h" "i \<in> ?L" | "i \<in> ?L" "j \<in> ?L" using ij by blast
      then show ?thesis
      proof cases
        case 1 then show ?thesis using ap [of j] old [of j] nth(1) by simp
      next
        case 2 then show ?thesis using ap [of i] old [of i] nth(1) s by simp
      next
        case 3 then show ?thesis using linksD(6) [OF I(3) 3 ij(3)] old by simp
      qed
    qed
  qed
  have table: "table_ok (hmap rs) (chunk_at st2) (insert h ?L)"
  proof -
    have t: "hmap (regions st) (cptr (chunks st ! i)) = Some i" if "i \<in> ?L" for i
      using I(4) that by (simp add: table_ok_def)
    have t': "i \<in> ?L \<and> cptr (chunks st ! i) = a" if "hmap (regions st) a = Some i" for a i
      using I(4) that by (simp add: table_ok_def)
    have ne: "cptr (chunks st ! i) \<noteq> p" if "i \<in> ?L" for i
      using ap [OF that] linksD(1) [OF I(3) that] c p by (auto simp: apart_def)
    show ?thesis unfolding table_ok_def rs(4)
    proof (intro conjI ballI allI impI)
      show "((hmap (regions st))(p := Some h)) (cptr (chunks st2 ! i)) = Some i" if "i \<in> insert h ?L" for i
        using that t [of i] ne [of i] old [of i] nth(1) c by (cases "i = h") auto
      fix a i assume a: "((hmap (regions st))(p := Some h)) a = Some i"
      show "i \<in> insert h ?L" using a t' by (auto split: if_splits)
      show "cptr (chunks st2 ! i) = a"
      proof (cases "a = p")
        case True then show ?thesis using a nth(1) c by simp
      next
        case False
        then have "i \<in> ?L \<and> cptr (chunks st ! i) = a" using a t' by simp
        then show ?thesis using old by simp
      qed
    qed
  qed
  have bins: "bins_ok (chunk_at st2) (insert h ?L) {h} (bins st2)"
  proof -
    have b: "bins st2 = bins st" unfolding st2_def put_chunk_def by simp (subst h(5), simp add: st0_def)
    show ?thesis unfolding b
    proof (rule bins_upd [OF I(5)])
      show "i \<in> ?L \<and> bin_num (chunks st ! i) = bin_num (chunks st2 ! i)"
        if "i \<in> insert h ?L" "bin_num (chunks st2 ! i) \<noteq> None" for i
        using that c nth(1) old [of i] by auto
      show "i \<in> insert h ?L \<and> bin_num (chunks st2 ! i) = bin_num (chunks st ! i) \<and> csize (chunks st2 ! i) = csize (chunks st ! i) \<and>
        cptr (chunks st2 ! i) = cptr (chunks st ! i) \<and> \<not> in_use (chunks st2 ! i) \<and> i \<notin> {h}"
        if i: "i \<in> ?L" "bin_num (chunks st ! i) \<noteq> None" for i
      proof -
        have "\<not> in_use (chunks st ! i)" using binsD(4) [OF I(5) i(1)] i(2) by (auto split: if_splits)
        then show ?thesis using i h(2) old [OF i(1)] by auto
      qed
      show "in_use (chunks st2 ! i) \<or> i \<in> {h}" if "i \<in> insert h ?L" "bin_num (chunks st2 ! i) = None" for i
      proof (cases "i = h")
        case False
        then have i: "i \<in> ?L" using that by simp
        then show ?thesis using binsD(4) [OF I(5) i] that(2) old [OF i] by (auto split: if_splits)
      qed simp
    qed (use c nth(1) in auto)
  qed
  have co: "coalesced (chunk_at st2) (insert h ?L) {}"
    unfolding coalesced_def
  proof (intro ballI allI impI)
    fix i k assume i: "i \<in> insert h ?L" "cnext (chunks st2 ! i) = Some k" "\<not> in_use (chunks st2 ! i)" "\<not> in_use (chunks st2 ! k)"
    then have iL: "i \<in> ?L" using c nth(1) by auto
    then have n: "cnext (chunks st ! i) = Some k" using i old by simp
    then have "k \<in> ?L" using linksD(4) [OF I(3) iL] by blast
    then show "i \<in> {} \<or> k \<in> {}" using i iL n old I(6) by (auto simp: coalesced_def)
  qed
  have used: "same_used st fs st2 fs'"
    unfolding same_used_def L2
  proof (intro conjI allI ballI impI)
    show "(i \<in> insert h ?L \<and> in_use (chunks st2 ! i)) = (i \<in> ?L \<and> in_use (chunks st ! i))" for i
      using old [of i] c nth(1) h(2) by (cases "i = h") auto
  qed (simp_all add: old)
  have sum: "(\<Sum>i \<in> insert h ?L. csize (chunks st2 ! i)) = n + (\<Sum>i \<in> ?L. csize (chunks st ! i))"
  proof -
    have "(\<Sum>i \<in> ?L. csize (chunks st2 ! i)) = (\<Sum>i \<in> ?L. csize (chunks st ! i))" by (rule sum.cong) (simp_all add: old)
    then show ?thesis using h(2) nth(1) c by simp
  qed
  have f2: "free_ok st2 fs'"
  proof (rule free_ok_cong [OF h(4)])
    show "chunks st2 ! i = chunks st1 ! i" if "i \<in> set fs'" for i
      using nth(2) [of i] that h(3) liveD(2) [of h st1 fs'] by auto
  qed (simp_all add: st2_def put_chunk_def)
  have e: "region_added p n st st2"
    unfolding region_added_def st2_def put_chunk_def by (simp add: gs) (subst (1 2 3 4 5 6 7 8 9 10) h(5), simp add: st0_def)
  have e': "next_id st2 = next_id st" "bytes_in_use st2 = bytes_in_use st" "total_region st2 = total_region st + n"
    "memory_limit st2 = memory_limit st" "regions st2 = rs" using e by (simp_all add: region_added_def) (simp add: st2_def)
  have ms: "sum_list (map memory_size rs) = n + total_region st"
    using rs(3) sum_AddAllocationRegion [of p n "regions st"] I(10) unfolding geom_sizes rs0_def by simp
  have "inv_at fs' {h} {} st2"
    unfolding inv_at_def Let_def L2 e'
    using f2 links table bins co sum rs(2) ms I(8,9,11,12) p(4) ids_same [OF I(7) used] used_bytes_same [OF used] unfolding L2
    by simp
  from InsertFreeChunkIntoBin_inv [OF this, of h] obtain st' where st': "InsertFreeChunkIntoBin h st2 = Some st'"
    "inv_at fs' {} {} st'" "same_used st2 fs' st' fs'" "st' = st2\<lparr>chunks := chunks st', bins := bins st'\<rparr>"
    "live st' fs' = insert h ?L" "chunks st' ! h = (chunks st2 ! h)\<lparr>bin_num := Some (BinNumForSize (csize (chunks st2 ! h)))\<rparr>"
    unfolding L2 by auto
  have "same_rest st2 st'" by (rule same_rest_upd(1) [OF st'(4)])
  then have "region_added p n st st'" using e by (simp add: region_added_def same_rest_def)
  moreover have "blocks st' = blocks st" by (rule blocks_same [OF inv st'(2) same_used_trans [OF used st'(3)]])
  moreover have "fits st' fs' n h" using st'(5,6) nth(1) c by (simp add: fits_def in_use_def)
  ultimately show ?thesis using eq st'(1,2) by auto
qed

section \<open>Growth\<close>

lemma grow_region_returns:
  assumes "0 < cur" "256 dvd cur" "r \<le> 2 ^ 39"
  shows "\<exists>c i. grow_region r cur inc = Some (c, i) \<and> r \<le> c \<and> 256 dvd c \<and> cur \<le> c \<and>
    (c = cur \<and> i = inc \<or> i \<and> c < 2 * r)"
  using assms
proof (induction "r - cur" arbitrary: cur inc rule: less_induct)
  case less
  show ?case
  proof (cases "r > cur")
    case False
    then show ?thesis using less.prems by (subst grow_region.simps) simp
  next
    case True
    have w: "cur * 2 mod 2 ^ 64 = cur * 2" using True less.prems(3) by simp
    have "r - cur * 2 < r - cur" "0 < cur * 2" "256 dvd cur * 2" using True less.prems by auto
    from less.hyps [OF this less.prems(3), of True] obtain c i
      where c: "grow_region r (cur * 2) True = Some (c, i)" "r \<le> c" "256 dvd c" "cur * 2 \<le> c"
        "c = cur * 2 \<and> i = True \<or> i \<and> c < 2 * r" by blast
    have "grow_region r cur inc = Some (c, i)"
      by (subst grow_region.simps) (use True w c(1) in simp)
    then show ?thesis using c True by auto
  qed
qed

lemma round24_bounds: "round24 n * 2 ^ 24 \<le> n * (2 ^ 24 + 1)" "n * (2 ^ 24 - 1) \<le> round24 n * 2 ^ 24"
proof -
  define e where "e = bit_length n - 24"
  define q where "q = n div 2 ^ e"
  define r where "r = n mod 2 ^ e"
  have n: "n = q * 2 ^ e + r" unfolding q_def r_def by (rule div_mult_mod_eq [symmetric])
  have n2: "r < 2 ^ e" by (simp add: r_def)
  define R where "R = round24 n"
  have R: "R = q * 2 ^ e \<and> 2 * r \<le> 2 ^ e \<or> R = (q + 1) * 2 ^ e \<and> 2 ^ e \<le> 2 * r"
    by (auto simp: R_def round24_def Let_def e_def q_def r_def)
  have "R * 2 ^ 24 \<le> n * (2 ^ 24 + 1) \<and> n * (2 ^ 24 - 1) \<le> R * 2 ^ 24"
  proof (cases "e = 0")
    case True
    then have "R = n" using n n2 R by auto
    then show ?thesis by simp
  next
    case False
    then have b: "bit_length n = e + 24" "0 < n" by (auto simp: e_def bit_length.simps [of 0] intro: gr0I)
    then have "2 ^ (e + 23) \<le> n" using bit_length_bounds [of n] by (simp add: add.commute)
    then have m: "2 ^ e * 8388608 \<le> n" by (simp add: power_add)
    from R show ?thesis
    proof
      assume R: "R = q * 2 ^ e \<and> 2 * r \<le> 2 ^ e"
      then have "R \<le> n" using n by simp
      moreover have "n * 16777215 \<le> R * 16777216"
        using n m R by linarith
      ultimately show ?thesis by simp
    next
      assume R: "R = (q + 1) * 2 ^ e \<and> 2 ^ e \<le> 2 * r"
      then have 1: "R = q * 2 ^ e + 2 ^ e" by simp
      have "R * 16777216 = (q * 2 ^ e) * 16777216 + 2 ^ e * 16777216" using 1 by simp
      also have "\<dots> \<le> (q * 2 ^ e) * 16777216 + r * 16777216 + 2 ^ e * 8388608"
        using R by linarith
      also have "\<dots> \<le> n * 16777216 + n" using n(1) m by (simp add: algebra_simps)
      finally have "R * 2 ^ 24 \<le> n * (2 ^ 24 + 1)" by simp
      moreover have "n * 16777215 \<le> R * 16777216" using 1 n n2 by linarith
      ultimately show ?thesis by simp
    qed
  qed
  then show "round24 n * 2 ^ 24 \<le> n * (2 ^ 24 + 1)" "n * (2 ^ 24 - 1) \<le> round24 n * 2 ^ 24" by (simp_all add: R_def)
qed

text \<open>The backpedal shrinks sizes above 2304 bytes, and never reaches zero.\<close>

lemma backpedal_bytes_bounds:
  "backpedal_bytes n * 10000 \<le> n * 9001" "n * 8999 \<le> (backpedal_bytes n + 1) * 10000"
proof -
  let ?m = "round24 n" and ?R = "round24 (round24 n * 15099494)"
  have m: "?m * 16777216 \<le> n * 16777217" "n * 16777215 \<le> ?m * 16777216" using round24_bounds [of n] by simp_all
  have R: "?R * 16777216 \<le> ?m * 15099494 * 16777217" "?m * 15099494 * 16777215 \<le> ?R * 16777216"
    using round24_bounds [of "?m * 15099494"] by simp_all
  have d: "backpedal_bytes n * 16777216 \<le> ?R" "?R \<le> (backpedal_bytes n + 1) * 16777216"
    by (simp_all add: backpedal_bytes_def)
  have "backpedal_bytes n * 16777216 * 16777216 * 16777216 \<le> n * 16777217 * 15099494 * 16777217"
    using d(1) R(1) m(1) by linarith
  then show "backpedal_bytes n * 10000 \<le> n * 9001" by simp
  have "n * 16777215 * 15099494 * 16777215 \<le> (backpedal_bytes n + 1) * 16777216 * 16777216 * 16777216"
    using d(2) R(2) m(2) by linarith
  then show "n * 8999 \<le> (backpedal_bytes n + 1) * 10000" by simp
qed

lemma backpedal_2560: "RoundedBytes (backpedal_bytes 2560) = 2304" "RoundedBytes (backpedal_bytes 2304) = 2304"
  by (simp_all add: RoundedBytes_def backpedal_bytes_def round24_def bit_length.simps Let_def)

lemma backpedal_step:
  assumes "256 dvd n" "256 \<le> n" "n \<le> 2 ^ 40"
  defines "m \<equiv> RoundedBytes (backpedal_bytes n)"
  shows "0 < m" "m \<le> n" "256 dvd m" "2304 < n \<Longrightarrow> m < n"
proof -
  let ?x = "backpedal_bytes n"
  have x: "?x * 10000 \<le> n * 9001" by (rule backpedal_bytes_bounds)
  have x0: "0 < ?x" using backpedal_bytes_bounds(2) [of n] assms(2) by simp
  have le: "?x \<le> n" using x by linarith
  have x64: "?x \<le> 2 ^ 64 - 256" using le assms(3) by simp
  show "0 < m" "256 dvd m" unfolding m_def using RoundedBytes_eq(4) [OF x64 x0] by (simp_all add: RoundedBytes_dvd)
  have "m \<le> RoundedBytes n" unfolding m_def by (rule RoundedBytes_mono [OF le]) (use assms(3) in simp)
  also have "\<dots> = n" by (rule RoundedBytes_id) (use assms in simp_all)
  finally show "m \<le> n" .
  assume n: "2304 < n"
  show "m < n"
  proof (cases "n = 2560")
    case True
    then show ?thesis using backpedal_2560 by (simp add: m_def)
  next
    case False
    then have "2816 \<le> n" using n assms(1) by (auto elim!: dvdE)
    then have "?x \<le> n - 256" using x by linarith
    then have "m \<le> RoundedBytes (n - 256)" unfolding m_def by (rule RoundedBytes_mono) (use assms(3) in simp)
    also have "\<dots> = n - 256" by (rule RoundedBytes_id) (use assms in \<open>simp_all add: dvd_diff_nat\<close>)
    finally show ?thesis using assms(2) by linarith
  qed
qed

lemma backpedal_stuck: "2304 \<le> n \<Longrightarrow> n \<le> 2 ^ 40 \<Longrightarrow> 2304 \<le> RoundedBytes (backpedal_bytes n)"
proof -
  assume n: "2304 \<le> n" "n \<le> 2 ^ 40"
  note b = backpedal_bytes_bounds [of n]
  have x: "2049 \<le> backpedal_bytes n" using b(2) n(1) by simp
  have x2: "backpedal_bytes n \<le> 2 ^ 64 - 256" using b(1) n(2) by simp
  show ?thesis using RoundedBytes_eq(1) [OF x2] RoundedBytes_dvd [of "backpedal_bytes n"] x by (auto elim!: dvdE)
qed

text \<open>
  The backpedal loop returns when the request is at least 2304 bytes, or when a later call of
  the sub-allocator succeeds whatever the size.
\<close>

lemma backpedal_returns:
  assumes "2304 \<le> r \<or> k \<le> k0 \<and> (\<forall>n. Alloc k0 n \<noteq> None)" "256 dvd b" "256 \<le> b" "b \<le> 2 ^ 40"
  shows "\<exists>mem' b' k'. backpedal Alloc r k mem b = Some (mem', b', k') \<and> k \<le> k' \<and> 0 < b' \<and> b' \<le> b \<and> 256 dvd b' \<and>
    (mem \<noteq> None \<longrightarrow> mem' = mem) \<and>
    (mem = None \<longrightarrow> (\<forall>p. mem' = Some p \<longrightarrow> (\<exists>j n. k \<le> j \<and> j < k' \<and> Alloc j n = Some p \<and> b' \<le> n)))"
  using assms
proof (induction "if 2304 \<le> r then b else k0 - k" arbitrary: b k mem rule: less_induct)
  case less
  show ?case
  proof (cases "mem = None \<and> b > r")
    case False
    then show ?thesis using less.prems by (subst backpedal.simps) auto
  next
    case True
    define m where "m = RoundedBytes (backpedal_bytes b)"
    have m: "0 < m" "m \<le> b" "256 dvd m" "2304 < b \<Longrightarrow> m < b"
      unfolding m_def using backpedal_step [OF less.prems(2-4)] by blast+
    then have m256: "256 \<le> m" by (auto elim!: dvdE)
    have step: "backpedal Alloc r k mem b = backpedal Alloc r (k + 1) (Alloc k b) m"
      by (subst backpedal.simps) (use True in \<open>simp add: m_def\<close>)
    show ?thesis
    proof (cases "Alloc k b")
      case (Some p)
      have "backpedal Alloc r (k + 1) (Some p) m = Some (Some p, m, k + 1)"
        by (subst backpedal.simps) simp
      then show ?thesis using step Some m True by (intro exI [of _ "Some p"] exI [of _ m] exI [of _ "k + 1"], auto intro: exI [of _ k])
    next
      case None
      then have k: "2304 \<le> r \<or> k + 1 \<le> k0 \<and> (\<forall>n. Alloc k0 n \<noteq> None)"
        using less.prems(1) by (metis Suc_eq_plus1 le_neq_implies_less less_eq_Suc_le)
      have "(if 2304 \<le> r then m else k0 - (k + 1)) < (if 2304 \<le> r then b else k0 - k)"
        using m(4) True k by auto
      from less.hyps [OF this k m(3) m256, of None] obtain mem' b' k' where
        *: "backpedal Alloc r (k + 1) None m = Some (mem', b', k')" "k + 1 \<le> k'" "0 < b'" "b' \<le> m" "256 dvd b'"
          "\<forall>p. mem' = Some p \<longrightarrow> (\<exists>j n. k + 1 \<le> j \<and> j < k' \<and> Alloc j n = Some p \<and> b' \<le> n)"
        using m(2) less.prems(4) by auto
      then show ?thesis using step None m(2) True by (fastforce dest: Suc_leD)
    qed
  qed
qed

text \<open>Whenever the loop does return, it returns the same way.\<close>

lemma backpedal_result:
  assumes "backpedal Alloc r k mem b = Some (mem', b', k')" "256 dvd b" "256 \<le> b" "b \<le> 2 ^ 40"
  shows "k \<le> k' \<and> 0 < b' \<and> b' \<le> b \<and> 256 dvd b' \<and> (mem \<noteq> None \<longrightarrow> mem' = mem) \<and>
    (mem = None \<longrightarrow> (\<forall>p. mem' = Some p \<longrightarrow> (\<exists>j n. k \<le> j \<and> j < k' \<and> Alloc j n = Some p \<and> b' \<le> n)))"
proof -
  define P where "P A k mem b y \<longleftrightarrow> (\<forall>mem' b' k'. y = (mem', b', k') \<longrightarrow> 256 dvd b \<longrightarrow> 256 \<le> b \<longrightarrow> b \<le> 2 ^ 40 \<longrightarrow>
    k \<le> k' \<and> 0 < b' \<and> b' \<le> b \<and> 256 dvd b' \<and> (mem \<noteq> None \<longrightarrow> mem' = mem) \<and>
    (mem = None \<longrightarrow> (\<forall>p. mem' = Some p \<longrightarrow> (\<exists>j n. k \<le> j \<and> j < k' \<and> A j n = Some p \<and> b' \<le> n))))"
    for A :: "nat \<Rightarrow> nat \<Rightarrow> nat option" and k :: nat and mem :: "nat option" and b :: nat and y :: "nat option \<times> nat \<times> nat"
  have "P Alloc k mem b (mem', b', k')"
  proof (rule backpedal.raw_induct [OF _ assms(1), where P = "\<lambda>A r k mem b y. P A k mem b y"])
    fix f and A :: "nat \<Rightarrow> nat \<Rightarrow> nat option" and r k :: nat and mem :: "nat option" and b :: nat and y
    assume IH: "\<And>A r k mem b y. f A r k mem b = Some y \<Longrightarrow> P A k mem b y"
      and eq: "(if mem = None \<and> r < b then f A r (k + 1) (A k b) (RoundedBytes (backpedal_bytes b)) else Some (mem, b, k)) = Some y"
    show "P A k mem b y"
    proof (cases "mem = None \<and> r < b")
      case False
      then have y: "y = (mem, b, k)" using eq by auto
      show ?thesis unfolding P_def y by auto
    next
      case True
      obtain mem' b' k' where y: "y = (mem', b', k')" by (cases y) auto
      define m where "m = RoundedBytes (backpedal_bytes b)"
      have p: "P A (k + 1) (A k b) m y" using IH True eq by (simp add: m_def)
      have "k \<le> k' \<and> 0 < b' \<and> b' \<le> b \<and> 256 dvd b' \<and> (\<forall>p. mem' = Some p \<longrightarrow> (\<exists>j n. k \<le> j \<and> j < k' \<and> A j n = Some p \<and> b' \<le> n))"
        if b: "256 dvd b" "256 \<le> b" "b \<le> 2 ^ 40"
      proof -
        have m: "0 < m" "m \<le> b" "256 dvd m" unfolding m_def using backpedal_step [OF b] by blast+
        then have "256 \<le> m" by (auto elim!: dvdE)
        then have q: "k + 1 \<le> k' \<and> 0 < b' \<and> b' \<le> m \<and> 256 dvd b' \<and> (A k b \<noteq> None \<longrightarrow> mem' = A k b) \<and>
            (A k b = None \<longrightarrow> (\<forall>p. mem' = Some p \<longrightarrow> (\<exists>j n. k + 1 \<le> j \<and> j < k' \<and> A j n = Some p \<and> b' \<le> n)))"
          using p m b(3) unfolding P_def y by auto
        have "\<exists>j n. k \<le> j \<and> j < k' \<and> A j n = Some p \<and> b' \<le> n" if p: "mem' = Some p" for p
        proof (cases "A k b")
          case None
          then obtain j n where "k + 1 \<le> j" "j < k'" "A j n = Some p" "b' \<le> n" using q p by blast
          then show ?thesis by (intro exI [of _ j] exI [of _ n]) simp
        next
          case (Some z)
          then show ?thesis using q p m(2) by (intro exI [of _ k] exI [of _ b]) simp
        qed
        then show ?thesis using q m(2) by simp
      qed
      then show ?thesis unfolding P_def y using True by auto
    qed
  qed
  then show ?thesis unfolding P_def using assms(2-4) by blast
qed

lemma backpedal_hangs:
  assumes "\<And>j n. k \<le> j \<Longrightarrow> Alloc j n = None" "r < 2304" "2304 \<le> b" "b \<le> 2 ^ 40" "256 dvd b"
  shows "backpedal Alloc r k None b = None"
proof -
  have "(\<forall>j n. k \<le> j \<longrightarrow> A j n = None) \<longrightarrow> r < 2304 \<longrightarrow> 2304 \<le> b \<longrightarrow> b \<le> 2 ^ 40 \<longrightarrow> 256 dvd b \<longrightarrow> mem = None \<longrightarrow> False"
    if "backpedal A r k mem b = Some y" for A r k mem b y
  proof (rule backpedal.raw_induct [OF _ that,
      where P = "\<lambda>A r k mem b y. (\<forall>j n. k \<le> j \<longrightarrow> A j n = None) \<longrightarrow> r < 2304 \<longrightarrow> 2304 \<le> b \<longrightarrow> b \<le> 2 ^ 40 \<longrightarrow> 256 dvd b \<longrightarrow> mem = None \<longrightarrow> False"])
    fix f and A :: "nat \<Rightarrow> nat \<Rightarrow> nat option" and r k :: nat and mem :: "nat option" and b :: nat and y
    assume IH: "\<And>A r k mem b y. f A r k mem b = Some y \<Longrightarrow>
        (\<forall>j n. k \<le> j \<longrightarrow> A j n = None) \<longrightarrow> r < 2304 \<longrightarrow> 2304 \<le> b \<longrightarrow> b \<le> 2 ^ 40 \<longrightarrow> 256 dvd b \<longrightarrow> mem = None \<longrightarrow> False"
      and eq: "(if mem = None \<and> r < b then f A r (k + 1) (A k b) (RoundedBytes (backpedal_bytes b)) else Some (mem, b, k)) = Some y"
    show "(\<forall>j n. k \<le> j \<longrightarrow> A j n = None) \<longrightarrow> r < 2304 \<longrightarrow> 2304 \<le> b \<longrightarrow> b \<le> 2 ^ 40 \<longrightarrow> 256 dvd b \<longrightarrow> mem = None \<longrightarrow> False"
    proof (intro impI)
      assume a: "\<forall>j n. k \<le> j \<longrightarrow> A j n = None" "r < 2304" "2304 \<le> b" "b \<le> 2 ^ 40" "256 dvd b" "mem = None"
      have "f A r (k + 1) (A k b) (RoundedBytes (backpedal_bytes b)) = Some y" using eq a by simp
      moreover have "A k b = None" using a(1) by blast
      ultimately have "f A r (k + 1) None (RoundedBytes (backpedal_bytes b)) = Some y" by simp
      from IH [OF this] show False
        using a backpedal_stuck [OF a(3,4)] backpedal_step(2,3) [OF a(5) _ a(4)] by simp
    qed
  qed
  then show ?thesis using assms by (metis not_None_eq)
qed

section \<open>The sub-allocator\<close>

text \<open>
  What the allocator relies on: calls of the sub-allocator return non-null regions, and those of
  different calls never overlap (nothing is freed before the allocator is destroyed).
\<close>

definition sub_ok :: "(nat \<Rightarrow> nat \<Rightarrow> nat option) \<Rightarrow> bool" where
  "sub_ok Alloc \<longleftrightarrow> (\<forall>k n p. Alloc k n = Some p \<longrightarrow> 0 < p) \<and>
     (\<forall>j k m n p q. j < k \<longrightarrow> Alloc j m = Some p \<longrightarrow> Alloc k n = Some q \<longrightarrow> p + m \<le> q \<or> q + n \<le> p)"

text \<open>Every region came from an earlier call, possibly for more bytes.\<close>

definition origin :: "(nat \<Rightarrow> nat \<Rightarrow> nat option) \<Rightarrow> bfc \<Rightarrow> bool" where
  "origin Alloc st \<longleftrightarrow> (\<forall>(q, m) \<in> set (geom (regions st)). \<exists>j < sub_calls st. \<exists>n \<ge> m. Alloc j n = Some q)"

text \<open>While memory is left, the next region size is positive and far from wrapping.\<close>

definition curr_ok :: "bfc \<Rightarrow> bool" where
  "curr_ok st \<longleftrightarrow> (256 \<le> memory_limit st - total_region st \<longrightarrow>
     0 < curr_region st \<and> 256 dvd curr_region st \<and> curr_region st \<le> (if started_backpedal st then 2 ^ 42 else 2 ^ 41))"

definition alloc_inv :: "(nat \<Rightarrow> nat \<Rightarrow> nat option) \<Rightarrow> bfc \<Rightarrow> bool" where
  "alloc_inv Alloc st \<longleftrightarrow> bfc_inv st \<and> origin Alloc st \<and> curr_ok st"

text \<open>When an extension is sure to return.\<close>

definition extend_returns :: "(nat \<Rightarrow> nat \<Rightarrow> nat option) \<Rightarrow> nat \<Rightarrow> bfc \<Rightarrow> bool" where
  "extend_returns Alloc r st \<longleftrightarrow> started_backpedal st \<or> 2304 \<le> r \<or> (\<exists>k \<ge> sub_calls st. \<forall>n. Alloc k n \<noteq> None)"

definition idle :: "bfc \<Rightarrow> bfc \<Rightarrow> bool" where
  "idle st st' \<longleftrightarrow> next_id st' = next_id st \<and> num_allocs st' = num_allocs st \<and> bytes_in_use st' = bytes_in_use st \<and>
     max_bytes_in_use st' = max_bytes_in_use st \<and> max_alloc_size st' = max_alloc_size st \<and> memory_limit st' = memory_limit st"

definition available :: "bfc \<Rightarrow> nat" where
  "available st = (memory_limit st - total_region st) div 256 * 256"

lemma inv_at_cong:
  "inv_at fs X Y st \<Longrightarrow> chunks st' = chunks st \<Longrightarrow> regions st' = regions st \<Longrightarrow> free_list st' = free_list st \<Longrightarrow>
   bins st' = bins st \<Longrightarrow> next_id st' = next_id st \<Longrightarrow> bytes_in_use st' = bytes_in_use st \<Longrightarrow>
   total_region st' = total_region st \<Longrightarrow> memory_limit st' = memory_limit st \<Longrightarrow> inv_at fs X Y st'"
  unfolding inv_at_def Let_def free_ok_def live_def by simp

lemma blocks_cong: "chunks st' = chunks st \<Longrightarrow> regions st' = regions st \<Longrightarrow> blocks st' = blocks st"
  by (auto simp: blocks_def fun_eq_iff split: option.split)

lemma origin_mono:
  assumes "origin Alloc st" "regions st' = regions st" "sub_calls st \<le> sub_calls st'"
  shows "origin Alloc st'"
  unfolding origin_def assms(2)
proof clarify
  fix q m assume "(q, m) \<in> set (geom (regions st))"
  then obtain j n where "j < sub_calls st" "m \<le> n" "Alloc j n = Some q" using assms(1) unfolding origin_def by blast
  then show "\<exists>j < sub_calls st'. \<exists>n \<ge> m. Alloc j n = Some q" using assms(3) order.strict_trans2 by blast
qed

lemma Extend_inv:
  assumes inv: "inv_at fs {} {} st" and org: "origin Alloc st" and cur: "curr_ok st" and sub: "sub_ok Alloc"
    and r: "0 < r" "256 dvd r" and ret: "extend_returns Alloc r st \<or> Extend Alloc r st \<noteq> None"
  shows "\<exists>ok st' fs'. Extend Alloc r st = Some (ok, st') \<and> inv_at fs' {} {} st' \<and> origin Alloc st' \<and> curr_ok st' \<and>
    blocks st' = blocks st \<and> idle st st' \<and> (\<not> ok \<longrightarrow> regions st' = regions st) \<and>
    (r \<le> available st \<longrightarrow> (\<forall>n. Alloc (sub_calls st) n \<noteq> None) \<longrightarrow> ok \<and> (\<exists>h. fits st' fs' r h))"
proof (cases "r > available st")
  case True
  then have "Extend Alloc r st = Some (False, st)" by (simp add: Extend_def available_def)
  then show ?thesis using inv org cur True by (intro exI [of _ False] exI [of _ st] exI [of _ fs]) (simp add: idle_def)
next
  case False
  note I = invD [OF inv]
  define A where "A = available st"
  have rA: "r \<le> A" using False by (simp add: A_def)
  have A: "256 dvd A" "A \<le> memory_limit st - total_region st" "0 < A" by (use rA r in \<open>simp_all add: A_def available_def\<close>)
  have r256: "256 \<le> r" using r by (auto elim!: dvdE)
  have A39: "A \<le> 2 ^ 39" "r \<le> 2 ^ 39" using A I(12) rA by linarith+
  have c0: "0 < curr_region st" "256 dvd curr_region st" "curr_region st \<le> (if started_backpedal st then 2 ^ 42 else 2 ^ 41)"
    using cur A rA r256 by (simp_all add: curr_ok_def)
  obtain c inc where g: "grow_region r (curr_region st) False = Some (c, inc)" "r \<le> c" "256 dvd c"
    "c = curr_region st \<and> \<not> inc \<or> inc \<and> c < 2 * r"
    using grow_region_returns [OF c0(1,2) A39(2), of False] by auto
  have cb: "c \<le> (if started_backpedal st then 2 ^ 42 else 2 ^ 41)" using g(4) c0(3) A39(2) by auto
  define b where "b = min c A"
  have b: "r \<le> b" "256 dvd b" "b \<le> A" "256 \<le> b" "b \<le> 2 ^ 40" using g rA A r256 A39 by (auto simp: b_def min_def)
  define k where "k = sub_calls st"
  define s where "s = st\<lparr>curr_region := c, sub_calls := k + 1\<rparr>"
  text \<open>the outcome of the first call and the backpedal\<close>
  obtain mem b' k' bp where m: "(if Alloc k b = None \<and> \<not> started_backpedal st
      then map_option (\<lambda>(m, b, k'). (m, b, s\<lparr>started_backpedal := True, sub_calls := k'\<rparr>))
        (backpedal Alloc r (k + 1) None (RoundedBytes (backpedal_bytes b)))
      else Some (Alloc k b, b, s)) = Some (mem, b', s\<lparr>started_backpedal := bp, sub_calls := k'\<rparr>)"
    "k + 1 \<le> k'" "0 < b'" "b' \<le> b" "256 dvd b'" "\<And>p. mem = Some p \<Longrightarrow> \<exists>j n. k \<le> j \<and> j < k' \<and> Alloc j n = Some p \<and> b' \<le> n"
    "Alloc k b \<noteq> None \<Longrightarrow> mem \<noteq> None \<and> b' = b"
    "bp = started_backpedal st \<and> b' = b \<or> \<not> started_backpedal st \<and> bp"
  proof (cases "Alloc k b = None \<and> \<not> started_backpedal st")
    case False
    then show thesis
      by (intro that [of "Alloc k b" b "k + 1" "started_backpedal st"]) (use b r256 in \<open>auto simp: s_def\<close>)
  next
    case True
    define n where "n = RoundedBytes (backpedal_bytes b)"
    have n: "0 < n" "n \<le> b" "256 dvd n" unfolding n_def using backpedal_step [OF b(2,4,5)] by blast+
    have n256: "256 \<le> n" "n \<le> 2 ^ 40" using n b by (auto elim!: dvdE)
    obtain mem' b' k' where bp: "backpedal Alloc r (k + 1) None n = Some (mem', b', k')"
    proof (cases "extend_returns Alloc r st")
      case True
      then have "2304 \<le> r \<or> (\<exists>k0. k + 1 \<le> k0 \<and> (\<forall>n. Alloc k0 n \<noteq> None))"
        using \<open>Alloc k b = None \<and> \<not> started_backpedal st\<close> unfolding extend_returns_def k_def
        by (metis Suc_eq_plus1 le_neq_implies_less less_eq_Suc_le)
      then obtain k0 where k0: "2304 \<le> r \<or> k + 1 \<le> k0 \<and> (\<forall>n. Alloc k0 n \<noteq> None)" by blast
      show thesis using backpedal_returns [where Alloc = Alloc and ?k0.0 = k0 and mem = None, OF k0 n(3) n256] that by blast
    next
      case False
      have "backpedal Alloc r (k + 1) None n \<noteq> None"
      proof
        assume stuck: "backpedal Alloc r (k + 1) None n = None"
        have "\<not> r > (memory_limit st - total_region st) div 256 * 256" using \<open>\<not> r > available st\<close> by (simp add: available_def)
        then have "Extend Alloc r st = None" using g(1) \<open>Alloc k b = None \<and> \<not> started_backpedal st\<close> stuck
          by (simp add: Extend_def available_def [symmetric] A_def [symmetric] b_def [symmetric] k_def [symmetric]
            n_def [symmetric] Let_def)
        then show False using ret False by blast
      qed
      then show thesis using that by (metis not_None_eq prod_cases3)
    qed
    have q: "backpedal Alloc r (k + 1) None n = Some (mem', b', k')" "k + 1 \<le> k'" "0 < b'" "b' \<le> n" "256 dvd b'"
      "\<And>p. mem' = Some p \<Longrightarrow> \<exists>j n. k + 1 \<le> j \<and> j < k' \<and> Alloc j n = Some p \<and> b' \<le> n"
      using backpedal_result [OF bp n(3) n256] bp by auto
    show thesis
      by (rule that [of mem' b' k' True]) (use q n True in \<open>auto simp: n_def [symmetric] dest: Suc_leD\<close>)
  qed
  define t where "t = s\<lparr>started_backpedal := bp, sub_calls := k'\<rparr>"
  have ext: "Extend Alloc r st = (case mem of None \<Rightarrow> Some (False, t)
      | Some p \<Rightarrow> do {
          let st = (if \<not> inc then t\<lparr>curr_region := c * 2 mod 2 ^ 64\<rparr> else t);
          st \<leftarrow> add_region p b' st;
          Some (True, st\<lparr>visited := visited st @ map (\<lambda>v. (v, p, b')) (visitors st)\<rparr>) })"
  proof -
    have "\<not> r > (memory_limit st - total_region st) div 256 * 256" using False by (simp add: available_def)
    then show ?thesis using g(1) m(1)
      by (cases "Alloc k b = None \<and> \<not> started_backpedal st")
         (auto simp: Extend_def A_def [symmetric] available_def [symmetric] b_def [symmetric] k_def [symmetric] s_def t_def
           Let_def split: option.splits prod.splits)
  qed
  have tm: "regions t = regions st" "sub_calls t = k'" "started_backpedal t = bp" "curr_region t = c"
    "memory_limit t = memory_limit st" "total_region t = total_region st" by (simp_all add: t_def s_def)
  have inv_t: "inv_at fs {} {} t" by (rule inv_at_cong [OF inv]) (simp_all add: t_def s_def)
  have bl_t: "blocks t = blocks st" by (rule blocks_cong) (simp_all add: t_def s_def)
  have idle_t: "idle st t" by (simp add: idle_def t_def s_def)
  have org_t: "origin Alloc t"
    by (rule origin_mono [OF org tm(1)]) (use m(2) in \<open>simp add: tm k_def\<close>)
  show ?thesis
  proof (cases mem)
    case None
    then have "Extend Alloc r st = Some (False, t)" by (simp add: ext)
    moreover have "Alloc (sub_calls st) b = None" using None m(7) unfolding k_def by blast
    moreover have "curr_ok t"
    proof -
      have "0 < c" using g(2) r by linarith
      moreover have "c \<le> (if bp then 2 ^ 42 else 2 ^ 41)" using cb m(8) by (auto split: if_splits)
      ultimately show ?thesis using g(3) unfolding curr_ok_def tm by blast
    qed
    ultimately show ?thesis using inv_t org_t bl_t idle_t tm(1) by (intro exI [of _ False] exI [of _ t] exI [of _ fs]) auto
  next
    case (Some p)
    obtain j n where j: "k \<le> j" "j < k'" "Alloc j n = Some p" "b' \<le> n" using m(6) [OF Some] by blast
    define u where "u = (if \<not> inc then t\<lparr>curr_region := c * 2 mod 2 ^ 64\<rparr> else t)"
    have um: "regions u = regions st" "sub_calls u = k'" "started_backpedal u = bp"
      "curr_region u = (if inc then c else c * 2 mod 2 ^ 64)"
      "memory_limit u = memory_limit st" "total_region u = total_region st" by (simp_all add: u_def tm)
    have inv_u: "inv_at fs {} {} u" by (rule inv_at_cong [OF inv_t]) (simp_all add: u_def)
    have bl_u: "blocks u = blocks st" using bl_t blocks_cong [of u t] by (simp add: u_def)
    have idle_u: "idle st u" using idle_t by (simp add: idle_def u_def)
    have p: "0 < p" using sub j(3) by (auto simp: sub_ok_def)
    have disj: "\<forall>(q, m) \<in> set (geom (regions u)). p + b' \<le> q \<or> q + m \<le> p"
    proof (intro ballI, clarify)
      fix q m assume qm: "(q, m) \<in> set (geom (regions u))" and nle: "\<not> q + m \<le> p"
      then obtain i l where i: "i < sub_calls st" "m \<le> l" "Alloc i l = Some q"
        using org unfolding um(1) origin_def by blast
      then have "q + l \<le> p \<or> p + n \<le> q" using sub j(1,3) unfolding sub_ok_def k_def by (meson order.strict_trans2)
      then show "p + b' \<le> q" using i(2) j(4) nle by linarith
    qed
    have lim: "total_region u + b' \<le> memory_limit u" using m(4) b(3) A(2,3) um by linarith
    obtain v fs' h where v: "add_region p b' u = Some v" "inv_at fs' {} {} v" "blocks v = blocks u" "region_added p b' u v"
      "fits v fs' b' h"
      using add_region_inv [OF inv_u p m(3,5) lim disj] by blast
    define w where "w = v\<lparr>visited := visited v @ map (\<lambda>x. (x, p, b')) (visitors v)\<rparr>"
    have eq: "Extend Alloc r st = Some (True, w)" using v(1) by (simp add: ext Some u_def [symmetric] w_def Let_def)
    have wm: "set (geom (regions w)) = insert (p, b') (set (geom (regions st)))" "sub_calls w = k'" "started_backpedal w = bp"
      "curr_region w = curr_region u" "memory_limit w = memory_limit st" "total_region w = total_region st + b'"
      using v(4) um by (simp_all add: w_def region_added_def)
    have "origin Alloc w"
      unfolding origin_def wm(1,2)
    proof (intro ballI, clarify)
      fix q m assume "(q, m) \<in> insert (p, b') (set (geom (regions st)))"
      then show "\<exists>j < k'. \<exists>n \<ge> m. Alloc j n = Some q"
      proof
        assume "(q, m) = (p, b')"
        then show ?thesis using j by auto
      next
        assume "(q, m) \<in> set (geom (regions st))"
        then show ?thesis using org_t unfolding origin_def tm by blast
      qed
    qed
    moreover have "curr_ok w"
      unfolding curr_ok_def wm
    proof
      assume left: "256 \<le> memory_limit st - (total_region st + b')"
      have cA: "c < A \<or> bp \<and> \<not> started_backpedal st"
      proof (rule ccontr)
        assume "\<not> (c < A \<or> bp \<and> \<not> started_backpedal st)"
        then have "b' = A" using m(8) by (auto simp: b_def)
        then show False using left by (simp add: A_def available_def)
      qed
      have c42: "c \<le> 2 ^ 42" "\<not> started_backpedal st \<Longrightarrow> c \<le> 2 ^ 41" using cb by (auto split: if_splits)
      have w: "c * 2 mod 2 ^ 64 = c * 2" using c42(1) by simp
      have c0': "0 < c" using g(2) r by linarith
      show "0 < curr_region u \<and> 256 dvd curr_region u \<and> curr_region u \<le> (if bp then 2 ^ 42 else 2 ^ 41)"
        unfolding um(4) w using c0' g(3) cA c42 A39 m(8) by auto
    qed
    moreover have "inv_at fs' {} {} w" by (rule inv_at_cong [OF v(2)]) (simp_all add: w_def)
    moreover have "blocks w = blocks st" using v(3) bl_u blocks_cong [of w v] by (simp add: w_def)
    moreover have "idle st w" using idle_u v(4) by (simp add: idle_def w_def region_added_def)
    moreover have "\<exists>h. fits w fs' r h" if "Alloc (sub_calls st) b \<noteq> None"
    proof -
      have "b' = b" using m(7) that by (simp add: k_def)
      then have "fits v fs' r h" using v(5) b(1) by (auto simp: fits_def)
      then show ?thesis by (auto simp: fits_def w_def live_def)
    qed
    ultimately show ?thesis using eq by (intro exI [of _ True] exI [of _ w] exI [of _ fs']) simp
  qed
qed

end
