(* ===== verification/TF_Allocator.thy ===== *)
theory TF_Allocator
  imports TF_BFC_Ops
begin

text \<open>
  The contract of the allocator. For a client the state of the best-fit allocator is the map
  of the blocks in use; requests add one block and deallocations remove one, whatever splitting,
  coalescing and growth happen underneath. The contract is stated as the locale
  \<open>raw_allocator\<close>, interpreted on the model of \<^verbatim>\<open>bfc_allocator.cc\<close>, and used by the
  retrying wrapper of \<^verbatim>\<open>common_runtime/allocator_retry.cc\<close>.
\<close>

section \<open>Requests and deallocations on the map of blocks\<close>

definition free_blocks :: "bfc \<Rightarrow> (nat \<times> nat) set" where
  "free_blocks st = {(cptr (chunks st ! h), csize (chunks st ! h)) | h.
     hmap (regions st) (cptr (chunks st ! h)) = Some h \<and> \<not> in_use (chunks st ! h)}"

lemma free_blocks_eq:
  assumes "inv_at fs X Y st"
  shows "free_blocks st = {(cptr (chunks st ! h), csize (chunks st ! h)) | h. h \<in> live st fs \<and> \<not> in_use (chunks st ! h)}"
proof -
  have "hmap (regions st) (cptr (chunks st ! h)) = Some h \<longleftrightarrow> h \<in> live st fs" for h
    using invD(4) [OF assms] by (auto simp: table_ok_def)
  then show ?thesis by (simp add: free_blocks_def)
qed

lemma alloc_invD: "alloc_inv Alloc st \<Longrightarrow> \<exists>fs. inv_at fs {} {} st"
  by (simp add: alloc_inv_def bfc_inv_def)

lemma alloc_invI: "inv_at fs {} {} st \<Longrightarrow> origin Alloc st \<Longrightarrow> curr_ok st \<Longrightarrow> alloc_inv Alloc st"
  by (auto simp: alloc_inv_def bfc_inv_def)

lemma served_keeps:
  assumes "alloc_inv Alloc st" "inv_at fs' {} {} st'" "served sz st st'"
  shows "alloc_inv Alloc st'"
  using assms by (intro alloc_invI [OF assms(2)]) (auto simp: alloc_inv_def origin_def curr_ok_def served_def)

text \<open>A request of \<open>n\<close> bytes that found or obtained memory.\<close>

definition granted :: "nat \<Rightarrow> bfc \<Rightarrow> nat \<Rightarrow> bfc \<Rightarrow> bool" where
  "granted n st p st' \<longleftrightarrow> blocks st p = None \<and>
     (\<exists>sz. n \<le> sz \<and> sz < 2 * RoundedBytes n \<and> 256 dvd sz \<and> blocks st' = (blocks st)(p \<mapsto> (sz, n, next_id st)) \<and>
        next_id st' = next_id st + 1 \<and> bytes_in_use st' = bytes_in_use st + int sz \<and>
        num_allocs st' = num_allocs st + 1 \<and> max_bytes_in_use st' = max (max_bytes_in_use st) (bytes_in_use st'))"

lemma find_granted:
  assumes "alloc_inv Alloc st" "0 < n" "n \<le> 2 ^ 63 - 256" "inv_at fs {} {} st"
  defines "r \<equiv> RoundedBytes n"
  shows "if \<forall>h. \<not> fits st fs r h then FindChunkPtr (BinNumForSize r) r n st = Some (None, st)
    else \<exists>h st'. best st fs r h \<and> FindChunkPtr (BinNumForSize r) r n st = Some (Some (cptr (chunks st ! h)), st') \<and>
      alloc_inv Alloc st' \<and> granted n st (cptr (chunks st ! h)) st'"
proof -
  have n64: "n \<le> 2 ^ 64 - 256" using assms(3) by simp
  have r: "0 < r" "256 dvd r" "n \<le> r" "r < 2 ^ 63"
    using RoundedBytes_eq [OF n64] assms(2,3) by (simp_all add: r_def)
  show ?thesis
  proof (cases "\<forall>h. \<not> fits st fs r h")
    case True
    then show ?thesis using FindChunkPtr_inv [OF assms(4) r(1,2,4,3)] by simp
  next
    case False
    then obtain h st' fs' sz where h: "best st fs r h" "FindChunkPtr (BinNumForSize r) r n st = Some (Some (cptr (chunks st ! h)), st')"
      "inv_at fs' {} {} st'" "blocks st (cptr (chunks st ! h)) = None" "r \<le> sz" "sz < 2 * r"
      "blocks st' = (blocks st)(cptr (chunks st ! h) \<mapsto> (sz, n, next_id st))" "served sz st st'"
      using FindChunkPtr_inv [OF assms(4) r(1,2,4,3)] unfolding if_not_P [OF False] by blast
    have "blocks st' (cptr (chunks st ! h)) = Some (sz, n, next_id st)" using h(7) by simp
    then have "256 dvd sz"
      unfolding blocks_iff [OF invD(4) [OF h(3)]] using linksD(2) [OF invD(3) [OF h(3)]] by auto
    then have "granted n st (cptr (chunks st ! h)) st'"
      using h(4-8) r(3) by (auto simp: granted_def served_def r_def)
    then show ?thesis unfolding if_not_P [OF False] using h(1,2) served_keeps [OF assms(1) h(3,8)] by blast
  qed
qed

lemma AllocateRawInternal_inv:
  assumes inv: "alloc_inv Alloc st" and sub: "sub_ok Alloc" and n: "0 < n" "n \<le> 2 ^ 63 - 256"
    and ret: "extend_returns Alloc (RoundedBytes n) st \<or> AllocateRawInternal Alloc n st \<noteq> None"
  shows "\<exists>res st'. AllocateRawInternal Alloc n st = Some (res, st') \<and> alloc_inv Alloc st' \<and>
    (case res of None \<Rightarrow> blocks st' = blocks st \<and> idle st st' | Some p \<Rightarrow> granted n st p st') \<and>
    ((\<forall>k. Alloc (sub_calls st) k \<noteq> None) \<longrightarrow> RoundedBytes n \<le> available st \<longrightarrow> res \<noteq> None) \<and>
    (\<forall>fs. inv_at fs {} {} st \<longrightarrow> (\<exists>h. fits st fs (RoundedBytes n) h) \<longrightarrow>
       (\<exists>h. best st fs (RoundedBytes n) h \<and> res = Some (cptr (chunks st ! h))))"
proof -
  obtain fs where fs: "inv_at fs {} {} st" using alloc_invD [OF inv] by blast
  define r where "r = RoundedBytes n"
  have r: "0 < r" "256 dvd r" using RoundedBytes_eq [of n] n by (simp_all add: r_def)
  have fits_any: "fits st gs r h \<longleftrightarrow> fits st fs r h" if "inv_at gs {} {} st" for gs h
  proof -
    have "h \<in> live st gs \<longleftrightarrow> h \<in> live st fs"
      using invD(4) [OF fs] invD(4) [OF that] by (auto simp: table_ok_def)
    then show ?thesis by (simp add: fits_def)
  qed
  then have best_any: "best st gs r h \<longleftrightarrow> best st fs r h" if "inv_at gs {} {} st" for gs h
    using that by (simp add: best_def)
  note F = find_granted [OF inv n fs, folded r_def]
  define G where "G \<longleftrightarrow> (\<forall>k. Alloc (sub_calls st) k \<noteq> None)"
  have "\<exists>res st'. AllocateRawInternal Alloc n st = Some (res, st') \<and> alloc_inv Alloc st' \<and>
    (case res of None \<Rightarrow> blocks st' = blocks st \<and> idle st st' | Some p \<Rightarrow> granted n st p st') \<and>
    (G \<longrightarrow> r \<le> available st \<longrightarrow> res \<noteq> None) \<and>
    (\<forall>fs. inv_at fs {} {} st \<longrightarrow> (\<exists>h. fits st fs r h) \<longrightarrow> (\<exists>h. best st fs r h \<and> res = Some (cptr (chunks st ! h))))"
    (is ?goal)
  proof (cases "\<forall>h. \<not> fits st fs r h")
    case False
    then obtain h st' where h: "best st fs r h" "FindChunkPtr (BinNumForSize r) r n st = Some (Some (cptr (chunks st ! h)), st')"
      "alloc_inv Alloc st'" "granted n st (cptr (chunks st ! h)) st'"
      using F unfolding if_not_P [OF False] by blast
    have "AllocateRawInternal Alloc n st = Some (Some (cptr (chunks st ! h)), st')"
      using n h(2) by (simp add: AllocateRawInternal_def r_def [symmetric] Let_def)
    then show ?goal using h best_any by auto
  next
    case True
    then have f: "FindChunkPtr (BinNumForSize r) r n st = Some (None, st)" using F by simp
    have oc: "origin Alloc st" "curr_ok st" using inv by (simp_all add: alloc_inv_def)
    have ret: "extend_returns Alloc r st \<or> Extend Alloc r st \<noteq> None"
      using ret n f by (cases "Extend Alloc r st") (auto simp: AllocateRawInternal_def r_def [symmetric] Let_def)
    obtain ok s gs where e: "Extend Alloc r st = Some (ok, s)" "inv_at gs {} {} s" "origin Alloc s" "curr_ok s"
      "blocks s = blocks st" "idle st s"
      "r \<le> available st \<longrightarrow> G \<longrightarrow> ok \<and> (\<exists>h. fits s gs r h)"
      using Extend_inv [OF fs oc sub r ret] unfolding G_def by blast
    have s: "alloc_inv Alloc s" by (rule alloc_invI [OF e(2-4)])
    have nofit: "\<not> (\<exists>h. fits st gs' r h)" if "inv_at gs' {} {} st" for gs' using True fits_any [OF that] by simp
    note G = find_granted [OF s n e(2), folded r_def]
    consider "\<not> ok" | "ok" "\<forall>h. \<not> fits s gs r h" | "ok" "\<not> (\<forall>h. \<not> fits s gs r h)" by blast
    then show ?goal
    proof cases
      case 1
      then have "AllocateRawInternal Alloc n st = Some (None, s)"
        using n f e(1) by (simp add: AllocateRawInternal_def r_def [symmetric] Let_def)
      then show ?goal using s e 1 nofit by auto
    next
      case 2
      then have "AllocateRawInternal Alloc n st = Some (None, s)"
        using n f e(1) G by (simp add: AllocateRawInternal_def r_def [symmetric] Let_def)
      then show ?goal using s e 2 nofit by auto
    next
      case 3
      then obtain h st' where h: "FindChunkPtr (BinNumForSize r) r n s = Some (Some (cptr (chunks s ! h)), st')"
        "alloc_inv Alloc st'" "granted n s (cptr (chunks s ! h)) st'"
        using G unfolding if_not_P [OF 3(2)] by blast
      then have "AllocateRawInternal Alloc n st = Some (Some (cptr (chunks s ! h)), st')"
        using n f e(1) 3(1) by (simp add: AllocateRawInternal_def r_def [symmetric] Let_def)
      moreover have "granted n st (cptr (chunks s ! h)) st'"
        using h(3) e(5,6) by (simp add: granted_def idle_def)
      ultimately show ?goal using h(2) nofit by auto
    qed
  qed
  then show ?thesis unfolding r_def G_def .
qed

lemma DeallocateRawInternal_inv:
  assumes inv: "alloc_inv Alloc st" and p: "blocks st p = Some (sz, n, i)"
  shows "\<exists>st'. DeallocateRawInternal (Some p) st = Some st' \<and> alloc_inv Alloc st' \<and> blocks st' = (blocks st)(p := None) \<and>
    bytes_in_use st' = bytes_in_use st - int sz \<and> next_id st' = next_id st \<and>
    geom (regions st') = geom (regions st) \<and> slot (geom (regions st)) p"
proof -
  obtain fs where fs: "inv_at fs {} {} st" using alloc_invD [OF inv] by blast
  note I = invD [OF fs]
  obtain h where h: "h \<in> live st fs" "in_use (chunks st ! h)" "cptr (chunks st ! h) = p" "sz = csize (chunks st ! h)"
    using p unfolding blocks_iff [OF I(4)] by auto
  have m: "hmap (regions st) p = Some h" using I(4) h by (auto simp: table_ok_def)
  then have slot: "slot (geom (regions st)) p" by (auto simp: hmap_def split: if_splits)
  have g: "get_handle (regions st) p = Some (Some h)" using get_handle_hmap [OF I(1) slot] m by simp
  obtain st' fs' where st': "FreeAndMaybeCoalesce h st = Some st'" "inv_at fs' {} {} st'" "blocks st' = (blocks st)(p := None)"
    "same_rest (st\<lparr>bytes_in_use := bytes_in_use st - int sz\<rparr>) st'"
    using FreeAndMaybeCoalesce_inv [OF fs h(1,2)] h(3,4) by auto
  have "alloc_inv Alloc st'"
    using inv st'(4) by (intro alloc_invI [OF st'(2)]) (auto simp: alloc_inv_def origin_def curr_ok_def same_rest_def)
  then show ?thesis using g st' slot by (auto simp: DeallocateRawInternal_def same_rest_def)
qed

section \<open>Construction\<close>

lemma bin_check_gnu: "b < 21 \<Longrightarrow> bin_check Log2FloorNonZero b"
proof -
  assume b: "b < 21"
  have p: "(2::nat) ^ b \<le> 2 ^ 20" using b by (intro power_increasing) simp_all
  have s: "BinNumForSize_by Log2FloorNonZero n = k"
    if "2 ^ k * 256 \<le> n" "n < 2 ^ Suc k * 256" "k < 21" for n k
  proof -
    have "256 \<le> n" by (rule order_trans [OF _ that(1)]) simp
    then have m: "max n 256 = n" by simp
    have "n div 256 < 2 ^ Suc k" "2 ^ k \<le> n div 256"
      using that(1,2) by (simp_all add: less_mult_imp_div_less less_eq_div_iff_mult_less_eq)
    moreover have "(2::nat) ^ Suc k \<le> 2 ^ 64" using that(3) by (intro power_increasing) simp_all
    ultimately have "Log2FloorNonZero (n div 256) = k" by (intro Log2FloorNonZero_eqI) linarith+
    then show ?thesis using that(3) by (simp add: BinNumForSize_by_def m kNumBins_def)
  qed
  have next_bin: "BinNumForSize_by Log2FloorNonZero (256 * 2 ^ b * 2) \<noteq> b" if "b + 1 < 21"
    using s [of "b + 1" "256 * 2 ^ b * 2"] that by simp
  have "1 \<le> (2::nat) ^ b" by simp
  then have "255 < 256 * (2::nat) ^ b" by linarith
  then show ?thesis
    unfolding bin_check_def BinNumToSize_def kNumBins_def
    using b next_bin by (auto intro!: s)
qed

lemma BFCAllocator_eq:
  "BFCAllocator mem_total grow = Some \<lparr>memory_limit = mem_total,
       curr_region = RoundedBytes (if grow then min mem_total 1048576 else mem_total),
       total_region = 0, started_backpedal = False, regions = [], chunks = [], free_list = None,
       bins = replicate kNumBins [], next_id = 1, visitors = [], visited = [],
       num_allocs = 0, bytes_in_use = 0, max_bytes_in_use = 0, max_alloc_size = 0,
       bytes_limit = int mem_total, sub_calls = 0\<rparr>"
  using bin_check_gnu by (simp add: BFCAllocator_def BFCAllocator_by_def list_all_iff kNumBins_def)

lemma BFCAllocator_inv:
  assumes "BFCAllocator mem_total grow = Some st" "mem_total \<le> 2 ^ 39"
  shows "alloc_inv Alloc st" "blocks st = Map.empty" "free_blocks st = {}"
proof -
  have st: "regions st = []" "chunks st = []" "free_list st = None" "bins st = replicate 21 []" "next_id st = 1"
    "bytes_in_use st = 0" "total_region st = 0" "memory_limit st = mem_total" "started_backpedal st = False"
    "curr_region st = RoundedBytes (if grow then min mem_total 1048576 else mem_total)"
    using assms(1) by (auto simp: BFCAllocator_eq kNumBins_def)
  have "inv_at [] {} {} st"
    unfolding inv_at_def Let_def live_def st using assms(2)
    by (simp add: rs_ok_def geom_ok_def geom_def free_ok_def st links_ok_def table_ok_def hmap_def slot_def bins_ok_def
        kNumBins_def coalesced_def ids_ok_def used_bytes_def)
  moreover have "origin Alloc st" by (simp add: origin_def st geom_def)
  moreover have "curr_ok st"
  proof -
    define n where "n = (if grow then min mem_total 1048576 else mem_total)"
    have n: "n \<le> 2 ^ 39" using assms(2) by (auto simp: n_def min_def)
    have n64: "n \<le> 2 ^ 64 - 256" using n by simp
    have "RoundedBytes n \<le> 2 ^ 41" using RoundedBytes_eq(2) [OF n64] n by simp
    moreover have "256 \<le> mem_total \<longrightarrow> 0 < n" by (auto simp: n_def)
    ultimately show ?thesis
      using RoundedBytes_eq(3,4) [OF n64] by (simp add: curr_ok_def st n_def [symmetric])
  qed
  ultimately show "alloc_inv Alloc st" by (rule alloc_invI)
  show "blocks st = Map.empty" by (rule ext) (simp add: blocks_def st hmap_def slot_def geom_def)
  show "free_blocks st = {}" by (simp add: free_blocks_def st hmap_def slot_def geom_def)
qed

lemma BFCAllocator_portable: "BFCAllocator_by Log2FloorNonZero_portable mem_total grow = None"
proof -
  have "\<not> bin_check Log2FloorNonZero_portable 0"
    by (simp add: bin_check_def BinNumToSize_def BinNumForSize_by_def Log2FloorNonZero_portable_def
        Log2FloorNonZero_loop.simps kNumBins_def)
  then have "\<not> list_all (bin_check Log2FloorNonZero_portable) [0..<kNumBins]"
    by (auto simp: list_all_iff kNumBins_def)
  then show ?thesis by (simp add: BFCAllocator_by_def)
qed

section \<open>The request size wraps\<close>

lemma take_chunk_zero:
  assumes inv: "inv_at fs {} {} st" and h: "h \<in> set (bins st ! b)" "b < 21"
  shows "\<exists>st'. take_chunk b h 0 n st = Some (cptr (chunks st ! h), st')"
proof -
  obtain s where s: "RemoveFreeChunkIterFromBin b h st = Some s" "inv_at fs {h} {} s" "live s fs = live st fs"
    "\<And>i. chunks s ! i = (if i = h then (chunks st ! h)\<lparr>bin_num := None\<rparr> else chunks st ! i)" "h \<in> live st fs"
    "\<not> in_use (chunks st ! h)"
    using RemoveFreeChunkIterFromBin_inv [OF inv h] by auto
  note I = invD [OF s(2)]
  let ?c = "chunks s ! h"
  have hL: "h \<in> live s fs" using s(3,5) by simp
  obtain h' t fs' where t: "AllocateChunk s = Some (h', t)" "h' \<notin> live s fs" "live t fs' = insert h' (live s fs)"
    "t = s\<lparr>chunks := chunks t, free_list := free_list t\<rparr>" "\<And>i. i \<in> live s fs \<Longrightarrow> chunks t ! i = chunks s ! i"
    "bin_num (chunks t ! h') = None"
    using AllocateChunk_ok [OF I(2)] by metis
  have len: "h' < length (chunks t)" "h < length (chunks t)" using liveD(1) [of _ t fs'] t(3) hL by auto
  have hh: "h \<noteq> h'" using hL t(2) by blast
  have r: "regions t = regions s" by (subst t(4)) simp
  have "slot (geom (regions s)) (cptr ?c)" using slot_live [OF I(3) hL, of 0] linksD(1) [OF I(3) hL] by simp
  then obtain rs where rs: "set_handle (cptr ?c) (Some h') (regions s) = Some rs" using set_handle_hmap [OF I(1)] by blast
  have c: "\<not> in_use ?c" "bin_num ?c = None" using s(4,6) by (simp_all add: in_use_def)
  have ct: "chunks t ! h = ?c" by (rule t(5) [OF hL])
  have nb: "k < length (chunks t) \<and> k \<noteq> h \<and> k \<noteq> h'" if "cnext ?c = Some k" for k
    using linksD(4) [OF I(3) hL that] next_neq [OF I(3) hL that] liveD(1) [of k t fs'] t(2,3) by auto
  obtain u where u: "SplitChunk h 0 s = Some u" "h < length (chunks u)" "cptr (chunks u ! h) = cptr ?c"
  proof (cases "cnext ?c")
    case None
    then show thesis using that t(1,6) c ct len hh r rs
      by (simp add: SplitChunk_def ChunkFromHandle_def put_chunk_def Let_def InsertFreeChunkIntoBin_def in_use_def)
  next
    case (Some k)
    then show thesis using that t(1,6) c ct len hh r rs nb [OF Some]
      by (simp add: SplitChunk_def ChunkFromHandle_def put_chunk_def Let_def InsertFreeChunkIntoBin_def in_use_def)
  qed
  have "cptr ?c = cptr (chunks st ! h)" using s(4) by simp
  then show ?thesis using s(1) ChunkFromHandle_live [OF hL] u
    by (simp add: take_chunk_def Let_def ChunkFromHandle_def)
qed

lemma FindChunkPtr_zero:
  assumes inv: "inv_at fs {} {} st" and bs: "\<exists>b \<in> set bs. bins st ! b \<noteq> []" "\<forall>b \<in> set bs. b < 21"
  shows "\<exists>p st'. FindChunkPtr_loop bs 0 n st = Some (Some p, st') \<and> (\<exists>s. (p, s) \<in> free_blocks st)"
  using bs
proof (induction bs)
  case (Cons b bs)
  note I = invD [OF inv]
  show ?case
  proof (cases "bins st ! b")
    case Nil
    then show ?thesis using Cons by simp
  next
    case (Cons h hs)
    have b: "b < 21" and h: "h \<in> set (bins st ! b)" using Cons.prems Cons by simp_all
    have f: "find (\<lambda>h. 0 \<le> csize (chunks st ! h)) (bins st ! b) = Some h" by (simp add: Cons)
    have "h \<in> live st fs" "\<not> in_use (chunks st ! h)"
      using binsD(3) [OF I(5) b] h binsD(4) [OF I(5), of h] by (auto split: if_splits)
    then have "(cptr (chunks st ! h), csize (chunks st ! h)) \<in> free_blocks st"
      unfolding free_blocks_eq [OF inv] by blast
    moreover obtain st' where "take_chunk b h 0 n st = Some (cptr (chunks st ! h), st')"
      using take_chunk_zero [OF inv h b] by blast
    ultimately show ?thesis using f by auto
  qed
qed simp

lemma request_wraps:
  assumes inv: "alloc_inv Alloc st" and n: "2 ^ 64 - 256 < n" "n < 2 ^ 64" and free: "free_blocks st \<noteq> {}"
  shows "RoundedBytes n = 0 \<and>
    (\<exists>p sz st'. AllocateRawInternal Alloc n st = Some (Some p, st') \<and> (p, sz) \<in> free_blocks st \<and> sz < n)"
proof
  have "(n + 255) mod 2 ^ 64 = n + 255 - 2 ^ 64" using n by (simp add: mod_if)
  then have "(n + 255) mod 2 ^ 64 div 256 = 0" using n by simp
  then show r: "RoundedBytes n = 0" by (simp add: RoundedBytes_def add.commute)
  obtain fs where fs: "inv_at fs {} {} st" using alloc_invD [OF inv] by blast
  note I = invD [OF fs]
  obtain h where h: "h \<in> live st fs" "\<not> in_use (chunks st ! h)" using free unfolding free_blocks_eq [OF fs] by blast
  define b where "b = BinNumForSize (csize (chunks st ! h))"
  have b: "b < 21" unfolding b_def by (rule BinNumForSize_bound)
  have "h \<in> set (bins st ! b)" using binsD(3) [OF I(5) b] binsD(4) [OF I(5) h(1)] h by (simp add: b_def)
  then have ne: "\<exists>b \<in> set [0..<21]. bins st ! b \<noteq> []" using b by (intro bexI [of _ b]) auto
  have b0: "BinNumForSize 0 = 0"
    using BinNumForSize_mono [of 0 256] bin_check_gnu [of 0] by (simp add: bin_check_def BinNumToSize_def BinNumForSize_def)
  obtain p st' s where p: "FindChunkPtr_loop [0..<21] 0 n st = Some (Some p, st')" "(p, s) \<in> free_blocks st"
    using FindChunkPtr_zero [OF fs ne, of n] by auto
  have "s \<le> 2 ^ 39" using p(2) csize_bound [OF fs] unfolding free_blocks_eq [OF fs] by auto
  then have "s < n" using n(1) by simp
  moreover have "AllocateRawInternal Alloc n st = Some (Some p, st')"
    using p(1) n by (simp add: AllocateRawInternal_def r b0 FindChunkPtr_def kNumBins_def)
  ultimately show "\<exists>p sz st'. AllocateRawInternal Alloc n st = Some (Some p, st') \<and> (p, sz) \<in> free_blocks st \<and> sz < n"
    using p(2) by blast
qed

section \<open>Coalescing leaves whole regions\<close>

lemma no_blocks_whole:
  assumes inv: "alloc_inv Alloc st" and none: "blocks st = Map.empty"
  shows "free_blocks st = set (geom (regions st))"
proof -
  obtain fs where fs: "inv_at fs {} {} st" using alloc_invD [OF inv] by blast
  note I = invD [OF fs]
  let ?L = "live st fs" and ?g = "geom (regions st)"
  let ?f = "\<lambda>h. (cptr (chunks st ! h), csize (chunks st ! h))"
  have free: "\<not> in_use (chunks st ! h)" if "h \<in> ?L" for h
  proof
    assume "in_use (chunks st ! h)"
    then have "blocks st (cptr (chunks st ! h)) \<noteq> None" using blocks_iff [OF I(4)] that by blast
    then show False by (simp add: none)
  qed
  have nx: "cnext (chunks st ! h) = None" if "h \<in> ?L" for h
  proof (rule ccontr)
    assume "cnext (chunks st ! h) \<noteq> None"
    then obtain n where n: "cnext (chunks st ! h) = Some n" by blast
    then have "n \<in> ?L" using linksD(4) [OF I(3) that] by blast
    then show False using I(6) that n free by (auto simp: coalesced_def)
  qed
  have pv: "cprev (chunks st ! h) = None" if "h \<in> ?L" for h
    using linksD(5) [OF I(3) that] nx by (metis not_None_eq option.distinct(1))
  have sub: "?f ` ?L \<subseteq> set ?g"
  proof (rule image_subsetI)
    fix h assume h: "h \<in> ?L"
    have "home ?g (chunks st ! h)" by (rule linksD(3) [OF I(3) h])
    then obtain p m where pm: "(p, m) \<in> set ?g" "cptr (chunks st ! h) = p" "cptr (chunks st ! h) + csize (chunks st ! h) = p + m"
      unfolding home_def using nx [OF h] pv [OF h] by blast
    then have "csize (chunks st ! h) = m" by linarith
    then show "?f h \<in> set ?g" using pm(1,2) by (simp only:)
  qed
  have inj: "inj_on ?f ?L"
  proof (rule inj_onI)
    fix x y assume xy: "x \<in> ?L" "y \<in> ?L" "?f x = ?f y"
    have "hmap (regions st) (cptr (chunks st ! x)) = Some x" "hmap (regions st) (cptr (chunks st ! y)) = Some y"
      using I(4) xy(1,2) by (simp_all add: table_ok_def)
    moreover have "cptr (chunks st ! x) = cptr (chunks st ! y)" using xy(3) by (simp only: prod.inject)
    ultimately show "x = y" by (metis option.inject)
  qed
  have ok: "geom_ok ?g" using I(1) by (simp add: rs_ok_def)
  have dist: "distinct ?g"
  proof -
    have "distinct g" if "sorted_wrt (\<lambda>(p, m) (q, n). p + m \<le> q) g" "\<forall>x \<in> set g. 0 < snd x" for g :: "(nat \<times> nat) list"
      using that by (induction g) fastforce+
    moreover have "\<forall>x \<in> set ?g. 0 < snd x" using ok by (auto simp: geom_ok_def list_all_iff)
    moreover have "sorted_wrt (\<lambda>(p, m) (q, n). p + m \<le> q) ?g" using ok by (simp add: geom_ok_def)
    ultimately show ?thesis by blast
  qed
  have "(\<Sum>x \<in> ?f ` ?L. snd x) = (\<Sum>h \<in> ?L. csize (chunks st ! h))" by (simp add: sum.reindex [OF inj])
  also have "\<dots> = sum_list (map snd ?g)" using I(9,10) by (simp add: geom_sizes)
  also have "\<dots> = (\<Sum>x \<in> set ?g. snd x)" using dist by (simp add: sum_list_distinct_conv_sum_set)
  finally have eq: "(\<Sum>x \<in> ?f ` ?L. snd x) = (\<Sum>x \<in> set ?g. snd x)" .
  have "?f ` ?L = set ?g"
  proof (rule ccontr)
    assume "?f ` ?L \<noteq> set ?g"
    then obtain x where x: "x \<in> set ?g - ?f ` ?L" using sub by blast
    then have "0 < snd x" using ok by (auto simp: geom_ok_def list_all_iff)
    then have "(\<Sum>x \<in> ?f ` ?L. snd x) < (\<Sum>x \<in> set ?g. snd x)"
      by (intro sum_strict_mono2 [OF _ sub x]) simp_all
    then show False using eq by simp
  qed
  then show ?thesis unfolding free_blocks_eq [OF fs] using free by auto
qed

section \<open>Safety of the blocks\<close>

lemma block_facts:
  assumes inv: "alloc_inv Alloc st" and p: "blocks st p = Some (s, n, i)"
  shows "\<exists>(b, m) \<in> set (geom (regions st)). b \<le> p \<and> p + s \<le> b + m \<and> 256 dvd (p - b)"
    "n \<le> s" "0 < s" "0 < i" "i < next_id st"
    "blocks st q = Some (t, k, j) \<Longrightarrow> p \<noteq> q \<Longrightarrow> (p + s \<le> q \<or> q + t \<le> p) \<and> i \<noteq> j"
    "(q, t) \<in> free_blocks st \<Longrightarrow> p + s \<le> q \<or> q + t \<le> p"
    "RequestedSize p st = Some n" "AllocatedSize p st = Some s" "AllocationId p st = Some i"
proof -
  obtain fs where fs: "inv_at fs {} {} st" using alloc_invD [OF inv] by blast
  note I = invD [OF fs]
  obtain h where h: "h \<in> live st fs" "in_use (chunks st ! h)" "cptr (chunks st ! h) = p" "s = csize (chunks st ! h)"
    "n = requested_size (chunks st ! h)" "i = allocation_id (chunks st ! h)"
    using p unfolding blocks_iff [OF I(4)] by auto
  show "\<exists>(b, m) \<in> set (geom (regions st)). b \<le> p \<and> p + s \<le> b + m \<and> 256 dvd (p - b)"
    using linksD(3) [OF I(3) h(1)] h(3,4) by (force simp: home_def)
  show "n \<le> s" "0 < i" "i < next_id st" using I(7) h by (auto simp: ids_ok_def)
  show "0 < s" using linksD(1) [OF I(3) h(1)] h(4) by simp
  show "(p + s \<le> q \<or> q + t \<le> p) \<and> i \<noteq> j" if q: "blocks st q = Some (t, k, j)" "p \<noteq> q"
  proof -
    obtain h' where h': "h' \<in> live st fs" "in_use (chunks st ! h')" "cptr (chunks st ! h') = q" "t = csize (chunks st ! h')"
      "j = allocation_id (chunks st ! h')"
      using q(1) unfolding blocks_iff [OF I(4)] by auto
    have "h \<noteq> h'" using h(3) h'(3) q(2) by auto
    then show ?thesis using linksD(6) [OF I(3) h(1) h'(1)] h h' I(7) by (auto simp: apart_def ids_ok_def)
  qed
  show "p + s \<le> q \<or> q + t \<le> p" if q: "(q, t) \<in> free_blocks st"
  proof -
    obtain h' where h': "h' \<in> live st fs" "\<not> in_use (chunks st ! h')" "cptr (chunks st ! h') = q" "t = csize (chunks st ! h')"
      using q unfolding free_blocks_eq [OF fs] by auto
    have "h \<noteq> h'" using h(2) h'(2) by auto
    then show ?thesis using linksD(6) [OF I(3) h(1) h'(1)] h h' by (auto simp: apart_def)
  qed
  have m: "hmap (regions st) p = Some h" using I(4) h by (auto simp: table_ok_def)
  then have "slot (geom (regions st)) p" by (auto simp: hmap_def split: if_splits)
  then have "lookup_chunk p st = Some (chunks st ! h)"
    using get_handle_hmap [OF I(1)] m ChunkFromHandle_live [OF h(1)] by (simp add: lookup_chunk_def)
  then show "RequestedSize p st = Some n" "AllocatedSize p st = Some s" "AllocationId p st = Some i"
    by (simp_all add: RequestedSize_def AllocatedSize_def AllocationId_def h)
qed

lemma double_free:
  assumes inv: "alloc_inv Alloc st" and p: "slot (geom (regions st)) p" "blocks st p = None"
  shows "DeallocateRawInternal (Some p) st = None"
proof -
  obtain fs where fs: "inv_at fs {} {} st" using alloc_invD [OF inv] by blast
  note I = invD [OF fs]
  have g: "get_handle (regions st) p = Some (hmap (regions st) p)" by (rule get_handle_hmap [OF I(1) p(1)])
  show ?thesis
  proof (cases "hmap (regions st) p")
    case None
    then show ?thesis by (simp add: DeallocateRawInternal_def g)
  next
    case (Some h)
    then have h: "h \<in> live st fs" using I(4) by (auto simp: table_ok_def)
    have "\<not> in_use (chunks st ! h)" using p(2) Some by (auto simp: blocks_def Let_def split: if_splits)
    then show ?thesis
      by (simp add: DeallocateRawInternal_def g Some FreeAndMaybeCoalesce_def ChunkFromHandle_live [OF h])
  qed
qed

section \<open>The allocator interface\<close>

text \<open>
  What a client of \<^verbatim>\<open>Allocator::AllocateRaw\<close> and \<^verbatim>\<open>DeallocateRaw\<close> relies on: a request
  either changes no block or adds one of at least the requested size at an unused address, a
  deallocation of a block in use removes exactly it, and blocks never overlap. \<open>ready\<close> is
  the condition under which a request returns.
\<close>

locale raw_allocator =
  fixes inv :: "'s \<Rightarrow> bool" and blks :: "'s \<Rightarrow> nat \<Rightarrow> nat option"
    and alloc :: "nat \<Rightarrow> 's \<Rightarrow> (nat option \<times> 's) option" and dealloc :: "nat \<Rightarrow> 's \<Rightarrow> 's option"
    and ready :: "nat \<Rightarrow> 's \<Rightarrow> bool"
  assumes alloc_law: "inv s \<Longrightarrow> ready n s \<Longrightarrow> \<exists>r s'. alloc n s = Some (r, s') \<and> inv s' \<and>
      (case r of None \<Rightarrow> blks s' = blks s | Some p \<Rightarrow> blks s p = None \<and> (\<exists>sz \<ge> n. blks s' = (blks s)(p \<mapsto> sz)))"
    and dealloc_law: "inv s \<Longrightarrow> blks s p \<noteq> None \<Longrightarrow> \<exists>s'. dealloc p s = Some s' \<and> inv s' \<and> blks s' = (blks s)(p := None)"
    and apart_law: "inv s \<Longrightarrow> blks s p = Some m \<Longrightarrow> blks s q = Some n \<Longrightarrow> p \<noteq> q \<Longrightarrow> p + m \<le> q \<or> q + n \<le> p"
begin

text \<open>The fresh block is disjoint from everything already in use.\<close>

lemma alloc_apart:
  assumes "inv s" "ready n s" "alloc n s = Some (Some p, s')" "blks s q = Some m"
  shows "p + n \<le> q \<or> q + m \<le> p"
proof -
  obtain sz where p: "inv s'" "blks s p = None" "n \<le> sz" "blks s' = (blks s)(p \<mapsto> sz)"
    using alloc_law [OF assms(1,2)] assms(3) by auto
  have "q \<noteq> p" using p(2) assms(4) by auto
  then have "p + sz \<le> q \<or> q + m \<le> p" using apart_law [OF p(1), of p sz q m] p(4) assms(4) by auto
  then show ?thesis using p(3) by linarith
qed

text \<open>A request followed by its deallocation leaves the blocks as they were.\<close>

lemma alloc_dealloc:
  assumes "inv s" "ready n s" "alloc n s = Some (Some p, s')"
  shows "\<exists>s''. dealloc p s' = Some s'' \<and> inv s'' \<and> blks s'' = blks s"
proof -
  obtain sz where p: "inv s'" "blks s p = None" "blks s' = (blks s)(p \<mapsto> sz)"
    using alloc_law [OF assms(1,2)] assms(3) by auto
  then obtain s'' where "dealloc p s' = Some s''" "inv s''" "blks s'' = (blks s')(p := None)"
    using dealloc_law [of s' p] by auto
  then show ?thesis using p by (auto simp: fun_upd_idem)
qed

end

section \<open>The retrying wrapper\<close>

text \<open>
  \<^verbatim>\<open>AllocatorRetry::AllocateRaw\<close>: try, and until the deadline wait for a deallocation and try
  again; after the deadline try once more. \<open>clock t\<close> is the time read in round \<open>t\<close>, and
  \<open>others t\<close> what the other threads do to the state while this one waits in round \<open>t\<close>.
\<close>

partial_function (option) retry_loop ::
  "('s \<Rightarrow> (nat option \<times> 's) option) \<Rightarrow> (nat \<Rightarrow> nat) \<Rightarrow> (nat \<Rightarrow> 's \<Rightarrow> 's) \<Rightarrow> nat \<Rightarrow> nat \<Rightarrow> nat option \<Rightarrow> 's \<Rightarrow>
     (nat option \<times> 's) option" where [code]:
  "retry_loop alloc_func clock others max_millis_to_wait t deadline s = do {
     (ptr, s) \<leftarrow> alloc_func s;
     if ptr \<noteq> None then Some (ptr, s)
     else let now = clock t;
              deadline_micros = (case deadline of None \<Rightarrow> now + max_millis_to_wait * 1000 | Some d \<Rightarrow> d)
       in if now < deadline_micros
          then retry_loop alloc_func clock others max_millis_to_wait (t + 1) (Some deadline_micros) (others t s)
          else alloc_func s }"

definition AllocatorRetry_AllocateRaw ::
  "(nat \<Rightarrow> 's \<Rightarrow> (nat option \<times> 's) option) \<Rightarrow> (nat \<Rightarrow> nat) \<Rightarrow> (nat \<Rightarrow> 's \<Rightarrow> 's) \<Rightarrow> nat \<Rightarrow> nat \<Rightarrow> 's \<Rightarrow>
     (nat option \<times> 's) option" where
  "AllocatorRetry_AllocateRaw alloc_func clock others max_millis_to_wait num_bytes s =
     (if num_bytes = 0 then Some (None, s)
      else retry_loop (alloc_func num_bytes) clock others max_millis_to_wait 0 None s)"

text \<open>\<^verbatim>\<open>BFCAllocator::AllocateRaw\<close>: one attempt, then the retrying wrapper for ten seconds.\<close>

definition BFC_AllocateRaw ::
  "(nat \<Rightarrow> 's \<Rightarrow> (nat option \<times> 's) option) \<Rightarrow> (nat \<Rightarrow> nat) \<Rightarrow> (nat \<Rightarrow> 's \<Rightarrow> 's) \<Rightarrow> nat \<Rightarrow> 's \<Rightarrow> (nat option \<times> 's) option" where
  "BFC_AllocateRaw internal clock others num_bytes s = do {
     (r, s) \<leftarrow> internal num_bytes s;
     if r \<noteq> None then Some (r, s)
     else AllocatorRetry_AllocateRaw internal clock others 10000 num_bytes s }"

definition BFC_AllocateRaw_attr ::
  "(nat \<Rightarrow> 's \<Rightarrow> (nat option \<times> 's) option) \<Rightarrow> (nat \<Rightarrow> nat) \<Rightarrow> (nat \<Rightarrow> 's \<Rightarrow> 's) \<Rightarrow> bool \<Rightarrow> nat \<Rightarrow> 's \<Rightarrow>
     (nat option \<times> 's) option" where
  "BFC_AllocateRaw_attr internal clock others no_retry_on_failure num_bytes s =
     (if no_retry_on_failure then internal num_bytes s else BFC_AllocateRaw internal clock others num_bytes s)"

text \<open>
  With other threads that keep the invariant and readiness and a clock that passes every
  deadline, the wrapper returns, and what it returns is the outcome of one attempt.
\<close>

context raw_allocator
begin

definition good :: "nat \<Rightarrow> nat option \<times> 's \<Rightarrow> bool" where
  "good n res \<longleftrightarrow> inv (snd res) \<and> (case fst res of None \<Rightarrow> True | Some p \<Rightarrow> \<exists>sz \<ge> n. blks (snd res) p = Some sz)"

lemma alloc_good:
  assumes "inv s" "ready n s"
  shows "\<exists>r s'. alloc n s = Some (r, s') \<and> good n (r, s')"
proof -
  obtain r s' where r: "alloc n s = Some (r, s')" "inv s'"
    "case r of None \<Rightarrow> blks s' = blks s | Some p \<Rightarrow> blks s p = None \<and> (\<exists>sz \<ge> n. blks s' = (blks s)(p \<mapsto> sz))"
    using alloc_law [OF assms] by blast
  then have "good n (r, s')" by (cases r) (auto simp: good_def)
  then show ?thesis using r(1) by blast
qed

lemma retry_loop_good:
  assumes s: "inv s" "ready n s"
    and others: "\<And>t s r s'. inv s \<Longrightarrow> ready n s \<Longrightarrow> alloc n s = Some (None, s') \<Longrightarrow> ready n s' \<and> inv (others t s') \<and> ready n (others t s')"
    and clock: "T \<ge> t" "\<And>t. T \<le> t \<Longrightarrow> (case deadline of None \<Rightarrow> clock t0 + w * 1000 | Some d \<Rightarrow> d) \<le> clock t"
    and t0: "deadline = None \<Longrightarrow> t = t0"
  shows "\<exists>res. retry_loop (alloc n) clock others w t deadline s = Some res \<and> good n res"
  using s clock t0
proof (induction "T - t" arbitrary: t deadline s rule: less_induct)
  case less
  obtain r s' where r: "alloc n s = Some (r, s')" "good n (r, s')" using alloc_good [OF less.prems(1,2)] by blast
  show ?case
  proof (cases r)
    case (Some p)
    then show ?thesis using r by (subst retry_loop.simps) simp
  next
    case None
    define d where "d = (case deadline of None \<Rightarrow> clock t + w * 1000 | Some d \<Rightarrow> d)"
    have d: "d = (case deadline of None \<Rightarrow> clock t0 + w * 1000 | Some d \<Rightarrow> d)"
      using less.prems(5) by (auto simp: d_def split: option.splits)
    have o: "ready n s'" "inv (others t s')" "ready n (others t s')"
      using others [OF less.prems(1,2), of s' t] r(1) None by auto
    show ?thesis
    proof (cases "clock t < d")
      case True
      then have "\<not> T \<le> t" using less.prems(4) [of t] d by auto
      then have lt: "T - (t + 1) < T - t" "t + 1 \<le> T" by simp_all
      have "\<exists>res. retry_loop (alloc n) clock others w (t + 1) (Some d) (others t s') = Some res \<and> good n res"
        by (rule less.hyps [OF lt(1) o(2,3) lt(2)]) (use less.prems(4) d in auto)
      then show ?thesis using r(1) None True by (subst retry_loop.simps) (simp add: d_def Let_def)
    next
      case False
      have "inv s'" using r(2) by (simp add: good_def)
      then obtain r' s'' where "alloc n s' = Some (r', s'')" "good n (r', s'')" using alloc_good [OF _ o(1)] by blast
      then show ?thesis using r(1) None False by (subst retry_loop.simps) (simp add: d_def Let_def)
    qed
  qed
qed

end

section \<open>The best-fit allocator keeps the contract\<close>

definition bfc_ready :: "(nat \<Rightarrow> nat \<Rightarrow> nat option) \<Rightarrow> nat \<Rightarrow> bfc \<Rightarrow> bool" where
  "bfc_ready Alloc n st \<longleftrightarrow> 0 < n \<and> n \<le> 2 ^ 63 - 256 \<and>
     (started_backpedal st \<or> 2304 \<le> RoundedBytes n \<or> (\<forall>k. \<exists>k0 \<ge> k. \<forall>m. Alloc k0 m \<noteq> None))"

lemma bfc_ready_returns: "bfc_ready Alloc n st \<Longrightarrow> extend_returns Alloc (RoundedBytes n) st"
  unfolding bfc_ready_def extend_returns_def by blast

definition block_sizes :: "bfc \<Rightarrow> nat \<Rightarrow> nat option" where
  "block_sizes st p = map_option fst (blocks st p)"

interpretation bfc: raw_allocator "\<lambda>st. sub_ok Alloc \<and> alloc_inv Alloc st" block_sizes
  "AllocateRawInternal Alloc" "\<lambda>p. DeallocateRawInternal (Some p)" "bfc_ready Alloc"
  for Alloc :: "nat \<Rightarrow> nat \<Rightarrow> nat option"
proof unfold_locales
  fix st n
  assume st: "sub_ok Alloc \<and> alloc_inv Alloc st" and n: "bfc_ready Alloc n st"
  have b: "0 < n" "n \<le> 2 ^ 63 - 256" using n by (simp_all add: bfc_ready_def)
  obtain r st' where r: "AllocateRawInternal Alloc n st = Some (r, st')" "alloc_inv Alloc st'"
    "case r of None \<Rightarrow> blocks st' = blocks st \<and> idle st st' | Some p \<Rightarrow> granted n st p st'"
    using AllocateRawInternal_inv [OF _ _ b disjI1 [OF bfc_ready_returns [OF n]]] st by blast
  have "case r of None \<Rightarrow> block_sizes st' = block_sizes st
      | Some p \<Rightarrow> block_sizes st p = None \<and> (\<exists>sz \<ge> n. block_sizes st' = (block_sizes st)(p \<mapsto> sz))"
    using r(3) by (cases r) (auto simp: block_sizes_def granted_def fun_eq_iff)
  then show "\<exists>r s'. AllocateRawInternal Alloc n st = Some (r, s') \<and> (sub_ok Alloc \<and> alloc_inv Alloc s') \<and>
      (case r of None \<Rightarrow> block_sizes s' = block_sizes st
       | Some p \<Rightarrow> block_sizes st p = None \<and> (\<exists>sz \<ge> n. block_sizes s' = (block_sizes st)(p \<mapsto> sz)))"
    using r(1,2) st by blast
next
  fix st p
  assume st: "sub_ok Alloc \<and> alloc_inv Alloc st" and p: "block_sizes st p \<noteq> None"
  obtain s n i where "blocks st p = Some (s, n, i)" using p by (cases "blocks st p") (auto simp: block_sizes_def)
  then obtain st' where "DeallocateRawInternal (Some p) st = Some st'" "alloc_inv Alloc st'" "blocks st' = (blocks st)(p := None)"
    using DeallocateRawInternal_inv st by blast
  then show "\<exists>s'. DeallocateRawInternal (Some p) st = Some s' \<and> (sub_ok Alloc \<and> alloc_inv Alloc s') \<and>
      block_sizes s' = (block_sizes st)(p := None)"
    using st by (auto simp: block_sizes_def fun_eq_iff)
next
  fix st p m q n
  assume "sub_ok Alloc \<and> alloc_inv Alloc st" "block_sizes st p = Some m" "block_sizes st q = Some n" "p \<noteq> q"
  then show "p + m \<le> q \<or> q + n \<le> p"
    using block_facts(6) [of Alloc st p m _ _ q n] by (auto simp: block_sizes_def)
qed

section \<open>Properties\<close>

text \<open>A sub-allocator for the witnesses: call \<open>k\<close> returns the k-th terabyte.\<close>

definition demo_sub :: "nat \<Rightarrow> nat \<Rightarrow> nat option" where
  "demo_sub k n = (if n \<le> 2 ^ 40 then Some (2 ^ 40 * (k + 1)) else None)"

lemma demo_sub_ok: "sub_ok demo_sub"
  unfolding sub_ok_def
proof (intro conjI allI impI)
  fix j k m n p q assume jk: "j < k" "demo_sub j m = Some p" "demo_sub k n = Some q"
  then have "p = 2 ^ 40 * (j + 1)" "q = 2 ^ 40 * (k + 1)" "m \<le> 2 ^ 40" by (auto simp: demo_sub_def split: if_splits)
  moreover have "2 ^ 40 * (j + 1) + 2 ^ 40 * 1 \<le> 2 ^ 40 * (k + 1 :: nat)" using jk(1) by simp
  ultimately show "p + m \<le> q \<or> q + n \<le> p" by linarith
qed (auto simp: demo_sub_def split: if_splits)

definition demo_bfc :: bfc where "demo_bfc = the (BFCAllocator 1048576 False)"

lemma demo_bfc: "BFCAllocator 1048576 False = Some demo_bfc"
  by (simp add: demo_bfc_def BFCAllocator_eq)

lemma demo_bfc_inv: "alloc_inv Alloc demo_bfc" "blocks demo_bfc = Map.empty"
  using BFCAllocator_inv [OF demo_bfc] by simp_all

lemma demo_bfc_fields: "memory_limit demo_bfc = 1048576" "total_region demo_bfc = 0" "sub_calls demo_bfc = 0"
  by (simp_all add: demo_bfc_def BFCAllocator_eq)

lemma demo_rounded: "RoundedBytes 4000 = 4096" by (simp add: RoundedBytes_def)



text \<open>
  C22. Requests are served best-fit: if some free block is large enough for the rounded request,
  the address returned is that of the smallest such block, and among blocks of that size of the
  one at the lowest address.
\<close>

theorem bfc_best_fit:
  assumes "alloc_inv Alloc st" and "0 < n" and "n \<le> 2 ^ 63 - 256"
    and "(q, t) \<in> free_blocks st" and "RoundedBytes n \<le> t"
  shows "\<exists>p s st'. AllocateRawInternal Alloc n st = Some (Some p, st') \<and> (p, s) \<in> free_blocks st \<and> RoundedBytes n \<le> s \<and>
    (\<forall>(q, t) \<in> free_blocks st. RoundedBytes n \<le> t \<longrightarrow> s < t \<or> s = t \<and> p \<le> q)"
proof -
  obtain fs where fs: "inv_at fs {} {} st" using alloc_invD [OF assms(1)] by blast
  define r where "r = RoundedBytes n"
  have f: "(\<exists>h. fits st fs r h \<and> p = cptr (chunks st ! h) \<and> s = csize (chunks st ! h)) \<longleftrightarrow> (p, s) \<in> free_blocks st \<and> r \<le> s" for p s
    unfolding free_blocks_eq [OF fs] fits_def by auto
  have nf: "\<not> (\<forall>h. \<not> fits st fs r h)" using f [of q t] assms(4,5) by (auto simp: r_def)
  then obtain h st' where h: "best st fs r h" "FindChunkPtr (BinNumForSize r) r n st = Some (Some (cptr (chunks st ! h)), st')"
    using find_granted [OF assms(1-3) fs, folded r_def] unfolding if_not_P [OF nf] by blast
  have "AllocateRawInternal Alloc n st = Some (Some (cptr (chunks st ! h)), st')"
    using assms(2) h(2) by (simp add: AllocateRawInternal_def r_def [symmetric] Let_def)
  moreover have "(cptr (chunks st ! h), csize (chunks st ! h)) \<in> free_blocks st \<and> r \<le> csize (chunks st ! h)"
    using iffD1 [OF f, of "cptr (chunks st ! h)" "csize (chunks st ! h)"] h(1) by (auto simp: best_def)
  moreover have "csize (chunks st ! h) < t \<or> csize (chunks st ! h) = t \<and> cptr (chunks st ! h) \<le> q"
    if qt: "(q, t) \<in> free_blocks st" "r \<le> t" for q t
  proof -
    obtain k where k: "fits st fs r k" "q = cptr (chunks st ! k)" "t = csize (chunks st ! k)" using iffD2 [OF f, of q t] qt by blast
    then have "k = h \<or> chunk_lt (chunk_at st) h k" using h(1) by (simp add: best_def)
    then show ?thesis using k by (auto simp: chunk_lt_def)
  qed
  ultimately show ?thesis unfolding r_def [symmetric]
    by (intro exI [of _ "cptr (chunks st ! h)"] exI [of _ "csize (chunks st ! h)"] exI [of _ st']) auto
qed

text \<open>
  Progress: if the rounded request still fits under the memory limit and the next call of the
  sub-allocator succeeds, the request does not return null.
\<close>

theorem bfc_progress:
  assumes "alloc_inv Alloc st" and "sub_ok Alloc" and "0 < n" and "n \<le> 2 ^ 63 - 256"
    and "\<forall>m. Alloc (sub_calls st) m \<noteq> None" and "RoundedBytes n \<le> available st"
  shows "\<exists>p st'. AllocateRawInternal Alloc n st = Some (Some p, st') \<and> granted n st p st'"
proof -
  have "extend_returns Alloc (RoundedBytes n) st" using assms(5) unfolding extend_returns_def by blast
  from AllocateRawInternal_inv [OF assms(1-4) disjI1 [OF this]] obtain res st' where r: "AllocateRawInternal Alloc n st = Some (res, st')"
    "case res of None \<Rightarrow> blocks st' = blocks st \<and> idle st st' | Some p \<Rightarrow> granted n st p st'"
    "(\<forall>m. Alloc (sub_calls st) m \<noteq> None) \<longrightarrow> RoundedBytes n \<le> available st \<longrightarrow> res \<noteq> None" by blast
  have "res \<noteq> None" using r(3) assms(5,6) by blast
  then show ?thesis using r(1,2) by auto
qed

text \<open>Witness state for the best-fit search: one region, all free.\<close>

definition one_sub :: "nat \<Rightarrow> nat \<Rightarrow> nat option" where "one_sub k n = (if k = 0 then Some 4096 else None)"

lemma one_sub_ok: "sub_ok one_sub" by (auto simp: sub_ok_def one_sub_def split: if_splits)

lemma demo_served:
  "\<exists>p sz st. AllocateRawInternal one_sub 700 demo_bfc = Some (Some p, st) \<and> alloc_inv one_sub st \<and>
     blocks st = [p \<mapsto> (sz, 700, next_id demo_bfc)]"
proof -
  have f: "\<forall>k. one_sub (sub_calls demo_bfc) k \<noteq> None" "RoundedBytes 700 \<le> available demo_bfc"
    by (simp_all add: demo_bfc_fields one_sub_def available_def RoundedBytes_def)
  then have "extend_returns one_sub (RoundedBytes 700) demo_bfc" unfolding extend_returns_def by blast
  from AllocateRawInternal_inv [OF demo_bfc_inv(1) one_sub_ok _ _ disjI1 [OF this]] obtain res st where
    r: "AllocateRawInternal one_sub 700 demo_bfc = Some (res, st)" "alloc_inv one_sub st"
      "case res of None \<Rightarrow> blocks st = blocks demo_bfc \<and> idle demo_bfc st | Some p \<Rightarrow> granted 700 demo_bfc p st" "res \<noteq> None"
    using f by (auto simp del: not_None_eq)
  then obtain p where "res = Some p" by blast
  then show ?thesis using r demo_bfc_inv(2) by (auto simp: granted_def)
qed

lemma demo_freed:
  "\<exists>p st st' q t. AllocateRawInternal one_sub 700 demo_bfc = Some (Some p, st) \<and> blocks st p \<noteq> None \<and>
     DeallocateRawInternal (Some p) st = Some st' \<and> alloc_inv one_sub st' \<and>
     blocks st' = Map.empty \<and> (q, t) \<in> free_blocks st' \<and> 256 \<le> t"
proof -
  obtain p sz st where s: "alloc_inv one_sub st" "blocks st = [p \<mapsto> (sz, 700, next_id demo_bfc)]"
    "AllocateRawInternal one_sub 700 demo_bfc = Some (Some p, st)" using demo_served by blast
  have b: "blocks st p = Some (sz, 700, next_id demo_bfc)" using s(2) by simp
  from DeallocateRawInternal_inv [OF s(1) b] obtain st' where
    st': "DeallocateRawInternal (Some p) st = Some st'" "alloc_inv one_sub st'" "blocks st' = (blocks st)(p := None)"
      "geom (regions st') = geom (regions st)" by blast
  have e: "blocks st' = Map.empty" using st'(3) s(2) by auto
  obtain q t where q: "(q, t) \<in> set (geom (regions st))" using block_facts(1) [OF s(1) b] by blast
  then have f: "(q, t) \<in> free_blocks st'" using no_blocks_whole [OF st'(2) e] st'(4) by simp
  obtain fs where "inv_at fs {} {} st" using alloc_invD [OF s(1)] by blast
  then have "rs_ok (regions st)" by (rule invD(1))
  then have "0 < t \<and> 256 dvd t" using q by (auto simp: rs_ok_def geom_ok_def list_all_iff)
  then have "256 \<le> t" by (auto elim!: dvdE)
  then show ?thesis using b st' e f s(3) by blast
qed

theorem bfc_best_fit_witness:
  "\<exists>st p s st'. AllocateRawInternal one_sub 1 st = Some (Some p, st') \<and> (p, s) \<in> free_blocks st \<and> 256 \<le> s"
proof -
  obtain st q t where "alloc_inv one_sub st" "(q, t) \<in> free_blocks st" "256 \<le> t" using demo_freed by blast
  moreover have "RoundedBytes 1 = 256" by (simp add: RoundedBytes_def)
  ultimately show ?thesis using bfc_best_fit [of one_sub st 1 q t] by auto
qed

theorem bfc_progress_witness:
  "\<exists>p st'. AllocateRawInternal one_sub 700 demo_bfc = Some (Some p, st') \<and> granted 700 demo_bfc p st'"
  by (rule bfc_progress [OF demo_bfc_inv(1) one_sub_ok])
     (simp_all add: demo_bfc_fields one_sub_def available_def RoundedBytes_def)

text \<open>
  C7. Deallocating a block in use succeeds, keeps the invariant (coalescing with free neighbours
  included), removes exactly that block from the map and its bytes from the statistics; deallocating
  the same address a second time fails a CHECK.
\<close>

theorem bfc_deallocate:
  assumes "alloc_inv Alloc st" and "blocks st p = Some (sz, n, i)"
  shows "\<exists>st'. DeallocateRawInternal (Some p) st = Some st' \<and> alloc_inv Alloc st' \<and> blocks st' = (blocks st)(p := None) \<and>
    bytes_in_use st' = bytes_in_use st - int sz \<and> next_id st' = next_id st \<and>
    DeallocateRawInternal (Some p) st' = None"
proof -
  obtain st' where st': "DeallocateRawInternal (Some p) st = Some st'" "alloc_inv Alloc st'" "blocks st' = (blocks st)(p := None)"
    "bytes_in_use st' = bytes_in_use st - int sz" "next_id st' = next_id st" "geom (regions st') = geom (regions st)"
    "slot (geom (regions st)) p"
    using DeallocateRawInternal_inv [OF assms] by blast
  have "DeallocateRawInternal (Some p) st' = None" by (rule double_free [OF st'(2)]) (simp_all add: st'(3,6,7))
  then show ?thesis using st' by blast
qed

theorem bfc_deallocate_witness:
  "\<exists>st p sz i st'. blocks st p = Some (sz, 700, i) \<and> DeallocateRawInternal (Some p) st = Some st' \<and> blocks st' = (blocks st)(p := None) \<and>
     DeallocateRawInternal (Some p) st' = None"
proof -
  obtain p sz st where s: "alloc_inv one_sub st" "blocks st = [p \<mapsto> (sz, 700, next_id demo_bfc)]" using demo_served by blast
  have b: "blocks st p = Some (sz, 700, next_id demo_bfc)" using s(2) by simp
  from bfc_deallocate [OF s(1) b] show ?thesis using b by blast
qed

section \<open>Reachable states\<close>

text \<open>
  The states a client can reach: the constructor's state, and whatever the public operations make
  of a reachable state, as long as each call returns. A client deallocates null or a block it holds.
\<close>

inductive bfc_reachable :: "(nat \<Rightarrow> nat \<Rightarrow> nat option) \<Rightarrow> nat \<Rightarrow> bool \<Rightarrow> bfc \<Rightarrow> bool"
  for Alloc :: "nat \<Rightarrow> nat \<Rightarrow> nat option" and mem_total :: nat and allow_growth :: bool where
  reach_new: "BFCAllocator mem_total allow_growth = Some st \<Longrightarrow> bfc_reachable Alloc mem_total allow_growth st"
| reach_allocate: "bfc_reachable Alloc mem_total allow_growth st \<Longrightarrow> n \<le> 2 ^ 63 - 256 \<Longrightarrow>
    AllocateRawInternal Alloc n st = Some (res, st') \<Longrightarrow> bfc_reachable Alloc mem_total allow_growth st'"
| reach_deallocate: "bfc_reachable Alloc mem_total allow_growth st \<Longrightarrow> (\<forall>p. ptr = Some p \<longrightarrow> blocks st p \<noteq> None) \<Longrightarrow>
    DeallocateRawInternal ptr st = Some st' \<Longrightarrow> bfc_reachable Alloc mem_total allow_growth st'"
| reach_visitor: "bfc_reachable Alloc mem_total allow_growth st \<Longrightarrow> bfc_reachable Alloc mem_total allow_growth (AddAllocVisitor v st)"

lemma AddAllocVisitor_inv:
  assumes "alloc_inv Alloc st"
  shows "alloc_inv Alloc (AddAllocVisitor v st)"
proof -
  obtain fs where "inv_at fs {} {} st" using alloc_invD [OF assms] by blast
  then have "inv_at fs {} {} (AddAllocVisitor v st)" by (rule inv_at_cong) (simp_all add: AddAllocVisitor_def)
  then show ?thesis using assms
    by (intro alloc_invI) (auto simp: alloc_inv_def origin_def curr_ok_def AddAllocVisitor_def)
qed

lemma bfc_reachable_inv:
  assumes "sub_ok Alloc" "mem_total \<le> 2 ^ 39" "bfc_reachable Alloc mem_total allow_growth st"
  shows "alloc_inv Alloc st"
  using assms(3)
proof induction
  case (reach_new st)
  then show ?case using BFCAllocator_inv(1) [OF _ assms(2)] by blast
next
  case (reach_allocate st n res st')
  then show ?case
  proof (cases "n = 0")
    case True
    then show ?thesis using reach_allocate by (simp add: AllocateRawInternal_def)
  next
    case False
    then show ?thesis
      using AllocateRawInternal_inv [OF reach_allocate.IH assms(1) _ reach_allocate.hyps(2)] reach_allocate.hyps(3) by fastforce
  qed
next
  case (reach_deallocate st ptr st')
  show ?case
  proof (cases ptr)
    case None
    then show ?thesis using reach_deallocate by (simp add: DeallocateRawInternal_def)
  next
    case (Some p)
    then obtain sz n i where "blocks st p = Some (sz, n, i)" using reach_deallocate.hyps(2) by (metis not_None_eq prod_cases3)
    then show ?thesis using DeallocateRawInternal_inv [OF reach_deallocate.IH] reach_deallocate.hyps(3) Some by fastforce
  qed
next
  case (reach_visitor st v)
  show ?case by (rule AddAllocVisitor_inv [OF reach_visitor.IH])
qed

lemma demo_bfc_reachable: "bfc_reachable Alloc 1048576 False demo_bfc"
  by (rule reach_new) (rule demo_bfc)



text \<open>
  C17. Coalescing is complete: in every reachable state with no block in use, the free memory is
  exactly the list of regions, each a single free chunk, whatever sequence of requests and
  deallocations led there: no fragmentation outlives the blocks that caused it.
\<close>

theorem bfc_coalesced:
  assumes "bfc_reachable Alloc mem_total allow_growth st" and "sub_ok Alloc" and "mem_total \<le> 2 ^ 39"
    and "blocks st = Map.empty"
  shows "free_blocks st = set (geom (regions st))"
  by (rule no_blocks_whole [OF bfc_reachable_inv [OF assms(2,3,1)] assms(4)])

theorem bfc_coalesced_witness:
  "\<exists>p st st'. bfc_reachable one_sub 1048576 False st' \<and> blocks st p \<noteq> None \<and> DeallocateRawInternal (Some p) st = Some st' \<and>
     free_blocks st' = set (geom (regions st'))"
proof -
  obtain p st st' where s: "AllocateRawInternal one_sub 700 demo_bfc = Some (Some p, st)" "blocks st p \<noteq> None"
    "DeallocateRawInternal (Some p) st = Some st'" "blocks st' = Map.empty" using demo_freed by blast
  have "bfc_reachable one_sub 1048576 False st" by (rule reach_allocate [OF demo_bfc_reachable _ s(1)]) simp
  then have r: "bfc_reachable one_sub 1048576 False st'" by (rule reach_deallocate [OF _ _ s(3)]) (use s(2) in simp)
  have "free_blocks st' = set (geom (regions st'))" using bfc_coalesced [OF r one_sub_ok _ s(4)] by simp
  then show ?thesis using s(2,3) r by blast
qed

text \<open>
  C29. Construction: with the logarithm of the GCC branch every CHECK of the constructor passes and
  the new allocator is well formed and empty; with the portable branch, which returns the number
  of bits instead of the floor of the logarithm, the constructor always aborts.
\<close>

theorem bfc_constructor:
  "\<exists>st. BFCAllocator mem_total allow_growth = Some st \<and> BFCAllocator_by Log2FloorNonZero_portable mem_total allow_growth = None \<and>
     (mem_total \<le> 2 ^ 39 \<longrightarrow> alloc_inv Alloc st \<and> blocks st = Map.empty \<and> free_blocks st = {})"
  using BFCAllocator_eq BFCAllocator_portable BFCAllocator_inv by metis

theorem bfc_constructor_witness:
  "alloc_inv demo_sub demo_bfc \<and> blocks demo_bfc = Map.empty"
  using bfc_constructor [of 1048576 False demo_sub] demo_bfc by simp

text \<open>
  C31. The rounding of the request size wraps: a request of more than 2^64 - 256 bytes is rounded
  to zero, and instead of null the allocator returns the address of a free chunk that is smaller
  than the request.
\<close>

theorem bfc_request_wraps:
  assumes "alloc_inv Alloc st" and "2 ^ 64 - 256 < n" and "n < 2 ^ 64" and "free_blocks st \<noteq> {}"
  shows "RoundedBytes n = 0 \<and>
    (\<exists>p sz st'. AllocateRawInternal Alloc n st = Some (Some p, st') \<and> (p, sz) \<in> free_blocks st \<and> sz < n)"
  by (rule request_wraps [OF assms])

theorem bfc_request_wraps_witness:
  "\<exists>st p sz st'. AllocateRawInternal one_sub (2 ^ 64 - 1) st = Some (Some p, st') \<and> (p, sz) \<in> free_blocks st \<and> sz < 2 ^ 64 - 1"
proof -
  obtain st q t where s: "alloc_inv one_sub st" "(q, t) \<in> free_blocks st" using demo_freed by blast
  then have "free_blocks st \<noteq> {}" by blast
  from bfc_request_wraps [OF s(1) _ _ this, of "2 ^ 64 - 1"] show ?thesis by auto
qed

lemma fresh_find_none:
  assumes "BFCAllocator mem_total False = Some st" "mem_total \<le> 2 ^ 39" "0 < n" "n \<le> 2 ^ 63 - 256"
  shows "FindChunkPtr (BinNumForSize (RoundedBytes n)) (RoundedBytes n) n st = Some (None, st)"
proof -
  have inv: "alloc_inv one_sub st" by (rule BFCAllocator_inv(1) [OF assms(1,2)])
  obtain fs where fs: "inv_at fs {} {} st" using alloc_invD [OF inv] by blast
  have "chunks st = []" using assms(1) by (auto simp: BFCAllocator_eq)
  then have "\<forall>h. \<not> fits st fs (RoundedBytes n) h" by (simp add: fits_def live_def)
  then show ?thesis using find_granted [OF inv assms(3,4) fs] by simp
qed



text \<open>
  The retrying entry point returns: if the clock passes the deadline of ten seconds and the
  other threads, which run while this one waits, keep the allocator well formed, AllocateRaw
  returns, and a non-null result is a block in use of at least the requested size.
\<close>

theorem bfc_retry_returns:
  assumes "sub_ok Alloc" and "alloc_inv Alloc st" and "0 < n" and "n \<le> 2 ^ 63 - 256"
    and "2304 \<le> RoundedBytes n \<or> (\<forall>k. \<exists>k0 \<ge> k. \<forall>m. Alloc k0 m \<noteq> None)"
    and "\<And>t s. alloc_inv Alloc s \<Longrightarrow> alloc_inv Alloc (others t s)"
    and "\<And>t. T \<le> t \<Longrightarrow> clock 0 + 10000 * 1000 \<le> clock t"
  shows "\<exists>r st'. BFC_AllocateRaw (AllocateRawInternal Alloc) clock others n st = Some (r, st') \<and> alloc_inv Alloc st' \<and>
    (\<forall>p. r = Some p \<longrightarrow> (\<exists>sz \<ge> n. block_sizes st' p = Some sz))"
proof -
  have ready: "bfc_ready Alloc n s" for s using assms(3-5) by (auto simp: bfc_ready_def)
  have loop: "\<exists>r s'. retry_loop (AllocateRawInternal Alloc n) clock others 10000 0 None s = Some (r, s') \<and> bfc.good Alloc n (r, s')"
    if "alloc_inv Alloc s" for s
  proof -
    have "\<exists>res. retry_loop (AllocateRawInternal Alloc n) clock others 10000 0 None s = Some res \<and> bfc.good Alloc n res"
    proof (rule bfc.retry_loop_good [where T = T and ?t0.0 = 0])
      show "bfc_ready Alloc n s' \<and> (sub_ok Alloc \<and> alloc_inv Alloc (others t s')) \<and> bfc_ready Alloc n (others t s')"
        if "sub_ok Alloc \<and> alloc_inv Alloc s" "bfc_ready Alloc n s" "AllocateRawInternal Alloc n s = Some (None, s')" for t s r s'
      proof -
        have "bfc.good Alloc n (None, s')" using bfc.alloc_good [OF that(1,2)] that(3) by auto
        then have "alloc_inv Alloc s'" unfolding bfc.good_def by simp
        then show ?thesis using ready assms(1,6) by blast
      qed
    qed (use assms(1,7) that ready in auto)
    then show ?thesis by auto
  qed
  obtain r s' where r: "AllocateRawInternal Alloc n st = Some (r, s')" "bfc.good Alloc n (r, s')"
    using bfc.alloc_good [OF _ ready] assms(1,2) by blast
  then have s': "alloc_inv Alloc s'" by (simp add: bfc.good_def)
  obtain r2 s2 where r2: "retry_loop (AllocateRawInternal Alloc n) clock others 10000 0 None s' = Some (r2, s2)" "bfc.good Alloc n (r2, s2)"
    using loop [OF s'] by blast
  have good: "alloc_inv Alloc s \<and> (\<forall>p. r = Some p \<longrightarrow> (\<exists>sz \<ge> n. block_sizes s p = Some sz))"
    if "bfc.good Alloc n (r, s)" for r s
    using that unfolding bfc.good_def by auto
  show ?thesis
  proof (cases r)
    case None
    then show ?thesis using r(1) r2(1) good [OF r2(2)] assms(3)
      by (auto simp: BFC_AllocateRaw_def AllocatorRetry_AllocateRaw_def)
  next
    case (Some p)
    then show ?thesis using r(1) good [OF r(2)] by (auto simp: BFC_AllocateRaw_def)
  qed
qed

theorem bfc_retry_returns_witness:
  "\<exists>r st'. BFC_AllocateRaw (AllocateRawInternal demo_sub) (\<lambda>t. 10000000 * t) (\<lambda>t s. s) 4000 demo_bfc = Some (r, st') \<and>
     alloc_inv demo_sub st' \<and> (\<forall>p. r = Some p \<longrightarrow> (\<exists>sz \<ge> 4000. block_sizes st' p = Some sz))"
  by (rule bfc_retry_returns [OF demo_sub_ok demo_bfc_inv(1), where T = 1]) (simp_all add: demo_rounded)

end
