(* ===== verification/TF_Hash.thy ===== *)
theory TF_Hash
  imports TF_Coding
begin

text \<open>
  \<^verbatim>\<open>lib/hash/hash.cc\<close>: the 32-bit and 64-bit string hashes. They key rendezvous tables and
  name executor frames. Every mixing step of the 64-bit hash is a bijection of the running
  value, so two strings of one length that differ in a single aligned block never collide.
\<close>

section \<open>The hashes\<close>

definition ByteAs32 :: "byte \<Rightarrow> uint32" where "ByteAs32 c = ucast c AND 0xff"
definition ByteAs64 :: "byte \<Rightarrow> uint64" where "ByteAs64 c = ucast c AND 0xff"

definition Hash32_m :: uint32 where "Hash32_m = 0x5bd1e995"
definition Hash64_m :: uint64 where "Hash64_m = 0xc6a4a7935bd1e995"

text \<open>
  The loops over whole words return the running hash and the bytes left. \<open>le\<close> is the byte order of
  the host, which the decoders take into account.
\<close>

function Hash32_loop :: "bool \<Rightarrow> uint32 \<Rightarrow> bytes \<Rightarrow> (uint32 \<times> bytes) option" where
  "Hash32_loop le h data =
     (if 4 \<le> length data
      then (case DecodeFixed32 le data of
          None \<Rightarrow> None
        | Some k \<Rightarrow>
            let k = k * Hash32_m;
                k = k XOR drop_bit 24 k;
                k = k * Hash32_m;
                h = h * Hash32_m;
                h = h XOR k
            in Hash32_loop le h (drop 4 data))
      else Some (h, data))"
  by pat_completeness auto
termination by (relation "measure (\<lambda>(_, _, data). length data)") auto

function Hash64_loop :: "bool \<Rightarrow> uint64 \<Rightarrow> bytes \<Rightarrow> (uint64 \<times> bytes) option" where
  "Hash64_loop le h data =
     (if 8 \<le> length data
      then (case DecodeFixed64 le data of
          None \<Rightarrow> None
        | Some k \<Rightarrow>
            let k = k * Hash64_m;
                k = k XOR drop_bit 47 k;
                k = k * Hash64_m;
                h = h XOR k;
                h = h * Hash64_m
            in Hash64_loop le h (drop 8 data))
      else Some (h, data))"
  by pat_completeness auto
termination by (relation "measure (\<lambda>(_, _, data). length data)") auto

declare Hash32_loop.simps [simp del] Hash64_loop.simps [simp del]

text \<open>The fall-through cases of the two switches.\<close>

definition Hash32_tail :: "uint32 \<Rightarrow> bytes \<Rightarrow> uint32" where
  "Hash32_tail h data =
     (let n = length data;
          h = (if n = 3 then h XOR push_bit 16 (ByteAs32 (data ! 2)) else h);
          h = (if n = 2 \<or> n = 3 then h XOR push_bit 8 (ByteAs32 (data ! 1)) else h)
      in if n = 1 \<or> n = 2 \<or> n = 3 then (h XOR ByteAs32 (data ! 0)) * Hash32_m else h)"

definition Hash64_tail :: "uint64 \<Rightarrow> bytes \<Rightarrow> uint64" where
  "Hash64_tail h data =
     (let n = length data;
          h = (if n = 7 then h XOR push_bit 48 (ByteAs64 (data ! 6)) else h);
          h = (if n = 6 \<or> n = 7 then h XOR push_bit 40 (ByteAs64 (data ! 5)) else h);
          h = (if 5 \<le> n \<and> n \<le> 7 then h XOR push_bit 32 (ByteAs64 (data ! 4)) else h);
          h = (if 4 \<le> n \<and> n \<le> 7 then h XOR push_bit 24 (ByteAs64 (data ! 3)) else h);
          h = (if 3 \<le> n \<and> n \<le> 7 then h XOR push_bit 16 (ByteAs64 (data ! 2)) else h);
          h = (if 2 \<le> n \<and> n \<le> 7 then h XOR push_bit 8 (ByteAs64 (data ! 1)) else h)
      in if 1 \<le> n \<and> n \<le> 7 then (h XOR ByteAs64 (data ! 0)) * Hash64_m else h)"

definition Hash32 :: "bool \<Rightarrow> bytes \<Rightarrow> uint32 \<Rightarrow> uint32 option" where
  "Hash32 le data seed =
     map_option (\<lambda>(h, rest).
       let h = Hash32_tail h rest;
           h = h XOR drop_bit 13 h;
           h = h * Hash32_m
       in h XOR drop_bit 15 h)
     (Hash32_loop le (seed XOR word_of_nat (length data)) data)"

definition Hash64 :: "bool \<Rightarrow> bytes \<Rightarrow> uint64 \<Rightarrow> uint64 option" where
  "Hash64 le data seed =
     map_option (\<lambda>(h, rest).
       let h = Hash64_tail h rest;
           h = h XOR drop_bit 47 h;
           h = h * Hash64_m
       in h XOR drop_bit 47 h)
     (Hash64_loop le (seed XOR (word_of_nat (length data) * Hash64_m)) data)"

text \<open>\<^verbatim>\<open>lib/hash/hash.h\<close>: the overloads for strings, with the default seed.\<close>

definition string_bytes :: "string \<Rightarrow> bytes" where
  "string_bytes s = map of_char s"

definition Hash64_string :: "bool \<Rightarrow> string \<Rightarrow> uint64 option" where
  "Hash64_string le str = Hash64 le (string_bytes str) 0xDECAFCAFFE"

definition Hash64Combine :: "uint64 \<Rightarrow> uint64 \<Rightarrow> uint64" where
  "Hash64Combine a b = a XOR (b + 0x9e3779b97f4a7800 + push_bit 10 a + drop_bit 4 a)"

section \<open>The mixing steps are bijections\<close>

lemma mult_Hash64_m_inj: "(x :: uint64) * Hash64_m = y * Hash64_m \<longleftrightarrow> x = y"
proof
  assume "x * Hash64_m = y * Hash64_m"
  then have "x * Hash64_m * 6879827495036328381 = y * Hash64_m * 6879827495036328381" by simp
  moreover have "Hash64_m * 6879827495036328381 = 1" unfolding Hash64_m_def by (simp add: word_uint_eq_iff uint_word_ariths)
  ultimately show "x = y" by (simp add: mult.assoc)
qed simp

lemma xor_shift_inj: "(x :: uint64) XOR drop_bit 47 x = y XOR drop_bit 47 y \<longleftrightarrow> x = y"
proof
  have undo: "z = (z XOR drop_bit 47 z) XOR drop_bit 47 (z XOR drop_bit 47 z)" for z :: uint64
    by (rule bit_eqI) (auto simp: bit_simps)
  assume "x XOR drop_bit 47 x = y XOR drop_bit 47 y"
  then show "x = y" using undo [of x] undo [of y] by simp
qed simp

lemma xor_left_inj: "(a :: 'a::len word) XOR x = a XOR y \<longleftrightarrow> x = y"
proof
  assume "a XOR x = a XOR y"
  then have "a XOR (a XOR x) = a XOR (a XOR y)" by simp
  then show "x = y" by (simp add: xor.left_commute flip: xor.assoc)
qed simp

lemma xor_right_inj: "(x :: 'a::len word) XOR a = y XOR a \<longleftrightarrow> x = y"
  by (simp add: xor.commute [of _ a] xor_left_inj)

section \<open>Strings that never collide\<close>

definition mix64 :: "uint64 \<Rightarrow> uint64" where
  "mix64 k = (let k = k * Hash64_m; k = k XOR drop_bit 47 k in k * Hash64_m)"

lemma mix64_inj: "mix64 x = mix64 y \<longleftrightarrow> x = y"
  by (simp add: mix64_def Let_def mult_Hash64_m_inj xor_shift_inj)

lemma Hash64_loop_step:
  assumes "length b = 8"
  shows "Hash64_loop le h (b @ data) = Hash64_loop le ((h XOR mix64 (le_word b)) * Hash64_m) data"
  using assms by (subst Hash64_loop.simps) (simp add: DecodeFixed64_eq mix64_def Let_def)

lemma Hash64_loop_end: "length data < 8 \<Longrightarrow> Hash64_loop le h data = Some (h, data)"
  by (subst Hash64_loop.simps) simp

lemma block_cases:
  obtains "length data < 8" | b rest where "length b = 8" "data = b @ rest"
  by (metis append_take_drop_id length_take linorder_not_le min.absorb2)

text \<open>The loop ends with the bytes of the last partial block, whatever the hash; different hashes stay different.\<close>

lemma Hash64_loop_inj:
  "\<exists>h' k'. Hash64_loop le h data = Some (h', drop (length data div 8 * 8) data) \<and>
     Hash64_loop le k data = Some (k', drop (length data div 8 * 8) data) \<and> (h' = k' \<longleftrightarrow> h = k)"
proof (induction "length data" arbitrary: data h k rule: less_induct)
  case less
  show ?case
  proof (cases data rule: block_cases)
    case 1
    then show ?thesis by (simp add: Hash64_loop_end)
  next
    case (2 b rest)
    have "length rest < length data" using 2 by simp
    from less.hyps [OF this, of "(h XOR mix64 (le_word b)) * Hash64_m" "(k XOR mix64 (le_word b)) * Hash64_m"]
    moreover have "(8 + length rest) div 8 = Suc (length rest div 8)" by simp
    ultimately show ?thesis using 2 by (simp add: Hash64_loop_step mult_Hash64_m_inj xor_right_inj)
  qed
qed

lemma Hash64_loop_append:
  assumes "8 dvd length pre"
  shows "\<exists>h'. \<forall>data. Hash64_loop le h (pre @ data) = Hash64_loop le h' data"
  using assms
proof (induction "length pre" arbitrary: pre h rule: less_induct)
  case less
  show ?case
  proof (cases pre rule: block_cases)
    case 1
    then have "pre = []" using less.prems by (metis dvd_imp_le length_0_conv linorder_not_le neq0_conv)
    then show ?thesis by auto
  next
    case (2 b rest)
    have "length rest < length pre" "8 dvd length rest" using 2 less.prems by (simp_all add: dvd_add_right_iff)
    from less.hyps [OF this, of "(h XOR mix64 (le_word b)) * Hash64_m"] show ?thesis using 2 by (simp add: Hash64_loop_step)
  qed
qed

lemma Hash64_tail_inj: "Hash64_tail h data = Hash64_tail k data \<longleftrightarrow> h = k"
  by (simp add: Hash64_tail_def Let_def mult_Hash64_m_inj xor_right_inj)

lemma le_word_inj:
  assumes "length b = 8" "length b' = 8" "(le_word b :: uint64) = le_word b'"
  shows "b = b'"
proof (rule nth_equalityI)
  fix i assume i: "i < length b"
  have "b ! i = b' ! i"
  proof (rule bit_word_eqI)
    fix n assume n: "n < LENGTH(8)"
    have "bit (le_word b :: uint64) (8 * i + n) = bit (le_word b' :: uint64) (8 * i + n)" by (simp only: assms(3))
    moreover have "(8 * i + n) div 8 = i" "(8 * i + n) mod 8 = n" "8 * i + n < 64" using i n assms(1) by simp_all
    ultimately show "bit (b ! i) n = bit (b' ! i) n" using i assms(1,2) by (simp add: bit_le_word)
  qed
  then show "b ! i = b' ! i" .
qed (use assms in simp)

text \<open>
  The 64-bit hash never fails, and two strings of the same length that differ in exactly one
  aligned eight-byte block have different hashes, for every seed.
\<close>

theorem hash64_separates_blocks:
  assumes "8 dvd length pre" and "length b = 8" and "length b' = 8" and "b \<noteq> b'"
  shows "\<exists>x y. Hash64 le (pre @ b @ post) seed = Some x \<and> Hash64 le (pre @ b' @ post) seed = Some y \<and> x \<noteq> y"
proof -
  let ?s = "seed XOR (word_of_nat (length (pre @ b @ post)) * Hash64_m)"
  have len: "length (pre @ b' @ post) = length (pre @ b @ post)" using assms by simp
  obtain h where h: "\<And>data. Hash64_loop le ?s (pre @ data) = Hash64_loop le h data"
    using Hash64_loop_append [OF assms(1), of le ?s] by blast
  have ne: "(h XOR mix64 (le_word b)) * Hash64_m \<noteq> (h XOR mix64 (le_word b')) * Hash64_m"
    using le_word_inj [OF assms(2,3)] assms(4) by (auto simp: mult_Hash64_m_inj xor_left_inj mix64_inj)
  obtain u v where u: "Hash64_loop le ((h XOR mix64 (le_word b)) * Hash64_m) post = Some (u, drop (length post div 8 * 8) post)"
    "Hash64_loop le ((h XOR mix64 (le_word b')) * Hash64_m) post = Some (v, drop (length post div 8 * 8) post)" "u \<noteq> v"
    using Hash64_loop_inj [of le "(h XOR mix64 (le_word b)) * Hash64_m" post "(h XOR mix64 (le_word b')) * Hash64_m"] ne by auto
  show ?thesis
    unfolding Hash64_def len h
    using u by (simp add: Hash64_loop_step assms(2,3) Let_def xor_shift_inj mult_Hash64_m_inj Hash64_tail_inj)
qed

theorem hash64_separates_blocks_witness:
  "\<exists>x y. Hash64_string True ''/job:a/b;x'' = Some x \<and> Hash64_string True ''/job:a/c;x'' = Some y \<and> x \<noteq> y"
  using hash64_separates_blocks [of "[]" "string_bytes ''/job:a/b''" "string_bytes ''/job:a/c''" True "string_bytes '';x''" "0xDECAFCAFFE"]
  by (simp add: Hash64_string_def string_bytes_def)

end
