(* ===== verification/TF_Block.thy ===== *)
theory TF_Block
  imports TF_Coding "HOL-Library.Monad_Syntax"
begin

text \<open>
  Blocks of the sorted string tables in which checkpoints are stored:
  \<^verbatim>\<open>lib/io/block_builder.cc\<close> builds one from keys in order, sharing prefixes
  between neighbours; \<^verbatim>\<open>lib/io/block.cc\<close> iterates and searches it;
  \<^verbatim>\<open>lib/io/iterator.cc\<close> has the empty iterator. Pointers into a block are
  offsets into its bytes. \<open>None\<close> stands for what has no result in the C++: a failed
  \<^verbatim>\<open>CHECK\<close>, a read outside the block, a loop that does not end.
  The \<^verbatim>\<open>assert\<close>s are compiled out and are preconditions here.
\<close>

section \<open>Options and the block builder\<close>

datatype CompressionType = kNoCompression | kSnappyCompression

record options =
  block_size :: nat
  block_restart_interval :: int
  compression :: CompressionType

record block_builder =
  bb_buffer :: bytes
  bb_restarts :: "uint32 list"
  bb_counter :: int
  bb_finished :: bool
  bb_last_key :: bytes

definition BlockBuilder :: block_builder where
  "BlockBuilder =
     \<lparr>bb_buffer = [], bb_restarts = [0], bb_counter = 0, bb_finished = False, bb_last_key = []\<rparr>"

definition bb_Reset :: "block_builder \<Rightarrow> block_builder" where
  "bb_Reset b =
     b\<lparr>bb_buffer := [], bb_restarts := [0], bb_counter := 0, bb_finished := False, bb_last_key := []\<rparr>"

definition CurrentSizeEstimate :: "block_builder \<Rightarrow> nat" where
  "CurrentSizeEstimate b = length (bb_buffer b) + length (bb_restarts b) * 4 + 4"

definition bb_empty :: "block_builder \<Rightarrow> bool" where
  "bb_empty b \<longleftrightarrow> bb_buffer b = []"

definition uint32_max :: nat where
  "uint32_max = 4294967295"

definition bb_Finish :: "block_builder \<Rightarrow> (block_builder \<times> bytes) option" where
  "bb_Finish b =
     (if length (bb_restarts b) \<le> uint32_max then
        let buf = foldl (PutFixed32 True) (bb_buffer b) (bb_restarts b);
            buf = PutFixed32 True buf (word_of_nat (length (bb_restarts b)));
            b = b\<lparr>bb_buffer := buf, bb_finished := True\<rparr>
        in Some (b, bb_buffer b)
      else None)"

text \<open>The loop that measures the shared prefix.\<close>

function shared_loop :: "bytes \<Rightarrow> bytes \<Rightarrow> nat \<Rightarrow> nat \<Rightarrow> nat" where
  "shared_loop last_key_piece key min_length shared =
     (if shared < min_length \<and> last_key_piece ! shared = key ! shared
      then shared_loop last_key_piece key min_length (shared + 1) else shared)"
  by pat_completeness auto
termination
  by (relation "measure (\<lambda>(a, b, min_length, shared). min_length - shared)") auto

declare shared_loop.simps [simp del]

definition bb_Add :: "options \<Rightarrow> block_builder \<Rightarrow> bytes \<Rightarrow> bytes \<Rightarrow> block_builder option" where
  "bb_Add opts b key val =
     do {
       (shared, b) \<leftarrow>
         (if bb_counter b < block_restart_interval opts
          then Some (shared_loop (bb_last_key b) key (min (length (bb_last_key b)) (length key)) 0, b)
          else if length (bb_buffer b) \<le> uint32_max
          then Some (0, b\<lparr>bb_restarts := bb_restarts b @ [word_of_nat (length (bb_buffer b))], bb_counter := 0\<rparr>)
          else None);
       let non_shared = length key - shared;
       if shared \<le> uint32_max \<and> non_shared \<le> uint32_max \<and> length val \<le> uint32_max then
         let buf = PutVarint32 (bb_buffer b) (word_of_nat shared);
             buf = PutVarint32 buf (word_of_nat non_shared);
             buf = PutVarint32 buf (word_of_nat (length val));
             buf = buf @ take non_shared (drop shared key);
             buf = buf @ val
         in Some (b\<lparr>bb_buffer := buf,
                    bb_last_key := take shared (bb_last_key b) @ take non_shared (drop shared key),
                    bb_counter := bb_counter b + 1\<rparr>)
       else None
     }"

section \<open>Blocks and their iterator\<close>

text \<open>
  \<open>restart_offset\<close> is left uninitialised when the contents are malformed, and nothing
  reads it then; the model leaves 0.
\<close>

record block =
  blk_data :: bytes
  blk_size :: nat
  restart_offset :: uint32

definition NumRestarts :: "block \<Rightarrow> uint32 option" where
  "NumRestarts b = DecodeFixed32 True (drop (blk_size b - 4) (blk_data b))"

definition Block :: "bytes \<Rightarrow> block option" where
  "Block data =
     (let b = \<lparr>blk_data = data, blk_size = length data, restart_offset = 0\<rparr>
      in if blk_size b < 4 then Some (b\<lparr>blk_size := 0\<rparr>)
         else
           let max_restarts_allowed = (blk_size b - 4) div 4
           in do {
             n \<leftarrow> NumRestarts b;
             if unat n > max_restarts_allowed then Some (b\<lparr>blk_size := 0\<rparr>)
             else Some (b\<lparr>restart_offset := word_of_nat (blk_size b - unat (1 + n) * 4)\<rparr>)
           })"

definition DecodeEntry :: "bytes \<Rightarrow> nat \<Rightarrow> nat \<Rightarrow> (nat \<times> uint32 \<times> uint32 \<times> uint32) option" where
  "DecodeEntry data p limit =
     (if int limit - int p < 3 then None
      else
        let shared = ucast (data ! p);
            non_shared = ucast (data ! (p + 1));
            value_length = ucast (data ! (p + 2))
        in do {
          (p, shared, non_shared, value_length) \<leftarrow>
            (if (shared OR non_shared OR value_length :: uint32) < 128
             then Some (p + 3, shared, non_shared, value_length)
             else do {
               (shared, q) \<leftarrow> GetVarint32Ptr (take (limit - p) (drop p data));
               (non_shared, q) \<leftarrow> GetVarint32Ptr q;
               (value_length, q) \<leftarrow> GetVarint32Ptr q;
               Some (limit - length q, shared, non_shared, value_length)
             });
          if word_of_nat (limit - p) < non_shared + value_length then None
          else Some (p, shared, non_shared, value_length)
        })"

text \<open>
  \<^verbatim>\<open>value_\<close> is an offset with a length, \<open>None\<close> for the null piece that
  \<^verbatim>\<open>clear\<close> leaves.
\<close>

record block_iter =
  it_data :: bytes
  it_restarts :: uint32
  it_num_restarts :: uint32
  it_current :: uint32
  it_restart_index :: uint32
  it_key :: bytes
  it_value :: "(nat \<times> nat) option"
  it_status :: status

definition Iter :: "bytes \<Rightarrow> uint32 \<Rightarrow> uint32 \<Rightarrow> block_iter" where
  "Iter data rs num_restarts =
     \<lparr>it_data = data, it_restarts = rs, it_num_restarts = num_restarts, it_current = rs,
      it_restart_index = num_restarts, it_key = [], it_value = None, it_status = OK\<rparr>"

definition NextEntryOffset :: "block_iter \<Rightarrow> uint32 option" where
  "NextEntryOffset it = map_option (\<lambda>(p, n). word_of_nat (p + n)) (it_value it)"

definition GetRestartPoint :: "block_iter \<Rightarrow> uint32 \<Rightarrow> uint32 option" where
  "GetRestartPoint it index = DecodeFixed32 True (drop (unat (it_restarts it) + unat index * 4) (it_data it))"

definition SeekToRestartPoint :: "block_iter \<Rightarrow> uint32 \<Rightarrow> block_iter option" where
  "SeekToRestartPoint it index =
     do {
       offset \<leftarrow> GetRestartPoint it index;
       Some (it\<lparr>it_key := [], it_restart_index := index, it_value := Some (unat offset, 0)\<rparr>)
     }"

definition Iter_Valid :: "block_iter \<Rightarrow> bool" where
  "Iter_Valid it \<longleftrightarrow> it_current it < it_restarts it"

definition Iter_value :: "block_iter \<Rightarrow> bytes" where
  "Iter_value it = (case it_value it of None \<Rightarrow> [] | Some (p, n) \<Rightarrow> take n (drop p (it_data it)))"

definition CorruptionError :: "block_iter \<Rightarrow> block_iter" where
  "CorruptionError it =
     it\<lparr>it_current := it_restarts it, it_restart_index := it_num_restarts it,
        it_status := Error DATA_LOSS ''bad entry in block'', it_key := [], it_value := None\<rparr>"

function advance_restart :: "block_iter \<Rightarrow> block_iter option" where
  "advance_restart it =
     (if it_restart_index it + 1 < it_num_restarts it then
        (case GetRestartPoint it (it_restart_index it + 1) of
           None \<Rightarrow> None
         | Some r \<Rightarrow>
             if r < it_current it
             then advance_restart (it\<lparr>it_restart_index := it_restart_index it + 1\<rparr>)
             else Some it)
      else Some it)"
  by pat_completeness auto
termination
proof (relation "measure (\<lambda>it. unat (it_num_restarts it - (it_restart_index it + 1)))")
  show "(it\<lparr>it_restart_index := it_restart_index it + 1\<rparr>, it)
    \<in> measure (\<lambda>it. unat (it_num_restarts it - (it_restart_index it + 1)))"
    if "it_restart_index it + 1 < it_num_restarts it" for it :: block_iter
  proof -
    define x n where "x = it_restart_index it + 1" and "n = it_num_restarts it"
    have "x < n" using that by (simp add: x_def n_def)
    then have "unat (n - (x + 1)) < unat (n - x)"
      by unat_arith
    then show ?thesis by (simp add: x_def n_def)
  qed
qed simp

declare advance_restart.simps [simp del]

definition ParseNextKey :: "block_iter \<Rightarrow> (bool \<times> block_iter) option" where
  "ParseNextKey it =
     do {
       offset \<leftarrow> NextEntryOffset it;
       let it = it\<lparr>it_current := offset\<rparr>;
       let p = unat (it_current it);
       let limit = unat (it_restarts it);
       if p \<ge> limit then
         Some (False, it\<lparr>it_current := it_restarts it, it_restart_index := it_num_restarts it\<rparr>)
       else
         (case DecodeEntry (it_data it) p limit of
            None \<Rightarrow> Some (False, CorruptionError it)
          | Some (p, shared, non_shared, value_length) \<Rightarrow>
              if length (it_key it) < unat shared then Some (False, CorruptionError it)
              else if length (it_data it) < p + unat non_shared then None
              else do {
                it \<leftarrow> advance_restart
                  (it\<lparr>it_key := take (unat shared) (it_key it) @ take (unat non_shared) (drop p (it_data it)),
                      it_value := Some (p + unat non_shared, unat value_length)\<rparr>);
                Some (True, it)
              })
     }"

definition Iter_Next :: "block_iter \<Rightarrow> block_iter option" where
  "Iter_Next it = map_option snd (ParseNextKey it)"

text \<open>
  The binary search over the restart points: the inner \<open>None\<close> is the early return after
  \<^verbatim>\<open>CorruptionError\<close>. The addition in \<open>mid\<close> wraps.
\<close>

partial_function (option) seek_bsearch ::
  "block_iter \<Rightarrow> bytes \<Rightarrow> uint32 \<Rightarrow> uint32 \<Rightarrow> uint32 option option" where
  [code]: "seek_bsearch it target left right =
     (if left < right then
        let mid = (left + right + 1) div 2
        in Option.bind (GetRestartPoint it mid) (\<lambda>region_offset.
          (case DecodeEntry (it_data it) (unat region_offset) (unat (it_restarts it)) of
             None \<Rightarrow> Some None
           | Some (key_ptr, shared, non_shared, value_length) \<Rightarrow>
               if shared \<noteq> 0 then Some None
               else if length (it_data it) < key_ptr + unat non_shared then None
               else if compare (take (unat non_shared) (drop key_ptr (it_data it))) target < 0
               then seek_bsearch it target mid right
               else seek_bsearch it target left (mid - 1)))
      else Some (Some left))"

partial_function (option) seek_linear :: "block_iter \<Rightarrow> bytes \<Rightarrow> block_iter option" where
  [code]: "seek_linear it target =
     Option.bind (ParseNextKey it) (\<lambda>(ok, it).
       if \<not> ok then Some it
       else if compare (it_key it) target \<ge> 0 then Some it
       else seek_linear it target)"

definition Iter_Seek :: "block_iter \<Rightarrow> bytes \<Rightarrow> block_iter option" where
  "Iter_Seek it target =
     do {
       r \<leftarrow> seek_bsearch it target 0 (it_num_restarts it - 1);
       (case r of
          None \<Rightarrow> Some (CorruptionError it)
        | Some left \<Rightarrow> do { it \<leftarrow> SeekToRestartPoint it left; seek_linear it target })
     }"

definition Iter_SeekToFirst :: "block_iter \<Rightarrow> block_iter option" where
  "Iter_SeekToFirst it =
     do { it \<leftarrow> SeekToRestartPoint it 0; map_option snd (ParseNextKey it) }"

text \<open>The iterators a table hands out: \<^verbatim>\<open>Block::Iter\<close> and \<^verbatim>\<open>EmptyIterator\<close>.\<close>

datatype iterator = EmptyIterator status | BlockIter block_iter

definition NewEmptyIterator :: iterator where
  "NewEmptyIterator = EmptyIterator OK"

definition NewErrorIterator :: "status \<Rightarrow> iterator" where
  "NewErrorIterator st = EmptyIterator st"

fun Valid :: "iterator \<Rightarrow> bool" where
  "Valid (EmptyIterator st) = False"
| "Valid (BlockIter it) = Iter_Valid it"

fun Seek :: "iterator \<Rightarrow> bytes \<Rightarrow> iterator option" where
  "Seek (EmptyIterator st) target = Some (EmptyIterator st)"
| "Seek (BlockIter it) target = map_option BlockIter (Iter_Seek it target)"

fun SeekToFirst :: "iterator \<Rightarrow> iterator option" where
  "SeekToFirst (EmptyIterator st) = Some (EmptyIterator st)"
| "SeekToFirst (BlockIter it) = map_option BlockIter (Iter_SeekToFirst it)"

fun Next :: "iterator \<Rightarrow> iterator option" where
  "Next (EmptyIterator st) = Some (EmptyIterator st)"
| "Next (BlockIter it) = map_option BlockIter (Iter_Next it)"

fun iter_key :: "iterator \<Rightarrow> bytes" where
  "iter_key (EmptyIterator st) = []"
| "iter_key (BlockIter it) = it_key it"

fun iter_value :: "iterator \<Rightarrow> bytes" where
  "iter_value (EmptyIterator st) = []"
| "iter_value (BlockIter it) = Iter_value it"

fun iter_status :: "iterator \<Rightarrow> status" where
  "iter_status (EmptyIterator st) = st"
| "iter_status (BlockIter it) = it_status it"

definition NewIterator :: "block \<Rightarrow> iterator option" where
  "NewIterator b =
     (if blk_size b < 4 then Some (NewErrorIterator (Error DATA_LOSS ''bad block contents''))
      else do {
        num_restarts \<leftarrow> NumRestarts b;
        if num_restarts = 0 then Some NewEmptyIterator
        else Some (BlockIter (Iter (blk_data b) (restart_offset b) num_restarts))
      })"

section \<open>The layout of a block\<close>

text \<open>
  An entry with the number of bytes it shares; the encoding of a list of entries; the
  offset of the \<open>j\<close>-th; the key before it.
\<close>

type_synonym entry = "nat \<times> bytes \<times> bytes"

fun entry_header :: "entry \<Rightarrow> bytes" where
  "entry_header (sh, k, v) =
     EncodeVarint32 (word_of_nat sh) @ EncodeVarint32 (word_of_nat (length k - sh)) @
     EncodeVarint32 (word_of_nat (length v))"

fun entry_bytes :: "entry \<Rightarrow> bytes" where
  "entry_bytes (sh, k, v) = entry_header (sh, k, v) @ drop sh k @ v"

definition enc :: "entry list \<Rightarrow> bytes" where
  "enc es = concat (map entry_bytes es)"

definition offs :: "entry list \<Rightarrow> nat \<Rightarrow> nat" where
  "offs es j = length (enc (take j es))"

definition prev_key :: "entry list \<Rightarrow> nat \<Rightarrow> bytes" where
  "prev_key es j = (if j = 0 then [] else fst (snd (es ! (j - 1))))"

text \<open>\<open>shares sh k e\<close>: entry \<open>e\<close> can be read when the iterator holds the key \<open>k\<close>.\<close>

fun readable :: "bytes \<Rightarrow> entry \<Rightarrow> bool" where
  "readable p (sh, k, v) \<longleftrightarrow>
     sh \<le> length p \<and> sh \<le> length k \<and> take sh p = take sh k \<and>
     length k \<le> uint32_max \<and> length v \<le> uint32_max"

definition entries_ok :: "entry list \<Rightarrow> bool" where
  "entries_ok es \<longleftrightarrow> (\<forall>j < length es. readable (prev_key es j) (es ! j))"

definition restarts_ok :: "entry list \<Rightarrow> nat list \<Rightarrow> bool" where
  "restarts_ok es js \<longleftrightarrow>
     js \<noteq> [] \<and> hd js = 0 \<and> sorted_wrt (<) js \<and>
     (\<forall>j \<in> set js. j < length es \<and> fst (es ! j) = 0 \<or> j = 0 \<and> es = [])"

lemma enc_simps [simp]: "enc [] = []" "enc (e # es) = entry_bytes e @ enc es" "enc (es @ es') = enc es @ enc es'"
  by (simp_all add: enc_def)

lemma EncodeVarint32_not_Nil [simp]: "EncodeVarint32 v \<noteq> []"
  by (simp add: EncodeVarint32_leb128)

lemma EncodeVarint32_length_pos [simp]: "0 < length (EncodeVarint32 v)"
  by simp

lemma entry_bytes_length: "3 \<le> length (entry_header e)"
proof -
  obtain sh k v where e: "e = (sh, k, v)" by (cases e) auto
  have one: "1 \<le> length (EncodeVarint32 x)" for x using EncodeVarint32_length_pos [of x] by linarith
  show ?thesis
    using one [of "word_of_nat sh"] one [of "word_of_nat (length k - sh)"] one [of "word_of_nat (length v)"]
    by (simp add: e)
qed

lemma offs_0 [simp]: "offs es 0 = 0"
  by (simp add: offs_def)

lemma offs_Suc: "j < length es \<Longrightarrow> offs es (Suc j) = offs es j + length (entry_bytes (es ! j))"
  by (simp add: offs_def take_Suc_conv_app_nth)

lemma offs_length [simp]: "length es \<le> j \<Longrightarrow> offs es j = length (enc es)"
  by (simp add: offs_def)

lemma offs_less_Suc: "j < length es \<Longrightarrow> offs es j + 3 \<le> offs es (Suc j)"
  using entry_bytes_length [of "es ! j"] by (cases "es ! j") (simp add: offs_Suc)

lemma offs_mono: "i \<le> j \<Longrightarrow> offs es i \<le> offs es j"
proof (induction j)
  case (Suc j)
  then show ?case
    using offs_less_Suc [of j es] by (cases "j < length es") (auto simp: le_Suc_eq)
qed simp

lemma offs_le: "offs es j \<le> length (enc es)"
  using offs_mono [of j "max j (length es)" es] by simp

lemma offs_less: "j < length es \<Longrightarrow> offs es j < length (enc es)"
  using offs_less_Suc [of j es] offs_le [of es "Suc j"] by simp

lemma enc_split:
  "j < length es \<Longrightarrow> enc es = enc (take j es) @ entry_bytes (es ! j) @ enc (drop (Suc j) es)"
  by (metis enc_simps(2,3) id_take_nth_drop)

lemma drop_offs: "j < length es \<Longrightarrow> drop (offs es j) (enc es @ r) = entry_bytes (es ! j) @ enc (drop (Suc j) es) @ r"
  by (subst enc_split [of j es]) (simp_all add: offs_def)

section \<open>Reading one entry\<close>

text \<open>The one-byte fast path reads what the general path reads.\<close>

lemma unat_ucast_byte [simp]: "unat (ucast (b :: byte) :: uint32) = unat b"
proof -
  have "unat b < 2 ^ 32" using unsigned_less [of b, where ?'a = nat] by simp
  then show ?thesis by (simp add: unsigned_ucast_eq take_bit_nat_eq_self_iff)
qed

lemma ucast_less_128: "(ucast (b :: byte) :: uint32) < 128 \<Longrightarrow> ucast b AND (128 :: uint32) = 0"
  by (simp add: and_128_eq_0_iff bit_simps not_bit_7_iff word_less_nat_alt)

lemma or_less_128: "(a OR b :: uint32) < 128 \<longleftrightarrow> a < 128 \<and> b < 128"
proof -
  have "x < 128 \<longleftrightarrow> take_bit 7 x = x" for x :: uint32
    by (simp add: take_bit_eq_self_unat word_less_nat_alt)
  moreover have "take_bit 7 (a OR b) = a OR b \<longleftrightarrow> take_bit 7 a = a \<and> take_bit 7 b = b"
    by (auto simp: bit_eq_iff bit_simps)
  ultimately show ?thesis by simp
qed

definition slow_entry :: "bytes \<Rightarrow> (uint32 \<times> uint32 \<times> uint32 \<times> bytes) option" where
  "slow_entry p =
     do {
       (shared, q) \<leftarrow> GetVarint32 p;
       (non_shared, q) \<leftarrow> GetVarint32 q;
       (value_length, q) \<leftarrow> GetVarint32 q;
       Some (shared, non_shared, value_length, q)
     }"

lemma GetVarint32Ptr_eq: "GetVarint32Ptr p = GetVarint32 p"
  by (simp add: GetVarint32_def split: option.splits)

lemma GetVarint32_byte: "(ucast (b :: byte) :: uint32) < 128 \<Longrightarrow> GetVarint32 (b # p) = Some (ucast b, p)"
  unfolding GetVarint32Ptr_eq [symmetric] by (simp add: GetVarint32Ptr_def ucast_less_128)

lemma slow_entry_encoded:
  assumes "sh \<le> length k" "length k \<le> uint32_max" "length v \<le> uint32_max"
  shows "slow_entry (entry_bytes (sh, k, v) @ r) =
    Some (word_of_nat sh, word_of_nat (length k - sh), word_of_nat (length v), drop sh k @ v @ r)"
  by (simp add: slow_entry_def GetVarint32_Encode)

lemma DecodeEntry_eq:
  assumes "p + 3 \<le> limit" and "limit \<le> length data"
  shows "DecodeEntry data p limit =
    (case slow_entry (take (limit - p) (drop p data)) of
       None \<Rightarrow> None
     | Some (shared, non_shared, value_length, q) \<Rightarrow>
         if word_of_nat (length q) < non_shared + value_length then None
         else Some (limit - length q, shared, non_shared, value_length))"
proof -
  let ?r = "take (limit - p) (drop p data)"
  have len: "length ?r = limit - p" "3 \<le> length ?r" using assms by auto
  then obtain a b c q where r: "?r = a # b # c # q"
    by (metis (no_types, lifting) Suc_le_length_iff numeral_3_eq_3)
  have nth: "data ! (p + i) = ?r ! i" if "i < 3" for i
    using that assms by simp
  have abc: "data ! p = a" "data ! (p + 1) = b" "data ! (p + 2) = c"
    using nth [of 0] nth [of 1] nth [of 2] by (simp_all add: r del: One_nat_def)
  have abc: "data ! p = a" "data ! Suc p = b" "data ! Suc (Suc p) = c" using abc by simp_all
  have q: "limit = p + 3 + length q" using len(1) assms by (simp add: r)
  have suffix: "length q' \<le> length s" if "GetVarint32 s = Some (x, q')" for s x q'
    using that varint_loop_consumes [of 28 0 0 s x q'] by (auto simp: GetVarint32_eq)
  show ?thesis
  proof (cases "(ucast a OR ucast b OR ucast c :: uint32) < 128")
    case True
    then have "slow_entry ?r = Some (ucast a, ucast b, ucast c, q)"
      by (simp add: r slow_entry_def or_less_128 GetVarint32_byte)
    then show ?thesis
      using True by (simp add: DecodeEntry_def abc q Let_def)
  next
    case False
    have "DecodeEntry data p limit =
      (case slow_entry ?r of
         None \<Rightarrow> None
       | Some (shared, non_shared, value_length, q) \<Rightarrow>
           if word_of_nat (limit - (limit - length q)) < non_shared + value_length then None
           else Some (limit - length q, shared, non_shared, value_length))"
      using assms False
      by (auto simp: DecodeEntry_def abc Let_def GetVarint32Ptr_eq slow_entry_def simp del: of_nat_diff
          split: option.splits Option.bind_splits)
    moreover have "length q' \<le> limit" if slow: "slow_entry ?r = Some (s', n', v', q')" for s' n' v' q'
    proof -
      obtain x1 q1 x2 q2 where "GetVarint32 ?r = Some (x1, q1)" "GetVarint32 q1 = Some (x2, q2)"
        "GetVarint32 q2 = Some (v', q')"
        using slow by (auto simp: slow_entry_def bind_eq_Some_conv)
      from this [THEN suffix] show ?thesis using len(1) by linarith
    qed
    ultimately show ?thesis
      by (cases "slow_entry ?r") (auto simp del: of_nat_diff simp: diff_diff_cancel split: prod.splits)
  qed
qed


lemma unat_le_uint32 [simp]: "n \<le> uint32_max \<Longrightarrow> unat (word_of_nat n :: uint32) = n"
  by (simp add: uint32_max_def unsigned_of_nat take_bit_nat_eq_self_iff)

lemma uint32_less_iff:
  "m \<le> uint32_max \<Longrightarrow> n \<le> uint32_max \<Longrightarrow> (word_of_nat m :: uint32) < word_of_nat n \<longleftrightarrow> m < n"
  by (simp add: word_less_nat_alt)

lemma uint32_eq_iff:
  "m \<le> uint32_max \<Longrightarrow> n \<le> uint32_max \<Longrightarrow> (word_of_nat m :: uint32) = word_of_nat n \<longleftrightarrow> m = n"
  by (metis unat_le_uint32)

text \<open>The entry at an offset of the encoding, read with the end of the encoding as limit.\<close>

lemma DecodeEntry_enc:
  assumes "j < length es" and "es ! j = (sh, k, v)" and "sh \<le> length k"
    and "length k \<le> uint32_max" "length v \<le> uint32_max" "length (enc es) \<le> uint32_max"
  shows "DecodeEntry (enc es @ trailer) (offs es j) (length (enc es)) =
    Some (offs es (Suc j) - length v - (length k - sh), word_of_nat sh, word_of_nat (length k - sh), word_of_nat (length v))"
proof -
  let ?rest = "enc (drop (Suc j) es)"
  have range: "take (length (enc es) - offs es j) (drop (offs es j) (enc es @ trailer)) = entry_bytes (sh, k, v) @ ?rest"
    using assms(1,2) by (simp add: enc_split [of j es] offs_def)
  have len: "length (enc es) = offs es j + length (entry_bytes (sh, k, v)) + length ?rest"
    using assms(1,2) by (simp add: enc_split [of j es] offs_def)
  have sum: "length k - sh + length v + length ?rest \<le> uint32_max"
    using len assms(3,6) by (simp)
  let ?q = "drop sh k @ v @ ?rest"
  have q: "length ?q = length k - sh + length v + length ?rest" by simp
  have limit: "offs es j + 3 \<le> length (enc es)"
    using offs_less_Suc [OF assms(1)] offs_le [of es "Suc j"] by linarith
  have "DecodeEntry (enc es @ trailer) (offs es j) (length (enc es)) =
      (if word_of_nat (length ?q) < (word_of_nat (length k - sh) + word_of_nat (length v) :: uint32) then None
       else Some (length (enc es) - length ?q, word_of_nat sh, word_of_nat (length k - sh), word_of_nat (length v)))"
    by (simp only: DecodeEntry_eq [OF limit] length_append le_add1 range
        slow_entry_encoded [OF assms(3-5)] option.case prod.case)
  moreover have "\<not> (word_of_nat (length ?q) :: uint32) < word_of_nat (length k - sh) + word_of_nat (length v)"
    using sum unfolding q by (simp only: of_nat_add [symmetric] uint32_less_iff)
  moreover have "length (enc es) - length ?q = offs es (Suc j) - length v - (length k - sh)"
    using len offs_Suc [OF assms(1)] assms(2,3) by simp
  ultimately show ?thesis by simp
qed

section \<open>Positions of the iterator\<close>

definition trailer :: "entry list \<Rightarrow> nat list \<Rightarrow> bytes" where
  "trailer es js =
     concat (map (\<lambda>j. EncodeFixed32 True (word_of_nat (offs es j))) js) @
     EncodeFixed32 True (word_of_nat (length js))"

definition block_bytes :: "entry list \<Rightarrow> nat list \<Rightarrow> bytes" where
  "block_bytes es js = enc es @ trailer es js"

definition layout :: "entry list \<Rightarrow> nat list \<Rightarrow> bool" where
  "layout es js \<longleftrightarrow> entries_ok es \<and> restarts_ok es js \<and> length (block_bytes es js) \<le> uint32_max"

text \<open>
  \<open>over\<close>: the iterator runs over this block, anywhere and without error.
  \<open>positioned \<dots> j\<close>: it stands at entry \<open>j\<close>, or at the end. \<open>ready \<dots> j\<close>: the
  next entry it parses is \<open>j\<close>.
\<close>

definition over :: "entry list \<Rightarrow> nat list \<Rightarrow> block_iter \<Rightarrow> bool" where
  "over es js it \<longleftrightarrow>
     it_data it = block_bytes es js \<and> it_restarts it = word_of_nat (length (enc es)) \<and>
     it_num_restarts it = word_of_nat (length js) \<and> it_status it = OK"

definition ready :: "entry list \<Rightarrow> nat list \<Rightarrow> block_iter \<Rightarrow> nat \<Rightarrow> bool" where
  "ready es js it j \<longleftrightarrow>
     over es js it \<and> j \<le> length es \<and> NextEntryOffset it = Some (word_of_nat (offs es j)) \<and>
     (j < length es \<longrightarrow> readable (it_key it) (es ! j))"

definition positioned :: "entry list \<Rightarrow> nat list \<Rightarrow> block_iter \<Rightarrow> nat \<Rightarrow> bool" where
  "positioned es js it j \<longleftrightarrow>
     over es js it \<and> j \<le> length es \<and>
     (if j < length es
      then it_current it = word_of_nat (offs es j) \<and> it_key it = fst (snd (es ! j)) \<and>
           it_value it = Some (offs es (Suc j) - length (snd (snd (es ! j))), length (snd (snd (es ! j))))
      else it_current it = it_restarts it)"

lemma length_trailer: "length (trailer es js) = 4 * length js + 4"
  by (induction js) (simp_all add: trailer_def)

lemma length_concat_const: "(\<And>x. length (f x) = n) \<Longrightarrow> length (concat (map f xs)) = n * length xs"
  by (induction xs) simp_all

lemma drop_concat_const:
  "(\<And>x. length (f x) = n) \<Longrightarrow> i < length xs \<Longrightarrow>
     drop (n * i) (concat (map f xs)) = f (xs ! i) @ concat (map f (drop (Suc i) xs))"
proof (induction xs arbitrary: i)
  case (Cons x xs)
  then show ?case by (cases i) (simp_all add: drop_append)
qed simp

lemma layout_bounds:
  assumes "layout es js"
  shows "length (enc es) \<le> uint32_max" "length js \<le> uint32_max" "offs es j \<le> uint32_max"
    "length (enc es) + 4 * length js + 4 \<le> uint32_max"
  using assms offs_le [of es j] by (auto simp: layout_def block_bytes_def length_trailer)

lemma layout_first:
  assumes "layout es js"
  shows "0 < length js" "js ! 0 = 0" "0 < m \<Longrightarrow> m < length js \<Longrightarrow> js ! m < length es \<and> fst (es ! (js ! m)) = 0"
proof -
  have rs: "js \<noteq> []" "hd js = 0" "sorted_wrt (<) js"
    and all: "\<forall>j \<in> set js. j < length es \<and> fst (es ! j) = 0 \<or> j = 0 \<and> es = []"
    using assms unfolding layout_def restarts_ok_def by blast+
  show "0 < length js" and first: "js ! 0 = 0" using rs(1,2) by (simp_all add: hd_conv_nth)
  assume m: "0 < m" "m < length js"
  then have "js ! 0 < js ! m" using rs(3) by (simp add: sorted_wrt_iff_nth_less)
  then show "js ! m < length es \<and> fst (es ! (js ! m)) = 0"
    using all first nth_mem [OF m(2)] by fastforce
qed

lemma GetRestartPoint_layout:
  assumes "layout es js" and "over es js it" and "i < length js"
  shows "GetRestartPoint it (word_of_nat i) = Some (word_of_nat (offs es (js ! i)))"
proof -
  have "drop (4 * i) (trailer es js) = EncodeFixed32 True (word_of_nat (offs es (js ! i))) @
      concat (map (\<lambda>j. EncodeFixed32 True (word_of_nat (offs es j))) (drop (Suc i) js)) @
      EncodeFixed32 True (word_of_nat (length js))"
    using assms(3) by (simp add: trailer_def drop_concat_const length_concat_const)
  moreover have "i \<le> uint32_max" using layout_bounds(2) [OF assms(1)] assms(3) by simp
  ultimately show ?thesis
    using assms(2) layout_bounds(1) [OF assms(1)]
    by (simp add: GetRestartPoint_def over_def block_bytes_def codec_simps mult.commute)
qed

lemma over_update [simp]:
  "over es js (it\<lparr>it_current := c\<rparr>) = over es js it"
  "over es js (it\<lparr>it_restart_index := i\<rparr>) = over es js it"
  "over es js (it\<lparr>it_key := k\<rparr>) = over es js it"
  "over es js (it\<lparr>it_value := v\<rparr>) = over es js it"
  by (simp_all add: over_def)

lemma advance_restart_layout:
  assumes "layout es js" and "over es js it"
  shows "\<exists>i. advance_restart it = Some (it\<lparr>it_restart_index := i\<rparr>)"
  using assms(2)
proof (induction it rule: advance_restart.induct)
  case (1 it)
  show ?case
  proof (cases "it_restart_index it + 1 < it_num_restarts it")
    case True
    then have "unat (it_restart_index it + 1) < length js"
      using "1.prems" layout_bounds(2) [OF assms(1)] by (simp add: over_def word_less_nat_alt)
    then have r: "GetRestartPoint it (it_restart_index it + 1) = Some (word_of_nat (offs es (js ! unat (it_restart_index it + 1))))"
      using GetRestartPoint_layout [OF assms(1) "1.prems"] by (metis word_of_nat_unat)
    show ?thesis
    proof (cases "word_of_nat (offs es (js ! unat (it_restart_index it + 1))) < it_current it")
      case lt: True
      obtain i where "advance_restart (it\<lparr>it_restart_index := it_restart_index it + 1\<rparr>) =
          Some (it\<lparr>it_restart_index := i\<rparr>)"
        using "1.IH" [OF True r lt] "1.prems" by auto
      then show ?thesis using True r lt by (simp add: advance_restart.simps [of it]) blast
    next
      case False
      then show ?thesis using True r
        by (intro exI [of _ "it_restart_index it"]) (simp add: advance_restart.simps [of it])
    qed
  next
    case False
    then show ?thesis
      by (intro exI [of _ "it_restart_index it"]) (simp add: advance_restart.simps [of it])
  qed
qed

lemma ParseNextKey_ready:
  assumes lay: "layout es js" and rdy: "ready es js it j"
  shows "\<exists>it'. ParseNextKey it = Some (j < length es, it') \<and> positioned es js it' j \<and>
    (j < length es \<longrightarrow> ready es js it' (Suc j))"
proof (cases "j < length es")
  case False
  then have "offs es j = length (enc es)" by simp
  then show ?thesis
    using False rdy layout_bounds [OF lay]
    by (auto simp: ParseNextKey_def ready_def positioned_def over_def Let_def)
next
  case True
  obtain sh k v where e: "es ! j = (sh, k, v)" by (cases "es ! j") auto
  have ov: "over es js it" and off: "NextEntryOffset it = Some (word_of_nat (offs es j))"
    and rd: "sh \<le> length (it_key it)" "sh \<le> length k" "take sh (it_key it) = take sh k"
      "length k \<le> uint32_max" "length v \<le> uint32_max"
    using rdy True e by (auto simp: ready_def)
  note bounds = layout_bounds [OF lay]
  have p: "offs es (Suc j) = offs es j + length (entry_bytes (sh, k, v))"
    using offs_Suc [OF True] e by simp
  define q where "q = offs es (Suc j) - length v - (length k - sh)"
  have q: "q + (length k - sh) + length v = offs es (Suc j)" "q = offs es j + length (entry_header (sh, k, v))"
    using p rd by (auto simp: q_def)
  have key: "take (length k - sh) (drop q (block_bytes es js)) = drop sh k"
  proof -
    have "drop q (block_bytes es js) = drop (length (entry_header (sh, k, v))) (drop (offs es j) (enc es @ trailer es js))"
      by (simp only: q(2) block_bytes_def drop_drop add.commute)
    also have "\<dots> = drop sh k @ v @ enc (drop (Suc j) es) @ trailer es js"
      by (simp only: drop_offs [OF True] e entry_bytes.simps append_assoc append_eq_conv_conj [THEN iffD1, OF refl, THEN conjunct2, symmetric])
    finally show ?thesis by simp
  qed
  have inside: "q + (length k - sh) \<le> length (block_bytes es js)"
    using q(1) offs_le [of es "Suc j"] by (simp add: block_bytes_def)
  define it1 where "it1 = it\<lparr>it_current := word_of_nat (offs es j), it_key := k,
     it_value := Some (q + (length k - sh), length v)\<rparr>"
  have "over es js it1" using ov by (simp add: it1_def)
  then obtain i where i: "advance_restart it1 = Some (it1\<lparr>it_restart_index := i\<rparr>)"
    using advance_restart_layout [OF lay] by blast
  have dec: "DecodeEntry (it_data it) (offs es j) (length (enc es)) =
      Some (q, word_of_nat sh, word_of_nat (length k - sh), word_of_nat (length v))"
    using DecodeEntry_enc [OF True e rd(2,4,5) bounds(1)] ov
    by (simp add: over_def block_bytes_def q_def)
  have "ParseNextKey it = Some (True, it1\<lparr>it_restart_index := i\<rparr>)"
    using ov off dec rd bounds inside key i offs_less [OF True]
    unfolding it1_def by (simp add: ParseNextKey_def over_def Let_def del: of_nat_diff)
  moreover have "positioned es js (it1\<lparr>it_restart_index := i\<rparr>) j"
    using \<open>over es js it1\<close> True e q(1) by (simp add: positioned_def) (simp add: it1_def)
  moreover have "ready es js (it1\<lparr>it_restart_index := i\<rparr>) (Suc j)"
    using \<open>over es js it1\<close> True lay e q(1)
    by (simp add: ready_def layout_def entries_ok_def prev_key_def) (auto simp: it1_def NextEntryOffset_def simp del: of_nat_add of_nat_diff)
  ultimately show ?thesis using True by auto
qed


section \<open>The iterator refines a cursor\<close>

lemma SeekToRestartPoint_ready:
  assumes "layout es js" and "over es js it" and "i < length js"
  shows "\<exists>it'. SeekToRestartPoint it (word_of_nat i) = Some it' \<and> ready es js it' (js ! i)"
proof -
  have "js ! i < length es \<and> fst (es ! (js ! i)) = 0 \<or> js ! i = 0 \<and> es = []"
    using assms(1,3) by (auto simp: layout_def restarts_ok_def)
  then show ?thesis
    using assms GetRestartPoint_layout [OF assms] layout_bounds [OF assms(1)]
    by (cases "es ! (js ! i)")
      (auto simp: SeekToRestartPoint_def ready_def over_def NextEntryOffset_def layout_def entries_ok_def
        dest!: spec [of _ "js ! i"])
qed

lemma Iter_Next_positioned:
  assumes "layout es js" and "positioned es js it j" and "j < length es"
  shows "\<exists>it'. Iter_Next it = Some it' \<and> positioned es js it' (Suc j)"
proof -
  have "ready es js it (Suc j)"
    using assms offs_Suc [of j es] by (cases "es ! j")
      (auto simp: ready_def positioned_def NextEntryOffset_def layout_def entries_ok_def prev_key_def
        dest!: spec [of _ "Suc j"])
  then show ?thesis using ParseNextKey_ready [OF assms(1)] unfolding Iter_Next_def by fastforce
qed

lemma Iter_SeekToFirst_positioned:
  assumes "layout es js" and "over es js it"
  shows "\<exists>it'. Iter_SeekToFirst it = Some it' \<and> positioned es js it' 0"
proof -
  note js = layout_first [OF assms(1)]
  obtain it' where "SeekToRestartPoint it 0 = Some it'" "ready es js it' 0"
    using SeekToRestartPoint_ready [OF assms js(1)] js(2) by auto
  then show ?thesis using ParseNextKey_ready [OF assms(1)] by (fastforce simp: Iter_SeekToFirst_def)
qed

text \<open>The position of the first key that is not before the target.\<close>

definition first_ge :: "(bytes \<times> bytes) list \<Rightarrow> bytes \<Rightarrow> nat" where
  "first_ge kvs target = length (takeWhile (\<lambda>(k, v). compare k target < 0) kvs)"

definition strictly_sorted :: "(bytes \<times> bytes) list \<Rightarrow> bool" where
  "strictly_sorted kvs \<longleftrightarrow> sorted_wrt (\<lambda>a b. compare (fst a) (fst b) < 0) kvs"

lemma first_ge_le: "first_ge kvs t \<le> length kvs"
  by (simp add: first_ge_def length_takeWhile_le)

lemma first_ge_before: "i < first_ge kvs t \<Longrightarrow> compare (fst (kvs ! i)) t < 0"
  unfolding first_ge_def by (metis (no_types, lifting) case_prod_beta nth_mem set_takeWhileD takeWhile_nth)

lemma first_ge_at: "first_ge kvs t < length kvs \<Longrightarrow> 0 \<le> compare (fst (kvs ! first_ge kvs t)) t"
  unfolding first_ge_def using nth_length_takeWhile by (fastforce simp: case_prod_beta)

lemma first_geI:
  assumes "j \<le> length kvs" and "\<And>i. i < j \<Longrightarrow> compare (fst (kvs ! i)) t < 0"
    and "j < length kvs \<Longrightarrow> 0 \<le> compare (fst (kvs ! j)) t"
  shows "first_ge kvs t = j"
proof (rule linorder_cases [of "first_ge kvs t" j])
  assume "first_ge kvs t < j"
  then show ?thesis using assms(1,2) first_ge_at [of kvs t] by fastforce
next
  assume "j < first_ge kvs t"
  then show ?thesis using assms(3) first_ge_before [of j kvs t] first_ge_le [of kvs t] by fastforce
qed

lemma sorted_keys_less:
  "strictly_sorted kvs \<Longrightarrow> i < j \<Longrightarrow> j < length kvs \<Longrightarrow> compare (fst (kvs ! i)) (fst (kvs ! j)) < 0"
  by (simp add: strictly_sorted_def sorted_wrt_iff_nth_less)

definition kvs_of :: "entry list \<Rightarrow> (bytes \<times> bytes) list" where
  "kvs_of es = map snd es"

lemma kvs_of_simps [simp]: "length (kvs_of es) = length es" "j < length es \<Longrightarrow> kvs_of es ! j = snd (es ! j)"
  by (simp_all add: kvs_of_def)

text \<open>The linear search, from an entry before which every key is smaller.\<close>

lemma seek_linear_positioned:
  assumes "layout es js" and "ready es js it j"
    and "\<And>i. i < j \<Longrightarrow> compare (fst (kvs_of es ! i)) t < 0"
  shows "\<exists>it'. seek_linear it t = Some it' \<and> positioned es js it' (first_ge (kvs_of es) t)"
  using assms(2,3)
proof (induction "length es - j" arbitrary: it j)
  case 0
  then have "j = length es" by (simp add: ready_def)
  then have "first_ge (kvs_of es) t = j" using 0 by (intro first_geI) auto
  then show ?case using ParseNextKey_ready [OF assms(1) "0.prems"(1)] \<open>j = length es\<close>
    by (subst seek_linear.simps) auto
next
  case (Suc n)
  then have j: "j < length es" by simp
  obtain it' where it': "ParseNextKey it = Some (True, it')" "positioned es js it' j" "ready es js it' (Suc j)"
    using ParseNextKey_ready [OF assms(1) Suc.prems(1)] j by auto
  have key: "it_key it' = fst (kvs_of es ! j)" using it'(2) j by (simp add: positioned_def)
  show ?case
  proof (cases "compare (it_key it') t \<ge> 0")
    case True
    then have "first_ge (kvs_of es) t = j" using Suc.prems(2) j key by (intro first_geI) auto
    then show ?thesis using it' True by (subst seek_linear.simps) auto
  next
    case False
    then have "\<And>i. i < Suc j \<Longrightarrow> compare (fst (kvs_of es ! i)) t < 0"
      using Suc.prems(2) key by (auto simp: less_Suc_eq)
    then have "\<exists>it''. seek_linear it' t = Some it'' \<and> positioned es js it'' (first_ge (kvs_of es) t)"
      using Suc.hyps(2) j by (intro Suc.hyps(1) [OF _ it'(3)]) auto
    then show ?thesis using it' False by (subst seek_linear.simps) auto
  qed
qed

text \<open>The key of a restart entry, as the binary search reads it.\<close>

lemma entry_key_bytes:
  assumes "j < length es" and "es ! j = (sh, k, v)" and "sh \<le> length k"
  shows "take (length k - sh) (drop (offs es (Suc j) - length v - (length k - sh)) (block_bytes es js)) = drop sh k"
    and "offs es (Suc j) - length v - (length k - sh) + (length k - sh) \<le> length (block_bytes es js)"
proof -
  let ?q = "offs es (Suc j) - length v - (length k - sh)"
  have q: "?q = offs es j + length (entry_header (sh, k, v))"
    using offs_Suc [OF assms(1)] assms(2,3) by simp
  have "drop ?q (block_bytes es js) = drop (length (entry_header (sh, k, v))) (drop (offs es j) (enc es @ trailer es js))"
    by (simp only: q block_bytes_def drop_drop add.commute)
  also have "\<dots> = drop sh k @ v @ enc (drop (Suc j) es) @ trailer es js"
    by (simp only: drop_offs [OF assms(1)] assms(2) entry_bytes.simps append_assoc append_eq_conv_conj [THEN iffD1, OF refl, THEN conjunct2, symmetric])
  finally show "take (length k - sh) (drop ?q (block_bytes es js)) = drop sh k" by simp
  have "?q + (length k - sh) \<le> offs es (Suc j)" using q offs_Suc [OF assms(1)] assms(2,3) by simp
  then show "?q + (length k - sh) \<le> length (block_bytes es js)"
    using offs_le [of es "Suc j"] by (simp add: block_bytes_def)
qed

lemma word_mid:
  assumes "l + r + 1 \<le> uint32_max"
  shows "((word_of_nat l :: uint32) + word_of_nat r + 1) div 2 = word_of_nat ((l + r + 1) div 2)"
proof -
  have "(word_of_nat l :: uint32) + word_of_nat r + 1 = word_of_nat (l + r + 1)" by simp
  then have "unat ((word_of_nat l :: uint32) + word_of_nat r + 1) = l + r + 1"
    using assms unat_le_uint32 by metis
  then have "unat (((word_of_nat l :: uint32) + word_of_nat r + 1) div 2) = (l + r + 1) div 2"
    by (simp add: unat_div)
  then show ?thesis by (metis word_of_nat_unat)
qed

lemma seek_bsearch_finds:
  assumes lay: "layout es js" and ov: "over es js it" and sorted: "strictly_sorted (kvs_of es)"
  shows "l \<le> r \<Longrightarrow> r < length js \<Longrightarrow> (\<forall>i < js ! l. compare (fst (kvs_of es ! i)) t < 0) \<Longrightarrow>
    \<exists>m < length js. seek_bsearch it t (word_of_nat l) (word_of_nat r) = Some (Some (word_of_nat m)) \<and>
      (\<forall>i < js ! m. compare (fst (kvs_of es ! i)) t < 0)"
proof (induction "r - l" arbitrary: l r rule: less_induct)
  case less
  have b: "4 * length js \<le> uint32_max" using layout_bounds(4) [OF lay] by linarith
  then have lr: "(word_of_nat l :: uint32) < word_of_nat r \<longleftrightarrow> l < r"
    using less.prems by (intro uint32_less_iff) auto
  show ?case
  proof (cases "l < r")
    case False
    then show ?thesis using less.prems lr by (subst seek_bsearch.simps) auto
  next
    case True
    define m where "m = (l + r + 1) div 2"
    have m: "l < m" "m \<le> r" "m < length js" "m \<le> uint32_max"
      using True less.prems(2) b by (auto simp: m_def)
    have mid: "((word_of_nat l :: uint32) + word_of_nat r + 1) div 2 = word_of_nat m"
      unfolding m_def using True less.prems(2) b by (intro word_mid) auto
    have jm: "js ! m < length es" "fst (es ! (js ! m)) = 0"
      using layout_first(3) [OF lay, of m] m(1,3) by auto
    then obtain k v where e: "es ! (js ! m) = (0, k, v)" by (cases "es ! (js ! m)") auto
    have kv: "length k \<le> uint32_max" "length v \<le> uint32_max"
      using lay jm(1) e by (auto simp: layout_def entries_ok_def dest!: spec [of _ "js ! m"])
    define p where "p = offs es (Suc (js ! m)) - length v - (length k - 0)"
    have dec: "DecodeEntry (it_data it) (offs es (js ! m)) (length (enc es)) =
        Some (p, 0, word_of_nat (length k), word_of_nat (length v))"
      using DecodeEntry_enc [OF jm(1) e _ kv layout_bounds(1) [OF lay]] ov
      by (simp add: over_def block_bytes_def p_def)
    have key: "take (length k) (drop p (it_data it)) = k" "\<not> length (it_data it) < p + length k"
      using entry_key_bytes [OF jm(1) e, of js] ov by (simp_all add: over_def p_def)
    have pt: "GetRestartPoint it (word_of_nat m) = Some (word_of_nat (offs es (js ! m)))"
      by (rule GetRestartPoint_layout [OF lay ov m(3)])
    have unfold: "seek_bsearch it t (word_of_nat l) (word_of_nat r) =
      (if compare k t < 0 then seek_bsearch it t (word_of_nat m) (word_of_nat r)
       else seek_bsearch it t (word_of_nat l) (word_of_nat (m - 1)))"
      using True lr dec key ov kv layout_bounds [OF lay] m(1) pt
      by (subst seek_bsearch.simps) (simp add: mid over_def Let_def)
    show ?thesis
    proof (cases "compare k t < 0")
      case lt: True
      have "\<forall>i < js ! m. compare (fst (kvs_of es ! i)) t < 0"
        using sorted_keys_less [OF sorted, of _ "js ! m"] jm(1) e lt
        by (auto intro: compare_less_trans)
      then show ?thesis unfolding unfold using lt less.hyps [of r m] less.prems(2) m True by auto
    next
      case False
      then show ?thesis unfolding unfold using less.hyps [of "m - 1" l] less.prems m by auto
    qed
  qed
qed

lemma Iter_Seek_positioned:
  assumes "layout es js" and "over es js it" and "strictly_sorted (kvs_of es)"
  shows "\<exists>it'. Iter_Seek it t = Some it' \<and> positioned es js it' (first_ge (kvs_of es) t)"
proof -
  note js = layout_first [OF assms(1)]
  have "it_num_restarts it - 1 = word_of_nat (length js - 1)"
    using assms(2) js(1) by (cases "length js") (simp_all add: over_def)
  then obtain m where m: "m < length js" "\<forall>i < js ! m. compare (fst (kvs_of es ! i)) t < 0"
    "seek_bsearch it t 0 (it_num_restarts it - 1) = Some (Some (word_of_nat m))"
    using seek_bsearch_finds [OF assms, of 0 "length js - 1" t] js by auto
  obtain it' where "SeekToRestartPoint it (word_of_nat m) = Some it'" "ready es js it' (js ! m)"
    using SeekToRestartPoint_ready [OF assms(1,2) m(1)] by auto
  then show ?thesis
    using seek_linear_positioned [OF assms(1), of it' "js ! m" t] m(2,3) by (auto simp: Iter_Seek_def)
qed


section \<open>The builder writes such a layout\<close>

text \<open>
  \<open>built b es js\<close>: the builder has written the entries \<open>es\<close> with restart points at
  the entries \<open>js\<close>, and holds the last key.
\<close>

definition built :: "block_builder \<Rightarrow> entry list \<Rightarrow> nat list \<Rightarrow> bool" where
  "built b es js \<longleftrightarrow>
     bb_buffer b = enc es \<and> bb_restarts b = map (\<lambda>j. word_of_nat (offs es j)) js \<and>
     bb_last_key b = prev_key es (length es) \<and> (es = [] \<longrightarrow> bb_counter b = 0) \<and>
     entries_ok es \<and> restarts_ok es js"

lemma shared_loop_prefix:
  "shared \<le> m \<Longrightarrow> m \<le> length a \<Longrightarrow> m \<le> length b \<Longrightarrow> take shared a = take shared b \<Longrightarrow>
    shared_loop a b m shared \<le> m \<and> take (shared_loop a b m shared) a = take (shared_loop a b m shared) b"
proof (induction a b m shared rule: shared_loop.induct)
  case (1 a b m s)
  show ?case
  proof (cases "s < m \<and> a ! s = b ! s")
    case True
    then have "take (s + 1) a = take (s + 1) b" using "1.prems" by (simp add: take_Suc_conv_app_nth)
    then show ?thesis using 1 True by (simp add: shared_loop.simps [of a b m s])
  next
    case False
    then show ?thesis using "1.prems" by (auto simp: shared_loop.simps [of a b m s])
  qed
qed

lemma built_init: "built BlockBuilder [] [0]" "built (bb_Reset b) [] [0]"
  by (simp_all add: built_def BlockBuilder_def bb_Reset_def prev_key_def entries_ok_def restarts_ok_def)

lemma offs_append: "j \<le> length es \<Longrightarrow> offs (es @ es') j = offs es j"
  by (simp add: offs_def)

lemma prev_key_snoc: "prev_key (es @ [(sh, k, v)]) (length (es @ [(sh, k, v)])) = k"
  by (simp add: prev_key_def)

lemma entries_ok_snoc:
  "entries_ok es \<Longrightarrow> readable (prev_key es (length es)) e \<Longrightarrow> entries_ok (es @ [e])"
  by (auto simp: entries_ok_def prev_key_def nth_append less_Suc_eq split: if_splits)

lemma restarts_ok_cong:
  assumes "restarts_ok es js" and "es = [] \<longrightarrow> fst e = 0"
  shows "restarts_ok (es @ [e]) js"
  using assms by (force simp: restarts_ok_def nth_append)

lemma restarts_ok_push:
  assumes "restarts_ok es js" and "es \<noteq> []" and "fst e = 0"
  shows "restarts_ok (es @ [e]) (js @ [length es])"
proof -
  have "\<forall>j\<in>set js. j < length es" using assms(1,2) by (auto simp: restarts_ok_def)
  then show ?thesis
    using assms by (auto simp: restarts_ok_def nth_append sorted_wrt_append)
qed

lemma map_offs_append:
  assumes "restarts_ok es js"
  shows "map (\<lambda>j. word_of_nat (offs (es @ [e]) j) :: uint32) js = map (\<lambda>j. word_of_nat (offs es j)) js"
  using assms by (auto simp: restarts_ok_def offs_append)

lemma bb_Add_built:
  assumes "built b es js" and "1 \<le> block_restart_interval opts" and "length (enc es) \<le> uint32_max"
    and "length k \<le> uint32_max" and "length v \<le> uint32_max"
  shows "\<exists>b' sh js'. bb_Add opts b k v = Some b' \<and> built b' (es @ [(sh, k, v)]) js' \<and>
    bb_finished b' = bb_finished b \<and> length js' \<le> Suc (length js)"
proof (cases "bb_counter b < block_restart_interval opts")
  case True
  define sh where "sh = shared_loop (bb_last_key b) k (min (length (bb_last_key b)) (length k)) 0"
  have sh: "sh \<le> length (bb_last_key b)" "sh \<le> length k" "take sh (bb_last_key b) = take sh k"
    using shared_loop_prefix [of 0 "min (length (bb_last_key b)) (length k)" "bb_last_key b" k]
    by (auto simp: sh_def)
  have rd: "readable (prev_key es (length es)) (sh, k, v)"
    using sh assms by (simp add: built_def)
  have "es = [] \<longrightarrow> sh = 0" using sh(1) assms(1) by (auto simp: built_def prev_key_def)
  then have rs: "restarts_ok (es @ [(sh, k, v)]) js"
    using assms(1) by (auto simp: built_def intro: restarts_ok_cong)
  let ?b = "b\<lparr>bb_buffer := enc es @ entry_bytes (sh, k, v), bb_last_key := k, bb_counter := bb_counter b + 1\<rparr>"
  have "bb_Add opts b k v = Some ?b"
  proof -
    have "take sh (bb_last_key b) @ drop sh k = k" using sh(3) by simp
    moreover have "sh \<le> uint32_max" "length k - sh \<le> uint32_max" using sh(2) assms(4) by auto
    moreover have "bb_buffer b = enc es" using assms(1) by (simp add: built_def)
    ultimately show ?thesis
      using True assms(2-5) by (simp add: bb_Add_def sh_def [symmetric] PutVarint32_def Let_def del: of_nat_diff)
  qed
  moreover have "built ?b (es @ [(sh, k, v)]) js"
    using assms(1) rd rs by (simp add: built_def prev_key_snoc [simplified] entries_ok_snoc map_offs_append)
  ultimately show ?thesis by fastforce
next
  case False
  then have ne: "es \<noteq> []" using assms(1,2) by (auto simp: built_def)
  have rd: "readable (prev_key es (length es)) (0, k, v)" using assms(4,5) by simp
  have rs: "restarts_ok (es @ [(0, k, v)]) (js @ [length es])"
    using assms(1) ne by (auto simp: built_def intro: restarts_ok_push)
  let ?b = "b\<lparr>bb_buffer := enc es @ entry_bytes (0, k, v), bb_last_key := k, bb_counter := 1,
    bb_restarts := bb_restarts b @ [word_of_nat (length (enc es))]\<rparr>"
  have "bb_Add opts b k v = Some ?b"
    using False assms by (simp add: bb_Add_def built_def PutVarint32_def Let_def)
  moreover have "built ?b (es @ [(0, k, v)]) (js @ [length es])"
    using assms(1) rd rs ne by (simp add: built_def prev_key_snoc [simplified] entries_ok_snoc map_offs_append offs_append)
  ultimately show ?thesis by fastforce
qed

lemma foldl_PutFixed32: "foldl (PutFixed32 True) buf ws = buf @ concat (map (EncodeFixed32 True) ws)"
  by (induction ws arbitrary: buf) (simp_all add: PutFixed32_def)

lemma bb_Finish_built:
  assumes "built b es js" and "length js \<le> uint32_max"
  shows "\<exists>b'. bb_Finish b = Some (b', block_bytes es js)"
proof -
  have "concat (map (EncodeFixed32 True) (map (\<lambda>j. word_of_nat (offs es j)) js)) =
      concat (map (\<lambda>j. EncodeFixed32 True (word_of_nat (offs es j))) js)"
    by (simp add: o_def)
  then show ?thesis
    using assms by (simp add: bb_Finish_def built_def foldl_PutFixed32 PutFixed32_def block_bytes_def trailer_def Let_def o_def)
qed

lemma CurrentSizeEstimate_built:
  "built b es js \<Longrightarrow> CurrentSizeEstimate b = length (block_bytes es js)"
  by (simp add: CurrentSizeEstimate_def built_def block_bytes_def length_trailer)

section \<open>Opening a block\<close>

lemma NewIterator_layout:
  assumes lay: "layout es js"
  shows "\<exists>b it. Block (block_bytes es js) = Some b \<and> NewIterator b = Some (BlockIter it) \<and> over es js it"
proof -
  note bounds = layout_bounds [OF lay]
  note js = layout_first(1) [OF lay]
  have len: "length (block_bytes es js) = length (enc es) + 4 * length js + 4"
    by (simp add: block_bytes_def length_trailer)
  have "drop (length (enc es) + 4 * length js) (block_bytes es js) = EncodeFixed32 True (word_of_nat (length js))"
    by (simp add: block_bytes_def trailer_def length_concat_const)
  then have n: "DecodeFixed32 True (drop (length (enc es) + 4 * length js) (block_bytes es js)) = Some (word_of_nat (length js))"
    by (metis append_Nil2 fixed_round_trips(2))
  have "unat (1 + word_of_nat (length js) :: uint32) = 1 + length js"
    using unat_le_uint32 [of "1 + length js"] bounds(4) by simp
  moreover have "(word_of_nat (length js) :: uint32) \<noteq> 0"
    using js bounds(2) by (metis unat_le_uint32 unat_0 less_irrefl)
  ultimately show ?thesis
    using n bounds by (simp add: Block_def NumRestarts_def NewIterator_def Let_def len over_def Iter_def)
qed

section \<open>The iterator interface\<close>

text \<open>
  The contract of \<^verbatim>\<open>lib/io/iterator.h\<close>: \<open>over kvs it\<close> says that the iterator runs
  over the entries \<open>kvs\<close>, \<open>at kvs it j\<close> that it stands at entry \<open>j\<close>, past the last
  one for \<open>length kvs\<close>.
\<close>

locale kv_iterator =
  fixes valid :: "'it \<Rightarrow> bool"
    and key :: "'it \<Rightarrow> bytes"
    and val :: "'it \<Rightarrow> bytes"
    and step :: "'it \<Rightarrow> 'it option"
    and seek :: "'it \<Rightarrow> bytes \<Rightarrow> 'it option"
    and seek_first :: "'it \<Rightarrow> 'it option"
    and st :: "'it \<Rightarrow> status"
    and over :: "(bytes \<times> bytes) list \<Rightarrow> 'it \<Rightarrow> bool"
    and at :: "(bytes \<times> bytes) list \<Rightarrow> 'it \<Rightarrow> nat \<Rightarrow> bool"
  assumes at_over: "at kvs it j \<Longrightarrow> over kvs it"
    and at_le: "at kvs it j \<Longrightarrow> j \<le> length kvs"
    and valid_iff: "at kvs it j \<Longrightarrow> valid it \<longleftrightarrow> j < length kvs"
    and entry: "at kvs it j \<Longrightarrow> j < length kvs \<Longrightarrow> (key it, val it) = kvs ! j"
    and over_ok: "over kvs it \<Longrightarrow> st it = OK"
    and seek_first_at: "over kvs it \<Longrightarrow> \<exists>it'. seek_first it = Some it' \<and> at kvs it' 0"
    and seek_at: "over kvs it \<Longrightarrow> strictly_sorted kvs \<Longrightarrow>
      \<exists>it'. seek it t = Some it' \<and> at kvs it' (first_ge kvs t)"
    and step_at: "at kvs it j \<Longrightarrow> j < length kvs \<Longrightarrow> \<exists>it'. step it = Some it' \<and> at kvs it' (Suc j)"

text \<open>The loop of every reader: while valid, take the entry and step.\<close>

partial_function (option) read_entries ::
  "('it \<Rightarrow> bool) \<Rightarrow> ('it \<Rightarrow> bytes) \<Rightarrow> ('it \<Rightarrow> bytes) \<Rightarrow> ('it \<Rightarrow> 'it option) \<Rightarrow> 'it \<Rightarrow>
   (bytes \<times> bytes) list option" where
  [code]: "read_entries valid key val step it =
     (if valid it
      then Option.bind (step it) (\<lambda>it'.
        Option.bind (read_entries valid key val step it') (\<lambda>r. Some ((key it, val it) # r)))
      else Some [])"

lemma first_ge_dropWhile:
  "drop (first_ge kvs t) kvs = dropWhile (\<lambda>(k, v). compare k t < 0) kvs"
  by (simp add: first_ge_def dropWhile_eq_drop)

lemma map_of_first_ge:
  assumes "strictly_sorted kvs"
  shows "map_of kvs k =
    (if first_ge kvs k < length kvs \<and> fst (kvs ! first_ge kvs k) = k
     then Some (snd (kvs ! first_ge kvs k)) else None)"
  using assms
proof (induction kvs)
  case (Cons kv kvs)
  obtain k' v' where kv: "kv = (k', v')" by (cases kv)
  have s: "strictly_sorted kvs" and less: "\<forall>x \<in> set kvs. compare k' (fst x) < 0"
    using Cons.prems kv by (auto simp: strictly_sorted_def)
  consider "compare k' k < 0" | "k' = k" | "0 < compare k' k"
    by (metis compare_eq_0_iff linorder_neqE_linordered_idom)
  then show ?case
  proof cases
    case 1
    then have "first_ge (kv # kvs) k = Suc (first_ge kvs k)" "k' \<noteq> k" by (auto simp: first_ge_def kv)
    then show ?thesis using Cons.IH [OF s] by (simp add: kv)
  next
    case 2
    then show ?thesis by (simp add: first_ge_def kv)
  next
    case 3
    have "k \<noteq> fst x" if "x \<in> set kvs" for x
      using less that 3 compare_antisym [of k' k] by auto
    then have "map_of kvs k = None" by (force simp: map_of_eq_None_iff)
    moreover have "k' \<noteq> k" using 3 by auto
    ultimately show ?thesis using 3 by (simp add: first_ge_def kv)
  qed
qed (simp add: first_ge_def)

context kv_iterator
begin

lemma read_entries_at: "at kvs it j \<Longrightarrow> read_entries valid key val step it = Some (drop j kvs)"
proof (induction "length kvs - j" arbitrary: it j)
  case 0
  then have "\<not> valid it" using valid_iff by fastforce
  then show ?case using 0 by (subst read_entries.simps) simp
next
  case (Suc n)
  then have j: "j < length kvs" by simp
  obtain it' where it': "step it = Some it'" "at kvs it' (Suc j)" using step_at [OF Suc.prems j] by blast
  have "read_entries valid key val step it' = Some (drop (Suc j) kvs)"
    using Suc.hyps(2) by (intro Suc.hyps(1) [OF _ it'(2)]) simp
  then show ?case
    using it'(1) valid_iff [OF Suc.prems] entry [OF Suc.prems j] j
    by (subst read_entries.simps) (simp add: Cons_nth_drop_Suc)
qed

lemma read_all:
  "over kvs it \<Longrightarrow> \<exists>it'. seek_first it = Some it' \<and> read_entries valid key val step it' = Some kvs"
  using seek_first_at [of kvs it] read_entries_at by fastforce

lemma read_from:
  "over kvs it \<Longrightarrow> strictly_sorted kvs \<Longrightarrow>
     \<exists>it'. seek it t = Some it' \<and>
       read_entries valid key val step it' = Some (dropWhile (\<lambda>(k, v). compare k t < 0) kvs)"
  using seek_at [of kvs it t] read_entries_at by (fastforce simp: first_ge_dropWhile)

lemma lookup:
  assumes "over kvs it" and "strictly_sorted kvs"
  shows "\<exists>it'. seek it k = Some it' \<and> at kvs it' (first_ge kvs k) \<and> over kvs it' \<and>
    (if valid it' \<and> key it' = k then Some (val it') else None) = map_of kvs k"
proof -
  obtain it' where it': "seek it k = Some it'" "at kvs it' (first_ge kvs k)"
    using seek_at [OF assms] by blast
  then show ?thesis
    using valid_iff [OF it'(2)] entry [OF it'(2)] at_over [OF it'(2)] map_of_first_ge [OF assms(2), of k]
    by (cases "kvs ! first_ge kvs k") auto
qed

end

text \<open>\<^verbatim>\<open>Block::Iter\<close> over the block the builder wrote keeps that contract.\<close>

definition iter_over :: "(bytes \<times> bytes) list \<Rightarrow> block_iter \<Rightarrow> bool" where
  "iter_over kvs it \<longleftrightarrow> (\<exists>es js. layout es js \<and> kvs = kvs_of es \<and> over es js it)"

definition iter_at :: "(bytes \<times> bytes) list \<Rightarrow> block_iter \<Rightarrow> nat \<Rightarrow> bool" where
  "iter_at kvs it j \<longleftrightarrow> (\<exists>es js. layout es js \<and> kvs = kvs_of es \<and> positioned es js it j)"

lemma positioned_over: "positioned es js it j \<Longrightarrow> over es js it"
  by (simp add: positioned_def)

lemma positioned_entry:
  assumes "layout es js" and "positioned es js it j" and "j < length es"
  shows "Iter_Valid it" and "(it_key it, Iter_value it) = snd (es ! j)"
proof -
  note b = layout_bounds [OF assms(1)]
  show "Iter_Valid it"
    using assms(2,3) b offs_less [OF assms(3)] by (simp add: positioned_def over_def Iter_Valid_def uint32_less_iff)
  obtain sh k v where e: "es ! j = (sh, k, v)" by (cases "es ! j") auto
  have off: "offs es (Suc j) = offs es j + length (entry_bytes (sh, k, v))" using offs_Suc [OF assms(3)] e by simp
  have "drop (offs es (Suc j) - length v) (block_bytes es js) =
      drop (length (entry_header (sh, k, v) @ drop sh k)) (drop (offs es j) (enc es @ trailer es js))"
  proof -
    have "offs es (Suc j) - length v = length (entry_header (sh, k, v) @ drop sh k) + offs es j"
      unfolding off by simp
    then show ?thesis by (simp only: block_bytes_def drop_drop)
  qed
  also have "\<dots> = v @ enc (drop (Suc j) es) @ trailer es js"
    unfolding drop_offs [OF assms(3)] e by simp
  finally show "(it_key it, Iter_value it) = snd (es ! j)"
    using assms(2,3) e by (simp add: positioned_def over_def Iter_value_def)
qed

interpretation block_iterator: kv_iterator Iter_Valid it_key Iter_value Iter_Next Iter_Seek Iter_SeekToFirst it_status
  iter_over iter_at
proof unfold_locales
  fix kvs it j t
  show "iter_at kvs it j \<Longrightarrow> iter_over kvs it"
    by (auto simp: iter_at_def iter_over_def dest: positioned_over)
  show "iter_at kvs it j \<Longrightarrow> j \<le> length kvs"
    by (auto simp: iter_at_def positioned_def)
  show "iter_at kvs it j \<Longrightarrow> Iter_Valid it \<longleftrightarrow> j < length kvs"
  proof -
    assume "iter_at kvs it j"
    then obtain es js where e: "layout es js" "kvs = kvs_of es" "positioned es js it j" by (auto simp: iter_at_def)
    show ?thesis
    proof (cases "j < length es")
      case True
      then show ?thesis using positioned_entry(1) [OF e(1,3)] e(2) by simp
    next
      case False
      then show ?thesis using e by (simp add: positioned_def Iter_Valid_def)
    qed
  qed
  show "iter_at kvs it j \<Longrightarrow> j < length kvs \<Longrightarrow> (it_key it, Iter_value it) = kvs ! j"
    by (auto simp: iter_at_def positioned_entry(2))
  show "iter_over kvs it \<Longrightarrow> it_status it = OK"
    by (auto simp: iter_over_def over_def)
  show "iter_over kvs it \<Longrightarrow> \<exists>it'. Iter_SeekToFirst it = Some it' \<and> iter_at kvs it' 0"
    unfolding iter_over_def iter_at_def using Iter_SeekToFirst_positioned by blast
  show "iter_over kvs it \<Longrightarrow> strictly_sorted kvs \<Longrightarrow>
      \<exists>it'. Iter_Seek it t = Some it' \<and> iter_at kvs it' (first_ge kvs t)"
    unfolding iter_over_def iter_at_def using Iter_Seek_positioned by blast
  show "iter_at kvs it j \<Longrightarrow> j < length kvs \<Longrightarrow> \<exists>it'. Iter_Next it = Some it' \<and> iter_at kvs it' (Suc j)"
    unfolding iter_at_def using Iter_Next_positioned by fastforce
qed

text \<open>The virtual interface: a block iterator behind it, or the empty iterator.\<close>

fun it_over :: "(bytes \<times> bytes) list \<Rightarrow> iterator \<Rightarrow> bool" where
  "it_over kvs (EmptyIterator s) \<longleftrightarrow> kvs = [] \<and> s = OK"
| "it_over kvs (BlockIter it) \<longleftrightarrow> iter_over kvs it"

fun it_at :: "(bytes \<times> bytes) list \<Rightarrow> iterator \<Rightarrow> nat \<Rightarrow> bool" where
  "it_at kvs (EmptyIterator s) j \<longleftrightarrow> kvs = [] \<and> s = OK \<and> j = 0"
| "it_at kvs (BlockIter it) j \<longleftrightarrow> iter_at kvs it j"

interpretation iterators: kv_iterator Valid iter_key iter_value Next Seek SeekToFirst iter_status it_over it_at
proof unfold_locales
  fix kvs it j t
  show "it_at kvs it j \<Longrightarrow> it_over kvs it"
    by (cases it) (auto dest: block_iterator.at_over)
  show "it_at kvs it j \<Longrightarrow> j \<le> length kvs"
    by (cases it) (auto dest: block_iterator.at_le)
  show "it_at kvs it j \<Longrightarrow> Valid it \<longleftrightarrow> j < length kvs"
    by (cases it) (auto simp: block_iterator.valid_iff)
  show "it_at kvs it j \<Longrightarrow> j < length kvs \<Longrightarrow> (iter_key it, iter_value it) = kvs ! j"
    by (cases it) (auto simp: block_iterator.entry)
  show "it_over kvs it \<Longrightarrow> iter_status it = OK"
    by (cases it) (auto dest: block_iterator.over_ok)
  show "it_over kvs it \<Longrightarrow> \<exists>it'. SeekToFirst it = Some it' \<and> it_at kvs it' 0"
    by (cases it) (auto dest: block_iterator.seek_first_at)
  show "it_over kvs it \<Longrightarrow> strictly_sorted kvs \<Longrightarrow> \<exists>it'. Seek it t = Some it' \<and> it_at kvs it' (first_ge kvs t)"
    by (cases it) (auto simp: first_ge_def dest: block_iterator.seek_at [where t = t])
  show "it_at kvs it j \<Longrightarrow> j < length kvs \<Longrightarrow> \<exists>it'. Next it = Some it' \<and> it_at kvs it' (Suc j)"
    by (cases it) (auto dest: block_iterator.step_at)
qed


section \<open>Theorems\<close>

text \<open>Adding a list of entries to a builder and finishing it.\<close>

fun bb_AddAll :: "options \<Rightarrow> block_builder \<Rightarrow> (bytes \<times> bytes) list \<Rightarrow> block_builder option" where
  "bb_AddAll opts b [] = Some b"
| "bb_AddAll opts b ((k, v) # kvs) = Option.bind (bb_Add opts b k v) (\<lambda>b'. bb_AddAll opts b' kvs)"

text \<open>A bound on the bytes that entries and restart points take.\<close>

definition kvs_bytes :: "(bytes \<times> bytes) list \<Rightarrow> nat" where
  "kvs_bytes kvs = (\<Sum>(k, v) \<leftarrow> kvs. length k + length v + 19)"

lemma kvs_bytes_simps [simp]:
  "kvs_bytes [] = 0" "kvs_bytes ((k, v) # kvs) = length k + length v + 19 + kvs_bytes kvs"
  "kvs_bytes (kvs @ kvs') = kvs_bytes kvs + kvs_bytes kvs'"
  by (simp_all add: kvs_bytes_def)

lemma entry_bytes_bound: "length (entry_bytes (sh, k, v)) \<le> length k + length v + 15"
  using leb128_length_32 [of "word_of_nat sh"] leb128_length_32 [of "word_of_nat (length k - sh)"]
    leb128_length_32 [of "word_of_nat (length v)"]
  by (simp add: EncodeVarint32_leb128)

lemma enc_bound: "length (enc es) + 4 * length es \<le> kvs_bytes (kvs_of es)"
proof (induction es)
  case (Cons e es)
  obtain sh k v where e: "e = (sh, k, v)" by (cases e)
  show ?case
    using entry_bytes_bound [of sh k v] Cons.IH by (simp add: e kvs_of_def del: entry_bytes.simps)
qed (simp add: kvs_of_def)

lemma restarts_ok_length: "restarts_ok es js \<Longrightarrow> length js \<le> length es + 1"
proof -
  assume "restarts_ok es js"
  then have "sorted_wrt (<) js" "\<forall>j \<in> set js. j < length es + 1" by (auto simp: restarts_ok_def)
  then have "distinct js" "set js \<subseteq> {..<length es + 1}" by (auto simp: strict_sorted_iff)
  then show ?thesis using card_mono [of "{..<length es + 1}" "set js"] by (simp add: distinct_card)
qed

lemma built_layout:
  assumes "built b es js" and "kvs_bytes (kvs_of es) + 8 \<le> uint32_max"
  shows "layout es js"
  using assms enc_bound [of es] restarts_ok_length [of es js]
  by (auto simp: layout_def built_def block_bytes_def length_trailer)

lemma bb_AddAll_built:
  assumes "1 \<le> block_restart_interval opts"
  shows "built b es js \<Longrightarrow> kvs_bytes (kvs_of es) + kvs_bytes kvs + 8 \<le> uint32_max \<Longrightarrow>
    \<exists>b' es' js'. bb_AddAll opts b kvs = Some b' \<and> built b' es' js' \<and> kvs_of es' = kvs_of es @ kvs"
proof (induction kvs arbitrary: b es js)
  case (Cons kv kvs)
  obtain k v where kv: "kv = (k, v)" by (cases kv)
  have "length (enc es) \<le> uint32_max" "length k \<le> uint32_max" "length v \<le> uint32_max"
    using Cons.prems(2) enc_bound [of es] by (auto simp: kv)
  then obtain b' sh js' where b': "bb_Add opts b k v = Some b'" "built b' (es @ [(sh, k, v)]) js'"
    using bb_Add_built [OF Cons.prems(1) assms, of k v] by blast
  then show ?case
    using Cons.IH [OF b'(2)] Cons.prems(2) by (fastforce simp: kv kvs_of_def)
next
  case Nil
  then show ?case by auto
qed

lemma block_built:
  assumes "1 \<le> block_restart_interval opts" and "kvs_bytes kvs + 8 \<le> uint32_max"
  shows "\<exists>b b' raw blk it. bb_AddAll opts BlockBuilder kvs = Some b \<and> bb_Finish b = Some (b', raw) \<and>
    Block raw = Some blk \<and> NewIterator blk = Some it \<and> it_over kvs it"
proof -
  obtain b es js where b: "bb_AddAll opts BlockBuilder kvs = Some b" "built b es js" "kvs_of es = kvs"
    using bb_AddAll_built [OF assms(1) built_init(1), of kvs] assms(2) by (auto simp: kvs_of_def)
  then have lay: "layout es js" using built_layout assms(2) by blast
  obtain b' where "bb_Finish b = Some (b', block_bytes es js)"
    using bb_Finish_built [OF b(2) layout_bounds(2) [OF lay]] by blast
  moreover obtain blk it where "Block (block_bytes es js) = Some blk" "NewIterator blk = Some (BlockIter it)" "over es js it"
    using NewIterator_layout [OF lay] by blast
  ultimately show ?thesis using b(1,3) lay by (fastforce simp: iter_over_def)
qed





text \<open>
  The length check of \<^verbatim>\<open>DecodeEntry\<close> adds the key and value lengths in 32 bits: an
  entry whose two lengths sum to 2^32 passes it whatever the block holds, and the first
  \<^verbatim>\<open>SeekToFirst\<close> on a block with such an entry copies the key from beyond the end of
  the block. The block itself opens without error.
\<close>

theorem block_entry_wraps:
  fixes n m :: uint32
  assumes "raw = EncodeVarint32 0 @ EncodeVarint32 n @ EncodeVarint32 m @ rest @
      EncodeFixed32 True 0 @ EncodeFixed32 True 1"
    and "n + m = 0" and "length rest + 8 < unat n" and "length rest + 23 \<le> uint32_max"
  shows "\<exists>blk it. Block raw = Some blk \<and> NewIterator blk = Some (BlockIter it) \<and> Iter_SeekToFirst it = None"
proof -
  define body where "body = EncodeVarint32 0 @ EncodeVarint32 n @ EncodeVarint32 m @ rest"
  have raw: "raw = body @ EncodeFixed32 True 0 @ EncodeFixed32 True 1" by (simp add: body_def assms(1))
  have "length (EncodeVarint32 x) \<le> 5" for x
    using leb128_length_32 [of x] by (simp add: EncodeVarint32_leb128)
  from this [of 0] this [of n] this [of m]
  have small: "length body \<le> length rest + 15" by (simp add: body_def)
  have one: "1 \<le> length (EncodeVarint32 x)" for x using EncodeVarint32_length_pos [of x] by linarith
  have ge: "length rest \<le> length body" by (simp add: body_def)
  have three: "3 \<le> length body"
    using one [of 0] one [of n] one [of m] by (simp add: body_def)
  have slow: "slow_entry body = Some (0, n, m, rest)"
    by (simp add: slow_entry_def body_def GetVarint32_Encode)
  have dec: "DecodeEntry raw 0 (length body) = Some (length body - length rest, 0, n, m)"
    using three assms(2) by (simp add: DecodeEntry_eq raw slow)
  have n: "DecodeFixed32 True (drop (4 + length body) raw) = Some 1"
    using fixed_round_trips(2) [of True True 1 "[]"] by (simp add: raw)
  have r: "DecodeFixed32 True (drop (length body) raw) = Some 0"
    using fixed_round_trips(2) [of True True 0 "EncodeFixed32 True 1"] by (simp add: raw)
  have len: "length raw = 8 + length body" by (simp add: raw)
  define it where "it = Iter raw (word_of_nat (length body)) 1"
  let ?blk = "\<lparr>blk_data = raw, blk_size = length raw, restart_offset = word_of_nat (length body)\<rparr>"
  have open_block: "Block raw = Some ?blk" "NewIterator ?blk = Some (BlockIter it)"
    using n by (simp_all add: Block_def NewIterator_def NumRestarts_def len it_def Let_def add.commute)
  have "body \<noteq> []" "8 + length body < length body + unat n - length rest"
    using three assms(3) ge by auto
  moreover have "length body \<le> uint32_max" using small assms(4) by linarith
  ultimately have "Iter_SeekToFirst it = None"
    using r dec len ge
    by (simp add: Iter_SeekToFirst_def SeekToRestartPoint_def GetRestartPoint_def it_def Iter_def ParseNextKey_def
        NextEntryOffset_def Let_def)
  with open_block show ?thesis by blast
qed

theorem block_entry_wraps_witness:
  "\<exists>blk it. Block (EncodeVarint32 0 @ EncodeVarint32 0xffffffff @ EncodeVarint32 1 @ [7] @
      EncodeFixed32 True 0 @ EncodeFixed32 True 1) = Some blk \<and>
     NewIterator blk = Some (BlockIter it) \<and> Iter_SeekToFirst it = None"
  by (rule block_entry_wraps [OF refl]) (simp_all add: uint32_max_def)

end
