(* ===== verification/TF_TwoLevel.thy ===== *)
theory TF_TwoLevel
  imports TF_Block
begin

text \<open>
  \<^verbatim>\<open>lib/io/two_level_iterator.cc\<close>: an iterator over the concatenation of data blocks,
  driven by an iterator over an index block whose values name them. The function that opens
  a block is the parameter \<open>block_function\<close>, as it is in the code. The development proves
  that it keeps the iterator contract \<open>kv_iterator\<close> over the concatenated entries.
\<close>

section \<open>Operations\<close>

record two_level =
  tl_status :: status
  tl_index_iter :: iterator
  tl_data_iter :: "iterator option"
  tl_data_block_handle :: bytes

definition NewTwoLevelIterator :: "iterator \<Rightarrow> two_level" where
  "NewTwoLevelIterator index_iter =
     \<lparr>tl_status = OK, tl_index_iter = index_iter, tl_data_iter = None, tl_data_block_handle = []\<rparr>"

definition TL_Valid :: "two_level \<Rightarrow> bool" where
  "TL_Valid t \<longleftrightarrow> (case tl_data_iter t of None \<Rightarrow> False | Some d \<Rightarrow> Valid d)"

text \<open>With a null data iterator the accessors dereference null; they require \<open>TL_Valid\<close>.\<close>

definition TL_key :: "two_level \<Rightarrow> bytes" where
  "TL_key t = (case tl_data_iter t of None \<Rightarrow> [] | Some d \<Rightarrow> iter_key d)"

definition TL_value :: "two_level \<Rightarrow> bytes" where
  "TL_value t = (case tl_data_iter t of None \<Rightarrow> [] | Some d \<Rightarrow> iter_value d)"

definition TL_status :: "two_level \<Rightarrow> status" where
  "TL_status t =
     (if \<not> status_ok (iter_status (tl_index_iter t)) then iter_status (tl_index_iter t)
      else
        (case tl_data_iter t of
           Some d \<Rightarrow> if \<not> status_ok (iter_status d) then iter_status d else tl_status t
         | None \<Rightarrow> tl_status t))"

definition SaveError :: "two_level \<Rightarrow> status \<Rightarrow> two_level" where
  "SaveError t s = (if status_ok (tl_status t) \<and> \<not> status_ok s then t\<lparr>tl_status := s\<rparr> else t)"

definition SetDataIterator :: "two_level \<Rightarrow> iterator option \<Rightarrow> two_level" where
  "SetDataIterator t data_iter =
     (let t = (case tl_data_iter t of None \<Rightarrow> t | Some d \<Rightarrow> SaveError t (iter_status d))
      in t\<lparr>tl_data_iter := data_iter\<rparr>)"

definition InitDataBlock :: "(bytes \<Rightarrow> iterator option) \<Rightarrow> two_level \<Rightarrow> two_level option" where
  "InitDataBlock block_function t =
     (if \<not> Valid (tl_index_iter t) then Some (SetDataIterator t None)
      else
        let handle = iter_value (tl_index_iter t)
        in if tl_data_iter t \<noteq> None \<and> compare handle (tl_data_block_handle t) = 0 then Some t
           else do {
             iter \<leftarrow> block_function handle;
             let t = t\<lparr>tl_data_block_handle := handle\<rparr>;
             Some (SetDataIterator t (Some iter))
           })"

definition data_SeekToFirst :: "two_level \<Rightarrow> two_level option" where
  "data_SeekToFirst t =
     (case tl_data_iter t of
        None \<Rightarrow> Some t
      | Some d \<Rightarrow> do { d \<leftarrow> SeekToFirst d; Some (t\<lparr>tl_data_iter := Some d\<rparr>) })"

partial_function (option) SkipEmptyDataBlocksForward ::
  "(bytes \<Rightarrow> iterator option) \<Rightarrow> two_level \<Rightarrow> two_level option" where
  [code]: "SkipEmptyDataBlocksForward block_function t =
     (if \<not> TL_Valid t then
        (if \<not> Valid (tl_index_iter t) then Some (SetDataIterator t None)
         else
           Option.bind (Next (tl_index_iter t)) (\<lambda>index_iter.
             Option.bind (InitDataBlock block_function (t\<lparr>tl_index_iter := index_iter\<rparr>)) (\<lambda>t.
               Option.bind (data_SeekToFirst t) (\<lambda>t.
                 SkipEmptyDataBlocksForward block_function t))))
      else Some t)"

definition TL_Seek :: "(bytes \<Rightarrow> iterator option) \<Rightarrow> two_level \<Rightarrow> bytes \<Rightarrow> two_level option" where
  "TL_Seek block_function t target =
     do {
       index_iter \<leftarrow> Seek (tl_index_iter t) target;
       t \<leftarrow> InitDataBlock block_function (t\<lparr>tl_index_iter := index_iter\<rparr>);
       t \<leftarrow> (case tl_data_iter t of
                None \<Rightarrow> Some t
              | Some d \<Rightarrow> do { d \<leftarrow> Seek d target; Some (t\<lparr>tl_data_iter := Some d\<rparr>) });
       SkipEmptyDataBlocksForward block_function t
     }"

definition TL_SeekToFirst :: "(bytes \<Rightarrow> iterator option) \<Rightarrow> two_level \<Rightarrow> two_level option" where
  "TL_SeekToFirst block_function t =
     do {
       index_iter \<leftarrow> SeekToFirst (tl_index_iter t);
       t \<leftarrow> InitDataBlock block_function (t\<lparr>tl_index_iter := index_iter\<rparr>);
       t \<leftarrow> data_SeekToFirst t;
       SkipEmptyDataBlocksForward block_function t
     }"

definition TL_Next :: "(bytes \<Rightarrow> iterator option) \<Rightarrow> two_level \<Rightarrow> two_level option" where
  "TL_Next block_function t =
     (case tl_data_iter t of
        None \<Rightarrow> None
      | Some d \<Rightarrow>
          do {
            d \<leftarrow> Next d;
            SkipEmptyDataBlocksForward block_function (t\<lparr>tl_data_iter := Some d\<rparr>)
          })"

section \<open>An index with its data blocks\<close>

text \<open>
  \<open>indexed bf ix bs\<close>: opening the value of the \<open>i\<close>-th index entry gives an iterator over
  the \<open>i\<close>-th block; blocks are not empty; and an index key is at or past every key of its
  block and before every key of the next.
\<close>

definition block_source :: "(bytes \<Rightarrow> iterator option) \<Rightarrow> (bytes \<times> bytes) list \<Rightarrow> (bytes \<times> bytes) list list \<Rightarrow> bool" where
  "block_source bf ix bs \<longleftrightarrow>
     length ix = length bs \<and>
     (\<forall>i < length bs. bs ! i \<noteq> [] \<and> (\<exists>it. bf (snd (ix ! i)) = Some it \<and> it_over (bs ! i) it))"

definition separated :: "(bytes \<times> bytes) list \<Rightarrow> (bytes \<times> bytes) list list \<Rightarrow> bool" where
  "separated ix bs \<longleftrightarrow>
     (\<forall>i < length bs. \<forall>kv \<in> set (bs ! i). compare (fst kv) (fst (ix ! i)) \<le> 0) \<and>
     (\<forall>i < length bs. \<forall>j < length bs. i < j \<longrightarrow> (\<forall>kv \<in> set (bs ! j). compare (fst (ix ! i)) (fst kv) < 0))"

definition start_of :: "'a list list \<Rightarrow> nat \<Rightarrow> nat" where
  "start_of bs i = length (concat (take i bs))"

lemma start_of_simps [simp]: "start_of bs 0 = 0" "length bs \<le> i \<Longrightarrow> start_of bs i = length (concat bs)"
  by (simp_all add: start_of_def)

lemma start_of_Suc: "i < length bs \<Longrightarrow> start_of bs (Suc i) = start_of bs i + length (bs ! i)"
  by (simp add: start_of_def take_Suc_conv_app_nth)

lemma concat_split: "i < length bs \<Longrightarrow> concat bs = concat (take i bs) @ bs ! i @ concat (drop (Suc i) bs)"
  by (metis concat.simps(2) concat_append id_take_nth_drop)

lemma nth_concat_start_of:
  assumes "i < length bs" and "m < length (bs ! i)"
  shows "start_of bs i + m < length (concat bs)" "concat bs ! (start_of bs i + m) = bs ! i ! m"
proof -
  note e = concat_split [OF assms(1)]
  show "start_of bs i + m < length (concat bs)" using assms(2) by (simp add: start_of_def e [THEN arg_cong [where f = length]])
  show "concat bs ! (start_of bs i + m) = bs ! i ! m"
    unfolding e start_of_def using assms(2) by (simp add: nth_append)
qed

lemma set_concat_before: "i \<le> length bs \<Longrightarrow> n < start_of bs i \<Longrightarrow> \<exists>i' < i. concat bs ! n \<in> set (bs ! i')"
proof -
  assume "i \<le> length bs" "n < start_of bs i"
  then have "concat bs ! n = concat (take i bs) ! n"
    by (metis append_take_drop_id concat_append nth_append start_of_def)
  then have "concat bs ! n \<in> set (concat (take i bs))"
    using \<open>n < start_of bs i\<close> nth_mem [of n "concat (take i bs)"] by (simp add: start_of_def)
  then obtain b where "b \<in> set (take i bs)" "concat bs ! n \<in> set b" by auto
  then show ?thesis by (metis in_set_conv_nth length_take min_less_iff_conj nth_take)
qed

text \<open>The contract: \<open>tl_over\<close> and \<open>tl_at\<close>.\<close>

definition tl_wf :: "(bytes \<Rightarrow> iterator option) \<Rightarrow> (bytes \<times> bytes) list \<Rightarrow> (bytes \<times> bytes) list list \<Rightarrow> two_level \<Rightarrow> bool" where
  "tl_wf bf ix bs t \<longleftrightarrow>
     block_source bf ix bs \<and> separated ix bs \<and>
     it_over ix (tl_index_iter t) \<and> tl_status t = OK \<and>
     (\<forall>d. tl_data_iter t = Some d \<longrightarrow> iter_status d = OK \<and>
        (\<forall>i < length bs. snd (ix ! i) = tl_data_block_handle t \<longrightarrow> it_over (bs ! i) d))"

definition tl_pos :: "(bytes \<Rightarrow> iterator option) \<Rightarrow> (bytes \<times> bytes) list \<Rightarrow> (bytes \<times> bytes) list list \<Rightarrow> two_level \<Rightarrow> nat \<Rightarrow> bool" where
  "tl_pos bf ix bs t j \<longleftrightarrow>
     tl_wf bf ix bs t \<and>
     ((\<exists>i d m. i < length bs \<and> it_at ix (tl_index_iter t) i \<and> tl_data_iter t = Some d \<and>
         tl_data_block_handle t = snd (ix ! i) \<and> it_at (bs ! i) d m \<and> m < length (bs ! i) \<and> j = start_of bs i + m) \<or>
      it_at ix (tl_index_iter t) (length ix) \<and> tl_data_iter t = None \<and> j = length (concat bs))"

definition tl_over :: "(bytes \<Rightarrow> iterator option) \<Rightarrow> (bytes \<times> bytes) list \<Rightarrow> two_level \<Rightarrow> bool" where
  "tl_over bf kvs t \<longleftrightarrow> (\<exists>ix bs. kvs = concat bs \<and> tl_wf bf ix bs t)"

definition tl_at :: "(bytes \<Rightarrow> iterator option) \<Rightarrow> (bytes \<times> bytes) list \<Rightarrow> two_level \<Rightarrow> nat \<Rightarrow> bool" where
  "tl_at bf kvs t j \<longleftrightarrow> (\<exists>ix bs. kvs = concat bs \<and> tl_pos bf ix bs t j)"

text \<open>Moving the index and opening its block.\<close>

lemma SetDataIterator_ok:
  assumes "tl_wf bf ix bs t"
  shows "SetDataIterator t d = t\<lparr>tl_data_iter := d\<rparr>"
  using assms by (auto simp: SetDataIterator_def SaveError_def tl_wf_def split: option.splits)

lemma InitDataBlock_end:
  assumes "tl_wf bf ix bs t" and "it_at ix idx (length ix)"
  shows "InitDataBlock bf (t\<lparr>tl_index_iter := idx\<rparr>) = Some (t\<lparr>tl_index_iter := idx, tl_data_iter := None\<rparr>)"
proof -
  have "\<not> Valid idx" using iterators.valid_iff [OF assms(2)] by simp
  moreover have "tl_wf bf ix bs (t\<lparr>tl_index_iter := idx\<rparr>)"
    using assms iterators.at_over [OF assms(2)] by (simp add: tl_wf_def)
  ultimately show ?thesis by (simp add: InitDataBlock_def SetDataIterator_ok)
qed

lemma InitDataBlock_at:
  assumes wf: "tl_wf bf ix bs t" and idx: "it_at ix idx i" and i: "i < length bs"
  shows "\<exists>t' d. InitDataBlock bf (t\<lparr>tl_index_iter := idx\<rparr>) = Some t' \<and> tl_wf bf ix bs t' \<and>
    tl_index_iter t' = idx \<and> tl_data_iter t' = Some d \<and> tl_data_block_handle t' = snd (ix ! i) \<and> it_over (bs ! i) d"
proof -
  let ?t = "t\<lparr>tl_index_iter := idx\<rparr>"
  have len: "length ix = length bs" and src: "bs ! i \<noteq> []"
    and open_it: "\<exists>it. bf (snd (ix ! i)) = Some it \<and> it_over (bs ! i) it"
    using wf i by (auto simp: tl_wf_def block_source_def)
  have v: "Valid idx" "iter_value idx = snd (ix ! i)"
    using iterators.valid_iff [OF idx] iterators.entry [OF idx] i len by (auto simp: prod_eq_iff)
  have wf1: "tl_wf bf ix bs ?t" using wf iterators.at_over [OF idx] by (simp add: tl_wf_def)
  show ?thesis
  proof (cases "tl_data_iter t \<noteq> None \<and> snd (ix ! i) = tl_data_block_handle t")
    case True
    then obtain d where d: "tl_data_iter t = Some d" by blast
    then have "it_over (bs ! i) d" using wf i True by (auto simp: tl_wf_def)
    then show ?thesis using True d v wf1 by (auto simp: InitDataBlock_def Let_def)
  next
    case False
    obtain it where it: "bf (snd (ix ! i)) = Some it" "it_over (bs ! i) it" using open_it by blast
    let ?t' = "?t\<lparr>tl_data_block_handle := snd (ix ! i), tl_data_iter := Some it\<rparr>"
    have "InitDataBlock bf ?t = Some (SetDataIterator (?t\<lparr>tl_data_block_handle := snd (ix ! i)\<rparr>) (Some it))"
      using False v it(1) by (auto simp: InitDataBlock_def Let_def)
    moreover have "SetDataIterator (?t\<lparr>tl_data_block_handle := snd (ix ! i)\<rparr>) (Some it) = ?t'"
      using wf by (auto simp: SetDataIterator_def SaveError_def tl_wf_def split: option.splits)
    moreover have "it_over (bs ! i') it" if "i' < length bs" "snd (ix ! i') = snd (ix ! i)" for i'
      using wf that it(1) by (auto simp: tl_wf_def block_source_def)
    then have "tl_wf bf ix bs ?t'"
      using wf1 iterators.over_ok [OF it(2)] by (simp add: tl_wf_def)
    ultimately show ?thesis using it(2) by auto
  qed
qed

text \<open>The data iterator may be moved within its block.\<close>

lemma it_over_unique: "it_over kvs it \<Longrightarrow> it_over kvs' it \<Longrightarrow> kvs = kvs'"
  using iterators.read_all [of kvs it] iterators.read_all [of kvs' it] by auto

lemma tl_wf_move:
  assumes "tl_wf bf ix bs t" and "tl_data_block_handle t = snd (ix ! i)" and "i < length bs" and "it_over (bs ! i) d"
  shows "tl_wf bf ix bs (t\<lparr>tl_data_iter := Some d\<rparr>)"
proof -
  have "bs ! i' = bs ! i" if i': "i' < length bs" "snd (ix ! i') = snd (ix ! i)" for i'
  proof -
    have src: "\<And>n. n < length bs \<Longrightarrow> \<exists>it. bf (snd (ix ! n)) = Some it \<and> it_over (bs ! n) it"
      using assms(1) by (simp add: tl_wf_def block_source_def)
    obtain it it' where "bf (snd (ix ! i)) = Some it" "it_over (bs ! i) it" "bf (snd (ix ! i')) = Some it'" "it_over (bs ! i') it'"
      using src [OF assms(3)] src [OF i'(1)] by auto
    then show ?thesis using i'(2) by (auto intro: it_over_unique)
  qed
  then have "\<forall>i' < length bs. snd (ix ! i') = tl_data_block_handle t \<longrightarrow> it_over (bs ! i') d"
    using assms(2,4) by metis
  then show ?thesis
    using assms(1) iterators.over_ok [OF assms(4)] by (simp add: tl_wf_def)
qed

lemma tl_pos_at:
  assumes "tl_wf bf ix bs t" "it_at ix (tl_index_iter t) i" "i < length bs" "tl_data_iter t = Some d"
    "tl_data_block_handle t = snd (ix ! i)" "it_at (bs ! i) d m" "m < length (bs ! i)" "j = start_of bs i + m"
  shows "tl_pos bf ix bs t j"
  using assms unfolding tl_pos_def by blast

text \<open>From the end of a block, the skip loop stops at the start of the next one or at the end.\<close>

lemma Skip_valid:
  assumes "tl_data_iter t = Some d" and "it_at b d m" and "m < length b"
  shows "SkipEmptyDataBlocksForward bf t = Some t"
proof -
  have "TL_Valid t" using assms iterators.valid_iff [OF assms(2)] by (simp add: TL_Valid_def)
  then show ?thesis by (subst SkipEmptyDataBlocksForward.simps) simp
qed

lemma Skip_end:
  assumes "tl_wf bf ix bs t" and "it_at ix (tl_index_iter t) (length ix)" and "tl_data_iter t = None"
  shows "SkipEmptyDataBlocksForward bf t = Some t"
proof -
  have "\<not> Valid (tl_index_iter t)" using iterators.valid_iff [OF assms(2)] by simp
  then show ?thesis
    using assms by (subst SkipEmptyDataBlocksForward.simps) (simp add: TL_Valid_def SetDataIterator_ok)
qed

text \<open>Opening block \<open>i\<close>, or the end, and standing at its first entry.\<close>

lemma open_first:
  assumes wf: "tl_wf bf ix bs t" and idx: "it_at ix idx i"
  shows "\<exists>t1 t'. InitDataBlock bf (t\<lparr>tl_index_iter := idx\<rparr>) = Some t1 \<and> data_SeekToFirst t1 = Some t' \<and>
    SkipEmptyDataBlocksForward bf t' = Some t' \<and> tl_pos bf ix bs t' (start_of bs i)"
proof (cases "i < length bs")
  case True
  obtain t1 d where t1: "InitDataBlock bf (t\<lparr>tl_index_iter := idx\<rparr>) = Some t1" "tl_wf bf ix bs t1"
    "tl_index_iter t1 = idx" "tl_data_iter t1 = Some d" "tl_data_block_handle t1 = snd (ix ! i)" "it_over (bs ! i) d"
    using InitDataBlock_at [OF wf idx True] by blast
  obtain d' where d': "SeekToFirst d = Some d'" "it_at (bs ! i) d' 0" using iterators.seek_first_at [OF t1(6)] by blast
  have ne: "0 < length (bs ! i)" using wf True by (auto simp: tl_wf_def block_source_def)
  let ?t = "t1\<lparr>tl_data_iter := Some d'\<rparr>"
  have "data_SeekToFirst t1 = Some ?t" using t1(4) d'(1) by (simp add: data_SeekToFirst_def)
  moreover have "SkipEmptyDataBlocksForward bf ?t = Some ?t" using Skip_valid [OF _ d'(2) ne] by simp
  moreover have "tl_wf bf ix bs ?t" using tl_wf_move [OF t1(2,5) True] iterators.at_over [OF d'(2)] .
  then have "tl_pos bf ix bs ?t (start_of bs i)"
    using t1(3,5) idx d'(2) ne True by (intro tl_pos_at [where m = 0]) auto
  ultimately show ?thesis using t1(1) by blast
next
  case False
  have "i = length ix" "length ix = length bs"
    using iterators.at_le [OF idx] wf False by (auto simp: tl_wf_def block_source_def)
  then have idx': "it_at ix idx (length ix)" using idx by simp
  let ?t = "t\<lparr>tl_index_iter := idx, tl_data_iter := None\<rparr>"
  have "InitDataBlock bf (t\<lparr>tl_index_iter := idx\<rparr>) = Some ?t" by (rule InitDataBlock_end [OF wf idx'])
  moreover have "data_SeekToFirst ?t = Some ?t" by (simp add: data_SeekToFirst_def)
  moreover have wf': "tl_wf bf ix bs ?t" using wf iterators.at_over [OF idx'] by (simp add: tl_wf_def)
  moreover have "SkipEmptyDataBlocksForward bf ?t = Some ?t" using Skip_end [OF wf'] idx' by simp
  moreover have "tl_pos bf ix bs ?t (start_of bs i)"
    using wf' idx' False by (simp add: tl_pos_def)
  ultimately show ?thesis by blast
qed

lemma Skip_next:
  assumes wf: "tl_wf bf ix bs t" and i: "i < length bs" and idx: "it_at ix (tl_index_iter t) i"
    and d: "tl_data_iter t = Some d" "it_at (bs ! i) d (length (bs ! i))"
  shows "\<exists>t'. SkipEmptyDataBlocksForward bf t = Some t' \<and> tl_pos bf ix bs t' (start_of bs (Suc i))"
proof -
  have len: "i < length ix" using wf i by (simp add: tl_wf_def block_source_def)
  have v: "\<not> TL_Valid t" "Valid (tl_index_iter t)"
    using d iterators.valid_iff [OF d(2)] iterators.valid_iff [OF idx] len by (auto simp: TL_Valid_def)
  obtain idx' where idx': "Next (tl_index_iter t) = Some idx'" "it_at ix idx' (Suc i)"
    using iterators.step_at [OF idx len] by blast
  obtain t1 t' where "InitDataBlock bf (t\<lparr>tl_index_iter := idx'\<rparr>) = Some t1" "data_SeekToFirst t1 = Some t'"
    "SkipEmptyDataBlocksForward bf t' = Some t'" "tl_pos bf ix bs t' (start_of bs (Suc i))"
    using open_first [OF wf idx'(2)] by blast
  then show ?thesis using v idx'(1) by (subst SkipEmptyDataBlocksForward.simps) auto
qed

section \<open>It refines the iterator of the concatenation\<close>

lemma TL_Next_pos:
  assumes "tl_pos bf ix bs t j" and "j < length (concat bs)"
  shows "\<exists>t'. TL_Next bf t = Some t' \<and> tl_pos bf ix bs t' (Suc j)"
proof -
  obtain i d m where p: "tl_wf bf ix bs t" "i < length bs" "it_at ix (tl_index_iter t) i" "tl_data_iter t = Some d"
    "tl_data_block_handle t = snd (ix ! i)" "it_at (bs ! i) d m" "m < length (bs ! i)" "j = start_of bs i + m"
    using assms by (auto simp: tl_pos_def)
  obtain d' where d': "Next d = Some d'" "it_at (bs ! i) d' (Suc m)" using iterators.step_at [OF p(6,7)] by blast
  let ?t = "t\<lparr>tl_data_iter := Some d'\<rparr>"
  have wf: "tl_wf bf ix bs ?t" using tl_wf_move [OF p(1,5,2)] iterators.at_over [OF d'(2)] .
  have next_eq: "TL_Next bf t = SkipEmptyDataBlocksForward bf ?t" using p(4) d'(1) by (simp add: TL_Next_def)
  show ?thesis
  proof (cases "Suc m < length (bs ! i)")
    case True
    have "tl_pos bf ix bs ?t (Suc j)" using p d'(2) True wf by (intro tl_pos_at [of _ _ _ _ i d' "Suc m"]) auto
    then show ?thesis using Skip_valid [OF _ d'(2) True, of ?t bf] next_eq by auto
  next
    case False
    then have "Suc m = length (bs ! i)" "start_of bs (Suc i) = Suc j" using p by (auto simp: start_of_Suc)
    then show ?thesis using Skip_next [OF wf p(2)] p(3) d'(2) next_eq by simp
  qed
qed

lemma compare_less_le_trans: "compare a b < 0 \<Longrightarrow> compare b c \<le> 0 \<Longrightarrow> compare a c < 0"
  using compare_less_trans [of a b c] by (cases "compare b c = 0") auto

lemma compare_flip: "0 \<le> compare a b \<longleftrightarrow> compare b a \<le> 0"
  by (subst compare_antisym) simp

lemma first_ge_blocks:
  assumes sep: "separated ix bs" "length ix = length bs" and ne: "\<And>i. i < length bs \<Longrightarrow> bs ! i \<noteq> []"
    and i: "i = first_ge ix k" "i < length bs" and m: "m = first_ge (bs ! i) k"
  shows "first_ge (concat bs) k = start_of bs i + m"
proof (rule first_geI)
  have m_le: "m \<le> length (bs ! i)" unfolding m by (rule first_ge_le)
  have "start_of bs (Suc i) \<le> length (concat bs)"
    using nth_concat_start_of(1) [OF i(2), of "length (bs ! i) - 1"] ne [OF i(2)] i(2) by (simp add: start_of_Suc)
  then show "start_of bs i + m \<le> length (concat bs)" using m_le i(2) by (simp add: start_of_Suc)
  show "compare (fst (concat bs ! n)) k < 0" if n: "n < start_of bs i + m" for n
  proof (cases "n < start_of bs i")
    case True
    then obtain i' where i': "i' < i" "concat bs ! n \<in> set (bs ! i')"
      using set_concat_before [of i bs n] i(2) by auto
    then have "compare (fst (concat bs ! n)) (fst (ix ! i')) \<le> 0" using sep(1) i(2) by (auto simp: separated_def)
    then show ?thesis using first_ge_before [of i' ix k] i'(1) i(1) by (auto intro: compare_le_less_trans)
  next
    case False
    then obtain m' where n': "n = start_of bs i + m'" "m' < m" using n by (metis le_iff_add linorder_not_less nat_add_left_cancel_less)
    then show ?thesis using first_ge_before [of m' "bs ! i" k] nth_concat_start_of(2) [OF i(2), of m'] m m_le by simp
  qed
  show "0 \<le> compare (fst (concat bs ! (start_of bs i + m))) k" if j: "start_of bs i + m < length (concat bs)"
  proof (cases "m < length (bs ! i)")
    case True
    then show ?thesis using first_ge_at [of "bs ! i" k] nth_concat_start_of(2) [OF i(2) True] m by simp
  next
    case False
    then have e: "start_of bs i + m = start_of bs (Suc i)" using m_le i(2) by (simp add: start_of_Suc)
    have i': "Suc i < length bs"
    proof (rule ccontr)
      assume "\<not> Suc i < length bs"
      then have "start_of bs (Suc i) = length (concat bs)" by (intro start_of_simps(2)) simp
      then show False using j e by simp
    qed
    have "concat bs ! start_of bs (Suc i) = bs ! Suc i ! 0" "bs ! Suc i ! 0 \<in> set (bs ! Suc i)"
      using nth_concat_start_of(2) [OF i', of 0] ne [OF i'] by auto
    then have "compare (fst (ix ! i)) (fst (concat bs ! (start_of bs i + m))) < 0"
    proof -
      have "\<forall>kv \<in> set (bs ! Suc i). compare (fst (ix ! i)) (fst kv) < 0"
        using sep(1) i' i(2) unfolding separated_def by simp
      then show ?thesis
        using \<open>concat bs ! start_of bs (Suc i) = bs ! Suc i ! 0\<close> \<open>bs ! Suc i ! 0 \<in> set (bs ! Suc i)\<close> e by simp
    qed
    moreover have "0 \<le> compare (fst (ix ! i)) k" using first_ge_at [of ix k] i sep(2) by simp
    then have "compare k (fst (ix ! i)) \<le> 0" by (simp add: compare_flip)
    ultimately have "compare k (fst (concat bs ! (start_of bs i + m))) \<le> 0"
      using compare_le_less_trans order_less_imp_le by blast
    then show ?thesis by (simp add: compare_flip)
  qed
qed

lemma first_ge_past:
  assumes "separated ix bs" "length ix = length bs" "first_ge ix k = length ix"
  shows "first_ge (concat bs) k = length (concat bs)"
proof (rule first_geI)
  show "compare (fst (concat bs ! n)) k < 0" if n: "n < length (concat bs)" for n
  proof -
    obtain i where i: "i < length bs" "concat bs ! n \<in> set (bs ! i)"
      using set_concat_before [of "length bs" bs n] n by auto
    then have "compare (fst (concat bs ! n)) (fst (ix ! i)) \<le> 0" using assms(1) by (auto simp: separated_def)
    moreover have "compare (fst (ix ! i)) k < 0" using first_ge_before [of i ix k] i(1) assms by simp
    ultimately show ?thesis by (rule compare_le_less_trans)
  qed
qed simp_all

lemma separated_sorted:
  assumes "separated ix bs" "length ix = length bs" and ne: "\<And>i. i < length bs \<Longrightarrow> bs ! i \<noteq> []"
  shows "strictly_sorted ix"
  unfolding strictly_sorted_def sorted_wrt_iff_nth_less
proof (intro allI impI)
  fix i j assume ij: "i < j" "j < length ix"
  have kv: "hd (bs ! j) \<in> set (bs ! j)" using ne ij assms(2) by simp
  then have "compare (fst (ix ! i)) (fst (hd (bs ! j))) < 0" "compare (fst (hd (bs ! j))) (fst (ix ! j)) \<le> 0"
    using assms(1,2) ij unfolding separated_def by auto
  then show "compare (fst (ix ! i)) (fst (ix ! j)) < 0"
    by (rule compare_less_le_trans)
qed

lemma TL_Seek_pos:
  assumes wf: "tl_wf bf ix bs t" and sorted: "strictly_sorted (concat bs)"
  shows "\<exists>t'. TL_Seek bf t k = Some t' \<and> tl_pos bf ix bs t' (first_ge (concat bs) k)"
proof -
  have sep: "separated ix bs" and len: "length ix = length bs" and ne: "\<And>i. i < length bs \<Longrightarrow> bs ! i \<noteq> []"
    and ov: "it_over ix (tl_index_iter t)"
    using wf by (auto simp: tl_wf_def block_source_def)
  define i where "i = first_ge ix k"
  obtain idx where idx: "Seek (tl_index_iter t) k = Some idx" "it_at ix idx i"
    using iterators.seek_at [OF ov separated_sorted [OF sep len ne]] unfolding i_def by blast
  show ?thesis
  proof (cases "i < length bs")
    case False
    then have i: "i = length ix" using first_ge_le [of ix k] len by (simp add: i_def)
    have idx': "it_at ix idx (length ix)" using idx(2) i by simp
    let ?t = "t\<lparr>tl_index_iter := idx, tl_data_iter := None\<rparr>"
    have wf': "tl_wf bf ix bs ?t" using wf iterators.at_over [OF idx'] by (simp add: tl_wf_def)
    have "TL_Seek bf t k = Some ?t"
      using idx(1) InitDataBlock_end [OF wf idx'] Skip_end [OF wf'] idx' by (simp add: TL_Seek_def)
    moreover have "tl_pos bf ix bs ?t (first_ge (concat bs) k)"
      using wf' idx' first_ge_past [OF sep len] i by (simp add: tl_pos_def i_def)
    ultimately show ?thesis by blast
  next
    case True
    obtain t1 d where t1: "InitDataBlock bf (t\<lparr>tl_index_iter := idx\<rparr>) = Some t1" "tl_wf bf ix bs t1"
      "tl_index_iter t1 = idx" "tl_data_iter t1 = Some d" "tl_data_block_handle t1 = snd (ix ! i)" "it_over (bs ! i) d"
      using InitDataBlock_at [OF wf idx(2) True] by blast
    have "strictly_sorted (bs ! i)"
      using sorted unfolding concat_split [OF True] strictly_sorted_def by (simp add: sorted_wrt_append)
    then obtain d' where d': "Seek d k = Some d'" "it_at (bs ! i) d' (first_ge (bs ! i) k)"
      using iterators.seek_at [OF t1(6)] by blast
    let ?t = "t1\<lparr>tl_data_iter := Some d'\<rparr>" and ?m = "first_ge (bs ! i) k"
    have wf': "tl_wf bf ix bs ?t" using tl_wf_move [OF t1(2,5) True] iterators.at_over [OF d'(2)] .
    have seek: "TL_Seek bf t k = SkipEmptyDataBlocksForward bf ?t"
      using idx(1) t1(1,4) d'(1) by (simp add: TL_Seek_def)
    have j: "first_ge (concat bs) k = start_of bs i + ?m"
      by (rule first_ge_blocks [OF sep len ne i_def True refl])
    show ?thesis
    proof (cases "?m < length (bs ! i)")
      case m: True
      have "tl_pos bf ix bs ?t (first_ge (concat bs) k)"
        using wf' idx(2) t1(3,5) d'(2) m True j by (intro tl_pos_at [of _ _ _ _ i d' ?m]) auto
      then show ?thesis using Skip_valid [OF _ d'(2) m, of ?t bf] seek by auto
    next
      case False
      then have "?m = length (bs ! i)" using first_ge_le [of "bs ! i" k] by simp
      then show ?thesis
        using Skip_next [OF wf' True] idx(2) t1(3) d'(2) seek j True by (simp add: start_of_Suc)
    qed
  qed
qed

lemma tl_pos_valid:
  assumes "tl_pos bf ix bs t j"
  shows "TL_Valid t \<longleftrightarrow> j < length (concat bs)"
    and "j < length (concat bs) \<Longrightarrow> (TL_key t, TL_value t) = concat bs ! j"
proof -
  consider (inside) i d m where "i < length bs" "tl_data_iter t = Some d" "it_at (bs ! i) d m" "m < length (bs ! i)"
      "j = start_of bs i + m"
    | (past) "tl_data_iter t = None" "j = length (concat bs)"
    using assms by (auto simp: tl_pos_def)
  then have "(TL_Valid t \<longleftrightarrow> j < length (concat bs)) \<and>
      (j < length (concat bs) \<longrightarrow> (TL_key t, TL_value t) = concat bs ! j)"
  proof cases
    case inside
    then show ?thesis
      using nth_concat_start_of [OF inside(1,4)] iterators.valid_iff [OF inside(3)] iterators.entry [OF inside(3,4)]
      by (simp add: TL_Valid_def TL_key_def TL_value_def)
  qed (simp add: TL_Valid_def)
  then show "TL_Valid t \<longleftrightarrow> j < length (concat bs)"
    "j < length (concat bs) \<Longrightarrow> (TL_key t, TL_value t) = concat bs ! j" by blast+
qed


interpretation two_level: kv_iterator TL_Valid TL_key TL_value "TL_Next bf" "TL_Seek bf" "TL_SeekToFirst bf" TL_status
  "tl_over bf" "tl_at bf" for bf
proof unfold_locales
  fix kvs it j t
  show over: "tl_at bf kvs it j \<Longrightarrow> tl_over bf kvs it"
    by (auto simp: tl_at_def tl_over_def tl_pos_def)
  show "j \<le> length kvs" if at: "tl_at bf kvs it j"
    using at nth_concat_start_of(1) by (fastforce simp: tl_at_def tl_pos_def)
  show "tl_at bf kvs it j \<Longrightarrow> TL_Valid it \<longleftrightarrow> j < length kvs"
    using tl_pos_valid(1) unfolding tl_at_def by blast
  show "tl_at bf kvs it j \<Longrightarrow> j < length kvs \<Longrightarrow> (TL_key it, TL_value it) = kvs ! j"
    using tl_pos_valid(2) unfolding tl_at_def by blast
  show "tl_over bf kvs it \<Longrightarrow> TL_status it = OK"
    by (auto simp: tl_over_def tl_wf_def TL_status_def dest: iterators.over_ok split: option.splits)
  show "\<exists>it'. TL_SeekToFirst bf it = Some it' \<and> tl_at bf kvs it' 0" if ov: "tl_over bf kvs it"
  proof -
    obtain ix bs where kvs: "kvs = concat bs" and wf: "tl_wf bf ix bs it" using ov by (auto simp: tl_over_def)
    obtain idx where idx: "SeekToFirst (tl_index_iter it) = Some idx" "it_at ix idx 0"
      using iterators.seek_first_at wf unfolding tl_wf_def by blast
    then show ?thesis
      using open_first [OF wf idx(2)] kvs by (fastforce simp: TL_SeekToFirst_def tl_at_def)
  qed
  show "tl_over bf kvs it \<Longrightarrow> strictly_sorted kvs \<Longrightarrow> \<exists>it'. TL_Seek bf it t = Some it' \<and> tl_at bf kvs it' (first_ge kvs t)"
    using TL_Seek_pos unfolding tl_over_def tl_at_def by blast
  show "tl_at bf kvs it j \<Longrightarrow> j < length kvs \<Longrightarrow> \<exists>it'. TL_Next bf it = Some it' \<and> tl_at bf kvs it' (Suc j)"
    using TL_Next_pos unfolding tl_at_def by blast
qed

lemma NewTwoLevelIterator_over:
  "block_source bf ix bs \<Longrightarrow> separated ix bs \<Longrightarrow> it_over ix idx \<Longrightarrow> tl_over bf (concat bs) (NewTwoLevelIterator idx)"
  unfolding tl_over_def by (intro exI [of _ ix] exI [of _ bs]) (simp add: tl_wf_def NewTwoLevelIterator_def)

end
