(* ===== verification/TF_Table.thy ===== *)
theory TF_Table
  imports TF_TwoLevel TF_Crc32c
begin

text \<open>
  Sorted string tables: \<^verbatim>\<open>lib/io/format.cc\<close> (block handles, the footer, reading one
  block with its checksum), \<^verbatim>\<open>lib/io/table_builder.cc\<close>, \<^verbatim>\<open>lib/io/table.cc\<close> and
  \<^verbatim>\<open>lib/io/two_level_iterator.cc\<close>. The file being written is the bytes it holds with a
  parameter \<open>Append\<close>, the file being read a parameter \<open>Read\<close>, and the three entry points
  of the compression library are parameters too. \<open>None\<close> is a failed \<^verbatim>\<open>CHECK\<close>, a read
  outside a buffer or a loop that does not end.
\<close>

section \<open>Format\<close>

record BlockHandle =
  bh_offset :: uint64
  bh_size :: uint64

definition BlockHandle_init :: BlockHandle where
  "BlockHandle_init = \<lparr>bh_offset = - 1, bh_size = - 1\<rparr>"

definition kMaxEncodedLength :: nat where
  "kMaxEncodedLength = 10 + 10"

definition bh_EncodeTo :: "BlockHandle \<Rightarrow> bytes \<Rightarrow> bytes" where
  "bh_EncodeTo h dst = PutVarint64 (PutVarint64 dst (bh_offset h)) (bh_size h)"

definition bh_DecodeFrom :: "BlockHandle \<Rightarrow> bytes \<Rightarrow> status \<times> BlockHandle \<times> bytes" where
  "bh_DecodeFrom h input =
     (case GetVarint64 input of
        None \<Rightarrow> (Error DATA_LOSS ''bad block handle'', h, input)
      | Some (off, input) \<Rightarrow>
          (case GetVarint64 input of
             None \<Rightarrow> (Error DATA_LOSS ''bad block handle'', h\<lparr>bh_offset := off\<rparr>, input)
           | Some (sz, input) \<Rightarrow> (OK, \<lparr>bh_offset = off, bh_size = sz\<rparr>, input)))"

record Footer =
  metaindex_handle :: BlockHandle
  index_handle :: BlockHandle

definition kEncodedLength :: nat where
  "kEncodedLength = 2 * kMaxEncodedLength + 8"

definition kTableMagicNumber :: uint64 where
  "kTableMagicNumber = 0xdb4775248b80fb57"

definition kBlockTrailerSize :: uint64 where
  "kBlockTrailerSize = 5"

text \<open>\<^verbatim>\<open>std::string::resize\<close>.\<close>

definition resize :: "nat \<Rightarrow> bytes \<Rightarrow> bytes" where
  "resize n s = take n s @ replicate (n - length s) 0"

definition footer_EncodeTo :: "Footer \<Rightarrow> bytes \<Rightarrow> bytes" where
  "footer_EncodeTo f dst =
     (let dst = bh_EncodeTo (metaindex_handle f) dst;
          dst = bh_EncodeTo (index_handle f) dst;
          dst = resize (2 * kMaxEncodedLength) dst;
          dst = PutFixed32 True dst (ucast (kTableMagicNumber AND 0xffffffff))
      in PutFixed32 True dst (ucast (drop_bit 32 kTableMagicNumber)))"

definition footer_DecodeFrom :: "Footer \<Rightarrow> bytes \<Rightarrow> (status \<times> Footer \<times> bytes) option" where
  "footer_DecodeFrom f input =
     do {
       let magic_ptr = kEncodedLength - 8;
       magic_lo \<leftarrow> DecodeFixed32 True (drop magic_ptr input);
       magic_hi \<leftarrow> DecodeFixed32 True (drop (magic_ptr + 4) input);
       let magic = push_bit 32 (ucast magic_hi) OR ucast magic_lo;
       if magic \<noteq> kTableMagicNumber
       then Some (Error DATA_LOSS ''not an sstable (bad magic number)'', f, input)
       else
         let (result, h, rest) = bh_DecodeFrom (metaindex_handle f) input;
             f = f\<lparr>metaindex_handle := h\<rparr>
         in if \<not> status_ok result then Some (result, f, rest)
            else
              let (result, h, rest) = bh_DecodeFrom (index_handle f) rest;
                  f = f\<lparr>index_handle := h\<rparr>
              in if \<not> status_ok result then Some (result, f, rest)
                 else Some (result, f, drop (magic_ptr + 8) input)
     }"

record BlockContents =
  bc_data :: bytes
  bc_cachable :: bool
  bc_heap_allocated :: bool

text \<open>
  \<open>Read offset n\<close> returns the status, the bytes it read, and whether it put them into the
  scratch buffer. The two last parameters are the compression library. The size of a handle
  comes from the file, and \<open>n + kBlockTrailerSize\<close> wraps.
\<close>

type_synonym file_read = "uint64 \<Rightarrow> uint64 \<Rightarrow> status \<times> bytes \<times> bool"

definition ReadBlock ::
  "(bytes \<Rightarrow> nat option) \<Rightarrow> (bytes \<Rightarrow> bytes option) \<Rightarrow> file_read \<Rightarrow> BlockHandle \<Rightarrow>
   (status \<times> BlockContents) option" where
  "ReadBlock Snappy_GetUncompressedLength Snappy_Uncompress Read handle =
     (let result = \<lparr>bc_data = [], bc_cachable = False, bc_heap_allocated = False\<rparr>;
          n = bh_size handle;
          (s, contents, in_buf) = Read (bh_offset handle) (n + kBlockTrailerSize)
      in if \<not> status_ok s then Some (s, result)
         else if word_of_nat (length contents) \<noteq> n + kBlockTrailerSize
         then Some (Error DATA_LOSS ''truncated block read'', result)
         else if length contents < unat n + 5 then None
         else do {
           masked \<leftarrow> DecodeFixed32 True (drop (unat n + 1) contents);
           let crc = Unmask masked;
           let actual = crc32c_Value CanAccelerate_portable AcceleratedExtend_portable 0 (take (unat n + 1) contents);
           if actual \<noteq> crc then Some (Error DATA_LOSS ''block checksum mismatch'', result)
           else if contents ! unat n = 0 then
             (if \<not> in_buf
              then Some (OK, \<lparr>bc_data = take (unat n) contents, bc_cachable = False, bc_heap_allocated = False\<rparr>)
              else Some (OK, \<lparr>bc_data = take (unat n) contents, bc_cachable = True, bc_heap_allocated = True\<rparr>))
           else if contents ! unat n = 1 then
             (case Snappy_GetUncompressedLength (take (unat n) contents) of
                None \<Rightarrow> Some (Error DATA_LOSS ''corrupted compressed block contents'', result)
              | Some ulength \<Rightarrow>
                  (case Snappy_Uncompress (take (unat n) contents) of
                     None \<Rightarrow> Some (Error DATA_LOSS ''corrupted compressed block contents'', result)
                   | Some ubuf \<Rightarrow>
                       Some (OK, \<lparr>bc_data = take ulength ubuf, bc_cachable = True, bc_heap_allocated = True\<rparr>)))
           else Some (Error DATA_LOSS ''bad block type'', result)
         })"

section \<open>Table builder\<close>

definition FindShortestSeparator :: "bytes \<Rightarrow> bytes \<Rightarrow> bytes" where
  "FindShortestSeparator start limit =
     (let min_length = min (length start) (length limit);
          diff_index = shared_loop start limit min_length 0
      in if diff_index \<ge> min_length then start
         else
           let diff_byte = start ! diff_index
           in if diff_byte < 0xff \<and> unat diff_byte + 1 < unat (limit ! diff_index)
              then take (diff_index + 1) (start[diff_index := start ! diff_index + 1])
              else start)"

fun short_successor_loop :: "bytes \<Rightarrow> nat \<Rightarrow> bytes" where
  "short_successor_loop key 0 = key"
| "short_successor_loop key (Suc left) =
     (let i = length key - Suc left; byte = key ! i
      in if byte \<noteq> 0xff then take (i + 1) (key[i := byte + 1])
         else short_successor_loop key left)"

definition FindShortSuccessor :: "bytes \<Rightarrow> bytes" where
  "FindShortSuccessor key = short_successor_loop key (length key)"

record table_builder =
  tb_options :: options
  tb_index_options :: options
  tb_file :: bytes
  tb_offset :: uint64
  tb_status :: status
  tb_data_block :: block_builder
  tb_index_block :: block_builder
  tb_last_key :: bytes
  tb_num_entries :: uint64
  tb_closed :: bool
  tb_pending_index_entry :: bool
  tb_pending_handle :: BlockHandle

definition TableBuilder :: "options \<Rightarrow> bytes \<Rightarrow> table_builder" where
  "TableBuilder opts file =
     \<lparr>tb_options = opts, tb_index_options = opts\<lparr>block_restart_interval := 1\<rparr>, tb_file = file,
      tb_offset = 0, tb_status = OK, tb_data_block = BlockBuilder, tb_index_block = BlockBuilder,
      tb_last_key = [], tb_num_entries = 0, tb_closed = False, tb_pending_index_entry = False,
      tb_pending_handle = BlockHandle_init\<rparr>"

definition tb_ok :: "table_builder \<Rightarrow> bool" where
  "tb_ok r \<longleftrightarrow> status_ok (tb_status r)"

type_synonym file_append = "bytes \<Rightarrow> bytes \<Rightarrow> bytes \<times> status"

fun type_byte :: "CompressionType \<Rightarrow> byte" where
  "type_byte kNoCompression = 0"
| "type_byte kSnappyCompression = 1"

definition block_trailer :: "bytes \<Rightarrow> CompressionType \<Rightarrow> bytes" where
  "block_trailer block_contents type =
     (let crc = crc32c_Value CanAccelerate_portable AcceleratedExtend_portable 0 block_contents;
          crc = crc32c_Extend CanAccelerate_portable AcceleratedExtend_portable 0 crc [type_byte type]
      in type_byte type # EncodeFixed32 True (Mask crc))"

definition WriteRawBlock ::
  "file_append \<Rightarrow> table_builder \<Rightarrow> bytes \<Rightarrow> CompressionType \<Rightarrow> table_builder \<times> BlockHandle" where
  "WriteRawBlock Append r block_contents type =
     (let handle = \<lparr>bh_offset = tb_offset r, bh_size = word_of_nat (length block_contents)\<rparr>;
          (file, st) = Append (tb_file r) block_contents;
          r = r\<lparr>tb_file := file, tb_status := st\<rparr>
      in if status_ok st then
           let (file, st) = Append (tb_file r) (block_trailer block_contents type);
               r = r\<lparr>tb_file := file, tb_status := st\<rparr>
           in if status_ok st
              then (r\<lparr>tb_offset := tb_offset r + (word_of_nat (length block_contents) + kBlockTrailerSize)\<rparr>, handle)
              else (r, handle)
         else (r, handle))"

definition WriteBlock ::
  "file_append \<Rightarrow> (bytes \<Rightarrow> bytes option) \<Rightarrow> table_builder \<Rightarrow> block_builder \<Rightarrow>
   (table_builder \<times> block_builder \<times> BlockHandle) option" where
  "WriteBlock Append Snappy_Compress r blk =
     do {
       (blk, raw) \<leftarrow> bb_Finish blk;
       let (block_contents, type) =
         (case compression (tb_options r) of
            kNoCompression \<Rightarrow> (raw, kNoCompression)
          | kSnappyCompression \<Rightarrow>
              (case Snappy_Compress raw of
                 Some compressed \<Rightarrow>
                   if length compressed < length raw - length raw div 8
                   then (compressed, kSnappyCompression) else (raw, kNoCompression)
               | None \<Rightarrow> (raw, kNoCompression)));
       let (r, handle) = WriteRawBlock Append r block_contents type;
       Some (r, bb_Reset blk, handle)
     }"

definition Flush ::
  "file_append \<Rightarrow> (bytes \<Rightarrow> bytes option) \<Rightarrow> table_builder \<Rightarrow> table_builder option" where
  "Flush Append Snappy_Compress r =
     (if \<not> tb_ok r then Some r
      else if bb_empty (tb_data_block r) then Some r
      else do {
        (r, blk, handle) \<leftarrow> WriteBlock Append Snappy_Compress r (tb_data_block r);
        let r = r\<lparr>tb_data_block := blk, tb_pending_handle := handle\<rparr>;
        Some (if tb_ok r then r\<lparr>tb_pending_index_entry := True\<rparr> else r)
      })"

text \<open>The two places that add the pending index entry, under the key they computed.\<close>

definition add_index_entry :: "table_builder \<Rightarrow> bytes \<Rightarrow> table_builder option" where
  "add_index_entry r key =
     (let r = r\<lparr>tb_last_key := key\<rparr>
      in do {
        index \<leftarrow> bb_Add (tb_index_options r) (tb_index_block r) (tb_last_key r)
          (bh_EncodeTo (tb_pending_handle r) []);
        Some (r\<lparr>tb_index_block := index, tb_pending_index_entry := False\<rparr>)
      })"

definition tb_Add ::
  "file_append \<Rightarrow> (bytes \<Rightarrow> bytes option) \<Rightarrow> table_builder \<Rightarrow> bytes \<Rightarrow> bytes \<Rightarrow> table_builder option" where
  "tb_Add Append Snappy_Compress r key val =
     (if \<not> tb_ok r then Some r
      else do {
        r \<leftarrow> (if 0 <s tb_num_entries r \<and> length key + length val \<ge> 2 * block_size (tb_options r)
              then Flush Append Snappy_Compress r else Some r);
        r \<leftarrow> (if tb_pending_index_entry r
              then add_index_entry r (FindShortestSeparator (tb_last_key r) key) else Some r);
        let r = r\<lparr>tb_last_key := key, tb_num_entries := tb_num_entries r + 1\<rparr>;
        data \<leftarrow> bb_Add (tb_options r) (tb_data_block r) key val;
        let r = r\<lparr>tb_data_block := data\<rparr>;
        if CurrentSizeEstimate (tb_data_block r) \<ge> block_size (tb_options r)
        then Flush Append Snappy_Compress r else Some r
      })"

definition tb_Finish ::
  "file_append \<Rightarrow> (bytes \<Rightarrow> bytes option) \<Rightarrow> table_builder \<Rightarrow> (table_builder \<times> status) option" where
  "tb_Finish Append Snappy_Compress r =
     do {
       r \<leftarrow> Flush Append Snappy_Compress r;
       let r = r\<lparr>tb_closed := True\<rparr>;
       (r, metaindex_block_handle) \<leftarrow>
         (if tb_ok r
          then do {
            (r, _, handle) \<leftarrow> WriteBlock Append Snappy_Compress r BlockBuilder;
            Some (r, handle)
          }
          else Some (r, BlockHandle_init));
       (r, index_block_handle) \<leftarrow>
         (if tb_ok r
          then do {
            r \<leftarrow> (if tb_pending_index_entry r
                  then add_index_entry r (FindShortSuccessor (tb_last_key r)) else Some r);
            (r, blk, handle) \<leftarrow> WriteBlock Append Snappy_Compress r (tb_index_block r);
            Some (r\<lparr>tb_index_block := blk\<rparr>, handle)
          }
          else Some (r, BlockHandle_init));
       if tb_ok r
       then
         let footer_encoding =
               footer_EncodeTo \<lparr>metaindex_handle = metaindex_block_handle, index_handle = index_block_handle\<rparr> [];
             (file, st) = Append (tb_file r) footer_encoding;
             r = r\<lparr>tb_file := file, tb_status := st\<rparr>;
             r = (if status_ok st then r\<lparr>tb_offset := tb_offset r + word_of_nat (length footer_encoding)\<rparr> else r)
         in Some (r, tb_status r)
       else Some (r, tb_status r)
     }"

definition tb_Abandon :: "table_builder \<Rightarrow> table_builder" where
  "tb_Abandon r = r\<lparr>tb_closed := True\<rparr>"

definition NumEntries :: "table_builder \<Rightarrow> uint64" where
  "NumEntries r = tb_num_entries r"

definition FileSize :: "table_builder \<Rightarrow> uint64" where
  "FileSize r = tb_offset r"

section \<open>Table\<close>

text \<open>The file of \<^verbatim>\<open>Table::Rep\<close> is the \<open>Read\<close> parameter of every operation.\<close>

record table =
  t_options :: options
  t_metaindex_handle :: BlockHandle
  t_index_block :: block

definition Table_Open ::
  "(bytes \<Rightarrow> nat option) \<Rightarrow> (bytes \<Rightarrow> bytes option) \<Rightarrow> options \<Rightarrow> file_read \<Rightarrow> uint64 \<Rightarrow>
   (status \<times> table option) option" where
  "Table_Open Snappy_GetUncompressedLength Snappy_Uncompress opts Read sz =
     (if unat sz < kEncodedLength then Some (Error DATA_LOSS ''file is too short to be an sstable'', None)
      else
        let (s, footer_input, in_space) = Read (sz - word_of_nat kEncodedLength) (word_of_nat kEncodedLength)
        in if \<not> status_ok s then Some (s, None)
           else do {
             (s, footer, _) \<leftarrow> footer_DecodeFrom
               \<lparr>metaindex_handle = BlockHandle_init, index_handle = BlockHandle_init\<rparr> footer_input;
             if \<not> status_ok s then Some (s, None)
             else do {
               (s, contents) \<leftarrow> ReadBlock Snappy_GetUncompressedLength Snappy_Uncompress Read (index_handle footer);
               if status_ok s
               then do {
                 index_block \<leftarrow> Block (bc_data contents);
                 Some (s, Some \<lparr>t_options = opts, t_metaindex_handle = metaindex_handle footer,
                                t_index_block = index_block\<rparr>)
               }
               else Some (s, None)
             }
           })"

definition BlockReader ::
  "(bytes \<Rightarrow> nat option) \<Rightarrow> (bytes \<Rightarrow> bytes option) \<Rightarrow> file_read \<Rightarrow> bytes \<Rightarrow> iterator option" where
  "BlockReader Snappy_GetUncompressedLength Snappy_Uncompress Read index_value =
     (let (s, handle, input) = bh_DecodeFrom BlockHandle_init index_value
      in if \<not> status_ok s then Some (NewErrorIterator s)
         else do {
           (s, contents) \<leftarrow> ReadBlock Snappy_GetUncompressedLength Snappy_Uncompress Read handle;
           if status_ok s then do { block \<leftarrow> Block (bc_data contents); NewIterator block }
           else Some (NewErrorIterator s)
         })"

definition Table_NewIterator :: "table \<Rightarrow> two_level option" where
  "Table_NewIterator t = do { it \<leftarrow> NewIterator (t_index_block t); Some (NewTwoLevelIterator it) }"

text \<open>The call of \<^verbatim>\<open>saver\<close>, when it happens, is the pair it is given.\<close>

definition InternalGet ::
  "(bytes \<Rightarrow> nat option) \<Rightarrow> (bytes \<Rightarrow> bytes option) \<Rightarrow> file_read \<Rightarrow> table \<Rightarrow> bytes \<Rightarrow>
   (status \<times> (bytes \<times> bytes) option) option" where
  "InternalGet Snappy_GetUncompressedLength Snappy_Uncompress Read t k =
     do {
       iiter \<leftarrow> NewIterator (t_index_block t);
       iiter \<leftarrow> Seek iiter k;
       (s, saved) \<leftarrow>
         (if Valid iiter
          then do {
            block_iter \<leftarrow> BlockReader Snappy_GetUncompressedLength Snappy_Uncompress Read (iter_value iiter);
            block_iter \<leftarrow> Seek block_iter k;
            let saved = (if Valid block_iter then Some (iter_key block_iter, iter_value block_iter) else None);
            Some (iter_status block_iter, saved)
          }
          else Some (OK, None));
       Some (if status_ok s then iter_status iiter else s, saved)
     }"

definition ApproximateOffsetOf :: "table \<Rightarrow> bytes \<Rightarrow> uint64 option" where
  "ApproximateOffsetOf t key =
     do {
       index_iter \<leftarrow> NewIterator (t_index_block t);
       index_iter \<leftarrow> Seek index_iter key;
       if Valid index_iter
       then
         let (s, handle, input) = bh_DecodeFrom BlockHandle_init (iter_value index_iter)
         in Some (if status_ok s then bh_offset handle else bh_offset (t_metaindex_handle t))
       else Some (bh_offset (t_metaindex_handle t))
     }"

section \<open>Handles and footers round-trip\<close>

lemma bh_EncodeTo_eq: "bh_EncodeTo h dst = dst @ EncodeVarint64 (bh_offset h) @ EncodeVarint64 (bh_size h)"
  by (simp add: bh_EncodeTo_def PutVarint64_def)

lemma bh_round_trip: "bh_DecodeFrom h0 (bh_EncodeTo h [] @ rest) = (OK, h, rest)"
  by (simp add: bh_DecodeFrom_def bh_EncodeTo_eq GetVarint64_Encode)

lemma length_bh_EncodeTo: "length (bh_EncodeTo h []) \<le> 20"
  using leb128_length_64 [of "bh_offset h"] leb128_length_64 [of "bh_size h"]
  by (simp add: bh_EncodeTo_eq EncodeVarint64_leb128)

interpretation handle_code: codec "\<lambda>h. bh_EncodeTo h []"
  "\<lambda>p. let (s, h, r) = bh_DecodeFrom BlockHandle_init p in if status_ok s then Some (h, r) else None" "\<lambda>h. True"
  by unfold_locales (simp add: bh_round_trip)

definition footer_pad :: "Footer \<Rightarrow> bytes" where
  "footer_pad f = replicate (40 - length (bh_EncodeTo (metaindex_handle f) [] @ bh_EncodeTo (index_handle f) [])) 0"

lemma footer_EncodeTo_eq:
  "footer_EncodeTo f [] = bh_EncodeTo (metaindex_handle f) [] @ bh_EncodeTo (index_handle f) [] @ footer_pad f @
     EncodeFixed32 True (ucast (kTableMagicNumber AND 0xffffffff)) @ EncodeFixed32 True (ucast (drop_bit 32 kTableMagicNumber))"
  using length_bh_EncodeTo [of "metaindex_handle f"] length_bh_EncodeTo [of "index_handle f"]
  by (simp add: footer_EncodeTo_def footer_pad_def resize_def kMaxEncodedLength_def PutFixed32_def Let_def bh_EncodeTo_eq)

lemma length_footer_head:
  "length (bh_EncodeTo (metaindex_handle f) [] @ bh_EncodeTo (index_handle f) [] @ footer_pad f) = 40"
  using length_bh_EncodeTo [of "metaindex_handle f"] length_bh_EncodeTo [of "index_handle f"]
  by (simp add: footer_pad_def)

lemma length_footer: "length (footer_EncodeTo f []) = 48"
  using length_footer_head [of f] by (simp add: footer_EncodeTo_eq)

lemma footer_round_trip: "footer_DecodeFrom f0 (footer_EncodeTo f [] @ rest) = Some (OK, f, rest)"
proof -
  let ?lo = "ucast (kTableMagicNumber AND 0xffffffff) :: uint32" and ?hi = "ucast (drop_bit 32 kTableMagicNumber) :: uint32"
  define head where "head = bh_EncodeTo (metaindex_handle f) [] @ bh_EncodeTo (index_handle f) [] @ footer_pad f"
  have head: "length head = 40" unfolding head_def by (rule length_footer_head)
  have enc: "footer_EncodeTo f [] @ rest = head @ EncodeFixed32 True ?lo @ EncodeFixed32 True ?hi @ rest"
    by (simp add: footer_EncodeTo_eq head_def)
  have magic: "push_bit 32 (ucast ?hi) OR ucast ?lo = kTableMagicNumber"
    by (simp add: kTableMagicNumber_def)
  have m: "bh_DecodeFrom h (head @ r) = (OK, metaindex_handle f, bh_EncodeTo (index_handle f) [] @ footer_pad f @ r)" for h r
    by (simp add: head_def bh_round_trip)
  have i: "bh_DecodeFrom h (bh_EncodeTo (index_handle f) [] @ r) = (OK, index_handle f, r)" for h r
    by (rule bh_round_trip)
  show ?thesis
    unfolding enc
    by (simp add: footer_DecodeFrom_def kEncodedLength_def kMaxEncodedLength_def head fixed_round_trips magic m i Let_def)
qed

section \<open>Reading a stored block\<close>

text \<open>The documented behaviour of a random-access file that holds \<open>F\<close>.\<close>

definition file_holds :: "file_read \<Rightarrow> bytes \<Rightarrow> bool" where
  "file_holds Read F \<longleftrightarrow>
     (\<forall>off n. unat off + unat n \<le> length F \<longrightarrow>
        (\<exists>b. Read off n = (OK, take (unat n) (drop (unat off) F), b)))"

lemma file_holds_read:
  "file_holds Read F \<Longrightarrow> unat off + unat n \<le> length F \<Longrightarrow>
     \<exists>b. Read off n = (OK, take (unat n) (drop (unat off) F), b)"
  by (simp add: file_holds_def)

definition stored ::
  "(bytes \<Rightarrow> nat option) \<Rightarrow> (bytes \<Rightarrow> bytes option) \<Rightarrow> bytes \<Rightarrow> BlockHandle \<Rightarrow> bytes \<Rightarrow> bool" where
  "stored L U F h raw \<longleftrightarrow>
     (\<exists>pre payload type post.
        F = pre @ payload @ block_trailer payload type @ post \<and>
        bh_offset h = word_of_nat (length pre) \<and> bh_size h = word_of_nat (length payload) \<and>
        (case type of kNoCompression \<Rightarrow> payload = raw
         | kSnappyCompression \<Rightarrow> L payload = Some (length raw) \<and> U payload = Some raw))"

lemma stored_append: "stored L U F h raw \<Longrightarrow> stored L U (F @ G) h raw"
  unfolding stored_def by (metis append.assoc)

lemma length_block_trailer: "length (block_trailer p type) = 5"
  by (simp add: block_trailer_def Let_def)

lemma block_trailer_crc:
  "block_trailer p type = type_byte type # EncodeFixed32 True (Mask (crc32c 0 (p @ [type_byte type])))"
  by (simp add: block_trailer_def crc32c_Value_def CanAccelerate_portable_def crc32c_Extend_crc32c crc32c_append Let_def)

lemma unat_of_nat_64: "n < 2 ^ 64 \<Longrightarrow> unat (word_of_nat n :: uint64) = n"
  by (simp add: unsigned_of_nat take_bit_nat_eq_self_iff)

lemma ReadBlock_stored:
  assumes "file_holds Read F" and "length F < 2 ^ 64" and "stored L U F h raw"
  shows "\<exists>c. ReadBlock L U Read h = Some (OK, c) \<and> bc_data c = raw"
proof -
  obtain pre payload type post where F: "F = pre @ payload @ block_trailer payload type @ post"
    and h: "bh_offset h = word_of_nat (length pre)" "bh_size h = word_of_nat (length payload)"
    and payload: "case type of kNoCompression \<Rightarrow> payload = raw
         | kSnappyCompression \<Rightarrow> L payload = Some (length raw) \<and> U payload = Some raw"
    using assms(3) by (auto simp: stored_def)
  have len: "length pre + length payload + 5 + length post < 2 ^ 64"
    using assms(2) by (simp add: F length_block_trailer)
  have n5: "bh_size h + kBlockTrailerSize = word_of_nat (length payload + 5)"
    by (simp add: h kBlockTrailerSize_def)
  have un: "unat (bh_offset h) = length pre" "unat (bh_size h) = length payload"
    "unat (bh_size h + kBlockTrailerSize) = length payload + 5"
    unfolding n5 unfolding h by (intro unat_of_nat_64; use len in linarith)+
  define C where "C = payload @ block_trailer payload type"
  have slice: "take (length payload + 5) (drop (length pre) F) = C"
    by (simp add: F C_def length_block_trailer)
  obtain b where read: "Read (bh_offset h) (bh_size h + kBlockTrailerSize) = (OK, C, b)"
  proof -
    have "unat (bh_offset h) + unat (bh_size h + kBlockTrailerSize) \<le> length F"
      unfolding un by (simp add: F length_block_trailer)
    from file_holds_read [OF assms(1) this] show ?thesis
      using that slice unfolding un by auto
  qed
  have crc: "DecodeFixed32 True (drop (length payload + 1) C) =
      Some (Mask (crc32c 0 (payload @ [type_byte type])))"
    using fixed_round_trips(2) [of True True _ "[]"] by (simp add: C_def block_trailer_crc)
  have val: "crc32c_Value CanAccelerate_portable AcceleratedExtend_portable 0
      (take (length payload + 1) C) = crc32c 0 (payload @ [type_byte type])"
    by (simp add: C_def block_trailer_crc crc32c_Value_def CanAccelerate_portable_def crc32c_Extend_crc32c)
  have tb: "C ! length payload = type_byte type" "take (length payload) C = payload"
    by (simp_all add: C_def block_trailer_crc nth_append)
  have sizes: "word_of_nat (length C) = bh_size h + kBlockTrailerSize" "\<not> length C < length payload + 5"
    by (simp_all add: n5 C_def length_block_trailer)
  let ?err = "Error DATA_LOSS ''corrupted compressed block contents''"
    and ?none = "\<lparr>bc_data = [], bc_cachable = False, bc_heap_allocated = False\<rparr>"
  have "ReadBlock L U Read h =
    (case type of
       kNoCompression \<Rightarrow> Some (OK, \<lparr>bc_data = payload, bc_cachable = b, bc_heap_allocated = b\<rparr>)
     | kSnappyCompression \<Rightarrow>
         (case L payload of
            None \<Rightarrow> Some (?err, ?none)
          | Some n \<Rightarrow>
              (case U payload of
                 None \<Rightarrow> Some (?err, ?none)
               | Some u \<Rightarrow> Some (OK, \<lparr>bc_data = take n u, bc_cachable = True, bc_heap_allocated = True\<rparr>))))"
    by (cases type) (use crc val in \<open>simp_all add: ReadBlock_def read un sizes tb Unmask_Mask Let_def cong: option.case_cong\<close>)
  then show ?thesis using payload by (cases type) auto
qed

text \<open>A block of a file: where it is stored and what it holds.\<close>

definition data_at ::
  "(bytes \<Rightarrow> nat option) \<Rightarrow> (bytes \<Rightarrow> bytes option) \<Rightarrow> bytes \<Rightarrow> BlockHandle \<Rightarrow> (bytes \<times> bytes) list \<Rightarrow> bool" where
  "data_at L U F h kvs \<longleftrightarrow> (\<exists>es js. layout es js \<and> kvs_of es = kvs \<and> stored L U F h (block_bytes es js))"

lemma data_at_append: "data_at L U F h kvs \<Longrightarrow> data_at L U (F @ G) h kvs"
  unfolding data_at_def using stored_append by blast

lemma data_at_open:
  assumes "file_holds Read F" and "length F < 2 ^ 64" and "data_at L U F h kvs"
  shows "\<exists>c b it. ReadBlock L U Read h = Some (OK, c) \<and> Block (bc_data c) = Some b \<and> NewIterator b = Some it \<and> it_over kvs it"
proof -
  obtain es js where e: "layout es js" "kvs_of es = kvs" "stored L U F h (block_bytes es js)"
    using assms(3) by (auto simp: data_at_def)
  obtain b it where "Block (block_bytes es js) = Some b" "NewIterator b = Some (BlockIter it)" "over es js it"
    using NewIterator_layout [OF e(1)] by blast
  then show ?thesis
    using ReadBlock_stored [OF assms(1,2) e(3)] e(1,2) by (fastforce simp: iter_over_def)
qed

lemma BlockReader_data_at:
  assumes "file_holds Read F" and "length F < 2 ^ 64" and "data_at L U F h kvs"
  shows "\<exists>it. BlockReader L U Read (bh_EncodeTo h []) = Some it \<and> it_over kvs it"
  using data_at_open [OF assms] bh_round_trip [of BlockHandle_init h "[]"] by (auto simp: BlockReader_def)

text \<open>
  \<open>table_file F kvs\<close>: the file is a table of the entries \<open>kvs\<close>: data blocks, an index
  block whose values are their handles, and the footer at the end.
\<close>

definition table_file ::
  "(bytes \<Rightarrow> nat option) \<Rightarrow> (bytes \<Rightarrow> bytes option) \<Rightarrow> bytes \<Rightarrow> (bytes \<times> bytes) list \<Rightarrow> bool" where
  "table_file L U F kvs \<longleftrightarrow>
     (\<exists>bs ix body mh ih. kvs = concat bs \<and> length ix = length bs \<and> separated ix bs \<and>
        (\<forall>i < length bs. bs ! i \<noteq> [] \<and> (\<exists>h. snd (ix ! i) = bh_EncodeTo h [] \<and> data_at L U F h (bs ! i))) \<and>
        data_at L U F ih ix \<and> F = body @ footer_EncodeTo \<lparr>metaindex_handle = mh, index_handle = ih\<rparr> [])"

lemma table_open:
  assumes holds: "file_holds Read F" and small: "length F < 2 ^ 64" and tf: "table_file L U F kvs"
  shows "\<exists>t bs ix idx. Table_Open L U opts Read (word_of_nat (length F)) = Some (OK, Some t) \<and>
    NewIterator (t_index_block t) = Some idx \<and> it_over ix idx \<and> kvs = concat bs \<and> separated ix bs \<and>
    block_source (BlockReader L U Read) ix bs"
proof -
  obtain bs ix body mh ih where kvs: "kvs = concat bs" "length ix = length bs" "separated ix bs"
    and blocks: "\<And>i. i < length bs \<Longrightarrow> bs ! i \<noteq> [] \<and> (\<exists>h. snd (ix ! i) = bh_EncodeTo h [] \<and> data_at L U F h (bs ! i))"
    and index: "data_at L U F ih ix" and F: "F = body @ footer_EncodeTo \<lparr>metaindex_handle = mh, index_handle = ih\<rparr> []"
    using tf unfolding table_file_def by blast
  let ?f = "\<lparr>metaindex_handle = mh, index_handle = ih\<rparr>" and ?sz = "word_of_nat (length F) :: uint64"
  have len: "length F = length body + 48" by (simp add: F length_footer)
  have sz: "unat ?sz = length F" by (rule unat_of_nat_64 [OF small])
  have k: "kEncodedLength = 48" by (simp add: kEncodedLength_def kMaxEncodedLength_def)
  have off: "?sz - word_of_nat kEncodedLength = word_of_nat (length body)" by (simp add: k len)
  have "unat (?sz - word_of_nat kEncodedLength) = length body"
    unfolding off using small len by (intro unat_of_nat_64) simp
  moreover have "unat (word_of_nat kEncodedLength :: uint64) = 48" by (simp add: k)
  ultimately obtain b where read: "Read (?sz - word_of_nat kEncodedLength) (word_of_nat kEncodedLength) = (OK, footer_EncodeTo ?f [], b)"
    using holds len unfolding file_holds_def
    by (metis F append_eq_conv_conj length_footer order_refl take_all)
  obtain c blk idx where blk: "ReadBlock L U Read ih = Some (OK, c)" "Block (bc_data c) = Some blk"
    "NewIterator blk = Some idx" "it_over ix idx"
    using data_at_open [OF holds small index] by blast
  have "footer_DecodeFrom f0 (footer_EncodeTo ?f []) = Some (OK, ?f, [])" for f0
    using footer_round_trip [of f0 ?f "[]"] by simp
  then have opened: "Table_Open L U opts Read ?sz =
      Some (OK, Some \<lparr>t_options = opts, t_metaindex_handle = mh, t_index_block = blk\<rparr>)"
    using sz len k read blk(1,2) by (simp add: Table_Open_def)
  have "block_source (BlockReader L U Read) ix bs"
    unfolding block_source_def using kvs(2) blocks BlockReader_data_at [OF holds small] by metis
  then show ?thesis using opened blk(3,4) kvs by fastforce
qed

lemma table_iterator:
  assumes "file_holds Read F" and "length F < 2 ^ 64" and "table_file L U F kvs"
  shows "\<exists>t it. Table_Open L U opts Read (word_of_nat (length F)) = Some (OK, Some t) \<and>
    Table_NewIterator t = Some it \<and> tl_over (BlockReader L U Read) kvs it"
  using table_open [OF assms, of opts] NewTwoLevelIterator_over by (fastforce simp: Table_NewIterator_def)

lemma map_of_separated:
  assumes "separated ix bs" "length ix = length bs" and ne: "\<And>i. i < length bs \<Longrightarrow> bs ! i \<noteq> []"
    and sorted: "strictly_sorted (concat bs)"
  shows "map_of (concat bs) k = (if first_ge ix k < length bs then map_of (bs ! first_ge ix k) k else None)"
proof (cases "first_ge ix k < length bs")
  case False
  then have "first_ge (concat bs) k = length (concat bs)"
    using first_ge_past [OF assms(1,2)] first_ge_le [of ix k] assms(2) by simp
  then show ?thesis using map_of_first_ge [OF sorted, of k] False by simp
next
  case True
  define i m where "i = first_ge ix k" and "m = first_ge (bs ! i) k"
  have i: "i < length bs" using True by (simp add: i_def)
  have e: "concat bs = concat (take i bs) @ bs ! i @ concat (drop (Suc i) bs)" by (rule concat_split [OF i])
  have before: "compare (fst kv) k < 0" if "kv \<in> set (bs ! i')" "i' < i" for kv i'
  proof -
    have "compare (fst kv) (fst (ix ! i')) \<le> 0" using assms(1) that i by (auto simp: separated_def)
    moreover have "compare (fst (ix ! i')) k < 0" using first_ge_before [of i' ix k] that(2) by (simp add: i_def)
    ultimately show ?thesis by (rule compare_le_less_trans)
  qed
  have after: "0 < compare (fst kv) k" if "kv \<in> set (bs ! i')" "i < i'" "i' < length bs" for kv i'
  proof -
    have "compare (fst (ix ! i)) (fst kv) < 0" using assms(1) that i by (auto simp: separated_def)
    moreover have "compare k (fst (ix ! i)) \<le> 0"
      using first_ge_at [of ix k] i assms(2) by (simp add: i_def compare_flip)
    ultimately have "compare k (fst kv) < 0" by (rule compare_le_less_trans [rotated])
    then show ?thesis by (subst compare_antisym) simp
  qed
  have "map_of (concat (take i bs)) k = None"
    using before by (fastforce simp: map_of_eq_None_iff in_set_conv_nth)
  moreover have "map_of (concat (drop (Suc i) bs)) k = None"
    using after by (fastforce simp: map_of_eq_None_iff in_set_conv_nth)
  ultimately show ?thesis using True by (subst e) (simp add: map_add_def i_def split: option.splits)
qed

lemma table_get:
  assumes "file_holds Read F" and "length F < 2 ^ 64" and "table_file L U F kvs" and sorted: "strictly_sorted kvs"
  shows "\<exists>t saved. Table_Open L U opts Read (word_of_nat (length F)) = Some (OK, Some t) \<and>
    InternalGet L U Read t k = Some (OK, saved) \<and>
    map_of kvs k = (case saved of Some (k', v) \<Rightarrow> if k' = k then Some v else None | None \<Rightarrow> None)"
proof -
  obtain t bs ix idx where t: "Table_Open L U opts Read (word_of_nat (length F)) = Some (OK, Some t)"
    "NewIterator (t_index_block t) = Some idx" "it_over ix idx" "kvs = concat bs" "separated ix bs"
    "block_source (BlockReader L U Read) ix bs"
    using table_open [OF assms(1-3), of opts] by blast
  have len: "length ix = length bs" and ne: "\<And>i. i < length bs \<Longrightarrow> bs ! i \<noteq> []"
    and bf: "\<And>i. i < length bs \<Longrightarrow> \<exists>it. BlockReader L U Read (snd (ix ! i)) = Some it \<and> it_over (bs ! i) it"
    using t(6) by (auto simp: block_source_def)
  define i where "i = first_ge ix k"
  obtain idx' where idx': "Seek idx k = Some idx'" "it_at ix idx' i"
    using iterators.seek_at [OF t(3) separated_sorted [OF t(5) len ne]] unfolding i_def by blast
  have st: "iter_status idx' = OK" using iterators.over_ok iterators.at_over [OF idx'(2)] by blast
  have valid: "Valid idx' \<longleftrightarrow> i < length bs" using iterators.valid_iff [OF idx'(2)] len by simp
  have m: "map_of kvs k = (if i < length bs then map_of (bs ! i) k else None)"
    unfolding t(4) i_def by (rule map_of_separated [OF t(5) len ne]) (use sorted t(4) in auto)
  show ?thesis
  proof (cases "i < length bs")
    case False
    then have "InternalGet L U Read t k = Some (OK, None)"
      using t(2) idx'(1) valid st by (simp add: InternalGet_def)
    then show ?thesis using t(1) m False by fastforce
  next
    case True
    have ev: "iter_value idx' = snd (ix ! i)" using iterators.entry [OF idx'(2)] True len by (auto simp: prod_eq_iff)
    obtain d where d: "BlockReader L U Read (snd (ix ! i)) = Some d" "it_over (bs ! i) d" using bf [OF True] by blast
    have ss: "strictly_sorted (bs ! i)"
      using sorted unfolding t(4) concat_split [OF True] strictly_sorted_def by (simp add: sorted_wrt_append)
    obtain d' where d': "Seek d k = Some d'" "it_over (bs ! i) d'"
      "(if Valid d' \<and> iter_key d' = k then Some (iter_value d') else None) = map_of (bs ! i) k"
      using iterators.lookup [OF d(2) ss, of k] by blast
    have "InternalGet L U Read t k =
        Some (OK, if Valid d' then Some (iter_key d', iter_value d') else None)"
      using t(2) idx'(1) valid True ev d(1) d'(1) st iterators.over_ok [OF d'(2)] by (simp add: InternalGet_def)
    then show ?thesis using t(1) m True d'(3) by (auto split: if_splits)
  qed
qed

end
