(* ===== verification/TF_TableBuild.thy ===== *)
theory TF_TableBuild
  imports TF_Table
begin

text \<open>
  The table builder of \<^verbatim>\<open>lib/io/table_builder.cc\<close> proved against the readers: the
  separators it puts into the index, the invariant of the builder through every
  \<^verbatim>\<open>Add\<close>, \<^verbatim>\<open>Flush\<close> and \<^verbatim>\<open>Finish\<close>, and the theorems that compose writing,
  checksums, blocks, index and iterators: what is read from a table is what was put in.
\<close>

section \<open>Separators\<close>

lemma shared_loop_stops:
  "m \<le> length a \<Longrightarrow> m \<le> length b \<Longrightarrow> shared_loop a b m s < m \<Longrightarrow> a ! shared_loop a b m s \<noteq> b ! shared_loop a b m s"
proof (induction a b m s rule: shared_loop.induct)
  case (1 a b m s)
  then show ?case by (cases "s < m \<and> a ! s = b ! s") (auto simp: shared_loop.simps [of a b m s])
qed

lemma compare_diff:
  assumes "take n a = take n b" "n < length a" "n < length b" "a ! n \<noteq> b ! n"
  shows "compare a b = (if a ! n < b ! n then -1 else 1)"
proof -
  have "a = take n a @ a ! n # drop (Suc n) a" "b = take n a @ b ! n # drop (Suc n) b"
    using assms(2,3) id_take_nth_drop [of n a] id_take_nth_drop [of n b] assms(1) by simp_all
  then have "compare a b = compare (a ! n # drop (Suc n) a) (b ! n # drop (Suc n) b)"
    by (metis compare_append_prefix)
  then show ?thesis using assms(4) by auto
qed

lemma byte_succ: "x < 0xff \<Longrightarrow> unat (x + 1 :: byte) = unat x + 1"
  by (simp add: word_less_nat_alt unat_plus_if')

lemma byte_not_255_less: "x \<noteq> 0xff \<Longrightarrow> (x :: byte) < 0xff"
  using unsigned_less [of x, where ?'a = nat] by (auto simp: word_less_nat_alt word_unat_eq_iff)

lemma FindShortestSeparator_separates:
  assumes "compare start limit < 0"
  defines "sep \<equiv> FindShortestSeparator start limit"
  shows "compare start sep \<le> 0" and "compare sep limit < 0" and "length sep \<le> length start"
proof -
  define m where "m = min (length start) (length limit)"
  define d where "d = shared_loop start limit m 0"
  have pre: "take d start = take d limit" "d \<le> m"
    using shared_loop_prefix [of 0 m start limit] by (auto simp: d_def m_def)
  have "compare start sep \<le> 0 \<and> compare sep limit < 0 \<and> length sep \<le> length start"
  proof (cases "d < m \<and> start ! d < 0xff \<and> unat (start ! d) + 1 < unat (limit ! d)")
    case True
    let ?s = "take (d + 1) (start[d := start ! d + 1])"
    have sep: "sep = ?s"
      using True by (simp add: sep_def FindShortestSeparator_def m_def [symmetric] d_def [symmetric] Let_def)
    have len: "d < length start" "d < length limit" "d < length ?s" using True by (auto simp: m_def)
    have at: "?s ! d = start ! d + 1" "take d ?s = take d start" using len by simp_all
    have v: "unat (start ! d + 1) = unat (start ! d) + 1" using True by (intro byte_succ) simp
    have "compare start ?s = -1"
      using compare_diff [of d start ?s] len at v by (simp add: word_less_nat_alt)
    moreover have "start ! d + 1 \<noteq> limit ! d" using v True by auto
    then have "compare ?s limit = -1"
      using compare_diff [of d ?s limit] len at v pre(1) True by (simp add: word_less_nat_alt)
    ultimately show ?thesis unfolding sep using len by simp
  next
    case False
    then have "sep = start"
      by (auto simp: sep_def FindShortestSeparator_def m_def [symmetric] d_def [symmetric] Let_def)
    then show ?thesis using assms(1) by simp
  qed
  then show "compare start sep \<le> 0" "compare sep limit < 0" "length sep \<le> length start" by auto
qed

lemma short_successor_loop_after:
  "left \<le> length key \<Longrightarrow> compare key (short_successor_loop key left) \<le> 0 \<and>
     length (short_successor_loop key left) \<le> length key"
proof (induction key left rule: short_successor_loop.induct)
  case (2 key left)
  define i where "i = length key - Suc left"
  have i: "i < length key" using "2.prems" by (simp add: i_def)
  show ?case
  proof (cases "key ! i = 0xff")
    case True
    then show ?thesis using 2 by (simp add: i_def Let_def)
  next
    case False
    let ?s = "take (i + 1) (key[i := key ! i + 1])"
    have eq: "short_successor_loop key (Suc left) = ?s" using False by (simp add: i_def Let_def)
    have "key ! i < 0xff" using False by (rule byte_not_255_less)
    then have v: "unat (key ! i + 1) = unat (key ! i) + 1" by (rule byte_succ)
    have "compare key ?s = -1"
      using compare_diff [of i key ?s] i v by (simp add: word_less_nat_alt)
    then show ?thesis unfolding eq using i by simp
  qed
qed simp

lemma FindShortSuccessor_after:
  "compare key (FindShortSuccessor key) \<le> 0" "length (FindShortSuccessor key) \<le> length key"
  using short_successor_loop_after [of "length key" key] by (simp_all add: FindShortSuccessor_def)

section \<open>Writing one block\<close>

text \<open>
  The documented behaviour of the file being written, of which only successful appends are
  described, and of the compression library.
\<close>

definition append_holds :: "file_append \<Rightarrow> bool" where
  "append_holds A \<longleftrightarrow> (\<forall>c d c'. A c d = (c', OK) \<longrightarrow> c' = c @ d)"

definition snappy_holds ::
  "(bytes \<Rightarrow> bytes option) \<Rightarrow> (bytes \<Rightarrow> nat option) \<Rightarrow> (bytes \<Rightarrow> bytes option) \<Rightarrow> bool" where
  "snappy_holds C L U \<longleftrightarrow> (\<forall>x y. C x = Some y \<longrightarrow> L y = Some (length x) \<and> U y = Some x)"

lemma status_ok_iff: "status_ok s \<longleftrightarrow> s = OK"
  by (cases s) auto

text \<open>What writing leaves alone.\<close>

definition same_but_file :: "table_builder \<Rightarrow> table_builder \<Rightarrow> bool" where
  "same_but_file r r' \<longleftrightarrow>
     r' = r\<lparr>tb_file := tb_file r', tb_offset := tb_offset r', tb_status := tb_status r'\<rparr>"

lemma same_but_fileD:
  assumes "same_but_file r r'"
  shows "tb_options r' = tb_options r" "tb_index_options r' = tb_index_options r" "tb_data_block r' = tb_data_block r"
    "tb_index_block r' = tb_index_block r" "tb_last_key r' = tb_last_key r" "tb_num_entries r' = tb_num_entries r"
    "tb_closed r' = tb_closed r" "tb_pending_index_entry r' = tb_pending_index_entry r"
    "tb_pending_handle r' = tb_pending_handle r"
  using assms by (cases r; cases r'; simp add: same_but_file_def)+

lemma WriteRawBlock_stores:
  assumes "append_holds A" and "tb_offset r = word_of_nat (length (tb_file r))"
    and "WriteRawBlock A r payload type = (r', h)"
  shows "same_but_file r r'"
    and "tb_ok r' \<Longrightarrow> tb_file r' = tb_file r @ payload @ block_trailer payload type \<and>
      tb_offset r' = word_of_nat (length (tb_file r')) \<and>
      h = \<lparr>bh_offset = word_of_nat (length (tb_file r)), bh_size = word_of_nat (length payload)\<rparr>"
proof -
  obtain F1 s1 where a1: "A (tb_file r) payload = (F1, s1)" by fastforce
  obtain F2 s2 where a2: "A F1 (block_trailer payload type) = (F2, s2)" by fastforce
  have 1: "s1 = OK \<Longrightarrow> F1 = tb_file r @ payload" and 2: "s2 = OK \<Longrightarrow> F2 = F1 @ block_trailer payload type"
    using assms(1) a1 a2 by (auto simp: append_holds_def)
  have "same_but_file r r' \<and> (tb_ok r' \<longrightarrow> tb_file r' = tb_file r @ payload @ block_trailer payload type \<and>
      tb_offset r' = word_of_nat (length (tb_file r')) \<and>
      h = \<lparr>bh_offset = word_of_nat (length (tb_file r)), bh_size = word_of_nat (length payload)\<rparr>)"
    using assms(2,3) a1 a2 1 2
    by (cases s1; cases s2)
      (auto simp: WriteRawBlock_def tb_ok_def same_but_file_def Let_def length_block_trailer kBlockTrailerSize_def algebra_simps)
  then show "same_but_file r r'"
    and "tb_ok r' \<Longrightarrow> tb_file r' = tb_file r @ payload @ block_trailer payload type \<and>
      tb_offset r' = word_of_nat (length (tb_file r')) \<and>
      h = \<lparr>bh_offset = word_of_nat (length (tb_file r)), bh_size = word_of_nat (length payload)\<rparr>" by blast+
qed

lemma WriteBlock_stores:
  assumes A: "append_holds A" and C: "snappy_holds C L U" and off: "tb_offset r = word_of_nat (length (tb_file r))"
    and b: "built blk es js" and lay: "layout es js"
  shows "\<exists>r' blk' h. WriteBlock A C r blk = Some (r', blk', h) \<and> built blk' [] [0] \<and> same_but_file r r' \<and>
    (tb_ok r' \<longrightarrow> (\<exists>G. tb_file r' = tb_file r @ G \<and> length G \<le> uint32_max + 5) \<and>
       tb_offset r' = word_of_nat (length (tb_file r')) \<and> data_at L U (tb_file r') h (kvs_of es))"
proof -
  let ?raw = "block_bytes es js"
  obtain blk1 where fin: "bb_Finish blk = Some (blk1, ?raw)"
    using bb_Finish_built [OF b layout_bounds(2) [OF lay]] by blast
  define pt where "pt = (case compression (tb_options r) of
            kNoCompression \<Rightarrow> (?raw, kNoCompression)
          | kSnappyCompression \<Rightarrow>
              (case C ?raw of
                 Some compressed \<Rightarrow>
                   if length compressed < length ?raw - length ?raw div 8
                   then (compressed, kSnappyCompression) else (?raw, kNoCompression)
               | None \<Rightarrow> (?raw, kNoCompression)))"
  obtain payload type where pt: "pt = (payload, type)" by fastforce
  have payload: "case type of kNoCompression \<Rightarrow> payload = ?raw
       | kSnappyCompression \<Rightarrow> L payload = Some (length ?raw) \<and> U payload = Some ?raw"
    using pt C unfolding pt_def snappy_holds_def
    by (auto split: CompressionType.splits option.splits if_splits)
  have "length payload \<le> length ?raw"
    using pt unfolding pt_def by (auto split: CompressionType.splits option.splits if_splits)
  then have short: "length (payload @ block_trailer payload type) \<le> uint32_max + 5"
    using lay by (simp add: layout_def length_block_trailer)
  obtain r' h where w: "WriteRawBlock A r payload type = (r', h)" by fastforce
  note st = WriteRawBlock_stores [OF A off w]
  have "WriteBlock A C r blk = Some (r', bb_Reset blk1, h)"
    using fin pt w by (simp add: WriteBlock_def pt_def [symmetric])
  moreover have "data_at L U (tb_file r') h (kvs_of es)" if "tb_ok r'"
    unfolding data_at_def stored_def using lay st(2) [OF that] payload by fastforce
  moreover have "\<exists>G. tb_file r' = tb_file r @ G \<and> length G \<le> uint32_max + 5" if "tb_ok r'"
    using st(2) [OF that] short by blast
  ultimately show ?thesis using st built_init(2) by blast
qed

text \<open>When no append fails, the status stays good.\<close>

definition appends_succeed :: "file_append \<Rightarrow> bool" where
  "appends_succeed A \<longleftrightarrow> (\<forall>c d. snd (A c d) = OK)"

lemma WriteBlock_ok:
  assumes "appends_succeed A" and "WriteBlock A C r blk = Some (r', blk', h)"
  shows "tb_ok r'"
proof -
  have raw: "tb_ok (fst (WriteRawBlock A r p t))" for r p t
    using assms(1) by (auto simp: appends_succeed_def WriteRawBlock_def tb_ok_def Let_def split: prod.splits)
      (metis snd_conv status_ok.simps(1))+
  obtain blk1 b where fin: "bb_Finish blk = Some (blk1, b)"
    using assms(2) by (cases "bb_Finish blk") (auto simp: WriteBlock_def)
  obtain p t where "(case compression (tb_options r) of
            kNoCompression \<Rightarrow> (b, kNoCompression)
          | kSnappyCompression \<Rightarrow>
              (case C b of
                 Some compressed \<Rightarrow>
                   if length compressed < length b - length b div 8
                   then (compressed, kSnappyCompression) else (b, kNoCompression)
               | None \<Rightarrow> (b, kNoCompression))) = (p, t)" by fastforce
  then have "WriteRawBlock A r p t = (r', h)"
    using assms(2) fin by (auto simp: WriteBlock_def split: prod.splits)
  then show ?thesis using raw by (metis fst_conv)
qed

section \<open>The invariant of the table builder\<close>

text \<open>
  \<open>tb_inv r bs cur ix\<close>: the file holds the data blocks \<open>bs\<close>, the data block being
  built the entries \<open>cur\<close>, and the index block being built the entries \<open>ix\<close>, which lack the
  last block while its entry is pending.
\<close>

definition keys_bytes :: "(bytes \<times> bytes) list \<Rightarrow> nat" where
  "keys_bytes kvs = (\<Sum>(k, v) \<leftarrow> kvs. length k + 39)"

lemma keys_bytes_simps [simp]:
  "keys_bytes [] = 0" "keys_bytes ((k, v) # kvs) = length k + 39 + keys_bytes kvs"
  "keys_bytes (kvs @ kvs') = keys_bytes kvs + keys_bytes kvs'"
  by (simp_all add: keys_bytes_def)

definition builds :: "block_builder \<Rightarrow> (bytes \<times> bytes) list \<Rightarrow> bool" where
  "builds b kvs \<longleftrightarrow> (\<exists>es js. built b es js \<and> kvs_of es = kvs \<and> length (block_bytes es js) \<le> uint32_max)"

definition index_ok ::
  "(bytes \<Rightarrow> nat option) \<Rightarrow> (bytes \<Rightarrow> bytes option) \<Rightarrow> bytes \<Rightarrow> (bytes \<times> bytes) list \<Rightarrow>
   (bytes \<times> bytes) list list \<Rightarrow> (bytes \<times> bytes) list \<Rightarrow> bool" where
  "index_ok L U F ix bs cur \<longleftrightarrow>
     kvs_bytes ix \<le> keys_bytes (concat (take (length ix) bs)) \<and>
     (\<forall>i < length ix. (\<exists>h. snd (ix ! i) = bh_EncodeTo h [] \<and> data_at L U F h (bs ! i)) \<and>
        (\<forall>kv \<in> set (bs ! i). compare (fst kv) (fst (ix ! i)) \<le> 0) \<and>
        (\<forall>kv \<in> set (concat (drop (Suc i) bs) @ cur). compare (fst (ix ! i)) (fst kv) < 0))"

definition last_key_ok :: "(bytes \<times> bytes) list \<Rightarrow> bytes \<Rightarrow> bool" where
  "last_key_ok kvs key \<longleftrightarrow> (kvs \<noteq> [] \<longrightarrow> key = fst (last kvs))"

lemma last_key_ok_snoc [simp]:
  "last_key_ok (kvs @ [kv]) key \<longleftrightarrow> key = fst kv" "last_key_ok (kvs @ kvs' @ [kv]) key \<longleftrightarrow> key = fst kv"
  "last_key_ok [] key"
  by (simp_all add: last_key_ok_def)

definition tb_inv ::
  "(bytes \<Rightarrow> nat option) \<Rightarrow> (bytes \<Rightarrow> bytes option) \<Rightarrow> options \<Rightarrow> table_builder \<Rightarrow>
   (bytes \<times> bytes) list list \<Rightarrow> (bytes \<times> bytes) list \<Rightarrow> (bytes \<times> bytes) list \<Rightarrow> bool" where
  "tb_inv L U opts r bs cur ix \<longleftrightarrow>
     tb_options r = opts \<and> tb_index_options r = opts\<lparr>block_restart_interval := 1\<rparr> \<and> tb_status r = OK \<and>
     tb_offset r = word_of_nat (length (tb_file r)) \<and>
     builds (tb_data_block r) cur \<and> builds (tb_index_block r) ix \<and>
     (\<forall>b \<in> set bs. b \<noteq> []) \<and>
     (if tb_pending_index_entry r
      then length bs = Suc (length ix) \<and> cur = [] \<and> data_at L U (tb_file r) (tb_pending_handle r) (last bs)
      else length bs = length ix \<and> (bs \<noteq> [] \<longrightarrow> cur \<noteq> [])) \<and>
     index_ok L U (tb_file r) ix bs cur \<and>
     last_key_ok (concat bs @ cur) (tb_last_key r) \<and>
     strictly_sorted (concat bs @ cur)"

text \<open>With it, a bound on the size of the file.\<close>

definition tb_invb ::
  "(bytes \<Rightarrow> nat option) \<Rightarrow> (bytes \<Rightarrow> bytes option) \<Rightarrow> options \<Rightarrow> table_builder \<Rightarrow>
   (bytes \<times> bytes) list list \<Rightarrow> (bytes \<times> bytes) list \<Rightarrow> (bytes \<times> bytes) list \<Rightarrow> bool" where
  "tb_invb L U opts r bs cur ix \<longleftrightarrow>
     tb_inv L U opts r bs cur ix \<and> length (tb_file r) \<le> length bs * (uint32_max + 5)"

lemma builds_init: "builds BlockBuilder []" "built b [] [0] \<Longrightarrow> builds b []"
  using built_init(1) by (auto simp: builds_def kvs_of_def block_bytes_def length_trailer uint32_max_def
      intro!: exI [of _ "[]"] exI [of _ "[0]"])

lemma builds_layout: "builds b kvs \<Longrightarrow> \<exists>es js. built b es js \<and> layout es js \<and> kvs_of es = kvs"
  by (auto simp: builds_def layout_def built_def)

lemma builds_empty: "builds b kvs \<Longrightarrow> bb_empty b \<longleftrightarrow> kvs = []"
proof -
  assume "builds b kvs"
  then obtain es js where "built b es js" "kvs_of es = kvs" by (auto simp: builds_def)
  moreover have "enc es = [] \<longleftrightarrow> es = []"
    using offs_less [of 0 es] by (cases es) auto
  ultimately show ?thesis by (auto simp: bb_empty_def built_def kvs_of_def)
qed

lemma bb_Add_builds:
  assumes "builds b kvs" and "1 \<le> block_restart_interval opts"
    and "CurrentSizeEstimate b + length k + length v + 19 \<le> uint32_max"
  shows "\<exists>b'. bb_Add opts b k v = Some b' \<and> builds b' (kvs @ [(k, v)]) \<and>
    CurrentSizeEstimate b' \<le> CurrentSizeEstimate b + length k + length v + 19"
proof -
  obtain es js where e: "built b es js" "kvs_of es = kvs" "length (block_bytes es js) \<le> uint32_max"
    using assms(1) by (auto simp: builds_def)
  have est: "CurrentSizeEstimate b = length (enc es) + 4 * length js + 4"
    using CurrentSizeEstimate_built [OF e(1)] by (simp add: block_bytes_def length_trailer)
  obtain b' sh js' where b': "bb_Add opts b k v = Some b'" "built b' (es @ [(sh, k, v)]) js'" "length js' \<le> Suc (length js)"
    using bb_Add_built [OF e(1) assms(2), of k v] assms(3) est by auto
  have "CurrentSizeEstimate b' \<le> CurrentSizeEstimate b + length k + length v + 19"
    using CurrentSizeEstimate_built [OF b'(2)] entry_bytes_bound [of sh k v] b'(3) est
    by (simp add: block_bytes_def length_trailer del: entry_bytes.simps)
  moreover have "kvs_of (es @ [(sh, k, v)]) = kvs @ [(k, v)]" using e(2) by (simp add: kvs_of_def)
  ultimately show ?thesis
    using b' assms(3) CurrentSizeEstimate_built [OF b'(2)] unfolding builds_def by fastforce
qed

lemma builds_estimate: "builds b [] \<Longrightarrow> CurrentSizeEstimate b \<le> 8"
proof -
  assume "builds b []"
  then obtain js where e: "built b [] js" by (auto simp: builds_def kvs_of_def)
  then have "length js \<le> 1" using restarts_ok_length [of "[]" js] by (simp add: built_def)
  then show ?thesis using CurrentSizeEstimate_built [OF e] by (simp add: block_bytes_def length_trailer)
qed

lemma index_ok_grow: "index_ok L U F ix bs cur \<Longrightarrow> index_ok L U (F @ G) ix bs cur"
  unfolding index_ok_def using data_at_append by blast

lemma index_ok_shift:
  assumes "index_ok L U F ix bs cur" and "length ix \<le> length bs"
  shows "index_ok L U F ix (bs @ [cur]) []"
  using assms by (auto simp: index_ok_def nth_append less_Suc_eq_le)

lemma strictly_sorted_last:
  assumes "strictly_sorted (kvs @ [kv])" and "x \<in> set kvs"
  shows "compare (fst x) (fst kv) < 0"
  using assms by (auto simp: strictly_sorted_def sorted_wrt_append)

lemma compare_last:
  assumes "strictly_sorted kvs" and "x \<in> set kvs"
  shows "compare (fst x) (fst (last kvs)) \<le> 0"
proof (cases "x = last kvs")
  case False
  have "kvs = butlast kvs @ [last kvs]" using assms(2) by (metis append_butlast_last_id empty_iff empty_set)
  then have "x \<in> set (butlast kvs)" using assms(2) False by (metis rotate1.simps(2) set_ConsD set_rotate1)
  then show ?thesis
    using assms(1) strictly_sorted_last [of "butlast kvs" "last kvs" x] \<open>kvs = _\<close> by fastforce
qed simp

text \<open>Flushing closes the current block; when the file fails, nothing but the status is promised.\<close>

definition failed :: "table_builder \<Rightarrow> bool" where
  "failed r \<longleftrightarrow> \<not> tb_ok r"

lemma Flush_inv:
  assumes A: "append_holds A" and C: "snappy_holds C L U" and inv0: "tb_invb L U opts r bs cur ix"
  shows "\<exists>r'. Flush A C r = Some r' \<and>
    (if cur = [] then r' = r
     else builds (tb_data_block r') [] \<and> tb_options r' = opts \<and> tb_num_entries r' = tb_num_entries r \<and>
       (if tb_ok r' then tb_invb L U opts r' (bs @ [cur]) [] ix \<and> tb_pending_index_entry r'
        else \<not> tb_pending_index_entry r'))"
proof -
  have inv: "tb_inv L U opts r bs cur ix" using inv0 by (simp add: tb_invb_def)
  have db: "builds (tb_data_block r) cur" using inv by (simp add: tb_inv_def)
  show ?thesis
  proof (cases "cur = []")
    case True
    then have "bb_empty (tb_data_block r)" using builds_empty [OF db] by simp
    then show ?thesis using True by (simp add: Flush_def)
  next
    case False
    then have ne: "\<not> bb_empty (tb_data_block r)" using builds_empty [OF db] by simp
    have pend: "\<not> tb_pending_index_entry r" using inv False unfolding tb_inv_def by (cases "tb_pending_index_entry r") auto
    have off: "tb_offset r = word_of_nat (length (tb_file r))" and ok: "tb_ok r" and opts: "tb_options r = opts"
      using inv by (auto simp: tb_inv_def tb_ok_def)
    obtain es js where e: "built (tb_data_block r) es js" "layout es js" "kvs_of es = cur"
      using builds_layout [OF db] by blast
    obtain r1 blk h where w: "WriteBlock A C r (tb_data_block r) = Some (r1, blk, h)" "built blk [] [0]" "same_but_file r r1"
      "tb_ok r1 \<Longrightarrow> (\<exists>G. tb_file r1 = tb_file r @ G \<and> length G \<le> uint32_max + 5) \<and>
         tb_offset r1 = word_of_nat (length (tb_file r1)) \<and> data_at L U (tb_file r1) h (kvs_of es)"
      using WriteBlock_stores [OF A C off e(1,2)] by blast
    note same = same_but_fileD [OF w(3)]
    let ?r2 = "r1\<lparr>tb_data_block := blk, tb_pending_handle := h\<rparr>"
    let ?r' = "if tb_ok ?r2 then ?r2\<lparr>tb_pending_index_entry := True\<rparr> else ?r2"
    have "Flush A C r = Some ?r'" using ok ne w(1) by (simp add: Flush_def)
    moreover have "builds blk []" by (rule builds_init(2) [OF w(2)])
    moreover have ok_eq: "tb_ok ?r2 = tb_ok r1" by (simp add: tb_ok_def)
    moreover have "tb_invb L U opts (?r2\<lparr>tb_pending_index_entry := True\<rparr>) (bs @ [cur]) [] ix" if r1: "tb_ok r1"
    proof -
      obtain G where G: "tb_file r1 = tb_file r @ G" "length G \<le> uint32_max + 5" "tb_offset r1 = word_of_nat (length (tb_file r1))"
        "data_at L U (tb_file r1) h cur"
        using w(4) [OF r1] e(3) by blast
      have "index_ok L U (tb_file r1) ix (bs @ [cur]) []"
        unfolding G(1) using inv pend by (intro index_ok_grow index_ok_shift) (auto simp: tb_inv_def)
      moreover have "tb_status r1 = OK" using r1 by (simp add: tb_ok_def status_ok_iff)
      moreover have "length (tb_file r) \<le> length bs * (uint32_max + 5)" using inv0 by (simp add: tb_invb_def)
      then have "length (tb_file r1) \<le> length (bs @ [cur]) * (uint32_max + 5)" using G(1,2) by simp
      moreover have "length bs = length ix" "\<forall>b \<in> set bs. b \<noteq> []" "builds (tb_index_block r) ix"
        "tb_index_options r = opts\<lparr>block_restart_interval := 1\<rparr>" "last_key_ok (concat bs @ cur) (tb_last_key r)"
        "strictly_sorted (concat bs @ cur)"
        using inv pend by (simp_all add: tb_inv_def)
      ultimately show ?thesis unfolding tb_invb_def
        using False same opts G \<open>builds blk []\<close> by (simp add: tb_inv_def)
    qed
    ultimately show ?thesis using False pend same opts by (auto simp: tb_ok_def)
  qed
qed

lemma builds_bound: "builds b kvs \<Longrightarrow> CurrentSizeEstimate b \<le> kvs_bytes kvs + 8"
proof -
  assume "builds b kvs"
  then obtain es js where e: "built b es js" "kvs_of es = kvs" by (auto simp: builds_def)
  have "length js \<le> length es + 1" using e(1) restarts_ok_length by (auto simp: built_def)
  then show ?thesis
    using CurrentSizeEstimate_built [OF e(1)] enc_bound [of es] e(2) by (simp add: block_bytes_def length_trailer)
qed

lemma last_concat: "bs \<noteq> [] \<Longrightarrow> last bs \<noteq> [] \<Longrightarrow> last (concat bs) = last (last bs)"
  by (induction bs) (auto simp: last_append split: if_splits)

lemma keys_bytes_last: "kvs \<noteq> [] \<Longrightarrow> length (fst (last kvs)) + 39 \<le> keys_bytes kvs"
  by (induction kvs) (auto split: if_splits)

lemma add_index_entry_ok:
  assumes inv: "tb_inv L U opts r bs [] ix" and pend: "tb_pending_index_entry r"
    and key: "compare (tb_last_key r) key \<le> 0" "length key \<le> length (tb_last_key r)"
    and bound: "keys_bytes (concat bs) + 8 \<le> uint32_max"
    and cur: "\<And>kv. kv \<in> set cur \<Longrightarrow> compare key (fst kv) < 0"
  shows "\<exists>idx h. add_index_entry r key =
      Some (r\<lparr>tb_last_key := key, tb_index_block := idx, tb_pending_index_entry := False\<rparr>) \<and>
    builds idx (ix @ [(key, bh_EncodeTo h [])]) \<and> index_ok L U (tb_file r) (ix @ [(key, bh_EncodeTo h [])]) bs cur"
proof -
  have len: "length bs = Suc (length ix)" and at: "data_at L U (tb_file r) (tb_pending_handle r) (last bs)"
    and iok: "index_ok L U (tb_file r) ix bs []" and ne: "\<And>b. b \<in> set bs \<Longrightarrow> b \<noteq> []"
    and sorted: "strictly_sorted (concat bs)" and bi: "builds (tb_index_block r) ix"
    and lastk: "last_key_ok (concat bs) (tb_last_key r)"
    and iopts: "tb_index_options r = opts\<lparr>block_restart_interval := 1\<rparr>"
    using inv pend by (auto simp: tb_inv_def)
  have "bs \<noteq> []" using len by auto
  then have bs: "bs \<noteq> []" "last bs \<in> set bs" "last bs \<noteq> []" using ne last_in_set by blast+
  have bs_eq: "bs = take (length ix) bs @ [last bs]"
    using len bs(1) by (metis append_butlast_last_id butlast_conv_take diff_Suc_1)
  have lk: "tb_last_key r = fst (last (last bs))"
    using lastk last_concat [OF bs(1,3)] bs by (auto simp: last_key_ok_def)
  let ?h = "tb_pending_handle r" and ?e = "(key, bh_EncodeTo (tb_pending_handle r) [])"
  have hl: "length (bh_EncodeTo ?h []) \<le> 20" by (rule length_bh_EncodeTo)
  have kb: "keys_bytes (concat bs) = keys_bytes (concat (take (length ix) bs)) + keys_bytes (last bs)"
    by (subst bs_eq) simp
  have size: "kvs_bytes ix + length key + length (bh_EncodeTo ?h []) + 19 \<le> keys_bytes (concat bs)"
    using iok keys_bytes_last [OF bs(3)] kb key(2) lk hl by (auto simp: index_ok_def)
  have "CurrentSizeEstimate (tb_index_block r) + length key + length (bh_EncodeTo ?h []) + 19 \<le> uint32_max"
    using builds_bound [OF bi] size bound by linarith
  then obtain idx where idx: "bb_Add (tb_index_options r) (tb_index_block r) key (bh_EncodeTo ?h []) = Some idx"
    "builds idx (ix @ [?e])"
    using bb_Add_builds [OF bi, of "tb_index_options r"] iopts by auto
  have in_last: "kv \<in> set (last bs) \<Longrightarrow> compare (fst kv) key \<le> 0" for kv
  proof -
    assume "kv \<in> set (last bs)"
    moreover have "strictly_sorted (last bs)"
    proof -
      have "concat bs = concat (take (length ix) bs) @ last bs" by (subst bs_eq) simp
      then show ?thesis using sorted by (simp add: strictly_sorted_def sorted_wrt_append)
    qed
    ultimately have "compare (fst kv) (fst (last (last bs))) \<le> 0" by (intro compare_last)
    then show ?thesis using key(1) lk compare_le_less_trans [of "fst kv" "tb_last_key r" key] by fastforce
  qed
  have before: "compare (fst (ix ! i)) key < 0" if i: "i < length ix" for i
  proof -
    have "drop (Suc i) bs = drop (Suc i) (take (length ix) bs) @ [last bs]"
      using i len by (subst bs_eq) simp
    then have "last (last bs) \<in> set (concat (drop (Suc i) bs) @ [])" using bs(3) by auto
    then have "compare (fst (ix ! i)) (fst (last (last bs))) < 0"
      using iok i unfolding index_ok_def by blast
    then show ?thesis using key(1) lk compare_less_le_trans by metis
  qed
  have "index_ok L U (tb_file r) (ix @ [?e]) bs cur"
    unfolding index_ok_def
  proof (intro conjI allI impI)
    show "kvs_bytes (ix @ [?e]) \<le> keys_bytes (concat (take (length (ix @ [?e])) bs))"
      using size len by simp
    fix i assume i: "i < length (ix @ [?e])"
    have last_nth: "bs ! length ix = last bs" using len bs(1) by (simp add: last_conv_nth)
    show "\<exists>h. snd ((ix @ [?e]) ! i) = bh_EncodeTo h [] \<and> data_at L U (tb_file r) h (bs ! i)"
      using i iok at last_nth by (auto simp: nth_append less_Suc_eq index_ok_def)
    show "\<forall>kv\<in>set (bs ! i). compare (fst kv) (fst ((ix @ [?e]) ! i)) \<le> 0"
      using i iok in_last last_nth by (auto simp: nth_append less_Suc_eq index_ok_def)
    show "\<forall>kv\<in>set (concat (drop (Suc i) bs) @ cur). compare (fst ((ix @ [?e]) ! i)) (fst kv) < 0"
    proof
      fix kv assume kv: "kv \<in> set (concat (drop (Suc i) bs) @ cur)"
      show "compare (fst ((ix @ [?e]) ! i)) (fst kv) < 0"
      proof (cases "i = length ix")
        case True
        then show ?thesis using kv len cur by (simp add: nth_append)
      next
        case False
        then have i': "i < length ix" using i by simp
        show ?thesis
        proof (cases "kv \<in> set cur")
          case True
          then have "compare (fst (ix ! i)) (fst kv) < 0" using cur before [OF i'] compare_less_trans by blast
          then show ?thesis using i' by (simp add: nth_append)
        next
          case False
          then show ?thesis using kv iok i' by (auto simp: nth_append index_ok_def)
        qed
      qed
    qed
  qed
  then show ?thesis using idx by (auto simp: add_index_entry_def Let_def)
qed

lemma index_ok_snoc:
  assumes "index_ok L U F ix bs cur" and "length ix = length bs" and "bs \<noteq> [] \<longrightarrow> cur \<noteq> []"
    and sorted: "strictly_sorted (concat bs @ cur @ [kv])"
  shows "index_ok L U F ix bs (cur @ [kv])"
proof -
  have "compare (fst (ix ! i)) (fst kv) < 0" if i: "i < length ix" for i
  proof -
    have ne: "cur \<noteq> []" using i assms(2,3) by auto
    then have "compare (fst (ix ! i)) (fst (last cur)) < 0" using assms(1) i by (auto simp: index_ok_def)
    moreover have "compare (fst (last cur)) (fst kv) < 0"
      using strictly_sorted_last [of "concat bs @ cur" kv "last cur"] sorted ne by simp
    ultimately show ?thesis by (rule compare_less_trans)
  qed
  then show ?thesis using assms(1) by (auto simp: index_ok_def)
qed

text \<open>The state in which the next entry goes into the data block.\<close>

lemma prepare_entry:
  assumes inv: "tb_inv L U opts r bs cur ix" and sorted: "strictly_sorted (concat bs @ cur @ [kv])"
    and bound: "keys_bytes (concat bs) + 8 \<le> uint32_max"
  shows "\<exists>r' ix'. (if tb_pending_index_entry r
      then add_index_entry r (FindShortestSeparator (tb_last_key r) (fst kv)) else Some r) = Some r' \<and>
    tb_options r' = opts \<and> tb_index_options r' = tb_index_options r \<and> tb_status r' = OK \<and> tb_file r' = tb_file r \<and>
    tb_offset r' = tb_offset r \<and> tb_data_block r' = tb_data_block r \<and> \<not> tb_pending_index_entry r' \<and>
    builds (tb_index_block r') ix' \<and> length ix' = length bs \<and> index_ok L U (tb_file r) ix' bs (cur @ [kv])"
proof (cases "tb_pending_index_entry r")
  case False
  then have "length bs = length ix" "bs \<noteq> [] \<longrightarrow> cur \<noteq> []" "index_ok L U (tb_file r) ix bs cur"
    using inv by (auto simp: tb_inv_def)
  then show ?thesis
    using inv False index_ok_snoc [of L U "tb_file r" ix bs cur kv] sorted
    by (intro exI [of _ r] exI [of _ ix]) (simp add: tb_inv_def)
next
  case True
  then have cur: "cur = []" and len: "length bs = Suc (length ix)" using inv by (auto simp: tb_inv_def)
  have "concat bs \<noteq> []" using inv len by (cases bs) (auto simp: tb_inv_def)
  then have lk: "tb_last_key r = fst (last (concat bs))" using inv cur by (simp add: tb_inv_def last_key_ok_def)
  have "compare (tb_last_key r) (fst kv) < 0"
    unfolding lk using sorted cur
    by (intro strictly_sorted_last [OF _ last_in_set [OF \<open>concat bs \<noteq> []\<close>]]) simp
  note sep = FindShortestSeparator_separates [OF this]
  let ?s = "FindShortestSeparator (tb_last_key r) (fst kv)"
  obtain idx h where
    "add_index_entry r ?s = Some (r\<lparr>tb_last_key := ?s, tb_index_block := idx, tb_pending_index_entry := False\<rparr>)"
    "builds idx (ix @ [(?s, bh_EncodeTo h [])])" "index_ok L U (tb_file r) (ix @ [(?s, bh_EncodeTo h [])]) bs [kv]"
    using add_index_entry_ok [OF inv [unfolded cur] True sep(1,3) bound, of "[kv]"] sep(2) by auto
  moreover have "tb_options r = opts" "tb_status r = OK" using inv by (simp_all add: tb_inv_def)
  ultimately show ?thesis
    using True cur len
    by (intro exI [of _ "r\<lparr>tb_last_key := ?s, tb_index_block := idx, tb_pending_index_entry := False\<rparr>"]
        exI [of _ "ix @ [(?s, bh_EncodeTo h [])]"]) simp
qed


definition at_rest :: "options \<Rightarrow> table_builder \<Rightarrow> bool" where
  "at_rest opts r \<longleftrightarrow> CurrentSizeEstimate (tb_data_block r) \<le> max 8 (block_size opts)"

definition entry_fits :: "options \<Rightarrow> (bytes \<times> bytes) \<Rightarrow> bool" where
  "entry_fits opts kv \<longleftrightarrow> max 8 (block_size opts) + length (fst kv) + length (snd kv) + 19 \<le> uint32_max"

text \<open>
  After the optional first flush the builder is in the invariant with the same entries, or
  the file has failed and the data block is empty.
\<close>

lemma first_flush:
  assumes A: "append_holds A" and C: "snappy_holds C L U" and inv: "tb_invb L U opts r bs cur ix" and rest: "at_rest opts r"
  shows "\<exists>r'. (if b then Flush A C r else Some r) = Some r' \<and> at_rest opts r' \<and> tb_options r' = opts \<and>
    (if tb_ok r' then \<exists>bs' cur' ix'. tb_invb L U opts r' bs' cur' ix' \<and> concat bs' @ cur' = concat bs @ cur
     else builds (tb_data_block r') [] \<and> \<not> tb_pending_index_entry r')"
proof (cases "b \<and> cur \<noteq> []")
  case False
  then have "(if b then Flush A C r else Some r) = Some r"
    using Flush_inv [OF A C inv] by (cases b) auto
  moreover have "tb_ok r" "tb_options r = opts" using inv by (simp_all add: tb_invb_def tb_inv_def tb_ok_def)
  ultimately show ?thesis using inv rest by auto
next
  case True
  then obtain r' where r': "Flush A C r = Some r'" "builds (tb_data_block r') []" "tb_options r' = opts"
    "if tb_ok r' then tb_invb L U opts r' (bs @ [cur]) [] ix \<and> tb_pending_index_entry r' else \<not> tb_pending_index_entry r'"
    using Flush_inv [OF A C inv] by auto
  have "at_rest opts r'" using builds_estimate [OF r'(2)] by (simp add: at_rest_def)
  moreover have "concat (bs @ [cur]) @ [] = concat bs @ cur" by simp
  ultimately show ?thesis using r' True by (cases "tb_ok r'") (auto intro!: exI [of _ "bs @ [cur]"])
qed

lemma tb_Add_inv:
  assumes A: "append_holds A" and C: "snappy_holds C L U" and interval: "1 \<le> block_restart_interval opts"
    and inv: "tb_invb L U opts r bs cur ix" and rest: "at_rest opts r"
    and sorted: "strictly_sorted (concat bs @ cur @ [(k, v)])"
    and bound: "keys_bytes (concat bs @ cur) + 8 \<le> uint32_max" and fits: "entry_fits opts (k, v)"
  shows "\<exists>r'. tb_Add A C r k v = Some r' \<and>
    (tb_ok r' \<longrightarrow> at_rest opts r' \<and>
      (\<exists>bs' cur' ix'. tb_invb L U opts r' bs' cur' ix' \<and> concat bs' @ cur' = concat bs @ cur @ [(k, v)]))"
proof -
  have ok: "tb_ok r" "tb_options r = opts" using inv by (simp_all add: tb_invb_def tb_inv_def tb_ok_def)
  let ?cond = "0 <s tb_num_entries r \<and> length k + length v \<ge> 2 * block_size opts"
  obtain r1 where r1: "(if ?cond then Flush A C r else Some r) = Some r1" "at_rest opts r1" "tb_options r1 = opts"
    "if tb_ok r1 then \<exists>bs' cur' ix'. tb_invb L U opts r1 bs' cur' ix' \<and> concat bs' @ cur' = concat bs @ cur
     else builds (tb_data_block r1) [] \<and> \<not> tb_pending_index_entry r1"
    using first_flush [OF A C inv rest, of ?cond] by blast
  have fit: "CurrentSizeEstimate (tb_data_block r1) + length k + length v + 19 \<le> uint32_max"
    using r1(2) fits by (simp add: at_rest_def entry_fits_def)
  let ?add = "\<lambda>r2. r2\<lparr>tb_last_key := k, tb_num_entries := tb_num_entries r2 + 1\<rparr>"
  show ?thesis
  proof (cases "tb_ok r1")
    case False
    then have f: "builds (tb_data_block r1) []" "\<not> tb_pending_index_entry r1" using r1(4) by auto
    obtain d where d: "bb_Add opts (tb_data_block r1) k v = Some d"
      using bb_Add_builds [OF f(1) interval fit] by blast
    let ?r3 = "(?add r1)\<lparr>tb_data_block := d\<rparr>"
    have "\<not> tb_ok ?r3" using False by (simp add: tb_ok_def)
    then have "tb_Add A C r k v = Some ?r3"
      using ok r1(1,3) f(2) d by (simp add: tb_Add_def Let_def Flush_def)
    then show ?thesis using \<open>\<not> tb_ok ?r3\<close> by blast
  next
    case True
    then obtain bs1 cur1 ix1 where i1: "tb_invb L U opts r1 bs1 cur1 ix1" "concat bs1 @ cur1 = concat bs @ cur"
      using r1(4) by auto
    have i1': "tb_inv L U opts r1 bs1 cur1 ix1" "length (tb_file r1) \<le> length bs1 * (uint32_max + 5)"
      using i1(1) by (simp_all add: tb_invb_def)
    have s1: "strictly_sorted (concat bs1 @ cur1 @ [(k, v)])" using sorted i1(2) by (metis append.assoc)
    have b1: "keys_bytes (concat bs1) + 8 \<le> uint32_max"
    proof -
      have "keys_bytes (concat bs1 @ cur1) + 8 \<le> uint32_max" using bound by (simp only: i1(2))
      then show ?thesis by simp
    qed
    obtain r2 ix2 where r2: "(if tb_pending_index_entry r1
        then add_index_entry r1 (FindShortestSeparator (tb_last_key r1) k) else Some r1) = Some r2"
      "tb_options r2 = opts" "tb_index_options r2 = tb_index_options r1" "tb_status r2 = OK" "tb_file r2 = tb_file r1"
      "tb_offset r2 = tb_offset r1" "tb_data_block r2 = tb_data_block r1" "\<not> tb_pending_index_entry r2"
      "builds (tb_index_block r2) ix2" "length ix2 = length bs1" "index_ok L U (tb_file r1) ix2 bs1 (cur1 @ [(k, v)])"
      using prepare_entry [OF i1'(1) s1 b1] unfolding fst_conv by blast
    have db: "builds (tb_data_block r1) cur1" using i1'(1) by (simp add: tb_inv_def)
    obtain d where d: "bb_Add opts (tb_data_block r1) k v = Some d" "builds d (cur1 @ [(k, v)])"
      using bb_Add_builds [OF db interval fit] by blast
    let ?r3 = "(?add r2)\<lparr>tb_data_block := d\<rparr>"
    have i3: "tb_invb L U opts ?r3 bs1 (cur1 @ [(k, v)]) ix2"
      using i1' r2(2-11) d(2) s1 by (simp add: tb_invb_def tb_inv_def)
    have add: "tb_Add A C r k v =
        (if CurrentSizeEstimate d \<ge> block_size opts then Flush A C ?r3 else Some ?r3)"
      using ok r1(1,3) r2(1,2,7) d(1) by (simp add: tb_Add_def Let_def)
    show ?thesis
    proof (cases "CurrentSizeEstimate d \<ge> block_size opts")
      case False
      moreover have "concat bs1 @ cur1 @ [(k, v)] = concat bs @ cur @ [(k, v)]" using i1(2) by (metis append.assoc)
      then have "\<exists>bs' cur' ix'. tb_invb L U opts ?r3 bs' cur' ix' \<and> concat bs' @ cur' = concat bs @ cur @ [(k, v)]"
        using i3 by blast
      moreover have "at_rest opts ?r3" using False by (simp add: at_rest_def max_def)
      ultimately show ?thesis using add by simp
    next
      case True
      then obtain r4 where r4: "Flush A C ?r3 = Some r4" "builds (tb_data_block r4) []"
        "tb_ok r4 \<Longrightarrow> tb_invb L U opts r4 (bs1 @ [cur1 @ [(k, v)]]) [] ix2"
        using Flush_inv [OF A C i3] by (auto split: if_splits)
      have "at_rest opts r4" using builds_estimate [OF r4(2)] by (simp add: at_rest_def)
      moreover have "concat (bs1 @ [cur1 @ [(k, v)]]) @ [] = concat bs @ cur @ [(k, v)]"
        using arg_cong [OF i1(2), of "\<lambda>x. x @ [(k, v)]"] by simp
      then have "tb_ok r4 \<longrightarrow> (\<exists>bs' cur' ix'. tb_invb L U opts r4 bs' cur' ix' \<and> concat bs' @ cur' = concat bs @ cur @ [(k, v)])"
        using r4(3) by blast
      ultimately show ?thesis using add True r4(1) by simp
    qed
  qed
qed

lemma separated_index:
  assumes "index_ok L U F ix bs []" and "length ix = length bs"
  shows "separated ix bs"
  unfolding separated_def
proof (intro conjI allI impI)
  fix i assume i: "i < length bs"
  show "\<forall>kv\<in>set (bs ! i). compare (fst kv) (fst (ix ! i)) \<le> 0" using assms i by (simp add: index_ok_def)
  fix j assume j: "j < length bs" "i < j"
  then have "drop (Suc i) bs ! (j - Suc i) = bs ! j" "j - Suc i < length (drop (Suc i) bs)" by simp_all
  then have "bs ! j \<in> set (drop (Suc i) bs)" by (metis nth_mem)
  then show "\<forall>kv\<in>set (bs ! j). compare (fst (ix ! i)) (fst kv) < 0"
    using assms i by (auto simp: index_ok_def)
qed

lemma tb_inv_grow:
  assumes "tb_inv L U opts r bs cur ix" and "same_but_file r r'" and "tb_ok r'"
    and "tb_file r' = tb_file r @ G" and "tb_offset r' = word_of_nat (length (tb_file r'))"
  shows "tb_inv L U opts r' bs cur ix"
proof -
  have "index_ok L U (tb_file r') ix bs cur" "tb_pending_index_entry r \<longrightarrow> data_at L U (tb_file r') (tb_pending_handle r) (last bs)"
    using assms(1) unfolding tb_inv_def assms(4) by (auto intro: index_ok_grow data_at_append)
  then show ?thesis
    using assms(1,3,5) same_but_fileD [OF assms(2)]
    unfolding tb_inv_def tb_ok_def status_ok_iff by (simp split: if_splits)
qed

text \<open>Completing the index, and writing it.\<close>

lemma finish_index:
  assumes inv: "tb_inv L U opts r bs [] ix" and bound: "keys_bytes (concat bs) + 8 \<le> uint32_max"
  shows "\<exists>r' ix'. (if tb_pending_index_entry r then add_index_entry r (FindShortSuccessor (tb_last_key r)) else Some r) = Some r' \<and>
    tb_status r' = OK \<and> tb_offset r' = word_of_nat (length (tb_file r')) \<and> tb_file r' = tb_file r \<and>
    builds (tb_index_block r') ix' \<and> length ix' = length bs \<and> index_ok L U (tb_file r) ix' bs []"
proof (cases "tb_pending_index_entry r")
  case False
  then have "length bs = length ix" "index_ok L U (tb_file r) ix bs []" "tb_status r = OK"
    "tb_offset r = word_of_nat (length (tb_file r))" "builds (tb_index_block r) ix"
    using inv unfolding tb_inv_def by auto
  then show ?thesis using False by auto
next
  case True
  let ?s = "FindShortSuccessor (tb_last_key r)"
  obtain idx h where
    "add_index_entry r ?s = Some (r\<lparr>tb_last_key := ?s, tb_index_block := idx, tb_pending_index_entry := False\<rparr>)"
    "builds idx (ix @ [(?s, bh_EncodeTo h [])])" "index_ok L U (tb_file r) (ix @ [(?s, bh_EncodeTo h [])]) bs []"
    using add_index_entry_ok [OF inv True FindShortSuccessor_after bound, of "[]"] by auto
  moreover have "length bs = Suc (length ix)" "tb_status r = OK" "tb_offset r = word_of_nat (length (tb_file r))"
    using inv True by (simp_all add: tb_inv_def)
  ultimately show ?thesis
    using True
    by (intro exI [of _ "r\<lparr>tb_last_key := ?s, tb_index_block := idx, tb_pending_index_entry := False\<rparr>"]
        exI [of _ "ix @ [(?s, bh_EncodeTo h [])]"]) simp
qed

text \<open>The code after the metaindex block, and before it.\<close>

definition finish_tail ::
  "file_append \<Rightarrow> (bytes \<Rightarrow> bytes option) \<Rightarrow> table_builder \<Rightarrow> BlockHandle \<Rightarrow> (table_builder \<times> status) option" where
  "finish_tail Append Snappy_Compress r metaindex_block_handle =
     do {
       (r, index_block_handle) \<leftarrow>
         (if tb_ok r
          then do {
            r \<leftarrow> (if tb_pending_index_entry r
                  then add_index_entry r (FindShortSuccessor (tb_last_key r)) else Some r);
            (r, blk, handle) \<leftarrow> WriteBlock Append Snappy_Compress r (tb_index_block r);
            Some (r\<lparr>tb_index_block := blk\<rparr>, handle)
          }
          else Some (r, BlockHandle_init));
       if tb_ok r
       then
         let footer_encoding =
               footer_EncodeTo \<lparr>metaindex_handle = metaindex_block_handle, index_handle = index_block_handle\<rparr> [];
             (file, st) = Append (tb_file r) footer_encoding;
             r = r\<lparr>tb_file := file, tb_status := st\<rparr>;
             r = (if status_ok st then r\<lparr>tb_offset := tb_offset r + word_of_nat (length footer_encoding)\<rparr> else r)
         in Some (r, tb_status r)
       else Some (r, tb_status r)
     }"

lemma tb_Finish_eq:
  "tb_Finish A C r =
     do {
       r \<leftarrow> Flush A C r;
       let r = r\<lparr>tb_closed := True\<rparr>;
       (r, h) \<leftarrow> (if tb_ok r
          then do { (r, _, handle) \<leftarrow> WriteBlock A C r BlockBuilder; Some (r, handle) }
          else Some (r, BlockHandle_init));
       finish_tail A C r h
     }"
  by (simp only: tb_Finish_def finish_tail_def)

lemma finish_tail_failed: "\<not> tb_ok r \<Longrightarrow> finish_tail A C r h = Some (r, tb_status r)"
  by (simp add: finish_tail_def)

lemma finish_tail_file:
  assumes A: "append_holds A" and C: "snappy_holds C L U"
    and inv: "tb_inv L U opts r bs [] ix" and bound: "keys_bytes (concat bs) + 8 \<le> uint32_max"
    and size: "length (tb_file r) \<le> (length bs + 1) * (uint32_max + 5)"
  shows "\<exists>r' st. finish_tail A C r mh = Some (r', st) \<and>
    (st = OK \<longrightarrow> table_file L U (tb_file r') (concat bs) \<and> length (tb_file r') \<le> (length bs + 2) * (uint32_max + 5) + 48)"
proof -
  obtain r1 ix' where r1: "(if tb_pending_index_entry r then add_index_entry r (FindShortSuccessor (tb_last_key r)) else Some r) = Some r1"
    "tb_status r1 = OK" "tb_offset r1 = word_of_nat (length (tb_file r1))" "tb_file r1 = tb_file r"
    "builds (tb_index_block r1) ix'" "length ix' = length bs" "index_ok L U (tb_file r) ix' bs []"
    using finish_index [OF inv bound] by blast
  obtain es js where e: "built (tb_index_block r1) es js" "layout es js" "kvs_of es = ix'"
    using builds_layout [OF r1(5)] by blast
  obtain r2 blk ih where w: "WriteBlock A C r1 (tb_index_block r1) = Some (r2, blk, ih)"
    "tb_ok r2 \<longrightarrow> (\<exists>G. tb_file r2 = tb_file r1 @ G \<and> length G \<le> uint32_max + 5) \<and>
       tb_offset r2 = word_of_nat (length (tb_file r2)) \<and> data_at L U (tb_file r2) ih (kvs_of es)"
    using WriteBlock_stores [OF A C r1(3) e(1,2)] by blast
  have ok: "tb_ok r" using inv by (simp add: tb_inv_def tb_ok_def)
  let ?r3 = "r2\<lparr>tb_index_block := blk\<rparr>"
  have ok3: "tb_ok ?r3 = tb_ok r2" by (simp add: tb_ok_def)
  define foot where "foot = footer_EncodeTo \<lparr>metaindex_handle = mh, index_handle = ih\<rparr> []"
  obtain F st where a: "A (tb_file r2) foot = (F, st)" by fastforce
  have tail: "finish_tail A C r mh =
      (if tb_ok r2
       then Some (if status_ok st then ?r3\<lparr>tb_file := F, tb_status := st, tb_offset := tb_offset r2 + word_of_nat (length foot)\<rparr>
                  else ?r3\<lparr>tb_file := F, tb_status := st\<rparr>, st)
       else Some (?r3, tb_status r2))"
    using ok r1(1) w(1) ok3 a by (simp add: finish_tail_def foot_def [symmetric] Let_def)
  show ?thesis
  proof (cases "tb_ok r2 \<and> st = OK")
    case False
    then have "\<not> tb_ok r2 \<Longrightarrow> tb_status r2 \<noteq> OK" by (auto simp: tb_ok_def)
    then show ?thesis using tail False by (cases "tb_ok r2") auto
  next
    case True
    then obtain G where G: "tb_file r2 = tb_file r @ G" "data_at L U (tb_file r2) ih ix'" "length G \<le> uint32_max + 5"
      using w(2) r1(4) e(3) by auto
    have F: "F = tb_file r2 @ foot" using A a True by (auto simp: append_holds_def)
    have iok: "index_ok L U F ix' bs []"
      unfolding F G(1) append_assoc by (rule index_ok_grow [OF r1(7)])
    have "table_file L U F (concat bs)"
      unfolding table_file_def
    proof (intro exI conjI)
      show "separated ix' bs" by (rule separated_index [OF iok r1(6)])
      show "data_at L U F ih ix'" unfolding F by (rule data_at_append [OF G(2)])
      show "F = tb_file r2 @ footer_EncodeTo \<lparr>metaindex_handle = mh, index_handle = ih\<rparr> []" using F by (simp add: foot_def)
      show "\<forall>i<length bs. bs ! i \<noteq> [] \<and> (\<exists>h. snd (ix' ! i) = bh_EncodeTo h [] \<and> data_at L U F h (bs ! i))"
        using iok r1(6) inv by (simp add: index_ok_def tb_inv_def)
    qed (use r1(6) in auto)
    moreover have "length F \<le> (length bs + 2) * (uint32_max + 5) + 48"
      using size G(1,3) by (simp add: F foot_def length_footer)
    ultimately show ?thesis using tail True by simp
  qed
qed

lemma length_concat_ge: "(\<forall>b \<in> set bs. b \<noteq> []) \<Longrightarrow> length bs \<le> length (concat bs)"
proof (induction bs)
  case (Cons b bs)
  then have "1 \<le> length b" by (cases b) auto
  with Cons show ?case by simp
qed simp

lemma length_keys_bytes: "39 * length kvs \<le> keys_bytes kvs"
  by (induction kvs) auto

lemma tb_Finish_file:
  assumes A: "append_holds A" and C: "snappy_holds C L U"
    and inv: "tb_invb L U opts r bs cur ix" and bound: "keys_bytes (concat bs @ cur) + 8 \<le> uint32_max"
  shows "\<exists>r' st. tb_Finish A C r = Some (r', st) \<and> 
    (st = OK \<longrightarrow> table_file L U (tb_file r') (concat bs @ cur) \<and> length (tb_file r') < 2 ^ 64)"
proof -
  obtain r1 where r1: "Flush A C r = Some r1" and
    ok1: "tb_ok r1 \<longrightarrow> (\<exists>bs'. tb_invb L U opts r1 bs' [] ix \<and> concat bs' = concat bs @ cur)"
  proof (cases "cur = []")
    case True
    then show ?thesis using that Flush_inv [OF A C inv] inv by auto
  next
    case False
    then obtain r1 where "Flush A C r = Some r1" "tb_ok r1 \<longrightarrow> tb_invb L U opts r1 (bs @ [cur]) [] ix"
      using Flush_inv [OF A C inv] by (auto split: if_splits)
    moreover have "concat (bs @ [cur]) = concat bs @ cur" by simp
    ultimately show ?thesis using that by blast
  qed
  let ?r1 = "r1\<lparr>tb_closed := True\<rparr>"
  have eq: "tb_ok ?r1 = tb_ok r1" by (simp add: tb_ok_def)
  show ?thesis
  proof (cases "tb_ok r1")
    case False
    then have "tb_Finish A C r = Some (?r1, tb_status ?r1)"
      using r1 eq by (simp add: tb_Finish_eq finish_tail_failed)
    moreover have "tb_status ?r1 \<noteq> OK" using False by (auto simp: tb_ok_def)
    ultimately show ?thesis by blast
  next
    case True
    then obtain bs' where bs': "tb_invb L U opts r1 bs' [] ix" "concat bs' = concat bs @ cur" using ok1 by blast
    have inv1: "tb_inv L U opts ?r1 bs' [] ix" using bs'(1) unfolding tb_invb_def tb_inv_def by (simp split: if_splits)
    have off: "tb_offset ?r1 = word_of_nat (length (tb_file ?r1))" using inv1 by (simp add: tb_inv_def)
    obtain es js where e: "built BlockBuilder es js" "layout es js" using builds_layout [OF builds_init(1)] by blast
    obtain r2 blk mh where w: "WriteBlock A C ?r1 BlockBuilder = Some (r2, blk, mh)" "same_but_file ?r1 r2"
      "tb_ok r2 \<longrightarrow> (\<exists>G. tb_file r2 = tb_file ?r1 @ G \<and> length G \<le> uint32_max + 5) \<and> tb_offset r2 = word_of_nat (length (tb_file r2))"
      using WriteBlock_stores [OF A C off e] by blast
    have fin: "tb_Finish A C r = finish_tail A C r2 mh"
      using r1 True eq w(1) by (simp add: tb_Finish_eq)
    show ?thesis
    proof (cases "tb_ok r2")
      case False
      then have "tb_status r2 \<noteq> OK" by (auto simp: tb_ok_def)
      then show ?thesis using fin finish_tail_failed [OF False] by auto
    next
      case ok2: True
      have inv2: "tb_inv L U opts r2 bs' [] ix" using tb_inv_grow [OF inv1 w(2) ok2] w(3) ok2 by blast
      have bnd: "keys_bytes (concat bs') + 8 \<le> uint32_max" using bound bs'(2) by simp
      have "length (tb_file r1) \<le> length bs' * (uint32_max + 5)" using bs'(1) by (simp add: tb_invb_def)
      then have "length (tb_file r2) \<le> (length bs' + 1) * (uint32_max + 5)" using w(3) ok2 by auto
      from finish_tail_file [OF A C inv2 bnd this, of mh] obtain r' st where
        r': "finish_tail A C r2 mh = Some (r', st)" "st = OK \<longrightarrow> table_file L U (tb_file r') (concat bs') \<and>
          length (tb_file r') \<le> (length bs' + 2) * (uint32_max + 5) + 48" by blast
      have "39 * length bs' \<le> uint32_max"
        using length_concat_ge [of bs'] length_keys_bytes [of "concat bs'"] bnd inv2 by (auto simp: tb_inv_def)
      then have "(length bs' + 2) * (uint32_max + 5) + 48 < 2 ^ 64" by (simp add: uint32_max_def)
      then show ?thesis using r' fin bs'(2) by auto
    qed
  qed
qed

section \<open>Theorems\<close>

fun tb_AddAll ::
  "file_append \<Rightarrow> (bytes \<Rightarrow> bytes option) \<Rightarrow> table_builder \<Rightarrow> (bytes \<times> bytes) list \<Rightarrow> table_builder option" where
  "tb_AddAll A C r [] = Some r"
| "tb_AddAll A C r ((k, v) # kvs) = Option.bind (tb_Add A C r k v) (\<lambda>r'. tb_AddAll A C r' kvs)"

lemma tb_AddAll_failed: "\<not> tb_ok r \<Longrightarrow> tb_AddAll A C r kvs = Some r"
  by (induction kvs) (auto simp: tb_Add_def)

lemma tb_AddAll_inv:
  assumes A: "append_holds A" and C: "snappy_holds C L U" and interval: "1 \<le> block_restart_interval opts"
  shows "tb_invb L U opts r bs cur ix \<Longrightarrow> at_rest opts r \<Longrightarrow> strictly_sorted (concat bs @ cur @ kvs) \<Longrightarrow>
    keys_bytes (concat bs @ cur @ kvs) + 8 \<le> uint32_max \<Longrightarrow> (\<forall>kv \<in> set kvs. entry_fits opts kv) \<Longrightarrow>
    \<exists>r'. tb_AddAll A C r kvs = Some r' \<and>
      (tb_ok r' \<longrightarrow> (\<exists>bs' cur' ix'. tb_invb L U opts r' bs' cur' ix' \<and> concat bs' @ cur' = concat bs @ cur @ kvs))"
proof (induction kvs arbitrary: r bs cur ix)
  case Nil
  then show ?case by auto
next
  case (Cons kv kvs)
  obtain k v where kv: "kv = (k, v)" by (cases kv)
  have s: "strictly_sorted (concat bs @ cur @ [(k, v)])"
    using Cons.prems(3) by (simp add: kv strictly_sorted_def sorted_wrt_append)
  obtain r1 where r1: "tb_Add A C r k v = Some r1"
    "tb_ok r1 \<longrightarrow> at_rest opts r1 \<and>
      (\<exists>bs' cur' ix'. tb_invb L U opts r1 bs' cur' ix' \<and> concat bs' @ cur' = concat bs @ cur @ [(k, v)])"
    using tb_Add_inv [OF A C interval Cons.prems(1,2) s] Cons.prems(4,5) by (auto simp: kv)
  show ?case
  proof (cases "tb_ok r1")
    case False
    then show ?thesis using r1(1) by (auto simp: kv tb_AddAll_failed)
  next
    case True
    then obtain bs1 cur1 ix1 where i1: "at_rest opts r1" "tb_invb L U opts r1 bs1 cur1 ix1"
      "concat bs1 @ cur1 = concat bs @ cur @ [(k, v)]" using r1(2) by blast
    have e: "concat bs1 @ cur1 @ kvs = concat bs @ cur @ kv # kvs"
      using arg_cong [OF i1(3), of "\<lambda>x. x @ kvs"] by (simp add: kv)
    have "\<exists>r'. tb_AddAll A C r1 kvs = Some r' \<and>
      (tb_ok r' \<longrightarrow> (\<exists>bs' cur' ix'. tb_invb L U opts r' bs' cur' ix' \<and> concat bs' @ cur' = concat bs1 @ cur1 @ kvs))"
      using Cons.prems(3-5) by (intro Cons.IH [OF i1(2,1)]) (simp_all only: e, simp)
    then show ?thesis using r1(1) e by (simp add: kv)
  qed
qed

lemma table_build:
  assumes A: "append_holds A" and C: "snappy_holds C L U" and interval: "1 \<le> block_restart_interval opts"
    and sorted: "strictly_sorted kvs" and bound: "keys_bytes kvs + 8 \<le> uint32_max"
    and fits: "\<forall>kv \<in> set kvs. entry_fits opts kv"
  shows "\<exists>r r' st. tb_AddAll A C (TableBuilder opts []) kvs = Some r \<and> tb_Finish A C r = Some (r', st) \<and>
    (st = OK \<longrightarrow> table_file L U (tb_file r') kvs \<and> length (tb_file r') < 2 ^ 64)"
proof -
  have inv: "tb_invb L U opts (TableBuilder opts []) [] [] []"
    using builds_init(1) by (simp add: tb_invb_def tb_inv_def TableBuilder_def index_ok_def strictly_sorted_def)
  have "at_rest opts (TableBuilder opts [])"
    using builds_estimate [OF builds_init(1)] by (simp add: at_rest_def TableBuilder_def)
  from tb_AddAll_inv [OF A C interval inv this, of kvs] sorted bound fits obtain r where
    r: "tb_AddAll A C (TableBuilder opts []) kvs = Some r"
    "tb_ok r \<longrightarrow> (\<exists>bs' cur' ix'. tb_invb L U opts r bs' cur' ix' \<and> concat bs' @ cur' = kvs)"
    by auto
  show ?thesis
  proof (cases "tb_ok r")
    case False
    then have "tb_Finish A C r = Some (r\<lparr>tb_closed := True\<rparr>, tb_status r)" "tb_status r \<noteq> OK"
      by (auto simp: tb_Finish_eq Flush_def finish_tail_failed tb_ok_def)
    then show ?thesis using r(1) by blast
  next
    case True
    then obtain bs cur ix where "tb_invb L U opts r bs cur ix" "concat bs @ cur = kvs" using r(2) by blast
    then show ?thesis using tb_Finish_file [OF A C] bound r(1) by blast
  qed
qed


lemma add_index_entry_status: "add_index_entry r k = Some r' \<Longrightarrow> tb_ok r' = tb_ok r"
  by (auto simp: add_index_entry_def tb_ok_def Let_def bind_eq_Some_conv)

lemma Flush_ok:
  assumes "appends_succeed A" and "tb_ok r" and "Flush A C r = Some r'"
  shows "tb_ok r'"
proof (cases "bb_empty (tb_data_block r)")
  case False
  obtain r1 blk h where w: "WriteBlock A C r (tb_data_block r) = Some (r1, blk, h)"
    using assms(2,3) False by (cases "WriteBlock A C r (tb_data_block r)") (auto simp: Flush_def)
  have "tb_ok r1" by (rule WriteBlock_ok [OF assms(1) w])
  then show ?thesis using assms(2,3) False w by (auto simp: Flush_def tb_ok_def)
qed (use assms in \<open>auto simp: Flush_def\<close>)

lemma tb_Add_ok:
  assumes "appends_succeed A" and "tb_ok r" and "tb_Add A C r k v = Some r'"
  shows "tb_ok r'"
proof -
  obtain r1 where r1: "(if 0 <s tb_num_entries r \<and> length k + length v \<ge> 2 * block_size (tb_options r)
      then Flush A C r else Some r) = Some r1"
    using assms(2,3) by (auto simp: tb_Add_def bind_eq_Some_conv)
  obtain r2 where r2: "(if tb_pending_index_entry r1
      then add_index_entry r1 (FindShortestSeparator (tb_last_key r1) k) else Some r1) = Some r2"
    using assms(2,3) r1 by (auto simp: tb_Add_def bind_eq_Some_conv)
  have ok1: "tb_ok r1" using r1 assms(1,2) Flush_ok by (auto split: if_splits)
  then have ok2: "tb_ok r2" using r2 add_index_entry_status by (auto split: if_splits)
  obtain d where d: "bb_Add (tb_options r2) (tb_data_block r2) k v = Some d"
    using assms(2,3) r1 r2 by (auto simp: tb_Add_def bind_eq_Some_conv Let_def)
  define r3 where "r3 = r2\<lparr>tb_last_key := k, tb_num_entries := tb_num_entries r2 + 1, tb_data_block := d\<rparr>"
  have "tb_Add A C r k v =
      (if block_size (tb_options r3) \<le> CurrentSizeEstimate (tb_data_block r3) then Flush A C r3 else Some r3)"
    using assms(2) r1 r2 d by (simp add: tb_Add_def Let_def r3_def)
  moreover have "tb_ok r3" using ok2 by (simp add: tb_ok_def r3_def)
  ultimately show ?thesis using assms(1,3) Flush_ok by (auto split: if_splits)
qed

lemma tb_AddAll_ok:
  "appends_succeed A \<Longrightarrow> tb_ok r \<Longrightarrow> tb_AddAll A C r kvs = Some r' \<Longrightarrow> tb_ok r'"
proof (induction kvs arbitrary: r)
  case (Cons kv kvs)
  then show ?case using tb_Add_ok by (cases kv) (fastforce simp: bind_eq_Some_conv)
qed simp

lemma finish_tail_ok:
  assumes "appends_succeed A" and "tb_ok r" and "finish_tail A C r h = Some (r', st)"
  shows "st = OK"
proof -
  obtain r1 where r1: "(if tb_pending_index_entry r then add_index_entry r (FindShortSuccessor (tb_last_key r)) else Some r) = Some r1"
    using assms(2,3) by (auto simp: finish_tail_def bind_eq_Some_conv)
  obtain r2 blk ih where w: "WriteBlock A C r1 (tb_index_block r1) = Some (r2, blk, ih)"
    using assms(2,3) r1 by (cases "WriteBlock A C r1 (tb_index_block r1)") (auto simp: finish_tail_def)
  have ok: "tb_ok r2" by (rule WriteBlock_ok [OF assms(1) w])
  have ok': "tb_ok (r2\<lparr>tb_index_block := blk\<rparr>)" using ok by (simp add: tb_ok_def)
  obtain F where a: "A (tb_file r2) (footer_EncodeTo \<lparr>metaindex_handle = h, index_handle = ih\<rparr> []) = (F, OK)"
    using assms(1) by (metis appends_succeed_def prod.collapse)
  show ?thesis
    using assms(2,3) r1 w ok' a by (simp add: finish_tail_def Let_def)
qed

lemma tb_Finish_ok:
  assumes "appends_succeed A" and "tb_ok r" and "tb_Finish A C r = Some (r', st)"
  shows "st = OK"
proof -
  obtain r1 where r1: "Flush A C r = Some r1" using assms(3) by (auto simp: tb_Finish_eq bind_eq_Some_conv)
  have ok1: "tb_ok (r1\<lparr>tb_closed := True\<rparr>)" using Flush_ok [OF assms(1,2) r1] by (simp add: tb_ok_def)
  obtain r2 blk mh where w: "WriteBlock A C (r1\<lparr>tb_closed := True\<rparr>) BlockBuilder = Some (r2, blk, mh)"
    using assms(3) r1 ok1 by (cases "WriteBlock A C (r1\<lparr>tb_closed := True\<rparr>) BlockBuilder") (auto simp: tb_Finish_eq)
  have "finish_tail A C r2 mh = Some (r', st)" using assms(3) r1 ok1 w by (simp add: tb_Finish_eq)
  then show ?thesis by (rule finish_tail_ok [OF assms(1) WriteBlock_ok [OF assms(1) w]])
qed


text \<open>
  C23. Building a table never trips a \<^verbatim>\<open>CHECK\<close>: for sorted entries whose keys fit a
  32-bit index and each of which fits a block, every \<^verbatim>\<open>Add\<close> and the final
  \<^verbatim>\<open>Finish\<close> return, whichever appends fail and whatever the compressor compresses;
  and when no append fails the status is OK.
\<close>

theorem table_builder_total:
  assumes "append_holds A" and "snappy_holds C L U" and "1 \<le> block_restart_interval opts"
    and "strictly_sorted kvs" and "keys_bytes kvs + 8 \<le> uint32_max" and "list_all (entry_fits opts) kvs"
  shows "\<exists>r r' st. tb_AddAll A C (TableBuilder opts []) kvs = Some r \<and> tb_Finish A C r = Some (r', st) \<and>
    (appends_succeed A \<longrightarrow> st = OK)"
proof -
  obtain r r' st where r: "tb_AddAll A C (TableBuilder opts []) kvs = Some r" "tb_Finish A C r = Some (r', st)"
    using table_build [OF assms(1-5)] assms(6) by (auto simp: list_all_iff)
  have "tb_ok (TableBuilder opts [])" by (simp add: tb_ok_def TableBuilder_def)
  then show ?thesis using r tb_AddAll_ok tb_Finish_ok by blast
qed

theorem table_builder_total_witness:
  "\<exists>r r' st. tb_AddAll (\<lambda>c d. (c @ d, OK)) (\<lambda>x. None)
      (TableBuilder \<lparr>block_size = 20, block_restart_interval = 2, compression = kSnappyCompression\<rparr> [])
      [([1, 2], [5]), ([1, 3], []), ([2], [6, 7])] = Some r \<and>
    tb_Finish (\<lambda>c d. (c @ d, OK)) (\<lambda>x. None) r = Some (r', st) \<and> st = OK"
  using table_builder_total [of "\<lambda>c d. (c @ d, OK)" "\<lambda>x. None" "\<lambda>x. None" "\<lambda>x. None"
      "\<lparr>block_size = 20, block_restart_interval = 2, compression = kSnappyCompression\<rparr>"
      "[([1, 2], [5]), ([1, 3], []), ([2], [6, 7])]"]
  by (simp add: append_holds_def snappy_holds_def appends_succeed_def strictly_sorted_def entry_fits_def uint32_max_def)

text \<open>The bytes of a file held in memory, as a random-access file.\<close>

definition memory_file :: "bytes \<Rightarrow> file_read" where
  "memory_file F off n = (OK, take (unat n) (drop (unat off) F), True)"

lemma memory_file_holds: "file_holds (memory_file F) F"
  by (auto simp: file_holds_def memory_file_def)




text \<open>
  C12. Point lookups: \<^verbatim>\<open>Table::InternalGet\<close> on the file of a successful build returns
  OK for every key, and what it hands to \<^verbatim>\<open>saver\<close>, when its key is the one asked for,
  is the value added under that key; for a key that was not added it is never a match.
\<close>

theorem table_lookup:
  assumes "append_holds A" and "snappy_holds C L U" and "1 \<le> block_restart_interval opts"
    and sorted: "strictly_sorted kvs" and "keys_bytes kvs + 8 \<le> uint32_max" and "list_all (entry_fits opts) kvs"
    and built: "tb_AddAll A C (TableBuilder opts []) kvs = Some r" "tb_Finish A C r = Some (r', OK)"
    and reads: "file_holds Read (tb_file r')"
  shows "\<exists>t saved. Table_Open L U opts' Read (word_of_nat (length (tb_file r'))) = Some (OK, Some t) \<and>
    InternalGet L U Read t k = Some (OK, saved) \<and>
    (case saved of Some (k', v) \<Rightarrow> if k' = k then Some v else None | None \<Rightarrow> None) = map_of kvs k"
proof -
  have tf: "table_file L U (tb_file r') kvs" "length (tb_file r') < 2 ^ 64"
    using table_build [OF assms(1-5)] assms(6) built by (auto simp: list_all_iff)
  show ?thesis using table_get [OF reads tf(2,1) sorted, of opts' k] by (metis (no_types, lifting))
qed

theorem table_lookup_witness:
  "\<exists>r r' t saved. tb_AddAll (\<lambda>c d. (c @ d, OK)) (\<lambda>x. None)
      (TableBuilder \<lparr>block_size = 20, block_restart_interval = 2, compression = kNoCompression\<rparr> [])
      [([1, 2], [5]), ([2], [6, 7])] = Some r \<and>
    tb_Finish (\<lambda>c d. (c @ d, OK)) (\<lambda>x. None) r = Some (r', OK) \<and>
    Table_Open (\<lambda>x. None) (\<lambda>x. None)
      \<lparr>block_size = 20, block_restart_interval = 2, compression = kNoCompression\<rparr>
      (memory_file (tb_file r')) (word_of_nat (length (tb_file r'))) = Some (OK, Some t) \<and>
    InternalGet (\<lambda>x. None) (\<lambda>x. None) (memory_file (tb_file r')) t [2] = Some (OK, saved) \<and>
    (case saved of Some (k', v) \<Rightarrow> if k' = [2] then Some v else None | None \<Rightarrow> None) = Some [6, 7]"
proof -
  let ?A = "\<lambda>c d. (c @ d, OK)" and ?kvs = "[([1, 2], [5]), ([2], [6, 7])] :: (bytes \<times> bytes) list"
    and ?o = "\<lparr>block_size = 20, block_restart_interval = 2, compression = kNoCompression\<rparr>"
  have h: "append_holds ?A" "snappy_holds (\<lambda>x. None) (\<lambda>x. None) (\<lambda>x. None)" "1 \<le> block_restart_interval ?o"
    "strictly_sorted ?kvs" "keys_bytes ?kvs + 8 \<le> uint32_max" "list_all (entry_fits ?o) ?kvs" "appends_succeed ?A"
    by (simp_all add: append_holds_def snappy_holds_def appends_succeed_def strictly_sorted_def entry_fits_def uint32_max_def)
  obtain r r' st where r: "tb_AddAll ?A (\<lambda>x. None) (TableBuilder ?o []) ?kvs = Some r"
    "tb_Finish ?A (\<lambda>x. None) r = Some (r', st)"
    using table_build [OF h(1-5)] h(6) by (auto simp: list_all_iff)
  have "tb_ok (TableBuilder ?o [])" by (simp add: tb_ok_def TableBuilder_def)
  then have "st = OK" using tb_Finish_ok [OF h(7) tb_AddAll_ok [OF h(7) _ r(1)] r(2)] by blast
  with r have r': "tb_Finish ?A (\<lambda>x. None) r = Some (r', OK)" by simp
  have "map_of ?kvs [2] = Some [6, 7]" by simp
  then show ?thesis
    using table_lookup [OF h(1-6) r(1) r' memory_file_holds, of ?o "[2]"] r(1) r' by (metis (no_types, lifting))
qed

text \<open>
  C19. Corruption is reported: overwrite up to four consecutive bytes of a stored block, in
  its contents or its type byte, and \<^verbatim>\<open>ReadBlock\<close> answers with the checksum error
  instead of data.
\<close>

theorem corrupted_block_detected:
  assumes F: "payload @ [type_byte type] = p @ u @ s"
    and corrupt: "length v = length u" "length u \<le> 4" "v \<noteq> u"
    and F': "F' = pre @ p @ v @ s @ drop 1 (block_trailer payload type) @ post"
    and "length F' < 2 ^ 64" and "file_holds Read F'"
  shows "\<exists>c. ReadBlock L U Read \<lparr>bh_offset = word_of_nat (length pre), bh_size = word_of_nat (length payload)\<rparr> =
    Some (Error DATA_LOSS ''block checksum mismatch'', c)"
proof -
  let ?h = "\<lparr>bh_offset = word_of_nat (length pre), bh_size = word_of_nat (length payload)\<rparr> :: BlockHandle"
  define crc where "crc = EncodeFixed32 True (Mask (crc32c 0 (payload @ [type_byte type])))"
  define C where "C = p @ v @ s @ crc"
  have F2: "F' = pre @ C @ post" by (simp add: F' C_def crc_def block_trailer_crc)
  have plen: "length p + length u + length s = length payload + 1" using arg_cong [OF F, of length] by simp
  have len: "length C = length payload + 5" using plen corrupt(1) by (simp add: C_def crc_def)
  have n5: "bh_size ?h + kBlockTrailerSize = word_of_nat (length payload + 5)" by (simp add: kBlockTrailerSize_def)
  have total: "length pre + (length payload + 5) < 2 ^ 64" using assms(6) F2 len by simp
  have un: "unat (bh_offset ?h) = length pre" "unat (bh_size ?h) = length payload"
    "unat (bh_size ?h + kBlockTrailerSize) = length payload + 5"
    unfolding n5 unfolding BlockHandle.select_convs by (intro unat_of_nat_64; use total in linarith)+
  have "unat (bh_offset ?h) + unat (bh_size ?h + kBlockTrailerSize) \<le> length F'"
    unfolding un by (simp add: F2 len)
  from file_holds_read [OF assms(7) this] obtain b where
    read: "Read (bh_offset ?h) (bh_size ?h + kBlockTrailerSize) = (OK, C, b)"
    unfolding un by (auto simp: F2 len)
  have "drop (length payload + 1) C = crc"
    using plen corrupt(1) by (simp add: C_def)
  then have crc: "DecodeFixed32 True (drop (length payload + 1) C) = Some (Mask (crc32c 0 (payload @ [type_byte type])))"
    using fixed_round_trips(2) [of True True _ "[]"] by (simp add: crc_def)
  have "take (length payload + 1) C = p @ v @ s" using plen corrupt(1) by (simp add: C_def)
  then have val: "crc32c_Value CanAccelerate_portable AcceleratedExtend_portable 0 (take (length payload + 1) C) \<noteq>
      crc32c 0 (payload @ [type_byte type])"
    unfolding F using crc32c_burst [OF corrupt(1) _ corrupt(3), of 0 p s] corrupt(1,2)
    by (simp add: crc32c_Value_def CanAccelerate_portable_def crc32c_Extend_crc32c)
  have size: "word_of_nat (length C) = bh_size ?h + kBlockTrailerSize" unfolding n5 len by (rule refl)
  show ?thesis
    using crc val read un size
    by (simp add: ReadBlock_def len kBlockTrailerSize_def Unmask_Mask Let_def)
qed

theorem corrupted_block_detected_witness:
  "\<exists>c. ReadBlock (\<lambda>x. None) (\<lambda>x. None)
      (memory_file ([9] @ [1] @ [7] @ [3] @ [0] @ drop 1 (block_trailer [1, 2, 3] kNoCompression) @ []))
      \<lparr>bh_offset = word_of_nat (length [9 :: byte]), bh_size = word_of_nat (length [1, 2, 3 :: byte])\<rparr> =
    Some (Error DATA_LOSS ''block checksum mismatch'', c)"
  by (rule corrupted_block_detected [where payload = "[1, 2, 3]" and type = kNoCompression and p = "[1]" and u = "[2]"
        and v = "[7]" and s = "[3, 0]" and pre = "[9]" and post = "[]"
        and F' = "[9] @ [1] @ [7] @ [3, 0] @ drop 1 (block_trailer [1, 2, 3] kNoCompression) @ []"])
    (simp_all add: memory_file_holds length_block_trailer)


text \<open>
  C34. The size of a block handle comes from the file, and \<^verbatim>\<open>ReadBlock\<close> adds the
  trailer to it in 64 bits: for a handle within five bytes of 2^64 the sum wraps, the
  few bytes it then reads pass the length check, and the checksum is taken from outside
  the buffer. No status reports the corruption.
\<close>

theorem read_block_size_wraps:
  assumes "2 ^ 64 \<le> unat (bh_size h) + 5" and "file_holds Read F" and "unat (bh_offset h) + 5 \<le> length F"
  shows "ReadBlock L U Read h = None"
proof -
  let ?n = "bh_size h + kBlockTrailerSize"
  have n: "unat ?n < 5"
    using assms(1) unsigned_less [of "bh_size h", where ?'a = nat]
    by (simp add: kBlockTrailerSize_def unat_plus_if' not_less)
  then obtain b where "Read (bh_offset h) ?n = (OK, take (unat ?n) (drop (unat (bh_offset h)) F), b)"
    using file_holds_read [OF assms(2), of "bh_offset h" ?n] assms(3) by auto
  moreover have "length (take (unat ?n) (drop (unat (bh_offset h)) F)) = unat ?n" using n assms(3) by simp
  ultimately show ?thesis
    using n assms(1) by (simp add: ReadBlock_def word_of_nat_unat del: length_take length_drop)
qed

theorem read_block_size_wraps_witness:
  "ReadBlock (\<lambda>x. None) (\<lambda>x. None) (memory_file [1, 2, 3, 4, 5, 6]) \<lparr>bh_offset = 1, bh_size = - 5\<rparr> = None"
  by (rule read_block_size_wraps [OF _ memory_file_holds]) simp_all

end
