(* ===== verification/TF_PendingCounts.thy ===== *)
theory TF_PendingCounts
  imports TF_Coding "HOL-Library.Monad_Syntax"
begin

text \<open>
  \<^verbatim>\<open>common_runtime/pending_counts.h\<close>: the pending and dead counts the executor keeps per node
  and iteration. Handles are byte offsets handed out by a \<open>Layout\<close>; small counts share one byte
  (3 bits pending, 3 bits dead, 1 bit started), large ones take an eight-byte record. The model
  keeps the bytes: \<open>read_counts\<close> and \<open>write_counts\<close> are the bit-field accesses of the x86-64 ABI,
  and an access outside the array is \<open>None\<close>. The refinement at the end shows that the packed
  array behaves as one record of unbounded counts per handle, as long as the counts stay within
  the maxima the handles were created for.
\<close>

section \<open>Handles and layouts\<close>

record pc_handle =
  byte_offset :: int
  is_large :: bool

abbreviation kMaxCountForPackedCounts :: nat where "kMaxCountForPackedCounts \<equiv> 7"

text \<open>
  \<open>byte_offset_\<close> is a signed bit-field of 31 bits; the layout is its next free offset. The second
  result is the layout afterwards.
\<close>

definition CreateHandle :: "nat \<Rightarrow> nat \<Rightarrow> int \<Rightarrow> pc_handle \<times> int" where
  "CreateHandle max_pending_count max_dead_count next_offset =
     (if max_pending_count > kMaxCountForPackedCounts \<or> max_dead_count > kMaxCountForPackedCounts
      then
        let B = 8;
            offset = (next_offset + B - 1) div B * B;
            result = \<lparr>byte_offset = signed_take_bit 30 offset, is_large = True\<rparr>
        in (result, byte_offset result + B)
      else
        let result = \<lparr>byte_offset = signed_take_bit 30 next_offset, is_large = False\<rparr>
        in (result, next_offset + 1))"

section \<open>The two representations\<close>

record counts =
  c_pending :: nat
  c_dead :: nat
  c_started :: bool

definition PackedCounts_read :: "byte \<Rightarrow> counts" where
  "PackedCounts_read b =
     \<lparr>c_pending = unat (take_bit 3 b), c_dead = unat (take_bit 3 (drop_bit 3 b)), c_started = bit b 6\<rparr>"

definition PackedCounts_write :: "counts \<Rightarrow> byte \<Rightarrow> byte" where
  "PackedCounts_write c b =
     take_bit 3 (word_of_nat (c_pending c)) OR push_bit 3 (take_bit 3 (word_of_nat (c_dead c))) OR
     (if c_started c then push_bit 6 1 else 0) OR (b AND push_bit 7 1)"

definition LargeCounts_read :: "bytes \<Rightarrow> counts" where
  "LargeCounts_read bs =
     (let w = le_word (take 4 (drop 4 bs)) :: uint32
      in \<lparr>c_pending = unat (le_word (take 4 bs) :: uint32), c_dead = unat (take_bit 31 w), c_started = bit w 31\<rparr>)"

definition LargeCounts_write :: "counts \<Rightarrow> bytes" where
  "LargeCounts_write c =
     le_bytes 4 (word_of_nat (c_pending c) :: uint32) @
     le_bytes 4 (take_bit 31 (word_of_nat (c_dead c)) OR (if c_started c then push_bit 31 1 else 0) :: uint32)"

definition read_counts :: "pc_handle \<Rightarrow> bytes \<Rightarrow> counts option" where
  "read_counts h m =
     (let p = nat (byte_offset h)
      in if byte_offset h < 0 then None
         else if is_large h
         then (if p + 8 \<le> length m then Some (LargeCounts_read (take 8 (drop p m))) else None)
         else (if p < length m then Some (PackedCounts_read (m ! p)) else None))"

definition write_counts :: "pc_handle \<Rightarrow> counts \<Rightarrow> bytes \<Rightarrow> bytes option" where
  "write_counts h c m =
     (let p = nat (byte_offset h)
      in if byte_offset h < 0 then None
         else if is_large h
         then (if p + 8 \<le> length m then Some (take p m @ LargeCounts_write c @ drop (p + 8) m) else None)
         else (if p < length m then Some (m[p := PackedCounts_write c (m ! p)]) else None))"

text \<open>The counts leave the class as \<open>int\<close>.\<close>

definition as_int :: "nat \<Rightarrow> int" where
  "as_int n = sint (word_of_nat n :: uint32)"

section \<open>The operations\<close>

datatype NodeState = PENDING_NOTREADY | PENDING_READY | STARTED | COMPLETED

definition NodeStateForStruct :: "counts \<Rightarrow> NodeState" where
  "NodeStateForStruct c =
     (if c_started c then (if c_pending c = 0 then STARTED else COMPLETED)
      else (if c_pending c = 0 then PENDING_READY else PENDING_NOTREADY))"

text \<open>\<open>new char[num_bytes_]\<close> is not initialised: \<open>junk\<close> is what it holds.\<close>

definition PendingCounts :: "(nat \<Rightarrow> byte) \<Rightarrow> int \<Rightarrow> bytes" where
  "PendingCounts junk layout = map junk [0..<nat layout]"

definition set_initial_count :: "pc_handle \<Rightarrow> nat \<Rightarrow> bytes \<Rightarrow> bytes option" where
  "set_initial_count h pending_count m =
     write_counts h \<lparr>c_pending = pending_count, c_dead = 0, c_started = False\<rparr> m"

definition node_state :: "pc_handle \<Rightarrow> bytes \<Rightarrow> NodeState option" where
  "node_state h m = map_option NodeStateForStruct (read_counts h m)"

definition mark_started :: "pc_handle \<Rightarrow> bytes \<Rightarrow> bytes option" where
  "mark_started h m = do { c \<leftarrow> read_counts h m; write_counts h (c\<lparr>c_started := True\<rparr>) m }"

definition mark_completed :: "pc_handle \<Rightarrow> bytes \<Rightarrow> bytes option" where
  "mark_completed h m = do { c \<leftarrow> read_counts h m; write_counts h (c\<lparr>c_pending := 1\<rparr>) m }"

definition pending :: "pc_handle \<Rightarrow> bytes \<Rightarrow> int option" where
  "pending h m = do {
     c \<leftarrow> read_counts h m;
     Some (if NodeStateForStruct c = PENDING_NOTREADY then as_int (c_pending c) else 0)
   }"

text \<open>
  Subtraction in the field: the value is reduced to the field's width before it is stored and
  read back.
\<close>

definition field_minus :: "bool \<Rightarrow> nat \<Rightarrow> nat \<Rightarrow> nat" where
  "field_minus large x v = nat ((int x - int v) mod (if large then 2 ^ 32 else 8))"

definition decrement_pending :: "pc_handle \<Rightarrow> nat \<Rightarrow> bytes \<Rightarrow> (int \<times> bytes) option" where
  "decrement_pending h v m = do {
     c \<leftarrow> read_counts h m;
     let c = c\<lparr>c_pending := field_minus (is_large h) (c_pending c) v\<rparr>;
     m \<leftarrow> write_counts h c m;
     Some (as_int (c_pending c), m)
   }"

definition mark_live :: "pc_handle \<Rightarrow> bytes \<Rightarrow> bytes option" where
  "mark_live h m = do {
     c \<leftarrow> read_counts h m;
     if NodeStateForStruct c = PENDING_NOTREADY
     then write_counts h (c\<lparr>c_pending := c_pending c - c_pending c mod 2\<rparr>) m
     else Some m
   }"

definition dead_count :: "pc_handle \<Rightarrow> bytes \<Rightarrow> int option" where
  "dead_count h m = map_option (\<lambda>c. as_int (c_dead c)) (read_counts h m)"

definition increment_dead_count :: "pc_handle \<Rightarrow> bytes \<Rightarrow> bytes option" where
  "increment_dead_count h m = do {
     c \<leftarrow> read_counts h m;
     if NodeStateForStruct c = PENDING_NOTREADY
     then write_counts h (c\<lparr>c_dead := c_dead c + 1\<rparr>) m
     else Some m
   }"

text \<open>The results are \<open>(pending_result, dead_result)\<close> and the array afterwards.\<close>

definition adjust_for_activation :: "pc_handle \<Rightarrow> bool \<Rightarrow> bytes \<Rightarrow> ((int \<times> int) \<times> bytes) option" where
  "adjust_for_activation h increment_dead m = do {
     c \<leftarrow> read_counts h m;
     m \<leftarrow> (if increment_dead \<and> NodeStateForStruct c = PENDING_NOTREADY
          then write_counts h (c\<lparr>c_dead := c_dead c + 1\<rparr>) m else Some m);
     c \<leftarrow> read_counts h m;
     m \<leftarrow> write_counts h (c\<lparr>c_pending := field_minus (is_large h) (c_pending c) 1\<rparr>) m;
     c \<leftarrow> read_counts h m;
     Some ((as_int (c_pending c), as_int (c_dead c)), m)
   }"

section \<open>Reading back what was written\<close>

definition handle_size :: "pc_handle \<Rightarrow> int" where
  "handle_size h = (if is_large h then 8 else 1)"

definition in_bounds :: "pc_handle \<Rightarrow> bytes \<Rightarrow> bool" where
  "in_bounds h m \<longleftrightarrow> 0 \<le> byte_offset h \<and> byte_offset h + handle_size h \<le> int (length m)"

definition apart :: "pc_handle \<Rightarrow> pc_handle \<Rightarrow> bool" where
  "apart h k \<longleftrightarrow> byte_offset h + handle_size h \<le> byte_offset k \<or> byte_offset k + handle_size k \<le> byte_offset h"

definition fits :: "pc_handle \<Rightarrow> counts \<Rightarrow> bool" where
  "fits h c \<longleftrightarrow> (if is_large h then c_pending c < 2 ^ 31 \<and> c_dead c < 2 ^ 31 else c_pending c < 8 \<and> c_dead c < 8)"

lemma bit_64_int [simp]: "bit (64 :: int) n \<longleftrightarrow> n = 6"
proof -
  have "(64 :: int) = 2 ^ 6" by simp
  then show ?thesis by (simp only: bit_exp_iff) simp
qed

lemma bit_2147483648_int [simp]: "bit (2147483648 :: int) n \<longleftrightarrow> n = 31"
proof -
  have "(2147483648 :: int) = 2 ^ 31" by simp
  then show ?thesis by (simp only: bit_exp_iff) simp
qed

lemma unat_take_bit_of_nat:
  assumes "k < 2 ^ n" "n \<le> LENGTH('a)"
  shows "unat (take_bit n (word_of_nat k :: 'a::len word)) = k"
proof -
  have "take_bit n (word_of_nat k :: 'a word) = word_of_nat (take_bit n k)" by (simp only: of_nat_take_bit)
  moreover have "take_bit n k = k" using assms(1) by (simp add: take_bit_nat_eq_self)
  moreover have "k < 2 ^ LENGTH('a)" using assms by (meson order_less_le_trans one_le_numeral power_increasing)
  ultimately show ?thesis by (simp add: unat_of_nat take_bit_nat_eq_self)
qed

lemma Packed_read_write:
  assumes "c_pending c < 8" "c_dead c < 8"
  shows "PackedCounts_read (PackedCounts_write c b) = c"
proof -
  let ?w = "PackedCounts_write c b"
  have "take_bit 3 ?w = take_bit 3 (word_of_nat (c_pending c))"
    by (rule bit_eqI) (auto simp: PackedCounts_write_def bit_simps)
  moreover have "take_bit 3 (drop_bit 3 ?w) = take_bit 3 (word_of_nat (c_dead c))"
    by (rule bit_eqI) (auto simp: PackedCounts_write_def bit_simps)
  moreover have "bit ?w 6 \<longleftrightarrow> c_started c"
    by (auto simp: PackedCounts_write_def bit_simps)
  moreover have "unat (take_bit 3 (word_of_nat (c_pending c) :: byte)) = c_pending c"
    "unat (take_bit 3 (word_of_nat (c_dead c) :: byte)) = c_dead c"
    by (rule unat_take_bit_of_nat, use assms in simp, simp)+
  ultimately show ?thesis unfolding PackedCounts_read_def by (cases c) (simp only: counts.simps)
qed

lemma Large_read_write:
  assumes "c_pending c < 2 ^ 31" "c_dead c < 2 ^ 31"
  shows "LargeCounts_read (LargeCounts_write c) = c"
proof -
  define w :: uint32 where "w = take_bit 31 (word_of_nat (c_dead c)) OR (if c_started c then push_bit 31 1 else 0)"
  have w: "le_word (take 4 (drop 4 (LargeCounts_write c))) = w"
    by (simp add: LargeCounts_write_def w_def [symmetric] le_word_le_bytes_id del: le_bytes_numeral)
  have p: "le_word (take 4 (LargeCounts_write c)) = (word_of_nat (c_pending c) :: uint32)"
    by (simp add: LargeCounts_write_def le_word_le_bytes_id del: le_bytes_numeral)
  have "take_bit 31 w = take_bit 31 (word_of_nat (c_dead c))"
    by (rule bit_eqI) (auto simp: w_def bit_simps)
  moreover have "bit w 31 \<longleftrightarrow> c_started c"
    by (auto simp: w_def bit_simps)
  moreover have "unat (take_bit 31 (word_of_nat (c_dead c) :: uint32)) = c_dead c"
    by (rule unat_take_bit_of_nat, use assms in simp, simp)
  moreover have "unat (word_of_nat (c_pending c) :: uint32) = c_pending c" using assms by (simp add: unat_of_nat take_bit_nat_eq_self)
  ultimately show ?thesis unfolding LargeCounts_read_def w p Let_def by (cases c) (simp only: counts.simps)
qed

lemma length_LargeCounts_write [simp]: "length (LargeCounts_write c) = 8"
  by (simp add: LargeCounts_write_def del: le_bytes_numeral)

lemma write_counts_ok:
  assumes "in_bounds h m"
  obtains m' where "write_counts h c m = Some m'" "length m' = length m"
    "fits h c \<Longrightarrow> read_counts h m' = Some c"
    "\<And>k. apart h k \<Longrightarrow> read_counts k m' = read_counts k m"
proof -
  let ?p = "nat (byte_offset h)"
  note b = assms [unfolded in_bounds_def handle_size_def]
  show thesis
  proof (cases "is_large h")
    case True
    have len: "?p + 8 \<le> length m" using b True by (simp add: nat_le_iff flip: nat_int_add)
    let ?m = "take ?p m @ LargeCounts_write c @ drop (?p + 8) m"
    show thesis
    proof (rule that [of ?m])
      show "write_counts h c m = Some ?m" using True len b by (simp add: write_counts_def Let_def)
      show "length ?m = length m" using len by simp
      show "read_counts h ?m = Some c" if "fits h c"
        using that True len b by (simp add: read_counts_def Large_read_write fits_def Let_def)
      show "read_counts k ?m = read_counts k m" if k: "apart h k" for k
      proof -
        define q where "q = nat (byte_offset k)"
        have sz: "8 \<le> length m - q \<Longrightarrow> True" by simp
        have nth: "?m ! i = m ! i" if "i < ?p \<or> ?p + 8 \<le> i" "i < length m" for i
          using that len by (auto simp: nth_append min_def)
        have "take 8 (drop q ?m) = take 8 (drop q m)" if "is_large k" "0 \<le> byte_offset k" "q + 8 \<le> length m"
          by (rule nth_equalityI) (use that len k True b in \<open>auto simp: apart_def handle_size_def q_def intro!: nth\<close>)
        moreover have "?m ! q = m ! q" if "\<not> is_large k" "0 \<le> byte_offset k" "q < length m"
          by (rule nth) (use that k True b in \<open>auto simp: apart_def handle_size_def q_def\<close>)
        moreover have "length ?m = length m" using len by simp
        ultimately show ?thesis unfolding read_counts_def q_def [symmetric] Let_def
          by (auto simp del: length_append append_assoc)
      qed
    qed
  next
    case False
    have len: "?p < length m" using b False by (simp add: nat_less_iff)
    let ?m = "m[?p := PackedCounts_write c (m ! ?p)]"
    show thesis
    proof (rule that [of ?m])
      show "write_counts h c m = Some ?m" using False len b by (simp add: write_counts_def Let_def)
      show "length ?m = length m" by simp
      show "read_counts h ?m = Some c" if "fits h c"
        using that False len b by (simp add: read_counts_def Packed_read_write fits_def Let_def)
      show "read_counts k ?m = read_counts k m" if k: "apart h k" for k
      proof -
        define q where "q = nat (byte_offset k)"
        have "take 8 (drop q ?m) = take 8 (drop q m)" if "is_large k" "0 \<le> byte_offset k" "q + 8 \<le> length m"
          by (rule nth_equalityI) (use that len k False b in \<open>auto simp: apart_def handle_size_def q_def nth_list_update\<close>)
        moreover have "?m ! q = m ! q" if "\<not> is_large k" "0 \<le> byte_offset k" "q < length m"
          using that k False b by (auto simp: apart_def handle_size_def q_def nth_list_update)
        ultimately show ?thesis unfolding read_counts_def q_def [symmetric] Let_def by auto
      qed
    qed
  qed
qed

lemma read_counts_ok: "in_bounds h m \<longleftrightarrow> read_counts h m \<noteq> None"
  by (auto simp: in_bounds_def handle_size_def read_counts_def Let_def)

section \<open>Layouts hand out disjoint handles\<close>

fun CreateHandles :: "(nat \<times> nat) list \<Rightarrow> int \<Rightarrow> pc_handle list \<times> int" where
  "CreateHandles [] layout = ([], layout)"
| "CreateHandles ((max_pending, max_dead) # cs) layout =
     (let (h, layout) = CreateHandle max_pending max_dead layout;
          (hs, layout) = CreateHandles cs layout
      in (h # hs, layout))"

lemma signed_take_bit_small: "0 \<le> x \<Longrightarrow> x < 2 ^ 30 \<Longrightarrow> signed_take_bit 30 x = (x :: int)"
  by (rule signed_take_bit_int_eq_self) simp_all

lemma round_up_8: "n \<le> (n + 7) div 8 * 8" "(n + 7) div 8 * 8 \<le> n + (7 :: int)"
  by linarith+

lemma add_8_minus_1: "n + 8 - 1 = n + (7 :: int)" by simp

lemma CreateHandle_bounds:
  assumes "CreateHandle p d n = (h, n')" "0 \<le> n" "n + 16 \<le> 2 ^ 30"
  shows "n \<le> byte_offset h" "byte_offset h + handle_size h = n'" "n' \<le> n + 16"
    "is_large h \<longleftrightarrow> 7 < p \<or> 7 < d"
proof -
  have "(n + 7) div 8 * 8 < 2 ^ 30" "0 \<le> (n + 7) div 8 * 8" using round_up_8 [of n] assms by linarith+
  then have "signed_take_bit 30 ((n + 7) div 8 * 8) = (n + 7) div 8 * 8" by (simp add: signed_take_bit_small)
  moreover have "signed_take_bit 30 n = n" using assms by (simp add: signed_take_bit_small)
  ultimately show "n \<le> byte_offset h" "byte_offset h + handle_size h = n'" "n' \<le> n + 16" "is_large h \<longleftrightarrow> 7 < p \<or> 7 < d"
    using assms round_up_8 [of n] unfolding CreateHandle_def Let_def add_8_minus_1 by (auto simp: handle_size_def simp del: add.commute split: if_splits)
qed

lemma CreateHandles_bounds:
  assumes "CreateHandles cs n = (hs, n')" "0 \<le> n" "n + 16 * int (length cs) \<le> 2 ^ 30"
  shows "length hs = length cs \<and> n \<le> n' \<and> n' \<le> n + 16 * int (length cs) \<and>
    (\<forall>i < length cs. n \<le> byte_offset (hs ! i) \<and> byte_offset (hs ! i) + handle_size (hs ! i) \<le> n' \<and>
       (is_large (hs ! i) \<longleftrightarrow> 7 < fst (cs ! i) \<or> 7 < snd (cs ! i))) \<and>
    (\<forall>i j. i < j \<longrightarrow> j < length cs \<longrightarrow> byte_offset (hs ! i) + handle_size (hs ! i) \<le> byte_offset (hs ! j))"
  using assms
proof (induction cs arbitrary: n hs n')
  case Nil
  then show ?case by simp
next
  case (Cons c cs)
  obtain p d where c: "c = (p, d)" by (cases c)
  obtain h k where h: "CreateHandle p d n = (h, k)" by fastforce
  obtain ks k' where ks: "CreateHandles cs k = (ks, k')" by fastforce
  have hs: "hs = h # ks" "n' = k'" using Cons.prems(1) by (simp_all add: c h ks)
  have n16: "n + 16 \<le> 2 ^ 30" using Cons.prems(3) by simp
  note B = CreateHandle_bounds [OF h Cons.prems(2) n16]
  have sz: "0 < handle_size h" by (simp add: handle_size_def)
  have k: "0 \<le> k" "k + 16 * int (length cs) \<le> 2 ^ 30" using B sz Cons.prems(2,3) by simp_all
  note IH = Cons.IH [OF ks k]
  have all: "n \<le> byte_offset (hs ! i) \<and> byte_offset (hs ! i) + handle_size (hs ! i) \<le> n' \<and>
      (is_large (hs ! i) \<longleftrightarrow> 7 < fst ((c # cs) ! i) \<or> 7 < snd ((c # cs) ! i))" if "i < length (c # cs)" for i
    using that IH B sz by (cases i) (auto simp: hs c)
  have "byte_offset (hs ! i) + handle_size (hs ! i) \<le> byte_offset (hs ! j)" if "i < j" "j < length (c # cs)" for i j
  proof -
    obtain j' where j: "j = Suc j'" "j' < length cs" using \<open>i < j\<close> \<open>j < length (c # cs)\<close> by (cases j) auto
    show ?thesis
    proof (cases i)
      case 0
      then show ?thesis using IH B(2) j by (simp add: hs)
    next
      case (Suc i')
      then show ?thesis using IH j that(1) by (simp add: hs)
    qed
  qed
  then show ?case using IH B all Cons.prems(2) sz by (simp add: hs)
qed

lemma CreateHandles_apart:
  assumes "CreateHandles cs 0 = (hs, n')" "16 * int (length cs) \<le> 2 ^ 30" "length m = nat n'"
  shows "length hs = length cs" "i < length cs \<Longrightarrow> in_bounds (hs ! i) m"
    "i < length cs \<Longrightarrow> j < length cs \<Longrightarrow> i \<noteq> j \<Longrightarrow> apart (hs ! i) (hs ! j)"
    "i < length cs \<Longrightarrow> is_large (hs ! i) \<longleftrightarrow> 7 < fst (cs ! i) \<or> 7 < snd (cs ! i)"
  using CreateHandles_bounds [OF assms(1)] assms(2,3)
  by (auto simp: in_bounds_def apart_def dest: linorder_neqE_nat)

section \<open>The operations on unbounded counts\<close>

datatype pc_op =
    SetInitial nat | MarkStarted | MarkCompleted | Decrement nat | MarkLive | IncrementDead | Activate bool

definition result0 :: "bytes option \<Rightarrow> (int list \<times> bytes) option" where
  "result0 = map_option (\<lambda>m. ([], m))"

fun run_op :: "pc_op \<Rightarrow> pc_handle \<Rightarrow> bytes \<Rightarrow> (int list \<times> bytes) option" where
  "run_op (SetInitial n) h m = result0 (set_initial_count h n m)"
| "run_op MarkStarted h m = result0 (mark_started h m)"
| "run_op MarkCompleted h m = result0 (mark_completed h m)"
| "run_op (Decrement v) h m = map_option (\<lambda>(r, m). ([r], m)) (decrement_pending h v m)"
| "run_op MarkLive h m = result0 (mark_live h m)"
| "run_op IncrementDead h m = result0 (increment_dead_count h m)"
| "run_op (Activate b) h m = map_option (\<lambda>((r, s), m). ([r, s], m)) (adjust_for_activation h b m)"

definition not_ready :: "counts \<Rightarrow> bool" where
  "not_ready c \<longleftrightarrow> \<not> c_started c \<and> c_pending c \<noteq> 0"

fun spec_op :: "pc_op \<Rightarrow> counts \<Rightarrow> counts" where
  "spec_op (SetInitial n) c = \<lparr>c_pending = n, c_dead = 0, c_started = False\<rparr>"
| "spec_op MarkStarted c = c\<lparr>c_started := True\<rparr>"
| "spec_op MarkCompleted c = c\<lparr>c_pending := 1\<rparr>"
| "spec_op (Decrement v) c = c\<lparr>c_pending := c_pending c - v\<rparr>"
| "spec_op MarkLive c = (if not_ready c then c\<lparr>c_pending := c_pending c - c_pending c mod 2\<rparr> else c)"
| "spec_op IncrementDead c = (if not_ready c then c\<lparr>c_dead := c_dead c + 1\<rparr> else c)"
| "spec_op (Activate b) c =
     c\<lparr>c_pending := c_pending c - 1, c_dead := c_dead c + (if b \<and> not_ready c then 1 else 0)\<rparr>"

fun spec_results :: "pc_op \<Rightarrow> counts \<Rightarrow> int list" where
  "spec_results (Decrement v) c = [int (c_pending c - v)]"
| "spec_results (Activate b) c =
     [int (c_pending c - 1), int (c_dead c + (if b \<and> not_ready c then 1 else 0))]"
| "spec_results _ c = []"

text \<open>The debug checks of the operations.\<close>

fun op_allowed :: "pc_op \<Rightarrow> counts \<Rightarrow> bool" where
  "op_allowed (Decrement v) c \<longleftrightarrow> v \<le> c_pending c"
| "op_allowed (Activate b) c \<longleftrightarrow> 1 \<le> c_pending c"
| "op_allowed _ c \<longleftrightarrow> True"

lemma not_ready_state: "NodeStateForStruct c = PENDING_NOTREADY \<longleftrightarrow> not_ready c"
  by (simp add: NodeStateForStruct_def not_ready_def)

lemma as_int_small: "n < 2 ^ 31 \<Longrightarrow> as_int n = int n"
  by (simp add: as_int_def signed_of_nat signed_take_bit_int_eq_self)

lemma field_minus_small: "fits h c \<Longrightarrow> v \<le> c_pending c \<Longrightarrow> field_minus (is_large h) (c_pending c) v = c_pending c - v"
  by (auto simp: field_minus_def fits_def of_nat_diff nat_diff_distrib' simp flip: of_nat_diff zmod_int split: if_splits)

lemma fits_small: "fits h c \<Longrightarrow> c_pending c < 2 ^ 31 \<and> c_dead c < 2 ^ 31"
  by (auto simp: fits_def split: if_splits)

lemma run_op_refines:
  assumes h: "in_bounds h m" and c: "read_counts h m = Some c" "fits h c"
    and op: "op_allowed op c" "fits h (spec_op op c)"
  shows "\<exists>m'. run_op op h m = Some (spec_results op c, m') \<and> length m' = length m \<and>
    read_counts h m' = Some (spec_op op c) \<and> (\<forall>k. apart h k \<longrightarrow> read_counts k m' = read_counts k m)"
proof -
  have W: "\<exists>m'. write_counts h d m = Some m' \<and> length m' = length m \<and> in_bounds h m' \<and> read_counts h m' = Some d \<and>
      (\<forall>k. apart h k \<longrightarrow> read_counts k m' = read_counts k m)" if "in_bounds h m" "fits h d" for d m
    using write_counts_ok [OF that(1), of d] that read_counts_ok by (metis option.distinct(1))
  show ?thesis
  proof (cases op)
    case (Activate b)
    let ?d = "if b \<and> not_ready c then c\<lparr>c_dead := c_dead c + 1\<rparr> else c"
    have d: "fits h ?d" using op(2) c(2) op(1) by (auto simp: Activate fits_def split: if_splits)
    obtain m1 where m1: "(if b \<and> not_ready c then write_counts h (c\<lparr>c_dead := c_dead c + 1\<rparr>) m else Some m) = Some m1"
      "length m1 = length m" "in_bounds h m1" "read_counts h m1 = Some ?d"
      "\<forall>k. apart h k \<longrightarrow> read_counts k m1 = read_counts k m"
      using W [OF h d] h c(1) by (cases "b \<and> not_ready c") auto
    have e: "?d\<lparr>c_pending := field_minus (is_large h) (c_pending ?d) 1\<rparr> = spec_op op c"
      using field_minus_small [OF c(2), of 1] op(1) by (simp add: Activate)
    obtain m2 where m2: "write_counts h (spec_op op c) m1 = Some m2" "length m2 = length m1"
      "read_counts h m2 = Some (spec_op op c)" "\<forall>k. apart h k \<longrightarrow> read_counts k m2 = read_counts k m1"
      using W [OF m1(3) op(2)] by blast
    have "adjust_for_activation h b m = Some ((as_int (c_pending (spec_op op c)), as_int (c_dead (spec_op op c))), m2)"
      using c(1) m1(1,4) m2(1,3) e by (simp add: adjust_for_activation_def not_ready_state del: spec_op.simps)
    then show ?thesis using m1 m2 fits_small [OF op(2)] by (simp add: Activate as_int_small)
  next
    case (Decrement v)
    then have e: "c\<lparr>c_pending := field_minus (is_large h) (c_pending c) v\<rparr> = spec_op op c"
      using field_minus_small [OF c(2)] op(1) by simp
    show ?thesis using W [OF h op(2)] c(1) e fits_small [OF op(2)]
      by (auto simp: Decrement decrement_pending_def as_int_small field_minus_small [OF c(2)] op(1) [unfolded Decrement op_allowed.simps])
  qed (use W [OF h op(2)] c(1) in \<open>auto simp: result0_def set_initial_count_def mark_started_def mark_completed_def
        mark_live_def increment_dead_count_def not_ready_state split: if_splits\<close>)
qed

definition within :: "nat \<times> nat \<Rightarrow> counts \<Rightarrow> bool" where
  "within cap c \<longleftrightarrow> c_pending c \<le> max 1 (fst cap) \<and> c_dead c \<le> snd cap"

lemma within_fits:
  assumes "within cap c" "is_large h \<longleftrightarrow> 7 < fst cap \<or> 7 < snd cap" "fst cap < 2 ^ 31" "snd cap < 2 ^ 31"
  shows "fits h c"
  using assms by (auto simp: within_def fits_def max_def split: if_splits)

lemma pending_small: "read_counts h m = Some c \<Longrightarrow> fits h c \<Longrightarrow>
    pending h m = Some (if not_ready c then int (c_pending c) else 0) \<and> dead_count h m = Some (int (c_dead c)) \<and>
    node_state h m = Some (NodeStateForStruct c)"
  using fits_small [of h c]
  by (simp add: pending_def dead_count_def node_state_def not_ready_state as_int_small)

text \<open>
  C40. The packed array of counts implements one record of unbounded counts per handle: for any
  sequence of requested maxima, every operation on a handle whose counts stay within its maxima
  returns what it returns on the unbounded record, changes that record alone (no byte or bit of
  any other handle), and the queries answer with the record's values.
\<close>

theorem pending_counts_refine:
  assumes "CreateHandles caps 0 = (hs, layout)" and "16 * int (length caps) \<le> 2 ^ 30"
    and "list_all (\<lambda>cap. fst cap < 2 ^ 31 \<and> snd cap < 2 ^ 31) caps"
    and "length m = nat layout" and "map (\<lambda>h. read_counts h m) hs = map Some cs" and "i < length caps"
    and "within (caps ! i) (cs ! i)" and "op_allowed op (cs ! i)" and "within (caps ! i) (spec_op op (cs ! i))"
  shows "\<exists>m'. run_op op (hs ! i) m = Some (spec_results op (cs ! i), m') \<and> length m' = length m \<and>
    map (\<lambda>h. read_counts h m') hs = map Some (cs[i := spec_op op (cs ! i)]) \<and>
    pending (hs ! i) m = Some (if not_ready (cs ! i) then int (c_pending (cs ! i)) else 0) \<and>
    dead_count (hs ! i) m = Some (int (c_dead (cs ! i))) \<and> node_state (hs ! i) m = Some (NodeStateForStruct (cs ! i))"
proof -
  note A = CreateHandles_apart [OF assms(1,2,4)]
  have cap: "fst (caps ! i) < 2 ^ 31" "snd (caps ! i) < 2 ^ 31" using assms(3,6) by (auto simp: list_all_length)
  note F = within_fits [OF _ A(4) [OF assms(6)] cap]
  have len: "length cs = length hs" using assms(5) map_eq_imp_length_eq by fastforce
  have rd: "read_counts (hs ! j) m = Some (cs ! j)" if "j < length hs" for j
    using arg_cong [OF assms(5), of "\<lambda>xs. xs ! j"] that len by simp
  have i: "i < length hs" using assms(6) A(1) by simp
  obtain m' where m': "run_op op (hs ! i) m = Some (spec_results op (cs ! i), m')" "length m' = length m"
    "read_counts (hs ! i) m' = Some (spec_op op (cs ! i))" "\<forall>k. apart (hs ! i) k \<longrightarrow> read_counts k m' = read_counts k m"
    using run_op_refines [OF A(2) [OF assms(6)] rd [OF i] F [OF assms(7)] assms(8) F [OF assms(9)]] by blast
  have "map (\<lambda>h. read_counts h m') hs = map Some (cs[i := spec_op op (cs ! i)])"
    by (rule nth_equalityI) (use m'(3,4) A(1,3) rd len assms(6) in \<open>auto simp: nth_list_update\<close>)
  then show ?thesis using m'(1,2) pending_small [OF rd [OF i] F [OF assms(7)]] by blast
qed

theorem pending_counts_refine_witness:
  "\<exists>m'. run_op (Activate True) \<lparr>byte_offset = 8, is_large = True\<rparr> ([3, 0, 0, 0, 0, 0, 0, 0] @ [9, 0, 0, 0, 2, 0, 0, 0] @ [1]) =
     Some ([8, 3], m')"
proof -
  have h: "CreateHandles [(3, 2), (9, 9), (1, 0)] 0 =
      ([\<lparr>byte_offset = 0, is_large = False\<rparr>, \<lparr>byte_offset = 8, is_large = True\<rparr>, \<lparr>byte_offset = 16, is_large = False\<rparr>], 17)"
    by code_simp
  have r: "map (\<lambda>h. read_counts h ([3, 0, 0, 0, 0, 0, 0, 0] @ [9, 0, 0, 0, 2, 0, 0, 0] @ [1]))
      [\<lparr>byte_offset = 0, is_large = False\<rparr>, \<lparr>byte_offset = 8, is_large = True\<rparr>, \<lparr>byte_offset = 16, is_large = False\<rparr>] =
      map Some [\<lparr>c_pending = 3, c_dead = 0, c_started = False\<rparr>, \<lparr>c_pending = 9, c_dead = 2, c_started = False\<rparr>,
        \<lparr>c_pending = 1, c_dead = 0, c_started = False\<rparr>]"
    by code_simp
  show ?thesis using pending_counts_refine [OF h _ _ _ r, of 1 "Activate True"]
    by (simp add: within_def not_ready_def) blast
qed

end
