(* ===== verification/TF_Graph.thy ===== *)
theory TF_Graph
  imports TF_Prelude "HOL-Library.Monad_Syntax"
begin

text \<open>
  \<^verbatim>\<open>graph/graph.cc\<close>, \<^verbatim>\<open>graph/graph.h\<close> and \<^verbatim>\<open>graph/edgeset.cc\<close>: the mutable dataflow graph.
  Nodes and edges live at addresses of an arena and are recycled through free lists, so both heaps
  are kept as maps from addresses; a fresh address comes from the arena as an argument of the
  operation. The op registry is a parameter. \<open>None\<close> is a failed \<^verbatim>\<open>CHECK\<close>; the debug checks of
  the callers are hypotheses of the lemmas.
\<close>

section \<open>Edge sets\<close>

text \<open>
  Up to two edges inline, then a \<^verbatim>\<open>std::set\<close> of pointers, iterated in pointer order. A set that
  has once grown never returns to the inline form.
\<close>

datatype edgeset = Inline "nat option" "nat option" | Tree "nat list"

fun es_size :: "edgeset \<Rightarrow> nat" where
  "es_size (Inline a b) = (if a = None then 0 else 1) + (if b = None then 0 else 1)"
| "es_size (Tree xs) = length xs"

text \<open>The elements in iteration order, from \<open>begin()\<close> to \<open>end()\<close>.\<close>

fun es_elems :: "edgeset \<Rightarrow> nat list" where
  "es_elems (Inline a b) = map the (take (es_size (Inline a b)) [a, b])"
| "es_elems (Tree xs) = xs"

definition es_empty :: "edgeset \<Rightarrow> bool" where
  "es_empty s \<longleftrightarrow> es_size s = 0"

definition es_clear :: edgeset where
  "es_clear = Inline None None"

fun es_insert :: "nat \<Rightarrow> edgeset \<Rightarrow> edgeset \<times> bool" where
  "es_insert v (Inline a b) =
     (if a = Some v \<or> b = Some v then (Inline a b, False)
      else if a = None then (Inline (Some v) b, True)
      else if b = None then (Inline a (Some v), True)
      else (Tree (insort v (insort (the a) [the b])), True))"
| "es_insert v (Tree xs) = (if v \<in> set xs then (Tree xs, False) else (Tree (insort v xs), True))"

fun es_erase :: "nat \<Rightarrow> edgeset \<Rightarrow> edgeset \<times> nat" where
  "es_erase k (Inline a b) =
     (if a = Some k then (if es_size (Inline a b) = 1 then (Inline None b, 1) else (Inline b None, 1))
      else if b = Some k then (if es_size (Inline a b) = 1 then (Inline None None, 1) else (Inline a None, 1))
      else (Inline a b, 0))"
| "es_erase k (Tree xs) = (if k \<in> set xs then (Tree (remove1 k xs), 1) else (Tree xs, 0))"

definition es_ok :: "edgeset \<Rightarrow> bool" where
  "es_ok s = (case s of Inline a b \<Rightarrow> (a = None \<longrightarrow> b = None) \<and> (a = b \<longrightarrow> a = None) | Tree xs \<Rightarrow> sorted xs \<and> distinct xs)"

lemma es_clear [simp]: "es_ok es_clear" "es_elems es_clear = []"
  by (simp_all add: es_clear_def es_ok_def)

lemma es_size_elems: "es_ok s \<Longrightarrow> es_size s = length (es_elems s)"
  by (cases s) (auto simp: es_ok_def)

lemma es_empty_elems [simp]: "es_ok s \<Longrightarrow> es_empty s \<longleftrightarrow> es_elems s = []"
  by (simp add: es_empty_def es_size_elems)

lemma es_distinct: "es_ok s \<Longrightarrow> distinct (es_elems s)"
  by (cases s) (auto simp: es_ok_def)

lemma es_insert_ok:
  assumes "es_ok s"
  shows "es_ok (fst (es_insert v s))" "set (es_elems (fst (es_insert v s))) = insert v (set (es_elems s))"
    "snd (es_insert v s) \<longleftrightarrow> v \<notin> set (es_elems s)"
proof -
  show "es_ok (fst (es_insert v s))"
    using assms by (cases s) (auto simp: es_ok_def sorted_insort distinct_insort insort_is_Cons)
  show "set (es_elems (fst (es_insert v s))) = insert v (set (es_elems s))" "snd (es_insert v s) \<longleftrightarrow> v \<notin> set (es_elems s)"
    using assms by (cases s; auto simp: es_ok_def set_insort_key split: if_splits)+
qed

lemma es_erase_ok:
  assumes "es_ok s"
  shows "es_ok (fst (es_erase v s))" "set (es_elems (fst (es_erase v s))) = set (es_elems s) - {v}"
    "snd (es_erase v s) = (if v \<in> set (es_elems s) then 1 else 0)"
proof -
  show "es_ok (fst (es_erase v s))"
    using assms by (cases s) (auto simp: es_ok_def sorted_remove1)
  show "set (es_elems (fst (es_erase v s))) = set (es_elems s) - {v}"
    "snd (es_erase v s) = (if v \<in> set (es_elems s) then 1 else 0)"
    using assms by (cases s; auto simp: es_ok_def split: if_splits)+
qed

section \<open>Nodes and edges\<close>

datatype NodeClass =
    NC_UNINITIALIZED | NC_SWITCH | NC_MERGE | NC_ENTER | NC_EXIT | NC_NEXT_ITERATION | NC_LOOP_COND
  | NC_CONTROL_TRIGGER | NC_SEND | NC_HOST_SEND | NC_RECV | NC_HOST_RECV | NC_CONSTANT | NC_VARIABLE
  | NC_IDENTITY | NC_GET_SESSION_HANDLE | NC_GET_SESSION_TENSOR | NC_DELETE_SESSION_TENSOR
  | NC_METADATA | NC_OTHER

definition kNodeClassTable :: "(string \<times> NodeClass) list" where
  "kNodeClassTable =
     [(''Switch'', NC_SWITCH), (''RefSwitch'', NC_SWITCH), (''Merge'', NC_MERGE), (''RefMerge'', NC_MERGE),
      (''Enter'', NC_ENTER), (''RefEnter'', NC_ENTER), (''Exit'', NC_EXIT), (''RefExit'', NC_EXIT),
      (''NextIteration'', NC_NEXT_ITERATION), (''RefNextIteration'', NC_NEXT_ITERATION),
      (''LoopCond'', NC_LOOP_COND), (''ControlTrigger'', NC_CONTROL_TRIGGER),
      (''_Send'', NC_SEND), (''_HostSend'', NC_HOST_SEND), (''_Recv'', NC_RECV), (''_HostRecv'', NC_HOST_RECV),
      (''Const'', NC_CONSTANT), (''HostConst'', NC_CONSTANT),
      (''Variable'', NC_VARIABLE), (''VariableV2'', NC_VARIABLE),
      (''Identity'', NC_IDENTITY), (''RefIdentity'', NC_IDENTITY),
      (''GetSessionHandle'', NC_GET_SESSION_HANDLE), (''GetSessionHandleV2'', NC_GET_SESSION_HANDLE),
      (''GetSessionTensor'', NC_GET_SESSION_TENSOR), (''DeleteSessionTensor'', NC_DELETE_SESSION_TENSOR),
      (''Size'', NC_METADATA), (''Shape'', NC_METADATA), (''Rank'', NC_METADATA)]"

definition GetNodeClassForOp :: "string \<Rightarrow> NodeClass" where
  "GetNodeClassForOp ts = (case map_of kNodeClassTable ts of Some c \<Rightarrow> c | None \<Rightarrow> NC_OTHER)"

datatype AttrValue = AttrS string | AttrI int | AttrB bool | AttrOther bytes

record node_def =
  nd_name :: string
  nd_op :: string
  nd_input :: "string list"
  nd_device :: string
  nd_attr :: "string \<Rightarrow> AttrValue option"

text \<open>
  \<open>NodeProperties\<close> are shared and copied before every write, so they are values here. Data types
  are their enum numbers; the op definition is known by its address.
\<close>

record node_props =
  np_op_def :: nat
  np_node_def :: node_def
  np_input_types :: "nat list"
  np_output_types :: "nat list"

record node =
  n_id :: int
  n_cost_id :: int
  n_class :: NodeClass
  n_in :: edgeset
  n_out :: edgeset
  n_props :: "node_props option"
  n_device_index :: int

record edge =
  e_src :: "nat option"
  e_dst :: "nat option"
  e_id :: int
  e_src_output :: int
  e_dst_input :: int

definition kControlSlot :: int where "kControlSlot = -1"

definition IsControlEdge :: "edge \<Rightarrow> bool" where
  "IsControlEdge e \<longleftrightarrow> e_src_output e = kControlSlot"

definition IsSource :: "node \<Rightarrow> bool" where "IsSource n \<longleftrightarrow> n_id n = 0"
definition IsSink :: "node \<Rightarrow> bool" where "IsSink n \<longleftrightarrow> n_id n = 1"
definition IsOp :: "node \<Rightarrow> bool" where "IsOp n \<longleftrightarrow> n_id n > 1"
definition IsSwitch :: "node \<Rightarrow> bool" where "IsSwitch n \<longleftrightarrow> n_class n = NC_SWITCH"
definition IsMerge :: "node \<Rightarrow> bool" where "IsMerge n \<longleftrightarrow> n_class n = NC_MERGE"
definition IsEnter :: "node \<Rightarrow> bool" where "IsEnter n \<longleftrightarrow> n_class n = NC_ENTER"
definition IsExit :: "node \<Rightarrow> bool" where "IsExit n \<longleftrightarrow> n_class n = NC_EXIT"
definition IsNextIteration :: "node \<Rightarrow> bool" where "IsNextIteration n \<longleftrightarrow> n_class n = NC_NEXT_ITERATION"
definition IsControlTrigger :: "node \<Rightarrow> bool" where "IsControlTrigger n \<longleftrightarrow> n_class n = NC_CONTROL_TRIGGER"
definition IsSend :: "node \<Rightarrow> bool" where "IsSend n \<longleftrightarrow> n_class n = NC_SEND \<or> n_class n = NC_HOST_SEND"
definition IsRecv :: "node \<Rightarrow> bool" where "IsRecv n \<longleftrightarrow> n_class n = NC_RECV \<or> n_class n = NC_HOST_RECV"
definition IsTransferNode :: "node \<Rightarrow> bool" where "IsTransferNode n \<longleftrightarrow> IsSend n \<or> IsRecv n"
definition IsControlFlow :: "node \<Rightarrow> bool" where
  "IsControlFlow n \<longleftrightarrow> n_class n \<noteq> NC_OTHER \<and> (IsSwitch n \<or> IsMerge n \<or> IsEnter n \<or> IsExit n \<or> IsNextIteration n)"

definition num_inputs :: "node \<Rightarrow> nat" where
  "num_inputs n = (case n_props n of Some p \<Rightarrow> length (np_input_types p) | None \<Rightarrow> 0)"

definition num_outputs :: "node \<Rightarrow> nat" where
  "num_outputs n = (case n_props n of Some p \<Rightarrow> length (np_output_types p) | None \<Rightarrow> 0)"

text \<open>The state of a node in the arena before it is initialised, and after \<open>Clear\<close>.\<close>

definition Node :: node where
  "Node = \<lparr>n_id = -1, n_cost_id = -1, n_class = NC_UNINITIALIZED, n_in = es_clear, n_out = es_clear,
     n_props = None, n_device_index = 0\<rparr>"

definition Node_Initialize :: "int \<Rightarrow> int \<Rightarrow> node_props \<Rightarrow> node \<Rightarrow> node" where
  "Node_Initialize new_id cost_id props n =
     n\<lparr>n_id := new_id, n_cost_id := cost_id, n_props := Some props,
       n_class := GetNodeClassForOp (nd_op (np_node_def props))\<rparr>"

definition Node_Clear :: "node \<Rightarrow> node" where
  "Node_Clear n = n\<lparr>n_in := es_clear, n_out := es_clear, n_id := -1, n_cost_id := -1,
     n_class := NC_UNINITIALIZED, n_props := None, n_device_index := 0\<rparr>"

section \<open>The graph\<close>

record graph =
  g_nodes :: "nat option list"
  g_num_nodes :: int
  g_edges :: "nat option list"
  g_num_edges :: int
  g_free_nodes :: "nat list"
  g_free_edges :: "nat list"
  g_name_counter :: int
  g_device_names :: "string list"
  g_device_names_map :: "string \<Rightarrow> int option"
  node_at :: "nat \<Rightarrow> node"
  edge_at :: "nat \<Rightarrow> edge"

text \<open>The op registry of the graph, and the printer of error messages.\<close>

record op_registry =
  LookUpOpDef :: "string \<Rightarrow> status \<times> nat"
  InOutTypesForNode :: "node_def \<Rightarrow> nat \<Rightarrow> status \<times> nat list \<times> nat list"
  SummarizeNodeDef :: "node_def \<Rightarrow> string"

definition Status_Update :: "status \<Rightarrow> status \<Rightarrow> status" where
  "Status_Update s new = (if status_ok s then new else s)"

definition AttachDef :: "op_registry \<Rightarrow> status \<Rightarrow> node_def \<Rightarrow> status" where
  "AttachDef R s nd =
     (case s of OK \<Rightarrow> OK
      | Error c m \<Rightarrow> Error c (m @ [CHR 0x0A, CHR 0x09] @ '' [[Node: '' @ SummarizeNodeDef R nd @ '']]''))"

definition IsValidNode :: "graph \<Rightarrow> nat \<Rightarrow> bool" where
  "IsValidNode g p \<longleftrightarrow>
     (let id = n_id (node_at g p)
      in 0 \<le> id \<and> id < int (length (g_nodes g)) \<and> g_nodes g ! nat id = Some p)"

text \<open>
  \<open>fresh\<close> is the address the arena returns when the free list is empty, an object no other
  node uses, with its placement-new contents.
\<close>

definition AllocateNode :: "nat \<Rightarrow> node_props \<Rightarrow> node option \<Rightarrow> graph \<Rightarrow> nat \<times> graph" where
  "AllocateNode fresh props cost_node g =
     (let (p, n, free) = (if g_free_nodes g = [] then (fresh, Node, [])
                          else (last (g_free_nodes g), node_at g (last (g_free_nodes g)), butlast (g_free_nodes g)));
          new_id = int (length (g_nodes g));
          cost_id = (case cost_node of Some c \<Rightarrow> n_cost_id c | None \<Rightarrow> new_id);
          n = Node_Initialize new_id cost_id props n
      in (p, g\<lparr>g_free_nodes := free, node_at := (node_at g)(p := n), g_nodes := g_nodes g @ [Some p],
               g_num_nodes := g_num_nodes g + 1\<rparr>))"

definition ReleaseNode :: "nat \<Rightarrow> graph \<Rightarrow> graph" where
  "ReleaseNode p g =
     g\<lparr>g_nodes := (g_nodes g)[nat (n_id (node_at g p)) := None], g_free_nodes := g_free_nodes g @ [p],
       g_num_nodes := g_num_nodes g - 1, node_at := (node_at g)(p := Node_Clear (node_at g p))\<rparr>"

definition AddNode :: "op_registry \<Rightarrow> nat \<Rightarrow> node_def \<Rightarrow> status \<Rightarrow> graph \<Rightarrow> nat option \<times> status \<times> graph" where
  "AddNode R fresh nd s g =
     (let (s1, op_def) = LookUpOpDef R (nd_op nd);
          s = Status_Update s s1
      in if \<not> status_ok s then (None, s, g)
         else
           let (s2, inputs, outputs) = InOutTypesForNode R nd op_def;
               s = Status_Update s s2
           in if \<not> status_ok s then (None, AttachDef R s nd, g)
              else
                let (p, g) = AllocateNode fresh
                      \<lparr>np_op_def = op_def, np_node_def = nd, np_input_types = inputs, np_output_types = outputs\<rparr> None g
                in (Some p, s, g))"

definition InternDeviceName :: "string \<Rightarrow> graph \<Rightarrow> int \<times> graph" where
  "InternDeviceName device_name g =
     (if device_name = [] then (0, g)
      else
        let index_cell = (case g_device_names_map g device_name of Some i \<Rightarrow> i | None \<Rightarrow> 0)
        in if index_cell > 0 then (index_cell, g)
           else
             let index = int (card (dom ((g_device_names_map g)(device_name \<mapsto> 0))))
             in (index, g\<lparr>g_device_names_map := (g_device_names_map g)(device_name \<mapsto> index),
                          g_device_names := g_device_names g @ [device_name]\<rparr>))"

definition assigned_device_name :: "graph \<Rightarrow> node \<Rightarrow> string" where
  "assigned_device_name g n = g_device_names g ! nat (n_device_index n)"

definition set_assigned_device_name :: "nat \<Rightarrow> string \<Rightarrow> graph \<Rightarrow> graph" where
  "set_assigned_device_name p device_name g =
     (let (i, g) = InternDeviceName device_name g
      in g\<lparr>node_at := (node_at g)(p := (node_at g p)\<lparr>n_device_index := i\<rparr>)\<rparr>)"

text \<open>The node to copy may belong to another graph, \<open>src\<close>.\<close>

definition CopyNode :: "op_registry \<Rightarrow> nat \<Rightarrow> graph \<Rightarrow> nat \<Rightarrow> graph \<Rightarrow> (nat \<times> graph) option" where
  "CopyNode R fresh src p g = do {
     let n = node_at src p;
     props \<leftarrow> n_props n;
     let (q, g) = AllocateNode fresh props (Some n) g;
     let g = set_assigned_device_name q (assigned_device_name src n) g;
     let (s, op_def) = LookUpOpDef R (nd_op (np_node_def props));
     if \<not> status_ok s then None
     else Some (q, if op_def \<noteq> np_op_def props
       then g\<lparr>node_at := (node_at g)(q := (node_at g q)\<lparr>n_props := Some (props\<lparr>np_op_def := op_def\<rparr>)\<rparr>)\<rparr> else g)
   }"

definition AddEdge :: "nat \<Rightarrow> nat \<Rightarrow> int \<Rightarrow> nat \<Rightarrow> int \<Rightarrow> graph \<Rightarrow> (nat \<times> graph) option" where
  "AddEdge fresh source x dest y g =
     (let (e, free) = (if g_free_edges g = [] then (fresh, [])
                       else (last (g_free_edges g), butlast (g_free_edges g)));
          ed = \<lparr>e_src = Some source, e_dst = Some dest, e_id = int (length (g_edges g)), e_src_output = x, e_dst_input = y\<rparr>;
          g = g\<lparr>g_free_edges := free, edge_at := (edge_at g)(e := ed)\<rparr>;
          (out, fresh_out) = es_insert e (n_out (node_at g source))
      in if \<not> fresh_out then None
         else
           let g = g\<lparr>node_at := (node_at g)(source := (node_at g source)\<lparr>n_out := out\<rparr>)\<rparr>;
               (ins, fresh_in) = es_insert e (n_in (node_at g dest))
           in if \<not> fresh_in then None
              else Some (e, g\<lparr>node_at := (node_at g)(dest := (node_at g dest)\<lparr>n_in := ins\<rparr>),
                              g_edges := g_edges g @ [Some e], g_num_edges := g_num_edges g + 1\<rparr>))"

definition AddControlEdge :: "nat \<Rightarrow> nat \<Rightarrow> nat \<Rightarrow> graph \<Rightarrow> (nat \<times> graph) option" where
  "AddControlEdge fresh source dest g = AddEdge fresh source kControlSlot dest kControlSlot g"

definition RemoveEdge :: "nat \<Rightarrow> graph \<Rightarrow> graph option" where
  "RemoveEdge e g = do {
     src \<leftarrow> e_src (edge_at g e);
     dst \<leftarrow> e_dst (edge_at g e);
     let (out, k) = es_erase e (n_out (node_at g src));
     if k \<noteq> 1 then None
     else do {
       let g = g\<lparr>node_at := (node_at g)(src := (node_at g src)\<lparr>n_out := out\<rparr>)\<rparr>;
       let (ins, k) = es_erase e (n_in (node_at g dst));
       if k \<noteq> 1 then None
       else do {
         let g = g\<lparr>node_at := (node_at g)(dst := (node_at g dst)\<lparr>n_in := ins\<rparr>)\<rparr>;
         let id = e_id (edge_at g e);
         if \<not> (0 \<le> id \<and> id < int (length (g_edges g)) \<and> g_edges g ! nat id = Some e) then None
         else if \<not> g_num_edges g > 0 then None
         else Some (g\<lparr>g_edges := (g_edges g)[nat id := None],
                      edge_at := (edge_at g)(e := \<lparr>e_src = None, e_dst = None, e_id = -1,
                        e_src_output = kControlSlot - 1, e_dst_input = kControlSlot - 1\<rparr>),
                      g_free_edges := g_free_edges g @ [e], g_num_edges := g_num_edges g - 1\<rparr>)
       }
     }
   }"

partial_function (option) remove_in_edges :: "nat \<Rightarrow> graph \<Rightarrow> graph option" where
  [code]: "remove_in_edges p g =
     (if es_empty (n_in (node_at g p)) then Some g
      else Option.bind (RemoveEdge (hd (es_elems (n_in (node_at g p)))) g) (remove_in_edges p))"

partial_function (option) remove_out_edges :: "nat \<Rightarrow> graph \<Rightarrow> graph option" where
  [code]: "remove_out_edges p g =
     (if es_empty (n_out (node_at g p)) then Some g
      else Option.bind (RemoveEdge (hd (es_elems (n_out (node_at g p)))) g) (remove_out_edges p))"

definition RemoveNode :: "nat \<Rightarrow> graph \<Rightarrow> graph option" where
  "RemoveNode p g = do {
     g \<leftarrow> remove_in_edges p g;
     g \<leftarrow> remove_out_edges p g;
     Some (ReleaseNode p g)
   }"

definition source_node :: "graph \<Rightarrow> nat option" where "source_node g = g_nodes g ! 0"
definition sink_node :: "graph \<Rightarrow> nat option" where "sink_node g = g_nodes g ! 1"

text \<open>\<open>fresh\<close> are the three addresses the constructor allocates: two nodes and an edge.\<close>

definition Graph :: "op_registry \<Rightarrow> nat \<times> nat \<times> nat \<Rightarrow> graph option" where
  "Graph R fresh =
     (let (f0, f1, f2) = fresh;
          g = \<lparr>g_nodes = [], g_num_nodes = 0, g_edges = [], g_num_edges = 0, g_free_nodes = [], g_free_edges = [],
               g_name_counter = 0, g_device_names = [[]], g_device_names_map = (\<lambda>_. None),
               node_at = (\<lambda>_. Node), edge_at = (\<lambda>_. \<lparr>e_src = None, e_dst = None, e_id = -1, e_src_output = -2, e_dst_input = -2\<rparr>)\<rparr>;
          nd = \<lparr>nd_name = ''_SOURCE'', nd_op = ''NoOp'', nd_input = [], nd_device = [], nd_attr = (\<lambda>_. None)\<rparr>;
          (src, s, g) = AddNode R f0 nd OK g
      in if \<not> status_ok s then None
         else
           let (snk, s, g) = AddNode R f1 (nd\<lparr>nd_name := ''_SINK''\<rparr>) s g
           in if \<not> status_ok s then None
              else (case (src, snk) of
                (Some p, Some q) \<Rightarrow>
                  (if n_id (node_at g p) \<noteq> 0 \<or> n_id (node_at g q) \<noteq> 1 then None
                   else map_option snd (AddControlEdge f2 p q g))
              | _ \<Rightarrow> None))"

text \<open>\<open>nodes()\<close> visits the node ids in order and skips the removed ones.\<close>

definition nodes :: "graph \<Rightarrow> nat list" where
  "nodes g = List.map_filter (\<lambda>x. x) (g_nodes g)"

definition in_edges :: "graph \<Rightarrow> nat \<Rightarrow> edge list" where
  "in_edges g p = map (edge_at g) (es_elems (n_in (node_at g p)))"

definition out_edges :: "graph \<Rightarrow> nat \<Rightarrow> edge list" where
  "out_edges g p = map (edge_at g) (es_elems (n_out (node_at g p)))"

definition in_nodes :: "graph \<Rightarrow> nat \<Rightarrow> nat list" where
  "in_nodes g p = List.map_filter e_src (in_edges g p)"

definition out_nodes :: "graph \<Rightarrow> nat \<Rightarrow> nat list" where
  "out_nodes g p = List.map_filter e_dst (out_edges g p)"

section \<open>Well-formed graphs\<close>

definition IsLiveEdge :: "graph \<Rightarrow> nat \<Rightarrow> bool" where
  "IsLiveEdge g e \<longleftrightarrow>
     (let i = e_id (edge_at g e) in 0 \<le> i \<and> i < int (length (g_edges g)) \<and> g_edges g ! nat i = Some e)"

definition ids_ok :: "nat option list \<Rightarrow> (nat \<Rightarrow> int) \<Rightarrow> bool" where
  "ids_ok xs f \<longleftrightarrow> (\<forall>i < length xs. \<forall>p. xs ! i = Some p \<longrightarrow> f p = int i)"

definition edges_ok :: "graph \<Rightarrow> bool" where
  "edges_ok g \<longleftrightarrow> (\<forall>e. IsLiveEdge g e \<longrightarrow> (\<exists>s d. e_src (edge_at g e) = Some s \<and> e_dst (edge_at g e) = Some d \<and>
     IsValidNode g s \<and> IsValidNode g d) \<and> (e_src_output (edge_at g e) = -1 \<longleftrightarrow> e_dst_input (edge_at g e) = -1))"

definition nodes_ok :: "graph \<Rightarrow> bool" where
  "nodes_ok g \<longleftrightarrow> (\<forall>p. IsValidNode g p \<longrightarrow> n_props (node_at g p) \<noteq> None \<and>
     es_ok (n_in (node_at g p)) \<and> es_ok (n_out (node_at g p)) \<and>
     (\<forall>e. e \<in> set (es_elems (n_out (node_at g p))) \<longleftrightarrow> IsLiveEdge g e \<and> e_src (edge_at g e) = Some p) \<and>
     (\<forall>e. e \<in> set (es_elems (n_in (node_at g p))) \<longleftrightarrow> IsLiveEdge g e \<and> e_dst (edge_at g e) = Some p))"

definition count_ok :: "nat option list \<Rightarrow> int \<Rightarrow> bool" where
  "count_ok xs n \<longleftrightarrow> n = int (length (filter (\<lambda>x. x \<noteq> None) xs))"

definition free_ok :: "graph \<Rightarrow> bool" where
  "free_ok g \<longleftrightarrow> distinct (g_free_nodes g) \<and> (\<forall>p \<in> set (g_free_nodes g). node_at g p = Node) \<and>
     distinct (g_free_edges g) \<and> (\<forall>e \<in> set (g_free_edges g). e_id (edge_at g e) = -1)"

definition devices_ok :: "graph \<Rightarrow> bool" where
  "devices_ok g \<longleftrightarrow> g_device_names g \<noteq> [] \<and> hd (g_device_names g) = [] \<and> distinct (g_device_names g) \<and>
     g_device_names_map g = map_of (zip (tl (g_device_names g)) (map int [1..<length (g_device_names g)])) \<and>
     (\<forall>p. IsValidNode g p \<longrightarrow> 0 \<le> n_device_index (node_at g p) \<and>
        n_device_index (node_at g p) < int (length (g_device_names g)))"

definition graph_ok :: "graph \<Rightarrow> bool" where
  "graph_ok g \<longleftrightarrow> ids_ok (g_nodes g) (\<lambda>p. n_id (node_at g p)) \<and> ids_ok (g_edges g) (\<lambda>e. e_id (edge_at g e)) \<and>
     edges_ok g \<and> nodes_ok g \<and> count_ok (g_nodes g) (g_num_nodes g) \<and> count_ok (g_edges g) (g_num_edges g) \<and>
     free_ok g \<and> devices_ok g \<and>
     2 \<le> length (g_nodes g) \<and> source_node g \<noteq> None \<and> sink_node g \<noteq> None"

lemma IsValidNode_cong:
  "g_nodes g' = g_nodes g \<Longrightarrow> (\<And>p. n_id (node_at g' p) = n_id (node_at g p)) \<Longrightarrow> IsValidNode g' p = IsValidNode g p"
  by (simp add: IsValidNode_def)

lemma count_ok_append: "count_ok xs n \<Longrightarrow> count_ok (xs @ [Some p]) (n + 1)"
  by (simp add: count_ok_def)

lemma count_filter_update:
  "i < length xs \<Longrightarrow> xs ! i = Some p \<Longrightarrow>
   Suc (length (filter (\<lambda>x. x \<noteq> None) (xs[i := None]))) = length (filter (\<lambda>x. x \<noteq> None) xs)"
proof (induction xs arbitrary: i)
  case (Cons x xs)
  then show ?case by (cases i) (auto simp del: not_None_eq)
qed simp

lemma count_ok_remove: "count_ok xs n \<Longrightarrow> i < length xs \<Longrightarrow> xs ! i = Some p \<Longrightarrow> count_ok (xs[i := None]) (n - 1)"
  using count_filter_update [of i xs p] by (simp add: count_ok_def)

lemma count_ok_pos: "count_ok xs n \<Longrightarrow> i < length xs \<Longrightarrow> xs ! i = Some p \<Longrightarrow> 0 < n"
  using count_filter_update [of i xs p] by (metis count_ok_def of_nat_0_less_iff zero_less_Suc)

lemma ids_ok_inj: "ids_ok xs f \<Longrightarrow> i < length xs \<Longrightarrow> xs ! i = Some p \<Longrightarrow> f p = int i"
  by (simp add: ids_ok_def)

lemma ids_ok_remove:
  assumes "ids_ok xs f" "i < length xs" "xs ! i = Some e" "\<And>p. p \<noteq> e \<Longrightarrow> f' p = f p"
  shows "ids_ok (xs[i := None]) f'"
  unfolding ids_ok_def
proof (intro allI impI)
  fix j p assume j: "j < length (xs[i := None])" and p: "xs[i := None] ! j = Some p"
  then have ji: "j \<noteq> i" by (metis assms(2) nth_list_update_eq option.distinct(1))
  then have "xs ! j = Some p" using p by simp
  then have fp: "f p = int j" using ids_ok_inj [OF assms(1)] j by simp
  moreover have "f e = int i" using ids_ok_inj [OF assms(1-3)] .
  ultimately have "p \<noteq> e" using ji by auto
  then show "f' p = int j" using assms(4) fp by simp
qed

lemma ids_ok_append:
  assumes "ids_ok xs f" "f' p = int (length xs)" "\<And>i q. i < length xs \<Longrightarrow> xs ! i = Some q \<Longrightarrow> f' q = f q"
  shows "ids_ok (xs @ [Some p]) f'"
  using assms by (auto simp: ids_ok_def nth_append less_Suc_eq)

section \<open>The abstract graph\<close>

text \<open>
  What a client sees: a finite map from node ids to their properties and device, and one from edge
  ids to the ids of the two nodes and their slots.
\<close>

definition node_map :: "graph \<Rightarrow> nat \<Rightarrow> (node_props \<times> string) option" where
  "node_map g i = (if i < length (g_nodes g) then
     (case g_nodes g ! i of None \<Rightarrow> None
      | Some p \<Rightarrow> map_option (\<lambda>pr. (pr, assigned_device_name g (node_at g p))) (n_props (node_at g p))) else None)"

definition edge_map :: "graph \<Rightarrow> nat \<Rightarrow> (int \<times> int \<times> int \<times> int) option" where
  "edge_map g i = (if i < length (g_edges g) then
     (case g_edges g ! i of None \<Rightarrow> None
      | Some e \<Rightarrow> (case (e_src (edge_at g e), e_dst (edge_at g e)) of
          (Some s, Some d) \<Rightarrow> Some (n_id (node_at g s), e_src_output (edge_at g e), n_id (node_at g d), e_dst_input (edge_at g e))
        | _ \<Rightarrow> None)) else None)"

section \<open>Adding an edge\<close>

lemma AddEdge_ok:
  assumes g: "graph_ok g" and s: "IsValidNode g s" and d: "IsValidNode g d" and slots: "x = -1 \<longleftrightarrow> y = -1"
    and fresh: "g_free_edges g = [] \<Longrightarrow> \<not> IsLiveEdge g fresh"
  shows "\<exists>e g'. AddEdge fresh s x d y g = Some (e, g') \<and> graph_ok g' \<and> node_map g' = node_map g \<and>
    edge_map g' = (edge_map g)(length (g_edges g) \<mapsto> (n_id (node_at g s), x, n_id (node_at g d), y)) \<and>
    IsLiveEdge g' e \<and> e_id (edge_at g' e) = int (length (g_edges g)) \<and> (\<forall>p. IsValidNode g' p = IsValidNode g p) \<and>
    g_nodes g' = g_nodes g \<and> length (g_edges g') = Suc (length (g_edges g)) \<and>
    (\<forall>p. n_id (node_at g' p) = n_id (node_at g p))"
proof -
  note G = g [unfolded graph_ok_def]
  obtain e free where ef: "(if g_free_edges g = [] then (fresh, [])
      else (last (g_free_edges g), butlast (g_free_edges g))) = (e, free)" by fastforce
  have dead: "\<not> IsLiveEdge g e"
    using ef fresh G by (auto simp: free_ok_def IsLiveEdge_def Let_def split: if_splits)
  have free: "distinct free" "set free \<subseteq> set (g_free_edges g)" "e \<notin> set free"
  proof -
    show "distinct free" "set free \<subseteq> set (g_free_edges g)"
      using ef G by (auto simp: free_ok_def distinct_butlast dest: in_set_butlastD split: if_splits)
    show "e \<notin> set free"
    proof (cases "g_free_edges g = []")
      case False
      then have "g_free_edges g = free @ [e]" using ef by auto
      moreover have "distinct (g_free_edges g)" using G by (simp add: free_ok_def)
      ultimately show ?thesis by simp
    qed (use ef in auto)
  qed
  define ed where "ed = \<lparr>e_src = Some s, e_dst = Some d, e_id = int (length (g_edges g)), e_src_output = x, e_dst_input = y\<rparr>"
  have notin: "e \<notin> set (es_elems (n_out (node_at g p)))" "e \<notin> set (es_elems (n_in (node_at g p)))"
    if "IsValidNode g p" for p using G that dead by (auto simp: nodes_ok_def)
  have esok: "es_ok (n_out (node_at g p))" "es_ok (n_in (node_at g p))" if "IsValidNode g p" for p
    using G that by (auto simp: nodes_ok_def)
  obtain out where out: "es_insert e (n_out (node_at g s)) = (out, True)" "es_ok out"
    "set (es_elems out) = insert e (set (es_elems (n_out (node_at g s))))"
    using es_insert_ok [OF esok(1) [OF s], of e] notin(1) [OF s] by (cases "es_insert e (n_out (node_at g s))") auto
  obtain ins where ins: "es_insert e (n_in (node_at g d)) = (ins, True)" "es_ok ins"
    "set (es_elems ins) = insert e (set (es_elems (n_in (node_at g d))))"
    using es_insert_ok [OF esok(2) [OF d], of e] notin(2) [OF d] by (cases "es_insert e (n_in (node_at g d))") auto
  define na where "na = (node_at g)(s := (node_at g s)\<lparr>n_out := out\<rparr>)"
  define na' where "na' = na(d := (na d)\<lparr>n_in := ins\<rparr>)"
  define g' where "g' = g\<lparr>g_free_edges := free, edge_at := (edge_at g)(e := ed), node_at := na',
    g_edges := g_edges g @ [Some e], g_num_edges := g_num_edges g + 1\<rparr>"
  have nin: "n_in (na d) = n_in (node_at g d)" by (simp add: na_def)
  have add: "AddEdge fresh s x d y g = Some (e, g')"
    by (simp add: AddEdge_def ef ed_def [symmetric] out(1) g'_def Let_def nin ins(1) na'_def flip: na_def)
  have nd: "n_id (na' p) = n_id (node_at g p)" "n_props (na' p) = n_props (node_at g p)"
    "n_device_index (na' p) = n_device_index (node_at g p)"
    "n_out (na' p) = (if p = s then out else n_out (node_at g p))"
    "n_in (na' p) = (if p = d then ins else n_in (node_at g p))" for p
    by (simp_all add: na'_def na_def)
  have sel: "g_nodes g' = g_nodes g" "g_edges g' = g_edges g @ [Some e]" "node_at g' = na'" "edge_at g' = (edge_at g)(e := ed)"
    "g_num_nodes g' = g_num_nodes g" "g_num_edges g' = g_num_edges g + 1" "g_free_nodes g' = g_free_nodes g"
    "g_free_edges g' = free" "g_device_names g' = g_device_names g" "g_device_names_map g' = g_device_names_map g"
    by (simp_all add: g'_def)
  have val: "IsValidNode g' p = IsValidNode g p" for p by (rule IsValidNode_cong) (simp_all add: sel nd)
  have ids: "e \<noteq> f" if "i < length (g_edges g)" "g_edges g ! i = Some f" for i f
    using that dead G by (auto simp: IsLiveEdge_def ids_ok_def Let_def)
  have live: "IsLiveEdge g' f \<longleftrightarrow> f = e \<or> IsLiveEdge g f" for f
    using dead by (auto simp: IsLiveEdge_def sel ed_def Let_def nth_append nat_less_iff)
  have src: "e_src (edge_at g' f) = Some p \<longleftrightarrow> (if f = e then p = s else e_src (edge_at g f) = Some p)"
    "e_dst (edge_at g' f) = Some p \<longleftrightarrow> (if f = e then p = d else e_dst (edge_at g f) = Some p)" for f p
    by (auto simp: sel ed_def)
  have "graph_ok g'"
    unfolding graph_ok_def
  proof (intro conjI)
    show "ids_ok (g_nodes g') (\<lambda>p. n_id (node_at g' p))" using G by (simp add: sel nd ids_ok_def)
    show "ids_ok (g_edges g') (\<lambda>e. e_id (edge_at g' e))"
      using G ids by (auto simp: sel ids_ok_def nth_append ed_def less_Suc_eq)
    show "edges_ok g'"
      using G s d slots unfolding edges_ok_def val live
      by (auto simp: sel ed_def)
    show "nodes_ok g'"
      using G dead unfolding nodes_ok_def val live src by (auto simp: sel nd out(2,3) ins(2,3))
    show "count_ok (g_nodes g') (g_num_nodes g')" using G by (simp add: sel)
    show "count_ok (g_edges g') (g_num_edges g')" using G by (simp add: sel count_ok_append)
    have "s \<notin> set (g_free_nodes g)" "d \<notin> set (g_free_nodes g)"
      using G s d by (auto simp: free_ok_def IsValidNode_def Node_def Let_def)
    then show "free_ok g'" using G free by (auto simp: free_ok_def sel na'_def na_def)
    show "devices_ok g'" using G unfolding devices_ok_def val by (simp add: sel nd)
    show "2 \<le> length (g_nodes g')" "source_node g' \<noteq> None" "sink_node g' \<noteq> None"
      using G by (simp_all add: sel source_node_def sink_node_def)
  qed
  moreover have "node_map g' = node_map g"
    by (rule ext) (simp add: node_map_def sel nd assigned_device_name_def cong: option.case_cong)
  moreover have "edge_map g' = (edge_map g)(length (g_edges g) \<mapsto> (n_id (node_at g s), x, n_id (node_at g d), y))"
  proof (rule ext)
    fix i
    show "edge_map g' i = ((edge_map g)(length (g_edges g) \<mapsto> (n_id (node_at g s), x, n_id (node_at g d), y))) i"
      using ids [of i] by (auto simp: edge_map_def sel nd nth_append ed_def less_Suc_eq split: option.split)
  qed
  ultimately show ?thesis using add val live by (intro exI [of _ e] exI [of _ g']) (simp add: sel nd ed_def)
qed

section \<open>Removing edges and nodes\<close>

lemma live_edgeD:
  assumes "graph_ok g" "IsLiveEdge g e"
  obtains s d i where "e_src (edge_at g e) = Some s" "e_dst (edge_at g e) = Some d" "IsValidNode g s" "IsValidNode g d"
    "e \<in> set (es_elems (n_out (node_at g s)))" "e \<in> set (es_elems (n_in (node_at g d)))"
    "e_id (edge_at g e) = int i" "i < length (g_edges g)" "g_edges g ! i = Some e"
proof -
  obtain s d where sd: "e_src (edge_at g e) = Some s" "e_dst (edge_at g e) = Some d" "IsValidNode g s" "IsValidNode g d"
    using assms unfolding graph_ok_def edges_ok_def by blast
  have "e \<in> set (es_elems (n_out (node_at g s)))" "e \<in> set (es_elems (n_in (node_at g d)))"
    using assms sd unfolding graph_ok_def nodes_ok_def by blast+
  moreover obtain i where "e_id (edge_at g e) = int i" "i < length (g_edges g)" "g_edges g ! i = Some e"
    using assms(2) by (auto simp: IsLiveEdge_def Let_def elim: nonneg_int_cases)
  ultimately show thesis using sd that by blast
qed

lemma RemoveEdge_ok:
  assumes g: "graph_ok g" and e: "IsLiveEdge g e"
  shows "\<exists>g'. RemoveEdge e g = Some g' \<and> graph_ok g' \<and> node_map g' = node_map g \<and>
    edge_map g' = (edge_map g)(nat (e_id (edge_at g e)) := None) \<and> (\<forall>p. IsValidNode g' p = IsValidNode g p) \<and>
    (\<forall>f. IsLiveEdge g' f \<longleftrightarrow> f \<noteq> e \<and> IsLiveEdge g f) \<and> (\<forall>f. f \<noteq> e \<longrightarrow> edge_at g' f = edge_at g f) \<and>
    g_nodes g' = g_nodes g \<and> length (g_edges g') = length (g_edges g) \<and> (\<forall>p. n_id (node_at g' p) = n_id (node_at g p))"
proof -
  note G = g [unfolded graph_ok_def]
  obtain s d i where sd: "e_src (edge_at g e) = Some s" "e_dst (edge_at g e) = Some d" "IsValidNode g s" "IsValidNode g d"
    "e \<in> set (es_elems (n_out (node_at g s)))" "e \<in> set (es_elems (n_in (node_at g d)))"
    "e_id (edge_at g e) = int i" "i < length (g_edges g)" "g_edges g ! i = Some e"
    using live_edgeD [OF g e] by metis
  have esok: "es_ok (n_out (node_at g p))" "es_ok (n_in (node_at g p))" if "IsValidNode g p" for p
    using G that by (auto simp: nodes_ok_def)
  obtain out where out: "es_erase e (n_out (node_at g s)) = (out, 1)" "es_ok out"
    "set (es_elems out) = set (es_elems (n_out (node_at g s))) - {e}"
    using es_erase_ok [OF esok(1) [OF sd(3)], of e] sd(5) by (cases "es_erase e (n_out (node_at g s))") auto
  obtain ins where ins: "es_erase e (n_in (node_at g d)) = (ins, 1)" "es_ok ins"
    "set (es_elems ins) = set (es_elems (n_in (node_at g d))) - {e}"
    using es_erase_ok [OF esok(2) [OF sd(4)], of e] sd(6) by (cases "es_erase e (n_in (node_at g d))") auto
  define na where "na = (node_at g)(s := (node_at g s)\<lparr>n_out := out\<rparr>)"
  define na' where "na' = na(d := (na d)\<lparr>n_in := ins\<rparr>)"
  define ed where "ed = \<lparr>e_src = None, e_dst = None, e_id = -1, e_src_output = kControlSlot - 1, e_dst_input = kControlSlot - 1\<rparr>"
  define g' where "g' = g\<lparr>node_at := na', g_edges := (g_edges g)[i := None], edge_at := (edge_at g)(e := ed),
    g_free_edges := g_free_edges g @ [e], g_num_edges := g_num_edges g - 1\<rparr>"
  have nin: "n_in (na d) = n_in (node_at g d)" by (simp add: na_def)
  have pos: "0 < g_num_edges g" using G count_ok_pos sd(8,9) by blast
  have rem: "RemoveEdge e g = Some g'"
    using sd pos by (simp add: RemoveEdge_def out(1) Let_def nin ins(1) na'_def ed_def g'_def flip: na_def)
  have nd: "n_id (na' p) = n_id (node_at g p)" "n_props (na' p) = n_props (node_at g p)"
    "n_device_index (na' p) = n_device_index (node_at g p)"
    "n_out (na' p) = (if p = s then out else n_out (node_at g p))"
    "n_in (na' p) = (if p = d then ins else n_in (node_at g p))" for p
    by (simp_all add: na'_def na_def)
  have sel: "g_nodes g' = g_nodes g" "g_edges g' = (g_edges g)[i := None]" "node_at g' = na'" "edge_at g' = (edge_at g)(e := ed)"
    "g_num_nodes g' = g_num_nodes g" "g_num_edges g' = g_num_edges g - 1" "g_free_nodes g' = g_free_nodes g"
    "g_free_edges g' = g_free_edges g @ [e]" "g_device_names g' = g_device_names g" "g_device_names_map g' = g_device_names_map g"
    by (simp_all add: g'_def)
  have val: "IsValidNode g' p = IsValidNode g p" for p by (rule IsValidNode_cong) (simp_all add: sel nd)
  have uniq: "f \<noteq> e" if "j < length (g_edges g)" "j \<noteq> i" "g_edges g ! j = Some f" for j f
    using that G sd(7) by (auto simp: ids_ok_def)
  have live: "IsLiveEdge g' f \<longleftrightarrow> f \<noteq> e \<and> IsLiveEdge g f" for f
    using sd(7,9) by (cases "nat (e_id (edge_at g f)) = i") (auto simp: IsLiveEdge_def sel ed_def Let_def nth_list_update nat_less_iff)
  have nofree: "e \<notin> set (g_free_edges g)" using G sd(7) by (auto simp: free_ok_def)
  have "graph_ok g'"
    unfolding graph_ok_def
  proof (intro conjI)
    show "ids_ok (g_nodes g') (\<lambda>p. n_id (node_at g' p))" using G by (simp add: sel nd ids_ok_def)
    show "ids_ok (g_edges g') (\<lambda>e. e_id (edge_at g' e))"
      unfolding sel by (rule ids_ok_remove [where f = "\<lambda>e. e_id (edge_at g e)", OF _ sd(8,9)]) (use G in simp_all)
    show "edges_ok g'" using G unfolding edges_ok_def val live by (auto simp: sel)
    show "nodes_ok g'"
      using G sd(1,2) unfolding nodes_ok_def val live by (auto simp: sel nd out(2,3) ins(2,3))
    show "count_ok (g_nodes g') (g_num_nodes g')" using G by (simp add: sel)
    show "count_ok (g_edges g') (g_num_edges g')" using G sd(8,9) by (simp add: sel count_ok_remove)
    have "s \<notin> set (g_free_nodes g)" "d \<notin> set (g_free_nodes g)"
      using G sd(3,4) by (auto simp: free_ok_def IsValidNode_def Node_def Let_def)
    then show "free_ok g'" using G nofree by (auto simp: free_ok_def sel na'_def na_def ed_def)
    show "devices_ok g'" using G unfolding devices_ok_def val by (simp add: sel nd)
    show "2 \<le> length (g_nodes g')" "source_node g' \<noteq> None" "sink_node g' \<noteq> None"
      using G by (simp_all add: sel source_node_def sink_node_def)
  qed
  moreover have "node_map g' = node_map g"
    by (rule ext) (simp add: node_map_def sel nd assigned_device_name_def cong: option.case_cong)
  moreover have "edge_map g' = (edge_map g)(nat (e_id (edge_at g e)) := None)"
  proof (rule ext)
    fix j
    show "edge_map g' j = ((edge_map g)(nat (e_id (edge_at g e)) := None)) j"
      using uniq [of j] by (auto simp: edge_map_def sel nd nth_list_update sd(7) split: option.split)
  qed
  ultimately show ?thesis using rem val live by (intro exI [of _ g']) (simp add: sel nd)
qed

text \<open>
  Both loops of \<open>RemoveNode\<close> end: each step takes one edge out of the set that the loop tests.
\<close>

definition removes :: "graph \<Rightarrow> (nat \<Rightarrow> bool) \<Rightarrow> graph \<Rightarrow> bool" where
  "removes g P g' \<longleftrightarrow> graph_ok g' \<and> node_map g' = node_map g \<and>
    edge_map g' = (\<lambda>i. if \<exists>e. P e \<and> IsLiveEdge g e \<and> e_id (edge_at g e) = int i then None else edge_map g i) \<and>
    (\<forall>p. IsValidNode g' p = IsValidNode g p) \<and> (\<forall>f. IsLiveEdge g' f \<longleftrightarrow> \<not> P f \<and> IsLiveEdge g f) \<and>
    (\<forall>f. IsLiveEdge g' f \<longrightarrow> edge_at g' f = edge_at g f) \<and> g_nodes g' = g_nodes g \<and>
    length (g_edges g') = length (g_edges g) \<and> (\<forall>p. n_id (node_at g' p) = n_id (node_at g p))"

lemma removes_step:
  assumes g: "graph_ok g" and e: "IsLiveEdge g e" "P e" and h: "RemoveEdge e g = Some h"
    and rest: "removes h P g'"
  shows "removes g P g'"
proof -
  obtain h' where h': "RemoveEdge e g = Some h'" "graph_ok h'" "node_map h' = node_map g"
    "edge_map h' = (edge_map g)(nat (e_id (edge_at g e)) := None)" "\<forall>p. IsValidNode h' p = IsValidNode g p"
    "\<forall>f. IsLiveEdge h' f \<longleftrightarrow> f \<noteq> e \<and> IsLiveEdge g f" "\<forall>f. f \<noteq> e \<longrightarrow> edge_at h' f = edge_at g f" "g_nodes h' = g_nodes g"
    "length (g_edges h') = length (g_edges g)" "\<forall>p. n_id (node_at h' p) = n_id (node_at g p)"
    using RemoveEdge_ok [OF g e(1)] by blast
  have [simp]: "h' = h" using h h'(1) by simp
  note R = rest [unfolded removes_def]
  have "edge_map g' = (\<lambda>i. if \<exists>e. P e \<and> IsLiveEdge g e \<and> e_id (edge_at g e) = int i then None else edge_map g i)"
  proof (rule ext)
    fix i
    obtain k where k: "e_id (edge_at g e) = int k" using e(1) by (auto simp: IsLiveEdge_def Let_def elim: nonneg_int_cases)
    have "(\<exists>f. P f \<and> IsLiveEdge h f \<and> e_id (edge_at h f) = int i) \<longleftrightarrow>
        (\<exists>f. P f \<and> f \<noteq> e \<and> IsLiveEdge g f \<and> e_id (edge_at g f) = int i)"
      using h'(6,7) by auto
    then have "(\<exists>f. P f \<and> IsLiveEdge h f \<and> e_id (edge_at h f) = int i) \<or> i = nat (e_id (edge_at g e)) \<longleftrightarrow>
        (\<exists>f. P f \<and> IsLiveEdge g f \<and> e_id (edge_at g f) = int i)"
      using e k by auto
    then show "edge_map g' i = (if \<exists>e. P e \<and> IsLiveEdge g e \<and> e_id (edge_at g e) = int i then None else edge_map g i)"
      using R h'(4) by auto
  qed
  moreover have "\<forall>f. IsLiveEdge g' f \<longleftrightarrow> \<not> P f \<and> IsLiveEdge g f" using R h'(6) e(2) by auto
  moreover have "\<forall>f. IsLiveEdge g' f \<longrightarrow> edge_at g' f = edge_at g f" using R h'(6,7) by auto
  ultimately show ?thesis using R h' unfolding removes_def by auto
qed

lemma removes_none:
  assumes "graph_ok g" "\<And>e. IsLiveEdge g e \<Longrightarrow> \<not> P e"
  shows "removes g P g"
  using assms by (auto simp: removes_def fun_eq_iff)

lemma finite_live_edges: "finite {e. IsLiveEdge g e}"
proof -
  have "{e. IsLiveEdge g e} \<subseteq> (\<lambda>i. the (g_edges g ! i)) ` {..<length (g_edges g)}"
  proof
    fix e assume "e \<in> {e. IsLiveEdge g e}"
    then have "nat (e_id (edge_at g e)) < length (g_edges g)" "the (g_edges g ! nat (e_id (edge_at g e))) = e"
      by (auto simp: IsLiveEdge_def Let_def)
    then show "e \<in> (\<lambda>i. the (g_edges g ! i)) ` {..<length (g_edges g)}" by (metis imageI lessThan_iff)
  qed
  then show ?thesis by (rule finite_subset) simp
qed

lemma removes_cong:
  assumes "removes g P g'" "\<And>e. IsLiveEdge g e \<Longrightarrow> P e = Q e"
  shows "removes g Q g'"
proof -
  have "(\<exists>e. P e \<and> IsLiveEdge g e \<and> e_id (edge_at g e) = int i) \<longleftrightarrow> (\<exists>e. Q e \<and> IsLiveEdge g e \<and> e_id (edge_at g e) = int i)" for i
    using assms(2) by blast
  then show ?thesis using assms by (auto simp: removes_def)
qed

lemma remove_loop_ok:
  assumes loop: "\<And>g. loop g = (if es_empty (sel (node_at g p)) then Some g
      else Option.bind (RemoveEdge (hd (es_elems (sel (node_at g p)))) g) loop)"
    and sel: "\<And>g e. graph_ok g \<Longrightarrow> IsValidNode g p \<Longrightarrow> es_ok (sel (node_at g p)) \<and>
      (e \<in> set (es_elems (sel (node_at g p))) \<longleftrightarrow> IsLiveEdge g e \<and> endp (edge_at g e) = Some p)"
    and "graph_ok g" "IsValidNode g p"
  shows "\<exists>g'. loop g = Some g' \<and> removes g (\<lambda>e. endp (edge_at g e) = Some p) g'"
  using assms(3,4)
proof (induction "card {e. IsLiveEdge g e}" arbitrary: g rule: less_induct)
  case less
  have ok: "es_ok (sel (node_at g p))" and ins: "\<And>e. e \<in> set (es_elems (sel (node_at g p))) \<longleftrightarrow> IsLiveEdge g e \<and> endp (edge_at g e) = Some p"
    using sel [OF less.prems] by blast+
  show ?case
  proof (cases "es_elems (sel (node_at g p))")
    case Nil
    then have "loop g = Some g" using ok by (subst loop) simp
    moreover have "removes g (\<lambda>e. endp (edge_at g e) = Some p) g"
      by (rule removes_none [OF less.prems(1)]) (use ins Nil in auto)
    ultimately show ?thesis by blast
  next
    case (Cons e es)
    then have e: "IsLiveEdge g e" "endp (edge_at g e) = Some p" using ins [of e] by auto
    obtain h where h: "RemoveEdge e g = Some h" "graph_ok h" "\<forall>p. IsValidNode h p = IsValidNode g p"
      "\<forall>f. IsLiveEdge h f \<longleftrightarrow> f \<noteq> e \<and> IsLiveEdge g f" "\<forall>f. f \<noteq> e \<longrightarrow> edge_at h f = edge_at g f"
      using RemoveEdge_ok [OF less.prems(1) e(1)] by blast
    have "{f. IsLiveEdge h f} \<subset> {f. IsLiveEdge g f}" using h(4) e by auto
    then have "card {f. IsLiveEdge h f} < card {f. IsLiveEdge g f}" by (rule psubset_card_mono [OF finite_live_edges])
    from less.hyps [OF this h(2)] obtain g' where g': "loop h = Some g'"
      "removes h (\<lambda>f. endp (edge_at h f) = Some p) g'" using h(3) less.prems(2) by blast
    have "removes h (\<lambda>f. endp (edge_at g f) = Some p) g'"
      by (rule removes_cong [OF g'(2)]) (use h(4,5) in auto)
    from removes_step [OF less.prems(1) e(1) _ h(1) this] have "removes g (\<lambda>f. endp (edge_at g f) = Some p) g'" using e(2) by simp
    moreover have "loop g = Some g'"
      by (subst loop) (simp add: ok Cons h(1) g'(1))
    ultimately show ?thesis by blast
  qed
qed

lemma remove_edges_ok:
  assumes "graph_ok g" "IsValidNode g p"
  shows "\<exists>g'. remove_in_edges p g = Some g' \<and> removes g (\<lambda>e. e_dst (edge_at g e) = Some p) g'"
    "\<exists>g'. remove_out_edges p g = Some g' \<and> removes g (\<lambda>e. e_src (edge_at g e) = Some p) g'"
  by (rule remove_loop_ok [OF remove_in_edges.simps _ assms] remove_loop_ok [OF remove_out_edges.simps _ assms],
      simp add: graph_ok_def nodes_ok_def)+

lemma ReleaseNode_ok:
  assumes g: "graph_ok g" and p: "IsValidNode g p" "1 < n_id (node_at g p)"
    and none: "\<And>e. IsLiveEdge g e \<Longrightarrow> e_src (edge_at g e) \<noteq> Some p \<and> e_dst (edge_at g e) \<noteq> Some p"
  shows "graph_ok (ReleaseNode p g) \<and> node_map (ReleaseNode p g) = (node_map g)(nat (n_id (node_at g p)) := None) \<and>
    edge_map (ReleaseNode p g) = edge_map g \<and> (\<forall>q. IsValidNode (ReleaseNode p g) q \<longleftrightarrow> q \<noteq> p \<and> IsValidNode g q)"
proof -
  note G = g [unfolded graph_ok_def]
  define i where "i = nat (n_id (node_at g p))"
  have i: "n_id (node_at g p) = int i" "i < length (g_nodes g)" "g_nodes g ! i = Some p" "1 < i"
    using p by (auto simp: IsValidNode_def Let_def i_def)
  define g' where "g' = ReleaseNode p g"
  have clear: "Node_Clear n = Node" for n by (simp add: Node_Clear_def Node_def)
  have sel: "g_nodes g' = (g_nodes g)[i := None]" "g_edges g' = g_edges g" "node_at g' = (node_at g)(p := Node)"
    "edge_at g' = edge_at g" "g_num_nodes g' = g_num_nodes g - 1" "g_num_edges g' = g_num_edges g"
    "g_free_nodes g' = g_free_nodes g @ [p]" "g_free_edges g' = g_free_edges g" "g_device_names g' = g_device_names g"
    "g_device_names_map g' = g_device_names_map g"
    by (simp_all add: g'_def ReleaseNode_def clear i_def)
  have uniq: "q \<noteq> p" if "j < length (g_nodes g)" "j \<noteq> i" "g_nodes g ! j = Some q" for j q
    using that G i(1) by (auto simp: ids_ok_def)
  have val: "IsValidNode g' q \<longleftrightarrow> q \<noteq> p \<and> IsValidNode g q" for q
    using i by (cases "nat (n_id (node_at g q)) = i")
      (auto simp: IsValidNode_def sel Node_def Let_def nth_list_update nat_less_iff)
  have live: "IsLiveEdge g' e = IsLiveEdge g e" for e by (simp add: IsLiveEdge_def sel)
  have "graph_ok g'"
    unfolding graph_ok_def
  proof (intro conjI)
    show "ids_ok (g_nodes g') (\<lambda>p. n_id (node_at g' p))"
      unfolding sel by (rule ids_ok_remove [where f = "\<lambda>p. n_id (node_at g p)", OF _ i(2,3)]) (use G in simp_all)
    show "ids_ok (g_edges g') (\<lambda>e. e_id (edge_at g' e))" using G by (simp add: sel)
    show "edges_ok g'" using G none unfolding edges_ok_def live val sel by fastforce
    show "nodes_ok g'" using G none unfolding nodes_ok_def live val by (auto simp: sel)
    show "count_ok (g_nodes g') (g_num_nodes g')" using G i(2,3) by (simp add: sel count_ok_remove)
    show "count_ok (g_edges g') (g_num_edges g')" using G by (simp add: sel)
    have "p \<notin> set (g_free_nodes g)" using G i(1) by (auto simp: free_ok_def Node_def)
    then show "free_ok g'" using G by (auto simp: free_ok_def sel)
    show "devices_ok g'" using G unfolding devices_ok_def val by (auto simp: sel)
    show "2 \<le> length (g_nodes g')" "source_node g' \<noteq> None" "sink_node g' \<noteq> None"
      using G i(4) by (simp_all add: sel source_node_def sink_node_def)
  qed
  moreover have "node_map g' = (node_map g)(i := None)"
    by (rule ext) (use uniq in \<open>auto simp: node_map_def sel nth_list_update assigned_device_name_def split: option.split\<close>)
  moreover have "edge_map g' = edge_map g"
  proof (rule ext)
    fix j
    show "edge_map g' j = edge_map g j"
    proof (cases "j < length (g_edges g) \<and> g_edges g ! j \<noteq> None")
      case False
      then show ?thesis by (auto simp: edge_map_def sel)
    next
      case True
      then obtain e where e: "j < length (g_edges g)" "g_edges g ! j = Some e" by auto
      then have "IsLiveEdge g e" using G by (auto simp: IsLiveEdge_def ids_ok_def)
      then show ?thesis using none [of e] e by (auto simp: edge_map_def sel split: option.split)
    qed
  qed
  ultimately show ?thesis using val unfolding g'_def i_def by blast
qed

lemma edge_map_live:
  assumes "graph_ok g"
  shows "edge_map g i = Some (a, x, b, y) \<longleftrightarrow> (\<exists>e s d. IsLiveEdge g e \<and> e_id (edge_at g e) = int i \<and>
    e_src (edge_at g e) = Some s \<and> e_dst (edge_at g e) = Some d \<and> n_id (node_at g s) = a \<and> n_id (node_at g d) = b \<and>
    e_src_output (edge_at g e) = x \<and> e_dst_input (edge_at g e) = y)" (is "?l = ?r")
proof
  assume ?l
  then obtain e where e: "i < length (g_edges g)" "g_edges g ! i = Some e"
    by (auto simp: edge_map_def split: if_splits option.splits)
  have "e_id (edge_at g e) = int i" using assms e by (auto simp: graph_ok_def ids_ok_def)
  then have "IsLiveEdge g e" using e by (simp add: IsLiveEdge_def)
  then show ?r using \<open>?l\<close> e \<open>e_id (edge_at g e) = int i\<close>
    by (intro exI [where P = "\<lambda>f. \<exists>s d. IsLiveEdge g f \<and> _ f s d", of e]) (auto simp: edge_map_def split: option.splits)
next
  assume ?r
  then show ?l by (auto simp: edge_map_def IsLiveEdge_def Let_def)
qed

lemma valid_id_inj:
  assumes "IsValidNode g p" "IsValidNode g q" "n_id (node_at g p) = n_id (node_at g q)"
  shows "p = q"
  using assms by (auto simp: IsValidNode_def Let_def)

lemma RemoveNode_ok:
  assumes g: "graph_ok g" and p: "IsValidNode g p" "1 < n_id (node_at g p)"
  shows "\<exists>g'. RemoveNode p g = Some g' \<and> graph_ok g' \<and> node_map g' = (node_map g)(nat (n_id (node_at g p)) := None) \<and>
    edge_map g' = (\<lambda>i. case edge_map g i of Some (a, x, b, y) \<Rightarrow>
      if a = n_id (node_at g p) \<or> b = n_id (node_at g p) then None else Some (a, x, b, y) | None \<Rightarrow> None) \<and>
    (\<forall>q. IsValidNode g' q \<longleftrightarrow> q \<noteq> p \<and> IsValidNode g q) \<and>
    (\<forall>q. q \<noteq> p \<longrightarrow> n_id (node_at g' q) = n_id (node_at g q))"
proof -
  obtain h where h: "remove_in_edges p g = Some h" "removes g (\<lambda>e. e_dst (edge_at g e) = Some p) h"
    using remove_edges_ok(1) [OF g p(1)] by blast
  note H = h(2) [unfolded removes_def]
  have ph: "graph_ok h" "IsValidNode h p" using H p(1) by auto
  obtain k where k: "remove_out_edges p h = Some k" "removes h (\<lambda>e. e_src (edge_at h e) = Some p) k"
    using remove_edges_ok(2) [OF ph] by blast
  note K = k(2) [unfolded removes_def]
  have pk: "graph_ok k" "IsValidNode k p" "1 < n_id (node_at k p)" using H K p by auto
  have none: "e_src (edge_at k e) \<noteq> Some p \<and> e_dst (edge_at k e) \<noteq> Some p" if "IsLiveEdge k e" for e
    using that H K by auto
  note R = ReleaseNode_ok [OF pk none]
  have "edge_map k i = (case edge_map g i of Some (a, x, b, y) \<Rightarrow>
      if a = n_id (node_at g p) \<or> b = n_id (node_at g p) then None else Some (a, x, b, y) | None \<Rightarrow> None)" for i
  proof -
    define P where "P e \<longleftrightarrow> e_src (edge_at g e) = Some p \<or> e_dst (edge_at g e) = Some p" for e
    have "removes g P k"
    proof -
      have "(\<exists>e. P e \<and> IsLiveEdge g e \<and> e_id (edge_at g e) = int i) \<longleftrightarrow>
          (\<exists>e. e_dst (edge_at g e) = Some p \<and> IsLiveEdge g e \<and> e_id (edge_at g e) = int i) \<or>
          (\<exists>e. e_src (edge_at h e) = Some p \<and> IsLiveEdge h e \<and> e_id (edge_at h e) = int i)" for i
        using H by (auto simp: P_def) (metis)+
      then show ?thesis using H K by (auto simp: removes_def P_def fun_eq_iff)
    qed
    then have e: "edge_map k i = (if \<exists>e. P e \<and> IsLiveEdge g e \<and> e_id (edge_at g e) = int i then None else edge_map g i)"
      by (simp add: removes_def)
    show ?thesis
    proof (cases "edge_map g i")
      case None
      then show ?thesis using e by simp
    next
      case (Some t)
      obtain a x b y where t: "t = (a, x, b, y)" by (cases t) auto
      obtain f s d where f: "IsLiveEdge g f" "e_id (edge_at g f) = int i" "e_src (edge_at g f) = Some s"
        "e_dst (edge_at g f) = Some d" "n_id (node_at g s) = a" "n_id (node_at g d) = b"
        using edge_map_live [OF g, of i a x b y] Some t by blast
      have v: "IsValidNode g s" "IsValidNode g d" using live_edgeD [OF g f(1)] f(3,4) by (metis option.inject)+
      have "f' = f" if "IsLiveEdge g f'" "e_id (edge_at g f') = int i" for f'
        using that f(1,2) by (auto simp: IsLiveEdge_def Let_def)
      then have "(\<exists>e. P e \<and> IsLiveEdge g e \<and> e_id (edge_at g e) = int i) \<longleftrightarrow> P f" using f(1,2) by blast
      moreover have "P f \<longleftrightarrow> a = n_id (node_at g p) \<or> b = n_id (node_at g p)"
        using valid_id_inj [OF v(1) p(1)] valid_id_inj [OF v(2) p(1)] f by (auto simp: P_def)
      ultimately show ?thesis using e Some t by simp
    qed
  qed
  moreover have "RemoveNode p g = Some (ReleaseNode p k)" by (simp add: RemoveNode_def h(1) k(1))
  moreover have "nat (n_id (node_at k p)) = nat (n_id (node_at g p))" "node_map k = node_map g"
    "IsValidNode k q = IsValidNode g q" for q
    using H K by simp_all
  moreover have "n_id (node_at (ReleaseNode p k) q) = n_id (node_at g q)" if "q \<noteq> p" for q
    using that H K by (simp add: ReleaseNode_def)
  ultimately show ?thesis using R by (intro exI [of _ "ReleaseNode p k"]) (simp add: fun_eq_iff)
qed

section \<open>Adding nodes\<close>

lemma AllocateNode_ok:
  assumes g: "graph_ok g" and fresh: "g_free_nodes g = [] \<Longrightarrow> \<not> IsValidNode g fresh"
  shows "\<exists>p g'. AllocateNode fresh props cost_node g = (p, g') \<and> graph_ok g' \<and>
    node_map g' = (node_map g)(length (g_nodes g) \<mapsto> (props, [])) \<and> edge_map g' = edge_map g \<and>
    (\<forall>q. IsValidNode g' q \<longleftrightarrow> q = p \<or> IsValidNode g q) \<and> \<not> IsValidNode g p \<and>
    n_id (node_at g' p) = int (length (g_nodes g)) \<and> n_props (node_at g' p) = Some props \<and>
    length (g_nodes g') = Suc (length (g_nodes g)) \<and> (\<forall>q. q \<noteq> p \<longrightarrow> node_at g' q = node_at g q) \<and>
    g_device_names g' = g_device_names g \<and> es_elems (n_in (node_at g' p)) = [] \<and> es_elems (n_out (node_at g' p)) = []"
proof -
  note G = g [unfolded graph_ok_def]
  obtain p n free where pf: "(if g_free_nodes g = [] then (fresh, Node, [])
      else (last (g_free_nodes g), node_at g (last (g_free_nodes g)), butlast (g_free_nodes g))) = (p, n, free)"
    by (metis prod_cases3)
  have n: "n = Node" using pf G by (auto simp: free_ok_def split: if_splits)
  have free: "distinct free" "set free \<subseteq> set (g_free_nodes g)" "p \<notin> set free"
  proof -
    show "distinct free" "set free \<subseteq> set (g_free_nodes g)"
      using pf G by (auto simp: free_ok_def distinct_butlast dest: in_set_butlastD split: if_splits)
    show "p \<notin> set free"
    proof (cases "g_free_nodes g = []")
      case False
      then have "g_free_nodes g = free @ [p]" using pf by auto
      moreover have "distinct (g_free_nodes g)" using G by (simp add: free_ok_def)
      ultimately show ?thesis by simp
    qed (use pf in auto)
  qed
  have dead: "\<not> IsValidNode g p"
    using pf fresh G by (auto simp: free_ok_def IsValidNode_def Node_def Let_def split: if_splits)
  define nn where "nn = Node_Initialize (int (length (g_nodes g)))
    (case cost_node of Some c \<Rightarrow> n_cost_id c | None \<Rightarrow> int (length (g_nodes g))) props Node"
  have nn: "n_id nn = int (length (g_nodes g))" "n_props nn = Some props" "n_in nn = es_clear" "n_out nn = es_clear"
    "n_device_index nn = 0"
    by (simp_all add: nn_def Node_Initialize_def Node_def)
  define g' where "g' = g\<lparr>g_free_nodes := free, node_at := (node_at g)(p := nn), g_nodes := g_nodes g @ [Some p],
    g_num_nodes := g_num_nodes g + 1\<rparr>"
  have al: "AllocateNode fresh props cost_node g = (p, g')"
    by (simp add: AllocateNode_def pf n g'_def nn_def Let_def cong: option.case_cong)
  have sel: "g_nodes g' = g_nodes g @ [Some p]" "g_edges g' = g_edges g" "node_at g' = (node_at g)(p := nn)"
    "edge_at g' = edge_at g" "g_num_nodes g' = g_num_nodes g + 1" "g_num_edges g' = g_num_edges g"
    "g_free_nodes g' = free" "g_free_edges g' = g_free_edges g" "g_device_names g' = g_device_names g"
    "g_device_names_map g' = g_device_names_map g"
    by (simp_all add: g'_def)
  have ids: "p \<noteq> q" if "i < length (g_nodes g)" "g_nodes g ! i = Some q" for i q
    using that dead G by (auto simp: IsValidNode_def ids_ok_def Let_def)
  have val: "IsValidNode g' q \<longleftrightarrow> q = p \<or> IsValidNode g q" for q
    using dead by (auto simp: IsValidNode_def sel nn Let_def nth_append nat_less_iff)
  have live: "IsLiveEdge g' e = IsLiveEdge g e" for e by (simp add: IsLiveEdge_def sel)
  have ends: "e_src (edge_at g e) \<noteq> Some p \<and> e_dst (edge_at g e) \<noteq> Some p" if "IsLiveEdge g e" for e
    using live_edgeD [OF g that] dead by (metis option.inject)
  have dev: "hd (g_device_names g) = []" "g_device_names g \<noteq> []" using G by (simp_all add: devices_ok_def)
  have "graph_ok g'"
    unfolding graph_ok_def
  proof (intro conjI)
    show "ids_ok (g_nodes g') (\<lambda>p. n_id (node_at g' p))"
      unfolding sel by (rule ids_ok_append [where f = "\<lambda>p. n_id (node_at g p)"]) (use G ids in \<open>auto simp: nn\<close>)
    show "ids_ok (g_edges g') (\<lambda>e. e_id (edge_at g' e))" using G by (simp add: sel)
    show "edges_ok g'" using G unfolding edges_ok_def live val sel by blast
    show "nodes_ok g'" using G ends unfolding nodes_ok_def live val by (auto simp: sel nn)
    show "count_ok (g_nodes g') (g_num_nodes g')" using G by (simp add: sel count_ok_append)
    show "count_ok (g_edges g') (g_num_edges g')" using G by (simp add: sel)
    show "free_ok g'" using G free by (auto simp: free_ok_def sel)
    show "devices_ok g'" using G unfolding devices_ok_def val by (auto simp: sel nn)
    show "2 \<le> length (g_nodes g')" "source_node g' \<noteq> None" "sink_node g' \<noteq> None"
      using G by (auto simp: sel source_node_def sink_node_def nth_append)
  qed
  moreover have "node_map g' = (node_map g)(length (g_nodes g) \<mapsto> (props, []))"
    by (rule ext) (use ids dev in \<open>auto simp: node_map_def sel nth_append assigned_device_name_def nn less_Suc_eq hd_conv_nth split: option.split\<close>)
  moreover have "edge_map g' = edge_map g"
  proof (rule ext)
    fix j
    show "edge_map g' j = edge_map g j"
    proof (cases "j < length (g_edges g) \<and> g_edges g ! j \<noteq> None")
      case False
      then show ?thesis by (auto simp: edge_map_def sel)
    next
      case True
      then obtain e where e: "j < length (g_edges g)" "g_edges g ! j = Some e" by auto
      then have "IsLiveEdge g e" using G by (auto simp: IsLiveEdge_def ids_ok_def)
      then show ?thesis using ends [of e] e by (auto simp: edge_map_def sel split: option.split)
    qed
  qed
  ultimately show ?thesis using al val dead by (intro exI [of _ p] exI [of _ g']) (simp add: sel nn)
qed

lemma InternDeviceName_ok:
  assumes "devices_ok g"
  shows "\<exists>i g'. InternDeviceName d g = (i, g') \<and> g_device_names g' ! nat i = d \<and> 0 \<le> i \<and> i < int (length (g_device_names g')) \<and>
    (\<exists>ms. g_device_names g' = g_device_names g @ ms) \<and> devices_ok g' \<and>
    g' = g\<lparr>g_device_names_map := g_device_names_map g', g_device_names := g_device_names g'\<rparr>"
proof -
  define ns where "ns = g_device_names g"
  have ns: "ns \<noteq> []" "hd ns = []" "distinct ns" "g_device_names_map g = map_of (zip (tl ns) (map int [1..<length ns]))"
    using assms by (simp_all add: devices_ok_def ns_def)
  define L where "L = length ns"
  have L: "0 < L" "length (tl ns) = L - 1" using ns(1) by (simp_all add: L_def)
  have nth_tl: "tl ns ! j = ns ! Suc j" if "j < L - 1" for j using that L by (simp add: nth_tl)
  show ?thesis
  proof (cases "d = []")
    case True
    then show ?thesis using assms ns by (intro exI [of _ 0] exI [of _ g]) (simp add: InternDeviceName_def ns_def [symmetric] hd_conv_nth)
  next
    case False
    show ?thesis
    proof (cases "g_device_names_map g d")
      case (Some k)
      then obtain j where j: "j < L - 1" "tl ns ! j = d" "k = int (Suc j)"
        using ns(4) L(2) by (auto simp: L_def dest!: map_of_SomeD simp: in_set_zip)
      moreover have "nat (1 + int j) = Suc j" by simp
      ultimately show ?thesis using assms False Some nth_tl [OF j(1)] L
        by (intro exI [of _ k] exI [of _ g]) (simp add: InternDeviceName_def ns_def [symmetric] L_def [symmetric])
    next
      case None
      then have d: "d \<notin> set (tl ns)" using ns(4) L by (auto simp: map_of_zip_is_None L_def)
      then have d': "d \<notin> set ns" using False ns(1,2) by (cases ns) auto
      have dom: "dom (g_device_names_map g) = set (tl ns)" using ns(4) L by (simp add: dom_map_of_zip L_def)
      have "card (dom ((g_device_names_map g)(d \<mapsto> 0))) = L"
        using d L distinct_card [of "tl ns"] distinct_tl [OF ns(3)] by (simp add: dom)
      define g' where "g' = g\<lparr>g_device_names_map := (g_device_names_map g)(d \<mapsto> int L), g_device_names := ns @ [d]\<rparr>"
      have "InternDeviceName d g = (int L, g')"
        using False None \<open>card _ = L\<close> by (simp add: InternDeviceName_def g'_def ns_def Let_def)
      moreover have "devices_ok g'"
      proof -
        have up: "[1..<Suc L] = [1..<L] @ [L]" using L by simp
        have "map_of (zip (tl ns @ [d]) (map int [1..<Suc L])) = (map_of (zip (tl ns) (map int [1..<L])))(d \<mapsto> int L)"
        proof (rule ext)
          fix y
          have none: "map_of (zip (tl ns) (map int [1..<L])) y = None \<longleftrightarrow> y \<notin> set (tl ns)"
            by (rule map_of_zip_is_None) (use L in simp)
          have "zip (tl ns @ [d]) (map int ([1..<L] @ [L])) = zip (tl ns) (map int [1..<L]) @ [(d, int L)]" using L by simp
          then have "map_of (zip (tl ns @ [d]) (map int ([1..<L] @ [L]))) y =
              (case map_of (zip (tl ns) (map int [1..<L])) y of None \<Rightarrow> if y = d then Some (int L) else None | Some v \<Rightarrow> Some v)"
            by (simp only: map_of_append map_add_def) (simp split: option.split)
          then show "map_of (zip (tl ns @ [d]) (map int [1..<Suc L])) y = ((map_of (zip (tl ns) (map int [1..<L])))(d \<mapsto> int L)) y"
            unfolding up using none d by (cases "y = d") (auto split: option.split)
        qed
        moreover have "IsValidNode g' q = IsValidNode g q" for q by (rule IsValidNode_cong) (simp_all add: g'_def)
        ultimately show ?thesis using assms ns d' L unfolding devices_ok_def
          by (auto simp: g'_def ns_def [symmetric] L_def [symmetric])
      qed
      ultimately show ?thesis using L
        by (intro exI [of _ "int L"] exI [of _ g']) (simp add: g'_def ns_def L_def)
    qed
  qed
qed

lemma AddNode_ok:
  assumes "graph_ok g" "g_free_nodes g = [] \<Longrightarrow> \<not> IsValidNode g fresh"
    and reg: "LookUpOpDef R (nd_op nd) = (OK, od)" "InOutTypesForNode R nd od = (OK, ins, outs)"
  defines "props \<equiv> \<lparr>np_op_def = od, np_node_def = nd, np_input_types = ins, np_output_types = outs\<rparr>"
  shows "\<exists>p g'. AddNode R fresh nd OK g = (Some p, OK, g') \<and> graph_ok g' \<and>
    node_map g' = (node_map g)(length (g_nodes g) \<mapsto> (props, [])) \<and> edge_map g' = edge_map g \<and>
    (\<forall>q. IsValidNode g' q \<longleftrightarrow> q = p \<or> IsValidNode g q) \<and> n_id (node_at g' p) = int (length (g_nodes g))"
  using AllocateNode_ok [OF assms(1,2), of props None] reg
  by (auto simp: AddNode_def Status_Update_def props_def)

lemma set_assigned_device_name_ok:
  assumes g: "graph_ok g" and p: "IsValidNode g p"
  shows "graph_ok (set_assigned_device_name p d g) \<and>
    node_map (set_assigned_device_name p d g) = (node_map g)(nat (n_id (node_at g p)) \<mapsto> (the (n_props (node_at g p)), d)) \<and>
    edge_map (set_assigned_device_name p d g) = edge_map g \<and>
    (\<forall>q. IsValidNode (set_assigned_device_name p d g) q = IsValidNode g q) \<and>
    (\<forall>q. n_props (node_at (set_assigned_device_name p d g) q) = n_props (node_at g q)) \<and>
    (\<forall>q. n_id (node_at (set_assigned_device_name p d g) q) = n_id (node_at g q))"
proof -
  note G = g [unfolded graph_ok_def]
  obtain i h ms where h: "InternDeviceName d g = (i, h)" "g_device_names h ! nat i = d" "0 \<le> i" "i < int (length (g_device_names h))"
    "g_device_names h = g_device_names g @ ms" "devices_ok h"
    "h = g\<lparr>g_device_names_map := g_device_names_map h, g_device_names := g_device_names h\<rparr>"
    using InternDeviceName_ok [of g d] G by blast
  define g' where "g' = set_assigned_device_name p d g"
  obtain m where m: "h = g\<lparr>g_device_names_map := m, g_device_names := g_device_names h\<rparr>" using h(7) by blast
  have g': "g' = h\<lparr>node_at := (node_at h)(p := (node_at h p)\<lparr>n_device_index := i\<rparr>)\<rparr>"
    by (simp add: g'_def set_assigned_device_name_def h(1))
  have hs: "g_nodes h = g_nodes g" "g_edges h = g_edges g" "node_at h = node_at g" "edge_at h = edge_at g"
    "g_num_nodes h = g_num_nodes g" "g_num_edges h = g_num_edges g" "g_free_nodes h = g_free_nodes g" "g_free_edges h = g_free_edges g"
    by (subst m, simp)+
  have sel: "g_nodes g' = g_nodes g" "g_edges g' = g_edges g" "node_at g' = (node_at g)(p := (node_at g p)\<lparr>n_device_index := i\<rparr>)"
    "edge_at g' = edge_at g" "g_num_nodes g' = g_num_nodes g" "g_num_edges g' = g_num_edges g" "g_free_nodes g' = g_free_nodes g"
    "g_free_edges g' = g_free_edges g" "g_device_names g' = g_device_names h" "g_device_names_map g' = g_device_names_map h"
    by (simp_all add: g' hs)
  have nd: "n_id (node_at g' q) = n_id (node_at g q)" "n_props (node_at g' q) = n_props (node_at g q)"
    "n_in (node_at g' q) = n_in (node_at g q)" "n_out (node_at g' q) = n_out (node_at g q)" for q by (simp_all add: sel)
  have val: "IsValidNode g' q = IsValidNode g q" for q by (rule IsValidNode_cong) (simp_all add: sel)
  have hval: "IsValidNode h q = IsValidNode g q" for q by (rule IsValidNode_cong) (simp_all add: hs)
  have live: "IsLiveEdge g' e = IsLiveEdge g e" for e by (simp add: IsLiveEdge_def sel)
  have "p \<notin> set (g_free_nodes g)" using G p by (auto simp: free_ok_def IsValidNode_def Node_def Let_def)
  then have "free_ok g'" using G by (auto simp: free_ok_def sel)
  moreover have "devices_ok g'" using h(3,4,6) unfolding devices_ok_def val hval by (auto simp: sel hs)
  moreover have "edges_ok g'" "nodes_ok g'" using G unfolding edges_ok_def nodes_ok_def live val nd by (simp_all add: sel)
  moreover have "ids_ok (g_nodes g') (\<lambda>p. n_id (node_at g' p))" "ids_ok (g_edges g') (\<lambda>e. e_id (edge_at g' e))"
    unfolding nd using G by (simp_all add: sel)
  ultimately have "graph_ok g'" using G by (simp add: graph_ok_def sel source_node_def sink_node_def)
  moreover have "node_map g' = (node_map g)(nat (n_id (node_at g p)) \<mapsto> (the (n_props (node_at g p)), d))"
  proof (rule ext)
    fix j
    have pi: "g_nodes g ! nat (n_id (node_at g p)) = Some p" "nat (n_id (node_at g p)) < length (g_nodes g)"
      "n_props (node_at g p) \<noteq> None" using p G by (auto simp: IsValidNode_def nodes_ok_def Let_def)
    have q: "q \<noteq> p \<and> g_device_names h ! nat (n_device_index (node_at g q)) = g_device_names g ! nat (n_device_index (node_at g q))"
      if "j < length (g_nodes g)" "g_nodes g ! j = Some q" "j \<noteq> nat (n_id (node_at g p))" for q
    proof -
      have "n_id (node_at g q) = int j" using that G by (simp add: ids_ok_def)
      then have "IsValidNode g q" "q \<noteq> p" using that by (auto simp: IsValidNode_def)
      then have "nat (n_device_index (node_at g q)) < length (g_device_names g)" using G by (auto simp: devices_ok_def)
      then show ?thesis using \<open>q \<noteq> p\<close> by (simp add: h(5) nth_append)
    qed
    show "node_map g' j = ((node_map g)(nat (n_id (node_at g p)) \<mapsto> (the (n_props (node_at g p)), d))) j"
      using pi q h(2) by (auto simp: node_map_def sel assigned_device_name_def split: option.split)
  qed
  moreover have "edge_map g' = edge_map g" unfolding edge_map_def nd sel(1,2,4) by (rule ext) simp
  ultimately show ?thesis using val nd unfolding g'_def by blast
qed

lemma set_props_ok:
  fixes pr :: node_props
  assumes g: "graph_ok g" and p: "IsValidNode g p"
  defines "g' \<equiv> g\<lparr>node_at := (node_at g)(p := (node_at g p)\<lparr>n_props := Some pr\<rparr>)\<rparr>"
  shows "graph_ok g' \<and> node_map g' = (node_map g)(nat (n_id (node_at g p)) \<mapsto> (pr, assigned_device_name g (node_at g p))) \<and>
    edge_map g' = edge_map g \<and> (\<forall>q. IsValidNode g' q = IsValidNode g q) \<and> (\<forall>q. n_id (node_at g' q) = n_id (node_at g q))"
proof -
  note G = g [unfolded graph_ok_def]
  have sel: "g_nodes g' = g_nodes g" "g_edges g' = g_edges g" "node_at g' = (node_at g)(p := (node_at g p)\<lparr>n_props := Some pr\<rparr>)"
    "edge_at g' = edge_at g" "g_num_nodes g' = g_num_nodes g" "g_num_edges g' = g_num_edges g" "g_free_nodes g' = g_free_nodes g"
    "g_free_edges g' = g_free_edges g" "g_device_names g' = g_device_names g" "g_device_names_map g' = g_device_names_map g"
    by (simp_all add: g'_def)
  have nd: "n_id (node_at g' q) = n_id (node_at g q)" "n_device_index (node_at g' q) = n_device_index (node_at g q)"
    "n_in (node_at g' q) = n_in (node_at g q)" "n_out (node_at g' q) = n_out (node_at g q)"
    "n_props (node_at g' q) = (if q = p then Some pr else n_props (node_at g q))" for q by (simp_all add: sel)
  have val: "IsValidNode g' q = IsValidNode g q" for q by (rule IsValidNode_cong) (simp_all add: sel)
  have live: "IsLiveEdge g' e = IsLiveEdge g e" for e by (simp add: IsLiveEdge_def sel)
  have "p \<notin> set (g_free_nodes g)" using G p by (auto simp: free_ok_def IsValidNode_def Node_def Let_def)
  then have "free_ok g'" using G by (auto simp: free_ok_def sel)
  moreover have "devices_ok g'" using G unfolding devices_ok_def val nd by (auto simp: sel)
  moreover have "edges_ok g'" "nodes_ok g'" using G unfolding edges_ok_def nodes_ok_def live val nd by (simp_all add: sel)
  moreover have "ids_ok (g_nodes g') (\<lambda>p. n_id (node_at g' p))" "ids_ok (g_edges g') (\<lambda>e. e_id (edge_at g' e))"
    unfolding nd using G by (simp_all add: sel)
  ultimately have "graph_ok g'" using G by (simp add: graph_ok_def sel source_node_def sink_node_def)
  moreover have "node_map g' = (node_map g)(nat (n_id (node_at g p)) \<mapsto> (pr, assigned_device_name g (node_at g p)))"
  proof (rule ext)
    fix j
    have pi: "g_nodes g ! nat (n_id (node_at g p)) = Some p" "nat (n_id (node_at g p)) < length (g_nodes g)"
      using p by (auto simp: IsValidNode_def Let_def)
    have q: "q \<noteq> p" if "j < length (g_nodes g)" "g_nodes g ! j = Some q" "j \<noteq> nat (n_id (node_at g p))" for q
      using that G by (auto simp: ids_ok_def)
    show "node_map g' j = ((node_map g)(nat (n_id (node_at g p)) \<mapsto> (pr, assigned_device_name g (node_at g p)))) j"
      using pi q by (auto simp: node_map_def sel assigned_device_name_def split: option.split)
  qed
  moreover have "edge_map g' = edge_map g" unfolding edge_map_def nd sel(1,2,4) by (rule ext) simp
  ultimately show ?thesis using val nd by simp
qed

lemma CopyNode_ok:
  assumes g: "graph_ok g" and fresh: "g_free_nodes g = [] \<Longrightarrow> \<not> IsValidNode g fresh"
    and src: "n_props (node_at src p) = Some pr" and reg: "LookUpOpDef R (nd_op (np_node_def pr)) = (OK, od)"
  shows "\<exists>q g'. CopyNode R fresh src p g = Some (q, g') \<and> graph_ok g' \<and>
    node_map g' = (node_map g)(length (g_nodes g) \<mapsto> (pr\<lparr>np_op_def := od\<rparr>, assigned_device_name src (node_at src p))) \<and>
    edge_map g' = edge_map g \<and> (\<forall>r. IsValidNode g' r \<longleftrightarrow> r = q \<or> IsValidNode g r)"
proof -
  let ?n = "node_at src p" and ?d = "assigned_device_name src (node_at src p)"
  obtain q h where h: "AllocateNode fresh pr (Some ?n) g = (q, h)" "graph_ok h" "node_map h = (node_map g)(length (g_nodes g) \<mapsto> (pr, []))"
    "edge_map h = edge_map g" "\<forall>r. IsValidNode h r \<longleftrightarrow> r = q \<or> IsValidNode g r" "n_id (node_at h q) = int (length (g_nodes g))"
    "n_props (node_at h q) = Some pr"
    using AllocateNode_ok [OF g fresh, of pr "Some ?n"] by blast
  have q: "IsValidNode h q" using h(5) by simp
  define k where "k = set_assigned_device_name q ?d h"
  note K = set_assigned_device_name_ok [OF h(2) q, of ?d, folded k_def]
  have k: "graph_ok k" "node_map k = (node_map g)(length (g_nodes g) \<mapsto> (pr, ?d))" "edge_map k = edge_map g"
    "\<forall>r. IsValidNode k r \<longleftrightarrow> r = q \<or> IsValidNode g r" "IsValidNode k q" "n_id (node_at k q) = int (length (g_nodes g))"
    using K h(3-7) q by auto
  define g' where "g' = (if od \<noteq> np_op_def pr
    then k\<lparr>node_at := (node_at k)(q := (node_at k q)\<lparr>n_props := Some (pr\<lparr>np_op_def := od\<rparr>)\<rparr>)\<rparr> else k)"
  have c: "CopyNode R fresh src p g = Some (q, g')"
    by (simp add: CopyNode_def src h(1) reg g'_def k_def [symmetric] Let_def)
  have "assigned_device_name k (node_at k q) = ?d"
  proof -
    have "node_map k (length (g_nodes g)) = Some (pr, ?d)" using k(2) by simp
    moreover have "length (g_nodes g) < length (g_nodes k)" "g_nodes k ! length (g_nodes g) = Some q"
      using k(5,6) by (auto simp: IsValidNode_def Let_def)
    ultimately show ?thesis by (auto simp: node_map_def)
  qed
  then have "graph_ok g' \<and> node_map g' = (node_map g)(length (g_nodes g) \<mapsto> (pr\<lparr>np_op_def := od\<rparr>, ?d)) \<and> edge_map g' = edge_map g \<and>
      (\<forall>r. IsValidNode g' r \<longleftrightarrow> r = q \<or> IsValidNode g r)"
    using set_props_ok [OF k(1,5), of "pr\<lparr>np_op_def := od\<rparr>"] k by (cases "od = np_op_def pr") (auto simp: g'_def)
  then show ?thesis using c by blast
qed

section \<open>Construction and reachable graphs\<close>

text \<open>The constructor relies on the registry knowing \<open>NoOp\<close> with no inputs and outputs.\<close>

definition registry_ok :: "op_registry \<Rightarrow> bool" where
  "registry_ok R \<longleftrightarrow> (\<exists>od. LookUpOpDef R ''NoOp'' = (OK, od) \<and>
     (\<forall>nd. nd_op nd = ''NoOp'' \<longrightarrow> InOutTypesForNode R nd od = (OK, [], [])))"

lemma Graph_ok:
  assumes "registry_ok R" "f0 \<noteq> f1"
  shows "\<exists>g. Graph R (f0, f1, f2) = Some g \<and> graph_ok g \<and> dom (node_map g) = {0, 1} \<and> edge_map g = [0 \<mapsto> (0, -1, 1, -1)]"
proof -
  obtain od where od: "LookUpOpDef R ''NoOp'' = (OK, od)" "\<And>nd. nd_op nd = ''NoOp'' \<Longrightarrow> InOutTypesForNode R nd od = (OK, [], [])"
    using assms(1) unfolding registry_ok_def by blast
  define nd where "nd = \<lparr>nd_name = ''_SOURCE'', nd_op = ''NoOp'', nd_input = [], nd_device = [], nd_attr = (\<lambda>_. None)\<rparr>"
  define pr where "pr n = \<lparr>np_op_def = od, np_node_def = n, np_input_types = [], np_output_types = []\<rparr>" for n
  define g0 where "g0 = \<lparr>g_nodes = [], g_num_nodes = 0, g_edges = [], g_num_edges = 0, g_free_nodes = [], g_free_edges = [],
    g_name_counter = 0, g_device_names = [[]], g_device_names_map = (\<lambda>_. None),
    node_at = (\<lambda>_. Node), edge_at = (\<lambda>_. \<lparr>e_src = None, e_dst = None, e_id = -1, e_src_output = -2, e_dst_input = -2\<rparr>)\<rparr>"
  define n0 where "n0 = Node_Initialize 0 0 (pr nd) Node"
  define n1 where "n1 = Node_Initialize 1 1 (pr (nd\<lparr>nd_name := ''_SINK''\<rparr>)) Node"
  define g2 where "g2 = g0\<lparr>g_nodes := [Some f0, Some f1], g_num_nodes := 2, node_at := (\<lambda>_. Node)(f0 := n0, f1 := n1)\<rparr>"
  have ids: "n_id n0 = 0" "n_id n1 = 1" "n_props n0 \<noteq> None" "n_props n1 \<noteq> None" "n_in n0 = es_clear" "n_out n0 = es_clear"
    "n_in n1 = es_clear" "n_out n1 = es_clear" "n_device_index n0 = 0" "n_device_index n1 = 0"
    by (simp_all add: n0_def n1_def Node_Initialize_def Node_def)
  have val: "IsValidNode g2 p \<longleftrightarrow> p = f0 \<or> p = f1" for p
    using assms(2) ids by (auto simp: IsValidNode_def g2_def Node_def Let_def nth_Cons split: nat.splits)
  have live: "\<not> IsLiveEdge g2 e" for e by (simp add: IsLiveEdge_def g2_def g0_def)
  have g2: "graph_ok g2"
    unfolding graph_ok_def nodes_ok_def edges_ok_def devices_ok_def val using live assms(2) ids
    by (auto simp: ids_ok_def count_ok_def free_ok_def source_node_def sink_node_def g2_def g0_def nth_Cons less_Suc_eq split: nat.splits)
  have n2: "n_id (node_at g2 f0) = 0" "n_id (node_at g2 f1) = 1" using assms(2) ids by (simp_all add: g2_def)
  moreover have "g_free_edges g2 = []" "g_edges g2 = []" by (simp_all add: g2_def g0_def)
  moreover have "edge_map g2 = Map.empty" by (rule ext) (simp add: edge_map_def g2_def g0_def)
  moreover have "dom (node_map g2) = {0, 1}"
    using ids by (auto simp: node_map_def dom_def g2_def g0_def nth_Cons less_Suc_eq split: option.splits if_splits nat.splits)
  ultimately obtain e g where g: "AddEdge f2 f0 (-1) f1 (-1) g2 = Some (e, g)" "graph_ok g" "dom (node_map g) = {0, 1}"
    "edge_map g = [0 \<mapsto> (0, -1, 1, -1)]"
    using AddEdge_ok [OF g2, of f0 f1 "-1" "-1" f2] val live by auto
  define g1 where "g1 = g0\<lparr>g_nodes := [Some f0], g_num_nodes := 1, node_at := (\<lambda>_. Node)(f0 := n0)\<rparr>"
  have a0: "AddNode R f0 nd OK g0 = (Some f0, OK, g1)"
    by (simp add: AddNode_def AllocateNode_def od nd_def Status_Update_def Let_def g0_def g1_def n0_def pr_def)
  have a1: "AddNode R f1 (nd\<lparr>nd_name := ''_SINK''\<rparr>) OK g1 = (Some f1, OK, g2)"
    by (simp add: AddNode_def AllocateNode_def od nd_def Status_Update_def Let_def g0_def g1_def g2_def n1_def pr_def)
  have "Graph R (f0, f1, f2) = Some g"
    using g(1) n2
    unfolding Graph_def g0_def [symmetric] nd_def [symmetric]
    by (simp add: a0 a1 AddControlEdge_def kControlSlot_def Let_def)
  then show ?thesis using g by blast
qed

text \<open>
  The graphs a client can build: every operation, with the preconditions its debug checks state,
  and addresses the arena really returns (not those of a node or edge in use).
\<close>

inductive graph_reachable :: "op_registry \<Rightarrow> graph \<Rightarrow> bool" for R :: op_registry where
  reach_graph: "f0 \<noteq> f1 \<Longrightarrow> Graph R (f0, f1, f2) = Some g \<Longrightarrow> graph_reachable R g"
| reach_add_node: "graph_reachable R g \<Longrightarrow> \<not> IsValidNode g fresh \<Longrightarrow> AddNode R fresh nd s g = (res, s', g') \<Longrightarrow> graph_reachable R g'"
| reach_copy_node: "graph_reachable R g \<Longrightarrow> \<not> IsValidNode g fresh \<Longrightarrow> CopyNode R fresh src q g = Some (res, g') \<Longrightarrow> graph_reachable R g'"
| reach_remove_node: "graph_reachable R g \<Longrightarrow> IsValidNode g p \<Longrightarrow> IsOp (node_at g p) \<Longrightarrow> RemoveNode p g = Some g' \<Longrightarrow> graph_reachable R g'"
| reach_add_edge: "graph_reachable R g \<Longrightarrow> IsValidNode g s \<Longrightarrow> IsValidNode g d \<Longrightarrow> (x = kControlSlot \<longleftrightarrow> y = kControlSlot) \<Longrightarrow>
    \<not> IsLiveEdge g fresh \<Longrightarrow> AddEdge fresh s x d y g = Some (res, g') \<Longrightarrow> graph_reachable R g'"
| reach_remove_edge: "graph_reachable R g \<Longrightarrow> IsLiveEdge g e \<Longrightarrow> RemoveEdge e g = Some g' \<Longrightarrow> graph_reachable R g'"
| reach_set_device: "graph_reachable R g \<Longrightarrow> IsValidNode g p \<Longrightarrow> graph_reachable R (set_assigned_device_name p d g)"

lemma AddNode_cases:
  assumes "graph_ok g" "\<not> IsValidNode g fresh" "AddNode R fresh nd s g = (res, s', g')"
  shows "graph_ok g'"
  using assms AllocateNode_ok [OF assms(1)]
  by (auto simp: AddNode_def Let_def split: prod.splits if_splits) (metis prod.inject)+

lemma CopyNode_cases:
  assumes "graph_ok g" "\<not> IsValidNode g fresh" "CopyNode R fresh src p g = Some (q, g')"
  shows "graph_ok g'"
proof -
  obtain pr where pr: "n_props (node_at src p) = Some pr" using assms(3) by (cases "n_props (node_at src p)") (auto simp: CopyNode_def Let_def)
  obtain s od where r: "LookUpOpDef R (nd_op (np_node_def pr)) = (s, od)" by fastforce
  have "s = OK" using assms(3) by (cases s) (auto simp: CopyNode_def pr r Let_def split: prod.splits)
  then show ?thesis using CopyNode_ok [OF assms(1) _ pr, of fresh R od] r assms(2,3) by auto
qed

lemma graph_reachable_ok:
  assumes "registry_ok R" "graph_reachable R g"
  shows "graph_ok g"
  using assms(2)
proof induction
  case (reach_graph f0 f1 f2 g)
  then show ?case using Graph_ok [OF assms(1), of f0 f1 f2] by auto
next
  case (reach_add_node g fresh nd s res s' g')
  then show ?case by (blast intro: AddNode_cases)
next
  case (reach_copy_node g fresh src q res g')
  then show ?case by (blast intro: CopyNode_cases)
next
  case (reach_remove_node g p g')
  then show ?case using RemoveNode_ok [of g p] by (auto simp: IsOp_def)
next
  case (reach_add_edge g s d x y fresh res g')
  then show ?case using AddEdge_ok [of g s d x y fresh] by (auto simp: kControlSlot_def)
next
  case (reach_remove_edge g e g')
  then show ?case using RemoveEdge_ok [of g e] by auto
next
  case (reach_set_device g p d)
  then show ?case using set_assigned_device_name_ok by blast
qed

lemma card_slots: "card {i. i < length xs \<and> xs ! i \<noteq> None} = length (filter (\<lambda>x. x \<noteq> None) xs)"
  by (simp add: length_filter_conv_card)

lemma dom_maps:
  assumes "graph_ok g"
  shows "dom (node_map g) = {i. i < length (g_nodes g) \<and> g_nodes g ! i \<noteq> None}"
    "dom (edge_map g) = {i. i < length (g_edges g) \<and> g_edges g ! i \<noteq> None}"
proof -
  note G = assms [unfolded graph_ok_def]
  have "n_props (node_at g p) \<noteq> None" if "i < length (g_nodes g)" "g_nodes g ! i = Some p" for i p
    using that G by (auto simp: nodes_ok_def ids_ok_def IsValidNode_def Let_def)
  then show "dom (node_map g) = {i. i < length (g_nodes g) \<and> g_nodes g ! i \<noteq> None}"
    by (auto simp: node_map_def dom_def split: option.splits)
  have "e_src (edge_at g e) \<noteq> None \<and> e_dst (edge_at g e) \<noteq> None" if "i < length (g_edges g)" "g_edges g ! i = Some e" for i e
  proof -
    have "IsLiveEdge g e" using that G by (auto simp: ids_ok_def IsLiveEdge_def)
    then show ?thesis using live_edgeD [OF assms] by (metis option.distinct(1))
  qed
  then have "edge_map g i \<noteq> None \<longleftrightarrow> i < length (g_edges g) \<and> g_edges g ! i \<noteq> None" for i
    by (cases "i < length (g_edges g)"; cases "g_edges g ! i") (force simp: edge_map_def split: option.split)+
  then show "dom (edge_map g) = {i. i < length (g_edges g) \<and> g_edges g ! i \<noteq> None}" unfolding dom_def by blast
qed

lemma valid_node_map:
  assumes "graph_ok g" "IsValidNode g p"
  shows "nat (n_id (node_at g p)) \<in> dom (node_map g)" "0 \<le> n_id (node_at g p)"
  using assms dom_maps(1) [OF assms(1)] by (auto simp: IsValidNode_def Let_def)

text \<open>
  C35. Every graph built through the operations is well formed: source and sink exist, the node and
  edge counters are the numbers of live ids, both ends of every live edge are live nodes and its two
  slots are control slots together, and a node's edge sets list, each once, exactly the live edges
  that leave or enter it.
\<close>

theorem graph_invariant:
  assumes "registry_ok R" and "graph_reachable R g"
  shows "{0, 1} \<subseteq> dom (node_map g) \<and> g_num_nodes g = int (card (dom (node_map g))) \<and>
    g_num_edges g = int (card (dom (edge_map g))) \<and>
    (\<forall>i a x b y. edge_map g i = Some (a, x, b, y) \<longrightarrow> 0 \<le> a \<and> nat a \<in> dom (node_map g) \<and> 0 \<le> b \<and> nat b \<in> dom (node_map g) \<and>
       (x = kControlSlot \<longleftrightarrow> y = kControlSlot)) \<and>
    (\<forall>p. IsValidNode g p \<longrightarrow> distinct (es_elems (n_out (node_at g p))) \<and> distinct (es_elems (n_in (node_at g p))) \<and>
       (\<forall>e. e \<in> set (es_elems (n_out (node_at g p))) \<longleftrightarrow> IsLiveEdge g e \<and> e_src (edge_at g e) = Some p) \<and>
       (\<forall>e. e \<in> set (es_elems (n_in (node_at g p))) \<longleftrightarrow> IsLiveEdge g e \<and> e_dst (edge_at g e) = Some p))"
proof -
  have g: "graph_ok g" by (rule graph_reachable_ok [OF assms])
  note G = g [unfolded graph_ok_def]
  note D = dom_maps [OF g]
  have "{0, 1} \<subseteq> dom (node_map g)" using G unfolding D by (auto simp: source_node_def sink_node_def)
  moreover have "g_num_nodes g = int (card (dom (node_map g)))" "g_num_edges g = int (card (dom (edge_map g)))"
    using G unfolding D card_slots by (simp_all add: count_ok_def)
  moreover have "0 \<le> a \<and> nat a \<in> dom (node_map g) \<and> 0 \<le> b \<and> nat b \<in> dom (node_map g) \<and> (x = kControlSlot \<longleftrightarrow> y = kControlSlot)"
    if em: "edge_map g i = Some (a, x, b, y)" for i a x b y
  proof -
    obtain e s d where e: "IsLiveEdge g e" "e_src (edge_at g e) = Some s" "e_dst (edge_at g e) = Some d"
      "n_id (node_at g s) = a" "n_id (node_at g d) = b" "e_src_output (edge_at g e) = x" "e_dst_input (edge_at g e) = y"
      using edge_map_live [OF g] em by blast
    have v: "IsValidNode g s" "IsValidNode g d" using live_edgeD [OF g e(1)] e(2,3) by (metis option.inject)+
    have "x = kControlSlot \<longleftrightarrow> y = kControlSlot" using G e(1,6,7) by (auto simp: edges_ok_def kControlSlot_def)
    then show ?thesis using valid_node_map [OF g v(1)] valid_node_map [OF g v(2)] e(4,5) by simp
  qed
  moreover have "distinct (es_elems (n_out (node_at g p))) \<and> distinct (es_elems (n_in (node_at g p))) \<and>
       (\<forall>e. e \<in> set (es_elems (n_out (node_at g p))) \<longleftrightarrow> IsLiveEdge g e \<and> e_src (edge_at g e) = Some p) \<and>
       (\<forall>e. e \<in> set (es_elems (n_in (node_at g p))) \<longleftrightarrow> IsLiveEdge g e \<and> e_dst (edge_at g e) = Some p)"
    if "IsValidNode g p" for p
    using that G es_distinct by (simp add: nodes_ok_def)
  ultimately show ?thesis by blast
qed

text \<open>A registry with every op known and without types, and a small graph over it.\<close>

definition demo_registry :: op_registry where
  "demo_registry = \<lparr>LookUpOpDef = (\<lambda>_. (OK, 0)), InOutTypesForNode = (\<lambda>_ _. (OK, [], [])), SummarizeNodeDef = nd_name\<rparr>"

lemma demo_registry_ok: "registry_ok demo_registry"
  by (simp add: registry_ok_def demo_registry_def)

lemma fresh_addresses: "\<exists>f. \<not> IsLiveEdge g f" "\<exists>f. \<not> IsValidNode g f"
proof -
  show "\<exists>f. \<not> IsLiveEdge g f" using ex_new_if_finite [OF infinite_UNIV_nat finite_live_edges [of g]] by blast
  have "{p. IsValidNode g p} \<subseteq> (\<lambda>i. the (g_nodes g ! i)) ` {..<length (g_nodes g)}"
  proof
    fix p assume "p \<in> {p. IsValidNode g p}"
    then have "nat (n_id (node_at g p)) < length (g_nodes g)" "the (g_nodes g ! nat (n_id (node_at g p))) = p"
      by (auto simp: IsValidNode_def Let_def)
    then show "p \<in> (\<lambda>i. the (g_nodes g ! i)) ` {..<length (g_nodes g)}" by (metis imageI lessThan_iff)
  qed
  then have "finite {p. IsValidNode g p}" by (rule finite_subset) simp
  from ex_new_if_finite [OF infinite_UNIV_nat this] show "\<exists>f. \<not> IsValidNode g f" by blast
qed

lemma source_sink_valid:
  assumes "graph_ok g"
  obtains p q where "source_node g = Some p" "sink_node g = Some q" "IsValidNode g p" "IsValidNode g q"
    "n_id (node_at g p) = 0" "n_id (node_at g q) = 1"
proof -
  note G = assms [unfolded graph_ok_def]
  obtain p q where pq: "source_node g = Some p" "sink_node g = Some q" using G by blast
  have len: "0 < length (g_nodes g)" "1 < length (g_nodes g)" using G by auto
  have "n_id (node_at g p) = 0" "n_id (node_at g q) = 1"
    using ids_ok_inj [OF conjunct1 [OF G] len(1)] ids_ok_inj [OF conjunct1 [OF G] len(2)] pq
    by (simp_all add: source_node_def sink_node_def)
  then show thesis using that [OF pq] pq len by (simp add: IsValidNode_def source_node_def sink_node_def)
qed

lemma demo_graph:
  "\<exists>g p. graph_reachable demo_registry g \<and> IsValidNode g p \<and> IsOp (node_at g p) \<and> n_id (node_at g p) = 2 \<and>
     edge_map g = [0 \<mapsto> (0, -1, 1, -1), 1 \<mapsto> (0, -1, 2, -1), 2 \<mapsto> (2, -1, 1, -1)]"
proof -
  obtain g where g: "Graph demo_registry (10, 11, 20) = Some g" "graph_ok g" "dom (node_map g) = {0, 1}" "edge_map g = [0 \<mapsto> (0, -1, 1, -1)]"
    using Graph_ok [OF demo_registry_ok, of 10 11 20] by auto
  have r: "graph_reachable demo_registry g" by (rule reach_graph [OF _ g(1)]) simp
  have len: "length (g_nodes g) = 2 \<and> length (g_edges g) = 1"
    using g(1) by (auto simp: Graph_def AddNode_def AllocateNode_def demo_registry_def Status_Update_def Let_def AddControlEdge_def
        AddEdge_def split: if_splits prod.splits)
  obtain f where f: "\<not> IsValidNode g f" using fresh_addresses by blast
  define nd where "nd = \<lparr>nd_name = ''a'', nd_op = ''Const'', nd_input = [], nd_device = [], nd_attr = (\<lambda>_. None :: AttrValue option)\<rparr>"
  obtain p h where h: "AddNode demo_registry f nd OK g = (Some p, OK, h)"
    "graph_ok h" "edge_map h = edge_map g" "\<forall>q. IsValidNode h q \<longleftrightarrow> q = p \<or> IsValidNode g q" "n_id (node_at h p) = 2"
    using AddNode_ok [OF g(2), of f demo_registry nd 0 "[]" "[]"] len f by (auto simp: demo_registry_def)
  have rh: "graph_reachable demo_registry h" by (rule reach_add_node [OF r f h(1)])
  have lh: "length (g_edges h) = 1" using h(1) len
    by (auto simp: AddNode_def AllocateNode_def demo_registry_def Status_Update_def Let_def split: if_splits)
  obtain a b where ab: "IsValidNode h a" "n_id (node_at h a) = 0" "IsValidNode h b" "n_id (node_at h b) = 1"
    using source_sink_valid [OF h(2)] by metis
  obtain f1 where f1: "\<not> IsLiveEdge h f1" using fresh_addresses by blast
  have p: "IsValidNode h p" using h(4) by simp
  obtain e k where k: "AddEdge f1 a (-1) p (-1) h = Some (e, k)" "graph_ok k" "edge_map k = (edge_map h)(1 \<mapsto> (0, -1, 2, -1))"
    "\<forall>q. IsValidNode k q = IsValidNode h q" "\<forall>q. n_id (node_at k q) = n_id (node_at h q)" "length (g_edges k) = 2"
    using AddEdge_ok [OF h(2) ab(1) p, of "-1" "-1" f1] f1 ab h(5) lh by auto
  have rk: "graph_reachable demo_registry k" by (rule reach_add_edge [OF rh ab(1) p _ f1 k(1)]) simp
  obtain f2 where f2: "\<not> IsLiveEdge k f2" using fresh_addresses by blast
  have pk: "IsValidNode k p" "IsValidNode k b" using k(4) p ab by simp_all
  obtain e2 m where m: "AddEdge f2 p (-1) b (-1) k = Some (e2, m)" "edge_map m = (edge_map k)(2 \<mapsto> (2, -1, 1, -1))"
    "\<forall>q. IsValidNode m q = IsValidNode k q" "\<forall>q. n_id (node_at m q) = n_id (node_at k q)"
    using AddEdge_ok [OF k(2) pk, of "-1" "-1" f2] f2 ab h(5) k(5,6) by auto
  have "graph_reachable demo_registry m" by (rule reach_add_edge [OF rk pk _ f2 m(1)]) simp
  moreover have "edge_map m = [0 \<mapsto> (0, -1, 1, -1), 1 \<mapsto> (0, -1, 2, -1), 2 \<mapsto> (2, -1, 1, -1)]"
    by (simp add: m(2) k(3) h(3) g(4))
  moreover have "IsValidNode m p" "n_id (node_at m p) = 2" using m(3,4) k(5) h(5) pk by simp_all
  ultimately show ?thesis by (intro exI [of _ m] exI [of _ p]) (simp add: IsOp_def)
qed

theorem graph_invariant_witness:
  "\<exists>g. graph_reachable demo_registry g \<and> edge_map g = [0 \<mapsto> (0, -1, 1, -1), 1 \<mapsto> (0, -1, 2, -1), 2 \<mapsto> (2, -1, 1, -1)] \<and>
     g_num_edges g = 3"
proof -
  obtain g where g: "graph_reachable demo_registry g" "edge_map g = [0 \<mapsto> (0, -1, 1, -1), 1 \<mapsto> (0, -1, 2, -1), 2 \<mapsto> (2, -1, 1, -1)]"
    using demo_graph by blast
  have "dom (edge_map g) = {0, 1, 2}" unfolding g(2) by auto
  then have "g_num_edges g = 3" using graph_invariant [OF demo_registry_ok g(1)] by simp
  then show ?thesis using g by blast
qed



end
