(* ===== verification/TF_GraphAlgo.thy ===== *)
theory TF_GraphAlgo
  imports TF_Graph
begin

text \<open>
  \<^verbatim>\<open>graph/algorithm.cc\<close>: depth-first traversal with an explicit stack, post orders, pruning by
  reverse reachability and the source and sink edges. The callbacks of a traversal are recorded as
  the list of their calls. The traversals are verified once for any successor function.
\<close>

section \<open>Depth-first search\<close>

lemma length_filter_Not_update:
  "i < length xs \<Longrightarrow> \<not> xs ! i \<Longrightarrow> length (filter Not (xs[i := True])) < length (filter Not xs)"
proof (induction xs arbitrary: i)
  case (Cons x xs)
  then show ?case by (cases i) auto
qed simp

datatype visit = Enter nat | Leave nat

text \<open>
  The stack holds \<open>(node, leave)\<close> pairs, its top first. A node outside the visited array is out of
  bounds.
\<close>

function dfs_loop ::
  "(nat \<Rightarrow> nat list) \<Rightarrow> (nat \<Rightarrow> int) \<Rightarrow> bool \<Rightarrow> bool \<Rightarrow> (nat \<times> bool) list \<Rightarrow> bool list \<Rightarrow> visit list \<Rightarrow> visit list option" where
  "dfs_loop next_nodes ident enter leave stack visited calls =
     (case stack of
        [] \<Rightarrow> Some calls
      | (n, l) # stack \<Rightarrow>
          if l then dfs_loop next_nodes ident enter leave stack visited (calls @ [Leave n])
          else if ident n < 0 \<or> length visited \<le> nat (ident n) then None
          else if visited ! nat (ident n) then dfs_loop next_nodes ident enter leave stack visited calls
          else
            let visited = visited[nat (ident n) := True];
                calls = (if enter then calls @ [Enter n] else calls);
                stack = (if leave then (n, True) # stack else stack);
                stack = rev (map (\<lambda>m. (m, False)) (filter (\<lambda>m. \<not> visited ! nat (ident m)) (next_nodes n))) @ stack
            in dfs_loop next_nodes ident enter leave stack visited calls)"
  by pat_completeness auto
termination
proof (relation "(\<lambda>(_, _, _, _, stack, visited, _). length (filter Not visited)) <*mlex*>
    measure (\<lambda>(_, _, _, _, stack, _, _). length stack)", goal_cases)
  case 1
  show ?case by (rule wf_mlex) simp
next
  case (2 next_nodes ident enter leave stack visited calls x stack' n l)
  then show ?case by (auto simp: mlex_iff)
next
  case (3 next_nodes ident enter leave stack visited calls x stack' n l)
  then show ?case by (auto simp: mlex_iff)
next
  case (4 next_nodes ident enter leave stack visited calls x stack' n l v)
  then show ?case by (auto simp: mlex_iff intro: length_filter_Not_update)
qed

declare dfs_loop.simps [simp del]

definition DFS :: "graph \<Rightarrow> bool \<Rightarrow> bool \<Rightarrow> visit list option" where
  "DFS g enter leave = do {
     s \<leftarrow> source_node g;
     dfs_loop (out_nodes g) (\<lambda>p. n_id (node_at g p)) enter leave [(s, False)] (replicate (length (g_nodes g)) False) []
   }"

definition ReverseDFSFrom :: "graph \<Rightarrow> nat list \<Rightarrow> bool \<Rightarrow> bool \<Rightarrow> visit list option" where
  "ReverseDFSFrom g start_nodes enter leave =
     dfs_loop (in_nodes g) (\<lambda>p. n_id (node_at g p)) enter leave
       (rev (map (\<lambda>n. (n, False)) start_nodes)) (replicate (length (g_nodes g)) False) []"

definition ReverseDFS :: "graph \<Rightarrow> bool \<Rightarrow> bool \<Rightarrow> visit list option" where
  "ReverseDFS g enter leave = do { s \<leftarrow> sink_node g; ReverseDFSFrom g [s] enter leave }"

fun left_nodes :: "visit list \<Rightarrow> nat list" where
  "left_nodes [] = []"
| "left_nodes (Enter n # vs) = left_nodes vs"
| "left_nodes (Leave n # vs) = n # left_nodes vs"

definition GetPostOrder :: "graph \<Rightarrow> nat list option" where
  "GetPostOrder g = map_option left_nodes (DFS g False True)"

definition GetReversePostOrder :: "graph \<Rightarrow> nat list option" where
  "GetReversePostOrder g = map_option rev (GetPostOrder g)"

section \<open>What a traversal visits\<close>

text \<open>
  A node is left after all its successors. The stack is read as a list of entries: above the marker
  \<open>(u, True)\<close> of an open node \<open>u\<close> lie only nodes reachable from \<open>u\<close>, and every successor of \<open>u\<close> is
  already left or above the marker.
\<close>

definition traversal_ok :: "(nat \<Rightarrow> nat list) \<Rightarrow> (nat \<Rightarrow> int) \<Rightarrow> nat set \<Rightarrow> nat \<Rightarrow> bool" where
  "traversal_ok next_nodes ident N L \<longleftrightarrow> (\<forall>n \<in> N. 0 \<le> ident n \<and> nat (ident n) < L \<and> set (next_nodes n) \<subseteq> N) \<and> inj_on ident N"

definition succs :: "nat set \<Rightarrow> (nat \<Rightarrow> nat list) \<Rightarrow> (nat \<times> nat) set" where
  "succs N next_nodes = {(u, v). u \<in> N \<and> v \<in> set (next_nodes u)}"

definition open_nodes :: "(nat \<times> bool) list \<Rightarrow> nat list" where
  "open_nodes stack = map fst (filter snd stack)"

definition above_ok :: "nat set \<Rightarrow> (nat \<Rightarrow> nat list) \<Rightarrow> nat set \<Rightarrow> (nat \<times> bool) list \<Rightarrow> bool" where
  "above_ok N next_nodes left stack \<longleftrightarrow> (\<forall>A u B. stack = A @ (u, True) # B \<longrightarrow>
     (\<forall>(v, b) \<in> set A. (u, v) \<in> (succs N next_nodes)\<^sup>+) \<and>
     (\<forall>v \<in> set (next_nodes u). v \<in> left \<or> v \<in> fst ` set A))"

definition closed_order :: "(nat \<Rightarrow> nat list) \<Rightarrow> nat list \<Rightarrow> bool" where
  "closed_order next_nodes xs \<longleftrightarrow> (\<forall>A u B. xs = A @ u # B \<longrightarrow> set (next_nodes u) \<subseteq> set A)"

definition dfs_inv :: "(nat \<Rightarrow> nat list) \<Rightarrow> (nat \<Rightarrow> int) \<Rightarrow> nat set \<Rightarrow> nat set \<Rightarrow> (nat \<times> bool) list \<Rightarrow> bool list \<Rightarrow> nat list \<Rightarrow> bool" where
  "dfs_inv next_nodes ident N S stack visited left \<longleftrightarrow>
     fst ` set stack \<subseteq> N \<and> set left \<subseteq> N \<and> distinct (open_nodes stack @ left) \<and>
     (\<forall>n \<in> N. visited ! nat (ident n) \<longleftrightarrow> n \<in> set (open_nodes stack) \<union> set left) \<and>
     above_ok N next_nodes (set left) stack \<and> closed_order next_nodes left \<and>
     (\<forall>n \<in> fst ` set stack \<union> set left. \<exists>s \<in> S. (s, n) \<in> (succs N next_nodes)\<^sup>*) \<and> S \<subseteq> fst ` set stack \<union> set left"

lemma above_okD:
  assumes "above_ok N next_nodes left stack" "stack = A @ (u, True) # B"
  shows "(v, b) \<in> set A \<Longrightarrow> (u, v) \<in> (succs N next_nodes)\<^sup>+"
    "v \<in> set (next_nodes u) \<Longrightarrow> v \<in> left \<or> v \<in> fst ` set A"
  using assms(1) [unfolded above_ok_def, rule_format, OF assms(2)] by auto

lemma above_ok_pop:
  assumes "above_ok N next_nodes left ((n, l) # stack)" "l \<Longrightarrow> n \<in> left'" "left \<subseteq> left'"
    "\<not> l \<Longrightarrow> n \<in> left' \<or> (\<forall>A u B. stack = A @ (u, True) # B \<longrightarrow> n \<in> fst ` set A)"
  shows "above_ok N next_nodes left' stack"
  unfolding above_ok_def
proof (intro allI impI conjI)
  fix A u B assume st: "stack = A @ (u, True) # B"
  then have "(n, l) # stack = ((n, l) # A) @ (u, True) # B" by simp
  from assms(1) [unfolded above_ok_def, rule_format, OF this]
  have a: "\<forall>(v, b) \<in> set ((n, l) # A). (u, v) \<in> (succs N next_nodes)\<^sup>+"
    "\<forall>v \<in> set (next_nodes u). v \<in> left \<or> v \<in> fst ` set ((n, l) # A)" by blast+
  show "\<forall>(v, b) \<in> set A. (u, v) \<in> (succs N next_nodes)\<^sup>+" using a(1) by auto
  show "\<forall>v \<in> set (next_nodes u). v \<in> left' \<or> v \<in> fst ` set A"
    using a(2) assms(2-4) st by (cases l) auto
qed

lemma closed_order_snoc:
  assumes "closed_order next_nodes xs" "set (next_nodes u) \<subseteq> set xs"
  shows "closed_order next_nodes (xs @ [u])"
  unfolding closed_order_def
proof (intro allI impI)
  fix A w B assume eq: "xs @ [u] = A @ w # B"
  show "set (next_nodes w) \<subseteq> set A"
  proof (cases B rule: rev_cases)
    case Nil
    then show ?thesis using eq assms(2) by simp
  next
    case (snoc B' b)
    then have "xs = A @ w # B'" using eq by simp
    then show ?thesis using assms(1) by (simp add: closed_order_def)
  qed
qed

lemma dfs_inv_leave:
  assumes inv: "dfs_inv next_nodes ident N S ((n, True) # stack) visited left" and ac: "acyclic (succs N next_nodes)"
  shows "dfs_inv next_nodes ident N S stack visited (left @ [n])"
proof -
  note I = inv [unfolded dfs_inv_def]
  have "(n, True) # stack = [] @ (n, True) # stack" by simp
  then have "\<forall>v \<in> set (next_nodes n). v \<in> set left"
    using I above_okD(2) [of N next_nodes "set left" _ "[]" n stack] by auto
  then have "closed_order next_nodes (left @ [n])" using I by (auto intro: closed_order_snoc)
  moreover have "above_ok N next_nodes (set (left @ [n])) stack"
    by (rule above_ok_pop [where left = "set left"]) (use I in auto)
  ultimately show ?thesis using I unfolding dfs_inv_def by (auto simp: open_nodes_def)
qed

lemma dfs_inv_skip:
  assumes inv: "dfs_inv next_nodes ident N S ((n, False) # stack) visited left" and ac: "acyclic (succs N next_nodes)"
    and vis: "visited ! nat (ident n)"
  shows "dfs_inv next_nodes ident N S stack visited left"
proof -
  note I = inv [unfolded dfs_inv_def]
  have ab: "above_ok N next_nodes (set left) ((n, False) # stack)" using I by blast
  have n: "n \<in> set (open_nodes stack) \<union> set left" using I vis by (auto simp: open_nodes_def)
  have mem: "n \<in> set left \<or> n \<in> fst ` set stack" using n by (auto simp: open_nodes_def)
  have "n \<in> set left \<or> (\<forall>A u B. stack = A @ (u, True) # B \<longrightarrow> n \<in> fst ` set A)"
  proof (intro disjCI allI impI)
    fix A u B assume nl: "\<not> (\<forall>A u B. stack = A @ (u, True) # B \<longrightarrow> n \<in> fst ` set A)"
    show "n \<in> set left"
    proof (rule ccontr)
      assume nleft: "n \<notin> set left"
      obtain A u B where st: "stack = A @ (u, True) # B" "n \<notin> fst ` set A" using nl by blast
      have "(n, True) \<in> set stack" using n nleft by (auto simp: open_nodes_def)
      then have "u = n \<or> (n, True) \<in> set B" using st by force
      moreover have un: "(u, n) \<in> (succs N next_nodes)\<^sup>+"
      proof -
        have "(n, False) # stack = ((n, False) # A) @ (u, True) # B" using st by simp
        from above_okD(1) [OF ab this, of n False] show ?thesis by simp
      qed
      moreover have "(n, u) \<in> (succs N next_nodes)\<^sup>+" if nB: "(n, True) \<in> set B"
      proof -
        obtain B1 B2 where "B = B1 @ (n, True) # B2" using nB by (auto dest: split_list)
        then have "(n, False) # stack = ((n, False) # A @ (u, True) # B1) @ (n, True) # B2" using st by simp
        from above_okD(1) [OF ab this, of u True] show ?thesis by simp
      qed
      ultimately have "(n, n) \<in> (succs N next_nodes)\<^sup>+" by (auto intro: trancl_trans)
      then show False using ac by (auto simp: acyclic_def)
    qed
  qed
  then have "above_ok N next_nodes (set left) stack"
    using above_ok_pop [of N next_nodes "set left" n False stack "set left"] I by blast
  then show ?thesis using I mem unfolding dfs_inv_def by (auto simp: open_nodes_def)
qed

lemma append_marker_cases:
  assumes "W @ x # S = A @ y # B" "y \<notin> set W"
  shows "A = W \<and> y = x \<and> B = S \<or> (\<exists>A'. A = W @ x # A' \<and> S = A' @ y # B)"
  using assms by (auto simp: append_eq_append_conv2 Cons_eq_append_conv append_eq_Cons_conv)

lemma dfs_inv_enter:
  assumes inv: "dfs_inv next_nodes ident N S ((n, False) # stack) visited left" and ok: "traversal_ok next_nodes ident N (length visited)"
    and ac: "acyclic (succs N next_nodes)" and nvis: "\<not> visited ! nat (ident n)"
  defines "visited' \<equiv> visited[nat (ident n) := True]"
  shows "dfs_inv next_nodes ident N S
    (rev (map (\<lambda>m. (m, False)) (filter (\<lambda>m. \<not> visited' ! nat (ident m)) (next_nodes n))) @ (n, True) # stack) visited' left"
    (is "dfs_inv _ _ _ _ (?new @ _) _ _")
proof -
  note I = inv [unfolded dfs_inv_def] and O = ok [unfolded traversal_ok_def]
  have n: "n \<in> N" using I by auto
  have new: "n \<notin> set (open_nodes stack) \<union> set left" using I n nvis by (auto simp: open_nodes_def)
  have vis: "visited' ! nat (ident m) \<longleftrightarrow> m = n \<or> visited ! nat (ident m)" if "m \<in> N" for m
  proof -
    have "nat (ident m) = nat (ident n) \<longleftrightarrow> m = n" using that n O by (auto simp: inj_on_def nat_eq_iff)
    then show ?thesis using n O by (auto simp: visited'_def nth_list_update)
  qed
  have opens: "open_nodes (?new @ (n, True) # stack) = n # open_nodes stack"
  proof -
    have "filter snd ?new = []" by (auto simp: filter_empty_conv)
    then show ?thesis by (simp add: open_nodes_def)
  qed
  have succN: "set (next_nodes n) \<subseteq> N" using n O by blast
  have newset: "fst ` set ?new = {m \<in> set (next_nodes n). \<not> visited' ! nat (ident m)}" by force
  have ab: "above_ok N next_nodes (set left) ((n, False) # stack)" using I by blast
  have "above_ok N next_nodes (set left) (?new @ (n, True) # stack)"
    unfolding above_ok_def
  proof (intro allI impI)
    fix A u B assume eq: "?new @ (n, True) # stack = A @ (u, True) # B"
    have "(u, True) \<notin> set ?new" by auto
    then have "A = ?new \<and> u = n \<and> B = stack \<or> (\<exists>A'. A = ?new @ (n, True) # A' \<and> stack = A' @ (u, True) # B)"
      using append_marker_cases [OF eq] by blast
    then show "(\<forall>(v, b) \<in> set A. (u, v) \<in> (succs N next_nodes)\<^sup>+) \<and> (\<forall>v \<in> set (next_nodes u). v \<in> set left \<or> v \<in> fst ` set A)"
    proof
      assume a: "A = ?new \<and> u = n \<and> B = stack"
      have "v \<in> set left \<or> v \<in> fst ` set ?new" if "v \<in> set (next_nodes n)" for v
      proof (rule ccontr)
        assume no: "\<not> ?thesis"
        have vN: "v \<in> N" using that succN by blast
        have nv: "(n, v) \<in> (succs N next_nodes)\<^sup>+" using that n by (auto simp: succs_def)
        have "visited' ! nat (ident v)" using no that newset by blast
        then have "v = n \<or> v \<in> set (open_nodes stack)" using vis [OF vN] I vN no by (auto simp: open_nodes_def)
        then have "(v, n) \<in> (succs N next_nodes)\<^sup>*"
        proof
          assume "v \<in> set (open_nodes stack)"
          then have "(v, True) \<in> set stack" by (auto simp: open_nodes_def)
          then obtain C D where "stack = C @ (v, True) # D" by (auto dest: split_list)
          then have "(n, False) # stack = ((n, False) # C) @ (v, True) # D" by simp
          from above_okD(1) [OF ab this, of n False] show ?thesis by (simp add: trancl_into_rtrancl)
        qed simp
        then have "(n, n) \<in> (succs N next_nodes)\<^sup>+" using nv by (rule trancl_rtrancl_trancl [rotated])
        then show False using ac by (auto simp: acyclic_def)
      qed
      then show ?thesis using a n by (auto simp: succs_def)
    next
      assume "\<exists>A'. A = ?new @ (n, True) # A' \<and> stack = A' @ (u, True) # B"
      then obtain A' where a: "A = ?new @ (n, True) # A'" "stack = A' @ (u, True) # B" by blast
      have "(n, False) # stack = ((n, False) # A') @ (u, True) # B" using a by simp
      note D = above_okD [OF ab this]
      have un: "(u, n) \<in> (succs N next_nodes)\<^sup>+" using D(1) [of n False] by simp
      have "(u, v) \<in> (succs N next_nodes)\<^sup>+" if vb: "(v, b) \<in> set A" for v b
      proof -
        consider "v \<in> set (next_nodes n)" | "v = n" | "(v, b) \<in> set A'" using vb a(1) by auto
        then show ?thesis
        proof cases
          case 1
          then show ?thesis using un n by (auto intro: trancl_into_trancl simp: succs_def)
        qed (use un D(1) in auto)
      qed
      moreover have "v \<in> set left \<or> v \<in> fst ` set A" if "v \<in> set (next_nodes u)" for v
        using D(2) [OF that] a(1) by auto
      ultimately show ?thesis by auto
    qed
  qed
  have d: "distinct (open_nodes (?new @ (n, True) # stack) @ left)"
    using I new unfolding opens by (auto simp: open_nodes_def)
  have v: "\<forall>m \<in> N. visited' ! nat (ident m) \<longleftrightarrow> m \<in> set (open_nodes (?new @ (n, True) # stack)) \<union> set left"
    using I vis unfolding opens by (auto simp: open_nodes_def)
  have sub: "fst ` set (?new @ (n, True) # stack) \<subseteq> N" using I succN newset n by auto
  have r: "\<exists>s \<in> S. (s, m) \<in> (succs N next_nodes)\<^sup>*" if m: "m \<in> fst ` set (?new @ (n, True) # stack) \<union> set left" for m
  proof (cases "m \<in> fst ` set ?new")
    case True
    then have "(n, m) \<in> succs N next_nodes" using newset n by (auto simp: succs_def)
    moreover obtain s where "s \<in> S" "(s, n) \<in> (succs N next_nodes)\<^sup>*" using I by auto
    ultimately show ?thesis by (auto intro: rtrancl_into_rtrancl)
  next
    case False
    then show ?thesis using I m by auto
  qed
  have "above_ok N next_nodes (set left) (?new @ (n, True) # stack)" by fact
  moreover have "\<forall>m \<in> fst ` set (?new @ (n, True) # stack) \<union> set left. \<exists>s \<in> S. (s, m) \<in> (succs N next_nodes)\<^sup>*"
    using r by blast
  moreover have "set left \<subseteq> N" "closed_order next_nodes left" using I by blast+
  moreover have "S \<subseteq> fst ` set (?new @ (n, True) # stack) \<union> set left" using I by auto
  ultimately show ?thesis unfolding dfs_inv_def using d v sub by (intro conjI)
qed

lemma left_nodes_append [simp]: "left_nodes (xs @ ys) = left_nodes xs @ left_nodes ys"
  by (induction xs rule: left_nodes.induct) auto

lemma dfs_loop_ok:
  assumes "traversal_ok next_nodes ident N (length visited)" "acyclic (succs N next_nodes)"
    "dfs_inv next_nodes ident N S stack visited (left_nodes calls)"
  shows "\<exists>calls'. dfs_loop next_nodes ident enter True stack visited calls = Some calls' \<and> distinct (left_nodes calls') \<and>
    closed_order next_nodes (left_nodes calls') \<and> set (left_nodes calls') = (succs N next_nodes)\<^sup>* `` S"
  using assms
proof (induction next_nodes ident enter "True" stack visited calls rule: dfs_loop.induct)
  case (1 next_nodes ident enter stack visited calls)
  show ?case
  proof (cases stack)
    case Nil
    have I: "dfs_inv next_nodes ident N S [] visited (left_nodes calls)" using "1.prems"(3) Nil by simp
    have "closed_order next_nodes (left_nodes calls)" using I by (simp add: dfs_inv_def)
    then have "set (next_nodes u) \<subseteq> set (left_nodes calls)" if u: "u \<in> set (left_nodes calls)" for u
    proof -
      obtain A B where "left_nodes calls = A @ u # B" using u by (auto dest: split_list)
      then have "set (next_nodes u) \<subseteq> set A" "set A \<subseteq> set (left_nodes calls)"
        using \<open>closed_order next_nodes (left_nodes calls)\<close> by (auto simp: closed_order_def)
      then show ?thesis by blast
    qed
    then have cl: "v \<in> set (left_nodes calls)" if "(u, v) \<in> succs N next_nodes" "u \<in> set (left_nodes calls)" for u v
      using that by (auto simp: succs_def)
    have "v \<in> set (left_nodes calls)" if "(u, v) \<in> (succs N next_nodes)\<^sup>*" "u \<in> set (left_nodes calls)" for u v
      using that by (induction rule: rtrancl_induct) (auto intro: cl)
    then have "(succs N next_nodes)\<^sup>* `` S \<subseteq> set (left_nodes calls)" using I by (auto simp: dfs_inv_def)
    then show ?thesis using I by (subst dfs_loop.simps) (auto simp: Nil dfs_inv_def open_nodes_def)
  next
    case (Cons a rest)
    obtain n l where a: "a = (n, l)" by (cases a)
    show ?thesis
    proof (cases l)
      case True
      have "dfs_inv next_nodes ident N S rest visited (left_nodes (calls @ [Leave n]))"
        using dfs_inv_leave [OF _ "1.prems"(2)] "1.prems"(3) by (simp add: Cons a True)
      from "1.hyps"(1) [OF Cons a [symmetric] True "1.prems"(1,2) this] show ?thesis
        by (subst dfs_loop.simps) (simp add: Cons a True)
    next
      case False
      have I: "dfs_inv next_nodes ident N S ((n, False) # rest) visited (left_nodes calls)" using "1.prems"(3) by (simp add: Cons a False)
      have "n \<in> N" using I by (simp add: dfs_inv_def)
      then have b: "\<not> (ident n < 0 \<or> length visited \<le> nat (ident n))" using "1.prems"(1) by (fastforce simp: traversal_ok_def)
      show ?thesis
      proof (cases "visited ! nat (ident n)")
        case True
        from "1.hyps"(2) [OF Cons a [symmetric] False b True "1.prems"(1,2) dfs_inv_skip [OF I "1.prems"(2) True]] show ?thesis
          using b by (subst dfs_loop.simps) (simp add: Cons a False True)
      next
        case nv: False
        note E = dfs_inv_enter [OF I "1.prems"(1,2) nv]
        have t: "traversal_ok next_nodes ident N (length (visited[nat (ident n) := True]))" using "1.prems"(1) by simp
        have "\<exists>calls'. dfs_loop next_nodes ident enter True
            (rev (map (\<lambda>m. (m, False)) (filter (\<lambda>m. \<not> (visited[nat (ident n) := True]) ! nat (ident m)) (next_nodes n))) @ (n, True) # rest)
            (visited[nat (ident n) := True]) (if enter then calls @ [Enter n] else calls) = Some calls' \<and>
            distinct (left_nodes calls') \<and> closed_order next_nodes (left_nodes calls') \<and> set (left_nodes calls') = (succs N next_nodes)\<^sup>* `` S"
          using "1.hyps"(3) [OF Cons a [symmetric] False b nv refl refl refl refl] t "1.prems"(2) E by simp
        then show ?thesis using b nv by (subst dfs_loop.simps) (simp add: Cons a False Let_def)
      qed
    qed
  qed
qed

text \<open>The start of a traversal: all its entries unvisited.\<close>

lemma dfs_inv_start:
  assumes "set xs \<subseteq> N" "traversal_ok next_nodes ident N L"
  shows "dfs_inv next_nodes ident N (set xs) (map (\<lambda>n. (n, False)) xs) (replicate L False) []"
proof -
  have "filter snd (map (\<lambda>n. (n, False)) xs) = []" by (auto simp: filter_empty_conv)
  moreover have "above_ok N next_nodes {} (map (\<lambda>n. (n, False)) xs)"
    by (auto simp: above_ok_def map_eq_append_conv map_eq_Cons_conv)
  moreover have "fst ` set (map (\<lambda>n. (n, False)) xs) = set xs" by force
  ultimately show ?thesis using assms
    by (auto simp: dfs_inv_def open_nodes_def closed_order_def traversal_ok_def simp del: set_map)
qed

lemma in_out_nodes:
  assumes "graph_ok g" "IsValidNode g p"
  shows "set (out_nodes g p) = {q. \<exists>e. IsLiveEdge g e \<and> e_src (edge_at g e) = Some p \<and> e_dst (edge_at g e) = Some q}"
    "set (in_nodes g p) = {q. \<exists>e. IsLiveEdge g e \<and> e_dst (edge_at g e) = Some p \<and> e_src (edge_at g e) = Some q}"
proof -
  have n: "e \<in> set (es_elems (n_out (node_at g p))) \<longleftrightarrow> IsLiveEdge g e \<and> e_src (edge_at g e) = Some p"
    "e \<in> set (es_elems (n_in (node_at g p))) \<longleftrightarrow> IsLiveEdge g e \<and> e_dst (edge_at g e) = Some p" for e
    using assms by (auto simp: graph_ok_def nodes_ok_def)
  show "set (out_nodes g p) = {q. \<exists>e. IsLiveEdge g e \<and> e_src (edge_at g e) = Some p \<and> e_dst (edge_at g e) = Some q}"
    "set (in_nodes g p) = {q. \<exists>e. IsLiveEdge g e \<and> e_dst (edge_at g e) = Some p \<and> e_src (edge_at g e) = Some q}"
    by (auto simp: out_nodes_def in_nodes_def out_edges_def in_edges_def List.map_filter_def n image_iff) (force simp: n)+
qed

lemma graph_traversal_ok:
  assumes "graph_ok g"
  shows "traversal_ok (out_nodes g) (\<lambda>p. n_id (node_at g p)) {p. IsValidNode g p} (length (g_nodes g))"
    "traversal_ok (in_nodes g) (\<lambda>p. n_id (node_at g p)) {p. IsValidNode g p} (length (g_nodes g))"
proof -
  have v: "IsValidNode g q" if "IsLiveEdge g e" "e_src (edge_at g e) = Some q \<or> e_dst (edge_at g e) = Some q" for e q
    using live_edgeD [OF assms that(1)] that(2) by (metis option.inject)
  have "set (out_nodes g p) \<subseteq> {p. IsValidNode g p}" "set (in_nodes g p) \<subseteq> {p. IsValidNode g p}" if "IsValidNode g p" for p
    unfolding in_out_nodes [OF assms that] using v by blast+
  moreover have "inj_on (\<lambda>p. n_id (node_at g p)) {p. IsValidNode g p}" using valid_id_inj by (auto simp: inj_on_def)
  ultimately show "traversal_ok (out_nodes g) (\<lambda>p. n_id (node_at g p)) {p. IsValidNode g p} (length (g_nodes g))"
    "traversal_ok (in_nodes g) (\<lambda>p. n_id (node_at g p)) {p. IsValidNode g p} (length (g_nodes g))"
    by (auto simp: traversal_ok_def IsValidNode_def Let_def)
qed

text \<open>The edges of a graph as a relation on its nodes.\<close>

definition arcs :: "graph \<Rightarrow> (nat \<times> nat) set" where
  "arcs g = {(p, q). \<exists>e. IsLiveEdge g e \<and> e_src (edge_at g e) = Some p \<and> e_dst (edge_at g e) = Some q}"

lemma live_ends:
  assumes "graph_ok g" "IsLiveEdge g e"
  shows "e_src (edge_at g e) = Some q \<Longrightarrow> IsValidNode g q" "e_dst (edge_at g e) = Some q \<Longrightarrow> IsValidNode g q"
  using live_edgeD [OF assms] by (metis option.inject)+

lemma arcs_valid: "graph_ok g \<Longrightarrow> (p, q) \<in> arcs g \<Longrightarrow> IsValidNode g p \<and> IsValidNode g q"
  by (auto simp: arcs_def live_ends)

lemma succs_arcs:
  assumes "graph_ok g"
  shows "succs {p. IsValidNode g p} (out_nodes g) = arcs g" "succs {p. IsValidNode g p} (in_nodes g) = (arcs g)\<inverse>"
  using in_out_nodes [OF assms] arcs_valid [OF assms] by (auto simp: succs_def) (auto simp: arcs_def)

text \<open>
  C37. On a reachable graph without cycles the depth-first traversal from the source ends, its
  reverse post order lists every node reachable from the source exactly once, and every edge between
  listed nodes goes forward in it: the order is a topological one.
\<close>

theorem reverse_post_order_topological:
  assumes "registry_ok R" and "graph_reachable R g" and "acyclic (arcs g)" and "source_node g = Some s"
  shows "\<exists>order. GetReversePostOrder g = Some order \<and> distinct order \<and> set order = (arcs g)\<^sup>* `` {s} \<and>
    (\<forall>i j. i < length order \<longrightarrow> j < length order \<longrightarrow> (order ! i, order ! j) \<in> arcs g \<longrightarrow> i < j)"
proof -
  have g: "graph_ok g" by (rule graph_reachable_ok [OF assms(1,2)])
  let ?N = "{p. IsValidNode g p}"
  have s: "set [s] \<subseteq> ?N" using source_sink_valid [OF g] assms(4) by (metis empty_set insert_subset list.simps(15) mem_Collect_eq option.inject empty_subsetI)
  note T = graph_traversal_ok(1) [OF g]
  have ac: "acyclic (succs ?N (out_nodes g))" using assms(3) by (simp add: succs_arcs [OF g])
  have T': "traversal_ok (out_nodes g) (\<lambda>p. n_id (node_at g p)) ?N (length (replicate (length (g_nodes g)) False))" using T by simp
  have start: "dfs_inv (out_nodes g) (\<lambda>p. n_id (node_at g p)) ?N {s} [(s, False)] (replicate (length (g_nodes g)) False) (left_nodes [])"
    using dfs_inv_start [OF s T] by simp
  obtain calls where c: "dfs_loop (out_nodes g) (\<lambda>p. n_id (node_at g p)) False True [(s, False)] (replicate (length (g_nodes g)) False) [] = Some calls"
    "distinct (left_nodes calls)" "closed_order (out_nodes g) (left_nodes calls)" "set (left_nodes calls) = (arcs g)\<^sup>* `` {s}"
    using dfs_loop_ok [OF T' ac start, of False] by (auto simp: succs_arcs [OF g])
  let ?post = "left_nodes calls"
  have "GetReversePostOrder g = Some (rev ?post)"
    by (simp add: GetReversePostOrder_def GetPostOrder_def DFS_def assms(4) c(1))
  moreover have "i < j" if ij: "i < length (rev ?post)" "j < length (rev ?post)" "(rev ?post ! i, rev ?post ! j) \<in> arcs g" for i j
  proof -
    define a b where "a = length ?post - Suc i" and "b = length ?post - Suc j"
    have ab: "a < length ?post" "b < length ?post" "(?post ! a, ?post ! b) \<in> arcs g"
      using ij by (auto simp: a_def b_def rev_nth)
    have "?post = take a ?post @ ?post ! a # drop (Suc a) ?post" using ab(1) by (rule id_take_nth_drop)
    then have "set (out_nodes g (?post ! a)) \<subseteq> set (take a ?post)" using c(3) unfolding closed_order_def by blast
    moreover have "?post ! b \<in> set (out_nodes g (?post ! a))"
      using ab(3) in_out_nodes(1) [OF g] arcs_valid [OF g] by (fastforce simp: arcs_def)
    ultimately have "?post ! b \<in> set (take a ?post)" by blast
    then obtain k where "k < a" "?post ! k = ?post ! b" using ab(1) by (auto simp: in_set_conv_nth)
    then have "b < a" using c(2) ab(1,2) by (metis nth_eq_iff_index_eq order_less_trans)
    then show "i < j" using ij by (simp add: a_def b_def)
  qed
  ultimately show ?thesis using c(2,4) by (intro exI [of _ "rev ?post"]) auto
qed

section \<open>Pruning\<close>

text \<open>
  The breadth-first search over the predecessors. The visited set is kept in insertion order; the
  initial order is the iteration order of the hash set.
\<close>

definition visit_all :: "nat list \<Rightarrow> nat list \<times> nat list \<Rightarrow> nat list \<times> nat list" where
  "visit_all ms vq = foldl (\<lambda>(visited, queue) m.
     if m \<in> set visited then (visited, queue) else (visited @ [m], queue @ [m])) vq ms"

partial_function (option) reach_loop :: "(nat \<Rightarrow> nat list) \<Rightarrow> nat list \<Rightarrow> nat list \<Rightarrow> nat list option" where
  [code]: "reach_loop prev visited queue =
     (case queue of
        [] \<Rightarrow> Some visited
      | n # queue \<Rightarrow> (case visit_all (prev n) (visited, queue) of (visited, queue) \<Rightarrow> reach_loop prev visited queue))"

fun prune_loop :: "nat list \<Rightarrow> nat list \<Rightarrow> bool \<Rightarrow> graph \<Rightarrow> (bool \<times> graph) option" where
  "prune_loop visited [] any_removed g = Some (any_removed, g)"
| "prune_loop visited (n # ns) any_removed g =
     (if n \<notin> set visited \<and> \<not> IsSource (node_at g n) \<and> \<not> IsSink (node_at g n)
      then do { g \<leftarrow> RemoveNode n g; prune_loop visited ns True g }
      else prune_loop visited ns any_removed g)"

definition PruneForReverseReachability :: "nat list \<Rightarrow> graph \<Rightarrow> (bool \<times> graph) option" where
  "PruneForReverseReachability visited g = do {
     visited \<leftarrow> reach_loop (in_nodes g) visited visited;
     prune_loop visited (nodes g) False g
   }"

text \<open>\<open>fresh\<close> is the address the arena returns next.\<close>

fun fixup_loop :: "(graph \<Rightarrow> nat) \<Rightarrow> nat list \<Rightarrow> bool \<Rightarrow> graph \<Rightarrow> (bool \<times> graph) option" where
  "fixup_loop fresh [] changed g = Some (changed, g)"
| "fixup_loop fresh (n # ns) changed g = do {
     (changed, g) \<leftarrow> (if \<not> IsSource (node_at g n) \<and> es_empty (n_in (node_at g n))
       then do { s \<leftarrow> source_node g; (_, g) \<leftarrow> AddControlEdge (fresh g) s n g; Some (True, g) } else Some (changed, g));
     (changed, g) \<leftarrow> (if \<not> IsSink (node_at g n) \<and> es_empty (n_out (node_at g n))
       then do { t \<leftarrow> sink_node g; (_, g) \<leftarrow> AddControlEdge (fresh g) n t g; Some (True, g) } else Some (changed, g));
     fixup_loop fresh ns changed g
   }"

definition FixupSourceAndSinkEdges :: "(graph \<Rightarrow> nat) \<Rightarrow> graph \<Rightarrow> (bool \<times> graph) option" where
  "FixupSourceAndSinkEdges fresh g = fixup_loop fresh (nodes g) False g"

lemma visit_all_eq:
  "\<exists>new. visit_all ms (visited, queue) = (visited @ new, queue @ new) \<and> set new = set ms - set visited \<and> distinct new"
proof (induction ms arbitrary: visited queue)
  case Nil
  then show ?case by (simp add: visit_all_def)
next
  case (Cons m ms)
  show ?case
  proof (cases "m \<in> set visited")
    case True
    then have "visit_all (m # ms) (visited, queue) = visit_all ms (visited, queue)" by (simp add: visit_all_def)
    then show ?thesis using Cons.IH [of visited queue] True by auto
  next
    case False
    then have e: "visit_all (m # ms) (visited, queue) = visit_all ms (visited @ [m], queue @ [m])" by (simp add: visit_all_def)
    obtain new where "visit_all ms (visited @ [m], queue @ [m]) = (visited @ [m] @ new, queue @ [m] @ new)"
      "set new = set ms - set (visited @ [m])" "distinct new" using Cons.IH [of "visited @ [m]" "queue @ [m]"] by auto
    then show ?thesis using e False by (intro exI [of _ "m # new"]) auto
  qed
qed

lemma reach_loop_ok:
  assumes "finite N" "\<And>n. n \<in> N \<Longrightarrow> set (prev n) \<subseteq> N" "set visited \<subseteq> N" "set queue \<subseteq> set visited"
    "set visited \<subseteq> (succs N prev)\<^sup>* `` S" "S \<subseteq> set visited"
    "\<And>n. n \<in> set visited \<Longrightarrow> n \<notin> set queue \<Longrightarrow> set (prev n) \<subseteq> set visited"
  shows "\<exists>vs. reach_loop prev visited queue = Some vs \<and> set vs = (succs N prev)\<^sup>* `` S"
  using assms(3-)
proof (induction "2 * card (N - set visited) + length queue" arbitrary: visited queue rule: less_induct)
  case less
  show ?case
  proof (cases queue)
    case Nil
    have "(succs N prev)\<^sup>* `` S \<subseteq> set visited"
    proof
      fix v assume "v \<in> (succs N prev)\<^sup>* `` S"
      then obtain s where "s \<in> S" "(s, v) \<in> (succs N prev)\<^sup>*" by blast
      from this(2,1) show "v \<in> set visited"
        by (induction rule: rtrancl_induct) (use less.prems(4,5) Nil in \<open>auto simp: succs_def\<close>)
    qed
    then show ?thesis using Nil less.prems(3) by (simp add: reach_loop.simps subset_antisym)
  next
    case (Cons n queue')
    obtain new where new: "visit_all (prev n) (visited, queue') = (visited @ new, queue' @ new)"
      "set new = set (prev n) - set visited" "distinct new" using visit_all_eq by metis
    have n: "n \<in> set visited" "n \<in> N" using less.prems(1,2) Cons by auto
    have sub: "set new \<subseteq> N - set visited" using new(2) assms(2) [OF n(2)] by blast
    have "card (N - set visited) = card (N - set (visited @ new)) + length new"
    proof -
      have "N - set (visited @ new) = (N - set visited) - set new" by auto
      moreover have "card (N - set visited - set new) = card (N - set visited) - card (set new)"
        using sub by (intro card_Diff_subset) auto
      moreover have "card (set new) \<le> card (N - set visited)" using sub assms(1) by (intro card_mono) auto
      ultimately show ?thesis using distinct_card [OF new(3)] by simp
    qed
    then have dec: "2 * card (N - set (visited @ new)) + length (queue' @ new) < 2 * card (N - set visited) + length queue"
      using Cons by simp
    have step: "reach_loop prev visited queue = reach_loop prev (visited @ new) (queue' @ new)"
      by (subst reach_loop.simps) (simp add: Cons new(1))
    show ?thesis
      unfolding step
    proof (rule less.hyps [OF dec])
      show "set (visited @ new) \<subseteq> N" "S \<subseteq> set (visited @ new)" "set (queue' @ new) \<subseteq> set (visited @ new)"
        using less.prems(1,2,4) sub Cons by auto
      obtain s where s: "s \<in> S" "(s, n) \<in> (succs N prev)\<^sup>*" using less.prems(3) n(1) by blast
      have "(s, m) \<in> (succs N prev)\<^sup>*" if "m \<in> set new" for m
      proof -
        have "(n, m) \<in> succs N prev" using new(2) n that by (simp add: succs_def)
        with s(2) show ?thesis by (rule rtrancl_into_rtrancl)
      qed
      then show "set (visited @ new) \<subseteq> (succs N prev)\<^sup>* `` S" using less.prems(3) s(1) by auto
      show "set (prev m) \<subseteq> set (visited @ new)" if "m \<in> set (visited @ new)" "m \<notin> set (queue' @ new)" for m
        using that less.prems(5) [of m] new(2) Cons by (cases "m = n") auto
    qed
  qed
qed

text \<open>What is left when the nodes with the ids in \<open>R\<close> are removed: the edges at them go too.\<close>

definition pruned :: "graph \<Rightarrow> int set \<Rightarrow> graph \<Rightarrow> bool" where
  "pruned g R g' \<longleftrightarrow> node_map g' = (\<lambda>i. if int i \<in> R then None else node_map g i) \<and>
     edge_map g' = (\<lambda>i. case edge_map g i of
       Some (a, x, b, y) \<Rightarrow> if a \<in> R \<or> b \<in> R then None else Some (a, x, b, y) | None \<Rightarrow> None)"

lemma pruned_empty: "pruned g {} g"
  by (auto simp: pruned_def fun_eq_iff split: option.split)

lemma pruned_insert:
  assumes "pruned g {k} h" "pruned h R g'"
  shows "pruned g (insert k R) g'"
  using assms by (auto simp: pruned_def fun_eq_iff split: option.splits)

lemma prune_loop_ok:
  assumes "graph_ok g" "\<And>n. n \<in> set ns \<Longrightarrow> IsValidNode g n" "distinct ns"
  shows "\<exists>g'. prune_loop visited ns b g = Some (b \<or> (\<exists>n \<in> set ns - set visited. IsOp (node_at g n)), g') \<and>
    graph_ok g' \<and> pruned g ((\<lambda>n. n_id (node_at g n)) ` {n \<in> set ns - set visited. IsOp (node_at g n)}) g'"
  using assms
proof (induction ns arbitrary: b g)
  case Nil
  then show ?case by (simp add: pruned_empty)
next
  case (Cons n ns)
  have op: "IsOp (node_at g n) \<longleftrightarrow> \<not> IsSource (node_at g n) \<and> \<not> IsSink (node_at g n)"
    using Cons.prems(2) [of n] by (auto simp: IsValidNode_def Let_def IsOp_def IsSource_def IsSink_def)
  show ?case
  proof (cases "n \<notin> set visited \<and> IsOp (node_at g n)")
    case False
    then have "{m \<in> set (n # ns) - set visited. IsOp (node_at g m)} = {m \<in> set ns - set visited. IsOp (node_at g m)}" by auto
    moreover have "(\<exists>m \<in> set (n # ns) - set visited. IsOp (node_at g m)) = (\<exists>m \<in> set ns - set visited. IsOp (node_at g m))"
      using False by auto
    moreover have "prune_loop visited (n # ns) b g = prune_loop visited ns b g" using False op by auto
    ultimately show ?thesis using Cons.IH [of g b] Cons.prems by simp
  next
    case True
    obtain h where h: "RemoveNode n g = Some h" "graph_ok h" "node_map h = (node_map g)(nat (n_id (node_at g n)) := None)"
      "edge_map h = (\<lambda>i. case edge_map g i of Some (a, x, b, y) \<Rightarrow>
        if a = n_id (node_at g n) \<or> b = n_id (node_at g n) then None else Some (a, x, b, y) | None \<Rightarrow> None)"
      "\<And>q. IsValidNode h q \<longleftrightarrow> q \<noteq> n \<and> IsValidNode g q" "\<And>q. q \<noteq> n \<Longrightarrow> n_id (node_at h q) = n_id (node_at g q)"
      using RemoveNode_ok [OF Cons.prems(1), of n] Cons.prems(2) [of n] True by (auto simp: IsOp_def)
    have ne: "m \<noteq> n" if "m \<in> set ns" for m using Cons.prems(3) that by auto
    have "prune_loop visited (n # ns) b g = prune_loop visited ns True h" using True op h(1) by auto
    moreover have "(\<exists>m \<in> set (n # ns) - set visited. IsOp (node_at g m))" using True by auto
    moreover have "pruned g {n_id (node_at g n)} h"
      using h(3,4) True by (auto simp: pruned_def fun_eq_iff IsOp_def split: option.splits)
    moreover have "(\<lambda>m. n_id (node_at g m)) ` {m \<in> set (n # ns) - set visited. IsOp (node_at g m)} =
        insert (n_id (node_at g n)) ((\<lambda>m. n_id (node_at h m)) ` {m \<in> set ns - set visited. IsOp (node_at h m)})"
    proof -
      have "IsOp (node_at h m) = IsOp (node_at g m)" "n_id (node_at h m) = n_id (node_at g m)" if "m \<in> set ns" for m
        using h(6) [OF ne [OF that]] by (simp_all add: IsOp_def)
      moreover have "{m \<in> set (n # ns) - set visited. IsOp (node_at g m)} = insert n {m \<in> set ns - set visited. IsOp (node_at g m)}"
        using True by auto
      ultimately show ?thesis by (auto simp: image_iff)
    qed
    ultimately show ?thesis using Cons.IH [of h True] Cons.prems h(2,5) ne by (auto intro: pruned_insert)
  qed
qed

lemma nodes_ok_list:
  assumes "graph_ok g"
  shows "set (nodes g) = {p. IsValidNode g p}" "distinct (nodes g)"
proof -
  have ids: "ids_ok (g_nodes g) (\<lambda>p. n_id (node_at g p))" using assms by (simp add: graph_ok_def)
  show "set (nodes g) = {p. IsValidNode g p}"
  proof (intro set_eqI iffI)
    fix p assume "p \<in> set (nodes g)"
    then obtain i where i: "i < length (g_nodes g)" "g_nodes g ! i = Some p"
      by (force simp: nodes_def List.map_filter_def in_set_conv_nth)
    then show "p \<in> {p. IsValidNode g p}" using ids_ok_inj [OF ids i] by (simp add: IsValidNode_def)
  next
    fix p assume "p \<in> {p. IsValidNode g p}"
    then have "Some p \<in> set (g_nodes g)"
      by (auto simp: IsValidNode_def Let_def in_set_conv_nth intro!: exI [of _ "nat (n_id (node_at g p))"])
    then show "p \<in> set (nodes g)" by (force simp: nodes_def List.map_filter_def)
  qed
  have "distinct (List.map_filter (\<lambda>x. x) xs)" if "\<And>i j p. i < length xs \<Longrightarrow> j < length xs \<Longrightarrow> xs ! i = Some p \<Longrightarrow> xs ! j = Some p \<Longrightarrow> i = j"
    for xs :: "nat option list" using that
  proof (induction xs)
    case (Cons x xs)
    have "distinct (List.map_filter (\<lambda>x. x) xs)"
      by (rule Cons.IH) (use Cons.prems [of "Suc i" "Suc j" for i j] in auto)
    moreover have "p \<notin> set (List.map_filter (\<lambda>x. x) xs)" if x: "x = Some p" for p
    proof
      assume "p \<in> set (List.map_filter (\<lambda>x. x) xs)"
      then obtain j where "j < length xs" "xs ! j = Some p" by (force simp: List.map_filter_def in_set_conv_nth)
      then show False using Cons.prems [of 0 "Suc j" p] x by simp
    qed
    ultimately show ?case by (cases x) (simp_all add: List.map_filter_simps)
  qed (simp add: List.map_filter_simps)
  then show "distinct (nodes g)" unfolding nodes_def using ids_ok_inj [OF ids] by (metis of_nat_eq_iff)
qed


lemma arcs_edge_map:
  assumes "graph_ok g" "IsValidNode g p" "IsValidNode g q"
  shows "(p, q) \<in> arcs g \<longleftrightarrow> (\<exists>i x y. edge_map g i = Some (n_id (node_at g p), x, n_id (node_at g q), y))"
proof
  assume "(p, q) \<in> arcs g"
  then obtain e where e: "IsLiveEdge g e" "e_src (edge_at g e) = Some p" "e_dst (edge_at g e) = Some q" by (auto simp: arcs_def)
  moreover from e(1) have "e_id (edge_at g e) = int (nat (e_id (edge_at g e)))" by (simp add: IsLiveEdge_def Let_def)
  ultimately show "\<exists>i x y. edge_map g i = Some (n_id (node_at g p), x, n_id (node_at g q), y)"
    using edge_map_live [OF assms(1)] by metis
next
  assume "\<exists>i x y. edge_map g i = Some (n_id (node_at g p), x, n_id (node_at g q), y)"
  then obtain e s d where e: "IsLiveEdge g e" "e_src (edge_at g e) = Some s" "e_dst (edge_at g e) = Some d"
    "n_id (node_at g s) = n_id (node_at g p)" "n_id (node_at g d) = n_id (node_at g q)"
    unfolding edge_map_live [OF assms(1)] by metis
  then have "s = p" "d = q" using valid_id_inj live_ends [OF assms(1) e(1)] assms(2,3) by blast+
  then show "(p, q) \<in> arcs g" using e by (auto simp: arcs_def)
qed

lemma demo_arcs:
  assumes ok: "graph_ok g" and p: "IsValidNode g p" "n_id (node_at g p) = 2"
    and e: "edge_map g = [0 \<mapsto> (0, -1, 1, -1), 1 \<mapsto> (0, -1, 2, -1), 2 \<mapsto> (2, -1, 1, -1)]"
  obtains s q where "source_node g = Some s" "n_id (node_at g s) = 0" "n_id (node_at g q) = 1" "arcs g = {(s, q), (s, p), (p, q)}"
proof -
  obtain s q where s: "source_node g = Some s" "sink_node g = Some q" "IsValidNode g s" "IsValidNode g q"
    "n_id (node_at g s) = 0" "n_id (node_at g q) = 1" by (rule source_sink_valid [OF ok])
  have m: "(\<exists>i x y. edge_map g i = Some (a, x, b, y)) \<longleftrightarrow> (a, b) = (0, 1) \<or> (a, b) = (0, 2) \<or> (a, b) = (2, 1)" for a b
  proof
    assume "\<exists>i x y. edge_map g i = Some (a, x, b, y)"
    then show "(a, b) = (0, 1) \<or> (a, b) = (0, 2) \<or> (a, b) = (2, 1)" unfolding e by (auto split: if_splits)
  next
    have "edge_map g 0 = Some (0, -1, 1, -1)" "edge_map g 1 = Some (0, -1, 2, -1)" "edge_map g 2 = Some (2, -1, 1, -1)"
      by (simp_all add: e)
    moreover assume "(a, b) = (0, 1) \<or> (a, b) = (0, 2) \<or> (a, b) = (2, 1)"
    ultimately show "\<exists>i x y. edge_map g i = Some (a, x, b, y)" by blast
  qed
  have "(u, v) \<in> arcs g \<longleftrightarrow> (u, v) \<in> {(s, q), (s, p), (p, q)}" for u v
  proof (cases "IsValidNode g u \<and> IsValidNode g v")
    case True
    have "(u, v) \<in> arcs g \<longleftrightarrow> (n_id (node_at g u), n_id (node_at g v)) \<in> {(0, 1), (0, 2), (2, 1)}"
      using arcs_edge_map [OF ok] True m by simp
    moreover have "n_id (node_at g w) = 0 \<longleftrightarrow> w = s" "n_id (node_at g w) = 1 \<longleftrightarrow> w = q" "n_id (node_at g w) = 2 \<longleftrightarrow> w = p"
      if "IsValidNode g w" for w
      using valid_id_inj [OF that s(3)] valid_id_inj [OF that s(4)] valid_id_inj [OF that p(1)] s(5,6) p(2) by auto
    ultimately show ?thesis using True by simp
  qed (use s(3,4) p(1) arcs_valid [OF ok] in blast)
  then have "arcs g = {(s, q), (s, p), (p, q)}" by (auto simp: set_eq_iff)
  then show thesis using that s by blast
qed

theorem reverse_post_order_topological_witness:
  "\<exists>g order. graph_reachable demo_registry g \<and> GetReversePostOrder g = Some order \<and>
    map (\<lambda>p. n_id (node_at g p)) order = [0, 2, 1]"
proof -
  obtain g p where g: "graph_reachable demo_registry g" "IsValidNode g p" "IsOp (node_at g p)" "n_id (node_at g p) = 2"
    "edge_map g = [0 \<mapsto> (0, -1, 1, -1), 1 \<mapsto> (0, -1, 2, -1), 2 \<mapsto> (2, -1, 1, -1)]"
    using demo_graph by blast
  have ok: "graph_ok g" by (rule graph_reachable_ok [OF demo_registry_ok g(1)])
  obtain s q where s: "source_node g = Some s" "n_id (node_at g s) = 0" "n_id (node_at g q) = 1"
    "arcs g = {(s, q), (s, p), (p, q)}" by (rule demo_arcs [OF ok g(2,4,5)])
  have ne: "s \<noteq> p" "s \<noteq> q" "p \<noteq> q" using s g(4) by auto
  have "arcs g \<subseteq> measure (\<lambda>x. if x = q then 2 else if x = p then 1 else 0) " using ne by (auto simp: s(4))
  then have ac: "acyclic (arcs g)" using wf_acyclic wf_measure acyclic_subset by metis
  obtain order where o: "GetReversePostOrder g = Some order" "distinct order" "set order = (arcs g)\<^sup>* `` {s}"
    "\<And>i j. i < length order \<Longrightarrow> j < length order \<Longrightarrow> (order ! i, order ! j) \<in> arcs g \<Longrightarrow> i < j"
    using reverse_post_order_topological [OF demo_registry_ok g(1) ac s(1)] by blast
  have "(arcs g)\<^sup>* `` {s} = {s, p, q}"
  proof
    have "v = s \<or> v = p \<or> v = q" if "(s, v) \<in> (arcs g)\<^sup>*" for v
      using that by (induction rule: rtrancl_induct) (auto simp: s(4))
    then show "(arcs g)\<^sup>* `` {s} \<subseteq> {s, p, q}" by blast
    show "{s, p, q} \<subseteq> (arcs g)\<^sup>* `` {s}" using r_into_rtrancl [of _ "arcs g"] by (auto simp: s(4))
  qed
  then have set: "set order = {s, p, q}" using o(3) by simp
  then have len: "length order = 3" using distinct_card [OF o(2)] ne by simp
  then obtain a b c where abc: "order = [a, b, c]" by (auto simp: length_Suc_conv eval_nat_numeral)
  have "order = [s, p, q]"
proof -
    have abc_in: "a \<in> {s, p, q}" "b \<in> {s, p, q}" "c \<in> {s, p, q}" using set abc by auto
    have d: "a \<noteq> b" "a \<noteq> c" "b \<noteq> c" using o(2) abc by auto
    have no: "(b, a) \<notin> arcs g" "(c, a) \<notin> arcs g" "(c, b) \<notin> arcs g"
      using o(4) [of 1 0] o(4) [of 2 0] o(4) [of 2 1] by (auto simp: abc)
    have "b \<noteq> s" "c \<noteq> s" "b \<noteq> q" using no abc_in d ne unfolding s(4) by auto
    then show ?thesis using abc abc_in d by auto
  qed
  then show ?thesis using g o(1) s by auto
qed


section \<open>Source and sink edges\<close>

text \<open>Only control edges from the source or to the sink are added.\<close>

definition extended :: "graph \<Rightarrow> graph \<Rightarrow> bool" where
  "extended g g' \<longleftrightarrow> node_map g' = node_map g \<and> edge_map g \<subseteq>\<^sub>m edge_map g' \<and>
     (\<forall>i a x b y. edge_map g i = None \<longrightarrow> edge_map g' i = Some (a, x, b, y) \<longrightarrow>
        x = kControlSlot \<and> y = kControlSlot \<and> (a = 0 \<or> b = 1))"

definition has_in :: "graph \<Rightarrow> int \<Rightarrow> bool" where
  "has_in g b \<longleftrightarrow> (\<exists>i a x y. edge_map g i = Some (a, x, b, y))"

definition has_out :: "graph \<Rightarrow> int \<Rightarrow> bool" where
  "has_out g a \<longleftrightarrow> (\<exists>i x b y. edge_map g i = Some (a, x, b, y))"

lemma extended_refl: "extended g g"
  by (simp add: extended_def)

lemma extended_trans:
  assumes "extended g h" "extended h k"
  shows "extended g k"
proof -
  have m: "edge_map g \<subseteq>\<^sub>m edge_map k" using assms map_le_trans by (auto simp: extended_def)
  have "x = kControlSlot \<and> y = kControlSlot \<and> (a = 0 \<or> b = 1)"
    if i: "edge_map g i = None" "edge_map k i = Some (a, x, b, y)" for i a x b y
  proof (cases "edge_map h i")
    case None
    then show ?thesis using assms(2) i(2) by (auto simp: extended_def)
  next
    case (Some t)
    moreover from this have "i \<in> dom (edge_map h)" by blast
    ultimately have "edge_map k i = Some t" using assms(2) by (simp add: extended_def map_le_def)
    then have "edge_map h i = Some (a, x, b, y)" using i(2) Some by simp
    then show ?thesis using assms(1) i(1) unfolding extended_def by blast
  qed
  then show ?thesis using assms m by (simp add: extended_def)
qed

lemma extended_has:
  assumes "extended g h"
  shows "has_in g b \<Longrightarrow> has_in h b" "has_out g a \<Longrightarrow> has_out h a"
  using assms by (auto simp: extended_def has_in_def has_out_def map_le_def dom_def) metis+

lemma es_empty_has:
  assumes "graph_ok g" "IsValidNode g p"
  shows "es_empty (n_in (node_at g p)) \<longleftrightarrow> \<not> has_in g (n_id (node_at g p))"
    "es_empty (n_out (node_at g p)) \<longleftrightarrow> \<not> has_out g (n_id (node_at g p))"
proof -
  have n: "es_ok (n_in (node_at g p))" "es_ok (n_out (node_at g p))"
    "e \<in> set (es_elems (n_in (node_at g p))) \<longleftrightarrow> IsLiveEdge g e \<and> e_dst (edge_at g e) = Some p"
    "e \<in> set (es_elems (n_out (node_at g p))) \<longleftrightarrow> IsLiveEdge g e \<and> e_src (edge_at g e) = Some p" for e
    using assms by (auto simp: graph_ok_def nodes_ok_def)
  have l: "\<exists>i. e_id (edge_at g e) = int i" "\<exists>s. e_src (edge_at g e) = Some s \<and> IsValidNode g s"
    "\<exists>d. e_dst (edge_at g e) = Some d \<and> IsValidNode g d" if "IsLiveEdge g e" for e
    using that assms(1) by (auto simp: IsLiveEdge_def Let_def graph_ok_def edges_ok_def intro: exI [of _ "nat (e_id (edge_at g e))"])
  have d: "d = p" if "IsLiveEdge g e" "e_src (edge_at g e) = Some d \<or> e_dst (edge_at g e) = Some d"
    "n_id (node_at g d) = n_id (node_at g p)" for e d
    using that valid_id_inj [OF _ assms(2)] live_ends [OF assms(1) that(1)] by blast
  have "has_in g (n_id (node_at g p)) \<longleftrightarrow> (\<exists>e. IsLiveEdge g e \<and> e_dst (edge_at g e) = Some p)"
    unfolding has_in_def edge_map_live [OF assms(1)] using l d by blast
  then show "es_empty (n_in (node_at g p)) \<longleftrightarrow> \<not> has_in g (n_id (node_at g p))"
    using n(3) by (simp add: es_empty_elems [OF n(1)]) (metis last_in_set list.set(1) empty_iff)
  have "has_out g (n_id (node_at g p)) \<longleftrightarrow> (\<exists>e. IsLiveEdge g e \<and> e_src (edge_at g e) = Some p)"
    unfolding has_out_def edge_map_live [OF assms(1)] using l d by blast
  then show "es_empty (n_out (node_at g p)) \<longleftrightarrow> \<not> has_out g (n_id (node_at g p))"
    using n(4) by (simp add: es_empty_elems [OF n(2)]) (metis last_in_set list.set(1) empty_iff)
qed

lemma AddControlEdge_ok:
  assumes g: "graph_ok g" and v: "IsValidNode g s" "IsValidNode g d" and f: "\<not> IsLiveEdge g (fresh g)"
    and ends: "n_id (node_at g s) = 0 \<or> n_id (node_at g d) = 1"
  obtains e g' where "AddControlEdge (fresh g) s d g = Some (e, g')" "graph_ok g'" "extended g g'" "edge_map g' \<noteq> edge_map g"
    "has_out g' (n_id (node_at g s))" "has_in g' (n_id (node_at g d))" "\<And>p. IsValidNode g' p = IsValidNode g p"
    "g_nodes g' = g_nodes g" "\<And>p. n_id (node_at g' p) = n_id (node_at g p)"
proof -
  obtain e g' where A: "AddEdge (fresh g) s (-1) d (-1) g = Some (e, g')" "graph_ok g'" "node_map g' = node_map g"
    "edge_map g' = (edge_map g)(length (g_edges g) \<mapsto> (n_id (node_at g s), -1, n_id (node_at g d), -1))"
    "\<And>p. IsValidNode g' p = IsValidNode g p" "g_nodes g' = g_nodes g" "\<And>p. n_id (node_at g' p) = n_id (node_at g p)"
    using AddEdge_ok [OF g v, of "-1" "-1" "fresh g"] f by auto
  have none: "edge_map g (length (g_edges g)) = None" by (simp add: edge_map_def)
  have "edge_map g' (length (g_edges g)) = Some (n_id (node_at g s), -1, n_id (node_at g d), -1)" by (simp add: A(4))
  then have "edge_map g' \<noteq> edge_map g" "has_out g' (n_id (node_at g s))" "has_in g' (n_id (node_at g d))"
    unfolding has_out_def has_in_def using none by (metis option.distinct(1), blast, blast)
  moreover have "extended g g'" using ends none by (auto simp: extended_def A(3,4) map_le_def kControlSlot_def)
  ultimately show thesis using that A by (simp add: AddControlEdge_def kControlSlot_def)
qed

text \<open>One step of the loop, for a node that may need an edge.\<close>

lemma fixup_step:
  assumes g: "graph_ok g" and v: "IsValidNode g s" "IsValidNode g d" and f: "\<And>g. \<not> IsLiveEdge g (fresh g)"
    and ends: "n_id (node_at g s) = 0 \<or> n_id (node_at g d) = 1"
  obtains g' where "(if c then do { (_, g) \<leftarrow> AddControlEdge (fresh g) s d g; Some (True, g) } else Some (b, g)) = Some (b \<or> c, g')"
    "graph_ok g'" "extended g g'" "c \<longleftrightarrow> edge_map g' \<noteq> edge_map g"
    "c \<longrightarrow> has_out g' (n_id (node_at g s))" "c \<longrightarrow> has_in g' (n_id (node_at g d))" "\<forall>p. IsValidNode g' p = IsValidNode g p"
    "g_nodes g' = g_nodes g" "\<forall>p. n_id (node_at g' p) = n_id (node_at g p)"
proof (cases c)
  case True
  obtain e g' where "AddControlEdge (fresh g) s d g = Some (e, g')" "graph_ok g'" "extended g g'" "edge_map g' \<noteq> edge_map g"
    "has_out g' (n_id (node_at g s))" "has_in g' (n_id (node_at g d))" "\<And>p. IsValidNode g' p = IsValidNode g p"
    "g_nodes g' = g_nodes g" "\<And>p. n_id (node_at g' p) = n_id (node_at g p)"
    using AddControlEdge_ok [where fresh = fresh, OF g v f ends] by blast
  then show thesis using that [of g'] True by simp
next
  case False
  then show thesis using that [of g] g extended_refl by simp
qed

lemma fixup_loop_ok:
  assumes "graph_ok g" "\<And>n. n \<in> set ns \<Longrightarrow> IsValidNode g n" and f: "\<And>g. \<not> IsLiveEdge g (fresh g)"
  shows "\<exists>g'. fixup_loop fresh ns b g = Some (b \<or> edge_map g' \<noteq> edge_map g, g') \<and> graph_ok g' \<and> extended g g' \<and>
    (\<forall>n \<in> set ns. (n_id (node_at g n) = 0 \<or> has_in g' (n_id (node_at g n))) \<and>
      (n_id (node_at g n) = 1 \<or> has_out g' (n_id (node_at g n))))"
  using assms(1,2)
proof (induction ns arbitrary: b g)
  case Nil
  then show ?case by (simp add: extended_refl)
next
  case (Cons n ns)
  have n: "IsValidNode g n" using Cons.prems(2) by simp
  obtain s where s: "source_node g = Some s" "IsValidNode g s" "n_id (node_at g s) = 0"
    using source_sink_valid [OF Cons.prems(1)] by metis
  let ?c = "\<not> IsSource (node_at g n) \<and> es_empty (n_in (node_at g n))"
  obtain h where h: "(if ?c then do { (_, g) \<leftarrow> AddControlEdge (fresh g) s n g; Some (True, g) } else Some (b, g)) = Some (b \<or> ?c, h)"
    "graph_ok h" "extended g h" "?c \<longleftrightarrow> edge_map h \<noteq> edge_map g"
    "?c \<longrightarrow> has_out h (n_id (node_at g s))" "?c \<longrightarrow> has_in h (n_id (node_at g n))" "\<forall>p. IsValidNode h p = IsValidNode g p" "g_nodes h = g_nodes g" "\<forall>p. n_id (node_at h p) = n_id (node_at g p)"
    by (rule fixup_step [where b = b and c = ?c and fresh = fresh, OF Cons.prems(1) s(2) n f disjI1 [OF s(3)]])
  obtain t where t: "sink_node h = Some t" "IsValidNode h t" "n_id (node_at h t) = 1"
    using source_sink_valid [OF h(2)] by metis
  have nh: "IsValidNode h n" using n h(7) by simp
  let ?d = "\<not> IsSink (node_at h n) \<and> es_empty (n_out (node_at h n))"
  obtain k where k: "(if ?d then do { (_, g) \<leftarrow> AddControlEdge (fresh h) n t h; Some (True, g) } else Some (b \<or> ?c, h)) = Some ((b \<or> ?c) \<or> ?d, k)"
    "graph_ok k" "extended h k" "?d \<longleftrightarrow> edge_map k \<noteq> edge_map h"
    "?d \<longrightarrow> has_out k (n_id (node_at h n))" "?d \<longrightarrow> has_in k (n_id (node_at h t))" "\<forall>p. IsValidNode k p = IsValidNode h p"
    "g_nodes k = g_nodes h" "\<forall>p. n_id (node_at k p) = n_id (node_at h p)"
    by (rule fixup_step [where b = "b \<or> ?c" and c = ?d and fresh = fresh, OF h(2) nh t(2) f disjI2 [OF t(3)]])
  have "fixup_loop fresh (n # ns) b g = fixup_loop fresh ns ((b \<or> ?c) \<or> ?d) k"
    by (simp only: fixup_loop.simps s(1) t(1) Option.bind.simps h(1) k(1) prod.case)
  moreover obtain g' where g': "fixup_loop fresh ns ((b \<or> ?c) \<or> ?d) k = Some (((b \<or> ?c) \<or> ?d) \<or> edge_map g' \<noteq> edge_map k, g')"
    "graph_ok g'" "extended k g'" "\<forall>n \<in> set ns. (n_id (node_at k n) = 0 \<or> has_in g' (n_id (node_at k n))) \<and>
      (n_id (node_at k n) = 1 \<or> has_out g' (n_id (node_at k n)))"
    using Cons.IH [OF k(2), of "(b \<or> ?c) \<or> ?d"] Cons.prems(2) h(7) k(7) by auto
  moreover have gk: "extended g k" by (rule extended_trans [OF h(3) k(3)])
  moreover have e: "extended g g'" by (rule extended_trans [OF gk g'(3)])
  moreover have "(((b \<or> ?c) \<or> ?d) \<or> edge_map g' \<noteq> edge_map k) \<longleftrightarrow> b \<or> edge_map g' \<noteq> edge_map g"
  proof -
    have a: "edge_map g \<subseteq>\<^sub>m edge_map h" "edge_map h \<subseteq>\<^sub>m edge_map k" "edge_map k \<subseteq>\<^sub>m edge_map g'"
      using h(3) k(3) g'(3) by (simp_all add: extended_def)
    show ?thesis unfolding h(4) k(4) using a map_le_antisym map_le_trans by metis
  qed
  moreover have "n_id (node_at g n) = 0 \<or> has_in g' (n_id (node_at g n))"
  proof (cases ?c)
    case True
    then show ?thesis using extended_has(1) [OF g'(3)] extended_has(1) [OF k(3)] h(6) by blast
  next
    case False
    then show ?thesis using es_empty_has(1) [OF Cons.prems(1) n] extended_has(1) [OF e] by (auto simp: IsSource_def)
  qed
  moreover have "n_id (node_at g n) = 1 \<or> has_out g' (n_id (node_at g n))"
  proof (cases ?d)
    case True
    then show ?thesis using extended_has(2) [OF g'(3)] k(5) h(9) by simp
  next
    case False
    then show ?thesis using es_empty_has(2) [OF h(2) nh] extended_has(2) [OF g'(3)] extended_has(2) [OF k(3)] h(9)
      by (auto simp: IsSink_def)
  qed
  ultimately show ?case using h(9) k(9) by (intro exI [of _ g']) auto
qed



end
