(* ===== verification/TF_Executor.thy ===== *)
theory TF_Executor
  imports TF_PendingCounts TF_Graph TF_Strings TF_Hash
begin

text \<open>
  \<^verbatim>\<open>common_runtime/executor.cc\<close>: the dataflow executor. \<open>Initialize\<close> builds the immutable view
  of a graph; an execution is a step function over the shared state (frames, iterations, pending
  counts, the outstanding-op counter, the first error) and the threads that run \<open>Process\<close> or an
  asynchronous callback. Each step is one critical section, one atomic operation or one stretch of
  thread-local code; the environment chooses the order of the steps and the outcomes of the
  kernels. \<open>None\<close> is undefined behaviour: a null or dangling pointer, an index out of range or a
  failed \<^verbatim>\<open>CHECK\<close>. A node is named by its id. Step statistics, logging, allocator attributes,
  device contexts and the debugger callback are left out.
\<close>

section \<open>Tensors, entries and kernels\<close>

record tensor =
  t_dtype :: nat
  t_initialized :: bool
  t_data :: bytes

definition kEmptyTensor :: tensor where
  "kEmptyTensor = \<lparr>t_dtype = 1, t_initialized = True, t_data = []\<rparr>"

definition kDataTypeRefOffset :: nat where "kDataTypeRefOffset = 100"

definition IsRefType :: "nat \<Rightarrow> bool" where "IsRefType dtype \<longleftrightarrow> dtype > kDataTypeRefOffset"

definition MakeRefType :: "nat \<Rightarrow> nat" where "MakeRefType dtype = dtype + kDataTypeRefOffset"

text \<open>\<open>en_val\<close> is set when \<open>val_field_is_set\<close>; \<open>en_ref\<close> is the address of a variable's tensor.\<close>

record entry =
  en_val :: "tensor option"
  en_ref :: "nat option"
  en_has_value :: bool

definition Entry :: entry where
  "Entry = \<lparr>en_val = None, en_ref = None, en_has_value = False\<rparr>"

definition ClearVal :: "entry \<Rightarrow> entry" where
  "ClearVal en = (if en_val en \<noteq> None then en\<lparr>en_val := None, en_has_value := False\<rparr> else en)"

text \<open>What a move leaves behind: the flags, and a tensor with no buffer.\<close>

definition moved_from :: "entry \<Rightarrow> entry" where
  "moved_from en = en\<lparr>en_val := map_option (\<lambda>t. t\<lparr>t_data := []\<rparr>) (en_val en)\<rparr>"

text \<open>What a kernel gets for an input (no tensor for a missing one), and what it leaves when it returns.\<close>

record tensor_value =
  tv_tensor :: "tensor option"
  tv_ref :: "nat option"

record outcome =
  oc_status :: status
  oc_is_output_dead :: bool
  oc_outputs :: "tensor_value list"

record kernel =
  IsExpensive :: bool
  IsAsync :: bool

section \<open>The graph view\<close>

record edge_info =
  dst_id :: nat
  output_slot :: int
  is_last :: bool
  input_slot :: int

record node_item =
  ni_node :: node
  kernel_is_expensive :: bool
  kernel_is_async :: bool
  is_merge :: bool
  is_enter :: bool
  is_exit :: bool
  is_control_trigger :: bool
  is_sink :: bool
  is_enter_exit_or_next_iter :: bool
  item_num_inputs :: nat
  item_num_outputs :: nat
  input_start :: nat
  output_edges :: "edge_info list"
  input_types :: "nat list"
  output_types :: "nat list"
  pending_id :: pc_handle

type_synonym graph_view = "node_item option list"

text \<open>The last edge of a slot takes the tensor, the others copy it.\<close>

fun last_indices :: "edge_info list \<Rightarrow> nat \<Rightarrow> nat option list \<Rightarrow> nat option list option" where
  "last_indices [] i inds = Some inds"
| "last_indices (e # es) i inds =
     (if 0 \<le> output_slot e
      then (if nat (output_slot e) < length inds
            then last_indices es (Suc i) (inds[nat (output_slot e) := Some i]) else None)
      else last_indices es (Suc i) inds)"

definition mark_last :: "nat option list \<Rightarrow> edge_info list \<Rightarrow> edge_info list" where
  "mark_last inds es = map (\<lambda>(i, e). if Some i \<in> set inds then e\<lparr>is_last := True\<rparr> else e) (zip [0..<length es] es)"

definition edge_info_of :: "graph \<Rightarrow> edge \<Rightarrow> edge_info option" where
  "edge_info_of g e = do {
     d \<leftarrow> e_dst e;
     if e_src_output e > 0x3FFFFFFF then None
     else Some \<lparr>dst_id = nat (n_id (node_at g d)), output_slot = e_src_output e, is_last = False, input_slot = e_dst_input e\<rparr>
   }"

text \<open>The fields \<open>Initialize\<close> sets later hold their defaults.\<close>

definition InitializeNode :: "graph \<Rightarrow> nat \<Rightarrow> node_item option" where
  "InitializeNode g p = do {
     let n = node_at g p;
     props \<leftarrow> n_props n;
     es \<leftarrow> those (map (edge_info_of g) (out_edges g p));
     inds \<leftarrow> last_indices es 0 (replicate (num_outputs n) None);
     Some \<lparr>ni_node = n, kernel_is_expensive = False, kernel_is_async = False, is_merge = False, is_enter = False,
       is_exit = False, is_control_trigger = False, is_sink = False, is_enter_exit_or_next_iter = False,
       item_num_inputs = num_inputs n, item_num_outputs = num_outputs n, input_start = 0,
       output_edges = mark_last inds es, input_types = np_input_types props, output_types = np_output_types props,
       pending_id = \<lparr>byte_offset = 0, is_large = False\<rparr>\<rparr>
   }"

fun gview_loop :: "graph \<Rightarrow> nat list \<Rightarrow> graph_view \<Rightarrow> graph_view option" where
  "gview_loop g [] gv = Some gv"
| "gview_loop g (p # ps) gv = do {
     let id = nat (n_id (node_at g p));
     item \<leftarrow> InitializeNode g p;
     if id < length gv \<and> gv ! id = None then gview_loop g ps (gv[id := Some item]) else None
   }"

definition GraphView_Initialize :: "graph \<Rightarrow> graph_view option" where
  "GraphView_Initialize g = gview_loop g (nodes g) (replicate (length (g_nodes g)) None)"

definition item_at :: "graph_view \<Rightarrow> nat \<Rightarrow> node_item option" where
  "item_at gv i = (if i < length gv then gv ! i else None)"

definition GetMaxPendingCounts :: "graph \<Rightarrow> nat \<Rightarrow> nat \<times> nat" where
  "GetMaxPendingCounts g p =
     (let num_in_edges = es_size (n_in (node_at g p));
          num_control_edges = length (filter IsControlEdge (in_edges g p));
          initial_count = (if IsMerge (node_at g p) then 1 + 2 * num_control_edges else num_in_edges)
      in (initial_count, num_in_edges))"

section \<open>Building an executor\<close>

text \<open>
  What the executor is given: the kernel factory, the op registry (which prints nodes), the printer
  of data types, the attribute \<open>allows_uninitialized_input\<close> of an op definition, the printer of an
  attribute of another type, the bytes of fresh memory, the byte order, and the options of the run.
\<close>

record exec_params =
  create_kernel :: "node_def \<Rightarrow> status \<times> kernel option"
  ops_registry :: op_registry
  DataTypeString :: "nat \<Rightarrow> string"
  allows_uninitialized_input :: "nat \<Rightarrow> bool"
  AttrTypeString :: "bytes \<Rightarrow> string"
  heap_junk :: "nat \<Rightarrow> byte"
  host_little_endian :: bool
  sync_on_finish :: bool
  device_Sync :: status

definition quoted :: "string \<Rightarrow> string" where "quoted s = [CHR 0x27] @ s @ [CHR 0x27]"

fun AttrTypeName :: "exec_params \<Rightarrow> AttrValue \<Rightarrow> string" where
  "AttrTypeName P (AttrS _) = ''string''"
| "AttrTypeName P (AttrI _) = ''int''"
| "AttrTypeName P (AttrB _) = ''bool''"
| "AttrTypeName P (AttrOther b) = AttrTypeString P b"

definition AttrMissing :: "exec_params \<Rightarrow> node_def \<Rightarrow> string \<Rightarrow> status" where
  "AttrMissing P nd name =
     (let s = Error NOT_FOUND (''No attr named '' @ quoted name @ '' in NodeDef:'')
      in if take 1 name = ''_'' then s else AttachDef (ops_registry P) s nd)"

definition AttrWrongType :: "exec_params \<Rightarrow> AttrValue \<Rightarrow> string \<Rightarrow> status" where
  "AttrWrongType P v type =
     Error INVALID_ARGUMENT (''AttrValue had value with type '' @ quoted (AttrTypeName P v) @ '' when '' @ quoted type @ '' expected'')"

definition GetNodeAttr_string :: "exec_params \<Rightarrow> node_def \<Rightarrow> string \<Rightarrow> status + string" where
  "GetNodeAttr_string P nd name =
     (case nd_attr nd name of
        None \<Rightarrow> Inl (AttrMissing P nd name)
      | Some (AttrS v) \<Rightarrow> Inr v
      | Some v \<Rightarrow> Inl (AttrWrongType P v ''string''))"

definition GetNodeAttr_bool :: "exec_params \<Rightarrow> node_def \<Rightarrow> string \<Rightarrow> status + bool" where
  "GetNodeAttr_bool P nd name =
     (case nd_attr nd name of
        None \<Rightarrow> Inl (AttrMissing P nd name)
      | Some (AttrB v) \<Rightarrow> Inr v
      | Some v \<Rightarrow> Inl (AttrWrongType P v ''bool''))"

definition GetNodeAttr_int32 :: "exec_params \<Rightarrow> node_def \<Rightarrow> string \<Rightarrow> status + int" where
  "GetNodeAttr_int32 P nd name =
     (case nd_attr nd name of
        None \<Rightarrow> Inl (AttrMissing P nd name)
      | Some (AttrI v) \<Rightarrow>
          if v < - (2 ^ 31) \<or> 2 ^ 31 \<le> v
          then Inl (Error INVALID_ARGUMENT (''Attr '' @ name @ '' has value '' @ FastInt64ToBufferLeft (word_of_int v) @
            '' out of range for an int32''))
          else Inr v
      | Some v \<Rightarrow> Inl (AttrWrongType P v ''int''))"

record control_flow_info =
  unique_frame_names :: "string list"
  frame_names :: "string list"

record frame_info =
  input_count :: int
  total_inputs :: nat
  pending_counts_layout :: int
  fi_pending_counts :: "bytes option"
  fi_nodes :: "nat list option"

record executor_impl =
  ei_graph :: graph
  gview :: graph_view
  root_nodes :: "nat list"
  frame_infos :: "string \<Rightarrow> frame_info option"

text \<open>The breadth-first search over the out edges; a parent is the \<open>Enter\<close> node of a frame.\<close>

definition visit_out ::
  "graph \<Rightarrow> string \<Rightarrow> nat option \<Rightarrow> nat list \<times> bool list \<times> nat option list \<times> control_flow_info \<Rightarrow> nat \<Rightarrow>
   nat list \<times> bool list \<times> nat option list \<times> control_flow_info" where
  "visit_out g frame_name parent st out =
     (case st of (ready, visited, parent_nodes, cf) \<Rightarrow>
        let out_id = nat (n_id (node_at g out))
        in if visited ! out_id then (ready, visited, parent_nodes, cf)
           else (ready @ [out], visited[out_id := True], parent_nodes[out_id := parent],
             cf\<lparr>frame_names := (frame_names cf)[out_id := frame_name],
                unique_frame_names := List.insert frame_name (unique_frame_names cf)\<rparr>))"

partial_function (option) cf_loop ::
  "exec_params \<Rightarrow> graph \<Rightarrow> nat list \<times> bool list \<times> nat option list \<times> control_flow_info \<Rightarrow> (status \<times> control_flow_info) option" where
  [code]: "cf_loop P g st =
     (case st of
        ([], visited, parent_nodes, cf) \<Rightarrow> Some (OK, cf)
      | (p # ready, visited, parent_nodes, cf) \<Rightarrow> do {
          let n = node_at g p;
          let curr_id = nat (n_id n);
          fp \<leftarrow> (if IsEnter n
                  then do {
                    props \<leftarrow> n_props n;
                    (case GetNodeAttr_string P (np_node_def props) ''frame_name'' of
                       Inl s \<Rightarrow> Some (Inl s)
                     | Inr frame_name \<Rightarrow> Some (Inr (frame_name, Some p)))
                  }
                  else if IsExit n
                  then do {
                    parent \<leftarrow> parent_nodes ! curr_id;
                    let parent_id = nat (n_id (node_at g parent));
                    Some (Inr (frame_names cf ! parent_id, parent_nodes ! parent_id))
                  }
                  else Some (Inr (frame_names cf ! curr_id, parent_nodes ! curr_id)));
          (case fp of
             Inl s \<Rightarrow> Some (s, cf)
           | Inr (frame_name, parent) \<Rightarrow>
               cf_loop P g (foldl (visit_out g frame_name parent) (ready, visited, parent_nodes, cf) (out_nodes g p)))
        })"

definition BuildControlFlowInfo :: "exec_params \<Rightarrow> graph \<Rightarrow> (status \<times> control_flow_info) option" where
  "BuildControlFlowInfo P g =
     (let num_nodes = length (g_nodes g);
          ready = filter (\<lambda>p. es_empty (n_in (node_at g p))) (nodes g);
          visited = fold (\<lambda>p v. v[nat (n_id (node_at g p)) := True]) ready (replicate num_nodes False)
      in cf_loop P g (ready, visited, replicate num_nodes None,
           \<lparr>unique_frame_names = (if ready = [] then [] else [[]]), frame_names = replicate num_nodes []\<rparr>))"

definition EnsureFrameInfo :: "string \<Rightarrow> (string \<Rightarrow> frame_info option) \<Rightarrow> string \<Rightarrow> frame_info option" where
  "EnsureFrameInfo fname m =
     (case m fname of
        Some _ \<Rightarrow> m
      | None \<Rightarrow> m(fname \<mapsto> \<lparr>input_count = 0, total_inputs = 0, pending_counts_layout = 0, fi_pending_counts = None, fi_nodes = None\<rparr>))"

text \<open>One round of the loop over the nodes.\<close>

definition init_node :: "exec_params \<Rightarrow> control_flow_info \<Rightarrow> nat \<Rightarrow> executor_impl \<Rightarrow> (status \<times> executor_impl) option" where
  "init_node P cf p impl = do {
     let g = ei_graph impl;
     let n = node_at g p;
     let id = nat (n_id n);
     let frame_name = frame_names cf ! id;
     let fis = EnsureFrameInfo frame_name (frame_infos impl);
     fi \<leftarrow> fis frame_name;
     let impl = impl\<lparr>frame_infos := fis, root_nodes := (if es_empty (n_in n) then root_nodes impl @ [id] else root_nodes impl)\<rparr>;
     item \<leftarrow> item_at (gview impl) id;
     props \<leftarrow> n_props n;
     let item = item\<lparr>ni_node := n, input_start := total_inputs fi\<rparr>;
     let fi = fi\<lparr>total_inputs := total_inputs fi + num_inputs n\<rparr>;
     let (s, k) = create_kernel P (np_node_def props);
     if \<not> status_ok s
     then Some (AttachDef (ops_registry P) s (np_node_def props),
       impl\<lparr>gview := (gview impl)[id := Some item], frame_infos := (frame_infos impl)(frame_name \<mapsto> fi)\<rparr>)
     else do {
       k \<leftarrow> k;
       let (max_pending, max_dead) = GetMaxPendingCounts g p;
       let (h, layout) = CreateHandle max_pending max_dead (pending_counts_layout fi);
       let item = item\<lparr>kernel_is_expensive := IsExpensive k, kernel_is_async := IsAsync k, is_merge := IsMerge n, is_enter := IsEnter n,
         is_exit := IsExit n, is_control_trigger := IsControlTrigger n, is_sink := IsSink n,
         is_enter_exit_or_next_iter := (IsEnter n \<or> IsExit n \<or> IsNextIteration n), pending_id := h\<rparr>;
       fi_ns \<leftarrow> fi_nodes fi;
       let fi = fi\<lparr>pending_counts_layout := layout, fi_nodes := Some (fi_ns @ [id])\<rparr>;
       let impl = impl\<lparr>gview := (gview impl)[id := Some item], frame_infos := (frame_infos impl)(frame_name \<mapsto> fi)\<rparr>;
       if IsEnter n
       then (case GetNodeAttr_string P (np_node_def props) ''frame_name'' of
           Inl s \<Rightarrow> Some (s, impl)
         | Inr enter_name \<Rightarrow> do {
             let fis = EnsureFrameInfo enter_name (frame_infos impl);
             fi \<leftarrow> fis enter_name;
             Some (OK, impl\<lparr>frame_infos := fis(enter_name \<mapsto> fi\<lparr>input_count := input_count fi + 1\<rparr>)\<rparr>)
           })
       else Some (OK, impl)
     }
   }"

fun init_nodes :: "exec_params \<Rightarrow> control_flow_info \<Rightarrow> nat list \<Rightarrow> executor_impl \<Rightarrow> (status \<times> executor_impl) option" where
  "init_nodes P cf [] impl = Some (OK, impl)"
| "init_nodes P cf (p # ps) impl = do {
     (s, impl) \<leftarrow> init_node P cf p impl;
     if status_ok s then init_nodes P cf ps impl else Some (s, impl)
   }"

definition init_frame_counts :: "exec_params \<Rightarrow> string \<Rightarrow> (string \<Rightarrow> frame_info option) \<Rightarrow> string \<Rightarrow> frame_info option" where
  "init_frame_counts P fname fis =
     (let fis = EnsureFrameInfo fname fis
      in fis(fname := map_option (\<lambda>fi. fi\<lparr>fi_pending_counts := Some (PendingCounts (heap_junk P) (pending_counts_layout fi))\<rparr>) (fis fname)))"

fun init_counts :: "graph \<Rightarrow> graph_view \<Rightarrow> control_flow_info \<Rightarrow> nat list \<Rightarrow> (string \<Rightarrow> frame_info option) \<Rightarrow>
    (string \<Rightarrow> frame_info option) option" where
  "init_counts g gv cf [] fis = Some fis"
| "init_counts g gv cf (p # ps) fis = do {
     let id = nat (n_id (node_at g p));
     let name = frame_names cf ! id;
     let (max_pending, max_dead) = GetMaxPendingCounts g p;
     item \<leftarrow> item_at gv id;
     let fis = EnsureFrameInfo name fis;
     fi \<leftarrow> fis name;
     m \<leftarrow> fi_pending_counts fi;
     m \<leftarrow> set_initial_count (pending_id item) max_pending m;
     init_counts g gv cf ps (fis(name \<mapsto> fi\<lparr>fi_pending_counts := Some m\<rparr>))
   }"

definition InitializePending :: "exec_params \<Rightarrow> control_flow_info \<Rightarrow> executor_impl \<Rightarrow> executor_impl option" where
  "InitializePending P cf impl = do {
     fis \<leftarrow> init_counts (ei_graph impl) (gview impl) cf (nodes (ei_graph impl))
              (fold (init_frame_counts P) (unique_frame_names cf) (frame_infos impl));
     Some (impl\<lparr>frame_infos := fis\<rparr>)
   }"

definition init_frame_nodes :: "string \<Rightarrow> (string \<Rightarrow> frame_info option) \<Rightarrow> string \<Rightarrow> frame_info option" where
  "init_frame_nodes fname fis =
     (let fis = EnsureFrameInfo fname fis
      in fis(fname := map_option (\<lambda>fi. fi\<lparr>fi_nodes := Some []\<rparr>) (fis fname)))"

definition ExecutorImpl_Initialize :: "exec_params \<Rightarrow> graph \<Rightarrow> (status \<times> executor_impl) option" where
  "ExecutorImpl_Initialize P g = do {
     gv \<leftarrow> GraphView_Initialize g;
     let impl = \<lparr>ei_graph = g, gview = gv, root_nodes = [], frame_infos = (\<lambda>_. None)\<rparr>;
     (s, cf) \<leftarrow> BuildControlFlowInfo P g;
     if \<not> status_ok s then Some (s, impl)
     else do {
       (s, impl) \<leftarrow> init_nodes P cf (nodes g) (impl\<lparr>frame_infos := fold init_frame_nodes (unique_frame_names cf) (frame_infos impl)\<rparr>);
       if \<not> status_ok s then Some (s, impl)
       else do { impl \<leftarrow> InitializePending P cf impl; Some (OK, impl) }
     }
   }"

section \<open>Iterations and frames\<close>

text \<open>\<open>size_t\<close> counters wrap.\<close>

definition inc_size :: "nat \<Rightarrow> nat" where "inc_size n = (n + 1) mod 2 ^ 64"
definition dec_size :: "nat \<Rightarrow> nat" where "dec_size n = (if n = 0 then 2 ^ 64 - 1 else n - 1)"

record iteration_state =
  input_tensors :: "entry list"
  outstanding_ops :: nat
  outstanding_frame_count :: int
  it_counts :: bytes

definition IterationState :: "bytes \<Rightarrow> nat \<Rightarrow> iteration_state" where
  "IterationState pending_counts total_input_tensors =
     \<lparr>input_tensors = replicate total_input_tensors Entry, outstanding_ops = 0, outstanding_frame_count = 0,
      it_counts = pending_counts\<rparr>"

record frame_state =
  frame_name :: string
  frame_id :: uint64
  parent_iter :: int
  parent_frame :: "nat option"
  max_parallel_iterations :: int
  num_pending_inputs :: int
  iteration_count :: int
  num_outstanding_iterations :: int
  iterations :: "iteration_state option list"
  next_iter_roots :: "(nat \<times> entry) list"
  inv_values :: "(nat \<times> entry) list"
  dead_exits :: "nat list"
  fs_pending_counts :: "bytes option"
  total_input_tensors :: nat

record tagged_node =
  tn_node :: nat
  tn_frame :: nat
  tn_iter :: int
  tn_dead :: bool

definition InitializeFrameInfo :: "executor_impl \<Rightarrow> string \<Rightarrow> frame_state \<Rightarrow> frame_state option" where
  "InitializeFrameInfo impl enter_name fs = do {
     finfo \<leftarrow> frame_infos impl enter_name;
     Some (fs\<lparr>fs_pending_counts := fi_pending_counts finfo, total_input_tensors := total_inputs finfo,
              num_pending_inputs := input_count finfo\<rparr>)
   }"

text \<open>A null pointer is \<open>None\<close>; so is any access to a frame without iteration slots.\<close>

definition iter_index :: "frame_state \<Rightarrow> int \<Rightarrow> nat" where
  "iter_index fs i = nat i mod length (iterations fs)"

definition GetIteration :: "frame_state \<Rightarrow> int \<Rightarrow> iteration_state option" where
  "GetIteration fs i = (if iterations fs = [] then None else iterations fs ! iter_index fs i)"

definition SetIteration :: "int \<Rightarrow> iteration_state option \<Rightarrow> frame_state \<Rightarrow> frame_state" where
  "SetIteration i state fs = fs\<lparr>iterations := (iterations fs)[iter_index fs i := state]\<rparr>"

definition IsFrameDone :: "frame_state \<Rightarrow> bool" where
  "IsFrameDone fs \<longleftrightarrow> num_pending_inputs fs = 0 \<and> num_outstanding_iterations fs = 0"

definition IsIterationDone :: "frame_state \<Rightarrow> int \<Rightarrow> bool option" where
  "IsIterationDone fs i = do {
     iter_state \<leftarrow> GetIteration fs i;
     Some (outstanding_ops iter_state = 0 \<and> outstanding_frame_count iter_state = 0 \<and>
       (if i = 0 then num_pending_inputs fs = 0 else GetIteration fs (i - 1) = None))
   }"

section \<open>Activating nodes\<close>

definition slot_at :: "entry list \<Rightarrow> int \<Rightarrow> entry option" where
  "slot_at outputs i = (if 0 \<le> i \<and> i < int (length outputs) then Some (outputs ! nat i) else None)"

text \<open>
  What the arrival of one input does to the counts of the destination; the result is
  \<open>(dst_dead, dst_ready, dst_need_input, counts)\<close>. \<open>from_enter\<close> is whether the source is an \<open>Enter\<close> node.
\<close>

definition count_arrival ::
  "node_item \<Rightarrow> bool \<Rightarrow> bool \<Rightarrow> int \<Rightarrow> entry list \<Rightarrow> bytes \<Rightarrow> (bool \<times> bool \<times> bool \<times> bytes) option" where
  "count_arrival dst_item from_enter is_dead src_slot outputs m =
     (let h = pending_id dst_item;
          is_control_edge = (src_slot = kControlSlot)
      in if is_merge dst_item then
           if is_control_edge then do {
             (_, m) \<leftarrow> decrement_pending h 2 m;
             count \<leftarrow> pending h m;
             dead_cnt \<leftarrow> dead_count h m;
             let dst_dead = (dead_cnt = int (item_num_inputs dst_item));
             Some (dst_dead, count = 0 \<or> count = 1 \<and> dst_dead, False, m)
           }
           else do {
             out \<leftarrow> slot_at outputs src_slot;
             if en_has_value out then do {
               count \<leftarrow> pending h m;
               m \<leftarrow> mark_live h m;
               Some (False, count = 1, odd count, m)
             }
             else do {
               m \<leftarrow> increment_dead_count h m;
               dead_cnt \<leftarrow> dead_count h m;
               let dst_dead = (dead_cnt = int (item_num_inputs dst_item) \<or> from_enter);
               count \<leftarrow> pending h m;
               Some (dst_dead, count = 1 \<and> dst_dead, False, m)
             }
           }
         else do {
           increment_dead \<leftarrow> (if is_dead then Some True
             else if is_control_edge then Some False
             else map_option (\<lambda>out. \<not> en_has_value out) (slot_at outputs src_slot));
           ((pending, dead), m) \<leftarrow> adjust_for_activation h increment_dead m;
           Some (dead > 0, pending = 0, \<not> is_control_edge, m)
         })"

text \<open>One out edge: \<open>self\<close> is the address of the frame.\<close>

definition activate_edge ::
  "graph_view \<Rightarrow> nat \<Rightarrow> node_item \<Rightarrow> bool \<Rightarrow> int \<Rightarrow> edge_info \<Rightarrow> iteration_state \<times> entry list \<times> tagged_node list \<Rightarrow>
   (iteration_state \<times> entry list \<times> tagged_node list) option" where
  "activate_edge gv self item is_dead i e st =
     (case st of (iter_state, outputs, ready) \<Rightarrow> do {
        dst_item \<leftarrow> item_at gv (dst_id e);
        if is_sink dst_item then Some (iter_state, outputs, ready)
        else do {
          let src_slot = output_slot e;
          (dst_dead, dst_ready, dst_need_input, m) \<leftarrow>
            count_arrival dst_item (is_enter item) is_dead src_slot outputs (it_counts iter_state);
          let iter_state = iter_state\<lparr>it_counts := m\<rparr>;
          (iter_state, outputs) \<leftarrow>
            (if dst_need_input then do {
               out \<leftarrow> slot_at outputs src_slot;
               let dst_loc = int (input_start dst_item) + input_slot e;
               if 0 \<le> dst_loc \<and> dst_loc < int (length (input_tensors iter_state))
               then Some (iter_state\<lparr>input_tensors := (input_tensors iter_state)[nat dst_loc := out]\<rparr>,
                 if is_last e then outputs[nat src_slot := moved_from out] else outputs)
               else None
             }
             else Some (iter_state, outputs));
          if dst_ready
          then Some (iter_state\<lparr>outstanding_ops := inc_size (outstanding_ops iter_state)\<rparr>, outputs,
            ready @ [\<lparr>tn_node = dst_id e, tn_frame = self, tn_iter = i, tn_dead = (dst_dead \<and> \<not> is_control_trigger dst_item)\<rparr>])
          else Some (iter_state, outputs, ready)
        }
      })"

fun activate_edges ::
  "graph_view \<Rightarrow> nat \<Rightarrow> node_item \<Rightarrow> bool \<Rightarrow> int \<Rightarrow> edge_info list \<Rightarrow> iteration_state \<times> entry list \<times> tagged_node list \<Rightarrow>
   (iteration_state \<times> entry list \<times> tagged_node list) option" where
  "activate_edges gv self item is_dead i [] st = Some st"
| "activate_edges gv self item is_dead i (e # es) st = do {
     st \<leftarrow> activate_edge gv self item is_dead i e st;
     activate_edges gv self item is_dead i es st
   }"

definition ActivateNodes ::
  "graph_view \<Rightarrow> nat \<Rightarrow> node_item \<Rightarrow> bool \<Rightarrow> int \<Rightarrow> entry list \<Rightarrow> tagged_node list \<Rightarrow> frame_state \<Rightarrow>
   (tagged_node list \<times> frame_state) option" where
  "ActivateNodes gv self item is_dead i outputs ready fs = do {
     iter_state \<leftarrow> GetIteration fs i;
     (iter_state, _, ready) \<leftarrow> activate_edges gv self item is_dead i (output_edges item) (iter_state, outputs, ready);
     Some (ready, SetIteration i (Some iter_state) fs)
   }"

text \<open>The shared loop of \<open>ActivateNexts\<close> and \<open>ActivateLoopInvs\<close> over saved values.\<close>

fun activate_values ::
  "graph_view \<Rightarrow> nat \<Rightarrow> int \<Rightarrow> (nat \<times> entry) list \<Rightarrow> tagged_node list \<Rightarrow> frame_state \<Rightarrow> (tagged_node list \<times> frame_state) option" where
  "activate_values gv self i [] ready fs = Some (ready, fs)"
| "activate_values gv self i ((node, en) # vs) ready fs = do {
     item \<leftarrow> item_at gv node;
     (ready, fs) \<leftarrow> ActivateNodes gv self item (\<not> en_has_value en) i [en] ready fs;
     activate_values gv self i vs ready fs
   }"

definition ActivateNexts :: "graph_view \<Rightarrow> nat \<Rightarrow> int \<Rightarrow> tagged_node list \<Rightarrow> frame_state \<Rightarrow> (tagged_node list \<times> frame_state) option" where
  "ActivateNexts gv self i ready fs = do {
     (ready, fs) \<leftarrow> activate_values gv self i (next_iter_roots fs) ready fs;
     Some (ready, fs\<lparr>next_iter_roots := []\<rparr>)
   }"

definition ActivateLoopInvs :: "graph_view \<Rightarrow> nat \<Rightarrow> int \<Rightarrow> tagged_node list \<Rightarrow> frame_state \<Rightarrow> (tagged_node list \<times> frame_state) option" where
  "ActivateLoopInvs gv self i ready fs = activate_values gv self i (inv_values fs) ready fs"

fun activate_iterations ::
  "graph_view \<Rightarrow> nat \<Rightarrow> node_item \<Rightarrow> entry \<Rightarrow> int list \<Rightarrow> tagged_node list \<Rightarrow> frame_state \<Rightarrow> (tagged_node list \<times> frame_state) option" where
  "activate_iterations gv self item en [] ready fs = Some (ready, fs)"
| "activate_iterations gv self item en (i # is) ready fs = do {
     (ready, fs) \<leftarrow> ActivateNodes gv self item (\<not> en_has_value en) i [en] ready fs;
     activate_iterations gv self item en is ready fs
   }"

definition AddLoopInv ::
  "graph_view \<Rightarrow> nat \<Rightarrow> nat \<Rightarrow> node_item \<Rightarrow> entry \<Rightarrow> tagged_node list \<Rightarrow> frame_state \<Rightarrow> (tagged_node list \<times> frame_state) option" where
  "AddLoopInv gv self node item en ready fs =
     activate_iterations gv self item en [0..iteration_count fs] ready (fs\<lparr>inv_values := inv_values fs @ [(node, en)]\<rparr>)"

section \<open>Iterations start and end\<close>

definition IncrementIteration :: "graph_view \<Rightarrow> nat \<Rightarrow> tagged_node list \<Rightarrow> frame_state \<Rightarrow> (tagged_node list \<times> frame_state) option" where
  "IncrementIteration gv self ready fs = do {
     let fs = fs\<lparr>iteration_count := iteration_count fs + 1\<rparr>;
     let next_iter = iteration_count fs;
     pending_counts \<leftarrow> fs_pending_counts fs;
     let fs = SetIteration next_iter (Some (IterationState pending_counts (total_input_tensors fs))) fs;
     let fs = fs\<lparr>num_outstanding_iterations := num_outstanding_iterations fs + 1, dead_exits := []\<rparr>;
     (ready, fs) \<leftarrow> ActivateNexts gv self next_iter ready fs;
     ActivateLoopInvs gv self next_iter ready fs
   }"

partial_function (option) CleanupIterations ::
  "graph_view \<Rightarrow> nat \<Rightarrow> int \<Rightarrow> tagged_node list \<Rightarrow> frame_state \<Rightarrow> (bool \<times> tagged_node list \<times> frame_state) option" where
  [code]: "CleanupIterations gv self curr_iter ready fs =
     (if curr_iter \<le> iteration_count fs
      then do {
        d \<leftarrow> IsIterationDone fs curr_iter;
        if d then do {
          let fs = SetIteration curr_iter None fs;
          let fs = fs\<lparr>num_outstanding_iterations := num_outstanding_iterations fs - 1\<rparr>;
          (ready, fs) \<leftarrow> (if next_iter_roots fs \<noteq> [] then IncrementIteration gv self ready fs else Some (ready, fs));
          CleanupIterations gv self (curr_iter + 1) ready fs
        }
        else Some (IsFrameDone fs, ready, fs)
      }
      else Some (IsFrameDone fs, ready, fs))"

definition DecrementOutstandingOpsLocked ::
  "graph_view \<Rightarrow> nat \<Rightarrow> int \<Rightarrow> tagged_node list \<Rightarrow> frame_state \<Rightarrow> (bool \<times> tagged_node list \<times> frame_state) option" where
  "DecrementOutstandingOpsLocked gv self i ready fs = do {
     istate \<leftarrow> GetIteration fs i;
     let istate = istate\<lparr>outstanding_ops := dec_size (outstanding_ops istate)\<rparr>;
     let fs = SetIteration i (Some istate) fs;
     if outstanding_ops istate \<noteq> 0 then Some (False, ready, fs)
     else CleanupIterations gv self i ready fs
   }"

section \<open>Inputs and outputs of a kernel\<close>

text \<open>
  \<open>mem\<close> is the contents of the variables when the inputs are read. The result has the status, the
  inputs prepared so far, whether an input is dead, and the entries as they are left.
\<close>

definition UninitializedInput :: "exec_params \<Rightarrow> node_def \<Rightarrow> nat \<Rightarrow> status" where
  "UninitializedInput P nd i =
     AttachDef (ops_registry P) (Error FAILED_PRECONDITION
       (''Attempting to use uninitialized value '' @ (if i < length (nd_input nd) then nd_input nd ! i else []))) nd"

definition prepare_input ::
  "exec_params \<Rightarrow> node_item \<Rightarrow> node_props \<Rightarrow> (nat \<Rightarrow> tensor) \<Rightarrow> nat \<Rightarrow> entry \<Rightarrow> status + tensor_value \<times> bool \<times> entry" where
  "prepare_input P item props mem i en =
     (let expect_ref = IsRefType (input_types item ! i)
      in if \<not> en_has_value en
         then (if is_merge item then Inr (\<lparr>tv_tensor = None, tv_ref = None\<rparr>, False, en)
               else Inr (\<lparr>tv_tensor = Some kEmptyTensor, tv_ref = None\<rparr>, True,
                      en\<lparr>en_has_value := True, en_val := Some kEmptyTensor\<rparr>))
         else (case en_ref en of
             None \<Rightarrow>
               if expect_ref
               then Inl (AttachDef (ops_registry P)
                 (Error INVALID_ARGUMENT (FastInt64ToBufferLeft (word_of_nat i) @ ''-th input expects a ref type'')) (np_node_def props))
               else Inr (\<lparr>tv_tensor = en_val en, tv_ref = None\<rparr>, False, en)
           | Some a \<Rightarrow>
               if \<not> t_initialized (mem a) \<and> \<not> allows_uninitialized_input P (np_op_def props)
               then Inl (UninitializedInput P (np_node_def props) i)
               else if expect_ref then Inr (\<lparr>tv_tensor = Some (mem a), tv_ref = Some a\<rparr>, False, en)
               else Inr (\<lparr>tv_tensor = Some (mem a), tv_ref = None\<rparr>, False, en\<lparr>en_val := Some (mem a), en_ref := None\<rparr>)))"

fun prepare_loop ::
  "exec_params \<Rightarrow> node_item \<Rightarrow> node_props \<Rightarrow> (nat \<Rightarrow> tensor) \<Rightarrow> nat \<Rightarrow> entry list \<Rightarrow> status \<times> tensor_value list \<times> bool \<times> entry list" where
  "prepare_loop P item props mem i [] = (OK, [], False, [])"
| "prepare_loop P item props mem i (en # ens) =
     (case prepare_input P item props mem i en of
        Inl s \<Rightarrow> (s, [], False, en # ens)
      | Inr (inp, dead, en) \<Rightarrow>
          (case prepare_loop P item props mem (Suc i) ens of
             (s, inps, deads, ens) \<Rightarrow> (s, inp # inps, dead \<or> deads, en # ens)))"

text \<open>The inputs of a node are \<open>item_num_inputs\<close> entries of the iteration, from \<open>input_start\<close>.\<close>

definition first_input :: "node_item \<Rightarrow> iteration_state \<Rightarrow> entry list option" where
  "first_input item iter_state =
     (if input_start item + item_num_inputs item \<le> length (input_tensors iter_state)
      then Some (take (item_num_inputs item) (drop (input_start item) (input_tensors iter_state))) else None)"

definition write_inputs :: "node_item \<Rightarrow> entry list \<Rightarrow> iteration_state \<Rightarrow> iteration_state" where
  "write_inputs item ens iter_state =
     iter_state\<lparr>input_tensors := take (input_start item) (input_tensors iter_state) @ ens @
       drop (input_start item + item_num_inputs item) (input_tensors iter_state)\<rparr>"

definition PrepareInputs ::
  "exec_params \<Rightarrow> node_item \<Rightarrow> (nat \<Rightarrow> tensor) \<Rightarrow> iteration_state \<Rightarrow> (status \<times> tensor_value list \<times> bool \<times> iteration_state) option" where
  "PrepareInputs P item mem iter_state = do {
     props \<leftarrow> n_props (ni_node item);
     ens \<leftarrow> first_input item iter_state;
     let (s, inputs, is_input_dead, ens) = prepare_loop P item props mem 0 ens;
     Some (s, inputs, is_input_dead, write_inputs item ens iter_state)
   }"

definition ClearInputs :: "node_item \<Rightarrow> iteration_state \<Rightarrow> iteration_state option" where
  "ClearInputs item iter_state = do {
     ens \<leftarrow> first_input item iter_state;
     Some (write_inputs item (map ClearVal ens) iter_state)
   }"

text \<open>\<open>mem\<close> is the contents of the variables when the kernel has returned.\<close>

definition process_output ::
  "exec_params \<Rightarrow> node_item \<Rightarrow> node_props \<Rightarrow> (nat \<Rightarrow> tensor) \<Rightarrow> bool \<Rightarrow> nat \<Rightarrow> tensor_value \<Rightarrow> status \<times> entry" where
  "process_output P item props mem is_output_dead i v =
     (case tv_tensor v of
        Some t \<Rightarrow>
          if is_output_dead
          then (if \<not> IsSwitch (ni_node item) \<and> \<not> IsRecv (ni_node item)
                then Error INTERNAL (''Missing '' @ FastInt64ToBufferLeft (word_of_nat i) @ ''-th output from '' @
                  SummarizeNodeDef (ops_registry P) (np_node_def props)) else OK, Entry)
          else
            let dtype = (case tv_ref v of Some a \<Rightarrow> MakeRefType (t_dtype (mem a)) | None \<Rightarrow> t_dtype t)
            in if dtype = output_types item ! i
               then (OK, (case tv_ref v of
                   Some a \<Rightarrow> \<lparr>en_val = None, en_ref = Some a, en_has_value = True\<rparr>
                 | None \<Rightarrow> \<lparr>en_val = Some t, en_ref = None, en_has_value = True\<rparr>))
               else (Error INTERNAL (''Output '' @ FastInt64ToBufferLeft (word_of_nat i) @ '' of type '' @ DataTypeString P dtype @
                   '' does not match declared output type '' @ DataTypeString P (output_types item ! i) @
                   '' for node '' @ SummarizeNodeDef (ops_registry P) (np_node_def props)), Entry)
      | None \<Rightarrow>
          (if \<not> IsSwitch (ni_node item) \<and> \<not> IsRecv (ni_node item)
           then Error INTERNAL (''Missing '' @ FastInt64ToBufferLeft (word_of_nat i) @ ''-th output from '' @
             SummarizeNodeDef (ops_registry P) (np_node_def props)) else OK, Entry))"

definition ProcessOutputs ::
  "exec_params \<Rightarrow> node_item \<Rightarrow> (nat \<Rightarrow> tensor) \<Rightarrow> outcome \<Rightarrow> (status \<times> entry list) option" where
  "ProcessOutputs P item mem oc = do {
     props \<leftarrow> n_props (ni_node item);
     if \<not> status_ok (oc_status oc)
     then Some (AttachDef (ops_registry P) (oc_status oc) (np_node_def props), replicate (item_num_outputs item) Entry)
     else if length (oc_outputs oc) \<noteq> item_num_outputs item then None
     else
       let rs = map (\<lambda>(i, v). process_output P item props mem (oc_is_output_dead oc) i v)
                  (zip [0..<item_num_outputs item] (oc_outputs oc))
       in Some (foldl Status_Update OK (map fst rs), map snd rs)
   }"

section \<open>The ready queue of a thread\<close>

text \<open>A vector with the index of its front element; the space before it is reclaimed late.\<close>

record ready_queue =
  rq_ready :: "tagged_node list"
  front_index :: nat

definition TaggedNodeReadyQueue :: ready_queue where
  "TaggedNodeReadyQueue = \<lparr>rq_ready = [], front_index = 0\<rparr>"

definition rq_push_back :: "tagged_node \<Rightarrow> ready_queue \<Rightarrow> ready_queue" where
  "rq_push_back t q = q\<lparr>rq_ready := rq_ready q @ [t]\<rparr>"

definition rq_empty :: "ready_queue \<Rightarrow> bool" where
  "rq_empty q \<longleftrightarrow> rq_ready q = []"

definition rq_front :: "ready_queue \<Rightarrow> tagged_node option" where
  "rq_front q = (if front_index q < length (rq_ready q) then Some (rq_ready q ! front_index q) else None)"

definition rq_pop_front :: "ready_queue \<Rightarrow> ready_queue" where
  "rq_pop_front q =
     (let q = q\<lparr>front_index := front_index q + 1\<rparr>
      in if front_index q = length (rq_ready q) \<or> front_index q > 16384
         then (if front_index q = length (rq_ready q) then q\<lparr>rq_ready := [], front_index := 0\<rparr>
               else q\<lparr>rq_ready := drop (front_index q) (rq_ready q), front_index := 0\<rparr>)
         else q)"

definition rq_list :: "ready_queue \<Rightarrow> tagged_node list" where
  "rq_list q = drop (front_index q) (rq_ready q)"

section \<open>The state of an execution\<close>

text \<open>
  Where a thread stands. \<open>At_Compute\<close> is inside a synchronous kernel; the states from \<open>At_Propagate\<close>
  to \<open>At_Cleanup\<close> are inside \<open>PropagateOutputs\<close>, those from \<open>At_NodeDone\<close> to \<open>At_Schedule\<close> inside
  \<open>NodeDone\<close>.
\<close>

datatype pc =
    At_Loop
  | At_Compute tagged_node "tensor_value list" bool
  | At_Propagate tagged_node "entry list"
  | At_Enter tagged_node "entry list" nat
  | At_Decrement tagged_node
  | At_Delete nat
  | At_Erase nat "nat option" int
  | At_Cleanup nat int
  | At_NodeDone
  | At_Count
  | At_Schedule
  | At_Finish

text \<open>The thread-local variables; \<open>th_async\<close> is set in the callback of an asynchronous kernel.\<close>

record thread =
  th_pc :: pc
  th_async :: bool
  th_inline_ready :: ready_queue
  th_ready :: "tagged_node list"
  th_s :: status
  th_completed :: bool

record async_state =
  as_node :: tagged_node
  as_inputs :: "tensor_value list"

text \<open>
  The execution: the heap of frames and the executor's own fields; what the runner was given and has
  not started; the threads; the asynchronous kernels; the calls of \<open>StartAbort\<close>, and of the done callback.
\<close>

record exec_state =
  frames :: "frame_state option list"
  outstanding_frames :: "string \<Rightarrow> nat option"
  x_status :: status
  num_outstanding_ops :: int
  x_alive :: bool
  done_cb :: bool
  runner_queue :: "tagged_node list"
  threads :: "thread option list"
  asyncs :: "async_state option list"
  x_aborts :: "status list"
  done_calls :: "status list"

section \<open>Frames are created and deleted\<close>

definition frame_at :: "exec_state \<Rightarrow> nat \<Rightarrow> frame_state option" where
  "frame_at st f = (if f < length (frames st) then frames st ! f else None)"

definition put_frame :: "nat \<Rightarrow> frame_state \<Rightarrow> exec_state \<Rightarrow> exec_state" where
  "put_frame f fs st = st\<lparr>frames := (frames st)[f := Some fs]\<rparr>"

definition MakeFrameName :: "frame_state \<Rightarrow> int \<Rightarrow> string \<Rightarrow> string" where
  "MakeFrameName frame iter_id name =
     frame_name frame @ '';'' @ FastInt64ToBufferLeft (word_of_int iter_id) @ '';'' @ name"

definition FrameState :: "int \<Rightarrow> frame_state" where
  "FrameState parallel_iters =
     \<lparr>frame_name = [], frame_id = 0, parent_iter = -1, parent_frame = None, max_parallel_iterations = parallel_iters,
      num_pending_inputs = 0, iteration_count = 0, num_outstanding_iterations = 1, iterations = [], next_iter_roots = [],
      inv_values = [], dead_exits = [], fs_pending_counts = None, total_input_tensors = 0\<rparr>"

text \<open>A frame with \<open>n\<close> iteration slots, in its first iteration.\<close>

definition start_iterations :: "int \<Rightarrow> frame_state \<Rightarrow> frame_state option" where
  "start_iterations n fs = do {
     counts \<leftarrow> fs_pending_counts fs;
     if n < 1 then None
     else Some (fs\<lparr>iterations := (replicate (nat n) None)[0 := Some (IterationState counts (total_input_tensors fs))]\<rparr>)
   }"

definition FindOrCreateChildFrame ::
  "exec_params \<Rightarrow> executor_impl \<Rightarrow> nat \<Rightarrow> int \<Rightarrow> node \<Rightarrow> exec_state \<Rightarrow> (nat \<times> exec_state) option" where
  "FindOrCreateChildFrame P impl f i n st = do {
     frame \<leftarrow> frame_at st f;
     props \<leftarrow> n_props n;
     (case GetNodeAttr_string P (np_node_def props) ''frame_name'' of
        Inl _ \<Rightarrow> None
      | Inr enter_name \<Rightarrow>
          let child_name = MakeFrameName frame i enter_name
          in (case outstanding_frames st child_name of
               Some child \<Rightarrow> Some (child, st)
             | None \<Rightarrow>
                 (case GetNodeAttr_int32 P (np_node_def props) ''parallel_iterations'' of
                    Inl _ \<Rightarrow> None
                  | Inr parallel_iters \<Rightarrow> do {
                      hash \<leftarrow> Hash64_string (host_little_endian P) child_name;
                      temp \<leftarrow> InitializeFrameInfo impl enter_name
                        ((FrameState parallel_iters)\<lparr>frame_name := child_name, frame_id := hash, parent_frame := Some f, parent_iter := i\<rparr>);
                      temp \<leftarrow> start_iterations (parallel_iters + 1) temp;
                      iter_state \<leftarrow> GetIteration frame i;
                      let frame = SetIteration i (Some (iter_state\<lparr>outstanding_frame_count := outstanding_frame_count iter_state + 1\<rparr>)) frame;
                      let child = length (frames st);
                      let st = put_frame f frame st;
                      Some (child, st\<lparr>frames := frames st @ [Some temp],
                        outstanding_frames := (outstanding_frames st)(child_name \<mapsto> child)\<rparr>)
                    })))
   }"

text \<open>The out edges of a dead exit, in the parent frame.\<close>

definition dead_exit_edge ::
  "graph \<Rightarrow> graph_view \<Rightarrow> nat \<Rightarrow> int \<Rightarrow> edge \<Rightarrow> iteration_state \<times> tagged_node list \<Rightarrow> (iteration_state \<times> tagged_node list) option" where
  "dead_exit_edge g gv parent i e st =
     (case st of (iter_state, ready) \<Rightarrow> do {
        d \<leftarrow> e_dst e;
        let dst_node = node_at g d;
        let dst_id = nat (n_id dst_node);
        dst_item \<leftarrow> item_at gv dst_id;
        let h = pending_id dst_item;
        if IsSink dst_node then Some (iter_state, ready)
        else do {
          (dst_dead, dst_ready, m) \<leftarrow>
            (if IsMerge dst_node then
               if IsControlEdge e then do {
                 (_, m) \<leftarrow> decrement_pending h 2 (it_counts iter_state);
                 count \<leftarrow> pending h m;
                 dead_cnt \<leftarrow> dead_count h m;
                 let dst_dead = (dead_cnt = int (num_inputs dst_node));
                 Some (dst_dead, count = 0 \<or> count = 1 \<and> dst_dead, m)
               }
               else do {
                 m \<leftarrow> increment_dead_count h (it_counts iter_state);
                 dead_cnt \<leftarrow> dead_count h m;
                 let dst_dead = (dead_cnt = int (num_inputs dst_node));
                 count \<leftarrow> pending h m;
                 Some (dst_dead, count = 1 \<and> dst_dead, m)
               }
             else do {
               m \<leftarrow> increment_dead_count h (it_counts iter_state);
               (count, m) \<leftarrow> decrement_pending h 1 m;
               Some (True, count = 0, m)
             });
          let iter_state = iter_state\<lparr>it_counts := m\<rparr>;
          if dst_ready
          then Some (iter_state\<lparr>outstanding_ops := inc_size (outstanding_ops iter_state)\<rparr>,
            ready @ [\<lparr>tn_node = dst_id, tn_frame = parent, tn_iter = i, tn_dead = (dst_dead \<and> \<not> IsControlTrigger dst_node)\<rparr>])
          else Some (iter_state, ready)
        }
      })"

fun fold_option :: "('a \<Rightarrow> 's \<Rightarrow> 's option) \<Rightarrow> 'a list \<Rightarrow> 's \<Rightarrow> 's option" where
  "fold_option f [] s = Some s"
| "fold_option f (x # xs) s = do { s \<leftarrow> f x s; fold_option f xs s }"

definition dead_exit :: "executor_impl \<Rightarrow> nat \<Rightarrow> int \<Rightarrow> nat \<Rightarrow> frame_state \<times> tagged_node list \<Rightarrow> (frame_state \<times> tagged_node list) option" where
  "dead_exit impl parent i node st =
     (case st of (fs, ready) \<Rightarrow> do {
        let g = ei_graph impl;
        p \<leftarrow> (if node < length (g_nodes g) then g_nodes g ! node else None);
        iter_state \<leftarrow> GetIteration fs i;
        (iter_state, ready) \<leftarrow> fold_option (dead_exit_edge g (gview impl) parent i) (out_edges g p) (iter_state, ready);
        Some (SetIteration i (Some iter_state) fs, ready)
      })"

text \<open>The first critical section of \<open>DeleteFrame\<close>, and the second one.\<close>

definition DeleteFrame_exits :: "executor_impl \<Rightarrow> nat \<Rightarrow> tagged_node list \<Rightarrow> exec_state \<Rightarrow> (tagged_node list \<times> exec_state) option" where
  "DeleteFrame_exits impl f ready st = do {
     fs \<leftarrow> frame_at st f;
     (case parent_frame fs of
        None \<Rightarrow> Some (ready, st)
      | Some parent \<Rightarrow> do {
          ps \<leftarrow> frame_at st parent;
          (ps, ready) \<leftarrow> fold_option (dead_exit impl parent (parent_iter fs)) (dead_exits fs) (ps, ready);
          Some (ready, put_frame parent ps st)
        })
   }"

definition DeleteFrame_erase :: "nat \<Rightarrow> exec_state \<Rightarrow> exec_state option" where
  "DeleteFrame_erase f st = do {
     fs \<leftarrow> frame_at st f;
     Some (st\<lparr>outstanding_frames := (outstanding_frames st)(frame_name fs := None), frames := (frames st)[f := None]\<rparr>)
   }"

section \<open>Scheduling\<close>

fun schedule_loop ::
  "graph_view \<Rightarrow> tagged_node list \<Rightarrow> ready_queue \<Rightarrow> tagged_node option \<Rightarrow> tagged_node list \<Rightarrow>
   (ready_queue \<times> tagged_node option \<times> tagged_node list) option" where
  "schedule_loop gv [] inline curr_expensive_node run = Some (inline, curr_expensive_node, run)"
| "schedule_loop gv (t # ts) inline curr_expensive_node run = do {
     item \<leftarrow> item_at gv (tn_node t);
     if tn_dead t \<or> \<not> kernel_is_expensive item
     then schedule_loop gv ts (rq_push_back t inline) curr_expensive_node run
     else schedule_loop gv ts inline (Some t) (case curr_expensive_node of Some c \<Rightarrow> run @ [c] | None \<Rightarrow> run)
   }"

text \<open>\<open>inline\<close> is \<open>None\<close> for a null \<open>inline_ready\<close>; the second result is what the runner is given.\<close>

definition ScheduleReady ::
  "graph_view \<Rightarrow> tagged_node list \<Rightarrow> ready_queue option \<Rightarrow> (ready_queue option \<times> tagged_node list) option" where
  "ScheduleReady gv ready inline =
     (if ready = [] then Some (inline, [])
      else (case inline of
          None \<Rightarrow> Some (None, ready)
        | Some q \<Rightarrow> do {
            (q, curr_expensive_node, run) \<leftarrow> schedule_loop gv ready q None [];
            (case curr_expensive_node of
               None \<Rightarrow> Some (Some q, run)
             | Some c \<Rightarrow> if rq_empty q then Some (Some (rq_push_back c q), run) else Some (Some q, run @ [c]))
          }))"

section \<open>Steps\<close>

text \<open>What the environment chooses: which closure, thread or kernel goes on, and what a kernel returned.\<close>

datatype label =
    Start nat
  | Begin nat "nat \<Rightarrow> tensor"
  | Returned nat "nat \<Rightarrow> tensor" outcome
  | AsyncDone nat "nat \<Rightarrow> tensor" outcome
  | Go nat

text \<open>What can be seen of a step from outside; the outputs of a failed node are not propagated.\<close>

datatype event =
    Began tagged_node
  | Ran tagged_node "tensor_value list"
  | Skipped tagged_node
  | Failed tagged_node status
  | Propagated tagged_node "entry list"
  | DoneCalled status

definition thread_at :: "exec_state \<Rightarrow> nat \<Rightarrow> thread option" where
  "thread_at st t = (if t < length (threads st) then threads st ! t else None)"

definition put_thread :: "nat \<Rightarrow> thread option \<Rightarrow> exec_state \<Rightarrow> exec_state" where
  "put_thread t th st = st\<lparr>threads := (threads st)[t := th]\<rparr>"

definition Process :: "tagged_node \<Rightarrow> thread" where
  "Process tagged_node =
     \<lparr>th_pc = At_Loop, th_async = False, th_inline_ready = rq_push_back tagged_node TaggedNodeReadyQueue, th_ready = [],
      th_s = OK, th_completed = False\<rparr>"

definition step_start :: "nat \<Rightarrow> exec_state \<Rightarrow> (event list \<times> exec_state) option" where
  "step_start i st =
     (if i < length (runner_queue st)
      then Some ([], st\<lparr>runner_queue := take i (runner_queue st) @ drop (Suc i) (runner_queue st),
             threads := threads st @ [Some (Process (runner_queue st ! i))]\<rparr>)
      else None)"

text \<open>Writes back the iteration of a tagged node.\<close>

definition put_iteration :: "tagged_node \<Rightarrow> iteration_state \<Rightarrow> exec_state \<Rightarrow> exec_state option" where
  "put_iteration tn it st = do {
     fs \<leftarrow> frame_at st (tn_frame tn);
     Some (put_frame (tn_frame tn) (SetIteration (tn_iter tn) (Some it) fs) st)
   }"

definition iteration_of :: "tagged_node \<Rightarrow> exec_state \<Rightarrow> iteration_state option" where
  "iteration_of tn st = do { fs \<leftarrow> frame_at st (tn_frame tn); GetIteration fs (tn_iter tn) }"

text \<open>From the head of the loop of \<open>Process\<close> to the call of the kernel.\<close>

definition step_begin ::
  "exec_params \<Rightarrow> executor_impl \<Rightarrow> nat \<Rightarrow> (nat \<Rightarrow> tensor) \<Rightarrow> exec_state \<Rightarrow> (event list \<times> exec_state) option" where
  "step_begin P impl t mem st = do {
     th \<leftarrow> thread_at st t;
     if th_pc th \<noteq> At_Loop \<or> \<not> x_alive st then None
     else do {
       tagged_node \<leftarrow> rq_front (th_inline_ready th);
       let th = th\<lparr>th_inline_ready := rq_pop_front (th_inline_ready th)\<rparr>;
       item \<leftarrow> item_at (gview impl) (tn_node tagged_node);
       it \<leftarrow> iteration_of tagged_node st;
       if tn_dead tagged_node \<and> \<not> IsTransferNode (ni_node item)
       then do {
         it \<leftarrow> ClearInputs item it;
         st \<leftarrow> put_iteration tagged_node it st;
         let outputs = replicate (item_num_outputs item) Entry;
         Some (if status_ok (th_s th)
           then ([Began tagged_node, Skipped tagged_node], put_thread t (Some (th\<lparr>th_pc := At_Propagate tagged_node outputs\<rparr>)) st)
           else ([Began tagged_node, Skipped tagged_node, Failed tagged_node (th_s th)], put_thread t (Some (th\<lparr>th_pc := At_NodeDone\<rparr>)) st))
       }
       else do {
         (s, inputs, is_input_dead, it) \<leftarrow> PrepareInputs P item mem it;
         if \<not> status_ok s
         then do {
           it \<leftarrow> ClearInputs item it;
           st \<leftarrow> put_iteration tagged_node it st;
           Some ([Began tagged_node, Failed tagged_node s], put_thread t (Some (th\<lparr>th_s := s, th_pc := At_NodeDone\<rparr>)) st)
         }
         else do {
           st \<leftarrow> put_iteration tagged_node it st;
           if kernel_is_async item
           then Some ([Began tagged_node, Ran tagged_node inputs],
             put_thread t (Some (th\<lparr>th_s := s\<rparr>)) (st\<lparr>asyncs := asyncs st @ [Some \<lparr>as_node = tagged_node, as_inputs = inputs\<rparr>]\<rparr>))
           else Some ([Began tagged_node, Ran tagged_node inputs],
             put_thread t (Some (th\<lparr>th_s := s, th_pc := At_Compute tagged_node inputs is_input_dead\<rparr>)) st)
         }
       }
     }
   }"

text \<open>After the kernel: its outputs are taken and the inputs cleared.\<close>

definition finish_kernel ::
  "exec_params \<Rightarrow> executor_impl \<Rightarrow> tagged_node \<Rightarrow> (nat \<Rightarrow> tensor) \<Rightarrow> outcome \<Rightarrow> thread \<Rightarrow> exec_state \<Rightarrow>
   (event list \<times> thread \<times> exec_state) option" where
  "finish_kernel P impl tagged_node mem oc th st = do {
     item \<leftarrow> item_at (gview impl) (tn_node tagged_node);
     (s, outputs) \<leftarrow> ProcessOutputs P item mem oc;
     it \<leftarrow> iteration_of tagged_node st;
     it \<leftarrow> ClearInputs item it;
     st \<leftarrow> put_iteration tagged_node it st;
     Some (if status_ok s then ([], th\<lparr>th_s := s, th_pc := At_Propagate tagged_node outputs\<rparr>, st)
           else ([Failed tagged_node s], th\<lparr>th_s := s, th_pc := At_NodeDone\<rparr>, st))
   }"

definition step_returned ::
  "exec_params \<Rightarrow> executor_impl \<Rightarrow> nat \<Rightarrow> (nat \<Rightarrow> tensor) \<Rightarrow> outcome \<Rightarrow> exec_state \<Rightarrow> (event list \<times> exec_state) option" where
  "step_returned P impl t mem oc st = do {
     th \<leftarrow> thread_at st t;
     if \<not> x_alive st then None
     else (case th_pc th of
         At_Compute tagged_node inputs is_input_dead \<Rightarrow> do {
           (evs, th, st) \<leftarrow> finish_kernel P impl tagged_node mem oc th st;
           Some (evs, put_thread t (Some th) st)
         }
       | _ \<Rightarrow> None)
   }"

definition step_async_done ::
  "exec_params \<Rightarrow> executor_impl \<Rightarrow> nat \<Rightarrow> (nat \<Rightarrow> tensor) \<Rightarrow> outcome \<Rightarrow> exec_state \<Rightarrow> (event list \<times> exec_state) option" where
  "step_async_done P impl k mem oc st = do {
     a \<leftarrow> (if k < length (asyncs st) then asyncs st ! k else None);
     if \<not> x_alive st then None
     else do {
       (evs, th, st) \<leftarrow> finish_kernel P impl (as_node a) mem oc
         \<lparr>th_pc = At_NodeDone, th_async = True, th_inline_ready = TaggedNodeReadyQueue, th_ready = [], th_s = OK, th_completed = False\<rparr> st;
       Some (evs, st\<lparr>asyncs := (asyncs st)[k := None], threads := threads st @ [Some th]\<rparr>)
     }
   }"

text \<open>After the node's own frame is updated: the frame may be done.\<close>

definition after_decrement :: "nat \<Rightarrow> bool \<Rightarrow> tagged_node list \<Rightarrow> thread \<Rightarrow> thread" where
  "after_decrement f is_frame_done ready th =
     th\<lparr>th_ready := ready, th_pc := (if is_frame_done then At_Delete f else At_NodeDone)\<rparr>"

text \<open>\<open>PropagateOutputs\<close>, up to the end of its first critical section.\<close>

definition propagate ::
  "exec_params \<Rightarrow> executor_impl \<Rightarrow> tagged_node \<Rightarrow> entry list \<Rightarrow> thread \<Rightarrow> exec_state \<Rightarrow> (thread \<times> exec_state) option" where
  "propagate P impl tagged_node outputs th st = do {
     let gv = gview impl;
     let f = tn_frame tagged_node;
     let i = tn_iter tagged_node;
     item \<leftarrow> item_at gv (tn_node tagged_node);
     fs \<leftarrow> frame_at st f;
     if \<not> is_enter_exit_or_next_iter item
     then do {
       (ready, fs) \<leftarrow> ActivateNodes gv f item (tn_dead tagged_node) i outputs [] fs;
       (is_frame_done, ready, fs) \<leftarrow> DecrementOutstandingOpsLocked gv f i ready fs;
       Some (after_decrement f is_frame_done ready th, put_frame f fs st)
     }
     else if is_enter item
     then do {
       (child, st) \<leftarrow> FindOrCreateChildFrame P impl f i (ni_node item) st;
       Some (th\<lparr>th_ready := [], th_pc := At_Enter tagged_node outputs child\<rparr>, st)
     }
     else if is_exit item
     then
       if tn_dead tagged_node
       then do {
         let fs = (if i = iteration_count fs then fs\<lparr>dead_exits := dead_exits fs @ [tn_node tagged_node]\<rparr> else fs);
         (is_frame_done, ready, fs) \<leftarrow> DecrementOutstandingOpsLocked gv f i [] fs;
         Some (after_decrement f is_frame_done ready th, put_frame f fs st)
       }
       else do {
         output_frame \<leftarrow> parent_frame fs;
         ofs \<leftarrow> frame_at st output_frame;
         (ready, ofs) \<leftarrow> ActivateNodes gv output_frame item (tn_dead tagged_node) (parent_iter fs) outputs [] ofs;
         Some (th\<lparr>th_ready := ready, th_pc := At_Decrement tagged_node\<rparr>, put_frame output_frame ofs st)
       }
     else do {
       (ready, fs) \<leftarrow>
         (if tn_dead tagged_node then Some ([], fs)
          else if i = iteration_count fs \<and> num_outstanding_iterations fs = max_parallel_iterations fs
          then do {
            out \<leftarrow> slot_at outputs 0;
            Some ([], fs\<lparr>next_iter_roots := next_iter_roots fs @ [(tn_node tagged_node, out)]\<rparr>)
          }
          else do {
            (ready, fs) \<leftarrow> (if i = iteration_count fs then IncrementIteration gv f [] fs else Some ([], fs));
            ActivateNodes gv f item (tn_dead tagged_node) (i + 1) outputs ready fs
          });
       (is_frame_done, ready, fs) \<leftarrow> DecrementOutstandingOpsLocked gv f i ready fs;
       Some (after_decrement f is_frame_done ready th, put_frame f fs st)
     }
   }"

text \<open>The critical section of an \<open>Enter\<close> node in the child frame.\<close>

definition enter_child ::
  "exec_params \<Rightarrow> executor_impl \<Rightarrow> tagged_node \<Rightarrow> entry list \<Rightarrow> nat \<Rightarrow> thread \<Rightarrow> exec_state \<Rightarrow> (thread \<times> exec_state) option" where
  "enter_child P impl tagged_node outputs child th st = do {
     let gv = gview impl;
     item \<leftarrow> item_at gv (tn_node tagged_node);
     props \<leftarrow> n_props (ni_node item);
     fs \<leftarrow> frame_at st child;
     (case GetNodeAttr_bool P (np_node_def props) ''is_constant'' of
        Inl _ \<Rightarrow> None
      | Inr is_constant \<Rightarrow> do {
          (ready, fs) \<leftarrow>
            (if is_constant
             then do { out \<leftarrow> slot_at outputs 0; AddLoopInv gv child (tn_node tagged_node) item out (th_ready th) fs }
             else ActivateNodes gv child item (tn_dead tagged_node) 0 outputs (th_ready th) fs);
          let fs = fs\<lparr>num_pending_inputs := num_pending_inputs fs - 1\<rparr>;
          Some (th\<lparr>th_ready := ready, th_pc := At_Decrement tagged_node\<rparr>, put_frame child fs st)
        })
   }"

definition decrement_own :: "executor_impl \<Rightarrow> tagged_node \<Rightarrow> thread \<Rightarrow> exec_state \<Rightarrow> (thread \<times> exec_state) option" where
  "decrement_own impl tagged_node th st = do {
     fs \<leftarrow> frame_at st (tn_frame tagged_node);
     (is_frame_done, ready, fs) \<leftarrow>
       DecrementOutstandingOpsLocked (gview impl) (tn_frame tagged_node) (tn_iter tagged_node) (th_ready th) fs;
     Some (after_decrement (tn_frame tagged_node) is_frame_done ready th, put_frame (tn_frame tagged_node) fs st)
   }"

text \<open>One round of \<open>CleanupFramesIterations\<close>; a finished frame is deleted and its parent cleaned up in turn.\<close>

definition cleanup_frame :: "executor_impl \<Rightarrow> nat \<Rightarrow> int \<Rightarrow> thread \<Rightarrow> exec_state \<Rightarrow> (thread \<times> exec_state) option" where
  "cleanup_frame impl f i th st = do {
     fs \<leftarrow> frame_at st f;
     it \<leftarrow> GetIteration fs i;
     let fs = SetIteration i (Some (it\<lparr>outstanding_frame_count := outstanding_frame_count it - 1\<rparr>)) fs;
     (is_frame_done, ready, fs) \<leftarrow> CleanupIterations (gview impl) f i (th_ready th) fs;
     Some (after_decrement f is_frame_done ready th, put_frame f fs st)
   }"

text \<open>\<open>NodeDone\<close>: the first error, the count of outstanding ops, the scheduling of what became ready.\<close>

definition node_done_status :: "thread \<Rightarrow> exec_state \<Rightarrow> thread \<times> exec_state" where
  "node_done_status th st =
     (th\<lparr>th_pc := At_Count\<rparr>,
      if \<not> status_ok (th_s th) \<and> status_ok (x_status st)
      then st\<lparr>x_status := th_s th, x_aborts := x_aborts st @ [th_s th]\<rparr> else st)"

definition node_done_count :: "thread \<Rightarrow> exec_state \<Rightarrow> thread \<times> exec_state" where
  "node_done_count th st =
     (let ready_size = length (th_ready th)
      in if ready_size = 0 \<or> \<not> status_ok (th_s th)
         then (th\<lparr>th_completed := (num_outstanding_ops st = 1), th_pc := At_Schedule\<rparr>,
               st\<lparr>num_outstanding_ops := num_outstanding_ops st - 1\<rparr>)
         else (th\<lparr>th_completed := False, th_pc := At_Schedule\<rparr>,
               if ready_size > 1 then st\<lparr>num_outstanding_ops := num_outstanding_ops st + int (ready_size - 1)\<rparr> else st))"

definition node_done_schedule :: "executor_impl \<Rightarrow> thread \<Rightarrow> exec_state \<Rightarrow> (thread option \<times> exec_state) option" where
  "node_done_schedule impl th st = do {
     let ready = (if status_ok (th_s th) then th_ready th else []);
     (inline, run) \<leftarrow> ScheduleReady (gview impl) ready (if th_async th then None else Some (th_inline_ready th));
     let st = st\<lparr>runner_queue := runner_queue st @ run\<rparr>;
     Some (case inline of
         Some q \<Rightarrow> (Some (th\<lparr>th_inline_ready := q, th_pc := At_Loop\<rparr>), st)
       | None \<Rightarrow> (if th_completed th then Some (th\<lparr>th_pc := At_Finish\<rparr>) else None, st))
   }"

definition Finish :: "exec_params \<Rightarrow> exec_state \<Rightarrow> (status \<times> exec_state) option" where
  "Finish P st =
     (let s = (if sync_on_finish P \<and> status_ok (x_status st) then device_Sync P else x_status st)
      in if done_cb st
         then Some (s, st\<lparr>done_cb := False, x_alive := False, frames := map (\<lambda>_. None) (frames st),
                outstanding_frames := (\<lambda>_. None), done_calls := done_calls st @ [s]\<rparr>)
         else None)"

definition step_go :: "exec_params \<Rightarrow> executor_impl \<Rightarrow> nat \<Rightarrow> exec_state \<Rightarrow> (event list \<times> exec_state) option" where
  "step_go P impl t st = do {
     th \<leftarrow> thread_at st t;
     let continue = (\<lambda>evs r. map_option (\<lambda>(th, st). (evs, put_thread t (Some th) st)) r);
     (case th_pc th of
        At_Loop \<Rightarrow>
          if \<not> rq_empty (th_inline_ready th) then None
          else Some ([], put_thread t (if th_completed th then Some (th\<lparr>th_pc := At_Finish\<rparr>) else None) st)
      | At_Schedule \<Rightarrow>
          if th_ready th = [] \<or> \<not> status_ok (th_s th) \<or> x_alive st
          then map_option (\<lambda>(th, st). ([], put_thread t th st)) (node_done_schedule impl th st) else None
      | At_Compute _ _ _ \<Rightarrow> None
      | _ \<Rightarrow>
          if \<not> x_alive st then None
          else (case th_pc th of
              At_Propagate tagged_node outputs \<Rightarrow>
                continue [Propagated tagged_node outputs] (propagate P impl tagged_node outputs th st)
            | At_Enter tagged_node outputs child \<Rightarrow> continue [] (enter_child P impl tagged_node outputs child th st)
            | At_Decrement tagged_node \<Rightarrow> continue [] (decrement_own impl tagged_node th st)
            | At_Delete f \<Rightarrow> do {
                fs \<leftarrow> frame_at st f;
                (ready, st) \<leftarrow> DeleteFrame_exits impl f (th_ready th) st;
                continue [] (Some (th\<lparr>th_ready := ready, th_pc := At_Erase f (parent_frame fs) (parent_iter fs)\<rparr>, st))
              }
            | At_Erase f parent i \<Rightarrow> do {
                st \<leftarrow> DeleteFrame_erase f st;
                continue [] (Some (th\<lparr>th_pc := (case parent of Some p \<Rightarrow> At_Cleanup p i | None \<Rightarrow> At_NodeDone)\<rparr>, st))
              }
            | At_Cleanup f i \<Rightarrow> continue [] (cleanup_frame impl f i th st)
            | At_NodeDone \<Rightarrow> continue [] (Some (node_done_status th st))
            | At_Count \<Rightarrow> continue [] (Some (node_done_count th st))
            | At_Finish \<Rightarrow> map_option (\<lambda>(s, st). ([DoneCalled s], put_thread t None st)) (Finish P st)))
   }"

fun exec_step :: "exec_params \<Rightarrow> executor_impl \<Rightarrow> label \<Rightarrow> exec_state \<Rightarrow> (event list \<times> exec_state) option" where
  "exec_step P impl (Start i) st = step_start i st"
| "exec_step P impl (Begin t mem) st = step_begin P impl t mem st"
| "exec_step P impl (Returned t mem oc) st = step_returned P impl t mem oc st"
| "exec_step P impl (AsyncDone k mem oc) st = step_async_done P impl k mem oc st"
| "exec_step P impl (Go t) st = step_go P impl t st"

text \<open>The executor's state at the start of a step, and \<open>RunAsync\<close>: it may call the callback at once.\<close>

definition ExecutorState :: "executor_impl \<Rightarrow> exec_state option" where
  "ExecutorState impl = do {
     root \<leftarrow> InitializeFrameInfo impl [] (FrameState 1);
     root \<leftarrow> start_iterations (max_parallel_iterations root) root;
     Some \<lparr>frames = [Some root], outstanding_frames = [[] \<mapsto> 0], x_status = OK, num_outstanding_ops = 0, x_alive = True,
       done_cb = False, runner_queue = [], threads = [], asyncs = [], x_aborts = [], done_calls = []\<rparr>
   }"

definition RunAsync :: "executor_impl \<Rightarrow> status \<Rightarrow> exec_state \<Rightarrow> exec_state option" where
  "RunAsync impl fill_status st =
     (if \<not> status_ok fill_status then Some (st\<lparr>done_calls := done_calls st @ [fill_status]\<rparr>)
      else
        let ready = map (\<lambda>n. \<lparr>tn_node = n, tn_frame = 0, tn_iter = 0, tn_dead = False\<rparr>) (root_nodes impl)
        in if ready = [] then Some (st\<lparr>done_calls := done_calls st @ [OK]\<rparr>)
           else do {
             fs \<leftarrow> frame_at st 0;
             it \<leftarrow> GetIteration fs 0;
             let st = put_frame 0 (SetIteration 0 (Some (it\<lparr>outstanding_ops := length ready\<rparr>)) fs) st;
             (_, run) \<leftarrow> ScheduleReady (gview impl) ready None;
             Some (st\<lparr>num_outstanding_ops := int (length ready), done_cb := True, runner_queue := runner_queue st @ run\<rparr>)
           })"

section \<open>Runs\<close>

text \<open>What the environment can do next in a state: this is the scheduler's freedom.\<close>

fun enabled :: "executor_impl \<Rightarrow> label \<Rightarrow> exec_state \<Rightarrow> bool" where
  "enabled impl (Start i) st \<longleftrightarrow> i < length (runner_queue st)"
| "enabled impl (Begin t mem) st \<longleftrightarrow>
     (\<exists>th. thread_at st t = Some th \<and> th_pc th = At_Loop \<and> \<not> rq_empty (th_inline_ready th))"
| "enabled impl (Returned t mem oc) st \<longleftrightarrow>
     (\<exists>th tn inputs d item. thread_at st t = Some th \<and> th_pc th = At_Compute tn inputs d \<and>
        item_at (gview impl) (tn_node tn) = Some item \<and> length (oc_outputs oc) = item_num_outputs item)"
| "enabled impl (AsyncDone k mem oc) st \<longleftrightarrow>
     (\<exists>a item. k < length (asyncs st) \<and> asyncs st ! k = Some a \<and>
        item_at (gview impl) (tn_node (as_node a)) = Some item \<and> length (oc_outputs oc) = item_num_outputs item)"
| "enabled impl (Go t) st \<longleftrightarrow>
     (\<exists>th. thread_at st t = Some th \<and> (\<forall>tn inputs d. th_pc th \<noteq> At_Compute tn inputs d) \<and>
        (th_pc th = At_Loop \<longrightarrow> rq_empty (th_inline_ready th)))"

text \<open>A run of the executor from \<open>RunAsync\<close>, with the events seen so far.\<close>

inductive exec_run :: "exec_params \<Rightarrow> executor_impl \<Rightarrow> event list \<Rightarrow> exec_state \<Rightarrow> bool"
  for P :: exec_params and impl :: executor_impl where
  run_start: "ExecutorState impl = Some st0 \<Longrightarrow> RunAsync impl OK st0 = Some st \<Longrightarrow> exec_run P impl [] st"
| run_step: "exec_run P impl evs st \<Longrightarrow> enabled impl l st \<Longrightarrow> exec_step P impl l st = Some (new, st') \<Longrightarrow>
    exec_run P impl (evs @ new) st'"

end
