(* ===== verification/TF_ExecutorInv.thy ===== *)
theory TF_ExecutorInv
  imports TF_Executor
begin

text \<open>
  What the executor does on a graph without \<open>Enter\<close>, \<open>Exit\<close> and \<open>NextIteration\<close> nodes, where all
  nodes run in the one iteration of the root frame. The arrivals at a node so far determine its
  pending and dead counts and whether it has been made ready; the global invariant says that every
  node that has been made ready is in exactly one place (a queue, a thread, a kernel) or done.
\<close>

section \<open>The edges of a view\<close>

definition out_of :: "graph_view \<Rightarrow> nat \<Rightarrow> edge_info list" where
  "out_of gv s = (case item_at gv s of Some item \<Rightarrow> output_edges item | None \<Rightarrow> [])"

abbreviation is_ctl :: "edge_info \<Rightarrow> bool" where "is_ctl e \<equiv> output_slot e = kControlSlot"

definition n_into :: "graph_view \<Rightarrow> (edge_info \<Rightarrow> bool) \<Rightarrow> nat \<Rightarrow> nat" where
  "n_into gv Q d = (\<Sum>s < length gv. length (filter (\<lambda>e. dst_id e = d \<and> Q e) (out_of gv s)))"

abbreviation in_degree :: "graph_view \<Rightarrow> nat \<Rightarrow> nat" where "in_degree gv \<equiv> n_into gv (\<lambda>_. True)"
abbreviation control_degree :: "graph_view \<Rightarrow> nat \<Rightarrow> nat" where "control_degree gv \<equiv> n_into gv is_ctl"
abbreviation data_degree :: "graph_view \<Rightarrow> nat \<Rightarrow> nat" where "data_degree gv \<equiv> n_into gv (\<lambda>e. \<not> is_ctl e)"

lemma length_filter_split: "length (filter P xs) = length (filter (\<lambda>x. P x \<and> Q x) xs) + length (filter (\<lambda>x. P x \<and> \<not> Q x) xs)"
  by (induction xs) auto

lemma in_degree_split: "in_degree gv d = control_degree gv d + data_degree gv d"
  unfolding n_into_def sum.distrib [symmetric]
  by (rule sum.cong) (use length_filter_split [where P = "\<lambda>e. dst_id e = d" and Q = is_ctl] in simp_all)

definition max_pending :: "graph_view \<Rightarrow> nat \<Rightarrow> node_item \<Rightarrow> nat" where
  "max_pending gv d item = (if is_merge item then 1 + 2 * control_degree gv d else in_degree gv d)"

section \<open>Arrivals\<close>

text \<open>An input that has reached a node: over a control edge, with a value or without one, from a dead node or not, and what for which input.\<close>

record arrival =
  a_dst :: nat
  a_control :: bool
  a_value :: bool
  a_dead :: bool
  a_slot :: int
  a_entry :: entry

definition arrival_of :: "bool \<Rightarrow> entry list \<Rightarrow> edge_info \<Rightarrow> arrival" where
  "arrival_of is_dead outputs e =
     \<lparr>a_dst = dst_id e, a_control = is_ctl e, a_value = (\<not> is_ctl e \<and> en_has_value (outputs ! nat (output_slot e))), a_dead = is_dead,
      a_slot = input_slot e, a_entry = (if is_ctl e then Entry else outputs ! nat (output_slot e))\<rparr>"

definition controls :: "arrival list \<Rightarrow> nat" where "controls As = length (filter a_control As)"
definition lives :: "arrival list \<Rightarrow> nat" where "lives As = length (filter (\<lambda>a. \<not> a_control a \<and> a_value a) As)"
definition misses :: "arrival list \<Rightarrow> nat" where "misses As = length (filter (\<lambda>a. \<not> a_control a \<and> \<not> a_value a) As)"
definition deads :: "arrival list \<Rightarrow> nat" where "deads As = length (filter (\<lambda>a. a_dead a \<or> \<not> a_control a \<and> \<not> a_value a) As)"

lemma arrivals_Nil [simp]: "controls [] = 0" "lives [] = 0" "misses [] = 0" "deads [] = 0"
  by (simp_all add: controls_def lives_def misses_def deads_def)

lemma arrivals_snoc [simp]:
  "controls (As @ [a]) = controls As + of_bool (a_control a)"
  "lives (As @ [a]) = lives As + of_bool (\<not> a_control a \<and> a_value a)"
  "misses (As @ [a]) = misses As + of_bool (\<not> a_control a \<and> \<not> a_value a)"
  "deads (As @ [a]) = deads As + of_bool (a_dead a \<or> \<not> a_control a \<and> \<not> a_value a)"
  by (simp_all add: controls_def lives_def misses_def deads_def)

lemma length_arrivals: "length As = controls As + lives As + misses As"
  by (induction As) (auto simp: controls_def lives_def misses_def)

lemma deads_le: "deads As \<le> length As"
  by (simp add: deads_def)

text \<open>When a node is ready after the arrivals \<open>As\<close> at it, and whether it is then dead.\<close>

definition fires :: "graph_view \<Rightarrow> nat \<Rightarrow> node_item \<Rightarrow> arrival list \<Rightarrow> bool" where
  "fires gv d item As \<longleftrightarrow>
     (if is_sink item then in_degree gv d = 0
      else if is_merge item then controls As = control_degree gv d \<and> (0 < lives As \<or> misses As = item_num_inputs item)
      else length As = in_degree gv d)"

definition dead_after :: "node_item \<Rightarrow> arrival list \<Rightarrow> bool" where
  "dead_after item As \<longleftrightarrow>
     As \<noteq> [] \<and> \<not> is_control_trigger item \<and> (if is_merge item then lives As = 0 else 0 < deads As)"

text \<open>What the pending counts of a node are after the arrivals \<open>As\<close>.\<close>

definition counts_after :: "graph_view \<Rightarrow> nat \<Rightarrow> node_item \<Rightarrow> arrival list \<Rightarrow> counts \<Rightarrow> bool" where
  "counts_after gv d item As c \<longleftrightarrow> \<not> c_started c \<and>
     (if is_merge item
      then c_pending c = 2 * (control_degree gv d - controls As) + of_bool (lives As = 0) \<and>
        c_dead c \<le> misses As \<and> (c_pending c \<noteq> 0 \<longrightarrow> c_dead c = misses As)
      else c_pending c = in_degree gv d - length As \<and> c_dead c = deads As)"

text \<open>There is still an edge for the arrival \<open>a\<close> after \<open>As\<close>.\<close>

definition room :: "graph_view \<Rightarrow> nat \<Rightarrow> arrival list \<Rightarrow> arrival \<Rightarrow> bool" where
  "room gv d As a \<longleftrightarrow> controls As + of_bool (a_control a) \<le> control_degree gv d \<and>
     lives As + misses As + of_bool (\<not> a_control a) \<le> data_degree gv d"

definition handle_ok :: "graph_view \<Rightarrow> nat \<Rightarrow> node_item \<Rightarrow> bool" where
  "handle_ok gv d item \<longleftrightarrow> max_pending gv d item < 2 ^ 31 \<and> in_degree gv d < 2 ^ 31 \<and>
     (is_large (pending_id item) \<longleftrightarrow> 7 < max_pending gv d item \<or> 7 < in_degree gv d)"

lemma counts_after_within:
  assumes "counts_after gv d item As c" "length As \<le> in_degree gv d"
  shows "within (max_pending gv d item, in_degree gv d) c"
proof (cases "is_merge item")
  case True
  have "misses As \<le> in_degree gv d" using assms(2) length_arrivals [of As] by simp
  then show ?thesis using assms(1) True by (auto simp: counts_after_def within_def max_pending_def)
next
  case False
  then show ?thesis using assms deads_le [of As] by (auto simp: counts_after_def within_def max_pending_def)
qed

lemma counts_after_fits:
  assumes "handle_ok gv d item" "counts_after gv d item As c" "length As \<le> in_degree gv d"
  shows "fits (pending_id item) c"
  using within_fits [OF counts_after_within [OF assms(2,3)]] assms(1) by (simp add: handle_ok_def)

lemma room_length:
  assumes "room gv d As a"
  shows "length As < in_degree gv d" "length (As @ [a]) \<le> in_degree gv d"
  using assms length_arrivals [of As] unfolding room_def in_degree_split by (cases "a_control a"; simp)+

text \<open>
  One arrival at a node: the counts follow, and the node becomes ready exactly when the arrival
  completes its inputs. A value is stored for every data input, except at a merge, which stores the
  first value alone.
\<close>

definition takes_input :: "node_item \<Rightarrow> arrival list \<Rightarrow> arrival \<Rightarrow> bool" where
  "takes_input item As a \<longleftrightarrow> \<not> a_control a \<and> (is_merge item \<longrightarrow> a_value a \<and> lives As = 0)"

lemma count_op_ok:
  assumes "in_bounds h m" "read_counts h m = Some c" "fits h c" "op_allowed op c" "fits h (spec_op op c)"
  obtains m' where "run_op op h m = Some (spec_results op c, m')" "length m' = length m" "read_counts h m' = Some (spec_op op c)"
    "\<forall>k. apart h k \<longrightarrow> read_counts k m' = read_counts k m"
  using run_op_refines [OF assms] by blast

lemma count_arrival_ok:
  assumes h: "handle_ok gv d item" and m: "in_bounds (pending_id item) m" "read_counts (pending_id item) m = Some c"
    and c: "counts_after gv d item As c" and room: "room gv d As (arrival_of is_dead outputs e)"
    and slot: "\<not> is_ctl e \<longrightarrow> 0 \<le> output_slot e \<and> nat (output_slot e) < length outputs" and d: "dst_id e = d"
    and ns: "\<not> is_sink item" and merge: "is_merge item \<longrightarrow> item_num_inputs item = data_degree gv d"
  defines "As' \<equiv> As @ [arrival_of is_dead outputs e]"
  shows "\<exists>dst_dead m' c'. count_arrival item False is_dead (output_slot e) outputs m =
      Some (dst_dead, \<not> fires gv d item As \<and> fires gv d item As', takes_input item As (arrival_of is_dead outputs e), m') \<and>
    (fires gv d item As' \<longrightarrow> \<not> fires gv d item As \<longrightarrow> (dst_dead \<and> \<not> is_control_trigger item) = dead_after item As') \<and>
    length m' = length m \<and> read_counts (pending_id item) m' = Some c' \<and> counts_after gv d item As' c' \<and>
    (\<forall>k. apart (pending_id item) k \<longrightarrow> read_counts k m' = read_counts k m)"
proof -
  let ?a = "arrival_of is_dead outputs e" let ?h = "pending_id item"
  note room' = room_length [OF room]
  have fit: "fits ?h c" by (rule counts_after_fits [OF h c]) (use room'(1) in simp)
  have fits: "fits ?h c'" if "counts_after gv d item As' c'" for c'
    by (rule counts_after_fits [OF h that]) (use room'(2) in \<open>simp add: As'_def\<close>)
  note step = count_op_ok [OF m fit]
  show ?thesis
  proof (cases "is_merge item")
    case False
    let ?b = "is_dead \<or> \<not> is_ctl e \<and> \<not> en_has_value (outputs ! nat (output_slot e))"
    have b: "(a_dead ?a \<or> \<not> a_control ?a \<and> \<not> a_value ?a) = ?b" by (auto simp: arrival_of_def)
    have p: "c_pending c = in_degree gv d - length As" "c_dead c = deads As" "\<not> c_started c" "0 < c_pending c"
      using c False room' by (auto simp: counts_after_def)
    have c': "counts_after gv d item As' (spec_op (Activate ?b) c)"
      using False p b by (simp add: counts_after_def As'_def not_ready_def)
    obtain m' where m': "adjust_for_activation ?h ?b m = Some ((int (c_pending c - 1), int (deads As')), m')" "length m' = length m"
      "read_counts ?h m' = Some (spec_op (Activate ?b) c)" "\<forall>k. apart ?h k \<longrightarrow> read_counts k m' = read_counts k m"
      by (rule step [of "Activate ?b", OF _ fits [OF c']]) (use p b in \<open>auto simp: not_ready_def As'_def\<close>)
    have inc: "(if is_dead then Some True else if is_ctl e then Some False
        else map_option (\<lambda>out. \<not> en_has_value out) (slot_at outputs (output_slot e))) = Some ?b"
      using slot by (auto simp: slot_at_def nat_less_iff)
    have "count_arrival item False is_dead (output_slot e) outputs m =
        Some (0 < deads As', c_pending c = 1, \<not> is_ctl e, m')"
      using False inc m'(1) p(4) by (simp add: count_arrival_def Let_def)
    moreover have "(\<not> fires gv d item As \<and> fires gv d item As') = (c_pending c = 1)"
      using False ns p(1) room' by (auto simp: fires_def As'_def)
    moreover have "takes_input item As ?a = (\<not> is_ctl e)" using False by (simp add: takes_input_def arrival_of_def)
    moreover have "(0 < deads As' \<and> \<not> is_control_trigger item) = dead_after item As'" using False by (auto simp: dead_after_def As'_def)
    ultimately show ?thesis using m' c' by (intro exI [of _ "0 < deads As'"] exI [of _ m'] exI [of _ "spec_op (Activate ?b) c"]) simp
  next
    case True
    then have n: "item_num_inputs item = data_degree gv d" using merge by simp
    have p: "c_pending c = 2 * (control_degree gv d - controls As) + of_bool (lives As = 0)" "\<not> c_started c"
      "c_dead c \<le> misses As" "c_pending c \<noteq> 0 \<Longrightarrow> c_dead c = misses As" using c True by (auto simp: counts_after_def)
    have pend: "pending ?h m' = Some (int (c_pending c'))" "dead_count ?h m' = Some (int (c_dead c'))"
      if "read_counts ?h m' = Some c'" "fits ?h c'" "\<not> c_started c'" for m' c'
      using pending_small [OF that(1,2)] that(3) by (auto simp: not_ready_def)
    show ?thesis
    proof (cases "is_ctl e")
      case ctl: True
      have a: "a_control ?a" using ctl by (simp add: arrival_of_def)
      have lt: "controls As < control_degree gv d" using room a by (simp add: room_def)
      let ?c = "spec_op (Decrement 2) c"
      have dc: "c_dead c = misses As" using p lt by simp
      have pc': "c_pending ?c = 2 * (control_degree gv d - Suc (controls As)) + of_bool (lives As = 0)" using p(1) lt by simp
      have c': "counts_after gv d item As' ?c"
        using True p dc pc' a by (simp add: counts_after_def As'_def)
      obtain m' r where m': "decrement_pending ?h 2 m = Some (r, m')" "length m' = length m"
        "read_counts ?h m' = Some ?c" "\<forall>k. apart ?h k \<longrightarrow> read_counts k m' = read_counts k m"
        by (rule step [of "Decrement 2", OF _ fits [OF c']]) (use p(1) lt in \<open>auto simp del: spec_op.simps\<close>)
      note P = pend [OF m'(3) fits [OF c']]
      have ca: "count_arrival item False is_dead (output_slot e) outputs m =
          Some (misses As = data_degree gv d, c_pending ?c = 0 \<or> c_pending ?c = 1 \<and> misses As = data_degree gv d, False, m')"
        using True ctl m'(1) P p(2) dc n by (simp add: count_arrival_def Let_def)
      have "(c_pending ?c = 0 \<or> c_pending ?c = 1 \<and> misses As = data_degree gv d) = fires gv d item As'"
        unfolding pc' using lt True ns n a by (auto simp: fires_def As'_def)
      moreover have "\<not> fires gv d item As" using lt True ns by (simp add: fires_def)
      moreover have "(misses As = data_degree gv d) = (lives As = 0)" if "fires gv d item As'"
        using that room a True ns n by (auto simp: fires_def room_def As'_def)
      ultimately show ?thesis using ca m' c' a True
        by (intro exI [of _ "misses As = data_degree gv d"] exI [of _ m'] exI [of _ ?c]) (auto simp: takes_input_def dead_after_def As'_def)
    next
      case data: False
      have a: "\<not> a_control ?a" "a_value ?a = en_has_value (outputs ! nat (output_slot e))" using data by (simp_all add: arrival_of_def)
      have lt: "lives As + misses As < data_degree gv d" "controls As \<le> control_degree gv d" using room a by (simp_all add: room_def)
      have out: "slot_at outputs (output_slot e) = Some (outputs ! nat (output_slot e))" using slot data by (auto simp: slot_at_def nat_less_iff)
      show ?thesis
      proof (cases "a_value ?a")
        case val: True
        let ?c = "spec_op MarkLive c"
        have c': "counts_after gv d item As' ?c" using True p a val by (auto simp: counts_after_def As'_def not_ready_def)
        obtain m' where m': "mark_live ?h m = Some m'" "length m' = length m"
          "read_counts ?h m' = Some ?c" "\<forall>k. apart ?h k \<longrightarrow> read_counts k m' = read_counts k m"
          by (rule step [of MarkLive, OF _ fits [OF c']]) (auto simp: result0_def simp del: spec_op.simps)
        have ca: "count_arrival item False is_dead (output_slot e) outputs m =
            Some (False, c_pending c = 1, odd (c_pending c), m')"
          using True data out val a m'(1) pend [OF m(2) fit p(2)] by (simp add: count_arrival_def Let_def)
        have "(c_pending c = 1) = (\<not> fires gv d item As \<and> fires gv d item As')"
          unfolding p(1) using lt True ns n a val by (auto simp: fires_def As'_def)
        moreover have "odd (c_pending c) = takes_input item As ?a" unfolding p(1) using True a val by (simp add: takes_input_def)
        moreover have "\<not> dead_after item As'" using True a val by (simp add: dead_after_def As'_def)
        ultimately show ?thesis using ca m' c' by (intro exI [of _ False] exI [of _ m'] exI [of _ ?c]) simp
      next
        case miss: False
        let ?c = "spec_op IncrementDead c"
        have c': "counts_after gv d item As' ?c" using True p a miss by (auto simp: counts_after_def As'_def not_ready_def)
        obtain m' where m': "increment_dead_count ?h m = Some m'" "length m' = length m"
          "read_counts ?h m' = Some ?c" "\<forall>k. apart ?h k \<longrightarrow> read_counts k m' = read_counts k m"
          by (rule step [of IncrementDead, OF _ fits [OF c']]) (auto simp: result0_def simp del: spec_op.simps)
        have pd: "c_pending ?c = c_pending c" "\<not> c_started ?c" using p(2) by auto
        have dd: "c_pending c \<noteq> 0 \<Longrightarrow> c_dead ?c = Suc (misses As)" using p(2,4) by (simp add: not_ready_def)
        have ca: "count_arrival item False is_dead (output_slot e) outputs m =
            Some (c_dead ?c = data_degree gv d, c_pending c = 1 \<and> c_dead ?c = data_degree gv d, False, m')"
          using True data out miss a m'(1) pend [OF m'(3) fits [OF c'] pd(2)] n pd(1) by (simp add: count_arrival_def Let_def del: spec_op.simps)
        have one: "(c_pending c = 1) \<longleftrightarrow> controls As = control_degree gv d \<and> lives As = 0" unfolding p(1) using lt(2) by auto
        have "(c_pending c = 1 \<and> c_dead ?c = data_degree gv d) = (\<not> fires gv d item As \<and> fires gv d item As')"
        proof (cases "c_pending c = 1")
          case True1: True
          then show ?thesis using dd one lt True ns n a miss by (auto simp: fires_def As'_def)
        next
          case F: False
          then have "\<not> (controls As = control_degree gv d \<and> lives As = 0)" using one by simp
          then show ?thesis using F True ns a miss by (auto simp: fires_def As'_def)
        qed
        moreover have "(c_dead ?c = data_degree gv d \<and> \<not> is_control_trigger item) = dead_after item As'"
          if f: "fires gv d item As'" "\<not> fires gv d item As"
        proof -
          have "c_pending c = 1 \<and> c_dead ?c = data_degree gv d" using calculation f by simp
          then show ?thesis using one True a miss by (auto simp: dead_after_def As'_def)
        qed
        ultimately show ?thesis using ca m' c' True a miss
          by (intro exI [of _ "c_dead ?c = data_degree gv d"] exI [of _ m'] exI [of _ ?c]) (auto simp: takes_input_def)
      qed
    qed
  qed
qed

section \<open>Views without frames\<close>

fun last_ok :: "edge_info list \<Rightarrow> bool" where
  "last_ok [] \<longleftrightarrow> True"
| "last_ok (e # es) \<longleftrightarrow> (is_last e \<longrightarrow> output_slot e \<noteq> kControlSlot \<and> (\<forall>f \<in> set es. output_slot f \<noteq> output_slot e)) \<and> last_ok es"

definition edge_ok :: "graph_view \<Rightarrow> node_item \<Rightarrow> edge_info \<Rightarrow> bool" where
  "edge_ok gv item e \<longleftrightarrow> (\<exists>dst. item_at gv (dst_id e) = Some dst \<and>
     (\<not> is_ctl e \<longrightarrow> 0 \<le> output_slot e \<and> nat (output_slot e) < item_num_outputs item \<and>
        0 \<le> input_slot e \<and> nat (input_slot e) < item_num_inputs dst))"

definition item_ok :: "graph_view \<Rightarrow> nat \<Rightarrow> nat \<Rightarrow> node_item \<Rightarrow> bool" where
  "item_ok gv n d item \<longleftrightarrow> \<not> is_enter_exit_or_next_iter item \<and> \<not> is_enter item \<and> n_props (ni_node item) \<noteq> None \<and>
     handle_ok gv d item \<and> (is_merge item \<longrightarrow> item_num_inputs item = data_degree gv d) \<and> (is_sink item \<longrightarrow> item_num_inputs item = 0) \<and>
     input_start item + item_num_inputs item \<le> n \<and> list_all (edge_ok gv item) (output_edges item) \<and> last_ok (output_edges item)"

definition items_apart :: "node_item \<Rightarrow> node_item \<Rightarrow> bool" where
  "items_apart x y \<longleftrightarrow> apart (pending_id x) (pending_id y) \<and>
     (input_start x + item_num_inputs x \<le> input_start y \<or> input_start y + item_num_inputs y \<le> input_start x)"

text \<open>\<open>n\<close> is the number of input tensors of the frame.\<close>

definition flat_view :: "graph_view \<Rightarrow> nat \<Rightarrow> bool" where
  "flat_view gv n \<longleftrightarrow> length gv < 2 ^ 64 \<and> (\<forall>d item. item_at gv d = Some item \<longrightarrow> item_ok gv n d item) \<and>
     (\<forall>d e x y. item_at gv d = Some x \<longrightarrow> item_at gv e = Some y \<longrightarrow> d \<noteq> e \<longrightarrow> items_apart x y)"

abbreviation "at" :: "nat \<Rightarrow> arrival list \<Rightarrow> arrival list" where "at d As \<equiv> filter (\<lambda>a. a_dst a = d) As"

definition fired :: "graph_view \<Rightarrow> arrival list \<Rightarrow> nat set" where
  "fired gv As = {d. \<exists>item. item_at gv d = Some item \<and> fires gv d item (at d As)}"

lemma fired_bounds: "fired gv As \<subseteq> {..<length gv}" "finite (fired gv As)" "card (fired gv As) \<le> length gv"
proof -
  show s: "fired gv As \<subseteq> {..<length gv}" by (auto simp: fired_def item_at_def split: if_splits)
  then show "finite (fired gv As)" by (rule finite_subset) simp
  show "card (fired gv As) \<le> length gv" using card_mono [OF _ s] by simp
qed

definition counts_inv :: "graph_view \<Rightarrow> bytes \<Rightarrow> arrival list \<Rightarrow> bool" where
  "counts_inv gv m As \<longleftrightarrow> (\<forall>d item. item_at gv d = Some item \<longrightarrow> in_bounds (pending_id item) m \<and>
     (\<not> is_sink item \<longrightarrow> (\<exists>c. read_counts (pending_id item) m = Some c \<and> counts_after gv d item (at d As) c)))"

text \<open>The inputs of a node that are stored by the arrivals at it.\<close>

definition stored :: "node_item \<Rightarrow> arrival list \<Rightarrow> entry list" where
  "stored item As = fold (\<lambda>i inputs. if takes_input item (take i As) (As ! i)
     then inputs[nat (a_slot (As ! i)) := a_entry (As ! i)] else inputs) [0..<length As] (replicate (item_num_inputs item) Entry)"

lemma stored_Nil [simp]: "stored item [] = replicate (item_num_inputs item) Entry"
  by (simp add: stored_def)

lemma stored_snoc:
  "stored item (As @ [a]) = (if takes_input item As a then (stored item As)[nat (a_slot a) := a_entry a] else stored item As)"
proof -
  have "fold (\<lambda>i inputs. if takes_input item (take i (As @ [a])) ((As @ [a]) ! i)
      then inputs[nat (a_slot ((As @ [a]) ! i)) := a_entry ((As @ [a]) ! i)] else inputs) [0..<length As] (replicate (item_num_inputs item) Entry) =
    stored item As"
    unfolding stored_def by (rule fold_cong) (auto simp: nth_append)
  then show ?thesis by (simp add: stored_def [of item "As @ [a]"])
qed

lemma length_stored [simp]: "length (stored item As) = item_num_inputs item"
  by (induction As rule: rev_induct) (simp_all add: stored_snoc)

definition inputs_of :: "node_item \<Rightarrow> entry list \<Rightarrow> entry list" where
  "inputs_of item ts = take (item_num_inputs item) (drop (input_start item) ts)"

text \<open>The inputs of every node outside \<open>S\<close> are those its arrivals stored.\<close>

definition inputs_inv :: "graph_view \<Rightarrow> nat set \<Rightarrow> entry list \<Rightarrow> arrival list \<Rightarrow> bool" where
  "inputs_inv gv S ts As \<longleftrightarrow> (\<forall>d item. item_at gv d = Some item \<longrightarrow> \<not> is_sink item \<longrightarrow> d \<notin> S \<longrightarrow> inputs_of item ts = stored item (at d As))"

lemma fires_mono:
  assumes "room gv d As a" "is_merge item \<longrightarrow> item_num_inputs item = data_degree gv d" "fires gv d item As"
  shows "fires gv d item (As @ [a])" "dead_after item (As @ [a]) = dead_after item As"
    "is_sink item \<or> \<not> takes_input item As a"
  using assms room_length(1) [OF assms(1)]
  by (auto simp: fires_def room_def dead_after_def takes_input_def split: if_splits)

lemma inputs_of_update:
  assumes "input_start item + item_num_inputs item \<le> length ts" "i < item_num_inputs item"
  shows "inputs_of item (ts[input_start item + i := x]) = (inputs_of item ts)[i := x]"
  using assms by (intro nth_equalityI) (auto simp: inputs_of_def nth_list_update)

lemma inputs_of_other:
  assumes "input_start item + item_num_inputs item \<le> length ts" "k < input_start item \<or> input_start item + item_num_inputs item \<le> k"
  shows "inputs_of item (ts[k := x]) = inputs_of item ts"
  using assms by (intro nth_equalityI) (auto simp: inputs_of_def nth_list_update)

lemma flat_viewD:
  assumes "flat_view gv n" "item_at gv d = Some item"
  shows "item_ok gv n d item" "handle_ok gv d item" "is_merge item \<longrightarrow> item_num_inputs item = data_degree gv d"
    "input_start item + item_num_inputs item \<le> n" "\<not> is_enter item" "list_all (edge_ok gv item) (output_edges item)"
    "last_ok (output_edges item)" "\<not> is_enter_exit_or_next_iter item" "n_props (ni_node item) \<noteq> None"
    "item_at gv e = Some y \<Longrightarrow> d \<noteq> e \<Longrightarrow> items_apart item y" "is_sink item \<longrightarrow> item_num_inputs item = 0"
  using assms by (auto simp: flat_view_def item_ok_def)

lemma at_snoc: "at d (As @ [a]) = (if a_dst a = d then at d As @ [a] else at d As)"
  by simp

lemma fired_snoc:
  assumes d: "item_at gv d = Some item" "a_dst a = d" and mono: "fires gv d item (at d As) \<Longrightarrow> fires gv d item (at d As @ [a])"
  shows "fired gv (As @ [a]) = fired gv As \<union> (if fires gv d item (at d As @ [a]) then {d} else {})"
proof (intro set_eqI)
  fix x
  show "x \<in> fired gv (As @ [a]) \<longleftrightarrow> x \<in> fired gv As \<union> (if fires gv d item (at d As @ [a]) then {d} else {})"
    using assms by (cases "x = d") (auto simp: fired_def)
qed

text \<open>The tokens that one activation makes ready.\<close>

definition new_tokens :: "graph_view \<Rightarrow> nat \<Rightarrow> int \<Rightarrow> arrival list \<Rightarrow> arrival list \<Rightarrow> tagged_node list \<Rightarrow> bool" where
  "new_tokens gv self i As As' ts \<longleftrightarrow> distinct (map tn_node ts) \<and> tn_node ` set ts = fired gv As' - fired gv As \<and> fired gv As \<subseteq> fired gv As' \<and>
     (\<forall>t \<in> set ts. tn_frame t = self \<and> tn_iter t = i \<and>
        (\<exists>item. item_at gv (tn_node t) = Some item \<and> tn_dead t = dead_after item (at (tn_node t) As')))"

definition iter_inv :: "graph_view \<Rightarrow> nat \<Rightarrow> nat set \<Rightarrow> iteration_state \<Rightarrow> arrival list \<Rightarrow> bool" where
  "iter_inv gv n S it As \<longleftrightarrow> length (input_tensors it) = n \<and> counts_inv gv (it_counts it) As \<and> inputs_inv gv S (input_tensors it) As"

lemma iter_inv_sink:
  assumes "iter_inv gv n S it As" "item_at gv d = Some item" "is_sink item" "a_dst a = d"
  shows "iter_inv gv n S it (As @ [a])" "fired gv (As @ [a]) = fired gv As"
proof -
  have same: "at e (As @ [a]) = at e As" if "item_at gv e = Some x" "\<not> is_sink x" for e x
    using that assms(2-4) by (cases "e = d") simp_all
  show "iter_inv gv n S it (As @ [a])"
    unfolding iter_inv_def
  proof (intro conjI)
    show "length (input_tensors it) = n" using assms(1) by (simp add: iter_inv_def)
    show "counts_inv gv (it_counts it) (As @ [a])"
      unfolding counts_inv_def by (intro allI impI) (use assms(1) same in \<open>simp add: iter_inv_def counts_inv_def del: filter_append\<close>)
    show "inputs_inv gv S (input_tensors it) (As @ [a])"
      unfolding inputs_inv_def by (intro allI impI) (use assms(1) same in \<open>simp add: iter_inv_def inputs_inv_def del: filter_append\<close>)
  qed
  have "fires gv e x (at e (As @ [a])) = fires gv e x (at e As)" if "item_at gv e = Some x" for e x
    using same [OF that] by (cases "is_sink x") (simp_all add: fires_def)
  then show "fired gv (As @ [a]) = fired gv As" unfolding fired_def by blast
qed

lemma counts_inv_update:
  assumes "counts_inv gv m As" "item_at gv d = Some item" "a_dst a = d" "read_counts (pending_id item) m' = Some c"
    "counts_after gv d item (at d As @ [a]) c" "length m' = length m" "flat_view gv n"
    "\<forall>k. apart (pending_id item) k \<longrightarrow> read_counts k m' = read_counts k m"
  shows "counts_inv gv m' (As @ [a])"
  unfolding counts_inv_def
proof (intro allI impI conjI)
  fix e x assume x: "item_at gv e = Some x"
  show "in_bounds (pending_id x) m'" using assms(1,6) x by (auto simp: counts_inv_def in_bounds_def)
  assume ns: "\<not> is_sink x"
  show "\<exists>c. read_counts (pending_id x) m' = Some c \<and> counts_after gv e x (at e (As @ [a])) c"
  proof (cases "e = d")
    case True
    then show ?thesis using assms x by simp
  next
    case False
    then have "apart (pending_id item) (pending_id x)" using flat_viewD(10) [OF assms(7,2) x] by (simp add: items_apart_def)
    then show ?thesis using assms(1,3,8) x ns False by (simp add: counts_inv_def)
  qed
qed

lemma inputs_inv_update:
  assumes inv: "inputs_inv gv S ts As" and len: "length ts = n" and flat: "flat_view gv n" and d: "item_at gv d = Some item" "a_dst a = d"
    and slot: "takes_input item (at d As) a \<Longrightarrow> 0 \<le> a_slot a \<and> nat (a_slot a) < item_num_inputs item"
  shows "inputs_inv gv S (if takes_input item (at d As) a then ts[input_start item + nat (a_slot a) := a_entry a] else ts) (As @ [a])"
  unfolding inputs_inv_def
proof (intro allI impI)
  fix e x assume x: "item_at gv e = Some x" "\<not> is_sink x" "e \<notin> S"
  have old: "inputs_of x ts = stored x (at e As)" using inv x by (simp add: inputs_inv_def)
  have xl: "input_start x + item_num_inputs x \<le> length ts" using flat_viewD(4) [OF flat x(1)] len by simp
  show "inputs_of x (if takes_input item (at d As) a then ts[input_start item + nat (a_slot a) := a_entry a] else ts) = stored x (at e (As @ [a]))"
  proof (cases "e = d")
    case True
    then have "x = item" using x(1) d(1) by simp
    then show ?thesis using True old d(2) inputs_of_update [OF xl] slot by (simp add: stored_snoc)
  next
    case False
    have "items_apart item x" using flat_viewD(10) [OF flat d(1) x(1)] False by simp
    then have "inputs_of x (ts[input_start item + nat (a_slot a) := a_entry a]) = inputs_of x ts" if "takes_input item (at d As) a"
      using slot [OF that] by (intro inputs_of_other [OF xl]) (auto simp: items_apart_def)
    then show ?thesis using False old d(2) by simp
  qed
qed

lemma activate_edge_ok:
  assumes flat: "flat_view gv n" and src: "item_at gv s = Some item" and e: "edge_ok gv item e"
    and inv: "iter_inv gv n S it As" and room: "room gv (dst_id e) (at (dst_id e) As) (arrival_of is_dead outputs e)"
    and outs: "length outs = item_num_outputs item" "\<not> is_ctl e \<Longrightarrow> outs ! nat (output_slot e) = outputs ! nat (output_slot e)"
    and oo: "outstanding_ops it \<le> card (fired gv As)"
  shows "\<exists>it' outs' ts. activate_edge gv self item is_dead i e (it, outs, ready) = Some (it', outs', ready @ ts) \<and>
    iter_inv gv n S it' (As @ [arrival_of is_dead outputs e]) \<and> outstanding_ops it' = outstanding_ops it + length ts \<and>
    outstanding_frame_count it' = outstanding_frame_count it \<and> length outs' = length outs \<and>
    (\<forall>k. (is_last e \<longrightarrow> k \<noteq> nat (output_slot e)) \<longrightarrow> outs' ! k = outs ! k) \<and>
    new_tokens gv self i As (As @ [arrival_of is_dead outputs e]) ts"
proof -
  obtain dst where dst: "item_at gv (dst_id e) = Some dst" "\<not> is_ctl e \<longrightarrow> 0 \<le> output_slot e \<and> nat (output_slot e) < item_num_outputs item \<and>
      0 \<le> input_slot e \<and> nat (input_slot e) < item_num_inputs dst" using e by (auto simp: edge_ok_def)
  have a: "arrival_of is_dead outs e = arrival_of is_dead outputs e" using outs(2) by (auto simp: arrival_of_def)
  let ?a = "arrival_of is_dead outputs e" let ?d = "dst_id e"
  have ad: "a_dst ?a = ?d" "a_slot ?a = input_slot e" by (simp_all add: arrival_of_def)
  show ?thesis
  proof (cases "is_sink dst")
    case True
    note S = iter_inv_sink [OF inv dst(1) True ad(1)]
    have "activate_edge gv self item is_dead i e (it, outs, ready) = Some (it, outs, ready)"
      using dst(1) True by (simp add: activate_edge_def)
    then show ?thesis using S by (intro exI [of _ it] exI [of _ outs] exI [of _ "[]"]) (simp add: new_tokens_def)
  next
    case False
    have I: "length (input_tensors it) = n" "counts_inv gv (it_counts it) As" "inputs_inv gv S (input_tensors it) As"
      using inv by (simp_all add: iter_inv_def)
    note D = flat_viewD [OF flat dst(1)]
    obtain c where c: "in_bounds (pending_id dst) (it_counts it)" "read_counts (pending_id dst) (it_counts it) = Some c"
      "counts_after gv ?d dst (at ?d As) c" using I(2) dst(1) False by (auto simp: counts_inv_def)
    let ?before = "fires gv ?d dst (at ?d As)" let ?after = "fires gv ?d dst (at ?d As @ [?a])"
    let ?take = "takes_input dst (at ?d As) ?a"
    have slot': "\<not> is_ctl e \<longrightarrow> 0 \<le> output_slot e \<and> nat (output_slot e) < length outs" using dst(2) outs(1) by simp
    have room': "room gv ?d (at ?d As) (arrival_of is_dead outs e)" using room a by simp
    obtain dd m' c' where ca: "count_arrival dst False is_dead (output_slot e) outs (it_counts it) = Some (dd, \<not> ?before \<and> ?after, ?take, m')"
      "?after \<Longrightarrow> \<not> ?before \<Longrightarrow> (dd \<and> \<not> is_control_trigger dst) = dead_after dst (at ?d As @ [?a])" "length m' = length (it_counts it)"
      "read_counts (pending_id dst) m' = Some c'" "counts_after gv ?d dst (at ?d As @ [?a]) c'"
      "\<forall>k. apart (pending_id dst) k \<longrightarrow> read_counts k m' = read_counts k (it_counts it)"
      using count_arrival_ok [OF D(2) c room' slot' refl False D(3)] unfolding a by blast
    have take: "\<not> is_ctl e" "0 \<le> input_slot e" "nat (input_slot e) < item_num_inputs dst" if ?take
      using that dst(2) by (auto simp: takes_input_def arrival_of_def)
    have entry: "a_entry ?a = outs ! nat (output_slot e)" if ?take using take [OF that] outs(2) by (simp add: arrival_of_def)
    define ts' where "ts' = (if ?take then (input_tensors it)[input_start dst + nat (a_slot ?a) := a_entry ?a] else input_tensors it)"
    define outs' where "outs' = (if ?take \<and> is_last e then outs[nat (output_slot e) := moved_from (outs ! nat (output_slot e))] else outs)"
    define ts where "ts = (if \<not> ?before \<and> ?after then [\<lparr>tn_node = ?d, tn_frame = self, tn_iter = i, tn_dead = (dd \<and> \<not> is_control_trigger dst)\<rparr>] else [])"
    have loc: "0 \<le> int (input_start dst) + input_slot e \<and> int (input_start dst) + input_slot e < int (length (input_tensors it))"
      "nat (int (input_start dst) + input_slot e) = input_start dst + nat (a_slot ?a)" if ?take
      using take [OF that] D(4) I(1) ad(2) by (auto simp: nat_add_distrib)
    have F: "fired gv (As @ [?a]) = fired gv As \<union> tn_node ` set ts" "ts \<noteq> [] \<Longrightarrow> ?d \<notin> fired gv As"
    proof -
      have m: "?before \<Longrightarrow> ?after" by (rule fires_mono(1) [OF room D(3)])
      have fd: "?d \<in> fired gv As \<longleftrightarrow> ?before" using dst(1) by (simp add: fired_def)
      show "fired gv (As @ [?a]) = fired gv As \<union> tn_node ` set ts"
        using fired_snoc [OF dst(1) ad(1) m] fd m by (cases ?before; cases ?after) (simp_all add: ts_def insert_absorb)
      show "ts \<noteq> [] \<Longrightarrow> ?d \<notin> fired gv As" using fd by (auto simp: ts_def split: if_splits)
    qed
    have small: "outstanding_ops it + length ts < 2 ^ 64"
    proof (cases "ts = []")
      case True
      then show ?thesis using oo fired_bounds(3) [of gv As] flat by (simp add: flat_view_def)
    next
      case ne: False
      have "card (fired gv (As @ [?a])) \<le> length gv" by (rule fired_bounds)
      moreover have "card (fired gv (As @ [?a])) = Suc (card (fired gv As))"
        using F ne fired_bounds(2) [of gv As] by (simp add: ts_def split: if_splits)
      ultimately show ?thesis using oo flat by (auto simp: flat_view_def ts_def)
    qed
    define it' where "it' = it\<lparr>it_counts := m', input_tensors := ts', outstanding_ops := outstanding_ops it + length ts\<rparr>"
    define rdy where "rdy \<longleftrightarrow> \<not> ?before \<and> ?after"
    note ca1 = ca(1) [folded rdy_def] and ts1 = ts_def [folded rdy_def]
    have "activate_edge gv self item is_dead i e (it, outs, ready) = Some (it', outs', ready @ ts)"
    proof (cases ?take)
      case T: True
      have sl: "slot_at outs (output_slot e) = Some (outs ! nat (output_slot e))"
        using take(1) [OF T] slot' by (auto simp: slot_at_def nat_less_iff)
      have ts': "ts' = (input_tensors it)[input_start dst + nat (a_slot ?a) := outs ! nat (output_slot e)]" using T entry by (simp add: ts'_def)
      have outs': "outs' = (if is_last e then outs[nat (output_slot e) := moved_from (outs ! nat (output_slot e))] else outs)" using T by (simp add: outs'_def)
      show ?thesis
        using small by (cases rdy)
          (simp_all add: activate_edge_def dst(1) False flat_viewD(5) [OF flat src] ca1 T sl loc Let_def it'_def ts' outs' ts1 inc_size_def)
    next
      case T: False
      have eq: "ts' = input_tensors it" "outs' = outs" using T by (simp_all add: ts'_def outs'_def)
      show ?thesis
        using small by (cases rdy)
          (simp_all add: activate_edge_def dst(1) False flat_viewD(5) [OF flat src] ca1 T Let_def it'_def eq ts1 inc_size_def)
    qed
    moreover have "iter_inv gv n S it' (As @ [?a])"
    proof -
      have "counts_inv gv m' (As @ [?a])" by (rule counts_inv_update [OF I(2) dst(1) ad(1) ca(4,5,3) flat ca(6)])
      moreover have "inputs_inv gv S ts' (As @ [?a])"
        unfolding ts'_def by (rule inputs_inv_update [OF I(3,1) flat dst(1) ad(1)]) (use take ad(2) in simp)
      moreover have "length ts' = n" using I(1) by (simp add: ts'_def)
      ultimately show ?thesis by (simp add: iter_inv_def it'_def)
    qed
    moreover have "new_tokens gv self i As (As @ [?a]) ts"
      using F ca(2) dst(1) by (auto simp: new_tokens_def ts_def ad split: if_splits)
    moreover have "length outs' = length outs" "\<forall>k. (is_last e \<longrightarrow> k \<noteq> nat (output_slot e)) \<longrightarrow> outs' ! k = outs ! k" by (auto simp: outs'_def)
    ultimately show ?thesis by (intro exI [of _ it'] exI [of _ outs'] exI [of _ ts]) (simp add: it'_def)
  qed
qed

section \<open>A whole activation\<close>

definition edges_to :: "(edge_info \<Rightarrow> bool) \<Rightarrow> nat \<Rightarrow> edge_info list \<Rightarrow> nat" where
  "edges_to Q d es = length (filter (\<lambda>e. dst_id e = d \<and> Q e) es)"

text \<open>There is room for the arrivals over the edges \<open>es\<close>.\<close>

definition rooms :: "graph_view \<Rightarrow> edge_info list \<Rightarrow> arrival list \<Rightarrow> bool" where
  "rooms gv es As \<longleftrightarrow> (\<forall>d. controls (at d As) + edges_to is_ctl d es \<le> control_degree gv d \<and>
     lives (at d As) + misses (at d As) + edges_to (\<lambda>e. \<not> is_ctl e) d es \<le> data_degree gv d)"

lemma rooms_Cons:
  assumes "rooms gv (e # es) As"
  shows "room gv (dst_id e) (at (dst_id e) As) (arrival_of is_dead outputs e)" "rooms gv es (As @ [arrival_of is_dead outputs e])"
proof -
  let ?a = "arrival_of is_dead outputs e"
  have a: "a_dst ?a = dst_id e" "a_control ?a = is_ctl e" by (simp_all add: arrival_of_def)
  have r: "controls (at d As) + edges_to is_ctl d (e # es) \<le> control_degree gv d"
    "lives (at d As) + misses (at d As) + edges_to (\<lambda>e. \<not> is_ctl e) d (e # es) \<le> data_degree gv d" for d
    using assms by (auto simp: rooms_def)
  show "room gv (dst_id e) (at (dst_id e) As) ?a"
    using r [of "dst_id e"] a by (cases "is_ctl e") (simp_all add: room_def edges_to_def)
  show "rooms gv es (As @ [?a])"
    unfolding rooms_def
  proof
    fix d
    show "controls (at d (As @ [?a])) + edges_to is_ctl d es \<le> control_degree gv d \<and>
        lives (at d (As @ [?a])) + misses (at d (As @ [?a])) + edges_to (\<lambda>e. \<not> is_ctl e) d es \<le> data_degree gv d"
      using r [of d] a by (cases "dst_id e = d"; cases "is_ctl e"; cases "a_value ?a") (simp_all add: edges_to_def)
  qed
qed

lemma fired_stable:
  assumes "flat_view gv n" "item_at gv d = Some item" "fires gv d item (at d As)" "rooms gv es As"
  shows "fires gv d item (at d (As @ map (arrival_of is_dead outputs) es)) \<and>
    dead_after item (at d (As @ map (arrival_of is_dead outputs) es)) = dead_after item (at d As) \<and>
    (\<not> is_sink item \<longrightarrow> stored item (at d (As @ map (arrival_of is_dead outputs) es)) = stored item (at d As))"
  using assms(3,4)
proof (induction es arbitrary: As)
  case (Cons e es)
  let ?a = "arrival_of is_dead outputs e"
  note R = rooms_Cons [OF Cons.prems(2), of is_dead outputs]
  have "fires gv d item (at d (As @ [?a])) \<and> dead_after item (at d (As @ [?a])) = dead_after item (at d As) \<and>
      (\<not> is_sink item \<longrightarrow> stored item (at d (As @ [?a])) = stored item (at d As))"
  proof (cases "dst_id e = d")
    case True
    have "room gv d (at d As) ?a" using R(1) True by simp
    from fires_mono [OF this flat_viewD(3) [OF assms(1,2)] Cons.prems(1)]
    show ?thesis using True by (auto simp: arrival_of_def stored_snoc)
  qed (use Cons.prems(1) in \<open>simp add: arrival_of_def\<close>)
  then show ?case using Cons.IH [OF _ R(2)] by simp
qed simp

lemma new_tokens_Nil: "new_tokens gv self i As As []"
  by (simp add: new_tokens_def)

lemma new_tokens_append:
  assumes "new_tokens gv self i As Bs ts" "new_tokens gv self i Bs Cs us" "Cs = Bs @ map (arrival_of is_dead outputs) es"
    "flat_view gv n" "rooms gv es Bs"
  shows "new_tokens gv self i As Cs (ts @ us)"
proof -
  have "\<exists>item. item_at gv (tn_node t) = Some item \<and> tn_dead t = dead_after item (at (tn_node t) Cs)" if t: "t \<in> set ts" for t
  proof -
    obtain item where item: "item_at gv (tn_node t) = Some item" "tn_dead t = dead_after item (at (tn_node t) Bs)"
      using assms(1) t by (auto simp: new_tokens_def)
    have "tn_node t \<in> fired gv Bs" using assms(1) t by (auto simp: new_tokens_def)
    then have "fires gv (tn_node t) item (at (tn_node t) Bs)" using item(1) by (simp add: fired_def)
    from fired_stable [OF assms(4) item(1) this assms(5), of is_dead outputs] show ?thesis using item assms(3) by simp
  qed
  moreover have "tn_node ` set (ts @ us) = fired gv Cs - fired gv As"
    using assms(1,2) unfolding new_tokens_def set_append image_Un by blast
  moreover have "distinct (map tn_node (ts @ us))" using assms(1,2) by (auto simp: new_tokens_def)
  moreover have "fired gv As \<subseteq> fired gv Cs" "\<forall>t \<in> set (ts @ us). tn_frame t = self \<and> tn_iter t = i"
    "\<forall>t \<in> set us. \<exists>item. item_at gv (tn_node t) = Some item \<and> tn_dead t = dead_after item (at (tn_node t) Cs)"
    using assms(1,2) by (auto simp: new_tokens_def)
  ultimately show ?thesis unfolding new_tokens_def by simp (metis Un_iff)
qed

lemma activate_edges_ok:
  assumes flat: "flat_view gv n" and src: "item_at gv s = Some item"
    and es: "list_all (edge_ok gv item) es" "last_ok es" "rooms gv es As" and inv: "iter_inv gv n S it As"
    and outs: "length outs = item_num_outputs item" "\<forall>e \<in> set es. \<not> is_ctl e \<longrightarrow> outs ! nat (output_slot e) = outputs ! nat (output_slot e)"
    and oo: "outstanding_ops it \<le> card (fired gv As)"
  shows "\<exists>it' outs' ts. activate_edges gv self item is_dead i es (it, outs, ready) = Some (it', outs', ready @ ts) \<and>
    iter_inv gv n S it' (As @ map (arrival_of is_dead outputs) es) \<and> outstanding_ops it' = outstanding_ops it + length ts \<and>
    outstanding_frame_count it' = outstanding_frame_count it \<and>
    new_tokens gv self i As (As @ map (arrival_of is_dead outputs) es) ts"
  using es inv outs oo
proof (induction es arbitrary: As it outs ready)
  case Nil
  then show ?case by (auto simp: new_tokens_Nil)
next
  case (Cons e es)
  let ?a = "arrival_of is_dead outputs e"
  have e: "edge_ok gv item e" "list_all (edge_ok gv item) es" "last_ok es" using Cons.prems(1,2) by simp_all
  note R = rooms_Cons [OF Cons.prems(3), of is_dead outputs]
  have oe: "\<not> is_ctl e \<Longrightarrow> outs ! nat (output_slot e) = outputs ! nat (output_slot e)" using Cons.prems(6) by simp
  obtain it1 outs1 ts where A: "activate_edge gv self item is_dead i e (it, outs, ready) = Some (it1, outs1, ready @ ts)"
    "iter_inv gv n S it1 (As @ [?a])" "outstanding_ops it1 = outstanding_ops it + length ts"
    "outstanding_frame_count it1 = outstanding_frame_count it" "length outs1 = length outs"
    "\<forall>k. (is_last e \<longrightarrow> k \<noteq> nat (output_slot e)) \<longrightarrow> outs1 ! k = outs ! k" "new_tokens gv self i As (As @ [?a]) ts"
    using activate_edge_ok [OF flat src e(1) Cons.prems(4) R(1) Cons.prems(5) oe Cons.prems(7)] by blast
  have l1: "length outs1 = item_num_outputs item" using A(5) Cons.prems(5) by simp
  have o1: "\<forall>f \<in> set es. \<not> is_ctl f \<longrightarrow> outs1 ! nat (output_slot f) = outputs ! nat (output_slot f)"
  proof (intro ballI impI)
    fix f assume f: "f \<in> set es" "\<not> is_ctl f"
    have "is_last e \<longrightarrow> nat (output_slot f) \<noteq> nat (output_slot e)"
    proof
      assume l: "is_last e"
      then have ne: "output_slot f \<noteq> output_slot e" "\<not> is_ctl e" using Cons.prems(2) f(1) by auto
      moreover have "0 \<le> output_slot f" "0 \<le> output_slot e"
        using Cons.prems(1) f ne(2) by (auto simp: list_all_iff edge_ok_def)
      ultimately show "nat (output_slot f) \<noteq> nat (output_slot e)" by simp
    qed
    then show "outs1 ! nat (output_slot f) = outputs ! nat (output_slot f)" using A(6) Cons.prems(6) f by simp
  qed
  have "card (fired gv (As @ [?a])) = card (fired gv As) + length ts"
  proof -
    have "fired gv (As @ [?a]) = fired gv As \<union> tn_node ` set ts" "fired gv As \<inter> tn_node ` set ts = {}" "distinct (map tn_node ts)"
      using A(7) by (auto simp: new_tokens_def)
    then show ?thesis using distinct_card [of "map tn_node ts"] by (simp add: card_Un_disjoint fired_bounds)
  qed
  then have oo1: "outstanding_ops it1 \<le> card (fired gv (As @ [?a]))" using A(3) Cons.prems(7) by simp
  obtain it2 outs2 us where B: "activate_edges gv self item is_dead i es (it1, outs1, ready @ ts) = Some (it2, outs2, (ready @ ts) @ us)"
    "iter_inv gv n S it2 ((As @ [?a]) @ map (arrival_of is_dead outputs) es)" "outstanding_ops it2 = outstanding_ops it1 + length us"
    "outstanding_frame_count it2 = outstanding_frame_count it1"
    "new_tokens gv self i (As @ [?a]) ((As @ [?a]) @ map (arrival_of is_dead outputs) es) us"
    using Cons.IH [OF e(2,3) R(2) A(2) l1 o1 oo1] by blast
  have "new_tokens gv self i As ((As @ [?a]) @ map (arrival_of is_dead outputs) es) (ts @ us)"
    by (rule new_tokens_append [OF A(7) B(5) refl flat R(2)])
  then show ?case using A(1,3,4) B by (intro exI [of _ it2] exI [of _ outs2] exI [of _ "ts @ us"]) simp
qed

end
