(* ===== verification/TF_ExecutorRun.thy ===== *)
theory TF_ExecutorRun
  imports TF_ExecutorInv "HOL-Library.Multiset"
begin

text \<open>
  The invariant of a run of the executor on a view without frames, its preservation by every step,
  and what it gives.
\<close>

section \<open>What has happened\<close>

definition propagations :: "event list \<Rightarrow> (tagged_node \<times> entry list) list" where
  "propagations evs = concat (map (\<lambda>e. case e of Propagated t outs \<Rightarrow> [(t, outs)] | _ \<Rightarrow> []) evs)"

definition begun :: "event list \<Rightarrow> nat list" where
  "begun evs = concat (map (\<lambda>e. case e of Began t \<Rightarrow> [tn_node t] | _ \<Rightarrow> []) evs)"

definition failed :: "event list \<Rightarrow> nat list" where
  "failed evs = concat (map (\<lambda>e. case e of Failed t s \<Rightarrow> [tn_node t] | _ \<Rightarrow> []) evs)"

definition propagated :: "event list \<Rightarrow> nat list" where
  "propagated evs = map (\<lambda>(t, outs). tn_node t) (propagations evs)"

definition arrivals :: "graph_view \<Rightarrow> event list \<Rightarrow> arrival list" where
  "arrivals gv evs = concat (map (\<lambda>(t, outs). map (arrival_of (tn_dead t) outs) (out_of gv (tn_node t))) (propagations evs))"

lemma history_Nil [simp]: "propagations [] = []" "begun [] = []" "failed [] = []" "propagated [] = []" "arrivals gv [] = []"
  by (simp_all add: propagations_def begun_def failed_def propagated_def arrivals_def)

lemma history_append [simp]:
  "propagations (evs @ new) = propagations evs @ propagations new" "begun (evs @ new) = begun evs @ begun new"
  "failed (evs @ new) = failed evs @ failed new" "propagated (evs @ new) = propagated evs @ propagated new"
  "arrivals gv (evs @ new) = arrivals gv evs @ arrivals gv new"
  by (simp_all add: propagations_def begun_def failed_def propagated_def arrivals_def)

lemma history_Cons [simp]:
  "propagations (e # new) = (case e of Propagated t outs \<Rightarrow> [(t, outs)] | _ \<Rightarrow> []) @ propagations new"
  "begun (e # new) = (case e of Began t \<Rightarrow> [tn_node t] | _ \<Rightarrow> []) @ begun new"
  "failed (e # new) = (case e of Failed t s \<Rightarrow> [tn_node t] | _ \<Rightarrow> []) @ failed new"
  "propagated (e # new) = (case e of Propagated t outs \<Rightarrow> [tn_node t] | _ \<Rightarrow> []) @ propagated new"
  "arrivals gv (e # new) = (case e of Propagated t outs \<Rightarrow> map (arrival_of (tn_dead t) outs) (out_of gv (tn_node t)) | _ \<Rightarrow> []) @ arrivals gv new"
  by (auto simp: propagations_def begun_def failed_def propagated_def arrivals_def split: event.split)

section \<open>Room for the edges of a node that has not propagated\<close>

lemma arrivals_over:
  "controls (at d (map (arrival_of is_dead outputs) es)) = edges_to is_ctl d es"
  "lives (at d (map (arrival_of is_dead outputs) es)) + misses (at d (map (arrival_of is_dead outputs) es)) = edges_to (\<lambda>e. \<not> is_ctl e) d es"
  by (induction es) (auto simp: controls_def lives_def misses_def edges_to_def arrival_of_def)

lemma arrivals_counts_append:
  "controls (As @ Bs) = controls As + controls Bs" "lives (As @ Bs) = lives As + lives Bs" "misses (As @ Bs) = misses As + misses Bs"
  by (simp_all add: controls_def lives_def misses_def)

lemma arrivals_sum:
  "controls (at d (arrivals gv evs)) = (\<Sum>s \<leftarrow> propagated evs. edges_to is_ctl d (out_of gv s))"
  "lives (at d (arrivals gv evs)) + misses (at d (arrivals gv evs)) = (\<Sum>s \<leftarrow> propagated evs. edges_to (\<lambda>e. \<not> is_ctl e) d (out_of gv s))"
proof (induction evs)
  case (Cons e evs)
  { case 1 show ?case using Cons(1) by (cases e) (simp_all add: arrivals_counts_append arrivals_over) }
  { case 2 show ?case
    proof (cases e)
      case (Propagated t outs)
      then show ?thesis using Cons(2) arrivals_over(2) [of d "tn_dead t" outs "out_of gv (tn_node t)"] by (simp add: arrivals_counts_append)
    qed (use Cons(2) in simp_all) }
qed simp_all

lemma n_into_edges_to: "n_into gv Q d = (\<Sum>s < length gv. edges_to Q d (out_of gv s))"
  by (simp add: n_into_def edges_to_def)

lemma rooms_unpropagated:
  assumes "distinct (propagated evs)" "set (propagated evs) \<subseteq> {..<length gv}" "s < length gv" "s \<notin> set (propagated evs)"
  shows "rooms gv (out_of gv s) (arrivals gv evs)"
proof -
  have "(\<Sum>x \<leftarrow> propagated evs. edges_to Q d (out_of gv x)) + edges_to Q d (out_of gv s) \<le> n_into gv Q d" for Q d
  proof -
    have "(\<Sum>x \<leftarrow> propagated evs. edges_to Q d (out_of gv x)) + edges_to Q d (out_of gv s) = (\<Sum>x \<in> insert s (set (propagated evs)). edges_to Q d (out_of gv x))"
      using assms(1,4) by (simp add: sum_list_distinct_conv_sum_set)
    also have "\<dots> \<le> n_into gv Q d"
      unfolding n_into_edges_to by (rule sum_mono2) (use assms(2,3) in auto)
    finally show ?thesis .
  qed
  then show ?thesis unfolding rooms_def arrivals_sum by blast
qed

section \<open>Where the tokens are\<close>

fun pc_tokens :: "pc \<Rightarrow> tagged_node list" where
  "pc_tokens (At_Compute tn inputs d) = [tn]"
| "pc_tokens (At_Propagate tn outputs) = [tn]"
| "pc_tokens _ = []"

fun holds_ready :: "pc \<Rightarrow> bool" where
  "holds_ready (At_Delete f) = True"
| "holds_ready (At_Erase f p i) = True"
| "holds_ready At_NodeDone = True"
| "holds_ready At_Count = True"
| "holds_ready At_Schedule = True"
| "holds_ready _ = False"

definition th_waiting :: "thread \<Rightarrow> tagged_node multiset" where
  "th_waiting th = mset (rq_list (th_inline_ready th)) + (if holds_ready (th_pc th) \<and> status_ok (th_s th) then mset (th_ready th) else {#})"

definition th_active :: "thread \<Rightarrow> tagged_node multiset" where
  "th_active th = mset (pc_tokens (th_pc th))"

text \<open>How much a thread contributes to the outstanding ops.\<close>

definition th_count :: "thread \<Rightarrow> nat" where
  "th_count th = length (rq_list (th_inline_ready th)) +
     (case th_pc th of At_Loop \<Rightarrow> 0 | At_Finish \<Rightarrow> 0 | At_Schedule \<Rightarrow> (if status_ok (th_s th) then length (th_ready th) else 0) | _ \<Rightarrow> 1)"

definition agg :: "('a \<Rightarrow> 'b::comm_monoid_add) \<Rightarrow> 'a option list \<Rightarrow> 'b" where
  "agg f xs = (\<Sum>x \<leftarrow> xs. case x of None \<Rightarrow> 0 | Some a \<Rightarrow> f a)"

lemma agg_Nil [simp]: "agg f [] = 0"
  by (simp add: agg_def)

lemma agg_append [simp]: "agg f (xs @ ys) = agg f xs + agg f ys"
  by (simp add: agg_def)

lemma agg_single [simp]: "agg f [x] = (case x of None \<Rightarrow> 0 | Some a \<Rightarrow> f a)"
  by (simp add: agg_def)

lemma agg_update:
  assumes "t < length xs"
  shows "agg f (xs[t := y]) + (case xs ! t of None \<Rightarrow> 0 | Some a \<Rightarrow> f a) = agg f xs + (case y of None \<Rightarrow> 0 | Some a \<Rightarrow> f a)"
proof -
  have s: "xs = take t xs @ xs ! t # drop (Suc t) xs" by (rule id_take_nth_drop [OF assms])
  have "agg f xs = agg f (take t xs) + (case xs ! t of None \<Rightarrow> 0 | Some a \<Rightarrow> f a) + agg f (drop (Suc t) xs)"
    by (subst s) (simp add: agg_def add.assoc)
  moreover have "agg f (xs[t := y]) = agg f (take t xs) + (case y of None \<Rightarrow> 0 | Some a \<Rightarrow> f a) + agg f (drop (Suc t) xs)"
    using assms by (simp add: upd_conv_take_nth_drop agg_def add.assoc)
  ultimately show ?thesis by (simp add: ac_simps)
qed

definition waiting :: "exec_state \<Rightarrow> tagged_node multiset" where
  "waiting st = mset (runner_queue st) + agg th_waiting (threads st)"

definition active :: "exec_state \<Rightarrow> tagged_node multiset" where
  "active st = agg th_active (threads st) + agg (\<lambda>a. {#as_node a#}) (asyncs st)"

definition counted :: "exec_state \<Rightarrow> nat" where
  "counted st = length (runner_queue st) + agg th_count (threads st) + agg (\<lambda>_. 1) (asyncs st)"

section \<open>The invariant\<close>

definition rq_ok :: "ready_queue \<Rightarrow> bool" where
  "rq_ok q \<longleftrightarrow> front_index q < length (rq_ready q) \<or> rq_ready q = [] \<and> front_index q = 0"

lemma rq_ops:
  "rq_ok TaggedNodeReadyQueue" "rq_list TaggedNodeReadyQueue = []"
  "rq_ok q \<Longrightarrow> rq_ok (rq_push_back t q)" "rq_ok q \<Longrightarrow> rq_list (rq_push_back t q) = rq_list q @ [t]"
  "rq_ok q \<Longrightarrow> rq_empty q \<longleftrightarrow> rq_list q = []"
  "rq_ok q \<Longrightarrow> rq_front q = (case rq_list q of [] \<Rightarrow> None | t # ts \<Rightarrow> Some t)"
  "rq_ok q \<Longrightarrow> rq_list q \<noteq> [] \<Longrightarrow> rq_ok (rq_pop_front q) \<and> rq_list (rq_pop_front q) = tl (rq_list q)"
proof -
  show "rq_ok TaggedNodeReadyQueue" "rq_list TaggedNodeReadyQueue = []"
    by (simp_all add: rq_ok_def rq_list_def TaggedNodeReadyQueue_def)
  show "rq_ok q \<Longrightarrow> rq_ok (rq_push_back t q)" "rq_ok q \<Longrightarrow> rq_list (rq_push_back t q) = rq_list q @ [t]"
    by (auto simp: rq_ok_def rq_list_def rq_push_back_def)
  show "rq_ok q \<Longrightarrow> rq_empty q \<longleftrightarrow> rq_list q = []" by (auto simp: rq_ok_def rq_list_def rq_empty_def)
  show "rq_ok q \<Longrightarrow> rq_front q = (case rq_list q of [] \<Rightarrow> None | t # ts \<Rightarrow> Some t)"
    by (auto simp: rq_ok_def rq_list_def rq_front_def Cons_nth_drop_Suc [symmetric] split: list.split)
  show "rq_ok q \<Longrightarrow> rq_list q \<noteq> [] \<Longrightarrow> rq_ok (rq_pop_front q) \<and> rq_list (rq_pop_front q) = tl (rq_list q)"
    by (auto simp: rq_ok_def rq_list_def rq_pop_front_def Let_def tl_drop drop_Suc)
qed

definition tok_ok :: "graph_view \<Rightarrow> arrival list \<Rightarrow> tagged_node \<Rightarrow> bool" where
  "tok_ok gv As t \<longleftrightarrow> tn_frame t = 0 \<and> tn_iter t = 0 \<and>
     (\<exists>item. item_at gv (tn_node t) = Some item \<and> tn_dead t = dead_after item (at (tn_node t) As))"

text \<open>Every fired node waits or has begun, every begun one is active, propagated or failed, each once.\<close>

definition tokens_inv :: "graph_view \<Rightarrow> event list \<Rightarrow> exec_state \<Rightarrow> bool" where
  "tokens_inv gv evs st \<longleftrightarrow>
     image_mset tn_node (waiting st) + mset (begun evs) = mset_set (fired gv (arrivals gv evs)) \<and>
     image_mset tn_node (active st) + mset (propagated evs @ failed evs) = mset (begun evs) \<and>
     (\<forall>t \<in># waiting st + active st. tok_ok gv (arrivals gv evs) t)"

fun is_deleting :: "pc \<Rightarrow> bool" where
  "is_deleting (At_Delete f) = True"
| "is_deleting (At_Erase f p i) = True"
| "is_deleting _ = False"

definition deleting :: "exec_state \<Rightarrow> nat" where
  "deleting st = agg (\<lambda>th. of_bool (is_deleting (th_pc th))) (threads st)"

definition flat_frame :: "frame_state \<Rightarrow> bool" where
  "flat_frame fs \<longleftrightarrow> parent_frame fs = None \<and> num_pending_inputs fs = 0 \<and> iteration_count fs = 0 \<and> next_iter_roots fs = [] \<and>
     num_outstanding_iterations fs = 1"

definition frame_open :: "graph_view \<Rightarrow> nat \<Rightarrow> event list \<Rightarrow> nat \<Rightarrow> exec_state \<Rightarrow> bool" where
  "frame_open gv n evs k st \<longleftrightarrow> (\<exists>fs it. frames st = [Some fs] \<and> flat_frame fs \<and> iterations fs = [Some it] \<and>
     iter_inv gv n (set (begun evs)) it (arrivals gv evs) \<and> outstanding_ops it = k \<and> outstanding_frame_count it = 0)"

text \<open>The ops of the iteration that are not done: failed ones stay.\<close>

definition unfinished :: "event list \<Rightarrow> exec_state \<Rightarrow> nat" where
  "unfinished evs st = size (waiting st) + size (active st) + length (failed evs)"

definition frame_inv :: "graph_view \<Rightarrow> nat \<Rightarrow> event list \<Rightarrow> exec_state \<Rightarrow> bool" where
  "frame_inv gv n evs st \<longleftrightarrow>
     (if 0 < unfinished evs st then frame_open gv n evs (unfinished evs st) st \<and> deleting st = 0
      else deleting st = 0 \<or> deleting st = 1 \<and> (\<exists>fs. frames st = [Some fs] \<and> parent_frame fs = None))"

fun pc_ok :: "graph_view \<Rightarrow> thread \<Rightarrow> pc \<Rightarrow> bool" where
  "pc_ok gv th At_Loop = (\<not> th_async th)"
| "pc_ok gv th (At_Compute tn inputs d) = (status_ok (th_s th) \<and> \<not> th_completed th)"
| "pc_ok gv th (At_Propagate tn outputs) = (status_ok (th_s th) \<and> \<not> th_completed th \<and>
     (\<exists>item. item_at gv (tn_node tn) = Some item \<and> length outputs = item_num_outputs item))"
| "pc_ok gv th (At_Delete f) = (f = 0 \<and> status_ok (th_s th) \<and> th_ready th = [] \<and> \<not> th_completed th)"
| "pc_ok gv th (At_Erase f p i) = (f = 0 \<and> p = None \<and> status_ok (th_s th) \<and> th_ready th = [] \<and> \<not> th_completed th)"
| "pc_ok gv th At_NodeDone = (\<not> th_completed th)"
| "pc_ok gv th At_Count = (\<not> th_completed th)"
| "pc_ok gv th At_Schedule = (th_completed th \<longrightarrow> th_ready th = [] \<or> \<not> status_ok (th_s th))"
| "pc_ok gv th At_Finish = th_completed th"
| "pc_ok gv th _ = False"

definition th_ok :: "graph_view \<Rightarrow> thread \<Rightarrow> bool" where
  "th_ok gv th \<longleftrightarrow> rq_ok (th_inline_ready th) \<and> (th_async th \<or> th_completed th \<longrightarrow> rq_list (th_inline_ready th) = []) \<and> pc_ok gv th (th_pc th)"

definition count_inv :: "exec_state \<Rightarrow> bool" where
  "count_inv st \<longleftrightarrow> num_outstanding_ops st = int (counted st) \<and>
     agg (\<lambda>th. of_bool (th_completed th)) (threads st) + length (done_calls st) = of_bool (counted st = 0) \<and>
     (x_alive st \<longleftrightarrow> done_calls st = []) \<and> (done_cb st \<longleftrightarrow> x_alive st)"

definition error_inv :: "event list \<Rightarrow> exec_state \<Rightarrow> bool" where
  "error_inv evs st \<longleftrightarrow>
     (\<forall>th. Some th \<in> set (threads st) \<longrightarrow> \<not> status_ok (th_s th) \<longrightarrow>
        (\<exists>t. Failed t (th_s th) \<in> set evs) \<and> (status_ok (x_status st) \<longrightarrow> th_pc th = At_NodeDone)) \<and>
     (if status_ok (x_status st) then x_aborts st = [] else x_aborts st = [x_status st] \<and> (\<exists>t. Failed t (x_status st) \<in> set evs)) \<and>
     (failed evs \<noteq> [] \<longrightarrow> status_ok (x_status st) \<longrightarrow> (\<exists>th. Some th \<in> set (threads st) \<and> \<not> status_ok (th_s th))) \<and>
     (\<forall>t s. Failed t s \<in> set evs \<longrightarrow> \<not> status_ok s)"

definition exec_inv :: "graph_view \<Rightarrow> nat \<Rightarrow> event list \<Rightarrow> exec_state \<Rightarrow> bool" where
  "exec_inv gv n evs st \<longleftrightarrow> tokens_inv gv evs st \<and> (x_alive st \<longrightarrow> frame_inv gv n evs st) \<and>
     (\<forall>th. Some th \<in> set (threads st) \<longrightarrow> th_ok gv th) \<and> count_inv st \<and> error_inv evs st"

section \<open>One thread changes\<close>

lemma thread_at_nth: "thread_at st t = Some th \<longleftrightarrow> t < length (threads st) \<and> threads st ! t = Some th"
  by (auto simp: thread_at_def)

lemma thread_at_mem: "thread_at st t = Some th \<Longrightarrow> Some th \<in> set (threads st)"
  by (metis nth_mem thread_at_nth)

lemma agg_put:
  assumes "thread_at st t = Some th" "threads st' = (threads st)[t := x]"
  shows "agg f (threads st') + f th = agg f (threads st) + (case x of None \<Rightarrow> 0 | Some a \<Rightarrow> f a)"
  using agg_update [of t "threads st" f x] assms by (simp add: thread_at_nth)

lemma agg_keep:
  fixes f :: "thread \<Rightarrow> 'b::cancel_comm_monoid_add"
  assumes "thread_at st t = Some th" "threads st' = (threads st)[t := x]" "(case x of None \<Rightarrow> 0 | Some a \<Rightarrow> f a) = f th"
  shows "agg f (threads st') = agg f (threads st)"
  using agg_put [OF assms(1,2), of f] assms(3) by simp

lemma threads_put:
  "threads (put_thread t x st) = (threads st)[t := x]" "runner_queue (put_thread t x st) = runner_queue st"
  "asyncs (put_thread t x st) = asyncs st" "frames (put_thread t x st) = frames st" "x_status (put_thread t x st) = x_status st"
  "num_outstanding_ops (put_thread t x st) = num_outstanding_ops st" "x_alive (put_thread t x st) = x_alive st"
  "done_cb (put_thread t x st) = done_cb st" "x_aborts (put_thread t x st) = x_aborts st" "done_calls (put_thread t x st) = done_calls st"
  by (simp_all add: put_thread_def)

lemma put_frame_sel:
  "threads (put_frame f fs st) = threads st" "runner_queue (put_frame f fs st) = runner_queue st" "asyncs (put_frame f fs st) = asyncs st"
  "frames (put_frame f fs st) = (frames st)[f := Some fs]" "x_status (put_frame f fs st) = x_status st"
  "num_outstanding_ops (put_frame f fs st) = num_outstanding_ops st" "x_alive (put_frame f fs st) = x_alive st"
  "done_cb (put_frame f fs st) = done_cb st" "x_aborts (put_frame f fs st) = x_aborts st" "done_calls (put_frame f fs st) = done_calls st"
  by (simp_all add: put_frame_def)

lemma set_threads_put:
  assumes "Some a \<in> set ((threads st)[t := x])" "thread_at st t = Some th"
  shows "Some a \<in> set (threads st) \<or> x = Some a"
  using assms set_update_subset_insert [of "threads st" t x] by auto

lemma le_agg:
  fixes f :: "'a \<Rightarrow> nat"
  assumes "Some a \<in> set xs"
  shows "f a \<le> agg f xs"
  unfolding agg_def using assms member_le_sum_list [of "f a" "map (\<lambda>x. case x of None \<Rightarrow> 0 | Some a \<Rightarrow> f a) xs"] by force

lemma agg_eq_0:
  fixes f :: "'a \<Rightarrow> nat"
  assumes "agg f xs = 0" "Some a \<in> set xs"
  shows "f a = 0"
  using le_agg [OF assms(2), of f] assms(1) by simp

lemma agg_sub_mset:
  assumes "Some a \<in> set xs"
  shows "f a \<subseteq># (agg f xs :: 'b multiset)"
  using assms by (induction xs) (auto simp: agg_def intro: subset_mset.add_increasing subset_mset.add_increasing2)

section \<open>Steps that move tokens only\<close>

lemma exec_inv_same:
  assumes "exec_inv gv n evs st" "waiting st' = waiting st" "active st' = active st" "counted st' = counted st"
    "deleting st' = deleting st" "agg (\<lambda>th. of_bool (th_completed th) :: nat) (threads st') = agg (\<lambda>th. of_bool (th_completed th)) (threads st)"
    "frames st' = frames st" "num_outstanding_ops st' = num_outstanding_ops st" "x_alive st' = x_alive st" "done_cb st' = done_cb st"
    "done_calls st' = done_calls st" "\<And>th. Some th \<in> set (threads st') \<Longrightarrow> th_ok gv th" "error_inv evs st'"
  shows "exec_inv gv n evs st'"
proof -
  have "tokens_inv gv evs st' = tokens_inv gv evs st" "count_inv st' = count_inv st" "frame_inv gv n evs st' = frame_inv gv n evs st"
    by (simp_all only: tokens_inv_def count_inv_def frame_inv_def frame_open_def unfinished_def assms(2-11))
  then show ?thesis using assms(1,9,12,13) by (simp add: exec_inv_def)
qed

text \<open>The error part only looks at the statuses of the threads.\<close>

lemma error_inv_same:
  assumes "error_inv evs st" "thread_at st t = Some th" "threads st' = (threads st)[t := x]" "x_status st' = x_status st" "x_aborts st' = x_aborts st"
    "\<And>th'. x = Some th' \<Longrightarrow> th_s th' = th_s th" "status_ok (x_status st) \<Longrightarrow> \<not> status_ok (th_s th) \<Longrightarrow> \<exists>th'. x = Some th' \<and> th_pc th' = At_NodeDone"
  shows "error_inv evs st'"
proof -
  have t: "t < length (threads st)" "Some th \<in> set (threads st)" using assms(2) thread_at_mem by (auto simp: thread_at_nth)
  have mem: "Some a \<in> set (threads st') \<Longrightarrow> Some a \<in> set (threads st) \<or> x = Some a" for a
    using set_threads_put [of a st t x th] assms(2,3) by simp
  have "\<exists>a. Some a \<in> set (threads st') \<and> \<not> status_ok (th_s a)"
    if a: "Some a \<in> set (threads st)" "\<not> status_ok (th_s a)" "status_ok (x_status st)" for a
  proof (cases "a = th")
    case True
    then obtain th' where "x = Some th'" "th_s th' = th_s th" using assms(6,7) a by blast
    moreover from this have "Some th' \<in> set (threads st')" using t(1) by (simp add: assms(3) set_update_memI)
    ultimately show ?thesis using a True by auto
  next
    case False
    obtain j where "j < length (threads st)" "threads st ! j = Some a" using a(1) by (auto simp: in_set_conv_nth)
    moreover from this have "j \<noteq> t" using False assms(2) by (auto simp: thread_at_nth)
    ultimately have "threads st' ! j = Some a" "j < length (threads st')" by (simp_all add: assms(3))
    then have "Some a \<in> set (threads st')" by (metis nth_mem)
    then show ?thesis using a(2) by blast
  qed
  moreover have "(\<exists>u. Failed u (th_s a) \<in> set evs) \<and> (status_ok (x_status st) \<longrightarrow> th_pc a = At_NodeDone)"
    if a: "Some a \<in> set (threads st')" "\<not> status_ok (th_s a)" for a
    using mem [OF a(1)]
  proof
    assume "Some a \<in> set (threads st)"
    then show ?thesis using assms(1) a(2) by (simp add: error_inv_def)
  next
    assume x: "x = Some a"
    then have "th_s a = th_s th" by (rule assms(6))
    then show ?thesis using assms(1,7) a(2) t(2) x by (auto simp: error_inv_def)
  qed
  ultimately show ?thesis using assms(1,4,5) by (auto simp: error_inv_def)
qed

lemma error_inv_more_threads:
  assumes "error_inv evs st" "threads st' = threads st @ [Some th]" "x_status st' = x_status st" "x_aborts st' = x_aborts st" "status_ok (th_s th)"
  shows "error_inv evs st'"
  using assms by (auto simp: error_inv_def)

lemma mset_remove_nth: "i < length xs \<Longrightarrow> add_mset (xs ! i) (mset (take i xs @ drop (Suc i) xs)) = mset xs"
  by (metis id_take_nth_drop mset.simps(2) mset_append union_mset_add_mset_right)

lemma start_inv:
  assumes inv: "exec_inv gv n evs st" and s: "step_start i st = Some (new, st')"
  shows "exec_inv gv n (evs @ new) st'"
proof -
  have i: "i < length (runner_queue st)" and new: "new = []"
    and st': "st' = st\<lparr>runner_queue := take i (runner_queue st) @ drop (Suc i) (runner_queue st),
      threads := threads st @ [Some (Process (runner_queue st ! i))]\<rparr>"
    using s by (auto simp: step_start_def split: if_splits)
  let ?th = "Process (runner_queue st ! i)"
  have th: "th_waiting ?th = {#runner_queue st ! i#}" "th_active ?th = {#}" "th_count ?th = 1" "th_ok gv ?th" "status_ok (th_s ?th)"
    "\<not> is_deleting (th_pc ?th)" "\<not> th_completed ?th"
    by (simp_all add: Process_def th_waiting_def th_active_def th_count_def th_ok_def rq_ops)
  have e: "error_inv evs st" "\<And>th. Some th \<in> set (threads st) \<Longrightarrow> th_ok gv th" using inv by (simp_all add: exec_inv_def)
  have "exec_inv gv n evs st'"
  proof (rule exec_inv_same [OF inv])
    show "waiting st' = waiting st"
      using mset_remove_nth [OF i] by (simp add: waiting_def st' th)
    show "counted st' = counted st" using i by (simp add: counted_def st' th)
    show "error_inv evs st'" by (rule error_inv_more_threads [OF e(1), of st' ?th]) (simp_all add: st' th)
  qed (use e(2) th in \<open>auto simp: st' active_def deleting_def\<close>)
  then show ?thesis by (simp add: new)
qed

lemma exec_invD:
  assumes "exec_inv gv n evs st" "thread_at st t = Some th"
  shows "th_ok gv th" "error_inv evs st" "\<And>a. Some a \<in> set ((threads st)[t := x]) \<Longrightarrow> x = Some a \<or> th_ok gv a"
proof -
  have all: "\<And>th. Some th \<in> set (threads st) \<Longrightarrow> th_ok gv th" using assms(1) by (simp add: exec_inv_def)
  show "th_ok gv th" by (rule all [OF thread_at_mem [OF assms(2)]])
  show "error_inv evs st" using assms(1) by (simp add: exec_inv_def)
  show "\<And>a. Some a \<in> set ((threads st)[t := x]) \<Longrightarrow> x = Some a \<or> th_ok gv a"
    using set_threads_put [OF _ assms(2)] all by blast
qed

text \<open>A thread changes without moving tokens, or ends.\<close>

lemma quiet_inv:
  assumes inv: "exec_inv gv n evs st" and t: "thread_at st t = Some th" and st': "st' = put_thread t x st"
    and same: "(case x of None \<Rightarrow> {#} | Some a \<Rightarrow> th_waiting a) = th_waiting th" "(case x of None \<Rightarrow> {#} | Some a \<Rightarrow> th_active a) = th_active th"
      "(case x of None \<Rightarrow> 0 | Some a \<Rightarrow> th_count a) = th_count th" "(case x of None \<Rightarrow> False | Some a \<Rightarrow> is_deleting (th_pc a)) = is_deleting (th_pc th)"
      "(case x of None \<Rightarrow> False | Some a \<Rightarrow> th_completed a) = th_completed th"
    and ok: "\<And>a. x = Some a \<Longrightarrow> th_ok gv a \<and> th_s a = th_s th" and err: "th_pc th \<noteq> At_NodeDone"
  shows "exec_inv gv n evs st'"
proof (rule exec_inv_same [OF inv])
  note D = exec_invD [OF inv t]
  have thr: "threads st' = (threads st)[t := x]" by (simp add: st' threads_put)
  note keep = agg_keep [OF t thr]
  have k: "agg th_waiting (threads st') = agg th_waiting (threads st)" "agg th_active (threads st') = agg th_active (threads st)"
    "agg th_count (threads st') = agg th_count (threads st)"
    by (rule keep, use same in \<open>simp add: zero_multiset_def\<close>)+
  show "waiting st' = waiting st" "active st' = active st" "counted st' = counted st"
    using k by (simp_all add: waiting_def active_def counted_def st' threads_put)
  show "deleting st' = deleting st" unfolding deleting_def by (rule keep) (use same(4) in \<open>auto split: option.splits\<close>)
  show "agg (\<lambda>th. of_bool (th_completed th) :: nat) (threads st') = agg (\<lambda>th. of_bool (th_completed th)) (threads st)"
    by (rule keep) (use same(5) in \<open>auto split: option.splits\<close>)
  show "\<And>a. Some a \<in> set (threads st') \<Longrightarrow> th_ok gv a" using D(3) ok thr by auto
  show "error_inv evs st'"
  proof (rule error_inv_same [OF D(2) t thr])
    assume "status_ok (x_status st)" "\<not> status_ok (th_s th)"
    then show "\<exists>th'. x = Some th' \<and> th_pc th' = At_NodeDone" using D(2) thread_at_mem [OF t] err by (auto simp: error_inv_def)
  qed (use ok in \<open>auto simp: st' threads_put\<close>)
qed (simp_all add: st' threads_put)

section \<open>The end of a node\<close>

definition mset_opt :: "'a option \<Rightarrow> 'a multiset" where
  "mset_opt c = (case c of None \<Rightarrow> {#} | Some x \<Rightarrow> {#x#})"

lemma mset_opt_simps [simp]: "mset_opt None = {#}" "mset_opt (Some x) = {#x#}"
  by (simp_all add: mset_opt_def)

lemma schedule_loop_ok:
  assumes "rq_ok q" "\<And>t. t \<in> set ts \<Longrightarrow> item_at gv (tn_node t) \<noteq> None"
  shows "\<exists>q' c' run'. schedule_loop gv ts q c run = Some (q', c', run') \<and> rq_ok q' \<and>
    mset (rq_list q') + mset_opt c' + mset run' = mset (rq_list q) + mset_opt c + mset run + mset ts"
  using assms
proof (induction ts arbitrary: q c run)
  case (Cons t ts)
  obtain item where item: "item_at gv (tn_node t) = Some item" using Cons.prems(2) [of t] by auto
  have ts: "\<And>u. u \<in> set ts \<Longrightarrow> item_at gv (tn_node u) \<noteq> None" using Cons.prems(2) by simp
  show ?case
  proof (cases "tn_dead t \<or> \<not> kernel_is_expensive item")
    case True
    obtain q' c' run' where "schedule_loop gv ts (rq_push_back t q) c run = Some (q', c', run')" "rq_ok q'"
      "mset (rq_list q') + mset_opt c' + mset run' = mset (rq_list (rq_push_back t q)) + mset_opt c + mset run + mset ts"
      using Cons.IH [OF rq_ops(3) [OF Cons.prems(1)] ts, of t c run] by blast
    then show ?thesis using True item rq_ops(4) [OF Cons.prems(1), of t] by simp
  next
    case False
    let ?run = "case c of Some x \<Rightarrow> run @ [x] | None \<Rightarrow> run"
    obtain q' c' run' where *: "schedule_loop gv ts q (Some t) ?run = Some (q', c', run')" "rq_ok q'"
      "mset (rq_list q') + mset_opt c' + mset run' = mset (rq_list q) + mset_opt (Some t) + mset ?run + mset ts"
      using Cons.IH [OF Cons.prems(1) ts, of "Some t" ?run] by blast
    have "mset (rq_list q) + mset_opt (Some t) + mset ?run + mset ts = mset (rq_list q) + mset_opt c + mset run + mset (t # ts)"
      by (cases c) simp_all
    then show ?thesis using False item * by simp
  qed
qed simp

lemma ScheduleReady_ok:
  assumes "rq_ok q" "\<And>t. t \<in> set ts \<Longrightarrow> item_at gv (tn_node t) \<noteq> None"
  shows "\<exists>q' run. ScheduleReady gv ts (Some q) = Some (Some q', run) \<and> rq_ok q' \<and> mset (rq_list q') + mset run = mset (rq_list q) + mset ts"
proof (cases "ts = []")
  case True
  then show ?thesis using assms(1) by (simp add: ScheduleReady_def)
next
  case False
  obtain q' c run where l: "schedule_loop gv ts q None [] = Some (q', c, run)" "rq_ok q'"
    "mset (rq_list q') + mset_opt c + mset run = mset (rq_list q) + mset_opt None + mset [] + mset ts"
    using schedule_loop_ok [OF assms, where c = None and run = "[]"] by blast
  show ?thesis
  proof (cases c)
    case None
    then have "ScheduleReady gv ts (Some q) = Some (Some q', run)" using l(1) False by (simp add: ScheduleReady_def)
    then show ?thesis using l None by simp
  next
    case (Some x)
    show ?thesis
    proof (cases "rq_empty q'")
      case True
      then have "ScheduleReady gv ts (Some q) = Some (Some (rq_push_back x q'), run)" using l(1) False Some by (simp add: ScheduleReady_def)
      then show ?thesis using l Some rq_ops(3,4) [OF l(2), of x] by simp
    next
      case ne: False
      then have "ScheduleReady gv ts (Some q) = Some (Some q', run @ [x])" using l(1) False Some by (simp add: ScheduleReady_def)
      then show ?thesis using l Some by simp
    qed
  qed
qed

lemma waiting_tok_ok:
  assumes "exec_inv gv n evs st" "thread_at st t = Some th" "u \<in># th_waiting th + th_active th"
  shows "tok_ok gv (arrivals gv evs) u"
proof -
  have "th_waiting th \<subseteq># waiting st" "th_active th \<subseteq># active st"
    using agg_sub_mset [OF thread_at_mem [OF assms(2)], of th_waiting] agg_sub_mset [OF thread_at_mem [OF assms(2)], of th_active]
    by (auto simp: waiting_def active_def intro: subset_mset.add_increasing subset_mset.add_increasing2)
  then have "u \<in># waiting st + active st" using assms(3) by (meson mset_subset_eqD mset_subset_eq_mono_add)
  then show ?thesis using assms(1) by (simp add: exec_inv_def tokens_inv_def)
qed

lemma loop_inv:
  assumes inv: "exec_inv gv n evs st" and t: "thread_at st t = Some th" and pc: "th_pc th = At_Loop" "rq_empty (th_inline_ready th)"
  shows "\<exists>st'. step_go P impl t st = Some ([], st') \<and> exec_inv gv n evs st'"
proof -
  note D = exec_invD [OF inv t]
  have e: "rq_list (th_inline_ready th) = []" using D(1) pc(2) rq_ops(5) by (simp add: th_ok_def)
  let ?x = "if th_completed th then Some (th\<lparr>th_pc := At_Finish\<rparr>) else None"
  have "step_go P impl t st = Some ([], put_thread t ?x st)" using t pc by (simp add: step_go_def)
  moreover have "exec_inv gv n evs (put_thread t ?x st)"
    by (rule quiet_inv [OF inv t refl])
      (use D(1) pc e in \<open>auto simp: th_waiting_def th_active_def th_count_def th_ok_def zero_multiset_def split: if_splits\<close>)
  ultimately show ?thesis by blast
qed

lemma schedule_inv:
  assumes inv: "exec_inv (gview impl) n evs st" and t: "thread_at st t = Some th" and pc: "th_pc th = At_Schedule"
  shows "\<exists>st'. step_go P impl t st = Some ([], st') \<and> exec_inv (gview impl) n evs st'"
proof -
  let ?gv = "gview impl"
  note D = exec_invD [OF inv t]
  let ?ready = "if status_ok (th_s th) then th_ready th else []"
  have ok: "rq_ok (th_inline_ready th)" "th_async th \<or> th_completed th \<longrightarrow> rq_list (th_inline_ready th) = []"
    "th_completed th \<longrightarrow> ?ready = []" using D(1) pc by (auto simp: th_ok_def)
  have items: "item_at ?gv (tn_node u) \<noteq> None" if "u \<in> set ?ready" for u
    using waiting_tok_ok [OF inv t, of u] that pc by (auto simp: th_waiting_def tok_ok_def split: if_splits)
  have w: "th_waiting th = mset (rq_list (th_inline_ready th)) + mset ?ready" "th_active th = {#}"
    "th_count th = length (rq_list (th_inline_ready th)) + length ?ready" using pc by (simp_all add: th_waiting_def th_active_def th_count_def)
  have alive: "x_alive st" if "?ready \<noteq> []"
  proof -
    have "th_count th \<le> counted st" using le_agg [OF thread_at_mem [OF t], of th_count] by (simp add: counted_def)
    moreover have "0 < length ?ready" using that by blast
    ultimately have "counted st \<noteq> 0" using w(3) by linarith
    then show ?thesis using inv by (simp add: exec_inv_def count_inv_def split: if_splits)
  qed
  obtain x q' run where x: "node_done_schedule impl th st = Some (x, st\<lparr>runner_queue := runner_queue st @ run\<rparr>)"
    "mset run + (case x of None \<Rightarrow> {#} | Some a \<Rightarrow> th_waiting a) = th_waiting th" "(case x of None \<Rightarrow> {#} | Some a \<Rightarrow> th_active a) = {#}"
    "(case x of None \<Rightarrow> 0 | Some a \<Rightarrow> th_count a) + length run = th_count th" "(case x of None \<Rightarrow> False | Some a \<Rightarrow> is_deleting (th_pc a)) = False"
    "(case x of None \<Rightarrow> False | Some a \<Rightarrow> th_completed a) = th_completed th" "\<And>a. x = Some a \<Longrightarrow> th_ok ?gv a \<and> th_s a = th_s th"
  proof (cases "th_async th")
    case True
    let ?x = "if th_completed th then Some (th\<lparr>th_pc := At_Finish\<rparr>) else None"
    have "node_done_schedule impl th st = Some (?x, st\<lparr>runner_queue := runner_queue st @ ?ready\<rparr>)"
      using True by (simp add: node_done_schedule_def ScheduleReady_def Let_def)
    then show thesis using that [of ?x ?ready] True ok w
      by (auto simp: th_waiting_def th_active_def th_count_def th_ok_def pc split: if_splits)
  next
    case False
    obtain q' run where q: "ScheduleReady ?gv ?ready (Some (th_inline_ready th)) = Some (Some q', run)" "rq_ok q'"
      "mset (rq_list q') + mset run = mset (rq_list (th_inline_ready th)) + mset ?ready"
      using ScheduleReady_ok [OF ok(1), of ?ready ?gv] items by blast
    let ?x = "Some (th\<lparr>th_inline_ready := q', th_pc := At_Loop\<rparr>)"
    have size: "length (rq_list q') + length run = length (rq_list (th_inline_ready th)) + length ?ready"
      using arg_cong [OF q(3), of size] by simp
    have "node_done_schedule impl th st = Some (?x, st\<lparr>runner_queue := runner_queue st @ run\<rparr>)"
      using False q(1) by (simp add: node_done_schedule_def Let_def del: if_split)
    moreover have "rq_list q' = []" if "th_completed th" using q(3) ok(2,3) that by auto
    ultimately show thesis using that [of ?x run] False q size w by (auto simp: th_waiting_def th_active_def th_count_def th_ok_def ac_simps)
  qed
  let ?st = "put_thread t x (st\<lparr>runner_queue := runner_queue st @ run\<rparr>)"
  have "step_go P impl t st = Some ([], ?st)" proof -
    have "th_ready th = [] \<or> \<not> status_ok (th_s th) \<or> x_alive st" using alive by (cases "status_ok (th_s th)"; cases "th_ready th") simp_all
    then show ?thesis using t pc x(1) by (simp add: step_go_def)
  qed
  moreover have "exec_inv ?gv n evs ?st"
  proof (rule exec_inv_same [OF inv])
    have thr: "threads ?st = (threads st)[t := x]" by (simp add: threads_put)
    have p: "agg th_waiting (threads ?st) + th_waiting th = agg th_waiting (threads st) + (case x of None \<Rightarrow> {#} | Some a \<Rightarrow> th_waiting a)"
      "agg th_count (threads ?st) + th_count th = agg th_count (threads st) + (case x of None \<Rightarrow> 0 | Some a \<Rightarrow> th_count a)"
      using agg_put [OF t thr, of th_waiting] agg_put [OF t thr, of th_count] by (simp_all add: zero_multiset_def)
    show "waiting ?st = waiting st"
    proof -
      have "agg th_waiting (threads ?st) + mset run + th_waiting th = agg th_waiting (threads st) + (mset run + (case x of None \<Rightarrow> {#} | Some a \<Rightarrow> th_waiting a))"
        using p(1) by (simp add: ac_simps)
      then have "agg th_waiting (threads ?st) + mset run = agg th_waiting (threads st)" unfolding x(2) by simp
      then show ?thesis by (simp add: waiting_def threads_put ac_simps)
    qed
    show "counted ?st = counted st" using p(2) x(4) by (simp add: counted_def threads_put)
    show "active ?st = active st" using agg_keep [OF t thr, of th_active] x(3) w(2) by (simp add: active_def threads_put zero_multiset_def)
    show "deleting ?st = deleting st" unfolding deleting_def by (rule agg_keep [OF t thr]) (use x(5) pc in \<open>auto split: option.splits\<close>)
    show "agg (\<lambda>th. of_bool (th_completed th) :: nat) (threads ?st) = agg (\<lambda>th. of_bool (th_completed th)) (threads st)"
      by (rule agg_keep [OF t thr]) (use x(6) in \<open>auto split: option.splits\<close>)
    show "\<And>a. Some a \<in> set (threads ?st) \<Longrightarrow> th_ok ?gv a" using D(3) x(7) thr by auto
    show "error_inv evs ?st"
    proof (rule error_inv_same [OF D(2) t thr])
      assume "status_ok (x_status st)" "\<not> status_ok (th_s th)"
      then show "\<exists>th'. x = Some th' \<and> th_pc th' = At_NodeDone" using D(2) thread_at_mem [OF t] pc by (auto simp: error_inv_def)
    qed (use x(7) in \<open>auto simp: threads_put\<close>)
  qed (simp_all add: threads_put)
  ultimately show ?thesis by blast
qed

end
