(* ===== verification/TF_ExecutorSteps.thy ===== *)
theory TF_ExecutorSteps
  imports TF_ExecutorRun
begin

text \<open>
  Every enabled step of a run on a view without frames succeeds and keeps the invariant: the end of a
  node, its propagation, its beginning and the return of its kernel.
\<close>

section \<open>The steps of \<open>NodeDone\<close>\<close>

lemma exec_inv_counts:
  assumes "exec_inv gv n evs st" "waiting st' = waiting st" "active st' = active st" "deleting st' = deleting st"
    "frames st' = frames st" "x_alive st' = x_alive st" "\<And>th. Some th \<in> set (threads st') \<Longrightarrow> th_ok gv th"
    "count_inv st'" "error_inv evs st'"
  shows "exec_inv gv n evs st'"
proof -
  have "tokens_inv gv evs st' = tokens_inv gv evs st" "frame_inv gv n evs st' = frame_inv gv n evs st"
    by (simp_all only: tokens_inv_def frame_inv_def frame_open_def unfinished_def assms(2-5))
  then show ?thesis using assms(1,6-9) by (simp add: exec_inv_def)
qed

lemma threads_ok:
  assumes "exec_inv gv n evs st" "thread_at st t = Some th" "threads st' = (threads st)[t := x]" "\<And>a. x = Some a \<Longrightarrow> th_ok gv a"
    "Some a \<in> set (threads st')"
  shows "th_ok gv a"
  using exec_invD(3) [OF assms(1,2), of a x] assms(3-5) by auto

lemma th_count_counted:
  assumes "thread_at st t = Some th"
  shows "th_count th \<le> counted st"
  using le_agg [OF thread_at_mem [OF assms], of th_count] by (simp add: counted_def)

lemma counted_alive:
  assumes "exec_inv gv n evs st" "0 < counted st"
  shows "x_alive st" "done_calls st = []" "agg (\<lambda>th. of_bool (th_completed th) :: nat) (threads st) = 0"
  using assms by (simp_all add: exec_inv_def count_inv_def split: if_splits)

lemma thread_alive:
  assumes "exec_inv gv n evs st" "thread_at st t = Some th" "0 < th_count th"
  shows "x_alive st" "done_calls st = []" "agg (\<lambda>th. of_bool (th_completed th) :: nat) (threads st) = 0" "\<not> th_completed th"
proof -
  have c: "0 < counted st" using th_count_counted [OF assms(2)] assms(3) by simp
  show "x_alive st" "done_calls st = []" and 0: "agg (\<lambda>th. of_bool (th_completed th) :: nat) (threads st) = 0"
    by (rule counted_alive [OF assms(1) c])+
  show "\<not> th_completed th" using agg_eq_0 [OF 0 thread_at_mem [OF assms(2)]] by (simp split: if_splits)
qed

lemma status_inv:
  assumes inv: "exec_inv (gview impl) n evs st" and t: "thread_at st t = Some th" and pc: "th_pc th = At_NodeDone"
  shows "\<exists>st'. step_go P impl t st = Some ([], st') \<and> exec_inv (gview impl) n evs st'"
proof -
  note D = exec_invD [OF inv t]
  have tc: "0 < th_count th" using pc by (simp add: th_count_def)
  note A = thread_alive [OF inv t tc]
  let ?fresh = "\<not> status_ok (th_s th) \<and> status_ok (x_status st)"
  let ?th = "th\<lparr>th_pc := At_Count\<rparr>"
  let ?st = "put_thread t (Some ?th) (if ?fresh then st\<lparr>x_status := th_s th, x_aborts := x_aborts st @ [th_s th]\<rparr> else st)"
  have step: "step_go P impl t st = Some ([], ?st)" using t pc A(1) by (simp add: step_go_def node_done_status_def)
  have thr: "threads ?st = (threads st)[t := Some ?th]" by (simp add: threads_put)
  have same: "th_waiting ?th = th_waiting th" "th_active ?th = th_active th" "th_count ?th = th_count th"
    using pc by (simp_all add: th_waiting_def th_active_def th_count_def)
  have k: "agg th_waiting (threads ?st) = agg th_waiting (threads st)" "agg th_active (threads ?st) = agg th_active (threads st)"
    "agg th_count (threads ?st) = agg th_count (threads st)" by (rule agg_keep [OF t thr], simp add: same)+
  have "exec_inv (gview impl) n evs ?st"
  proof (rule exec_inv_same [OF inv])
    show "waiting ?st = waiting st" "active ?st = active st" "counted ?st = counted st"
      using k by (simp_all add: waiting_def active_def counted_def threads_put)
    show "deleting ?st = deleting st" unfolding deleting_def by (rule agg_keep [OF t thr]) (simp add: pc)
    show "agg (\<lambda>th. of_bool (th_completed th) :: nat) (threads ?st) = agg (\<lambda>th. of_bool (th_completed th)) (threads st)"
      by (rule agg_keep [OF t thr]) simp
    show "\<And>a. Some a \<in> set (threads ?st) \<Longrightarrow> th_ok (gview impl) a"
      by (rule threads_ok [OF inv t thr]) (use D(1) pc in \<open>auto simp: th_ok_def\<close>)
    have E: "error_inv evs st" by (rule D(2))
    have bad: "\<exists>u. Failed u (th_s th) \<in> set evs" if "\<not> status_ok (th_s th)"
      using E that thread_at_mem [OF t] by (auto simp: error_inv_def)
    show "error_inv evs ?st"
    proof (cases ?fresh)
      case True
      have "\<exists>u. Failed u (th_s a) \<in> set evs" if "Some a \<in> set (threads ?st)" "\<not> status_ok (th_s a)" for a
        using set_threads_put [OF that(1) [unfolded thr] t] E that(2) bad by (auto simp: error_inv_def)
      moreover have "x_status ?st = th_s th" "x_aborts ?st = [th_s th]" using True E by (auto simp: threads_put error_inv_def)
      ultimately show ?thesis using True bad E by (auto simp: error_inv_def)
    next
      case False
      show ?thesis by (rule error_inv_same [OF E t thr]) (use False in \<open>auto simp: threads_put\<close>)
    qed
  qed (simp_all add: threads_put)
  then show ?thesis using step by blast
qed

lemma count_step_inv:
  assumes inv: "exec_inv (gview impl) n evs st" and t: "thread_at st t = Some th" and pc: "th_pc th = At_Count"
  shows "\<exists>st'. step_go P impl t st = Some ([], st') \<and> exec_inv (gview impl) n evs st'"
proof -
  note D = exec_invD [OF inv t]
  have tc: "th_count th = length (rq_list (th_inline_ready th)) + 1" using pc by (simp add: th_count_def)
  then have tc0: "0 < th_count th" by simp
  note A = thread_alive [OF inv t tc0]
  let ?none = "length (th_ready th) = 0 \<or> \<not> status_ok (th_s th)"
  obtain th' st1 where nd: "node_done_count th st = (th', st1)" by (cases "node_done_count th st")
  let ?st = "put_thread t (Some th') st1"
  have num: "num_outstanding_ops st = int (counted st)" using inv by (simp add: exec_inv_def count_inv_def)
  have th': "th' = th\<lparr>th_completed := (?none \<and> counted st = 1), th_pc := At_Schedule\<rparr>"
    and st1: "st1 = st\<lparr>num_outstanding_ops := num_outstanding_ops st - 1 + (if ?none then 0 else int (length (th_ready th)))\<rparr>"
    using nd num by (cases "th_ready th"; auto simp: node_done_count_def Let_def split: if_splits)+
  have step: "step_go P impl t st = Some ([], ?st)" using t pc A(1) nd by (simp add: step_go_def)
  have thr: "threads ?st = (threads st)[t := Some th']" by (simp add: threads_put st1)
  have k: "agg th_waiting (threads ?st) = agg th_waiting (threads st)" "agg th_active (threads ?st) = agg th_active (threads st)"
    by (rule agg_keep [OF t thr], simp add: th' th_waiting_def th_active_def pc)+
  have tc': "th_count th' = length (rq_list (th_inline_ready th)) + (if ?none then 0 else length (th_ready th))"
    by (auto simp: th_count_def th')
  have cnt: "counted ?st + th_count th = counted st + th_count th'"
    using agg_put [OF t thr, of th_count] by (simp add: counted_def threads_put st1)
  have comp: "agg (\<lambda>th. of_bool (th_completed th) :: nat) (threads ?st) = of_bool (?none \<and> counted st = 1)"
    using agg_put [OF t thr, of "\<lambda>th. of_bool (th_completed th) :: nat"] A(3,4) by (simp add: th')
  have zero: "?none \<and> counted st = 1 \<longleftrightarrow> counted ?st = 0"
  proof (cases ?none)
    case True
    then have "counted ?st + 1 = counted st" using cnt tc tc' by (simp only: if_True)
    then show ?thesis using True by auto
  next
    case False
    then have "0 < length (th_ready th)" by simp
    moreover have "counted ?st + 1 = counted st + length (th_ready th)" using cnt tc tc' False by (simp only: if_False)
    ultimately have "counted ?st \<noteq> 0" using th_count_counted [OF t] tc by linarith
    then show ?thesis using False by blast
  qed
  have "exec_inv (gview impl) n evs ?st"
  proof (rule exec_inv_counts [OF inv])
    show "waiting ?st = waiting st" "active ?st = active st" using k by (simp_all add: waiting_def active_def threads_put st1)
    show "deleting ?st = deleting st" unfolding deleting_def by (rule agg_keep [OF t thr]) (simp add: pc th')
    have "rq_list (th_inline_ready th) = []" if "th_completed th'"
    proof -
      have "counted ?st = 0" using that zero by (simp add: th')
      then have "th_count th' = 0" using cnt th_count_counted [OF t] by linarith
      then show ?thesis by (simp add: th_count_def th')
    qed
    then have ok: "th_ok (gview impl) th'" using D(1) pc by (auto simp: th_ok_def th')
    show "\<And>a. Some a \<in> set (threads ?st) \<Longrightarrow> th_ok (gview impl) a" by (rule threads_ok [OF inv t thr]) (use ok in auto)
    have "num_outstanding_ops ?st = int (counted ?st)"
    proof (cases ?none)
      case True
      then have "counted ?st + 1 = counted st" using cnt tc tc' by (simp only: if_True)
      then show ?thesis using True num by (simp add: threads_put st1)
    next
      case False
      then have "counted ?st + 1 = counted st + length (th_ready th)" using cnt tc tc' by (simp only: if_False)
      then show ?thesis using False num by (simp add: threads_put st1)
    qed
    then show "count_inv ?st"
      unfolding count_inv_def comp using zero A(1,2) inv by (auto simp: threads_put st1 exec_inv_def count_inv_def)
    show "error_inv evs ?st"
    proof (rule error_inv_same [OF D(2) t thr])
      assume "status_ok (x_status st)" "\<not> status_ok (th_s th)"
      then show "\<exists>th''. Some th' = Some th'' \<and> th_pc th'' = At_NodeDone" using D(2) thread_at_mem [OF t] pc by (auto simp: error_inv_def)
    qed (simp_all add: threads_put st1 th')
  qed (simp_all add: threads_put st1)
  then show ?thesis using step by blast
qed

text \<open>When nothing is counted any more, the status is that of a failed node, or OK when there is none.\<close>

lemma quiescent_status:
  assumes "exec_inv gv n evs st" "counted st = 0"
  shows "status_ok (x_status st) \<longleftrightarrow> failed evs = []" "\<not> status_ok (x_status st) \<Longrightarrow> \<exists>t. Failed t (x_status st) \<in> set evs"
proof -
  have E: "error_inv evs st" using assms(1) by (simp add: exec_inv_def)
  have "agg th_count (threads st) = 0" using assms(2) by (simp add: counted_def)
  then have no: "th_pc th \<noteq> At_NodeDone" if "Some th \<in> set (threads st)" for th
    using agg_eq_0 [OF _ that, of th_count] by (auto simp: th_count_def)
  have f: "failed evs \<noteq> []" if "Failed t s \<in> set evs" for t s
    using split_list [OF that] by auto
  show "status_ok (x_status st) \<longleftrightarrow> failed evs = []"
    using E no f unfolding error_inv_def by (metis (no_types, lifting))
  show "\<not> status_ok (x_status st) \<Longrightarrow> \<exists>t. Failed t (x_status st) \<in> set evs" using E by (simp add: error_inv_def)
qed

section \<open>The end of the execution\<close>

lemma finish_inv:
  assumes inv: "exec_inv (gview impl) n evs st" and t: "thread_at st t = Some th" and pc: "th_pc th = At_Finish"
  shows "\<exists>s st'. step_go P impl t st = Some ([DoneCalled s], st') \<and> exec_inv (gview impl) n (evs @ [DoneCalled s]) st' \<and>
    s = (if sync_on_finish P \<and> status_ok (x_status st) then device_Sync P else x_status st)"
proof -
  note D = exec_invD [OF inv t]
  have c: "count_inv st" using inv by (simp add: exec_inv_def)
  have comp: "th_completed th" using D(1) pc by (simp add: th_ok_def)
  have "1 \<le> agg (\<lambda>th. of_bool (th_completed th) :: nat) (threads st)"
    using le_agg [OF thread_at_mem [OF t], of "\<lambda>th. of_bool (th_completed th)"] comp by simp
  then have Z: "counted st = 0" "done_calls st = []" "agg (\<lambda>th. of_bool (th_completed th) :: nat) (threads st) = 1"
  proof -
    have "agg (\<lambda>th. of_bool (th_completed th) :: nat) (threads st) + length (done_calls st) = of_bool (counted st = 0)"
      using c by (simp add: count_inv_def)
    moreover have b: "of_bool (counted st = 0) \<le> (1::nat)" "of_bool (counted st = 0) = (1::nat) \<Longrightarrow> counted st = 0" by (cases "counted st = 0"; simp)+
    ultimately have R: "length (done_calls st) = 0 \<and> of_bool (counted st = 0) = (1::nat) \<and>
        agg (\<lambda>th. of_bool (th_completed th) :: nat) (threads st) = 1" using \<open>1 \<le> _\<close> by linarith
    show "counted st = 0" "done_calls st = []" "agg (\<lambda>th. of_bool (th_completed th) :: nat) (threads st) = 1"
      using R b(2) length_0_conv by blast+
  qed
  have alive: "x_alive st" "done_cb st" using c Z(2) by (simp_all add: count_inv_def)
  let ?s = "if sync_on_finish P \<and> status_ok (x_status st) then device_Sync P else x_status st"
  let ?st = "put_thread t None (st\<lparr>done_cb := False, x_alive := False, frames := map (\<lambda>_. None) (frames st),
    outstanding_frames := (\<lambda>_. None), done_calls := done_calls st @ [?s]\<rparr>)"
  have step: "step_go P impl t st = Some ([DoneCalled ?s], ?st)"
    using t pc alive by (simp add: step_go_def Finish_def Let_def)
  have thr: "threads ?st = (threads st)[t := None]" by (simp add: threads_put)
  have "th_count th \<le> 0" using th_count_counted [OF t] Z(1) by simp
  then have "rq_list (th_inline_ready th) = []" by (simp add: th_count_def)
  then have same: "th_waiting th = {#}" "th_active th = {#}" "th_count th = 0" using pc by (simp_all add: th_waiting_def th_active_def th_count_def)
  have k: "agg th_waiting (threads ?st) = agg th_waiting (threads st)" "agg th_active (threads ?st) = agg th_active (threads st)"
    "agg th_count (threads ?st) = agg th_count (threads st)" by (rule agg_keep [OF t thr], simp add: same)+
  then have T: "waiting ?st = waiting st" "active ?st = active st" "counted ?st = counted st"
    by (simp_all add: waiting_def active_def counted_def threads_put)
  have "exec_inv (gview impl) n (evs @ [DoneCalled ?s]) ?st"
    unfolding exec_inv_def
  proof (intro conjI impI allI)
    show "tokens_inv (gview impl) (evs @ [DoneCalled ?s]) ?st"
      using inv unfolding exec_inv_def tokens_inv_def T by simp
    show "frame_inv (gview impl) n (evs @ [DoneCalled ?s]) ?st" if "x_alive ?st" using that by (simp add: threads_put)
    show "th_ok (gview impl) a" if "Some a \<in> set (threads ?st)" for a
      by (rule threads_ok [OF inv t thr _ that]) simp
    have "agg (\<lambda>th. of_bool (th_completed th) :: nat) (threads ?st) = 0"
      using agg_put [OF t thr, of "\<lambda>th. of_bool (th_completed th) :: nat"] Z(3) comp by simp
    then show "count_inv ?st" using c Z T(3) by (simp add: count_inv_def threads_put)
    have E: "error_inv evs st" by (rule D(2))
    have "status_ok (x_status st) \<longrightarrow> failed evs = []" using quiescent_status(1) [OF inv Z(1)] by simp
    then show "error_inv (evs @ [DoneCalled ?s]) ?st"
      using E set_threads_put [OF _ t, of _ None] by (auto simp: error_inv_def threads_put)
  qed
  then show ?thesis using step by blast
qed

section \<open>The root frame is deleted\<close>

lemma deleting_frame:
  assumes "exec_inv gv n evs st" "thread_at st t = Some th" "is_deleting (th_pc th)"
  shows "x_alive st" "unfinished evs st = 0" "deleting st = 1" "\<exists>fs. frames st = [Some fs] \<and> parent_frame fs = None"
proof -
  have "0 < th_count th" using assms(3) by (cases "th_pc th") (simp_all add: th_count_def)
  then show a: "x_alive st" by (rule thread_alive [OF assms(1,2)])
  have "1 \<le> deleting st" unfolding deleting_def
    using le_agg [OF thread_at_mem [OF assms(2)], of "\<lambda>th. of_bool (is_deleting (th_pc th))"] assms(3) by simp
  moreover have "frame_inv gv n evs st" using assms(1) a by (simp add: exec_inv_def)
  ultimately show "unfinished evs st = 0" "deleting st = 1" "\<exists>fs. frames st = [Some fs] \<and> parent_frame fs = None"
    by (auto simp: frame_inv_def split: if_splits)
qed

lemma delete_inv:
  assumes inv: "exec_inv (gview impl) n evs st" and t: "thread_at st t = Some th" and pc: "th_pc th = At_Delete f"
  shows "\<exists>st'. step_go P impl t st = Some ([], st') \<and> exec_inv (gview impl) n evs st'"
proof -
  note D = exec_invD [OF inv t]
  note F = deleting_frame [OF inv t]
  obtain fs where fs: "frames st = [Some fs]" "parent_frame fs = None" using F(4) pc by auto
  have f: "f = 0" "status_ok (th_s th)" "th_ready th = []" "\<not> th_completed th" using D(1) pc by (simp_all add: th_ok_def)
  have fa: "frame_at st f = Some fs" using fs f by (simp add: frame_at_def)
  let ?th = "th\<lparr>th_ready := th_ready th, th_pc := At_Erase f (parent_frame fs) (parent_iter fs)\<rparr>"
  have "step_go P impl t st = Some ([], put_thread t (Some ?th) st)"
    using t pc F(1) fa fs(2) by (simp add: step_go_def DeleteFrame_exits_def)
  moreover have "exec_inv (gview impl) n evs (put_thread t (Some ?th) st)"
    by (rule quiet_inv [OF inv t refl])
      (use D(1) pc f fs in \<open>simp_all add: th_waiting_def th_active_def th_count_def th_ok_def\<close>)
  ultimately show ?thesis by blast
qed

lemma erase_inv:
  assumes inv: "exec_inv (gview impl) n evs st" and t: "thread_at st t = Some th" and pc: "th_pc th = At_Erase f p i"
  shows "\<exists>st'. step_go P impl t st = Some ([], st') \<and> exec_inv (gview impl) n evs st'"
proof -
  note D = exec_invD [OF inv t]
  have isd: "is_deleting (th_pc th)" using pc by simp
  note F = deleting_frame [OF inv t isd]
  obtain fs where fs: "frames st = [Some fs]" "parent_frame fs = None" using F(4) by auto
  have f: "f = 0" "p = None" "status_ok (th_s th)" "th_ready th = []" "\<not> th_completed th" using D(1) pc by (simp_all add: th_ok_def)
  let ?th = "th\<lparr>th_pc := At_NodeDone\<rparr>"
  let ?st = "put_thread t (Some ?th) (st\<lparr>outstanding_frames := (outstanding_frames st)(frame_name fs := None), frames := [None]\<rparr>)"
  have step: "step_go P impl t st = Some ([], ?st)"
    using t pc F(1) fs f by (simp add: step_go_def DeleteFrame_erase_def frame_at_def)
  have thr: "threads ?st = (threads st)[t := Some ?th]" by (simp add: threads_put)
  have same: "th_waiting ?th = th_waiting th" "th_active ?th = th_active th" "th_count ?th = th_count th"
    using pc by (simp_all add: th_waiting_def th_active_def th_count_def)
  have k: "agg th_waiting (threads ?st) = agg th_waiting (threads st)" "agg th_active (threads ?st) = agg th_active (threads st)"
    "agg th_count (threads ?st) = agg th_count (threads st)" by (rule agg_keep [OF t thr], simp add: same)+
  then have T: "waiting ?st = waiting st" "active ?st = active st" "counted ?st = counted st"
    by (simp_all add: waiting_def active_def counted_def threads_put)
  have del: "deleting ?st = 0"
    using agg_put [OF t thr, of "\<lambda>th. of_bool (is_deleting (th_pc th)) :: nat"] F(3) pc by (simp add: deleting_def)
  have comp: "agg (\<lambda>th. of_bool (th_completed th) :: nat) (threads ?st) = agg (\<lambda>th. of_bool (th_completed th)) (threads st)"
    by (rule agg_keep [OF t thr]) simp
  have "exec_inv (gview impl) n evs ?st"
    unfolding exec_inv_def
  proof (intro conjI impI allI)
    show "tokens_inv (gview impl) evs ?st" using inv unfolding exec_inv_def tokens_inv_def T by simp
    show "frame_inv (gview impl) n evs ?st" using F(2) del by (simp add: frame_inv_def unfinished_def T)
    show "th_ok (gview impl) a" if "Some a \<in> set (threads ?st)" for a
      by (rule threads_ok [OF inv t thr _ that]) (use D(1) pc f in \<open>auto simp: th_ok_def\<close>)
    show "count_inv ?st" using inv unfolding exec_inv_def count_inv_def comp T by (simp add: threads_put)
    show "error_inv evs ?st"
      by (rule error_inv_same [OF D(2) t thr]) (use f in \<open>simp_all add: threads_put\<close>)
  qed
  then show ?thesis using step by blast
qed

section \<open>What the tokens say\<close>

lemma count_mset_le_1_distinct: "(\<And>x. count (mset xs) x \<le> 1) \<Longrightarrow> distinct xs"
  unfolding distinct_count_atmost_1 by (metis One_nat_def le_antisym less_one linorder_not_le count_mset_0_iff le_simps(3))

lemma tokens_facts:
  assumes "tokens_inv gv evs st"
  shows "distinct (begun evs)" "set (begun evs) \<subseteq> fired gv (arrivals gv evs)" "distinct (propagated evs @ failed evs)"
    "set (propagated evs @ failed evs) \<subseteq> set (begun evs)"
    "u \<in># active st \<Longrightarrow> tn_node u \<in> set (begun evs) \<and> tn_node u \<notin> set (propagated evs @ failed evs)"
    "u \<in># waiting st \<Longrightarrow> tn_node u \<in> fired gv (arrivals gv evs) \<and> tn_node u \<notin> set (begun evs)"
    "card (fired gv (arrivals gv evs)) = unfinished evs st + length (propagated evs)"
proof -
  let ?F = "fired gv (arrivals gv evs)"
  have fin: "finite ?F" by (rule fired_bounds)
  have W: "image_mset tn_node (waiting st) + mset (begun evs) = mset_set ?F"
    and A: "image_mset tn_node (active st) + mset (propagated evs @ failed evs) = mset (begun evs)"
    using assms by (simp_all add: tokens_inv_def)
  have cw: "count (image_mset tn_node (waiting st)) x + count (mset (begun evs)) x = (if x \<in> ?F then 1 else 0)" for x
    using arg_cong [OF W, of "\<lambda>m. count m x"] fin by (simp add: count_mset_set')
  have ca: "count (image_mset tn_node (active st)) x + count (mset (propagated evs @ failed evs)) x = count (mset (begun evs)) x" for x
    using arg_cong [OF A, of "\<lambda>m. count m x"] by (simp only: count_union)
  have cb: "count (mset (begun evs)) x \<le> 1" for x
  proof -
    have "(if x \<in> ?F then 1 else 0) \<le> (1::nat)" by simp
    then show ?thesis using cw [of x] by linarith
  qed
  show "distinct (begun evs)" by (rule count_mset_le_1_distinct [OF cb])
  show sub: "set (begun evs) \<subseteq> ?F"
  proof
    fix x assume "x \<in> set (begun evs)"
    then have "0 < count (mset (begun evs)) x" by simp
    then show "x \<in> ?F" using cw [of x] by (simp split: if_splits)
  qed
  have cp: "count (mset (propagated evs @ failed evs)) x \<le> 1" for x using ca [of x] cb [of x] by linarith
  show "distinct (propagated evs @ failed evs)" by (rule count_mset_le_1_distinct [OF cp])
  show "set (propagated evs @ failed evs) \<subseteq> set (begun evs)"
    by (metis A mset_subset_eq_add_right set_mset_mono set_mset_mset)
  have pos: "0 < count (image_mset tn_node M) (tn_node u)" if "u \<in># M" for M u
    using that by (metis count_greater_zero_iff imageI set_image_mset)
  show "tn_node u \<in> set (begun evs) \<and> tn_node u \<notin> set (propagated evs @ failed evs)" if u: "u \<in># active st"
  proof -
    have "count (mset (begun evs)) (tn_node u) = 1" "count (mset (propagated evs @ failed evs)) (tn_node u) = 0"
      using ca [of "tn_node u"] cb [of "tn_node u"] pos [OF u] by linarith+
    then show ?thesis by (metis count_mset_0_iff zero_neq_one)
  qed
  show "tn_node u \<in> ?F \<and> tn_node u \<notin> set (begun evs)" if u: "u \<in># waiting st"
  proof -
    have le: "(if tn_node u \<in> ?F then 1 else 0) \<le> (1::nat)" "(if tn_node u \<in> ?F then 1 else 0) \<noteq> (0::nat) \<Longrightarrow> tn_node u \<in> ?F"
      by (auto split: if_splits)
    have "count (mset (begun evs)) (tn_node u) = 0" "(if tn_node u \<in> ?F then 1 else 0) \<noteq> (0::nat)"
      using cw [of "tn_node u"] pos [OF u] le(1) by linarith+
    then have "tn_node u \<in> ?F" "count (mset (begun evs)) (tn_node u) = 0" using le(2) by blast+
    then show ?thesis by (simp only: count_mset_0_iff) simp
  qed
  have "card ?F = size (waiting st) + length (begun evs)" using arg_cong [OF W, of size] by simp
  moreover have "length (begun evs) = size (active st) + length (propagated evs) + length (failed evs)"
    using arg_cong [OF A, of size] by simp
  ultimately show "card ?F = unfinished evs st + length (propagated evs)" by (simp add: unfinished_def)
qed

lemma thread_change:
  assumes "thread_at st t = Some th" "threads st' = (threads st)[t := Some th']"
  shows "runner_queue st' = runner_queue st \<Longrightarrow> waiting st' + th_waiting th = waiting st + th_waiting th'"
    "asyncs st' = asyncs st \<Longrightarrow> active st' + th_active th = active st + th_active th'"
    "runner_queue st' = runner_queue st \<Longrightarrow> asyncs st' = asyncs st \<Longrightarrow> counted st' + th_count th = counted st + th_count th'"
    "deleting st' + of_bool (is_deleting (th_pc th)) = deleting st + of_bool (is_deleting (th_pc th'))"
    "agg (\<lambda>th. of_bool (th_completed th) :: nat) (threads st') + of_bool (th_completed th) =
      agg (\<lambda>th. of_bool (th_completed th)) (threads st) + of_bool (th_completed th')"
proof -
  have p: "agg f (threads st') + f th = agg f (threads st) + f th'" for f :: "thread \<Rightarrow> 'x::comm_monoid_add"
    using agg_put [OF assms, of f] by simp
  show "runner_queue st' = runner_queue st \<Longrightarrow> waiting st' + th_waiting th = waiting st + th_waiting th'"
    using p [of th_waiting] by (simp add: waiting_def ac_simps)
  show "asyncs st' = asyncs st \<Longrightarrow> active st' + th_active th = active st + th_active th'"
    using p [of th_active] by (simp add: active_def ac_simps)
  show "runner_queue st' = runner_queue st \<Longrightarrow> asyncs st' = asyncs st \<Longrightarrow> counted st' + th_count th = counted st + th_count th'"
    using p [of th_count] by (simp add: counted_def ac_simps)
  show "deleting st' + of_bool (is_deleting (th_pc th)) = deleting st + of_bool (is_deleting (th_pc th'))"
    unfolding deleting_def by (rule p)
  show "agg (\<lambda>th. of_bool (th_completed th) :: nat) (threads st') + of_bool (th_completed th) =
      agg (\<lambda>th. of_bool (th_completed th)) (threads st) + of_bool (th_completed th')" by (rule p)
qed

section \<open>Propagation\<close>

lemma flat_iteration:
  assumes "iterations fs = [Some it]"
  shows "GetIteration fs i = Some it" "iterations (SetIteration i x fs) = [x]" "flat_frame (SetIteration i x fs) = flat_frame fs"
  using assms by (simp_all add: GetIteration_def SetIteration_def iter_index_def flat_frame_def)

lemma flat_decrement:
  assumes "flat_frame fs" "iterations fs = [Some it]" "outstanding_frame_count it = 0" "0 < outstanding_ops it"
  shows "\<exists>fs'. DecrementOutstandingOpsLocked gv f 0 ready fs = Some (outstanding_ops it = 1, ready, fs') \<and> parent_frame fs' = None \<and>
    (outstanding_ops it \<noteq> 1 \<longrightarrow> flat_frame fs' \<and> iterations fs' = [Some (it\<lparr>outstanding_ops := outstanding_ops it - 1\<rparr>)])"
proof -
  let ?it = "it\<lparr>outstanding_ops := outstanding_ops it - 1\<rparr>" let ?fs = "SetIteration 0 (Some ?it) fs"
  note I = flat_iteration [OF assms(2)]
  have I2: "iterations ?fs = [Some ?it]" by (rule I(2))
  note J = flat_iteration [OF I2]
  have sel: "parent_frame (SetIteration i x gs) = parent_frame gs" "iteration_count (SetIteration i x gs) = iteration_count gs"
    "next_iter_roots (SetIteration i x gs) = next_iter_roots gs" "num_outstanding_iterations (SetIteration i x gs) = num_outstanding_iterations gs"
    "num_pending_inputs (SetIteration i x gs) = num_pending_inputs gs" for i x gs by (simp_all add: SetIteration_def)
  have fl: "parent_frame fs = None" "num_pending_inputs fs = 0" "iteration_count fs = 0" "next_iter_roots fs = []" "num_outstanding_iterations fs = 1"
    using assms(1) by (simp_all add: flat_frame_def)
  have dec: "dec_size (outstanding_ops it) = outstanding_ops it - 1" using assms(4) by (simp add: dec_size_def)
  show ?thesis
  proof (cases "outstanding_ops it = 1")
    case False
    then have "DecrementOutstandingOpsLocked gv f 0 ready fs = Some (False, ready, ?fs)"
      using assms(4) by (simp add: DecrementOutstandingOpsLocked_def I(1) dec Let_def)
    then show ?thesis using False assms(1) I fl(1) by (simp add: sel)
  next
    case True
    let ?fin = "(SetIteration 0 None ?fs)\<lparr>num_outstanding_iterations := 0\<rparr>"
    have isdone: "IsIterationDone ?fs 0 = Some True"
      unfolding IsIterationDone_def J(1) using True assms(3) fl by (simp add: sel)
    have stop: "CleanupIterations gv f 1 ready ?fin = Some (True, ready, ?fin)"
      by (subst CleanupIterations.simps) (use fl in \<open>simp add: sel IsFrameDone_def\<close>)
    have "CleanupIterations gv f 0 ready ?fs = Some (True, ready, ?fin)"
      by (subst CleanupIterations.simps) (use isdone stop fl in \<open>simp add: sel Let_def\<close>)
    then have "DecrementOutstandingOpsLocked gv f 0 ready fs = Some (True, ready, ?fin)"
      using True dec by (simp add: DecrementOutstandingOpsLocked_def I(1) Let_def)
    then show ?thesis using True fl(1) by (simp add: sel)
  qed
qed

lemma in_agg_mset:
  assumes "u \<in># agg f xs"
  shows "\<exists>a. Some a \<in> set xs \<and> u \<in># f a"
  using assms
proof (induction xs)
  case (Cons x xs)
  have "agg f (x # xs) = (case x of None \<Rightarrow> {#} | Some a \<Rightarrow> f a) + agg f xs" by (simp add: agg_def zero_multiset_def)
  then have "u \<in># (case x of None \<Rightarrow> {#} | Some a \<Rightarrow> f a) \<or> u \<in># agg f xs" using Cons.prems by simp
  then show ?case
  proof
    assume "u \<in># (case x of None \<Rightarrow> {#} | Some a \<Rightarrow> f a)"
    then show ?thesis by (cases x) auto
  next
    assume "u \<in># agg f xs"
    from Cons.IH [OF this] show ?thesis by (meson list.set_intros(2))
  qed
qed simp

lemma active_frame:
  assumes "exec_inv gv n evs st" "u \<in># active st"
  shows "x_alive st" "deleting st = 0" "frame_open gv n evs (unfinished evs st) st" "0 < unfinished evs st"
proof -
  have "size (active st) \<noteq> 0" using assms(2) by (metis empty_iff set_mset_empty size_eq_0_iff_empty)
  then show u: "0 < unfinished evs st" unfolding unfinished_def by linarith
  have c: "0 < counted st"
  proof (cases "u \<in># agg th_active (threads st)")
    case True
    then obtain th where th: "Some th \<in> set (threads st)" "u \<in># th_active th" using in_agg_mset [OF True] by blast
    have "0 < th_count th" using th(2) by (cases "th_pc th") (simp_all add: th_active_def th_count_def)
    then show ?thesis using le_agg [OF th(1), of th_count] by (simp add: counted_def)
  next
    case False
    then have "u \<in># agg (\<lambda>a. {#as_node a#}) (asyncs st)" using assms(2) by (simp add: active_def)
    from in_agg_mset [OF this] obtain a where a: "Some a \<in> set (asyncs st)" by blast
    then show ?thesis using le_agg [OF a, of "\<lambda>_. 1"] by (simp add: counted_def)
  qed
  show x: "x_alive st" by (rule counted_alive [OF assms(1) c])
  show "deleting st = 0" "frame_open gv n evs (unfinished evs st) st"
    using assms(1) x u by (simp_all add: exec_inv_def frame_inv_def)
qed

lemma tok_ok_stable:
  assumes flat: "flat_view gv n" and u: "tok_ok gv As u" "tn_node u \<in> fired gv As" and room: "rooms gv es As"
  shows "tok_ok gv (As @ map (arrival_of is_dead outputs) es) u"
proof -
  obtain item where item: "item_at gv (tn_node u) = Some item" "fires gv (tn_node u) item (at (tn_node u) As)"
    using u(2) by (auto simp: fired_def)
  show ?thesis using u(1) item fired_stable [OF flat item room, of is_dead outputs] unfolding tok_ok_def by simp
qed

lemma tokens_token:
  assumes "tokens_inv gv evs st" "u \<in># waiting st + active st"
  shows "tok_ok gv (arrivals gv evs) u" "tn_node u \<in> fired gv (arrivals gv evs)"
proof -
  show "tok_ok gv (arrivals gv evs) u" using assms by (simp add: tokens_inv_def)
  show "tn_node u \<in> fired gv (arrivals gv evs)"
    using assms(2) tokens_facts(2) [OF assms(1)] tokens_facts(5,6) [OF assms(1), of u] by auto
qed

lemma tokens_propagate:
  assumes T: "tokens_inv gv evs st" and flat: "flat_view gv n" and new: "new_tokens gv 0 0 (arrivals gv evs) (arrivals gv (evs @ [Propagated u outputs])) ts"
    and room: "rooms gv (out_of gv (tn_node u)) (arrivals gv evs)" and w: "waiting st' = waiting st + mset ts" and a: "add_mset u (active st') = active st"
  shows "tokens_inv gv (evs @ [Propagated u outputs]) st'"
proof -
  let ?evs = "evs @ [Propagated u outputs]" let ?F = "fired gv (arrivals gv evs)" let ?F' = "fired gv (arrivals gv ?evs)"
  have N: "distinct (map tn_node ts)" "?F' = ?F \<union> set (map tn_node ts)" "?F \<inter> set (map tn_node ts) = {}"
    using new by (auto simp: new_tokens_def)
  have "mset_set ?F' = mset_set ?F + mset (map tn_node ts)"
    unfolding N(2) using N(1,3) by (subst mset_set_Union) (simp_all add: fired_bounds mset_set_set del: set_map mset_map)
  moreover have "image_mset tn_node (waiting st) + mset (begun evs) = mset_set ?F" using T by (simp add: tokens_inv_def)
  ultimately have 1: "image_mset tn_node (waiting st') + mset (begun ?evs) = mset_set ?F'" by (simp add: w ac_simps)
  have "image_mset tn_node (active st) + mset (propagated evs @ failed evs) = mset (begun evs)" using T by (simp add: tokens_inv_def)
  then have 2: "image_mset tn_node (active st') + mset (propagated ?evs @ failed ?evs) = mset (begun ?evs)"
    unfolding a [symmetric] by (simp add: ac_simps)
  have "tok_ok gv (arrivals gv ?evs) v" if v: "v \<in># waiting st' + active st'" for v
  proof (cases "v \<in> set ts")
    case True
    then show ?thesis using new by (auto simp: new_tokens_def tok_ok_def)
  next
    case False
    have "v \<in># add_mset u (active st') \<or> v \<in># waiting st" using v False by (auto simp: w)
    then have v': "v \<in># waiting st + active st" unfolding a by auto
    show ?thesis using tok_ok_stable [OF flat tokens_token [OF T v'] room, of "tn_dead u" outputs] by simp
  qed
  then show ?thesis using 1 2 by (simp only: tokens_inv_def) blast
qed

lemma propagate_inv:
  assumes flat: "flat_view (gview impl) n" and inv: "exec_inv (gview impl) n evs st"
    and t: "thread_at st t = Some th" and pc: "th_pc th = At_Propagate tn outputs"
  shows "\<exists>st'. step_go P impl t st = Some ([Propagated tn outputs], st') \<and> exec_inv (gview impl) n (evs @ [Propagated tn outputs]) st'"
proof -
  let ?gv = "gview impl" let ?evs = "evs @ [Propagated tn outputs]" let ?s = "tn_node tn" let ?As = "arrivals (gview impl) evs"
  note D = exec_invD [OF inv t]
  have T: "tokens_inv ?gv evs st" using inv by (simp add: exec_inv_def)
  have act: "tn \<in># active st"
  proof -
    have "th_active th \<subseteq># active st"
      using agg_sub_mset [OF thread_at_mem [OF t], of th_active] unfolding active_def by (rule subset_mset.order_trans) simp
    then show ?thesis using pc by (auto simp: th_active_def dest: mset_subset_eqD)
  qed
  note A = active_frame [OF inv act]
  obtain item where item: "item_at ?gv ?s = Some item" "length outputs = item_num_outputs item" using D(1) pc by (auto simp: th_ok_def)
  have ok: "status_ok (th_s th)" "\<not> th_completed th" using D(1) pc by (auto simp: th_ok_def)
  have tn: "tn_frame tn = 0" "tn_iter tn = 0" using tokens_token(1) [OF T, of tn] act by (auto simp: tok_ok_def)
  obtain fs it where F: "frames st = [Some fs]" "flat_frame fs" "iterations fs = [Some it]" "iter_inv ?gv n (set (begun evs)) it ?As"
    "outstanding_ops it = unfinished evs st" "outstanding_frame_count it = 0" using A(3) by (auto simp: frame_open_def)
  note V = flat_viewD [OF flat item(1)]
  have out: "out_of ?gv ?s = output_edges item" by (simp add: out_of_def item(1))
  note TF = tokens_facts [OF T]
  have sl: "?s < length ?gv" using item(1) by (simp add: item_at_def split: if_splits)
  have room: "rooms ?gv (output_edges item) ?As"
    unfolding out [symmetric]
  proof (rule rooms_unpropagated)
    show "distinct (propagated evs)" using TF(3) by simp
    show "set (propagated evs) \<subseteq> {..<length ?gv}" using TF(2,4) fired_bounds(1) [of ?gv ?As] by auto
    show "?s \<notin> set (propagated evs)" using TF(5) [OF act] by simp
  qed (rule sl)
  have As': "arrivals ?gv ?evs = ?As @ map (arrival_of (tn_dead tn) outputs) (output_edges item)" by (simp add: out)
  have oo: "outstanding_ops it \<le> card (fired ?gv ?As)" using F(5) TF(7) by simp
  obtain it' outs' ts where E: "activate_edges ?gv 0 item (tn_dead tn) 0 (output_edges item) (it, outputs, []) = Some (it', outs', [] @ ts)"
    "iter_inv ?gv n (set (begun evs)) it' (arrivals ?gv ?evs)" "outstanding_ops it' = outstanding_ops it + length ts"
    "outstanding_frame_count it' = outstanding_frame_count it" "new_tokens ?gv 0 0 ?As (arrivals ?gv ?evs) ts"
    using activate_edges_ok [OF flat item(1) V(6,7) room F(4) item(2) _ oo, of outputs 0 "tn_dead tn" 0 "[]"] unfolding As' by blast
  let ?fs1 = "SetIteration 0 (Some it') fs"
  have fs1: "flat_frame ?fs1" "iterations ?fs1 = [Some it']" using flat_iteration [OF F(3)] F(2) by simp_all
  have act_eq: "ActivateNodes ?gv 0 item (tn_dead tn) 0 outputs [] fs = Some (ts, ?fs1)"
    using E(1) flat_iteration(1) [OF F(3)] by (simp add: ActivateNodes_def)
  have pos: "0 < outstanding_ops it'" using E(3) F(5) A(4) by simp
  have fc: "outstanding_frame_count it' = 0" using E(4) F(6) by simp
  obtain fs2 where dec: "DecrementOutstandingOpsLocked ?gv 0 0 ts ?fs1 = Some (outstanding_ops it' = 1, ts, fs2)" "parent_frame fs2 = None"
    "outstanding_ops it' \<noteq> 1 \<longrightarrow> flat_frame fs2 \<and> iterations fs2 = [Some (it'\<lparr>outstanding_ops := outstanding_ops it' - 1\<rparr>)]"
    using flat_decrement [OF fs1 fc pos] by blast
  let ?fin = "outstanding_ops it' = 1"
  let ?th = "th\<lparr>th_ready := ts, th_pc := (if ?fin then At_Delete 0 else At_NodeDone)\<rparr>"
  let ?st = "put_thread t (Some ?th) (put_frame 0 fs2 st)"
  have fa: "frame_at st 0 = Some fs" by (simp add: frame_at_def F(1))
  have step: "step_go P impl t st = Some ([Propagated tn outputs], ?st)"
    using t pc A(1) item(1) V(8) fa act_eq dec(1) by (simp add: step_go_def propagate_def tn after_decrement_def)
  have thr: "threads ?st = (threads st)[t := Some ?th]" by (simp add: threads_put put_frame_sel)
  note C = thread_change [OF t thr]
  have w: "waiting ?st = waiting st + mset ts"
    using C(1) pc ok(1) by (simp add: threads_put put_frame_sel th_waiting_def ac_simps split: if_splits)
  have a: "add_mset tn (active ?st) = active st"
    using C(2) pc by (simp add: threads_put put_frame_sel th_active_def split: if_splits)
  have T': "tokens_inv ?gv ?evs ?st"
    by (rule tokens_propagate [OF T flat E(5) _ w a]) (use room out in simp)
  have cnt: "counted ?st = counted st" using C(3) pc by (simp add: threads_put put_frame_sel th_count_def split: if_splits)
  have comp: "agg (\<lambda>th. of_bool (th_completed th) :: nat) (threads ?st) = agg (\<lambda>th. of_bool (th_completed th)) (threads st)"
    using C(5) by simp
  have unf: "unfinished ?evs ?st + 1 = unfinished evs st + length ts"
    using arg_cong [OF w, of size] arg_cong [OF a, of size] by (simp add: unfinished_def)
  have del: "deleting ?st = of_bool ?fin" using C(4) A(2) pc by simp
  have "exec_inv ?gv n ?evs ?st"
    unfolding exec_inv_def
  proof (intro conjI impI allI)
    show "tokens_inv ?gv ?evs ?st" by (rule T')
    show "frame_inv ?gv n ?evs ?st"
    proof (cases ?fin)
      case True
      then have "unfinished ?evs ?st = 0" using unf E(3) F(5) by simp
      then show ?thesis using True del dec(2) F(1) by (simp add: frame_inv_def threads_put put_frame_sel)
    next
      case False
      have u: "unfinished ?evs ?st = outstanding_ops it' - 1" using unf E(3) F(5) by simp
      have "iter_inv ?gv n (set (begun ?evs)) (it'\<lparr>outstanding_ops := outstanding_ops it' - 1\<rparr>) (arrivals ?gv ?evs)"
        using E(2) by (simp add: iter_inv_def)
      then have "frame_open ?gv n ?evs (outstanding_ops it' - 1) ?st"
        using False dec(3) fc F(1) by (simp add: frame_open_def threads_put put_frame_sel)
      then show ?thesis using False pos del u by (simp add: frame_inv_def)
    qed
    show "th_ok ?gv b" if "Some b \<in> set (threads ?st)" for b
    proof (rule threads_ok [OF inv t thr _ that])
      have "ts = []" if ?fin using that E(3) F(5) A(4) by (cases ts) simp_all
      then show "th_ok ?gv c" if "Some ?th = Some c" for c
        using that D(1) pc ok by (auto simp: th_ok_def)
    qed
    show "count_inv ?st" using inv unfolding exec_inv_def count_inv_def comp cnt by (simp add: threads_put put_frame_sel)
    have "error_inv evs ?st"
      by (rule error_inv_same [OF D(2) t thr]) (use ok in \<open>simp_all add: threads_put put_frame_sel\<close>)
    then show "error_inv ?evs ?st" by (simp add: error_inv_def)
  qed
  then show ?thesis using step by blast
qed

section \<open>The inputs of an iteration\<close>

lemma write_inputs_inv:
  assumes inv: "iter_inv gv n S it As" and flat: "flat_view gv n" and d: "item_at gv d = Some item" and ens: "length ens = item_num_inputs item"
  shows "iter_inv gv n (insert d S) (write_inputs item ens it) As"
proof -
  let ?ts = "input_tensors it" let ?ts' = "input_tensors (write_inputs item ens it)"
  have len: "length ?ts = n" using inv by (simp add: iter_inv_def)
  note V = flat_viewD [OF flat d]
  have ts': "?ts' = take (input_start item) ?ts @ ens @ drop (input_start item + item_num_inputs item) ?ts" by (simp add: write_inputs_def)
  have len': "length ?ts' = n" using V(4) len ens by (simp add: ts')
  have "inputs_of x ?ts' = inputs_of x ?ts" if x: "item_at gv e = Some x" "e \<noteq> d" for e x
  proof -
    have ap: "input_start x + item_num_inputs x \<le> input_start item \<or> input_start item + item_num_inputs item \<le> input_start x"
      using V(10) [OF x(1)] x(2) by (auto simp: items_apart_def)
    have xl: "input_start x + item_num_inputs x \<le> n" by (rule flat_viewD(4) [OF flat x(1)])
    show ?thesis
      unfolding inputs_of_def
    proof (intro nth_equalityI)
      fix i assume "i < length (take (item_num_inputs x) (drop (input_start x) ?ts'))"
      then have i: "i < item_num_inputs x" by simp
      then show "take (item_num_inputs x) (drop (input_start x) ?ts') ! i = take (item_num_inputs x) (drop (input_start x) ?ts) ! i"
        using ap xl len ens V(4) len' by (auto simp: ts' nth_append)
    qed (simp add: len len')
  qed
  then have "inputs_inv gv (insert d S) ?ts' As" using inv by (simp add: iter_inv_def inputs_inv_def)
  then show ?thesis using inv len' by (simp add: iter_inv_def write_inputs_def)
qed

lemma first_input_eq:
  assumes "iter_inv gv n S it As" "flat_view gv n" "item_at gv d = Some item"
  shows "first_input item it = Some (inputs_of item (input_tensors it))" "length (inputs_of item (input_tensors it)) = item_num_inputs item"
    "d \<notin> S \<Longrightarrow> inputs_of item (input_tensors it) = stored item (at d As)"
proof -
  have len: "length (input_tensors it) = n" using assms(1) by (simp add: iter_inv_def)
  note V = flat_viewD [OF assms(2,3)]
  show "first_input item it = Some (inputs_of item (input_tensors it))" using V(4) len by (simp add: first_input_def inputs_of_def)
  show l: "length (inputs_of item (input_tensors it)) = item_num_inputs item" using V(4) len by (simp add: inputs_of_def)
  show "inputs_of item (input_tensors it) = stored item (at d As)" if "d \<notin> S"
  proof (cases "is_sink item")
    case True
    then have "length (inputs_of item (input_tensors it)) = 0" "length (stored item (at d As)) = 0" using l V(11) by simp_all
    then show ?thesis unfolding length_0_conv by simp
  next
    case False
    then show ?thesis using assms(1,3) that by (simp add: iter_inv_def inputs_inv_def)
  qed
qed

lemma ClearInputs_inv:
  assumes "iter_inv gv n S it As" "flat_view gv n" "item_at gv d = Some item"
  shows "\<exists>it'. ClearInputs item it = Some it' \<and> iter_inv gv n (insert d S) it' As \<and> outstanding_ops it' = outstanding_ops it \<and>
    outstanding_frame_count it' = outstanding_frame_count it"
  using write_inputs_inv [OF assms, of "map ClearVal (inputs_of item (input_tensors it))"] first_input_eq [OF assms]
  by (simp add: ClearInputs_def) (simp add: write_inputs_def)

lemma length_prepare_loop: "prepare_loop P item props mem i ens = (s, inputs, dead, ens') \<Longrightarrow> length ens' = length ens"
  by (induction ens arbitrary: i s inputs dead ens') (auto split: sum.splits prod.splits)

lemma PrepareInputs_inv:
  assumes "iter_inv gv n S it As" "flat_view gv n" "item_at gv d = Some item" "d \<notin> S"
  shows "\<exists>s inputs dead it' ens. PrepareInputs P item mem it = Some (s, inputs, dead, it') \<and> iter_inv gv n (insert d S) it' As \<and>
    outstanding_ops it' = outstanding_ops it \<and> outstanding_frame_count it' = outstanding_frame_count it \<and>
    prepare_loop P item (the (n_props (ni_node item))) mem 0 (stored item (at d As)) = (s, inputs, dead, ens)"
proof -
  obtain props where props: "n_props (ni_node item) = Some props" using flat_viewD(9) [OF assms(2,3)] by auto
  note F = first_input_eq [OF assms(1-3)]
  obtain s inputs dead ens where L: "prepare_loop P item props mem 0 (inputs_of item (input_tensors it)) = (s, inputs, dead, ens)"
    using prod_cases4 by blast
  have "length ens = item_num_inputs item" using length_prepare_loop [OF L] F(2) by simp
  from write_inputs_inv [OF assms(1-3) this] show ?thesis
    using L F(1) F(3) [OF assms(4)] props by (simp add: PrepareInputs_def) (simp add: write_inputs_def)
qed

lemma open_iteration:
  assumes "frame_open gv n evs k st" "tn_frame u = 0" "tn_iter u = 0"
  obtains fs it where "iteration_of u st = Some it" "iter_inv gv n (set (begun evs)) it (arrivals gv evs)"
    "\<And>it'. put_iteration u it' st = Some (put_frame 0 (SetIteration 0 (Some it') fs) st)"
    "\<And>it' evs' st'. frames st' = frames (put_frame 0 (SetIteration 0 (Some it') fs) st) \<Longrightarrow>
       iter_inv gv n (set (begun evs')) it' (arrivals gv evs') \<Longrightarrow> outstanding_ops it' = outstanding_ops it \<Longrightarrow>
       outstanding_frame_count it' = outstanding_frame_count it \<Longrightarrow> frame_open gv n evs' k st'"
proof -
  obtain fs it where F: "frames st = [Some fs]" "flat_frame fs" "iterations fs = [Some it]" "iter_inv gv n (set (begun evs)) it (arrivals gv evs)"
    "outstanding_ops it = k" "outstanding_frame_count it = 0" using assms(1) by (auto simp: frame_open_def)
  note I = flat_iteration [OF F(3)]
  show thesis
  proof (rule that [of it fs])
    show "iteration_of u st = Some it" by (simp add: iteration_of_def frame_at_def F(1) I(1) assms)
    show "iter_inv gv n (set (begun evs)) it (arrivals gv evs)" by (rule F(4))
    show "put_iteration u it' st = Some (put_frame 0 (SetIteration 0 (Some it') fs) st)" for it'
      by (simp add: put_iteration_def frame_at_def F(1) assms)
    show "frame_open gv n evs' k st'" if "frames st' = frames (put_frame 0 (SetIteration 0 (Some it') fs) st)"
      "iter_inv gv n (set (begun evs')) it' (arrivals gv evs')" "outstanding_ops it' = outstanding_ops it"
      "outstanding_frame_count it' = outstanding_frame_count it" for it' evs' st'
      using that F I by (simp add: frame_open_def put_frame_sel)
  qed
qed

section \<open>A node begins\<close>

text \<open>What a kernel is given is what \<open>PrepareInputs\<close> makes of the values that arrived.\<close>

definition kernel_inputs :: "exec_params \<Rightarrow> graph_view \<Rightarrow> event list \<Rightarrow> tagged_node \<Rightarrow> (nat \<Rightarrow> tensor) \<Rightarrow> tensor_value list \<Rightarrow> bool" where
  "kernel_inputs P gv evs u mem inputs \<longleftrightarrow> (\<exists>item s dead ens. item_at gv (tn_node u) = Some item \<and> status_ok s \<and>
     prepare_loop P item (the (n_props (ni_node item))) mem 0 (stored item (at (tn_node u) (arrivals gv evs))) = (s, inputs, dead, ens))"

lemma tokens_begin:
  assumes T: "tokens_inv gv evs st" and w: "add_mset u (waiting st') = waiting st" and a: "active st' = active st + (if f then {#} else {#u#})"
    and new: "begun new = [tn_node u]" "propagated new = []" "failed new = (if f then [tn_node u] else [])" "arrivals gv new = []"
  shows "tokens_inv gv (evs @ new) st'" "unfinished (evs @ new) st' = unfinished evs st"
proof -
  have 1: "image_mset tn_node (waiting st') + mset (begun (evs @ new)) = mset_set (fired gv (arrivals gv (evs @ new)))"
    using T by (simp add: tokens_inv_def w [symmetric] new ac_simps)
  have "image_mset tn_node (active st) + mset (propagated evs @ failed evs) = mset (begun evs)" using T by (simp add: tokens_inv_def)
  then have 2: "image_mset tn_node (active st') + mset (propagated (evs @ new) @ failed (evs @ new)) = mset (begun (evs @ new))"
    by (simp add: a new ac_simps)
  have sub: "v \<in># waiting st + active st" if "v \<in># waiting st' + active st'" for v
    using that unfolding a w [symmetric] by (auto split: if_splits)
  have "tok_ok gv (arrivals gv (evs @ new)) v" if "v \<in># waiting st' + active st'" for v
    using tokens_token(1) [OF T sub [OF that]] by (simp add: new)
  then show "tokens_inv gv (evs @ new) st'" using 1 2 by (simp only: tokens_inv_def) blast
  show "unfinished (evs @ new) st' = unfinished evs st" by (simp add: unfinished_def a new w [symmetric])
qed

lemma tokens_fail:
  assumes T: "tokens_inv gv evs st" and w: "waiting st' = waiting st" and a: "add_mset u (active st') = active st"
    and new: "begun new = []" "propagated new = []" "failed new = [tn_node u]" "arrivals gv new = []"
  shows "tokens_inv gv (evs @ new) st'" "unfinished (evs @ new) st' = unfinished evs st"
proof -
  have 1: "image_mset tn_node (waiting st') + mset (begun (evs @ new)) = mset_set (fired gv (arrivals gv (evs @ new)))"
    using T by (simp add: tokens_inv_def w new)
  have "image_mset tn_node (active st) + mset (propagated evs @ failed evs) = mset (begun evs)" using T by (simp add: tokens_inv_def)
  then have 2: "image_mset tn_node (active st') + mset (propagated (evs @ new) @ failed (evs @ new)) = mset (begun (evs @ new))"
    by (simp add: a [symmetric] new ac_simps)
  have sub: "v \<in># waiting st + active st" if "v \<in># waiting st' + active st'" for v
    using that unfolding w a [symmetric] by auto
  have "tok_ok gv (arrivals gv (evs @ new)) v" if "v \<in># waiting st' + active st'" for v
    using tokens_token(1) [OF T sub [OF that]] by (simp add: new)
  then show "tokens_inv gv (evs @ new) st'" using 1 2 by (simp only: tokens_inv_def) blast
  show "unfinished (evs @ new) st' = unfinished evs st" by (simp add: unfinished_def w new a [symmetric])
qed

text \<open>The error part when one thread gets a new state and may fail.\<close>

lemma error_inv_step:
  assumes E: "error_inv evs st" and x: "x_status st' = x_status st" "x_aborts st' = x_aborts st"
    and old: "\<And>a. Some a \<in> set (threads st') \<Longrightarrow> Some a \<in> set (threads st) \<or> a = th'"
    and th': "\<not> status_ok (th_s th') \<Longrightarrow> (\<exists>u. Failed u (th_s th') \<in> set (evs @ new)) \<and> (status_ok (x_status st) \<longrightarrow> th_pc th' = At_NodeDone)"
    and kept: "\<And>a. Some a \<in> set (threads st) \<Longrightarrow> \<not> status_ok (th_s a) \<Longrightarrow> status_ok (x_status st) \<Longrightarrow> Some a \<in> set (threads st')"
    and fail: "failed new \<noteq> [] \<Longrightarrow> Some th' \<in> set (threads st') \<and> \<not> status_ok (th_s th')"
    and bad: "\<And>u s. Failed u s \<in> set new \<Longrightarrow> \<not> status_ok s"
  shows "error_inv (evs @ new) st'"
proof -
  have 1: "(\<exists>t. Failed t (th_s a) \<in> set (evs @ new)) \<and> (status_ok (x_status st') \<longrightarrow> th_pc a = At_NodeDone)"
    if "Some a \<in> set (threads st')" "\<not> status_ok (th_s a)" for a
    using old [OF that(1)]
  proof
    assume "Some a \<in> set (threads st)"
    then show ?thesis using E that(2) x(1) by (auto simp: error_inv_def)
  qed (use th' that(2) x(1) in auto)
  have 2: "if status_ok (x_status st') then x_aborts st' = [] else x_aborts st' = [x_status st'] \<and> (\<exists>t. Failed t (x_status st') \<in> set (evs @ new))"
    using E x by (auto simp: error_inv_def)
  have 3: "\<exists>th. Some th \<in> set (threads st') \<and> \<not> status_ok (th_s th)" if "failed (evs @ new) \<noteq> []" "status_ok (x_status st')"
  proof (cases "failed new = []")
    case True
    then have "failed evs \<noteq> []" using that(1) by simp
    then show ?thesis using E kept that(2) x(1) unfolding error_inv_def by metis
  qed (use fail in blast)
  have 4: "\<not> status_ok s" if "Failed u s \<in> set (evs @ new)" for u s
    using that E bad by (auto simp: error_inv_def)
  show ?thesis using 1 2 3 4 unfolding error_inv_def by blast
qed

lemma kept_thread:
  assumes "error_inv evs st" "thread_at st t = Some th" "threads st' = (threads st)[t := x]" "th_pc th \<noteq> At_NodeDone"
    "Some a \<in> set (threads st)" "\<not> status_ok (th_s a)" "status_ok (x_status st)"
  shows "Some a \<in> set (threads st')"
proof -
  have "th_pc a = At_NodeDone" using assms(1,5-7) by (auto simp: error_inv_def)
  then have ne: "a \<noteq> th" using assms(4) by auto
  obtain j where "j < length (threads st)" "threads st ! j = Some a" using assms(5) by (auto simp: in_set_conv_nth)
  moreover from this have "j \<noteq> t" using ne assms(2) by (auto simp: thread_at_nth)
  ultimately have "threads st' ! j = Some a" "j < length (threads st')" by (simp_all add: assms(3))
  then show ?thesis by (metis nth_mem)
qed

lemma move_inv:
  assumes inv: "exec_inv gv n evs st" and alive: "x_alive st" and unf: "0 < unfinished evs st"
    and T': "tokens_inv gv (evs @ new) st'" "unfinished (evs @ new) st' = unfinished evs st"
    and F: "frame_open gv n (evs @ new) (unfinished evs st) st'" and del: "deleting st' = deleting st"
    and same: "counted st' = counted st" "agg (\<lambda>th. of_bool (th_completed th) :: nat) (threads st') = agg (\<lambda>th. of_bool (th_completed th)) (threads st)"
      "num_outstanding_ops st' = num_outstanding_ops st" "x_alive st' = x_alive st" "done_cb st' = done_cb st" "done_calls st' = done_calls st"
    and ok: "\<And>th. Some th \<in> set (threads st') \<Longrightarrow> th_ok gv th" and err: "error_inv (evs @ new) st'"
  shows "exec_inv gv n (evs @ new) st'"
proof -
  have "frame_inv gv n evs st" using inv alive by (simp add: exec_inv_def)
  then have "deleting st = 0" using unf by (simp add: frame_inv_def)
  then have "frame_inv gv n (evs @ new) st'" using F del unf T'(2) by (simp add: frame_inv_def)
  moreover have "count_inv st'" using inv unfolding exec_inv_def count_inv_def same by simp
  ultimately show ?thesis using T'(1) ok err by (simp add: exec_inv_def)
qed

text \<open>The thread \<open>t\<close> takes the token \<open>u\<close> from its ready queue.\<close>

lemma begin_assemble:
  assumes inv: "exec_inv gv n evs st" and t: "thread_at st t = Some th" and pc: "th_pc th = At_Loop" and q: "rq_list (th_inline_ready th) = u # us"
    and st': "threads st' = (threads st)[t := Some th']" "runner_queue st' = runner_queue st" "asyncs st' = asyncs st @ as"
      "num_outstanding_ops st' = num_outstanding_ops st" "x_alive st' = x_alive st" "done_cb st' = done_cb st" "done_calls st' = done_calls st"
      "x_status st' = x_status st" "x_aborts st' = x_aborts st"
    and th': "th_inline_ready th' = rq_pop_front (th_inline_ready th)" "th_async th' = th_async th" "th_completed th' = th_completed th" "pc_ok gv th' (th_pc th')"
      "\<not> is_deleting (th_pc th')" "holds_ready (th_pc th') \<longrightarrow> \<not> status_ok (th_s th')"
    and moved: "th_active th' + agg (\<lambda>a. {#as_node a#}) as = (if f then {#} else {#u#})"
      "th_count th' + agg (\<lambda>_. 1) as = Suc (length us)"
    and new: "begun new = [tn_node u]" "propagated new = []" "failed new = (if f then [tn_node u] else [])" "arrivals gv new = []"
    and F: "frame_open gv n (evs @ new) (unfinished evs st) st'"
    and err: "\<not> status_ok (th_s th') \<Longrightarrow> (\<exists>u. Failed u (th_s th') \<in> set (evs @ new)) \<and> (status_ok (x_status st) \<longrightarrow> th_pc th' = At_NodeDone)"
      "f \<Longrightarrow> \<not> status_ok (th_s th')" "\<And>u s. Failed u s \<in> set new \<Longrightarrow> \<not> status_ok s"
  shows "exec_inv gv n (evs @ new) st'"
proof -
  note D = exec_invD [OF inv t]
  have rq: "rq_ok (th_inline_ready th)" using D(1) by (simp add: th_ok_def)
  note pop = rq_ops(7) [OF rq]
  have l': "rq_ok (th_inline_ready th')" "rq_list (th_inline_ready th') = us" using pop q th'(1) by simp_all
  have comp: "\<not> th_completed th" "\<not> th_async th" using D(1) q by (auto simp: th_ok_def)
  have tc: "th_count th = Suc (length us)" using pc q by (simp add: th_count_def)
  then have tc0: "0 < th_count th" by simp
  note A = thread_alive [OF inv t tc0]
  have p: "agg f (threads st') + f th = agg f (threads st) + f th'" for f :: "thread \<Rightarrow> 'x::comm_monoid_add"
    using agg_put [OF t st'(1), of f] by simp
  have tw: "th_waiting th = add_mset u (mset us)" "th_waiting th' = mset us" "th_active th = {#}"
    using pc q l' th'(6) by (auto simp: th_waiting_def th_active_def)
  have w: "add_mset u (waiting st') = waiting st"
  proof -
    have "add_mset u (waiting st') + mset us = waiting st + mset us" using p [of th_waiting] unfolding tw waiting_def st'(2) by (simp add: ac_simps)
    then show ?thesis by (rule add_right_imp_eq)
  qed
  have a: "active st' = active st + (if f then {#} else {#u#})"
    using p [of th_active] unfolding active_def tw(3) st'(3) moved(1) [symmetric] by (simp add: ac_simps)
  have T: "tokens_inv gv evs st" using inv by (simp add: exec_inv_def)
  note T' = tokens_begin [OF T w a new]
  have unf: "0 < unfinished evs st" unfolding unfinished_def w [symmetric] by simp
  show ?thesis
  proof (rule move_inv [OF inv A(1) unf T' F])
    show "deleting st' = deleting st" using p [of "\<lambda>th. of_bool (is_deleting (th_pc th)) :: nat"] pc th'(5) by (simp add: deleting_def)
    show "counted st' = counted st"
      using p [of th_count] moved(2) tc st'(2,3) by (simp add: counted_def)
    show "agg (\<lambda>th. of_bool (th_completed th) :: nat) (threads st') = agg (\<lambda>th. of_bool (th_completed th)) (threads st)"
      using p [of "\<lambda>th. of_bool (th_completed th) :: nat"] th'(3) by simp
    show "th_ok gv b" if "Some b \<in> set (threads st')" for b
      by (rule threads_ok [OF inv t st'(1) _ that]) (use l' th' comp in \<open>auto simp: th_ok_def\<close>)
    show "error_inv (evs @ new) st'"
    proof (rule error_inv_step [OF D(2) st'(8,9)])
      show "Some b \<in> set (threads st) \<or> b = th'" if "Some b \<in> set (threads st')" for b
        using set_threads_put [OF that [unfolded st'(1)] t] by auto
      show "Some b \<in> set (threads st')" if "Some b \<in> set (threads st)" "\<not> status_ok (th_s b)" "status_ok (x_status st)" for b
        by (rule kept_thread [OF D(2) t st'(1) _ that]) (simp add: pc)
      show "Some th' \<in> set (threads st') \<and> \<not> status_ok (th_s th')" if "failed new \<noteq> []"
      proof -
        have "t < length (threads st)" using t by (simp add: thread_at_nth)
        then have "Some th' \<in> set (threads st')" by (simp add: st'(1) set_update_memI)
        then show ?thesis using that new(3) err(2) by (auto split: if_splits)
      qed
    qed (fact err)+
  qed (use st' in simp_all)
qed

lemma begin_inv:
  assumes flat: "flat_view (gview impl) n" and inv: "exec_inv (gview impl) n evs st"
    and t: "thread_at st t = Some th" and pc: "th_pc th = At_Loop" and ne: "\<not> rq_empty (th_inline_ready th)"
  shows "\<exists>new st'. step_begin P impl t mem st = Some (new, st') \<and> exec_inv (gview impl) n (evs @ new) st' \<and>
    (\<forall>u inputs. Ran u inputs \<in> set new \<longrightarrow> kernel_inputs P (gview impl) evs u mem inputs)"
proof -
  let ?gv = "gview impl"
  note D = exec_invD [OF inv t]
  have rq: "rq_ok (th_inline_ready th)" using D(1) by (simp add: th_ok_def)
  obtain u us where q: "rq_list (th_inline_ready th) = u # us" using ne rq_ops(5) [OF rq] by (cases "rq_list (th_inline_ready th)") auto
  have front: "rq_front (th_inline_ready th) = Some u" by (simp add: rq_ops(6) [OF rq] q)
  have tl': "rq_list (rq_pop_front (th_inline_ready th)) = us" using rq_ops(7) [OF rq] q by simp
  have comp: "\<not> th_completed th" "\<not> th_async th" using D(1) q by (auto simp: th_ok_def)
  have "0 < th_count th" using pc q by (simp add: th_count_def)
  note A = thread_alive [OF inv t this]
  have T: "tokens_inv ?gv evs st" using inv by (simp add: exec_inv_def)
  have uw: "u \<in># waiting st"
  proof -
    have "th_waiting th \<subseteq># waiting st"
      using agg_sub_mset [OF thread_at_mem [OF t], of th_waiting] unfolding waiting_def by (rule subset_mset.order_trans) simp
    then show ?thesis using q by (auto simp: th_waiting_def dest: mset_subset_eqD)
  qed
  have u0: "tn_frame u = 0" "tn_iter u = 0" using tokens_token(1) [OF T, of u] uw by (auto simp: tok_ok_def)
  obtain item where item: "item_at ?gv (tn_node u) = Some item" using tokens_token(1) [OF T, of u] uw by (auto simp: tok_ok_def)
  have nb: "tn_node u \<notin> set (begun evs)" using tokens_facts(6) [OF T uw] by simp
  have "0 < unfinished evs st" using uw unfolding unfinished_def by (cases "waiting st") auto
  then have open0: "frame_open ?gv n evs (unfinished evs st) st" using inv A(1) by (simp add: exec_inv_def frame_inv_def)
  obtain fs it where I: "iteration_of u st = Some it" "iter_inv ?gv n (set (begun evs)) it (arrivals ?gv evs)"
    "\<And>it'. put_iteration u it' st = Some (put_frame 0 (SetIteration 0 (Some it') fs) st)"
    "\<And>it' evs' st'. frames st' = frames (put_frame 0 (SetIteration 0 (Some it') fs) st) \<Longrightarrow>
       iter_inv ?gv n (set (begun evs')) it' (arrivals ?gv evs') \<Longrightarrow> outstanding_ops it' = outstanding_ops it \<Longrightarrow>
       outstanding_frame_count it' = outstanding_frame_count it \<Longrightarrow> frame_open ?gv n evs' (unfinished evs st) st'"
    by (rule open_iteration [OF open0 u0]) blast
  let ?q = "rq_pop_front (th_inline_ready th)" let ?S = "insert (tn_node u) (set (begun evs))"
  let ?put = "\<lambda>it'. put_frame 0 (SetIteration 0 (Some it') fs) st"
  have bad: "\<not> status_ok (x_status st)" if "\<not> status_ok (th_s th)"
    using D(2) thread_at_mem [OF t] pc that by (auto simp: error_inv_def)
  have "\<exists>v. Failed v (th_s th) \<in> set evs" if "\<not> status_ok (th_s th)"
    using D(2) thread_at_mem [OF t] that by (auto simp: error_inv_def)
  note bad = bad this
  show ?thesis
  proof (cases "tn_dead u \<and> \<not> IsTransferNode (ni_node item)")
    case dead: True
    obtain it' where C: "ClearInputs item it = Some it'" "iter_inv ?gv n ?S it' (arrivals ?gv evs)" "outstanding_ops it' = outstanding_ops it"
      "outstanding_frame_count it' = outstanding_frame_count it" using ClearInputs_inv [OF I(2) flat item] by blast
    let ?th = "th\<lparr>th_inline_ready := ?q, th_pc := (if status_ok (th_s th) then At_Propagate u (replicate (item_num_outputs item) Entry) else At_NodeDone)\<rparr>"
    let ?new = "if status_ok (th_s th) then [Began u, Skipped u] else [Began u, Skipped u, Failed u (th_s th)]"
    let ?st = "put_thread t (Some ?th) (?put it')"
    have step: "step_begin P impl t mem st = Some (?new, ?st)"
      using t pc A(1) front item I(1,3) dead C(1) by (simp add: step_begin_def)
    have "exec_inv ?gv n (evs @ ?new) ?st"
    proof (rule begin_assemble [OF inv t pc q, where th' = ?th and as = "[]" and f = "\<not> status_ok (th_s th)"])
      show "frame_open ?gv n (evs @ ?new) (unfinished evs st) ?st"
        by (rule I(4) [where it' = it']) (use C in \<open>simp_all add: threads_put\<close>)
    qed (use comp item bad tl' in \<open>auto simp: threads_put put_frame_sel th_active_def th_count_def split: if_splits\<close>)
    then show ?thesis using step by (auto split: if_splits)
  next
    case live: False
    obtain s inputs d it' ens where R: "PrepareInputs P item mem it = Some (s, inputs, d, it')" "iter_inv ?gv n ?S it' (arrivals ?gv evs)"
      "outstanding_ops it' = outstanding_ops it" "outstanding_frame_count it' = outstanding_frame_count it"
      "prepare_loop P item (the (n_props (ni_node item))) mem 0 (stored item (at (tn_node u) (arrivals ?gv evs))) = (s, inputs, d, ens)"
      using PrepareInputs_inv [OF I(2) flat item nb] by blast
    show ?thesis
    proof (cases "status_ok s")
      case False
      obtain it2 where C: "ClearInputs item it' = Some it2" "iter_inv ?gv n ?S it2 (arrivals ?gv evs)" "outstanding_ops it2 = outstanding_ops it'"
        "outstanding_frame_count it2 = outstanding_frame_count it'" using ClearInputs_inv [OF R(2) flat item] by auto
      let ?th = "th\<lparr>th_inline_ready := ?q, th_s := s, th_pc := At_NodeDone\<rparr>" let ?new = "[Began u, Failed u s]"
      let ?st = "put_thread t (Some ?th) (?put it2)"
      have step: "step_begin P impl t mem st = Some (?new, ?st)"
        using t pc A(1) front item I(1,3) live R(1) False C(1) by (auto simp: step_begin_def)
      have "exec_inv ?gv n (evs @ ?new) ?st"
      proof (rule begin_assemble [OF inv t pc q, where th' = ?th and as = "[]" and f = True])
        show "frame_open ?gv n (evs @ ?new) (unfinished evs st) ?st"
          by (rule I(4) [where it' = it2]) (use C R in \<open>simp_all add: threads_put\<close>)
      qed (use comp False tl' in \<open>auto simp: threads_put put_frame_sel th_active_def th_count_def\<close>)
      then show ?thesis using step by auto
    next
      case True
      have K: "kernel_inputs P ?gv evs u mem inputs" using item True R(5) unfolding kernel_inputs_def by blast
      let ?new = "[Began u, Ran u inputs]"
      have F: "frame_open ?gv n (evs @ ?new) (unfinished evs st) st'" if "frames st' = frames (?put it')" for st'
        by (rule I(4) [where it' = it', OF that]) (use R in simp_all)
      show ?thesis
      proof (cases "kernel_is_async item")
        case async: True
        let ?th = "th\<lparr>th_inline_ready := ?q, th_s := s\<rparr>"
        let ?st = "put_thread t (Some ?th) ((?put it')\<lparr>asyncs := asyncs st @ [Some \<lparr>as_node = u, as_inputs = inputs\<rparr>]\<rparr>)"
        have step: "step_begin P impl t mem st = Some (?new, ?st)"
          using t pc A(1) front item I(1,3) live R(1) True async by (auto simp: step_begin_def put_frame_sel)
        have "exec_inv ?gv n (evs @ ?new) ?st"
          by (rule begin_assemble [OF inv t pc q, where th' = ?th and as = "[Some \<lparr>as_node = u, as_inputs = inputs\<rparr>]" and f = False])
            (use comp True pc tl' F in \<open>auto simp: threads_put put_frame_sel th_active_def th_count_def zero_multiset_def\<close>)
        then show ?thesis using step K by auto
      next
        case sync: False
        let ?th = "th\<lparr>th_inline_ready := ?q, th_s := s, th_pc := At_Compute u inputs d\<rparr>"
        let ?st = "put_thread t (Some ?th) (?put it')"
        have step: "step_begin P impl t mem st = Some (?new, ?st)"
          using t pc A(1) front item I(1,3) live R(1) True sync by (auto simp: step_begin_def)
        have "exec_inv ?gv n (evs @ ?new) ?st"
          by (rule begin_assemble [OF inv t pc q, where th' = ?th and as = "[]" and f = False])
            (use comp True tl' F in \<open>auto simp: threads_put put_frame_sel th_active_def th_count_def\<close>)
        then show ?thesis using step K by auto
      qed
    qed
  qed
qed

section \<open>A kernel returns\<close>

lemma finish_kernel_ok:
  assumes flat: "flat_view (gview impl) n" and inv: "exec_inv (gview impl) n evs st" and act: "u \<in># active st"
    and oc: "item_at (gview impl) (tn_node u) = Some item" "length (oc_outputs oc) = item_num_outputs item"
  shows "\<exists>s outputs fs. finish_kernel P impl u mem oc th st = Some (if status_ok s
      then ([], th\<lparr>th_s := s, th_pc := At_Propagate u outputs\<rparr>, put_frame 0 fs st)
      else ([Failed u s], th\<lparr>th_s := s, th_pc := At_NodeDone\<rparr>, put_frame 0 fs st)) \<and>
    length outputs = item_num_outputs item \<and>
    (\<forall>new st'. frames st' = frames (put_frame 0 fs st) \<longrightarrow> begun new = [] \<longrightarrow> arrivals (gview impl) new = [] \<longrightarrow>
       frame_open (gview impl) n (evs @ new) (unfinished evs st) st')"
proof -
  let ?gv = "gview impl"
  note A = active_frame [OF inv act]
  have T: "tokens_inv ?gv evs st" using inv by (simp add: exec_inv_def)
  have u0: "tn_frame u = 0" "tn_iter u = 0" using tokens_token(1) [OF T, of u] act by (auto simp: tok_ok_def)
  have b: "tn_node u \<in> set (begun evs)" using tokens_facts(5) [OF T act] by simp
  obtain fs it where I: "iteration_of u st = Some it" "iter_inv ?gv n (set (begun evs)) it (arrivals ?gv evs)"
    "\<And>it'. put_iteration u it' st = Some (put_frame 0 (SetIteration 0 (Some it') fs) st)"
    "\<And>it' evs' st'. frames st' = frames (put_frame 0 (SetIteration 0 (Some it') fs) st) \<Longrightarrow>
       iter_inv ?gv n (set (begun evs')) it' (arrivals ?gv evs') \<Longrightarrow> outstanding_ops it' = outstanding_ops it \<Longrightarrow>
       outstanding_frame_count it' = outstanding_frame_count it \<Longrightarrow> frame_open ?gv n evs' (unfinished evs st) st'"
    by (rule open_iteration [OF A(3) u0]) blast
  obtain it' where C: "ClearInputs item it = Some it'" "iter_inv ?gv n (insert (tn_node u) (set (begun evs))) it' (arrivals ?gv evs)"
    "outstanding_ops it' = outstanding_ops it" "outstanding_frame_count it' = outstanding_frame_count it"
    using ClearInputs_inv [OF I(2) flat oc(1)] by blast
  obtain props where props: "n_props (ni_node item) = Some props" using flat_viewD(9) [OF flat oc(1)] by auto
  obtain s outputs where PO: "ProcessOutputs P item mem oc = Some (s, outputs)" "length outputs = item_num_outputs item"
    using props oc(2) by (cases "status_ok (oc_status oc)") (simp_all add: ProcessOutputs_def Let_def)
  have "finish_kernel P impl u mem oc th st = Some (if status_ok s
      then ([], th\<lparr>th_s := s, th_pc := At_Propagate u outputs\<rparr>, put_frame 0 (SetIteration 0 (Some it') fs) st)
      else ([Failed u s], th\<lparr>th_s := s, th_pc := At_NodeDone\<rparr>, put_frame 0 (SetIteration 0 (Some it') fs) st))"
    using oc(1) PO(1) I(1,3) C(1) by (simp add: finish_kernel_def)
  moreover have "frame_open ?gv n (evs @ new) (unfinished evs st) st'"
    if "frames st' = frames (put_frame 0 (SetIteration 0 (Some it') fs) st)" "begun new = []" "arrivals ?gv new = []" for new st'
    by (rule I(4) [OF that(1)]) (use that C b in \<open>simp_all add: insert_absorb\<close>)
  ultimately show ?thesis using PO(2) by blast
qed

lemma returned_inv:
  assumes flat: "flat_view (gview impl) n" and inv: "exec_inv (gview impl) n evs st"
    and t: "thread_at st t = Some th" and pc: "th_pc th = At_Compute u inputs d"
    and oc: "item_at (gview impl) (tn_node u) = Some item" "length (oc_outputs oc) = item_num_outputs item"
  shows "\<exists>new st'. step_returned P impl t mem oc st = Some (new, st') \<and> exec_inv (gview impl) n (evs @ new) st' \<and> (\<forall>u inputs. Ran u inputs \<notin> set new)"
proof -
  let ?gv = "gview impl"
  note D = exec_invD [OF inv t]
  have T: "tokens_inv ?gv evs st" using inv by (simp add: exec_inv_def)
  have act: "u \<in># active st"
  proof -
    have "th_active th \<subseteq># active st"
      using agg_sub_mset [OF thread_at_mem [OF t], of th_active] unfolding active_def by (rule subset_mset.order_trans) simp
    then show ?thesis using pc by (auto simp: th_active_def dest: mset_subset_eqD)
  qed
  note A = active_frame [OF inv act]
  have ok: "status_ok (th_s th)" "\<not> th_completed th" using D(1) pc by (auto simp: th_ok_def)
  obtain s outputs fs where K: "finish_kernel P impl u mem oc th st = Some (if status_ok s
      then ([], th\<lparr>th_s := s, th_pc := At_Propagate u outputs\<rparr>, put_frame 0 fs st)
      else ([Failed u s], th\<lparr>th_s := s, th_pc := At_NodeDone\<rparr>, put_frame 0 fs st))" "length outputs = item_num_outputs item"
    "\<And>new st'. frames st' = frames (put_frame 0 fs st) \<Longrightarrow> begun new = [] \<Longrightarrow> arrivals ?gv new = [] \<Longrightarrow>
       frame_open ?gv n (evs @ new) (unfinished evs st) st'"
    using finish_kernel_ok [OF flat inv act oc] by blast
  let ?new = "if status_ok s then [] else [Failed u s]"
  let ?th = "th\<lparr>th_s := s, th_pc := (if status_ok s then At_Propagate u outputs else At_NodeDone)\<rparr>"
  let ?st = "put_thread t (Some ?th) (put_frame 0 fs st)"
  have step: "step_returned P impl t mem oc st = Some (?new, ?st)" using t pc A(1) K(1) by (simp add: step_returned_def)
  have thr: "threads ?st = (threads st)[t := Some ?th]" by (simp add: threads_put put_frame_sel)
  note C = thread_change [OF t thr]
  have w: "waiting ?st = waiting st" using C(1) pc ok by (simp add: threads_put put_frame_sel th_waiting_def split: if_splits)
  have "tokens_inv ?gv (evs @ ?new) ?st \<and> unfinished (evs @ ?new) ?st = unfinished evs st"
  proof (cases "status_ok s")
    case True
    then have "active ?st = active st" using C(2) pc by (simp add: threads_put put_frame_sel th_active_def)
    then show ?thesis using T True w by (simp only: tokens_inv_def unfinished_def if_True append_Nil2) simp
  next
    case False
    have a: "add_mset u (active ?st) = active st" using C(2) pc False by (simp add: threads_put put_frame_sel th_active_def)
    show ?thesis using tokens_fail [OF T w a, of ?new] False by simp
  qed
  then have T': "tokens_inv ?gv (evs @ ?new) ?st" "unfinished (evs @ ?new) ?st = unfinished evs st" by blast+
  have "exec_inv ?gv n (evs @ ?new) ?st"
  proof (rule move_inv [OF inv A(1,4) T'])
    show "frame_open ?gv n (evs @ ?new) (unfinished evs st) ?st" by (rule K(3)) (simp_all add: threads_put)
    show "deleting ?st = deleting st" using C(4) pc by simp
    show "counted ?st = counted st" using C(3) pc by (simp add: threads_put put_frame_sel th_count_def split: if_splits)
    show "agg (\<lambda>th. of_bool (th_completed th) :: nat) (threads ?st) = agg (\<lambda>th. of_bool (th_completed th)) (threads st)" using C(5) by simp
    show "th_ok ?gv b" if "Some b \<in> set (threads ?st)" for b
      by (rule threads_ok [OF inv t thr _ that]) (use D(1) pc ok oc(1) K(2) in \<open>auto simp: th_ok_def\<close>)
    show "error_inv (evs @ ?new) ?st"
    proof (rule error_inv_step [OF D(2), where th' = ?th])
      show "Some b \<in> set (threads st) \<or> b = ?th" if "Some b \<in> set (threads ?st)" for b
        using set_threads_put [OF that [unfolded thr] t] by auto
      show "Some b \<in> set (threads ?st)" if "Some b \<in> set (threads st)" "\<not> status_ok (th_s b)" "status_ok (x_status st)" for b
        by (rule kept_thread [OF D(2) t thr _ that]) (simp add: pc)
      have "t < length (threads st)" using t by (simp add: thread_at_nth)
      then show "Some ?th \<in> set (threads ?st) \<and> \<not> status_ok (th_s ?th)" if "failed ?new \<noteq> []"
        using that by (auto simp: thr set_update_memI split: if_splits)
    qed (auto simp: threads_put put_frame_sel split: if_splits)
  qed (simp_all add: threads_put put_frame_sel)
  then show ?thesis using step by auto
qed

lemma async_done_inv:
  assumes flat: "flat_view (gview impl) n" and inv: "exec_inv (gview impl) n evs st"
    and k: "k < length (asyncs st)" "asyncs st ! k = Some a"
    and oc: "item_at (gview impl) (tn_node (as_node a)) = Some item" "length (oc_outputs oc) = item_num_outputs item"
  shows "\<exists>new st'. step_async_done P impl k mem oc st = Some (new, st') \<and> exec_inv (gview impl) n (evs @ new) st' \<and> (\<forall>u inputs. Ran u inputs \<notin> set new)"
proof -
  let ?gv = "gview impl" let ?u = "as_node a"
  have T: "tokens_inv ?gv evs st" and E: "error_inv evs st" using inv by (simp_all add: exec_inv_def)
  have mem: "Some a \<in> set (asyncs st)" using k by (metis nth_mem)
  have act: "?u \<in># active st"
  proof -
    have "{#?u#} \<subseteq># active st"
      using agg_sub_mset [OF mem, of "\<lambda>a. {#as_node a#}"] unfolding active_def by (rule subset_mset.order_trans) simp
    then show ?thesis by simp
  qed
  note A = active_frame [OF inv act]
  let ?th0 = "\<lparr>th_pc = At_NodeDone, th_async = True, th_inline_ready = TaggedNodeReadyQueue, th_ready = [], th_s = OK, th_completed = False\<rparr>"
  obtain s outputs fs where K: "finish_kernel P impl ?u mem oc ?th0 st = Some (if status_ok s
      then ([], ?th0\<lparr>th_s := s, th_pc := At_Propagate ?u outputs\<rparr>, put_frame 0 fs st)
      else ([Failed ?u s], ?th0\<lparr>th_s := s, th_pc := At_NodeDone\<rparr>, put_frame 0 fs st))" "length outputs = item_num_outputs item"
    "\<And>new st'. frames st' = frames (put_frame 0 fs st) \<Longrightarrow> begun new = [] \<Longrightarrow> arrivals ?gv new = [] \<Longrightarrow>
       frame_open ?gv n (evs @ new) (unfinished evs st) st'"
    using finish_kernel_ok [OF flat inv act oc] by blast
  let ?new = "if status_ok s then [] else [Failed ?u s]"
  define th1 where "th1 = ?th0\<lparr>th_s := s, th_pc := (if status_ok s then At_Propagate ?u outputs else At_NodeDone)\<rparr>"
  let ?st = "(put_frame 0 fs st)\<lparr>asyncs := (asyncs st)[k := None], threads := threads st @ [Some th1]\<rparr>"
  have step: "step_async_done P impl k mem oc st = Some (?new, ?st)"
    using k A(1) K(1) by (simp add: step_async_done_def put_frame_sel th1_def)
  have thr: "threads ?st = threads st @ [Some th1]" by simp
  have q: "rq_list TaggedNodeReadyQueue = []" "rq_ok TaggedNodeReadyQueue" by (simp_all add: rq_ops)
  have as: "agg f (asyncs ?st) + f a = agg f (asyncs st)" for f :: "async_state \<Rightarrow> 'x::comm_monoid_add"
    using agg_update [OF k(1), of f None] k(2) by simp
  have th: "th_waiting th1 = {#}" "th_active th1 = (if status_ok s then {#?u#} else {#})" "th_count th1 = 1" "\<not> is_deleting (th_pc th1)"
    unfolding th_waiting_def th_active_def th_count_def by (simp_all add: q th1_def)
  have w: "waiting ?st = waiting st" by (simp add: waiting_def th put_frame_sel)
  have act': "active ?st + {#?u#} = active st + (if status_ok s then {#?u#} else {#})"
    using as [of "\<lambda>a. {#as_node a#}"] unfolding active_def thr by (simp add: th ac_simps)
  have cnt: "counted ?st = counted st" using as [of "\<lambda>_. 1 :: nat"] by (simp add: counted_def th put_frame_sel)
  have "tokens_inv ?gv (evs @ ?new) ?st \<and> unfinished (evs @ ?new) ?st = unfinished evs st"
  proof (cases "status_ok s")
    case True
    then have "active ?st = active st" using act' by simp
    then show ?thesis using T True w by (simp only: tokens_inv_def unfinished_def if_True append_Nil2) simp
  next
    case False
    have a: "add_mset ?u (active ?st) = active st" using act' False by simp
    show ?thesis using tokens_fail [OF T w a, of ?new] False by simp
  qed
  then have T': "tokens_inv ?gv (evs @ ?new) ?st" "unfinished (evs @ ?new) ?st = unfinished evs st" by blast+
  have "exec_inv ?gv n (evs @ ?new) ?st"
  proof (rule move_inv [OF inv A(1,4) T'])
    show "frame_open ?gv n (evs @ ?new) (unfinished evs st) ?st" by (rule K(3)) simp_all
    show "deleting ?st = deleting st" unfolding deleting_def thr by (simp add: th(4))
    show "counted ?st = counted st" by (rule cnt)
    show "agg (\<lambda>th. of_bool (th_completed th) :: nat) (threads ?st) = agg (\<lambda>th. of_bool (th_completed th)) (threads st)" by (simp add: th1_def)
    show "th_ok ?gv b" if "Some b \<in> set (threads ?st)" for b
      using that inv oc(1) K(2) by (auto simp: exec_inv_def th_ok_def q th1_def)
    show "error_inv (evs @ ?new) ?st"
      by (rule error_inv_step [OF E, where th' = th1]) (auto simp: put_frame_sel th1_def split: if_splits)
  qed (simp_all add: put_frame_sel)
  then show ?thesis using step by auto
qed

section \<open>Every enabled step\<close>

lemma go_inv:
  assumes flat: "flat_view (gview impl) n" and inv: "exec_inv (gview impl) n evs st"
    and t: "thread_at st t = Some th" and pc: "\<forall>tn inputs d. th_pc th \<noteq> At_Compute tn inputs d" "th_pc th = At_Loop \<longrightarrow> rq_empty (th_inline_ready th)"
  shows "\<exists>new st'. step_go P impl t st = Some (new, st') \<and> exec_inv (gview impl) n (evs @ new) st' \<and> (\<forall>u inputs. Ran u inputs \<notin> set new)"
proof -
  have ok: "th_ok (gview impl) th" by (rule exec_invD(1) [OF inv t])
  have quiet: ?thesis if "\<exists>st'. step_go P impl t st = Some ([], st') \<and> exec_inv (gview impl) n evs st'"
    using that by auto
  show ?thesis
  proof (cases "th_pc th")
    case At_Loop
    show ?thesis by (rule quiet, rule loop_inv [OF inv t At_Loop]) (use pc At_Loop in simp)
  next
    case (At_Propagate u outputs)
    from propagate_inv [OF flat inv t At_Propagate, of P] show ?thesis by auto
  next
    case At_Finish
    from finish_inv [OF inv t At_Finish, of P] show ?thesis by auto
  qed (use pc(1) ok quiet delete_inv [OF inv t] erase_inv [OF inv t] status_inv [OF inv t] count_step_inv [OF inv t] schedule_inv [OF inv t]
      in \<open>auto simp: th_ok_def\<close>)
qed

fun label_mem :: "label \<Rightarrow> nat \<Rightarrow> tensor" where
  "label_mem (Begin t mem) = mem"
| "label_mem (Returned t mem oc) = mem"
| "label_mem (AsyncDone k mem oc) = mem"
| "label_mem l = (\<lambda>_. kEmptyTensor)"

lemma exec_step_inv:
  assumes flat: "flat_view (gview impl) n" and inv: "exec_inv (gview impl) n evs st" and en: "enabled impl l st"
  shows "\<exists>new st'. exec_step P impl l st = Some (new, st') \<and> exec_inv (gview impl) n (evs @ new) st' \<and>
    (\<forall>u inputs. Ran u inputs \<in> set new \<longrightarrow> kernel_inputs P (gview impl) evs u (label_mem l) inputs)"
proof (cases l)
  case (Start i)
  then obtain st' where s: "step_start i st = Some ([], st')" using en by (auto simp: step_start_def)
  from start_inv [OF inv s] show ?thesis using Start s by auto
next
  case (Begin t mem)
  then obtain th where th: "thread_at st t = Some th" "th_pc th = At_Loop" "\<not> rq_empty (th_inline_ready th)" using en by auto
  from begin_inv [OF flat inv th, of P mem] show ?thesis using Begin by simp
next
  case (Returned t mem oc)
  then obtain th u inputs d item where th: "thread_at st t = Some th" "th_pc th = At_Compute u inputs d"
    "item_at (gview impl) (tn_node u) = Some item" "length (oc_outputs oc) = item_num_outputs item" using en by auto
  from returned_inv [OF flat inv th, of P mem] show ?thesis using Returned by auto
next
  case (AsyncDone k mem oc)
  then obtain a item where a: "k < length (asyncs st)" "asyncs st ! k = Some a"
    "item_at (gview impl) (tn_node (as_node a)) = Some item" "length (oc_outputs oc) = item_num_outputs item" using en by auto
  from async_done_inv [OF flat inv a, of P mem] show ?thesis using AsyncDone by auto
next
  case (Go t)
  then obtain th where th: "thread_at st t = Some th" "\<forall>tn inputs d. th_pc th \<noteq> At_Compute tn inputs d"
    "th_pc th = At_Loop \<longrightarrow> rq_empty (th_inline_ready th)" using en by auto
  from go_inv [OF flat inv th, of P] show ?thesis using Go by auto
qed

end
