(* ===== verification/TF_ExecutorMain.thy ===== *)
theory TF_ExecutorMain
  imports TF_ExecutorSteps
begin

text \<open>
  Runs of the executor on a graph view without frames: they never go wrong, they end, they start every
  node exactly once and after its inputs, they give a kernel what its producers sent, and they
  report the first error, or success when there was none.
\<close>

section \<open>The initial state\<close>

text \<open>What \<open>Initialize\<close> leaves for a graph whose nodes are all in the root frame.\<close>

definition flat_impl :: "executor_impl \<Rightarrow> bool" where
  "flat_impl impl \<longleftrightarrow> (\<exists>fi m. frame_infos impl [] = Some fi \<and> input_count fi = 0 \<and> fi_pending_counts fi = Some m \<and>
     flat_view (gview impl) (total_inputs fi) \<and>
     (\<forall>d item. item_at (gview impl) d = Some item \<longrightarrow> in_bounds (pending_id item) m \<and>
        (\<not> is_sink item \<longrightarrow> read_counts (pending_id item) m =
           Some \<lparr>c_pending = max_pending (gview impl) d item, c_dead = 0, c_started = False\<rparr>)) \<and>
     root_nodes impl \<noteq> [] \<and> distinct (root_nodes impl) \<and>
     set (root_nodes impl) = {d. item_at (gview impl) d \<noteq> None \<and> in_degree (gview impl) d = 0})"

definition inputs_size :: "executor_impl \<Rightarrow> nat" where
  "inputs_size impl = total_inputs (the (frame_infos impl []))"

lemma fires_Nil:
  assumes "is_merge item \<longrightarrow> item_num_inputs item = data_degree gv d"
  shows "fires gv d item [] \<longleftrightarrow> in_degree gv d = 0"
  using assms by (auto simp: fires_def in_degree_split)

lemma counts_after_Nil:
  "counts_after gv d item [] \<lparr>c_pending = max_pending gv d item, c_dead = 0, c_started = False\<rparr>"
  by (simp add: counts_after_def max_pending_def)

lemma inputs_of_replicate:
  "input_start item + item_num_inputs item \<le> n \<Longrightarrow> inputs_of item (replicate n Entry) = replicate (item_num_inputs item) Entry"
  by (simp add: inputs_of_def drop_replicate take_replicate min_def)

lemma flat_implD:
  assumes "flat_impl impl"
  shows "flat_view (gview impl) (inputs_size impl)" "root_nodes impl \<noteq> []" "distinct (root_nodes impl)"
    "set (root_nodes impl) = {d. item_at (gview impl) d \<noteq> None \<and> in_degree (gview impl) d = 0}"
    "fired (gview impl) [] = set (root_nodes impl)"
proof -
  show f: "flat_view (gview impl) (inputs_size impl)" "root_nodes impl \<noteq> []" "distinct (root_nodes impl)"
    and r: "set (root_nodes impl) = {d. item_at (gview impl) d \<noteq> None \<and> in_degree (gview impl) d = 0}"
    using assms by (auto simp: flat_impl_def inputs_size_def)
  show "fired (gview impl) [] = set (root_nodes impl)"
    unfolding r fired_def using fires_Nil flat_viewD(3) [OF f(1)] by (auto simp del: not_None_eq)
qed

lemma initial_inv:
  assumes flat: "flat_impl impl" and s0: "ExecutorState impl = Some st0" and s: "RunAsync impl OK st0 = Some st"
  shows "exec_inv (gview impl) (inputs_size impl) [] st"
proof -
  let ?gv = "gview impl" let ?n = "inputs_size impl"
  note FD = flat_implD [OF flat]
  obtain fi m where F: "frame_infos impl [] = Some fi" "input_count fi = 0" "fi_pending_counts fi = Some m"
    "\<And>d item. item_at ?gv d = Some item \<Longrightarrow> in_bounds (pending_id item) m"
    "\<And>d item. item_at ?gv d = Some item \<Longrightarrow> \<not> is_sink item \<Longrightarrow> read_counts (pending_id item) m =
      Some \<lparr>c_pending = max_pending ?gv d item, c_dead = 0, c_started = False\<rparr>"
    using flat unfolding flat_impl_def by blast
  have n: "total_inputs fi = ?n" by (simp add: inputs_size_def F(1))
  let ?it = "IterationState m ?n" let ?r = "length (root_nodes impl)"
  let ?root = "(FrameState 1)\<lparr>fs_pending_counts := Some m, total_input_tensors := ?n, num_pending_inputs := 0, iterations := [Some ?it]\<rparr>"
  have st0: "st0 = \<lparr>frames = [Some ?root], outstanding_frames = [[] \<mapsto> 0], x_status = OK, num_outstanding_ops = 0, x_alive = True,
       done_cb = False, runner_queue = [], threads = [], asyncs = [], x_aborts = [], done_calls = []\<rparr>"
    using s0 F(1-3) n by (simp add: ExecutorState_def InitializeFrameInfo_def start_iterations_def FrameState_def)
  let ?tok = "\<lambda>n. \<lparr>tn_node = n, tn_frame = 0, tn_iter = 0, tn_dead = False\<rparr>"
  let ?root1 = "SetIteration 0 (Some (?it\<lparr>outstanding_ops := ?r\<rparr>)) ?root"
  have st: "st = st0\<lparr>frames := [Some ?root1], num_outstanding_ops := int ?r, done_cb := True, runner_queue := map ?tok (root_nodes impl)\<rparr>"
    using s FD(2) by (simp add: RunAsync_def st0 frame_at_def GetIteration_def iter_index_def put_frame_def ScheduleReady_def Let_def)
  have W: "waiting st = mset (map ?tok (root_nodes impl))" "active st = {#}" "counted st = ?r" "deleting st = 0"
    by (simp_all add: waiting_def active_def counted_def deleting_def st st0)
  have unf: "unfinished [] st = ?r" by (simp add: unfinished_def W)
  have "tokens_inv ?gv [] st"
    unfolding tokens_inv_def
  proof (intro conjI ballI)
    have "image_mset tn_node (waiting st) = mset (root_nodes impl)" by (simp add: W(1) multiset.map_comp comp_def flip: mset_map)
    then show "image_mset tn_node (waiting st) + mset (begun []) = mset_set (fired ?gv (arrivals ?gv []))"
      using FD(3,5) by (simp add: mset_set_set)
    show "image_mset tn_node (active st) + mset (propagated [] @ failed []) = mset (begun [])" by (simp add: W(2))
    fix u assume "u \<in># waiting st + active st"
    then obtain d where d: "u = ?tok d" "d \<in> set (root_nodes impl)" unfolding W by auto
    then obtain item where "item_at ?gv d = Some item" using FD(4) by auto
    then show "tok_ok ?gv (arrivals ?gv []) u" by (simp add: tok_ok_def d(1) dead_after_def)
  qed
  moreover have "frame_open ?gv ?n [] ?r st"
  proof -
    have "iter_inv ?gv ?n {} (?it\<lparr>outstanding_ops := ?r\<rparr>) []"
      unfolding iter_inv_def counts_inv_def inputs_inv_def
      using F(4,5) counts_after_Nil inputs_of_replicate flat_viewD(4) [OF FD(1)] by (auto simp: IterationState_def)
    moreover have "flat_frame ?root1" by (simp add: flat_frame_def SetIteration_def FrameState_def)
    ultimately show ?thesis by (simp add: frame_open_def st SetIteration_def iter_index_def IterationState_def)
  qed
  then have "frame_inv ?gv ?n [] st" using FD(2) by (simp add: frame_inv_def unf W(4))
  moreover have "count_inv st" using FD(2) by (simp add: count_inv_def W(3)) (simp add: st st0)
  moreover have "error_inv [] st" by (simp add: error_inv_def st st0)
  ultimately show ?thesis by (simp add: exec_inv_def) (simp add: st st0)
qed

lemma run_inv:
  assumes flat: "flat_impl impl" and run: "exec_run P impl evs st"
  shows "exec_inv (gview impl) (inputs_size impl) evs st"
  using run
proof (induction rule: exec_run.induct)
  case (run_start st0 st)
  then show ?case by (rule initial_inv [OF flat])
next
  case (run_step evs st l new st')
  from exec_step_inv [OF flat_implD(1) [OF flat] run_step.IH run_step.hyps(2), of P] show ?case
    using run_step.hyps(3) by auto
qed

section \<open>What a step lets be seen\<close>

definition dones :: "event list \<Rightarrow> status list" where
  "dones evs = concat (map (\<lambda>e. case e of DoneCalled s \<Rightarrow> [s] | _ \<Rightarrow> []) evs)"

lemma dones_simps [simp]:
  "dones [] = []" "dones (xs @ ys) = dones xs @ dones ys"
  "dones (e # xs) = (case e of DoneCalled s \<Rightarrow> [s] | _ \<Rightarrow> []) @ dones xs"
  by (simp_all add: dones_def)

lemma done_calls_put [simp]: "done_calls (put_thread t x st) = done_calls st" "done_calls (put_frame f fs st) = done_calls st"
  by (simp_all add: put_thread_def put_frame_def)

lemma put_iteration_done_calls: "put_iteration u it st = Some st' \<Longrightarrow> done_calls st' = done_calls st"
  by (auto simp: put_iteration_def bind_eq_Some_conv)

lemma child_done_calls:
  assumes "FindOrCreateChildFrame P impl f i nd st = Some (c, st')"
  shows "done_calls st' = done_calls st"
proof -
  obtain frame props where 1: "frame_at st f = Some frame" "n_props nd = Some props"
    using assms by (auto simp: FindOrCreateChildFrame_def bind_eq_Some_conv)
  obtain en where 2: "GetNodeAttr_string P (np_node_def props) ''frame_name'' = Inr en"
    using assms 1 by (cases "GetNodeAttr_string P (np_node_def props) ''frame_name''") (simp_all add: FindOrCreateChildFrame_def)
  show ?thesis
  proof (cases "outstanding_frames st (MakeFrameName frame i en)")
    case None
    obtain n where "GetNodeAttr_int32 P (np_node_def props) ''parallel_iterations'' = Inr n"
      using assms 1 2 None by (cases "GetNodeAttr_int32 P (np_node_def props) ''parallel_iterations''") (simp_all add: FindOrCreateChildFrame_def)
    then show ?thesis using assms 1 2 None by (auto simp: FindOrCreateChildFrame_def bind_eq_Some_conv Let_def)
  qed (use assms 1 2 in \<open>simp add: FindOrCreateChildFrame_def\<close>)
qed

lemma propagate_done_calls: "propagate P impl u outputs th st = Some (th', st') \<Longrightarrow> done_calls st' = done_calls st"
  by (auto simp: propagate_def bind_eq_Some_conv Let_def child_done_calls split: if_splits prod.splits)

lemma enter_child_done_calls:
  assumes "enter_child P impl u outputs c th st = Some (th', st')"
  shows "done_calls st' = done_calls st"
proof -
  obtain item props fs where 1: "item_at (gview impl) (tn_node u) = Some item" "n_props (ni_node item) = Some props" "frame_at st c = Some fs"
    using assms by (auto simp: enter_child_def bind_eq_Some_conv Let_def)
  show ?thesis
  proof (cases "GetNodeAttr_bool P (np_node_def props) ''is_constant''")
    case (Inr is_constant)
    then show ?thesis using assms 1 by (cases is_constant) (auto simp: enter_child_def bind_eq_Some_conv Let_def)
  qed (use assms 1 in \<open>simp add: enter_child_def Let_def\<close>)
qed

lemma local_done_calls:
  "decrement_own impl u th st = Some (th', st') \<Longrightarrow> done_calls st' = done_calls st"
  "DeleteFrame_exits impl f ready st = Some (ready', st') \<Longrightarrow> done_calls st' = done_calls st"
  "DeleteFrame_erase f st = Some st' \<Longrightarrow> done_calls st' = done_calls st"
  "cleanup_frame impl f i th st = Some (th', st') \<Longrightarrow> done_calls st' = done_calls st"
  "node_done_schedule impl th st = Some (x, st') \<Longrightarrow> done_calls st' = done_calls st"
  "finish_kernel P impl u mem oc th st = Some (evs, th', st') \<Longrightarrow> done_calls st' = done_calls st"
  by (auto simp: decrement_own_def DeleteFrame_exits_def DeleteFrame_erase_def cleanup_frame_def node_done_schedule_def finish_kernel_def
      bind_eq_Some_conv Let_def put_iteration_done_calls split: sum.split_asm if_split_asm prod.split_asm option.split_asm)

lemma node_done_done_calls: "done_calls (snd (node_done_status th st)) = done_calls st" "done_calls (snd (node_done_count th st)) = done_calls st"
  by (simp_all add: node_done_status_def node_done_count_def Let_def)

lemma step_go_events:
  assumes "step_go P impl t st = Some (new, st')"
  shows "(new = [] \<or> (\<exists>u outputs. new = [Propagated u outputs])) \<and> done_calls st' = done_calls st \<or>
    (\<exists>s. new = [DoneCalled s] \<and> done_calls st' = done_calls st @ [s] \<and>
       s = (if sync_on_finish P \<and> status_ok (x_status st') then device_Sync P else x_status st'))"
proof -
  obtain th where t: "thread_at st t = Some th" using assms by (auto simp: step_go_def bind_eq_Some_conv)
  show ?thesis
  proof (cases "th_pc th")
    case At_NodeDone
    obtain th1 st1 where "node_done_status th st = (th1, st1)" by (cases "node_done_status th st")
    then show ?thesis using At_NodeDone assms t node_done_done_calls(1) [of th st] by (auto simp: step_go_def split: if_split_asm)
  next
    case At_Count
    obtain th1 st1 where "node_done_count th st = (th1, st1)" by (cases "node_done_count th st")
    then show ?thesis using At_Count assms t node_done_done_calls(2) [of th st] by (auto simp: step_go_def split: if_split_asm)
  next
    case At_Finish
    then show ?thesis using assms t by (auto simp: step_go_def Finish_def Let_def put_thread_def split: if_splits)
  qed (use assms t in \<open>auto simp: step_go_def bind_eq_Some_conv local_done_calls propagate_done_calls enter_child_done_calls split: if_splits\<close>)
qed

lemma finish_kernel_events:
  assumes "finish_kernel P impl u mem oc th st = Some (evs, th', st')"
  shows "evs = [] \<or> (\<exists>s. evs = [Failed u s])"
  using assms by (auto simp: finish_kernel_def bind_eq_Some_conv split: if_split_asm)

lemma step_begin_events:
  assumes "step_begin P impl t mem st = Some (new, st')"
  shows "\<exists>th u. thread_at st t = Some th \<and> rq_front (th_inline_ready th) = Some u \<and> x_alive st \<and> done_calls st' = done_calls st \<and>
    ((\<exists>f. new = [Began u, Skipped u] @ f \<and> (f = [] \<or> f = [Failed u (th_s th)])) \<or> (\<exists>s. new = [Began u, Failed u s]) \<or> (\<exists>ins. new = [Began u, Ran u ins]))"
proof -
  obtain th u where t: "thread_at st t = Some th" "th_pc th = At_Loop" "x_alive st" "rq_front (th_inline_ready th) = Some u"
    using assms by (auto simp: step_begin_def Let_def bind_eq_Some_conv split: if_split_asm)
  obtain item it where i: "item_at (gview impl) (tn_node u) = Some item" "iteration_of u st = Some it"
    using assms t by (auto simp: step_begin_def Let_def bind_eq_Some_conv)
  show ?thesis
  proof (cases "tn_dead u \<and> \<not> IsTransferNode (ni_node item)")
    case True
    then show ?thesis using assms t i by (auto simp: step_begin_def Let_def bind_eq_Some_conv put_iteration_done_calls split: if_split_asm)
  next
    case False
    then show ?thesis using assms t i
      by (auto simp: step_begin_def Let_def bind_eq_Some_conv put_iteration_done_calls split: if_split_asm)
  qed
qed

lemma step_events:
  assumes "exec_step P impl l st = Some (new, st')"
  shows "new = new1 @ Began u # new2 \<Longrightarrow> new1 = [] \<and> (\<exists>t th. thread_at st t = Some th \<and> rq_front (th_inline_ready th) = Some u)"
    "new = new1 @ Ran u ins # new2 \<Longrightarrow> new1 = [Began u]"
    "done_calls st' = done_calls st @ dones new"
    "DoneCalled s \<in> set new \<Longrightarrow> s = (if sync_on_finish P \<and> status_ok (x_status st') then device_Sync P else x_status st')"
    "failed new \<noteq> [] \<Longrightarrow> x_alive st"
proof -
  have "(new = [] \<and> done_calls st' = done_calls st) \<or> (\<exists>u outputs. new = [Propagated u outputs] \<and> done_calls st' = done_calls st) \<or>
    (\<exists>s. new = [DoneCalled s] \<and> done_calls st' = done_calls st @ [s] \<and>
       s = (if sync_on_finish P \<and> status_ok (x_status st') then device_Sync P else x_status st')) \<or>
    (\<exists>u s. new = [Failed u s] \<and> x_alive st \<and> done_calls st' = done_calls st) \<or>
    (\<exists>t th u. thread_at st t = Some th \<and> rq_front (th_inline_ready th) = Some u \<and> x_alive st \<and> done_calls st' = done_calls st \<and>
      ((\<exists>f. new = [Began u, Skipped u] @ f \<and> (f = [] \<or> f = [Failed u (th_s th)])) \<or> (\<exists>s. new = [Began u, Failed u s]) \<or> (\<exists>ins. new = [Began u, Ran u ins])))"
  proof (cases l)
    case (Start i)
    then show ?thesis using assms by (auto simp: step_start_def split: if_split_asm)
  next
    case (Begin t mem)
    then have "step_begin P impl t mem st = Some (new, st')" using assms by simp
    from step_begin_events [OF this] show ?thesis by blast
  next
    case (Returned t mem oc)
    then obtain th v ins d evs th1 st1 where r: "thread_at st t = Some th" "x_alive st" "th_pc th = At_Compute v ins d"
      "finish_kernel P impl v mem oc th st = Some (evs, th1, st1)" "new = evs" "st' = put_thread t (Some th1) st1"
      using assms by (auto simp: step_returned_def bind_eq_Some_conv split: if_split_asm pc.split_asm)
    show ?thesis using finish_kernel_events [OF r(4)] local_done_calls(6) [OF r(4)] r(2,5,6) by auto
  next
    case (AsyncDone k mem oc)
    let ?th0 = "\<lparr>th_pc = At_NodeDone, th_async = True, th_inline_ready = TaggedNodeReadyQueue, th_ready = [], th_s = OK, th_completed = False\<rparr>"
    obtain a where a: "k < length (asyncs st)" "asyncs st ! k = Some a" "x_alive st"
      using assms AsyncDone by (auto simp: step_async_done_def bind_eq_Some_conv split: if_split_asm)
    obtain th1 st1 where f: "finish_kernel P impl (as_node a) mem oc ?th0 st = Some (new, th1, st1)" "done_calls st' = done_calls st1"
      using assms AsyncDone a by (cases "finish_kernel P impl (as_node a) mem oc ?th0 st") (auto simp: step_async_done_def)
    show ?thesis using finish_kernel_events [OF f(1)] local_done_calls(6) [OF f(1)] a(3) f(2) by auto
  next
    case (Go t)
    then show ?thesis using step_go_events [of P impl t st new st'] assms by auto
  qed
  note E = this
  show "new = new1 @ Began u # new2 \<Longrightarrow> new1 = [] \<and> (\<exists>t th. thread_at st t = Some th \<and> rq_front (th_inline_ready th) = Some u)"
    using E by (auto simp: append_eq_Cons_conv)
  show "new = new1 @ Ran u ins # new2 \<Longrightarrow> new1 = [Began u]" using E by (auto simp: append_eq_Cons_conv)
  show "done_calls st' = done_calls st @ dones new" using E by auto
  show "DoneCalled s \<in> set new \<Longrightarrow> s = (if sync_on_finish P \<and> status_ok (x_status st') then device_Sync P else x_status st')" using E by auto
  show "failed new \<noteq> [] \<Longrightarrow> x_alive st" using E by auto
qed

section \<open>Histories\<close>

lemma split_event:
  assumes "evs @ new = evs1 @ x # evs2"
  shows "(\<exists>r. evs = evs1 @ x # r) \<or> (\<exists>new1. evs1 = evs @ new1 \<and> new = new1 @ x # evs2)"
  using assms unfolding append_eq_append_conv2 by (auto simp: append_eq_Cons_conv Cons_eq_append_conv)

lemma front_waiting:
  assumes inv: "exec_inv gv n evs st" and t: "thread_at st t = Some th" and u: "rq_front (th_inline_ready th) = Some u"
  shows "u \<in># waiting st"
proof -
  have "rq_ok (th_inline_ready th)" using exec_invD(1) [OF inv t] by (simp add: th_ok_def)
  from rq_ops(6) [OF this] have "u \<in> set (rq_list (th_inline_ready th))" using u by (auto split: list.split_asm)
  then have "u \<in># th_waiting th" by (simp add: th_waiting_def)
  moreover have "th_waiting th \<subseteq># waiting st"
    using agg_sub_mset [OF thread_at_mem [OF t], of th_waiting] unfolding waiting_def by (rule subset_mset.order_trans) simp
  ultimately show ?thesis by (rule mset_subset_eqD [rotated])
qed

text \<open>Every node that began was ready then, and every kernel got what had arrived.\<close>

definition history_ok :: "exec_params \<Rightarrow> graph_view \<Rightarrow> event list \<Rightarrow> bool" where
  "history_ok P gv evs \<longleftrightarrow>
     (\<forall>evs1 u evs2. evs = evs1 @ Began u # evs2 \<longrightarrow> tok_ok gv (arrivals gv evs1) u \<and> tn_node u \<in> fired gv (arrivals gv evs1)) \<and>
     (\<forall>evs1 u ins evs2. evs = evs1 @ Ran u ins # evs2 \<longrightarrow> tn_node u \<in> fired gv (arrivals gv evs1) \<and> (\<exists>mem. kernel_inputs P gv evs1 u mem ins))"

lemma run_history:
  assumes flat: "flat_impl impl" and run: "exec_run P impl evs st"
  shows "history_ok P (gview impl) evs"
  using run
proof (induction rule: exec_run.induct)
  case (run_start st0 st)
  then show ?case by (simp add: history_ok_def)
next
  case (run_step evs st l new st')
  let ?gv = "gview impl"
  note inv = run_inv [OF flat run_step.hyps(1)]
  have T: "tokens_inv ?gv evs st" using inv by (simp add: exec_inv_def)
  note E = step_events [OF run_step.hyps(3)]
  have K: "Ran u inputs \<in> set new \<Longrightarrow> kernel_inputs P ?gv evs u (label_mem l) inputs" for u inputs
    using exec_step_inv [OF flat_implD(1) [OF flat] inv run_step.hyps(2), of P] run_step.hyps(3) by auto
  have ready: "tok_ok ?gv (arrivals ?gv evs) u \<and> tn_node u \<in> fired ?gv (arrivals ?gv evs)" if new: "new = new1 @ Began u # new2" for new1 u new2
  proof -
    obtain t th where "thread_at st t = Some th" "rq_front (th_inline_ready th) = Some u" using E(1) [OF new] by blast
    then have "u \<in># waiting st" by (rule front_waiting [OF inv])
    then show ?thesis using tokens_token [OF T, of u] by simp
  qed
  show ?case
    unfolding history_ok_def
  proof (intro conjI allI impI)
    fix evs1 u evs2 assume "evs @ new = evs1 @ Began u # evs2"
    then show "tok_ok ?gv (arrivals ?gv evs1) u" "tn_node u \<in> fired ?gv (arrivals ?gv evs1)"
      using split_event [of evs new evs1 "Began u" evs2] run_step.IH ready E(1) unfolding history_ok_def by fastforce+
  next
    fix evs1 u ins evs2 assume a: "evs @ new = evs1 @ Ran u ins # evs2"
    have "tn_node u \<in> fired ?gv (arrivals ?gv evs1) \<and> (\<exists>mem. kernel_inputs P ?gv evs1 u mem ins)"
      using split_event [OF a]
    proof
      assume "\<exists>r. evs = evs1 @ Ran u ins # r"
      then show ?thesis using run_step.IH unfolding history_ok_def by blast
    next
      assume "\<exists>new1. evs1 = evs @ new1 \<and> new = new1 @ Ran u ins # evs2"
      then obtain new1 where n: "evs1 = evs @ new1" "new = new1 @ Ran u ins # evs2" by blast
      then have b: "new1 = [Began u]" by (intro E(2))
      have "kernel_inputs P ?gv evs1 u (label_mem l) ins" using K [of u ins] n b by (simp add: kernel_inputs_def)
      moreover have "tn_node u \<in> fired ?gv (arrivals ?gv evs1)" using ready [of "[]" u] n b by simp
      ultimately show ?thesis by blast
    qed
    then show "tn_node u \<in> fired ?gv (arrivals ?gv evs1)" "\<exists>mem. kernel_inputs P ?gv evs1 u mem ins" by blast+
  qed
qed

text \<open>The callback is called with the first failure, or with success.\<close>

definition reported :: "exec_params \<Rightarrow> event list \<Rightarrow> status \<Rightarrow> bool" where
  "reported P evs s \<longleftrightarrow> failed evs = [] \<and> s = (if sync_on_finish P then device_Sync P else OK) \<or>
     failed evs \<noteq> [] \<and> (\<exists>t. Failed t s \<in> set evs)"

lemma status_ok_OK: "status_ok s \<longleftrightarrow> s = OK"
  by (cases s) simp_all

lemma run_dones:
  assumes flat: "flat_impl impl" and run: "exec_run P impl evs st"
  shows "done_calls st = dones evs \<and> (\<forall>s \<in> set (dones evs). reported P evs s)"
  using run
proof (induction rule: exec_run.induct)
  case (run_start st0 st)
  have "done_calls st0 = []" using run_start(1) by (auto simp: ExecutorState_def bind_eq_Some_conv)
  then have "done_calls st = []"
    using run_start(2) flat_implD(2) [OF flat] by (auto simp: RunAsync_def Let_def bind_eq_Some_conv)
  then show ?case by simp
next
  case (run_step evs st l new st')
  let ?gv = "gview impl"
  note inv = run_inv [OF flat run_step.hyps(1)] and E = step_events [OF run_step.hyps(3)]
  note inv' = run_inv [OF flat exec_run.run_step [OF run_step.hyps]]
  have d: "done_calls st' = dones (evs @ new)" using E(3) run_step.IH by simp
  have "reported P (evs @ new) s" if s: "s \<in> set (dones (evs @ new))" for s
  proof (cases "s \<in> set (dones evs)")
    case True
    then have "done_calls st \<noteq> []" using run_step.IH by (metis empty_iff empty_set)
    then have "failed new = []" using E(5) inv by (auto simp: exec_inv_def count_inv_def)
    then show ?thesis using True run_step.IH by (auto simp: reported_def)
  next
    case False
    then have "s \<in> set (dones new)" using s by simp
    then have "DoneCalled s \<in> set new" by (auto simp: dones_def split: event.split_asm)
    from E(4) [OF this] have st: "s = (if sync_on_finish P \<and> status_ok (x_status st') then device_Sync P else x_status st')" .
    have "done_calls st' \<noteq> []" using s d by (metis empty_iff empty_set)
    then have "counted st' = 0" using counted_alive(2) [OF inv'] by auto
    from quiescent_status [OF inv' this] show ?thesis
      unfolding reported_def st by (auto simp: status_ok_OK)
  qed
  then show ?case using d by blast
qed

section \<open>What has arrived at a ready node\<close>

lemma arrivals_mem:
  assumes "a \<in> set (arrivals gv evs)"
  obtains t outs e where "Propagated t outs \<in> set evs" "e \<in> set (out_of gv (tn_node t))" "a = arrival_of (tn_dead t) outs e"
proof -
  obtain t outs e where 1: "(t, outs) \<in> set (propagations evs)" "e \<in> set (out_of gv (tn_node t))" "a = arrival_of (tn_dead t) outs e"
    using assms by (auto simp: arrivals_def)
  from 1(1) have "Propagated t outs \<in> set evs" by (auto simp: propagations_def split: event.split_asm)
  then show thesis using that 1 by blast
qed

lemma arrival_mem:
  assumes "Propagated t outs \<in> set evs" "e \<in> set (out_of gv (tn_node t))"
  shows "arrival_of (tn_dead t) outs e \<in> set (arrivals gv evs)"
proof -
  have "(t, outs) \<in> set (propagations evs)" using assms(1) by (induction evs) (auto simp: propagations_def split: event.split)
  then show ?thesis using assms(2) by (force simp: arrivals_def)
qed

lemma propagated_mem: "s \<in> set (propagated evs) \<longleftrightarrow> (\<exists>t outs. Propagated t outs \<in> set evs \<and> tn_node t = s)"
  by (induction evs) (auto split: event.split)

lemma propagated_once:
  assumes "distinct (propagated evs)" "Propagated t outs \<in> set evs" "Propagated t' outs' \<in> set evs" "tn_node t = tn_node t'"
  shows "t = t' \<and> outs = outs'"
  using assms
proof (induction evs)
  case (Cons e evs)
  show ?case
  proof (cases e)
    case (Propagated v o')
    have "tn_node v \<notin> set (propagated evs)" "distinct (propagated evs)" using Cons.prems(1) Propagated by simp_all
    then show ?thesis using Cons.prems Propagated Cons.IH unfolding propagated_mem by auto
  qed (use Cons in auto)
qed simp

text \<open>All the producers of a node that is ready, and no merge, have propagated.\<close>

lemma fired_sources:
  assumes d: "distinct (propagated evs)" "set (propagated evs) \<subseteq> {..<length gv}"
    and item: "item_at gv d = Some item" "fires gv d item (at d (arrivals gv evs))" "\<not> is_merge item" "\<not> is_sink item"
    and e: "e \<in> set (out_of gv s)" "dst_id e = d"
  shows "s \<in> set (propagated evs)"
proof (rule ccontr)
  assume s: "s \<notin> set (propagated evs)"
  have sl: "s < length gv" using e(1) by (auto simp: out_of_def item_at_def split: if_split_asm)
  have r: "rooms gv (out_of gv s) (arrivals gv evs)" by (rule rooms_unpropagated [OF d sl s])
  have "length (at d (arrivals gv evs)) = in_degree gv d" using item(2-4) by (simp add: fires_def)
  then have "controls (at d (arrivals gv evs)) + (lives (at d (arrivals gv evs)) + misses (at d (arrivals gv evs))) = control_degree gv d + data_degree gv d"
    unfolding length_arrivals in_degree_split by simp
  moreover have "controls (at d (arrivals gv evs)) + edges_to is_ctl d (out_of gv s) \<le> control_degree gv d"
    "lives (at d (arrivals gv evs)) + misses (at d (arrivals gv evs)) + edges_to (\<lambda>e. \<not> is_ctl e) d (out_of gv s) \<le> data_degree gv d"
    using r by (simp_all add: rooms_def)
  ultimately have "edges_to is_ctl d (out_of gv s) = 0" "edges_to (\<lambda>e. \<not> is_ctl e) d (out_of gv s) = 0" by linarith+
  then show False using e by (auto simp: edges_to_def filter_empty_conv)
qed

lemma stored_value:
  assumes "\<not> is_merge item" "i < item_num_inputs item"
    "\<And>a. a \<in> set As \<Longrightarrow> \<not> a_control a \<Longrightarrow> nat (a_slot a) = i \<Longrightarrow> a_entry a = v"
    "b \<in> set As" "\<not> a_control b" "nat (a_slot b) = i"
  shows "stored item As ! i = v"
  using assms(3-6)
proof (induction As rule: rev_induct)
  case (snoc a As)
  have take: "takes_input item As a \<longleftrightarrow> \<not> a_control a" using assms(1) by (simp add: takes_input_def)
  show ?case
  proof (cases "\<not> a_control a \<and> nat (a_slot a) = i")
    case True
    then show ?thesis using snoc.prems(1) [of a] assms(2) take by (simp add: stored_snoc)
  next
    case False
    then have "b \<in> set As" using snoc.prems by auto
    then have "stored item As ! i = v" using snoc.IH snoc.prems(1,3,4) by simp
    then show ?thesis using False take by (auto simp: stored_snoc nth_list_update)
  qed
qed simp

text \<open>Every data input has one producer.\<close>

definition single_inputs :: "graph_view \<Rightarrow> bool" where
  "single_inputs gv \<longleftrightarrow> (\<forall>s < length gv. \<forall>s' < length gv. \<forall>e \<in> set (out_of gv s). \<forall>e' \<in> set (out_of gv s').
     \<not> is_ctl e \<longrightarrow> \<not> is_ctl e' \<longrightarrow> dst_id e = dst_id e' \<longrightarrow> input_slot e = input_slot e' \<longrightarrow> s = s' \<and> output_slot e = output_slot e')"

lemma stored_from_producer:
  assumes flat: "flat_view gv n" and single: "single_inputs gv"
    and d: "distinct (propagated evs)" "set (propagated evs) \<subseteq> {..<length gv}"
    and item: "item_at gv d = Some item" "fires gv d item (at d (arrivals gv evs))" "\<not> is_merge item" "\<not> is_sink item"
    and e: "e \<in> set (out_of gv s)" "dst_id e = d" "\<not> is_ctl e"
  shows "\<exists>t outs. Propagated t outs \<in> set evs \<and> tn_node t = s \<and> stored item (at d (arrivals gv evs)) ! nat (input_slot e) = outs ! nat (output_slot e)"
proof -
  have slot: "item_at gv x \<noteq> None \<and> x < length gv \<and> (\<not> is_ctl f \<longrightarrow> 0 \<le> input_slot f \<and> (\<forall>y. item_at gv (dst_id f) = Some y \<longrightarrow> nat (input_slot f) < item_num_inputs y))"
    if f: "f \<in> set (out_of gv x)" for x f
  proof -
    obtain y where y: "item_at gv x = Some y" "f \<in> set (output_edges y)" using f by (cases "item_at gv x") (simp_all add: out_of_def)
    have "edge_ok gv y f" using flat_viewD(6) [OF flat y(1)] y(2) by (simp add: list_all_iff)
    then show ?thesis using y(1) by (auto simp: edge_ok_def item_at_def split: if_split_asm)
  qed
  have "s \<in> set (propagated evs)" by (rule fired_sources [OF d item e(1,2)])
  then obtain t outs where t: "Propagated t outs \<in> set evs" "tn_node t = s" unfolding propagated_mem by blast
  let ?b = "arrival_of (tn_dead t) outs e"
  have "?b \<in> set (arrivals gv evs)" by (rule arrival_mem [OF t(1)]) (use e(1) t(2) in simp)
  then have b: "?b \<in> set (at d (arrivals gv evs))" "\<not> a_control ?b" "nat (a_slot ?b) = nat (input_slot e)"
    using e(2,3) by (simp_all add: arrival_of_def)
  have "stored item (at d (arrivals gv evs)) ! nat (input_slot e) = outs ! nat (output_slot e)"
  proof (rule stored_value [OF item(3) _ _ b])
    show "nat (input_slot e) < item_num_inputs item" using slot [OF e(1)] e(2,3) item(1) by simp
    fix a assume a: "a \<in> set (at d (arrivals gv evs))" "\<not> a_control a" "nat (a_slot a) = nat (input_slot e)"
    then have am: "a \<in> set (arrivals gv evs)" "a_dst a = d" by simp_all
    obtain t' outs' e' where a': "Propagated t' outs' \<in> set evs" "e' \<in> set (out_of gv (tn_node t'))" "a = arrival_of (tn_dead t') outs' e'"
      by (rule arrivals_mem [OF am(1)])
    have e': "\<not> is_ctl e'" "dst_id e' = d" "nat (input_slot e') = nat (input_slot e)" using a a'(3) by (simp_all add: arrival_of_def)
    have "input_slot e' = input_slot e" using e'(1,3) e(3) slot [OF a'(2)] slot [OF e(1)] by (simp add: eq_nat_nat_iff)
    then have "tn_node t' = s \<and> output_slot e' = output_slot e"
      using single slot [OF a'(2)] slot [OF e(1)] a'(2) e(1,2,3) e'(1,2) unfolding single_inputs_def by metis
    moreover from this have "outs' = outs" using propagated_once [OF d(1) a'(1) t(1)] t(2) by simp
    ultimately show "a_entry a = outs ! nat (output_slot e)" using e'(1) by (simp add: a'(3) arrival_of_def)
  qed
  then show ?thesis using t by blast
qed

section \<open>Every run ends\<close>

text \<open>A step count: every step uses up some of the work that is left.\<close>

fun pc_work :: "pc \<Rightarrow> nat" where
  "pc_work (At_Compute u ins d) = 9"
| "pc_work (At_Propagate u outputs) = 8"
| "pc_work (At_Delete f) = 7"
| "pc_work (At_Erase f p i) = 6"
| "pc_work At_NodeDone = 5"
| "pc_work At_Count = 4"
| "pc_work At_Schedule = 3"
| "pc_work At_Loop = 2"
| "pc_work At_Finish = 1"
| "pc_work _ = 0"

definition th_work :: "thread \<Rightarrow> nat" where
  "th_work th = pc_work (th_pc th) + 10 * length (rq_list (th_inline_ready th)) +
     (if holds_ready (th_pc th) \<and> status_ok (th_s th) then 13 * length (th_ready th) else 0)"

definition work_left :: "graph_view \<Rightarrow> event list \<Rightarrow> exec_state \<Rightarrow> nat" where
  "work_left gv evs st = 13 * (length gv - card (fired gv (arrivals gv evs))) + 13 * length (runner_queue st) +
     agg th_work (threads st) + 9 * agg (\<lambda>_. 1) (asyncs st)"

lemma work_thread:
  assumes "thread_at st t = Some th" "threads st' = (threads st)[t := x]" "runner_queue st' = runner_queue st @ run" "asyncs st' = asyncs st" "arrivals gv new = []"
  shows "work_left gv (evs @ new) st' + th_work th = work_left gv evs st + 13 * length run + (case x of None \<Rightarrow> 0 | Some a \<Rightarrow> th_work a)"
  using agg_put [OF assms(1,2), of th_work] assms(3-5) by (simp add: work_left_def)

lemma schedule_loop_grows:
  assumes "rq_ok q" "schedule_loop gv ts q c run = Some (q', c', run')"
  shows "length (rq_list q) \<le> length (rq_list q')"
  using assms
proof (induction ts arbitrary: q c run)
  case (Cons t ts)
  obtain item where item: "item_at gv (tn_node t) = Some item" using Cons.prems(2) by (cases "item_at gv (tn_node t)") simp_all
  show ?case
  proof (cases "tn_dead t \<or> \<not> kernel_is_expensive item")
    case True
    then have "schedule_loop gv ts (rq_push_back t q) c run = Some (q', c', run')" using Cons.prems(2) item by simp
    from Cons.IH [OF rq_ops(3) [OF Cons.prems(1)] this] show ?thesis using rq_ops(4) [OF Cons.prems(1), of t] by simp
  next
    case False
    then show ?thesis using Cons.prems(2) item by (intro Cons.IH [OF Cons.prems(1)]) simp
  qed
qed simp

lemma ScheduleReady_grows:
  assumes "rq_ok q" "\<And>t. t \<in> set ts \<Longrightarrow> item_at gv (tn_node t) \<noteq> None" "ScheduleReady gv ts (Some q) = Some (Some q', run)"
  shows "length (rq_list q) \<le> length (rq_list q')"
proof (cases "ts = []")
  case True
  then show ?thesis using assms(3) by (simp add: ScheduleReady_def)
next
  case False
  obtain q1 c r where l: "schedule_loop gv ts q None [] = Some (q1, c, r)" "rq_ok q1"
    using schedule_loop_ok [OF assms(1,2), where c = None and run = "[]"] by blast
  have "length (rq_list q) \<le> length (rq_list q1)" by (rule schedule_loop_grows [OF assms(1) l(1)])
  moreover have "q' = q1 \<or> (\<exists>c. q' = rq_push_back c q1)" using assms(3) l(1) False by (auto simp: ScheduleReady_def split: option.split_asm if_split_asm)
  ultimately show ?thesis using rq_ops(4) [OF l(2)] by auto
qed

lemma begin_work:
  assumes inv: "exec_inv (gview impl) n evs st" and s: "step_begin P impl t mem st = Some (new, st')"
  shows "work_left (gview impl) (evs @ new) st' < work_left (gview impl) evs st"
proof -
  obtain th u where t: "thread_at st t = Some th" "th_pc th = At_Loop" "x_alive st" "rq_front (th_inline_ready th) = Some u"
    using s by (auto simp: step_begin_def bind_eq_Some_conv split: if_split_asm)
  have rq: "rq_ok (th_inline_ready th)" using exec_invD(1) [OF inv t(1)] by (simp add: th_ok_def)
  have ne: "rq_list (th_inline_ready th) \<noteq> []" using rq_ops(6) [OF rq] t(4) by auto
  have len: "length (rq_list (th_inline_ready th)) = Suc (length (rq_list (rq_pop_front (th_inline_ready th))))"
    using rq_ops(7) [OF rq ne] ne by simp
  obtain item it where i: "item_at (gview impl) (tn_node u) = Some item" "iteration_of u st = Some it"
    using s t by (auto simp: step_begin_def Let_def bind_eq_Some_conv)
  have put: "threads st1 = threads st \<and> runner_queue st1 = runner_queue st \<and> asyncs st1 = asyncs st" if "put_iteration u it1 st = Some st1" for it1 st1
    using that by (auto simp: put_iteration_def bind_eq_Some_conv put_frame_sel)
  have "\<exists>th' as. threads st' = (threads st)[t := Some th'] \<and> runner_queue st' = runner_queue st \<and> asyncs st' = asyncs st @ as \<and>
      arrivals (gview impl) new = [] \<and> th_work th' + 9 * agg (\<lambda>_. 1) as < th_work th"
  proof (cases "tn_dead u \<and> \<not> IsTransferNode (ni_node item)")
    case True
    then show ?thesis using s t i put len
      by (auto simp: step_begin_def Let_def bind_eq_Some_conv threads_put th_work_def split: if_split_asm intro!: exI [of _ "[]"])
  next
    case False
    then show ?thesis using s t i put len
      by (auto simp: step_begin_def Let_def bind_eq_Some_conv threads_put th_work_def split: if_split_asm intro: exI [of _ "[]"])
  qed
  then obtain th' as where W: "threads st' = (threads st)[t := Some th']" "runner_queue st' = runner_queue st" "asyncs st' = asyncs st @ as"
    "arrivals (gview impl) new = []" "th_work th' + 9 * agg (\<lambda>_. 1) as < th_work th" by blast
  show ?thesis using agg_put [OF t(1) W(1), of th_work] W(2-5) by (simp add: work_left_def)
qed

lemma finish_kernel_change:
  assumes "finish_kernel P impl u mem oc th st = Some (evs, th', st')"
  shows "threads st' = threads st \<and> runner_queue st' = runner_queue st \<and> asyncs st' = asyncs st \<and> arrivals gv evs = [] \<and>
    (\<exists>s. \<exists>pc \<in> {At_Propagate u (snd (the (ProcessOutputs P (the (item_at (gview impl) (tn_node u))) mem oc))), At_NodeDone}.
       th' = th\<lparr>th_s := s, th_pc := pc\<rparr> \<and> (pc = At_NodeDone \<longrightarrow> \<not> status_ok s))"
  using assms by (auto simp: finish_kernel_def bind_eq_Some_conv put_iteration_def put_frame_sel split: if_split_asm)

lemma finish_kernel_work:
  assumes "finish_kernel P impl u mem oc th st = Some (evs, th', st')"
  shows "th_work th' \<le> 8 + 10 * length (rq_list (th_inline_ready th))"
  using finish_kernel_change [OF assms, of "gview impl"] by (auto simp: th_work_def)

lemma returned_work:
  assumes "step_returned P impl t mem oc st = Some (new, st')"
  shows "work_left (gview impl) (evs @ new) st' < work_left (gview impl) evs st"
proof -
  obtain th v ins d th1 st1 where r: "thread_at st t = Some th" "th_pc th = At_Compute v ins d"
    "finish_kernel P impl v mem oc th st = Some (new, th1, st1)" "st' = put_thread t (Some th1) st1"
    using assms by (auto simp: step_returned_def bind_eq_Some_conv split: if_split_asm pc.split_asm)
  note C = finish_kernel_change [OF r(3), of "gview impl"]
  have "work_left (gview impl) (evs @ new) st' + th_work th = work_left (gview impl) evs st + 13 * length ([] :: tagged_node list) + th_work th1"
    using work_thread [OF r(1), of st' "Some th1" "[]" "gview impl" new evs] C r(4) by (simp add: threads_put)
  moreover have "th_work th1 < th_work th" using finish_kernel_work [OF r(3)] r(2) by (simp add: th_work_def)
  ultimately show ?thesis by simp
qed

lemma async_done_work:
  assumes "step_async_done P impl k mem oc st = Some (new, st')"
  shows "work_left (gview impl) (evs @ new) st' < work_left (gview impl) evs st"
proof -
  let ?th0 = "\<lparr>th_pc = At_NodeDone, th_async = True, th_inline_ready = TaggedNodeReadyQueue, th_ready = [], th_s = OK, th_completed = False\<rparr>"
  obtain a where a: "k < length (asyncs st)" "asyncs st ! k = Some a" "x_alive st"
    using assms by (auto simp: step_async_done_def bind_eq_Some_conv split: if_split_asm)
  obtain th1 st1 where f: "finish_kernel P impl (as_node a) mem oc ?th0 st = Some (new, th1, st1)"
    "st' = st1\<lparr>asyncs := (asyncs st1)[k := None], threads := threads st1 @ [Some th1]\<rparr>"
    using assms a by (cases "finish_kernel P impl (as_node a) mem oc ?th0 st") (auto simp: step_async_done_def)
  note C = finish_kernel_change [OF f(1), of "gview impl"]
  have "th_work th1 \<le> 8" using finish_kernel_work [OF f(1)] by (simp add: rq_ops)
  moreover have "agg (\<lambda>_. 1) ((asyncs st)[k := None]) + 1 = agg (\<lambda>_. 1 :: nat) (asyncs st)"
    using agg_update [OF a(1), of "\<lambda>_. 1 :: nat" None] a(2) by simp
  ultimately show ?thesis using C by (simp add: work_left_def f(2))
qed

lemma go_work:
  assumes flat: "flat_view (gview impl) n" and inv: "exec_inv (gview impl) n evs st" and inv': "exec_inv (gview impl) n (evs @ new) st'"
    and s: "step_go P impl t st = Some (new, st')"
  shows "work_left (gview impl) (evs @ new) st' < work_left (gview impl) evs st"
proof -
  let ?gv = "gview impl"
  obtain th where t: "thread_at st t = Some th" using s by (auto simp: step_go_def bind_eq_Some_conv)
  have ok: "th_ok ?gv th" by (rule exec_invD(1) [OF inv t])
  have simple: ?thesis if "threads st' = (threads st)[t := x]" "runner_queue st' = runner_queue st @ run" "asyncs st' = asyncs st"
    "arrivals ?gv new = []" "13 * length run + (case x of None \<Rightarrow> 0 | Some a \<Rightarrow> th_work a) < th_work th" for x run
    using work_thread [OF t that(1-4), of evs] that(5) by linarith
  show ?thesis
  proof (cases "th_pc th")
    case At_Loop
    show ?thesis
      by (rule simple [of "if th_completed th then Some (th\<lparr>th_pc := At_Finish\<rparr>) else None" "[]"])
        (use s t At_Loop in \<open>auto simp: step_go_def threads_put th_work_def split: if_split_asm\<close>)
  next
    case At_Schedule
    show ?thesis
    proof -
      let ?ready = "if status_ok (th_s th) then th_ready th else []"
      obtain x run st1 where n: "ScheduleReady ?gv ?ready (if th_async th then None else Some (th_inline_ready th)) = Some (x, run)"
        using s t At_Schedule by (auto simp: step_go_def node_done_schedule_def Let_def bind_eq_Some_conv split: if_split_asm)
      have w: "th_work th = 3 + 10 * length (rq_list (th_inline_ready th)) + 13 * length ?ready" using At_Schedule by (simp add: th_work_def)
      have rq: "rq_ok (th_inline_ready th)" "th_async th \<longrightarrow> rq_list (th_inline_ready th) = []" using ok by (auto simp: th_ok_def)
      show ?thesis
      proof (cases "th_async th")
        case True
        then have x: "x = None" "run = ?ready" using n by (auto simp: ScheduleReady_def split: if_split_asm)
        show ?thesis
          by (rule simple [of "if th_completed th then Some (th\<lparr>th_pc := At_Finish\<rparr>) else None" run])
            (use s t At_Schedule n x True rq w in \<open>auto simp: step_go_def node_done_schedule_def Let_def threads_put th_work_def split: if_split_asm\<close>)
      next
        case False
        have items: "item_at ?gv (tn_node u) \<noteq> None" if "u \<in> set ?ready" for u
          using waiting_tok_ok [OF inv t, of u] that At_Schedule by (auto simp: th_waiting_def tok_ok_def split: if_split_asm)
        obtain q' run' where q: "ScheduleReady ?gv ?ready (Some (th_inline_ready th)) = Some (Some q', run')"
          "mset (rq_list q') + mset run' = mset (rq_list (th_inline_ready th)) + mset ?ready"
          using ScheduleReady_ok [OF rq(1), of ?ready ?gv] items by blast
        have x: "x = Some q'" "run = run'" using n q(1) False by simp_all
        have "length (rq_list (th_inline_ready th)) \<le> length (rq_list q')" by (rule ScheduleReady_grows [OF rq(1) items q(1)])
        moreover have "length (rq_list q') + length run' = length (rq_list (th_inline_ready th)) + length ?ready"
          using arg_cong [OF q(2), of size] by simp
        ultimately have less: "13 * length run' + (2 + 10 * length (rq_list q')) < th_work th" unfolding w by linarith
        have e: "new = []" "st' = put_thread t (Some (th\<lparr>th_inline_ready := q', th_pc := At_Loop\<rparr>)) (st\<lparr>runner_queue := runner_queue st @ run'\<rparr>)"
          using s t At_Schedule n x False by (auto simp: step_go_def node_done_schedule_def Let_def split: if_split_asm)
        show ?thesis
          by (rule simple [of "Some (th\<lparr>th_inline_ready := q', th_pc := At_Loop\<rparr>)" run'])
            (use less in \<open>simp_all add: e threads_put th_work_def\<close>)
      qed
    qed
  next
    case (At_Propagate u outputs)
    have T: "tokens_inv ?gv evs st" "tokens_inv ?gv (evs @ new) st'" using inv inv' by (simp_all add: exec_inv_def)
    have act: "u \<in># active st"
    proof -
      have "th_active th \<subseteq># active st"
        using agg_sub_mset [OF thread_at_mem [OF t], of th_active] unfolding active_def by (rule subset_mset.order_trans) simp
      then show ?thesis using At_Propagate by (auto simp: th_active_def dest: mset_subset_eqD)
    qed
    obtain item where item: "item_at ?gv (tn_node u) = Some item" using tokens_token(1) [OF T(1), of u] act by (auto simp: tok_ok_def)
    obtain d ready fs where e: "new = [Propagated u outputs]" "st' = put_thread t (Some (after_decrement (tn_frame u) d ready th)) (put_frame (tn_frame u) fs st)"
      using s t At_Propagate item flat_viewD(8) [OF flat item]
      by (auto simp: step_go_def propagate_def Let_def bind_eq_Some_conv split: if_split_asm)
    let ?th = "after_decrement (tn_frame u) d ready th"
    have thr: "threads st' = (threads st)[t := Some ?th]" "runner_queue st' = runner_queue st" "asyncs st' = asyncs st"
      by (simp_all add: e threads_put put_frame_sel)
    have good: "status_ok (th_s th)" using ok At_Propagate by (simp add: th_ok_def)
    have "waiting st' + th_waiting th = waiting st + th_waiting ?th" by (rule thread_change(1) [OF t thr(1,2)])
    from arg_cong [OF this, of size] have "size (waiting st') = size (waiting st) + length ready"
      using At_Propagate good by (simp add: th_waiting_def after_decrement_def)
    moreover have "size (waiting y) + length (begun es) = card (fired ?gv (arrivals ?gv es))" if "tokens_inv ?gv es y" for es y
    proof -
      have "image_mset tn_node (waiting y) + mset (begun es) = mset_set (fired ?gv (arrivals ?gv es))" using that by (simp add: tokens_inv_def)
      from arg_cong [OF this, of size] show ?thesis by simp
    qed
    note this [OF T(1)] this [OF T(2)]
    moreover have "begun (evs @ new) = begun evs" by (simp add: e(1))
    ultimately have card: "card (fired ?gv (arrivals ?gv (evs @ new))) = card (fired ?gv (arrivals ?gv evs)) + length ready" by simp
    have le: "card (fired ?gv (arrivals ?gv (evs @ new))) \<le> length ?gv" by (rule fired_bounds)
    have w: "th_work th = 8 + 10 * length (rq_list (th_inline_ready th))" "th_work ?th \<le> 7 + 10 * length (rq_list (th_inline_ready th)) + 13 * length ready"
      using At_Propagate by (simp_all add: th_work_def after_decrement_def)
    have "agg th_work (threads st') + th_work th = agg th_work (threads st) + th_work ?th" using agg_put [OF t thr(1), of th_work] by simp
    then show ?thesis using w card le by (simp add: work_left_def thr del: history_append)
  next
    case (At_Delete f)
    obtain fs where fs: "frames st = [Some fs]" "parent_frame fs = None" using deleting_frame(4) [OF inv t] At_Delete by auto
    have f: "f = 0" using ok At_Delete by (simp add: th_ok_def)
    show ?thesis
      by (rule simple [of "Some (th\<lparr>th_ready := th_ready th, th_pc := At_Erase f (parent_frame fs) (parent_iter fs)\<rparr>)" "[]"])
        (use s t At_Delete fs f in \<open>auto simp: step_go_def DeleteFrame_exits_def frame_at_def threads_put th_work_def split: if_split_asm\<close>)
  next
    case (At_Erase f p i)
    have p: "p = None" using ok At_Erase by (simp add: th_ok_def)
    show ?thesis
      by (rule simple [of "Some (th\<lparr>th_pc := At_NodeDone\<rparr>)" "[]"])
        (use s t At_Erase p in \<open>auto simp: step_go_def DeleteFrame_erase_def bind_eq_Some_conv threads_put th_work_def split: if_split_asm\<close>)
  next
    case At_NodeDone
    show ?thesis
      by (rule simple [of "Some (th\<lparr>th_pc := At_Count\<rparr>)" "[]"])
        (use s t At_NodeDone in \<open>auto simp: step_go_def node_done_status_def threads_put th_work_def split: if_split_asm\<close>)
  next
    case At_Count
    show ?thesis
      by (rule simple [of "Some (th\<lparr>th_completed := th_completed (fst (node_done_count th st)), th_pc := At_Schedule\<rparr>)" "[]"])
        (use s t At_Count in \<open>auto simp: step_go_def node_done_count_def Let_def threads_put th_work_def split: if_split_asm\<close>)
  next
    case At_Finish
    show ?thesis
      by (rule simple [of None "[]"])
        (use s t At_Finish in \<open>auto simp: step_go_def Finish_def Let_def threads_put th_work_def split: if_split_asm\<close>)
  qed (use s t ok in \<open>simp_all add: step_go_def th_ok_def\<close>)
qed

lemma step_work:
  assumes flat: "flat_view (gview impl) n" and inv: "exec_inv (gview impl) n evs st" and en: "enabled impl l st"
    and s: "exec_step P impl l st = Some (new, st')"
  shows "work_left (gview impl) (evs @ new) st' < work_left (gview impl) evs st"
proof -
  have inv': "exec_inv (gview impl) n (evs @ new) st'" using exec_step_inv [OF flat inv en, of P] s by auto
  show ?thesis
  proof (cases l)
    case (Start i)
    then have i: "i < length (runner_queue st)" and e: "new = []" "st' = st\<lparr>runner_queue := take i (runner_queue st) @ drop (Suc i) (runner_queue st),
        threads := threads st @ [Some (Process (runner_queue st ! i))]\<rparr>"
      using s by (auto simp: step_start_def split: if_split_asm)
    have "th_work (Process (runner_queue st ! i)) = 12" by (simp add: Process_def th_work_def rq_ops)
    then show ?thesis using i by (simp add: work_left_def e)
  next
    case (Begin t mem)
    then show ?thesis using s by (intro begin_work [OF inv]) simp
  next
    case (Returned t mem oc)
    then have "step_returned P impl t mem oc st = Some (new, st')" using s by simp
    then show ?thesis by (rule returned_work)
  next
    case (AsyncDone k mem oc)
    then have "step_async_done P impl k mem oc st = Some (new, st')" using s by simp
    then show ?thesis by (rule async_done_work)
  next
    case (Go t)
    then have "step_go P impl t st = Some (new, st')" using s by simp
    then show ?thesis by (rule go_work [OF flat inv inv'])
  qed
qed

text \<open>A schedule is a list of labels, each enabled when it is taken.\<close>

fun run_labels :: "exec_params \<Rightarrow> executor_impl \<Rightarrow> label list \<Rightarrow> event list \<times> exec_state \<Rightarrow> (event list \<times> exec_state) option" where
  "run_labels P impl [] s = Some s"
| "run_labels P impl (l # ls) s = (case s of (evs, st) \<Rightarrow>
     if enabled impl l st
     then (case exec_step P impl l st of None \<Rightarrow> None | Some (new, st') \<Rightarrow> run_labels P impl ls (evs @ new, st'))
     else None)"

lemma run_labels_run:
  assumes "exec_run P impl evs st" "run_labels P impl ls (evs, st) = Some (evs', st')"
  shows "exec_run P impl evs' st'"
  using assms
proof (induction ls arbitrary: evs st)
  case (Cons l ls)
  then obtain new st1 where "enabled impl l st" "exec_step P impl l st = Some (new, st1)" "run_labels P impl ls (evs @ new, st1) = Some (evs', st')"
    by (auto split: if_split_asm option.split_asm)
  then show ?case using Cons.IH exec_run.run_step [OF Cons.prems(1)] by blast
qed simp

lemma run_labels_work:
  assumes flat: "flat_impl impl" and "exec_run P impl evs st" "run_labels P impl ls (evs, st) = Some (evs', st')"
  shows "length ls \<le> work_left (gview impl) evs st"
  using assms(2,3)
proof (induction ls arbitrary: evs st)
  case (Cons l ls)
  then obtain new st1 where s: "enabled impl l st" "exec_step P impl l st = Some (new, st1)" "run_labels P impl ls (evs @ new, st1) = Some (evs', st')"
    by (auto split: if_split_asm option.split_asm)
  have "length ls \<le> work_left (gview impl) (evs @ new) st1"
    by (rule Cons.IH [OF exec_run.run_step [OF Cons.prems(1) s(1,2)] s(3)])
  moreover have "work_left (gview impl) (evs @ new) st1 < work_left (gview impl) evs st"
    by (rule step_work [OF flat_implD(1) [OF flat] run_inv [OF flat Cons.prems(1)] s(1,2)])
  ultimately show ?case by simp
qed simp

lemma initial_work:
  assumes flat: "flat_impl impl" and s0: "ExecutorState impl = Some st0" and s: "RunAsync impl OK st0 = Some st"
  shows "work_left (gview impl) [] st \<le> 13 * length (gview impl)"
proof -
  note FD = flat_implD [OF flat]
  have "threads st = [] \<and> asyncs st = [] \<and> length (runner_queue st) = length (root_nodes impl)"
    using s0 s FD(2) by (auto simp: ExecutorState_def RunAsync_def put_frame_def ScheduleReady_def bind_eq_Some_conv Let_def)
  moreover have "card (fired (gview impl) []) = length (root_nodes impl)" using FD(3,5) by (simp add: distinct_card)
  moreover have "card (fired (gview impl) []) \<le> length (gview impl)" by (rule fired_bounds)
  ultimately show ?thesis by (simp add: work_left_def)
qed

section \<open>Nothing is left over\<close>

lemma agg_Some:
  fixes f :: "'a \<Rightarrow> nat"
  assumes "0 < agg f xs"
  shows "\<exists>a. Some a \<in> set xs \<and> 0 < f a"
  using assms
proof (induction xs)
  case (Cons x xs)
  show ?case
  proof (cases "0 < agg f xs")
    case True
    then show ?thesis using Cons.IH by auto
  next
    case False
    then have "agg f xs = 0" by simp
    then have "agg f (x # xs) = (case x of None \<Rightarrow> 0 | Some a \<Rightarrow> f a)" by (simp add: agg_def)
    then show ?thesis using Cons.prems by (cases x) auto
  qed
qed simp

lemma progress:
  assumes flat: "flat_view (gview impl) n" and inv: "exec_inv (gview impl) n evs st" and run: "done_calls st = []"
  shows "\<exists>l. enabled impl l st"
proof (cases "runner_queue st = []")
  case False
  then have "enabled impl (Start 0) st" by simp
  then show ?thesis ..
next
  case rq: True
  have T: "tokens_inv (gview impl) evs st" using inv by (simp add: exec_inv_def)
  show ?thesis
  proof (cases "0 < agg (\<lambda>_. 1 :: nat) (asyncs st)")
    case True
    from agg_Some [OF this] obtain a where "Some a \<in> set (asyncs st)" by blast
    then obtain k where k: "k < length (asyncs st)" "asyncs st ! k = Some a" by (auto simp: in_set_conv_nth)
    have "{#as_node a#} \<subseteq># active st"
      using agg_sub_mset [OF \<open>Some a \<in> set (asyncs st)\<close>, of "\<lambda>a. {#as_node a#}"] unfolding active_def by (rule subset_mset.order_trans) simp
    then obtain item where "item_at (gview impl) (tn_node (as_node a)) = Some item"
      using tokens_token(1) [OF T, of "as_node a"] by (auto simp: tok_ok_def)
    then have "enabled impl (AsyncDone k mem \<lparr>oc_status = OK, oc_is_output_dead = False,
        oc_outputs = replicate (item_num_outputs item) \<lparr>tv_tensor = None, tv_ref = None\<rparr>\<rparr>) st" for mem using k by simp
    then show ?thesis by blast
  next
    case False
    have "0 < agg th_count (threads st) \<or> 0 < agg (\<lambda>th. of_bool (th_completed th) :: nat) (threads st)"
    proof (cases "counted st = 0")
      case True
      then show ?thesis using inv run by (simp add: exec_inv_def count_inv_def)
    next
      case nz: False
      then show ?thesis using rq False by (simp add: counted_def)
    qed
    then obtain th where "Some th \<in> set (threads st)" using agg_Some by blast
    then obtain t where "t < length (threads st)" "threads st ! t = Some th" by (auto simp: in_set_conv_nth)
    then have t: "thread_at st t = Some th" by (simp add: thread_at_def)
    show ?thesis
    proof (cases "\<exists>u ins d. th_pc th = At_Compute u ins d")
      case True
      then obtain u ins d where pc: "th_pc th = At_Compute u ins d" by blast
      have "u \<in># th_waiting th + th_active th" using pc by (simp add: th_active_def)
      from waiting_tok_ok [OF inv t this] obtain item where "item_at (gview impl) (tn_node u) = Some item" by (auto simp: tok_ok_def)
      then have "enabled impl (Returned t mem \<lparr>oc_status = OK, oc_is_output_dead = False,
          oc_outputs = replicate (item_num_outputs item) \<lparr>tv_tensor = None, tv_ref = None\<rparr>\<rparr>) st" for mem using t pc by simp
      then show ?thesis by blast
    next
      case nc: False
      show ?thesis
      proof (cases "th_pc th = At_Loop \<and> \<not> rq_empty (th_inline_ready th)")
        case True
        then have "enabled impl (Begin t mem) st" for mem using t by simp
        then show ?thesis by blast
      next
        case False
        then have "enabled impl (Go t) st" using t nc by simp
        then show ?thesis by blast
      qed
    qed
  qed
qed

lemma quiescent_tokens:
  assumes "counted st = 0"
  shows "waiting st = {#}" "active st = {#}"
proof -
  have c: "runner_queue st = []" "agg th_count (threads st) = 0" "agg (\<lambda>_. 1 :: nat) (asyncs st) = 0"
    using assms by (simp_all add: counted_def)
  have th: "th_waiting th = {#} \<and> th_active th = {#}" if "Some th \<in> set (threads st)" for th
  proof -
    have "th_count th = 0" by (rule agg_eq_0 [OF c(2) that])
    then show ?thesis by (cases "th_pc th") (auto simp: th_count_def th_waiting_def th_active_def split: if_split_asm)
  qed
  have "u \<notin># waiting st" for u
    using in_agg_mset [of u th_waiting "threads st"] th by (auto simp: waiting_def c(1))
  then show "waiting st = {#}" by (auto simp: multiset_eq_iff not_in_iff)
  have "u \<notin># active st" for u
  proof
    assume "u \<in># active st"
    then have "u \<in># agg th_active (threads st) \<or> u \<in># agg (\<lambda>a. {#as_node a#}) (asyncs st)" by (simp add: active_def)
    then show False
    proof
      assume "u \<in># agg th_active (threads st)"
      from in_agg_mset [OF this] show False using th by auto
    next
      assume "u \<in># agg (\<lambda>a. {#as_node a#}) (asyncs st)"
      from in_agg_mset [OF this] obtain a where "Some a \<in> set (asyncs st)" by blast
      from le_agg [OF this, of "\<lambda>_. 1 :: nat"] show False using c(3) by simp
    qed
  qed
  then show "active st = {#}" by (auto simp: multiset_eq_iff not_in_iff)
qed

text \<open>No cycles, and sinks are ends.\<close>

definition acyclic_view :: "graph_view \<Rightarrow> bool" where
  "acyclic_view gv \<longleftrightarrow> (\<exists>rank :: nat \<Rightarrow> nat. \<forall>s < length gv. \<forall>e \<in> set (out_of gv s). rank s < rank (dst_id e))"

definition proper_sinks :: "graph_view \<Rightarrow> bool" where
  "proper_sinks gv \<longleftrightarrow> (\<forall>d < length gv. \<forall>item. item_at gv d = Some item \<longrightarrow> is_sink item \<longrightarrow> output_edges item = [] \<and> 0 < in_degree gv d)"

definition runnable :: "graph_view \<Rightarrow> nat set" where
  "runnable gv = {d. d < length gv \<and> (\<exists>item. item_at gv d = Some item \<and> \<not> is_sink item)}"

lemma item_at_less: "item_at gv d = Some item \<Longrightarrow> d < length gv"
  by (simp add: item_at_def split: if_split_asm)

lemma all_fired:
  assumes flat: "flat_view gv n" and acyclic: "acyclic_view gv" and sinks: "proper_sinks gv"
    and pr: "distinct (propagated evs)" "set (propagated evs) = fired gv (arrivals gv evs)"
  shows "fired gv (arrivals gv evs) = runnable gv"
proof
  let ?As = "arrivals gv evs"
  show "fired gv ?As \<subseteq> runnable gv"
  proof
    fix d assume "d \<in> fired gv ?As"
    then obtain item where d: "item_at gv d = Some item" "fires gv d item (at d ?As)" by (auto simp: fired_def)
    have "\<not> is_sink item" using d sinks item_at_less [OF d(1)] by (auto simp: proper_sinks_def fires_def)
    then show "d \<in> runnable gv" using d(1) item_at_less [OF d(1)] by (auto simp: runnable_def)
  qed
  obtain rank :: "nat \<Rightarrow> nat" where rank: "\<And>s e. s < length gv \<Longrightarrow> e \<in> set (out_of gv s) \<Longrightarrow> rank s < rank (dst_id e)"
    using acyclic by (auto simp: acyclic_view_def)
  have "d \<in> runnable gv \<longrightarrow> d \<in> fired gv ?As" for d
  proof (induction "rank d" arbitrary: d rule: less_induct)
    case less
    show ?case
    proof
      assume "d \<in> runnable gv"
      then obtain item where d: "item_at gv d = Some item" "\<not> is_sink item" by (auto simp: runnable_def)
      have none: "edges_to Q d (out_of gv s) = 0" if s: "s < length gv" "s \<notin> set (propagated evs)" for s Q
      proof (rule ccontr)
        assume "edges_to Q d (out_of gv s) \<noteq> 0"
        then obtain e where e: "e \<in> set (out_of gv s)" "dst_id e = d" by (auto simp: edges_to_def filter_empty_conv)
        obtain si where si: "item_at gv s = Some si" "e \<in> set (output_edges si)" using e(1) by (cases "item_at gv s") (simp_all add: out_of_def)
        have "\<not> is_sink si" using si s(1) sinks by (auto simp: proper_sinks_def)
        then have "s \<in> runnable gv" using si(1) s(1) by (auto simp: runnable_def)
        then have "s \<in> fired gv ?As" using less.hyps [of s] rank [OF s(1) e(1)] e(2) by simp
        then show False using s(2) pr(2) by simp
      qed
      have sub: "set (propagated evs) \<subseteq> {..<length gv}" using pr(2) fired_bounds(1) by blast
      have all: "(\<Sum>s \<leftarrow> propagated evs. edges_to Q d (out_of gv s)) = n_into gv Q d" for Q
        unfolding sum_list_distinct_conv_sum_set [OF pr(1)] n_into_edges_to
        by (rule sum.mono_neutral_left) (use sub none in auto)
      have c: "controls (at d ?As) = control_degree gv d" "lives (at d ?As) + misses (at d ?As) = data_degree gv d"
        unfolding arrivals_sum all by simp_all
      have "fires gv d item (at d ?As)"
        using d(2) c flat_viewD(3) [OF flat d(1)] length_arrivals [of "at d ?As"] by (auto simp: fires_def in_degree_split)
      then show "d \<in> fired gv ?As" using d(1) by (auto simp: fired_def)
    qed
  qed
  then show "runnable gv \<subseteq> fired gv ?As" by blast
qed

end
