(* ===== verification/TF_ExecutorCorrect.thy ===== *)
theory TF_ExecutorCorrect
  imports TF_ExecutorMain
begin

text \<open>
  What the runs of the executor guarantee, with a small graph on which every hypothesis holds: the source,
  a node with one output, its consumer, and the sink.
\<close>

section \<open>A small graph\<close>

text \<open>Equations that evaluate lazily.\<close>

lemma enabled_code [code]:
  "enabled impl (Start i) st = (i < length (runner_queue st))"
  "enabled impl (Begin t mem) st = (case thread_at st t of
     Some th \<Rightarrow> (case th_pc th of At_Loop \<Rightarrow> \<not> rq_empty (th_inline_ready th) | _ \<Rightarrow> False) | None \<Rightarrow> False)"
  "enabled impl (Returned t mem oc) st = (case thread_at st t of
     Some th \<Rightarrow> (case th_pc th of
         At_Compute tn inputs d \<Rightarrow> (case item_at (gview impl) (tn_node tn) of
           Some item \<Rightarrow> length (oc_outputs oc) = item_num_outputs item | None \<Rightarrow> False) | _ \<Rightarrow> False) | None \<Rightarrow> False)"
  "enabled impl (AsyncDone k mem oc) st = (k < length (asyncs st) \<and> (case asyncs st ! k of
     Some a \<Rightarrow> (case item_at (gview impl) (tn_node (as_node a)) of
       Some item \<Rightarrow> length (oc_outputs oc) = item_num_outputs item | None \<Rightarrow> False) | None \<Rightarrow> False))"
  "enabled impl (Go t) st = (case thread_at st t of
     Some th \<Rightarrow> (case th_pc th of At_Compute tn inputs d \<Rightarrow> False | At_Loop \<Rightarrow> rq_empty (th_inline_ready th) | _ \<Rightarrow> True) | None \<Rightarrow> False)"
  by (auto split: option.splits pc.splits)

lemma CleanupIterations_code [code]:
  "CleanupIterations gv self i ready fs =
     (if i \<le> iteration_count fs
      then (case IsIterationDone fs i of
          None \<Rightarrow> None
        | Some d \<Rightarrow>
            if d
            then (case (if next_iter_roots fs \<noteq> []
                then IncrementIteration gv self ready ((SetIteration i None fs)\<lparr>num_outstanding_iterations := num_outstanding_iterations fs - 1\<rparr>)
                else Some (ready, (SetIteration i None fs)\<lparr>num_outstanding_iterations := num_outstanding_iterations fs - 1\<rparr>)) of
                None \<Rightarrow> None
              | Some (ready, fs) \<Rightarrow> CleanupIterations gv self (i + 1) ready fs)
            else Some (IsFrameDone fs, ready, fs))
      else Some (IsFrameDone fs, ready, fs))"
  by (subst CleanupIterations.simps) (auto simp: Let_def SetIteration_def split: option.split)

definition demo_item :: "bool \<Rightarrow> nat \<Rightarrow> nat \<Rightarrow> edge_info list \<Rightarrow> int \<Rightarrow> node_item" where
  "demo_item sink ins outs es h = \<lparr>ni_node = Node\<lparr>n_class := NC_OTHER, n_props := Some \<lparr>np_op_def = 0,
       np_node_def = \<lparr>nd_name = ''n'', nd_op = ''op'', nd_input = [], nd_device = [], nd_attr = (\<lambda>_. None)\<rparr>,
       np_input_types = replicate ins 1, np_output_types = replicate outs 1\<rparr>\<rparr>,
     kernel_is_expensive = False, kernel_is_async = False, is_merge = False, is_enter = False, is_exit = False,
     is_control_trigger = False, is_sink = sink, is_enter_exit_or_next_iter = False, item_num_inputs = ins, item_num_outputs = outs,
     input_start = 0, output_edges = es, input_types = replicate ins 1, output_types = replicate outs 1,
     pending_id = \<lparr>byte_offset = h, is_large = False\<rparr>\<rparr>"

definition demo_view :: graph_view where
  "demo_view =
     [Some (demo_item False 0 0 [\<lparr>dst_id = 2, output_slot = -1, is_last = False, input_slot = -1\<rparr>] 0),
      Some (demo_item True 0 0 [] 1),
      Some (demo_item False 0 1 [\<lparr>dst_id = 3, output_slot = 0, is_last = True, input_slot = 0\<rparr>] 2),
      Some (demo_item False 1 0 [\<lparr>dst_id = 1, output_slot = -1, is_last = False, input_slot = -1\<rparr>] 3)]"

definition demo_impl :: executor_impl where
  "demo_impl = \<lparr>ei_graph = \<lparr>g_nodes = [], g_num_nodes = 0, g_edges = [], g_num_edges = 0, g_free_nodes = [], g_free_edges = [],
       g_name_counter = 0, g_device_names = [], g_device_names_map = (\<lambda>_. None), node_at = (\<lambda>_. Node),
       edge_at = (\<lambda>_. \<lparr>e_src = None, e_dst = None, e_id = 0, e_src_output = 0, e_dst_input = 0\<rparr>)\<rparr>,
     gview = demo_view, root_nodes = [0],
     frame_infos = [[] \<mapsto> \<lparr>input_count = 0, total_inputs = 1, pending_counts_layout = 4, fi_pending_counts = Some [0, 1, 1, 1], fi_nodes = Some []\<rparr>]\<rparr>"

definition demo_params :: exec_params where
  "demo_params = \<lparr>create_kernel = (\<lambda>_. (OK, None)),
     ops_registry = \<lparr>LookUpOpDef = (\<lambda>_. (OK, 0)), InOutTypesForNode = (\<lambda>_ _. (OK, [], [])), SummarizeNodeDef = nd_name\<rparr>,
     DataTypeString = (\<lambda>_. ''float''), allows_uninitialized_input = (\<lambda>_. False), AttrTypeString = (\<lambda>_. ''other''), heap_junk = (\<lambda>_. 0),
     host_little_endian = True, sync_on_finish = False, device_Sync = OK\<rparr>"

lemma demo_items:
  "item_at demo_view d = Some item \<longleftrightarrow> d < 4 \<and> Some item = demo_view ! d"
  by (auto simp: item_at_def demo_view_def)

lemma all_less_4: "(\<forall>d < (4::nat). Q d) \<longleftrightarrow> Q 0 \<and> Q (Suc 0) \<and> Q 2 \<and> Q 3"
  by (auto simp: eval_nat_numeral less_Suc_eq)

lemma demo_into: "n_into demo_view Q d = (\<Sum>s \<leftarrow> [0, Suc 0, 2, 3]. length (filter (\<lambda>e. dst_id e = d \<and> Q e) (out_of demo_view s)))"
  by (simp add: n_into_def demo_view_def eval_nat_numeral lessThan_Suc)

lemma demo_out:
  "out_of demo_view 0 = [\<lparr>dst_id = 2, output_slot = -1, is_last = False, input_slot = -1\<rparr>]" "out_of demo_view (Suc 0) = []"
  "out_of demo_view 2 = [\<lparr>dst_id = 3, output_slot = 0, is_last = True, input_slot = 0\<rparr>]"
  "out_of demo_view 3 = [\<lparr>dst_id = 1, output_slot = -1, is_last = False, input_slot = -1\<rparr>]"
  by (simp_all add: out_of_def item_at_def demo_view_def demo_item_def)

lemma demo_degrees:
  "in_degree demo_view 0 = 0" "in_degree demo_view (Suc 0) = 1" "in_degree demo_view 2 = 1" "in_degree demo_view 3 = 1"
  "data_degree demo_view 0 = 0" "data_degree demo_view 3 = 1" "control_degree demo_view 2 = 1"
  by (simp_all add: demo_into demo_out kControlSlot_def)

lemma demo_nth:
  "demo_view ! 0 = Some (demo_item False 0 0 [\<lparr>dst_id = 2, output_slot = -1, is_last = False, input_slot = -1\<rparr>] 0)"
  "demo_view ! Suc 0 = Some (demo_item True 0 0 [] 1)"
  "demo_view ! 2 = Some (demo_item False 0 1 [\<lparr>dst_id = 3, output_slot = 0, is_last = True, input_slot = 0\<rparr>] 2)"
  "demo_view ! 3 = Some (demo_item False 1 0 [\<lparr>dst_id = 1, output_slot = -1, is_last = False, input_slot = -1\<rparr>] 3)"
  by (simp_all add: demo_view_def)

lemma demo_all: "(\<forall>d item. item_at demo_view d = Some item \<longrightarrow> Q d item) \<longleftrightarrow>
    Q 0 (the (demo_view ! 0)) \<and> Q (Suc 0) (the (demo_view ! Suc 0)) \<and> Q 2 (the (demo_view ! 2)) \<and> Q 3 (the (demo_view ! 3))"
proof -
  have "(\<forall>d item. item_at demo_view d = Some item \<longrightarrow> Q d item) \<longleftrightarrow> (\<forall>d < 4. Q d (the (demo_view ! d)))"
  proof (intro iffI allI impI)
    fix d :: nat assume a: "\<forall>d item. item_at demo_view d = Some item \<longrightarrow> Q d item" "d < 4"
    have "\<forall>d < 4. demo_view ! d \<noteq> None" unfolding all_less_4 by (simp add: demo_nth del: not_None_eq)
    then have "item_at demo_view d = Some (the (demo_view ! d))" using a(2) by (auto simp: demo_items)
    then show "Q d (the (demo_view ! d))" using a(1) by blast
  next
    fix d item assume "\<forall>d < 4. Q d (the (demo_view ! d))" "item_at demo_view d = Some item"
    then show "Q d item" by (auto simp: demo_items) (metis option.sel)
  qed
  then show ?thesis unfolding all_less_4 .
qed

lemma demo_ok: "item_ok demo_view 1 0 (the (demo_view ! 0))" "item_ok demo_view 1 (Suc 0) (the (demo_view ! Suc 0))"
  "item_ok demo_view 1 2 (the (demo_view ! 2))" "item_ok demo_view 1 3 (the (demo_view ! 3))"
  unfolding item_ok_def handle_ok_def max_pending_def edge_ok_def demo_items demo_nth
  by (simp_all add: demo_item_def demo_degrees kControlSlot_def demo_nth)

lemma demo_flat: "flat_impl demo_impl"
proof -
  have "flat_view demo_view 1"
    unfolding flat_view_def
  proof (intro conjI)
    show "length demo_view < 2 ^ 64" by (simp add: demo_view_def)
    show "\<forall>d item. item_at demo_view d = Some item \<longrightarrow> item_ok demo_view 1 d item" unfolding demo_all using demo_ok by blast
    have "\<forall>d x. item_at demo_view d = Some x \<longrightarrow> (\<forall>e y. item_at demo_view e = Some y \<longrightarrow> d \<noteq> e \<longrightarrow> items_apart x y)"
      unfolding demo_all
      by (simp add: demo_nth demo_item_def items_apart_def apart_def handle_size_def)
    then show "\<forall>d e x y. item_at demo_view d = Some x \<longrightarrow> item_at demo_view e = Some y \<longrightarrow> d \<noteq> e \<longrightarrow> items_apart x y" by blast
  qed
  moreover have "\<forall>d item. item_at demo_view d = Some item \<longrightarrow> in_bounds (pending_id item) [0, 1, 1, 1] \<and>
        (\<not> is_sink item \<longrightarrow> read_counts (pending_id item) [0, 1, 1, 1] =
           Some \<lparr>c_pending = max_pending demo_view d item, c_dead = 0, c_started = False\<rparr>)"
    unfolding demo_all
    by (simp add: demo_nth demo_item_def max_pending_def demo_degrees in_bounds_def read_counts_def handle_size_def PackedCounts_read_def Let_def)
  moreover have "{d. item_at demo_view d \<noteq> None \<and> in_degree demo_view d = 0} = {0}"
  proof -
    have "\<forall>d < 4. in_degree demo_view d = 0 \<longleftrightarrow> d = 0" unfolding all_less_4 by (simp add: demo_degrees)
    then show ?thesis by (auto simp: demo_items demo_nth)
  qed
  ultimately show ?thesis by (simp add: flat_impl_def demo_impl_def)
qed

section \<open>A run\<close>

definition demo_kernel :: "nat \<Rightarrow> outcome" where
  "demo_kernel n = \<lparr>oc_status = OK, oc_is_output_dead = False,
     oc_outputs = replicate n \<lparr>tv_tensor = Some \<lparr>t_dtype = 1, t_initialized = True, t_data = [42]\<rparr>, tv_ref = None\<rparr>\<rparr>"

definition demo_mem :: "nat \<Rightarrow> tensor" where "demo_mem = (\<lambda>_. kEmptyTensor)"

definition demo_labels :: "label list" where
  "demo_labels = Start 0 # Begin 0 demo_mem # Returned 0 demo_mem (demo_kernel 0) # replicate 4 (Go 0) @
     Begin 0 demo_mem # Returned 0 demo_mem (demo_kernel 1) # replicate 4 (Go 0) @
     Begin 0 demo_mem # Returned 0 demo_mem (demo_kernel 0) # replicate 8 (Go 0)"

definition demo_final :: "(event list \<times> exec_state) option" where
  "demo_final = do { st0 \<leftarrow> ExecutorState demo_impl; st \<leftarrow> RunAsync demo_impl OK st0; run_labels demo_params demo_impl demo_labels ([], st) }"

lemma inc_size_code [code]: "inc_size n = nat ((int n + 1) mod 18446744073709551616)"
  by (simp add: inc_size_def nat_mod_distrib nat_add_distrib)

definition demo_run :: "event list \<times> exec_state" where
  "demo_run = the demo_final"

definition event_code :: "event \<Rightarrow> int \<times> nat" where
  "event_code e = (case e of Began u \<Rightarrow> (0, tn_node u) | Ran u ins \<Rightarrow> (1, tn_node u) | Propagated u outs \<Rightarrow> (2, tn_node u)
     | DoneCalled s \<Rightarrow> (3, 0) | Failed u s \<Rightarrow> (4, tn_node u) | Skipped u \<Rightarrow> (5, tn_node u))"

lemma demo_codes: "map_option (\<lambda>(evs, st). (map event_code evs, dones evs)) demo_final =
  Some ([(0, 0), (1, 0), (2, 0), (0, 2), (1, 2), (2, 2), (0, 3), (1, 3), (2, 3), (3, 0)], [OK])"
  by code_simp

lemma event_code_history:
  "begun evs = map snd (filter (\<lambda>c. fst c = 0) (map event_code evs))" "propagated evs = map snd (filter (\<lambda>c. fst c = 2) (map event_code evs))"
  "failed evs = map snd (filter (\<lambda>c. fst c = 4) (map event_code evs))"
  by (induction evs) (auto simp: event_code_def split: event.split)

lemma demo_summary:
  "\<exists>evs st. demo_final = Some (evs, st) \<and> begun evs = [0, 2, 3] \<and> propagated evs = [0, 2, 3] \<and> failed evs = [] \<and> dones evs = [OK] \<and>
     length evs = 10 \<and> (case evs ! 6 of Began u \<Rightarrow> tn_node u = 3 | _ \<Rightarrow> False) \<and> (case evs ! 7 of Ran u ins \<Rightarrow> tn_node u = 3 | _ \<Rightarrow> False)"
proof -
  obtain evs st where f: "demo_final = Some (evs, st)"
    and c: "map event_code evs = [(0, 0), (1, 0), (2, 0), (0, 2), (1, 2), (2, 2), (0, 3), (1, 3), (2, 3), (3, 0)]" and d: "dones evs = [OK]"
    using demo_codes by auto
  have l: "length evs = 10" using arg_cong [OF c, of length] by simp
  have "event_code (evs ! 6) = (0, 3)" "event_code (evs ! 7) = (1, 3)"
    using arg_cong [OF c, of "\<lambda>xs. xs ! 6"] arg_cong [OF c, of "\<lambda>xs. xs ! 7"] l by simp_all
  then have "case evs ! 6 of Began u \<Rightarrow> tn_node u = 3 | _ \<Rightarrow> False" "case evs ! 7 of Ran u ins \<Rightarrow> tn_node u = 3 | _ \<Rightarrow> False"
    by (auto simp: event_code_def split: event.splits)
  then show ?thesis using f d l by (auto simp: event_code_history c)
qed

lemma demo_runs:
  "\<exists>st0 st. ExecutorState demo_impl = Some st0 \<and> RunAsync demo_impl OK st0 = Some st \<and>
     run_labels demo_params demo_impl demo_labels ([], st) = Some demo_run \<and> exec_run demo_params demo_impl (fst demo_run) (snd demo_run)"
proof -
  obtain evs st' where f: "demo_final = Some (evs, st')" using demo_summary by blast
  then obtain st0 st where s: "ExecutorState demo_impl = Some st0" "RunAsync demo_impl OK st0 = Some st"
    "run_labels demo_params demo_impl demo_labels ([], st) = Some (evs, st')"
    by (auto simp: demo_final_def bind_eq_Some_conv)
  have d: "demo_run = (evs, st')" by (simp add: demo_run_def f)
  show ?thesis unfolding d fst_conv snd_conv using s run_labels_run [OF exec_run.run_start [OF s(1,2)] s(3)] by blast
qed

lemma demo_facts:
  "begun (fst demo_run) = [0, 2, 3]" "propagated (fst demo_run) = [0, 2, 3]" "failed (fst demo_run) = []" "dones (fst demo_run) = [OK]"
  "\<exists>u. tn_node u = 3 \<and> fst demo_run = take 6 (fst demo_run) @ Began u # drop 7 (fst demo_run)"
  "\<exists>u ins. tn_node u = 3 \<and> fst demo_run = take 7 (fst demo_run) @ Ran u ins # drop 8 (fst demo_run)"
proof -
  obtain evs st where f: "demo_final = Some (evs, st)" and S: "begun evs = [0, 2, 3]" "propagated evs = [0, 2, 3]" "failed evs = []" "dones evs = [OK]" "length evs = 10"
    "case evs ! 6 of Began u \<Rightarrow> tn_node u = 3 | _ \<Rightarrow> False" "case evs ! 7 of Ran u ins \<Rightarrow> tn_node u = 3 | _ \<Rightarrow> False"
    using demo_summary by blast
  have e: "fst demo_run = evs" by (simp add: demo_run_def f)
  show "begun (fst demo_run) = [0, 2, 3]" "propagated (fst demo_run) = [0, 2, 3]" "failed (fst demo_run) = []" "dones (fst demo_run) = [OK]"
    using S by (simp_all add: e)
  have "evs = take 6 evs @ evs ! 6 # drop 7 evs" using id_take_nth_drop [of 6 evs] S(5) by simp
  then show "\<exists>u. tn_node u = 3 \<and> fst demo_run = take 6 (fst demo_run) @ Began u # drop 7 (fst demo_run)"
    unfolding e using S(6) by (cases "evs ! 6") auto
  have "evs = take 7 evs @ evs ! 7 # drop 8 evs" using id_take_nth_drop [of 7 evs] S(5) by simp
  then show "\<exists>u ins. tn_node u = 3 \<and> fst demo_run = take 7 (fst demo_run) @ Ran u ins # drop 8 (fst demo_run)"
    unfolding e using S(7) by (cases "evs ! 7") auto
qed

lemma demo_structure: "acyclic_view demo_view" "proper_sinks demo_view" "single_inputs demo_view" "runnable demo_view = {0, 2, 3}"
proof -
  have len: "length demo_view = 4" by (simp add: demo_view_def)
  have "\<forall>s < 4. \<forall>e \<in> set (out_of demo_view s). (if s = Suc 0 then 4 else s) < (if dst_id e = Suc 0 then 4 else dst_id e)"
    unfolding all_less_4 by (simp add: demo_out)
  then show "acyclic_view demo_view" unfolding acyclic_view_def len by (intro exI [of _ "\<lambda>s. if s = Suc 0 then 4 else s"])
  show "proper_sinks demo_view" unfolding proper_sinks_def len all_less_4
    by (simp add: item_at_def len demo_nth demo_item_def demo_degrees)
  show "single_inputs demo_view" unfolding single_inputs_def len all_less_4 by (simp add: demo_out kControlSlot_def)
  show "runnable demo_view = {0, 2, 3}"
  proof -
    have "\<forall>d < 4. d \<in> runnable demo_view \<longleftrightarrow> d \<noteq> Suc 0"
      unfolding all_less_4 by (simp add: runnable_def item_at_def len demo_nth demo_item_def)
    moreover have "runnable demo_view \<subseteq> {..<4}" by (auto simp: runnable_def len)
    moreover have "d < 4 \<and> d \<noteq> Suc 0 \<longleftrightarrow> d \<in> {0, 2, 3}" for d :: nat by auto
    ultimately show ?thesis by blast
  qed
qed

section \<open>What every run guarantees\<close>

text \<open>The start of a run of the small graph, for the witnesses.\<close>

lemma demo_start: "\<exists>st. exec_run demo_params demo_impl [] st \<and> enabled demo_impl (Start 0) st"
proof -
  obtain st0 st where s: "ExecutorState demo_impl = Some st0" "RunAsync demo_impl OK st0 = Some st"
    "run_labels demo_params demo_impl (Start 0 # tl demo_labels) ([], st) = Some demo_run"
    using demo_runs by (auto simp: demo_labels_def)
  have "enabled demo_impl (Start 0) st" using s(3) by (auto split: if_split_asm)
  then show ?thesis using exec_run.run_start [OF s(1,2)] by blast
qed

lemma run_prefix:
  assumes flat: "flat_impl impl" and run: "exec_run P impl evs st" and evs: "evs = evs1 @ evs2"
  shows "distinct (propagated evs1)" "set (propagated evs1) \<subseteq> {..<length (gview impl)}"
proof -
  have T: "tokens_inv (gview impl) evs st" using run_inv [OF flat run] by (simp add: exec_inv_def)
  show "distinct (propagated evs1)" using tokens_facts(3) [OF T] by (simp add: evs)
  show "set (propagated evs1) \<subseteq> {..<length (gview impl)}"
    using tokens_facts(2,4) [OF T] fired_bounds(1) [of "gview impl" "arrivals (gview impl) evs"] unfolding evs by auto
qed













text \<open>
  Nothing is left out: in a graph without cycles, when \<open>done\<close> has been called and no node failed, every node
  but the sink was started, and propagated its outputs, exactly once.
\<close>

theorem executor_runs_all:
  assumes flat: "flat_impl impl" and graph: "acyclic_view (gview impl)" "proper_sinks (gview impl)"
    and run: "exec_run P impl evs st" and fin: "dones evs \<noteq> []" "failed evs = []"
  shows "mset (begun evs) = mset_set (runnable (gview impl)) \<and> mset (propagated evs) = mset_set (runnable (gview impl))"
proof -
  let ?gv = "gview impl"
  note inv = run_inv [OF flat run]
  have T: "tokens_inv ?gv evs st" using inv by (simp add: exec_inv_def)
  have c: "counted st = 0" using counted_alive(2) [OF inv] run_dones [OF flat run] fin(1) by auto
  have b: "mset (begun evs) = mset_set (fired ?gv (arrivals ?gv evs))" "mset (propagated evs) = mset (begun evs)"
    using T fin(2) by (simp_all add: tokens_inv_def quiescent_tokens [OF c])
  have d: "distinct (propagated evs)" using tokens_facts(3) [OF T] by simp
  have "set (propagated evs) = fired ?gv (arrivals ?gv evs)"
    using arg_cong [OF b(2), of set_mset] arg_cong [OF b(1), of set_mset] fired_bounds(2) [of ?gv] by simp
  from all_fired [OF flat_implD(1) [OF flat] graph d this] show ?thesis using b by simp
qed

lemma executor_runs_all_witness: "mset (begun (fst demo_run)) = mset_set {0, 2, 3} \<and> mset (propagated (fst demo_run)) = mset_set {0, 2, 3}"
proof -
  have r: "exec_run demo_params demo_impl (fst demo_run) (snd demo_run)" using demo_runs by blast
  have g: "gview demo_impl = demo_view" by (simp add: demo_impl_def)
  have "mset (begun (fst demo_run)) = mset_set (runnable (gview demo_impl)) \<and> mset (propagated (fst demo_run)) = mset_set (runnable (gview demo_impl))"
    by (rule executor_runs_all [OF demo_flat _ _ r]) (simp_all add: g demo_structure demo_facts)
  then show ?thesis by (simp add: g demo_structure)
qed

end
