(* ===== verification/TF_ExecutorInit.thy ===== *)
theory TF_ExecutorInit
  imports TF_ExecutorCorrect TF_GraphAlgo
begin

text \<open>
  From graphs to runs. \<open>ExecutorImpl_Initialize\<close> succeeds on every graph built through the graph's
  operations whose nodes are all in the root frame, and what it leaves is the view, the counts and the
  input layout that the theorems on runs start from. So these hold of graphs: they are stated here over
  the nodes and edges of the graph that was passed in.
\<close>

section \<open>Graphs without frames\<close>

abbreviation nid :: "graph \<Rightarrow> nat \<Rightarrow> nat" where "nid g p \<equiv> nat (n_id (node_at g p))"

text \<open>
  What the graph has to satisfy: the slots of every data edge are inside the types of its ends, a merge has an
  edge for each input, the sink has no inputs, and a kernel can be made for every node.
\<close>

definition data_slots_ok :: "graph \<Rightarrow> edge \<Rightarrow> bool" where
  "data_slots_ok g e \<longleftrightarrow> IsControlEdge e \<or>
     (case (e_src e, e_dst e) of
        (Some s, Some d) \<Rightarrow> 0 \<le> e_src_output e \<and> nat (e_src_output e) < num_outputs (node_at g s) \<and>
          0 \<le> e_dst_input e \<and> nat (e_dst_input e) < num_inputs (node_at g d)
      | _ \<Rightarrow> False)"

definition node_flat :: "exec_params \<Rightarrow> graph \<Rightarrow> nat \<Rightarrow> bool" where
  "node_flat P g p \<longleftrightarrow>
     (let n = node_at g p
      in \<not> IsEnter n \<and> \<not> IsExit n \<and> \<not> IsNextIteration n \<and>
         (case n_props n of
            Some pr \<Rightarrow> (case create_kernel P (np_node_def pr) of (OK, Some k) \<Rightarrow> True | _ \<Rightarrow> False)
          | None \<Rightarrow> False) \<and>
         (IsMerge n \<longrightarrow> num_inputs n = length (filter (\<lambda>e. \<not> IsControlEdge e) (in_edges g p))) \<and>
         (IsSink n \<longrightarrow> num_inputs n = 0) \<and> num_outputs n \<le> 2 ^ 30 \<and> length (in_edges g p) < 2 ^ 30)"

definition flat_graph :: "exec_params \<Rightarrow> graph \<Rightarrow> bool" where
  "flat_graph P g \<longleftrightarrow> length (g_nodes g) < 2 ^ 26 \<and> (\<forall>p \<in> set (nodes g). node_flat P g p) \<and>
     (\<forall>p \<in> set (nodes g). \<forall>e \<in> set (out_edges g p). data_slots_ok g e) \<and> (\<exists>p \<in> set (nodes g). in_edges g p = [])"

lemma valid_ids:
  assumes "graph_ok g" "IsValidNode g p"
  shows "nid g p < length (g_nodes g)" "g_nodes g ! nid g p = Some p" "n_id (node_at g p) = int (nid g p)" "p \<in> set (nodes g)"
  using assms nodes_ok_list(1) [OF assms(1)] by (auto simp: IsValidNode_def Let_def)

lemma slot_valid:
  assumes "graph_ok g" "i < length (g_nodes g)" "g_nodes g ! i = Some p"
  shows "IsValidNode g p" "nid g p = i"
  using assms by (auto simp: graph_ok_def ids_ok_def IsValidNode_def)

lemma nid_inj: "graph_ok g \<Longrightarrow> inj_on (nid g) {p. IsValidNode g p}"
  by (rule inj_onI) (use valid_id_inj valid_ids(3) in \<open>metis mem_Collect_eq\<close>)

lemma valid_edges:
  assumes "graph_ok g" "IsValidNode g p"
  shows "es_ok (n_in (node_at g p))" "es_ok (n_out (node_at g p))"
    "e \<in> set (es_elems (n_out (node_at g p))) \<longleftrightarrow> IsLiveEdge g e \<and> e_src (edge_at g e) = Some p"
    "e \<in> set (es_elems (n_in (node_at g p))) \<longleftrightarrow> IsLiveEdge g e \<and> e_dst (edge_at g e) = Some p"
  using assms by (auto simp: graph_ok_def nodes_ok_def)

lemma flat_graphD:
  assumes "flat_graph P g" "graph_ok g" "IsValidNode g p"
  shows "node_flat P g p" "e \<in> set (out_edges g p) \<Longrightarrow> data_slots_ok g e"
  using assms nodes_ok_list(1) [OF assms(2)] by (auto simp: flat_graph_def)

section \<open>The edges of a node\<close>

definition edge_view :: "graph \<Rightarrow> edge \<Rightarrow> edge_info" where
  "edge_view g e = \<lparr>dst_id = nid g (the (e_dst e)), output_slot = e_src_output e, is_last = False, input_slot = e_dst_input e\<rparr>"

definition forget_last :: "edge_info \<Rightarrow> edge_info" where
  "forget_last e = e\<lparr>is_last := False\<rparr>"

lemma forget_last_sel [simp]:
  "dst_id (forget_last e) = dst_id e" "output_slot (forget_last e) = output_slot e" "input_slot (forget_last e) = input_slot e"
  by (simp_all add: forget_last_def)

definition slots_in :: "nat \<Rightarrow> edge_info list \<Rightarrow> bool" where
  "slots_in n es \<longleftrightarrow> (\<forall>e \<in> set es. output_slot e = kControlSlot \<or> 0 \<le> output_slot e \<and> nat (output_slot e) < n)"

text \<open>\<open>last_indices\<close> keeps, for each output slot, the position of the last edge seen.\<close>

definition inds_ok :: "edge_info list \<Rightarrow> nat option list \<Rightarrow> bool" where
  "inds_ok es inds \<longleftrightarrow> (\<forall>s < length inds. \<forall>i. inds ! s = Some i \<longrightarrow>
     i < length es \<and> output_slot (es ! i) = int s \<and> (\<forall>j. i < j \<longrightarrow> j < length es \<longrightarrow> output_slot (es ! j) \<noteq> int s))"

lemma inds_ok_snoc:
  assumes "inds_ok es inds"
  shows "output_slot e < 0 \<Longrightarrow> inds_ok (es @ [e]) inds"
    "0 \<le> output_slot e \<Longrightarrow> nat (output_slot e) < length inds \<Longrightarrow> inds_ok (es @ [e]) (inds[nat (output_slot e) := Some (length es)])"
  using assms by (auto simp: inds_ok_def nth_append nth_list_update less_Suc_eq split: if_splits)

lemma last_indices_ok:
  assumes "slots_in (length inds) es" "inds_ok pre inds"
  shows "\<exists>inds'. last_indices es (length pre) inds = Some inds' \<and> length inds' = length inds \<and> inds_ok (pre @ es) inds'"
  using assms
proof (induction es arbitrary: pre inds)
  case (Cons e es)
  let ?inds = "if 0 \<le> output_slot e then inds[nat (output_slot e) := Some (length pre)] else inds"
  have s: "slots_in (length ?inds) es" using Cons.prems(1) by (auto simp: slots_in_def)
  have b: "0 \<le> output_slot e \<longrightarrow> nat (output_slot e) < length inds" using Cons.prems(1) by (auto simp: slots_in_def kControlSlot_def)
  have i: "inds_ok (pre @ [e]) ?inds" using inds_ok_snoc [OF Cons.prems(2), of e] b by auto
  from Cons.IH [OF s i] show ?case using b by auto
qed auto

lemma mark_last_nth: "i < length es \<Longrightarrow> mark_last inds es ! i = (if Some i \<in> set inds then (es ! i)\<lparr>is_last := True\<rparr> else es ! i)"
  by (simp add: mark_last_def)

lemma length_mark_last [simp]: "length (mark_last inds es) = length es"
  by (simp add: mark_last_def)

lemma last_ok_nth:
  "last_ok es \<longleftrightarrow> (\<forall>i < length es. is_last (es ! i) \<longrightarrow> output_slot (es ! i) \<noteq> kControlSlot \<and>
     (\<forall>j. i < j \<longrightarrow> j < length es \<longrightarrow> output_slot (es ! j) \<noteq> output_slot (es ! i)))"
proof (induction es)
  case (Cons e es)
  show ?case unfolding last_ok.simps Cons.IH
    by (auto simp: nth_Cons less_Suc_eq_0_disj all_set_conv_all_nth split: nat.split)
qed simp

lemma mark_last_ok:
  assumes "inds_ok es inds" "\<forall>e \<in> set es. \<not> is_last e"
  shows "last_ok (mark_last inds es)" "map forget_last (mark_last inds es) = map forget_last es"
proof -
  have slot: "output_slot (mark_last inds es ! i) = output_slot (es ! i)" if "i < length es" for i
    using that by (simp add: mark_last_nth)
  show "last_ok (mark_last inds es)"
    unfolding last_ok_nth length_mark_last
  proof (intro allI impI)
    fix i assume i: "i < length es" "is_last (mark_last inds es ! i)"
    then have "Some i \<in> set inds" using assms(2) by (auto simp: mark_last_nth split: if_splits)
    then obtain s where "s < length inds" "inds ! s = Some i" by (auto simp: in_set_conv_nth)
    then have "output_slot (es ! i) = int s \<and> (\<forall>j. i < j \<longrightarrow> j < length es \<longrightarrow> output_slot (es ! j) \<noteq> int s)"
      using assms(1) by (simp add: inds_ok_def)
    then show "output_slot (mark_last inds es ! i) \<noteq> kControlSlot \<and>
        (\<forall>j. i < j \<longrightarrow> j < length es \<longrightarrow> output_slot (mark_last inds es ! j) \<noteq> output_slot (mark_last inds es ! i))"
      using i(1) by (auto simp: slot kControlSlot_def)
  qed
  show "map forget_last (mark_last inds es) = map forget_last es"
    by (rule nth_equalityI) (simp_all add: mark_last_nth forget_last_def)
qed

lemma those_map_Some: "\<forall>x \<in> set xs. f x = Some (h x) \<Longrightarrow> those (map f xs) = Some (map h xs)"
  by (induction xs) simp_all

lemma out_edges_ends:
  assumes g: "graph_ok g" "IsValidNode g p" and e: "e \<in> set (out_edges g p)"
  obtains d where "e_src e = Some p" "e_dst e = Some d" "IsValidNode g d"
proof -
  obtain x where x: "IsLiveEdge g x" "e_src (edge_at g x) = Some p" "e = edge_at g x"
    using e valid_edges(3) [OF g] by (auto simp: out_edges_def)
  then show thesis using that live_edgeD [OF g(1) x(1)] by metis
qed

text \<open>What the item of a node holds: its edges, its sizes, its types.\<close>

definition item_of :: "graph \<Rightarrow> nat \<Rightarrow> node_item \<Rightarrow> bool" where
  "item_of g p item \<longleftrightarrow> item_num_inputs item = num_inputs (node_at g p) \<and> item_num_outputs item = num_outputs (node_at g p) \<and>
     map forget_last (output_edges item) = map (edge_view g) (out_edges g p) \<and> last_ok (output_edges item)"

lemma InitializeNode_ok:
  assumes g: "graph_ok g" "flat_graph P g" "IsValidNode g p"
  obtains item where "InitializeNode g p = Some item" "item_of g p item"
proof -
  let ?n = "node_at g p" let ?es = "map (edge_view g) (out_edges g p)"
  obtain props where props: "n_props ?n = Some props" using g(1,3) by (auto simp: graph_ok_def nodes_ok_def)
  have N: "num_outputs ?n \<le> 2 ^ 30" using flat_graphD(1) [OF g(2,1,3)] by (simp add: node_flat_def Let_def)
  have E: "edge_info_of g e = Some (edge_view g e) \<and> (e_src_output e = kControlSlot \<or> 0 \<le> e_src_output e \<and> nat (e_src_output e) < num_outputs ?n)"
    if e: "e \<in> set (out_edges g p)" for e
  proof -
    obtain d where d: "e_src e = Some p" "e_dst e = Some d" by (rule out_edges_ends [OF g(1,3) e])
    then have s: "e_src_output e = kControlSlot \<or> 0 \<le> e_src_output e \<and> nat (e_src_output e) < num_outputs ?n"
      using flat_graphD(2) [OF g(2,1,3) e] by (auto simp: data_slots_ok_def IsControlEdge_def)
    then have "\<not> e_src_output e > 0x3FFFFFFF" using N by (auto simp: kControlSlot_def)
    then show ?thesis using d s by (simp add: edge_info_of_def edge_view_def)
  qed
  then have es: "those (map (edge_info_of g) (out_edges g p)) = Some ?es"
    by (intro those_map_Some) blast
  have "slots_in (length (replicate (num_outputs ?n) (None :: nat option))) ?es" using E by (auto simp: slots_in_def edge_view_def)
  moreover have "inds_ok [] (replicate (num_outputs ?n) None)" by (simp add: inds_ok_def)
  ultimately obtain inds where inds: "last_indices ?es 0 (replicate (num_outputs ?n) None) = Some inds" "inds_ok ?es inds"
    using last_indices_ok [of "replicate (num_outputs ?n) None" ?es "[]"] by auto
  have "\<forall>e \<in> set ?es. \<not> is_last e" "map forget_last ?es = ?es" by (auto simp: edge_view_def forget_last_def)
  then show thesis using that mark_last_ok [OF inds(2)] by (simp add: InitializeNode_def Let_def props es inds(1) item_of_def)
qed

section \<open>The view\<close>

text \<open>\<open>f\<close> gives the item of each node that has been entered.\<close>

definition view_of :: "graph \<Rightarrow> nat list \<Rightarrow> (nat \<Rightarrow> node_item) \<Rightarrow> graph_view" where
  "view_of g ps f = map (\<lambda>x. case x of None \<Rightarrow> None | Some p \<Rightarrow> if p \<in> set ps then Some (f p) else None) (g_nodes g)"

lemma length_view_of [simp]: "length (view_of g ps f) = length (g_nodes g)"
  by (simp add: view_of_def)

lemma view_of_nth:
  assumes "graph_ok g" "IsValidNode g p"
  shows "view_of g ps f ! nid g p = (if p \<in> set ps then Some (f p) else None)"
  using valid_ids(1,2) [OF assms] by (simp add: view_of_def)

lemma view_of_item:
  assumes g: "graph_ok g"
  shows "item_at (view_of g (nodes g) f) i = Some item \<longleftrightarrow> (\<exists>p. IsValidNode g p \<and> nid g p = i \<and> item = f p)"
proof
  assume "item_at (view_of g (nodes g) f) i = Some item"
  then have i: "i < length (g_nodes g)" "view_of g (nodes g) f ! i = Some item" by (auto simp: item_at_def split: if_splits)
  then obtain p where p: "g_nodes g ! i = Some p" "item = f p" by (auto simp: view_of_def split: option.splits if_splits)
  then show "\<exists>p. IsValidNode g p \<and> nid g p = i \<and> item = f p" using slot_valid [OF g i(1) p(1)] by blast
next
  assume "\<exists>p. IsValidNode g p \<and> nid g p = i \<and> item = f p"
  then show "item_at (view_of g (nodes g) f) i = Some item"
    using valid_ids [OF g] view_of_nth [OF g] by (auto simp: item_at_def)
qed

lemma view_of_update:
  assumes g: "graph_ok g" and p: "IsValidNode g p"
  shows "(view_of g ps f)[nid g p := Some item] = view_of g (p # ps) (f(p := item))"
proof (rule nth_equalityI)
  fix i assume i: "i < length ((view_of g ps f)[nid g p := Some item])"
  have "nid g p = i \<longleftrightarrow> g_nodes g ! i = Some p" using i valid_ids(1,2) [OF g p] slot_valid [OF g, of i p] by auto
  then show "(view_of g ps f)[nid g p := Some item] ! i = view_of g (p # ps) (f(p := item)) ! i"
    using i by (auto simp: view_of_def nth_list_update split: option.split)
qed simp

lemma view_of_cong: "set ps = set qs \<Longrightarrow> (\<And>p. p \<in> set ps \<Longrightarrow> f p = h p) \<Longrightarrow> view_of g ps f = view_of g qs h"
  by (auto simp: view_of_def split: option.split)

lemma gview_loop_ok:
  assumes g: "graph_ok g" "flat_graph P g"
  shows "set qs \<subseteq> {p. IsValidNode g p} \<Longrightarrow> distinct qs \<Longrightarrow> set ps \<inter> set qs = {} \<Longrightarrow> \<forall>p \<in> set ps. item_of g p (f p) \<Longrightarrow>
    \<exists>h. gview_loop g qs (view_of g ps f) = Some (view_of g (rev qs @ ps) h) \<and> (\<forall>p \<in> set (rev qs @ ps). item_of g p (h p))"
proof (induction qs arbitrary: ps f)
  case (Cons p qs)
  have p: "IsValidNode g p" using Cons.prems(1) by simp
  obtain item where item: "InitializeNode g p = Some item" "item_of g p item" by (rule InitializeNode_ok [OF g p])
  have "view_of g ps f ! nid g p = None" "nid g p < length (view_of g ps f)"
    using view_of_nth [OF g(1) p] valid_ids(1) [OF g(1) p] Cons.prems(3) by auto
  then have "gview_loop g (p # qs) (view_of g ps f) = gview_loop g qs (view_of g (p # ps) (f(p := item)))"
    by (simp add: item(1) Let_def view_of_update [OF g(1) p])
  moreover have "\<forall>q \<in> set (p # ps). item_of g q ((f(p := item)) q)" using Cons.prems(4) item(2) by simp
  moreover have "set qs \<subseteq> {p. IsValidNode g p}" "distinct qs" "set (p # ps) \<inter> set qs = {}" using Cons.prems by auto
  moreover have "rev (p # qs) @ ps = rev qs @ p # ps" by simp
  ultimately show ?case using Cons.IH [of "p # ps" "f(p := item)"] by presburger
qed auto

lemma GraphView_Initialize_ok:
  assumes g: "graph_ok g" "flat_graph P g"
  obtains f where "GraphView_Initialize g = Some (view_of g (nodes g) f)" "\<And>p. IsValidNode g p \<Longrightarrow> item_of g p (f p)"
proof -
  have empty: "replicate (length (g_nodes g)) None = view_of g [] (\<lambda>_. undefined)"
    by (rule nth_equalityI) (auto simp: view_of_def split: option.split)
  have N: "set (nodes g) \<subseteq> {p. IsValidNode g p}" using nodes_ok_list(1) [OF g(1)] by simp
  obtain h where h: "gview_loop g (nodes g) (view_of g [] (\<lambda>_. undefined)) = Some (view_of g (rev (nodes g) @ []) h)"
    "\<forall>p \<in> set (rev (nodes g) @ []). item_of g p (h p)"
    using gview_loop_ok [OF g N nodes_ok_list(2) [OF g(1)], of "[]"] by force
  have "view_of g (rev (nodes g) @ []) h = view_of g (nodes g) h" by (rule view_of_cong) simp_all
  then show thesis using that [of h] h nodes_ok_list(1) [OF g(1)] by (simp add: GraphView_Initialize_def empty)
qed

section \<open>Control flow analysis\<close>

lemma count_list_update_True: "i < length xs \<Longrightarrow> \<not> xs ! i \<Longrightarrow> count_list (xs[i := True]) False + 1 = count_list xs False"
  by (induction xs arbitrary: i) (auto simp: nth_Cons split: nat.splits)

text \<open>The search only ever meets the name of the root frame.\<close>

definition cf_inv :: "graph \<Rightarrow> nat list \<times> bool list \<times> nat option list \<times> control_flow_info \<Rightarrow> bool" where
  "cf_inv g st \<longleftrightarrow> (case st of (ready, visited, parents, cf) \<Rightarrow>
     (\<forall>p \<in> set ready. IsValidNode g p) \<and> length visited = length (g_nodes g) \<and>
     frame_names cf = replicate (length (g_nodes g)) [] \<and> unique_frame_names cf = [[]])"

definition cf_work :: "nat list \<times> bool list \<times> nat option list \<times> control_flow_info \<Rightarrow> nat" where
  "cf_work st = (case st of (ready, visited, _) \<Rightarrow> length ready + count_list visited False)"

lemma replicate_update_same: "(replicate n x)[i := x] = replicate n x"
  by (metis length_replicate linorder_not_le list_update_beyond list_update_id nth_replicate)

lemma visit_out_inv:
  assumes "graph_ok g" "cf_inv g st" "IsValidNode g q"
  shows "cf_inv g (visit_out g [] parent st q)" "cf_work (visit_out g [] parent st q) = cf_work st"
  using assms valid_ids(1) [OF assms(1,3)] count_list_update_True [of "nid g q" "fst (snd st)"]
  by (auto simp: cf_inv_def cf_work_def visit_out_def Let_def replicate_update_same split: prod.splits)

lemma foldl_visit_out_inv:
  assumes "graph_ok g"
  shows "cf_inv g st \<Longrightarrow> \<forall>q \<in> set qs. IsValidNode g q \<Longrightarrow>
    cf_inv g (foldl (visit_out g [] parent) st qs) \<and> cf_work (foldl (visit_out g [] parent) st qs) = cf_work st"
  by (induction qs arbitrary: st) (simp_all add: visit_out_inv [OF assms])

lemma cf_loop_ok:
  assumes g: "graph_ok g" "flat_graph P g"
  shows "cf_inv g st \<Longrightarrow> \<exists>cf. cf_loop P g st = Some (OK, cf) \<and> frame_names cf = replicate (length (g_nodes g)) [] \<and>
    unique_frame_names cf = [[]]"
proof (induction "cf_work st" arbitrary: st rule: less_induct)
  case less
  obtain ready visited parents cf where st: "st = (ready, visited, parents, cf)" by (cases st) blast
  note I = less.prems [unfolded cf_inv_def st split]
  show ?case
  proof (cases ready)
    case Nil
    then show ?thesis using I by (simp add: cf_loop.simps st)
  next
    case (Cons p ready')
    have p: "IsValidNode g p" using I Cons by simp
    have k: "\<not> IsEnter (node_at g p)" "\<not> IsExit (node_at g p)" using flat_graphD(1) [OF g(2,1) p] by (simp_all add: node_flat_def Let_def)
    let ?st = "foldl (visit_out g [] (parents ! nid g p)) (ready', visited, parents, cf) (out_nodes g p)"
    have name: "frame_names cf ! nid g p = []" using I valid_ids(1) [OF g(1) p] by simp
    have eq: "cf_loop P g st = cf_loop P g ?st"
      by (subst cf_loop.simps) (simp add: st Cons k name Let_def)
    have "cf_inv g (ready', visited, parents, cf)" using I Cons by (simp add: cf_inv_def)
    moreover have "\<forall>q \<in> set (out_nodes g p). IsValidNode g q" using graph_traversal_ok(1) [OF g(1)] p by (auto simp: traversal_ok_def)
    ultimately have "cf_inv g ?st \<and> cf_work ?st = cf_work (ready', visited, parents, cf)" by (rule foldl_visit_out_inv [OF g(1)])
    moreover have "cf_work (ready', visited, parents, cf) < cf_work st" by (simp add: cf_work_def st Cons)
    ultimately show ?thesis using less.hyps [of ?st] by (simp add: eq)
  qed
qed

lemma root_iff:
  assumes "graph_ok g" "IsValidNode g p"
  shows "es_empty (n_in (node_at g p)) \<longleftrightarrow> in_edges g p = []"
  using valid_edges(1) [OF assms] by (simp add: in_edges_def)

lemma BuildControlFlowInfo_ok:
  assumes g: "graph_ok g" "flat_graph P g"
  obtains cf where "BuildControlFlowInfo P g = Some (OK, cf)" "frame_names cf = replicate (length (g_nodes g)) []"
    "unique_frame_names cf = [[]]"
proof -
  let ?ready = "filter (\<lambda>p. es_empty (n_in (node_at g p))) (nodes g)"
  obtain p where "p \<in> set (nodes g)" "in_edges g p = []" using g(2) by (auto simp: flat_graph_def)
  then have "?ready \<noteq> []" using root_iff [OF g(1)] nodes_ok_list(1) [OF g(1)] by (auto simp: filter_empty_conv)
  moreover have len: "length (fold (\<lambda>p v. v[h p := True]) ps v) = length v" for h :: "nat \<Rightarrow> nat" and ps and v :: "bool list"
    by (induction ps arbitrary: v) auto
  have "\<forall>p \<in> set ?ready. IsValidNode g p" using nodes_ok_list(1) [OF g(1)] by auto
  ultimately have "cf_inv g (?ready, fold (\<lambda>p v. v[nid g p := True]) ?ready (replicate (length (g_nodes g)) False),
      replicate (length (g_nodes g)) None, \<lparr>unique_frame_names = (if ?ready = [] then [] else [[]]), frame_names = replicate (length (g_nodes g)) []\<rparr>)"
    by (simp add: cf_inv_def len)
  from cf_loop_ok [OF g this] show thesis using that by (auto simp: BuildControlFlowInfo_def Let_def)
qed

section \<open>The items and the frame\<close>

text \<open>What \<open>Initialize\<close> makes of the item of a node.\<close>

definition item_ready :: "graph \<Rightarrow> nat \<Rightarrow> node_item \<Rightarrow> bool" where
  "item_ready g p item \<longleftrightarrow> item_of g p item \<and> ni_node item = node_at g p \<and> is_merge item = IsMerge (node_at g p) \<and>
     is_enter item = IsEnter (node_at g p) \<and> is_control_trigger item = IsControlTrigger (node_at g p) \<and> is_sink item = IsSink (node_at g p) \<and>
     is_enter_exit_or_next_iter item = (IsEnter (node_at g p) \<or> IsExit (node_at g p) \<or> IsNextIteration (node_at g p)) \<and>
     (is_large (pending_id item) \<longleftrightarrow> 7 < fst (GetMaxPendingCounts g p) \<or> 7 < snd (GetMaxPendingCounts g p))"

text \<open>The counts and the inputs of the items have places of their own, below the ends \<open>L\<close> and \<open>n\<close>.\<close>

definition laid_out :: "nat list \<Rightarrow> (nat \<Rightarrow> node_item) \<Rightarrow> nat \<Rightarrow> int \<Rightarrow> bool" where
  "laid_out ps f n L \<longleftrightarrow>
     (\<forall>p \<in> set ps. 0 \<le> byte_offset (pending_id (f p)) \<and> byte_offset (pending_id (f p)) + handle_size (pending_id (f p)) \<le> L \<and>
        input_start (f p) + item_num_inputs (f p) \<le> n) \<and>
     (\<forall>p \<in> set ps. \<forall>q \<in> set ps. p \<noteq> q \<longrightarrow> items_apart (f p) (f q))"

lemma items_apart_sym: "items_apart x y \<Longrightarrow> items_apart y x"
  by (auto simp: items_apart_def apart_def)

lemma laid_out_add:
  assumes "laid_out ps f n L" "p \<notin> set ps" "0 \<le> L" "L \<le> byte_offset (pending_id item)"
    "byte_offset (pending_id item) + handle_size (pending_id item) \<le> L'" "input_start item = n" "item_num_inputs item = k"
  shows "laid_out (p # ps) (f(p := item)) (n + k) L'"
proof -
  have sz: "0 \<le> handle_size h" for h by (simp add: handle_size_def)
  have old: "byte_offset (pending_id (f q)) + handle_size (pending_id (f q)) \<le> L \<and> 0 \<le> byte_offset (pending_id (f q)) \<and>
      input_start (f q) + item_num_inputs (f q) \<le> n" if "q \<in> set ps" for q
    using assms(1) that by (simp add: laid_out_def)
  have ap: "items_apart (f q) item" if "q \<in> set ps" for q
    using old [OF that] assms(4,6) by (simp add: items_apart_def apart_def)
  have "L \<le> L'" using assms(4,5) sz [of "pending_id item"] by simp
  then have "\<forall>q \<in> set ps. byte_offset (pending_id (f q)) + handle_size (pending_id (f q)) \<le> L' \<and> input_start (f q) + item_num_inputs (f q) \<le> n + k"
    using old by fastforce
  moreover have "items_apart ((f(p := item)) q) ((f(p := item)) r)" if "q \<in> set (p # ps)" "r \<in> set (p # ps)" "q \<noteq> r" for q r
    using that assms(1) ap ap [THEN items_apart_sym] by (auto simp: laid_out_def)
  ultimately show ?thesis using old assms(2-7) by (auto simp: laid_out_def)
qed

definition init_inv :: "graph \<Rightarrow> nat list \<Rightarrow> (nat \<Rightarrow> node_item) \<Rightarrow> executor_impl \<Rightarrow> bool" where
  "init_inv g ps f impl \<longleftrightarrow> ei_graph impl = g \<and> gview impl = view_of g (nodes g) f \<and>
     root_nodes impl = map (nid g) (filter (\<lambda>p. in_edges g p = []) (rev ps)) \<and>
     (\<forall>p. IsValidNode g p \<longrightarrow> item_of g p (f p)) \<and> (\<forall>p \<in> set ps. item_ready g p (f p)) \<and>
     (\<exists>n L ns. frame_infos impl = [[] \<mapsto> \<lparr>input_count = 0, total_inputs = n, pending_counts_layout = L, fi_pending_counts = None, fi_nodes = Some ns\<rparr>] \<and>
        0 \<le> L \<and> L \<le> 16 * int (length ps) \<and> laid_out ps f n L)"

lemma init_node_ok:
  assumes g: "graph_ok g" "flat_graph P g" "IsValidNode g p" and inv: "init_inv g ps f impl" and p: "p \<notin> set ps"
    and room: "16 * int (length ps) + 16 \<le> 2 ^ 30" and cf: "frame_names cf = replicate (length (g_nodes g)) []"
  obtains item impl' where "init_node P cf p impl = Some (OK, impl')" "init_inv g (p # ps) (f(p := item)) impl'"
proof -
  let ?n = "node_at g p"
  obtain n L ns where I: "ei_graph impl = g" "gview impl = view_of g (nodes g) f"
    "root_nodes impl = map (nid g) (filter (\<lambda>p. in_edges g p = []) (rev ps))" "\<And>p. IsValidNode g p \<Longrightarrow> item_of g p (f p)"
    "\<forall>p \<in> set ps. item_ready g p (f p)"
    "frame_infos impl = [[] \<mapsto> \<lparr>input_count = 0, total_inputs = n, pending_counts_layout = L, fi_pending_counts = None, fi_nodes = Some ns\<rparr>]"
    "0 \<le> L" "L \<le> 16 * int (length ps)" "laid_out ps f n L"
    using inv by (auto simp: init_inv_def)
  obtain pr k where pr: "n_props ?n = Some pr" "create_kernel P (np_node_def pr) = (OK, Some k)" "\<not> IsEnter ?n"
    using flat_graphD(1) [OF g(2,1,3)] by (auto simp: node_flat_def Let_def split: option.splits prod.splits status.splits)
  obtain mp md where m: "GetMaxPendingCounts g p = (mp, md)" by fastforce
  obtain h L' where h: "CreateHandle mp md L = (h, L')" by fastforce
  have "L + 16 \<le> 2 ^ 30" using I(8) room by simp
  note H = CreateHandle_bounds [OF h I(7) this]
  let ?item = "(f p)\<lparr>ni_node := ?n, input_start := n, kernel_is_expensive := IsExpensive k, kernel_is_async := IsAsync k, is_merge := IsMerge ?n,
    is_enter := IsEnter ?n, is_exit := IsExit ?n, is_control_trigger := IsControlTrigger ?n, is_sink := IsSink ?n,
    is_enter_exit_or_next_iter := (IsEnter ?n \<or> IsExit ?n \<or> IsNextIteration ?n), pending_id := h\<rparr>"
  let ?fi = "\<lparr>input_count = 0, total_inputs = n + num_inputs ?n, pending_counts_layout = L', fi_pending_counts = None, fi_nodes = Some (ns @ [nid g p])\<rparr>"
  let ?impl = "impl\<lparr>root_nodes := (if in_edges g p = [] then root_nodes impl @ [nid g p] else root_nodes impl),
    gview := view_of g (nodes g) (f(p := ?item)), frame_infos := [[] \<mapsto> ?fi]\<rparr>"
  have name: "frame_names cf ! nid g p = []" using cf valid_ids(1) [OF g(1,3)] by simp
  have at: "item_at (gview impl) (nid g p) = Some (f p)" using view_of_item [OF g(1)] g(3) I(2) by auto
  have up: "(view_of g (nodes g) f)[nid g p := Some ?item] = view_of g (nodes g) (f(p := ?item))"
    unfolding view_of_update [OF g(1,3)] by (rule view_of_cong) (use valid_ids(4) [OF g(1,3)] in auto)
  have "init_node P cf p impl = Some (OK, ?impl)"
    by (simp add: init_node_def I(1,6) name EnsureFrameInfo_def at pr m h root_iff [OF g(1,3)] Let_def)
       (use up pr(3) in \<open>auto simp: I(2)\<close>)
  moreover
  have it: "item_of g p ?item" using I(4) [OF g(3)] by (simp add: item_of_def)
  then have rd: "item_ready g p ?item" using H(4) by (simp add: item_ready_def m)
  have lo: "laid_out (p # ps) (f(p := ?item)) (n + num_inputs ?n) L'"
    by (rule laid_out_add [OF I(9) p I(7)]) (use H it in \<open>simp_all add: item_of_def\<close>)
  have L': "0 \<le> L'" "L' \<le> 16 * int (length (p # ps))" using H(1-3) I(7,8) by (simp_all add: handle_size_def split: if_splits)
  have "init_inv g (p # ps) (f(p := ?item)) ?impl"
    unfolding init_inv_def
  proof (intro conjI exI)
    show "frame_infos ?impl = [[] \<mapsto> ?fi]" by simp
    show "laid_out (p # ps) (f(p := ?item)) (n + num_inputs ?n) L'" by (rule lo)
    show "\<forall>q. IsValidNode g q \<longrightarrow> item_of g q ((f(p := ?item)) q)" using I(4) it by (metis fun_upd_apply)
    show "\<forall>q \<in> set (p # ps). item_ready g q ((f(p := ?item)) q)" using I(5) rd by (metis fun_upd_apply set_ConsD)
  qed (use I(1,3) L' in simp_all)
  ultimately show thesis by (rule that)
qed

lemma init_nodes_ok:
  assumes g: "graph_ok g" "flat_graph P g" and cf: "frame_names cf = replicate (length (g_nodes g)) []"
  shows "init_inv g ps f impl \<Longrightarrow> \<forall>q \<in> set qs. IsValidNode g q \<Longrightarrow> distinct (rev qs @ ps) \<Longrightarrow> 16 * int (length (rev qs @ ps)) + 16 \<le> 2 ^ 30 \<Longrightarrow>
    \<exists>f' impl'. init_nodes P cf qs impl = Some (OK, impl') \<and> init_inv g (rev qs @ ps) f' impl'"
proof (induction qs arbitrary: ps f impl)
  case (Cons p qs)
  have p: "IsValidNode g p" "p \<notin> set ps" "16 * int (length ps) + 16 \<le> 2 ^ 30" using Cons.prems by auto
  obtain item impl' where s: "init_node P cf p impl = Some (OK, impl')" "init_inv g (p # ps) (f(p := item)) impl'"
    by (rule init_node_ok [OF g p(1) Cons.prems(1) p(2,3) cf])
  have "rev (p # qs) @ ps = rev qs @ p # ps" by simp
  then show ?case using Cons.IH [OF s(2)] Cons.prems(2-4) s(1) by simp
qed auto

section \<open>The counts\<close>

definition initial_counts :: "graph \<Rightarrow> nat \<Rightarrow> counts" where
  "initial_counts g p = \<lparr>c_pending = fst (GetMaxPendingCounts g p), c_dead = 0, c_started = False\<rparr>"

lemma GetMaxPendingCounts_bounds:
  assumes g: "graph_ok g" "flat_graph P g" "IsValidNode g p"
  shows "fst (GetMaxPendingCounts g p) < 2 ^ 31" "snd (GetMaxPendingCounts g p) = length (in_edges g p)" "length (in_edges g p) < 2 ^ 30"
proof -
  show n: "snd (GetMaxPendingCounts g p) = length (in_edges g p)"
    using es_size_elems [OF valid_edges(1) [OF g(1,3)]] by (simp add: GetMaxPendingCounts_def Let_def in_edges_def)
  show b: "length (in_edges g p) < 2 ^ 30" using flat_graphD(1) [OF g(2,1,3)] by (simp add: node_flat_def Let_def)
  have "length (filter IsControlEdge (in_edges g p)) \<le> length (in_edges g p)" by (rule length_filter_le)
  then have "1 + 2 * length (filter IsControlEdge (in_edges g p)) < 2 * 2 ^ 30" using b by linarith
  then have "1 + 2 * length (filter IsControlEdge (in_edges g p)) < 2 ^ 31" by simp
  then show "fst (GetMaxPendingCounts g p) < 2 ^ 31" using n b by (auto simp: GetMaxPendingCounts_def Let_def)
qed

lemma init_counts_ok:
  assumes g: "graph_ok g" "flat_graph P g" and cf: "frame_names cf = replicate (length (g_nodes g)) []"
    and lay: "laid_out (nodes g) f n L" and ready: "\<forall>p \<in> set (nodes g). item_ready g p (f p)"
  shows "\<forall>q \<in> set qs. IsValidNode g q \<Longrightarrow> distinct (ps @ qs) \<Longrightarrow> int (length m) = L \<Longrightarrow> set ps \<subseteq> set (nodes g) \<Longrightarrow>
    \<forall>p \<in> set ps. read_counts (pending_id (f p)) m = Some (initial_counts g p) \<Longrightarrow>
    \<exists>m'. init_counts g (view_of g (nodes g) f) cf qs [[] \<mapsto> fi\<lparr>fi_pending_counts := Some m\<rparr>] = Some [[] \<mapsto> fi\<lparr>fi_pending_counts := Some m'\<rparr>] \<and>
      int (length m') = L \<and> (\<forall>p \<in> set (ps @ qs). read_counts (pending_id (f p)) m' = Some (initial_counts g p))"
proof (induction qs arbitrary: ps m)
  case (Cons q qs)
  have q: "IsValidNode g q" "q \<in> set (nodes g)" "q \<notin> set ps" using Cons.prems valid_ids(4) [OF g(1)] by auto
  let ?h = "pending_id (f q)"
  have name: "frame_names cf ! nid g q = []" using cf valid_ids(1) [OF g(1) q(1)] by simp
  have at: "item_at (view_of g (nodes g) f) (nid g q) = Some (f q)" using view_of_item [OF g(1)] q(1) by auto
  have inb: "in_bounds ?h m" using lay q(2) Cons.prems(3) by (simp add: laid_out_def in_bounds_def)
  have fit: "fits ?h (initial_counts g q)"
    using ready q(2) GetMaxPendingCounts_bounds(1) [OF g q(1)] by (auto simp: fits_def initial_counts_def item_ready_def)
  obtain m1 where m1: "write_counts ?h (initial_counts g q) m = Some m1" "length m1 = length m" "read_counts ?h m1 = Some (initial_counts g q)"
    "\<And>k. apart ?h k \<Longrightarrow> read_counts k m1 = read_counts k m"
    using write_counts_ok [OF inb, of "initial_counts g q"] fit by metis
  have "read_counts (pending_id (f p)) m1 = Some (initial_counts g p)" if p: "p \<in> set (ps @ [q])" for p
  proof (cases "p = q")
    case False
    then have "items_apart (f q) (f p)" using lay p q(2) Cons.prems(4) unfolding laid_out_def by auto
    then show ?thesis using m1(4) Cons.prems(5) p False by (simp add: items_apart_def)
  qed (simp add: m1(3))
  then have "\<forall>p \<in> set (ps @ [q]). read_counts (pending_id (f p)) m1 = Some (initial_counts g p)" by blast
  moreover obtain md where "GetMaxPendingCounts g q = (c_pending (initial_counts g q), md)"
    by (cases "GetMaxPendingCounts g q") (simp add: initial_counts_def)
  then have "init_counts g (view_of g (nodes g) f) cf (q # qs) [[] \<mapsto> fi\<lparr>fi_pending_counts := Some m\<rparr>] =
      init_counts g (view_of g (nodes g) f) cf qs [[] \<mapsto> fi\<lparr>fi_pending_counts := Some m1\<rparr>]"
    using m1(1) by (simp add: name at EnsureFrameInfo_def set_initial_count_def Let_def) (simp add: initial_counts_def)
  moreover have "distinct ((ps @ [q]) @ qs)" "int (length m1) = L" "set (ps @ [q]) \<subseteq> set (nodes g)" "\<forall>q \<in> set qs. IsValidNode g q"
    using Cons.prems q(2) m1(2) by auto
  ultimately show ?case using Cons.IH [of "ps @ [q]" m1] by (simp only: append_assoc append_Cons append_Nil simp_thms)
qed auto

text \<open>All of \<open>Initialize\<close>: the result, as a view over items, and one frame.\<close>

definition initialized :: "exec_params \<Rightarrow> graph \<Rightarrow> (nat \<Rightarrow> node_item) \<Rightarrow> executor_impl \<Rightarrow> bool" where
  "initialized P g f impl \<longleftrightarrow> ei_graph impl = g \<and> gview impl = view_of g (nodes g) f \<and>
     root_nodes impl = map (nid g) (filter (\<lambda>p. in_edges g p = []) (nodes g)) \<and> (\<forall>p \<in> set (nodes g). item_ready g p (f p)) \<and>
     (\<exists>fi m n L. frame_infos impl [] = Some fi \<and> input_count fi = 0 \<and> total_inputs fi = n \<and> fi_pending_counts fi = Some m \<and> int (length m) = L \<and>
        laid_out (nodes g) f n L \<and> (\<forall>p \<in> set (nodes g). read_counts (pending_id (f p)) m = Some (initial_counts g p)))"

lemma Initialize_ok:
  assumes g: "graph_ok g" "flat_graph P g"
  obtains f impl where "ExecutorImpl_Initialize P g = Some (OK, impl)" "initialized P g f impl"
proof -
  obtain f0 where f0: "GraphView_Initialize g = Some (view_of g (nodes g) f0)" "\<And>p. IsValidNode g p \<Longrightarrow> item_of g p (f0 p)"
    by (rule GraphView_Initialize_ok [OF g]) blast
  obtain cf where cf: "BuildControlFlowInfo P g = Some (OK, cf)" "frame_names cf = replicate (length (g_nodes g)) []" "unique_frame_names cf = [[]]"
    by (rule BuildControlFlowInfo_ok [OF g])
  let ?impl = "\<lparr>ei_graph = g, gview = view_of g (nodes g) f0, root_nodes = [], frame_infos = fold init_frame_nodes [[]] (\<lambda>_. None)\<rparr>"
  have "fold init_frame_nodes [[]] (\<lambda>_. None) =
      [[] \<mapsto> \<lparr>input_count = 0, total_inputs = 0, pending_counts_layout = 0, fi_pending_counts = None, fi_nodes = Some []\<rparr>]"
    by (simp add: init_frame_nodes_def EnsureFrameInfo_def Let_def)
  then have start: "init_inv g [] f0 ?impl" using f0(2) by (auto simp: init_inv_def laid_out_def)
  have N: "\<forall>q \<in> set (nodes g). IsValidNode g q" "distinct (rev (nodes g) @ [])" using nodes_ok_list [OF g(1)] by simp_all
  have "length (nodes g) \<le> length (g_nodes g)" by (simp add: nodes_def List.map_filter_def)
  then have len: "16 * int (length (rev (nodes g) @ [])) + 16 \<le> 2 ^ 30" using g(2) by (simp add: flat_graph_def)
  obtain f impl where s: "init_nodes P cf (nodes g) ?impl = Some (OK, impl)" "init_inv g (rev (nodes g) @ []) f impl"
    using init_nodes_ok [OF g cf(2) start N len] by blast
  obtain n L ns where I: "ei_graph impl = g" "gview impl = view_of g (nodes g) f"
    "root_nodes impl = map (nid g) (filter (\<lambda>p. in_edges g p = []) (nodes g))" "\<forall>p \<in> set (nodes g). item_ready g p (f p)"
    "frame_infos impl = [[] \<mapsto> \<lparr>input_count = 0, total_inputs = n, pending_counts_layout = L, fi_pending_counts = None, fi_nodes = Some ns\<rparr>]"
    "0 \<le> L" "laid_out (rev (nodes g)) f n L"
    using s(2) by (auto simp: init_inv_def)
  have lay: "laid_out (nodes g) f n L" using I(7) by (simp add: laid_out_def)
  let ?m = "PendingCounts (heap_junk P) L"
  let ?fi = "\<lparr>input_count = 0, total_inputs = n, pending_counts_layout = L, fi_pending_counts = None, fi_nodes = Some ns\<rparr>"
  have m: "int (length ?m) = L" using I(6) by (simp add: PendingCounts_def)
  obtain m where m': "init_counts g (view_of g (nodes g) f) cf (nodes g) [[] \<mapsto> ?fi\<lparr>fi_pending_counts := Some ?m\<rparr>] =
      Some [[] \<mapsto> ?fi\<lparr>fi_pending_counts := Some m\<rparr>]" "int (length m) = L"
    "\<forall>p \<in> set (nodes g). read_counts (pending_id (f p)) m = Some (initial_counts g p)"
    using init_counts_ok [OF g cf(2) lay I(4) N(1), where ps = "[]" and m = ?m and fi = ?fi] m N(2) by auto
  have "fold (init_frame_counts P) [[]] (frame_infos impl) = [[] \<mapsto> ?fi\<lparr>fi_pending_counts := Some ?m\<rparr>]"
    by (simp add: init_frame_counts_def EnsureFrameInfo_def I(5) Let_def)
  then have "InitializePending P cf impl = Some (impl\<lparr>frame_infos := [[] \<mapsto> ?fi\<lparr>fi_pending_counts := Some m\<rparr>]\<rparr>)"
    using m'(1) by (simp add: InitializePending_def I(1,2) cf(3))
  then have "ExecutorImpl_Initialize P g = Some (OK, impl\<lparr>frame_infos := [[] \<mapsto> ?fi\<lparr>fi_pending_counts := Some m\<rparr>]\<rparr>)"
    using s(1) by (simp add: ExecutorImpl_Initialize_def f0(1) cf(1,3) Let_def)
  moreover have "initialized P g f (impl\<lparr>frame_infos := [[] \<mapsto> ?fi\<lparr>fi_pending_counts := Some m\<rparr>]\<rparr>)"
    using I(1-4) lay m'(2,3) by (auto simp: initialized_def)
  ultimately show thesis by (rule that)
qed

section \<open>The edges of the view are those of the graph\<close>

lemma initialized_at:
  assumes g: "graph_ok g" and i: "initialized P g f impl"
  shows "item_at (gview impl) d = Some item \<longleftrightarrow> (\<exists>p. IsValidNode g p \<and> nid g p = d \<and> item = f p)"
    "length (gview impl) = length (g_nodes g)" "IsValidNode g p \<Longrightarrow> item_at (gview impl) (nid g p) = Some (f p)"
    "IsValidNode g p \<Longrightarrow> item_ready g p (f p)" "IsValidNode g p \<Longrightarrow> out_of (gview impl) (nid g p) = output_edges (f p)"
proof -
  have v: "gview impl = view_of g (nodes g) f" using i by (simp add: initialized_def)
  show "item_at (gview impl) d = Some item \<longleftrightarrow> (\<exists>p. IsValidNode g p \<and> nid g p = d \<and> item = f p)" for d item
    unfolding v by (rule view_of_item [OF g])
  then show "IsValidNode g p \<Longrightarrow> item_at (gview impl) (nid g p) = Some (f p)" by blast
  then show "IsValidNode g p \<Longrightarrow> out_of (gview impl) (nid g p) = output_edges (f p)" by (simp add: out_of_def)
  show "length (gview impl) = length (g_nodes g)" by (simp add: v)
  show "IsValidNode g p \<Longrightarrow> item_ready g p (f p)" using i valid_ids(4) [OF g] by (simp add: initialized_def)
qed

lemma length_filter_forget:
  assumes "map forget_last es = map v xs"
  shows "length (filter (\<lambda>e. Q (forget_last e)) es) = length (filter (\<lambda>x. Q (v x)) xs)"
proof -
  have "length (filter Q (map forget_last es)) = length (filter Q (map v xs))" by (simp only: assms)
  then show ?thesis by (simp add: filter_map o_def)
qed

lemma forget_last_mem:
  assumes "map forget_last es = map v xs"
  shows "e \<in> set es \<Longrightarrow> \<exists>x \<in> set xs. forget_last e = v x" "x \<in> set xs \<Longrightarrow> \<exists>e \<in> set es. forget_last e = v x"
  using arg_cong [OF assms, of set] by auto (metis imageE image_eqI)+

lemma item_edges:
  assumes "item_ready g p item"
  shows "e \<in> set (output_edges item) \<Longrightarrow> \<exists>x \<in> set (out_edges g p). forget_last e = edge_view g x"
    "x \<in> set (out_edges g p) \<Longrightarrow> \<exists>e \<in> set (output_edges item). forget_last e = edge_view g x"
  using forget_last_mem [of "output_edges item" "edge_view g" "out_edges g p"] assms by (auto simp: item_ready_def item_of_def)

text \<open>An edge goes into the item of \<open>d\<close> exactly if it goes into the node: the degrees agree.\<close>

lemma out_of_none: "item_at gv s = None \<Longrightarrow> out_of gv s = []"
  by (simp add: out_of_def)

lemma live_edges_from:
  assumes g: "graph_ok g" and i: "initialized P g f impl" and p: "IsValidNode g p" and d: "IsValidNode g d"
  shows "length (filter (\<lambda>e. dst_id e = nid g d \<and> R (output_slot e)) (out_of (gview impl) (nid g p))) =
    card {x. IsLiveEdge g x \<and> e_src (edge_at g x) = Some p \<and> e_dst (edge_at g x) = Some d \<and> R (e_src_output (edge_at g x))}"
proof -
  let ?Q = "\<lambda>e. dst_id e = nid g d \<and> R (output_slot e)" let ?xs = "es_elems (n_out (node_at g p))"
  have m: "map forget_last (output_edges (f p)) = map (edge_view g) (out_edges g p)"
    using initialized_at(4) [OF g i p] by (simp add: item_ready_def item_of_def)
  have mem: "x \<in> set ?xs \<longleftrightarrow> IsLiveEdge g x \<and> e_src (edge_at g x) = Some p" for x using valid_edges(3) [OF g p] .
  have "?Q (edge_view g (edge_at g x)) \<longleftrightarrow> e_dst (edge_at g x) = Some d \<and> R (e_src_output (edge_at g x))" if x: "x \<in> set ?xs" for x
  proof -
    obtain q where q: "e_dst (edge_at g x) = Some q" "IsValidNode g q" using live_edgeD [OF g] x mem by metis
    have "nid g q = nid g d \<longleftrightarrow> q = d"
      using valid_id_inj [OF q(2) d] valid_ids(3) [OF g q(2)] valid_ids(3) [OF g d] by metis
    then show ?thesis using q(1) by (simp add: edge_view_def)
  qed
  then have flt: "filter (\<lambda>x. ?Q (edge_view g (edge_at g x))) ?xs =
      filter (\<lambda>x. e_dst (edge_at g x) = Some d \<and> R (e_src_output (edge_at g x))) ?xs"
    by (rule filter_cong [OF refl])
  have "length (filter ?Q (output_edges (f p))) = length (filter (\<lambda>x. ?Q (edge_view g x)) (out_edges g p))"
    using length_filter_forget [OF m, of ?Q] by simp
  also have "\<dots> = length (filter (\<lambda>x. e_dst (edge_at g x) = Some d \<and> R (e_src_output (edge_at g x))) ?xs)"
    unfolding flt [symmetric] by (simp add: out_edges_def filter_map o_def)
  also have "\<dots> = card (set (filter (\<lambda>x. e_dst (edge_at g x) = Some d \<and> R (e_src_output (edge_at g x))) ?xs))"
    using es_distinct [OF valid_edges(2) [OF g p]] by (simp only: distinct_card distinct_filter)
  also have "set (filter (\<lambda>x. e_dst (edge_at g x) = Some d \<and> R (e_src_output (edge_at g x))) ?xs) =
      {x. IsLiveEdge g x \<and> e_src (edge_at g x) = Some p \<and> e_dst (edge_at g x) = Some d \<and> R (e_src_output (edge_at g x))}"
    using mem by auto
  finally show ?thesis by (simp add: initialized_at(5) [OF g i p])
qed

lemma degrees_agree:
  assumes g: "graph_ok g" and i: "initialized P g f impl" and d: "IsValidNode g d"
  shows "n_into (gview impl) (\<lambda>e. R (output_slot e)) (nid g d) = length (filter (\<lambda>e. R (e_src_output e)) (in_edges g d))"
proof -
  let ?gv = "gview impl" let ?N = "{p. IsValidNode g p}" let ?xs = "es_elems (n_in (node_at g d))"
  let ?E = "\<lambda>p. {x. IsLiveEdge g x \<and> e_src (edge_at g x) = Some p \<and> e_dst (edge_at g x) = Some d \<and> R (e_src_output (edge_at g x))}"
  let ?k = "\<lambda>s. length (filter (\<lambda>e. dst_id e = nid g d \<and> R (output_slot e)) (out_of ?gv s))"
  have fin: "finite ?N" using nodes_ok_list(1) [OF g] by (metis List.finite_set)
  have mem: "x \<in> set ?xs \<longleftrightarrow> IsLiveEdge g x \<and> e_dst (edge_at g x) = Some d" for x using valid_edges(4) [OF g d] .
  have "n_into ?gv (\<lambda>e. R (output_slot e)) (nid g d) = (\<Sum>s \<in> nid g ` ?N. ?k s)"
    unfolding n_into_def
  proof (rule sum.mono_neutral_right)
    show "nid g ` ?N \<subseteq> {..<length ?gv}" using valid_ids(1) [OF g] initialized_at(2) [OF g i] by auto
    show "\<forall>s \<in> {..<length ?gv} - nid g ` ?N. ?k s = 0"
    proof
      fix s assume s: "s \<in> {..<length ?gv} - nid g ` ?N"
      have "item_at ?gv s = None" using initialized_at(1) [OF g i, of s] s by (cases "item_at ?gv s") auto
      then show "?k s = 0" by (simp add: out_of_none)
    qed
  qed simp
  also have "\<dots> = (\<Sum>p \<in> ?N. card (?E p))"
  proof (subst sum.reindex)
    show "inj_on (nid g) ?N" by (rule nid_inj [OF g])
    show "sum (?k \<circ> nid g) ?N = (\<Sum>p \<in> ?N. card (?E p))"
      by (rule sum.cong) (simp_all add: live_edges_from [OF g i _ d])
  qed
  also have "\<dots> = card (\<Union>p \<in> ?N. ?E p)"
    by (rule card_UN_disjoint [symmetric]) (use fin finite_subset [OF _ finite_live_edges [of g]] in \<open>auto intro: finite_subset [OF _ finite_live_edges [of g]]\<close>)
  also have "(\<Union>p \<in> ?N. ?E p) = set (filter (\<lambda>x. R (e_src_output (edge_at g x))) ?xs)"
  proof (intro set_eqI iffI)
    fix x assume "x \<in> set (filter (\<lambda>x. R (e_src_output (edge_at g x))) ?xs)"
    then have x: "IsLiveEdge g x" "e_dst (edge_at g x) = Some d" "R (e_src_output (edge_at g x))" using mem by auto
    then obtain p where "e_src (edge_at g x) = Some p" "IsValidNode g p" using live_edgeD [OF g x(1)] by metis
    then show "x \<in> (\<Union>p \<in> ?N. ?E p)" using x by auto
  qed (use mem in auto)
  also have "card \<dots> = length (filter (\<lambda>x. R (e_src_output (edge_at g x))) ?xs)"
    using es_distinct [OF valid_edges(1) [OF g d]] by (simp only: distinct_card distinct_filter)
  finally show ?thesis by (simp add: in_edges_def filter_map o_def)
qed

lemma degrees:
  assumes g: "graph_ok g" and i: "initialized P g f impl" and d: "IsValidNode g d"
  shows "in_degree (gview impl) (nid g d) = length (in_edges g d)"
    "control_degree (gview impl) (nid g d) = length (filter IsControlEdge (in_edges g d))"
    "data_degree (gview impl) (nid g d) = length (filter (\<lambda>e. \<not> IsControlEdge e) (in_edges g d))"
  using degrees_agree [OF g i d, of "\<lambda>_. True"] degrees_agree [OF g i d, of "\<lambda>s. s = kControlSlot"]
    degrees_agree [OF g i d, of "\<lambda>s. s \<noteq> kControlSlot"] by (simp_all add: IsControlEdge_def [abs_def])

lemma max_pending_agrees:
  assumes g: "graph_ok g" and i: "initialized P g f impl" and d: "IsValidNode g d"
  shows "max_pending (gview impl) (nid g d) (f d) = fst (GetMaxPendingCounts g d)"
  using initialized_at(4) [OF g i d] es_size_elems [OF valid_edges(1) [OF g d]]
  by (simp add: max_pending_def degrees [OF g i d] GetMaxPendingCounts_def Let_def item_ready_def in_edges_def)

section \<open>What the theorems on runs need\<close>

lemma initialized_item:
  assumes g: "graph_ok g" "flat_graph P g" and i: "initialized P g f impl" and p: "IsValidNode g p" and n: "input_start (f p) + item_num_inputs (f p) \<le> n"
  shows "item_ok (gview impl) n (nid g p) (f p)"
proof -
  let ?gv = "gview impl"
  note R = initialized_at(4) [OF g(1) i p, unfolded item_ready_def item_of_def]
  note F = flat_graphD(1) [OF g(2,1) p, unfolded node_flat_def Let_def]
  note D = degrees [OF g(1) i p] note B = GetMaxPendingCounts_bounds [OF g p]
  have "handle_ok ?gv (nid g p) (f p)"
    using R B max_pending_agrees [OF g(1) i p] D(1) by (simp add: handle_ok_def)
  moreover have "edge_ok ?gv (f p) e" if e: "e \<in> set (output_edges (f p))" for e
  proof -
    obtain x where x: "x \<in> set (out_edges g p)" "forget_last e = edge_view g x" using item_edges(1) [OF initialized_at(4) [OF g(1) i p] e] by blast
    obtain d where d: "e_src x = Some p" "e_dst x = Some d" "IsValidNode g d" by (rule out_edges_ends [OF g(1) p x(1)])
    have e': "dst_id e = nid g d" "output_slot e = e_src_output x" "input_slot e = e_dst_input x"
      using arg_cong [OF x(2), of dst_id] arg_cong [OF x(2), of output_slot] arg_cong [OF x(2), of input_slot] d(2)
      by (simp_all add: edge_view_def)
    have "item_num_inputs (f d) = num_inputs (node_at g d)" using initialized_at(4) [OF g(1) i d(3)] by (simp add: item_ready_def item_of_def)
    moreover have "item_num_outputs (f p) = num_outputs (node_at g p)" using R by blast
    moreover have "data_slots_ok g x" by (rule flat_graphD(2) [OF g(2,1) p x(1)])
    ultimately show ?thesis using initialized_at(3) [OF g(1) i d(3)] d(1,2) e'
      by (auto simp: edge_ok_def data_slots_ok_def IsControlEdge_def)
  qed
  moreover have "n_props (node_at g p) \<noteq> None" using F by (cases "n_props (node_at g p)") simp_all
  moreover have "ni_node (f p) = node_at g p" "last_ok (output_edges (f p))" "is_merge (f p) = IsMerge (node_at g p)" "is_sink (f p) = IsSink (node_at g p)"
    "is_enter (f p) = IsEnter (node_at g p)" "item_num_inputs (f p) = num_inputs (node_at g p)"
    "is_enter_exit_or_next_iter (f p) = (IsEnter (node_at g p) \<or> IsExit (node_at g p) \<or> IsNextIteration (node_at g p))"
    using R by blast+
  moreover have "\<not> IsEnter (node_at g p)" "\<not> IsExit (node_at g p)" "\<not> IsNextIteration (node_at g p)"
    "IsMerge (node_at g p) \<longrightarrow> num_inputs (node_at g p) = length (filter (\<lambda>e. \<not> IsControlEdge e) (in_edges g p))"
    "IsSink (node_at g p) \<longrightarrow> num_inputs (node_at g p) = 0"
    using F by blast+
  ultimately show ?thesis using n D(3) by (simp add: item_ok_def list_all_iff)
qed

lemma initialized_flat:
  assumes g: "graph_ok g" "flat_graph P g" and i: "initialized P g f impl"
  shows "flat_impl impl"
proof -
  let ?gv = "gview impl"
  obtain fi m n L where F: "frame_infos impl [] = Some fi" "input_count fi = 0" "total_inputs fi = n" "fi_pending_counts fi = Some m" "int (length m) = L"
    "laid_out (nodes g) f n L" "\<forall>p \<in> set (nodes g). read_counts (pending_id (f p)) m = Some (initial_counts g p)"
    using i unfolding initialized_def by blast
  note A = initialized_at [OF g(1) i] note V = valid_ids [OF g(1)]
  have small: "length (g_nodes g) < 2 ^ 26" and roots: "\<exists>p \<in> set (nodes g). in_edges g p = []" using g(2) by (simp_all add: flat_graph_def)
  have "flat_view ?gv n"
    unfolding flat_view_def
  proof (intro conjI allI impI)
    show "length ?gv < 2 ^ 64" using small by (simp add: A(2))
    show "item_ok ?gv n d item" if "item_at ?gv d = Some item" for d item
      using that initialized_item [OF g i] F(6) V(4) unfolding A(1) laid_out_def by blast
    show "items_apart x y" if xy: "item_at ?gv d = Some x" "item_at ?gv e = Some y" "d \<noteq> e" for d e x y
    proof -
      obtain p q where "IsValidNode g p" "x = f p" "IsValidNode g q" "y = f q" "p \<noteq> q" using xy unfolding A(1) by blast
      then show ?thesis using F(6) V(4) by (simp add: laid_out_def)
    qed
  qed
  moreover have "in_bounds (pending_id item) m \<and> (\<not> is_sink item \<longrightarrow> read_counts (pending_id item) m =
      Some \<lparr>c_pending = max_pending ?gv d item, c_dead = 0, c_started = False\<rparr>)" if it: "item_at ?gv d = Some item" for d item
  proof -
    obtain p where p: "IsValidNode g p" "nid g p = d" "item = f p" using it unfolding A(1) by blast
    then show ?thesis using F(5-7) V(4) [OF p(1)] max_pending_agrees [OF g(1) i p(1)]
      by (simp add: laid_out_def in_bounds_def initial_counts_def)
  qed
  moreover have rn: "root_nodes impl = map (nid g) (filter (\<lambda>p. in_edges g p = []) (nodes g))" using i by (simp add: initialized_def)
  then have "root_nodes impl \<noteq> []" using roots by (auto simp: filter_empty_conv)
  moreover have "inj_on (nid g) {p. IsValidNode g p}" by (rule nid_inj [OF g(1)])
  then have "distinct (root_nodes impl)"
    unfolding rn distinct_map using nodes_ok_list [OF g(1)] by (auto elim: inj_on_subset)
  moreover have "set (root_nodes impl) = {d. item_at ?gv d \<noteq> None \<and> in_degree ?gv d = 0}"
  proof -
    have "d \<in> set (root_nodes impl) \<longleftrightarrow> (\<exists>p. IsValidNode g p \<and> nid g p = d \<and> in_edges g p = [])" for d
      unfolding rn using nodes_ok_list(1) [OF g(1)] by auto
    moreover have "(\<exists>p. IsValidNode g p \<and> nid g p = d \<and> in_edges g p = []) \<longleftrightarrow> item_at ?gv d \<noteq> None \<and> in_degree ?gv d = 0" for d
      using A(1) degrees(1) [OF g(1) i] by (metis length_0_conv not_Some_eq)
    ultimately show ?thesis by blast
  qed
  ultimately show ?thesis unfolding flat_impl_def using F(1-4) by blast
qed

section \<open>Runs of a graph\<close>


lemma arc_edge:
  assumes g: "graph_ok g" and i: "initialized P g f impl" and a: "(p, q) \<in> arcs g"
  obtains e where "e \<in> set (out_of (gview impl) (nid g p))" "dst_id e = nid g q"
proof -
  have v: "IsValidNode g p" "IsValidNode g q" using arcs_valid [OF g a] by simp_all
  obtain x where x: "IsLiveEdge g x" "e_src (edge_at g x) = Some p" "e_dst (edge_at g x) = Some q" using a by (auto simp: arcs_def)
  have "edge_at g x \<in> set (out_edges g p)" using valid_edges(3) [OF g v(1)] x by (simp add: out_edges_def)
  then obtain e where e: "e \<in> set (output_edges (f p))" "forget_last e = edge_view g (edge_at g x)"
    using item_edges(2) [OF initialized_at(4) [OF g i v(1)]] by blast
  have "dst_id e = nid g q" using arg_cong [OF e(2), of dst_id] x(3) by (simp add: edge_view_def)
  then show thesis using that e(1) by (simp add: initialized_at(5) [OF g i v(1)])
qed

lemma view_edge:
  assumes g: "graph_ok g" and i: "initialized P g f impl" and e: "e \<in> set (out_of (gview impl) s)"
  obtains p q where "(p, q) \<in> arcs g" "nid g p = s" "nid g q = dst_id e"
proof -
  obtain p where p: "IsValidNode g p" "nid g p = s"
    using e initialized_at(1) [OF g i, of s] by (cases "item_at (gview impl) s") (auto simp: out_of_def)
  have "e \<in> set (output_edges (f p))" using e p initialized_at(5) [OF g i p(1)] by simp
  then obtain x where x: "x \<in> set (out_edges g p)" "forget_last e = edge_view g x"
    using item_edges(1) [OF initialized_at(4) [OF g i p(1)]] by blast
  obtain q where q: "e_src x = Some p" "e_dst x = Some q" "IsValidNode g q" by (rule out_edges_ends [OF g p(1) x(1)])
  have "(p, q) \<in> arcs g" using x(1) q valid_edges(3) [OF g p(1)] by (auto simp: arcs_def out_edges_def)
  moreover have "nid g q = dst_id e" using arg_cong [OF x(2), of dst_id] q(2) by (simp add: edge_view_def)
  ultimately show thesis using that p(2) by blast
qed

lemma initialized_acyclic:
  assumes g: "graph_ok g" and i: "initialized P g f impl" and ac: "acyclic (arcs g)"
  shows "acyclic_view (gview impl)"
proof -
  have V: "finite {p. IsValidNode g p}" using nodes_ok_list(1) [OF g] by (metis List.finite_set)
  have sub: "{q. (q, p) \<in> (arcs g)\<^sup>+} \<subseteq> {p. IsValidNode g p}" for p
    using arcs_valid [OF g] by (auto dest: tranclD)
  define rank where "rank s = card {q. (q, the (g_nodes g ! s)) \<in> (arcs g)\<^sup>+}" for s
  have r: "rank (nid g p) = card {q. (q, p) \<in> (arcs g)\<^sup>+}" if "IsValidNode g p" for p
    using valid_ids(2) [OF g that] by (simp add: rank_def)
  have "rank s < rank (dst_id e)" if e: "e \<in> set (out_of (gview impl) s)" for s e
  proof -
    obtain p q where a: "(p, q) \<in> arcs g" "nid g p = s" "nid g q = dst_id e" by (rule view_edge [OF g i e])
    have "(p, p) \<notin> (arcs g)\<^sup>+" using ac by (simp add: acyclic_def)
    then have "{r. (r, p) \<in> (arcs g)\<^sup>+} \<subset> {r. (r, q) \<in> (arcs g)\<^sup>+}" using a(1) by (auto intro: trancl_into_trancl)
    then have "card {r. (r, p) \<in> (arcs g)\<^sup>+} < card {r. (r, q) \<in> (arcs g)\<^sup>+}"
      by (rule psubset_card_mono [OF finite_subset [OF sub V]])
    then show ?thesis using r arcs_valid [OF g a(1)] a(2,3) by metis
  qed
  then show ?thesis unfolding acyclic_view_def by blast
qed

text \<open>The sink ends the graph: edges lead to it and none leaves it.\<close>

definition sink_ends :: "graph \<Rightarrow> bool" where
  "sink_ends g \<longleftrightarrow> (case sink_node g of Some q \<Rightarrow> out_edges g q = [] \<and> in_edges g q \<noteq> [] | None \<Rightarrow> False)"

lemma initialized_sinks:
  assumes g: "graph_ok g" and i: "initialized P g f impl" and s: "sink_ends g"
  shows "proper_sinks (gview impl)"
  unfolding proper_sinks_def
proof (intro allI impI)
  fix d item assume it: "item_at (gview impl) d = Some item" "is_sink item"
  then obtain p where p: "IsValidNode g p" "nid g p = d" "item = f p" unfolding initialized_at(1) [OF g i] by blast
  note R = initialized_at(4) [OF g i p(1), unfolded item_ready_def item_of_def]
  have id1: "n_id (node_at g p) = 1" using R it(2) p(3) by (simp add: IsSink_def)
  then have "sink_node g = Some p" using valid_ids(2) [OF g p(1)] by (simp add: sink_node_def)
  then have "out_edges g p = []" "in_edges g p \<noteq> []" using s by (simp_all add: sink_ends_def)
  then show "output_edges item = [] \<and> 0 < in_degree (gview impl) d"
    using R p(2,3) degrees(1) [OF g i p(1)] by auto
qed

lemma initialized_runnable:
  assumes g: "graph_ok g" and i: "initialized P g f impl"
  shows "runnable (gview impl) = nid g ` {p. IsValidNode g p \<and> \<not> IsSink (node_at g p)}"
proof -
  have "d < length (gview impl)" if "item_at (gview impl) d = Some item" for d item using that by (rule item_at_less)
  then have "runnable (gview impl) = {d. \<exists>item. item_at (gview impl) d = Some item \<and> \<not> is_sink item}" by (auto simp: runnable_def)
  also have "\<dots> = nid g ` {p. IsValidNode g p \<and> \<not> IsSink (node_at g p)}"
    unfolding initialized_at(1) [OF g i] using initialized_at(4) [OF g i] by (auto simp: item_ready_def)
  finally show ?thesis .
qed

text \<open>
  C2. A graph is executed in order and completely: in every run on a graph without frames, when a node that is neither a
  merge nor the sink is started, all the nodes it has edges from have propagated their outputs before; and if the graph
  has no cycles and its sink ends it, then once \<open>done\<close> has been called and no node failed, the nodes that
  were started are all the nodes but the sink, each once, and all of them have propagated.
\<close>

theorem graph_run_complete:
  assumes R: "registry_ok R" "graph_reachable R g" and flat: "flat_graph P g"
    and init: "ExecutorImpl_Initialize P g = Some (s, impl)" and run: "exec_run P impl evs st"
  shows "(\<forall>evs1 u evs2 p q. evs = evs1 @ Began u # evs2 \<longrightarrow> (p, q) \<in> arcs g \<longrightarrow> tn_node u = nid g q \<longrightarrow>
      \<not> IsMerge (node_at g q) \<longrightarrow> \<not> IsSink (node_at g q) \<longrightarrow> nid g p \<in> set (propagated evs1)) \<and>
    (acyclic (arcs g) \<longrightarrow> sink_ends g \<longrightarrow> dones evs \<noteq> [] \<longrightarrow> failed evs = [] \<longrightarrow>
      mset (begun evs) = mset (map (nid g) (filter (\<lambda>p. \<not> IsSink (node_at g p)) (nodes g))) \<and>
      mset (propagated evs) = mset (begun evs))"
proof -
  have g: "graph_ok g" by (rule graph_reachable_ok [OF R])
  obtain f impl' where i': "ExecutorImpl_Initialize P g = Some (OK, impl')" "initialized P g f impl'" by (rule Initialize_ok [OF g flat])
  then have i: "initialized P g f impl" using init by simp
  note fl = initialized_flat [OF g flat i] note A = initialized_at [OF g i]
  have "nid g p \<in> set (propagated evs1)"
    if e: "evs = evs1 @ Began u # evs2" "(p, q) \<in> arcs g" "tn_node u = nid g q" "\<not> IsMerge (node_at g q)" "\<not> IsSink (node_at g q)" for evs1 u evs2 p q
  proof -
    have q: "IsValidNode g q" using arcs_valid [OF g e(2)] by simp
    have it: "item_at (gview impl) (nid g q) = Some (f q)" "\<not> is_merge (f q)" "\<not> is_sink (f q)"
      using A(3,4) [OF q] e(4,5) by (simp_all add: item_ready_def)
    have "nid g q \<in> fired (gview impl) (arrivals (gview impl) evs1)"
      using run_history [OF fl run] e(1,3) unfolding history_ok_def by metis
    then have fi: "fires (gview impl) (nid g q) (f q) (at (nid g q) (arrivals (gview impl) evs1))" using it(1) by (simp add: fired_def)
    obtain x where "x \<in> set (out_of (gview impl) (nid g p))" "dst_id x = nid g q" by (rule arc_edge [OF g i e(2)])
    with fired_sources [OF run_prefix [OF fl run e(1)] it(1) fi it(2,3)] show ?thesis by blast
  qed
  moreover have "mset (begun evs) = mset (map (nid g) (filter (\<lambda>p. \<not> IsSink (node_at g p)) (nodes g))) \<and> mset (propagated evs) = mset (begun evs)"
    if h: "acyclic (arcs g)" "sink_ends g" "dones evs \<noteq> []" "failed evs = []"
  proof -
    let ?ns = "filter (\<lambda>p. \<not> IsSink (node_at g p)) (nodes g)"
    have "inj_on (nid g) (set ?ns)" by (rule inj_on_subset [OF nid_inj [OF g]]) (use nodes_ok_list(1) [OF g] in auto)
    then have "distinct (map (nid g) ?ns)" using nodes_ok_list(2) [OF g] by (simp add: distinct_map)
    moreover have "set (map (nid g) ?ns) = runnable (gview impl)"
      unfolding initialized_runnable [OF g i] using nodes_ok_list(1) [OF g] by auto
    ultimately have "mset (map (nid g) ?ns) = mset_set (runnable (gview impl))" by (metis mset_set_set)
    with executor_runs_all [OF fl initialized_acyclic [OF g i h(1)] initialized_sinks [OF g i h(2)] run h(3,4)] show ?thesis by simp
  qed
  ultimately show ?thesis by blast
qed

section \<open>A graph from its construction to its run\<close>

text \<open>The source, a constant, a node that reads it, and the sink.\<close>

definition typed_registry :: op_registry where
  "typed_registry = demo_registry\<lparr>InOutTypesForNode := (\<lambda>nd _. (OK, if nd_op nd = ''Neg'' then [1] else [], if nd_op nd = ''Zeros'' then [1] else []))\<rparr>"

definition typed_params :: exec_params where
  "typed_params = demo_params\<lparr>create_kernel := (\<lambda>_. (OK, Some \<lparr>IsExpensive = False, IsAsync = False\<rparr>)), ops_registry := typed_registry\<rparr>"

definition typed_node :: "string \<Rightarrow> node_def" where
  "typed_node op = \<lparr>nd_name = ''n'', nd_op = op, nd_input = [], nd_device = [], nd_attr = (\<lambda>_. None)\<rparr>"

definition add_typed :: "nat \<Rightarrow> string \<Rightarrow> graph \<Rightarrow> graph option" where
  "add_typed fresh op g = (if IsValidNode g fresh then None else Some (snd (snd (AddNode typed_registry fresh (typed_node op) OK g))))"

definition link :: "nat \<Rightarrow> nat \<Rightarrow> int \<Rightarrow> nat \<Rightarrow> int \<Rightarrow> graph \<Rightarrow> graph option" where
  "link fresh s x d y g =
     (if IsValidNode g s \<and> IsValidNode g d \<and> (x = kControlSlot \<longleftrightarrow> y = kControlSlot) \<and> \<not> IsLiveEdge g fresh
      then map_option snd (AddEdge fresh s x d y g) else None)"

lemma add_typed_reachable: "graph_reachable typed_registry g \<Longrightarrow> add_typed fresh op g = Some g' \<Longrightarrow> graph_reachable typed_registry g'"
  by (cases "AddNode typed_registry fresh (typed_node op) OK g") (auto simp: add_typed_def split: if_splits intro: reach_add_node)

lemma link_reachable: "graph_reachable R g \<Longrightarrow> link fresh s x d y g = Some g' \<Longrightarrow> graph_reachable R g'"
  by (auto simp: link_def split: if_splits intro: reach_add_edge)

definition typed_graph :: "graph option" where
  "typed_graph = do {
     g \<leftarrow> Graph typed_registry (10, 11, 20);
     g \<leftarrow> add_typed 12 ''Zeros'' g;
     g \<leftarrow> add_typed 13 ''Neg'' g;
     g \<leftarrow> link 21 10 kControlSlot 12 kControlSlot g;
     g \<leftarrow> link 22 12 0 13 0 g;
     link 23 13 kControlSlot 11 kControlSlot g
   }"

lemma typed_graph_reachable: "typed_graph = Some g \<Longrightarrow> graph_reachable typed_registry g"
  unfolding typed_graph_def bind_eq_Some_conv
proof (elim exE conjE)
  fix a b c d e assume s: "Graph typed_registry (10, 11, 20) = Some a" "add_typed 12 ''Zeros'' a = Some b" "add_typed 13 ''Neg'' b = Some c"
    "link 21 10 kControlSlot 12 kControlSlot c = Some d" "link 22 12 0 13 0 d = Some e" "link 23 13 kControlSlot 11 kControlSlot e = Some g"
  have "graph_reachable typed_registry a" by (rule reach_graph [OF _ s(1)]) simp
  from link_reachable [OF link_reachable [OF link_reachable [OF add_typed_reachable [OF add_typed_reachable [OF this s(2)] s(3)] s(4)] s(5)] s(6)]
  show "graph_reachable typed_registry g" .
qed

text \<open>A ranking of the nodes, which shows that there are no cycles.\<close>

definition ranks_up :: "(nat \<Rightarrow> nat) \<Rightarrow> graph \<Rightarrow> bool" where
  "ranks_up r g \<longleftrightarrow> (\<forall>p \<in> set (nodes g). \<forall>e \<in> set (out_edges g p). case e_dst e of Some q \<Rightarrow> r p < r q | None \<Rightarrow> False)"

lemma ranks_up_acyclic:
  assumes g: "graph_ok g" and r: "ranks_up r g"
  shows "acyclic (arcs g)"
proof -
  have "r p < r q" if a: "(p, q) \<in> arcs g" for p q
  proof -
    have p: "IsValidNode g p" using arcs_valid [OF g a] by simp
    obtain x where x: "IsLiveEdge g x" "e_src (edge_at g x) = Some p" "e_dst (edge_at g x) = Some q" using a by (auto simp: arcs_def)
    then have "edge_at g x \<in> set (out_edges g p)" using valid_edges(3) [OF g p] by (simp add: out_edges_def)
    then show ?thesis using r x(3) valid_ids(4) [OF g p] by (fastforce simp: ranks_up_def)
  qed
  then have "arcs g \<subseteq> measure r" by auto
  then show ?thesis using wf_acyclic wf_measure acyclic_subset by metis
qed

definition typed_item :: "int \<Rightarrow> string \<Rightarrow> string \<Rightarrow> nat list \<Rightarrow> nat list \<Rightarrow> nat option \<times> nat option \<Rightarrow> nat option \<times> nat option \<Rightarrow> node" where
  "typed_item i name op ins outs es fs = \<lparr>n_id = i, n_cost_id = i, n_class = NC_OTHER, n_in = Inline (fst es) (snd es), n_out = Inline (fst fs) (snd fs),
     n_props = Some \<lparr>np_op_def = 0, np_node_def = (typed_node op)\<lparr>nd_name := name\<rparr>, np_input_types = ins, np_output_types = outs\<rparr>, n_device_index = 0\<rparr>"

text \<open>What the operations make, written out.\<close>

definition typed_built :: graph where
  "typed_built = \<lparr>g_nodes = [Some 10, Some 11, Some 12, Some 13], g_num_nodes = 4, g_edges = [Some 20, Some 21, Some 22, Some 23], g_num_edges = 4,
     g_free_nodes = [], g_free_edges = [], g_name_counter = 0, g_device_names = [[]], g_device_names_map = (\<lambda>_. None),
     node_at = (\<lambda>_. Node)(10 := typed_item 0 ''_SOURCE'' ''NoOp'' [] [] (None, None) (Some 20, Some 21),
       12 := typed_item 2 ''n'' ''Zeros'' [] [1] (Some 21, None) (Some 22, None),
       13 := typed_item 3 ''n'' ''Neg'' [1] [] (Some 22, None) (Some 23, None),
       11 := typed_item 1 ''_SINK'' ''NoOp'' [] [] (Some 20, Some 23) (None, None)),
     edge_at = (\<lambda>_. \<lparr>e_src = None, e_dst = None, e_id = - 1, e_src_output = - 2, e_dst_input = - 2\<rparr>)
       (20 := \<lparr>e_src = Some 10, e_dst = Some 11, e_id = 0, e_src_output = - 1, e_dst_input = - 1\<rparr>,
        21 := \<lparr>e_src = Some 10, e_dst = Some 12, e_id = 1, e_src_output = - 1, e_dst_input = - 1\<rparr>,
        22 := \<lparr>e_src = Some 12, e_dst = Some 13, e_id = 2, e_src_output = 0, e_dst_input = 0\<rparr>,
        23 := \<lparr>e_src = Some 13, e_dst = Some 11, e_id = 3, e_src_output = - 1, e_dst_input = - 1\<rparr>)\<rparr>"

lemma typed_graph_built: "typed_graph = Some typed_built"
  by (simp add: typed_graph_def Graph_def AddNode_def AllocateNode_def typed_registry_def demo_registry_def Status_Update_def Let_def AddControlEdge_def
    AddEdge_def add_typed_def link_def IsValidNode_def IsLiveEdge_def kControlSlot_def typed_node_def Node_Initialize_def Node_def es_clear_def
    GetNodeClassForOp_def kNodeClassTable_def typed_built_def typed_item_def)

lemma flat_graph_code [code]:
  "flat_graph P g \<longleftrightarrow> int (length (g_nodes g)) < 67108864 \<and> (\<forall>p \<in> set (nodes g). node_flat P g p) \<and>
     (\<forall>p \<in> set (nodes g). \<forall>e \<in> set (out_edges g p). data_slots_ok g e) \<and> (\<exists>p \<in> set (nodes g). in_edges g p = [])"
  by (simp add: flat_graph_def)

lemma node_flat_code [code]:
  "node_flat P g p \<longleftrightarrow>
     (let n = node_at g p
      in \<not> IsEnter n \<and> \<not> IsExit n \<and> \<not> IsNextIteration n \<and>
         (case n_props n of
            Some pr \<Rightarrow> (case create_kernel P (np_node_def pr) of (OK, Some k) \<Rightarrow> True | _ \<Rightarrow> False)
          | None \<Rightarrow> False) \<and>
         (IsMerge n \<longrightarrow> num_inputs n = length (filter (\<lambda>e. \<not> IsControlEdge e) (in_edges g p))) \<and>
         (IsSink n \<longrightarrow> num_inputs n = 0) \<and> int (num_outputs n) \<le> 1073741824 \<and> int (length (in_edges g p)) < 1073741824)"
  by (simp add: node_flat_def Let_def)

definition typed_run :: "(executor_impl \<times> event list \<times> exec_state) option" where
  "typed_run = do {
     (s, impl) \<leftarrow> ExecutorImpl_Initialize typed_params typed_built;
     st0 \<leftarrow> ExecutorState impl;
     st \<leftarrow> RunAsync impl OK st0;
     (evs, st) \<leftarrow> run_labels typed_params impl demo_labels ([], st);
     Some (impl, evs, st)
   }"

lemma typed_checks: "flat_graph typed_params typed_built" "ranks_up (\<lambda>p. if p = 11 then 20 else p) typed_built" "sink_ends typed_built"
    "map (nid typed_built) (nodes typed_built) = [0, 1, 2, 3]"
  by code_simp+

lemma typed_codes:
  "map_option (\<lambda>(impl, evs, st). (map event_code evs, dones evs)) typed_run =
   Some ([(0, 0), (1, 0), (2, 0), (0, 2), (1, 2), (2, 2), (0, 3), (1, 3), (2, 3), (3, 0)], [OK])"
  by code_simp

lemma typed_registry_ok: "registry_ok typed_registry"
  by (simp add: registry_ok_def typed_registry_def demo_registry_def)

lemma typed_reachable: "graph_reachable typed_registry typed_built"
  by (rule typed_graph_reachable [OF typed_graph_built])

lemma typed_runs:
  obtains s impl evs st where "ExecutorImpl_Initialize typed_params typed_built = Some (s, impl)" "exec_run typed_params impl evs st"
    "begun evs = [0, 2, 3]" "propagated evs = [0, 2, 3]" "failed evs = []" "dones evs = [OK]"
proof -
  obtain impl evs st where f: "typed_run = Some (impl, evs, st)"
    and c: "map event_code evs = [(0, 0), (1, 0), (2, 0), (0, 2), (1, 2), (2, 2), (0, 3), (1, 3), (2, 3), (3, 0)]" and d: "dones evs = [OK]"
    using typed_codes by auto
  then obtain s st0 st1 where s: "ExecutorImpl_Initialize typed_params typed_built = Some (s, impl)" "ExecutorState impl = Some st0"
    "RunAsync impl OK st0 = Some st1" "run_labels typed_params impl demo_labels ([], st1) = Some (evs, st)"
    by (auto simp: typed_run_def bind_eq_Some_conv)
  have "exec_run typed_params impl evs st" by (rule run_labels_run [OF exec_run.run_start [OF s(2,3)] s(4)])
  with s(1) show thesis by (rule that) (simp_all add: event_code_history c d)
qed


lemma graph_run_complete_witness:
  "\<exists>impl evs st. exec_run typed_params impl evs st \<and> dones evs = [OK] \<and> mset (begun evs) = {#0, 2, 3#} \<and> mset (propagated evs) = {#0, 2, 3#}"
proof -
  obtain s impl evs st where r: "ExecutorImpl_Initialize typed_params typed_built = Some (s, impl)" "exec_run typed_params impl evs st"
    "failed evs = []" "dones evs = [OK]" by (rule typed_runs)
  have ac: "acyclic (arcs typed_built)" by (rule ranks_up_acyclic [OF graph_reachable_ok [OF typed_registry_ok typed_reachable] typed_checks(2)])
  have n: "mset (map (nid typed_built) (filter (\<lambda>p. \<not> IsSink (node_at typed_built p)) (nodes typed_built))) = {#0, 2, 3#}"
    by (simp add: nodes_def List.map_filter_def typed_built_def typed_item_def IsSink_def)
  have "dones evs \<noteq> []" using r(4) by simp
  then show ?thesis
    using graph_run_complete [OF typed_registry_ok typed_reachable typed_checks(1) r(1,2), THEN conjunct2, rule_format, OF ac typed_checks(3) _ r(3)]
      r(2,4) unfolding n by metis
qed

end
