(* ===== verification/TF_GraphCycles.thy ===== *)
theory TF_GraphCycles
  imports TF_Prelude "HOL-Library.Multiset" "HOL-Library.Monad_Syntax"
begin

text \<open>
  \<^verbatim>\<open>compiler/jit/graphcycles/graphcycles.cc\<close>: incremental cycle detection on a dynamic graph, by the
  algorithm of Pearce and Kelly. Node ids are indices into \<open>gc_nodes\<close> (\<^verbatim>\<open>nodes_\<close>). A \<^verbatim>\<open>NodeSet\<close> is the list of its
  elements in iteration order; where an insertion puts the new element (and whether it shuffles
  the others, as a rehash does) is the parameter \<open>place\<close>. The scratch vectors of \<^verbatim>\<open>Rep\<close> are cleared
  before each use and are local values here. \<open>None\<close> is an index out of bounds, a failed \<^verbatim>\<open>CHECK\<close>, or a node
  number that does not fit an \<^verbatim>\<open>int32\<close>.
\<close>

section \<open>Nodes and node sets\<close>

type_synonym placement = "nat \<Rightarrow> nat list \<Rightarrow> nat list"

record gc_node =
  gn_rank :: nat
  gn_visited :: bool
  gn_data :: nat
  gn_in :: "nat list"
  gn_out :: "nat list"

record gc_rep =
  gc_nodes :: "gc_node list"
  free_nodes :: "nat list"

definition set_insert :: "placement \<Rightarrow> nat \<Rightarrow> nat list \<Rightarrow> nat list" where
  "set_insert place x xs = (if x \<in> set xs then xs else place x xs)"

definition set_erase :: "nat \<Rightarrow> nat list \<Rightarrow> nat list" where
  "set_erase x xs = filter (\<lambda>y. y \<noteq> x) xs"

definition gc_node_at :: "gc_node list \<Rightarrow> nat \<Rightarrow> gc_node option" where
  "gc_node_at ns x = (if x < length ns then Some (ns ! x) else None)"

definition GraphCycles :: gc_rep where
  "GraphCycles = \<lparr>gc_nodes = [], free_nodes = []\<rparr>"

definition NewNode :: "gc_rep \<Rightarrow> (nat \<times> gc_rep) option" where
  "NewNode r =
     (if free_nodes r = []
      then if length (gc_nodes r) < 2 ^ 31
        then Some (length (gc_nodes r), r\<lparr>gc_nodes := gc_nodes r @
               [\<lparr>gn_rank = length (gc_nodes r), gn_visited = False, gn_data = 0, gn_in = [], gn_out = []\<rparr>]\<rparr>)
        else None
      else do {
        let x = last (free_nodes r);
        nx \<leftarrow> gc_node_at (gc_nodes r) x;
        Some (x, r\<lparr>gc_nodes := (gc_nodes r)[x := nx\<lparr>gn_data := 0\<rparr>], free_nodes := butlast (free_nodes r)\<rparr>)
      })"

text \<open>The loops over a node set that update the opposite sets.\<close>

fun erase_in :: "nat \<Rightarrow> nat list \<Rightarrow> gc_node list \<Rightarrow> gc_node list option" where
  "erase_in x [] ns = Some ns"
| "erase_in x (y # ys) ns = do {
     ny \<leftarrow> gc_node_at ns y;
     erase_in x ys (ns[y := ny\<lparr>gn_in := set_erase x (gn_in ny)\<rparr>])
   }"

fun erase_out :: "nat \<Rightarrow> nat list \<Rightarrow> gc_node list \<Rightarrow> gc_node list option" where
  "erase_out x [] ns = Some ns"
| "erase_out x (y # ys) ns = do {
     ny \<leftarrow> gc_node_at ns y;
     erase_out x ys (ns[y := ny\<lparr>gn_out := set_erase x (gn_out ny)\<rparr>])
   }"

definition gc_RemoveNode :: "nat \<Rightarrow> gc_rep \<Rightarrow> gc_rep option" where
  "gc_RemoveNode node r = do {
     x \<leftarrow> gc_node_at (gc_nodes r) node;
     ns \<leftarrow> erase_in node (gn_out x) (gc_nodes r);
     x \<leftarrow> gc_node_at ns node;
     ns \<leftarrow> erase_out node (gn_in x) ns;
     x \<leftarrow> gc_node_at ns node;
     Some (r\<lparr>gc_nodes := ns[node := x\<lparr>gn_in := [], gn_out := []\<rparr>], free_nodes := free_nodes r @ [node]\<rparr>)
   }"

definition GetNodeData :: "nat \<Rightarrow> gc_rep \<Rightarrow> nat option" where
  "GetNodeData node r = map_option gn_data (gc_node_at (gc_nodes r) node)"

definition SetNodeData :: "nat \<Rightarrow> nat \<Rightarrow> gc_rep \<Rightarrow> gc_rep option" where
  "SetNodeData node data r = map_option (\<lambda>x. r\<lparr>gc_nodes := (gc_nodes r)[node := x\<lparr>gn_data := data\<rparr>]\<rparr>) (gc_node_at (gc_nodes r) node)"

definition HasEdge :: "nat \<Rightarrow> nat \<Rightarrow> gc_rep \<Rightarrow> bool option" where
  "HasEdge x y r = map_option (\<lambda>nx. y \<in> set (gn_out nx)) (gc_node_at (gc_nodes r) x)"

definition gc_RemoveEdge :: "nat \<Rightarrow> nat \<Rightarrow> gc_rep \<Rightarrow> gc_rep option" where
  "gc_RemoveEdge x y r = do {
     nx \<leftarrow> gc_node_at (gc_nodes r) x;
     let ns = (gc_nodes r)[x := nx\<lparr>gn_out := set_erase y (gn_out nx)\<rparr>];
     ny \<leftarrow> gc_node_at ns y;
     Some (r\<lparr>gc_nodes := ns[y := ny\<lparr>gn_in := set_erase x (gn_in ny)\<rparr>]\<rparr>)
   }"

definition Successors :: "nat \<Rightarrow> gc_rep \<Rightarrow> nat list option" where
  "Successors node r = map_option gn_out (gc_node_at (gc_nodes r) node)"

section \<open>Depth-first search\<close>

text \<open>
  The loop over the neighbours of a node: \<open>Some None\<close> when one has the rank \<open>stop\<close>, otherwise the stack
  with the neighbours to visit pushed, its top first. \<^verbatim>\<open>ForwardDFS\<close> stops at the upper bound and stays below it;
  \<^verbatim>\<open>BackwardDFS\<close> never stops and stays above the lower bound.
\<close>

fun push_neighbours :: "(nat \<Rightarrow> bool) \<Rightarrow> (nat \<Rightarrow> bool) \<Rightarrow> gc_node list \<Rightarrow> nat list \<Rightarrow> nat list \<Rightarrow> nat list option option" where
  "push_neighbours stop within ns [] stack = Some (Some stack)"
| "push_neighbours stop within ns (w # ws) stack = do {
     nw \<leftarrow> gc_node_at ns w;
     if stop (gn_rank nw) then Some None
     else push_neighbours stop within ns ws (if \<not> gn_visited nw \<and> within (gn_rank nw) then w # stack else stack)
   }"

function dfs_walk ::
  "(gc_node \<Rightarrow> nat list) \<Rightarrow> (nat \<Rightarrow> bool) \<Rightarrow> (nat \<Rightarrow> bool) \<Rightarrow> gc_node list \<Rightarrow> nat list \<Rightarrow> nat list \<Rightarrow> (bool \<times> nat list \<times> gc_node list) option" where
  "dfs_walk nbrs stop within ns stack delta =
     (case stack of
        [] \<Rightarrow> Some (True, delta, ns)
      | n # stack \<Rightarrow>
          if length ns \<le> n then None
          else if gn_visited (ns ! n) then dfs_walk nbrs stop within ns stack delta
          else
            let ns = ns[n := (ns ! n)\<lparr>gn_visited := True\<rparr>];
                delta = delta @ [n]
            in (case push_neighbours stop within ns (nbrs (ns ! n)) stack of
                None \<Rightarrow> None
              | Some None \<Rightarrow> Some (False, delta, ns)
              | Some (Some stack) \<Rightarrow> dfs_walk nbrs stop within ns stack delta))"
  by pat_completeness auto

lemma unvisited_less:
  "n < length ns \<Longrightarrow> \<not> gn_visited (ns ! n) \<Longrightarrow>
    length (filter (\<lambda>x. \<not> gn_visited x) (ns[n := (ns ! n)\<lparr>gn_visited := True\<rparr>])) < length (filter (\<lambda>x. \<not> gn_visited x) ns)"
proof (induction ns arbitrary: n)
  case (Cons x ns)
  then show ?case by (cases n) auto
qed simp

termination dfs_walk
proof (relation "(\<lambda>(_, _, _, ns, _, _). length (filter (\<lambda>x. \<not> gn_visited x) ns)) <*mlex*>
    measure (\<lambda>(_, _, _, _, stack, _). length stack)", goal_cases)
  case 1
  show ?case by (rule wf_mlex) simp
qed (auto simp: mlex_iff intro: unvisited_less)

declare dfs_walk.simps [simp del]

definition ForwardDFS :: "nat \<Rightarrow> nat \<Rightarrow> gc_node list \<Rightarrow> (bool \<times> nat list \<times> gc_node list) option" where
  "ForwardDFS n upper_bound ns = dfs_walk gn_out (\<lambda>k. k = upper_bound) (\<lambda>k. k < upper_bound) ns [n] []"

definition BackwardDFS :: "nat \<Rightarrow> nat \<Rightarrow> gc_node list \<Rightarrow> (nat list \<times> gc_node list) option" where
  "BackwardDFS n lower_bound ns = map_option snd (dfs_walk gn_in (\<lambda>k. False) (\<lambda>k. lower_bound < k) ns [n] [])"

section \<open>Reordering\<close>

definition Sort :: "gc_node list \<Rightarrow> nat list \<Rightarrow> nat list" where
  "Sort ns delta = sort_key (\<lambda>a. gn_rank (ns ! a)) delta"

fun MoveToList :: "gc_node list \<Rightarrow> nat list \<Rightarrow> nat list \<Rightarrow> (nat list \<times> nat list \<times> gc_node list) option" where
  "MoveToList ns [] dst = Some ([], dst, ns)"
| "MoveToList ns (w # src) dst = do {
     nw \<leftarrow> gc_node_at ns w;
     (ranks, dst, ns) \<leftarrow> MoveToList (ns[w := nw\<lparr>gn_visited := False\<rparr>]) src (dst @ [w]);
     Some (gn_rank nw # ranks, dst, ns)
   }"

fun std_merge :: "nat list \<Rightarrow> nat list \<Rightarrow> nat list" where
  "std_merge [] ys = ys"
| "std_merge xs [] = xs"
| "std_merge (x # xs) (y # ys) = (if y < x then y # std_merge (x # xs) ys else x # std_merge xs (y # ys))"

fun assign_ranks :: "nat list \<Rightarrow> nat list \<Rightarrow> gc_node list \<Rightarrow> gc_node list option" where
  "assign_ranks [] ms ns = Some ns"
| "assign_ranks (w # ws) [] ns = None"
| "assign_ranks (w # ws) (m # ms) ns = do {
     nw \<leftarrow> gc_node_at ns w;
     assign_ranks ws ms (ns[w := nw\<lparr>gn_rank := m\<rparr>])
   }"

definition Reorder :: "nat list \<Rightarrow> nat list \<Rightarrow> gc_node list \<Rightarrow> gc_node list option" where
  "Reorder deltab deltaf ns =
     (if \<forall>a \<in> set (deltab @ deltaf). a < length ns then do {
        let deltab = Sort ns deltab;
        let deltaf = Sort ns deltaf;
        (ranksb, list, ns) \<leftarrow> MoveToList ns deltab [];
        (ranksf, list, ns) \<leftarrow> MoveToList ns deltaf list;
        assign_ranks list (std_merge ranksb ranksf) ns
      }
      else None)"

fun ClearVisitedBits :: "nat list \<Rightarrow> gc_node list \<Rightarrow> gc_node list option" where
  "ClearVisitedBits [] ns = Some ns"
| "ClearVisitedBits (w # ws) ns = do {
     nw \<leftarrow> gc_node_at ns w;
     ClearVisitedBits ws (ns[w := nw\<lparr>gn_visited := False\<rparr>])
   }"

section \<open>Edges\<close>

definition InsertEdge :: "placement \<Rightarrow> nat \<Rightarrow> nat \<Rightarrow> gc_rep \<Rightarrow> (bool \<times> gc_rep) option" where
  "InsertEdge place x y r =
     (if x = y then Some (False, r)
      else do {
        nx \<leftarrow> gc_node_at (gc_nodes r) x;
        if y \<in> set (gn_out nx) then Some (True, r)
        else do {
          let ns = (gc_nodes r)[x := nx\<lparr>gn_out := set_insert place y (gn_out nx)\<rparr>];
          ny \<leftarrow> gc_node_at ns y;
          let ns = ns[y := ny\<lparr>gn_in := set_insert place x (gn_in ny)\<rparr>];
          if gn_rank nx \<le> gn_rank ny then Some (True, r\<lparr>gc_nodes := ns\<rparr>)
          else do {
            (ok, deltaf, ns) \<leftarrow> ForwardDFS y (gn_rank nx) ns;
            if \<not> ok then do {
              nx \<leftarrow> gc_node_at ns x;
              let ns = ns[x := nx\<lparr>gn_out := set_erase y (gn_out nx)\<rparr>];
              ny \<leftarrow> gc_node_at ns y;
              let ns = ns[y := ny\<lparr>gn_in := set_erase x (gn_in ny)\<rparr>];
              ns \<leftarrow> ClearVisitedBits deltaf ns;
              Some (False, r\<lparr>gc_nodes := ns\<rparr>)
            }
            else do {
              (deltab, ns) \<leftarrow> BackwardDFS x (gn_rank ny) ns;
              ns \<leftarrow> Reorder deltab deltaf ns;
              Some (True, r\<lparr>gc_nodes := ns\<rparr>)
            }
          }
        }
      })"

definition IsReachableNonConst :: "nat \<Rightarrow> nat \<Rightarrow> gc_rep \<Rightarrow> (bool \<times> gc_rep) option" where
  "IsReachableNonConst x y r =
     (if x = y then Some (True, r)
      else do {
        nx \<leftarrow> gc_node_at (gc_nodes r) x;
        ny \<leftarrow> gc_node_at (gc_nodes r) y;
        if gn_rank nx \<ge> gn_rank ny then Some (False, r)
        else do {
          (ok, deltaf, ns) \<leftarrow> ForwardDFS x (gn_rank ny) (gc_nodes r);
          ns \<leftarrow> ClearVisitedBits deltaf ns;
          Some (\<not> ok, r\<lparr>gc_nodes := ns\<rparr>)
        }
      })"

fun insert_edges :: "placement \<Rightarrow> (nat \<times> nat) list \<Rightarrow> gc_rep \<Rightarrow> gc_rep option" where
  "insert_edges place [] r = Some r"
| "insert_edges place ((x, y) # es) r = do {
     (_, r) \<leftarrow> InsertEdge place x y r;
     insert_edges place es r
   }"

text \<open>The sets moved out of \<open>b\<close> are left empty.\<close>

definition ContractEdge :: "placement \<Rightarrow> nat \<Rightarrow> nat \<Rightarrow> gc_rep \<Rightarrow> (bool \<times> gc_rep) option" where
  "ContractEdge place a b r = do {
     has \<leftarrow> HasEdge a b r;
     if \<not> has then None
     else do {
       r \<leftarrow> gc_RemoveEdge a b r;
       (reachable, r) \<leftarrow> IsReachableNonConst a b r;
       if reachable then do {
         (_, r) \<leftarrow> InsertEdge place a b r;
         Some (False, r)
       }
       else do {
         nb \<leftarrow> gc_node_at (gc_nodes r) b;
         let ns = (gc_nodes r)[b := nb\<lparr>gn_in := [], gn_out := []\<rparr>];
         ns \<leftarrow> erase_in b (gn_out nb) ns;
         ns \<leftarrow> erase_out b (gn_in nb) ns;
         let r = r\<lparr>gc_nodes := ns, free_nodes := free_nodes r @ [b]\<rparr>;
         r \<leftarrow> insert_edges place (map (\<lambda>y. (a, y)) (gn_out nb)) r;
         r \<leftarrow> insert_edges place (map (\<lambda>y. (y, a)) (gn_in nb)) r;
         Some (True, r)
       }
     }
   }"

section \<open>Paths and checks\<close>

text \<open>
  The stack of \<^verbatim>\<open>FindPath\<close>, its top first, with \<open>-1\<close> for leaving a node; \<open>path\<close> is the caller's array.
\<close>

fun push_unseen :: "nat list \<Rightarrow> int list \<Rightarrow> nat list \<Rightarrow> int list \<times> nat list" where
  "push_unseen [] stack seen = (stack, seen)"
| "push_unseen (w # ws) stack seen =
     (if w \<in> set seen then push_unseen ws stack seen else push_unseen ws (int w # stack) (w # seen))"

definition out_ids :: "gc_node list \<Rightarrow> nat set" where
  "out_ids ns = (\<Union>x \<in> set ns. set (gn_out x))"

definition path_weight :: "int list \<Rightarrow> nat" where
  "path_weight stack = sum_list (map (\<lambda>n. if n < 0 then 1 else 2) stack)"

lemma finite_out_ids: "finite (out_ids ns)"
  by (simp add: out_ids_def)

lemma push_unseen_weight:
  "push_unseen ws stack seen = (stack', seen') \<Longrightarrow> set ws \<subseteq> U \<Longrightarrow> finite U \<Longrightarrow>
    path_weight stack' + 3 * card (U - set seen') \<le> path_weight stack + 3 * card (U - set seen)"
proof (induction ws arbitrary: stack seen)
  case (Cons w ws)
  show ?case
  proof (cases "w \<in> set seen")
    case False
    have "U - set (w # seen) = (U - set seen) - {w}" by auto
    moreover have "0 < card (U - set seen)" using False Cons.prems by (auto simp: card_gt_0_iff)
    ultimately have "card (U - set seen) = Suc (card (U - set (w # seen)))" using False Cons.prems by (simp add: card_Diff_singleton)
    moreover have "path_weight (int w # stack) = 2 + path_weight stack" by (simp add: path_weight_def)
    moreover have "path_weight stack' + 3 * card (U - set seen') \<le> path_weight (int w # stack) + 3 * card (U - set (w # seen))"
      by (rule Cons.IH) (use False Cons.prems in auto)
    ultimately show ?thesis by linarith
  qed (use Cons in auto)
qed simp

function find_loop :: "gc_node list \<Rightarrow> nat \<Rightarrow> int \<Rightarrow> int list \<Rightarrow> nat list \<Rightarrow> int \<Rightarrow> nat list \<Rightarrow> (int \<times> nat list) option" where
  "find_loop ns y max_path_len stack seen path_len path =
     (case stack of
        [] \<Rightarrow> Some (0, path)
      | n # stack \<Rightarrow>
          if n < 0 then find_loop ns y max_path_len stack seen (path_len - 1) path
          else if path_len < max_path_len \<and> (path_len < 0 \<or> int (length path) \<le> path_len) then None
          else
            let path = (if path_len < max_path_len then path[nat path_len := nat n] else path);
                path_len = path_len + 1;
                stack = -1 # stack
            in if nat n = y then Some (path_len, path)
               else if length ns \<le> nat n then None
               else
                 let (stack, seen) = push_unseen (gn_out (ns ! nat n)) stack seen
                 in find_loop ns y max_path_len stack seen path_len path)"
  by pat_completeness auto
termination find_loop
proof (relation "measure (\<lambda>(ns, _, _, stack, seen, _, _). path_weight stack + 3 * card (out_ids ns - set seen))", goal_cases)
  case (3 ns y max_path_len stack seen path_len path n stack' path' path_len' stack1 p stack2 seen2)
  have n: "nat n < length ns" using 3 by simp
  have sub: "set (gn_out (ns ! nat n)) \<subseteq> out_ids ns" unfolding out_ids_def using nth_mem [OF n] by blast
  have "push_unseen (gn_out (ns ! nat n)) stack1 seen = (stack2, seen2)" using 3 by simp
  from push_unseen_weight [OF this sub finite_out_ids]
  have "path_weight stack2 + 3 * card (out_ids ns - set seen2) \<le> path_weight stack1 + 3 * card (out_ids ns - set seen)" .
  then show ?case using 3 by (simp add: path_weight_def)
qed (auto simp: path_weight_def)

declare find_loop.simps [simp del]

definition FindPath :: "nat \<Rightarrow> nat \<Rightarrow> int \<Rightarrow> nat list \<Rightarrow> gc_rep \<Rightarrow> (int \<times> nat list) option" where
  "FindPath x y max_path_len path r = find_loop (gc_nodes r) y max_path_len [int x] [] 0 path"

definition IsReachable :: "nat \<Rightarrow> nat \<Rightarrow> gc_rep \<Rightarrow> bool option" where
  "IsReachable x y r = map_option (\<lambda>(n, _). n > 0) (FindPath x y 0 [] r)"

text \<open>\<^verbatim>\<open>CheckInvariants\<close> returns true or dies.\<close>

fun check_edges :: "gc_node list \<Rightarrow> gc_node \<Rightarrow> nat list \<Rightarrow> bool option" where
  "check_edges ns nx [] = Some True"
| "check_edges ns nx (y # ys) = do {
     ny \<leftarrow> gc_node_at ns y;
     if gn_rank nx \<ge> gn_rank ny then None else check_edges ns nx ys
   }"

fun check_nodes :: "gc_node list \<Rightarrow> gc_node list \<Rightarrow> nat list \<Rightarrow> bool option" where
  "check_nodes ns [] ranks = Some True"
| "check_nodes ns (nx # xs) ranks =
     (if gn_visited nx then None
      else if gn_rank nx \<in> set ranks then None
      else do {
        _ \<leftarrow> check_edges ns nx (gn_out nx);
        check_nodes ns xs (gn_rank nx # ranks)
      })"

definition CheckInvariants :: "gc_rep \<Rightarrow> bool option" where
  "CheckInvariants r = check_nodes (gc_nodes r) (gc_nodes r) []"

section \<open>The invariant\<close>

definition edges_of :: "gc_node list \<Rightarrow> (nat \<times> nat) set" where
  "edges_of ns = {(i, j). i < length ns \<and> j \<in> set (gn_out (ns ! i))}"

abbreviation gc_edges :: "gc_rep \<Rightarrow> (nat \<times> nat) set" where
  "gc_edges r \<equiv> edges_of (gc_nodes r)"

abbreviation rank_of :: "gc_node list \<Rightarrow> nat \<Rightarrow> nat" where
  "rank_of ns i \<equiv> gn_rank (ns ! i)"

text \<open>The in and out sets are sets of nodes that mirror each other.\<close>

definition mirrored :: "gc_node list \<Rightarrow> bool" where
  "mirrored ns \<longleftrightarrow> (\<forall>i < length ns. distinct (gn_out (ns ! i)) \<and> distinct (gn_in (ns ! i)) \<and>
     set (gn_out (ns ! i)) \<subseteq> {..<length ns} \<and> set (gn_in (ns ! i)) \<subseteq> {..<length ns} \<and>
     (\<forall>j < length ns. j \<in> set (gn_out (ns ! i)) \<longleftrightarrow> i \<in> set (gn_in (ns ! j))))"

text \<open>The ranks are a permutation of the ids.\<close>

definition ranked :: "gc_node list \<Rightarrow> bool" where
  "ranked ns \<longleftrightarrow> distinct (map gn_rank ns) \<and> set (map gn_rank ns) = {..<length ns}"

definition topological :: "gc_node list \<Rightarrow> bool" where
  "topological ns \<longleftrightarrow> (\<forall>(u, v) \<in> edges_of ns. rank_of ns u < rank_of ns v)"

definition unmarked :: "gc_node list \<Rightarrow> bool" where
  "unmarked ns \<longleftrightarrow> (\<forall>i < length ns. \<not> gn_visited (ns ! i))"

definition gc_inv :: "gc_rep \<Rightarrow> bool" where
  "gc_inv r \<longleftrightarrow> mirrored (gc_nodes r) \<and> ranked (gc_nodes r) \<and> topological (gc_nodes r) \<and> unmarked (gc_nodes r) \<and>
     distinct (free_nodes r) \<and> set (free_nodes r) \<subseteq> {..<length (gc_nodes r)} \<and>
     (\<forall>i \<in> set (free_nodes r). gn_in (gc_nodes r ! i) = [] \<and> gn_out (gc_nodes r ! i) = [])"

definition live :: "gc_rep \<Rightarrow> nat set" where
  "live r = {..<length (gc_nodes r)} - set (free_nodes r)"

definition good_place :: "placement \<Rightarrow> bool" where
  "good_place place \<longleftrightarrow> (\<forall>x xs. mset (place x xs) = add_mset x (mset xs))"

lemma good_placeD:
  assumes "good_place place"
  shows "set (place x xs) = insert x (set xs)" "distinct (place x xs) \<longleftrightarrow> x \<notin> set xs \<and> distinct xs"
proof -
  have m: "mset (place x xs) = mset (x # xs)" using assms by (simp add: good_place_def)
  show "set (place x xs) = insert x (set xs)" using mset_eq_setD [OF m] by simp
  show "distinct (place x xs) \<longleftrightarrow> x \<notin> set xs \<and> distinct xs" using mset_eq_imp_distinct_iff [OF m] by simp
qed

lemma node_sets [simp]:
  "set (set_erase x xs) = set xs - {x}" "distinct xs \<Longrightarrow> distinct (set_erase x xs)"
  "good_place place \<Longrightarrow> set (set_insert place x xs) = insert x (set xs)"
  "good_place place \<Longrightarrow> distinct xs \<Longrightarrow> distinct (set_insert place x xs)"
  by (auto simp: set_erase_def set_insert_def good_placeD)

lemma gc_node_at_Some [simp]: "x < length ns \<Longrightarrow> gc_node_at ns x = Some (ns ! x)"
  by (simp add: gc_node_at_def)

lemma mirroredD:
  assumes "mirrored ns" "i < length ns"
  shows "distinct (gn_out (ns ! i))" "distinct (gn_in (ns ! i))" "set (gn_out (ns ! i)) \<subseteq> {..<length ns}"
    "set (gn_in (ns ! i)) \<subseteq> {..<length ns}" "j < length ns \<Longrightarrow> j \<in> set (gn_out (ns ! i)) \<longleftrightarrow> i \<in> set (gn_in (ns ! j))"
  using assms by (simp_all add: mirrored_def)

lemma mirrored_less:
  "mirrored ns \<Longrightarrow> i < length ns \<Longrightarrow> j \<in> set (gn_out (ns ! i)) \<Longrightarrow> j < length ns"
  "mirrored ns \<Longrightarrow> i < length ns \<Longrightarrow> j \<in> set (gn_in (ns ! i)) \<Longrightarrow> j < length ns"
  using mirroredD(3,4) by blast+

lemma mirroredI:
  assumes "\<And>i. i < length ns \<Longrightarrow> distinct (gn_out (ns ! i))" "\<And>i. i < length ns \<Longrightarrow> distinct (gn_in (ns ! i))"
    "\<And>i j. i < length ns \<Longrightarrow> j \<in> set (gn_out (ns ! i)) \<Longrightarrow> j < length ns" "\<And>i j. i < length ns \<Longrightarrow> j \<in> set (gn_in (ns ! i)) \<Longrightarrow> j < length ns"
    "\<And>i j. i < length ns \<Longrightarrow> j < length ns \<Longrightarrow> j \<in> set (gn_out (ns ! i)) \<longleftrightarrow> i \<in> set (gn_in (ns ! j))"
  shows "mirrored ns"
  unfolding mirrored_def using assms by blast

lemma edges_of_mem: "mirrored ns \<Longrightarrow> (i, j) \<in> edges_of ns \<longleftrightarrow> i < length ns \<and> j < length ns \<and> j \<in> set (gn_out (ns ! i))"
  using mirroredD(3) by (fastforce simp: edges_of_def)

lemma edges_of_in: "mirrored ns \<Longrightarrow> (i, j) \<in> edges_of ns \<longleftrightarrow> i < length ns \<and> j < length ns \<and> i \<in> set (gn_in (ns ! j))"
  using mirroredD(5) by (auto simp: edges_of_mem)

lemma ranked_inj: "ranked ns \<Longrightarrow> i < length ns \<Longrightarrow> j < length ns \<Longrightarrow> rank_of ns i = rank_of ns j \<longleftrightarrow> i = j"
  using nth_eq_iff_index_eq [of "map gn_rank ns" i j] by (simp add: ranked_def)

lemma topological_acyclic:
  assumes "\<And>u v. (u, v) \<in> E \<Longrightarrow> (f u :: nat) < f v"
  shows "acyclic E"
proof -
  have "(u, v) \<in> E\<^sup>+ \<Longrightarrow> f u < f v" for u v
    by (induction rule: trancl_induct) (use assms less_trans in blast)+
  then show ?thesis by (auto simp: acyclic_def)
qed

lemma gc_inv_acyclic: "gc_inv r \<Longrightarrow> acyclic (gc_edges r)"
  by (rule topological_acyclic [where f = "rank_of (gc_nodes r)"]) (auto simp: gc_inv_def topological_def)

section \<open>What a search visits\<close>

text \<open>The nodes \<open>ns'\<close> are \<open>ns\<close> with the nodes of \<open>D\<close> marked, too.\<close>

definition visits :: "nat set \<Rightarrow> gc_node list \<Rightarrow> gc_node list \<Rightarrow> bool" where
  "visits D ns ns' \<longleftrightarrow> length ns' = length ns \<and> (\<forall>i < length ns. ns' ! i = (ns ! i)\<lparr>gn_visited := gn_visited (ns ! i) \<or> i \<in> D\<rparr>)"

definition inner_steps :: "(gc_node \<Rightarrow> nat list) \<Rightarrow> (nat \<Rightarrow> bool) \<Rightarrow> gc_node list \<Rightarrow> (nat \<times> nat) set" where
  "inner_steps nbrs within ns = {(u, v). u < length ns \<and> v \<in> set (nbrs (ns ! u)) \<and> within (rank_of ns v) \<and> \<not> gn_visited (ns ! v)}"

lemma push_neighbours_eq:
  assumes "set ws \<subseteq> {..<length ns}"
  shows "push_neighbours stop within ns ws stack = Some (if \<exists>w \<in> set ws. stop (rank_of ns w) then None
    else Some (rev (filter (\<lambda>w. \<not> gn_visited (ns ! w) \<and> within (rank_of ns w)) ws) @ stack))"
  using assms by (induction ws arbitrary: stack) auto

lemma visits_step:
  assumes "visits D ns0 ns" "n < length ns0"
  shows "visits (insert n D) ns0 (ns[n := (ns ! n)\<lparr>gn_visited := True\<rparr>])"
  using assms by (auto simp: visits_def nth_list_update)

definition searching :: "(gc_node \<Rightarrow> nat list) \<Rightarrow> (nat \<Rightarrow> bool) \<Rightarrow> (nat \<Rightarrow> bool) \<Rightarrow> gc_node list \<Rightarrow> nat \<Rightarrow> gc_node list \<Rightarrow> nat list \<Rightarrow> nat list \<Rightarrow> bool" where
  "searching nbrs stop within ns0 s ns stack delta \<longleftrightarrow>
     visits (set delta) ns0 ns \<and> distinct delta \<and> s \<in> set delta \<union> set stack \<and> \<not> gn_visited (ns0 ! s) \<and>
     set delta \<union> set stack \<subseteq> (inner_steps nbrs within ns0)\<^sup>* `` {s} \<inter> {..<length ns0} \<and>
     (\<forall>u \<in> set delta. \<forall>v \<in> set (nbrs (ns0 ! u)). \<not> stop (rank_of ns0 v) \<and> (within (rank_of ns0 v) \<longrightarrow> \<not> gn_visited (ns0 ! v) \<longrightarrow> v \<in> set delta \<union> set stack))"

lemma searching_unmarked:
  assumes "searching nbrs stop within ns0 s ns stack delta" "n \<in> set delta \<union> set stack"
  shows "\<not> gn_visited (ns0 ! n)"
proof -
  have "(s, n) \<in> (inner_steps nbrs within ns0)\<^sup>*" "\<not> gn_visited (ns0 ! s)" using assms by (auto simp: searching_def)
  then show ?thesis by (cases rule: rtrancl.cases) (auto simp: inner_steps_def)
qed

lemma searching_visit:
  assumes S: "searching nbrs stop within ns0 s ns (n # stack) delta" and new: "\<not> gn_visited (ns ! n)"
    and closed: "\<And>i. i < length ns0 \<Longrightarrow> set (nbrs (ns0 ! i)) \<subseteq> {..<length ns0}"
    and stop: "\<not> (\<exists>w \<in> set (nbrs (ns0 ! n)). stop (rank_of ns0 w))"
    and stack': "stack' = rev (filter (\<lambda>w. \<not> gn_visited (ns' ! w) \<and> within (rank_of ns0 w)) (nbrs (ns0 ! n))) @ stack"
    and ns': "ns' = ns[n := (ns ! n)\<lparr>gn_visited := True\<rparr>]"
  shows "searching nbrs stop within ns0 s ns' stack' (delta @ [n])"
proof -
  let ?R = "(inner_steps nbrs within ns0)\<^sup>*"
  have n: "n < length ns0" "(s, n) \<in> ?R" and V: "visits (set delta) ns0 ns" using S by (auto simp: searching_def)
  have nd: "n \<notin> set delta" using V n new by (auto simp: visits_def)
  have V': "visits (set (delta @ [n])) ns0 ns'" using visits_step [OF V n(1)] by (simp add: ns')
  have vis: "gn_visited (ns' ! w) \<longleftrightarrow> gn_visited (ns0 ! w) \<or> w \<in> set (delta @ [n])" if "w < length ns0" for w using V' that by (simp add: visits_def)
  have in_stack: "v \<in> set stack' \<longleftrightarrow> v \<in> set stack \<or> v \<in> set (nbrs (ns0 ! n)) \<and> v \<notin> set (delta @ [n]) \<and> within (rank_of ns0 v) \<and> \<not> gn_visited (ns0 ! v)" for v
    unfolding stack' using vis closed [OF n(1)] by auto
  have reach: "(s, v) \<in> ?R \<and> v < length ns0" if "v \<in> set (nbrs (ns0 ! n))" "within (rank_of ns0 v)" "\<not> gn_visited (ns0 ! v)" for v
  proof -
    have "(n, v) \<in> inner_steps nbrs within ns0" using that n(1) by (simp add: inner_steps_def)
    then show ?thesis using n(2) that(1) closed [OF n(1)] by auto
  qed
  have all: "set (delta @ [n]) \<union> set stack' \<subseteq> ?R `` {s} \<inter> {..<length ns0}"
    using S reach in_stack n by (auto simp: searching_def)
  moreover have "s \<in> set (delta @ [n]) \<union> set stack'" using S in_stack by (auto simp: searching_def)
  moreover have "\<not> stop (rank_of ns0 v) \<and> (within (rank_of ns0 v) \<longrightarrow> \<not> gn_visited (ns0 ! v) \<longrightarrow> v \<in> set (delta @ [n]) \<union> set stack')"
    if "u \<in> set (delta @ [n])" "v \<in> set (nbrs (ns0 ! u))" for u v
  proof (cases "u = n")
    case True
    then show ?thesis using that stop in_stack by auto
  next
    case False
    then have "\<not> stop (rank_of ns0 v) \<and> (within (rank_of ns0 v) \<longrightarrow> \<not> gn_visited (ns0 ! v) \<longrightarrow> v \<in> set delta \<union> set (n # stack))"
      using S that by (auto simp: searching_def)
    then show ?thesis using in_stack by auto
  qed
  ultimately show ?thesis using V' S nd by (simp add: searching_def)
qed

definition walked :: "(gc_node \<Rightarrow> nat list) \<Rightarrow> (nat \<Rightarrow> bool) \<Rightarrow> (nat \<Rightarrow> bool) \<Rightarrow> gc_node list \<Rightarrow> nat \<Rightarrow> bool \<Rightarrow> nat list \<Rightarrow> gc_node list \<Rightarrow> bool" where
  "walked nbrs stop within ns0 s ok delta' ns' \<longleftrightarrow> visits (set delta') ns0 ns' \<and> distinct delta' \<and> set delta' \<subseteq> (inner_steps nbrs within ns0)\<^sup>* `` {s} \<inter> {..<length ns0} \<and>
    (if ok then set delta' = (inner_steps nbrs within ns0)\<^sup>* `` {s} \<and> (\<forall>u \<in> set delta'. \<forall>v \<in> set (nbrs (ns0 ! u)). \<not> stop (rank_of ns0 v))
     else \<exists>u \<in> (inner_steps nbrs within ns0)\<^sup>* `` {s} \<inter> {..<length ns0}. \<exists>v \<in> set (nbrs (ns0 ! u)). stop (rank_of ns0 v))"

lemma dfs_walk_correct:
  assumes "searching nbrs stop within ns0 s ns stack delta"
    and "\<And>i. i < length ns0 \<Longrightarrow> set (nbrs (ns0 ! i)) \<subseteq> {..<length ns0}"
    and "\<And>x b. nbrs (x\<lparr>gn_visited := b\<rparr>) = nbrs x"
  shows "\<exists>ok delta' ns'. dfs_walk nbrs stop within ns stack delta = Some (ok, delta', ns') \<and>
    walked nbrs stop within ns0 s ok delta' ns'"
  using assms
proof (induction nbrs stop within ns stack delta rule: dfs_walk.induct)
  case (1 nbrs stop within ns stack delta)
  let ?R = "(inner_steps nbrs within ns0)\<^sup>*"
  note S0 = 1(3) and closed = 1(4) and blind = 1(5)
  show ?case
  proof (cases stack)
    case Nil
    have "set delta = ?R `` {s}"
    proof
      show "set delta \<subseteq> ?R `` {s}" using S0 by (auto simp: searching_def)
      have "v \<in> set delta" if "(s, v) \<in> ?R" for v
        using that by induction (use S0 Nil in \<open>auto simp: searching_def inner_steps_def\<close>)
      then show "?R `` {s} \<subseteq> set delta" by blast
    qed
    then have "walked nbrs stop within ns0 s True delta ns" using S0 Nil by (auto simp: searching_def walked_def)
    moreover have "dfs_walk nbrs stop within ns stack delta = Some (True, delta, ns)" using Nil by (simp add: dfs_walk.simps)
    ultimately show ?thesis by blast
  next
    case (Cons n stack1)
    have S: "searching nbrs stop within ns0 s ns (n # stack1) delta" using S0 Cons by simp
    have n: "n < length ns0" "(s, n) \<in> ?R" and V: "visits (set delta) ns0 ns" using S by (auto simp: searching_def)
    have len: "length ns = length ns0" using V by (simp add: visits_def)
    show ?thesis
    proof (cases "gn_visited (ns ! n)")
      case True
      then have "n \<in> set delta" using V n searching_unmarked [OF S, of n] by (auto simp: visits_def)
      then have "searching nbrs stop within ns0 s ns stack1 delta" using S by (auto simp: searching_def)
      from 1(1) [OF Cons _ True this closed blind] show ?thesis using True n len Cons by (simp add: dfs_walk.simps [of _ _ _ _ "n # _"])
    next
      case False
      let ?ns = "ns[n := (ns ! n)\<lparr>gn_visited := True\<rparr>]"
      have V': "visits (set (delta @ [n])) ns0 ?ns" using visits_step [OF V n(1)] by simp
      have "?ns ! n = (ns0 ! n)\<lparr>gn_visited := gn_visited (ns0 ! n) \<or> n \<in> set (delta @ [n])\<rparr>" using V' n(1) unfolding visits_def by blast
      then have same: "nbrs (?ns ! n) = nbrs (ns0 ! n)" by (simp only: blind)
      have rank: "rank_of ?ns w = rank_of ns0 w" if "w < length ns0" for w using V' that by (simp add: visits_def)
      have sub: "set (nbrs (?ns ! n)) \<subseteq> {..<length ?ns}" using closed [OF n(1)] by (simp only: same) (simp add: len)
      have ranks: "w \<in> set (nbrs (ns0 ! n)) \<Longrightarrow> rank_of ?ns w = rank_of ns0 w" for w using rank closed [OF n(1)] by auto
      note P = push_neighbours_eq [OF sub, of stop within stack1, unfolded same]
      show ?thesis
      proof (cases "\<exists>w \<in> set (nbrs (ns0 ! n)). stop (rank_of ns0 w)")
        case True
        then have "dfs_walk nbrs stop within ns stack delta = Some (False, delta @ [n], ?ns)"
          using P ranks same False n len Cons by (auto simp: dfs_walk.simps [of _ _ _ _ "n # _"])
        moreover have "walked nbrs stop within ns0 s False (delta @ [n]) ?ns"
        proof -
          have nd: "n \<notin> set delta" using V n False by (auto simp: visits_def)
          show ?thesis using V' S True n nd by (auto simp: searching_def walked_def)
        qed
        ultimately show ?thesis by blast
      next
        case nostop: False
        let ?st = "rev (filter (\<lambda>w. \<not> gn_visited (?ns ! w) \<and> within (rank_of ns0 w)) (nbrs (ns0 ! n))) @ stack1"
        have filt: "filter (\<lambda>w. \<not> gn_visited (?ns ! w) \<and> within (rank_of ?ns w)) (nbrs (ns0 ! n)) =
            filter (\<lambda>w. \<not> gn_visited (?ns ! w) \<and> within (rank_of ns0 w)) (nbrs (ns0 ! n))"
          using ranks by (intro filter_cong) auto
        have push: "push_neighbours stop within ?ns (nbrs (?ns ! n)) stack1 = Some (Some ?st)"
          using P ranks nostop same filt by auto
        have S': "searching nbrs stop within ns0 s ?ns ?st (delta @ [n])"
          by (rule searching_visit [OF S False closed nostop refl refl])
        have walk: "dfs_walk nbrs stop within ns stack delta = dfs_walk nbrs stop within ?ns ?st (delta @ [n])"
          using push False n len Cons by (simp add: dfs_walk.simps [of _ _ _ _ "n # _"] Let_def)
        have c: "\<And>i. i < length ns0 \<Longrightarrow> set (nbrs (ns0 ! i)) \<subseteq> {..<length ns0}" by (rule closed)
        have b: "\<And>x b. nbrs (x\<lparr>gn_visited := b\<rparr>) = nbrs x" by (rule blind)
        have l: "\<not> length ns \<le> n" using n len by simp
        note IH = 1(2) [OF Cons l False refl refl push refl S']
        show ?thesis unfolding walk by (rule IH, rule c, assumption, rule b)
      qed
    qed
  qed
qed

section \<open>What reordering does to the ranks\<close>

definition cleared :: "nat set \<Rightarrow> gc_node list \<Rightarrow> gc_node list \<Rightarrow> bool" where
  "cleared D ns ns' \<longleftrightarrow> length ns' = length ns \<and>
     (\<forall>i < length ns. ns' ! i = (if i \<in> D then (ns ! i)\<lparr>gn_visited := False\<rparr> else ns ! i))"

lemma cleared_step:
  assumes "cleared D (ns[w := (ns ! w)\<lparr>gn_visited := False\<rparr>]) ns'" "w < length ns"
  shows "cleared (insert w D) ns ns'"
  using assms by (auto simp: cleared_def nth_list_update)

lemma ClearVisitedBits_eq:
  "set ws \<subseteq> {..<length ns} \<Longrightarrow> \<exists>ns'. ClearVisitedBits ws ns = Some ns' \<and> cleared (set ws) ns ns'"
proof (induction ws arbitrary: ns)
  case (Cons w ws)
  then have w: "w < length ns" "set ws \<subseteq> {..<length (ns[w := (ns ! w)\<lparr>gn_visited := False\<rparr>])}" by auto
  from Cons.IH [OF w(2)] show ?case using w(1) cleared_step by auto
qed (simp add: cleared_def)

lemma MoveToList_eq:
  "set src \<subseteq> {..<length ns} \<Longrightarrow> \<exists>ns'. MoveToList ns src dst = Some (map (rank_of ns) src, dst @ src, ns') \<and> cleared (set src) ns ns'"
proof (induction src arbitrary: ns dst)
  case (Cons w src)
  let ?ns = "ns[w := (ns ! w)\<lparr>gn_visited := False\<rparr>]"
  have w: "w < length ns" "set src \<subseteq> {..<length ?ns}" using Cons.prems by auto
  obtain ns' where "MoveToList ?ns src (dst @ [w]) = Some (map (rank_of ?ns) src, (dst @ [w]) @ src, ns')" "cleared (set src) ?ns ns'"
    using Cons.IH [OF w(2)] by blast
  moreover have "rank_of ?ns i = rank_of ns i" for i using w(1) by (cases "i = w") auto
  ultimately show ?case using w(1) cleared_step by auto
qed (simp add: cleared_def)

lemma mset_std_merge: "mset (std_merge xs ys) = mset xs + mset ys"
  by (induction xs ys rule: std_merge.induct) auto

lemma sorted_std_merge: "sorted xs \<Longrightarrow> sorted ys \<Longrightarrow> sorted (std_merge xs ys)"
proof (induction xs ys rule: std_merge.induct)
  case (3 x xs y ys)
  have "set (std_merge zs us) = set zs \<union> set us" for zs us using mset_std_merge [of zs us] by (metis set_mset_mset set_mset_union)
  then show ?case using 3 by auto
qed auto

lemma assign_ranks_eq:
  assumes "length ms = length ws" "distinct ws" "set ws \<subseteq> {..<length ns}"
  shows "\<exists>ns'. assign_ranks ws ms ns = Some ns' \<and> length ns' = length ns \<and>
    (\<forall>k < length ws. ns' ! (ws ! k) = (ns ! (ws ! k))\<lparr>gn_rank := ms ! k\<rparr>) \<and> (\<forall>i < length ns. i \<notin> set ws \<longrightarrow> ns' ! i = ns ! i)"
  using assms
proof (induction ws ms ns rule: assign_ranks.induct)
  case (3 w ws m ms ns)
  let ?ns = "ns[w := (ns ! w)\<lparr>gn_rank := m\<rparr>]"
  have w: "w < length ns" "gc_node_at ns w = Some (ns ! w)" using 3 by auto
  obtain ns' where I: "assign_ranks ws ms ?ns = Some ns'" "length ns' = length ns"
    "\<forall>k < length ws. ns' ! (ws ! k) = (?ns ! (ws ! k))\<lparr>gn_rank := ms ! k\<rparr>" "\<forall>i < length ns. i \<notin> set ws \<longrightarrow> ns' ! i = ?ns ! i"
    using 3(1) [OF w(2)] 3(2-4) by auto
  have "ns' ! ((w # ws) ! k) = (ns ! ((w # ws) ! k))\<lparr>gn_rank := (m # ms) ! k\<rparr>" if "k < length (w # ws)" for k
  proof (cases k)
    case 0
    then show ?thesis using I(4) w 3(3) by simp
  next
    case (Suc j)
    moreover have "ws ! j \<noteq> w" using 3(3) that Suc by auto
    ultimately show ?thesis using I(3) that by simp
  qed
  then show ?case using I w by auto
qed auto

text \<open>Order statistics of a sorted list without repetitions.\<close>

lemma sorted_nth_le:
  assumes "sorted ms" "distinct ms" "i < length ms" "i < card {m \<in> set ms. m \<le> v}"
  shows "ms ! i \<le> (v :: nat)"
proof (rule ccontr)
  assume v: "\<not> ms ! i \<le> v"
  have "{m \<in> set ms. m \<le> v} \<subseteq> (!) ms ` {..<i}"
  proof
    fix m assume "m \<in> {m \<in> set ms. m \<le> v}"
    then obtain j where j: "j < length ms" "m = ms ! j" "ms ! j \<le> v" by (auto simp: in_set_conv_nth)
    have "j < i" using sorted_nth_mono [OF assms(1), of i j] j v by (meson leD leI le_less_trans)
    then show "m \<in> (!) ms ` {..<i}" using j by auto
  qed
  from card_mono [OF _ this] have "card {m \<in> set ms. m \<le> v} \<le> card ((!) ms ` {..<i})" by simp
  also have "\<dots> \<le> i" using card_image_le [of "{..<i}" "(!) ms"] by simp
  finally show False using assms(4) by simp
qed

lemma sorted_nth_ge:
  assumes "sorted ms" "distinct ms" "i < length ms" "length ms \<le> i + card {m \<in> set ms. v \<le> m}"
  shows "(v :: nat) \<le> ms ! i"
proof (rule ccontr)
  assume v: "\<not> v \<le> ms ! i"
  have "{m \<in> set ms. v \<le> m} \<subseteq> (!) ms ` {Suc i..<length ms}"
  proof
    fix m assume "m \<in> {m \<in> set ms. v \<le> m}"
    then obtain j where j: "j < length ms" "m = ms ! j" "v \<le> ms ! j" by (auto simp: in_set_conv_nth)
    have "i < j" using sorted_nth_mono [OF assms(1), of j i] j v assms(3) by (meson leD leI le_trans)
    then show "m \<in> (!) ms ` {Suc i..<length ms}" using j by auto
  qed
  from card_mono [OF _ this] have "card {m \<in> set ms. v \<le> m} \<le> card ((!) ms ` {Suc i..<length ms})" by simp
  also have "\<dots> \<le> length ms - Suc i" using card_image_le [of "{Suc i..<length ms}" "(!) ms"] by simp
  finally show False using assms(3,4) by linarith
qed

lemma card_sorted_le:
  assumes "sorted xs" "distinct xs" "i < length xs" "set xs \<subseteq> set ms"
  shows "i < card {m \<in> set ms. m \<le> (xs ! i :: nat)}" "length xs \<le> i + card {m \<in> set ms. xs ! i \<le> m}"
proof -
  have inj: "inj_on ((!) xs) {..<length xs}" using assms(2) by (auto simp: inj_on_def nth_eq_iff_index_eq)
  have "(!) xs ` {..i} \<subseteq> {m \<in> set ms. m \<le> xs ! i}" using assms by (auto intro: sorted_nth_mono)
  moreover have "card ((!) xs ` {..i}) = Suc i" using card_image [OF inj_on_subset [OF inj, of "{..i}"]] assms(3) by fastforce
  ultimately show "i < card {m \<in> set ms. m \<le> xs ! i}" using card_mono [of "{m \<in> set ms. m \<le> xs ! i}" "(!) xs ` {..i}"] by simp
  have "(!) xs ` {i..<length xs} \<subseteq> {m \<in> set ms. xs ! i \<le> m}" using assms by (auto intro: sorted_nth_mono)
  moreover have "card ((!) xs ` {i..<length xs}) = length xs - i" using card_image [OF inj_on_subset [OF inj, of "{i..<length xs}"]] by fastforce
  ultimately show "length xs \<le> i + card {m \<in> set ms. xs ! i \<le> m}"
    using card_mono [of "{m \<in> set ms. xs ! i \<le> m}" "(!) xs ` {i..<length xs}"] by simp
qed

text \<open>The ranks \<open>g\<close> after a reordering of \<open>B\<close> before \<open>F\<close>, from the ranks \<open>f\<close> before.\<close>

definition reranked :: "nat set \<Rightarrow> nat set \<Rightarrow> (nat \<Rightarrow> nat) \<Rightarrow> (nat \<Rightarrow> nat) \<Rightarrow> bool" where
  "reranked B F f g \<longleftrightarrow> g ` (B \<union> F) = f ` (B \<union> F) \<and> inj_on g (B \<union> F) \<and>
     (\<forall>u \<in> B. \<forall>v \<in> B. f u < f v \<longrightarrow> g u < g v) \<and> (\<forall>u \<in> F. \<forall>v \<in> F. f u < f v \<longrightarrow> g u < g v) \<and>
     (\<forall>u \<in> B. \<forall>v \<in> F. g u < g v) \<and> (\<forall>u \<in> B. g u \<le> f u) \<and> (\<forall>v \<in> F. f v \<le> g v)"

lemma reranked_merge:
  assumes lists: "sorted (map f bs)" "sorted (map f fs)" "inj_on f (set bs \<union> set fs)" "distinct (bs @ fs)"
    and ms: "ms = std_merge (map f bs) (map f fs)" and g: "\<And>k. k < length (bs @ fs) \<Longrightarrow> g ((bs @ fs) ! k) = ms ! k"
  shows "reranked (set bs) (set fs) f g"
proof -
  let ?l = "bs @ fs"
  have m: "mset ms = mset (map f ?l)" by (simp add: ms mset_std_merge)
  have len: "length ms = length ?l" using mset_eq_length [OF m] by simp
  have sorted: "sorted ms" unfolding ms by (rule sorted_std_merge) (use lists in simp_all)
  have set: "set ms = f ` set ?l" using mset_eq_setD [OF m] by (simp add: image_Un)
  have "distinct (map f ?l)" unfolding distinct_map using lists(3,4) by (simp only: set_append)
  then have dist: "distinct ms" using mset_eq_imp_distinct_iff [OF m] by blast
  have less: "ms ! i < ms ! j" if "i < j" "j < length ms" for i j
    using sorted_nth_mono [OF sorted, of i j] that nth_eq_iff_index_eq [OF dist, of i j] by simp
  have gm: "map g ?l = ms" by (rule nth_equalityI) (simp_all add: len g del: map_append)
  have img: "g ` set ?l = f ` set ?l" using set gm by (metis set_map)
  have inj: "inj_on g (set ?l)" using dist gm by (metis distinct_map)
  have b: "\<exists>i < length bs. u = bs ! i \<and> g u = ms ! i" if "u \<in> set bs" for u
  proof -
    obtain i where i: "i < length bs" "u = bs ! i" using \<open>u \<in> set bs\<close> by (auto simp: in_set_conv_nth)
    then have "g u = ms ! i" using g [of i] by (simp add: nth_append)
    then show ?thesis using i by blast
  qed
  have f: "\<exists>i < length fs. u = fs ! i \<and> g u = ms ! (length bs + i)" if "u \<in> set fs" for u
  proof -
    obtain i where i: "i < length fs" "u = fs ! i" using \<open>u \<in> set fs\<close> by (auto simp: in_set_conv_nth)
    then have "g u = ms ! (length bs + i)" using g [of "length bs + i"] by (simp add: nth_append)
    then show ?thesis using i by blast
  qed
  have dm: "distinct (map f bs)" "distinct (map f fs)" "set (map f bs) \<subseteq> set ms" "set (map f fs) \<subseteq> set ms"
    using lists(3,4) by (auto simp: set distinct_map inj_on_Un)
  have order: "i < j" if "sorted (map f xs)" "i < length xs" "j < length xs" "f (xs ! i) < f (xs ! j)" for xs i j
    using sorted_nth_mono [OF that(1), of j i] that by (simp add: not_less [symmetric]) (metis leI leD nth_map)
  have "g u < g v" if uv: "u \<in> set bs" "v \<in> set bs" "f u < f v" for u v
  proof -
    obtain i j where "i < length bs" "j < length bs" "u = bs ! i" "v = bs ! j" "g u = ms ! i" "g v = ms ! j" using b uv by metis
    then show ?thesis using order [OF lists(1), of i j] uv(3) less len by simp
  qed
  moreover have "g u < g v" if uv: "u \<in> set fs" "v \<in> set fs" "f u < f v" for u v
  proof -
    obtain i j where "i < length fs" "j < length fs" "u = fs ! i" "v = fs ! j" "g u = ms ! (length bs + i)" "g v = ms ! (length bs + j)" using f uv by metis
    then show ?thesis using order [OF lists(2), of i j] uv(3) less len by simp
  qed
  moreover have "g u < g v" if uv: "u \<in> set bs" "v \<in> set fs" for u v
  proof -
    obtain i j where "i < length bs" "j < length fs" "g u = ms ! i" "g v = ms ! (length bs + j)" using b f uv by metis
    then show ?thesis using less len by simp
  qed
  moreover have "g u \<le> f u" if u: "u \<in> set bs" for u
  proof -
    obtain i where i: "i < length bs" "u = bs ! i" "g u = ms ! i" using b u by blast
    then show ?thesis using sorted_nth_le [OF sorted dist, of i "f u"] card_sorted_le(1) [OF lists(1) dm(1) _ dm(3), of i] len by simp
  qed
  moreover have "f u \<le> g u" if u: "u \<in> set fs" for u
  proof -
    obtain i where i: "i < length fs" "u = fs ! i" "g u = ms ! (length bs + i)" using f u by blast
    then show ?thesis using sorted_nth_ge [OF sorted dist, of "length bs + i" "f u"] card_sorted_le(2) [OF lists(2) dm(2) _ dm(4), of i] len by simp
  qed
  ultimately show ?thesis using img inj by (simp add: reranked_def)
qed

lemma Reorder_eq:
  assumes sets: "distinct deltab" "distinct deltaf" "set deltab \<inter> set deltaf = {}" "set deltab \<union> set deltaf \<subseteq> {..<length ns}"
    and inj: "inj_on (rank_of ns) {..<length ns}"
  shows "\<exists>ns'. Reorder deltab deltaf ns = Some ns' \<and> length ns' = length ns \<and>
    (\<forall>i < length ns. ns' ! i = (if i \<in> set deltab \<union> set deltaf then (ns ! i)\<lparr>gn_visited := False, gn_rank := rank_of ns' i\<rparr> else ns ! i)) \<and>
    reranked (set deltab) (set deltaf) (rank_of ns) (rank_of ns')"
proof -
  let ?f = "rank_of ns"
  let ?bs = "Sort ns deltab" let ?fs = "Sort ns deltaf"
  have S: "set ?bs = set deltab" "set ?fs = set deltaf" "distinct ?bs" "distinct ?fs" "sorted (map ?f ?bs)" "sorted (map ?f ?fs)"
    using sets by (simp_all add: Sort_def)
  have sub: "set ?bs \<subseteq> {..<length ns}" "set ?fs \<subseteq> {..<length ns}" using sets(4) S by auto
  obtain ns1 where 1: "MoveToList ns ?bs [] = Some (map ?f ?bs, ?bs, ns1)" "cleared (set ?bs) ns ns1" using MoveToList_eq [OF sub(1), of "[]"] by auto
  have len1: "length ns1 = length ns" using 1(2) by (simp add: cleared_def)
  then have sub1: "set ?fs \<subseteq> {..<length ns1}" using sub by simp
  obtain ns2 where 2: "MoveToList ns1 ?fs ?bs = Some (map (rank_of ns1) ?fs, ?bs @ ?fs, ns2)" "cleared (set ?fs) ns1 ns2" using MoveToList_eq [OF sub1, of ?bs] by auto
  have "map (rank_of ns1) ?fs = map ?f ?fs" using 1(2) sub by (auto simp: cleared_def)
  note 2 = 2 [unfolded this]
  have N2: "length ns2 = length ns" "\<And>i. i < length ns \<Longrightarrow> ns2 ! i = (if i \<in> set deltab \<union> set deltaf then (ns ! i)\<lparr>gn_visited := False\<rparr> else ns ! i)"
    using 1(2) 2(2) S by (auto simp: cleared_def)
  let ?ms = "std_merge (map ?f ?bs) (map ?f ?fs)" let ?l = "?bs @ ?fs"
  have "length ?ms = length ?l" using mset_std_merge [of "map ?f ?bs" "map ?f ?fs"] by (metis length_append length_map mset_append size_mset)
  moreover have dl: "distinct ?l" using S sets(3) by simp
  moreover have "set ?l \<subseteq> {..<length ns2}" using sub N2(1) by simp
  ultimately obtain ns3 where 3: "assign_ranks ?l ?ms ns2 = Some ns3" "length ns3 = length ns2"
    "\<forall>k < length ?l. ns3 ! (?l ! k) = (ns2 ! (?l ! k))\<lparr>gn_rank := ?ms ! k\<rparr>" "\<forall>i < length ns2. i \<notin> set ?l \<longrightarrow> ns3 ! i = ns2 ! i"
    using assign_ranks_eq [of ?ms ?l ns2] by blast
  have "reranked (set ?bs) (set ?fs) ?f (rank_of ns3)"
    by (rule reranked_merge [OF S(5,6) _ dl refl]) (use 3(3) inj sub in \<open>auto intro: inj_on_subset\<close>)
  moreover have "ns3 ! i = (if i \<in> set deltab \<union> set deltaf then (ns ! i)\<lparr>gn_visited := False, gn_rank := rank_of ns3 i\<rparr> else ns ! i)"
    if i: "i < length ns" for i
  proof (cases "i \<in> set ?l")
    case True
    then obtain k where "k < length ?l" "i = ?l ! k" by (metis in_set_conv_nth)
    then have "ns3 ! i = (ns2 ! i)\<lparr>gn_rank := ?ms ! k\<rparr>" using 3(3) by blast
    then show ?thesis using N2(2) [OF i] True S by simp
  next
    case False
    then show ?thesis using 3(4) N2 i S by simp
  qed
  moreover have "Reorder deltab deltaf ns = Some ns3" using 1(1) 2(1) 3(1) sets(4) by (auto simp: Reorder_def)
  ultimately show ?thesis using S 3(2) N2(1) by auto
qed

text \<open>The heart of the algorithm: the new ranks are topological for the graph with the new edge.\<close>

lemma reranked_topological:
  assumes old: "\<And>u v. (u, v) \<in> E \<Longrightarrow> (u, v) \<noteq> (x, y) \<Longrightarrow> f u < f v" and new: "f y < (f x :: nat)"
    and F: "y \<in> F" "\<And>u. u \<in> F \<Longrightarrow> f y \<le> f u \<and> f u < f x" "\<And>u v. u \<in> F \<Longrightarrow> (u, v) \<in> E \<Longrightarrow> f v \<noteq> f x \<and> (f v < f x \<longrightarrow> v \<in> F)"
    and B: "x \<in> B" "\<And>u. u \<in> B \<Longrightarrow> f y < f u \<and> f u \<le> f x" "\<And>u v. v \<in> B \<Longrightarrow> (u, v) \<in> E \<Longrightarrow> f y < f u \<Longrightarrow> u \<in> B"
    and disj: "B \<inter> F = {}" and re: "reranked B F f g" and other: "\<And>u. u \<notin> B \<union> F \<Longrightarrow> g u = f u"
    and uv: "(u, v) \<in> E" "f u = f y \<longrightarrow> u = y"
  shows "g u < g v"
proof -
  have R: "\<And>u v. u \<in> B \<Longrightarrow> v \<in> B \<Longrightarrow> f u < f v \<Longrightarrow> g u < g v" "\<And>u v. u \<in> F \<Longrightarrow> v \<in> F \<Longrightarrow> f u < f v \<Longrightarrow> g u < g v"
    "\<And>u v. u \<in> B \<Longrightarrow> v \<in> F \<Longrightarrow> g u < g v" "\<And>u. u \<in> B \<Longrightarrow> g u \<le> f u" "\<And>v. v \<in> F \<Longrightarrow> f v \<le> g v"
    using re by (simp_all add: reranked_def)
  have range: "f y \<le> g w \<and> g w \<le> f x" if "w \<in> B \<union> F" for w
  proof -
    have "g w \<in> f ` (B \<union> F)" using re that unfolding reranked_def by (metis image_eqI)
    then show ?thesis using F(2) B(2) by fastforce
  qed
  show ?thesis
  proof (cases "(u, v) = (x, y)")
    case True
    then show ?thesis using R(3) B(1) F(1) by simp
  next
    case False
    note lt = old [OF uv(1) False]
    consider "u \<in> F" | "u \<in> B" | "u \<notin> B \<union> F" by blast
    then show ?thesis
    proof cases
      case 1
      have fv: "f v \<noteq> f x" "f v < f x \<longrightarrow> v \<in> F" using F(3) [OF 1 uv(1)] by blast+
      show ?thesis
      proof (cases "f v < f x")
        case True
        then show ?thesis using 1 fv(2) R(2) lt by blast
      next
        case False
        then have big: "f x < f v" using fv(1) by linarith
        then have "v \<notin> B \<union> F" using F(2) [of v] B(2) [of v] by fastforce
        then show ?thesis using other range [of u] 1 big by simp
      qed
    next
      case 2
      show ?thesis using 2 R(1,3,4) lt other by (metis UnE le_less_trans)
    next
      case 3
      then have gu: "g u = f u" by (rule other)
      consider "v \<in> F" | "v \<in> B" | "v \<notin> B \<union> F" by blast
      then show ?thesis
      proof cases
        case 1
        then show ?thesis using R(5) [OF 1] lt gu by linarith
      next
        case 2
        then have "\<not> f y < f u" using B(3) [OF 2 uv(1)] 3 by blast
        moreover have "f u \<noteq> f y" using uv(2) F(1) 3 by blast
        ultimately show ?thesis using range [of v] 2 gu by simp
      next
        case 3
        then show ?thesis using other lt gu by simp
      qed
    qed
  qed
qed

section \<open>Updates of the edges\<close>

definition add_edge :: "placement \<Rightarrow> nat \<Rightarrow> nat \<Rightarrow> gc_node list \<Rightarrow> gc_node list" where
  "add_edge place x y ns = (let ns = ns[x := (ns ! x)\<lparr>gn_out := set_insert place y (gn_out (ns ! x))\<rparr>]
     in ns[y := (ns ! y)\<lparr>gn_in := set_insert place x (gn_in (ns ! y))\<rparr>])"

definition del_edge :: "nat \<Rightarrow> nat \<Rightarrow> gc_node list \<Rightarrow> gc_node list" where
  "del_edge x y ns = (let ns = ns[x := (ns ! x)\<lparr>gn_out := set_erase y (gn_out (ns ! x))\<rparr>]
     in ns[y := (ns ! y)\<lparr>gn_in := set_erase x (gn_in (ns ! y))\<rparr>])"

text \<open>Same edges, and same ranks and data.\<close>

definition same_edges :: "gc_node list \<Rightarrow> gc_node list \<Rightarrow> bool" where
  "same_edges ns ns' \<longleftrightarrow> length ns' = length ns \<and> (\<forall>i < length ns. gn_in (ns' ! i) = gn_in (ns ! i) \<and> gn_out (ns' ! i) = gn_out (ns ! i))"

definition same_ranks :: "gc_node list \<Rightarrow> gc_node list \<Rightarrow> bool" where
  "same_ranks ns ns' \<longleftrightarrow> length ns' = length ns \<and> (\<forall>i < length ns. gn_rank (ns' ! i) = gn_rank (ns ! i))"

lemma edge_updates [simp]:
  "length (add_edge place x y ns) = length ns" "length (del_edge x y ns) = length ns"
  by (simp_all add: add_edge_def del_edge_def Let_def)

lemma edge_update_fields [simp]:
  assumes "i < length ns"
  shows "gn_rank (add_edge place x y ns ! i) = gn_rank (ns ! i)" "gn_visited (add_edge place x y ns ! i) = gn_visited (ns ! i)"
    "gn_data (add_edge place x y ns ! i) = gn_data (ns ! i)"
    "gn_out (add_edge place x y ns ! i) = (if i = x then set_insert place y (gn_out (ns ! i)) else gn_out (ns ! i))"
    "gn_in (add_edge place x y ns ! i) = (if i = y then set_insert place x (gn_in (ns ! i)) else gn_in (ns ! i))"
    "gn_rank (del_edge x y ns ! i) = gn_rank (ns ! i)" "gn_visited (del_edge x y ns ! i) = gn_visited (ns ! i)"
    "gn_data (del_edge x y ns ! i) = gn_data (ns ! i)"
    "gn_out (del_edge x y ns ! i) = (if i = x then set_erase y (gn_out (ns ! i)) else gn_out (ns ! i))"
    "gn_in (del_edge x y ns ! i) = (if i = y then set_erase x (gn_in (ns ! i)) else gn_in (ns ! i))"
  using assms by (cases "i = x"; cases "i = y"; simp add: add_edge_def del_edge_def Let_def)+

lemma add_edge_mirrored:
  assumes "mirrored ns" "x < length ns" "y < length ns" "good_place place"
  shows "mirrored (add_edge place x y ns)" "edges_of (add_edge place x y ns) = insert (x, y) (edges_of ns)"
proof -
  show "mirrored (add_edge place x y ns)"
  proof (rule mirroredI)
    fix i j assume i: "i < length (add_edge place x y ns)"
    show "distinct (gn_out (add_edge place x y ns ! i))" "distinct (gn_in (add_edge place x y ns ! i))" using i assms by (simp_all add: mirroredD(1,2))
    show "j \<in> set (gn_out (add_edge place x y ns ! i)) \<Longrightarrow> j < length (add_edge place x y ns)" using i assms mirrored_less [OF assms(1), of i j] by (auto split: if_splits)
    show "j \<in> set (gn_in (add_edge place x y ns ! i)) \<Longrightarrow> j < length (add_edge place x y ns)" using i assms mirrored_less [OF assms(1), of i j] by (auto split: if_splits)
    show "j < length (add_edge place x y ns) \<Longrightarrow> j \<in> set (gn_out (add_edge place x y ns ! i)) \<longleftrightarrow> i \<in> set (gn_in (add_edge place x y ns ! j))"
      using i assms mirroredD(5) [OF assms(1), of i j] by auto
  qed
  show "edges_of (add_edge place x y ns) = insert (x, y) (edges_of ns)"
    using assms by (auto simp: edges_of_def split: if_splits)
qed

lemma del_edge_mirrored:
  assumes "mirrored ns" "x < length ns" "y < length ns"
  shows "mirrored (del_edge x y ns)" "edges_of (del_edge x y ns) = edges_of ns - {(x, y)}"
proof -
  show "mirrored (del_edge x y ns)"
  proof (rule mirroredI)
    fix i j assume i: "i < length (del_edge x y ns)"
    show "distinct (gn_out (del_edge x y ns ! i))" "distinct (gn_in (del_edge x y ns ! i))" using i assms by (simp_all add: mirroredD(1,2))
    show "j \<in> set (gn_out (del_edge x y ns ! i)) \<Longrightarrow> j < length (del_edge x y ns)" using i assms mirrored_less [OF assms(1), of i j] by (auto split: if_splits)
    show "j \<in> set (gn_in (del_edge x y ns ! i)) \<Longrightarrow> j < length (del_edge x y ns)" using i assms mirrored_less [OF assms(1), of i j] by (auto split: if_splits)
    show "j < length (del_edge x y ns) \<Longrightarrow> j \<in> set (gn_out (del_edge x y ns ! i)) \<longleftrightarrow> i \<in> set (gn_in (del_edge x y ns ! j))"
      using i assms mirroredD(5) [OF assms(1), of i j] by auto
  qed
  show "edges_of (del_edge x y ns) = edges_of ns - {(x, y)}"
    using assms by (auto simp: edges_of_def split: if_splits)
qed

lemma same_edges_mirrored:
  assumes "same_edges ns ns'"
  shows "mirrored ns' \<longleftrightarrow> mirrored ns" "edges_of ns' = edges_of ns"
  using assms by (auto simp: same_edges_def mirrored_def edges_of_def)

lemma same_ranks_ranked:
  assumes "same_ranks ns ns'"
  shows "ranked ns' \<longleftrightarrow> ranked ns"
proof -
  have "map gn_rank ns' = map gn_rank ns" by (rule nth_equalityI) (use assms in \<open>auto simp: same_ranks_def\<close>)
  then show ?thesis using assms by (simp add: ranked_def same_ranks_def)
qed

lemma same_ranks_topological:
  assumes "same_ranks ns ns'" "mirrored ns" "edges_of ns' \<subseteq> edges_of ns" "topological ns"
  shows "topological ns'"
  unfolding topological_def
proof (clarify)
  fix u v assume "(u, v) \<in> edges_of ns'"
  then have e: "(u, v) \<in> edges_of ns" using assms(3) by blast
  then have "u < length ns" "v < length ns" using edges_of_mem [OF assms(2)] by blast+
  then show "rank_of ns' u < rank_of ns' v" using e assms(1,4) by (auto simp: same_ranks_def topological_def)
qed

lemma gc_RemoveEdge_eq:
  "x < length (gc_nodes r) \<Longrightarrow> y < length (gc_nodes r) \<Longrightarrow> gc_RemoveEdge x y r = Some (r\<lparr>gc_nodes := del_edge x y (gc_nodes r)\<rparr>)"
  by (simp add: gc_RemoveEdge_def del_edge_def Let_def)

section \<open>Insertion of an edge\<close>

text \<open>What both searches of an insertion find; \<open>ns1\<close> has the new edge already.\<close>

lemma forward_search:
  assumes "mirrored ns1" "unmarked ns1" "y < length ns1"
  shows "\<exists>ok deltaf ns2. ForwardDFS y k ns1 = Some (ok, deltaf, ns2) \<and>
    walked gn_out (\<lambda>j. j = k) (\<lambda>j. j < k) ns1 y ok deltaf ns2"
  unfolding ForwardDFS_def
  by (rule dfs_walk_correct) (use assms mirroredD(3) [OF assms(1)] in \<open>auto simp: searching_def visits_def unmarked_def\<close>)

lemma backward_search:
  assumes "mirrored ns2" "x < length ns2" "\<not> gn_visited (ns2 ! x)"
  shows "\<exists>deltab ns3. BackwardDFS x k ns2 = Some (deltab, ns3) \<and> walked gn_in (\<lambda>j. False) (\<lambda>j. k < j) ns2 x True deltab ns3"
proof -
  have "\<exists>ok deltab ns3. dfs_walk gn_in (\<lambda>j. False) (\<lambda>j. k < j) ns2 [x] [] = Some (ok, deltab, ns3) \<and>
    walked gn_in (\<lambda>j. False) (\<lambda>j. k < j) ns2 x ok deltab ns3"
    by (rule dfs_walk_correct) (use assms mirroredD(4) [OF assms(1)] in \<open>auto simp: searching_def visits_def\<close>)
  then obtain ok deltab ns3 where w: "dfs_walk gn_in (\<lambda>j. False) (\<lambda>j. k < j) ns2 [x] [] = Some (ok, deltab, ns3)"
    "walked gn_in (\<lambda>j. False) (\<lambda>j. k < j) ns2 x ok deltab ns3" by blast
  then have ok by (auto simp: walked_def split: if_split_asm)
  then show ?thesis using w by (simp add: BackwardDFS_def)
qed

lemma inner_steps_edges: "inner_steps gn_out within ns \<subseteq> edges_of ns"
  by (auto simp: inner_steps_def edges_of_def)

lemma forward_set:
  assumes W: "walked gn_out (\<lambda>j. j = k) (\<lambda>j. j < k) ns1 y True deltaf ns2" and unm: "unmarked ns1" and m: "mirrored ns1" and y: "y < length ns1" "rank_of ns1 y < k"
    and up: "\<forall>u v. (u, v) \<in> edges_of ns1 \<longrightarrow> rank_of ns1 u < k \<longrightarrow> rank_of ns1 u < rank_of ns1 v"
  shows "y \<in> set deltaf" "u \<in> set deltaf \<Longrightarrow> rank_of ns1 y \<le> rank_of ns1 u \<and> rank_of ns1 u < k"
    "u \<in> set deltaf \<Longrightarrow> (u, v) \<in> edges_of ns1 \<Longrightarrow> rank_of ns1 v \<noteq> k \<and> (rank_of ns1 v < k \<longrightarrow> v \<in> set deltaf)"
proof -
  let ?S = "inner_steps gn_out (\<lambda>j. j < k) ns1"
  have D: "set deltaf = ?S\<^sup>* `` {y}" "\<And>u v. u \<in> set deltaf \<Longrightarrow> v \<in> set (gn_out (ns1 ! u)) \<Longrightarrow> rank_of ns1 v \<noteq> k"
    using W by (auto simp: walked_def)
  show "y \<in> set deltaf" unfolding D by blast
  show "rank_of ns1 y \<le> rank_of ns1 u \<and> rank_of ns1 u < k" if "u \<in> set deltaf" for u
  proof -
    have "(y, u) \<in> ?S\<^sup>*" using that D(1) by blast
    then show ?thesis
    proof induction
      case (step u v)
      then have "(u, v) \<in> edges_of ns1" using inner_steps_edges by blast
      then have "rank_of ns1 u < rank_of ns1 v" using up step.IH by blast
      then show ?case using step by (auto simp: inner_steps_def)
    qed (use y in simp)
  qed
  show "rank_of ns1 v \<noteq> k \<and> (rank_of ns1 v < k \<longrightarrow> v \<in> set deltaf)" if uv: "u \<in> set deltaf" "(u, v) \<in> edges_of ns1"
  proof -
    have l: "v < length ns1" "v \<in> set (gn_out (ns1 ! u))" "u < length ns1" using uv(2) by (auto simp: edges_of_mem [OF m])
    have "(u, v) \<in> ?S" if "rank_of ns1 v < k" using that l unm by (simp add: inner_steps_def unmarked_def)
    moreover have "(y, u) \<in> ?S\<^sup>*" using uv(1) D(1) by blast
    ultimately show ?thesis using D(2) [OF uv(1) l(2)] unfolding D(1) by (auto intro: rtrancl_into_rtrancl)
  qed
qed

lemma forward_cycle:
  assumes W: "walked gn_out (\<lambda>j. j = k) (\<lambda>j. j < k) ns1 y False deltaf ns2"
    and m: "mirrored ns1" and r: "ranked ns1" and x: "x < length ns1" "rank_of ns1 x = k"
  shows "(y, x) \<in> (edges_of ns1)\<^sup>*"
proof -
  let ?S = "inner_steps gn_out (\<lambda>j. j < k) ns1"
  obtain u v where uv: "(y, u) \<in> ?S\<^sup>*" "u < length ns1" "v \<in> set (gn_out (ns1 ! u))" "rank_of ns1 v = k" using W by (auto simp: walked_def)
  then have "v < length ns1" using mirroredD(3) [OF m] by auto
  then have "v = x" using ranked_inj [OF r] x uv(4) by blast
  then have "(u, x) \<in> edges_of ns1" using uv by (simp add: edges_of_def)
  moreover have "(y, u) \<in> (edges_of ns1)\<^sup>*" using uv(1) rtrancl_mono [OF inner_steps_edges] by blast
  ultimately show ?thesis by simp
qed

lemma untouched:
  assumes "mirrored ns" "i < length ns"
  shows "gn_in (ns ! i) = [] \<and> gn_out (ns ! i) = [] \<longleftrightarrow> (\<forall>j. (i, j) \<notin> edges_of ns \<and> (j, i) \<notin> edges_of ns)"
proof -
  have "gn_out (ns ! i) = [] \<longleftrightarrow> (\<forall>j. (i, j) \<notin> edges_of ns)" using assms(2) by (auto simp: edges_of_def)
  moreover have "gn_in (ns ! i) = [] \<longleftrightarrow> (\<forall>j. (j, i) \<notin> edges_of ns)"
    using assms mirrored_less(2) [OF assms] unfolding edges_of_in [OF assms(1)] by (metis list.set_intros(1) neq_Nil_conv empty_iff empty_set)
  ultimately show ?thesis by blast
qed

lemma gc_invD:
  assumes "gc_inv r"
  shows "mirrored (gc_nodes r)" "ranked (gc_nodes r)" "topological (gc_nodes r)" "unmarked (gc_nodes r)"
    "distinct (free_nodes r)" "set (free_nodes r) \<subseteq> {..<length (gc_nodes r)}" "gc_edges r \<subseteq> live r \<times> live r"
proof -
  show I: "mirrored (gc_nodes r)" "ranked (gc_nodes r)" "topological (gc_nodes r)" "unmarked (gc_nodes r)"
    "distinct (free_nodes r)" "set (free_nodes r) \<subseteq> {..<length (gc_nodes r)}" using assms by (simp_all add: gc_inv_def)
  have "\<forall>i \<in> set (free_nodes r). \<forall>j. (i, j) \<notin> gc_edges r \<and> (j, i) \<notin> gc_edges r"
    using assms untouched [OF I(1)] I(6) by (auto simp: gc_inv_def)
  then show "gc_edges r \<subseteq> live r \<times> live r" using edges_of_mem [OF I(1)] by (auto simp: live_def)
qed

lemma gc_invI:
  assumes "mirrored (gc_nodes r)" "ranked (gc_nodes r)" "topological (gc_nodes r)" "unmarked (gc_nodes r)"
    "distinct (free_nodes r)" "set (free_nodes r) \<subseteq> {..<length (gc_nodes r)}" "gc_edges r \<subseteq> live r \<times> live r"
  shows "gc_inv r"
proof -
  have "gn_in (gc_nodes r ! i) = [] \<and> gn_out (gc_nodes r ! i) = []" if "i \<in> set (free_nodes r)" for i
    using untouched [OF assms(1), of i] assms(6,7) that by (auto simp: live_def)
  then show ?thesis using assms by (simp add: gc_inv_def)
qed

text \<open>The same nodes in use, with the same data.\<close>

definition kept :: "gc_rep \<Rightarrow> gc_rep \<Rightarrow> bool" where
  "kept r r' \<longleftrightarrow> free_nodes r' = free_nodes r \<and> length (gc_nodes r') = length (gc_nodes r) \<and>
     (\<forall>i < length (gc_nodes r). gn_data (gc_nodes r' ! i) = gn_data (gc_nodes r ! i))"

lemma kept_live: "kept r r' \<Longrightarrow> live r' = live r"
  by (simp add: kept_def live_def)

lemma kept_trans: "kept r r' \<Longrightarrow> kept r' r'' \<Longrightarrow> kept r r''"
  by (simp add: kept_def)

lemma gc_inv_kept:
  assumes inv: "gc_inv r" and kept: "kept r r'" and "mirrored (gc_nodes r')" "ranked (gc_nodes r')" "topological (gc_nodes r')" "unmarked (gc_nodes r')"
    and "gc_edges r' \<subseteq> live r \<times> live r"
  shows "gc_inv r'"
  by (rule gc_invI) (use gc_invD [OF inv] assms kept_live [OF kept] in \<open>auto simp: kept_def\<close>)

text \<open>What an insertion into a graph with the invariant does.\<close>

definition inserts :: "nat \<Rightarrow> nat \<Rightarrow> gc_rep \<Rightarrow> bool \<Rightarrow> gc_rep \<Rightarrow> bool" where
  "inserts x y r b r' \<longleftrightarrow> gc_inv r' \<and> kept r r' \<and> (b \<longleftrightarrow> acyclic (insert (x, y) (gc_edges r))) \<and>
     gc_edges r' = (if b then insert (x, y) (gc_edges r) else gc_edges r) \<and> (\<not> b \<longrightarrow> same_ranks (gc_nodes r) (gc_nodes r'))"

lemma insert_cyclic:
  assumes inv: "gc_inv r" and xy: "x \<in> live r" "y \<in> live r" "x \<noteq> y" and place: "good_place place"
    and ns1: "ns1 = add_edge place x y (gc_nodes r)" and less: "rank_of (gc_nodes r) y < rank_of (gc_nodes r) x"
    and F: "ForwardDFS y (rank_of (gc_nodes r) x) ns1 = Some (False, deltaf, ns2)"
    and W: "walked gn_out (\<lambda>j. j = rank_of (gc_nodes r) x) (\<lambda>j. j < rank_of (gc_nodes r) x) ns1 y False deltaf ns2"
  shows "\<exists>ns. ClearVisitedBits deltaf (del_edge x y ns2) = Some ns \<and> inserts x y r False (r\<lparr>gc_nodes := ns\<rparr>)"
proof -
  let ?ns = "gc_nodes r"
  note I = gc_invD [OF inv]
  have x: "x < length ?ns" "y < length ?ns" using xy by (auto simp: live_def)
  have M1: "mirrored ns1" "edges_of ns1 = insert (x, y) (gc_edges r)" unfolding ns1 by (rule add_edge_mirrored [OF I(1) x place])+
  have R1: "same_ranks ?ns ns1" by (simp add: ns1 same_ranks_def)
  have r1: "ranked ns1" using I(2) same_ranks_ranked [OF R1] by simp
  have V: "visits (set deltaf) ns1 ns2" "set deltaf \<subseteq> {..<length ns1}" using W by (auto simp: walked_def)
  have len: "length ns1 = length ?ns" "length ns2 = length ?ns" using V(1) by (simp_all add: ns1 visits_def)
  have S2: "same_edges ns1 ns2" using V(1) by (simp add: visits_def same_edges_def)
  have M2: "mirrored ns2" "edges_of ns2 = insert (x, y) (gc_edges r)" using same_edges_mirrored [OF S2] M1 by simp_all
  have "set deltaf \<subseteq> {..<length (del_edge x y ns2)}" using V(2) len by simp
  then obtain ns where C: "ClearVisitedBits deltaf (del_edge x y ns2) = Some ns" "cleared (set deltaf) (del_edge x y ns2) ns"
    using ClearVisitedBits_eq by blast
  have len_ns: "length ns = length ?ns" using C(2) len by (simp add: cleared_def)
  have S: "same_edges (del_edge x y ns2) ns" using C(2) by (simp add: cleared_def same_edges_def)
  have M2': "mirrored (del_edge x y ns2)" "edges_of (del_edge x y ns2) = edges_of ns2 - {(x, y)}"
    by (rule del_edge_mirrored [OF M2(1)]; use x len in simp)+
  have new: "(x, y) \<notin> gc_edges r" using I(3) less by (auto simp: topological_def)
  have M: "mirrored ns" "edges_of ns = gc_edges r" using same_edges_mirrored [OF S] M2' M2(2) new by auto
  have fields: "gn_rank (ns ! i) = gn_rank (?ns ! i) \<and> gn_data (ns ! i) = gn_data (?ns ! i) \<and> \<not> gn_visited (ns ! i)" if i: "i < length ?ns" for i
    using C(2) V(1) i len I(4) by (auto simp: cleared_def visits_def ns1 unmarked_def)
  have R: "same_ranks ?ns ns" using fields len_ns by (simp add: same_ranks_def)
  have k: "kept r (r\<lparr>gc_nodes := ns\<rparr>)" using fields len_ns by (simp add: kept_def)
  have "ranked ns" using same_ranks_ranked [OF R] I(2) by simp
  moreover have "topological ns" by (rule same_ranks_topological [OF R I(1) _ I(3)]) (simp add: M)
  moreover have "unmarked ns" using fields len_ns by (simp add: unmarked_def)
  ultimately have "gc_inv (r\<lparr>gc_nodes := ns\<rparr>)" by (intro gc_inv_kept [OF inv k]) (use M I(7) in simp_all)
  moreover have "\<not> acyclic (insert (x, y) (gc_edges r))"
  proof -
    have "(y, x) \<in> (edges_of ns1)\<^sup>*" by (rule forward_cycle [OF W M1(1) r1]) (use x len R1 in \<open>simp_all add: same_ranks_def\<close>)
    moreover have "(x, y) \<in> edges_of ns1" by (simp add: M1)
    ultimately have "(x, x) \<in> (edges_of ns1)\<^sup>+" by (rule rtrancl_into_trancl2 [rotated])
    then show ?thesis unfolding M1(2) by (auto simp: acyclic_def)
  qed
  ultimately show ?thesis using C(1) M(2) R k by (simp add: inserts_def)
qed

lemma backward_set:
  assumes W: "walked gn_in (\<lambda>j. False) (\<lambda>j. k < j) ns2 x True deltab ns3" and m: "mirrored ns2" and x: "x < length ns2" "k < rank_of ns2 x"
    and up: "\<forall>u v. (u, v) \<in> edges_of ns2 \<longrightarrow> k < rank_of ns2 v \<longrightarrow> rank_of ns2 u < rank_of ns2 v" and unm: "\<not> gn_visited (ns2 ! x)"
  shows "x \<in> set deltab" "u \<in> set deltab \<Longrightarrow> k < rank_of ns2 u \<and> rank_of ns2 u \<le> rank_of ns2 x \<and> \<not> gn_visited (ns2 ! u)"
    "v \<in> set deltab \<Longrightarrow> (u, v) \<in> edges_of ns2 \<Longrightarrow> k < rank_of ns2 u \<Longrightarrow> u \<in> set deltab \<or> gn_visited (ns2 ! u)"
proof -
  let ?S = "inner_steps gn_in (\<lambda>j. k < j) ns2"
  have D: "set deltab = ?S\<^sup>* `` {x}" using W by (simp add: walked_def)
  have rev: "(v, u) \<in> ?S \<longleftrightarrow> (u, v) \<in> edges_of ns2 \<and> k < rank_of ns2 u \<and> \<not> gn_visited (ns2 ! u)" for u v
    using mirrored_less(2) [OF m] by (auto simp: inner_steps_def edges_of_in [OF m])
  show "x \<in> set deltab" unfolding D by blast
  show "k < rank_of ns2 u \<and> rank_of ns2 u \<le> rank_of ns2 x \<and> \<not> gn_visited (ns2 ! u)" if "u \<in> set deltab" for u
  proof -
    have "(x, u) \<in> ?S\<^sup>*" using that D by blast
    then show ?thesis
    proof induction
      case (step v u)
      then have "rank_of ns2 u < rank_of ns2 v" using up rev by blast
      then show ?case using step rev by auto
    qed (use x unm in simp)
  qed
  show "u \<in> set deltab \<or> gn_visited (ns2 ! u)" if "v \<in> set deltab" "(u, v) \<in> edges_of ns2" "k < rank_of ns2 u"
  proof -
    have "(v, u) \<in> ?S \<or> gn_visited (ns2 ! u)" using rev that by blast
    moreover have "(x, v) \<in> ?S\<^sup>*" using that(1) D by blast
    ultimately show ?thesis unfolding D by (auto intro: rtrancl_into_rtrancl)
  qed
qed

lemma insert_reordered:
  assumes inv: "gc_inv r" and xy: "x \<in> live r" "y \<in> live r" "x \<noteq> y" and place: "good_place place"
    and ns1: "ns1 = add_edge place x y (gc_nodes r)" and less: "rank_of (gc_nodes r) y < rank_of (gc_nodes r) x"
    and W: "walked gn_out (\<lambda>j. j = rank_of (gc_nodes r) x) (\<lambda>j. j < rank_of (gc_nodes r) x) ns1 y True deltaf ns2"
  shows "\<exists>deltab ns3 ns. BackwardDFS x (rank_of (gc_nodes r) y) ns2 = Some (deltab, ns3) \<and> Reorder deltab deltaf ns3 = Some ns \<and>
    inserts x y r True (r\<lparr>gc_nodes := ns\<rparr>)"
proof -
  let ?ns = "gc_nodes r" let ?f = "rank_of (gc_nodes r)" let ?n = "length (gc_nodes r)"
  note I = gc_invD [OF inv]
  have x: "x < ?n" "y < ?n" using xy by (auto simp: live_def)
  have M1: "mirrored ns1" "edges_of ns1 = insert (x, y) (gc_edges r)" unfolding ns1 by (rule add_edge_mirrored [OF I(1) x place])+
  have f1: "rank_of ns1 i = ?f i \<and> gn_visited (ns1 ! i) = gn_visited (?ns ! i) \<and> gn_data (ns1 ! i) = gn_data (?ns ! i)" if "i < ?n" for i
    using that by (simp add: ns1)
  have len1: "length ns1 = ?n" by (simp add: ns1)
  have unm1: "unmarked ns1" using I(4) by (simp add: ns1 unmarked_def)
  have V: "visits (set deltaf) ns1 ns2" "set deltaf \<subseteq> {..<?n}" "distinct deltaf" using W len1 by (auto simp: walked_def)
  have N2: "length ns2 = ?n" "\<And>i. i < ?n \<Longrightarrow> ns2 ! i = (ns1 ! i)\<lparr>gn_visited := i \<in> set deltaf\<rparr>"
    using V(1) unm1 len1 by (auto simp: visits_def unmarked_def)
  have S2: "same_edges ns1 ns2" using N2 len1 by (simp add: same_edges_def)
  have M2: "mirrored ns2" "edges_of ns2 = insert (x, y) (gc_edges r)" using same_edges_mirrored [OF S2] M1 by simp_all
  have bound: "u < ?n \<and> v < ?n" if "(u, v) \<in> edges_of ns2" for u v using that edges_of_mem [OF M2(1)] N2(1) by auto
  have f2: "rank_of ns2 i = ?f i" if "i < ?n" for i using N2(2) [OF that] f1 [OF that] by simp
  have old: "?f u < ?f v" if "(u, v) \<in> edges_of ns2" "(u, v) \<noteq> (x, y)" for u v using that I(3) by (auto simp: M2 topological_def)
  have F: "y \<in> set deltaf" "\<And>u. u \<in> set deltaf \<Longrightarrow> ?f y \<le> ?f u \<and> ?f u < ?f x"
    "\<And>u v. u \<in> set deltaf \<Longrightarrow> (u, v) \<in> edges_of ns2 \<Longrightarrow> ?f v \<noteq> ?f x \<and> (?f v < ?f x \<longrightarrow> v \<in> set deltaf)"
  proof -
    have "rank_of ns1 u < rank_of ns1 v" if "(u, v) \<in> edges_of ns1" "rank_of ns1 u < ?f x" for u v
      using that old [of u v] bound [of u v] f1 by (auto simp: M1 M2)
    then have up: "\<forall>u v. (u, v) \<in> edges_of ns1 \<longrightarrow> rank_of ns1 u < ?f x \<longrightarrow> rank_of ns1 u < rank_of ns1 v" by blast
    have y: "y < length ns1" "rank_of ns1 y < ?f x" using x f1 len1 less by simp_all
    note FS = forward_set [OF W unm1 M1(1) y up]
    show "y \<in> set deltaf" by (rule FS)
    show "?f y \<le> ?f u \<and> ?f u < ?f x" if "u \<in> set deltaf" for u using FS(2) [OF that] that V(2) x f1 by auto
    show "?f v \<noteq> ?f x \<and> (?f v < ?f x \<longrightarrow> v \<in> set deltaf)" if "u \<in> set deltaf" "(u, v) \<in> edges_of ns2" for u v
      using FS(3) [OF that(1), of v] that(2) bound [OF that(2)] f1 by (simp add: M1 M2)
  qed
  have xF: "x \<notin> set deltaf" using F(2) by blast
  then have xu: "\<not> gn_visited (ns2 ! x)" using N2(2) x by simp
  obtain deltab ns3 where Bk: "BackwardDFS x (?f y) ns2 = Some (deltab, ns3)"
    and WB: "walked gn_in (\<lambda>j. False) (\<lambda>j. ?f y < j) ns2 x True deltab ns3"
    using backward_search [OF M2(1) _ xu] x N2(1) by metis
  have Vb: "visits (set deltab) ns2 ns3" "set deltab \<subseteq> {..<?n}" "distinct deltab" using WB N2(1) by (auto simp: walked_def)
  have B: "x \<in> set deltab" "\<And>u. u \<in> set deltab \<Longrightarrow> ?f y < ?f u \<and> ?f u \<le> ?f x \<and> u \<notin> set deltaf"
    "\<And>u v. v \<in> set deltab \<Longrightarrow> (u, v) \<in> edges_of ns2 \<Longrightarrow> ?f y < ?f u \<Longrightarrow> u \<in> set deltab \<or> u \<in> set deltaf"
  proof -
    have "rank_of ns2 u < rank_of ns2 v" if "(u, v) \<in> edges_of ns2" "?f y < rank_of ns2 v" for u v
      using that old [of u v] bound [of u v] f2 by auto
    then have up: "\<forall>u v. (u, v) \<in> edges_of ns2 \<longrightarrow> ?f y < rank_of ns2 v \<longrightarrow> rank_of ns2 u < rank_of ns2 v" by blast
    have x': "x < length ns2" "?f y < rank_of ns2 x" using x f2 N2(1) less by simp_all
    note BS = backward_set [OF WB M2(1) x' up xu]
    show "x \<in> set deltab" by (rule BS)
    show "?f y < ?f u \<and> ?f u \<le> ?f x \<and> u \<notin> set deltaf" if "u \<in> set deltab" for u using BS(2) [OF that] that Vb(2) x f2 N2(2) by auto
    show "u \<in> set deltab \<or> u \<in> set deltaf" if "v \<in> set deltab" "(u, v) \<in> edges_of ns2" "?f y < ?f u" for u v
      using BS(3) [OF that(1,2)] bound [OF that(2)] f2 that(3) N2(2) by auto
  qed
  have B3: "u \<in> set deltab" if "v \<in> set deltab" "(u, v) \<in> edges_of ns2" "?f y < ?f u" for u v
  proof -
    have "u \<notin> set deltaf"
    proof
      assume "u \<in> set deltaf"
      then have "?f v \<noteq> ?f x \<and> (?f v < ?f x \<longrightarrow> v \<in> set deltaf)" using F(3) that(2) by blast
      then show False using B(2) [OF that(1)] by auto
    qed
    then show ?thesis using B(3) that by blast
  qed
  have N3: "length ns3 = ?n" "\<And>i. i < ?n \<Longrightarrow> ns3 ! i = (ns1 ! i)\<lparr>gn_visited := i \<in> set deltab \<union> set deltaf\<rparr>"
    using Vb(1) N2 by (auto simp: visits_def disj_commute)
  have f3: "rank_of ns3 i = ?f i" if "i < ?n" for i using N3(2) [OF that] f1 [OF that] by simp
  have inj: "inj_on ?f {..<?n}" using ranked_inj [OF I(2)] by (auto simp: inj_on_def)
  have inj3: "inj_on (rank_of ns3) {..<length ns3}" using inj f3 N3(1) by (auto simp: inj_on_def)
  have disj: "set deltab \<inter> set deltaf = {}" using B(2) by blast
  have "set deltab \<union> set deltaf \<subseteq> {..<length ns3}" using V(2) Vb(2) N3(1) by simp
  then obtain ns where Re: "Reorder deltab deltaf ns3 = Some ns" "length ns = length ns3"
    "\<forall>i < length ns3. ns ! i = (if i \<in> set deltab \<union> set deltaf then (ns3 ! i)\<lparr>gn_visited := False, gn_rank := rank_of ns i\<rparr> else ns3 ! i)"
    "reranked (set deltab) (set deltaf) (rank_of ns3) (rank_of ns)"
    using Reorder_eq [OF Vb(3) V(3) disj _ inj3] by blast
  have fields: "gn_data (ns ! i) = gn_data (?ns ! i) \<and> \<not> gn_visited (ns ! i) \<and> gn_in (ns ! i) = gn_in (ns1 ! i) \<and> gn_out (ns ! i) = gn_out (ns1 ! i)"
    if i: "i < ?n" for i
  proof -
    have e: "ns ! i = (if i \<in> set deltab \<union> set deltaf then (ns3 ! i)\<lparr>gn_visited := False, gn_rank := rank_of ns i\<rparr> else ns3 ! i)"
      by (rule Re(3) [rule_format]) (use i N3(1) in simp)
    obtain k where "ns ! i = (ns1 ! i)\<lparr>gn_visited := False, gn_rank := k\<rparr>"
    proof (cases "i \<in> set deltab \<union> set deltaf")
      case True
      from trans [OF e if_P [OF True]] that [of "rank_of ns i"] show ?thesis using N3(2) [OF i] by simp
    next
      case False
      have "gn_visited (ns1 ! i) = False" using f1 [OF i] I(4) i by (simp add: unmarked_def)
      with trans [OF e if_not_P [OF False]] that [of "rank_of ns1 i"] show ?thesis using N3(2) [OF i] False by simp
    qed
    then show ?thesis using f1 [OF i] by simp
  qed
  have other: "rank_of ns i = rank_of ns3 i" if "i \<notin> set deltab \<union> set deltaf" "i < ?n" for i using Re(3) N3(1) that by auto
  have len: "length ns = ?n" using Re(2) N3(1) by simp
  have S: "same_edges ns1 ns" using fields len len1 by (simp add: same_edges_def)
  have M: "mirrored ns" "edges_of ns = insert (x, y) (gc_edges r)" using same_edges_mirrored [OF S] M1 by simp_all
  have k: "kept r (r\<lparr>gc_nodes := ns\<rparr>)" using fields len by (simp add: kept_def)
  have "topological ns"
  proof -
    let ?g = "\<lambda>i. if i \<in> set deltab \<union> set deltaf then rank_of ns i else ?f i"
    have re: "reranked (set deltab) (set deltaf) ?f ?g"
    proof -
      have sub: "i < ?n" if "i \<in> set deltab \<union> set deltaf" for i using that V(2) Vb(2) by auto
      have img: "?f ` (set deltab \<union> set deltaf) = rank_of ns3 ` (set deltab \<union> set deltaf)"
        "?g ` (set deltab \<union> set deltaf) = rank_of ns ` (set deltab \<union> set deltaf)" using f3 sub by (auto intro!: image_cong)
      have injg: "inj_on ?g (set deltab \<union> set deltaf) = inj_on (rank_of ns) (set deltab \<union> set deltaf)" by (rule inj_on_cong) simp
      show ?thesis using Re(4) unfolding reranked_def img injg using f3 sub by simp
    qed
    have lt: "?g u < ?g v" if uv: "(u, v) \<in> edges_of ns2" for u v
    proof -
      have b: "?f y < ?f w \<and> ?f w \<le> ?f x" if "w \<in> set deltab" for w using B(2) that by blast
      have o: "?g w = ?f w" if "w \<notin> set deltab \<union> set deltaf" for w using that by simp
      have i: "?f u = ?f y \<longrightarrow> u = y" using bound [OF uv] x ranked_inj [OF I(2)] by blast
      show ?thesis
        by (rule reranked_topological [where E = "edges_of ns2" and F = "set deltaf" and B = "set deltab" and f = ?f and x = x and y = y])
          (fact old less F B(1) b B3 disj re o uv i)+
    qed
    have g: "?g i = rank_of ns i" if "i < ?n" for i using other [of i] f3 [OF that] that by auto
    have "rank_of ns u < rank_of ns v" if e: "(u, v) \<in> edges_of ns2" for u v
      using lt [OF e] by (simp only: g [OF conjunct1 [OF bound [OF e]]] g [OF conjunct2 [OF bound [OF e]]])
    then show ?thesis unfolding topological_def M M2 by blast
  qed
  moreover have "ranked ns"
  proof -
    let ?D = "set deltab \<union> set deltaf"
    have sub: "?D \<subseteq> {..<?n}" using V(2) Vb(2) by auto
    have img: "rank_of ns ` ?D = ?f ` ?D"
    proof -
      have "rank_of ns ` ?D = rank_of ns3 ` ?D" using Re(4) by (simp add: reranked_def)
      also have "\<dots> = ?f ` ?D" using f3 sub by (auto intro!: image_cong)
      finally show ?thesis .
    qed
    have rest: "rank_of ns ` ({..<?n} - ?D) = ?f ` ({..<?n} - ?D)" using other f3 by (intro image_cong) auto
    have "rank_of ns ` {..<?n} = rank_of ns ` ?D \<union> rank_of ns ` ({..<?n} - ?D)" using sub by blast
    also have "\<dots> = ?f ` {..<?n}" unfolding img rest using sub by blast
    finally have e: "rank_of ns ` {..<?n} = ?f ` {..<?n}" .
    have "set (map gn_rank xs) = rank_of xs ` {..<length xs}" for xs :: "gc_node list"
      by (force simp: set_conv_nth)
    then have "set (map gn_rank ns) = set (map gn_rank ?ns)" using e len by simp
    moreover have "length (map gn_rank ns) = length (map gn_rank ?ns)" using len by simp
    ultimately show ?thesis using I(2) len unfolding ranked_def by (metis card_distinct distinct_card)
  qed
  moreover have "unmarked ns" using fields len by (simp add: unmarked_def)
  ultimately have "gc_inv (r\<lparr>gc_nodes := ns\<rparr>)" by (intro gc_inv_kept [OF inv k]) (use M I(7) xy in simp_all)
  moreover from this have "acyclic (insert (x, y) (gc_edges r))" using gc_inv_acyclic [of "r\<lparr>gc_nodes := ns\<rparr>"] M(2) by simp
  ultimately have "inserts x y r True (r\<lparr>gc_nodes := ns\<rparr>)" using M(2) k by (simp add: inserts_def)
  then show ?thesis using Bk Re(1) by blast
qed

end
