(* ===== verification/TF_GraphCyclesOps.thy ===== *)
theory TF_GraphCyclesOps
  imports TF_GraphCycles
begin

text \<open>
  The operations of the cycle detector of \<^verbatim>\<open>compiler/jit/graphcycles/graphcycles.cc\<close> as operations on an
  acyclic graph: insertion, reachability, paths and contraction.
\<close>

section \<open>Insertion\<close>

lemma InsertEdge_inserts:
  assumes inv: "gc_inv r" and place: "good_place place" and xy: "x \<in> live r" "y \<in> live r"
  shows "\<exists>b r'. InsertEdge place x y r = Some (b, r') \<and> inserts x y r b r'"
proof -
  let ?ns = "gc_nodes r"
  note I = gc_invD [OF inv]
  have x: "x < length ?ns" "y < length ?ns" using xy by (auto simp: live_def)
  have keep: "kept r r" "same_ranks ?ns ?ns" by (simp_all add: kept_def same_ranks_def)
  have ac: "acyclic (gc_edges r)" by (rule gc_inv_acyclic [OF inv])
  consider "x = y" | "x \<noteq> y" "(x, y) \<in> gc_edges r" | "x \<noteq> y" "(x, y) \<notin> gc_edges r" by blast
  then show ?thesis
  proof cases
    case 1
    then have "\<not> acyclic (insert (x, y) (gc_edges r))" by (auto simp: acyclic_def)
    then have "inserts x y r False r" using inv keep by (simp add: inserts_def)
    then show ?thesis using 1 by (intro exI [of _ False] exI [of _ r]) (simp add: InsertEdge_def)
  next
    case 2
    then have "inserts x y r True r" using inv keep ac by (simp add: inserts_def insert_absorb)
    then show ?thesis using 2 x by (intro exI [of _ True] exI [of _ r]) (simp add: InsertEdge_def edges_of_def)
  next
    case 3
    let ?ns1 = "add_edge place x y ?ns"
    have M1: "mirrored ?ns1" "edges_of ?ns1 = insert (x, y) (gc_edges r)" by (rule add_edge_mirrored [OF I(1) x place])+
    have new: "y \<notin> set (gn_out (?ns ! x))" using 3(2) x by (simp add: edges_of_def)
    have unf: "InsertEdge place x y r = (if rank_of ?ns x \<le> rank_of ?ns y then Some (True, r\<lparr>gc_nodes := ?ns1\<rparr>)
      else do {
            (ok, deltaf, ns) \<leftarrow> ForwardDFS y (rank_of ?ns x) ?ns1;
            if \<not> ok then do {
              nx \<leftarrow> gc_node_at ns x;
              let ns = ns[x := nx\<lparr>gn_out := set_erase y (gn_out nx)\<rparr>];
              ny \<leftarrow> gc_node_at ns y;
              let ns = ns[y := ny\<lparr>gn_in := set_erase x (gn_in ny)\<rparr>];
              ns \<leftarrow> ClearVisitedBits deltaf ns;
              Some (False, r\<lparr>gc_nodes := ns\<rparr>)
            }
            else do {
              (deltab, ns) \<leftarrow> BackwardDFS x (rank_of ?ns y) ns;
              ns \<leftarrow> Reorder deltab deltaf ns;
              Some (True, r\<lparr>gc_nodes := ns\<rparr>)
            }
          })"
      using 3(1) new x unfolding InsertEdge_def by (simp add: Let_def add_edge_def)
    show ?thesis
    proof (cases "rank_of ?ns x \<le> rank_of ?ns y")
      case True
      then have less: "rank_of ?ns x < rank_of ?ns y" using ranked_inj [OF I(2) x] 3(1) by simp
      have R: "same_ranks ?ns ?ns1" by (simp add: same_ranks_def)
      have k: "kept r (r\<lparr>gc_nodes := ?ns1\<rparr>)" by (simp add: kept_def)
      have "topological ?ns1"
        using I(3) less edges_of_mem [OF I(1)] x unfolding topological_def M1 by auto
      moreover have "unmarked ?ns1" using I(4) by (simp add: unmarked_def)
      ultimately have "gc_inv (r\<lparr>gc_nodes := ?ns1\<rparr>)"
        by (intro gc_inv_kept [OF inv k]) (use M1 I(2,7) same_ranks_ranked [OF R] xy in simp_all)
      then have "inserts x y r True (r\<lparr>gc_nodes := ?ns1\<rparr>)"
        using M1(2) k gc_inv_acyclic [of "r\<lparr>gc_nodes := ?ns1\<rparr>"] by (simp add: inserts_def)
      then show ?thesis unfolding unf using True by (intro exI [of _ True] exI [of _ "r\<lparr>gc_nodes := ?ns1\<rparr>"]) simp
    next
      case False
      then have less: "rank_of ?ns y < rank_of ?ns x" by simp
      have "unmarked ?ns1" using I(4) by (simp add: unmarked_def)
      then obtain ok deltaf ns2 where F: "ForwardDFS y (rank_of ?ns x) ?ns1 = Some (ok, deltaf, ns2)"
        and W: "walked gn_out (\<lambda>j. j = rank_of ?ns x) (\<lambda>j. j < rank_of ?ns x) ?ns1 y ok deltaf ns2"
        using forward_search [OF M1(1), of y "rank_of ?ns x"] x by auto
      have len: "length ns2 = length ?ns" using W by (simp add: walked_def visits_def)
      show ?thesis
      proof (cases ok)
        case True
        from insert_reordered [OF inv xy 3(1) place refl less, of deltaf ns2] W True obtain deltab ns3 ns where
          "BackwardDFS x (rank_of ?ns y) ns2 = Some (deltab, ns3)" "Reorder deltab deltaf ns3 = Some ns" "inserts x y r True (r\<lparr>gc_nodes := ns\<rparr>)" by auto
        then show ?thesis unfolding unf using False True F by (intro exI [of _ True] exI [of _ "r\<lparr>gc_nodes := ns\<rparr>"]) simp
      next
        case nok: False
        from insert_cyclic [OF inv xy 3(1) place refl less, of deltaf ns2] F W nok obtain ns where
          "ClearVisitedBits deltaf (del_edge x y ns2) = Some ns" "inserts x y r False (r\<lparr>gc_nodes := ns\<rparr>)" by auto
        then show ?thesis unfolding unf using False nok F x len by (intro exI [of _ False] exI [of _ "r\<lparr>gc_nodes := ns\<rparr>"]) (simp add: Let_def del_edge_def)
      qed
    qed
  qed
qed

section \<open>Reachability\<close>

lemma reach_ranks:
  assumes "topological ns" "(u, v) \<in> (edges_of ns)\<^sup>+"
  shows "rank_of ns u < rank_of ns v"
  using assms(2) by (induction) (use assms(1) in \<open>fastforce simp: topological_def\<close>)+

lemma IsReachableNonConst_eq:
  assumes inv: "gc_inv r" and xy: "x \<in> live r" "y \<in> live r"
  shows "IsReachableNonConst x y r = Some ((x, y) \<in> (gc_edges r)\<^sup>*, r)"
proof -
  let ?ns = "gc_nodes r"
  note I = gc_invD [OF inv]
  have x: "x < length ?ns" "y < length ?ns" using xy by (auto simp: live_def)
  show ?thesis
  proof (cases "x = y")
    case False
    note ne = this
    show ?thesis
    proof (cases "rank_of ?ns x \<ge> rank_of ?ns y")
      case True
      then have "(x, y) \<notin> (gc_edges r)\<^sup>+" using reach_ranks [OF I(3)] by fastforce
      then have "(x, y) \<notin> (gc_edges r)\<^sup>*" using ne by (simp add: rtrancl_eq_or_trancl)
      then show ?thesis using True ne x by (simp add: IsReachableNonConst_def)
    next
      case False
      let ?k = "rank_of ?ns y"
      obtain ok deltaf ns2 where F: "ForwardDFS x ?k ?ns = Some (ok, deltaf, ns2)"
        and W: "walked gn_out (\<lambda>j. j = ?k) (\<lambda>j. j < ?k) ?ns x ok deltaf ns2"
        using forward_search [OF I(1,4) x(1)] by blast
      have V: "visits (set deltaf) ?ns ns2" "set deltaf \<subseteq> {..<length ns2}" using W by (auto simp: walked_def visits_def)
      then obtain ns where C: "ClearVisitedBits deltaf ns2 = Some ns" "cleared (set deltaf) ns2 ns" using ClearVisitedBits_eq by blast
      have "ns ! i = ?ns ! i" if "i < length ?ns" for i
        using C(2) V(1) that I(4) by (simp add: cleared_def visits_def unmarked_def)
      then have ns: "ns = ?ns" using C(2) V(1) by (intro nth_equalityI) (auto simp: cleared_def visits_def)
      have "\<not> ok \<longleftrightarrow> (x, y) \<in> (gc_edges r)\<^sup>*"
      proof
        assume "\<not> ok"
        then show "(x, y) \<in> (gc_edges r)\<^sup>*" using forward_cycle [of ?k ?ns x deltaf ns2 y] W I x(2) by simp
      next
        assume reach: "(x, y) \<in> (gc_edges r)\<^sup>*"
        show "\<not> ok"
        proof
          assume ok
          then have WT: "walked gn_out (\<lambda>j. j = ?k) (\<lambda>j. j < ?k) ?ns x True deltaf ns2" using W by simp
          have up: "\<forall>u v. (u, v) \<in> gc_edges r \<longrightarrow> rank_of ?ns u < ?k \<longrightarrow> rank_of ?ns u < rank_of ?ns v"
            using I(3) by (auto simp: topological_def)
          have lt: "rank_of ?ns x < ?k" using False by simp
          note FS = forward_set [OF WT I(4,1) x(1) lt up]
          have "(x, u) \<in> (gc_edges r)\<^sup>* \<Longrightarrow> (u, y) \<in> (gc_edges r)\<^sup>* \<Longrightarrow> u \<in> set deltaf" for u
          proof (induction rule: rtrancl_induct)
            case (step u v)
            have u: "u \<in> set deltaf" using step by (meson converse_rtrancl_into_rtrancl)
            have v: "rank_of ?ns v \<noteq> ?k" "rank_of ?ns v < ?k \<longrightarrow> v \<in> set deltaf" using FS(3) [OF u step.hyps(2)] by blast+
            have "rank_of ?ns v \<le> ?k" using step.prems reach_ranks [OF I(3), of v y] by (auto simp: rtrancl_eq_or_trancl)
            then show ?case using v by simp
          qed (rule FS(1))
          then have "y \<in> set deltaf" using reach by blast
          then show False using FS(2) by blast
        qed
      qed
      then show ?thesis using False ne x F C(1) ns by (simp add: IsReachableNonConst_def)
    qed
  qed (simp add: IsReachableNonConst_def)
qed

section \<open>Removal\<close>

lemma erase_in_eq:
  "set ys \<subseteq> {..<length ns} \<Longrightarrow> \<exists>ns'. erase_in x ys ns = Some ns' \<and> length ns' = length ns \<and>
     (\<forall>i < length ns. ns' ! i = (if i \<in> set ys then (ns ! i)\<lparr>gn_in := set_erase x (gn_in (ns ! i))\<rparr> else ns ! i))"
proof (induction ys arbitrary: ns)
  case (Cons y ys)
  let ?ns = "ns[y := (ns ! y)\<lparr>gn_in := set_erase x (gn_in (ns ! y))\<rparr>]"
  have y: "y < length ns" "set ys \<subseteq> {..<length ?ns}" using Cons.prems by auto
  have twice: "set_erase x (set_erase x zs) = set_erase x zs" for zs by (simp add: set_erase_def)
  obtain ns' where "erase_in x ys ?ns = Some ns'" "length ns' = length ?ns"
    "\<forall>i < length ?ns. ns' ! i = (if i \<in> set ys then (?ns ! i)\<lparr>gn_in := set_erase x (gn_in (?ns ! i))\<rparr> else ?ns ! i)"
    using Cons.IH [OF y(2)] by blast
  then show ?case using y(1) twice by (auto simp: nth_list_update)
qed simp

lemma erase_out_eq:
  "set ys \<subseteq> {..<length ns} \<Longrightarrow> \<exists>ns'. erase_out x ys ns = Some ns' \<and> length ns' = length ns \<and>
     (\<forall>i < length ns. ns' ! i = (if i \<in> set ys then (ns ! i)\<lparr>gn_out := set_erase x (gn_out (ns ! i))\<rparr> else ns ! i))"
proof (induction ys arbitrary: ns)
  case (Cons y ys)
  let ?ns = "ns[y := (ns ! y)\<lparr>gn_out := set_erase x (gn_out (ns ! y))\<rparr>]"
  have y: "y < length ns" "set ys \<subseteq> {..<length ?ns}" using Cons.prems by auto
  have twice: "set_erase x (set_erase x zs) = set_erase x zs" for zs by (simp add: set_erase_def)
  obtain ns' where "erase_out x ys ?ns = Some ns'" "length ns' = length ?ns"
    "\<forall>i < length ?ns. ns' ! i = (if i \<in> set ys then (?ns ! i)\<lparr>gn_out := set_erase x (gn_out (?ns ! i))\<rparr> else ?ns ! i)"
    using Cons.IH [OF y(2)] by blast
  then show ?case using y(1) twice by (auto simp: nth_list_update)
qed simp

text \<open>The node \<open>b\<close> without its edges.\<close>

definition isolated :: "nat \<Rightarrow> gc_node list \<Rightarrow> gc_node list \<Rightarrow> bool" where
  "isolated b ns ns' \<longleftrightarrow> length ns' = length ns \<and> (\<forall>i < length ns. ns' ! i =
     (if i = b then (ns ! i)\<lparr>gn_in := [], gn_out := []\<rparr> else (ns ! i)\<lparr>gn_in := set_erase b (gn_in (ns ! i)), gn_out := set_erase b (gn_out (ns ! i))\<rparr>))"

lemma set_erase_absent: "x \<notin> set xs \<Longrightarrow> set_erase x xs = xs"
  by (induction xs) (auto simp: set_erase_def)

lemma isolated_inv:
  assumes inv: "gc_inv r" and b: "b \<in> live r" and iso: "isolated b (gc_nodes r) ns"
  defines "r' \<equiv> r\<lparr>gc_nodes := ns, free_nodes := free_nodes r @ [b]\<rparr>"
  shows "gc_inv r'" "gc_edges r' = {(u, v) \<in> gc_edges r. u \<noteq> b \<and> v \<noteq> b}" "live r' = live r - {b}"
    "same_ranks (gc_nodes r) ns"
proof -
  let ?ns = "gc_nodes r"
  note I = gc_invD [OF inv]
  have bl: "b < length ?ns" "b \<notin> set (free_nodes r)" using b by (auto simp: live_def)
  have len: "length ns = length ?ns" using iso by (simp add: isolated_def)
  have N: "ns ! i = (if i = b then (?ns ! i)\<lparr>gn_in := [], gn_out := []\<rparr> else (?ns ! i)\<lparr>gn_in := set_erase b (gn_in (?ns ! i)), gn_out := set_erase b (gn_out (?ns ! i))\<rparr>)"
    if "i < length ?ns" for i using iso that by (simp add: isolated_def)
  have M: "mirrored ns"
  proof (rule mirroredI)
    fix i j assume i: "i < length ns"
    show "distinct (gn_out (ns ! i))" "distinct (gn_in (ns ! i))" using N i mirroredD(1,2) [OF I(1)] by (simp_all add: len)
    show "j \<in> set (gn_out (ns ! i)) \<Longrightarrow> j < length ns" "j \<in> set (gn_in (ns ! i)) \<Longrightarrow> j < length ns"
      using N i mirrored_less [OF I(1), of i j] by (auto simp: len split: if_splits)
    show "j < length ns \<Longrightarrow> j \<in> set (gn_out (ns ! i)) \<longleftrightarrow> i \<in> set (gn_in (ns ! j))"
      using N i mirroredD(5) [OF I(1), of i j] by (auto simp: len)
  qed
  show E: "gc_edges r' = {(u, v) \<in> gc_edges r. u \<noteq> b \<and> v \<noteq> b}"
    using N len by (auto simp: edges_of_def r'_def split: if_splits)
  show L: "live r' = live r - {b}" using len by (auto simp: live_def r'_def)
  show R: "same_ranks ?ns ns" using N len by (simp add: same_ranks_def)
  show "gc_inv r'"
  proof (rule gc_invI)
    show "mirrored (gc_nodes r')" using M by (simp add: r'_def)
    show "ranked (gc_nodes r')" using same_ranks_ranked [OF R] I(2) by (simp add: r'_def)
    show "topological (gc_nodes r')" using same_ranks_topological [OF R I(1) _ I(3)] E by (auto simp: r'_def)
    show "unmarked (gc_nodes r')" using N len I(4) by (simp add: unmarked_def r'_def)
    show "distinct (free_nodes r')" "set (free_nodes r') \<subseteq> {..<length (gc_nodes r')}" using I(5,6) bl len by (auto simp: r'_def)
    show "gc_edges r' \<subseteq> live r' \<times> live r'" unfolding E L using I(7) by auto
  qed
qed

lemma no_loop: "gc_inv r \<Longrightarrow> (x, x) \<notin> gc_edges r"
  using gc_inv_acyclic [of r] by (auto simp: acyclic_def)

lemma RemoveNode_eq:
  assumes inv: "gc_inv r" and b: "b \<in> live r"
  shows "\<exists>ns. gc_RemoveNode b r = Some (r\<lparr>gc_nodes := ns, free_nodes := free_nodes r @ [b]\<rparr>) \<and> isolated b (gc_nodes r) ns"
proof -
  let ?ns = "gc_nodes r"
  note I = gc_invD [OF inv]
  have bl: "b < length ?ns" using b by (auto simp: live_def)
  have nl: "b \<notin> set (gn_out (?ns ! b))" "b \<notin> set (gn_in (?ns ! b))" using no_loop [OF inv, of b] bl edges_of_mem [OF I(1)] edges_of_in [OF I(1)] by auto
  obtain ns1 where 1: "erase_in b (gn_out (?ns ! b)) ?ns = Some ns1" "length ns1 = length ?ns"
    "\<forall>i < length ?ns. ns1 ! i = (if i \<in> set (gn_out (?ns ! b)) then (?ns ! i)\<lparr>gn_in := set_erase b (gn_in (?ns ! i))\<rparr> else ?ns ! i)"
    using erase_in_eq mirroredD(3) [OF I(1) bl] by blast
  have b1: "ns1 ! b = ?ns ! b" using 1(3) bl nl by simp
  have "set (gn_in (ns1 ! b)) \<subseteq> {..<length ns1}" using mirroredD(4) [OF I(1) bl] b1 1(2) by simp
  then obtain ns2 where 2: "erase_out b (gn_in (ns1 ! b)) ns1 = Some ns2" "length ns2 = length ns1"
    "\<forall>i < length ns1. ns2 ! i = (if i \<in> set (gn_in (ns1 ! b)) then (ns1 ! i)\<lparr>gn_out := set_erase b (gn_out (ns1 ! i))\<rparr> else ns1 ! i)"
    using erase_out_eq by blast
  let ?ns' = "ns2[b := (ns2 ! b)\<lparr>gn_in := [], gn_out := []\<rparr>]"
  have b2: "ns2 ! b = ?ns ! b" using 2(3) bl nl b1 1(2) by simp
  have "isolated b ?ns ?ns'"
    unfolding isolated_def
  proof (intro conjI allI impI)
    fix i assume i: "i < length ?ns"
    have in_iff: "i \<in> set (gn_out (?ns ! b)) \<longleftrightarrow> b \<in> set (gn_in (?ns ! i))" "b \<in> set (gn_out (?ns ! i)) \<longleftrightarrow> i \<in> set (gn_in (?ns ! b))"
      using mirroredD(5) [OF I(1)] bl i by simp_all
    show "?ns' ! i = (if i = b then (?ns ! i)\<lparr>gn_in := [], gn_out := []\<rparr>
        else (?ns ! i)\<lparr>gn_in := set_erase b (gn_in (?ns ! i)), gn_out := set_erase b (gn_out (?ns ! i))\<rparr>)"
    proof (cases "i = b")
      case False
      have "ns1 ! i = (?ns ! i)\<lparr>gn_in := set_erase b (gn_in (?ns ! i))\<rparr>"
        using 1(3) i in_iff(1) set_erase_absent [of b "gn_in (?ns ! i)"] by auto
      moreover have "ns2 ! i = (ns1 ! i)\<lparr>gn_out := set_erase b (gn_out (ns1 ! i))\<rparr>"
        using 2(3) i 1(2) in_iff(2) b1 calculation set_erase_absent [of b "gn_out (?ns ! i)"] by auto
      ultimately show ?thesis using False by simp
    qed (use b2 bl 1(2) 2(2) in simp)
  qed (use 1 2 in simp)
  then show ?thesis using 1 2 bl b1 b2 by (auto simp: gc_RemoveNode_def)
qed

lemma isolate_first:
  assumes inv: "gc_inv r" and b: "b \<in> live r"
  shows "\<exists>ns1 ns2. erase_in b (gn_out (gc_nodes r ! b)) ((gc_nodes r)[b := (gc_nodes r ! b)\<lparr>gn_in := [], gn_out := []\<rparr>]) = Some ns1 \<and>
    erase_out b (gn_in (gc_nodes r ! b)) ns1 = Some ns2 \<and> isolated b (gc_nodes r) ns2"
proof -
  let ?ns = "gc_nodes r" let ?cl = "(gc_nodes r)[b := (gc_nodes r ! b)\<lparr>gn_in := [], gn_out := []\<rparr>]"
  note I = gc_invD [OF inv]
  have bl: "b < length ?ns" using b by (auto simp: live_def)
  have nl: "b \<notin> set (gn_out (?ns ! b))" "b \<notin> set (gn_in (?ns ! b))" using no_loop [OF inv, of b] bl edges_of_mem [OF I(1)] edges_of_in [OF I(1)] by auto
  have "set (gn_out (?ns ! b)) \<subseteq> {..<length ?cl}" using mirroredD(3) [OF I(1) bl] by simp
  then obtain ns1 where 1: "erase_in b (gn_out (?ns ! b)) ?cl = Some ns1" "length ns1 = length ?cl"
    "\<forall>i < length ?cl. ns1 ! i = (if i \<in> set (gn_out (?ns ! b)) then (?cl ! i)\<lparr>gn_in := set_erase b (gn_in (?cl ! i))\<rparr> else ?cl ! i)"
    using erase_in_eq by blast
  have "set (gn_in (?ns ! b)) \<subseteq> {..<length ns1}" using mirroredD(4) [OF I(1) bl] 1(2) by simp
  then obtain ns2 where 2: "erase_out b (gn_in (?ns ! b)) ns1 = Some ns2" "length ns2 = length ns1"
    "\<forall>i < length ns1. ns2 ! i = (if i \<in> set (gn_in (?ns ! b)) then (ns1 ! i)\<lparr>gn_out := set_erase b (gn_out (ns1 ! i))\<rparr> else ns1 ! i)"
    using erase_out_eq by blast
  have "isolated b ?ns ns2"
    unfolding isolated_def
  proof (intro conjI allI impI)
    fix i assume i: "i < length ?ns"
    have in_iff: "i \<in> set (gn_out (?ns ! b)) \<longleftrightarrow> b \<in> set (gn_in (?ns ! i))" "b \<in> set (gn_out (?ns ! i)) \<longleftrightarrow> i \<in> set (gn_in (?ns ! b))"
      using mirroredD(5) [OF I(1)] bl i by simp_all
    show "ns2 ! i = (if i = b then (?ns ! i)\<lparr>gn_in := [], gn_out := []\<rparr>
        else (?ns ! i)\<lparr>gn_in := set_erase b (gn_in (?ns ! i)), gn_out := set_erase b (gn_out (?ns ! i))\<rparr>)"
    proof (cases "i = b")
      case True
      then have "ns1 ! i = ?cl ! i" using 1(3) i nl(1) by simp
      then show ?thesis using 2(3) i nl(2) True 1(2) by simp
    next
      case False
      have "ns1 ! i = (?ns ! i)\<lparr>gn_in := set_erase b (gn_in (?ns ! i))\<rparr>"
        using 1(3) i False in_iff(1) set_erase_absent [of b "gn_in (?ns ! i)"] by auto
      moreover have "ns2 ! i = (ns1 ! i)\<lparr>gn_out := set_erase b (gn_out (ns1 ! i))\<rparr>"
        using 2(3) i 1(2) in_iff(2) calculation set_erase_absent [of b "gn_out (?ns ! i)"] by auto
      ultimately show ?thesis using False by simp
    qed
  qed (use 1 2 in simp)
  then show ?thesis using 1 2 by blast
qed

section \<open>Contraction\<close>

lemma insert_edges_eq:
  assumes "gc_inv r" "good_place place" "\<And>u v. (u, v) \<in> set es \<Longrightarrow> u \<in> live r \<and> v \<in> live r" "acyclic (set es \<union> gc_edges r)"
  shows "\<exists>r'. insert_edges place es r = Some r' \<and> gc_inv r' \<and> kept r r' \<and> gc_edges r' = set es \<union> gc_edges r"
  using assms
proof (induction es arbitrary: r)
  case (Cons e es)
  obtain x y where e: "e = (x, y)" by (cases e)
  have xy: "x \<in> live r" "y \<in> live r" using Cons.prems(3) [of x y] e by auto
  obtain b r1 where 1: "InsertEdge place x y r = Some (b, r1)" "inserts x y r b r1"
    using InsertEdge_inserts [OF Cons.prems(1,2) xy] by blast
  have "acyclic (insert (x, y) (gc_edges r))" by (rule acyclic_subset [OF Cons.prems(4)]) (auto simp: e)
  then have r1: "gc_inv r1" "kept r r1" "gc_edges r1 = insert (x, y) (gc_edges r)" using 1(2) by (auto simp: inserts_def)
  have same: "set es \<union> gc_edges r1 = set (e # es) \<union> gc_edges r" by (auto simp: r1(3) e)
  obtain r' where "insert_edges place es r1 = Some r'" "gc_inv r'" "kept r1 r'" "gc_edges r' = set es \<union> gc_edges r1"
    using Cons.IH [OF r1(1) Cons.prems(2)] Cons.prems(3,4) kept_live [OF r1(2)] unfolding same by auto
  then show ?case using 1(1) kept_trans [OF r1(2)] e same by auto
qed (simp add: kept_def)

text \<open>The graph with the edge \<open>(a, b)\<close> contracted to the node \<open>a\<close>.\<close>

definition contracted :: "nat \<Rightarrow> nat \<Rightarrow> (nat \<times> nat) set \<Rightarrow> (nat \<times> nat) set" where
  "contracted a b E = {(if u = b then a else u, if v = b then a else v) |u v. (u, v) \<in> E - {(a, b)}}"

lemma contractedE:
  assumes "(u, v) \<in> contracted a b E"
  obtains u' v' where "(u', v') \<in> E - {(a, b)}" "u = (if u' = b then a else u')" "v = (if v' = b then a else v')"
  using assms unfolding contracted_def by blast

lemma contractedI:
  "(u, v) \<in> E - {(a, b)} \<Longrightarrow> (if u = b then a else u, if v = b then a else v) \<in> contracted a b E"
  unfolding contracted_def by blast

lemma return_path:
  "(c, a) \<in> R\<^sup>* \<Longrightarrow> c = a \<or> (\<exists>q. (c, q) \<in> {(u, v) \<in> R. u \<noteq> a \<and> v \<noteq> a}\<^sup>* \<and> (q, a) \<in> R)"
proof (induction rule: converse_rtrancl_induct)
  case (step c d)
  show ?case
  proof (cases "c = a \<or> d = a")
    case True
    then show ?thesis using step.hyps(1) by blast
  next
    case False
    then obtain q where "(d, q) \<in> {(u, v) \<in> R. u \<noteq> a \<and> v \<noteq> a}\<^sup>*" "(q, a) \<in> R" using step.IH by blast
    moreover have "(c, d) \<in> {(u, v) \<in> R. u \<noteq> a \<and> v \<noteq> a}" using step.hyps(1) False by simp
    ultimately show ?thesis by (meson converse_rtrancl_into_rtrancl)
  qed
qed simp

lemma through_or_avoiding:
  "(u, v) \<in> R\<^sup>+ \<Longrightarrow> (u, v) \<in> {(u, v) \<in> R. u \<noteq> a \<and> v \<noteq> a}\<^sup>+ \<or> (u, a) \<in> R\<^sup>* \<and> (a, v) \<in> R\<^sup>*"
proof (induction rule: trancl_induct)
  case (base v)
  then show ?case by (cases "u = a \<or> v = a") auto
next
  case (step v w)
  show ?case
  proof (cases "v = a \<or> w = a")
    case True
    have "(u, v) \<in> R\<^sup>*" "(u, w) \<in> R\<^sup>*" using step.hyps by (auto intro: trancl_into_rtrancl trancl_into_trancl)
    then show ?thesis using True step.hyps(2) by auto
  next
    case False
    then have "(v, w) \<in> {(u, v) \<in> R. u \<noteq> a \<and> v \<noteq> a}" using step.hyps(2) by simp
    then show ?thesis using step.IH step.hyps(2) by (meson rtrancl.rtrancl_into_rtrancl trancl.trancl_into_trancl)
  qed
qed

lemma contracted_acyclic:
  assumes ac: "acyclic E" and ab: "(a, b) \<in> E"
  shows "acyclic (contracted a b E) \<longleftrightarrow> (a, b) \<notin> (E - {(a, b)})\<^sup>*"
proof
  let ?C = "contracted a b E" let ?F = "E - {(a, b)}" let ?f = "\<lambda>u. if u = b then a else u"
  have ne: "a \<noteq> b" using ac ab by (auto simp: acyclic_def)
  show "(a, b) \<notin> ?F\<^sup>*" if C: "acyclic ?C"
  proof
    assume "(a, b) \<in> ?F\<^sup>*"
    then have "(a, b) \<in> ?F\<^sup>+" using ne by (simp add: rtrancl_eq_or_trancl)
    moreover have "(?f u, ?f v) \<in> ?C\<^sup>+" if "(u, v) \<in> ?F\<^sup>+" for u v
      using that
    proof (induction rule: trancl_induct)
      case (base v)
      from contractedI [OF base] show ?case by (rule r_into_trancl)
    next
      case (step v w)
      from contractedI [OF step.hyps(2)] show ?case by (rule trancl_into_trancl [OF step.IH])
    qed
    ultimately have "(?f a, ?f b) \<in> ?C\<^sup>+" by blast
    then show False using C ne by (auto simp: acyclic_def)
  qed
  show "acyclic ?C" if nr: "(a, b) \<notin> ?F\<^sup>*"
  proof (rule ccontr)
    let ?T = "{(u, v) \<in> ?C. u \<noteq> a \<and> v \<noteq> a}"
    have acF: "acyclic ?F" by (rule acyclic_subset [OF ac]) blast
    have TF: "?T \<subseteq> ?F"
    proof clarify
      fix u v assume "(u, v) \<in> ?C" "u \<noteq> a" "v \<noteq> a"
      then show "(u, v) \<in> ?F" by (elim contractedE) (auto split: if_splits)
    qed
    assume "\<not> acyclic ?C"
    then obtain u where u: "(u, u) \<in> ?C\<^sup>+" by (auto simp: acyclic_def)
    have "(u, u) \<notin> ?T\<^sup>+" using acF trancl_mono [OF _ TF] by (auto simp: acyclic_def)
    then have "(u, a) \<in> ?C\<^sup>*" "(a, u) \<in> ?C\<^sup>*" using through_or_avoiding [OF u, of a] by blast+
    then have "(a, a) \<in> ?C\<^sup>+" using u by (meson rtrancl_trancl_trancl trancl_rtrancl_trancl)
    then obtain p where p: "(a, p) \<in> ?C" "(p, a) \<in> ?C\<^sup>*" by (meson tranclD)
    obtain s p' where s1: "(s, p') \<in> ?F" "a = ?f s" "p = ?f p'" using p(1) by (elim contractedE)
    then have s: "(s, p') \<in> ?F" "s = a \<or> s = b" "p = ?f p'" by (auto split: if_splits)
    obtain t where t: "(p', t) \<in> ?F\<^sup>*" "t = a \<or> t = b"
    proof (cases "p = a")
      case True
      then show ?thesis using that [of p'] s(3) by (auto split: if_splits)
    next
      case False
      then obtain q where q: "(p, q) \<in> ?T\<^sup>*" "(q, a) \<in> ?C" using return_path [OF p(2)] by blast
      have pq: "(p, q) \<in> ?F\<^sup>*" using q(1) rtrancl_mono [OF TF] by blast
      have "q \<noteq> a" using q(1) False by (cases rule: rtrancl.cases) auto
      obtain q' t where qt: "(q', t) \<in> ?F" "q = ?f q'" "a = ?f t" using q(2) by (elim contractedE)
      then have "(q, t) \<in> ?F" "t = a \<or> t = b" using \<open>q \<noteq> a\<close> by (auto split: if_splits)
      then show ?thesis using that [of t] pq s(3) False by (auto split: if_splits intro: rtrancl_into_rtrancl)
    qed
    have st: "(s, t) \<in> ?F\<^sup>+" using s(1) t(1) by (rule rtrancl_into_trancl2)
    have stE: "(s, t) \<in> E\<^sup>+" using st by (rule trancl_mono) blast
    consider "s = t" | "s = a" "t = b" | "s = b" "t = a" using s(2) t(2) by blast
    then show False
    proof cases
      case 1
      then show ?thesis using stE ac by (auto simp: acyclic_def)
    next
      case 2
      then show ?thesis using st nr by (auto dest: trancl_into_rtrancl)
    next
      case 3
      then have "(a, a) \<in> E\<^sup>+" using stE ab by (meson trancl_into_trancl2)
      then show ?thesis using ac by (auto simp: acyclic_def)
    qed
  qed
qed

lemma contracted_eq:
  assumes "(a, b) \<in> E" "(b, b) \<notin> E" "(a, a) \<notin> E" "(b, a) \<notin> E"
  shows "contracted a b E = {(u, v) \<in> E. u \<noteq> b \<and> v \<noteq> b} \<union> {(a, y) |y. (b, y) \<in> E} \<union> {(y, a) |y. (y, b) \<in> E \<and> y \<noteq> a}"
    (is "_ = ?K")
proof
  show "contracted a b E \<subseteq> ?K"
  proof
    fix e assume "e \<in> contracted a b E"
    then obtain u v where "(u, v) \<in> E - {(a, b)}" "e = (if u = b then a else u, if v = b then a else v)" unfolding contracted_def by blast
    then show "e \<in> ?K" using assms by (cases "u = b"; cases "v = b") auto
  qed
  show "?K \<subseteq> contracted a b E"
  proof
    fix e assume "e \<in> ?K"
    then consider u v where "e = (u, v)" "(u, v) \<in> E" "u \<noteq> b" "v \<noteq> b" | y where "e = (a, y)" "(b, y) \<in> E" | y where "e = (y, a)" "(y, b) \<in> E" "y \<noteq> a" by blast
    then show "e \<in> contracted a b E"
    proof cases
      case 1
      then show ?thesis using contractedI [of u v E a b] by simp
    next
      case 2
      moreover from this have "y \<noteq> b" "b \<noteq> a" using assms by blast+
      ultimately show ?thesis using contractedI [of b y E a b] by simp
    next
      case 3
      moreover from this have "y \<noteq> b" using assms by blast
      ultimately show ?thesis using contractedI [of y b E a b] by simp
    qed
  qed
qed

lemma RemoveEdge_inv:
  assumes inv: "gc_inv r" and xy: "x \<in> live r" "y \<in> live r"
  shows "\<exists>r'. gc_RemoveEdge x y r = Some r' \<and> gc_inv r' \<and> kept r r' \<and> gc_edges r' = gc_edges r - {(x, y)} \<and> same_ranks (gc_nodes r) (gc_nodes r')"
proof -
  let ?ns = "gc_nodes r" let ?r = "r\<lparr>gc_nodes := del_edge x y (gc_nodes r)\<rparr>"
  note I = gc_invD [OF inv]
  have x: "x < length ?ns" "y < length ?ns" using xy by (auto simp: live_def)
  note M = del_edge_mirrored [OF I(1) x]
  have R: "same_ranks ?ns (del_edge x y ?ns)" by (simp add: same_ranks_def)
  have k: "kept r ?r" by (simp add: kept_def)
  have "gc_inv ?r"
    by (rule gc_inv_kept [OF inv k]) (use M I same_ranks_ranked [OF R] same_ranks_topological [OF R I(1) _ I(3)] in \<open>auto simp: unmarked_def\<close>)
  then show ?thesis using gc_RemoveEdge_eq [OF x] M(2) k R by simp
qed

lemma ContractEdge_contracts:
  assumes inv: "gc_inv r" and place: "good_place place" and ab: "(a, b) \<in> gc_edges r"
  shows "\<exists>c r'. ContractEdge place a b r = Some (c, r') \<and> gc_inv r' \<and> (c \<longleftrightarrow> acyclic (contracted a b (gc_edges r))) \<and>
    gc_edges r' = (if c then contracted a b (gc_edges r) else gc_edges r) \<and> live r' = (if c then live r - {b} else live r)"
proof -
  let ?E = "gc_edges r"
  note I = gc_invD [OF inv]
  have live: "a \<in> live r" "b \<in> live r" using ab I(7) by auto
  have len: "a < length (gc_nodes r)" "b < length (gc_nodes r)" using live by (auto simp: live_def)
  have ac: "acyclic ?E" by (rule gc_inv_acyclic [OF inv])
  have ne: "a \<noteq> b" using no_loop [OF inv] ab by blast
  have has: "HasEdge a b r = Some True" using ab len by (simp add: HasEdge_def edges_of_def)
  obtain r1 where r1: "gc_RemoveEdge a b r = Some r1" "gc_inv r1" "kept r r1" "gc_edges r1 = ?E - {(a, b)}"
    using RemoveEdge_inv [OF inv live] by blast
  note I1 = gc_invD [OF r1(2)]
  have live1: "a \<in> live r1" "b \<in> live r1" "live r1 = live r" using live kept_live [OF r1(3)] by simp_all
  have reach: "IsReachableNonConst a b r1 = Some ((a, b) \<in> (gc_edges r1)\<^sup>*, r1)" by (rule IsReachableNonConst_eq [OF r1(2) live1(1,2)])
  show ?thesis
  proof (cases "(a, b) \<in> (gc_edges r1)\<^sup>*")
    case True
    have same: "insert (a, b) (gc_edges r1) = ?E" using ab r1(4) by auto
    obtain c r2 where r2: "InsertEdge place a b r1 = Some (c, r2)" "inserts a b r1 c r2"
      using InsertEdge_inserts [OF r1(2) place live1(1,2)] by blast
    have "gc_inv r2" "gc_edges r2 = ?E" "live r2 = live r"
      using r2(2) ac same kept_live [of r1 r2] live1(3) by (auto simp: inserts_def split: if_splits)
    moreover have "\<not> acyclic (contracted a b ?E)" using contracted_acyclic [OF ac ab] True r1(4) by simp
    moreover have "ContractEdge place a b r = Some (False, r2)" using has r1(1) reach True r2(1) by (simp add: ContractEdge_def)
    ultimately show ?thesis by (intro exI [of _ False] exI [of _ r2]) simp
  next
    case False
    let ?nb = "gc_nodes r1 ! b"
    have bl: "b < length (gc_nodes r1)" using live1 by (simp add: live_def)
    obtain ns1 ns2 where N: "erase_in b (gn_out ?nb) ((gc_nodes r1)[b := ?nb\<lparr>gn_in := [], gn_out := []\<rparr>]) = Some ns1"
      "erase_out b (gn_in ?nb) ns1 = Some ns2" "isolated b (gc_nodes r1) ns2"
      using isolate_first [OF r1(2) live1(2)] by blast
    let ?r2 = "r1\<lparr>gc_nodes := ns2, free_nodes := free_nodes r1 @ [b]\<rparr>"
    note Iso = isolated_inv [OF r1(2) live1(2) N(3)]
    have outs: "y \<in> set (gn_out ?nb) \<longleftrightarrow> (b, y) \<in> ?E" "y \<in> set (gn_in ?nb) \<longleftrightarrow> (y, b) \<in> ?E \<and> y \<noteq> a" for y
      using edges_of_mem [OF I1(1), of b y] edges_of_in [OF I1(1), of y b] r1(4) bl ne
        mirrored_less(1) [OF I1(1) bl, of y] mirrored_less(2) [OF I1(1) bl, of y] by auto
    have nba: "(b, a) \<notin> ?E"
    proof
      assume "(b, a) \<in> ?E"
      then have "(a, a) \<in> ?E\<^sup>+" using ab by (meson r_into_trancl trancl_into_trancl2)
      then show False using ac by (auto simp: acyclic_def)
    qed
    have C: "contracted a b ?E = {(u, v) \<in> ?E. u \<noteq> b \<and> v \<noteq> b} \<union> {(a, y) |y. (b, y) \<in> ?E} \<union> {(y, a) |y. (y, b) \<in> ?E \<and> y \<noteq> a}"
      by (rule contracted_eq [OF ab no_loop [OF inv] no_loop [OF inv] nba])
    have acC: "acyclic (contracted a b ?E)" using contracted_acyclic [OF ac ab] False r1(4) by simp
    let ?o = "map (\<lambda>y. (a, y)) (gn_out ?nb)" and ?i = "map (\<lambda>y. (y, a)) (gn_in ?nb)"
    have E2: "gc_edges ?r2 = {(u, v) \<in> ?E. u \<noteq> b \<and> v \<noteq> b}" unfolding Iso(2) r1(4) by auto
    have L2: "live ?r2 = live r - {b}" unfolding Iso(3) live1(3) by simp
    have E3: "set ?o \<union> gc_edges ?r2 \<subseteq> contracted a b ?E" "set ?i \<union> (set ?o \<union> gc_edges ?r2) = contracted a b ?E"
      unfolding C E2 using outs by auto
    have l: "y \<in> live ?r2" if "(b, y) \<in> ?E \<or> (y, b) \<in> ?E" for y
      using that I(7) no_loop [OF inv, of b] unfolding L2 by auto
    have la: "a \<in> live ?r2" using live ne L2 by simp
    obtain r3 where r3: "insert_edges place ?o ?r2 = Some r3" "gc_inv r3" "kept ?r2 r3" "gc_edges r3 = set ?o \<union> gc_edges ?r2"
      using insert_edges_eq [OF Iso(1) place, of ?o] l la outs acyclic_subset [OF acC E3(1)] by auto
    have e4: "set ?i \<union> gc_edges r3 = contracted a b ?E" unfolding r3(4) by (rule E3(2))
    obtain r4 where r4: "insert_edges place ?i r3 = Some r4" "gc_inv r4" "kept r3 r4" "gc_edges r4 = set ?i \<union> gc_edges r3"
      using insert_edges_eq [OF r3(2) place, of ?i] l la outs kept_live [OF r3(3)] acC unfolding e4 by auto
    have "ContractEdge place a b r = Some (True, r4)"
      using has r1(1) reach False bl N(1,2) r3(1) r4(1) by (simp add: ContractEdge_def Let_def)
    moreover have "live r4 = live r - {b}" using kept_live [OF r4(3)] kept_live [OF r3(3)] L2 by simp
    ultimately show ?thesis using r4(2,4) e4 acC by (intro exI [of _ True] exI [of _ r4]) simp
  qed
qed

section \<open>Paths\<close>

lemma push_unseen_eq:
  "push_unseen ws stack seen = (stack', seen') \<Longrightarrow>
    \<exists>vs. stack' = map int vs @ stack \<and> set vs \<subseteq> set ws \<and> set seen' = set seen \<union> set ws \<and> set seen' \<subseteq> set seen \<union> set vs"
proof (induction ws arbitrary: stack seen)
  case (Cons w ws)
  show ?case
  proof (cases "w \<in> set seen")
    case True
    then have "push_unseen ws stack seen = (stack', seen')" using Cons.prems by simp
    from Cons.IH [OF this] show ?thesis using True by auto
  next
    case False
    then have "push_unseen ws (int w # stack) (w # seen) = (stack', seen')" using Cons.prems by simp
    from Cons.IH [OF this] obtain vs where "stack' = map int vs @ int w # stack" "set vs \<subseteq> set ws" "set seen' = set (w # seen) \<union> set ws"
      "set seen' \<subseteq> set (w # seen) \<union> set vs" by blast
    then show ?thesis by (intro exI [of _ "vs @ [w]"]) auto
  qed
qed simp

text \<open>
  The stack below a path \<open>ps\<close>, its newest node first: above the marker of each node lie successors of it.
\<close>

fun path_stack :: "(nat \<times> nat) set \<Rightarrow> nat \<Rightarrow> nat list \<Rightarrow> int list \<Rightarrow> bool" where
  "path_stack E x [] stack \<longleftrightarrow> stack = [] \<or> stack = [int x]"
| "path_stack E x (u # ps) stack \<longleftrightarrow> (\<exists>ws rest. stack = map int ws @ -1 # rest \<and> (\<forall>w \<in> set ws. (u, w) \<in> E) \<and> path_stack E x ps rest)"

fun back_path :: "(nat \<times> nat) set \<Rightarrow> nat \<Rightarrow> nat list \<Rightarrow> bool" where
  "back_path E x [] \<longleftrightarrow> True"
| "back_path E x [u] \<longleftrightarrow> u = x"
| "back_path E x (u # v # ps) \<longleftrightarrow> (v, u) \<in> E \<and> back_path E x (v # ps)"

definition finding :: "(nat \<times> nat) set \<Rightarrow> nat \<Rightarrow> nat \<Rightarrow> int \<Rightarrow> nat list \<Rightarrow> nat set \<Rightarrow> int list \<Rightarrow> nat list \<Rightarrow> nat list \<Rightarrow> bool" where
  "finding E x y mx ps D stack seen path \<longleftrightarrow>
     path_stack E x ps stack \<and> back_path E x ps \<and> mx \<le> int (length path) \<and>
     (\<forall>i < length ps. int i < mx \<longrightarrow> path ! i = rev ps ! i) \<and>
     (\<forall>d \<in> D. \<forall>w. (d, w) \<in> E \<longrightarrow> w \<in> set seen) \<and> set seen \<union> {x} \<subseteq> D \<union> nat ` (set stack - {-1}) \<and> y \<notin> D"

text \<open>A path as \<^verbatim>\<open>FindPath\<close> reports it.\<close>

definition path_found :: "(nat \<times> nat) set \<Rightarrow> nat \<Rightarrow> nat \<Rightarrow> int \<Rightarrow> nat list \<Rightarrow> nat list \<Rightarrow> bool" where
  "path_found E x y mx p path \<longleftrightarrow> p \<noteq> [] \<and> hd p = x \<and> last p = y \<and> successively (\<lambda>u v. (u, v) \<in> E) p \<and>
     (\<forall>i < length p. int i < mx \<longrightarrow> path ! i = p ! i)"

lemma back_path_rev: "back_path E x ps \<Longrightarrow> ps \<noteq> [] \<Longrightarrow> last ps = x \<and> successively (\<lambda>u v. (u, v) \<in> E) (rev ps)"
  by (induction E x ps rule: back_path.induct) (auto simp: successively_append_iff)

lemma stack_top:
  assumes "path_stack E x ps (n # stack)"
  shows "n = -1 \<and> (\<exists>u ps'. ps = u # ps' \<and> path_stack E x ps' stack) \<or>
    n \<ge> 0 \<and> path_stack E x (nat n # ps) (-1 # stack) \<and> (back_path E x ps \<longrightarrow> back_path E x (nat n # ps))"
proof (cases ps)
  case (Cons u ps')
  then obtain ws rest where w: "n # stack = map int ws @ -1 # rest" "\<forall>w \<in> set ws. (u, w) \<in> E" "path_stack E x ps' rest" using assms by auto
  show ?thesis
  proof (cases ws)
    case Nil
    then show ?thesis using w Cons by auto
  next
    case (Cons w ws')
    then have "n = int w" "(u, w) \<in> E" "stack = map int ws' @ -1 # rest" using w by auto
    moreover from this have "path_stack E x (u # ps') stack" using w Cons by auto
    ultimately have n: "n = int w" "(u, w) \<in> E" "path_stack E x (u # ps') stack" by blast+
    then have "path_stack E x (nat n # u # ps') (-1 # stack)"
      by (intro path_stack.simps(2) [THEN iffD2] exI [of _ "[]"] exI [of _ stack]) (simp del: path_stack.simps)
    then show ?thesis using \<open>ps = u # ps'\<close> n(1,2) by (simp del: path_stack.simps)
  qed
next
  case Nil
  then have "n = int x" "stack = []" using assms by auto
  moreover have "path_stack E x [x] [-1]" by (intro path_stack.simps(2) [THEN iffD2] exI [of _ "[]"]) simp
  ultimately show ?thesis using Nil by simp
qed

lemma find_loop_correct:
  assumes "finding (edges_of ns) x y mx ps D stack seen path" "len = int (length ps)" "y < length ns"
    and "mirrored ns" "nat ` (set stack - {-1}) \<subseteq> {..<length ns}"
  shows "\<exists>len' path'. find_loop ns y mx stack seen len path = Some (len', path') \<and> length path' = length path \<and>
    (len' = 0 \<and> (x, y) \<notin> (edges_of ns)\<^sup>* \<or> (\<exists>p. len' = int (length p) \<and> path_found (edges_of ns) x y mx p path'))"
  using assms
proof (induction ns y mx stack seen len path arbitrary: ps D rule: find_loop.induct)
  case (1 ns y mx stack seen len path)
  let ?E = "edges_of ns"
  note F = 1(3) and len = 1(4) and y = 1(5) and m = 1(6) and small = 1(7)
  show ?case
  proof (cases stack)
    case Nil
    have D: "\<And>d w. d \<in> D \<Longrightarrow> (d, w) \<in> ?E \<Longrightarrow> w \<in> D" "x \<in> D" "y \<notin> D" using F Nil by (auto simp: finding_def)
    have "(x, v) \<in> ?E\<^sup>* \<Longrightarrow> v \<in> D" for v by (induction rule: rtrancl_induct) (use D in auto)
    then show ?thesis using D(3) Nil by (auto simp: find_loop.simps)
  next
    case (Cons n stack1)
    have ps: "path_stack ?E x ps (n # stack1)" "back_path ?E x ps" using F Cons by (auto simp: finding_def)
    from stack_top [OF ps(1)] show ?thesis
    proof
      assume "n = -1 \<and> (\<exists>u ps'. ps = u # ps' \<and> path_stack ?E x ps' stack1)"
      then obtain u ps' where u: "n = -1" "ps = u # ps'" "path_stack ?E x ps' stack1" by blast
      have "back_path ?E x ps'" using ps(2) u(2) by (cases ps') simp_all
      moreover have "path ! i = rev ps' ! i" if "i < length ps'" "int i < mx" for i
        using F that u(2) by (auto simp: finding_def nth_append)
      ultimately have F': "finding ?E x y mx ps' D stack1 seen path" using F u Cons by (auto simp: finding_def)
      have "\<exists>len' path'. find_loop ns y mx stack1 seen (len - 1) path = Some (len', path') \<and> length path' = length path \<and>
          (len' = 0 \<and> (x, y) \<notin> ?E\<^sup>* \<or> (\<exists>p. len' = int (length p) \<and> path_found ?E x y mx p path'))"
        by (rule 1(1) [OF Cons _ F' _ y m]) (use u len small Cons in auto)
      then show ?thesis using u(1) Cons by (simp add: find_loop.simps [of _ _ _ "_ # _"])
    next
      assume "n \<ge> 0 \<and> path_stack ?E x (nat n # ps) (-1 # stack1) \<and> (back_path ?E x ps \<longrightarrow> back_path ?E x (nat n # ps))"
      then have n: "n \<ge> 0" "path_stack ?E x (nat n # ps) (-1 # stack1)" "back_path ?E x (nat n # ps)" using ps(2) by blast+
      have "nat n \<in> nat ` (set stack - {-1})" by (rule imageI) (use Cons n(1) in auto)
      then have nl: "nat n < length ns" using small by auto
      have mx: "mx \<le> int (length path)" using F by (simp add: finding_def)
      let ?path = "if len < mx then path[nat len := nat n] else path"
      have path: "?path ! i = rev (nat n # ps) ! i" if "i < length (nat n # ps)" "int i < mx" for i
        using F that len mx by (auto simp: finding_def nth_append nth_list_update)
      have fits: "\<not> (len < mx \<and> (len < 0 \<or> int (length path) \<le> len))" using mx len by auto
      show ?thesis
      proof (cases "nat n = y")
        case True
        have "find_loop ns y mx stack seen len path = Some (len + 1, ?path)"
          using Cons n(1) fits True by (auto simp: find_loop.simps [of _ _ _ "_ # _"])
        moreover have "path_found ?E x y mx (rev (nat n # ps)) ?path"
          using back_path_rev [OF n(3)] path True by (auto simp: path_found_def hd_rev last_rev)
        moreover have "len + 1 = int (length (rev (nat n # ps)))" using len by simp
        moreover have "length ?path = length path" by simp
        ultimately show ?thesis by blast
      next
        case False
        obtain stack2 seen2 where p: "push_unseen (gn_out (ns ! nat n)) (-1 # stack1) seen = (stack2, seen2)" by fastforce
        obtain vs where vs: "stack2 = map int vs @ -1 # stack1" "set vs \<subseteq> set (gn_out (ns ! nat n))"
          "set seen2 = set seen \<union> set (gn_out (ns ! nat n))" "set seen2 \<subseteq> set seen \<union> set vs" using push_unseen_eq [OF p] by blast
        have out: "w \<in> set (gn_out (ns ! nat n)) \<longleftrightarrow> (nat n, w) \<in> ?E" for w using nl by (simp add: edges_of_def)
        have "path_stack ?E x (nat n # ps) stack2"
        proof -
          obtain ws rest where w: "-1 # stack1 = map int ws @ -1 # rest" "path_stack ?E x ps rest" using n(2) by auto
          have "ws = []" using w(1) by (cases ws) auto
          then show ?thesis using w vs(1,2) out by auto
        qed
        moreover have "set seen2 \<union> {x} \<subseteq> insert (nat n) D \<union> nat ` (set stack2 - {-1})"
        proof -
          have s: "set seen \<union> {x} \<subseteq> insert (nat n) D \<union> nat ` (set stack1 - {-1})" using F Cons n(1) by (auto simp: finding_def)
          have v: "set vs \<subseteq> nat ` (set stack2 - {-1})" using vs(1) by (force simp: image_iff)
          have st: "nat ` (set stack1 - {-1}) \<subseteq> nat ` (set stack2 - {-1})" using vs(1) by auto
          have chain: "Z \<subseteq> I \<union> Y \<Longrightarrow> Y \<subseteq> X \<Longrightarrow> V \<subseteq> X \<Longrightarrow> S \<subseteq> Z \<union> V \<Longrightarrow> S \<subseteq> I \<union> X" for Z I Y X V S :: "nat set" by blast
          show ?thesis by (rule chain [OF s st v]) (use vs(4) in auto)
        qed
        ultimately have F': "finding ?E x y mx (nat n # ps) (insert (nat n) D) stack2 seen2 ?path"
          unfolding finding_def
        proof (intro conjI)
          show "back_path ?E x (nat n # ps)" by (rule n(3))
          show "mx \<le> int (length ?path)" using mx by simp
          show "\<forall>i < length (nat n # ps). int i < mx \<longrightarrow> ?path ! i = rev (nat n # ps) ! i" using path by blast
          show "\<forall>d \<in> insert (nat n) D. \<forall>w. (d, w) \<in> ?E \<longrightarrow> w \<in> set seen2" using F vs(3) out unfolding finding_def by blast
          show "y \<notin> insert (nat n) D" using F False unfolding finding_def by blast
        qed
        have small': "nat ` (set stack2 - {-1}) \<subseteq> {..<length ns}"
          using small Cons vs(1,2) mirrored_less(1) [OF m nl] by auto
        have "\<exists>len' path'. find_loop ns y mx stack2 seen2 (len + 1) ?path = Some (len', path') \<and> length path' = length ?path \<and>
            (len' = 0 \<and> (x, y) \<notin> ?E\<^sup>* \<or> (\<exists>p. len' = int (length p) \<and> path_found ?E x y mx p path'))"
          by (rule 1(2) [OF Cons _ fits refl refl refl False _ p [symmetric] refl F' _ y m small']) (use n(1) nl len in auto)
        moreover have "find_loop ns y mx stack seen len path = find_loop ns y mx stack2 seen2 (len + 1) ?path"
          using Cons n(1) fits False nl p by (auto simp: find_loop.simps [of _ _ _ "_ # _"] Let_def)
        ultimately show ?thesis by (auto split: if_splits)
      qed
    qed
  qed
qed

lemma successively_ranks:
  assumes "topological ns" "successively (\<lambda>u v. (u, v) \<in> edges_of ns) p"
  shows "sorted_wrt (<) (map (rank_of ns) p)" "distinct p"
proof -
  have "successively (<) (map (rank_of ns) p)"
    unfolding successively_map using assms by (auto simp: topological_def elim: successively_mono)
  then show s: "sorted_wrt (<) (map (rank_of ns) p)" by (simp add: successively_conv_sorted_wrt)
  then have "distinct (map (rank_of ns) p)" by (simp add: strict_sorted_iff)
  then show "distinct p" by (simp add: distinct_map)
qed

lemma successively_reaches: "p \<noteq> [] \<Longrightarrow> successively (\<lambda>u v. (u, v) \<in> E) p \<Longrightarrow> (hd p, last p) \<in> E\<^sup>*"
proof (induction p)
  case (Cons u p)
  then show ?case by (cases p) (auto intro: converse_rtrancl_into_rtrancl)
qed simp

lemma FindPath_finds:
  assumes inv: "gc_inv r" and xy: "x \<in> live r" "y \<in> live r" and mx: "mx \<le> int (length path)"
  shows "\<exists>len path'. FindPath x y mx path r = Some (len, path') \<and> length path' = length path \<and>
    (len = 0 \<and> (x, y) \<notin> (gc_edges r)\<^sup>* \<or>
     (\<exists>p. len = int (length p) \<and> path_found (gc_edges r) x y mx p path' \<and> distinct p \<and> set p \<subseteq> live r))"
proof -
  note I = gc_invD [OF inv]
  have l: "x < length (gc_nodes r)" "y < length (gc_nodes r)" using xy by (auto simp: live_def)
  have "finding (gc_edges r) x y mx [] {} [int x] [] path" using mx by (simp add: finding_def)
  from find_loop_correct [OF this _ l(2) I(1), of 0] l(1) obtain len path' where
    f: "FindPath x y mx path r = Some (len, path')" "length path' = length path"
    "len = 0 \<and> (x, y) \<notin> (gc_edges r)\<^sup>* \<or> (\<exists>p. len = int (length p) \<and> path_found (gc_edges r) x y mx p path')"
    by (auto simp: FindPath_def)
  have "distinct p \<and> set p \<subseteq> live r" if p: "path_found (gc_edges r) x y mx p path'" for p
  proof
    have s: "successively (\<lambda>u v. (u, v) \<in> gc_edges r) p" using p by (simp add: path_found_def)
    then show "distinct p" by (rule successively_ranks(2) [OF I(3)])
    have "successively (\<lambda>u v. (u, v) \<in> gc_edges r) q \<Longrightarrow> hd q \<in> live r \<Longrightarrow> set q \<subseteq> live r" for q
      by (induction q rule: induct_list012) (use I(7) in auto)
    then show "set p \<subseteq> live r" using s p xy(1) by (simp add: path_found_def)
  qed
  then show ?thesis using f by blast
qed

lemma IsReachable_eq:
  assumes inv: "gc_inv r" and xy: "x \<in> live r" "y \<in> live r"
  shows "IsReachable x y r = Some ((x, y) \<in> (gc_edges r)\<^sup>*)"
proof -
  obtain len path' where f: "FindPath x y 0 [] r = Some (len, path')"
    "len = 0 \<and> (x, y) \<notin> (gc_edges r)\<^sup>* \<or> (\<exists>p. len = int (length p) \<and> path_found (gc_edges r) x y 0 p path')"
    using FindPath_finds [OF inv xy, of 0 "[]"] by auto
  have "path_found (gc_edges r) x y 0 p path' \<Longrightarrow> (x, y) \<in> (gc_edges r)\<^sup>* \<and> 0 < length p" for p
    using successively_reaches [of p "gc_edges r"] by (auto simp: path_found_def)
  then have "0 < len \<longleftrightarrow> (x, y) \<in> (gc_edges r)\<^sup>*" using f(2) by auto
  then show ?thesis using f(1) by (simp add: IsReachable_def)
qed

section \<open>New nodes and the checks\<close>

lemma NewNode_adds:
  assumes inv: "gc_inv r" and room: "free_nodes r \<noteq> [] \<or> length (gc_nodes r) < 2 ^ 31"
  shows "\<exists>x r'. NewNode r = Some (x, r') \<and> gc_inv r' \<and> x \<notin> live r \<and> live r' = insert x (live r) \<and> gc_edges r' = gc_edges r"
proof -
  let ?ns = "gc_nodes r"
  note I = gc_invD [OF inv]
  show ?thesis
  proof (cases "free_nodes r = []")
    case True
    let ?x = "length ?ns" let ?new = "\<lparr>gn_rank = ?x, gn_visited = False, gn_data = 0, gn_in = [], gn_out = []\<rparr>"
    let ?r = "r\<lparr>gc_nodes := ?ns @ [?new]\<rparr>"
    have E: "gc_edges ?r = gc_edges r" by (auto simp: edges_of_def nth_append split: if_splits)
    have L: "live ?r = insert ?x (live r)" using True by (auto simp: live_def)
    have "gc_inv ?r"
    proof (rule gc_invI)
      show "mirrored (gc_nodes ?r)"
      proof (rule mirroredI)
        fix i j assume i: "i < length (gc_nodes ?r)"
        then have i': "i < length ?ns \<or> i = ?x" by auto
        show "distinct (gn_out (gc_nodes ?r ! i))" "distinct (gn_in (gc_nodes ?r ! i))"
          using i' mirroredD(1,2) [OF I(1), of i] by (auto simp: nth_append)
        show "j \<in> set (gn_out (gc_nodes ?r ! i)) \<Longrightarrow> j < length (gc_nodes ?r)" "j \<in> set (gn_in (gc_nodes ?r ! i)) \<Longrightarrow> j < length (gc_nodes ?r)"
          using i' mirrored_less [OF I(1), of i j] by (auto simp: nth_append split: if_splits)
        assume j: "j < length (gc_nodes ?r)"
        have "j \<in> set (gn_out (?ns ! i)) \<Longrightarrow> i < ?x \<Longrightarrow> j < ?x" "i \<in> set (gn_in (?ns ! j)) \<Longrightarrow> j < ?x \<Longrightarrow> i < ?x"
          using mirrored_less [OF I(1)] by blast+
        then show "j \<in> set (gn_out (gc_nodes ?r ! i)) \<longleftrightarrow> i \<in> set (gn_in (gc_nodes ?r ! j))"
          using i j mirroredD(5) [OF I(1), of i j] by (cases "i < ?x"; cases "j < ?x") (auto simp: nth_append)
      qed
      show "ranked (gc_nodes ?r)" using I(2) by (auto simp: ranked_def)
      show "topological (gc_nodes ?r)" using I(3) edges_of_mem [OF I(1)] unfolding topological_def E by (auto simp: nth_append)
      show "unmarked (gc_nodes ?r)" using I(4) by (auto simp: unmarked_def nth_append)
      show "gc_edges ?r \<subseteq> live ?r \<times> live ?r" unfolding E L using I(7) by auto
    qed (use I True in auto)
    moreover have "NewNode r = Some (?x, ?r)" using True room by (simp add: NewNode_def)
    ultimately show ?thesis using E L by (intro exI [of _ ?x] exI [of _ ?r]) (simp add: live_def)
  next
    case False
    let ?x = "last (free_nodes r)"
    let ?r = "r\<lparr>gc_nodes := ?ns[?x := (?ns ! ?x)\<lparr>gn_data := 0\<rparr>], free_nodes := butlast (free_nodes r)\<rparr>"
    have x: "?x < length ?ns" "?x \<in> set (free_nodes r)" using I(6) False by (auto dest: last_in_set)
    have free: "butlast (free_nodes r) @ [?x] = free_nodes r" using False by simp
    have d: "distinct (butlast (free_nodes r) @ [?x])" unfolding free by (rule I(5))
    have s: "set (butlast (free_nodes r) @ [?x]) = set (free_nodes r)" by (simp only: free)
    have nf: "?x \<notin> set (butlast (free_nodes r))" "distinct (butlast (free_nodes r))" "set (free_nodes r) = insert ?x (set (butlast (free_nodes r)))"
    proof -
      show "?x \<notin> set (butlast (free_nodes r))" using d unfolding distinct_append by simp
      show "distinct (butlast (free_nodes r))" using d unfolding distinct_append by blast
      show "set (free_nodes r) = insert ?x (set (butlast (free_nodes r)))" using s unfolding set_append by auto
    qed
    have N: "gn_in (gc_nodes ?r ! i) = gn_in (?ns ! i) \<and> gn_out (gc_nodes ?r ! i) = gn_out (?ns ! i) \<and> gn_rank (gc_nodes ?r ! i) = gn_rank (?ns ! i) \<and>
        gn_visited (gc_nodes ?r ! i) = gn_visited (?ns ! i)" if "i < length ?ns" for i
      using that by (cases "i = ?x") auto
    have S: "same_edges ?ns (gc_nodes ?r)" "same_ranks ?ns (gc_nodes ?r)" using N by (simp_all add: same_edges_def same_ranks_def)
    note M = same_edges_mirrored [OF S(1)]
    have L: "live ?r = insert ?x (live r)" using x nf by (auto simp: live_def)
    have "gc_inv ?r"
    proof (rule gc_invI)
      show "mirrored (gc_nodes ?r)" using M I(1) by blast
      show "ranked (gc_nodes ?r)" using same_ranks_ranked [OF S(2)] I(2) by blast
      show "topological (gc_nodes ?r)" by (rule same_ranks_topological [OF S(2) I(1) _ I(3)]) (simp only: M order.refl)
      show "unmarked (gc_nodes ?r)" using N I(4) by (simp add: unmarked_def)
      show "gc_edges ?r \<subseteq> live ?r \<times> live ?r" unfolding L using M(2) I(7) by auto
      show "distinct (free_nodes ?r)" "set (free_nodes ?r) \<subseteq> {..<length (gc_nodes ?r)}" using nf I(6) by auto
    qed
    moreover have "NewNode r = Some (?x, ?r)" using False x by (simp add: NewNode_def Let_def)
    ultimately show ?thesis using M(2) L x by (intro exI [of _ ?x] exI [of _ ?r]) (simp add: live_def)
  qed
qed

lemma check_edges_ok: "\<forall>y \<in> set ys. y < length ns \<and> gn_rank nx < rank_of ns y \<Longrightarrow> check_edges ns nx ys = Some True"
  by (induction ys) auto

lemma check_nodes_ok:
  assumes "\<forall>x \<in> set xs. \<not> gn_visited x \<and> (\<forall>y \<in> set (gn_out x). y < length ns \<and> gn_rank x < rank_of ns y)"
    "distinct (map gn_rank xs)" "set (map gn_rank xs) \<inter> set ranks = {}"
  shows "check_nodes ns xs ranks = Some True"
  using assms by (induction xs arbitrary: ranks) (auto simp: check_edges_ok)

lemma CheckInvariants_ok:
  assumes inv: "gc_inv r"
  shows "CheckInvariants r = Some True"
proof -
  let ?ns = "gc_nodes r"
  note I = gc_invD [OF inv]
  have "\<not> gn_visited x \<and> (\<forall>y \<in> set (gn_out x). y < length ?ns \<and> gn_rank x < rank_of ?ns y)" if "x \<in> set ?ns" for x
  proof -
    obtain i where i: "i < length ?ns" "x = ?ns ! i" using \<open>x \<in> set ?ns\<close> by (auto simp: in_set_conv_nth)
    have "y < length ?ns \<and> rank_of ?ns i < rank_of ?ns y" if "y \<in> set (gn_out (?ns ! i))" for y
    proof -
      have "(i, y) \<in> edges_of ?ns" using i(1) that by (simp add: edges_of_def)
      then show ?thesis using I(3) edges_of_mem [OF I(1)] by (auto simp: topological_def)
    qed
    then show ?thesis using i I(4) by (auto simp: unmarked_def)
  qed
  then show ?thesis unfolding CheckInvariants_def by (intro check_nodes_ok) (use I(2) in \<open>auto simp: ranked_def\<close>)
qed

section \<open>Sequences of calls\<close>

datatype gc_call = CallNew | CallRemove nat | CallSetData nat nat | CallInsert nat nat | CallErase nat nat | CallContract nat nat

fun gc_step :: "placement \<Rightarrow> gc_call \<Rightarrow> gc_rep \<Rightarrow> gc_rep option" where
  "gc_step place CallNew r = map_option snd (NewNode r)"
| "gc_step place (CallRemove x) r = gc_RemoveNode x r"
| "gc_step place (CallSetData x d) r = SetNodeData x d r"
| "gc_step place (CallInsert x y) r = map_option snd (InsertEdge place x y r)"
| "gc_step place (CallErase x y) r = gc_RemoveEdge x y r"
| "gc_step place (CallContract a b) r = map_option snd (ContractEdge place a b r)"

text \<open>The contract of the interface: node ids in use, fewer than \<open>2 ^ 31\<close> nodes, and an edge to contract.\<close>

fun gc_allowed :: "gc_call \<Rightarrow> gc_rep \<Rightarrow> bool" where
  "gc_allowed CallNew r \<longleftrightarrow> free_nodes r \<noteq> [] \<or> length (gc_nodes r) < 2 ^ 31"
| "gc_allowed (CallRemove x) r \<longleftrightarrow> x \<in> live r"
| "gc_allowed (CallSetData x d) r \<longleftrightarrow> x \<in> live r"
| "gc_allowed (CallInsert x y) r \<longleftrightarrow> x \<in> live r \<and> y \<in> live r"
| "gc_allowed (CallErase x y) r \<longleftrightarrow> x \<in> live r \<and> y \<in> live r"
| "gc_allowed (CallContract a b) r \<longleftrightarrow> (a, b) \<in> gc_edges r"

inductive gc_reached :: "placement \<Rightarrow> gc_rep \<Rightarrow> bool" for place where
  gc_start: "gc_reached place GraphCycles"
| gc_call: "gc_reached place r \<Longrightarrow> gc_allowed c r \<Longrightarrow> gc_step place c r = Some r' \<Longrightarrow> gc_reached place r'"

lemma GraphCycles_inv: "gc_inv GraphCycles"
  by (simp add: GraphCycles_def gc_inv_def mirrored_def ranked_def topological_def edges_of_def unmarked_def)

lemma gc_step_inv:
  assumes inv: "gc_inv r" and place: "good_place place" and ok: "gc_allowed c r"
  shows "\<exists>r'. gc_step place c r = Some r' \<and> gc_inv r'"
proof (cases c)
  case CallNew
  then show ?thesis using NewNode_adds [OF inv] ok by auto
next
  case (CallRemove x)
  then show ?thesis using RemoveNode_eq [OF inv, of x] isolated_inv(1) [OF inv, of x] ok by auto
next
  case (CallSetData x d)
  let ?ns = "(gc_nodes r)[x := (gc_nodes r ! x)\<lparr>gn_data := d\<rparr>]"
  note I = gc_invD [OF inv]
  have x: "x < length (gc_nodes r)" using ok CallSetData by (auto simp: live_def)
  have N: "gn_in (?ns ! i) = gn_in (gc_nodes r ! i) \<and> gn_out (?ns ! i) = gn_out (gc_nodes r ! i) \<and> gn_rank (?ns ! i) = gn_rank (gc_nodes r ! i) \<and>
      gn_visited (?ns ! i) = gn_visited (gc_nodes r ! i)" if "i < length (gc_nodes r)" for i
    using that by (cases "i = x") auto
  have S: "same_edges (gc_nodes r) ?ns" "same_ranks (gc_nodes r) ?ns" using N by (simp_all add: same_edges_def same_ranks_def)
  note M = same_edges_mirrored [OF S(1)]
  have "gc_inv (r\<lparr>gc_nodes := ?ns\<rparr>)"
  proof (rule gc_invI)
    show "topological (gc_nodes (r\<lparr>gc_nodes := ?ns\<rparr>))"
      using same_ranks_topological [OF S(2) I(1) _ I(3)] M(2) by simp
    show "gc_edges (r\<lparr>gc_nodes := ?ns\<rparr>) \<subseteq> live (r\<lparr>gc_nodes := ?ns\<rparr>) \<times> live (r\<lparr>gc_nodes := ?ns\<rparr>)"
      using M(2) I(7) by (simp add: live_def)
    show "unmarked (gc_nodes (r\<lparr>gc_nodes := ?ns\<rparr>))" using N I(4) by (simp add: unmarked_def)
  qed (use I M same_ranks_ranked [OF S(2)] in simp_all)
  then show ?thesis using CallSetData x by (simp add: SetNodeData_def)
next
  case (CallInsert x y)
  then show ?thesis using InsertEdge_inserts [OF inv place, of x y] ok by (auto simp: inserts_def)
next
  case (CallErase x y)
  then show ?thesis using RemoveEdge_inv [OF inv, of x y] ok by auto
next
  case (CallContract a b)
  then show ?thesis using ContractEdge_contracts [OF inv place, of a b] ok by auto
qed

lemma gc_reached_inv: "gc_reached place r \<Longrightarrow> good_place place \<Longrightarrow> gc_inv r"
proof (induction rule: gc_reached.induct)
  case (gc_call r c r')
  then show ?case using gc_step_inv [of r place c] by auto
qed (rule GraphCycles_inv)

section \<open>The guarantees\<close>

text \<open>A small graph for the witnesses: three nodes, made in order, and the edges from 2 to 0 and from 0 to 1.\<close>

definition demo_calls :: "gc_call list" where
  "demo_calls = [CallNew, CallNew, CallNew, CallInsert 2 0, CallInsert 0 1]"

fun gc_steps :: "placement \<Rightarrow> gc_call list \<Rightarrow> gc_rep \<Rightarrow> gc_rep option" where
  "gc_steps place [] r = Some r"
| "gc_steps place (c # cs) r = (case gc_step place c r of None \<Rightarrow> None | Some r \<Rightarrow> gc_steps place cs r)"

definition demo_cycles :: gc_rep where
  "demo_cycles = \<lparr>gc_nodes = [\<lparr>gn_rank = 1, gn_visited = False, gn_data = 0, gn_in = [2], gn_out = [1]\<rparr>,
     \<lparr>gn_rank = 2, gn_visited = False, gn_data = 0, gn_in = [0], gn_out = []\<rparr>,
     \<lparr>gn_rank = 0, gn_visited = False, gn_data = 0, gn_in = [], gn_out = [0]\<rparr>], free_nodes = []\<rparr>"

lemma demo_steps: "gc_steps (#) demo_calls GraphCycles = Some demo_cycles"
  by (simp add: demo_calls_def demo_cycles_def GraphCycles_def NewNode_def InsertEdge_def gc_node_at_def ForwardDFS_def BackwardDFS_def
      set_insert_def dfs_walk.simps Reorder_def Sort_def)

lemma good_Cons: "good_place (#)"
  by (simp add: good_place_def)

lemma demo_live: "live demo_cycles = {0, 1, 2}"
  by (auto simp: live_def demo_cycles_def)

lemma demo_edges: "gc_edges demo_cycles = {(2, 0), (0, 1)}"
  by (auto simp: edges_of_def demo_cycles_def less_Suc_eq numeral_3_eq_3 numeral_2_eq_2)

lemma demo_inv: "gc_inv demo_cycles"
proof (rule gc_invI)
  show "mirrored (gc_nodes demo_cycles)" "unmarked (gc_nodes demo_cycles)"
    by (auto simp: mirrored_def unmarked_def demo_cycles_def less_Suc_eq numeral_3_eq_3 numeral_2_eq_2)
  show "ranked (gc_nodes demo_cycles)" by (auto simp: ranked_def demo_cycles_def)
  show "topological (gc_nodes demo_cycles)" unfolding topological_def demo_edges by (simp add: demo_cycles_def)
  show "gc_edges demo_cycles \<subseteq> live demo_cycles \<times> live demo_cycles" unfolding demo_edges demo_live by auto
qed (simp_all add: demo_cycles_def)

text \<open>
  C4. \<^verbatim>\<open>InsertEdge\<close> decides acyclicity: between nodes in use it always returns, says true exactly if the graph
  with the new edge has no cycle, and then adds just that edge; otherwise the graph and all ranks are as before.
  The ranks stay a topological numbering, whatever the iteration order of the hash sets.
\<close>

theorem insert_edge_exact:
  assumes "gc_inv r" and "good_place place" and "x \<in> live r" and "y \<in> live r"
  shows "\<exists>b r'. InsertEdge place x y r = Some (b, r') \<and> gc_inv r' \<and> (b \<longleftrightarrow> acyclic (insert (x, y) (gc_edges r))) \<and>
    gc_edges r' = (if b then insert (x, y) (gc_edges r) else gc_edges r) \<and> live r' = live r \<and> kept r r' \<and>
    (b \<or> same_ranks (gc_nodes r) (gc_nodes r'))"
  using InsertEdge_inserts [OF assms] kept_live unfolding inserts_def by blast

lemma insert_edge_exact_witness:
  "\<exists>b r'. InsertEdge (#) 1 2 demo_cycles = Some (b, r') \<and> (b \<longleftrightarrow> acyclic {(1, 2), (2, 0), (0, 1 :: nat)}) \<and> live r' = {0, 1, 2}"
  using insert_edge_exact [OF demo_inv good_Cons, of 1 2] unfolding demo_live demo_edges by auto

text \<open>
  C9. \<^verbatim>\<open>ContractEdge\<close> merges the ends of an edge exactly if the merged graph has no cycle: then the second node is
  freed and its edges are those of the first; otherwise the graph is as before. None of its insertions fails.
\<close>

theorem contract_edge_exact:
  assumes "gc_inv r" and "good_place place" and "(a, b) \<in> gc_edges r"
  shows "\<exists>c r'. ContractEdge place a b r = Some (c, r') \<and> gc_inv r' \<and> (c \<longleftrightarrow> acyclic (contracted a b (gc_edges r))) \<and>
    gc_edges r' = (if c then contracted a b (gc_edges r) else gc_edges r) \<and> live r' = (if c then live r - {b} else live r)"
  by (rule ContractEdge_contracts [OF assms])

lemma contract_edge_exact_witness:
  "\<exists>c r'. ContractEdge (#) 2 0 demo_cycles = Some (c, r') \<and> (c \<longleftrightarrow> acyclic (contracted 2 0 {(2, 0), (0, 1)})) \<and>
     live r' = (if c then {1, 2} else {0, 1, 2})"
proof -
  have e: "(2, 0) \<in> gc_edges demo_cycles" by (simp add: demo_edges)
  have l: "{0, 1, 2} - {0} = {1, 2 :: nat}" by auto
  show ?thesis using contract_edge_exact [OF demo_inv good_Cons e] unfolding demo_live demo_edges l by blast
qed

text \<open>
  C25. Both reachability queries are exact and agree: \<^verbatim>\<open>IsReachable\<close>, the search for a path, and
  \<^verbatim>\<open>IsReachableNonConst\<close>, the search bounded by ranks, return whether there is a path, and the latter
  leaves the graph and all its markers as they were.
\<close>

theorem reachability_exact:
  assumes "gc_inv r" and "x \<in> live r" and "y \<in> live r"
  shows "IsReachable x y r = Some ((x, y) \<in> (gc_edges r)\<^sup>*) \<and> IsReachableNonConst x y r = Some ((x, y) \<in> (gc_edges r)\<^sup>*, r)"
  using IsReachable_eq [OF assms] IsReachableNonConst_eq [OF assms] by blast

lemma reachability_exact_witness: "IsReachable 2 1 demo_cycles = Some True \<and> IsReachableNonConst 2 1 demo_cycles = Some (True, demo_cycles)"
proof -
  have "(2, 1) \<in> (gc_edges demo_cycles)\<^sup>*"
    unfolding demo_edges by (rule converse_rtrancl_into_rtrancl [of _ 0]) auto
  then show ?thesis using reachability_exact [OF demo_inv, of 2 1] by (simp add: demo_live)
qed

text \<open>
  C24. \<^verbatim>\<open>FindPath\<close> returns 0 exactly if there is no path, and otherwise the length of a path without repeated
  nodes whose first \<^verbatim>\<open>max_path_len\<close> nodes it has written into the caller's array, never outside it.
\<close>

theorem find_path_exact:
  assumes "gc_inv r" and "x \<in> live r" and "y \<in> live r" and "max_path_len \<le> int (length path)"
  shows "\<exists>n path'. FindPath x y max_path_len path r = Some (n, path') \<and> length path' = length path \<and>
    (if (x, y) \<in> (gc_edges r)\<^sup>*
     then \<exists>p. n = int (length p) \<and> p \<noteq> [] \<and> hd p = x \<and> last p = y \<and> successively (\<lambda>u v. (u, v) \<in> gc_edges r) p \<and> distinct p \<and>
       set p \<subseteq> live r \<and> (\<forall>i < length p. int i < max_path_len \<longrightarrow> path' ! i = p ! i)
     else n = 0)"
proof -
  obtain n path' where f: "FindPath x y max_path_len path r = Some (n, path')" "length path' = length path"
    "n = 0 \<and> (x, y) \<notin> (gc_edges r)\<^sup>* \<or>
     (\<exists>p. n = int (length p) \<and> path_found (gc_edges r) x y max_path_len p path' \<and> distinct p \<and> set p \<subseteq> live r)"
    using FindPath_finds [OF assms] by blast
  have "(x, y) \<in> (gc_edges r)\<^sup>*" if "path_found (gc_edges r) x y max_path_len p path'" for p
    using that successively_reaches [of p "gc_edges r"] by (auto simp: path_found_def)
  then show ?thesis using f by (auto simp: path_found_def)
qed

lemma find_path_exact_witness:
  "\<exists>n path' (p :: nat list). FindPath 2 1 5 [9, 9, 9, 9, 9] demo_cycles = Some (n, path') \<and> n = int (length p) \<and> hd p = 2 \<and> last p = 1 \<and> distinct p"
proof -
  have "(2, 1) \<in> (gc_edges demo_cycles)\<^sup>*"
    unfolding demo_edges by (rule converse_rtrancl_into_rtrancl [of _ 0]) auto
  then show ?thesis using find_path_exact [OF demo_inv, of 2 1 5 "[9, 9, 9, 9, 9]"] by (auto simp: demo_live)
qed

text \<open>
  C20. The graph stays acyclic through any sequence of calls that keeps to the interface (ids in use, fewer than
  two to the 31 nodes, an existing edge to contract): every call returns, no index leaves its array, \<^verbatim>\<open>CheckInvariants\<close>
  never dies, and there is never a cycle.
\<close>

theorem cycles_never_arise:
  assumes "gc_reached place r" and "good_place place"
  shows "acyclic (gc_edges r) \<and> CheckInvariants r = Some True \<and> (\<forall>c. gc_allowed c r \<longrightarrow> gc_step place c r \<noteq> None)"
proof -
  have inv: "gc_inv r" by (rule gc_reached_inv [OF assms])
  then show ?thesis using gc_inv_acyclic CheckInvariants_ok gc_step_inv [OF inv assms(2)] by blast
qed

lemma cycles_never_arise_witness: "acyclic (gc_edges GraphCycles) \<and> CheckInvariants GraphCycles = Some True \<and> gc_step (#) CallNew GraphCycles \<noteq> None"
proof -
  have "gc_allowed CallNew GraphCycles" by (simp add: GraphCycles_def)
  then show ?thesis using cycles_never_arise [OF gc_start good_Cons] by blast
qed

end
