(* ===== verification/Spec2Isabelle.thy ===== *)
theory Spec2Isabelle
  imports TF_Prelude TF_Coding TF_Bits TF_OrderedCode TF_Shape TF_Strings TF_TensorSlice TF_BFC TF_BFC_Ops TF_Allocator
    TF_Crc32c TF_Hash TF_Block TF_TwoLevel TF_Table TF_TableBuild TF_PendingCounts TF_Graph TF_GraphAlgo
    TF_Executor TF_ExecutorInv TF_ExecutorRun TF_ExecutorSteps TF_ExecutorMain TF_ExecutorCorrect TF_ExecutorInit
    TF_GraphCycles TF_GraphCyclesOps
begin

text \<open>
  \<^bold>\<open>A verification development for the native part of the app.\<close>

  The app links TensorFlow, whose C++ is in the tree under \<^verbatim>\<open>src/app/src/main/cpp/tensorflow\<close>; all
  file names below are relative to its directory \<^verbatim>\<open>core\<close>, unless they start with \<^verbatim>\<open>compiler\<close>. A model is loaded from a checkpoint
  or a serialized graph, turned into a dataflow graph, and run by the executor on the CPU. This
  development models and verifies the parts that carry that logic: the storage formats, the memory
  allocator, the graph, and the executor.

  \<^bold>\<open>Parts and how they interact.\<close> A checkpoint is a sorted string table. Its keys are made by
  \<^verbatim>\<open>util/saved_tensor_slice_util.cc\<close> from a tensor name and a slice, with the order preserving codes
  of \<^verbatim>\<open>lib/strings/ordered_code.cc\<close>; its blocks hold varints of \<^verbatim>\<open>lib/core/coding.cc\<close>; each block
  ends in a CRC-32C of \<^verbatim>\<open>lib/hash/crc32c.cc\<close>; an index block and a footer lead a reader to the
  data blocks. Tensors have shapes and live in memory of the best-fit allocator. The graph of nodes
  and edges is built and pruned; the executor keeps, for each frame and iteration, the pending and
  dead counts of each node in a \<open>PendingCounts\<close> array and runs a node when its inputs have arrived. The just-in-time
  compiler, which clusters the nodes of a graph, asks a cycle detector (\<^verbatim>\<open>compiler/jit/graphcycles\<close>) before it merges two
  clusters.

  \<^bold>\<open>Theories.\<close>
  \<^item> \<open>TF_Prelude\<close>: bytes, status values, \<open>StringPiece\<close> comparison (\<^verbatim>\<open>lib/core/stringpiece.h\<close>), the
    interfaces \<open>codec\<close> and \<open>ordered_codec\<close> that the formats are interpretations of.
  \<^item> \<open>TF_Coding\<close>: \<^verbatim>\<open>lib/core/{coding,raw_coding}\<close>. Round trips, minimal and maximal lengths, rejection of
    truncated varints.
  \<^item> \<open>TF_Bits\<close>: \<^verbatim>\<open>lib/core/bits.h\<close>. The builtin and the portable logarithm agree and are the logarithm;
    \<open>NextPowerOfTwo\<close> and its truncating 64-bit variant.
  \<^item> \<open>TF_OrderedCode\<close>: \<^verbatim>\<open>lib/strings/ordered_code.cc\<close>. Every code can be read back, and the byte order of
    codes is the order of the values, also under concatenation.
  \<^item> \<open>TF_Shape\<close>: \<^verbatim>\<open>framework/tensor_shape.{h,cc}\<close>, \<^verbatim>\<open>util/overflow.h\<close>. The three representations refine a list
    of dimensions; the overflow check is exact; constructors fail just on invalid shapes.
  \<^item> \<open>TF_Strings\<close>: \<^verbatim>\<open>lib/strings/{numbers,str_util}\<close>. Parsers accept exactly their grammar and range;
    printing, escaping and splitting round trips.
  \<^item> \<open>TF_TensorSlice\<close>: \<^verbatim>\<open>framework/tensor_slice.{h,cc}\<close>, \<^verbatim>\<open>util/saved_tensor_slice_util.cc\<close>. Slices as sets of
    indices, intersection, and the table keys.
  \<^item> \<open>TF_BFC\<close>, \<open>TF_BFC_Ops\<close>, \<open>TF_Allocator\<close>: \<^verbatim>\<open>common_runtime/{bfc_allocator,allocator_retry}\<close>. The state (chunks,
    regions, bins, free list) and every operation; the invariant, clause by clause, kept by every operation;
    the contract \<open>raw_allocator\<close> for clients, interpreted on the model, with blocks disjoint, aligned and
    inside the regions; the retrying wrapper.
  \<^item> \<open>TF_Crc32c\<close>: \<^verbatim>\<open>lib/hash/{crc32c,crc32c_accelerate}\<close>. The table-driven, unrolled and SSE paths equal the
    bitwise checksum, which detects every burst of up to 32 bits.
  \<^item> \<open>TF_Hash\<close>: \<^verbatim>\<open>lib/hash/hash.{h,cc}\<close>. The 32-bit and 64-bit hashes; strings that differ in one block of
    eight bytes never collide.
  \<^item> \<open>TF_Block\<close>, \<open>TF_TwoLevel\<close>, \<open>TF_Table\<close>, \<open>TF_TableBuild\<close>: \<^verbatim>\<open>lib/io/{block_builder,block,iterator,two_level_iterator,format,table_builder,table}\<close>.
    What a builder writes a reader reads back; \<open>Seek\<close> finds the first key not below the target; lookups; detected corruption.
    \<open>kv_iterator\<close> is the contract of an iterator, kept by the blocks and by their concatenation.
  \<^item> \<open>TF_PendingCounts\<close>: \<^verbatim>\<open>common_runtime/pending_counts.h\<close>, on the bytes, refining one unbounded record per node.
  \<^item> \<open>TF_Graph\<close>, \<open>TF_GraphAlgo\<close>: \<^verbatim>\<open>graph/{edgeset,graph,algorithm}\<close>. The graph invariant (the two edge sets of a
    node mirror the edges), the operations as updates of the set of edges, depth-first orders, pruning, source and sink.
  \<^item> \<open>TF_Executor\<close>: \<^verbatim>\<open>common_runtime/executor.cc\<close>, with attribute lookup from \<^verbatim>\<open>framework/node_def_util.cc\<close>. The view of
    the graph, control flow analysis and initialization; frames and iterations; activation, preparation of inputs,
    propagation; the ready queues and \<open>NodeDone\<close>. A run is a sequence of steps of threads (\<open>exec_step\<close>,
    \<open>exec_run\<close>): each critical section and each atomic operation of the code is one step, kernels return
    anything at any time, and the order of the steps is arbitrary.
  \<^item> \<open>TF_ExecutorInv\<close>, \<open>TF_ExecutorRun\<close>, \<open>TF_ExecutorSteps\<close>: the counts are a function of what has arrived, and the global
    invariant: every node made ready is in exactly one queue, thread or kernel, or is finished; the count of
    outstanding ops is their number; the first error is kept. Every step keeps it.
  \<^item> \<open>TF_ExecutorMain\<close>, \<open>TF_ExecutorCorrect\<close>: what follows for runs: safety, order, dataflow, a single truthful report,
    a bound on every schedule, no deadlock, and every node run once; with a small graph as the witness.
  \<^item> \<open>TF_ExecutorInit\<close>: what \<open>Initialize\<close> makes of a graph without frames is the view and the state from which those
    theorems start, so they hold of graphs: nodes run after their sources, and all of them run.
  \<^item> \<open>TF_GraphCycles\<close>, \<open>TF_GraphCyclesOps\<close>: \<^verbatim>\<open>compiler/jit/graphcycles/graphcycles.cc\<close>. A graph kept acyclic with a topological
    rank per node: the bounded searches and the reordering of \<open>InsertEdge\<close>, its undo on failure, \<open>ContractEdge\<close>, path search.
    An edge is refused exactly when it would close a cycle, and no sequence of operations makes one.

  \<^bold>\<open>Conventions.\<close> An operation that may fail a \<^verbatim>\<open>CHECK\<close>, leave an array, dereference a null pointer or not
  return is a function into an option type, and \<open>None\<close> is that case; so a theorem that a result is \<open>Some\<close>
  says that none of this happens. Errors that the code returns are values of \<open>status\<close>. Words are used where
  wrap-around matters (\<open>uint32\<close>, \<open>uint64\<close>), otherwise naturals and integers with the bound written out.
  Loops that may not end are partial functions in the option monad; theorems on them show that a result
  exists. No fuel is used. Code outside the tree (the op registry, devices, sub-allocators, files, the compression
  library, SSE intrinsics, memory addresses) is a parameter; what is relied on is a hypothesis, and each such theorem
  has a witness with a concrete instance.

  \<^bold>\<open>Not modelled.\<close> Kernels and shape functions (floating point, Eigen), the op registry's contents,
  protobuf parsing, sessions and placement, the distributed runtime, the stream executor and GPU code, the
  XLA compiler (but for its cycle detector), the vendored RTMP library, and the JNI and object tracking code of the app, which is image processing in
  floating point. Inside the modelled files: logging, statistics and debug dumps, allocator attributes
  and device contexts of the executor, locks as such (a critical section is one step), floating point
  parsing and printing. The theorems on runs of the executor are for graphs without \<open>Enter\<close>, \<open>Exit\<close> and
  \<open>NextIteration\<close> nodes; the steps of those nodes are modelled, and their properties are left to an extension.
\<close>

end
